(* ===== verification/Prelude.thy ===== *)
theory Prelude
  imports Main "HOL-Library.AList" "HOL-Library.Char_ord" "HOL-Library.List_Lexorder"
    "HOL-Library.Multiset"
begin

text \<open>
  Shared vocabulary of the development: Go's fixed-width signed integers as \<open>int\<close> with the
  wrap-around written out, run-time panics as values of a sum type, Go maps as association
  lists (where the code ranges over them) and the loops over slices that may panic.
\<close>

named_theorems wrap_simps \<open>normal forms of wrapped integer arithmetic\<close>
named_theorems go_simps \<open>evaluation of the panic monad\<close>

section \<open>Fixed-width signed integers\<close>

text \<open>
  \<open>swrap w x\<close> is the value an \<open>intw\<close> variable holds after \<open>x\<close> is stored in it: two's
  complement, modulo \<open>2 ^ w\<close>, in the range from \<open>- 2 ^ (w - 1)\<close> to \<open>2 ^ (w - 1) - 1\<close>.
\<close>

definition swrap :: "nat \<Rightarrow> int \<Rightarrow> int" where
  "swrap w x = (x + 2 ^ (w - 1)) mod 2 ^ w - 2 ^ (w - 1)"

abbreviation int16 :: "int \<Rightarrow> int" where "int16 \<equiv> swrap 16"
abbreviation int32 :: "int \<Rightarrow> int" where "int32 \<equiv> swrap 32"
abbreviation int64 :: "int \<Rightarrow> int" where "int64 \<equiv> swrap 64"

definition in_int :: "nat \<Rightarrow> int \<Rightarrow> bool" where
  "in_int w x \<longleftrightarrow> - (2 ^ (w - 1)) \<le> x \<and> x < 2 ^ (w - 1)"

abbreviation MaxInt64 :: int where "MaxInt64 \<equiv> 9223372036854775807"
abbreviation MaxInt16 :: int where "MaxInt16 \<equiv> 32767"

lemma half_power: "0 < w \<Longrightarrow> (2::int) ^ w = 2 * 2 ^ (w - 1)"
  by (cases w) auto

lemma swrap_in_int: "0 < w \<Longrightarrow> in_int w (swrap w x)"
  unfolding in_int_def swrap_def by (simp add: half_power)

lemma swrap_id [wrap_simps]: "in_int w x \<Longrightarrow> 0 < w \<Longrightarrow> swrap w x = x"
  unfolding in_int_def swrap_def by (simp add: half_power)

lemma swrap_cong: "x mod 2 ^ w = y mod 2 ^ w \<Longrightarrow> swrap w x = swrap w y"
  unfolding swrap_def by (metis mod_add_left_eq)

lemma swrap_mod: "swrap w x mod 2 ^ w = x mod 2 ^ w"
  unfolding swrap_def by (metis add_diff_cancel_right' mod_diff_left_eq)

lemma swrap_eq_iff: "swrap w x = swrap w y \<longleftrightarrow> x mod 2 ^ w = y mod 2 ^ w"
  by (metis swrap_cong swrap_mod)

lemma swrap_swrap [wrap_simps]: "swrap w (swrap w x) = swrap w x"
  by (rule swrap_cong) (rule swrap_mod)

lemma swrap_add_left [wrap_simps]: "swrap w (swrap w x + y) = swrap w (x + y)"
  by (rule swrap_cong) (metis mod_add_left_eq swrap_mod)

lemma swrap_add_right [wrap_simps]: "swrap w (x + swrap w y) = swrap w (x + y)"
  by (rule swrap_cong) (metis mod_add_right_eq swrap_mod)

lemma swrap_diff_left [wrap_simps]: "swrap w (swrap w x - y) = swrap w (x - y)"
  by (rule swrap_cong) (metis mod_diff_left_eq swrap_mod)

lemma swrap_diff_right [wrap_simps]: "swrap w (x - swrap w y) = swrap w (x - y)"
  by (rule swrap_cong) (metis mod_diff_right_eq swrap_mod)

lemma swrap_uminus [wrap_simps]: "swrap w (- swrap w x) = swrap w (- x)"
  by (rule swrap_cong) (metis mod_minus_eq swrap_mod)

text \<open>Go's \<open>/\<close> and \<open>%\<close> on signed integers truncate towards zero.\<close>

definition go_quot :: "int \<Rightarrow> int \<Rightarrow> int" where
  "go_quot a b = sgn a * sgn b * (\<bar>a\<bar> div \<bar>b\<bar>)"

definition go_rem :: "int \<Rightarrow> int \<Rightarrow> int" where
  "go_rem a b = a - b * go_quot a b"

lemma go_quot_nonneg: "0 \<le> a \<Longrightarrow> 0 < b \<Longrightarrow> go_quot a b = a div b"
  by (cases "a = 0") (auto simp: go_quot_def)

lemma go_rem_nonneg: "0 \<le> a \<Longrightarrow> 0 < b \<Longrightarrow> go_rem a b = a mod b"
  by (simp add: go_rem_def go_quot_nonneg minus_mult_div_eq_mod)

section \<open>Panics\<close>

text \<open>
  A Go call that may panic returns \<open>Inl\<close> of the panic. Only panics the modelled code can
  raise are listed.
\<close>

datatype go_panic = IndexOutOfRange | TypeAssertion | NilMapWrite | NilDereference
  | DivideByZero | NegativeMakeLen

type_synonym 'a go = "go_panic + 'a"

definition gbind :: "'a go \<Rightarrow> ('a \<Rightarrow> 'b go) \<Rightarrow> 'b go" where
  "gbind m f = (case m of Inl p \<Rightarrow> Inl p | Inr x \<Rightarrow> f x)"

lemma gbind_Inr [simp, go_simps]: "gbind (Inr x) f = f x"
  by (simp add: gbind_def)

lemma gbind_Inl [simp, go_simps]: "gbind (Inl p) f = Inl p"
  by (simp add: gbind_def)

lemma gbind_Inr_right [simp, go_simps]: "gbind m Inr = m"
  by (cases m) simp_all

lemma gbind_eq_Inr: "gbind m f = Inr y \<longleftrightarrow> (\<exists>x. m = Inr x \<and> f x = Inr y)"
  by (cases m) auto

text \<open>A \<open>for _, x := range xs\<close> loop whose body may panic.\<close>

primrec gfold :: "('s \<Rightarrow> 'a \<Rightarrow> 's go) \<Rightarrow> 's \<Rightarrow> 'a list \<Rightarrow> 's go" where
  "gfold f s [] = Inr s"
| "gfold f s (x # xs) = gbind (f s x) (\<lambda>s'. gfold f s' xs)"

lemma gfold_append: "gfold f s (xs @ ys) = gbind (gfold f s xs) (\<lambda>s'. gfold f s' ys)"
  by (induction xs arbitrary: s) (auto simp: gbind_def split: sum.splits)

lemma gfold_pure: "gfold (\<lambda>s x. Inr (f s x)) s xs = Inr (foldl f s xs)"
  by (induction xs arbitrary: s) auto

section \<open>Go maps as association lists\<close>

text \<open>
  A map that the code ranges over is a list of key/value pairs with distinct keys: the list
  order is one of the iteration orders the runtime may choose. \<open>vget\<close> reads an
  integer-valued map, with Go's zero value for a missing key.
\<close>

definition wf_map :: "('k \<times> 'v) list \<Rightarrow> bool" where
  "wf_map m \<longleftrightarrow> distinct (map fst m)"

definition vget :: "('k \<times> int) list \<Rightarrow> 'k \<Rightarrow> int" where
  "vget m k = (case map_of m k of None \<Rightarrow> 0 | Some v \<Rightarrow> v)"

abbreviation mput :: "'k \<Rightarrow> 'v \<Rightarrow> ('k \<times> 'v) list \<Rightarrow> ('k \<times> 'v) list" where
  "mput \<equiv> AList.update"

lemma wf_map_Nil [simp]: "wf_map []"
  by (simp add: wf_map_def)

lemma wf_map_mput [simp]: "wf_map m \<Longrightarrow> wf_map (mput k v m)"
  by (simp add: wf_map_def distinct_update)

lemma map_of_mput: "map_of (mput k v m) = (map_of m)(k \<mapsto> v)"
  by (rule update_conv')

lemma vget_mput: "vget (mput k v m) j = (if j = k then v else vget m j)"
  by (simp add: vget_def map_of_mput)

lemma set_mput_subset: "set (mput k v m) \<subseteq> insert (k, v) (set m)"
  by (induction m) auto

lemma keys_mput: "fst ` set (mput k v m) = insert k (fst ` set m)"
  by (simp add: map_of_mput flip: dom_map_of_conv_image_fst)

lemma vget_entry: "wf_map m \<Longrightarrow> (k, v) \<in> set m \<Longrightarrow> vget m k = v"
  by (simp add: vget_def wf_map_def)

lemma vget_in: "wf_map m \<Longrightarrow> k \<in> fst ` set m \<Longrightarrow> (k, vget m k) \<in> set m"
  by (force simp: vget_entry)

lemma vget_missing: "k \<notin> fst ` set m \<Longrightarrow> vget m k = 0"
  by (metis map_of_eq_None_iff option.case(1) vget_def)

lemma vget_permuted: "wf_map m \<Longrightarrow> mset m' = mset m \<Longrightarrow> vget m' k = vget m k"
proof -
  assume m: "wf_map m" and eq: "mset m' = mset m"
  from eq have "mset (map fst m') = mset (map fst m)" by simp
  with m have "distinct (map fst m')" unfolding wf_map_def by (metis mset_eq_imp_distinct_iff)
  with m mset_eq_setD [OF eq] have "map_of m' = map_of m"
    unfolding wf_map_def by (simp add: map_of_inject_set)
  then show ?thesis by (simp add: vget_def)
qed

lemma wf_map_permuted: "mset m' = mset m \<Longrightarrow> wf_map m' = wf_map m"
  unfolding wf_map_def by (metis mset_eq_imp_distinct_iff mset_map)

lemma entries_all: "wf_map m \<Longrightarrow> (\<forall>(k, v) \<in> set m. P k v) \<longleftrightarrow> (\<forall>k \<in> fst ` set m. P k (vget m k))"
  by (force simp: vget_entry)

lemma entries_ex: "wf_map m \<Longrightarrow> (\<exists>(k, v) \<in> set m. P k v) \<longleftrightarrow> (\<exists>k \<in> fst ` set m. P k (vget m k))"
  by (force simp: vget_entry)

lemma length_mput: "length (mput k v m) = (if map_of m k = None then Suc (length m) else length m)"
  by (induction m) auto

lemma length_delete: "wf_map m \<Longrightarrow> length (AList.delete k m) = (if map_of m k = None then length m else length m - 1)"
proof (induction m)
  case (Cons x m)
  obtain k' v where x: "x = (k', v)" by (cases x)
  have m: "wf_map m" "map_of m k' = None" using Cons.prems by (auto simp: wf_map_def x map_of_eq_None_iff)
  show ?case
  proof (cases "k = k'")
    case True
    with m Cons.IH show ?thesis by (simp add: x)
  next
    case False
    then have "map_of m k \<noteq> None \<Longrightarrow> length m \<noteq> 0" by auto
    with False m Cons.IH show ?thesis by (auto simp: x)
  qed
qed simp

lemma wf_map_delete: "wf_map m \<Longrightarrow> wf_map (AList.delete k m)"
  by (simp add: wf_map_def AList.distinct_delete)

lemma map_of_delete: "map_of (AList.delete k m) = (map_of m)(k := None)"
  by (rule AList.delete_conv')

text \<open>Two loops whose steps commute can be exchanged.\<close>

lemma foldl_swap:
  assumes "\<And>x u v. u \<in> set us \<Longrightarrow> v \<in> set vs \<Longrightarrow> g (f x u) v = f (g x v) u"
  shows "foldl g (foldl f x us) vs = foldl f (foldl g x vs) us"
proof -
  have one: "foldl g (f x u) vs' = f (foldl g x vs') u" if "u \<in> set us" "set vs' \<subseteq> set vs" for x u vs'
    using that(2)
  proof (induction vs' arbitrary: x)
    case (Cons v vs')
    then have "g (f x u) v = f (g x v) u" using assms that(1) by simp
    with Cons show ?case by simp
  qed simp
  have "foldl g (foldl f x us') vs = foldl f (foldl g x vs) us'" if "set us' \<subseteq> set us" for us'
    using that by (induction us' arbitrary: x) (simp_all add: one)
  then show ?thesis by simp
qed

end
