(* ===== verification/ClockSI.thy ===== *)
theory ClockSI
  imports Prelude
begin

text \<open>
  The vector clocks of \<^verbatim>\<open>crdt/clocksi/clocksi.go\<close>: the operations of \<open>ClockSiTimestamp\<close>,
  its byte encoding and the byte keys under which old versions are cached. The global
  \<open>knownIDs\<close> and the wall clock are arguments. A \<open>Timestamp\<close> interface value may be
  nil, which is \<open>None\<close>. A loop over the map visits the entries in list order; the lemmas
  on permuted lists show that the order the runtime picks does not matter.
\<close>

section \<open>The data type\<close>

type_synonym ClockSiTimestamp = "(int \<times> int) list"
type_synonym Timestamp = "ClockSiTimestamp option"

datatype TsResult = EqualTs | HigherTs | LowerTs | ConcurrentTs

definition wf_clk :: "ClockSiTimestamp \<Rightarrow> bool" where
  "wf_clk ts \<longleftrightarrow> wf_map ts \<and> (\<forall>(i, v) \<in> set ts. in_int 16 i \<and> in_int 64 v)"

definition same_ids :: "ClockSiTimestamp \<Rightarrow> ClockSiTimestamp \<Rightarrow> bool" where
  "same_ids a b \<longleftrightarrow> fst ` set a = fst ` set b"

section \<open>Creation and single positions\<close>

definition AddNewID :: "int \<Rightarrow> int list \<times> ClockSiTimestamp \<Rightarrow> int list \<times> ClockSiTimestamp" where
  "AddNewID i g = (case g of (knownIDs, HighestTs) \<Rightarrow> (knownIDs @ [i], mput i MaxInt64 HighestTs))"

definition NewTimestampFromId :: "int \<Rightarrow> ClockSiTimestamp" where
  "NewTimestampFromId i = mput i 0 []"

primrec NewTimestamp :: "int list \<Rightarrow> ClockSiTimestamp \<Rightarrow> ClockSiTimestamp" where
  "NewTimestamp [] vc = vc"
| "NewTimestamp (i # ids) vc = NewTimestamp ids (mput i 0 vc)"

definition NewClockSiTimestamp :: "int list \<Rightarrow> ClockSiTimestamp" where
  "NewClockSiTimestamp knownIDs = NewTimestamp knownIDs []"

text \<open>\<open>now\<close> stands for \<open>time.Now().UTC().UnixNano()\<close>.\<close>

definition NextTimestamp :: "int \<Rightarrow> ClockSiTimestamp \<Rightarrow> int \<Rightarrow> ClockSiTimestamp" where
  "NextTimestamp now ts i =
     (if now \<le> vget ts i then mput i (int64 (vget ts i + 1)) ts else mput i now ts)"

definition IncTimestamp :: "ClockSiTimestamp \<Rightarrow> int \<Rightarrow> ClockSiTimestamp" where
  "IncTimestamp ts i = mput i (int64 (vget ts i + 1)) ts"

definition SelfIncTimestamp :: "ClockSiTimestamp \<Rightarrow> int \<Rightarrow> ClockSiTimestamp" where
  "SelfIncTimestamp ts i = mput i (int64 (vget ts i + 1)) ts"

definition ComparePos :: "ClockSiTimestamp \<Rightarrow> int \<Rightarrow> ClockSiTimestamp \<Rightarrow> TsResult" where
  "ComparePos ts i other =
     (case (map_of ts i, map_of other i) of
        (Some v, Some w) \<Rightarrow> if v = w then EqualTs else if v < w then LowerTs else HigherTs
      | _ \<Rightarrow> ConcurrentTs)"

definition UpdatePos :: "ClockSiTimestamp \<Rightarrow> int \<Rightarrow> int \<Rightarrow> ClockSiTimestamp" where
  "UpdatePos ts i newValue = (if vget ts i < newValue then mput i newValue ts else ts)"

definition UpdateForcedPos :: "ClockSiTimestamp \<Rightarrow> int \<Rightarrow> int \<Rightarrow> ClockSiTimestamp" where
  "UpdateForcedPos ts i newValue = mput i newValue ts"

definition GetPos :: "ClockSiTimestamp \<Rightarrow> int \<Rightarrow> int" where
  "GetPos ts i = vget ts i"

primrec Update_clk :: "int list \<Rightarrow> ClockSiTimestamp \<Rightarrow> ClockSiTimestamp" where
  "Update_clk [] ts = ts"
| "Update_clk (i # ids) ts = Update_clk ids (if map_of ts i = None then mput i 0 ts else ts)"

section \<open>Comparisons\<close>

text \<open>The comparison loops keep the early returns and flags of the code.\<close>

primrec Compare_loop :: "ClockSiTimestamp \<Rightarrow> ClockSiTimestamp \<Rightarrow> bool \<Rightarrow> bool \<Rightarrow> TsResult" where
  "Compare_loop otherVc [] foundHigher foundLower =
     (if foundHigher then LowerTs else if foundLower then HigherTs else EqualTs)"
| "Compare_loop otherVc (e # es) foundHigher foundLower =
     (case e of (i, selfValue) \<Rightarrow>
        let fh = (if selfValue < vget otherVc i then True else foundHigher);
            fl = (if selfValue < vget otherVc i then foundLower
                  else if selfValue > vget otherVc i then True else foundLower)
        in if fh \<and> fl then ConcurrentTs else Compare_loop otherVc es fh fl)"

definition Compare :: "ClockSiTimestamp \<Rightarrow> Timestamp \<Rightarrow> TsResult" where
  "Compare ts otherTs = (case otherTs of None \<Rightarrow> HigherTs
     | Some otherVc \<Rightarrow> Compare_loop otherVc ts False False)"

primrec IsHigherOrEqual_loop :: "ClockSiTimestamp \<Rightarrow> ClockSiTimestamp \<Rightarrow> bool" where
  "IsHigherOrEqual_loop otherVc [] = True"
| "IsHigherOrEqual_loop otherVc (e # es) =
     (if snd e < vget otherVc (fst e) then False else IsHigherOrEqual_loop otherVc es)"

definition IsHigherOrEqual :: "ClockSiTimestamp \<Rightarrow> Timestamp \<Rightarrow> bool" where
  "IsHigherOrEqual ts otherTs = (case otherTs of None \<Rightarrow> True
     | Some otherVc \<Rightarrow> IsHigherOrEqual_loop otherVc ts)"

primrec IsHigher_loop :: "ClockSiTimestamp \<Rightarrow> ClockSiTimestamp \<Rightarrow> bool \<Rightarrow> bool" where
  "IsHigher_loop otherVc [] foundLower = foundLower"
| "IsHigher_loop otherVc (e # es) foundLower =
     (if snd e < vget otherVc (fst e) then False
      else if snd e > vget otherVc (fst e) then IsHigher_loop otherVc es True
      else IsHigher_loop otherVc es foundLower)"

definition IsHigher :: "ClockSiTimestamp \<Rightarrow> Timestamp \<Rightarrow> bool" where
  "IsHigher ts otherTs = (case otherTs of None \<Rightarrow> True
     | Some otherVc \<Rightarrow> IsHigher_loop otherVc ts False)"

primrec IsLowerOrEqual_loop :: "ClockSiTimestamp \<Rightarrow> ClockSiTimestamp \<Rightarrow> bool" where
  "IsLowerOrEqual_loop otherVc [] = True"
| "IsLowerOrEqual_loop otherVc (e # es) =
     (if snd e > vget otherVc (fst e) then False else IsLowerOrEqual_loop otherVc es)"

definition IsLowerOrEqual :: "ClockSiTimestamp \<Rightarrow> Timestamp \<Rightarrow> bool" where
  "IsLowerOrEqual ts otherTs = (case otherTs of None \<Rightarrow> False
     | Some otherVc \<Rightarrow> IsLowerOrEqual_loop otherVc ts)"

primrec IsLowerOrEqualExceptFor_loop ::
    "ClockSiTimestamp \<Rightarrow> int \<Rightarrow> int \<Rightarrow> ClockSiTimestamp \<Rightarrow> bool" where
  "IsLowerOrEqualExceptFor_loop otherVc self i [] = True"
| "IsLowerOrEqualExceptFor_loop otherVc self i (e # es) =
     (if fst e \<noteq> i \<and> fst e \<noteq> self \<and> snd e > vget otherVc (fst e) then False
      else IsLowerOrEqualExceptFor_loop otherVc self i es)"

definition IsLowerOrEqualExceptFor :: "ClockSiTimestamp \<Rightarrow> Timestamp \<Rightarrow> int \<Rightarrow> int \<Rightarrow> bool" where
  "IsLowerOrEqualExceptFor ts otherTs self i = (case otherTs of None \<Rightarrow> False
     | Some otherVc \<Rightarrow> IsLowerOrEqualExceptFor_loop otherVc self i ts)"

primrec IsEqualExceptForSelf_loop :: "ClockSiTimestamp \<Rightarrow> int \<Rightarrow> ClockSiTimestamp \<Rightarrow> bool" where
  "IsEqualExceptForSelf_loop otherVc self [] = True"
| "IsEqualExceptForSelf_loop otherVc self (e # es) =
     (if fst e \<noteq> self \<and> snd e \<noteq> vget otherVc (fst e) then False
      else IsEqualExceptForSelf_loop otherVc self es)"

definition IsEqualExceptForSelf :: "ClockSiTimestamp \<Rightarrow> Timestamp \<Rightarrow> int \<Rightarrow> bool" where
  "IsEqualExceptForSelf ts otherTs self = (case otherTs of None \<Rightarrow> False
     | Some otherVc \<Rightarrow> IsEqualExceptForSelf_loop otherVc self ts)"

primrec IsLower_loop :: "ClockSiTimestamp \<Rightarrow> ClockSiTimestamp \<Rightarrow> bool \<Rightarrow> bool" where
  "IsLower_loop otherVc [] foundHigher = foundHigher"
| "IsLower_loop otherVc (e # es) foundHigher =
     (if snd e > vget otherVc (fst e) then False
      else if snd e < vget otherVc (fst e) then IsLower_loop otherVc es True
      else IsLower_loop otherVc es foundHigher)"

definition IsLower :: "ClockSiTimestamp \<Rightarrow> Timestamp \<Rightarrow> bool" where
  "IsLower ts otherTs = (case otherTs of None \<Rightarrow> False
     | Some otherVc \<Rightarrow> IsLower_loop otherVc ts False)"

primrec IsEqual_loop :: "ClockSiTimestamp \<Rightarrow> ClockSiTimestamp \<Rightarrow> bool" where
  "IsEqual_loop otherVc [] = True"
| "IsEqual_loop otherVc (e # es) =
     (if snd e \<noteq> vget otherVc (fst e) then False else IsEqual_loop otherVc es)"

definition IsEqual :: "ClockSiTimestamp \<Rightarrow> Timestamp \<Rightarrow> bool" where
  "IsEqual ts otherTs = (case otherTs of None \<Rightarrow> False
     | Some otherVc \<Rightarrow> IsEqual_loop otherVc ts)"

definition IsConcurrent :: "ClockSiTimestamp \<Rightarrow> Timestamp \<Rightarrow> bool" where
  "IsConcurrent ts otherTs \<longleftrightarrow> Compare ts otherTs = ConcurrentTs"

primrec IsDifferent_loop :: "ClockSiTimestamp \<Rightarrow> ClockSiTimestamp \<Rightarrow> bool" where
  "IsDifferent_loop otherVc [] = False"
| "IsDifferent_loop otherVc (e # es) =
     (if snd e \<noteq> vget otherVc (fst e) then True else IsDifferent_loop otherVc es)"

definition IsDifferent :: "ClockSiTimestamp \<Rightarrow> Timestamp \<Rightarrow> bool" where
  "IsDifferent ts otherTs = (case otherTs of None \<Rightarrow> True
     | Some otherVc \<Rightarrow> IsDifferent_loop otherVc ts)"

text \<open>The two loops of \<open>IsLowerOrEqualTotalOrder\<close>: the flags, then the smallest ids.\<close>

primrec TotalOrder_flags :: "ClockSiTimestamp \<Rightarrow> ClockSiTimestamp \<Rightarrow> bool \<times> bool \<Rightarrow> bool \<times> bool" where
  "TotalOrder_flags otherVc [] fs = fs"
| "TotalOrder_flags otherVc (e # es) fs = (case fs of (foundHigher, foundLower) \<Rightarrow>
     TotalOrder_flags otherVc es
       (if snd e > vget otherVc (fst e) then (foundHigher, True)
        else if snd e < vget otherVc (fst e) then (True, foundLower)
        else (foundHigher, foundLower)))"

primrec TotalOrder_minIds :: "ClockSiTimestamp \<Rightarrow> ClockSiTimestamp \<Rightarrow> int \<times> int \<Rightarrow> int \<times> int" where
  "TotalOrder_minIds otherVc [] m = m"
| "TotalOrder_minIds otherVc (e # es) m = (case m of (minIdLower, minIdHigher) \<Rightarrow>
     TotalOrder_minIds otherVc es
       (if snd e > vget otherVc (fst e) \<and> minIdLower > fst e then (fst e, minIdHigher)
        else if snd e < vget otherVc (fst e) \<and> minIdHigher > fst e then (minIdLower, fst e)
        else (minIdLower, minIdHigher)))"

definition IsLowerOrEqualTotalOrder :: "ClockSiTimestamp \<Rightarrow> Timestamp \<Rightarrow> bool" where
  "IsLowerOrEqualTotalOrder ts otherTs = (case otherTs of None \<Rightarrow> False
     | Some otherVc \<Rightarrow>
        (case TotalOrder_flags otherVc ts (False, False) of (foundHigher, foundLower) \<Rightarrow>
           if \<not> foundLower \<and> \<not> foundHigher then True
           else if \<not> foundLower then False
           else if \<not> foundHigher then True
           else (case TotalOrder_minIds otherVc ts (MaxInt16, MaxInt16) of
                   (minIdLower, minIdHigher) \<Rightarrow> \<not> minIdLower < minIdHigher)))"

primrec IsSmallerConcurrent_loop :: "ClockSiTimestamp \<Rightarrow> ClockSiTimestamp \<Rightarrow> int \<times> bool \<Rightarrow> int \<times> bool" where
  "IsSmallerConcurrent_loop otherVc [] acc = acc"
| "IsSmallerConcurrent_loop otherVc (e # es) acc = (case acc of (smallestId, isSmaller) \<Rightarrow>
     IsSmallerConcurrent_loop otherVc es
       (if fst e < smallestId then
          (if snd e < vget otherVc (fst e) then (fst e, True)
           else if snd e > vget otherVc (fst e) then (fst e, False)
           else (smallestId, isSmaller))
        else (smallestId, isSmaller)))"

text \<open>A nil \<open>otherTs\<close> makes the type assertion of this function panic.\<close>

definition IsSmallerConcurrent :: "ClockSiTimestamp \<Rightarrow> Timestamp \<Rightarrow> bool go" where
  "IsSmallerConcurrent ts otherTs = (case otherTs of None \<Rightarrow> Inl TypeAssertion
     | Some otherVc \<Rightarrow> Inr (snd (IsSmallerConcurrent_loop otherVc ts (MaxInt16, False))))"

section \<open>Merging and copying\<close>

primrec Merge_loop :: "ClockSiTimestamp \<Rightarrow> ClockSiTimestamp \<Rightarrow> ClockSiTimestamp \<Rightarrow> ClockSiTimestamp" where
  "Merge_loop otherVc [] vc = vc"
| "Merge_loop otherVc (e # es) vc =
     (if snd e > vget otherVc (fst e) then Merge_loop otherVc es (mput (fst e) (snd e) vc)
      else Merge_loop otherVc es (mput (fst e) (vget otherVc (fst e)) vc))"

primrec CopyInto :: "ClockSiTimestamp \<Rightarrow> ClockSiTimestamp \<Rightarrow> ClockSiTimestamp" where
  "CopyInto [] copyTs = copyTs"
| "CopyInto (e # es) copyTs = CopyInto es (mput (fst e) (snd e) copyTs)"

definition Copy_clk :: "ClockSiTimestamp \<Rightarrow> ClockSiTimestamp" where
  "Copy_clk ts = CopyInto ts []"

definition Merge :: "ClockSiTimestamp \<Rightarrow> Timestamp \<Rightarrow> ClockSiTimestamp" where
  "Merge ts otherTs = (case otherTs of None \<Rightarrow> Copy_clk ts
     | Some otherVc \<Rightarrow> Merge_loop otherVc ts [])"

primrec MergeInto_loop :: "ClockSiTimestamp \<Rightarrow> ClockSiTimestamp \<Rightarrow> ClockSiTimestamp" where
  "MergeInto_loop [] ts = ts"
| "MergeInto_loop (e # es) ts =
     MergeInto_loop es (if snd e > vget ts (fst e) then mput (fst e) (snd e) ts else ts)"

definition MergeInto :: "ClockSiTimestamp \<Rightarrow> Timestamp \<Rightarrow> ClockSiTimestamp" where
  "MergeInto ts otherTs = (case otherTs of None \<Rightarrow> ts
     | Some otherVc \<Rightarrow> MergeInto_loop otherVc ts)"

text \<open>
  \<open>FastCopy\<close> writes position \<open>i\<close> of a slice of the clock's length for the \<open>i\<close>-th known
  id, so it panics when there are more known ids than entries.
\<close>

definition FastCopyInto :: "int list \<Rightarrow> ClockSiTimestamp \<Rightarrow> int list \<Rightarrow> int list go" where
  "FastCopyInto knownIDs ts values =
     (if length values < length knownIDs then Inl IndexOutOfRange
      else Inr (map (vget ts) knownIDs @ drop (length knownIDs) values))"

definition FastCopy :: "int list \<Rightarrow> ClockSiTimestamp \<Rightarrow> int list go" where
  "FastCopy knownIDs ts = FastCopyInto knownIDs ts (replicate (length ts) 0)"

fun FromSliceValues :: "int list \<Rightarrow> int list \<Rightarrow> ClockSiTimestamp \<Rightarrow> ClockSiTimestamp go" where
  "FromSliceValues [] values vc = Inr vc"
| "FromSliceValues (i # ids) [] vc = Inl IndexOutOfRange"
| "FromSliceValues (i # ids) (v # values) vc = FromSliceValues ids values (mput i v vc)"

definition FromSliceValuesToClockSiTimestamp :: "int list \<Rightarrow> int list \<Rightarrow> ClockSiTimestamp go" where
  "FromSliceValuesToClockSiTimestamp knownIDs values = FromSliceValues knownIDs values []"

section \<open>Byte encoding and byte keys\<close>

text \<open>\<open>binary.LittleEndian\<close> and \<open>binary.BigEndian\<close> on unsigned words; bytes are \<open>int\<close> below 256.\<close>

primrec le_bytes :: "nat \<Rightarrow> int \<Rightarrow> int list" where
  "le_bytes 0 n = []"
| "le_bytes (Suc k) n = n mod 256 # le_bytes k (n div 256)"

primrec le_value :: "int list \<Rightarrow> int" where
  "le_value [] = 0"
| "le_value (b # bs) = b + 256 * le_value bs"

definition be_bytes :: "nat \<Rightarrow> int \<Rightarrow> int list" where
  "be_bytes k n = rev (le_bytes k n)"

primrec ToBytes :: "ClockSiTimestamp \<Rightarrow> int list" where
  "ToBytes [] = []"
| "ToBytes (e # es) = le_bytes 2 (fst e mod 2 ^ 16) @ replicate 6 0
     @ le_bytes 8 (snd e mod 2 ^ 64) @ ToBytes es"

primrec FromBytes_loop :: "nat \<Rightarrow> int list \<Rightarrow> ClockSiTimestamp \<Rightarrow> ClockSiTimestamp" where
  "FromBytes_loop 0 bs vc = vc"
| "FromBytes_loop (Suc n) bs vc =
     FromBytes_loop n (drop 16 bs)
       (mput (int16 (le_value (take 2 bs))) (int64 (le_value (take 8 (drop 8 bs)))) vc)"

definition FromBytes :: "int list \<Rightarrow> ClockSiTimestamp" where
  "FromBytes bs = (if bs = [] then mput 0 0 [] else FromBytes_loop (length bs div 16) bs [])"

definition ClockArrayToByteArray :: "ClockSiTimestamp list \<Rightarrow> int list list" where
  "ClockArrayToByteArray clks = map ToBytes clks"

definition ByteArrayToClockArray :: "int list list \<Rightarrow> ClockSiTimestamp list" where
  "ByteArrayToClockArray bytes = map FromBytes bytes"

definition GetSortedKeys :: "ClockSiTimestamp \<Rightarrow> int list" where
  "GetSortedKeys ts = sort (map fst ts)"

definition getMapByteKey :: "ClockSiTimestamp \<Rightarrow> int list" where
  "getMapByteKey ts = concat (map (\<lambda>k. be_bytes 8 (vget ts k mod 2 ^ 64)) (GetSortedKeys ts))"

text \<open>
  The inner loop over \<open>j\<close> of the key comparisons: up to four bytes, stopping at the first
  difference; reading past the end of either key panics.
\<close>

datatype byte_cmp = BLess | BEqual | BGreater

fun cmp_group :: "nat \<Rightarrow> int list \<Rightarrow> int list \<Rightarrow> byte_cmp go" where
  "cmp_group 0 xs ys = Inr BEqual"
| "cmp_group (Suc n) (x # xs) (y # ys) =
     (if x > y then Inr BGreater else if x < y then Inr BLess else cmp_group n xs ys)"
| "cmp_group (Suc n) _ _ = Inl IndexOutOfRange"

function ByteKey_IsLower_loop :: "int list \<Rightarrow> int list \<Rightarrow> bool \<Rightarrow> bool go" where
  "ByteKey_IsLower_loop ours other foundHigher =
     (if ours = [] then Inr foundHigher
      else case cmp_group 4 ours other of
             Inl p \<Rightarrow> Inl p
           | Inr BGreater \<Rightarrow> Inr False
           | Inr BLess \<Rightarrow> ByteKey_IsLower_loop (drop 4 ours) (drop 4 other) True
           | Inr BEqual \<Rightarrow> ByteKey_IsLower_loop (drop 4 ours) (drop 4 other) foundHigher)"
  by pat_completeness auto
termination
  by (relation "measure (\<lambda>(ours, other, f). length ours)") auto

definition ByteKey_IsLower :: "int list \<Rightarrow> int list \<Rightarrow> bool go" where
  "ByteKey_IsLower bk other = ByteKey_IsLower_loop bk other False"

function ByteKey_IsHigher_loop :: "int list \<Rightarrow> int list \<Rightarrow> bool \<Rightarrow> bool go" where
  "ByteKey_IsHigher_loop ours other foundLower =
     (if ours = [] then Inr foundLower
      else case cmp_group 4 ours other of
             Inl p \<Rightarrow> Inl p
           | Inr BLess \<Rightarrow> Inr False
           | Inr BGreater \<Rightarrow> ByteKey_IsHigher_loop (drop 4 ours) (drop 4 other) True
           | Inr BEqual \<Rightarrow> ByteKey_IsHigher_loop (drop 4 ours) (drop 4 other) foundLower)"
  by pat_completeness auto
termination
  by (relation "measure (\<lambda>(ours, other, f). length ours)") auto

definition ByteKey_IsHigher :: "int list \<Rightarrow> int list \<Rightarrow> bool go" where
  "ByteKey_IsHigher bk other = ByteKey_IsHigher_loop bk other False"

function ByteKey_IsLowerOrEqual :: "int list \<Rightarrow> int list \<Rightarrow> bool go" where
  "ByteKey_IsLowerOrEqual ours other =
     (if ours = [] then Inr True
      else case cmp_group 4 ours other of
             Inl p \<Rightarrow> Inl p
           | Inr BGreater \<Rightarrow> Inr False
           | Inr _ \<Rightarrow> ByteKey_IsLowerOrEqual (drop 4 ours) (drop 4 other))"
  by pat_completeness auto
termination
  by (relation "measure (\<lambda>(ours, other). length ours)") auto

fun ByteKey_IsEqual :: "int list \<Rightarrow> int list \<Rightarrow> bool go" where
  "ByteKey_IsEqual [] other = Inr True"
| "ByteKey_IsEqual (x # xs) [] = Inl IndexOutOfRange"
| "ByteKey_IsEqual (x # xs) (y # ys) = (if x \<noteq> y then Inr False else ByteKey_IsEqual xs ys)"

declare ByteKey_IsLower_loop.simps [simp del] ByteKey_IsHigher_loop.simps [simp del]
  ByteKey_IsLowerOrEqual.simps [simp del]

section \<open>What the comparison loops compute\<close>

text \<open>
  Every comparison is decided by two questions about the entries of the receiver: is one
  below the other clock, is one above it.
\<close>

definition some_below :: "ClockSiTimestamp \<Rightarrow> ClockSiTimestamp \<Rightarrow> bool" where
  "some_below a b \<longleftrightarrow> (\<exists>(i, v) \<in> set a. v < vget b i)"

definition some_above :: "ClockSiTimestamp \<Rightarrow> ClockSiTimestamp \<Rightarrow> bool" where
  "some_above a b \<longleftrightarrow> (\<exists>(i, v) \<in> set a. v > vget b i)"

lemma some_below_Nil [simp]: "\<not> some_below [] b" and some_above_Nil [simp]: "\<not> some_above [] b"
  by (simp_all add: some_below_def some_above_def)

lemma some_below_Cons [simp]: "some_below (e # a) b \<longleftrightarrow> snd e < vget b (fst e) \<or> some_below a b"
  by (cases e) (simp add: some_below_def)

lemma some_above_Cons [simp]: "some_above (e # a) b \<longleftrightarrow> snd e > vget b (fst e) \<or> some_above a b"
  by (cases e) (simp add: some_above_def)

lemma Compare_loop_eq:
  "\<not> (fh \<and> fl) \<Longrightarrow> Compare_loop b a fh fl =
     (let h = fh \<or> some_below a b; l = fl \<or> some_above a b
      in if h \<and> l then ConcurrentTs else if h then LowerTs else if l then HigherTs else EqualTs)"
  by (induction a arbitrary: fh fl) (auto simp: Let_def split: prod.split)

lemma Compare_eq: "Compare a (Some b) =
    (if some_below a b \<and> some_above a b then ConcurrentTs
     else if some_below a b then LowerTs else if some_above a b then HigherTs else EqualTs)"
  by (simp add: Compare_def Compare_loop_eq Let_def)

lemma IsHigherOrEqual_eq: "IsHigherOrEqual a (Some b) \<longleftrightarrow> \<not> some_below a b"
  unfolding IsHigherOrEqual_def by (induction a) auto

lemma IsLowerOrEqual_eq: "IsLowerOrEqual a (Some b) \<longleftrightarrow> \<not> some_above a b"
  unfolding IsLowerOrEqual_def by (induction a) auto

lemma IsHigher_loop_eq: "IsHigher_loop b a f \<longleftrightarrow> \<not> some_below a b \<and> (f \<or> some_above a b)"
  by (induction a arbitrary: f) auto

lemma IsHigher_eq: "IsHigher a (Some b) \<longleftrightarrow> \<not> some_below a b \<and> some_above a b"
  by (simp add: IsHigher_def IsHigher_loop_eq)

lemma IsLower_loop_eq: "IsLower_loop b a f \<longleftrightarrow> \<not> some_above a b \<and> (f \<or> some_below a b)"
  by (induction a arbitrary: f) auto

lemma IsLower_eq: "IsLower a (Some b) \<longleftrightarrow> \<not> some_above a b \<and> some_below a b"
  by (simp add: IsLower_def IsLower_loop_eq)

lemma IsEqual_eq: "IsEqual a (Some b) \<longleftrightarrow> \<not> some_below a b \<and> \<not> some_above a b"
  unfolding IsEqual_def by (induction a) auto

lemma IsDifferent_eq: "IsDifferent a (Some b) \<longleftrightarrow> some_below a b \<or> some_above a b"
  unfolding IsDifferent_def by (induction a) auto

lemmas clk_eqs = Compare_eq IsHigherOrEqual_eq IsLowerOrEqual_eq IsHigher_eq IsLower_eq
  IsEqual_eq IsDifferent_eq

lemmas clk_nil = Compare_def IsHigherOrEqual_def IsLowerOrEqual_def IsHigher_def IsLower_def
  IsEqual_def IsDifferent_def IsConcurrent_def

text \<open>
  C1. The specialised comparisons are what the interface promises: each of them is true
  exactly when \<open>Compare\<close> on the same arguments, nil included, returns the results named in
  its comment.
\<close>

theorem fast_comparisons_agree:
  "(IsHigherOrEqual a t \<longleftrightarrow> Compare a t = HigherTs \<or> Compare a t = EqualTs)
   \<and> (IsLowerOrEqual a t \<longleftrightarrow> Compare a t = LowerTs \<or> Compare a t = EqualTs)
   \<and> (IsHigher a t \<longleftrightarrow> Compare a t = HigherTs)
   \<and> (IsLower a t \<longleftrightarrow> Compare a t = LowerTs)
   \<and> (IsEqual a t \<longleftrightarrow> Compare a t = EqualTs)
   \<and> (IsConcurrent a t \<longleftrightarrow> Compare a t = ConcurrentTs)
   \<and> (IsDifferent a t \<longleftrightarrow> Compare a t \<noteq> EqualTs)"
proof (cases t)
  case None
  then show ?thesis by (simp add: clk_nil)
next
  case (Some b)
  then show ?thesis by (simp add: clk_eqs IsConcurrent_def)
qed

section \<open>The pointwise order\<close>

definition le_clk :: "ClockSiTimestamp \<Rightarrow> ClockSiTimestamp \<Rightarrow> bool" where
  "le_clk a b \<longleftrightarrow> (\<forall>i. vget a i \<le> vget b i)"

definition eq_clk :: "ClockSiTimestamp \<Rightarrow> ClockSiTimestamp \<Rightarrow> bool" where
  "eq_clk a b \<longleftrightarrow> (\<forall>i. vget a i = vget b i)"

lemma le_clk_refl [simp]: "le_clk a a"
  by (simp add: le_clk_def)

lemma le_clk_trans: "le_clk a b \<Longrightarrow> le_clk b c \<Longrightarrow> le_clk a c"
  unfolding le_clk_def using order_trans by blast

lemma le_clk_antisym: "le_clk a b \<Longrightarrow> le_clk b a \<Longrightarrow> eq_clk a b"
  by (simp add: le_clk_def eq_clk_def order_antisym)

lemma same_ids_sym: "same_ids a b \<Longrightarrow> same_ids b a"
  by (simp add: same_ids_def)

lemma same_ids_refl [simp]: "same_ids a a"
  by (simp add: same_ids_def)

lemma differ_at_id: "same_ids a b \<Longrightarrow> vget a i \<noteq> vget b i \<Longrightarrow> i \<in> fst ` set a"
  by (metis same_ids_def vget_missing)

lemma some_above_iff: "wf_map a \<Longrightarrow> same_ids a b \<Longrightarrow> some_above a b \<longleftrightarrow> \<not> le_clk a b"
  unfolding some_above_def le_clk_def by (simp add: entries_ex not_le del: image_iff)
    (metis differ_at_id imageE image_eqI less_irrefl)

lemma some_below_iff: "wf_map a \<Longrightarrow> same_ids a b \<Longrightarrow> some_below a b \<longleftrightarrow> \<not> le_clk b a"
  unfolding some_below_def le_clk_def by (simp add: entries_ex not_le del: image_iff)
    (metis differ_at_id imageE image_eqI less_irrefl)

lemma Compare_iteration_order:
  assumes "wf_map b" and "mset a' = mset a" and "mset b' = mset b"
  shows "Compare a' (Some b') = Compare a (Some b)"
proof -
  have "vget b' = vget b" by (simp add: fun_eq_iff vget_permuted [OF assms(1,3)])
  moreover have "set a' = set a" using assms(2) by (rule mset_eq_setD)
  ultimately show ?thesis by (simp add: Compare_eq some_below_def some_above_def)
qed

text \<open>
  C2. On clocks of the same replicas \<open>Compare\<close> decides the pointwise order of the vectors:
  higher, lower, equal and concurrent mean what they mean for vector clocks. Go randomises map
  iteration, and the result does not depend on it: any other order of the entries of either
  clock gives the same answer.
\<close>

theorem Compare_pointwise:
  assumes "wf_map a" and "same_ids a b"
  shows "(Compare a (Some b) = HigherTs \<longleftrightarrow> le_clk b a \<and> \<not> eq_clk a b)
    \<and> (Compare a (Some b) = LowerTs \<longleftrightarrow> le_clk a b \<and> \<not> eq_clk a b)
    \<and> (Compare a (Some b) = EqualTs \<longleftrightarrow> eq_clk a b)
    \<and> (Compare a (Some b) = ConcurrentTs \<longleftrightarrow> \<not> le_clk a b \<and> \<not> le_clk b a)
    \<and> (\<forall>a' b'. wf_map b \<and> mset a' = mset a \<and> mset b' = mset b \<longrightarrow>
         Compare a' (Some b') = Compare a (Some b))"
proof -
  have "eq_clk a b \<longleftrightarrow> le_clk a b \<and> le_clk b a"
    using le_clk_antisym [of a b] by (auto simp: le_clk_def eq_clk_def)
  then have "(Compare a (Some b) = HigherTs \<longleftrightarrow> le_clk b a \<and> \<not> eq_clk a b)
    \<and> (Compare a (Some b) = LowerTs \<longleftrightarrow> le_clk a b \<and> \<not> eq_clk a b)
    \<and> (Compare a (Some b) = EqualTs \<longleftrightarrow> eq_clk a b)
    \<and> (Compare a (Some b) = ConcurrentTs \<longleftrightarrow> \<not> le_clk a b \<and> \<not> le_clk b a)"
    by (simp add: Compare_eq some_above_iff [OF assms] some_below_iff [OF assms])
  then show ?thesis using Compare_iteration_order by blast
qed

theorem Compare_pointwise_witness:
  "(Compare [(1, 5), (2, 3)] (Some [(2, 3), (1, 4)]) = HigherTs)
   \<and> (Compare [(2, 3), (1, 5)] (Some [(1, 4), (2, 3)]) = HigherTs)
   \<and> le_clk [(2, 3), (1, 4)] [(1, 5), (2, 3)] \<and> \<not> eq_clk [(1, 5), (2, 3)] [(2, 3), (1, 4)]"
proof -
  have h: "wf_map [(1::int, 5::int), (2, 3)]" "same_ids [(1, 5), (2, 3)] [(2, 3), (1, 4)]"
    by (auto simp: wf_map_def same_ids_def)
  have c: "Compare [(1, 5), (2, 3)] (Some [(2, 3), (1, 4)]) = HigherTs"
    by (simp add: Compare_def vget_def)
  have w: "wf_map [(2::int, 3::int), (1, 4)]" "mset [(2, 3), (1, 5)] = mset [(1::int, 5::int), (2, 3)]"
    "mset [(1, 4), (2, 3)] = mset [(2::int, 3::int), (1, 4)]"
    by (simp_all add: wf_map_def)
  note p = Compare_pointwise [OF h]
  from p w have "Compare [(2, 3), (1, 5)] (Some [(1, 4), (2, 3)]) = Compare [(1, 5), (2, 3)] (Some [(2, 3), (1, 4)])"
    by blast
  moreover from p c have "le_clk [(2, 3), (1, 4)] [(1, 5), (2, 3)] \<and> \<not> eq_clk [(1, 5), (2, 3)] [(2, 3), (1, 4)]"
    by blast
  ultimately show ?thesis using c by simp
qed

section \<open>Merging\<close>

lemma vget_Cons: "vget (e # m) k = (if k = fst e then snd e else vget m k)"
  by (cases e) (simp add: vget_def)

lemma wf_map_Cons: "wf_map (e # m) \<longleftrightarrow> fst e \<notin> fst ` set m \<and> wf_map m"
  by (simp add: wf_map_def)

lemma wf_NewTimestamp: "wf_map vc \<Longrightarrow> wf_map (NewTimestamp ids vc)"
  by (induction ids arbitrary: vc) simp_all

lemma keys_NewTimestamp: "fst ` set (NewTimestamp ids vc) = set ids \<union> fst ` set vc"
  by (induction ids arbitrary: vc) (auto simp: keys_mput)

lemma vget_Merge_loop:
  "wf_map a \<Longrightarrow> vget (Merge_loop b a vc) i =
     (if i \<in> fst ` set a then max (vget a i) (vget b i) else vget vc i)"
  by (induction a arbitrary: vc) (auto simp: wf_map_Cons vget_Cons vget_mput max_def)

lemma keys_Merge_loop: "fst ` set (Merge_loop b a vc) = fst ` set a \<union> fst ` set vc"
  by (induction a arbitrary: vc) (auto simp: keys_mput)

lemma wf_Merge_loop: "wf_map vc \<Longrightarrow> wf_map (Merge_loop b a vc)"
  by (induction a arbitrary: vc) auto

lemma vget_Merge: "wf_map a \<Longrightarrow> same_ids a b \<Longrightarrow> vget (Merge a (Some b)) i = max (vget a i) (vget b i)"
  by (simp add: Merge_def vget_Merge_loop vget_missing same_ids_def del: image_iff)

lemma vget_CopyInto: "wf_map a \<Longrightarrow> vget (CopyInto a b) i = (if i \<in> fst ` set a then vget a i else vget b i)"
  by (induction a arbitrary: b) (auto simp: wf_map_Cons vget_Cons vget_mput)

lemma vget_Copy_clk: "wf_map a \<Longrightarrow> vget (Copy_clk a) i = vget a i"
  by (simp add: Copy_clk_def vget_CopyInto vget_missing del: image_iff)

lemma vget_MergeInto_loop:
  "wf_map b \<Longrightarrow> vget (MergeInto_loop b a) i =
     (if i \<in> fst ` set b then max (vget a i) (vget b i) else vget a i)"
  by (induction b arbitrary: a) (auto simp: wf_map_Cons vget_Cons vget_mput max_def)

lemma vget_MergeInto_ge: "vget c i \<le> vget (MergeInto_loop es c) i"
proof (induction es arbitrary: c)
  case (Cons e es)
  from order_trans [OF _ Cons.IH [of "if snd e > vget c (fst e) then mput (fst e) (snd e) c else c"]] show ?case by (simp add: vget_mput)
qed simp

lemma wf_MergeInto_loop: "wf_map a \<Longrightarrow> wf_map (MergeInto_loop b a)"
  by (induction b arbitrary: a) auto

lemma MergeInto_agrees:
  assumes "wf_map a" and "wf_map b" and "same_ids a b"
  shows "eq_clk (MergeInto a (Some b)) (Merge a (Some b))"
proof -
  have "vget a i = vget b i" if "i \<notin> fst ` set b" for i
    using that assms(3) by (simp add: vget_missing same_ids_def)
  then show ?thesis
    using assms by (auto simp: eq_clk_def vget_Merge MergeInto_def vget_MergeInto_loop simp del: image_iff)
qed

text \<open>
  C3. \<open>Merge\<close> of two clocks of the same replicas is their least upper bound in the pointwise
  order and a clock of the same replicas again, and the in-place \<open>MergeInto\<close> computes the
  same clock.
\<close>

theorem Merge_least_upper_bound:
  assumes "wf_map a" and "wf_map b" and "same_ids a b"
  shows "wf_map (Merge a (Some b)) \<and> same_ids (Merge a (Some b)) a
    \<and> le_clk a (Merge a (Some b)) \<and> le_clk b (Merge a (Some b))
    \<and> (\<forall>c. le_clk a c \<and> le_clk b c \<longrightarrow> le_clk (Merge a (Some b)) c)
    \<and> eq_clk (MergeInto a (Some b)) (Merge a (Some b))"
proof -
  have "wf_map (Merge a (Some b)) \<and> same_ids (Merge a (Some b)) a"
    using assms by (simp add: Merge_def same_ids_def keys_Merge_loop wf_Merge_loop)
  moreover have "le_clk a (Merge a (Some b)) \<and> le_clk b (Merge a (Some b))
      \<and> (\<forall>c. le_clk a c \<and> le_clk b c \<longrightarrow> le_clk (Merge a (Some b)) c)"
    using assms by (simp add: le_clk_def vget_Merge)
  ultimately show ?thesis using MergeInto_agrees [OF assms] by blast
qed

theorem Merge_least_upper_bound_witness:
  "le_clk [(1, 5), (2, 3)] (Merge [(1, 5), (2, 3)] (Some [(1, 4), (2, 9)]))
   \<and> eq_clk (MergeInto [(1, 5), (2, 3)] (Some [(1, 4), (2, 9)])) [(1, 5), (2, 9)]"
proof -
  have h: "wf_map [(1::int, 5::int), (2, 3)]" "wf_map [(1::int, 4::int), (2, 9)]"
    "same_ids [(1, 5), (2, 3)] [(1, 4), (2, 9)]"
    by (auto simp: wf_map_def same_ids_def)
  have "Merge [(1, 5), (2, 3)] (Some [(1, 4), (2, 9)]) = [(1, 5), (2, 9)]" by (simp add: Merge_def vget_def)
  with Merge_least_upper_bound [OF h] show ?thesis by metis
qed

section \<open>Fresh timestamps\<close>

lemma set_mput_entry: "(i, v) \<in> set (mput i v ts)"
  by (metis fun_upd_same map_of_SomeD map_of_mput)

lemma IsHigher_mput:
  assumes "wf_map ts" and "vget ts i < v"
  shows "IsHigher (mput i v ts) (Some ts)"
proof -
  have "some_above (mput i v ts) ts"
    unfolding some_above_def using set_mput_entry assms(2) by (metis (no_types, lifting) case_prodI)
  moreover have "\<not> some_below (mput i v ts) ts"
  proof
    assume "some_below (mput i v ts) ts"
    then obtain j w where e: "(j, w) \<in> set (mput i v ts)" "w < vget ts j"
      unfolding some_below_def by auto
    from e(1) assms(1) have "vget (mput i v ts) j = w" by (simp add: vget_entry)
    with e(2) assms(2) show False by (auto simp: vget_mput split: if_splits)
  qed
  ultimately show ?thesis by (simp add: IsHigher_eq)
qed

text \<open>
  C4. \<open>NextTimestamp\<close> returns a strictly higher clock, whatever the wall clock says: its own
  position grows to at least the time read, and no other position changes. The one excluded
  case is a position already at the largest 64-bit value.
\<close>

theorem NextTimestamp_strictly_higher:
  assumes "wf_clk ts" and "in_int 64 now" and "vget ts i < MaxInt64"
  shows "IsHigher (NextTimestamp now ts i) (Some ts)
    \<and> now \<le> vget (NextTimestamp now ts i) i
    \<and> (\<forall>j. j \<noteq> i \<longrightarrow> vget (NextTimestamp now ts i) j = vget ts j)"
proof -
  have lb: "- (2 ^ 63) \<le> vget ts i"
  proof (cases "i \<in> fst ` set ts")
    case True
    then obtain v where "(i, v) \<in> set ts" by auto
    with assms(1) show ?thesis by (auto simp: wf_clk_def in_int_def vget_entry)
  qed (simp add: vget_missing)
  with assms(3) have "int64 (vget ts i + 1) = vget ts i + 1"
    by (intro swrap_id) (auto simp: in_int_def)
  with assms(1) show ?thesis
    by (auto simp: NextTimestamp_def vget_mput wf_clk_def intro!: IsHigher_mput)
qed

theorem NextTimestamp_strictly_higher_witness:
  "IsHigher (NextTimestamp 7 [(1, 9), (2, 3)] 1) (Some [(1, 9), (2, 3)])
   \<and> NextTimestamp 7 [(1, 9), (2, 3)] 1 = [(1, 10), (2, 3)]"
proof -
  have h: "wf_clk [(1, 9), (2, 3)]" "in_int 64 7" "vget [(1::int, 9), (2, 3)] 1 < MaxInt64"
    by (auto simp: wf_clk_def wf_map_def in_int_def vget_def)
  have "int64 10 = 10" by (simp add: swrap_def)
  then show ?thesis
    using NextTimestamp_strictly_higher [OF h] by (simp add: NextTimestamp_def vget_def)
qed

section \<open>Total orders on concurrent clocks\<close>

lemma TotalOrder_flags_eq:
  "TotalOrder_flags b a (fh, fl) = (fh \<or> some_below a b, fl \<or> some_above a b)"
  by (induction a arbitrary: fh fl) auto

text \<open>
  \<open>IsLowerOrEqualTotalOrder\<close> is inverted on ordered clocks: its comment says it returns
  true when the receiver happened before the argument, but for a receiver that is lower it
  returns false and for one that is higher it returns true. Equal clocks give true.
\<close>

theorem IsLowerOrEqualTotalOrder_inverted:
  "(Compare a (Some b) = LowerTs \<longrightarrow> \<not> IsLowerOrEqualTotalOrder a (Some b))
   \<and> (Compare a (Some b) = HigherTs \<longrightarrow> IsLowerOrEqualTotalOrder a (Some b))
   \<and> (Compare a (Some b) = EqualTs \<longrightarrow> IsLowerOrEqualTotalOrder a (Some b))"
  by (auto simp: Compare_eq IsLowerOrEqualTotalOrder_def TotalOrder_flags_eq split: if_splits)

theorem IsLowerOrEqualTotalOrder_inverted_witness:
  "Compare [(1, 4)] (Some [(1, 5)]) = LowerTs \<and> \<not> IsLowerOrEqualTotalOrder [(1, 4)] (Some [(1, 5)])"
  using IsLowerOrEqualTotalOrder_inverted [of "[(1, 4)]" "[(1, 5)]"]
  by (simp add: Compare_def vget_def)

lemma IsSmallerConcurrent_loop_min:
  "IsSmallerConcurrent_loop b es (s, f) = (s', f') \<Longrightarrow>
     s' \<le> s \<and> (\<forall>(i, v) \<in> set es. v \<noteq> vget b i \<longrightarrow> s' \<le> i)
     \<and> ((s', f') = (s, f) \<or> (\<exists>v. (s', v) \<in> set es \<and> v \<noteq> vget b s' \<and> f' = (v < vget b s')))"
proof (induction es arbitrary: s f)
  case Nil
  then show ?case by simp
next
  case (Cons e es)
  obtain i v where e: "e = (i, v)" by (cases e)
  let ?acc = "if i < s then if v < vget b i then (i, True)
       else if v > vget b i then (i, False) else (s, f) else (s, f)"
  obtain s1 f1 where acc: "?acc = (s1, f1)" by (cases ?acc)
  from Cons.prems acc have "IsSmallerConcurrent_loop b es (s1, f1) = (s', f')"
    by (auto simp: e split: if_splits)
  from Cons.IH [OF this] acc show ?case
    by (auto simp: e split: if_splits)
qed

text \<open>
  The tie-break for concurrent clocks is a strict total order: for two different clocks of
  the same replicas exactly one of the two calls of \<open>IsSmallerConcurrent\<close> returns true,
  in any iteration order (the largest 16-bit id, never compared by the code, is excluded).
\<close>

theorem IsSmallerConcurrent_total:
  assumes "wf_map a" and "wf_map b" and "same_ids a b" and "\<not> eq_clk a b"
    and "\<forall>i \<in> fst ` set a. i < MaxInt16"
  shows "IsSmallerConcurrent a (Some b) = Inr True \<longleftrightarrow> IsSmallerConcurrent b (Some a) = Inr False"
proof -
  obtain s f t g where la: "IsSmallerConcurrent_loop b a (MaxInt16, False) = (s, f)"
    and lb: "IsSmallerConcurrent_loop a b (MaxInt16, False) = (t, g)"
    by (metis surj_pair)
  obtain k where k: "vget a k \<noteq> vget b k" using assms(4) by (auto simp: eq_clk_def)
  have ka: "(k, vget a k) \<in> set a" and kb: "(k, vget b k) \<in> set b"
    using k assms(1-3) differ_at_id [of a b k] by (auto simp: same_ids_def intro!: vget_in)
  note A = IsSmallerConcurrent_loop_min [OF la] and B = IsSmallerConcurrent_loop_min [OF lb]
  have sk: "s \<le> k" "t \<le> k" using A B ka kb k by fastforce+
  have km: "k < MaxInt16" using ka assms(5) by force
  from A sk km obtain v where v: "(s, v) \<in> set a" "v \<noteq> vget b s" "f = (v < vget b s)" by auto
  from B sk km obtain w where w: "(t, w) \<in> set b" "w \<noteq> vget a t" "g = (w < vget a t)" by auto
  have va: "vget a s = v" and wb: "vget b t = w" using v w assms(1,2) by (auto simp: vget_entry)
  have "(s, vget b s) \<in> set b" "(t, vget a t) \<in> set a"
    using v w va wb assms differ_at_id [of a b s] differ_at_id [of b a t]
    by (auto simp: same_ids_def intro!: vget_in)
  then have "s = t" using A B v w va wb by fastforce
  then show ?thesis using v w va wb la lb by (auto simp: IsSmallerConcurrent_def)
qed

theorem IsSmallerConcurrent_total_witness:
  "IsSmallerConcurrent [(1, 4), (2, 9)] (Some [(2, 3), (1, 5)]) = Inr True
   \<and> IsSmallerConcurrent [(2, 3), (1, 5)] (Some [(1, 4), (2, 9)]) = Inr False"
proof -
  have h: "wf_map [(1::int, 4::int), (2, 9)]" "wf_map [(2::int, 3::int), (1, 5)]"
    "same_ids [(1, 4), (2, 9)] [(2, 3), (1, 5)]" "\<forall>i \<in> fst ` set [(1::int, 4::int), (2, 9)]. i < MaxInt16"
    by (auto simp: wf_map_def same_ids_def)
  have "vget [(1::int, 4), (2, 9)] 1 \<noteq> vget [(2, 3), (1, 5)] 1" by (simp add: vget_def)
  then have n: "\<not> eq_clk [(1, 4), (2, 9)] [(2, 3), (1, 5)]" unfolding eq_clk_def by blast
  show ?thesis using IsSmallerConcurrent_total [OF h(1,2,3) n h(4)]
    by (simp add: IsSmallerConcurrent_def vget_def)
qed

section \<open>The byte encoding round trip\<close>

lemma length_le_bytes [simp]: "length (le_bytes k n) = k"
  by (induction k arbitrary: n) auto

lemma le_value_le_bytes: "le_value (le_bytes k n) = n mod 256 ^ k"
proof (induction k arbitrary: n)
  case (Suc k)
  have "n mod (256 * 256 ^ k) = n mod 256 + 256 * (n div 256 mod 256 ^ k)"
    by (simp add: zmod_zmult2_eq)
  with Suc show ?case by simp
qed simp

lemma length_ToBytes: "length (ToBytes ts) = 16 * length ts"
  by (induction ts) auto

lemma mput_new: "k \<notin> fst ` set m \<Longrightarrow> mput k v m = m @ [(k, v)]"
  by (induction m) auto

lemma FromBytes_loop_ToBytes:
  assumes "\<forall>(i, v) \<in> set ts. in_int 16 i \<and> in_int 64 v" and "distinct (map fst (vc @ ts))"
  shows "FromBytes_loop (length ts) (ToBytes ts) vc = vc @ ts"
  using assms
proof (induction ts arbitrary: vc)
  case (Cons e ts)
  obtain i v where e: "e = (i, v)" by (cases e)
  with Cons.prems have i: "int16 (i mod 2 ^ 16) = i" and v: "int64 (v mod 2 ^ 64) = v"
    by (auto intro!: trans [OF swrap_cong swrap_id])
  from Cons.prems(2) have new: "mput i v vc = vc @ [(i, v)]"
    by (intro mput_new) (auto simp: e)
  have "FromBytes_loop (length ts) (ToBytes ts) (vc @ [(i, v)]) = (vc @ [(i, v)]) @ ts"
    using Cons.prems by (intro Cons.IH) (auto simp: e)
  with i v new show ?case
    by (simp add: e le_value_le_bytes)
qed simp

text \<open>
  C5. Decoding an encoded clock gives the clock back, for every non-empty clock of 16-bit ids
  and 64-bit values.
\<close>

theorem FromBytes_ToBytes:
  assumes "wf_clk ts" and "ts \<noteq> []"
  shows "FromBytes (ToBytes ts) = ts"
proof -
  have "ToBytes ts \<noteq> []" using assms(2) length_ToBytes [of ts] by auto
  then show ?thesis
    using assms(1) FromBytes_loop_ToBytes [of ts "[]"]
    by (simp add: FromBytes_def length_ToBytes wf_clk_def wf_map_def)
qed

theorem FromBytes_ToBytes_witness:
  "FromBytes (ToBytes [(-1, 5), (2, -300)]) = [(-1, 5), (2, -300)]"
  by (rule FromBytes_ToBytes) (auto simp: wf_clk_def wf_map_def in_int_def)

section \<open>Byte keys\<close>

lemma length_be_bytes [simp]: "length (be_bytes k n) = k"
  by (simp add: be_bytes_def)

lemma be_bytes_Suc: "be_bytes (Suc k) n = be_bytes k (n div 256) @ [n mod 256]"
  by (simp add: be_bytes_def)

lemma cmp_group_append:
  "length xs = length ys \<Longrightarrow>
     cmp_group (length xs + m) (xs @ xs') (ys @ ys') =
       (if xs = ys then cmp_group m xs' ys' else cmp_group (length xs) xs ys)"
  by (induction xs ys rule: list_induct2) auto

definition int_cmp :: "int \<Rightarrow> int \<Rightarrow> byte_cmp" where
  "int_cmp x y = (if x < y then BLess else if x > y then BGreater else BEqual)"

lemma int_cmp_digits:
  assumes "0 < b"
  shows "int_cmp x y = (if x div b = y div b then int_cmp (x mod b) (y mod b)
     else int_cmp (x div b) (y div b))"
proof (cases "x div b = y div b")
  case True
  have "x = b * (y div b) + x mod b" "y = b * (y div b) + y mod b"
    using True by (metis mult_div_mod_eq)+
  then have "x < y \<longleftrightarrow> x mod b < y mod b" "x > y \<longleftrightarrow> x mod b > y mod b" by linarith+
  with True show ?thesis by (simp add: int_cmp_def)
next
  case False
  have "x < y \<longleftrightarrow> x div b < y div b" "x > y \<longleftrightarrow> x div b > y div b"
    using False assms zdiv_mono1 [of x y b] zdiv_mono1 [of y x b] by linarith+
  with False show ?thesis by (simp add: int_cmp_def)
qed

lemma cmp_group_be_bytes:
  "0 \<le> x \<Longrightarrow> x < 256 ^ k \<Longrightarrow> 0 \<le> y \<Longrightarrow> y < 256 ^ k \<Longrightarrow>
     cmp_group k (be_bytes k x @ xs) (be_bytes k y @ ys) = Inr (int_cmp x y)"
proof (induction k arbitrary: x y xs ys)
  case 0
  then show ?case by (simp add: int_cmp_def)
next
  case (Suc k)
  have r: "0 \<le> x div 256" "x div 256 < 256 ^ k" "0 \<le> y div 256" "y div 256 < 256 ^ k"
    using Suc.prems by (auto simp: pos_imp_zdiv_nonneg_iff)
  have q: "cmp_group k (be_bytes k (x div 256)) (be_bytes k (y div 256)) =
      Inr (int_cmp (x div 256) (y div 256))"
    using Suc.IH [OF r, of "[]" "[]"] by simp
  have eq: "be_bytes k (x div 256) = be_bytes k (y div 256) \<longleftrightarrow> x div 256 = y div 256"
  proof
    assume "be_bytes k (x div 256) = be_bytes k (y div 256)"
    then have "le_value (le_bytes k (x div 256)) = le_value (le_bytes k (y div 256))"
      by (simp add: be_bytes_def)
    with r show "x div 256 = y div 256" by (simp add: le_value_le_bytes)
  qed simp
  have "cmp_group (Suc k) (be_bytes (Suc k) x @ xs) (be_bytes (Suc k) y @ ys) =
      (if x div 256 = y div 256 then Inr (int_cmp (x mod 256) (y mod 256))
       else Inr (int_cmp (x div 256) (y div 256)))"
    using cmp_group_append [of "be_bytes k (x div 256)" "be_bytes k (y div 256)" 1
        "x mod 256 # xs" "y mod 256 # ys"] q
    by (auto simp: be_bytes_Suc eq int_cmp_def)
  also have "\<dots> = Inr (int_cmp x y)"
    using int_cmp_digits [of 256 x y] by simp
  finally show ?case .
qed

text \<open>A byte key is read four bytes at a time: \<open>key_words\<close> are the 32-bit halves it compares.\<close>

definition halves :: "int \<Rightarrow> int list" where
  "halves v = [v div 2 ^ 32, v mod 2 ^ 32]"

definition word32 :: "int \<Rightarrow> bool" where
  "word32 x \<longleftrightarrow> 0 \<le> x \<and> x < 256 ^ 4"

lemma halves_word32: "0 \<le> v \<Longrightarrow> v < 2 ^ 64 \<Longrightarrow> \<forall>x \<in> set (halves v). word32 x"
  by (auto simp: halves_def word32_def)

lemma le_bytes_add: "le_bytes (k + m) n = le_bytes k n @ le_bytes m (n div 256 ^ k)"
  by (induction k arbitrary: n) (auto simp: zdiv_zmult2_eq)

lemma le_bytes_mod: "le_bytes k (n mod 256 ^ k) = le_bytes k n"
proof (induction k arbitrary: n)
  case (Suc k)
  have "n mod (256 * 256 ^ k) = n mod 256 + 256 * (n div 256 mod 256 ^ k)"
    by (simp add: zmod_zmult2_eq)
  then have "n mod 256 ^ Suc k div 256 = n div 256 mod 256 ^ k"
    and "n mod 256 ^ Suc k mod 256 = n mod 256"
    by simp_all
  with Suc show ?case by simp
qed simp

lemma be_bytes_halves: "be_bytes 8 v = concat (map (be_bytes 4) (halves v))"
  using le_bytes_add [of 4 4 v] le_bytes_mod [of 4 v] by (simp add: be_bytes_def halves_def)

definition key_words :: "ClockSiTimestamp \<Rightarrow> int list \<Rightarrow> int list" where
  "key_words ts ks = concat (map (\<lambda>k. halves (vget ts k mod 2 ^ 64)) ks)"

definition words_key :: "int list \<Rightarrow> int list" where
  "words_key ws = concat (map (be_bytes 4) ws)"

lemma words_key_Nil [simp]: "words_key [] = []"
  and words_key_Cons [simp]: "words_key (w # ws) = be_bytes 4 w @ words_key ws"
  by (simp_all add: words_key_def)

lemma be_bytes_4_nonempty [simp]: "be_bytes 4 w \<noteq> []"
  by (metis length_be_bytes length_0_conv zero_neq_numeral)

lemma words_key_append: "words_key (us @ ws) = words_key us @ words_key ws"
  by (simp add: words_key_def)

lemma key_bytes_words:
  "concat (map (\<lambda>k. be_bytes 8 (vget ts k mod 2 ^ 64)) ks) = words_key (key_words ts ks)"
proof (induction ks)
  case (Cons k ks)
  have "be_bytes 8 (vget ts k mod 2 ^ 64) = words_key (halves (vget ts k mod 2 ^ 64))"
    by (simp only: be_bytes_halves words_key_def)
  with Cons show ?case by (simp add: key_words_def words_key_append)
qed (simp add: key_words_def)

lemma getMapByteKey_words: "getMapByteKey ts = words_key (key_words ts (GetSortedKeys ts))"
  by (simp only: getMapByteKey_def key_bytes_words)

lemma key_words_word32: "\<forall>x \<in> set (key_words ts ks). word32 x"
proof -
  have "\<forall>x \<in> set (halves (vget ts k mod 2 ^ 64)). word32 x" for k
    by (rule halves_word32) simp_all
  then show ?thesis by (auto simp: key_words_def)
qed

lemma cmp_group_word32:
  "word32 x \<Longrightarrow> word32 y \<Longrightarrow> cmp_group 4 (be_bytes 4 x @ xs) (be_bytes 4 y @ ys) = Inr (int_cmp x y)"
  unfolding word32_def by (intro cmp_group_be_bytes) simp_all

lemma ByteKey_IsLower_loop_words:
  assumes "length us = length ws" "\<forall>x \<in> set us. word32 x" "\<forall>x \<in> set ws. word32 x"
  shows "ByteKey_IsLower_loop (words_key us) (words_key ws) f =
    Inr (list_all2 (\<le>) us ws \<and> (f \<or> us \<noteq> ws))"
  using assms
proof (induction us ws arbitrary: f rule: list_induct2)
  case Nil
  then show ?case by (simp add: ByteKey_IsLower_loop.simps)
next
  case (Cons u us w ws)
  then show ?case
    by (auto simp: ByteKey_IsLower_loop.simps [of "be_bytes 4 u @ words_key us"]
        cmp_group_word32 int_cmp_def)
qed

lemma ByteKey_IsHigher_loop_words:
  assumes "length us = length ws" "\<forall>x \<in> set us. word32 x" "\<forall>x \<in> set ws. word32 x"
  shows "ByteKey_IsHigher_loop (words_key us) (words_key ws) f =
    Inr (list_all2 (\<ge>) us ws \<and> (f \<or> us \<noteq> ws))"
  using assms
proof (induction us ws arbitrary: f rule: list_induct2)
  case Nil
  then show ?case by (simp add: ByteKey_IsHigher_loop.simps)
next
  case (Cons u us w ws)
  then show ?case
    by (auto simp: ByteKey_IsHigher_loop.simps [of "be_bytes 4 u @ words_key us"]
        cmp_group_word32 int_cmp_def)
qed

lemma ByteKey_IsLowerOrEqual_words:
  assumes "length us = length ws" "\<forall>x \<in> set us. word32 x" "\<forall>x \<in> set ws. word32 x"
  shows "ByteKey_IsLowerOrEqual (words_key us) (words_key ws) = Inr (list_all2 (\<le>) us ws)"
  using assms
proof (induction us ws rule: list_induct2)
  case Nil
  then show ?case by (simp add: ByteKey_IsLowerOrEqual.simps)
next
  case (Cons u us w ws)
  then show ?case
    by (auto simp: ByteKey_IsLowerOrEqual.simps [of "be_bytes 4 u @ words_key us"]
        cmp_group_word32 int_cmp_def)
qed

text \<open>The order the keys decide: every 32-bit half of every position, separately.\<close>

definition halves_le :: "ClockSiTimestamp \<Rightarrow> ClockSiTimestamp \<Rightarrow> bool" where
  "halves_le a b \<longleftrightarrow> (\<forall>i. vget a i div 2 ^ 32 \<le> vget b i div 2 ^ 32 \<and> vget a i mod 2 ^ 32 \<le> vget b i mod 2 ^ 32)"

definition nonneg_clk :: "ClockSiTimestamp \<Rightarrow> bool" where
  "nonneg_clk ts \<longleftrightarrow> wf_clk ts \<and> (\<forall>(i, v) \<in> set ts. 0 \<le> v)"

lemma GetSortedKeys_same: "wf_map a \<Longrightarrow> wf_map b \<Longrightarrow> same_ids a b \<Longrightarrow> GetSortedKeys a = GetSortedKeys b"
  unfolding GetSortedKeys_def wf_map_def same_ids_def
  by (intro sorted_distinct_set_unique) simp_all

lemma nonneg_clk_bounds: "nonneg_clk ts \<Longrightarrow> 0 \<le> vget ts i \<and> vget ts i < 2 ^ 63"
proof (cases "i \<in> fst ` set ts")
  case True
  assume "nonneg_clk ts"
  then show ?thesis
    using vget_in [OF _ True] unfolding nonneg_clk_def wf_clk_def in_int_def by fastforce
qed (simp add: vget_missing)

lemma nonneg_clk_mod: "nonneg_clk ts \<Longrightarrow> vget ts i mod 2 ^ 64 = vget ts i"
  using nonneg_clk_bounds [of ts i] by simp

lemma wf_clk_mod_inj:
  "wf_clk a \<Longrightarrow> wf_clk b \<Longrightarrow> vget a i mod 2 ^ 64 = vget b i mod 2 ^ 64 \<Longrightarrow> vget a i = vget b i"
proof -
  assume ab: "wf_clk a" "wf_clk b" and eq: "vget a i mod 2 ^ 64 = vget b i mod 2 ^ 64"
  have "in_int 64 (vget ts i)" if "wf_clk ts" for ts
  proof (cases "i \<in> fst ` set ts")
    case True
    then show ?thesis using that vget_in [OF _ True] unfolding wf_clk_def by fastforce
  qed (simp add: vget_missing in_int_def)
  with ab have "swrap 64 (vget a i) = vget a i" "swrap 64 (vget b i) = vget b i"
    by (simp_all add: swrap_id)
  with swrap_cong [OF eq] show ?thesis by simp
qed

lemma key_words_Cons: "key_words a (k # ks) = halves (vget a k mod 2 ^ 64) @ key_words a ks"
  by (simp add: key_words_def)

lemma length_key_words: "length (key_words a ks) = 2 * length ks"
  by (induction ks) (simp_all add: key_words_def halves_def)

lemma key_words_list_all2:
  "list_all2 P (key_words a ks) (key_words b ks) \<longleftrightarrow>
     (\<forall>k \<in> set ks. list_all2 P (halves (vget a k mod 2 ^ 64)) (halves (vget b k mod 2 ^ 64)))"
proof (induction ks)
  case (Cons k ks)
  then show ?case by (simp add: key_words_Cons halves_def)
qed (simp add: key_words_def)

lemma halves_inj: "halves x = halves y \<Longrightarrow> x = y"
  unfolding halves_def by (metis list.inject mult_div_mod_eq)

lemma set_GetSortedKeys [simp]: "set (GetSortedKeys ts) = fst ` set ts"
  by (simp add: GetSortedKeys_def)

lemma key_words_eq_iff:
  assumes "wf_clk a" "wf_clk b" "same_ids a b"
  shows "key_words a (GetSortedKeys a) = key_words b (GetSortedKeys a) \<longleftrightarrow> eq_clk a b"
proof -
  have "key_words a (GetSortedKeys a) = key_words b (GetSortedKeys a) \<longleftrightarrow>
      (\<forall>k \<in> fst ` set a. halves (vget a k mod 2 ^ 64) = halves (vget b k mod 2 ^ 64))"
    using key_words_list_all2 [of "(=)" a "GetSortedKeys a" b] by (simp add: list.rel_eq)
  also have "\<dots> \<longleftrightarrow> eq_clk a b"
    unfolding eq_clk_def using halves_inj wf_clk_mod_inj [OF assms(1,2)] differ_at_id [OF assms(3)]
    by metis
  finally show ?thesis .
qed

lemma key_words_le_iff:
  assumes "nonneg_clk a" "nonneg_clk b" "same_ids a b"
  shows "list_all2 (\<le>) (key_words a (GetSortedKeys a)) (key_words b (GetSortedKeys a)) \<longleftrightarrow> halves_le a b"
proof -
  have "vget a i = 0 \<and> vget b i = 0" if "i \<notin> fst ` set a" for i
    using that assms(3) by (simp add: vget_missing same_ids_def)
  moreover have "list_all2 (\<le>) (halves (vget a k mod 2 ^ 64)) (halves (vget b k mod 2 ^ 64)) \<longleftrightarrow>
      vget a k div 2 ^ 32 \<le> vget b k div 2 ^ 32 \<and> vget a k mod 2 ^ 32 \<le> vget b k mod 2 ^ 32" for k
    using nonneg_clk_mod [OF assms(1), of k] nonneg_clk_mod [OF assms(2), of k]
    by (simp only: halves_def) simp
  ultimately show ?thesis
    unfolding key_words_list_all2 halves_le_def set_GetSortedKeys
    by (metis (no_types, lifting) order_refl)
qed

text \<open>
  Two clocks of the same replicas have the same byte key exactly when they are equal, so the
  key identifies a version in the cache.
\<close>

lemma getMapByteKey_eq_iff:
  assumes "wf_clk a" and "wf_clk b" and "same_ids a b"
  shows "getMapByteKey a = getMapByteKey b \<longleftrightarrow> eq_clk a b"
proof -
  have keys: "GetSortedKeys b = GetSortedKeys a"
    using assms GetSortedKeys_same by (metis wf_clk_def)
  have "getMapByteKey a = getMapByteKey b \<longleftrightarrow>
      key_words a (GetSortedKeys a) = key_words b (GetSortedKeys a)"
  proof
    let ?us = "key_words a (GetSortedKeys a)" and ?ws = "key_words b (GetSortedKeys a)"
    assume "getMapByteKey a = getMapByteKey b"
    then have "words_key ?us = words_key ?ws" by (simp add: getMapByteKey_words keys)
    then have "ByteKey_IsLower_loop (words_key ?us) (words_key ?ws) False =
        ByteKey_IsLower_loop (words_key ?us) (words_key ?us) False"
      by simp
    moreover have "ByteKey_IsLower_loop (words_key ?us) (words_key ?ws) True =
        ByteKey_IsLower_loop (words_key ?us) (words_key ?us) True"
      using \<open>words_key ?us = words_key ?ws\<close> by simp
    ultimately show "?us = ?ws"
      by (simp add: ByteKey_IsLower_loop_words key_words_word32 length_key_words list.rel_refl)
  qed (simp add: getMapByteKey_words keys)
  then show ?thesis by (simp add: key_words_eq_iff [OF assms])
qed

lemma ByteKey_halves:
  assumes "nonneg_clk a" and "nonneg_clk b" and "same_ids a b"
  shows "ByteKey_IsLower (getMapByteKey a) (getMapByteKey b) = Inr (halves_le a b \<and> \<not> eq_clk a b)
    \<and> ByteKey_IsLowerOrEqual (getMapByteKey a) (getMapByteKey b) = Inr (halves_le a b)
    \<and> ByteKey_IsHigher (getMapByteKey b) (getMapByteKey a) = Inr (halves_le a b \<and> \<not> eq_clk a b)"
proof -
  have wf: "wf_clk a" "wf_clk b" using assms by (auto simp: nonneg_clk_def)
  then have keys: "GetSortedKeys b = GetSortedKeys a"
    using assms(3) GetSortedKeys_same by (metis wf_clk_def)
  have ge: "list_all2 (\<ge>) ws us \<longleftrightarrow> list_all2 (\<le>) us ws" for us ws :: "int list"
    by (simp add: list_all2_conv_all_nth) auto
  show ?thesis
    by (simp add: ByteKey_IsLower_def ByteKey_IsHigher_def getMapByteKey_words keys
        ByteKey_IsLower_loop_words ByteKey_IsHigher_loop_words ByteKey_IsLowerOrEqual_words
        key_words_word32 length_key_words ge key_words_le_iff [OF assms]
        key_words_eq_iff [OF wf assms(3)] key_words_eq_iff [OF wf assms(3), THEN eq_commute [THEN trans]])
qed

lemma halves_le_le: "(x::int) div d \<le> y div d \<Longrightarrow> x mod d \<le> y mod d \<Longrightarrow> 0 < d \<Longrightarrow> x \<le> y"
  by (metis add_mono mult_div_mod_eq mult_left_mono order_less_imp_le)

lemma halves_lower:
  assumes "wf_map a" and "same_ids a b" and "halves_le a b" and "\<not> eq_clk a b"
  shows "IsLower a (Some b)"
proof -
  have "le_clk a b"
    unfolding le_clk_def
  proof
    fix i
    from assms(3) show "vget a i \<le> vget b i"
      unfolding halves_le_def by (rule_tac halves_le_le [of _ "2 ^ 32"]) simp_all
  qed
  then show ?thesis
    using assms le_clk_antisym [of a b] by (simp add: IsLower_eq some_above_iff some_below_iff) blast
qed

text \<open>
  What the byte keys decide. The comparisons step through a key in groups of four bytes
  although every position takes eight, so the upper and the lower half of each position are
  compared as if they were two numbers: \<open>IsLower\<close> on keys means that no half is larger and
  the clocks differ. The comparisons never read out of range on clocks of the same replicas,
  and they err on one side only: a key that is reported lower belongs to a lower clock. As the
  name of a version a key is right: the keys are the same exactly for equal clocks.
\<close>

theorem ByteKey_compares_halves:
  assumes "nonneg_clk a" and "nonneg_clk b" and "same_ids a b"
  shows "ByteKey_IsLower (getMapByteKey a) (getMapByteKey b) = Inr (halves_le a b \<and> \<not> eq_clk a b)
    \<and> ByteKey_IsLowerOrEqual (getMapByteKey a) (getMapByteKey b) = Inr (halves_le a b)
    \<and> ByteKey_IsHigher (getMapByteKey b) (getMapByteKey a) = Inr (halves_le a b \<and> \<not> eq_clk a b)
    \<and> (ByteKey_IsLower (getMapByteKey a) (getMapByteKey b) = Inr True \<longrightarrow> IsLower a (Some b))
    \<and> (getMapByteKey a = getMapByteKey b \<longleftrightarrow> eq_clk a b)"
  using ByteKey_halves [OF assms] halves_lower [of a b] getMapByteKey_eq_iff [of a b] assms
  by (simp add: nonneg_clk_def wf_clk_def)

theorem ByteKey_compares_halves_witness:
  "IsLower [(1, 2 ^ 32 + 5)] (Some [(1, 2 * 2 ^ 32 + 3)])
   \<and> ByteKey_IsLower (getMapByteKey [(1, 2 ^ 32 + 5)]) (getMapByteKey [(1, 2 * 2 ^ 32 + 3)]) = Inr False
   \<and> ByteKey_IsLowerOrEqual (getMapByteKey [(1, 2 ^ 32 + 5)]) (getMapByteKey [(1, 2 * 2 ^ 32 + 3)]) = Inr False"
proof -
  let ?a = "[(1::int, 2 ^ 32 + 5 :: int)]" and ?b = "[(1::int, 2 * 2 ^ 32 + 3 :: int)]"
  have h: "nonneg_clk ?a" "nonneg_clk ?b" "same_ids ?a ?b"
    by (auto simp: nonneg_clk_def wf_clk_def wf_map_def in_int_def same_ids_def)
  have "\<not> vget ?a 1 mod 2 ^ 32 \<le> vget ?b 1 mod 2 ^ 32" by (simp add: vget_def)
  then have "\<not> halves_le ?a ?b" unfolding halves_le_def by blast
  moreover have "IsLower ?a (Some ?b)" by (simp add: IsLower_def vget_def)
  ultimately show ?thesis using ByteKey_compares_halves [OF h] by simp
qed

end
