(* ===== verification/SliceClock.thy ===== *)
theory SliceClock
  imports ClockSI
begin

text \<open>
  The slice clocks of \<^verbatim>\<open>crdt/clocksi/sliceClock.go\<close>: a vector clock stored as a slice in the
  order of the sorted replica ids. The globals \<open>sortedIDs\<close> and \<open>idToPos\<close> are arguments.
  The lemmas show that the slice operations compute what the map clocks compute.
\<close>

type_synonym SliceTimestamp = "int list"

primrec SetSortedIDs_loop :: "nat \<Rightarrow> int list \<Rightarrow> (int \<times> nat) list \<Rightarrow> (int \<times> nat) list" where
  "SetSortedIDs_loop i [] idToPos = idToPos"
| "SetSortedIDs_loop i (k # ids) idToPos = SetSortedIDs_loop (Suc i) ids (mput k i idToPos)"

definition SetSortedIDs :: "int list \<Rightarrow> int list \<times> (int \<times> nat) list" where
  "SetSortedIDs ids = (let sortedIDs = sort ids in (sortedIDs, SetSortedIDs_loop 0 sortedIDs []))"

definition NewSliceTimestamp :: "int list \<Rightarrow> SliceTimestamp" where
  "NewSliceTimestamp sortedIDs = replicate (length sortedIDs) 0"

definition FromClockSiToSlice :: "int list \<Rightarrow> ClockSiTimestamp \<Rightarrow> SliceTimestamp" where
  "FromClockSiToSlice sortedIDs other = map (GetPos other) sortedIDs"

definition GetPosOfId :: "(int \<times> nat) list \<Rightarrow> int \<Rightarrow> int" where
  "GetPosOfId idToPos i = (case map_of idToPos i of Some pos \<Rightarrow> int pos | None \<Rightarrow> -1)"

definition Slice_UpdatePos :: "SliceTimestamp \<Rightarrow> int \<Rightarrow> int \<Rightarrow> SliceTimestamp go" where
  "Slice_UpdatePos st pos v =
     (if 0 \<le> pos \<and> nat pos < length st then Inr (st[nat pos := v]) else Inl IndexOutOfRange)"

definition GetPosValue :: "SliceTimestamp \<Rightarrow> int \<Rightarrow> int go" where
  "GetPosValue st pos =
     (if 0 \<le> pos \<and> nat pos < length st then Inr (st ! nat pos) else Inl IndexOutOfRange)"

fun FromSortedSlice_loop :: "int list \<Rightarrow> int list \<Rightarrow> ClockSiTimestamp \<Rightarrow> ClockSiTimestamp go" where
  "FromSortedSlice_loop [] vs ts = Inr ts"
| "FromSortedSlice_loop (k # ids) [] ts = Inl IndexOutOfRange"
| "FromSortedSlice_loop (k # ids) (v # vs) ts = FromSortedSlice_loop ids vs (mput k v ts)"

definition FromSortedSliceToClockSi :: "int list \<Rightarrow> int list \<Rightarrow> ClockSiTimestamp go" where
  "FromSortedSliceToClockSi sortedIDs sortedVc = FromSortedSlice_loop sortedIDs sortedVc []"

text \<open>The loop of \<open>IsHigherOrEqualExceptFor\<close>: position \<open>i\<close> is the next one it compares.\<close>

fun IsHigherOrEqualExceptFor_loop :: "nat \<Rightarrow> int list \<Rightarrow> int list \<Rightarrow> int \<Rightarrow> bool go" where
  "IsHigherOrEqualExceptFor_loop i [] other pos = Inr True"
| "IsHigherOrEqualExceptFor_loop i (x # xs) [] pos = Inl IndexOutOfRange"
| "IsHigherOrEqualExceptFor_loop i (x # xs) (y # ys) pos =
     (if x < y \<and> int i \<noteq> pos then Inr False else IsHigherOrEqualExceptFor_loop (Suc i) xs ys pos)"

definition IsHigherOrEqualExceptFor :: "SliceTimestamp \<Rightarrow> SliceTimestamp option \<Rightarrow> int \<Rightarrow> bool go" where
  "IsHigherOrEqualExceptFor st otherTs pos = (case otherTs of None \<Rightarrow> Inr False
     | Some other \<Rightarrow> IsHigherOrEqualExceptFor_loop 0 st other pos)"

fun Slice_Merge :: "SliceTimestamp \<Rightarrow> SliceTimestamp \<Rightarrow> SliceTimestamp go" where
  "Slice_Merge st [] = Inr st"
| "Slice_Merge [] (y # ys) = Inl IndexOutOfRange"
| "Slice_Merge (x # xs) (y # ys) =
     gbind (Slice_Merge xs ys) (\<lambda>zs. Inr ((if x < y then y else x) # zs))"

section \<open>Slices represent clocks\<close>

text \<open>\<open>represents ids sl ts\<close>: the slice holds the values of the clock at the sorted ids, and the
  clock has no other positions.\<close>

definition represents :: "int list \<Rightarrow> SliceTimestamp \<Rightarrow> ClockSiTimestamp \<Rightarrow> bool" where
  "represents ids sl ts \<longleftrightarrow> wf_map ts \<and> fst ` set ts = set ids \<and> sl = map (vget ts) ids"

lemma FromSortedSlice_loop_Inr:
  "length vs = length ids \<Longrightarrow> distinct (map fst ts @ ids) \<Longrightarrow>
     FromSortedSlice_loop ids vs ts = Inr (ts @ zip ids vs)"
  by (induction ids vs ts rule: FromSortedSlice_loop.induct) (auto simp: mput_new)

lemma vget_zip: "length vs = length ids \<Longrightarrow> distinct ids \<Longrightarrow> map (vget (zip ids vs)) ids = vs"
  by (rule nth_equalityI) (auto simp: vget_def map_of_zip_nth)

lemma represents_same_ids:
  "represents ids s a \<Longrightarrow> represents ids t b \<Longrightarrow> same_ids a b"
  by (simp add: represents_def same_ids_def)

lemma IsHigherOrEqualExceptFor_loop_eq:
  "length ys = length xs \<Longrightarrow>
     IsHigherOrEqualExceptFor_loop i xs ys pos =
       Inr (\<forall>j < length xs. int (i + j) \<noteq> pos \<longrightarrow> ys ! j \<le> xs ! j)"
proof (induction i xs ys pos rule: IsHigherOrEqualExceptFor_loop.induct)
  case (3 i x xs y ys pos)
  then show ?case by (auto simp: less_Suc_eq_0_disj not_less)
qed simp_all

lemma Slice_Merge_eq: "length ys = length xs \<Longrightarrow> Slice_Merge xs ys = Inr (map2 max xs ys)"
  by (induction xs ys rule: Slice_Merge.induct) (auto simp: max_def)


lemma SetSortedIDs_loop_other: "k \<notin> set ids \<Longrightarrow> map_of (SetSortedIDs_loop i ids m) k = map_of m k"
  by (induction ids arbitrary: i m) (auto simp: map_of_mput)

lemma SetSortedIDs_loop_nth:
  "distinct ids \<Longrightarrow> j < length ids \<Longrightarrow> map_of (SetSortedIDs_loop i ids m) (ids ! j) = Some (i + j)"
proof (induction ids arbitrary: i j m)
  case (Cons k ids)
  then show ?case
    by (cases j) (auto simp: SetSortedIDs_loop_other map_of_mput)
qed simp

text \<open>
  A clock copied to a slice and back is the same clock, at the ids it was configured with.
\<close>

lemma slice_round_trip:
  assumes "wf_map ts" and "distinct ids" and "fst ` set ts = set ids"
  shows "\<exists>ts'. FromSortedSliceToClockSi ids (FromClockSiToSlice ids ts) = Inr ts'
    \<and> wf_map ts' \<and> same_ids ts' ts \<and> eq_clk ts' ts"
proof -
  let ?vs = "map (vget ts) ids" and ?ts' = "zip ids (map (vget ts) ids)"
  have r: "FromSortedSliceToClockSi ids (FromClockSiToSlice ids ts) = Inr ?ts'"
    using assms(2) FromSortedSlice_loop_Inr [of ?vs ids "[]"]
    by (simp add: FromSortedSliceToClockSi_def FromClockSiToSlice_def GetPos_def [abs_def])
  have m: "map fst ?ts' = ids" by simp
  then have w: "wf_map ?ts'" using assms(2) by (simp only: wf_map_def)
  have k: "fst ` set ?ts' = set ids" by (metis m list.set_map)
  have "vget ?ts' i = vget ts i" for i
  proof (cases "i \<in> set ids")
    case True
    then show ?thesis using vget_zip [of ?vs ids] assms(2) by (auto simp: map_eq_conv)
  next
    case False
    then show ?thesis using k assms(3) by (simp add: vget_missing)
  qed
  with r k w assms(3) show ?thesis by (auto simp: same_ids_def eq_clk_def)
qed

lemma IsLowerOrEqualExceptFor_eq:
  "IsLowerOrEqualExceptFor a (Some b) self i \<longleftrightarrow>
     (\<forall>(j, v) \<in> set a. j \<noteq> i \<and> j \<noteq> self \<longrightarrow> v \<le> vget b j)"
  unfolding IsLowerOrEqualExceptFor_def by (induction a) auto

lemma GetPosOfId_nth:
  "distinct ids \<Longrightarrow> j < length ids \<Longrightarrow> GetPosOfId (SetSortedIDs_loop 0 ids []) (ids ! j) = int j"
  by (simp add: GetPosOfId_def SetSortedIDs_loop_nth)

lemma GetPosOfId_other: "k \<notin> set ids \<Longrightarrow> GetPosOfId (SetSortedIDs_loop 0 ids []) k = -1"
  by (simp add: GetPosOfId_def SetSortedIDs_loop_other)

lemma GetPosOfId_eq_iff:
  assumes "distinct ids" and "j < length ids"
  shows "int j = GetPosOfId (SetSortedIDs_loop 0 ids []) k \<longleftrightarrow> ids ! j = k"
proof (cases "k \<in> set ids")
  case True
  then obtain l where "l < length ids" "k = ids ! l" by (metis in_set_conv_nth)
  then show ?thesis using assms by (simp add: GetPosOfId_nth nth_eq_iff_index_eq)
next
  case False
  then show ?thesis using assms(2) nth_mem by (fastforce simp: GetPosOfId_other)
qed

lemma slice_compare_refines:
  assumes "represents ids s a" and "represents ids t b" and "distinct ids"
  shows "IsHigherOrEqualExceptFor s (Some t) (GetPosOfId (SetSortedIDs_loop 0 ids []) k)
    = Inr (IsLowerOrEqualExceptFor b (Some a) k k)"
proof -
  have s: "s = map (vget a) ids" and t: "t = map (vget b) ids"
    and b: "wf_map b" "fst ` set b = set ids"
    using assms by (auto simp: represents_def)
  have "IsHigherOrEqualExceptFor s (Some t) (GetPosOfId (SetSortedIDs_loop 0 ids []) k)
      = Inr (\<forall>j < length ids. ids ! j \<noteq> k \<longrightarrow> vget b (ids ! j) \<le> vget a (ids ! j))"
    by (auto simp: IsHigherOrEqualExceptFor_def IsHigherOrEqualExceptFor_loop_eq s t
        GetPosOfId_eq_iff [OF assms(3)])
  also have "(\<forall>j < length ids. ids ! j \<noteq> k \<longrightarrow> vget b (ids ! j) \<le> vget a (ids ! j)) \<longleftrightarrow>
      (\<forall>j \<in> set ids. j \<noteq> k \<longrightarrow> vget b j \<le> vget a j)"
    by (metis in_set_conv_nth)
  also have "\<dots> \<longleftrightarrow> IsLowerOrEqualExceptFor b (Some a) k k"
    using entries_all [OF b(1), of "\<lambda>j v. j \<noteq> k \<longrightarrow> v \<le> vget a j"] b(2)
    by (simp add: IsLowerOrEqualExceptFor_eq)
  finally show ?thesis .
qed

lemma slice_merge_refines:
  assumes "represents ids s a" and "represents ids t b"
  shows "\<exists>m. Slice_Merge s t = Inr m \<and> represents ids m (Merge a (Some b))"
proof -
  have "same_ids a b" "wf_map a" using assms by (auto simp: represents_def same_ids_def)
  moreover have "wf_map (Merge a (Some b))" "fst ` set (Merge a (Some b)) = set ids"
    using assms by (auto simp: represents_def Merge_def keys_Merge_loop wf_Merge_loop)
  ultimately have "represents ids (map2 max s t) (Merge a (Some b))"
    using assms by (auto simp: represents_def vget_Merge zip_map_map zip_same_conv_map)
  moreover have "length t = length s" using assms by (simp add: represents_def)
  ultimately show ?thesis by (simp add: Slice_Merge_eq)
qed

text \<open>
  C6. The slice clocks refine the map clocks: on slices that represent two clocks at the
  configured ids, the slice comparison except for one id answers what the map comparison
  answers, and the slice merge represents the merged clock; neither reads out of range. A
  clock of those ids that is copied to a slice and back is the same clock.
\<close>

theorem slice_refines_clock:
  assumes "SetSortedIDs config = (ids, idToPos)" and "distinct config"
    and "represents ids s a" and "represents ids t b"
  shows "IsHigherOrEqualExceptFor s (Some t) (GetPosOfId idToPos k)
      = Inr (IsLowerOrEqualExceptFor b (Some a) k k)
    \<and> (\<exists>m. Slice_Merge s t = Inr m \<and> represents ids m (Merge a (Some b)))
    \<and> (\<exists>c. FromSortedSliceToClockSi ids (FromClockSiToSlice ids a) = Inr c \<and> wf_map c \<and> same_ids c a \<and> eq_clk c a)"
proof -
  have "distinct ids" "idToPos = SetSortedIDs_loop 0 ids []"
    using assms(1,2) by (auto simp: SetSortedIDs_def Let_def)
  moreover from this have "\<exists>c. FromSortedSliceToClockSi ids (FromClockSiToSlice ids a) = Inr c
      \<and> wf_map c \<and> same_ids c a \<and> eq_clk c a"
    using assms(3) by (intro slice_round_trip) (simp_all add: represents_def)
  ultimately show ?thesis using assms(3,4) by (simp add: slice_compare_refines slice_merge_refines)
qed

theorem slice_refines_clock_witness:
  "IsHigherOrEqualExceptFor [4, 9] (Some [5, 9]) (GetPosOfId [(1, 0), (2, 1)] 1)
     = Inr (IsLowerOrEqualExceptFor [(2, 9), (1, 5)] (Some [(1, 4), (2, 9)]) 1 1)
   \<and> (\<exists>m. Slice_Merge [4, 9] [5, 9] = Inr m
        \<and> represents [1, 2] m (Merge [(1, 4), (2, 9)] (Some [(2, 9), (1, 5)])))
   \<and> (\<exists>c. FromSortedSliceToClockSi [1, 2] (FromClockSiToSlice [1, 2] [(1, 4), (2, 9)]) = Inr c
        \<and> wf_map c \<and> same_ids c [(1, 4), (2, 9)] \<and> eq_clk c [(1, 4), (2, 9)])"
proof (rule slice_refines_clock)
  show "SetSortedIDs [2, 1] = ([1, 2], [(1, 0), (2, 1)])" by (simp add: SetSortedIDs_def)
  show "distinct [2::int, 1]" by simp
  show "represents [1, 2] [4, 9] [(1, 4), (2, 9)]" "represents [1, 2] [5, 9] [(2, 9), (1, 5)]"
    by (auto simp: represents_def wf_map_def vget_def)
qed

end
