(* ===== verification/GoHeap.thy ===== *)
theory GoHeap
  imports Prelude
begin

text \<open>
  Go's \<open>container/heap\<close>, which the server uses for prepared clocks, commits on hold and waiting
  clients. As in Go the algorithms see a heap \<open>'h\<close> only through its methods \<open>Less\<close> and
  \<open>Swap\<close>; the locale \<open>heap_interface\<close> states that they act on a list of entries, and derives
  what the algorithms do to it where the order is total on the entries.
\<close>

section \<open>The algorithms\<close>

function heap_up :: "('h \<Rightarrow> nat \<Rightarrow> nat \<Rightarrow> bool) \<Rightarrow> ('h \<Rightarrow> nat \<Rightarrow> nat \<Rightarrow> 'h) \<Rightarrow> 'h \<Rightarrow> nat \<Rightarrow> 'h" where
  "heap_up Less Swap h j =
     (let i = (j - 1) div 2 in if i = j \<or> \<not> Less h j i then h else heap_up Less Swap (Swap h i j) i)"
  by pat_completeness auto
termination
  by (relation "measure (\<lambda>(Less, Swap, h, j). j)") auto

declare heap_up.simps [simp del]

text \<open>The child of \<open>i\<close> that \<open>down\<close> compares with, below \<open>n\<close>.\<close>

definition heap_child :: "('h \<Rightarrow> nat \<Rightarrow> nat \<Rightarrow> bool) \<Rightarrow> 'h \<Rightarrow> nat \<Rightarrow> nat \<Rightarrow> nat" where
  "heap_child Less h i n = (if 2 * i + 2 < n \<and> Less h (2 * i + 2) (2 * i + 1) then 2 * i + 2 else 2 * i + 1)"

function heap_down_from :: "('h \<Rightarrow> nat \<Rightarrow> nat \<Rightarrow> bool) \<Rightarrow> ('h \<Rightarrow> nat \<Rightarrow> nat \<Rightarrow> 'h) \<Rightarrow> 'h \<Rightarrow> nat \<Rightarrow> nat \<Rightarrow> 'h \<times> nat" where
  "heap_down_from Less Swap h i n =
     (if 2 * i + 1 \<ge> n then (h, i)
      else let j = heap_child Less h i n
           in if \<not> Less h j i then (h, i) else heap_down_from Less Swap (Swap h i j) j n)"
  by pat_completeness auto
termination
  by (relation "measure (\<lambda>(Less, Swap, h, i, n). n - i)") (auto simp: heap_child_def split: if_splits)

declare heap_down_from.simps [simp del]

definition heap_down :: "('h \<Rightarrow> nat \<Rightarrow> nat \<Rightarrow> bool) \<Rightarrow> ('h \<Rightarrow> nat \<Rightarrow> nat \<Rightarrow> 'h) \<Rightarrow> 'h \<Rightarrow> nat \<Rightarrow> nat \<Rightarrow> 'h \<times> bool" where
  "heap_down Less Swap h i n = (case heap_down_from Less Swap h i n of (h', i') \<Rightarrow> (h', i' > i))"

text \<open>
  The steps before the method \<open>Pop\<close> takes the last entry off. With no entry the swap indexes
  position -1 and panics.
\<close>

definition heap_Pop_prepare ::
    "('h \<Rightarrow> nat \<Rightarrow> nat \<Rightarrow> bool) \<Rightarrow> ('h \<Rightarrow> nat \<Rightarrow> nat \<Rightarrow> 'h) \<Rightarrow> nat \<Rightarrow> 'h \<Rightarrow> 'h go" where
  "heap_Pop_prepare Less Swap len h =
     (if len = 0 then Inl IndexOutOfRange else Inr (fst (heap_down Less Swap (Swap h 0 (len - 1)) 0 (len - 1))))"

definition heap_Remove_prepare ::
    "('h \<Rightarrow> nat \<Rightarrow> nat \<Rightarrow> bool) \<Rightarrow> ('h \<Rightarrow> nat \<Rightarrow> nat \<Rightarrow> 'h) \<Rightarrow> nat \<Rightarrow> 'h \<Rightarrow> nat \<Rightarrow> 'h go" where
  "heap_Remove_prepare Less Swap len h i =
     (if len = 0 then Inl IndexOutOfRange
      else if len - 1 = i then Inr h
      else case heap_down Less Swap (Swap h i (len - 1)) i (len - 1) of
             (h', moved) \<Rightarrow> Inr (if moved then h' else heap_up Less Swap h' i))"

section \<open>Lists as heaps\<close>

definition list_swap :: "'e list \<Rightarrow> nat \<Rightarrow> nat \<Rightarrow> 'e list" where
  "list_swap xs i j = xs[i := xs ! j, j := xs ! i]"

lemma length_list_swap [simp]: "length (list_swap xs i j) = length xs"
  by (simp add: list_swap_def)

lemma nth_list_swap: "i < length xs \<Longrightarrow> j < length xs \<Longrightarrow> k < length xs \<Longrightarrow>
    list_swap xs i j ! k = xs ! (if k = i then j else if k = j then i else k)"
  by (simp add: list_swap_def nth_list_update)

lemma mset_list_swap [simp]: "i < length xs \<Longrightarrow> j < length xs \<Longrightarrow> mset (list_swap xs i j) = mset xs"
  by (simp add: list_swap_def mset_swap)

abbreviation par :: "nat \<Rightarrow> nat" where "par j \<equiv> (j - 1) div 2"

lemma par_less: "0 < j \<Longrightarrow> par j < j"
  by simp

lemma par_child: "par k = i \<Longrightarrow> 0 < k \<Longrightarrow> k = 2 * i + 1 \<or> k = 2 * i + 2"
  by linarith

text \<open>No entry of the first \<open>n\<close> is lower than its parent.\<close>

definition heap_ok :: "('e \<Rightarrow> 'e \<Rightarrow> bool) \<Rightarrow> 'e list \<Rightarrow> nat \<Rightarrow> bool" where
  "heap_ok lt xs n \<longleftrightarrow> (\<forall>k. 0 < k \<and> k < n \<longrightarrow> \<not> lt (xs ! k) (xs ! par k))"

text \<open>The children of \<open>j\<close> are not lower than the parent of \<open>j\<close>.\<close>

definition bridge :: "('e \<Rightarrow> 'e \<Rightarrow> bool) \<Rightarrow> 'e list \<Rightarrow> nat \<Rightarrow> nat \<Rightarrow> bool" where
  "bridge lt xs n j \<longleftrightarrow> (\<forall>k. 0 < k \<and> k < n \<and> 0 < j \<and> par k = j \<longrightarrow> \<not> lt (xs ! k) (xs ! par j))"

definition up_ok :: "('e \<Rightarrow> 'e \<Rightarrow> bool) \<Rightarrow> 'e list \<Rightarrow> nat \<Rightarrow> nat \<Rightarrow> bool" where
  "up_ok lt xs n j \<longleftrightarrow> (\<forall>k. 0 < k \<and> k < n \<and> k \<noteq> j \<longrightarrow> \<not> lt (xs ! k) (xs ! par k)) \<and> bridge lt xs n j"

definition down_ok :: "('e \<Rightarrow> 'e \<Rightarrow> bool) \<Rightarrow> 'e list \<Rightarrow> nat \<Rightarrow> nat \<Rightarrow> bool \<Rightarrow> bool" where
  "down_ok lt xs n i b \<longleftrightarrow>
     (\<forall>k. 0 < k \<and> k < n \<and> par k \<noteq> i \<and> (k \<noteq> i \<or> b) \<longrightarrow> \<not> lt (xs ! k) (xs ! par k)) \<and> bridge lt xs n i"

definition total_on_entries :: "('e \<Rightarrow> 'e \<Rightarrow> bool) \<Rightarrow> 'e set \<Rightarrow> bool" where
  "total_on_entries lt A \<longleftrightarrow> (\<forall>a \<in> A. \<forall>b \<in> A. lt a b \<longrightarrow> \<not> lt b a)
     \<and> (\<forall>a \<in> A. \<forall>b \<in> A. \<forall>c \<in> A. \<not> lt b a \<longrightarrow> \<not> lt c b \<longrightarrow> \<not> lt c a)"

lemma total_asym: "total_on_entries lt A \<Longrightarrow> a \<in> A \<Longrightarrow> b \<in> A \<Longrightarrow> lt a b \<Longrightarrow> \<not> lt b a"
  and total_trans: "total_on_entries lt A \<Longrightarrow> a \<in> A \<Longrightarrow> b \<in> A \<Longrightarrow> c \<in> A \<Longrightarrow> \<not> lt b a \<Longrightarrow> \<not> lt c b \<Longrightarrow> \<not> lt c a"
  unfolding total_on_entries_def by blast+

lemma up_ok_done: "up_ok lt xs n j \<Longrightarrow> j = 0 \<or> \<not> lt (xs ! j) (xs ! par j) \<Longrightarrow> heap_ok lt xs n"
  unfolding up_ok_def heap_ok_def by (metis neq0_conv)

lemma up_ok_swap:
  assumes ok: "up_ok lt xs n j" and j: "0 < j" "j < n" "n \<le> length xs" and l: "lt (xs ! j) (xs ! par j)"
    and t: "total_on_entries lt (set xs)"
  shows "up_ok lt (list_swap xs (par j) j) n (par j)"
  unfolding up_ok_def bridge_def
proof (intro conjI allI impI; elim conjE)
  let ?ys = "list_swap xs (par j) j"
  have p: "par j < j" using j(1) by simp
  have nth: "?ys ! k = xs ! (if k = par j then j else if k = j then par j else k)" if "k < n" for k
    using that p j by (intro nth_list_swap) auto
  have mem: "xs ! k \<in> set xs" if "k < n" for k using that j(3) by simp
  have old: "\<not> lt (xs ! k) (xs ! par k)" if "0 < k" "k < n" "k \<noteq> j" for k using ok that by (simp add: up_ok_def)
  have jp: "\<not> lt (xs ! par j) (xs ! j)" using total_asym [OF t mem mem l] p j by simp
  have sib: "\<not> lt (xs ! k) (xs ! j)" if "0 < k" "k < n" "k \<noteq> j" "par k = par j" for k
    using total_trans [OF t _ _ _ jp, of "xs ! k"] old [OF that(1-3)] that mem p j by simp
  show "\<not> lt (?ys ! k) (?ys ! par k)" if k: "0 < k" "k < n" "k \<noteq> par j" for k
  proof -
    have pk: "par k < k" "par k < n" using k by auto
    consider "k = j" | "k \<noteq> j" "par k = par j" | "k \<noteq> j" "par k = j" | "k \<noteq> j" "par k \<noteq> par j" "par k \<noteq> j" by blast
    then show ?thesis
    proof cases
      case 1
      then show ?thesis using jp nth [of j] nth [of "par j"] p j by simp
    next
      case 2
      then show ?thesis using sib [of k] nth [of k] nth [of "par k"] k pk by simp
    next
      case 3
      then have "\<not> lt (xs ! k) (xs ! par j)" using ok k j by (simp add: up_ok_def bridge_def)
      then show ?thesis using 3 nth [of k] nth [of "par k"] k pk p by simp
    next
      case 4
      then show ?thesis using old [of k] nth [of k] nth [of "par k"] k pk by simp
    qed
  qed
  show "\<not> lt (?ys ! k) (?ys ! par (par j))" if k: "0 < k" "k < n" "0 < par j" "par k = par j" for k
  proof -
    have pp: "par (par j) < par j" using k(3) by simp
    have top: "\<not> lt (xs ! par j) (xs ! par (par j))" using old [of "par j"] k(3) p j by simp
    have "?ys ! par (par j) = xs ! par (par j)" using nth [of "par (par j)"] pp p j by simp
    moreover have "\<not> lt (?ys ! k) (xs ! par (par j))"
    proof (cases "k = j")
      case True
      then show ?thesis using top nth [of j] p j by simp
    next
      case False
      then have "\<not> lt (xs ! k) (xs ! par j)" using old [of k] k by simp
      then have "\<not> lt (xs ! k) (xs ! par (par j))"
        using total_trans [OF t _ _ _ top, of "xs ! k"] mem k pp p j by simp
      moreover have "k \<noteq> par j" using k by auto
      ultimately show ?thesis using nth [of k] False k by simp
    qed
    ultimately show ?thesis by simp
  qed
qed

lemma down_ok_swap:
  assumes ok: "down_ok lt xs n i b" and i: "2 * i + 1 < n" "n \<le> length xs" and c: "c = 2 * i + 1 \<or> c = 2 * i + 2" "c < n"
    and l: "lt (xs ! c) (xs ! i)" and least: "\<forall>k. 0 < k \<and> k < n \<and> par k = i \<longrightarrow> \<not> lt (xs ! k) (xs ! c)"
    and t: "total_on_entries lt (set xs)"
  shows "down_ok lt (list_swap xs i c) n c True"
  unfolding down_ok_def bridge_def
proof (intro conjI allI impI; elim conjE)
  let ?ys = "list_swap xs i c"
  have ci: "i < c" "par c = i" using c by auto
  have nth: "?ys ! k = xs ! (if k = i then c else if k = c then i else k)" if "k < n" for k
    using that ci c i by (intro nth_list_swap) auto
  have mem: "xs ! k \<in> set xs" if "k < n" for k using that i(2) by simp
  have old: "\<not> lt (xs ! k) (xs ! par k)" if "0 < k" "k < n" "par k \<noteq> i" "k \<noteq> i" for k using ok that by (simp add: down_ok_def)
  have ic: "\<not> lt (xs ! i) (xs ! c)" using total_asym [OF t mem mem l] ci c by simp
  show "\<not> lt (?ys ! k) (?ys ! par k)" if k: "0 < k" "k < n" "par k \<noteq> c" for k
  proof -
    have pk: "par k < k" "par k < n" using k by auto
    consider "k = c" | "k = i" | "k \<noteq> c" "k \<noteq> i" "par k = i" | "k \<noteq> c" "k \<noteq> i" "par k \<noteq> i" by blast
    then show ?thesis
    proof cases
      case 1
      then show ?thesis using ic nth [of c] nth [of i] ci c by simp
    next
      case 2
      then have "\<not> lt (xs ! c) (xs ! par i)" using ok c ci k by (auto simp: down_ok_def bridge_def)
      then show ?thesis using 2 nth [of i] nth [of "par i"] k pk ci by simp
    next
      case 3
      then show ?thesis using least nth [of k] nth [of i] k pk by simp
    next
      case 4
      then show ?thesis using old [of k] nth [of k] nth [of "par k"] k pk by simp
    qed
  qed
  show "\<not> lt (?ys ! k) (?ys ! par c)" if k: "0 < k" "k < n" "0 < c" "par k = c" for k
  proof -
    have "c < k" using k by auto
    then have "\<not> lt (xs ! k) (xs ! c)" using old [of k] k ci by simp
    then show ?thesis using nth [of k] nth [of i] k ci \<open>c < k\<close> by simp
  qed
qed

lemma down_ok_done:
  assumes ok: "down_ok lt xs n i b" and "n \<le> length xs"
    and leaf: "\<forall>k. 0 < k \<and> k < n \<and> par k = i \<longrightarrow> \<not> lt (xs ! k) (xs ! i)"
  shows "if b then heap_ok lt xs n else up_ok lt xs n i"
  using assms unfolding down_ok_def up_ok_def heap_ok_def by auto

lemma heap_ok_min:
  assumes "heap_ok lt xs n" and "n \<le> length xs" and t: "total_on_entries lt (set xs)" and "k < n"
  shows "\<not> lt (xs ! k) (xs ! 0)"
  using assms(4)
proof (induction k rule: less_induct)
  case (less k)
  have first: "xs ! 0 \<in> set xs" using less.prems assms(2) by (intro nth_mem) auto
  show ?case
  proof (cases "k = 0")
    case True
    with first show ?thesis using total_asym [OF t, of "xs ! 0" "xs ! 0"] True by auto
  next
    case False
    then have "\<not> lt (xs ! par k) (xs ! 0)" using less by simp
    moreover have "\<not> lt (xs ! k) (xs ! par k)" using assms(1) less.prems False by (simp add: heap_ok_def)
    ultimately show ?thesis using total_trans [OF t first, of "xs ! par k" "xs ! k"] less.prems assms(2) by simp
  qed
qed

lemma heap_ok_take: "heap_ok lt xs n \<Longrightarrow> m \<le> n \<Longrightarrow> heap_ok lt (take m xs) m"
  unfolding heap_ok_def by auto

section \<open>The methods of a heap\<close>

locale heap_interface =
  fixes Less :: "'h \<Rightarrow> nat \<Rightarrow> nat \<Rightarrow> bool" and Swap :: "'h \<Rightarrow> nat \<Rightarrow> nat \<Rightarrow> 'h"
    and entries :: "'h \<Rightarrow> 'e list" and lt :: "'e \<Rightarrow> 'e \<Rightarrow> bool" and invar :: "'h \<Rightarrow> bool"
  assumes less_entries: "i < length (entries h) \<Longrightarrow> j < length (entries h) \<Longrightarrow> Less h i j = lt (entries h ! i) (entries h ! j)"
    and swap_entries: "i < length (entries h) \<Longrightarrow> j < length (entries h) \<Longrightarrow> entries (Swap h i j) = list_swap (entries h) i j"
    and swap_invar: "invar h \<Longrightarrow> i < length (entries h) \<Longrightarrow> j < length (entries h) \<Longrightarrow> invar (Swap h i j)"
begin

lemma heap_up_keeps:
  assumes "j < length (entries h)"
  shows "mset (entries (heap_up Less Swap h j)) = mset (entries h)
    \<and> (\<forall>k. j < k \<and> k < length (entries h) \<longrightarrow> entries (heap_up Less Swap h j) ! k = entries h ! k)
    \<and> (invar h \<longrightarrow> invar (heap_up Less Swap h j))"
  using assms
proof (induction j arbitrary: h rule: less_induct)
  case (less j)
  let ?h = "Swap h (par j) j"
  show ?case
  proof (cases "par j = j \<or> \<not> Less h j (par j)")
    case True
    then have "heap_up Less Swap h j = h" by (subst heap_up.simps) (auto simp: Let_def)
    then show ?thesis by simp
  next
    case False
    then have p: "par j < j" "0 < j" by auto
    then have e: "entries ?h = list_swap (entries h) (par j) j" using less.prems by (simp add: swap_entries)
    have u: "heap_up Less Swap h j = heap_up Less Swap ?h (par j)" using False by (subst heap_up.simps) (simp add: Let_def)
    have ih: "mset (entries (heap_up Less Swap ?h (par j))) = mset (entries ?h)"
      "\<forall>k. par j < k \<and> k < length (entries ?h) \<longrightarrow> entries (heap_up Less Swap ?h (par j)) ! k = entries ?h ! k"
      "invar ?h \<longrightarrow> invar (heap_up Less Swap ?h (par j))"
      using less.IH [of "par j" ?h] p less.prems e by auto
    show ?thesis unfolding u using ih p less.prems e swap_invar [of h "par j" j] by (auto simp: nth_list_swap)
  qed
qed

lemma heap_up_ok:
  assumes "up_ok lt (entries h) n j" and "j < n" and "n \<le> length (entries h)" and "total_on_entries lt (set (entries h))"
  shows "heap_ok lt (entries (heap_up Less Swap h j)) n"
  using assms
proof (induction j arbitrary: h rule: less_induct)
  case (less j)
  let ?h = "Swap h (par j) j"
  have l: "Less h j (par j) = lt (entries h ! j) (entries h ! par j)" using less.prems by (intro less_entries) auto
  show ?case
  proof (cases "par j = j \<or> \<not> Less h j (par j)")
    case True
    then have "heap_up Less Swap h j = h" by (subst heap_up.simps) (auto simp: Let_def)
    moreover have "j = 0 \<or> \<not> lt (entries h ! j) (entries h ! par j)" using True l by auto
    ultimately show ?thesis using up_ok_done [OF less.prems(1)] by simp
  next
    case False
    then have p: "par j < j" "0 < j" by auto
    then have e: "entries ?h = list_swap (entries h) (par j) j" using less.prems by (simp add: swap_entries)
    have s: "mset (entries ?h) = mset (entries h)" using e p less.prems by simp
    have "up_ok lt (entries ?h) n (par j)"
      unfolding e using up_ok_swap [OF less.prems(1) p(2) less.prems(2,3)] False l less.prems(4) by simp
    moreover have "set (entries ?h) = set (entries h)" using s by (metis set_mset_mset)
    moreover have "length (entries ?h) = length (entries h)" using e by simp
    ultimately have "heap_ok lt (entries (heap_up Less Swap ?h (par j))) n" using less.IH [of "par j" ?h] p less.prems by simp
    moreover have "heap_up Less Swap h j = heap_up Less Swap ?h (par j)" using False by (subst heap_up.simps) (simp add: Let_def)
    ultimately show ?thesis by simp
  qed
qed

end

context heap_interface
begin

lemma heap_child_ok:
  assumes "2 * i + 1 < n" and "n \<le> length (entries h)"
  shows "heap_child Less h i n = 2 * i + 1 \<or> heap_child Less h i n = 2 * i + 2" and "heap_child Less h i n < n"
    and "total_on_entries lt (set (entries h)) \<Longrightarrow>
      \<forall>k. 0 < k \<and> k < n \<and> par k = i \<longrightarrow> \<not> lt (entries h ! k) (entries h ! heap_child Less h i n)"
proof -
  show "heap_child Less h i n = 2 * i + 1 \<or> heap_child Less h i n = 2 * i + 2" "heap_child Less h i n < n"
    using assms by (auto simp: heap_child_def)
  assume t: "total_on_entries lt (set (entries h))"
  have mem: "entries h ! k \<in> set (entries h)" if "k < n" for k using that assms(2) by simp
  have irr: "\<not> lt (entries h ! k) (entries h ! k)" if "k < n" for k using total_asym [OF t mem mem] that by blast
  have l: "Less h (2 * i + 2) (2 * i + 1) = lt (entries h ! (2 * i + 2)) (entries h ! (2 * i + 1))" if "2 * i + 2 < n"
    using that assms by (intro less_entries) auto
  show "\<forall>k. 0 < k \<and> k < n \<and> par k = i \<longrightarrow> \<not> lt (entries h ! k) (entries h ! heap_child Less h i n)"
  proof (intro allI impI)
    fix k assume k: "0 < k \<and> k < n \<and> par k = i"
    then have "k = 2 * i + 1 \<or> k = 2 * i + 2" using par_child by blast
    then show "\<not> lt (entries h ! k) (entries h ! heap_child Less h i n)"
      using k l irr total_asym [OF t mem mem, of "2 * i + 2" "2 * i + 1"] by (auto simp: heap_child_def)
  qed
qed

lemma heap_down_keeps:
  assumes "i < n" and "n \<le> length (entries h)" and "heap_down_from Less Swap h i n = (h', i')"
  shows "mset (entries h') = mset (entries h) \<and> i \<le> i' \<and> i' < n
    \<and> (\<forall>k. n \<le> k \<and> k < length (entries h) \<longrightarrow> entries h' ! k = entries h ! k) \<and> (invar h \<longrightarrow> invar h')"
  using assms
proof (induction "n - i" arbitrary: h i rule: less_induct)
  case less
  let ?c = "heap_child Less h i n"
  show ?case
  proof (cases "2 * i + 1 \<ge> n \<or> \<not> Less h ?c i")
    case True
    then have "heap_down_from Less Swap h i n = (h, i)" by (subst heap_down_from.simps) (auto simp: Let_def)
    with less.prems show ?thesis by simp
  next
    case False
    then have n: "2 * i + 1 < n" by simp
    note c = heap_child_ok(1,2) [OF n less.prems(2)]
    then have e: "entries (Swap h i ?c) = list_swap (entries h) i ?c" using less.prems by (simp add: swap_entries)
    have "heap_down_from Less Swap h i n = heap_down_from Less Swap (Swap h i ?c) ?c n"
      using False by (subst heap_down_from.simps) (simp add: Let_def)
    then have d: "heap_down_from Less Swap (Swap h i ?c) ?c n = (h', i')" using less.prems(3) by simp
    have "n - ?c < n - i" using c n by linarith
    from less.hyps [OF this c(2) _ d] less.prems(1,2) e c swap_invar [of h i ?c]
    show ?thesis by (auto simp: nth_list_swap)
  qed
qed

lemma heap_down_ok:
  assumes "down_ok lt (entries h) n i b" and "i < n" and "n \<le> length (entries h)"
    and "total_on_entries lt (set (entries h))" and "heap_down_from Less Swap h i n = (h', i')"
  shows "if b \<or> i < i' then heap_ok lt (entries h') n else up_ok lt (entries h') n i"
  using assms
proof (induction "n - i" arbitrary: h i b rule: less_induct)
  case less
  let ?c = "heap_child Less h i n"
  show ?case
  proof (cases "2 * i + 1 \<ge> n")
    case True
    then have d: "heap_down_from Less Swap h i n = (h, i)" by (subst heap_down_from.simps) simp
    have "\<forall>k. 0 < k \<and> k < n \<and> par k = i \<longrightarrow> \<not> lt (entries h ! k) (entries h ! i)" using True by auto
    from down_ok_done [OF less.prems(1,3) this] d less.prems(5) show ?thesis by auto
  next
    case False
    then have n: "2 * i + 1 < n" by simp
    note c = heap_child_ok [OF n less.prems(3)]
    have l: "Less h ?c i = lt (entries h ! ?c) (entries h ! i)" using c(2) less.prems(2,3) by (intro less_entries) auto
    have mem: "entries h ! k \<in> set (entries h)" if "k < n" for k using that less.prems(3) by simp
    show ?thesis
    proof (cases "Less h ?c i")
      case True
      have e: "entries (Swap h i ?c) = list_swap (entries h) i ?c" using c(2) less.prems by (simp add: swap_entries)
      have s: "set (entries (Swap h i ?c)) = set (entries h)" "length (entries (Swap h i ?c)) = length (entries h)"
        using e c(2) less.prems(2,3) by (metis (no_types, lifting) less_le_trans mset_list_swap set_mset_mset) (simp add: e)
      have ok: "down_ok lt (entries (Swap h i ?c)) n ?c True" unfolding e
        using down_ok_swap [OF less.prems(1) n less.prems(3) c(1,2) _ c(3) [OF less.prems(4)] less.prems(4)] True l by simp
      have d: "heap_down_from Less Swap (Swap h i ?c) ?c n = (h', i')"
        using True False less.prems(5) by (subst (asm) heap_down_from.simps) (simp add: Let_def)
      have "n - ?c < n - i" using c(1,2) n by linarith
      from less.hyps [OF this ok c(2) _ _ d] s less.prems(3,4) have "heap_ok lt (entries h') n" by simp
      moreover have "?c \<le> i'" using heap_down_keeps [OF c(2) _ d] s less.prems(3) by simp
      ultimately show ?thesis using c(1) by auto
    next
      case F: False
      then have d: "h' = h" "i' = i" using False less.prems(5) by (auto simp: Let_def heap_down_from.simps [of Less Swap h i n])
      have "\<forall>k. 0 < k \<and> k < n \<and> par k = i \<longrightarrow> \<not> lt (entries h ! k) (entries h ! i)"
      proof (intro allI impI)
        fix k assume k: "0 < k \<and> k < n \<and> par k = i"
        show "\<not> lt (entries h ! k) (entries h ! i)"
          using total_trans [OF less.prems(4) mem mem mem, of i ?c k] F l c(2) c(3) [OF less.prems(4)] k less.prems(2) by simp
      qed
      from down_ok_done [OF less.prems(1,3) this] d show ?thesis by auto
    qed
  qed
qed

end

context heap_interface
begin

lemma swap_last_down_ok:
  assumes "heap_ok lt (entries h) (length (entries h))" and "i < length (entries h) - 1"
    and t: "total_on_entries lt (set (entries h))"
  shows "down_ok lt (list_swap (entries h) i (length (entries h) - 1)) (length (entries h) - 1) i (i = 0)"
  unfolding down_ok_def bridge_def
proof (intro conjI allI impI; elim conjE)
  let ?xs = "entries h" and ?n = "length (entries h) - 1"
  have nth: "list_swap ?xs i ?n ! k = ?xs ! (if k = i then ?n else k)" if "k < ?n" for k
    using that assms(2) by (subst nth_list_swap) auto
  have old: "\<not> lt (?xs ! k) (?xs ! par k)" if "0 < k" "k < ?n" for k using assms(1) that by (simp add: heap_ok_def)
  show "\<not> lt (list_swap ?xs i ?n ! k) (list_swap ?xs i ?n ! par k)"
    if "0 < k" "k < ?n" "par k \<noteq> i" "k \<noteq> i \<or> i = 0" for k
    using that nth [of k] nth [of "par k"] old [of k] by auto
  show "\<not> lt (list_swap ?xs i ?n ! k) (list_swap ?xs i ?n ! par i)" if k: "0 < k" "k < ?n" "0 < i" "par k = i" for k
  proof -
    have o: "\<not> lt (?xs ! i) (?xs ! par i)" using old [of i] k assms(2) by simp
    have p: "par i < i" using k by simp
    have "\<not> lt (?xs ! k) (?xs ! i)" using old [of k] k by simp
    then have "\<not> lt (?xs ! k) (?xs ! par i)"
      using total_trans [OF t _ _ _ o, of "?xs ! k"] k assms(2) p by simp
    moreover have "k \<noteq> i" using k by auto
    ultimately show ?thesis using nth [of k] nth [of "par i"] k p assms(2) by simp
  qed
qed

lemma heap_Pop_ok:
  assumes "entries h \<noteq> []"
  obtains h' where "heap_Pop_prepare Less Swap (length (entries h)) h = Inr h'"
    and "mset (entries h') = mset (entries h)" and "last (entries h') = entries h ! 0" and "invar h \<Longrightarrow> invar h'"
    and "heap_ok lt (entries h) (length (entries h)) \<Longrightarrow> total_on_entries lt (set (entries h))
      \<Longrightarrow> heap_ok lt (butlast (entries h')) (length (entries h) - 1)"
proof -
  let ?n = "length (entries h) - 1" and ?s = "Swap h 0 (length (entries h) - 1)"
  obtain h' i' where d: "heap_down_from Less Swap ?s 0 ?n = (h', i')" by (cases "heap_down_from Less Swap ?s 0 ?n")
  have e: "entries ?s = list_swap (entries h) 0 ?n" using assms by (intro swap_entries) auto
  have s: "mset (entries ?s) = mset (entries h)" "invar h \<Longrightarrow> invar ?s" using e assms swap_invar [of h 0 ?n] by auto
  have p: "heap_Pop_prepare Less Swap (length (entries h)) h = Inr h'" using d assms by (simp add: heap_Pop_prepare_def heap_down_def)
  show thesis
  proof (cases "?n = 0")
    case True
    then have "heap_down_from Less Swap ?s 0 ?n = (?s, 0)" by (subst heap_down_from.simps) simp
    then have h': "h' = ?s" using d by simp
    obtain x where x: "entries h = [x]" using True assms by (cases "entries h") auto
    show thesis by (rule that [OF p]) (use h' s x e in \<open>auto simp: heap_ok_def list_swap_def\<close>)
  next
    case False
    then have n: "0 < ?n" by simp
    have "?n \<le> length (entries ?s)" using e by simp
    note keep = heap_down_keeps [OF n this d]
    have len: "length (entries h') = length (entries h)" using keep s by (metis mset_eq_length)
    have "entries h' ! ?n = entries ?s ! ?n" using keep e n by simp
    also have "\<dots> = entries h ! 0" unfolding e by (subst nth_list_swap) (use n in auto)
    finally have last: "last (entries h') = entries h ! 0" using len assms last_conv_nth [of "entries h'"] by force
    have "heap_ok lt (butlast (entries h')) ?n"
      if "heap_ok lt (entries h) (length (entries h))" and t: "total_on_entries lt (set (entries h))"
    proof -
      have "total_on_entries lt (set (entries ?s))" using t s(1) by (metis set_mset_mset)
      from heap_down_ok [OF _ n _ this d, of True] swap_last_down_ok [OF that(1) n t] e
      have "heap_ok lt (entries h') ?n" by simp
      then show ?thesis using heap_ok_take [of lt "entries h'" ?n ?n] len by (simp add: butlast_conv_take)
    qed
    then show thesis using that [OF p] keep s last by simp
  qed
qed

lemma heap_Remove_ok:
  assumes "i < length (entries h)"
  obtains h' where "heap_Remove_prepare Less Swap (length (entries h)) h i = Inr h'"
    and "mset (entries h') = mset (entries h)" and "last (entries h') = entries h ! i" and "invar h \<Longrightarrow> invar h'"
    and "heap_ok lt (entries h) (length (entries h)) \<Longrightarrow> total_on_entries lt (set (entries h))
      \<Longrightarrow> heap_ok lt (butlast (entries h')) (length (entries h) - 1)"
proof -
  let ?n = "length (entries h) - 1" and ?s = "Swap h i (length (entries h) - 1)"
  show thesis
  proof (cases "?n = i")
    case True
    then have p: "heap_Remove_prepare Less Swap (length (entries h)) h i = Inr h"
      using assms by (auto simp: heap_Remove_prepare_def)
    have "last (entries h) = entries h ! i" using True assms by (metis last_conv_nth length_0_conv not_less_zero)
    then show thesis using that [OF p] heap_ok_take [of lt "entries h" "length (entries h)" ?n] by (simp add: butlast_conv_take)
  next
    case False
    then have i: "i < ?n" using assms by simp
    obtain h1 i' where d: "heap_down_from Less Swap ?s i ?n = (h1, i')" by (cases "heap_down_from Less Swap ?s i ?n")
    have e: "entries ?s = list_swap (entries h) i ?n" using i by (intro swap_entries) auto
    have s: "mset (entries ?s) = mset (entries h)" "invar h \<Longrightarrow> invar ?s" using e i swap_invar [of h i ?n] by auto
    have "?n \<le> length (entries ?s)" using e by simp
    note keep = heap_down_keeps [OF i this d]
    have len1: "length (entries h1) = length (entries h)" using keep s by (metis mset_eq_length)
    define h' where "h' = (if i < i' then h1 else heap_up Less Swap h1 i)"
    have p: "heap_Remove_prepare Less Swap (length (entries h)) h i = Inr h'"
      using d False assms by (auto simp: heap_Remove_prepare_def heap_down_def h'_def)
    have up: "mset (entries (heap_up Less Swap h1 i)) = mset (entries h1)"
      "\<forall>k. i < k \<and> k < length (entries h1) \<longrightarrow> entries (heap_up Less Swap h1 i) ! k = entries h1 ! k"
      "invar h1 \<longrightarrow> invar (heap_up Less Swap h1 i)" using heap_up_keeps [of i h1] i len1 by auto
    have m: "mset (entries h') = mset (entries h)" using up keep s by (simp add: h'_def)
    then have len: "length (entries h') = length (entries h)" by (rule mset_eq_length)
    have "entries h' ! ?n = entries h1 ! ?n" using up i len1 by (simp add: h'_def)
    also have "\<dots> = entries ?s ! ?n"
    proof -
      have "?n < length (entries ?s)" using e i by simp
      with keep show ?thesis by blast
    qed
    also have "\<dots> = entries h ! i" unfolding e by (subst nth_list_swap) (use i in auto)
    finally have last: "last (entries h') = entries h ! i" using len i by (metis last_conv_nth length_0_conv not_less_zero zero_diff)
    have "heap_ok lt (butlast (entries h')) ?n"
      if "heap_ok lt (entries h) (length (entries h))" and t: "total_on_entries lt (set (entries h))"
    proof -
      have ts: "total_on_entries lt (set (entries ?s))" "total_on_entries lt (set (entries h1))"
        using t s(1) keep by (metis set_mset_mset)+
      from heap_down_ok [where b = "i = 0", OF _ i _ ts(1) d] swap_last_down_ok [OF that(1) i t] e
      have "if i = 0 \<or> i < i' then heap_ok lt (entries h1) ?n else up_ok lt (entries h1) ?n i" by simp
      then have "heap_ok lt (entries h') ?n"
        using heap_up_ok [of h1 ?n i] ts(2) i len1 by (auto simp: h'_def heap_up.simps [of Less Swap h1 0] split: if_splits)
      then show ?thesis using heap_ok_take [of lt "entries h'" ?n ?n] len by (simp add: butlast_conv_take)
    qed
    then show thesis using that [OF p m last] keep s up by (simp add: h'_def)
  qed
qed

text \<open>An entry that is not lower than any other stays at the end.\<close>

lemma heap_up_last:
  assumes "entries h = xs @ [x]" and "\<forall>y \<in> set xs. \<not> lt x y"
  shows "heap_up Less Swap h (length xs) = h"
proof (cases "xs = []")
  case True
  then show ?thesis by (subst heap_up.simps) simp
next
  case False
  then have p: "par (length xs) < length xs" by (cases xs) auto
  then have "\<not> lt (entries h ! length xs) (entries h ! par (length xs))" using assms by (simp add: nth_append)
  then have "\<not> Less h (length xs) (par (length xs))" using less_entries [of "length xs" h "par (length xs)"] assms(1) p by simp
  then show ?thesis by (subst heap_up.simps) (simp add: Let_def)
qed

lemma heap_push_ok:
  assumes "entries h = xs @ [x]" and "heap_ok lt xs (length xs)" and "total_on_entries lt (set (entries h))"
  shows "heap_ok lt (entries (heap_up Less Swap h (length xs))) (length (entries h))"
proof (rule heap_up_ok)
  have "par k < length xs" if "k \<le> length xs" "0 < k" for k using that by linarith
  then show "up_ok lt (entries h) (length (entries h)) (length xs)"
    using assms(1,2) by (auto simp: up_ok_def bridge_def heap_ok_def nth_append)
qed (use assms in auto)

end

end
