(* ===== verification/PartitionClock.thy ===== *)
theory PartitionClock
  imports ClockSI GoHeap
begin

text \<open>
  The clocks of a partition of \<^verbatim>\<open>potionDB/components/materializer.go\<close>: the heap of prepared
  clocks with its map from transactions to positions, the heap of commits on hold, and
  \<open>partitionClock\<close>; and the choice of the partition for a key. A heap is the list of its first
  \<open>nEntries\<close> entries: the slice behind it grows when it is full. The zero value that the
  peek methods return for an empty heap is \<open>None\<close>.
\<close>

type_synonym TransactionId = nat

record TxnIdClkPair =
  tc_clk :: ClockSiTimestamp
  tc_txnId :: TransactionId

record prepClockHeap =
  pc_entries :: "TxnIdClkPair list"
  pc_innerMap :: "TransactionId \<rightharpoonup> nat"

definition prep_Less :: "prepClockHeap \<Rightarrow> nat \<Rightarrow> nat \<Rightarrow> bool" where
  "prep_Less c i j = IsHigher (tc_clk (pc_entries c ! j)) (Some (tc_clk (pc_entries c ! i)))"

definition prep_Swap :: "prepClockHeap \<Rightarrow> nat \<Rightarrow> nat \<Rightarrow> prepClockHeap" where
  "prep_Swap c i j =
     (let es = list_swap (pc_entries c) i j
      in \<lparr>pc_entries = es, pc_innerMap = (pc_innerMap c)(tc_txnId (es ! i) \<mapsto> i, tc_txnId (es ! j) \<mapsto> j)\<rparr>)"

definition prep_Push :: "prepClockHeap \<Rightarrow> TxnIdClkPair \<Rightarrow> prepClockHeap" where
  "prep_Push c value =
     \<lparr>pc_entries = pc_entries c @ [value], pc_innerMap = (pc_innerMap c)(tc_txnId value \<mapsto> length (pc_entries c))\<rparr>"

definition prep_Pop :: "prepClockHeap \<Rightarrow> prepClockHeap" where
  "prep_Pop c = (if pc_entries c = [] then c
     else \<lparr>pc_entries = butlast (pc_entries c), pc_innerMap = (pc_innerMap c)(tc_txnId (last (pc_entries c)) := None)\<rparr>)"

definition prep_PeekMin :: "prepClockHeap \<Rightarrow> TxnIdClkPair option" where
  "prep_PeekMin c = (if pc_entries c = [] then None else Some (pc_entries c ! 0))"

definition prep_PeekMax :: "prepClockHeap \<Rightarrow> TxnIdClkPair option" where
  "prep_PeekMax c = (if pc_entries c = [] then None else Some (last (pc_entries c)))"

section \<open>Commits on hold\<close>

record MatCommitArgs =
  ca_TransactionId :: TransactionId
  ca_CommitTimestamp :: ClockSiTimestamp

type_synonym commitHeap = "MatCommitArgs list"

definition commit_Less :: "commitHeap \<Rightarrow> nat \<Rightarrow> nat \<Rightarrow> bool" where
  "commit_Less c i j = IsHigher (ca_CommitTimestamp (c ! j)) (Some (ca_CommitTimestamp (c ! i)))"

definition commit_Swap :: "commitHeap \<Rightarrow> nat \<Rightarrow> nat \<Rightarrow> commitHeap" where
  "commit_Swap c i j = list_swap c i j"

definition commit_Push :: "commitHeap \<Rightarrow> MatCommitArgs \<Rightarrow> commitHeap" where
  "commit_Push c value = c @ [value]"

definition commit_Pop :: "commitHeap \<Rightarrow> commitHeap" where
  "commit_Pop c = (if c = [] then c else butlast c)"

definition commit_PeekMin :: "commitHeap \<Rightarrow> MatCommitArgs option" where
  "commit_PeekMin c = (if c = [] then None else Some (c ! 0))"

definition commit_PeekMax :: "commitHeap \<Rightarrow> MatCommitArgs option" where
  "commit_PeekMax c = (if c = [] then None else Some (last c))"

text \<open>\<open>heap.Push\<close> and \<open>heap.Pop\<close> on the commits.\<close>

definition hold_push :: "commitHeap \<Rightarrow> MatCommitArgs \<Rightarrow> commitHeap" where
  "hold_push c value = heap_up commit_Less commit_Swap (commit_Push c value) (length c)"

definition hold_pop :: "commitHeap \<Rightarrow> (MatCommitArgs \<times> commitHeap) go" where
  "hold_pop c = gbind (heap_Pop_prepare commit_Less commit_Swap (length c) c) (\<lambda>c'. Inr (last c', commit_Pop c'))"

section \<open>The clock of a partition\<close>

record partitionClock =
  pk_replicaID :: int
  lastUsedTs :: int
  stableClk :: ClockSiTimestamp
  prepClks :: prepClockHeap

definition initializePartitionClock :: "int list \<Rightarrow> int \<Rightarrow> partitionClock" where
  "initializePartitionClock knownIDs replicaID =
     \<lparr>pk_replicaID = replicaID, lastUsedTs = 0, stableClk = NewClockSiTimestamp knownIDs,
      prepClks = \<lparr>pc_entries = [], pc_innerMap = Map.empty\<rparr>\<rparr>"

text \<open>\<open>now\<close> is the wall clock that \<open>NextTimestamp\<close> reads.\<close>

definition getNextClk :: "int \<Rightarrow> partitionClock \<Rightarrow> partitionClock \<times> ClockSiTimestamp" where
  "getNextClk now p =
     (let newClk = NextTimestamp now (stableClk p) (pk_replicaID p);
          newReplicaTS = GetPos newClk (pk_replicaID p)
      in if newReplicaTS \<le> lastUsedTs p
         then let ts = int64 (lastUsedTs p + 1) in (p\<lparr>lastUsedTs := ts\<rparr>, UpdatePos newClk (pk_replicaID p) ts)
         else (p\<lparr>lastUsedTs := newReplicaTS\<rparr>, newClk))"

definition prepareClock :: "int \<Rightarrow> TransactionId \<Rightarrow> partitionClock \<Rightarrow> partitionClock" where
  "prepareClock now txnId p =
     (case getNextClk now p of (p', newTs) \<Rightarrow>
        p'\<lparr>prepClks := heap_up prep_Less prep_Swap (prep_Push (prepClks p') \<lparr>tc_clk = newTs, tc_txnId = txnId\<rparr>)
             (length (pc_entries (prepClks p')))\<rparr>)"

definition getLowestPrepare :: "partitionClock \<Rightarrow> TxnIdClkPair option" where
  "getLowestPrepare p = prep_PeekMin (prepClks p)"

text \<open>A transaction that is not in the map has position 0.\<close>

definition removePrepare :: "TransactionId \<Rightarrow> partitionClock \<Rightarrow> partitionClock go" where
  "removePrepare txnId p =
     (let h = prepClks p; pos = (case pc_innerMap h txnId of None \<Rightarrow> 0 | Some i \<Rightarrow> i)
      in gbind (heap_Remove_prepare prep_Less prep_Swap (length (pc_entries h)) h pos) (\<lambda>h'.
           Inr (p\<lparr>prepClks := prep_Pop h'\<rparr>)))"

definition removeLowestPrepare :: "partitionClock \<Rightarrow> partitionClock go" where
  "removeLowestPrepare p =
     (let h = prepClks p
      in gbind (heap_Pop_prepare prep_Less prep_Swap (length (pc_entries h)) h) (\<lambda>h'. Inr (p\<lparr>prepClks := prep_Pop h'\<rparr>)))"

definition updateClockWithCommit :: "ClockSiTimestamp \<Rightarrow> partitionClock \<Rightarrow> partitionClock" where
  "updateClockWithCommit clk p = p\<lparr>stableClk := Merge (stableClk p) (Some clk)\<rparr>"

definition updateClockWithRemoteTS :: "int \<Rightarrow> int \<Rightarrow> partitionClock \<Rightarrow> partitionClock" where
  "updateClockWithRemoteTS remoteID ts p = p\<lparr>stableClk := UpdatePos (stableClk p) remoteID ts\<rparr>"

definition reset_clock :: "int list \<Rightarrow> partitionClock \<Rightarrow> partitionClock" where
  "reset_clock knownIDs p =
     p\<lparr>lastUsedTs := 0, stableClk := NewClockSiTimestamp knownIDs, prepClks := \<lparr>pc_entries = [], pc_innerMap = Map.empty\<rparr>\<rparr>"

section \<open>The partition of a key\<close>

record KeyParams =
  kp_Key :: string
  kp_CrdtType :: int
  kp_Bucket :: string

definition CRDTType_name :: "int \<rightharpoonup> string" where
  "CRDTType_name = map_of [(3, ''COUNTER''), (18, ''COUNTER_FLOAT''), (4, ''ORSET''), (5, ''LWWREG''), (6, ''MVREG''),
     (8, ''GMAP''), (10, ''RWSET''), (11, ''RRMAP''), (12, ''FATCOUNTER''), (13, ''FLAG_EW''), (16, ''FLAG_DW''),
     (17, ''FLAG_LWW''), (1, ''TOPK''), (2, ''TOPK_RMV''), (7, ''AVG''), (9, ''LEADERBOARD''), (0, ''MAXMIN''),
     (15, ''ORMAP''), (14, ''TOPSUM''), (19, ''PAIR_COUNTER''), (20, ''ARRAY_COUNTER''), (21, ''MULTI_ARRAY'')]"

abbreviation FATCOUNTER :: int where "FATCOUNTER \<equiv> 12"

text \<open>The name of an unknown type is its number, in decimal.\<close>

fun decimal :: "nat \<Rightarrow> string" where
  "decimal n = (if n < 10 then [char_of (48 + n)] else decimal (n div 10) @ [char_of (48 + n mod 10)])"

declare decimal.simps [simp del]

definition CRDTType_String :: "int \<Rightarrow> string" where
  "CRDTType_String t = (case CRDTType_name t of
      Some n \<Rightarrow> n
    | None \<Rightarrow> if t < 0 then CHR ''-'' # decimal (nat (- t)) else decimal (nat t))"

definition getCombinedKey :: "KeyParams \<Rightarrow> string" where
  "getCombinedKey k = kp_Bucket k @ CRDTType_String (kp_CrdtType k) @ kp_Key k"

text \<open>\<open>hash\<close> is \<open>murmur3.StringSum64\<close>; the range of keys of a partition is set at the start.\<close>

definition keyRangeSize :: "nat \<Rightarrow> nat" where
  "keyRangeSize nGoRoutines = (2 ^ 64 - 1) div nGoRoutines"

definition GetChannelKey :: "(string \<Rightarrow> nat) \<Rightarrow> nat \<Rightarrow> KeyParams \<Rightarrow> nat" where
  "GetChannelKey hash nGoRoutines k =
     (let key = hash (getCombinedKey k) div keyRangeSize nGoRoutines
      in if key = nGoRoutines then key - 1 else key)"

section \<open>The heap of prepared clocks\<close>

definition prep_lt :: "TxnIdClkPair \<Rightarrow> TxnIdClkPair \<Rightarrow> bool" where
  "prep_lt a b = IsHigher (tc_clk b) (Some (tc_clk a))"

text \<open>The map gives the position of every transaction in the heap, and nothing else.\<close>

definition indexed :: "prepClockHeap \<Rightarrow> bool" where
  "indexed c \<longleftrightarrow> (\<forall>t i. pc_innerMap c t = Some i \<longleftrightarrow> i < length (pc_entries c) \<and> tc_txnId (pc_entries c ! i) = t)"

lemma indexed_distinct:
  assumes "indexed c" and "i < length (pc_entries c)" and "j < length (pc_entries c)"
    and "tc_txnId (pc_entries c ! i) = tc_txnId (pc_entries c ! j)"
  shows "i = j"
  using assms unfolding indexed_def by (metis option.inject)

lemma indexed_Swap:
  assumes c: "indexed c" and i: "i < length (pc_entries c)" and j: "j < length (pc_entries c)"
  shows "indexed (prep_Swap c i j)"
  unfolding indexed_def
proof (intro allI)
  fix t k
  let ?es = "pc_entries c" and ?fs = "list_swap (pc_entries c) i j" and ?m = "pc_innerMap (prep_Swap c i j)"
  have nth: "?fs ! l = ?es ! (if l = i then j else if l = j then i else l)" if "l < length ?es" for l
    using nth_list_swap [OF i j that] .
  have at: "tc_txnId (?fs ! k) = tc_txnId (?es ! l) \<longleftrightarrow> (if k = i then j else if k = j then i else k) = l"
    if "k < length ?es" "l < length ?es" for l
  proof -
    define k' where "k' = (if k = i then j else if k = j then i else k)"
    have "k' < length ?es" "?fs ! k = ?es ! k'" using that i j nth [of k] by (auto simp: k'_def)
    then show ?thesis using indexed_distinct [OF c _ that(2)] unfolding k'_def [symmetric] by auto
  qed
  have m: "?m = (pc_innerMap c)(tc_txnId (?es ! j) \<mapsto> i, tc_txnId (?es ! i) \<mapsto> j)"
    using i j nth [of i] nth [of j] by (simp add: prep_Swap_def Let_def)
  have old: "pc_innerMap c t = Some k \<longleftrightarrow> k < length ?es \<and> tc_txnId (?es ! k) = t" using c by (simp add: indexed_def)
  have "?m t = Some k \<longleftrightarrow> k < length ?es \<and> tc_txnId (?fs ! k) = t"
  proof -
    consider "t = tc_txnId (?es ! i)" | "t = tc_txnId (?es ! j)" "t \<noteq> tc_txnId (?es ! i)"
      | "t \<noteq> tc_txnId (?es ! i)" "t \<noteq> tc_txnId (?es ! j)" by blast
    then show ?thesis
    proof cases
      case 1
      then show ?thesis using m at [OF _ i] i j by (auto split: if_splits)
    next
      case 2
      then show ?thesis using m at [OF _ j] i j by (auto split: if_splits)
    next
      case 3
      then show ?thesis using m old nth [of k] by (auto split: if_splits)
    qed
  qed
  then show "?m t = Some k \<longleftrightarrow> k < length (pc_entries (prep_Swap c i j)) \<and> tc_txnId (pc_entries (prep_Swap c i j) ! k) = t"
    by (simp add: prep_Swap_def Let_def)
qed

interpretation prep: heap_interface prep_Less prep_Swap pc_entries prep_lt indexed
  by unfold_locales (simp_all add: prep_Less_def prep_lt_def prep_Swap_def Let_def indexed_Swap [unfolded prep_Swap_def Let_def])

definition commit_lt :: "MatCommitArgs \<Rightarrow> MatCommitArgs \<Rightarrow> bool" where
  "commit_lt a b = IsHigher (ca_CommitTimestamp b) (Some (ca_CommitTimestamp a))"

interpretation hold: heap_interface commit_Less commit_Swap "\<lambda>c. c" commit_lt "\<lambda>c. True"
  by unfold_locales (simp_all add: commit_Less_def commit_lt_def commit_Swap_def)

section \<open>What the clock of a partition keeps\<close>

abbreviation own :: "partitionClock \<Rightarrow> TxnIdClkPair \<Rightarrow> int" where
  "own p e \<equiv> vget (tc_clk e) (pk_replicaID p)"

abbreviation prepared :: "partitionClock \<Rightarrow> TxnIdClkPair list" where
  "prepared p \<equiv> pc_entries (prepClks p)"

definition on_ids :: "int set \<Rightarrow> ClockSiTimestamp \<Rightarrow> bool" where
  "on_ids I clk \<longleftrightarrow> wf_map clk \<and> fst ` set clk = I"

text \<open>A prepared clock is not above the stable one except at the replica's own position.\<close>

definition below_stable :: "partitionClock \<Rightarrow> TxnIdClkPair \<Rightarrow> bool" where
  "below_stable p e \<longleftrightarrow> own p e \<le> lastUsedTs p \<and> (\<forall>i. i \<noteq> pk_replicaID p \<longrightarrow> vget (tc_clk e) i \<le> vget (stableClk p) i)"

definition ordered :: "partitionClock \<Rightarrow> bool" where
  "ordered p \<longleftrightarrow> (\<forall>a \<in> set (prepared p). \<forall>b \<in> set (prepared p).
     (own p a < own p b \<longrightarrow> le_clk (tc_clk a) (tc_clk b)) \<and> (own p a = own p b \<longrightarrow> a = b))"

definition clock_inv :: "int set \<Rightarrow> partitionClock \<Rightarrow> bool" where
  "clock_inv I p \<longleftrightarrow> pk_replicaID p \<in> I \<and> on_ids I (stableClk p)
     \<and> (\<forall>e \<in> set (prepared p). on_ids I (tc_clk e) \<and> below_stable p e) \<and> ordered p
     \<and> indexed (prepClks p) \<and> heap_ok prep_lt (prepared p) (length (prepared p))"

lemma on_ids_higher: "on_ids I a \<Longrightarrow> on_ids I b \<Longrightarrow> IsHigher a (Some b) \<longleftrightarrow> le_clk b a \<and> \<not> le_clk a b"
  using some_above_iff [of a b] some_below_iff [of a b] by (auto simp: on_ids_def same_ids_def IsHigher_eq)

lemma on_ids_lower: "on_ids I a \<Longrightarrow> on_ids I b \<Longrightarrow> IsLower a (Some b) \<longleftrightarrow> le_clk a b \<and> \<not> le_clk b a"
  using some_above_iff [of a b] some_below_iff [of a b] by (auto simp: on_ids_def same_ids_def IsLower_eq)

lemma on_ids_mput: "on_ids I a \<Longrightarrow> i \<in> I \<Longrightarrow> on_ids I (mput i v a)"
  by (auto simp: on_ids_def keys_mput)

lemma on_ids_Merge: "on_ids I a \<Longrightarrow> on_ids I b \<Longrightarrow> on_ids I (Merge a (Some b))"
  by (simp add: on_ids_def Merge_def keys_Merge_loop wf_Merge_loop)

lemma vget_on_Merge: "on_ids I a \<Longrightarrow> on_ids I b \<Longrightarrow> vget (Merge a (Some b)) i = max (vget a i) (vget b i)"
  by (simp add: on_ids_def same_ids_def vget_Merge)

lemma prep_lt_own:
  assumes p: "clock_inv I p" and ab: "a \<in> set (prepared p)" "b \<in> set (prepared p)"
  shows "prep_lt a b \<longleftrightarrow> own p a < own p b"
proof -
  have ids: "on_ids I (tc_clk a)" "on_ids I (tc_clk b)" using p ab by (auto simp: clock_inv_def)
  have o: "own p a < own p b \<Longrightarrow> le_clk (tc_clk a) (tc_clk b)" "own p a = own p b \<Longrightarrow> a = b"
    using p ab by (auto simp: clock_inv_def ordered_def)
  show ?thesis
    unfolding prep_lt_def on_ids_higher [OF ids(2,1)] using o by (auto simp: le_clk_def intro: order_le_neq_trans)
      (metis linorder_not_less)
qed

lemma prepared_total: "clock_inv I p \<Longrightarrow> total_on_entries prep_lt (set (prepared p))"
  unfolding total_on_entries_def by (auto simp: prep_lt_own)

lemma lowest_prepare:
  assumes p: "clock_inv I p" and e: "e \<in> set (prepared p)"
  obtains m where "getLowestPrepare p = Some m" and "m \<in> set (prepared p)" and "le_clk (tc_clk m) (tc_clk e)"
    and "own p m \<le> own p e"
proof -
  let ?m = "prepared p ! 0"
  from e obtain k where k: "k < length (prepared p)" "prepared p ! k = e" by (auto simp: in_set_conv_nth)
  have m: "?m \<in> set (prepared p)" using k by (intro nth_mem) auto
  have "\<not> prep_lt e ?m" using heap_ok_min [OF _ _ prepared_total [OF p] k(1)] p k by (simp add: clock_inv_def)
  then have le: "own p ?m \<le> own p e" using prep_lt_own [OF p e m] by simp
  then have "le_clk (tc_clk ?m) (tc_clk e)" using p m e by (cases "own p ?m = own p e") (auto simp: clock_inv_def ordered_def)
  moreover have "getLowestPrepare p = Some ?m" using k by (auto simp: getLowestPrepare_def prep_PeekMin_def)
  ultimately show thesis using that m le by blast
qed

text \<open>The positions stay in the range of \<open>int64\<close>: they are nanoseconds.\<close>

definition room :: "partitionClock \<Rightarrow> int \<Rightarrow> bool" where
  "room p now \<longleftrightarrow> 0 \<le> lastUsedTs p \<and> lastUsedTs p < MaxInt64 \<and> 0 \<le> vget (stableClk p) (pk_replicaID p)
     \<and> vget (stableClk p) (pk_replicaID p) < MaxInt64 \<and> now < MaxInt64"

lemma int64_Suc: "0 \<le> x \<Longrightarrow> x < MaxInt64 \<Longrightarrow> int64 (x + 1) = x + 1"
  by (rule swrap_id) (auto simp: in_int_def)

lemma getNextClk_new:
  assumes p: "clock_inv I p" and r: "room p now" and n: "getNextClk now p = (p', clk)"
  shows "on_ids I clk" and "p' = p\<lparr>lastUsedTs := vget clk (pk_replicaID p)\<rparr>"
    and "lastUsedTs p < vget clk (pk_replicaID p)" and "vget (stableClk p) (pk_replicaID p) < vget clk (pk_replicaID p)"
    and "\<forall>i. i \<noteq> pk_replicaID p \<longrightarrow> vget clk i = vget (stableClk p) i"
proof -
  let ?r = "pk_replicaID p" and ?s = "stableClk p"
  have ids: "on_ids I ?s" "?r \<in> I" using p by (auto simp: clock_inv_def)
  define c where "c = NextTimestamp now ?s ?r"
  have c: "on_ids I c" "vget ?s ?r < vget c ?r" "\<forall>i. i \<noteq> ?r \<longrightarrow> vget c i = vget ?s i"
    using ids r on_ids_mput by (auto simp: c_def NextTimestamp_def room_def vget_mput int64_Suc)
  have u: "int64 (lastUsedTs p + 1) = lastUsedTs p + 1" using r by (simp add: room_def int64_Suc)
  have d: "(p', clk) = (if vget c ?r \<le> lastUsedTs p
      then (p\<lparr>lastUsedTs := lastUsedTs p + 1\<rparr>, mput ?r (lastUsedTs p + 1) c)
      else (p\<lparr>lastUsedTs := vget c ?r\<rparr>, c))"
    unfolding n [symmetric] by (auto simp: getNextClk_def Let_def GetPos_def c_def [symmetric] u UpdatePos_def)
  show "on_ids I clk" "p' = p\<lparr>lastUsedTs := vget clk ?r\<rparr>" "lastUsedTs p < vget clk ?r" "vget ?s ?r < vget clk ?r"
    "\<forall>i. i \<noteq> ?r \<longrightarrow> vget clk i = vget ?s i"
    using d c ids on_ids_mput by (auto simp: vget_mput split: if_splits)
qed

lemma indexed_Push: "indexed c \<Longrightarrow> pc_innerMap c (tc_txnId v) = None \<Longrightarrow> indexed (prep_Push c v)"
  unfolding indexed_def prep_Push_def by (auto simp: nth_append less_Suc_eq split: if_splits) (metis option.distinct(1))

lemma indexed_Pop:
  assumes c: "indexed c" and ne: "pc_entries c \<noteq> []"
  shows "indexed (prep_Pop c)"
  unfolding indexed_def
proof (intro allI)
  fix t i
  let ?n = "length (pc_entries c) - 1"
  have last: "last (pc_entries c) = pc_entries c ! ?n" using ne by (rule last_conv_nth)
  have eq: "i = ?n" if "i < length (pc_entries c)" "tc_txnId (pc_entries c ! i) = tc_txnId (pc_entries c ! ?n)"
    using indexed_distinct [OF c that(1) _ that(2)] ne by (simp add: Suc_leI)
  have old: "pc_innerMap c t = Some i \<longleftrightarrow> i < length (pc_entries c) \<and> tc_txnId (pc_entries c ! i) = t" using c by (simp add: indexed_def)
  show "pc_innerMap (prep_Pop c) t = Some i \<longleftrightarrow> i < length (pc_entries (prep_Pop c)) \<and> tc_txnId (pc_entries (prep_Pop c) ! i) = t"
  proof (cases "i < ?n")
    case True
    then have "i < length (pc_entries c)" by simp
    with True eq have "tc_txnId (pc_entries c ! i) \<noteq> tc_txnId (pc_entries c ! ?n)" by auto
    with True ne old last show ?thesis by (auto simp: prep_Pop_def nth_butlast)
  next
    case False
    then have "i = ?n \<or> length (pc_entries c) \<le> i" using ne by auto
    with False ne old last show ?thesis by (auto simp: prep_Pop_def)
  qed
qed

lemma prepare_appends:
  assumes p: "clock_inv I p" and r: "room p now" and n: "getNextClk now p = (p', clk)"
  shows "prepareClock now t p = p'\<lparr>prepClks := prep_Push (prepClks p) \<lparr>tc_clk = clk, tc_txnId = t\<rparr>\<rparr>"
    and "\<forall>e \<in> set (prepared p). le_clk (tc_clk e) clk \<and> own p e < vget clk (pk_replicaID p)"
proof -
  note new = getNextClk_new [OF p r n]
  have above: "le_clk (tc_clk e) clk \<and> own p e < vget clk (pk_replicaID p)" if "e \<in> set (prepared p)" for e
  proof -
    have b: "below_stable p e" using p that by (simp add: clock_inv_def)
    have "vget (tc_clk e) i \<le> vget clk i" for i using b new(3,5) by (cases "i = pk_replicaID p") (auto simp: below_stable_def)
    with b new(3) show ?thesis by (auto simp: le_clk_def below_stable_def)
  qed
  then show "\<forall>e \<in> set (prepared p). le_clk (tc_clk e) clk \<and> own p e < vget clk (pk_replicaID p)" by blast
  let ?h = "prep_Push (prepClks p) \<lparr>tc_clk = clk, tc_txnId = t\<rparr>"
  have "\<not> prep_lt \<lparr>tc_clk = clk, tc_txnId = t\<rparr> e" if e: "e \<in> set (prepared p)" for e
  proof -
    have "on_ids I (tc_clk e)" using p e by (simp add: clock_inv_def)
    with above [OF e] new(1) show ?thesis by (simp add: prep_lt_def on_ids_higher)
  qed
  then have "heap_up prep_Less prep_Swap ?h (length (prepared p)) = ?h" by (intro prep.heap_up_last) (auto simp: prep_Push_def)
  then show "prepareClock now t p = p'\<lparr>prepClks := ?h\<rparr>" using n new(2) by (simp add: prepareClock_def)
qed

lemma heap_ok_snoc:
  assumes "heap_ok lt xs (length xs)" and "\<forall>e \<in> set xs. \<not> lt x e"
  shows "heap_ok lt (xs @ [x]) (Suc (length xs))"
  unfolding heap_ok_def
proof (intro allI impI)
  fix k assume k: "0 < k \<and> k < Suc (length xs)"
  then have p: "par k < length xs" by linarith
  show "\<not> lt ((xs @ [x]) ! k) ((xs @ [x]) ! par k)"
    using k p assms by (cases "k = length xs") (auto simp: nth_append heap_ok_def)
qed

lemma clock_inv_prepare:
  assumes p: "clock_inv I p" and r: "room p now" and t: "pc_innerMap (prepClks p) t = None"
  shows "clock_inv I (prepareClock now t p)"
proof -
  obtain p' clk where n: "getNextClk now p = (p', clk)" by (cases "getNextClk now p")
  note new = getNextClk_new [OF p r n] and app = prepare_appends(1) [OF p r n, of t] prepare_appends(2) [OF p r n]
  let ?e = "\<lparr>tc_clk = clk, tc_txnId = t\<rparr>" and ?q = "prepareClock now t p"
  have q: "pk_replicaID ?q = pk_replicaID p" "stableClk ?q = stableClk p" "lastUsedTs ?q = vget clk (pk_replicaID p)"
    "prepClks ?q = prep_Push (prepClks p) ?e" "prepared ?q = prepared p @ [?e]"
    using app(1) new(2) by (simp_all add: prep_Push_def)
  have old: "on_ids I (tc_clk e)" "below_stable p e" if "e \<in> set (prepared p)" for e using p that by (auto simp: clock_inv_def)
  have "below_stable ?q e" if "e \<in> set (prepared p)" for e
    using old(2) [OF that] new(3) by (auto simp: below_stable_def q)
  moreover have "below_stable ?q ?e" using new(5) by (simp add: below_stable_def q)
  moreover have "ordered ?q"
  proof -
    have "(own p a < own p b \<longrightarrow> le_clk (tc_clk a) (tc_clk b)) \<and> (own p a = own p b \<longrightarrow> a = b)"
      if ab: "a \<in> insert ?e (set (prepared p))" "b \<in> insert ?e (set (prepared p))" for a b
    proof -
      have e: "x = ?e \<or> x \<in> set (prepared p) \<and> own p x < own p ?e \<and> le_clk (tc_clk x) (tc_clk ?e)"
        if "x \<in> insert ?e (set (prepared p))" for x using that app(2) by auto
      have "ordered p" using p by (simp add: clock_inv_def)
      then have "a \<in> set (prepared p) \<Longrightarrow> b \<in> set (prepared p) \<Longrightarrow> ?thesis" by (simp add: ordered_def)
      with e [OF ab(1)] e [OF ab(2)] show ?thesis by force
    qed
    moreover have "set (prepared ?q) = insert ?e (set (prepared p))" using q(5) by simp
    ultimately show ?thesis unfolding ordered_def q(1) by simp
  qed
  moreover have "indexed (prepClks ?q)" using p t indexed_Push by (simp add: q clock_inv_def)
  moreover have "heap_ok prep_lt (prepared ?q) (length (prepared ?q))"
  proof -
    have "\<not> prep_lt ?e e" if "e \<in> set (prepared p)" for e
      using app(2) that old(1) [OF that] new(1) by (simp add: prep_lt_def on_ids_higher)
    with p show ?thesis using heap_ok_snoc [of prep_lt "prepared p" ?e] by (simp add: q(5) clock_inv_def)
  qed
  moreover have "set (prepared ?q) = insert ?e (set (prepared p))" using q(5) by simp
  ultimately show ?thesis using p new(1) old(1) by (simp add: clock_inv_def q(1,2))
qed

lemma indexed_None:
  assumes "indexed c"
  shows "pc_innerMap c s = None \<longleftrightarrow> s \<notin> tc_txnId ` set (pc_entries c)"
proof
  assume n: "pc_innerMap c s = None"
  show "s \<notin> tc_txnId ` set (pc_entries c)"
  proof
    assume "s \<in> tc_txnId ` set (pc_entries c)"
    then obtain i where "i < length (pc_entries c)" "tc_txnId (pc_entries c ! i) = s" by (auto simp: in_set_conv_nth)
    with assms have "pc_innerMap c s = Some i" unfolding indexed_def by blast
    with n show False by simp
  qed
next
  assume out: "s \<notin> tc_txnId ` set (pc_entries c)"
  show "pc_innerMap c s = None"
  proof (rule ccontr)
    assume "pc_innerMap c s \<noteq> None"
    then obtain i where "pc_innerMap c s = Some i" by auto
    with assms have "i < length (pc_entries c)" "tc_txnId (pc_entries c ! i) = s" by (auto simp: indexed_def)
    with out show False by force
  qed
qed

lemma clock_inv_subset:
  assumes p: "clock_inv I p" and sub: "set (pc_entries h) \<subseteq> set (prepared p)" and "indexed h"
    and "heap_ok prep_lt (pc_entries h) (length (pc_entries h))"
  shows "clock_inv I (p\<lparr>prepClks := h\<rparr>)"
proof -
  have "ordered (p\<lparr>prepClks := h\<rparr>)"
    unfolding ordered_def
  proof (intro ballI)
    fix a b assume "a \<in> set (prepared (p\<lparr>prepClks := h\<rparr>))" "b \<in> set (prepared (p\<lparr>prepClks := h\<rparr>))"
    then have ab: "a \<in> set (prepared p)" "b \<in> set (prepared p)" using sub by auto
    have "ordered p" using p by (simp add: clock_inv_def)
    with ab show "(own (p\<lparr>prepClks := h\<rparr>) a < own (p\<lparr>prepClks := h\<rparr>) b \<longrightarrow> le_clk (tc_clk a) (tc_clk b))
        \<and> (own (p\<lparr>prepClks := h\<rparr>) a = own (p\<lparr>prepClks := h\<rparr>) b \<longrightarrow> a = b)" by (simp add: ordered_def)
  qed
  with assms show ?thesis by (auto simp: clock_inv_def below_stable_def)
qed

lemma mset_butlast: "xs \<noteq> [] \<Longrightarrow> mset xs = add_mset (last xs) (mset (butlast xs))"
  by (induction xs) auto

lemma remove_prepare:
  assumes p: "clock_inv I p" and t: "pc_innerMap (prepClks p) t = Some i"
  obtains h where "removePrepare t p = Inr (p\<lparr>prepClks := h\<rparr>)" and "clock_inv I (p\<lparr>prepClks := h\<rparr>)"
    and "mset (prepared p) = add_mset (prepared p ! i) (mset (pc_entries h))" and "tc_txnId (prepared p ! i) = t"
    and "\<forall>s. pc_innerMap h s = None \<longleftrightarrow> s = t \<or> pc_innerMap (prepClks p) s = None"
proof -
  let ?h = "prepClks p"
  have inv: "indexed ?h" "heap_ok prep_lt (prepared p) (length (prepared p))" using p by (auto simp: clock_inv_def)
  have i: "i < length (prepared p)" "tc_txnId (prepared p ! i) = t" using inv(1) t by (auto simp: indexed_def)
  obtain h' where h': "heap_Remove_prepare prep_Less prep_Swap (length (prepared p)) ?h i = Inr h'"
    "mset (pc_entries h') = mset (prepared p)" "last (pc_entries h') = prepared p ! i" "indexed h'"
    "heap_ok prep_lt (butlast (pc_entries h')) (length (prepared p) - 1)"
    using prep.heap_Remove_ok [OF i(1)] inv prepared_total [OF p] by blast
  have len: "length (pc_entries h') = length (prepared p)" by (rule mset_eq_length [OF h'(2)])
  then have ne: "pc_entries h' \<noteq> []" using i(1) by auto
  let ?g = "prep_Pop h'"
  have g: "pc_entries ?g = butlast (pc_entries h')" using ne by (simp add: prep_Pop_def)
  have "mset (pc_entries h') = add_mset (last (pc_entries h')) (mset (butlast (pc_entries h')))"
    by (rule mset_butlast [OF ne])
  then have m: "mset (prepared p) = add_mset (prepared p ! i) (mset (pc_entries ?g))" using h'(2,3) g by simp
  have sub: "set (pc_entries ?g) \<subseteq> set (prepared p)" using m by (metis set_mset_mset set_mset_add_mset_insert subset_insertI)
  have ix: "indexed ?g" by (rule indexed_Pop [OF h'(4) ne])
  have "heap_ok prep_lt (pc_entries ?g) (length (pc_entries ?g))" using h'(5) g len by simp
  then have ok: "clock_inv I (p\<lparr>prepClks := ?g\<rparr>)" by (rule clock_inv_subset [OF p sub ix])
  have out: "t \<notin> tc_txnId ` set (pc_entries ?g)"
    using indexed_None [OF ix, of t] ne h'(3) i(2) by (simp add: prep_Pop_def)
  have "tc_txnId ` set (prepared p) = insert t (tc_txnId ` set (pc_entries ?g))"
    using m i(2) by (metis image_insert set_mset_add_mset_insert set_mset_mset)
  then have "pc_innerMap ?g s = None \<longleftrightarrow> s = t \<or> pc_innerMap ?h s = None" for s
    unfolding indexed_None [OF ix] indexed_None [OF inv(1)] using out by blast
  then show thesis using that [of ?g] h'(1) t ok m i(2) by (simp add: removePrepare_def)
qed

lemma on_ids_UpdatePos: "on_ids I a \<Longrightarrow> i \<in> I \<Longrightarrow> on_ids I (UpdatePos a i v)"
  by (simp add: UpdatePos_def on_ids_mput)

lemma clock_inv_stable:
  assumes "clock_inv I p" and "on_ids I clk" and "le_clk (stableClk p) clk"
  shows "clock_inv I (p\<lparr>stableClk := clk\<rparr>)"
  using assms unfolding clock_inv_def ordered_def below_stable_def by (auto simp: le_clk_def intro: order_trans)

lemma clock_inv_commit:
  assumes "clock_inv I p" and "on_ids I clk"
  shows "clock_inv I (updateClockWithCommit clk p)"
  unfolding updateClockWithCommit_def
  by (rule clock_inv_stable) (use assms in \<open>auto simp: clock_inv_def on_ids_Merge vget_on_Merge le_clk_def\<close>)

lemma clock_inv_remote:
  assumes "clock_inv I p" and "i \<in> I"
  shows "clock_inv I (updateClockWithRemoteTS i ts p)"
  unfolding updateClockWithRemoteTS_def
  by (rule clock_inv_stable) (use assms in \<open>auto simp: clock_inv_def on_ids_mput UpdatePos_def vget_mput le_clk_def\<close>)

lemma clock_inv_start: "replicaID \<in> set knownIDs \<Longrightarrow> clock_inv (set knownIDs) (initializePartitionClock knownIDs replicaID)"
  by (simp add: clock_inv_def initializePartitionClock_def on_ids_def NewClockSiTimestamp_def wf_NewTimestamp keys_NewTimestamp
      ordered_def indexed_def heap_ok_def)

section \<open>Preparing and the partition of a key\<close>

text \<open>
  C19. Preparing a transaction reports the clock that was just prepared, although the method
  that reads it is called \<open>PeekMax\<close> and returns the last entry of the heap: the new clock is
  strictly higher than the stable clock of the partition and than every clock that is still
  prepared, whatever the wall clock does.
\<close>

theorem prepareClock_reply:
  assumes "clock_inv I p" and "room p now" and "pc_innerMap (prepClks p) t = None"
  shows "\<exists>clk. prep_PeekMax (prepClks (prepareClock now t p)) = Some \<lparr>tc_clk = clk, tc_txnId = t\<rparr>
    \<and> IsHigher clk (Some (stableClk p)) \<and> (\<forall>e \<in> set (prepared p). IsHigher clk (Some (tc_clk e)))
    \<and> prepared (prepareClock now t p) = prepared p @ [\<lparr>tc_clk = clk, tc_txnId = t\<rparr>]
    \<and> clock_inv I (prepareClock now t p)"
proof -
  obtain p' clk where n: "getNextClk now p = (p', clk)" by (cases "getNextClk now p")
  note new = getNextClk_new [OF assms(1,2) n] and app = prepare_appends [OF assms(1,2) n]
  have p: "on_ids I (stableClk p)" "\<forall>e \<in> set (prepared p). on_ids I (tc_clk e)" using assms(1) by (auto simp: clock_inv_def)
  have "le_clk (stableClk p) clk" unfolding le_clk_def using new(4,5) by (metis order_less_imp_le order_refl)
  moreover have "\<not> le_clk clk (stableClk p)" using new(4) unfolding le_clk_def by (metis linorder_not_less)
  ultimately have s: "IsHigher clk (Some (stableClk p))" using on_ids_higher [OF new(1) p(1)] by simp
  have e: "IsHigher clk (Some (tc_clk e))" if "e \<in> set (prepared p)" for e
    using on_ids_higher [OF new(1)] p(2) app(2) that unfolding le_clk_def by (metis linorder_not_less)
  have q: "prepClks (prepareClock now t p) = prep_Push (prepClks p) \<lparr>tc_clk = clk, tc_txnId = t\<rparr>" using app(1) by simp
  show ?thesis using s e clock_inv_prepare [OF assms] unfolding q by (auto simp: prep_Push_def prep_PeekMax_def)
qed

theorem prepareClock_reply_witness:
  "\<exists>clk. prep_PeekMax (prepClks (prepareClock 5 8 (prepareClock 5 7 (initializePartitionClock [1, 2] 1))))
      = Some \<lparr>tc_clk = clk, tc_txnId = 8\<rparr> \<and> IsHigher clk (Some [(1, 5), (2, 0)])"
proof -
  let ?s = "initializePartitionClock [1, 2] 1" and ?p = "prepareClock 5 7 (initializePartitionClock [1, 2] 1)"
  have "room ?s 5" "pc_innerMap (prepClks ?s) 7 = None" by code_simp+
  moreover have "clock_inv {1, 2} ?s" using clock_inv_start [of 1 "[1, 2]"] by simp
  ultimately have "clock_inv {1, 2} ?p" using clock_inv_prepare by blast
  moreover have "room ?p 5" "pc_innerMap (prepClks ?p) 8 = None" "prepared ?p = [\<lparr>tc_clk = [(1, 5), (2, 0)], tc_txnId = 7\<rparr>]" by code_simp+
  ultimately show ?thesis using prepareClock_reply [of "{1, 2}" ?p 5 8] by auto
qed

text \<open>
  Every key is sent to one of the partitions, also the keys with the highest hashes, which
  the division puts one past the last partition; with a single partition no division by zero
  happens.
\<close>

theorem GetChannelKey_in_range:
  assumes "0 < n" and "n < 2 ^ 32" and "\<forall>s. hash s < 2 ^ 64"
  shows "GetChannelKey hash n k < n"
proof -
  let ?r = "keyRangeSize n" and ?h = "hash (getCombinedKey k)"
  have h: "?h \<le> 2 ^ 64 - 1" using assms(3) by (simp add: Suc_leI less_eq_Suc_le)
  have "(2 ^ 64 - 1 :: nat) = n * ?r + (2 ^ 64 - 1) mod n" by (simp add: keyRangeSize_def)
  moreover have "(2 ^ 64 - 1 :: nat) mod n < n" using assms(1) by simp
  moreover have "n \<le> ?r"
  proof -
    have "n * n \<le> (2 ^ 32 - 1) * (2 ^ 32 - 1)" by (intro mult_le_mono) (use assms(2) in simp_all)
    then have "n * n \<le> 2 ^ 64 - 1" by simp
    then show ?thesis using assms(1) unfolding keyRangeSize_def by (simp add: less_eq_div_iff_mult_less_eq)
  qed
  ultimately have "?h < Suc n * ?r" using h by simp
  then have "?h div ?r \<le> n" by (simp add: less_mult_imp_div_less less_Suc_eq_le [symmetric])
  then show ?thesis using assms(1) by (auto simp: GetChannelKey_def Let_def)
qed

theorem GetChannelKey_in_range_witness:
  "GetChannelKey (\<lambda>s. 2 ^ 64 - 1) 3 \<lparr>kp_Key = ''k'', kp_CrdtType = 3, kp_Bucket = ''b''\<rparr> < 3"
  using GetChannelKey_in_range [of 3 "\<lambda>s. 2 ^ 64 - 1"] by simp

text \<open>
  The string under which an object is stored does not determine its bucket, type and key:
  two objects of different types can share one place in the database, whatever the hash.
\<close>

theorem getCombinedKey_ambiguous:
  "getCombinedKey \<lparr>kp_Key = ''_FLOAT'' @ k, kp_CrdtType = 3, kp_Bucket = b\<rparr>
     = getCombinedKey \<lparr>kp_Key = k, kp_CrdtType = 18, kp_Bucket = b\<rparr>"
  by (simp add: getCombinedKey_def CRDTType_String_def CRDTType_name_def)

end
