(* ===== verification/Inversible.thy ===== *)
theory Inversible
  imports ClockSI
begin

text \<open>
  Version management of \<^verbatim>\<open>crdt/crdt/inversibleCrdt.go\<close>: every CRDT keeps the history of its
  updates with their effects, and an old version is rebuilt by undoing effects. The constant
  \<open>shared.IsVMDisabled\<close> is the argument \<open>vmDisabled\<close>. \<open>undoEffectFunc\<close>,
  \<open>reapplyOpFunc\<close> and \<open>notifyFunc\<close> are arguments too, since each CRDT supplies its own;
  the locale \<open>inversible\<close> states what they owe each other.
\<close>

record ('op, 'e) History =
  h_ts :: ClockSiTimestamp
  updsArgs :: "'op list"
  effects :: "'e list"

text \<open>
  The values of the interface \<open>Effect\<close>: the nil interface, \<open>NoEffect\<close>, or a structure of
  the CRDT.
\<close>

datatype 'e effect = NilEffect | NoEffect | Eff 'e

definition addToHistory ::
    "bool \<Rightarrow> ('op, 'e) History list \<Rightarrow> ClockSiTimestamp \<Rightarrow> 'op \<Rightarrow> 'e \<Rightarrow> ('op, 'e) History list" where
  "addToHistory vmDisabled history t updArgs effect =
     (if vmDisabled then history
      else if history = [] \<or> \<not> IsEqual (h_ts (last history)) (Some t)
      then history @ [\<lparr>h_ts = t, updsArgs = [updArgs], effects = [effect]\<rparr>]
      else butlast history @
        [(last history)\<lparr>updsArgs := updsArgs (last history) @ [updArgs],
                        effects := effects (last history) @ [effect]\<rparr>])"

text \<open>
  The first loop of \<open>rebuildCRDTToVersion\<close>, on the index \<open>i + 1\<close> of the entry to look at
  next: go back until an entry is at or below the target, undoing the effects of every entry
  passed, in their slice order. The variable \<open>currTs\<close> of the code is the clock of that entry.
\<close>

primrec undo_from ::
    "('s \<Rightarrow> 'e \<Rightarrow> 's go) \<Rightarrow> ClockSiTimestamp \<Rightarrow> ('op, 'e) History list \<Rightarrow> nat \<Rightarrow> 's \<Rightarrow> (nat \<times> 's) go" where
  "undo_from undoEffect target history 0 s = Inr (0, s)"
| "undo_from undoEffect target history (Suc i) s =
     (if IsLowerOrEqual (h_ts (history ! i)) (Some target) then Inr (Suc i, s)
      else gbind (gfold undoEffect s (effects (history ! i)))
             (\<lambda>s'. undo_from undoEffect target history i s'))"

text \<open>Re-applying the operations of one entry, which also replaces its effects.\<close>

primrec reapply_entry ::
    "('s \<Rightarrow> 'op \<Rightarrow> ('s \<times> 'e) go) \<Rightarrow> nat \<Rightarrow> 's \<Rightarrow> 'op list \<Rightarrow> 'e list \<Rightarrow> ('s \<times> 'e list) go" where
  "reapply_entry reapplyOp j s [] effs = Inr (s, effs)"
| "reapply_entry reapplyOp j s (u # us) effs =
     gbind (reapplyOp s u) (\<lambda>r. case r of (s', e) \<Rightarrow>
       if j < length effs then reapply_entry reapplyOp (Suc j) s' us (effs[j := e])
       else Inl IndexOutOfRange)"

text \<open>
  The second loop, from entry \<open>i\<close> on: skip and drop concurrent entries, re-apply lower and
  equal ones, stop after an equal or a higher one. The loop has no bound check of its own:
  running past the end of the history panics.
\<close>

function redo_from ::
    "('s \<Rightarrow> 'op \<Rightarrow> ('s \<times> 'e) go) \<Rightarrow> ClockSiTimestamp \<Rightarrow> ('op, 'e) History list \<Rightarrow> nat \<Rightarrow> 's
       \<Rightarrow> (('op, 'e) History list \<times> 's) go" where
  "redo_from reapplyOp target history i s =
     (if length history \<le> i then Inl IndexOutOfRange
      else case Compare (h_ts (history ! i)) (Some target) of
             HigherTs \<Rightarrow> Inr (take (Suc i) history, s)
           | ConcurrentTs \<Rightarrow> redo_from reapplyOp target (take i history @ drop (Suc i) history) i s
           | cmp \<Rightarrow>
               gbind (reapply_entry reapplyOp 0 s (updsArgs (history ! i)) (effects (history ! i)))
                 (\<lambda>r. case r of (s', effs) \<Rightarrow>
                    let history' = history[i := (history ! i)\<lparr>effects := effs\<rparr>]
                    in if cmp = EqualTs then Inr (take (Suc i) history', s')
                       else redo_from reapplyOp target history' (Suc i) s'))"
  by pat_completeness auto
termination
  by (relation "measure (\<lambda>(f, t, history, i, s). length history - i)") (auto simp: min_def)

declare redo_from.simps [simp del]

definition rebuildCRDTToVersion ::
    "bool \<Rightarrow> ('s \<Rightarrow> 'e \<Rightarrow> 's go) \<Rightarrow> ('s \<Rightarrow> 'op \<Rightarrow> ('s \<times> 'e) go) \<Rightarrow> (ClockSiTimestamp \<Rightarrow> 's \<Rightarrow> 's go)
       \<Rightarrow> ClockSiTimestamp \<Rightarrow> ('op, 'e) History list \<Rightarrow> 's \<Rightarrow> (('op, 'e) History list \<times> 's) go" where
  "rebuildCRDTToVersion vmDisabled undoEffect reapplyOp notify target history s =
     (if vmDisabled then Inr (history, s)
      else if history = [] then Inr (history, s)
      else gbind (undo_from undoEffect target history (length history) s) (\<lambda>r. case r of (i, s1) \<Rightarrow>
             if i = length history then Inr (history, s1)
             else gbind (redo_from reapplyOp target history i s1) (\<lambda>r2. case r2 of (history', s2) \<Rightarrow>
                    gbind (notify target s2) (\<lambda>s3. Inr (history', s3)))))"

text \<open>The loop of \<open>GC\<close> that looks for the last entry at or below the safe clock.\<close>

primrec GC_startIndex :: "ClockSiTimestamp \<Rightarrow> ('op, 'e) History list \<Rightarrow> nat \<Rightarrow> nat" where
  "GC_startIndex safeClk history 0 = 0"
| "GC_startIndex safeClk history (Suc i) =
     (if IsLowerOrEqual (h_ts (history ! i)) (Some safeClk) then i
      else GC_startIndex safeClk history i)"

text \<open>
  Both ways of shortening the slice: a new slice, or moving the kept entries to the front of
  the old one and cutting it.
\<close>

definition GC_history :: "ClockSiTimestamp \<Rightarrow> ('op, 'e) History list \<Rightarrow> ('op, 'e) History list" where
  "GC_history safeClk history =
     (let startIndex = GC_startIndex safeClk history (length history);
          newLen = length history - startIndex
      in if startIndex = 0 then history
         else if newLen < length history div 4 then drop startIndex history
         else take newLen (drop startIndex history @ drop newLen history))"

section \<open>The contract between applying and undoing\<close>

text \<open>
  A CRDT provides \<open>app\<close> (its \<open>applyDownstream\<close>, which returns the effect) and
  \<open>undo\<close> (its \<open>undoEffect\<close>): undoing the effect of an operation that was admissible
  in a state gives that state back.
\<close>

locale inversible =
  fixes app :: "'s \<Rightarrow> 'op \<Rightarrow> 's \<times> 'e"
    and undo :: "'s \<Rightarrow> 'e \<Rightarrow> 's go"
    and ok :: "'s \<Rightarrow> 'op \<Rightarrow> bool"
  assumes undo_apply: "ok s u \<Longrightarrow> undo (fst (app s u)) (snd (app s u)) = Inr s"

text \<open>
  The effects of one history entry are undone first to last, not last to first. That is only
  right when undoing commutes, which is a second contract.
\<close>

locale commuting_undo = inversible +
  assumes undo_commute: "gbind (undo s e) (\<lambda>s'. undo s' f) = gbind (undo s f) (\<lambda>s'. undo s' e)"

section \<open>Recorded histories\<close>

primrec run :: "('s \<Rightarrow> 'op \<Rightarrow> 's \<times> 'e) \<Rightarrow> 's \<Rightarrow> 'op list \<Rightarrow> 's" where
  "run app s [] = s"
| "run app s (u # us) = run app (fst (app s u)) us"

primrec effects_of :: "('s \<Rightarrow> 'op \<Rightarrow> 's \<times> 'e) \<Rightarrow> 's \<Rightarrow> 'op list \<Rightarrow> 'e list" where
  "effects_of app s [] = []"
| "effects_of app s (u # us) = snd (app s u) # effects_of app (fst (app s u)) us"

primrec run_ok :: "('s \<Rightarrow> 'op \<Rightarrow> 's \<times> 'e) \<Rightarrow> ('s \<Rightarrow> 'op \<Rightarrow> bool) \<Rightarrow> 's \<Rightarrow> 'op list \<Rightarrow> bool" where
  "run_ok app ok s [] = True"
| "run_ok app ok s (u # us) = (ok s u \<and> run_ok app ok (fst (app s u)) us)"

text \<open>\<open>replay app s h\<close>: the state after the operations of a history, started in \<open>s\<close>.\<close>

primrec replay :: "('s \<Rightarrow> 'op \<Rightarrow> 's \<times> 'e) \<Rightarrow> 's \<Rightarrow> ('op, 'e) History list \<Rightarrow> 's" where
  "replay app s [] = s"
| "replay app s (h # hs) = replay app (run app s (updsArgs h)) hs"

text \<open>\<open>recorded app ok s h\<close>: the history that \<open>addToHistory\<close> leaves after admissible updates.\<close>

primrec recorded ::
    "('s \<Rightarrow> 'op \<Rightarrow> 's \<times> 'e) \<Rightarrow> ('s \<Rightarrow> 'op \<Rightarrow> bool) \<Rightarrow> 's \<Rightarrow> ('op, 'e) History list \<Rightarrow> bool" where
  "recorded app ok s [] = True"
| "recorded app ok s (h # hs) =
     (run_ok app ok s (updsArgs h) \<and> effects h = effects_of app s (updsArgs h)
      \<and> recorded app ok (run app s (updsArgs h)) hs)"

lemma run_append: "run app s (us @ vs) = run app (run app s us) vs"
  by (induction us arbitrary: s) auto

lemma effects_of_append: "effects_of app s (us @ vs) = effects_of app s us @ effects_of app (run app s us) vs"
  by (induction us arbitrary: s) auto

lemma run_ok_append: "run_ok app ok s (us @ vs) \<longleftrightarrow> run_ok app ok s us \<and> run_ok app ok (run app s us) vs"
  by (induction us arbitrary: s) auto

lemma replay_append: "replay app s (hs @ ks) = replay app (replay app s hs) ks"
  by (induction hs arbitrary: s) auto

lemma recorded_append:
  "recorded app ok s (hs @ ks) \<longleftrightarrow> recorded app ok s hs \<and> recorded app ok (replay app s hs) ks"
  by (induction hs arbitrary: s) auto

text \<open>One \<open>Downstream\<close> call: apply the operation and record it.\<close>

definition downstream_step ::
    "bool \<Rightarrow> ('s \<Rightarrow> 'op \<Rightarrow> 's \<times> 'e) \<Rightarrow> ('op, 'e) History list \<times> 's \<Rightarrow> ClockSiTimestamp \<Rightarrow> 'op
       \<Rightarrow> ('op, 'e) History list \<times> 's" where
  "downstream_step vmDisabled app c t u = (case c of (h, s) \<Rightarrow>
     (addToHistory vmDisabled h t u (snd (app s u)), fst (app s u)))"

lemma downstream_step_recorded:
  assumes "recorded app ok s0 h" and "ok (replay app s0 h) u"
    and "downstream_step False app (h, replay app s0 h) t u = (h', s')"
  shows "recorded app ok s0 h' \<and> s' = replay app s0 h'"
proof (cases "h = [] \<or> \<not> IsEqual (h_ts (last h)) (Some t)")
  case True
  then have "h' = h @ [\<lparr>h_ts = t, updsArgs = [u], effects = [snd (app (replay app s0 h) u)]\<rparr>]"
    and "s' = fst (app (replay app s0 h) u)"
    using assms(3) by (auto simp: downstream_step_def addToHistory_def)
  with assms(1,2) show ?thesis by (simp add: recorded_append replay_append)
next
  case False
  then obtain g e where h: "h = g @ [e]" by (metis rev_exhaust)
  let ?s = "replay app s0 h"
  have "h' = g @ [e\<lparr>updsArgs := updsArgs e @ [u], effects := effects e @ [snd (app ?s u)]\<rparr>]"
    and "s' = fst (app ?s u)"
    using assms(3) False by (auto simp: downstream_step_def addToHistory_def h)
  with assms(1,2) show ?thesis
    by (simp add: recorded_append replay_append h run_append effects_of_append run_ok_append)
qed

text \<open>\<open>undoable\<close>: undoing an entry's effects in slice order restores the state before it.\<close>

definition undoable :: "('s \<Rightarrow> 'op \<Rightarrow> 's \<times> 'e) \<Rightarrow> ('s \<Rightarrow> 'e \<Rightarrow> 's go) \<Rightarrow> 's \<Rightarrow> ('op, 'e) History list \<Rightarrow> bool" where
  "undoable app undo s h \<longleftrightarrow> (\<forall>g e k. h = g @ e # k \<longrightarrow>
     gfold undo (run app (replay app s g) (updsArgs e)) (effects e) = Inr (replay app s g))"

context inversible
begin

lemma undoable_single:
  assumes "recorded app ok s h" and "\<forall>e \<in> set h. length (updsArgs e) = 1"
  shows "undoable app undo s h"
  unfolding undoable_def
proof (intro allI impI)
  fix g e k
  assume h: "h = g @ e # k"
  with assms(2) obtain u where u: "updsArgs e = [u]" by (auto simp: length_Suc_conv)
  from assms(1) show "gfold undo (run app (replay app s g) (updsArgs e)) (effects e) = Inr (replay app s g)"
    by (simp add: h u recorded_append undo_apply)
qed

end

context commuting_undo
begin

lemma gfold_undo_commute:
  "gbind (undo s e) (\<lambda>s'. gfold undo s' es) = gbind (gfold undo s es) (\<lambda>s'. undo s' e)"
proof (induction es arbitrary: s)
  case Nil
  then show ?case by (cases "undo s e") auto
next
  case (Cons f es)
  have "gbind (undo s e) (\<lambda>s'. gfold undo s' (f # es)) =
      gbind (gbind (undo s e) (\<lambda>s'. undo s' f)) (\<lambda>s'. gfold undo s' es)"
    by (cases "undo s e") auto
  also have "\<dots> = gbind (undo s f) (\<lambda>s'. gbind (undo s' e) (\<lambda>s''. gfold undo s'' es))"
    by (subst undo_commute) (cases "undo s f"; simp)
  also have "\<dots> = gbind (gfold undo s (f # es)) (\<lambda>s'. undo s' e)"
    by (cases "undo s f") (auto simp: Cons)
  finally show ?case .
qed

lemma undo_entry: "run_ok app ok s us \<Longrightarrow> gfold undo (run app s us) (effects_of app s us) = Inr s"
proof (induction us arbitrary: s)
  case (Cons u us)
  then show ?case by (simp add: gfold_undo_commute undo_apply)
qed simp

lemma undoable_recorded: "recorded app ok s h \<Longrightarrow> undoable app undo s h"
  unfolding undoable_def by (auto simp: recorded_append undo_entry)

end

section \<open>What rebuilding computes\<close>

text \<open>\<open>cut_index target h n\<close>: one more than the last index below \<open>n\<close> at or below the target.\<close>

primrec cut_index :: "ClockSiTimestamp \<Rightarrow> ('op, 'e) History list \<Rightarrow> nat \<Rightarrow> nat" where
  "cut_index target h 0 = 0"
| "cut_index target h (Suc i) = (if IsLowerOrEqual (h_ts (h ! i)) (Some target) then Suc i else cut_index target h i)"

lemma cut_le: "cut_index target h n \<le> n"
  by (induction n) auto

lemma cut_above: "i < n \<Longrightarrow> cut_index target h n \<le> i \<Longrightarrow> \<not> IsLowerOrEqual (h_ts (h ! i)) (Some target)"
  by (induction n) (auto simp: less_Suc_eq split: if_splits)

lemma undo_from_cut:
  assumes "undoable app undo s h" and "n \<le> length h"
  shows "undo_from undo target h n (replay app s (take n h)) =
    Inr (cut_index target h n, replay app s (take (cut_index target h n) h))"
  using assms(2)
proof (induction n)
  case (Suc i)
  have split: "h = take i h @ h ! i # drop (Suc i) h" using Suc.prems by (simp add: id_take_nth_drop)
  have "gfold undo (run app (replay app s (take i h)) (updsArgs (h ! i))) (effects (h ! i))
      = Inr (replay app s (take i h))"
    using assms(1) split unfolding undoable_def by blast
  moreover have "replay app s (take (Suc i) h) = run app (replay app s (take i h)) (updsArgs (h ! i))"
    using Suc.prems by (simp add: take_Suc_conv_app_nth replay_append)
  ultimately show ?case using Suc by simp
qed simp

text \<open>
  After the first loop no remaining entry is at or below the target, so the second loop never
  re-applies anything: it drops concurrent entries up to the first higher one.
\<close>

definition not_higher :: "ClockSiTimestamp \<Rightarrow> ('op, 'e) History \<Rightarrow> bool" where
  "not_higher target e \<longleftrightarrow> Compare (h_ts e) (Some target) \<noteq> HigherTs"

lemma not_le_Compare:
  "\<not> IsLowerOrEqual a (Some b) \<Longrightarrow> Compare a (Some b) = HigherTs \<or> Compare a (Some b) = ConcurrentTs"
  by (auto simp: clk_eqs)

lemma redo_from_skip:
  assumes "\<forall>e \<in> set post. \<not> IsLowerOrEqual (h_ts e) (Some target)"
  shows "redo_from f target (pre @ post) (length pre) s =
    (case dropWhile (not_higher target) post of
       [] \<Rightarrow> Inl IndexOutOfRange | e # es \<Rightarrow> Inr (pre @ [e], s))"
  using assms
proof (induction post)
  case Nil
  then show ?case by (simp add: redo_from.simps)
next
  case (Cons e post)
  then have c: "Compare (h_ts e) (Some target) = HigherTs \<or> Compare (h_ts e) (Some target) = ConcurrentTs"
    by (simp add: not_le_Compare)
  then have "not_higher target e \<longleftrightarrow> Compare (h_ts e) (Some target) = ConcurrentTs"
    by (auto simp: not_higher_def)
  with c Cons show ?case
    by (subst redo_from.simps) auto
qed

definition rebuilt ::
    "('s \<Rightarrow> 'op \<Rightarrow> 's \<times> 'e) \<Rightarrow> 's \<Rightarrow> ClockSiTimestamp \<Rightarrow> ('op, 'e) History list
       \<Rightarrow> (('op, 'e) History list \<times> 's) go" where
  "rebuilt app s target h =
     (let n = cut_index target h (length h)
      in if n = length h then Inr (h, replay app s h)
         else case dropWhile (not_higher target) (drop n h) of
                [] \<Rightarrow> Inl IndexOutOfRange
              | e # es \<Rightarrow> Inr (take n h @ [e], replay app s (take n h)))"

lemma rebuild_rebuilt:
  assumes "undoable app undo s h"
  shows "rebuildCRDTToVersion False undo reapply (\<lambda>t s. Inr s) target h (replay app s h) = rebuilt app s target h"
proof -
  let ?n = "cut_index target h (length h)"
  have u: "undo_from undo target h (length h) (replay app s h) = Inr (?n, replay app s (take ?n h))"
    using undo_from_cut [OF assms, of "length h"] by simp
  have "\<forall>e \<in> set (drop ?n h). \<not> IsLowerOrEqual (h_ts e) (Some target)"
    using cut_above [of _ "length h" target h] by (auto simp: in_set_conv_nth)
  from redo_from_skip [OF this, of reapply "take ?n h" "replay app s (take ?n h)"]
  have r: "redo_from reapply target h ?n (replay app s (take ?n h)) =
      (case dropWhile (not_higher target) (drop ?n h) of
         [] \<Rightarrow> Inl IndexOutOfRange | e # es \<Rightarrow> Inr (take ?n h @ [e], replay app s (take ?n h)))"
    using cut_le [of target h "length h"] by (simp add: min_absorb2)
  show ?thesis
    by (auto simp: rebuildCRDTToVersion_def rebuilt_def Let_def u r split: list.split)
qed

text \<open>On an increasing history the cut separates the visible updates from the later ones.\<close>

definition increasing :: "('op, 'e) History list \<Rightarrow> bool" where
  "increasing h \<longleftrightarrow> sorted_wrt (\<lambda>a b. wf_map (h_ts a) \<and> same_ids (h_ts a) (h_ts b)
     \<and> IsLowerOrEqual (h_ts a) (Some (h_ts b))) h"

lemma IsLowerOrEqual_le_clk:
  "wf_map a \<Longrightarrow> same_ids a b \<Longrightarrow> IsLowerOrEqual a (Some b) \<longleftrightarrow> le_clk a b"
  by (simp add: IsLowerOrEqual_eq some_above_iff)

lemma IsLowerOrEqual_trans:
  assumes "wf_map a" "same_ids a b" "IsLowerOrEqual a (Some b)"
    and "wf_map b" "same_ids b c" "IsLowerOrEqual b (Some c)"
  shows "IsLowerOrEqual a (Some c)"
proof -
  have "same_ids a c" using assms by (simp add: same_ids_def)
  then show ?thesis
    using assms le_clk_trans [of a b c] by (simp add: IsLowerOrEqual_le_clk)
qed

lemma cut_increasing:
  assumes "increasing h" and "\<forall>e \<in> set h. wf_map (h_ts e) \<and> same_ids (h_ts e) target"
    and "n \<le> length h"
  shows "take (cut_index target h n) h = filter (\<lambda>e. IsLowerOrEqual (h_ts e) (Some target)) (take n h)"
  using assms(3)
proof (induction n)
  case (Suc i)
  have tk: "take (Suc i) h = take i h @ [h ! i]" using Suc.prems by (simp add: take_Suc_conv_app_nth)
  show ?case
  proof (cases "IsLowerOrEqual (h_ts (h ! i)) (Some target)")
    case True
    have "IsLowerOrEqual (h_ts e) (Some target)" if "e \<in> set (take i h)" for e
    proof -
      from that Suc.prems obtain j where j: "j < i" "e = h ! j" by (auto simp: in_set_conv_nth)
      with assms(1) Suc.prems have "wf_map (h_ts e) \<and> same_ids (h_ts e) (h_ts (h ! i))
          \<and> IsLowerOrEqual (h_ts e) (Some (h_ts (h ! i)))"
        unfolding increasing_def by (auto dest!: sorted_wrt_nth_less [of _ h j i])
      with True assms(2) Suc.prems show ?thesis
        by (intro IsLowerOrEqual_trans [of "h_ts e" "h_ts (h ! i)" target]) auto
    qed
    then have "filter (\<lambda>e. IsLowerOrEqual (h_ts e) (Some target)) (take i h) = take i h"
      by (simp add: filter_id_conv)
    with True show ?thesis by (simp add: tk)
  next
    case False
    with Suc tk show ?thesis by simp
  qed
qed simp

section \<open>Garbage collection\<close>

lemma GC_startIndex_le: "GC_startIndex safeClk h n \<le> n"
  by (induction n) auto

lemma GC_startIndex_at:
  "GC_startIndex safeClk h n \<noteq> 0 \<Longrightarrow>
     GC_startIndex safeClk h n < n \<and> IsLowerOrEqual (h_ts (h ! GC_startIndex safeClk h n)) (Some safeClk)"
  by (induction n) (auto split: if_splits)

lemma GC_history_drop: "GC_history safeClk h = drop (GC_startIndex safeClk h (length h)) h"
  using GC_startIndex_le [of safeClk h "length h"] by (simp add: GC_history_def Let_def)

text \<open>The loops on a history whose first \<open>k\<close> entries are gone.\<close>

lemma undo_from_drop:
  assumes "IsLowerOrEqual (h_ts (h ! k)) (Some target)" and "k < n" and "n \<le> length h"
  shows "undo_from undo target (drop k h) (n - k) s =
      gbind (undo_from undo target h n s) (\<lambda>r. Inr (fst r - k, snd r))
    \<and> (\<forall>i s'. undo_from undo target h n s = Inr (i, s') \<longrightarrow> k < i \<and> i \<le> n)"
  using assms(2,3)
proof (induction n arbitrary: s)
  case (Suc i)
  have sub: "Suc i - k = Suc (i - k)" using Suc.prems by simp
  have nth: "drop k h ! (i - k) = h ! i" using Suc.prems by simp
  show ?case
  proof (cases "IsLowerOrEqual (h_ts (h ! i)) (Some target)")
    case True
    with Suc.prems show ?thesis by (simp add: sub nth)
  next
    case False
    with assms(1) have "i \<noteq> k" by auto
    with Suc.prems have ki: "k < i" "i \<le> length h" by auto
    show ?thesis
    proof (cases "gfold undo s (effects (h ! i))")
      case (Inl p)
      with False show ?thesis by (simp add: sub nth)
    next
      case (Inr s')
      with False Suc.IH [OF ki, of s'] show ?thesis by (auto simp: sub nth le_SucI)
    qed
  qed
qed simp

lemma redo_from_drop:
  "k \<le> i \<Longrightarrow> i \<le> length h \<Longrightarrow> redo_from f target (drop k h) (i - k) s =
     gbind (redo_from f target h i s) (\<lambda>r. Inr (drop k (fst r), snd r))"
proof (induction f target h i s rule: redo_from.induct)
  case (1 f target h i s)
  show ?case
  proof (cases "length h \<le> i")
    case True
    then have "length (drop k h) \<le> i - k" by (simp add: diff_le_mono)
    with True show ?thesis
      by (simp add: redo_from.simps [of f target h i s] redo_from.simps [of f target "drop k h"])
  next
    case False
    with "1.prems" have nth: "drop k h ! (i - k) = h ! i" and lt: "\<not> length (drop k h) \<le> i - k" by auto
    have sub: "Suc (i - k) = Suc i - k" using "1.prems" by simp
    have tk: "take (Suc i - k) (drop k g) = drop k (take (Suc i) g)" for g :: "('a, 'b) History list"
      by (simp add: take_drop "1.prems" le_SucI)
    let ?step = "reapply_entry f 0 s (updsArgs (h ! i)) (effects (h ! i))"
    have upd: "(drop k h)[i - k := x] = drop k (h[i := x])" for x
      using "1.prems" by (simp add: drop_update_swap)
    show ?thesis
    proof (cases "Compare (h_ts (h ! i)) (Some target)")
      case HigherTs
      then show ?thesis using False lt
        by (simp add: redo_from.simps [of f target h i s] redo_from.simps [of f target "drop k h"] nth sub tk)
    next
      case ConcurrentTs
      have "take (i - k) (drop k h) @ drop (Suc (i - k)) (drop k h) = drop k (take i h @ drop (Suc i) h)"
        using "1.prems" False by (simp add: take_drop min_def sub add.commute)
      moreover have "redo_from f target (drop k (take i h @ drop (Suc i) h)) (i - k) s =
          gbind (redo_from f target (take i h @ drop (Suc i) h) i s) (\<lambda>r. Inr (drop k (fst r), snd r))"
        using False ConcurrentTs "1.prems" by (intro "1.IH"(3)) auto
      ultimately show ?thesis using ConcurrentTs False lt
        by (simp add: redo_from.simps [of f target h i s] redo_from.simps [of f target "drop k h"] nth)
    next
      case EqualTs
      then show ?thesis using False lt
        by (simp add: redo_from.simps [of f target h i s] redo_from.simps [of f target "drop k h"] nth sub)
          (cases ?step; auto simp: Let_def upd tk nth)
    next
      case LowerTs
      have "redo_from f target (drop k (h[i := (h ! i)\<lparr>effects := effs\<rparr>])) (Suc i - k) s' =
          gbind (redo_from f target (h[i := (h ! i)\<lparr>effects := effs\<rparr>]) (Suc i) s')
            (\<lambda>r. Inr (drop k (fst r), snd r))" for s' effs
        using False LowerTs "1.prems" by (intro "1.IH"(2)) auto
      then show ?thesis using LowerTs False lt
        by (simp add: redo_from.simps [of f target h i s] redo_from.simps [of f target "drop k h"] nth sub)
          (cases ?step; auto simp: Let_def upd)
    qed
  qed
qed

lemma GC_rebuild:
  assumes "\<forall>e \<in> set h. wf_map (h_ts e) \<and> same_ids (h_ts e) safeClk"
    and "wf_map safeClk" and "same_ids safeClk target" and "IsLowerOrEqual safeClk (Some target)"
  shows "rebuildCRDTToVersion dis undo reapply notify target (GC_history safeClk h) s =
    gbind (rebuildCRDTToVersion dis undo reapply notify target h s)
      (\<lambda>r. Inr (drop (length h - length (GC_history safeClk h)) (fst r), snd r))"
proof -
  define k where "k = GC_startIndex safeClk h (length h)"
  have gc: "GC_history safeClk h = drop k h" by (simp add: GC_history_drop k_def)
  have kl: "k \<le> length h" unfolding k_def by (rule GC_startIndex_le)
  have "rebuildCRDTToVersion dis undo reapply notify target (drop k h) s =
    gbind (rebuildCRDTToVersion dis undo reapply notify target h s) (\<lambda>r. Inr (drop k (fst r), snd r))"
  proof (cases "k = 0 \<or> dis")
    case True
    then show ?thesis
    proof
      assume "k = 0"
      then show ?thesis by simp
    next
      assume dis
      then show ?thesis by (simp add: rebuildCRDTToVersion_def)
    qed
  next
    case False
    then have k: "k < length h" "IsLowerOrEqual (h_ts (h ! k)) (Some safeClk)"
      using GC_startIndex_at [of safeClk h "length h"] by (auto simp: k_def)
    then have "h ! k \<in> set h" by simp
    with assms k(2) have le: "IsLowerOrEqual (h_ts (h ! k)) (Some target)"
      by (intro IsLowerOrEqual_trans [of "h_ts (h ! k)" safeClk target]) auto
    note u = undo_from_drop [OF le k(1) order_refl, of undo s]
    have ne: "h \<noteq> []" "drop k h \<noteq> []" using k(1) by auto
    show ?thesis
    proof (cases "undo_from undo target h (length h) s")
      case (Inl p)
      with u ne False show ?thesis by (simp add: rebuildCRDTToVersion_def)
    next
      case (Inr r)
      obtain i s1 where r: "r = (i, s1)" by (cases r)
      with u Inr have i: "k < i" "i \<le> length h" by auto
      from i have last: "i - k = length h - k \<longleftrightarrow> i = length h" by auto
      from redo_from_drop [of k i h reapply target s1] i
      have "redo_from reapply target (drop k h) (i - k) s1 =
          gbind (redo_from reapply target h i s1) (\<lambda>r. Inr (drop k (fst r), snd r))" by simp
      with u Inr ne False i show ?thesis
        by (cases "redo_from reapply target h i s1")
          (auto simp: rebuildCRDTToVersion_def r last gbind_def split: sum.split)
    qed
  qed
  then show ?thesis using kl by (simp add: gc)
qed

text \<open>
  C7. Garbage collection is safe for every version that can still be asked for: rebuilding a
  version at or above the safe clock from the collected history gives the same state, the same
  panic and the same remaining history (less the collected entries) as from the full one,
  whatever the CRDT's undo and re-apply functions are.
\<close>

theorem GC_preserves_rebuild:
  assumes "\<forall>e \<in> set h. wf_map (h_ts e) \<and> same_ids (h_ts e) safeClk"
    and "wf_map safeClk" and "same_ids safeClk target" and "IsLowerOrEqual safeClk (Some target)"
  shows "rebuildCRDTToVersion dis undo reapply notify target (GC_history safeClk h) s =
    gbind (rebuildCRDTToVersion dis undo reapply notify target h s)
      (\<lambda>r. Inr (drop (length h - length (GC_history safeClk h)) (fst r), snd r))"
  using assms by (rule GC_rebuild)

text \<open>A witness: three updates, the first two collected, a version between the last two read.\<close>

theorem GC_preserves_rebuild_witness:
  "rebuildCRDTToVersion False (\<lambda>s e. Inr (s - e)) (\<lambda>s u. Inr (s + u, u)) (\<lambda>t s. Inr s) [(1, 4)]
     (GC_history [(1, 3)]
        [\<lparr>h_ts = [(1, 1)], updsArgs = [10], effects = [10]\<rparr>, \<lparr>h_ts = [(1, 3)], updsArgs = [20], effects = [20]\<rparr>,
         \<lparr>h_ts = [(1, 5)], updsArgs = [30], effects = [30 :: int]\<rparr>]) (60 :: int)
   = Inr ([\<lparr>h_ts = [(1, 3)], updsArgs = [20], effects = [20]\<rparr>, \<lparr>h_ts = [(1, 5)], updsArgs = [30], effects = [30]\<rparr>], 30)"
proof -
  let ?h = "[\<lparr>h_ts = [(1, 1)], updsArgs = [10 :: int], effects = [10 :: int]\<rparr>, \<lparr>h_ts = [(1, 3)], updsArgs = [20], effects = [20]\<rparr>,
         \<lparr>h_ts = [(1, 5)], updsArgs = [30], effects = [30]\<rparr>]"
  have gc: "length ?h - length (GC_history [(1, 3)] ?h) = 1"
    by (simp add: GC_history_drop IsLowerOrEqual_def vget_def eval_nat_numeral)
  have "rebuildCRDTToVersion False (\<lambda>s e. Inr (s - e)) (\<lambda>s u. Inr (s + u, u)) (\<lambda>t s. Inr s) [(1, 4)] ?h 60
      = Inr (?h, 30)"
    by (simp add: rebuildCRDTToVersion_def redo_from.simps IsLowerOrEqual_def Compare_def vget_def eval_nat_numeral)
  then show ?thesis
    using GC_preserves_rebuild [of ?h "[(1, 3)]" "[(1, 4)]" False "\<lambda>s e. Inr (s - e)"
        "\<lambda>s u. Inr (s + u, u)" "\<lambda>t s. Inr s" 60]
    unfolding gc by (simp add: wf_map_def same_ids_def IsLowerOrEqual_def vget_def)
qed

section \<open>Deliveries\<close>

text \<open>A CRDT's life so far: the downstream operations it applied, each with its commit clock.\<close>

primrec deliver_all ::
    "bool \<Rightarrow> ('s \<Rightarrow> 'op \<Rightarrow> 's \<times> 'e) \<Rightarrow> ('op, 'e) History list \<times> 's \<Rightarrow> (ClockSiTimestamp \<times> 'op) list
       \<Rightarrow> ('op, 'e) History list \<times> 's" where
  "deliver_all vmDisabled app c [] = c"
| "deliver_all vmDisabled app c (d # ds) =
     deliver_all vmDisabled app (downstream_step vmDisabled app c (fst d) (snd d)) ds"

lemma replay_run: "replay app s h = run app s (concat (map updsArgs h))"
  by (induction h arbitrary: s) (auto simp: run_append)

lemma addToHistory_ops:
  "concat (map updsArgs (addToHistory False h t u e)) = concat (map updsArgs h) @ [u]"
proof (cases "h = []")
  case False
  then obtain g x where "h = g @ [x]" by (metis rev_exhaust)
  then show ?thesis by (simp add: addToHistory_def)
qed (simp add: addToHistory_def)

lemma deliver_all_recorded_gen:
  "recorded app ok s0 h \<Longrightarrow> run_ok app ok (replay app s0 h) (map snd ds) \<Longrightarrow>
     deliver_all False app (h, replay app s0 h) ds = (h', s') \<Longrightarrow>
     recorded app ok s0 h' \<and> s' = replay app s0 h'
     \<and> concat (map updsArgs h') = concat (map updsArgs h) @ map snd ds"
proof (induction ds arbitrary: h)
  case (Cons d ds)
  obtain h1 s1 where step: "downstream_step False app (h, replay app s0 h) (fst d) (snd d) = (h1, s1)"
    by (metis surj_pair)
  have r: "recorded app ok s0 h1" "s1 = replay app s0 h1"
    using downstream_step_recorded [OF Cons.prems(1) _ step] Cons.prems(2) by auto
  have s1: "s1 = fst (app (replay app s0 h) (snd d))"
    and h1: "concat (map updsArgs h1) = concat (map updsArgs h) @ [snd d]"
    using step by (auto simp: downstream_step_def addToHistory_ops)
  show ?case
    using Cons.IH [OF r(1)] Cons.prems(2,3) step r(2) s1 h1 by auto
qed simp

lemma deliver_all_recorded:
  assumes "deliver_all False app ([], s0) ds = (h, s)" and "run_ok app ok s0 (map snd ds)"
  shows "recorded app ok s0 h" and "s = replay app s0 h" and "s = run app s0 (map snd ds)"
  using deliver_all_recorded_gen [of app ok s0 "[]" ds h s] assms by (auto simp: replay_run)

text \<open>
  The version that a rebuild should return: the state after the recorded updates at or below
  the target, in their order.
\<close>

definition version_at ::
    "('s \<Rightarrow> 'op \<Rightarrow> 's \<times> 'e) \<Rightarrow> 's \<Rightarrow> ClockSiTimestamp \<Rightarrow> ('op, 'e) History list \<Rightarrow> 's" where
  "version_at app s target h =
     run app s (concat (map updsArgs (filter (\<lambda>e. IsLowerOrEqual (h_ts e) (Some target)) h)))"

text \<open>Clocks of one partition: increasing, all of the same replicas, none concurrent to the target.\<close>

definition ordered_history :: "ClockSiTimestamp \<Rightarrow> ('op, 'e) History list \<Rightarrow> bool" where
  "ordered_history target h \<longleftrightarrow> increasing h \<and> (\<forall>e \<in> set h. wf_map (h_ts e) \<and> same_ids (h_ts e) target
     \<and> Compare (h_ts e) (Some target) \<noteq> ConcurrentTs)"

lemma rebuilt_ordered:
  assumes "ordered_history target h"
  shows "\<exists>h'. rebuilt app s target h = Inr (h', version_at app s target h)"
proof -
  let ?n = "cut_index target h (length h)"
  have "take ?n h = filter (\<lambda>e. IsLowerOrEqual (h_ts e) (Some target)) h"
    using assms cut_increasing [of h target "length h"] by (simp add: ordered_history_def)
  then have v: "replay app s (take ?n h) = version_at app s target h"
    by (simp add: replay_run version_at_def)
  show ?thesis
  proof (cases "?n = length h")
    case True
    then show ?thesis using v by (simp add: rebuilt_def)
  next
    case False
    then have lt: "?n < length h" using cut_le [of target h "length h"] by simp
    then have "\<not> IsLowerOrEqual (h_ts (h ! ?n)) (Some target)"
      by (rule cut_above) simp
    then have "Compare (h_ts (h ! ?n)) (Some target) = HigherTs \<or> Compare (h_ts (h ! ?n)) (Some target) = ConcurrentTs"
      by (rule not_le_Compare)
    moreover have "Compare (h_ts (h ! ?n)) (Some target) \<noteq> ConcurrentTs"
      using assms nth_mem [OF lt] unfolding ordered_history_def by blast
    ultimately have "\<not> not_higher target (h ! ?n)" by (simp add: not_higher_def)
    moreover have "drop ?n h = h ! ?n # drop (Suc ?n) h" using lt by (simp add: Cons_nth_drop_Suc)
    ultimately show ?thesis using False v by (simp add: rebuilt_def Let_def)
  qed
qed

context commuting_undo
begin

lemma rebuild_version:
  assumes "deliver_all False app ([], s0) ds = (h, s)" and "run_ok app ok s0 (map snd ds)"
    and "ordered_history target h"
  shows "\<exists>h'. rebuildCRDTToVersion False undo reapply (\<lambda>t s. Inr s) target h s
    = Inr (h', version_at app s0 target h)"
proof -
  have "recorded app ok s0 h" and s: "s = replay app s0 h"
    using deliver_all_recorded [OF assms(1,2)] by auto
  then have "undoable app undo s0 h" by (simp add: undoable_recorded)
  then show ?thesis using rebuilt_ordered [OF assms(3)] by (simp add: s rebuild_rebuilt)
qed

end

context inversible
begin

lemma rebuild_version_single:
  assumes "deliver_all False app ([], s0) ds = (h, s)" and "run_ok app ok s0 (map snd ds)"
    and "ordered_history target h" and "\<forall>e \<in> set h. length (updsArgs e) = 1"
  shows "\<exists>h'. rebuildCRDTToVersion False undo reapply (\<lambda>t s. Inr s) target h s
    = Inr (h', version_at app s0 target h)"
proof -
  have "recorded app ok s0 h" and s: "s = replay app s0 h"
    using deliver_all_recorded [OF assms(1,2)] by auto
  then have "undoable app undo s0 h" using assms(4) by (simp add: undoable_single)
  then show ?thesis using rebuilt_ordered [OF assms(3)] by (simp add: s rebuild_rebuilt)
qed

end

section \<open>Rebuilding a rebuilt version\<close>

text \<open>
  A rebuild that stops at a higher entry leaves that entry in the history although its updates
  are not applied. A second rebuild of the result undoes them nevertheless.
\<close>

lemma gbind_assoc: "gbind (gbind m f) g = gbind m (\<lambda>x. gbind (f x) g)"
  by (cases m) auto

context commuting_undo
begin

lemma gfold_gfold_commute:
  "gbind (gfold undo s es) (\<lambda>x. gfold undo x fs) = gbind (gfold undo s fs) (\<lambda>x. gfold undo x es)"
proof (induction es arbitrary: s)
  case (Cons e es)
  have "gbind (gfold undo s (e # es)) (\<lambda>x. gfold undo x fs) = gbind (undo s e) (\<lambda>x. gbind (gfold undo x fs) (\<lambda>y. gfold undo y es))"
    by (simp add: gbind_assoc Cons)
  also have "\<dots> = gbind (gbind (undo s e) (\<lambda>x. gfold undo x fs)) (\<lambda>y. gfold undo y es)" by (simp add: gbind_assoc)
  also have "\<dots> = gbind (gfold undo s fs) (\<lambda>x. gfold undo x (e # es))"
    by (simp add: gfold_undo_commute gbind_assoc)
  finally show ?case .
qed simp

lemma undo_from_shift:
  "gbind (gfold undo x es) (undo_from undo target h n) =
     gbind (undo_from undo target h n x) (\<lambda>r. gbind (gfold undo (snd r) es) (\<lambda>s. Inr (fst r, s)))"
proof (induction n arbitrary: x)
  case 0
  have "undo_from undo target h 0 = (\<lambda>s. Inr (0, s))" by (simp add: fun_eq_iff)
  then show ?case by simp
next
  case (Suc i)
  show ?case
  proof (cases "IsLowerOrEqual (h_ts (h ! i)) (Some target)")
    case True
    then have "undo_from undo target h (Suc i) = (\<lambda>s. Inr (Suc i, s))" by (simp add: fun_eq_iff)
    then show ?thesis by simp
  next
    case False
    let ?fs = "effects (h ! i)"
    have step: "undo_from undo target h (Suc i) = (\<lambda>y. gbind (gfold undo y ?fs) (undo_from undo target h i))"
      using False by (simp add: fun_eq_iff)
    have "gbind (gfold undo x es) (undo_from undo target h (Suc i)) =
        gbind (gbind (gfold undo x es) (\<lambda>y. gfold undo y ?fs)) (undo_from undo target h i)"
      unfolding step by (simp add: gbind_assoc)
    also have "\<dots> = gbind (gfold undo x ?fs) (\<lambda>y. gbind (gfold undo y es) (undo_from undo target h i))"
      by (subst gfold_gfold_commute) (simp add: gbind_assoc)
    also have "\<dots> = gbind (undo_from undo target h (Suc i) x) (\<lambda>r. gbind (gfold undo (snd r) es) (\<lambda>s. Inr (fst r, s)))"
      using False by (simp add: Suc gbind_assoc)
    finally show ?thesis .
  qed
qed

end

lemma undo_from_cong:
  "(\<And>i. i < n \<Longrightarrow> h ! i = h' ! i) \<Longrightarrow> undo_from undo target h n s = undo_from undo target h' n s"
proof (induction n arbitrary: s)
  case (Suc i)
  have "h ! i = h' ! i" using Suc.prems by simp
  moreover have "undo_from undo target h i = undo_from undo target h' i"
    by (rule ext, rule Suc.IH) (use Suc.prems in auto)
  ultimately show ?case by simp
qed simp

lemma ordered_cut_Higher:
  assumes "ordered_history target h" and "i < length h" and "\<not> IsLowerOrEqual (h_ts (h ! i)) (Some target)"
  shows "Compare (h_ts (h ! i)) (Some target) = HigherTs"
  using assms(1) not_le_Compare [OF assms(3)] nth_mem [OF assms(2)] unfolding ordered_history_def by blast

lemma cut_last: "h \<noteq> [] \<Longrightarrow> \<not> IsLowerOrEqual (h_ts (last h)) (Some target) \<Longrightarrow> cut_index target h (length h) < length h"
  using cut_le [of target h "length h - 1"] by (cases "length h") (auto simp: last_conv_nth)

text \<open>The first entry above the target, kept in the history without being applied.\<close>

definition first_above :: "ClockSiTimestamp \<Rightarrow> ('op, 'e) History list \<Rightarrow> ('op, 'e) History" where
  "first_above target h = h ! cut_index target h (length h)"

lemma version_take_cut:
  assumes "ordered_history target h" and "n \<le> length h"
    and "\<forall>i. n \<le> i \<and> i < length h \<longrightarrow> \<not> IsLowerOrEqual (h_ts (h ! i)) (Some target)"
  shows "replay app s (take (cut_index target h n) h) = version_at app s target h"
proof -
  have "take (cut_index target h n) h = filter (\<lambda>e. IsLowerOrEqual (h_ts e) (Some target)) (take n h)"
    using assms(1,2) by (intro cut_increasing) (simp_all add: ordered_history_def)
  moreover have "filter (\<lambda>e. IsLowerOrEqual (h_ts e) (Some target)) (drop n h) = []"
    using assms(3) by (auto simp: filter_empty_conv in_set_conv_nth)
  then have "filter (\<lambda>e. IsLowerOrEqual (h_ts e) (Some target)) h
      = filter (\<lambda>e. IsLowerOrEqual (h_ts e) (Some target)) (take n h)"
    by (metis append_Nil2 append_take_drop_id filter_append)
  ultimately show ?thesis by (simp add: replay_run version_at_def)
qed

context commuting_undo
begin

lemma rebuild_again:
  assumes "recorded app ok s0 h" and "ordered_history t1 h" and "ordered_history t2 h"
    and "wf_map t2" and "same_ids t2 t1" and "IsLowerOrEqual t2 (Some t1)"
    and "cut_index t1 h (length h) < length h"
  shows "rebuildCRDTToVersion False undo reapply (\<lambda>t s. Inr s) t1 h (replay app s0 h)
      = Inr (take (Suc (cut_index t1 h (length h))) h, version_at app s0 t1 h)"
    and "\<exists>h'. rebuildCRDTToVersion False undo reapply (\<lambda>t s. Inr s) t2
        (take (Suc (cut_index t1 h (length h))) h) (version_at app s0 t1 h)
      = gbind (gfold undo (version_at app s0 t2 h) (effects (first_above t1 h))) (\<lambda>s. Inr (h', s))"
proof -
  define n where "n = cut_index t1 h (length h)"
  define m where "m = cut_index t2 h n"
  define h1 where "h1 = take (Suc n) h"
  have n: "n < length h" using assms(7) by (simp add: n_def)
  have above: "\<not> IsLowerOrEqual (h_ts (h ! i)) (Some t1)" if "n \<le> i" "i < length h" for i
    using that cut_above [of i "length h" t1 h] by (simp add: n_def)
  have above2: "\<not> IsLowerOrEqual (h_ts (h ! i)) (Some t2)" if "n \<le> i" "i < length h" for i
  proof
    assume "IsLowerOrEqual (h_ts (h ! i)) (Some t2)"
    moreover have "wf_map (h_ts (h ! i))" "same_ids (h_ts (h ! i)) t2"
      using assms(3) nth_mem [OF that(2)] by (auto simp: ordered_history_def)
    ultimately show False using above [OF that] IsLowerOrEqual_trans assms(4-6) by blast
  qed
  have v1: "replay app s0 (take n h) = version_at app s0 t1 h"
    unfolding n_def by (rule version_take_cut [OF assms(2)]) auto
  have v2: "replay app s0 (take m h) = version_at app s0 t2 h"
    unfolding m_def using above2 n by (intro version_take_cut [OF assms(3)]) auto
  have u: "undoable app undo s0 h" using assms(1) by (rule undoable_recorded)
  have c1: "Compare (h_ts (h ! n)) (Some t1) = HigherTs"
    using above n by (intro ordered_cut_Higher [OF assms(2)]) auto
  have "undo_from undo t1 h (length h) (replay app s0 h) = Inr (n, replay app s0 (take n h))"
    using undo_from_cut [OF u, of "length h" t1] by (simp add: n_def)
  then show "rebuildCRDTToVersion False undo reapply (\<lambda>t s. Inr s) t1 h (replay app s0 h)
      = Inr (take (Suc (cut_index t1 h (length h))) h, version_at app s0 t1 h)"
    using n c1 v1 by (auto simp: rebuildCRDTToVersion_def n_def [symmetric] redo_from.simps)
  have len: "length h1 = Suc n" using n by (simp add: h1_def)
  have h1: "h1 ! i = h ! i" if "i \<le> n" for i using that by (simp add: h1_def)
  have ml: "m \<le> n" unfolding m_def by (rule cut_le)
  have "\<not> IsLowerOrEqual (h_ts (h ! m)) (Some t2)"
    using cut_above [of m n t2 h] above2 [of m] n ml by (cases "m = n") (auto simp: m_def)
  then have c2: "Compare (h_ts (h1 ! m)) (Some t2) = HigherTs"
    using ordered_cut_Higher [OF assms(3), of m] n ml h1 [of m] by simp
  have "undo_from undo t2 h1 n (version_at app s0 t1 h) = undo_from undo t2 h n (replay app s0 (take n h))"
    unfolding v1 by (rule undo_from_cong) (simp add: h1)
  also have "\<dots> = Inr (m, version_at app s0 t2 h)"
    using undo_from_cut [OF u, of n t2] n by (simp add: m_def [symmetric] v2)
  finally have "undo_from undo t2 h1 (length h1) (version_at app s0 t1 h)
      = gbind (gfold undo (version_at app s0 t2 h) (effects (first_above t1 h))) (\<lambda>s. Inr (m, s))"
    using undo_from_shift [of "version_at app s0 t1 h" "effects (h ! n)" t2 h1 n] above2 [of n] n
    by (simp add: h1 len first_above_def n_def [symmetric])
  then have "rebuildCRDTToVersion False undo reapply (\<lambda>t s. Inr s) t2 h1 (version_at app s0 t1 h)
      = gbind (gfold undo (version_at app s0 t2 h) (effects (first_above t1 h))) (\<lambda>s. Inr (take (Suc m) h1, s))"
    using n ml c2 len by (auto simp: rebuildCRDTToVersion_def gbind_assoc redo_from.simps)
  then show "\<exists>h'. rebuildCRDTToVersion False undo reapply (\<lambda>t s. Inr s) t2
        (take (Suc (cut_index t1 h (length h))) h) (version_at app s0 t1 h)
      = gbind (gfold undo (version_at app s0 t2 h) (effects (first_above t1 h))) (\<lambda>s. Inr (h', s))"
    unfolding h1_def n_def by blast
qed

end

section \<open>Objects and method values\<close>

text \<open>
  \<open>Initialize\<close> of every CRDT stores the method values \<open>crdt.undoEffect\<close> and
  \<open>crdt.reapplyOp\<close> of its receiver in the new object's version metadata, and \<open>Copy\<close>
  copies them. A method value is bound to one object, so the store of objects is explicit:
  an object is a state and its metadata, which names the bound object by its address.
\<close>

record ('op, 'e) CRDTVM =
  vm_history :: "('op, 'e) History list"
  vm_bound :: nat

type_synonym ('s, 'op, 'e) store = "nat \<Rightarrow> 's \<times> ('op, 'e) CRDTVM"

text \<open>\<open>(&X{}).Initialize\<close>: the receiver is a zero object at \<open>recv\<close>, the result is new at \<open>new\<close>.\<close>

definition obj_Initialize ::
    "'s \<Rightarrow> 's \<Rightarrow> nat \<Rightarrow> nat \<Rightarrow> ('s, 'op, 'e) store \<Rightarrow> ('s, 'op, 'e) store" where
  "obj_Initialize zero init recv new st =
     st(recv := (zero, \<lparr>vm_history = [], vm_bound = recv\<rparr>),
        new := (init, \<lparr>vm_history = [], vm_bound = recv\<rparr>))"

text \<open>\<open>initializeFromSnapshot\<close> binds the methods of the object itself.\<close>

definition obj_initializeFromSnapshot ::
    "'s \<Rightarrow> nat \<Rightarrow> ('s, 'op, 'e) store \<Rightarrow> ('s, 'op, 'e) store" where
  "obj_initializeFromSnapshot s0 a st = st(a := (s0, \<lparr>vm_history = [], vm_bound = a\<rparr>))"

definition obj_Downstream ::
    "bool \<Rightarrow> ('s \<Rightarrow> 'op \<Rightarrow> 's \<times> 'e) \<Rightarrow> nat \<Rightarrow> ClockSiTimestamp \<Rightarrow> 'op
       \<Rightarrow> ('s, 'op, 'e) store \<Rightarrow> ('s, 'op, 'e) store" where
  "obj_Downstream vmDisabled app a t u st = (case st a of (s, vm) \<Rightarrow>
     (case downstream_step vmDisabled app (vm_history vm, s) t u of (h', s') \<Rightarrow>
        st(a := (s', vm\<lparr>vm_history := h'\<rparr>))))"

definition obj_Copy :: "nat \<Rightarrow> nat \<Rightarrow> ('s, 'op, 'e) store \<Rightarrow> ('s, 'op, 'e) store" where
  "obj_Copy a new st = st(new := st a)"

text \<open>
  \<open>RebuildCRDTToVersion\<close> of the object at \<open>a\<close>: its history is read and cut, the state
  that the stored functions change is that of the bound object.
\<close>

definition obj_RebuildCRDTToVersion ::
    "bool \<Rightarrow> ('s \<Rightarrow> 'e \<Rightarrow> 's go) \<Rightarrow> ('s \<Rightarrow> 'op \<Rightarrow> ('s \<times> 'e) go) \<Rightarrow> ClockSiTimestamp \<Rightarrow> nat
       \<Rightarrow> ('s, 'op, 'e) store \<Rightarrow> ('s, 'op, 'e) store go" where
  "obj_RebuildCRDTToVersion vmDisabled undo reapply target a st =
     (let vm = snd (st a); b = vm_bound vm
      in gbind (rebuildCRDTToVersion vmDisabled undo reapply (\<lambda>t s. Inr s) target (vm_history vm) (fst (st b)))
           (\<lambda>r. case r of (h', s') \<Rightarrow>
              let st1 = st(b := (s', snd (st b)))
              in Inr (st1(a := (fst (st1 a), (snd (st1 a))\<lparr>vm_history := h'\<rparr>)))))"

lemma obj_Rebuild_unbound:
  "obj_RebuildCRDTToVersion dis undo reapply target a st = Inr st' \<Longrightarrow> vm_bound (snd (st a)) \<noteq> a \<Longrightarrow>
     fst (st' a) = fst (st a)"
  by (auto simp: obj_RebuildCRDTToVersion_def Let_def gbind_eq_Inr)

lemma obj_Rebuild_bound:
  assumes "vm_bound (snd (st a)) = a"
    and "rebuildCRDTToVersion dis undo reapply (\<lambda>t s. Inr s) target (vm_history (snd (st a))) (fst (st a)) = Inr (h', s')"
  shows "obj_RebuildCRDTToVersion dis undo reapply target a st
    = Inr (st(a := (s', (snd (st a))\<lparr>vm_history := h'\<rparr>)))"
  using assms by (simp add: obj_RebuildCRDTToVersion_def Let_def)

lemma obj_Downstream_bound [simp]:
  "vm_bound (snd (obj_Downstream dis app a t u st b)) = vm_bound (snd (st b))"
  by (auto simp: obj_Downstream_def split: prod.split)

text \<open>Delivering to an object is delivering to its history and state.\<close>

lemma obj_Downstream_all:
  "foldl (\<lambda>st d. obj_Downstream dis app a (fst d) (snd d) st) st ds a
     = (snd (deliver_all dis app (vm_history (snd (st a)), fst (st a)) ds),
        (snd (st a))\<lparr>vm_history := fst (deliver_all dis app (vm_history (snd (st a)), fst (st a)) ds)\<rparr>)"
proof (induction ds arbitrary: st)
  case (Cons d ds)
  then show ?case by (simp add: obj_Downstream_def split: prod.split)
qed simp

end
