(* ===== verification/Convergence.thy ===== *)
theory Convergence
  imports Inversible
begin

text \<open>
  The contract of the operation-based CRDTs of \<^verbatim>\<open>crdt/crdt\<close>: \<open>Downstream\<close> delivers the
  operations of all replicas in an order that respects causality, and operations that are not
  causally related commute. The locale derives once that replicas that applied the same
  operations are in the same state; every CRDT discharges its law for its own
  \<open>applyDownstream\<close>.
\<close>

text \<open>
  \<open>before u v\<close>: \<open>v\<close> observed \<open>u\<close>, so every replica applies \<open>u\<close> first.
  \<open>coexist u v\<close>: the two operations can occur in one execution (their stamps differ, say).
\<close>

locale causal_ops =
  fixes app :: "'s \<Rightarrow> 'op \<Rightarrow> 's \<times> 'e"
    and before :: "'op \<Rightarrow> 'op \<Rightarrow> bool"
    and coexist :: "'op \<Rightarrow> 'op \<Rightarrow> bool"
  assumes concurrent_commute:
    "coexist u v \<Longrightarrow> \<not> before u v \<Longrightarrow> \<not> before v u \<Longrightarrow>
       fst (app (fst (app s u)) v) = fst (app (fst (app s v)) u)"

definition causal_order :: "('op \<Rightarrow> 'op \<Rightarrow> bool) \<Rightarrow> 'op list \<Rightarrow> bool" where
  "causal_order before us \<longleftrightarrow> sorted_wrt (\<lambda>u v. \<not> before v u) us"

definition all_coexist :: "('op \<Rightarrow> 'op \<Rightarrow> bool) \<Rightarrow> 'op list \<Rightarrow> bool" where
  "all_coexist coexist us \<longleftrightarrow> (\<forall>u \<in> set us. \<forall>v \<in> set us. u \<noteq> v \<longrightarrow> coexist u v)"

lemma causal_order_Cons:
  "causal_order before (u # us) \<longleftrightarrow> (\<forall>v \<in> set us. \<not> before v u) \<and> causal_order before us"
  by (simp add: causal_order_def)

lemma causal_order_append:
  "causal_order before (us @ vs) \<longleftrightarrow> causal_order before us \<and> causal_order before vs
     \<and> (\<forall>u \<in> set us. \<forall>v \<in> set vs. \<not> before v u)"
  by (simp add: causal_order_def sorted_wrt_append)

context causal_ops
begin

lemma run_pull_front:
  assumes "\<forall>v \<in> set p. (u = v \<or> coexist u v) \<and> \<not> before u v \<and> \<not> before v u"
  shows "run app s (p @ u # q) = run app s (u # p @ q)"
  using assms
proof (induction p arbitrary: s)
  case (Cons v p)
  have "fst (app (fst (app s v)) u) = fst (app (fst (app s u)) v)"
    using Cons.prems concurrent_commute [of u v s] by auto
  moreover have "run app (fst (app s v)) (p @ u # q) = run app (fst (app s v)) (u # p @ q)"
    using Cons by simp
  ultimately show ?case by simp
qed simp

lemma same_ops_same_state:
  "mset us = mset vs \<Longrightarrow> causal_order before us \<Longrightarrow> causal_order before vs \<Longrightarrow>
     all_coexist coexist us \<Longrightarrow> run app s us = run app s vs"
proof (induction us arbitrary: vs s)
  case (Cons u us)
  have "u \<in> set vs" using Cons.prems(1) by (metis list.set_intros(1) mset_eq_setD)
  then obtain p q where vs: "vs = p @ u # q" by (meson split_list)
  have rest: "mset us = mset (p @ q)" using Cons.prems(1) by (simp add: vs)
  then have sub: "set p \<subseteq> set us" by (metis Un_upper1 mset_eq_setD set_append)
  have "run app s vs = run app s (u # p @ q)"
    unfolding vs
  proof (rule run_pull_front, intro ballI conjI)
    fix v
    assume v: "v \<in> set p"
    show "u = v \<or> coexist u v" using Cons.prems(4) v sub by (auto simp: all_coexist_def)
    show "\<not> before u v" using Cons.prems(3) v by (simp add: vs causal_order_append)
    show "\<not> before v u" using Cons.prems(2) v sub by (auto simp: causal_order_Cons)
  qed
  moreover have "run app (fst (app s u)) us = run app (fst (app s u)) (p @ q)"
    using Cons.prems by (intro Cons.IH [OF rest])
      (auto simp: vs causal_order_append causal_order_Cons all_coexist_def)
  ultimately show ?case by simp
qed simp

end

section \<open>Observed removal\<close>

text \<open>
  The contract the flags, sets and maps with unique tags share: an operation removes the tags
  it observed and adds new ones. \<open>cont\<close> is what a state contains. \<open>adds\<close> and
  \<open>rems\<close> are what an operation adds and removes, and an operation that removes a tag has
  observed the one that added it.
\<close>

locale observed_remove =
  fixes app :: "'s \<Rightarrow> 'op \<Rightarrow> 's \<times> 'e"
    and cont :: "'s \<Rightarrow> 'x set"
    and adds :: "'op \<Rightarrow> 'x set"
    and rems :: "'op \<Rightarrow> 'x set"
    and inv :: "'s \<Rightarrow> bool"
  assumes step: "inv s \<Longrightarrow> cont (fst (app s u)) = (cont s - rems u) \<union> adds u"
    and inv_step: "inv s \<Longrightarrow> inv (fst (app s u))"
    and adds_rems: "adds u \<inter> rems u = {}"

definition observed_by :: "('op \<Rightarrow> 'x set) \<Rightarrow> ('op \<Rightarrow> 'x set) \<Rightarrow> 'op \<Rightarrow> 'op \<Rightarrow> bool" where
  "observed_by adds rems u v \<longleftrightarrow> adds u \<inter> rems v \<noteq> {}"

context observed_remove
begin

lemma inv_run: "inv s \<Longrightarrow> inv (run app s us)"
  by (induction us arbitrary: s) (auto intro: inv_step)

lemma content_run:
  assumes "causal_order (observed_by adds rems) us" and "inv s"
  shows "cont (run app s us) = (cont s \<union> (\<Union>u \<in> set us. adds u)) - (\<Union>u \<in> set us. rems u)"
  using assms
proof (induction us arbitrary: s)
  case (Cons u us)
  have fresh: "adds v \<inter> rems u = {}" if "v \<in> set us" for v
    using Cons.prems(1) that by (auto simp: causal_order_Cons observed_by_def)
  have "cont (run app s (u # us)) =
      ((cont s - rems u) \<union> adds u \<union> (\<Union>v \<in> set us. adds v)) - (\<Union>v \<in> set us. rems v)"
    using Cons by (simp add: causal_order_Cons step inv_step)
  also have "\<dots> = (cont s \<union> (\<Union>v \<in> set (u # us). adds v)) - (\<Union>v \<in> set (u # us). rems v)"
    using fresh adds_rems [of u] by fastforce
  finally show ?case .
qed simp

lemma same_ops_same_content:
  assumes "set us = set vs" and "inv s"
    and "causal_order (observed_by adds rems) us" and "causal_order (observed_by adds rems) vs"
  shows "cont (run app s us) = cont (run app s vs)"
  using assms by (simp add: content_run)

end

end
