(* ===== verification/Counter.thy ===== *)
theory Counter
  imports Convergence
begin

text \<open>
  The counter of \<^verbatim>\<open>crdt/crdt/counterCrdt.go\<close>: a 32-bit value with increments and decrements.
  Update and downstream arguments are the same structures. The protobuf messages are the
  records of the fields the code sets and reads.
\<close>

type_synonym CounterCrdt = int

datatype counter_op = Increment int | Decrement int

datatype counter_effect = IncrementEffect int | DecrementEffect int

definition Counter_Initialize :: CounterCrdt where
  "Counter_Initialize = 0"

fun Counter_pending :: "int \<Rightarrow> counter_op \<Rightarrow> int" where
  "Counter_pending copyValue (Increment change) = int32 (copyValue + change)"
| "Counter_pending copyValue (Decrement change) = int32 (copyValue - change)"

definition Counter_Read :: "CounterCrdt \<Rightarrow> counter_op list \<Rightarrow> int" where
  "Counter_Read c updsNotYetApplied =
     (if updsNotYetApplied = [] then c else foldl Counter_pending c updsNotYetApplied)"

definition Counter_Update :: "CounterCrdt \<Rightarrow> counter_op \<Rightarrow> counter_op" where
  "Counter_Update c args = args"

fun Counter_applyDownstream :: "CounterCrdt \<Rightarrow> counter_op \<Rightarrow> CounterCrdt \<times> counter_effect" where
  "Counter_applyDownstream c (Increment change) = (int32 (c + change), IncrementEffect change)"
| "Counter_applyDownstream c (Decrement change) = (int32 (c - change), DecrementEffect change)"

definition Counter_Downstream ::
    "bool \<Rightarrow> (counter_op, counter_effect) History list \<times> CounterCrdt \<Rightarrow> ClockSiTimestamp \<Rightarrow> counter_op
       \<Rightarrow> (counter_op, counter_effect) History list \<times> CounterCrdt" where
  "Counter_Downstream vmDisabled c updTs downstreamArgs = (case c of (history, v) \<Rightarrow>
     (case Counter_applyDownstream v downstreamArgs of (v', effect) \<Rightarrow>
        (addToHistory vmDisabled history updTs downstreamArgs effect, v')))"

fun Counter_undoEffect :: "CounterCrdt \<Rightarrow> counter_effect \<Rightarrow> CounterCrdt go" where
  "Counter_undoEffect c (IncrementEffect change) = Inr (int32 (c - change))"
| "Counter_undoEffect c (DecrementEffect change) = Inr (int32 (c + change))"

definition Counter_reapplyOp :: "CounterCrdt \<Rightarrow> counter_op \<Rightarrow> (CounterCrdt \<times> counter_effect) go" where
  "Counter_reapplyOp c updArgs = Inr (Counter_applyDownstream c updArgs)"

section \<open>Protobuf conversions\<close>

record ProtoCounterDownstream =
  IsInc :: bool
  Change :: int

fun Counter_ToReplicatorObj :: "counter_op \<Rightarrow> ProtoCounterDownstream" where
  "Counter_ToReplicatorObj (Increment change) = \<lparr>IsInc = True, Change = change\<rparr>"
| "Counter_ToReplicatorObj (Decrement change) = \<lparr>IsInc = False, Change = change\<rparr>"

definition downstreamProtoCounterToAntidoteDownstream :: "ProtoCounterDownstream \<Rightarrow> counter_op" where
  "downstreamProtoCounterToAntidoteDownstream pb =
     (if IsInc pb then Increment (Change pb) else Decrement (int32 (- Change pb)))"

text \<open>The client message has one signed 64-bit field; the receiver always builds an increment.\<close>

fun Counter_ToUpdateObject :: "counter_op \<Rightarrow> int" where
  "Counter_ToUpdateObject (Increment change) = change"
| "Counter_ToUpdateObject (Decrement change) = int32 (- change)"

definition Counter_FromUpdateObject :: "int \<Rightarrow> counter_op" where
  "Counter_FromUpdateObject inc = Increment (int32 inc)"

definition Counter_ToProtoState :: "CounterCrdt \<Rightarrow> int" where
  "Counter_ToProtoState c = c"

definition Counter_FromProtoState :: "int \<Rightarrow> CounterCrdt" where
  "Counter_FromProtoState pb = pb"

section \<open>Contracts\<close>

text \<open>The state is a 32-bit value, and the operations carry 32-bit changes.\<close>

definition counter_ok :: "CounterCrdt \<Rightarrow> counter_op \<Rightarrow> bool" where
  "counter_ok c u \<longleftrightarrow> in_int 32 c"

interpretation cnt: commuting_undo Counter_applyDownstream Counter_undoEffect counter_ok
proof
  fix s u
  assume "counter_ok s u"
  then show "Counter_undoEffect (fst (Counter_applyDownstream s u)) (snd (Counter_applyDownstream s u)) = Inr s"
    by (cases u) (simp_all add: counter_ok_def wrap_simps)
next
  fix s e f
  show "gbind (Counter_undoEffect s e) (\<lambda>s'. Counter_undoEffect s' f) =
      gbind (Counter_undoEffect s f) (\<lambda>s'. Counter_undoEffect s' e)"
    by (cases e; cases f) (simp_all add: wrap_simps algebra_simps)
qed

interpretation cnt_ops: causal_ops Counter_applyDownstream "\<lambda>u v. False" "\<lambda>u v. True"
proof
  fix u v s
  show "fst (Counter_applyDownstream (fst (Counter_applyDownstream s u)) v) =
      fst (Counter_applyDownstream (fst (Counter_applyDownstream s v)) u)"
    by (cases u; cases v) (simp_all add: wrap_simps algebra_simps)
qed

section \<open>The value of a counter\<close>

primrec delta :: "counter_op \<Rightarrow> int" where
  "delta (Increment change) = change"
| "delta (Decrement change) = - change"

lemma Counter_pending_delta: "Counter_pending c u = int32 (c + delta u)"
  by (cases u) simp_all

lemma Counter_apply_delta: "fst (Counter_applyDownstream c u) = int32 (c + delta u)"
  by (cases u) simp_all

lemma Counter_run_delta:
  "in_int 32 c \<Longrightarrow> run Counter_applyDownstream c us = int32 (c + sum_list (map delta us))"
proof (induction us arbitrary: c)
  case (Cons u us)
  have "in_int 32 (int32 (c + delta u))" by (simp add: swrap_in_int)
  from Cons.IH [OF this] show ?case
    by (simp add: Counter_apply_delta wrap_simps algebra_simps)
qed (simp add: swrap_id)

lemma Counter_run_ok: "in_int 32 c \<Longrightarrow> run_ok Counter_applyDownstream counter_ok c us"
  by (induction us arbitrary: c) (simp_all add: counter_ok_def Counter_apply_delta swrap_in_int)

lemma Counter_Read_run: "Counter_Read c us = run Counter_applyDownstream c us"
proof -
  have "foldl Counter_pending c us = run Counter_applyDownstream c us"
    by (induction us arbitrary: c) (simp_all add: Counter_pending_delta Counter_apply_delta)
  then show ?thesis by (cases us) (simp_all add: Counter_Read_def)
qed

text \<open>
  C8. Replicas of a counter converge and a transaction reads its own writes: whatever the
  order in which the same operations are applied, the value is the 32-bit sum of all changes,
  and reading with pending updates returns what applying them would.
\<close>

theorem Counter_converges:
  assumes "mset us = mset vs"
  shows "run Counter_applyDownstream c us = run Counter_applyDownstream c vs
    \<and> (in_int 32 c \<longrightarrow> run Counter_applyDownstream c us = int32 (c + sum_list (map delta us)))
    \<and> Counter_Read c us = run Counter_applyDownstream c us"
proof -
  have "run Counter_applyDownstream c us = run Counter_applyDownstream c vs"
    using assms
    by (rule cnt_ops.same_ops_same_state) (simp_all add: causal_order_def all_coexist_def sorted_wrt_true)
  then show ?thesis using Counter_run_delta [of c us] Counter_Read_run [of c us] by blast
qed

theorem Counter_converges_witness:
  "run Counter_applyDownstream 0 [Increment 2147483647, Decrement 1, Increment 2] = -2147483648
   \<and> run Counter_applyDownstream 0 [Increment 2, Increment 2147483647, Decrement 1] = -2147483648"
proof -
  have m: "mset [Increment 2147483647, Decrement 1, Increment 2] = mset [Increment 2, Increment 2147483647, Decrement 1]"
    by simp
  have "int32 2147483648 = -2147483648" by (simp add: swrap_def)
  then show ?thesis using Counter_converges [OF m, of 0] by (simp add: in_int_def)
qed

section \<open>Old versions\<close>

lemma Counter_Downstream_step: "Counter_Downstream = (\<lambda>dis. downstream_step dis Counter_applyDownstream)"
  by (intro ext) (simp add: Counter_Downstream_def downstream_step_def split: prod.split)

text \<open>
  The version metadata of a counter is right: from the history that \<open>Downstream\<close> recorded,
  rebuilding on the counter's own undo and re-apply functions gives the value after exactly the
  updates at or below the requested clock, without a panic, when the recorded clocks are
  increasing and none is concurrent to the requested one.
\<close>

theorem Counter_rebuild_version:
  assumes "deliver_all False Counter_applyDownstream ([], Counter_Initialize) ds = (h, v)"
    and "ordered_history target h"
  shows "\<exists>h'. rebuildCRDTToVersion False Counter_undoEffect Counter_reapplyOp (\<lambda>t s. Inr s) target h v
    = Inr (h', version_at Counter_applyDownstream Counter_Initialize target h)"
proof (rule cnt.rebuild_version [OF assms(1) _ assms(2)])
  show "run_ok Counter_applyDownstream counter_ok Counter_Initialize (map snd ds)"
    by (rule Counter_run_ok) (simp add: Counter_Initialize_def in_int_def)
qed

theorem Counter_rebuild_version_witness:
  "\<exists>h' h. rebuildCRDTToVersion False Counter_undoEffect Counter_reapplyOp (\<lambda>t s. Inr s) [(1, 4)] h 8 = Inr (h', 5)
     \<and> deliver_all False Counter_applyDownstream ([], Counter_Initialize)
         [([(1, 3)], Increment 7), ([(1, 3)], Decrement 2), ([(1, 5)], Increment 3)] = (h, 8)"
proof -
  let ?ds = "[([(1, 3)], Increment 7), ([(1, 3)], Decrement 2), ([(1, 5)], Increment 3)]"
  let ?h = "[\<lparr>h_ts = [(1, 3)], updsArgs = [Increment 7, Decrement 2], effects = [IncrementEffect 7, DecrementEffect 2]\<rparr>,
     \<lparr>h_ts = [(1, 5)], updsArgs = [Increment 3], effects = [IncrementEffect 3]\<rparr>]"
  have w: "int32 7 = 7" "int32 5 = 5" "int32 8 = 8" by (simp_all add: swrap_def)
  have d: "deliver_all False Counter_applyDownstream ([], Counter_Initialize) ?ds = (?h, 8)"
    by (simp add: downstream_step_def addToHistory_def Counter_Initialize_def IsEqual_def vget_def w)
  have "ordered_history [(1, 4)] ?h"
    by (auto simp: ordered_history_def increasing_def wf_map_def same_ids_def IsLowerOrEqual_def
        Compare_def vget_def)
  from Counter_rebuild_version [OF d this] d
  show ?thesis by (auto simp: version_at_def IsLowerOrEqual_def vget_def Counter_Initialize_def w)
qed

text \<open>
  The stored method values belong to the wrong object. \<open>InitializeCrdt\<close> calls
  \<open>Initialize\<close> on a temporary counter, so for the counter it returns, and for every copy of
  it, \<open>RebuildCRDTToVersion\<close> never changes the value: whatever version is asked for, the
  latest value is returned. A counter read from a snapshot has its own methods, but its copies
  have them too: rebuilding a copy leaves the copy at the latest value and takes the live
  counter back to the old version.
\<close>

theorem Counter_rebuild_keeps_latest:
  assumes "st2 = foldl (\<lambda>st d. obj_Downstream False Counter_applyDownstream a (fst d) (snd d) st) st1 ds"
    and "c \<noteq> a"
  shows "(st1 = obj_Initialize 0 Counter_Initialize recv a st \<and> recv \<noteq> a \<and> c \<noteq> recv
      \<and> obj_RebuildCRDTToVersion False Counter_undoEffect Counter_reapplyOp target c (obj_Copy a c st2) = Inr st3
      \<longrightarrow> fst (st3 c) = fst (st2 a))
    \<and> (st1 = obj_initializeFromSnapshot v a st \<and> in_int 32 v \<and> ordered_history target (vm_history (snd (st2 a)))
      \<longrightarrow> (\<exists>st4. obj_RebuildCRDTToVersion False Counter_undoEffect Counter_reapplyOp target c (obj_Copy a c st2) = Inr st4
            \<and> fst (st4 c) = fst (st2 a)
            \<and> fst (st4 a) = version_at Counter_applyDownstream v target (vm_history (snd (st2 a)))))"
proof (intro conjI impI)
  assume a: "st1 = obj_Initialize 0 Counter_Initialize recv a st \<and> recv \<noteq> a \<and> c \<noteq> recv
      \<and> obj_RebuildCRDTToVersion False Counter_undoEffect Counter_reapplyOp target c (obj_Copy a c st2) = Inr st3"
  then have "vm_bound (snd (obj_Copy a c st2 c)) = recv"
    using assms by (simp add: obj_Initialize_def obj_Copy_def obj_Downstream_all)
  with a have "fst (st3 c) = fst (obj_Copy a c st2 c)" by (intro obj_Rebuild_unbound) auto
  then show "fst (st3 c) = fst (st2 a)" by (simp add: obj_Copy_def)
next
  assume a: "st1 = obj_initializeFromSnapshot v a st \<and> in_int 32 v \<and> ordered_history target (vm_history (snd (st2 a)))"
  obtain h s where d: "deliver_all False Counter_applyDownstream ([], v) ds = (h, s)" by (metis surj_pair)
  with a assms(1) have st2: "st2 a = (s, \<lparr>vm_history = h, vm_bound = a\<rparr>)"
    by (simp add: obj_Downstream_all obj_initializeFromSnapshot_def)
  obtain h' where "rebuildCRDTToVersion False Counter_undoEffect Counter_reapplyOp (\<lambda>t s. Inr s) target h s
      = Inr (h', version_at Counter_applyDownstream v target h)"
    using cnt.rebuild_version [OF d, of target] Counter_run_ok [of v "map snd ds"] a st2 by auto
  then show "\<exists>st4. obj_RebuildCRDTToVersion False Counter_undoEffect Counter_reapplyOp target c (obj_Copy a c st2) = Inr st4
      \<and> fst (st4 c) = fst (st2 a)
      \<and> fst (st4 a) = version_at Counter_applyDownstream v target (vm_history (snd (st2 a)))"
    using st2 assms(2) by (simp add: obj_RebuildCRDTToVersion_def obj_Copy_def Let_def)
qed

theorem Counter_rebuild_keeps_latest_witness:
  "\<exists>st2 st3. fst (st2 (1 :: nat)) = 7 \<and> fst (st3 (2 :: nat)) = 7
     \<and> obj_RebuildCRDTToVersion False Counter_undoEffect Counter_reapplyOp [(1, 4)] 2 (obj_Copy 1 2 st2) = Inr st3
     \<and> version_at Counter_applyDownstream Counter_Initialize [(1, 4)] (vm_history (snd (st2 1))) = 5"
proof -
  define st :: "(int, counter_op, counter_effect) store" where
    "st = (\<lambda>a. (0, \<lparr>vm_history = [], vm_bound = 0\<rparr>))"
  define st1 where "st1 = obj_Initialize 0 Counter_Initialize 0 1 st"
  define ds :: "(ClockSiTimestamp \<times> counter_op) list" where
    "ds = [([(1, 3)], Increment 5), ([(1, 6)], Increment 2)]"
  define st2 where "st2 = foldl (\<lambda>st d. obj_Downstream False Counter_applyDownstream 1 (fst d) (snd d) st) st1 ds"
  have w: "int32 5 = 5" "int32 7 = 7" "int32 (-2) = -2" by (simp_all add: swrap_def)
  have v: "fst (st2 1) = 7" and b: "vm_bound (snd (st2 1)) = 0" and r: "fst (st2 0) = 0"
    and h: "vm_history (snd (st2 1)) = [\<lparr>h_ts = [(1, 3)], updsArgs = [Increment 5], effects = [IncrementEffect 5]\<rparr>,
        \<lparr>h_ts = [(1, 6)], updsArgs = [Increment 2], effects = [IncrementEffect 2]\<rparr>]"
    by (simp_all add: st2_def st1_def st_def ds_def obj_Initialize_def obj_Downstream_def downstream_step_def
        addToHistory_def Counter_Initialize_def IsEqual_def vget_def w)
  obtain st3 where e: "obj_RebuildCRDTToVersion False Counter_undoEffect Counter_reapplyOp [(1, 4)] 2 (obj_Copy 1 2 st2) = Inr st3"
    using h b r by (simp add: obj_RebuildCRDTToVersion_def obj_Copy_def Let_def rebuildCRDTToVersion_def
        IsLowerOrEqual_def Compare_def vget_def redo_from.simps)
  have "fst (st3 2) = fst (st2 1)"
    using Counter_rebuild_keeps_latest [OF st2_def, of 2 0 st "[(1, 4)]" st3] e by (simp add: st1_def)
  moreover have "version_at Counter_applyDownstream Counter_Initialize [(1, 4)] (vm_history (snd (st2 1))) = 5"
    unfolding h by (simp add: version_at_def IsLowerOrEqual_def vget_def Counter_Initialize_def w)
  ultimately show ?thesis using v e by auto
qed

section \<open>Rebuilding a rebuilt version\<close>

lemma Counter_undo_total:
  "in_int 32 x \<Longrightarrow> gfold Counter_undoEffect x (effects_of Counter_applyDownstream s us) = Inr (int32 (x - sum_list (map delta us)))"
proof (induction us arbitrary: x s)
  case (Cons u us)
  have "Counter_undoEffect x (snd (Counter_applyDownstream s u)) = Inr (int32 (x - delta u))" by (cases u) simp_all
  then show ?case using Cons.IH [of "int32 (x - delta u)"] by (simp add: swrap_in_int wrap_simps algebra_simps)
qed (simp add: swrap_id)

lemma Counter_run_range: "in_int 32 c \<Longrightarrow> in_int 32 (run Counter_applyDownstream c us)"
  by (simp add: Counter_run_delta swrap_in_int)

text \<open>
  A rebuilt version cannot be rebuilt further back. Rebuilding to a version keeps the
  first later entry in the history although its updates were undone; rebuilding the result to
  the same or an older version, as the version manager does with a cached version, undoes them
  a second time: the value is off by exactly their changes.
\<close>

theorem Counter_rebuild_again:
  assumes "deliver_all False Counter_applyDownstream ([], Counter_Initialize) ds = (h, v)"
    and "ordered_history t1 h" and "ordered_history t2 h"
    and "wf_map t2" and "same_ids t2 t1" and "IsLowerOrEqual t2 (Some t1)"
    and "h \<noteq> []" and "\<not> IsLowerOrEqual (h_ts (last h)) (Some t1)"
  shows "\<exists>h1 h2. rebuildCRDTToVersion False Counter_undoEffect Counter_reapplyOp (\<lambda>t s. Inr s) t1 h v
      = Inr (h1, version_at Counter_applyDownstream Counter_Initialize t1 h)
    \<and> rebuildCRDTToVersion False Counter_undoEffect Counter_reapplyOp (\<lambda>t s. Inr s) t2 h1
        (version_at Counter_applyDownstream Counter_Initialize t1 h)
      = Inr (h2, int32 (version_at Counter_applyDownstream Counter_Initialize t2 h
                        - sum_list (map delta (updsArgs (first_above t1 h)))))"
proof -
  have i: "in_int 32 Counter_Initialize" by (simp add: Counter_Initialize_def in_int_def)
  note d = deliver_all_recorded [OF assms(1) Counter_run_ok [OF i]]
  have n: "cut_index t1 h (length h) < length h" by (rule cut_last [OF assms(7,8)])
  then have "h = take (cut_index t1 h (length h)) h @ first_above t1 h # drop (Suc (cut_index t1 h (length h))) h"
    unfolding first_above_def by (rule id_take_nth_drop)
  then obtain s where "effects (first_above t1 h) = effects_of Counter_applyDownstream s (updsArgs (first_above t1 h))"
    using d(1) recorded_append by (metis recorded.simps(2))
  moreover have "in_int 32 (version_at Counter_applyDownstream Counter_Initialize t2 h)"
    by (simp add: version_at_def Counter_run_range i)
  ultimately show ?thesis
    using cnt.rebuild_again [OF d(1) assms(2-6) n, of Counter_reapplyOp] d(2) by (auto simp: Counter_undo_total)
qed

theorem Counter_rebuild_again_witness:
  "\<exists>h h1 h2. deliver_all False Counter_applyDownstream ([], Counter_Initialize)
       [([(1, 1)], Increment 10), ([(1, 3)], Increment 20), ([(1, 5)], Increment 30)] = (h, 60)
     \<and> rebuildCRDTToVersion False Counter_undoEffect Counter_reapplyOp (\<lambda>t s. Inr s) [(1, 4)] h 60 = Inr (h1, 30)
     \<and> rebuildCRDTToVersion False Counter_undoEffect Counter_reapplyOp (\<lambda>t s. Inr s) [(1, 2)] h1 30 = Inr (h2, -20)"
proof -
  let ?ds = "[([(1, 1)], Increment 10), ([(1, 3)], Increment 20), ([(1, 5)], Increment 30)]"
  let ?h = "[\<lparr>h_ts = [(1, 1)], updsArgs = [Increment 10], effects = [IncrementEffect 10]\<rparr>,
     \<lparr>h_ts = [(1, 3)], updsArgs = [Increment 20], effects = [IncrementEffect 20]\<rparr>,
     \<lparr>h_ts = [(1, 5)], updsArgs = [Increment 30], effects = [IncrementEffect 30]\<rparr>]"
  have w: "int32 10 = 10" "int32 30 = 30" "int32 60 = 60" "int32 (-20) = -20" by (simp_all add: swrap_def)
  have d: "deliver_all False Counter_applyDownstream ([], Counter_Initialize) ?ds = (?h, 60)"
    by (simp add: downstream_step_def addToHistory_def Counter_Initialize_def IsEqual_def vget_def w)
  have o: "ordered_history [(1, 4)] ?h" "ordered_history [(1, 2)] ?h"
    by (auto simp: ordered_history_def increasing_def wf_map_def same_ids_def IsLowerOrEqual_def
        Compare_def vget_def)
  have t: "wf_map [(1 :: int, 2 :: int)]" "same_ids [(1, 2)] [(1, 4)]" "IsLowerOrEqual [(1, 2)] (Some [(1, 4)])"
    "\<not> IsLowerOrEqual (h_ts (last ?h)) (Some [(1, 4)])"
    by (auto simp: wf_map_def same_ids_def IsLowerOrEqual_def vget_def)
  have f: "updsArgs (first_above [(1, 4)] ?h) = [Increment 30]"
    by (simp add: first_above_def IsLowerOrEqual_def vget_def eval_nat_numeral)
  from Counter_rebuild_again [OF d o t(1-3) _ t(4)] d f
  show ?thesis by (auto simp: version_at_def IsLowerOrEqual_def vget_def Counter_Initialize_def w)
qed

section \<open>Messages\<close>

text \<open>
  The counter's messages. A client's update has the same effect on the value after it
  crossed the client protocol, and an increment survives replication. A decrement does not: the
  replicator message carries the change unsigned by kind, the receiver negates it, and the
  remote replica adds what the local one subtracted.
\<close>

theorem Counter_messages:
  "fst (Counter_applyDownstream c (Counter_FromUpdateObject (Counter_ToUpdateObject u))) = fst (Counter_applyDownstream c u)
   \<and> downstreamProtoCounterToAntidoteDownstream (Counter_ToReplicatorObj (Increment change)) = Increment change
   \<and> fst (Counter_applyDownstream c
         (downstreamProtoCounterToAntidoteDownstream (Counter_ToReplicatorObj (Decrement change))))
       = fst (Counter_applyDownstream c (Increment change))
   \<and> Counter_FromProtoState (Counter_ToProtoState c) = c"
proof -
  have "fst (Counter_applyDownstream c (Counter_FromUpdateObject (Counter_ToUpdateObject u))) = fst (Counter_applyDownstream c u)"
    by (cases u) (simp_all add: Counter_FromUpdateObject_def wrap_simps)
  then show ?thesis
    by (simp add: downstreamProtoCounterToAntidoteDownstream_def Counter_ToProtoState_def
        Counter_FromProtoState_def wrap_simps)
qed

end
