(* ===== verification/VersionManager.thy ===== *)
theory VersionManager
  imports Counter
begin

text \<open>
  The version managers of \<^verbatim>\<open>potionDB/components\<close> (\<^verbatim>\<open>inverseOpVM.go\<close>, \<^verbatim>\<open>snapshotVM.go\<close>): one per
  object, between the materializer and the CRDT. A CRDT is a reference \<open>'a\<close> into a world
  \<open>'w\<close>, and its methods are the record \<open>CRDT_methods\<close>, as in the interfaces \<open>CRDT\<close>,
  \<open>InversibleCRDT\<close> and \<open>CRDTVM\<close>. Version keys are the byte keys of clocks; the caches are
  Go maps, in one of their iteration orders.
\<close>

record ('a, 'w, 'u, 'd, 'r, 'st) CRDT_methods =
  m_Read :: "'a \<Rightarrow> 'r \<Rightarrow> 'u list \<Rightarrow> 'w \<Rightarrow> 'st go"
  m_Update :: "'a \<Rightarrow> 'u \<Rightarrow> 'w \<Rightarrow> 'd go"
  m_Downstream :: "'a \<Rightarrow> ClockSiTimestamp \<Rightarrow> 'd \<Rightarrow> 'w \<Rightarrow> ('w \<times> 'd option) go"
  m_Copy :: "'a \<Rightarrow> 'w \<Rightarrow> 'a \<times> 'w"
  m_RebuildCRDTToVersion :: "'a \<Rightarrow> ClockSiTimestamp \<Rightarrow> 'w \<Rightarrow> 'w go"
  m_GC :: "'a \<Rightarrow> ClockSiTimestamp \<Rightarrow> 'w \<Rightarrow> 'w"

type_synonym TimestampKey = "int list"

record 'a InverseOpVM =
  vm_CRDT :: 'a
  OldVersions :: "(TimestampKey \<times> 'a) list"
  updatedSinceGC :: bool
  currVersion :: Timestamp

definition InverseOpVM_Initialize :: "'a \<Rightarrow> ClockSiTimestamp \<Rightarrow> 'a InverseOpVM" where
  "InverseOpVM_Initialize newCrdt currTs =
     \<lparr>vm_CRDT = newCrdt, OldVersions = [], updatedSinceGC = False, currVersion = None\<rparr>"

definition InverseOpVM_ReadLatest ::
    "('a, 'w, 'u, 'd, 'r, 'st) CRDT_methods \<Rightarrow> 'a InverseOpVM \<Rightarrow> 'r \<Rightarrow> 'u list \<Rightarrow> 'w \<Rightarrow> 'st go" where
  "InverseOpVM_ReadLatest M vm readArgs updsNotYetApplied w = m_Read M (vm_CRDT vm) readArgs updsNotYetApplied w"

text \<open>The body of the loop of \<open>getClosestMatch\<close>; \<open>None\<close> is the pair of nil variables.\<close>

fun closest_step :: "TimestampKey \<Rightarrow> (TimestampKey \<times> 'a) option \<Rightarrow> TimestampKey \<times> 'a \<Rightarrow> (TimestampKey \<times> 'a) option go" where
  "closest_step readTsKey smallest (cacheKey, cacheCRDT) =
     gbind (ByteKey_IsHigher cacheKey readTsKey) (\<lambda>higher.
       if \<not> higher then Inr smallest
       else case smallest of
              None \<Rightarrow> Inr (Some (cacheKey, cacheCRDT))
            | Some (smallestClkTs, crdt) \<Rightarrow>
                gbind (ByteKey_IsLower cacheKey smallestClkTs) (\<lambda>lower.
                  Inr (if lower then Some (cacheKey, cacheCRDT) else smallest)))"

definition getClosestMatch :: "'a InverseOpVM \<Rightarrow> ClockSiTimestamp \<Rightarrow> 'a go" where
  "getClosestMatch vm readTs =
     gbind (gfold (closest_step (getMapByteKey readTs)) None (OldVersions vm))
       (\<lambda>smallest. Inr (case smallest of None \<Rightarrow> vm_CRDT vm | Some (k, crdt) \<Rightarrow> crdt))"

definition reverseOperations ::
    "('a, 'w, 'u, 'd, 'r, 'st) CRDT_methods \<Rightarrow> 'a \<Rightarrow> ClockSiTimestamp \<Rightarrow> 'w \<Rightarrow> ('a \<times> 'w) go" where
  "reverseOperations M oldCrdt readTs w = (case m_Copy M oldCrdt w of (copyCrdt, w1) \<Rightarrow>
     gbind (m_RebuildCRDTToVersion M copyCrdt readTs w1) (\<lambda>w2. Inr (copyCrdt, w2)))"

definition InverseOpVM_ReadOld ::
    "('a, 'w, 'u, 'd, 'r, 'st) CRDT_methods \<Rightarrow> 'a InverseOpVM \<Rightarrow> 'r \<Rightarrow> ClockSiTimestamp \<Rightarrow> 'u list \<Rightarrow> 'w
       \<Rightarrow> ('st \<times> 'a InverseOpVM \<times> 'w) go" where
  "InverseOpVM_ReadOld M vm readArgs readTs updsNotYetApplied w =
     (let readTsKey = getMapByteKey readTs
      in case map_of (OldVersions vm) readTsKey of
           Some cachedCRDT \<Rightarrow>
             gbind (m_Read M cachedCRDT readArgs updsNotYetApplied w) (\<lambda>state. Inr (state, vm, w))
         | None \<Rightarrow>
             gbind (getClosestMatch vm readTs) (\<lambda>oldCrdt.
             gbind (reverseOperations M oldCrdt readTs w) (\<lambda>(cachedCRDT, w').
             gbind (m_Read M cachedCRDT readArgs updsNotYetApplied w') (\<lambda>state.
               Inr (state, vm\<lparr>OldVersions := mput readTsKey cachedCRDT (OldVersions vm)\<rparr>, w')))))"

definition InverseOpVM_Downstream ::
    "('a, 'w, 'u, 'd, 'r, 'st) CRDT_methods \<Rightarrow> 'a InverseOpVM \<Rightarrow> ClockSiTimestamp \<Rightarrow> 'd \<Rightarrow> 'w
       \<Rightarrow> ('a InverseOpVM \<times> 'w \<times> 'd option) go" where
  "InverseOpVM_Downstream M vm updTs downstreamArgs w =
     gbind (m_Downstream M (vm_CRDT vm) updTs downstreamArgs w) (\<lambda>(w', otherDownstreamArgs).
       Inr (vm\<lparr>updatedSinceGC := True, currVersion := Some updTs\<rparr>, w', otherDownstreamArgs))"

text \<open>
  The loop of both \<open>GC\<close> methods over the keys: of the keys at or below the safe one, a higher
  one replaces and deletes the highest found before. A key deleted inside the loop was visited
  already, so the iteration is over all original keys.
\<close>

definition gc_step ::
    "TimestampKey \<Rightarrow> (TimestampKey \<times> 'a) list \<times> TimestampKey option \<Rightarrow> TimestampKey
       \<Rightarrow> ((TimestampKey \<times> 'a) list \<times> TimestampKey option) go" where
  "gc_step safeClkKey state cacheKey = (case state of (versions, highestSafe) \<Rightarrow>
     gbind (ByteKey_IsLowerOrEqual cacheKey safeClkKey) (\<lambda>safe.
       if \<not> safe then Inr (versions, highestSafe)
       else case highestSafe of
              None \<Rightarrow> Inr (versions, Some cacheKey)
            | Some k \<Rightarrow> gbind (ByteKey_IsHigher cacheKey k) (\<lambda>higher.
                Inr (if higher then (AList.delete k versions, Some cacheKey) else (versions, highestSafe)))))"

definition GC_versions :: "TimestampKey \<Rightarrow> (TimestampKey \<times> 'a) list \<Rightarrow> (TimestampKey \<times> 'a) list go" where
  "GC_versions safeClkKey versions =
     gbind (gfold (gc_step safeClkKey) (versions, None) (map fst versions)) (\<lambda>r. Inr (fst r))"

definition InverseOpVM_GC ::
    "('a, 'w, 'u, 'd, 'r, 'st) CRDT_methods \<Rightarrow> 'a InverseOpVM \<Rightarrow> ClockSiTimestamp \<Rightarrow> TimestampKey \<Rightarrow> 'w
       \<Rightarrow> ('a InverseOpVM \<times> 'w) go" where
  "InverseOpVM_GC M vm safeClk safeClkKey w =
     (if \<not> updatedSinceGC vm then Inr (vm, w)
      else gbind (if IsHigher safeClk (currVersion vm) then Inr (vm\<lparr>OldVersions := [], updatedSinceGC := False\<rparr>)
                  else gbind (GC_versions safeClkKey (OldVersions vm)) (\<lambda>vs. Inr (vm\<lparr>OldVersions := vs\<rparr>)))
             (\<lambda>vm'. Inr (vm', m_GC M (vm_CRDT vm) safeClk w)))"

section \<open>Snapshots\<close>

record 'a SnapshotVM =
  snap_CRDT :: 'a
  snaps :: "(TimestampKey \<times> 'a) list option"
  snap_replicaID :: int
  snap_updatedSinceGC :: bool
  snap_currVersion :: Timestamp

text \<open>Reading a nil map finds nothing, writing to it panics.\<close>

definition snaps_get :: "'a SnapshotVM \<Rightarrow> TimestampKey \<Rightarrow> 'a option" where
  "snaps_get vm k = (case snaps vm of None \<Rightarrow> None | Some m \<Rightarrow> map_of m k)"

definition snaps_put :: "TimestampKey \<Rightarrow> 'a \<Rightarrow> 'a SnapshotVM \<Rightarrow> 'a SnapshotVM go" where
  "snaps_put k c vm = (case snaps vm of None \<Rightarrow> Inl NilMapWrite | Some m \<Rightarrow> Inr (vm\<lparr>snaps := Some (mput k c m)\<rparr>))"

definition SnapshotVM_Initialize ::
    "bool \<Rightarrow> ('a, 'w, 'u, 'd, 'r, 'st) CRDT_methods \<Rightarrow> int \<Rightarrow> 'a \<Rightarrow> ClockSiTimestamp \<Rightarrow> 'w \<Rightarrow> ('a SnapshotVM \<times> 'w) go" where
  "SnapshotVM_Initialize vmDisabled M replicaID newCrdt currTs w =
     (if vmDisabled then Inr (\<lparr>snap_CRDT = newCrdt, snaps = None, snap_replicaID = 0,
          snap_updatedSinceGC = False, snap_currVersion = None\<rparr>, w)
      else case m_Copy M newCrdt w of (c, w') \<Rightarrow>
        gbind (snaps_put (getMapByteKey currTs) c \<lparr>snap_CRDT = newCrdt, snaps = Some [], snap_replicaID = replicaID,
          snap_updatedSinceGC = False, snap_currVersion = None\<rparr>) (\<lambda>vm. Inr (vm, w')))"

definition SnapshotVM_ReadLatest ::
    "('a, 'w, 'u, 'd, 'r, 'st) CRDT_methods \<Rightarrow> 'a SnapshotVM \<Rightarrow> 'r \<Rightarrow> 'u list \<Rightarrow> 'w \<Rightarrow> 'st go" where
  "SnapshotVM_ReadLatest M vm readArgs updsNotYetApplied w = m_Read M (snap_CRDT vm) readArgs updsNotYetApplied w"

text \<open>\<open>initCrdt\<close> is \<open>InitializeCrdt\<close> for the type of the object.\<close>

definition SnapshotVM_ReadOld ::
    "bool \<Rightarrow> ('a, 'w, 'u, 'd, 'r, 'st) CRDT_methods \<Rightarrow> (int \<Rightarrow> 'w \<Rightarrow> 'a \<times> 'w) \<Rightarrow> 'a SnapshotVM \<Rightarrow> 'r \<Rightarrow> ClockSiTimestamp
       \<Rightarrow> 'u list \<Rightarrow> 'w \<Rightarrow> ('st \<times> 'a SnapshotVM \<times> 'w) go" where
  "SnapshotVM_ReadOld vmDisabled M initCrdt vm readArgs readTs updsNotYetApplied w =
     (if vmDisabled
      then gbind (SnapshotVM_ReadLatest M vm readArgs updsNotYetApplied w) (\<lambda>state. Inr (state, vm, w))
      else case snaps_get vm (getMapByteKey readTs) of
             Some oldCRDT \<Rightarrow>
               gbind (m_Read M oldCRDT readArgs updsNotYetApplied w) (\<lambda>state. Inr (state, vm, w))
           | None \<Rightarrow>
               (case initCrdt (snap_replicaID vm) w of (oldCRDT, w') \<Rightarrow>
                  gbind (snaps_put (getMapByteKey readTs) oldCRDT vm) (\<lambda>vm'.
                  gbind (m_Read M oldCRDT readArgs updsNotYetApplied w') (\<lambda>state. Inr (state, vm', w')))))"

definition SnapshotVM_Downstream ::
    "bool \<Rightarrow> ('a, 'w, 'u, 'd, 'r, 'st) CRDT_methods \<Rightarrow> 'a SnapshotVM \<Rightarrow> ClockSiTimestamp \<Rightarrow> 'd \<Rightarrow> 'w
       \<Rightarrow> ('a SnapshotVM \<times> 'w \<times> 'd option) go" where
  "SnapshotVM_Downstream vmDisabled M vm updTs downstreamArgs w =
     gbind (m_Downstream M (snap_CRDT vm) updTs downstreamArgs w) (\<lambda>(w1, otherDownstreamArgs).
       if vmDisabled then Inr (vm, w1, otherDownstreamArgs)
       else case m_Copy M (snap_CRDT vm) w1 of (c, w2) \<Rightarrow>
         gbind (snaps_put (getMapByteKey updTs) c (vm\<lparr>snap_updatedSinceGC := True, snap_currVersion := Some updTs\<rparr>))
           (\<lambda>vm'. Inr (vm', w2, otherDownstreamArgs)))"

definition SnapshotVM_GC ::
    "('a, 'w, 'u, 'd, 'r, 'st) CRDT_methods \<Rightarrow> 'a SnapshotVM \<Rightarrow> ClockSiTimestamp \<Rightarrow> TimestampKey \<Rightarrow> 'w
       \<Rightarrow> ('a SnapshotVM \<times> 'w) go" where
  "SnapshotVM_GC M vm safeClk safeClkKey w =
     (if \<not> snap_updatedSinceGC vm then Inr (vm, w)
      else gbind (if IsHigher safeClk (snap_currVersion vm) then Inr (vm\<lparr>snaps := Some [], snap_updatedSinceGC := False\<rparr>)
                  else case snaps vm of
                         None \<Rightarrow> Inr vm
                       | Some m \<Rightarrow> gbind (GC_versions safeClkKey m) (\<lambda>vs. Inr (vm\<lparr>snaps := Some vs\<rparr>)))
             (\<lambda>vm'. Inr (vm', m_GC M (snap_CRDT vm) safeClk w)))"

section \<open>Counters as objects\<close>

text \<open>
  The counter's methods on the store of objects of \<open>Inversible\<close>; the world is the next free
  address and the store.
\<close>

definition obj_GC :: "nat \<Rightarrow> ClockSiTimestamp \<Rightarrow> ('s, 'op, 'e) store \<Rightarrow> ('s, 'op, 'e) store" where
  "obj_GC a safeClk st = st(a := (fst (st a), (snd (st a))\<lparr>vm_history := GC_history safeClk (vm_history (snd (st a)))\<rparr>))"

type_synonym counter_world = "nat \<times> (CounterCrdt, counter_op, counter_effect) store"

definition Counter_methods ::
    "bool \<Rightarrow> (nat, counter_world, counter_op, counter_op, unit, int) CRDT_methods" where
  "Counter_methods vmDisabled =
     \<lparr>m_Read = \<lambda>a r us w. Inr (Counter_Read (fst (snd w a)) us),
      m_Update = \<lambda>a u w. Inr (Counter_Update (fst (snd w a)) u),
      m_Downstream = \<lambda>a t d w. Inr ((fst w, obj_Downstream vmDisabled Counter_applyDownstream a t d (snd w)), None),
      m_Copy = \<lambda>a w. (fst w, (Suc (fst w), obj_Copy a (fst w) (snd w))),
      m_RebuildCRDTToVersion = \<lambda>a t w.
        gbind (obj_RebuildCRDTToVersion vmDisabled Counter_undoEffect Counter_reapplyOp t a (snd w)) (\<lambda>st. Inr (fst w, st)),
      m_GC = \<lambda>a t w. (fst w, obj_GC a t (snd w))\<rparr>"

text \<open>\<open>InitializeCrdt\<close> for a counter: the temporary receiver and the new object.\<close>

definition Counter_InitializeCrdt :: "int \<Rightarrow> counter_world \<Rightarrow> nat \<times> counter_world" where
  "Counter_InitializeCrdt replicaID w =
     (Suc (fst w), (Suc (Suc (fst w)), obj_Initialize 0 Counter_Initialize (fst w) (Suc (fst w)) (snd w)))"

section \<open>What the managers rely on and what they get\<close>

text \<open>
  The laws that objects made by \<open>InitializeCrdt\<close> keep: a copy is a new object that reads like
  the original, an update changes the reads of its object only, and, since the methods that a
  rebuild calls belong to a temporary object, a rebuild changes the reads of no object at all.
\<close>

locale detached_objects =
  fixes M :: "('a, 'w, 'u, 'd, 'r, 'st) CRDT_methods"
    and live :: "'w \<Rightarrow> 'a \<Rightarrow> bool"
  assumes copy_new: "live w a \<Longrightarrow> m_Copy M a w = (c, w') \<Longrightarrow> live w' c \<and> \<not> live w c \<and> m_Read M c r us w' = m_Read M a r us w"
    and copy_frame: "live w a \<Longrightarrow> m_Copy M a w = (c, w') \<Longrightarrow> live w b \<Longrightarrow> live w' b \<and> m_Read M b r us w' = m_Read M b r us w"
    and rebuild_frame: "live w a \<Longrightarrow> m_RebuildCRDTToVersion M a t w = Inr w' \<Longrightarrow> live w b \<Longrightarrow>
      live w' b \<and> m_Read M b r us w' = m_Read M b r us w"
    and downstream_frame: "live w a \<Longrightarrow> m_Downstream M a t d w = Inr (w', out) \<Longrightarrow> live w b \<Longrightarrow>
      live w' b \<and> (b \<noteq> a \<longrightarrow> m_Read M b r us w' = m_Read M b r us w)"
begin

lemma reverseOperations_latest:
  assumes "live w a" and "reverseOperations M a readTs w = Inr (c, w')"
  shows "live w' c" and "c \<noteq> a" and "live w' a"
    and "m_Read M c r us w' = m_Read M a r us w" and "m_Read M a r us w' = m_Read M a r us w"
proof -
  obtain w1 where w1: "m_Copy M a w = (c, w1)" "m_RebuildCRDTToVersion M c readTs w1 = Inr w'"
    using assms(2) by (auto simp: reverseOperations_def gbind_eq_Inr split: prod.splits)
  have "live w1 a" using copy_frame [OF assms(1) w1(1) assms(1)] by blast
  with assms(1) w1 show "live w' c" "c \<noteq> a" "live w' a"
    "m_Read M c r us w' = m_Read M a r us w" "m_Read M a r us w' = m_Read M a r us w"
    using copy_new [OF assms(1) w1(1)] copy_frame [OF assms(1) w1(1) assms(1)] rebuild_frame [OF _ w1(2)] by auto
qed

lemma ReadOld_first:
  assumes "live w (vm_CRDT vm)" and "OldVersions vm = []"
    and "InverseOpVM_ReadOld M vm args readTs us w = Inr (s, vm', w')"
  shows "m_Read M (vm_CRDT vm) args us w = Inr s"
    and "\<exists>c. OldVersions vm' = [(getMapByteKey readTs, c)] \<and> vm_CRDT vm' = vm_CRDT vm \<and> c \<noteq> vm_CRDT vm
          \<and> live w' c \<and> live w' (vm_CRDT vm) \<and> m_Read M c args us w' = Inr s"
proof -
  obtain c where c: "reverseOperations M (vm_CRDT vm) readTs w = Inr (c, w')"
      "m_Read M c args us w' = Inr s" "vm' = vm\<lparr>OldVersions := [(getMapByteKey readTs, c)]\<rparr>"
    using assms(2,3) by (auto simp: InverseOpVM_ReadOld_def getClosestMatch_def Let_def gbind_eq_Inr)
  note r = reverseOperations_latest [OF assms(1) c(1)]
  then show "m_Read M (vm_CRDT vm) args us w = Inr s" using c(2) by simp
  show "\<exists>c. OldVersions vm' = [(getMapByteKey readTs, c)] \<and> vm_CRDT vm' = vm_CRDT vm \<and> c \<noteq> vm_CRDT vm
      \<and> live w' c \<and> live w' (vm_CRDT vm) \<and> m_Read M c args us w' = Inr s"
    using r c by auto
qed

lemma ReadOld_stale:
  assumes "live w (vm_CRDT vm)" and "OldVersions vm = []"
    and "InverseOpVM_ReadOld M vm args readTs us w = Inr (s1, vm1, w1)"
    and "InverseOpVM_Downstream M vm1 updTs d w1 = Inr (vm2, w2, out)"
  shows "InverseOpVM_ReadOld M vm2 args readTs us w2 = Inr (s1, vm2, w2)"
proof -
  obtain c where c: "OldVersions vm1 = [(getMapByteKey readTs, c)]" "vm_CRDT vm1 = vm_CRDT vm" "c \<noteq> vm_CRDT vm"
      "live w1 c" "live w1 (vm_CRDT vm)" "m_Read M c args us w1 = Inr s1"
    using ReadOld_first(2) [OF assms(1-3)] by blast
  obtain o' where d: "m_Downstream M (vm_CRDT vm) updTs d w1 = Inr (w2, o')" and vm2: "OldVersions vm2 = OldVersions vm1"
    using assms(4) c(2) by (auto simp: InverseOpVM_Downstream_def gbind_eq_Inr)
  have "m_Read M c args us w2 = Inr s1" using downstream_frame [OF c(5) d c(4), of args us] c(3,6) by simp
  then show ?thesis by (simp add: InverseOpVM_ReadOld_def Let_def vm2 c(1))
qed

end

text \<open>
  \<open>detached T w a\<close>: an allocated object that is not one of the temporary objects \<open>T\<close> and
  whose stored methods belong to one of them.
\<close>

definition detached :: "nat set \<Rightarrow> counter_world \<Rightarrow> nat \<Rightarrow> bool" where
  "detached T w a \<longleftrightarrow> T \<subseteq> {..<fst w} \<and> a < fst w \<and> a \<notin> T \<and> vm_bound (snd (snd w a)) \<in> T"

lemma obj_Rebuild_bounds:
  "obj_RebuildCRDTToVersion dis undo reapply t a st = Inr st' \<Longrightarrow> vm_bound (snd (st' b)) = vm_bound (snd (st b))"
  by (auto simp: obj_RebuildCRDTToVersion_def Let_def gbind_eq_Inr)

lemma obj_Rebuild_others:
  "obj_RebuildCRDTToVersion dis undo reapply t a st = Inr st' \<Longrightarrow> b \<noteq> vm_bound (snd (st a)) \<Longrightarrow> fst (st' b) = fst (st b)"
  by (auto simp: obj_RebuildCRDTToVersion_def Let_def gbind_eq_Inr)

lemma obj_Downstream_others: "b \<noteq> a \<Longrightarrow> obj_Downstream dis app a t u st b = st b"
  by (simp add: obj_Downstream_def split: prod.split)

interpretation cnt_obj: detached_objects "Counter_methods dis" "detached T"
proof
  fix w w' :: counter_world and a c r us
  assume "detached T w a" "m_Copy (Counter_methods dis) a w = (c, w')"
  then show "detached T w' c \<and> \<not> detached T w c \<and> m_Read (Counter_methods dis) c r us w' = m_Read (Counter_methods dis) a r us w"
    by (auto simp: Counter_methods_def detached_def obj_Copy_def)
next
  fix w w' :: counter_world and a b c r us
  assume "detached T w a" "m_Copy (Counter_methods dis) a w = (c, w')" "detached T w b"
  then show "detached T w' b \<and> m_Read (Counter_methods dis) b r us w' = m_Read (Counter_methods dis) b r us w"
    by (auto simp: Counter_methods_def detached_def obj_Copy_def)
next
  fix w w' :: counter_world and a b t r us
  assume l: "detached T w a" "detached T w b" and "m_RebuildCRDTToVersion (Counter_methods dis) a t w = Inr w'"
  then obtain st where st: "obj_RebuildCRDTToVersion dis Counter_undoEffect Counter_reapplyOp t a (snd w) = Inr st"
      "w' = (fst w, st)"
    by (auto simp: Counter_methods_def gbind_eq_Inr)
  have "b \<noteq> vm_bound (snd (snd w a))" using l by (auto simp: detached_def)
  with l show "detached T w' b \<and> m_Read (Counter_methods dis) b r us w' = m_Read (Counter_methods dis) b r us w"
    using obj_Rebuild_bounds [OF st(1)] obj_Rebuild_others [OF st(1)]
    by (simp add: detached_def Counter_methods_def st(2))
next
  fix w w' :: counter_world and a b t d out r us
  assume "detached T w a" "m_Downstream (Counter_methods dis) a t d w = Inr (w', out)" "detached T w b"
  then show "detached T w' b \<and> (b \<noteq> a \<longrightarrow> m_Read (Counter_methods dis) b r us w' = m_Read (Counter_methods dis) b r us w)"
    by (auto simp: Counter_methods_def detached_def obj_Downstream_others)
qed

lemma Counter_InitializeCrdt_detached:
  "Counter_InitializeCrdt replicaID w = (a, w') \<Longrightarrow> detached {fst w} w' a"
  by (auto simp: Counter_InitializeCrdt_def detached_def obj_Initialize_def)

text \<open>
  Old reads of a counter through the inverse-operation manager. Of a counter made by
  \<open>InitializeCrdt\<close>, the first read at an old clock returns the value that is current at that
  moment, whatever the clock, and that value stays in the cache: after any further update the
  same read returns it again, neither the old nor the new version.
\<close>

theorem InverseOpVM_old_reads:
  assumes "Counter_InitializeCrdt replicaID w0 = (a, wa)"
    and "InverseOpVM_Initialize a currTs = vm0"
    and "InverseOpVM_Downstream (Counter_methods dis) vm0 t0 d0 wa = Inr (vm, w, out0)"
    and "InverseOpVM_ReadOld (Counter_methods dis) vm () readTs us w = Inr (s1, vm1, w1)"
    and "InverseOpVM_Downstream (Counter_methods dis) vm1 updTs d w1 = Inr (vm2, w2, out)"
  shows "InverseOpVM_ReadLatest (Counter_methods dis) vm () us w = Inr s1
    \<and> InverseOpVM_ReadOld (Counter_methods dis) vm2 () readTs us w2 = Inr (s1, vm2, w2)"
proof -
  have l0: "detached {fst w0} wa a" by (rule Counter_InitializeCrdt_detached [OF assms(1)])
  obtain o' where d: "m_Downstream (Counter_methods dis) a t0 d0 wa = Inr (w, o')"
    and vm: "vm_CRDT vm = a" "OldVersions vm = []"
    using assms(2,3) by (auto simp: InverseOpVM_Downstream_def InverseOpVM_Initialize_def gbind_eq_Inr)
  have l: "detached {fst w0} w (vm_CRDT vm)"
    using cnt_obj.downstream_frame [OF l0 d l0] by (simp add: vm)
  show ?thesis
    using cnt_obj.ReadOld_first(1) [OF l vm(2) assms(4)] cnt_obj.ReadOld_stale [OF l vm(2) assms(4,5)]
    by (simp add: InverseOpVM_ReadLatest_def)
qed

theorem InverseOpVM_old_reads_witness:
  "\<exists>vm w s1 vm1 w1 vm2 w2.
     InverseOpVM_ReadOld (Counter_methods True) vm () [(1, 2)] [] w = Inr (7, vm1, w1)
     \<and> InverseOpVM_Downstream (Counter_methods True) vm1 [(1, 9)] (Increment 5) w1 = Inr (vm2, w2, None)
     \<and> InverseOpVM_ReadOld (Counter_methods True) vm2 () [(1, 2)] [] w2 = Inr (7, vm2, w2)
     \<and> InverseOpVM_ReadLatest (Counter_methods True) vm2 () [] w2 = Inr 12"
proof -
  define st :: "(CounterCrdt, counter_op, counter_effect) store" where
    "st = (\<lambda>a. (0, \<lparr>vm_history = [], vm_bound = 0\<rparr>))"
  define a where "a = fst (Counter_InitializeCrdt 1 (0, st))"
  define wa where "wa = snd (Counter_InitializeCrdt 1 (0, st))"
  define vm0 where "vm0 = InverseOpVM_Initialize a [(1, 1)]"
  let ?M = "Counter_methods True"
  have w: "int32 7 = 7" "int32 12 = 12" by (simp_all add: swrap_def)
  obtain vm w1 where d0: "InverseOpVM_Downstream ?M vm0 [(1, 5)] (Increment 7) wa = Inr (vm, w1, None)"
    and v: "vm_CRDT vm = a" "OldVersions vm = []" "fst (snd w1 a) = 7" "snd (snd w1 a) = \<lparr>vm_history = [], vm_bound = 0\<rparr>"
      "fst w1 = 2" "a = 1"
    by (simp add: InverseOpVM_Downstream_def Counter_methods_def vm0_def InverseOpVM_Initialize_def a_def wa_def
        Counter_InitializeCrdt_def obj_Initialize_def obj_Downstream_def downstream_step_def addToHistory_def
        Counter_Initialize_def w)
  obtain vm1 w2 where r1: "InverseOpVM_ReadOld ?M vm () [(1, 2)] [] w1 = Inr (7, vm1, w2)"
    and v1: "vm_CRDT vm1 = a" "fst (snd w2 a) = 7" "snd (snd w2 a) = \<lparr>vm_history = [], vm_bound = 0\<rparr>"
    using v by (simp add: InverseOpVM_ReadOld_def Let_def getClosestMatch_def reverseOperations_def Counter_methods_def
        obj_Copy_def obj_RebuildCRDTToVersion_def rebuildCRDTToVersion_def Counter_Read_def)
  obtain vm2 w3 where d1: "InverseOpVM_Downstream ?M vm1 [(1, 9)] (Increment 5) w2 = Inr (vm2, w3, None)"
    and v2: "InverseOpVM_ReadLatest ?M vm2 () [] w3 = Inr 12"
    using v1 by (cases "snd w2 a") (simp add: InverseOpVM_Downstream_def Counter_methods_def obj_Downstream_def
        downstream_step_def addToHistory_def InverseOpVM_ReadLatest_def Counter_Read_def w)
  have i: "Counter_InitializeCrdt 1 (0, st) = (a, wa)" by (simp add: a_def wa_def)
  from InverseOpVM_old_reads [OF i vm0_def [symmetric] d0 r1 d1] r1 d1 v2 show ?thesis by blast
qed

section \<open>Choosing and collecting cached versions\<close>

text \<open>
  The order of the keys: \<open>hlt\<close> is what \<open>IsLower\<close> decides on the keys of two clocks of the
  same replicas. It is a strict order, and below it implies lower.
\<close>

definition hlt :: "ClockSiTimestamp \<Rightarrow> ClockSiTimestamp \<Rightarrow> bool" where
  "hlt a b \<longleftrightarrow> halves_le a b \<and> \<not> eq_clk a b"

lemma halves_le_antisym: "halves_le a b \<Longrightarrow> halves_le b a \<Longrightarrow> eq_clk a b"
  unfolding halves_le_def eq_clk_def by (meson halves_le_le order_antisym zero_less_numeral zero_less_power)

lemma halves_le_trans: "halves_le a b \<Longrightarrow> halves_le b c \<Longrightarrow> halves_le a c"
  unfolding halves_le_def by (meson order_trans)

lemma halves_le_eq: "eq_clk a c \<Longrightarrow> halves_le b c \<Longrightarrow> halves_le b a"
  by (simp add: halves_le_def eq_clk_def)

lemma hlt_trans:
  assumes "hlt a b" and "hlt b c"
  shows "hlt a c"
proof -
  have "\<not> eq_clk a c"
  proof
    assume "eq_clk a c"
    then have "halves_le b a" using assms(2) halves_le_eq by (auto simp: hlt_def)
    with assms(1) show False using halves_le_antisym by (auto simp: hlt_def)
  qed
  with assms halves_le_trans [of a b c] show ?thesis by (simp add: hlt_def)
qed

lemma hlt_irrefl [simp]: "\<not> hlt a a"
  by (simp add: hlt_def eq_clk_def)

definition valid_clks :: "ClockSiTimestamp \<Rightarrow> ClockSiTimestamp set \<Rightarrow> bool" where
  "valid_clks t S \<longleftrightarrow> (\<forall>a \<in> insert t S. nonneg_clk a \<and> same_ids a t)"

lemma key_orders:
  assumes "valid_clks t S" and "a \<in> insert t S" and "b \<in> insert t S"
  shows "ByteKey_IsLower (getMapByteKey a) (getMapByteKey b) = Inr (hlt a b)"
    and "ByteKey_IsHigher (getMapByteKey a) (getMapByteKey b) = Inr (hlt b a)"
    and "ByteKey_IsLowerOrEqual (getMapByteKey a) (getMapByteKey b) = Inr (halves_le a b)"
    and "hlt a b \<Longrightarrow> IsLower a (Some b)"
    and "getMapByteKey a = getMapByteKey b \<longleftrightarrow> eq_clk a b"
proof -
  have t: "nonneg_clk a" "same_ids a t" "nonneg_clk b" "same_ids b t"
    using assms unfolding valid_clks_def by blast+
  then have v: "nonneg_clk a" "nonneg_clk b" "same_ids a b" "same_ids b a"
    by (simp_all add: same_ids_def)
  show "ByteKey_IsLower (getMapByteKey a) (getMapByteKey b) = Inr (hlt a b)"
    "ByteKey_IsLowerOrEqual (getMapByteKey a) (getMapByteKey b) = Inr (halves_le a b)"
    using ByteKey_halves [OF v(1,2,3)] by (simp_all add: hlt_def)
  show "ByteKey_IsHigher (getMapByteKey a) (getMapByteKey b) = Inr (hlt b a)"
    using ByteKey_halves [OF v(2,1,4)] by (simp add: hlt_def)
  show "hlt a b \<Longrightarrow> IsLower a (Some b)"
    using v halves_lower [of a b] by (simp add: hlt_def nonneg_clk_def wf_clk_def)
  show "getMapByteKey a = getMapByteKey b \<longleftrightarrow> eq_clk a b"
    using v by (intro getMapByteKey_eq_iff) (simp_all add: nonneg_clk_def)
qed

text \<open>What the loop of \<open>getClosestMatch\<close> has found after the entries \<open>p\<close>.\<close>

definition closest_of :: "ClockSiTimestamp \<Rightarrow> (ClockSiTimestamp \<times> 'a) list \<Rightarrow> (ClockSiTimestamp \<times> 'a) option \<Rightarrow> bool" where
  "closest_of t p best = (case best of
      None \<Rightarrow> \<forall>e \<in> set p. \<not> hlt t (fst e)
    | Some b \<Rightarrow> b \<in> set p \<and> hlt t (fst b) \<and> (\<forall>e \<in> set p. hlt t (fst e) \<longrightarrow> \<not> hlt (fst e) (fst b)))"

abbreviation key_of :: "ClockSiTimestamp \<times> 'a \<Rightarrow> TimestampKey \<times> 'a" where
  "key_of e \<equiv> (getMapByteKey (fst e), snd e)"

fun closer :: "ClockSiTimestamp \<Rightarrow> (ClockSiTimestamp \<times> 'a) option \<Rightarrow> ClockSiTimestamp \<times> 'a \<Rightarrow> (ClockSiTimestamp \<times> 'a) option" where
  "closer t None e = (if hlt t (fst e) then Some e else None)"
| "closer t (Some b) e = (if hlt t (fst e) \<and> hlt (fst e) (fst b) then Some e else Some b)"

lemma closest_step_closer:
  assumes "valid_clks t S" and "fst e \<in> S" and "\<forall>b. best = Some b \<longrightarrow> fst b \<in> S"
  shows "closest_step (getMapByteKey t) (map_option key_of best) (key_of e) = Inr (map_option key_of (closer t best e))"
proof (cases best)
  case None
  then show ?thesis using key_orders(2) [OF assms(1), of "fst e" t] assms(2) by simp
next
  case (Some b)
  then have "fst b \<in> S" using assms(3) by simp
  then show ?thesis
    using key_orders(2) [OF assms(1), of "fst e" t] key_orders(1) [OF assms(1), of "fst e" "fst b"] assms(2)
    by (simp add: Some)
qed

lemma closest_of_closer:
  assumes "closest_of t p best"
  shows "closest_of t (p @ [e]) (closer t best e)"
proof (cases best)
  case None
  then show ?thesis using assms by (simp add: closest_of_def)
next
  case (Some b)
  with assms have b: "b \<in> set p" "hlt t (fst b)" "\<And>x. x \<in> set p \<Longrightarrow> hlt t (fst x) \<Longrightarrow> \<not> hlt (fst x) (fst b)"
    by (auto simp: closest_of_def)
  show ?thesis
  proof (cases "hlt t (fst e) \<and> hlt (fst e) (fst b)")
    case True
    then have "\<not> hlt (fst x) (fst e)" if "x \<in> set p" "hlt t (fst x)" for x
      using b(3) [OF that] hlt_trans [of "fst x" "fst e" "fst b"] by blast
    with True Some show ?thesis by (simp add: closest_of_def)
  next
    case False
    with b Some show ?thesis by (auto simp: closest_of_def)
  qed
qed

lemma closest_fold:
  assumes "valid_clks t (fst ` set (p @ q))" and "closest_of t p best"
  shows "closest_of t (p @ q) (foldl (closer t) best q)
    \<and> gfold (closest_step (getMapByteKey t)) (map_option key_of best) (map key_of q)
      = Inr (map_option key_of (foldl (closer t) best q))"
  using assms
proof (induction q arbitrary: p best)
  case (Cons e q)
  have "\<forall>b. best = Some b \<longrightarrow> fst b \<in> fst ` set (p @ e # q)"
    using Cons.prems(2) by (cases best) (simp_all add: closest_of_def)
  then have "closest_step (getMapByteKey t) (map_option key_of best) (key_of e) = Inr (map_option key_of (closer t best e))"
    by (intro closest_step_closer [OF Cons.prems(1)]) simp_all
  moreover have "valid_clks t (fst ` set ((p @ [e]) @ q))" using Cons.prems(1) by simp
  ultimately show ?case using Cons.IH [OF _ closest_of_closer [OF Cons.prems(2)]] by simp
qed simp

lemma getClosestMatch_closest:
  assumes "valid_clks t (fst ` set cl)" and "OldVersions vm = map key_of cl"
  shows "(\<forall>e \<in> set cl. \<not> hlt t (fst e)) \<and> getClosestMatch vm t = Inr (vm_CRDT vm)
    \<or> (\<exists>b \<in> set cl. hlt t (fst b) \<and> (\<forall>e \<in> set cl. hlt t (fst e) \<longrightarrow> \<not> hlt (fst e) (fst b))
         \<and> getClosestMatch vm t = Inr (snd b))"
proof -
  have f: "closest_of t cl (foldl (closer t) None cl)"
    "gfold (closest_step (getMapByteKey t)) None (map key_of cl) = Inr (map_option key_of (foldl (closer t) None cl))"
    using closest_fold [of t "[]" cl None] assms(1) by (simp_all add: closest_of_def)
  then show ?thesis
    by (cases "foldl (closer t) None cl") (auto simp: getClosestMatch_def assms(2) closest_of_def)
qed

text \<open>
  The loop of the collection after the entries \<open>p\<close> of all entries \<open>cl\<close>: \<open>vs\<close> is what is
  left and \<open>best\<close> the highest safe entry found.
\<close>

definition gc_inv ::
    "ClockSiTimestamp \<Rightarrow> (ClockSiTimestamp \<times> 'a) list \<Rightarrow> (ClockSiTimestamp \<times> 'a) list
       \<Rightarrow> (TimestampKey \<times> 'a) list \<Rightarrow> (ClockSiTimestamp \<times> 'a) option \<Rightarrow> bool" where
  "gc_inv safe cl p vs best \<longleftrightarrow>
     set vs \<subseteq> key_of ` set cl
     \<and> (\<forall>e \<in> set cl. e \<notin> set p \<or> \<not> halves_le (fst e) safe \<longrightarrow> key_of e \<in> set vs)
     \<and> (\<forall>b. best = Some b \<longrightarrow> b \<in> set p \<and> halves_le (fst b) safe \<and> key_of b \<in> set vs)
     \<and> (\<forall>e \<in> set cl. key_of e \<notin> set vs \<longrightarrow> (\<exists>b. best = Some b \<and> hlt (fst e) (fst b)))"

definition gc_next ::
    "ClockSiTimestamp \<Rightarrow> (TimestampKey \<times> 'a) list \<times> (ClockSiTimestamp \<times> 'a) option \<Rightarrow> ClockSiTimestamp \<times> 'a
       \<Rightarrow> (TimestampKey \<times> 'a) list \<times> (ClockSiTimestamp \<times> 'a) option" where
  "gc_next safe st e = (if \<not> halves_le (fst e) safe then st
     else case snd st of None \<Rightarrow> (fst st, Some e)
       | Some b \<Rightarrow> if hlt (fst b) (fst e) then (AList.delete (getMapByteKey (fst b)) (fst st), Some e) else st)"

lemma gc_step_next:
  assumes "valid_clks safe S" and "fst e \<in> S" and "\<forall>b. best = Some b \<longrightarrow> fst b \<in> S"
  shows "gc_step (getMapByteKey safe) (vs, map_option (getMapByteKey \<circ> fst) best) (getMapByteKey (fst e))
    = Inr (fst (gc_next safe (vs, best) e), map_option (getMapByteKey \<circ> fst) (snd (gc_next safe (vs, best) e)))"
proof (cases best)
  case None
  then show ?thesis using key_orders(3) [OF assms(1), of "fst e" safe] assms(2) by (simp add: gc_step_def gc_next_def)
next
  case (Some b)
  then have "fst b \<in> S" using assms(3) by simp
  then show ?thesis
    using key_orders(3) [OF assms(1), of "fst e" safe] key_orders(2) [OF assms(1), of "fst e" "fst b"] assms(2)
    by (simp add: Some gc_step_def gc_next_def)
qed

lemma gc_inv_next:
  assumes "gc_inv safe cl p vs best" and "e \<in> set cl" and "e \<notin> set p" and "distinct (map (getMapByteKey \<circ> fst) cl)"
    and "set p \<subseteq> set cl"
  shows "gc_inv safe cl (p @ [e]) (fst (gc_next safe (vs, best) e)) (snd (gc_next safe (vs, best) e))"
proof (cases "halves_le (fst e) safe \<and> (\<exists>b. best = Some b \<and> hlt (fst b) (fst e))")
  case False
  have "key_of e \<in> set vs" using assms(1,2,3) by (simp add: gc_inv_def)
  with False assms(1) show ?thesis by (auto simp: gc_inv_def gc_next_def split: option.split)
next
  case True
  then obtain b where b: "best = Some b" "hlt (fst b) (fst e)" and safe: "halves_le (fst e) safe" by blast
  have bp: "b \<in> set p" "halves_le (fst b) safe" using assms(1) b(1) by (auto simp: gc_inv_def)
  have inj: "x = b" if "x \<in> set cl" "getMapByteKey (fst x) = getMapByteKey (fst b)" for x
    using that bp(1) assms(4,5) by (auto simp: distinct_map inj_on_def)
  have ne: "getMapByteKey (fst e) \<noteq> getMapByteKey (fst b)" using inj [OF assms(2)] bp(1) assms(3) by auto
  have del: "set (AList.delete (getMapByteKey (fst b)) vs) = {x \<in> set vs. fst x \<noteq> getMapByteKey (fst b)}"
    by (auto simp: AList.delete_eq)
  have gone: "\<exists>c. Some e = Some c \<and> hlt (fst x) (fst c)"
    if "x \<in> set cl" "key_of x \<notin> {y \<in> set vs. fst y \<noteq> getMapByteKey (fst b)}" for x
  proof (cases "x = b")
    case True
    then show ?thesis using b(2) by simp
  next
    case False
    then have "getMapByteKey (fst x) \<noteq> getMapByteKey (fst b)" using inj [OF that(1)] by blast
    with that(2) have "key_of x \<notin> set vs" by simp
    with assms(1) that(1) b(1) have "hlt (fst x) (fst b)" by (auto simp: gc_inv_def)
    then show ?thesis using b(2) hlt_trans by blast
  qed
  have kept: "key_of x \<in> {y \<in> set vs. fst y \<noteq> getMapByteKey (fst b)}"
    if "x \<in> set cl" "x \<notin> set (p @ [e]) \<or> \<not> halves_le (fst x) safe" for x
  proof -
    have "x \<noteq> b" using that(2) bp by auto
    then have "getMapByteKey (fst x) \<noteq> getMapByteKey (fst b)" using inj [OF that(1)] by blast
    moreover have "key_of x \<in> set vs" using assms(1) that by (auto simp: gc_inv_def)
    ultimately show ?thesis by simp
  qed
  have "key_of e \<in> set vs" using assms(1,2,3) by (simp add: gc_inv_def)
  moreover have "set vs \<subseteq> key_of ` set cl" using assms(1) by (simp add: gc_inv_def)
  ultimately show ?thesis
    using b safe ne gone kept unfolding gc_inv_def gc_next_def by (simp add: del) blast
qed

lemma gc_fold:
  assumes "valid_clks safe (fst ` set cl)" and "distinct (map (getMapByteKey \<circ> fst) cl)"
    and "cl = p @ q" and "gc_inv safe cl p vs best"
  shows "\<exists>vs' best'. gc_inv safe cl cl vs' best' \<and>
    gfold (gc_step (getMapByteKey safe)) (vs, map_option (getMapByteKey \<circ> fst) best) (map (getMapByteKey \<circ> fst) q)
      = Inr (vs', map_option (getMapByteKey \<circ> fst) best')"
  using assms(3,4)
proof (induction q arbitrary: p vs best)
  case (Cons e q)
  have e: "e \<in> set cl" "e \<notin> set p" "set p \<subseteq> set cl"
    using Cons.prems(1) assms(2) by (auto simp: distinct_map)
  have "\<forall>b. best = Some b \<longrightarrow> fst b \<in> fst ` set cl"
  proof (intro allI impI imageI)
    fix b
    assume "best = Some b"
    then show "b \<in> set cl" using Cons.prems(2) e(3) unfolding gc_inv_def by blast
  qed
  note step = gc_step_next [OF assms(1) imageI [OF e(1)] this, of vs]
  from Cons.IH [OF _ gc_inv_next [OF Cons.prems(2) e(1,2) assms(2) e(3)]] Cons.prems(1) step
  show ?case by (simp add: comp_def)
qed auto

text \<open>
  The cache of old versions is used and collected safely. The version that an uncached
  read starts from is the live object, or a cached version of a strictly higher clock with no
  other usable one below it; the comparisons do not panic. A collection keeps every version
  that is not below the safe clock, and drops another only when it keeps a version of a
  strictly higher clock that is itself at or below the safe clock.
\<close>

theorem InverseOpVM_cache:
  assumes "valid_clks t (fst ` set cl)" and "valid_clks safe (fst ` set cl)"
    and "distinct (map (getMapByteKey \<circ> fst) cl)" and "OldVersions vm = map key_of cl"
  shows "(getClosestMatch vm t = Inr (vm_CRDT vm) \<and> (\<forall>e \<in> set cl. \<not> hlt t (fst e))
      \<or> (\<exists>b \<in> set cl. getClosestMatch vm t = Inr (snd b) \<and> IsLower t (Some (fst b))
           \<and> (\<forall>e \<in> set cl. hlt t (fst e) \<longrightarrow> \<not> hlt (fst e) (fst b))))
    \<and> (\<exists>vs. GC_versions (getMapByteKey safe) (OldVersions vm) = Inr vs \<and> set vs \<subseteq> set (OldVersions vm)
        \<and> (\<forall>e \<in> set cl. \<not> halves_le (fst e) safe \<longrightarrow> key_of e \<in> set vs)
        \<and> (\<forall>e \<in> set cl. key_of e \<notin> set vs \<longrightarrow>
             (\<exists>b \<in> set cl. key_of b \<in> set vs \<and> IsLower (fst e) (Some (fst b)) \<and> halves_le (fst b) safe)))"
proof
  have low: "IsLower t (Some (fst b))" if "b \<in> set cl" "hlt t (fst b)" for b
    using key_orders(4) [OF assms(1), of t "fst b"] that by simp
  show "getClosestMatch vm t = Inr (vm_CRDT vm) \<and> (\<forall>e \<in> set cl. \<not> hlt t (fst e))
      \<or> (\<exists>b \<in> set cl. getClosestMatch vm t = Inr (snd b) \<and> IsLower t (Some (fst b))
           \<and> (\<forall>e \<in> set cl. hlt t (fst e) \<longrightarrow> \<not> hlt (fst e) (fst b)))"
    using getClosestMatch_closest [OF assms(1,4)] low by blast
  have "gc_inv safe cl [] (map key_of cl) None" by (auto simp: gc_inv_def)
  from gc_fold [OF assms(2,3) _ this] obtain vs best where inv: "gc_inv safe cl cl vs best"
    and f: "gfold (gc_step (getMapByteKey safe)) (map key_of cl, None) (map (getMapByteKey \<circ> fst) cl)
      = Inr (vs, map_option (getMapByteKey \<circ> fst) best)" by auto
  have "GC_versions (getMapByteKey safe) (OldVersions vm) = Inr vs"
    using f by (simp add: GC_versions_def assms(4) comp_def)
  moreover have "\<exists>b \<in> set cl. key_of b \<in> set vs \<and> IsLower (fst e) (Some (fst b)) \<and> halves_le (fst b) safe"
    if e: "e \<in> set cl" "key_of e \<notin> set vs" for e
  proof -
    obtain b where b: "best = Some b" "hlt (fst e) (fst b)" using inv e unfolding gc_inv_def by blast
    then have "b \<in> set cl \<and> halves_le (fst b) safe \<and> key_of b \<in> set vs" using inv unfolding gc_inv_def by blast
    moreover from this e b(2) have "IsLower (fst e) (Some (fst b))"
      using key_orders(4) [OF assms(2), of "fst e" "fst b"] by simp
    ultimately show ?thesis by blast
  qed
  moreover have "set vs \<subseteq> set (OldVersions vm)" using inv by (simp add: gc_inv_def assms(4))
  moreover have "\<forall>e \<in> set cl. \<not> halves_le (fst e) safe \<longrightarrow> key_of e \<in> set vs" using inv by (simp add: gc_inv_def)
  ultimately show "\<exists>vs. GC_versions (getMapByteKey safe) (OldVersions vm) = Inr vs \<and> set vs \<subseteq> set (OldVersions vm)
      \<and> (\<forall>e \<in> set cl. \<not> halves_le (fst e) safe \<longrightarrow> key_of e \<in> set vs)
      \<and> (\<forall>e \<in> set cl. key_of e \<notin> set vs \<longrightarrow>
           (\<exists>b \<in> set cl. key_of b \<in> set vs \<and> IsLower (fst e) (Some (fst b)) \<and> halves_le (fst b) safe))"
    by blast
qed

theorem InverseOpVM_cache_witness:
  "\<exists>vs. GC_versions (getMapByteKey [(1, 5)]) (map key_of [([(1, 3)], CHR ''a''), ([(1, 4)], CHR ''b''), ([(1, 7)], CHR ''c'')]) = Inr vs
     \<and> key_of ([(1, 7)], CHR ''c'') \<in> set vs"
proof -
  let ?cl = "[([(1, 3)], CHR ''a''), ([(1, 4)], CHR ''b''), ([(1, 7)], CHR ''c'')]"
  let ?vm = "\<lparr>vm_CRDT = CHR ''d'', OldVersions = map key_of ?cl, updatedSinceGC = True, currVersion = Some [(1, 8)]\<rparr>"
  have v: "valid_clks [(1, 5)] (fst ` set ?cl)"
    by (auto simp: valid_clks_def nonneg_clk_def wf_clk_def wf_map_def in_int_def same_ids_def)
  have d: "distinct (map (getMapByteKey \<circ> fst) ?cl)"
    using key_orders(5) [OF v, of "[(1, 3)]" "[(1, 4)]"] key_orders(5) [OF v, of "[(1, 3)]" "[(1, 7)]"]
      key_orders(5) [OF v, of "[(1, 4)]" "[(1, 7)]"]
    by (auto simp: eq_clk_def vget_def)
  have n: "\<not> halves_le [(1, 7)] [(1, 5)]" by (auto simp: halves_le_def vget_def)
  from InverseOpVM_cache [OF v v d, of ?vm] n show ?thesis by auto
qed

section \<open>Snapshot reads\<close>

lemma SnapshotVM_DownstreamE:
  assumes "SnapshotVM_Downstream False M vm t d w = Inr (vm', w', out)"
  obtains wa c m where "m_Downstream M (snap_CRDT vm) t d w = Inr (wa, out)" "m_Copy M (snap_CRDT vm) wa = (c, w')"
    "snaps vm = Some m" "snaps vm' = Some (mput (getMapByteKey t) c m)" "snap_CRDT vm' = snap_CRDT vm"
proof -
  obtain wa o1 where d: "m_Downstream M (snap_CRDT vm) t d w = Inr (wa, o1)"
    using assms by (auto simp: SnapshotVM_Downstream_def gbind_eq_Inr)
  obtain c wb where c: "m_Copy M (snap_CRDT vm) wa = (c, wb)" by (metis surj_pair)
  have "snaps vm \<noteq> None" using assms by (cases "snaps vm") (auto simp: SnapshotVM_Downstream_def d c snaps_put_def)
  then obtain m where m: "snaps vm = Some m" by blast
  have "vm' = vm\<lparr>snap_updatedSinceGC := True, snap_currVersion := Some t, snaps := Some (mput (getMapByteKey t) c m)\<rparr>
      \<and> wb = w' \<and> o1 = out"
    using assms by (auto simp: SnapshotVM_Downstream_def d c snaps_put_def m)
  with d c m that show ?thesis by simp
qed

context detached_objects
begin

lemma SnapshotVM_read_back:
  assumes "live w (snap_CRDT vm)" and "SnapshotVM_Downstream False M vm t d w = Inr (vm1, w1, out)"
    and "SnapshotVM_Downstream False M vm1 t' d' w1 = Inr (vm2, w2, out')"
    and "getMapByteKey t' \<noteq> getMapByteKey t"
    and "SnapshotVM_ReadLatest M vm1 args us w1 = Inr s"
  shows "SnapshotVM_ReadOld False M init vm2 args t us w2 = Inr (s, vm2, w2)"
proof -
  let ?a = "snap_CRDT vm"
  obtain wa c m1 where 1: "m_Downstream M ?a t d w = Inr (wa, out)" "m_Copy M ?a wa = (c, w1)"
      "snaps vm = Some m1" "snaps vm1 = Some (mput (getMapByteKey t) c m1)" "snap_CRDT vm1 = ?a"
    using assms(2) by (rule SnapshotVM_DownstreamE)
  obtain wc e m2 where "m_Downstream M (snap_CRDT vm1) t' d' w1 = Inr (wc, out')" "m_Copy M (snap_CRDT vm1) wc = (e, w2)"
      "snaps vm1 = Some m2" "snaps vm2 = Some (mput (getMapByteKey t') e m2)"
    using assms(3) by (rule SnapshotVM_DownstreamE)
  then have 2: "m_Downstream M ?a t' d' w1 = Inr (wc, out')" "m_Copy M ?a wc = (e, w2)"
      "snaps vm2 = Some (mput (getMapByteKey t') e (mput (getMapByteKey t) c m1))"
    using 1(4,5) by simp_all
  have la: "live wa ?a" using downstream_frame [OF assms(1) 1(1) assms(1)] by blast
  have c: "live w1 c" "c \<noteq> ?a" "live w1 ?a" "m_Read M c args us w1 = Inr s"
    using copy_new [OF la 1(2), of args us] copy_frame [OF la 1(2) la, of args us] la assms(5)
    by (auto simp: SnapshotVM_ReadLatest_def 1(5))
  have "m_Read M c args us wc = Inr s" "live wc c" "live wc ?a"
    using downstream_frame [OF c(3) 2(1) c(1), of args us] downstream_frame [OF c(3) 2(1) c(3)] c(2,4) by simp_all
  then have "m_Read M c args us w2 = Inr s" using copy_frame [OF _ 2(2), of c args us] by simp
  then show ?thesis
    using assms(4) by (simp add: SnapshotVM_ReadOld_def snaps_get_def 2(3) map_of_mput)
qed

end

text \<open>
  Old reads through the snapshot manager. The snapshot taken by an update is what a later
  read at exactly that update's clock returns. A read at any clock without a snapshot of its
  own, in particular between two updates, returns a new, empty counter whatever was applied
  before it, and stores that under the clock.
\<close>

theorem SnapshotVM_reads:
  assumes "detached T w (snap_CRDT vm)"
    and "SnapshotVM_Downstream False (Counter_methods dis) vm t d w = Inr (vm1, w1, out)"
    and "SnapshotVM_Downstream False (Counter_methods dis) vm1 t' d' w1 = Inr (vm2, w2, out')"
    and "getMapByteKey t' \<noteq> getMapByteKey t" and "snaps_get vm2 (getMapByteKey readTs) = None"
  shows "SnapshotVM_ReadOld False (Counter_methods dis) Counter_InitializeCrdt vm2 () t us w2
      = gbind (SnapshotVM_ReadLatest (Counter_methods dis) vm1 () us w1) (\<lambda>s. Inr (s, vm2, w2))
    \<and> (\<exists>vm3 w3 a. SnapshotVM_ReadOld False (Counter_methods dis) Counter_InitializeCrdt vm2 () readTs us w2
          = Inr (Counter_Read 0 us, vm3, w3) \<and> snaps_get vm3 (getMapByteKey readTs) = Some a)"
proof
  have "SnapshotVM_ReadLatest (Counter_methods dis) vm1 () us w1 = Inr (Counter_Read (fst (snd w1 (snap_CRDT vm1))) us)"
    by (simp add: SnapshotVM_ReadLatest_def Counter_methods_def)
  with cnt_obj.SnapshotVM_read_back [OF assms(1-4) this]
  show "SnapshotVM_ReadOld False (Counter_methods dis) Counter_InitializeCrdt vm2 () t us w2
      = gbind (SnapshotVM_ReadLatest (Counter_methods dis) vm1 () us w1) (\<lambda>s. Inr (s, vm2, w2))" by simp
  have "snaps vm2 \<noteq> None" using assms(3) by (rule SnapshotVM_DownstreamE) simp
  then show "\<exists>vm3 w3 a. SnapshotVM_ReadOld False (Counter_methods dis) Counter_InitializeCrdt vm2 () readTs us w2
      = Inr (Counter_Read 0 us, vm3, w3) \<and> snaps_get vm3 (getMapByteKey readTs) = Some a"
    using assms(5) by (auto simp: SnapshotVM_ReadOld_def snaps_put_def snaps_get_def Counter_InitializeCrdt_def
        Counter_methods_def obj_Initialize_def Counter_Initialize_def map_of_mput)
qed

theorem SnapshotVM_reads_witness:
  "\<exists>vm2 w2 vm3 w3. SnapshotVM_ReadOld False (Counter_methods True) Counter_InitializeCrdt vm2 () [(1, 3)] [] w2 = Inr (7, vm2, w2)
     \<and> SnapshotVM_ReadOld False (Counter_methods True) Counter_InitializeCrdt vm2 () [(1, 4)] [] w2 = Inr (0, vm3, w3)"
proof -
  let ?M = "Counter_methods True"
  define st :: "(CounterCrdt, counter_op, counter_effect) store" where
    "st = (\<lambda>a. (0, \<lparr>vm_history = [], vm_bound = 0\<rparr>))"
  define vm :: "nat SnapshotVM" where "vm = \<lparr>snap_CRDT = 1, snaps = Some [], snap_replicaID = 1,
    snap_updatedSinceGC = False, snap_currVersion = None\<rparr>"
  define w where "w = (2 :: nat, st)"
  have i: "int32 7 = 7" by (simp add: swrap_def)
  have l: "detached {0} w (snap_CRDT vm)" by (simp add: detached_def w_def vm_def st_def)
  have v: "valid_clks [(1, 3)] {[(1, 4)], [(1, 6)]}"
    by (auto simp: valid_clks_def nonneg_clk_def wf_clk_def wf_map_def in_int_def same_ids_def)
  have k: "getMapByteKey [(1, 6)] \<noteq> getMapByteKey [(1, 3)]" "getMapByteKey [(1, 4)] \<noteq> getMapByteKey [(1, 3)]"
    "getMapByteKey [(1, 4)] \<noteq> getMapByteKey [(1, 6)]"
    using key_orders(5) [OF v] by (auto simp: eq_clk_def vget_def)
  obtain vm1 w1 where d1: "SnapshotVM_Downstream False ?M vm [(1, 3)] (Increment 7) w = Inr (vm1, w1, None)"
    and v1: "SnapshotVM_ReadLatest ?M vm1 () [] w1 = Inr 7" "\<exists>c. snaps vm1 = Some [(getMapByteKey [(1, 3)], c)]"
    by (simp add: SnapshotVM_Downstream_def Counter_methods_def snaps_put_def vm_def w_def st_def obj_Downstream_def
        downstream_step_def addToHistory_def obj_Copy_def SnapshotVM_ReadLatest_def Counter_Read_def i)
  obtain vm2 w2 where d2: "SnapshotVM_Downstream False ?M vm1 [(1, 6)] (Increment 5) w1 = Inr (vm2, w2, None)"
    and v2: "snaps_get vm2 (getMapByteKey [(1, 4)]) = None"
    using v1(2) k(2,3) by (auto simp: SnapshotVM_Downstream_def Counter_methods_def snaps_put_def snaps_get_def map_of_mput)
  note s = SnapshotVM_reads [OF l d1 d2 k(1) v2, of "[]"]
  from s v1(1) have "SnapshotVM_ReadOld False ?M Counter_InitializeCrdt vm2 () [(1, 3)] [] w2 = Inr (7, vm2, w2)" by simp
  moreover from s have "\<exists>vm3 w3. SnapshotVM_ReadOld False ?M Counter_InitializeCrdt vm2 () [(1, 4)] [] w2 = Inr (0, vm3, w3)"
    unfolding Counter_Read_def by auto
  ultimately show ?thesis by blast
qed

end
