(* ===== verification/Materializer.thy ===== *)
theory Materializer
  imports PartitionClock VersionManager
begin

text \<open>
  A partition of \<^verbatim>\<open>potionDB/components/materializer.go\<close>: the handlers of its requests, as functions
  on its state. The channels it writes to are one list of sent messages. Objects are used
  through the interface \<open>VersionManager\<close>, a record of methods over a world \<open>'w\<close>; update and
  downstream arguments share one type \<open>'u\<close>, as in the code. The hash of \<open>murmur3\<close>, the wall
  clock and the random source are arguments.
\<close>

record ('vm, 'w, 'u, 'r, 'st) mat_env =
  v_New :: "int \<Rightarrow> int \<Rightarrow> ClockSiTimestamp \<Rightarrow> 'w \<Rightarrow> ('vm \<times> 'w) go"
  v_ReadLatest :: "'vm \<Rightarrow> 'r \<Rightarrow> 'u list \<Rightarrow> 'w \<Rightarrow> 'st go"
  v_ReadOld :: "'vm \<Rightarrow> 'r \<Rightarrow> ClockSiTimestamp \<Rightarrow> 'u list \<Rightarrow> 'w \<Rightarrow> ('st \<times> 'vm \<times> 'w) go"
  v_Update :: "'vm \<Rightarrow> 'u \<Rightarrow> 'w \<Rightarrow> ('u option \<times> 'w) go"
  v_Downstream :: "'vm \<Rightarrow> ClockSiTimestamp \<Rightarrow> 'u \<Rightarrow> 'w \<Rightarrow> ('vm \<times> 'w \<times> 'u option) go"
  v_GC :: "'vm \<Rightarrow> ClockSiTimestamp \<Rightarrow> TimestampKey \<Rightarrow> 'w \<Rightarrow> ('vm \<times> 'w) go"
  v_BCTransfer :: "'vm \<Rightarrow> int \<Rightarrow> int \<Rightarrow> int \<Rightarrow> 'w \<Rightarrow> ('u option \<times> 'w) go"
  v_BCDownstream :: "'vm \<Rightarrow> ClockSiTimestamp \<Rightarrow> 'u \<Rightarrow> 'w \<Rightarrow> 'w go"
  v_BCRequest :: "'vm \<Rightarrow> 'w \<Rightarrow> (int \<times> int) go"
  u_isReset :: "'u \<Rightarrow> bool"
  u_isNoOp :: "'u \<Rightarrow> bool"
  u_isDownstream :: "'u \<Rightarrow> bool"
  u_MustReplicate :: "'u \<Rightarrow> bool"
  e_hash :: "string \<Rightarrow> nat"
  e_knownIDs :: "int list"
  e_readWaitingDisabled :: bool

type_synonym 'u UpdateObjectParams = "KeyParams \<times> 'u"

record 'u MatRemoteTxn =
  rt_ReplicaID :: int
  rt_Timestamp :: ClockSiTimestamp
  rt_Upds :: "'u UpdateObjectParams list"

datatype ('u, 'r) MatRequestArgs =
    MatStaticSingleRead KeyParams 'r
  | MatStaticRead KeyParams 'r ClockSiTimestamp
  | MatRead KeyParams 'r ClockSiTimestamp TransactionId
  | MatStaticUpdate "'u UpdateObjectParams list" TransactionId
  | MatUpdate "'u UpdateObjectParams list" TransactionId
  | MatCommit MatCommitArgs
  | MatAbort TransactionId
  | MatPrepare TransactionId
  | MatSafeClk
  | MatRemoteTxnReq "'u MatRemoteTxn"
  | MatClkPosUpd int int
  | MatRemoteGroupTxn "'u MatRemoteTxn list" ClockSiTimestamp
  | MatPrepareForRemote "'u UpdateObjectParams list" TransactionId
  | MatCommitedClk
  | MatBCUpdPermissions
  | MatBCTxnPermissions "(KeyParams \<times> int) list" int
  | MatReset
  | MatGC ClockSiTimestamp
  | MatGetCRDT KeyParams int

datatype ('vm, 'u, 'st) mat_msg =
    StateReply 'st
  | StateClkReply 'st ClockSiTimestamp
  | ClkReply ClockSiTimestamp
  | LogCommit ClockSiTimestamp "'u UpdateObjectParams list"
  | LogClk ClockSiTimestamp
  | LogReset
  | TMCommitNPartitions nat TransactionId ClockSiTimestamp
  | TMPartCommitReply TransactionId
  | DownReply "'u UpdateObjectParams list"
  | BoolReply bool
  | CommitedClkReply ClockSiTimestamp int
  | PermissionsReply "(int \<times> (KeyParams \<times> int) list) list" int
  | CrdtReply "'vm option" int

record ('vm, 'w, 'u, 'st) partition =
  part_id :: int
  part_clock :: partitionClock
  db :: "(nat \<times> 'vm) list"
  world :: 'w
  pendingOps :: "TransactionId \<rightharpoonup> 'u UpdateObjectParams list"
  pendingOpsRemote :: "TransactionId \<rightharpoonup> 'u UpdateObjectParams list"
  commitsOnHold :: commitHeap
  bcKeys :: "KeyParams list"
  nKeys :: nat
  bc_replicaIDs :: "int list"
  opsForTxn :: "TransactionId \<rightharpoonup> (KeyParams \<times> int) list"
  permsForReplica :: "TransactionId \<rightharpoonup> int"
  sent :: "('vm, 'u, 'st) mat_msg list"

definition send :: "('vm, 'u, 'st) mat_msg \<Rightarrow> ('vm, 'w, 'u, 'st) partition \<Rightarrow> ('vm, 'w, 'u, 'st) partition" where
  "send m p = p\<lparr>sent := sent p @ [m]\<rparr>"

text \<open>The ten places of \<open>bcKeys\<close> hold empty keys at first.\<close>

definition start_partition :: "('vm, 'w, 'u, 'r, 'st) mat_env \<Rightarrow> int \<Rightarrow> int \<Rightarrow> 'w \<Rightarrow> ('vm, 'w, 'u, 'st) partition" where
  "start_partition E replicaID i w =
     \<lparr>part_id = i, part_clock = initializePartitionClock (e_knownIDs E) replicaID, db = [], world = w,
      pendingOps = Map.empty, pendingOpsRemote = Map.empty, commitsOnHold = [],
      bcKeys = replicate 10 \<lparr>kp_Key = [], kp_CrdtType = 0, kp_Bucket = []\<rparr>, nKeys = 0, bc_replicaIDs = e_knownIDs E,
      opsForTxn = Map.empty, permsForReplica = Map.empty, sent = []\<rparr>"

section \<open>Objects\<close>

definition key_hash :: "('vm, 'w, 'u, 'r, 'st) mat_env \<Rightarrow> KeyParams \<Rightarrow> nat" where
  "key_hash E k = e_hash E (getCombinedKey k)"

text \<open>\<open>getObject\<close> makes an object that is not stored when there is none.\<close>

definition getObject ::
    "('vm, 'w, 'u, 'r, 'st) mat_env \<Rightarrow> ('vm, 'w, 'u, 'st) partition \<Rightarrow> KeyParams \<Rightarrow> ClockSiTimestamp \<Rightarrow> ('vm \<times> 'w) go" where
  "getObject E p k clk = (case map_of (db p) (key_hash E k) of
      Some obj \<Rightarrow> Inr (obj, world p)
    | None \<Rightarrow> v_New E (kp_CrdtType k) (pk_replicaID (part_clock p)) clk (world p))"

text \<open>When the slice of keys is full the key is appended, but not counted.\<close>

definition addKey :: "KeyParams \<Rightarrow> ('vm, 'w, 'u, 'st) partition \<Rightarrow> ('vm, 'w, 'u, 'st) partition" where
  "addKey k p = (if length (bcKeys p) = nKeys p then p\<lparr>bcKeys := bcKeys p @ [k]\<rparr>
     else p\<lparr>bcKeys := (bcKeys p)[nKeys p := k], nKeys := Suc (nKeys p)\<rparr>)"

definition getObjectForUpd ::
    "('vm, 'w, 'u, 'r, 'st) mat_env \<Rightarrow> ('vm, 'w, 'u, 'st) partition \<Rightarrow> KeyParams \<Rightarrow> ClockSiTimestamp
       \<Rightarrow> ('vm \<times> ('vm, 'w, 'u, 'st) partition) go" where
  "getObjectForUpd E p k clk = (case map_of (db p) (key_hash E k) of
      Some obj \<Rightarrow> Inr (obj, p)
    | None \<Rightarrow> gbind (v_New E (kp_CrdtType k) (pk_replicaID (part_clock p)) clk (world p)) (\<lambda>(obj, w).
        let p1 = p\<lparr>world := w, db := mput (key_hash E k) obj (db p)\<rparr>
        in Inr (obj, if kp_CrdtType k = FATCOUNTER then addKey k p1 else p1)))"

definition getObjPendingOps :: "('vm, 'w, 'u, 'st) partition \<Rightarrow> KeyParams \<Rightarrow> TransactionId \<Rightarrow> 'u list" where
  "getObjPendingOps p k txnId = (case pendingOps p txnId of
      None \<Rightarrow> []
    | Some ops \<Rightarrow> map snd (filter (\<lambda>(k', u). kp_Key k' = kp_Key k \<and> kp_Bucket k' = kp_Bucket k
        \<and> kp_CrdtType k' = kp_CrdtType k) ops))"

section \<open>Reads\<close>

definition canReadLatest :: "('vm, 'w, 'u, 'r, 'st) mat_env \<Rightarrow> ('vm, 'w, 'u, 'st) partition \<Rightarrow> ClockSiTimestamp \<Rightarrow> bool" where
  "canReadLatest E p readTs \<longleftrightarrow> e_readWaitingDisabled E \<or> \<not> IsLower readTs (Some (stableClk (part_clock p)))"

definition part_getState ::
    "('vm, 'w, 'u, 'r, 'st) mat_env \<Rightarrow> bool \<Rightarrow> 'vm \<Rightarrow> 'r \<Rightarrow> ClockSiTimestamp \<Rightarrow> 'u list \<Rightarrow> 'w \<Rightarrow> ('st \<times> 'vm \<times> 'w) go" where
  "part_getState E readLatest obj readArgs clk objPending w =
     (if readLatest then gbind (v_ReadLatest E obj readArgs objPending w) (\<lambda>st. Inr (st, obj, w))
      else v_ReadOld E obj readArgs clk objPending w)"

text \<open>A read may change the caches of a stored object.\<close>

definition store_obj :: "nat \<Rightarrow> 'vm \<Rightarrow> ('vm, 'w, 'u, 'st) partition \<Rightarrow> ('vm, 'w, 'u, 'st) partition" where
  "store_obj h obj p = (if map_of (db p) h = None then p else p\<lparr>db := mput h obj (db p)\<rparr>)"

definition read_object ::
    "('vm, 'w, 'u, 'r, 'st) mat_env \<Rightarrow> ('vm, 'w, 'u, 'st) partition \<Rightarrow> bool \<Rightarrow> KeyParams \<Rightarrow> 'r \<Rightarrow> ClockSiTimestamp \<Rightarrow> 'u list
       \<Rightarrow> ('st \<times> ('vm, 'w, 'u, 'st) partition) go" where
  "read_object E p readLatest k readArgs clk objPending =
     gbind (getObject E p k clk) (\<lambda>(obj, w).
     gbind (part_getState E readLatest obj readArgs clk objPending w) (\<lambda>(st, obj', w').
       Inr (st, store_obj (key_hash E k) obj' (p\<lparr>world := w'\<rparr>))))"

definition handleMatRead ::
    "('vm, 'w, 'u, 'r, 'st) mat_env \<Rightarrow> ('vm, 'w, 'u, 'st) partition \<Rightarrow> KeyParams \<Rightarrow> 'r \<Rightarrow> ClockSiTimestamp \<Rightarrow> TransactionId
       \<Rightarrow> ('vm, 'w, 'u, 'st) partition go" where
  "handleMatRead E p k readArgs ts txnId =
     gbind (read_object E p (canReadLatest E p ts) k readArgs ts (getObjPendingOps p k txnId)) (\<lambda>(st, p').
       Inr (send (StateReply st) p'))"

definition handleMatStaticSingleRead ::
    "('vm, 'w, 'u, 'r, 'st) mat_env \<Rightarrow> ('vm, 'w, 'u, 'st) partition \<Rightarrow> KeyParams \<Rightarrow> 'r \<Rightarrow> ('vm, 'w, 'u, 'st) partition go" where
  "handleMatStaticSingleRead E p k readArgs =
     (let copyClk = Copy_clk (stableClk (part_clock p))
      in gbind (read_object E p True k readArgs copyClk []) (\<lambda>(st, p'). Inr (send (StateClkReply st copyClk) p')))"

definition handleMatStaticRead ::
    "('vm, 'w, 'u, 'r, 'st) mat_env \<Rightarrow> ('vm, 'w, 'u, 'st) partition \<Rightarrow> KeyParams \<Rightarrow> 'r \<Rightarrow> ClockSiTimestamp
       \<Rightarrow> ('vm, 'w, 'u, 'st) partition go" where
  "handleMatStaticRead E p k readArgs ts =
     gbind (read_object E p (canReadLatest E p ts) k readArgs ts []) (\<lambda>(st, p'). Inr (send (StateReply st) p'))"

section \<open>Writing and preparing\<close>

text \<open>The reply is \<open>PeekMax().clk\<close>, of a heap that is not empty.\<close>

definition reply_prepared :: "('vm, 'w, 'u, 'st) partition \<Rightarrow> ('vm, 'w, 'u, 'st) partition" where
  "reply_prepared p = (case prep_PeekMax (prepClks (part_clock p)) of None \<Rightarrow> p | Some e \<Rightarrow> send (ClkReply (tc_clk e)) p)"

definition prepare_part :: "int \<Rightarrow> TransactionId \<Rightarrow> ('vm, 'w, 'u, 'st) partition \<Rightarrow> ('vm, 'w, 'u, 'st) partition" where
  "prepare_part now txnId p = p\<lparr>part_clock := prepareClock now txnId (part_clock p)\<rparr>"

definition handleMatPrepare :: "int \<Rightarrow> ('vm, 'w, 'u, 'st) partition \<Rightarrow> TransactionId \<Rightarrow> ('vm, 'w, 'u, 'st) partition" where
  "handleMatPrepare now p txnId = reply_prepared (prepare_part now txnId p)"

definition handleMatWrite ::
    "('vm, 'w, 'u, 'st) partition \<Rightarrow> 'u UpdateObjectParams list \<Rightarrow> TransactionId \<Rightarrow> ('vm, 'w, 'u, 'st) partition" where
  "handleMatWrite p upds txnId =
     p\<lparr>pendingOps := (pendingOps p)(txnId \<mapsto> (case pendingOps p txnId of None \<Rightarrow> [] | Some ops \<Rightarrow> ops) @ upds)\<rparr>"

definition handleMatStaticWrite ::
    "int \<Rightarrow> ('vm, 'w, 'u, 'st) partition \<Rightarrow> 'u UpdateObjectParams list \<Rightarrow> TransactionId \<Rightarrow> ('vm, 'w, 'u, 'st) partition" where
  "handleMatStaticWrite now p upds txnId =
     (let p1 = prepare_part now txnId p in reply_prepared (p1\<lparr>pendingOps := (pendingOps p1)(txnId \<mapsto> upds)\<rparr>))"

definition handleMatPrepareRemote ::
    "int \<Rightarrow> ('vm, 'w, 'u, 'st) partition \<Rightarrow> 'u UpdateObjectParams list \<Rightarrow> TransactionId \<Rightarrow> ('vm, 'w, 'u, 'st) partition" where
  "handleMatPrepareRemote now p upds txnId =
     reply_prepared (prepare_part now txnId (p\<lparr>pendingOpsRemote := (pendingOpsRemote p)(txnId \<mapsto> upds)\<rparr>))"

definition handleMatAbort :: "('vm, 'w, 'u, 'st) partition \<Rightarrow> TransactionId \<Rightarrow> ('vm, 'w, 'u, 'st) partition" where
  "handleMatAbort p txnId = p\<lparr>pendingOps := (pendingOps p)(txnId := None)\<rparr>"

section \<open>Applying updates\<close>

text \<open>What \<open>Downstream\<close> returns is not used for updates of this replica.\<close>

definition apply_update ::
    "('vm, 'w, 'u, 'r, 'st) mat_env \<Rightarrow> ClockSiTimestamp \<Rightarrow> ('vm, 'w, 'u, 'st) partition \<times> 'u UpdateObjectParams list
       \<Rightarrow> 'u UpdateObjectParams \<Rightarrow> (('vm, 'w, 'u, 'st) partition \<times> 'u UpdateObjectParams list) go" where
  "apply_update E commitClk state upd = (case (state, upd) of ((p, downs), (k, u)) \<Rightarrow>
     if u_isReset E u then Inr (p\<lparr>db := AList.delete (key_hash E k) (db p)\<rparr>, downs @ [(k, u)])
     else gbind (getObjectForUpd E p k commitClk) (\<lambda>(obj, p1).
          gbind (v_Update E obj u (world p1)) (\<lambda>(downArgs, w).
            (case downArgs of
               None \<Rightarrow> Inr (p1\<lparr>world := w\<rparr>, downs)
             | Some d \<Rightarrow>
                 if u_isNoOp E d then Inr (p1\<lparr>world := w\<rparr>, downs)
                 else gbind (v_Downstream E obj commitClk d w) (\<lambda>(obj', w', other).
                        Inr (p1\<lparr>world := w', db := mput (key_hash E k) obj' (db p1)\<rparr>,
                             if u_MustReplicate E d then downs @ [(k, d)] else downs))))))"

definition applyUpdates ::
    "('vm, 'w, 'u, 'r, 'st) mat_env \<Rightarrow> ('vm, 'w, 'u, 'st) partition \<Rightarrow> 'u UpdateObjectParams list \<Rightarrow> ClockSiTimestamp
       \<Rightarrow> (('vm, 'w, 'u, 'st) partition \<times> 'u UpdateObjectParams list) go" where
  "applyUpdates E p updates commitClk = gfold (apply_update E commitClk) (p, []) updates"

definition apply_transfer ::
    "('vm, 'w, 'u, 'r, 'st) mat_env \<Rightarrow> int \<Rightarrow> ClockSiTimestamp \<Rightarrow> ('vm, 'w, 'u, 'st) partition \<times> 'u UpdateObjectParams list
       \<Rightarrow> KeyParams \<times> int \<Rightarrow> (('vm, 'w, 'u, 'st) partition \<times> 'u UpdateObjectParams list) go" where
  "apply_transfer E toID ts state entry = (case (state, entry) of ((p, downs), (k, value)) \<Rightarrow>
     gbind (getObjectForUpd E p k ts) (\<lambda>(obj, p1).
     gbind (v_BCTransfer E obj value (pk_replicaID (part_clock p1)) toID (world p1)) (\<lambda>(downArgs, w).
       (case downArgs of
          None \<Rightarrow> Inr (p1\<lparr>world := w\<rparr>, downs)
        | Some d \<Rightarrow>
            if u_isNoOp E d then Inr (p1\<lparr>world := w\<rparr>, downs)
            else gbind (v_BCDownstream E obj ts d w) (\<lambda>w'.
                   Inr (p1\<lparr>world := w'\<rparr>, if u_MustReplicate E d then downs @ [(k, d)] else downs))))))"

definition applyBCPermsUpds ::
    "('vm, 'w, 'u, 'r, 'st) mat_env \<Rightarrow> ('vm, 'w, 'u, 'st) partition \<Rightarrow> TransactionId \<Rightarrow> ClockSiTimestamp
       \<Rightarrow> (('vm, 'w, 'u, 'st) partition \<times> 'u UpdateObjectParams list) go" where
  "applyBCPermsUpds E p txnId ts =
     (let ops = (case opsForTxn p txnId of None \<Rightarrow> [] | Some ops \<Rightarrow> ops);
          replicaID = (case permsForReplica p txnId of None \<Rightarrow> 0 | Some i \<Rightarrow> i)
      in gbind (gfold (apply_transfer E replicaID ts) (p, []) ops) (\<lambda>(p', downs).
           Inr (p'\<lparr>opsForTxn := (opsForTxn p')(txnId := None), permsForReplica := (permsForReplica p')(txnId := None)\<rparr>, downs)))"

section \<open>Commits\<close>

definition updatePartitionWithCommit ::
    "('vm, 'w, 'u, 'st) partition \<Rightarrow> MatCommitArgs \<Rightarrow> 'u UpdateObjectParams list \<Rightarrow> ('vm, 'w, 'u, 'st) partition" where
  "updatePartitionWithCommit p args downUpds =
     (let p1 = p\<lparr>part_clock := updateClockWithCommit (ca_CommitTimestamp args) (part_clock p)\<rparr>;
          p2 = (if downUpds = [] then p1 else send (LogCommit (ca_CommitTimestamp args) downUpds) p1)
      in p2\<lparr>pendingOps := (pendingOps p2)(ca_TransactionId args := None),
            pendingOpsRemote := (pendingOpsRemote p2)(ca_TransactionId args := None)\<rparr>)"

definition commit_updates ::
    "('vm, 'w, 'u, 'r, 'st) mat_env \<Rightarrow> ('vm, 'w, 'u, 'st) partition \<Rightarrow> MatCommitArgs
       \<Rightarrow> (('vm, 'w, 'u, 'st) partition \<times> 'u UpdateObjectParams list) go" where
  "commit_updates E p args = (case pendingOps p (ca_TransactionId args) of
      Some ops \<Rightarrow> applyUpdates E p ops (ca_CommitTimestamp args)
    | None \<Rightarrow> (case pendingOpsRemote p (ca_TransactionId args) of
        Some remoteOps \<Rightarrow> Inr (p, remoteOps)
      | None \<Rightarrow> applyBCPermsUpds E p (ca_TransactionId args) (ca_CommitTimestamp args)))"

definition applyCommit ::
    "('vm, 'w, 'u, 'r, 'st) mat_env \<Rightarrow> ('vm, 'w, 'u, 'st) partition \<Rightarrow> MatCommitArgs \<Rightarrow> ('vm, 'w, 'u, 'st) partition go" where
  "applyCommit E p args = gbind (commit_updates E p args) (\<lambda>(p1, downUpds).
     Inr (send (TMPartCommitReply (ca_TransactionId args)) (updatePartitionWithCommit p1 args downUpds)))"

definition holdCommit :: "('vm, 'w, 'u, 'st) partition \<Rightarrow> MatCommitArgs \<Rightarrow> ('vm, 'w, 'u, 'st) partition" where
  "holdCommit p args = p\<lparr>commitsOnHold := hold_push (commitsOnHold p) args\<rparr>"

definition canCommit :: "('vm, 'w, 'u, 'st) partition \<Rightarrow> MatCommitArgs \<Rightarrow> bool" where
  "canCommit p args =
     (let no_lower = (case commit_PeekMin (commitsOnHold p) of None \<Rightarrow> True
        | Some m \<Rightarrow> IsHigher (ca_CommitTimestamp m) (Some (ca_CommitTimestamp args)))
      in case prep_PeekMin (prepClks (part_clock p)) of
           None \<Rightarrow> no_lower
         | Some e \<Rightarrow> \<not> IsLower (tc_clk e) (Some (ca_CommitTimestamp args)) \<and> no_lower)"

text \<open>
  The two loops of \<open>checkHoldCommits\<close> take one commit off the heap in every iteration, so they
  run at most as often as the heap has entries.
\<close>

primrec commit_all :: "('vm, 'w, 'u, 'r, 'st) mat_env \<Rightarrow> nat \<Rightarrow> ('vm, 'w, 'u, 'st) partition \<Rightarrow> ('vm, 'w, 'u, 'st) partition go" where
  "commit_all E 0 p = Inr p"
| "commit_all E (Suc n) p =
     (if commitsOnHold p = [] then Inr p
      else gbind (hold_pop (commitsOnHold p)) (\<lambda>(args, h).
           gbind (applyCommit E (p\<lparr>commitsOnHold := h\<rparr>) args) (commit_all E n)))"

primrec commit_upto ::
    "('vm, 'w, 'u, 'r, 'st) mat_env \<Rightarrow> ClockSiTimestamp \<Rightarrow> nat \<Rightarrow> ('vm, 'w, 'u, 'st) partition \<Rightarrow> ('vm, 'w, 'u, 'st) partition go" where
  "commit_upto E minPrep 0 p = Inr p"
| "commit_upto E minPrep (Suc n) p = (case commit_PeekMin (commitsOnHold p) of
      None \<Rightarrow> Inr p
    | Some minCommit \<Rightarrow>
        if \<not> IsLowerOrEqual (ca_CommitTimestamp minCommit) (Some minPrep) then Inr p
        else gbind (hold_pop (commitsOnHold p)) (\<lambda>(args, h).
             gbind (applyCommit E (p\<lparr>commitsOnHold := h\<rparr>) minCommit) (commit_upto E minPrep n)))"

definition checkHoldCommits ::
    "('vm, 'w, 'u, 'r, 'st) mat_env \<Rightarrow> ('vm, 'w, 'u, 'st) partition \<Rightarrow> ('vm, 'w, 'u, 'st) partition go" where
  "checkHoldCommits E p =
     (if commitsOnHold p = [] then Inr p
      else case prep_PeekMin (prepClks (part_clock p)) of
             None \<Rightarrow> commit_all E (length (commitsOnHold p)) p
           | Some e \<Rightarrow> commit_upto E (tc_clk e) (length (commitsOnHold p)) p)"

definition commit_or_hold ::
    "('vm, 'w, 'u, 'r, 'st) mat_env \<Rightarrow> ('vm, 'w, 'u, 'st) partition \<Rightarrow> MatCommitArgs \<Rightarrow> ('vm, 'w, 'u, 'st) partition go" where
  "commit_or_hold E p args = (if canCommit p args then applyCommit E p args else Inr (holdCommit p args))"

definition handleMatCommit ::
    "('vm, 'w, 'u, 'r, 'st) mat_env \<Rightarrow> ('vm, 'w, 'u, 'st) partition \<Rightarrow> MatCommitArgs \<Rightarrow> ('vm, 'w, 'u, 'st) partition go" where
  "handleMatCommit E p args =
     (let lowestTxn = (case getLowestPrepare (part_clock p) of None \<Rightarrow> 0 | Some e \<Rightarrow> tc_txnId e)
      in gbind (removePrepare (ca_TransactionId args) (part_clock p)) (\<lambda>clk.
         gbind (commit_or_hold E (p\<lparr>part_clock := clk\<rparr>) args) (\<lambda>p'.
           if lowestTxn = ca_TransactionId args then checkHoldCommits E p' else Inr p')))"

definition handleMatPermsTxn ::
    "('vm, 'w, 'u, 'r, 'st) mat_env \<Rightarrow> int \<Rightarrow> TransactionId \<Rightarrow> ('vm, 'w, 'u, 'st) partition \<Rightarrow> (KeyParams \<times> int) list \<Rightarrow> int
       \<Rightarrow> ('vm, 'w, 'u, 'st) partition go" where
  "handleMatPermsTxn E now txnID p values replicaID =
     (let p1 = prepare_part now txnID p;
          p2 = p1\<lparr>permsForReplica := (permsForReplica p1)(txnID \<mapsto> replicaID), opsForTxn := (opsForTxn p1)(txnID \<mapsto> values)\<rparr>
      in case prep_PeekMax (prepClks (part_clock p2)) of
           None \<Rightarrow> Inl NilDereference
         | Some e \<Rightarrow> handleMatCommit E (send (TMCommitNPartitions 1 txnID (Copy_clk (tc_clk e))) p2)
             \<lparr>ca_TransactionId = txnID, ca_CommitTimestamp = tc_clk e\<rparr>)"

section \<open>Remote transactions\<close>

definition apply_remote ::
    "('vm, 'w, 'u, 'r, 'st) mat_env \<Rightarrow> ClockSiTimestamp \<Rightarrow> ('vm, 'w, 'u, 'st) partition \<times> 'u UpdateObjectParams list
       \<Rightarrow> 'u UpdateObjectParams \<Rightarrow> (('vm, 'w, 'u, 'st) partition \<times> 'u UpdateObjectParams list) go" where
  "apply_remote E ts state upd = (case (state, upd) of ((p, downs), (k, u)) \<Rightarrow>
     gbind (getObjectForUpd E p k ts) (\<lambda>(obj, p1).
       if \<not> u_isDownstream E u then Inl TypeAssertion
       else gbind (v_Downstream E obj ts u (world p1)) (\<lambda>(obj', w, generated).
              Inr (p1\<lparr>world := w, db := mput (key_hash E k) obj' (db p1)\<rparr>,
                   case generated of None \<Rightarrow> downs | Some d \<Rightarrow> downs @ [(k, d)]))))"

definition applyRemoteUpds ::
    "('vm, 'w, 'u, 'r, 'st) mat_env \<Rightarrow> ('vm, 'w, 'u, 'st) partition \<times> 'u UpdateObjectParams list \<Rightarrow> 'u MatRemoteTxn
       \<Rightarrow> (('vm, 'w, 'u, 'st) partition \<times> 'u UpdateObjectParams list) go" where
  "applyRemoteUpds E state txn = gfold (apply_remote E (rt_Timestamp txn)) state (rt_Upds txn)"

definition handleMatRemoteTxn ::
    "('vm, 'w, 'u, 'r, 'st) mat_env \<Rightarrow> ('vm, 'w, 'u, 'st) partition \<Rightarrow> 'u MatRemoteTxn \<Rightarrow> ('vm, 'w, 'u, 'st) partition go" where
  "handleMatRemoteTxn E p txn = gbind (applyRemoteUpds E (p, []) txn) (\<lambda>(p1, newDown).
     Inr (send (DownReply newDown) (p1\<lparr>part_clock := updateClockWithCommit (rt_Timestamp txn) (part_clock p1)\<rparr>)))"

definition handleMatRemoteGroupTxn ::
    "('vm, 'w, 'u, 'r, 'st) mat_env \<Rightarrow> ('vm, 'w, 'u, 'st) partition \<Rightarrow> 'u MatRemoteTxn list \<Rightarrow> ClockSiTimestamp
       \<Rightarrow> ('vm, 'w, 'u, 'st) partition go" where
  "handleMatRemoteGroupTxn E p txns finalClk = gbind (gfold (applyRemoteUpds E) (p, []) txns) (\<lambda>(p1, newDown).
     Inr (send (DownReply newDown) (p1\<lparr>part_clock := updateClockWithCommit finalClk (part_clock p1)\<rparr>)))"

definition handleMatClkPosUpd :: "('vm, 'w, 'u, 'st) partition \<Rightarrow> int \<Rightarrow> int \<Rightarrow> ('vm, 'w, 'u, 'st) partition" where
  "handleMatClkPosUpd p replicaID stableTs =
     send (BoolReply True) (p\<lparr>part_clock := updateClockWithRemoteTS replicaID stableTs (part_clock p)\<rparr>)"

section \<open>Other requests\<close>

text \<open>The clock below which this partition promises not to commit any more.\<close>

definition safe_clock :: "int \<Rightarrow> partitionClock \<Rightarrow> ClockSiTimestamp" where
  "safe_clock now p = (case prep_PeekMin (prepClks p) of
      None \<Rightarrow> NextTimestamp now (stableClk p) (pk_replicaID p)
    | Some e \<Rightarrow> (let safeClk = Copy_clk (tc_clk e)
        in UpdateForcedPos safeClk (pk_replicaID p) (int64 (GetPos safeClk (pk_replicaID p) - 1))))"

definition handleMatSafeClk :: "int \<Rightarrow> ('vm, 'w, 'u, 'st) partition \<Rightarrow> ('vm, 'w, 'u, 'st) partition" where
  "handleMatSafeClk now p = send (LogClk (safe_clock now (part_clock p))) p"

definition handleMatCommitedClk :: "('vm, 'w, 'u, 'st) partition \<Rightarrow> ('vm, 'w, 'u, 'st) partition" where
  "handleMatCommitedClk p = send (CommitedClkReply (Copy_clk (stableClk (part_clock p))) (part_id p)) p"

text \<open>The reply channel of a reset is not written to.\<close>

definition handleMatReset ::
    "('vm, 'w, 'u, 'r, 'st) mat_env \<Rightarrow> ('vm, 'w, 'u, 'st) partition \<Rightarrow> ('vm, 'w, 'u, 'st) partition" where
  "handleMatReset E p = (send LogReset p)\<lparr>part_clock := reset_clock (e_knownIDs E) (part_clock p), db := [],
     pendingOps := Map.empty, commitsOnHold := []\<rparr>"

definition gc_object ::
    "('vm, 'w, 'u, 'r, 'st) mat_env \<Rightarrow> ClockSiTimestamp \<Rightarrow> ('vm, 'w, 'u, 'st) partition \<Rightarrow> nat \<times> 'vm \<Rightarrow> ('vm, 'w, 'u, 'st) partition go" where
  "gc_object E safeClk p entry = (case entry of (h, obj) \<Rightarrow>
     gbind (v_GC E obj safeClk (getMapByteKey safeClk) (world p)) (\<lambda>(obj', w).
       Inr (p\<lparr>world := w, db := mput h obj' (db p)\<rparr>)))"

definition handleMatGC ::
    "('vm, 'w, 'u, 'r, 'st) mat_env \<Rightarrow> ('vm, 'w, 'u, 'st) partition \<Rightarrow> ClockSiTimestamp \<Rightarrow> ('vm, 'w, 'u, 'st) partition go" where
  "handleMatGC E p safeClk = gfold (gc_object E safeClk) p (db p)"

text \<open>Writing to the requests of a replica that has no entry writes to a nil map.\<close>

definition ask_permission ::
    "('vm, 'w, 'u, 'r, 'st) mat_env \<Rightarrow> ('vm, 'w, 'u, 'st) partition \<Rightarrow> (int \<times> (KeyParams \<times> int) list) list \<Rightarrow> KeyParams
       \<Rightarrow> (int \<times> (KeyParams \<times> int) list) list go" where
  "ask_permission E p reqsMap k = (case map_of (db p) (key_hash E k) of
      None \<Rightarrow> Inl NilDereference
    | Some obj \<Rightarrow> gbind (v_BCRequest E obj (world p)) (\<lambda>(toAsk, askID).
        if toAsk = -1 then Inr reqsMap
        else case map_of reqsMap askID of
               None \<Rightarrow> Inl NilMapWrite
             | Some reqs \<Rightarrow> Inr (mput askID (mput k toAsk reqs) reqsMap)))"

definition handleMatBCUpdPerm ::
    "('vm, 'w, 'u, 'r, 'st) mat_env \<Rightarrow> ('vm, 'w, 'u, 'st) partition \<Rightarrow> ('vm, 'w, 'u, 'st) partition go" where
  "handleMatBCUpdPerm E p =
     gbind (gfold (ask_permission E p) (foldl (\<lambda>m i. mput i [] m) [] (bc_replicaIDs p)) (take (nKeys p) (bcKeys p))) (\<lambda>reqsMap.
       Inr (send (PermissionsReply reqsMap (int16 (part_id p))) p))"

definition handleMatGetCRDT ::
    "('vm, 'w, 'u, 'r, 'st) mat_env \<Rightarrow> ('vm, 'w, 'u, 'st) partition \<Rightarrow> KeyParams \<Rightarrow> int \<Rightarrow> ('vm, 'w, 'u, 'st) partition" where
  "handleMatGetCRDT E p k pos = send (CrdtReply (map_of (db p) (key_hash E k)) pos) p"

text \<open>\<open>rnd\<close> is the next value of the partition's random source.\<close>

fun handleRequest ::
    "('vm, 'w, 'u, 'r, 'st) mat_env \<Rightarrow> int \<Rightarrow> TransactionId \<Rightarrow> ('vm, 'w, 'u, 'st) partition \<Rightarrow> ('u, 'r) MatRequestArgs
       \<Rightarrow> ('vm, 'w, 'u, 'st) partition go" where
  "handleRequest E now rnd p (MatStaticSingleRead k r) = handleMatStaticSingleRead E p k r"
| "handleRequest E now rnd p (MatStaticRead k r ts) = handleMatStaticRead E p k r ts"
| "handleRequest E now rnd p (MatRead k r ts txnId) = handleMatRead E p k r ts txnId"
| "handleRequest E now rnd p (MatStaticUpdate upds txnId) = Inr (handleMatStaticWrite now p upds txnId)"
| "handleRequest E now rnd p (MatUpdate upds txnId) = Inr (handleMatWrite p upds txnId)"
| "handleRequest E now rnd p (MatCommit args) = handleMatCommit E p args"
| "handleRequest E now rnd p (MatPrepare txnId) = Inr (handleMatPrepare now p txnId)"
| "handleRequest E now rnd p (MatAbort txnId) = Inr (handleMatAbort p txnId)"
| "handleRequest E now rnd p MatSafeClk = Inr (handleMatSafeClk now p)"
| "handleRequest E now rnd p (MatRemoteTxnReq txn) = handleMatRemoteTxn E p txn"
| "handleRequest E now rnd p (MatClkPosUpd i ts) = Inr (handleMatClkPosUpd p i ts)"
| "handleRequest E now rnd p (MatRemoteGroupTxn txns clk) = handleMatRemoteGroupTxn E p txns clk"
| "handleRequest E now rnd p (MatPrepareForRemote upds txnId) = Inr (handleMatPrepareRemote now p upds txnId)"
| "handleRequest E now rnd p MatCommitedClk = Inr (handleMatCommitedClk p)"
| "handleRequest E now rnd p MatBCUpdPermissions = handleMatBCUpdPerm E p"
| "handleRequest E now rnd p (MatBCTxnPermissions values i) = handleMatPermsTxn E now rnd p values i"
| "handleRequest E now rnd p MatReset = Inr (handleMatReset E p)"
| "handleRequest E now rnd p (MatGC clk) = handleMatGC E p clk"
| "handleRequest E now rnd p (MatGetCRDT k pos) = Inr (handleMatGetCRDT E p k pos)"

section \<open>What applying updates leaves alone\<close>

text \<open>The parts of the state that only the commit protocol changes.\<close>

definition quiet :: "('vm, 'w, 'u, 'st) partition \<Rightarrow> ('vm, 'w, 'u, 'st) partition \<Rightarrow> bool" where
  "quiet p q \<longleftrightarrow> part_clock q = part_clock p \<and> commitsOnHold q = commitsOnHold p \<and> pendingOps q = pendingOps p
     \<and> pendingOpsRemote q = pendingOpsRemote p \<and> sent q = sent p \<and> part_id q = part_id p"

lemma quiet_refl [simp]: "quiet p p"
  by (simp add: quiet_def)

lemma quiet_trans: "quiet p q \<Longrightarrow> quiet q r \<Longrightarrow> quiet p r"
  by (simp add: quiet_def)

lemma quiet_objects [simp]:
  "quiet p (q\<lparr>db := d\<rparr>) = quiet p q" "quiet p (q\<lparr>world := w\<rparr>) = quiet p q"
  "quiet p (q\<lparr>opsForTxn := x\<rparr>) = quiet p q" "quiet p (q\<lparr>permsForReplica := y\<rparr>) = quiet p q" "quiet p (addKey k q) = quiet p q"
  by (simp_all add: quiet_def addKey_def)

lemma getObjectForUpd_quiet: "getObjectForUpd E p k clk = Inr (obj, q) \<Longrightarrow> quiet p q"
  by (auto simp: getObjectForUpd_def gbind_eq_Inr Let_def split: option.splits if_splits)

text \<open>A loop whose every step leaves the protocol's state alone does so too.\<close>

lemma gfold_quiet:
  assumes "\<And>s x s'. f s x = Inr s' \<Longrightarrow> quiet (fst s) (fst s')" and "gfold f s xs = Inr s'"
  shows "quiet (fst s) (fst s')"
  using assms(2)
proof (induction xs arbitrary: s)
  case (Cons x xs)
  then obtain r where "f s x = Inr r" "gfold f r xs = Inr s'" by (auto simp: gbind_eq_Inr)
  with assms(1) Cons.IH show ?case using quiet_trans by blast
qed simp

lemma apply_update_quiet:
  assumes "apply_update E clk s x = Inr s'"
  shows "quiet (fst s) (fst s')"
proof -
  obtain p downs k u where s: "s = (p, downs)" "x = (k, u)" by (metis surj_pair)
  show ?thesis using assms unfolding s apply_update_def
    by (auto simp: gbind_eq_Inr Let_def dest!: getObjectForUpd_quiet split: if_splits option.splits)
qed

lemma apply_transfer_quiet:
  assumes "apply_transfer E i clk s x = Inr s'"
  shows "quiet (fst s) (fst s')"
proof -
  obtain p downs k v where s: "s = (p, downs)" "x = (k, v)" by (metis surj_pair)
  show ?thesis using assms unfolding s apply_transfer_def
    by (auto simp: gbind_eq_Inr Let_def dest!: getObjectForUpd_quiet split: if_splits option.splits)
qed

lemma apply_remote_quiet:
  assumes "apply_remote E clk s x = Inr s'"
  shows "quiet (fst s) (fst s')"
proof -
  obtain p downs k u where s: "s = (p, downs)" "x = (k, u)" by (metis surj_pair)
  show ?thesis using assms unfolding s apply_remote_def
    by (auto simp: gbind_eq_Inr Let_def dest!: getObjectForUpd_quiet split: if_splits option.splits)
qed

lemma applyRemoteUpds_quiet: "applyRemoteUpds E s txn = Inr s' \<Longrightarrow> quiet (fst s) (fst s')"
  unfolding applyRemoteUpds_def by (rule gfold_quiet [where f = "apply_remote E (rt_Timestamp txn)"]) (rule apply_remote_quiet)

lemma commit_updates_quiet:
  assumes "commit_updates E p args = Inr (q, downs)"
  shows "quiet p q"
proof -
  consider ops where "pendingOps p (ca_TransactionId args) = Some ops" | ops where "pendingOps p (ca_TransactionId args) = None"
      "pendingOpsRemote p (ca_TransactionId args) = Some ops"
    | "pendingOps p (ca_TransactionId args) = None" "pendingOpsRemote p (ca_TransactionId args) = None" by blast
  then show ?thesis
  proof cases
    case 1
    with assms have "gfold (apply_update E (ca_CommitTimestamp args)) (p, []) ops = Inr (q, downs)"
      by (simp add: commit_updates_def applyUpdates_def)
    from gfold_quiet [OF apply_update_quiet this] show ?thesis by simp
  next
    case 3
    with assms obtain q' i ops where "gfold (apply_transfer E i (ca_CommitTimestamp args)) (p, []) ops = Inr (q', downs)"
      and q: "q = q'\<lparr>opsForTxn := (opsForTxn q')(ca_TransactionId args := None), permsForReplica := (permsForReplica q')(ca_TransactionId args := None)\<rparr>"
      by (auto simp: commit_updates_def applyBCPermsUpds_def gbind_eq_Inr Let_def)
    from gfold_quiet [OF apply_transfer_quiet this(1)] show ?thesis unfolding q by simp
  qed (use assms in \<open>auto simp: commit_updates_def\<close>)
qed

text \<open>The transactions whose commits were reported to the transaction manager.\<close>

definition committed :: "('vm, 'u, 'st) mat_msg list \<Rightarrow> TransactionId list" where
  "committed ms = concat (map (\<lambda>m. case m of TMPartCommitReply t \<Rightarrow> [t] | _ \<Rightarrow> []) ms)"

lemma committed_append [simp]: "committed (xs @ ys) = committed xs @ committed ys"
  by (simp add: committed_def)

lemma committed_simps [simp]: "committed [] = []" "committed [TMPartCommitReply t] = [t]" "committed [LogCommit c us] = []"
  "committed [ClkReply c] = []" "committed [TMCommitNPartitions n t c] = []" "committed [StateReply st] = []"
  "committed [StateClkReply st c] = []" "committed [LogClk c] = []" "committed [LogReset] = []" "committed [DownReply us] = []"
  "committed [BoolReply b] = []" "committed [CommitedClkReply c i] = []" "committed [PermissionsReply m i] = []"
  "committed [CrdtReply c' i] = []"
  by (simp_all add: committed_def)

lemma applyCommit_frame:
  assumes "applyCommit E p args = Inr q"
  shows "part_clock q = updateClockWithCommit (ca_CommitTimestamp args) (part_clock p) \<and> commitsOnHold q = commitsOnHold p
    \<and> committed (sent q) = committed (sent p) @ [ca_TransactionId args]
    \<and> pendingOps q = (pendingOps p)(ca_TransactionId args := None)"
proof -
  from assms obtain p1 downs where "commit_updates E p args = Inr (p1, downs)"
    and q: "q = send (TMPartCommitReply (ca_TransactionId args)) (updatePartitionWithCommit p1 args downs)"
    by (auto simp: applyCommit_def gbind_eq_Inr)
  from commit_updates_quiet [OF this(1)] show ?thesis
    unfolding q by (auto simp: quiet_def send_def updatePartitionWithCommit_def Let_def)
qed

section \<open>Commits on hold\<close>

lemma hold_pop_ok:
  assumes "c \<noteq> []"
  obtains c' where "hold_pop c = Inr (c ! 0, c')" and "mset c = add_mset (c ! 0) (mset c')"
    and "heap_ok commit_lt c (length c) \<Longrightarrow> total_on_entries commit_lt (set c) \<Longrightarrow> heap_ok commit_lt c' (length c')"
proof -
  obtain h where h: "heap_Pop_prepare commit_Less commit_Swap (length c) c = Inr h" "mset h = mset c" "last h = c ! 0"
    and ok: "heap_ok commit_lt c (length c) \<Longrightarrow> total_on_entries commit_lt (set c) \<Longrightarrow> heap_ok commit_lt (butlast h) (length c - 1)"
    using hold.heap_Pop_ok [OF assms] by blast
  have ne: "h \<noteq> []" and len: "length h = length c" using h(2) assms mset_eq_length by auto
  have "hold_pop c = Inr (c ! 0, butlast h)" using h ne by (simp add: hold_pop_def commit_Pop_def)
  moreover have "mset c = add_mset (c ! 0) (mset (butlast h))" using mset_butlast [OF ne] h by simp
  ultimately show thesis using that ok len by simp
qed

text \<open>\<open>as\<close> are the commits that were applied between two states, in order.\<close>

definition applied :: "('vm, 'w, 'u, 'st) partition \<Rightarrow> MatCommitArgs list \<Rightarrow> ('vm, 'w, 'u, 'st) partition \<Rightarrow> bool" where
  "applied p as q \<longleftrightarrow> mset as + mset (commitsOnHold q) = mset (commitsOnHold p)
     \<and> part_clock q = foldl (\<lambda>c a. updateClockWithCommit (ca_CommitTimestamp a) c) (part_clock p) as
     \<and> committed (sent q) = committed (sent p) @ map ca_TransactionId as"

lemma applied_Nil: "applied p [] p"
  by (simp add: applied_def)

lemma applied_Cons:
  assumes "applyCommit E (p\<lparr>commitsOnHold := h\<rparr>) a = Inr r" and "mset (commitsOnHold p) = add_mset a (mset h)" and "applied r as q"
  shows "applied p (a # as) q"
  using applyCommit_frame [OF assms(1)] assms(2,3) by (simp add: applied_def)

lemma commit_all_applied:
  "commit_all E n p = Inr q \<Longrightarrow> length (commitsOnHold p) \<le> n \<Longrightarrow> commitsOnHold q = [] \<and> (\<exists>as. applied p as q)"
proof (induction n arbitrary: p)
  case (Suc n)
  show ?case
  proof (cases "commitsOnHold p = []")
    case True
    with Suc.prems show ?thesis using applied_Nil by auto
  next
    case False
    obtain h where h: "hold_pop (commitsOnHold p) = Inr (commitsOnHold p ! 0, h)"
      "mset (commitsOnHold p) = add_mset (commitsOnHold p ! 0) (mset h)" using hold_pop_ok [OF False] by metis
    from Suc.prems(1) False h(1) obtain r where r: "applyCommit E (p\<lparr>commitsOnHold := h\<rparr>) (commitsOnHold p ! 0) = Inr r"
      "commit_all E n r = Inr q" by (auto simp: gbind_eq_Inr)
    have "length h < length (commitsOnHold p)" using h(2) by (metis lessI mset.simps(2) size_mset size_add_mset)
    then have "length (commitsOnHold r) \<le> n" using applyCommit_frame [OF r(1)] Suc.prems(2) by simp
    from Suc.IH [OF r(2) this] applied_Cons [OF r(1) h(2)] show ?thesis by blast
  qed
qed (use applied_Nil in auto)

lemma commit_upto_applied: "commit_upto E m n p = Inr q \<Longrightarrow> \<exists>as. applied p as q"
proof (induction n arbitrary: p)
  case (Suc n)
  show ?case
  proof (cases "commitsOnHold p = [] \<or> \<not> IsLowerOrEqual (ca_CommitTimestamp (commitsOnHold p ! 0)) (Some m)")
    case True
    with Suc.prems have "q = p" by (auto simp: commit_PeekMin_def split: if_splits)
    then show ?thesis using applied_Nil by blast
  next
    case False
    obtain h where h: "hold_pop (commitsOnHold p) = Inr (commitsOnHold p ! 0, h)"
      "mset (commitsOnHold p) = add_mset (commitsOnHold p ! 0) (mset h)" using hold_pop_ok False by metis
    from Suc.prems False h(1) obtain r where r: "applyCommit E (p\<lparr>commitsOnHold := h\<rparr>) (commitsOnHold p ! 0) = Inr r"
      "commit_upto E m n r = Inr q" by (auto simp: gbind_eq_Inr commit_PeekMin_def)
    from Suc.IH [OF r(2)] applied_Cons [OF r(1) h(2)] show ?thesis by blast
  qed
qed (use applied_Nil in auto)

lemma mset_hold_push: "mset (hold_push c a) = add_mset a (mset c)"
  using hold.heap_up_keeps [of "length c" "c @ [a]"] by (simp add: hold_push_def commit_Push_def)

lemma commit_or_hold_applied:
  assumes "commit_or_hold E p args = Inr q"
  shows "\<exists>as. applied (p\<lparr>commitsOnHold := args # commitsOnHold p\<rparr>) as q \<and> (as = [] \<or> as = [args])"
proof (cases "canCommit p args")
  case True
  with assms have "applyCommit E p args = Inr q" by (simp add: commit_or_hold_def)
  from applyCommit_frame [OF this] have "applied (p\<lparr>commitsOnHold := args # commitsOnHold p\<rparr>) [args] q" by (simp add: applied_def)
  then show ?thesis by blast
next
  case False
  with assms have "q = holdCommit p args" by (simp add: commit_or_hold_def)
  then have "applied (p\<lparr>commitsOnHold := args # commitsOnHold p\<rparr>) [] q"
    by (simp add: applied_def holdCommit_def mset_hold_push)
  then show ?thesis by blast
qed

lemma applied_trans: "applied p as q \<Longrightarrow> applied q bs r \<Longrightarrow> applied p (as @ bs) r"
  by (auto simp: applied_def add.assoc)

lemma checkHoldCommits_applied: "checkHoldCommits E p = Inr q \<Longrightarrow> \<exists>as. applied p as q"
  using commit_all_applied [OF _ order_refl] commit_upto_applied applied_Nil
  unfolding checkHoldCommits_def by (fastforce split: if_splits option.splits)

lemma applied_prepared:
  assumes "applied p as q"
  shows "prepClks (part_clock q) = prepClks (part_clock p) \<and> pk_replicaID (part_clock q) = pk_replicaID (part_clock p)
    \<and> lastUsedTs (part_clock q) = lastUsedTs (part_clock p)"
proof -
  have "prepClks (foldl (\<lambda>c a. updateClockWithCommit (ca_CommitTimestamp a) c) c as) = prepClks c
      \<and> pk_replicaID (foldl (\<lambda>c a. updateClockWithCommit (ca_CommitTimestamp a) c) c as) = pk_replicaID c
      \<and> lastUsedTs (foldl (\<lambda>c a. updateClockWithCommit (ca_CommitTimestamp a) c) c as) = lastUsedTs c" for c
    by (induction as arbitrary: c) (simp_all add: updateClockWithCommit_def)
  with assms show ?thesis by (simp add: applied_def)
qed

lemma applied_clock_inv:
  assumes "applied p as q" and "clock_inv I (part_clock p)" and "\<forall>c \<in> set (commitsOnHold p). on_ids I (ca_CommitTimestamp c)"
  shows "clock_inv I (part_clock q)" and "\<forall>c \<in> set (commitsOnHold q). on_ids I (ca_CommitTimestamp c)"
proof -
  have s: "set as \<union> set (commitsOnHold q) = set (commitsOnHold p)"
    using assms(1) unfolding applied_def by (metis set_mset_mset set_mset_union)
  then show "\<forall>c \<in> set (commitsOnHold q). on_ids I (ca_CommitTimestamp c)" using assms(3) by auto
  have "\<forall>c \<in> set as. on_ids I (ca_CommitTimestamp c)" using s assms(3) by auto
  then have "clock_inv I (foldl (\<lambda>c a. updateClockWithCommit (ca_CommitTimestamp a) c) c as)" if "clock_inv I c" for c
    using that by (induction as arbitrary: c) (simp_all add: clock_inv_commit)
  then show "clock_inv I (part_clock q)" using assms(1,2) by (simp add: applied_def)
qed

section \<open>Every commit is applied in the end\<close>

text \<open>
  The state of the commit protocol: no commit is on hold when nothing is prepared.
\<close>

definition mat_inv :: "int set \<Rightarrow> ('vm, 'w, 'u, 'st) partition \<Rightarrow> bool" where
  "mat_inv I p \<longleftrightarrow> clock_inv I (part_clock p) \<and> (\<forall>c \<in> set (commitsOnHold p). on_ids I (ca_CommitTimestamp c))
     \<and> (prepared (part_clock p) = [] \<longrightarrow> commitsOnHold p = [])"

definition lowest_txn :: "('vm, 'w, 'u, 'st) partition \<Rightarrow> TransactionId" where
  "lowest_txn p = (case getLowestPrepare (part_clock p) of None \<Rightarrow> 0 | Some e \<Rightarrow> tc_txnId e)"

lemma handleMatCommit_steps:
  assumes "handleMatCommit E p args = Inr q" and "removePrepare (ca_TransactionId args) (part_clock p) = Inr c"
  obtains r where "commit_or_hold E (p\<lparr>part_clock := c\<rparr>) args = Inr r"
    and "if lowest_txn p = ca_TransactionId args then checkHoldCommits E r = Inr q else q = r"
proof -
  from assms obtain r where "commit_or_hold E (p\<lparr>part_clock := c\<rparr>) args = Inr r"
    and "(if lowest_txn p = ca_TransactionId args then checkHoldCommits E r else Inr r) = Inr q"
    by (auto simp: handleMatCommit_def lowest_txn_def Let_def gbind_eq_Inr)
  with that show thesis by (auto split: if_splits)
qed

lemma handleMatCommit_applied:
  assumes inv: "mat_inv I p" and t: "pc_innerMap (prepClks (part_clock p)) (ca_TransactionId args) \<noteq> None"
    and ids: "on_ids I (ca_CommitTimestamp args)" and q: "handleMatCommit E p args = Inr q"
  obtains h as where "applied (p\<lparr>part_clock := (part_clock p)\<lparr>prepClks := h\<rparr>, commitsOnHold := args # commitsOnHold p\<rparr>) as q"
    and "mat_inv I q" and "\<forall>s. pc_innerMap h s = None \<longleftrightarrow> s = ca_TransactionId args \<or> pc_innerMap (prepClks (part_clock p)) s = None"
proof -
  let ?c = "part_clock p"
  have c: "clock_inv I ?c" and hold: "\<forall>c \<in> set (commitsOnHold p). on_ids I (ca_CommitTimestamp c)" using inv by (auto simp: mat_inv_def)
  obtain i where i: "pc_innerMap (prepClks ?c) (ca_TransactionId args) = Some i" using t by auto
  obtain h where h: "removePrepare (ca_TransactionId args) ?c = Inr (?c\<lparr>prepClks := h\<rparr>)" "clock_inv I (?c\<lparr>prepClks := h\<rparr>)"
    "mset (prepared ?c) = add_mset (prepared ?c ! i) (mset (pc_entries h))" "tc_txnId (prepared ?c ! i) = ca_TransactionId args"
    "\<forall>s. pc_innerMap h s = None \<longleftrightarrow> s = ca_TransactionId args \<or> pc_innerMap (prepClks ?c) s = None"
    by (rule remove_prepare [OF c i])
  let ?p = "p\<lparr>part_clock := ?c\<lparr>prepClks := h\<rparr>\<rparr>"
  let ?p' = "p\<lparr>part_clock := ?c\<lparr>prepClks := h\<rparr>, commitsOnHold := args # commitsOnHold p\<rparr>"
  obtain r where r: "commit_or_hold E ?p args = Inr r"
    and q': "if lowest_txn p = ca_TransactionId args then checkHoldCommits E r = Inr q else q = r"
    by (rule handleMatCommit_steps [OF q h(1)])
  obtain as where as: "applied ?p' as r" using commit_or_hold_applied [OF r(1)] by auto
  obtain bs where bs: "applied r bs q"
    using q' applied_Nil [of r] checkHoldCommits_applied [of E r q] by (cases "lowest_txn p = ca_TransactionId args") auto
  have ap: "applied ?p' (as @ bs) q" by (rule applied_trans [OF as bs])
  have i1: "clock_inv I (part_clock q)" by (rule applied_clock_inv(1) [OF ap]) (use h(2) ids hold in auto)
  have i2: "\<forall>c \<in> set (commitsOnHold q). on_ids I (ca_CommitTimestamp c)"
    by (rule applied_clock_inv(2) [OF ap]) (use h(2) ids hold in auto)
  have "commitsOnHold q = []" if "prepared (part_clock q) = []"
  proof -
    have e: "pc_entries h = []" using applied_prepared [OF ap] that by simp
    have "prepared ?c \<noteq> []" using h(3) by auto
    moreover have "mset (prepared ?c) = {#prepared ?c ! i#}" using h(3) e by simp
    then have "prepared ?c = [prepared ?c ! i]" by (rule mset_single_iff [THEN iffD1])
    then have "prepared ?c ! 0 = [prepared ?c ! i] ! 0" by (rule arg_cong)
    then have "prepared ?c ! 0 = prepared ?c ! i" by simp
    ultimately have "lowest_txn p = ca_TransactionId args" using h(4) by (simp add: lowest_txn_def getLowestPrepare_def prep_PeekMin_def)
    then have chk: "checkHoldCommits E r = Inr q" using q' by simp
    have "prepared (part_clock r) = []" using applied_prepared [OF as] e by simp
    then have "prep_PeekMin (prepClks (part_clock r)) = None" by (simp add: prep_PeekMin_def)
    then show ?thesis using chk commit_all_applied [of E "length (commitsOnHold r)" r q]
      by (auto simp: checkHoldCommits_def split: if_splits)
  qed
  then have "mat_inv I q" using i1 i2 by (simp add: mat_inv_def)
  from that [OF ap this h(5)] show thesis .
qed

text \<open>A request that prepares a transaction names a new one.\<close>

definition can_prepare :: "('vm, 'w, 'u, 'st) partition \<Rightarrow> int \<Rightarrow> TransactionId \<Rightarrow> bool" where
  "can_prepare p now t \<longleftrightarrow> room (part_clock p) now \<and> pc_innerMap (prepClks (part_clock p)) t = None"

text \<open>
  How the transaction manager uses a partition: transactions are prepared once and committed
  once, after they were prepared; clocks have the positions of the known replicas. A reset is
  part of shutting down and is left out.
\<close>

fun allowed :: "int set \<Rightarrow> ('vm, 'w, 'u, 'st) partition \<Rightarrow> int \<Rightarrow> TransactionId \<Rightarrow> ('u, 'r) MatRequestArgs \<Rightarrow> bool" where
  "allowed I p now rnd (MatPrepare t) = can_prepare p now t"
| "allowed I p now rnd (MatStaticUpdate upds t) = can_prepare p now t"
| "allowed I p now rnd (MatPrepareForRemote upds t) = can_prepare p now t"
| "allowed I p now rnd (MatBCTxnPermissions values i) = can_prepare p now rnd"
| "allowed I p now rnd (MatCommit args) =
     (pc_innerMap (prepClks (part_clock p)) (ca_TransactionId args) \<noteq> None \<and> on_ids I (ca_CommitTimestamp args))"
| "allowed I p now rnd (MatRemoteTxnReq txn) = on_ids I (rt_Timestamp txn)"
| "allowed I p now rnd (MatRemoteGroupTxn txns clk) = on_ids I clk"
| "allowed I p now rnd (MatClkPosUpd i ts) = (i \<in> I)"
| "allowed I p now rnd MatReset = False"
| "allowed I p now rnd req = True"

fun commit_request :: "TransactionId \<Rightarrow> ('u, 'r) MatRequestArgs \<Rightarrow> TransactionId list" where
  "commit_request rnd (MatCommit args) = [ca_TransactionId args]"
| "commit_request rnd (MatBCTxnPermissions values i) = [rnd]"
| "commit_request rnd req = []"

primrec mat_run ::
    "('vm, 'w, 'u, 'r, 'st) mat_env \<Rightarrow> ('vm, 'w, 'u, 'st) partition \<Rightarrow> (int \<times> TransactionId \<times> ('u, 'r) MatRequestArgs) list
       \<Rightarrow> ('vm, 'w, 'u, 'st) partition go" where
  "mat_run E p [] = Inr p"
| "mat_run E p (x # xs) = (case x of (now, rnd, req) \<Rightarrow> gbind (handleRequest E now rnd p req) (\<lambda>p'. mat_run E p' xs))"

primrec allowed_run ::
    "int set \<Rightarrow> ('vm, 'w, 'u, 'r, 'st) mat_env \<Rightarrow> ('vm, 'w, 'u, 'st) partition \<Rightarrow> (int \<times> TransactionId \<times> ('u, 'r) MatRequestArgs) list
       \<Rightarrow> bool" where
  "allowed_run I E p [] = True"
| "allowed_run I E p (x # xs) = (case x of (now, rnd, req) \<Rightarrow> allowed I p now rnd req
     \<and> (case handleRequest E now rnd p req of Inl e \<Rightarrow> True | Inr p' \<Rightarrow> allowed_run I E p' xs))"

definition requested :: "(int \<times> TransactionId \<times> ('u, 'r) MatRequestArgs) list \<Rightarrow> TransactionId list" where
  "requested xs = concat (map (\<lambda>(now, rnd, req). commit_request rnd req) xs)"

text \<open>The commits that were reported or wait.\<close>

definition balance :: "('vm, 'w, 'u, 'st) partition \<Rightarrow> TransactionId multiset" where
  "balance p = mset (committed (sent p)) + image_mset ca_TransactionId (mset (commitsOnHold p))"

lemma applied_balance: "applied p as q \<Longrightarrow> balance q = balance p"
proof -
  assume a: "applied p as q"
  then have "mset (commitsOnHold p) = mset as + mset (commitsOnHold q)" by (simp only: applied_def)
  with a show ?thesis by (simp add: balance_def applied_def)
qed

text \<open>Steps that neither prepare nor commit anything.\<close>

lemma quiet_step: "quiet p q \<Longrightarrow> mat_inv I q = mat_inv I p \<and> balance q = balance p"
  by (simp add: quiet_def mat_inv_def balance_def)

lemma send_step [simp]: "mat_inv I (send m q) = mat_inv I q" "balance (send m q) = balance q + mset (committed [m])"
  by (simp_all add: mat_inv_def balance_def send_def)

text \<open>A step keeps the invariant and accounts for the commits \<open>ts\<close>.\<close>

definition step_ok :: "int set \<Rightarrow> ('vm, 'w, 'u, 'st) partition \<Rightarrow> TransactionId list \<Rightarrow> ('vm, 'w, 'u, 'st) partition \<Rightarrow> bool" where
  "step_ok I p ts q \<longleftrightarrow> (mat_inv I p \<longrightarrow> mat_inv I q \<and> balance q = balance p + mset ts)"

lemma quiet_step_ok: "quiet p q \<Longrightarrow> committed [m] = [] \<Longrightarrow> step_ok I p [] (send m q)"
  using quiet_step [of p q I] by (simp add: step_ok_def)

lemma read_object_quiet: "read_object E p latest k r clk ops = Inr (st, q) \<Longrightarrow> quiet p q"
  by (auto simp: read_object_def gbind_eq_Inr store_obj_def split: if_splits)

lemma gc_quiet: "gfold (gc_object E clk) p xs = Inr q \<Longrightarrow> quiet p q"
proof (induction xs arbitrary: p)
  case (Cons x xs)
  then obtain r where r: "gc_object E clk p x = Inr r" "gfold (gc_object E clk) r xs = Inr q" by (auto simp: gbind_eq_Inr)
  have "quiet p r" using r(1) by (cases x) (auto simp: gc_object_def gbind_eq_Inr)
  with Cons.IH [OF r(2)] show ?case using quiet_trans by blast
qed simp

lemma mat_inv_clock:
  assumes "mat_inv I p" and "clock_inv I c" and "prepClks c = prepClks (part_clock p)"
  shows "mat_inv I (p\<lparr>part_clock := c\<rparr>)"
  using assms by (simp add: mat_inv_def)

lemma mat_inv_prepare:
  assumes "mat_inv I p" and "can_prepare p now t"
  shows "mat_inv I (prepare_part now t p)" and "prep_PeekMax (prepClks (part_clock (prepare_part now t p))) \<noteq> None"
proof -
  have c: "clock_inv I (part_clock p)" "room (part_clock p) now" "pc_innerMap (prepClks (part_clock p)) t = None"
    using assms by (auto simp: mat_inv_def can_prepare_def)
  obtain c' clk where n: "getNextClk now (part_clock p) = (c', clk)" by (cases "getNextClk now (part_clock p)")
  have e: "prepared (prepareClock now t (part_clock p)) = prepared (part_clock p) @ [\<lparr>tc_clk = clk, tc_txnId = t\<rparr>]"
    using prepare_appends(1) [OF c(1,2) n, of t] by (simp add: prep_Push_def)
  show "mat_inv I (prepare_part now t p)" using assms(1) clock_inv_prepare [OF c] e by (simp add: mat_inv_def prepare_part_def)
  show "prep_PeekMax (prepClks (part_clock (prepare_part now t p))) \<noteq> None" using e by (simp add: prep_PeekMax_def prepare_part_def)
qed

lemma reply_prepared_step: "mat_inv I p \<Longrightarrow> mat_inv I (reply_prepared p)" "balance (reply_prepared p) = balance p"
  by (simp_all add: reply_prepared_def send_def mat_inv_def balance_def split: option.split)

lemma prepare_part_fields [simp]: "sent (prepare_part now t p) = sent p" "commitsOnHold (prepare_part now t p) = commitsOnHold p"
  by (simp_all add: prepare_part_def)

lemma pending_step [simp]:
  "mat_inv I (p\<lparr>pendingOps := x\<rparr>) = mat_inv I p" "balance (p\<lparr>pendingOps := x\<rparr>) = balance p"
  "mat_inv I (p\<lparr>pendingOpsRemote := x\<rparr>) = mat_inv I p" "balance (p\<lparr>pendingOpsRemote := x\<rparr>) = balance p"
  "mat_inv I (p\<lparr>permsForReplica := y\<rparr>) = mat_inv I p" "balance (p\<lparr>permsForReplica := y\<rparr>) = balance p"
  "mat_inv I (p\<lparr>opsForTxn := z\<rparr>) = mat_inv I p" "balance (p\<lparr>opsForTxn := z\<rparr>) = balance p"
  "balance (p\<lparr>part_clock := c\<rparr>) = balance p"
  by (simp_all add: mat_inv_def balance_def)

lemma commit_step:
  assumes "mat_inv I p" and "pc_innerMap (prepClks (part_clock p)) (ca_TransactionId args) \<noteq> None"
    and "on_ids I (ca_CommitTimestamp args)" and "handleMatCommit E p args = Inr q"
  shows "mat_inv I q \<and> balance q = add_mset (ca_TransactionId args) (balance p)"
proof -
  from handleMatCommit_applied [OF assms] obtain h as where
    a: "applied (p\<lparr>part_clock := (part_clock p)\<lparr>prepClks := h\<rparr>, commitsOnHold := args # commitsOnHold p\<rparr>) as q" and "mat_inv I q" .
  with applied_balance [OF a] show ?thesis by (simp add: balance_def)
qed

lemma balance_prepare_part [simp]: "balance (prepare_part now t p) = balance p"
  by (simp add: balance_def)

lemma reads_ok:
  "handleMatStaticSingleRead E p k r = Inr q \<Longrightarrow> step_ok I p [] q"
  "handleMatStaticRead E p k r ts = Inr q \<Longrightarrow> step_ok I p [] q"
  "handleMatRead E p k r ts t = Inr q \<Longrightarrow> step_ok I p [] q"
  by (auto simp: handleMatStaticSingleRead_def handleMatStaticRead_def handleMatRead_def gbind_eq_Inr Let_def
      intro!: quiet_step_ok dest: read_object_quiet)

lemma prepares_ok:
  assumes "can_prepare p now t"
  shows "step_ok I p [] (handleMatPrepare now p t)" and "step_ok I p [] (handleMatStaticWrite now p upds t)"
    and "step_ok I p [] (handleMatPrepareRemote now p upds t)"
proof -
  show "step_ok I p [] (handleMatPrepare now p t)" "step_ok I p [] (handleMatStaticWrite now p upds t)"
    using mat_inv_prepare(1) [OF _ assms] by (simp_all add: step_ok_def handleMatPrepare_def handleMatStaticWrite_def Let_def reply_prepared_step)
  let ?p = "p\<lparr>pendingOpsRemote := (pendingOpsRemote p)(t \<mapsto> upds)\<rparr>"
  have "can_prepare ?p now t" using assms by (simp add: can_prepare_def)
  from mat_inv_prepare(1) [OF _ this] show "step_ok I p [] (handleMatPrepareRemote now p upds t)"
    by (simp add: step_ok_def handleMatPrepareRemote_def reply_prepared_step)
qed

lemma stable_step:
  assumes "quiet p p1" and "committed [m] = []" and "\<And>c. clock_inv I c \<Longrightarrow> clock_inv I (f c) \<and> prepClks (f c) = prepClks c"
  shows "step_ok I p [] (send m (p1\<lparr>part_clock := f (part_clock p1)\<rparr>))"
proof (unfold step_ok_def, intro impI)
  assume "mat_inv I p"
  then have p1: "mat_inv I p1" "balance p1 = balance p" using quiet_step [OF assms(1)] by auto
  then have "mat_inv I (p1\<lparr>part_clock := f (part_clock p1)\<rparr>)" using assms(3) [of "part_clock p1"] by (simp add: mat_inv_def)
  with p1(2) assms(2) show "mat_inv I (send m (p1\<lparr>part_clock := f (part_clock p1)\<rparr>))
      \<and> balance (send m (p1\<lparr>part_clock := f (part_clock p1)\<rparr>)) = balance p + mset []" by simp
qed

lemma remotes_ok:
  "handleMatRemoteTxn E p txn = Inr q \<Longrightarrow> on_ids I (rt_Timestamp txn) \<Longrightarrow> step_ok I p [] q"
  "handleMatRemoteGroupTxn E p txns clk = Inr q \<Longrightarrow> on_ids I clk \<Longrightarrow> step_ok I p [] q"
  "i \<in> I \<Longrightarrow> step_ok I p [] (handleMatClkPosUpd p i ts)"
proof -
  have commit: "clock_inv I (updateClockWithCommit clk c) \<and> prepClks (updateClockWithCommit clk c) = prepClks c"
    if "on_ids I clk" "clock_inv I c" for clk c using that clock_inv_commit by (simp add: updateClockWithCommit_def)
  show "step_ok I p [] q" if a: "handleMatRemoteTxn E p txn = Inr q" and b: "on_ids I (rt_Timestamp txn)"
  proof -
    obtain p1 nd where r: "applyRemoteUpds E (p, []) txn = Inr (p1, nd)"
      and e: "q = send (DownReply nd) (p1\<lparr>part_clock := updateClockWithCommit (rt_Timestamp txn) (part_clock p1)\<rparr>)"
      using a by (auto simp: handleMatRemoteTxn_def gbind_eq_Inr)
    have "quiet p p1" using applyRemoteUpds_quiet [OF r] by simp
    then show ?thesis unfolding e by (rule stable_step) (use commit b in simp_all)
  qed
  show "step_ok I p [] q" if a: "handleMatRemoteGroupTxn E p txns clk = Inr q" and b: "on_ids I clk"
  proof -
    obtain p1 nd where r: "gfold (applyRemoteUpds E) (p, []) txns = Inr (p1, nd)"
      and e: "q = send (DownReply nd) (p1\<lparr>part_clock := updateClockWithCommit clk (part_clock p1)\<rparr>)"
      using a by (auto simp: handleMatRemoteGroupTxn_def gbind_eq_Inr)
    have "quiet p p1" using gfold_quiet [OF applyRemoteUpds_quiet r] by simp
    then show ?thesis unfolding e by (rule stable_step) (use commit b in simp_all)
  qed
  show "step_ok I p [] (handleMatClkPosUpd p i ts)" if "i \<in> I"
    unfolding handleMatClkPosUpd_def
    by (rule stable_step [OF quiet_refl]) (use clock_inv_remote [OF _ that] in \<open>auto simp: updateClockWithRemoteTS_def\<close>)
qed

lemma perms_ok:
  assumes c: "can_prepare p now t" and q: "handleMatPermsTxn E now t p values i = Inr q"
  shows "step_ok I p [t] q"
proof (unfold step_ok_def, intro impI)
  assume inv: "mat_inv I p"
  note pr = mat_inv_prepare [OF inv c]
  obtain e where e: "prep_PeekMax (prepClks (part_clock (prepare_part now t p))) = Some e" using pr(2) by auto
  define r where "r = send (TMCommitNPartitions 1 t (Copy_clk (tc_clk e)))
    (prepare_part now t p\<lparr>permsForReplica := (permsForReplica (prepare_part now t p))(t \<mapsto> i),
       opsForTxn := (opsForTxn (prepare_part now t p))(t \<mapsto> values)\<rparr>)"
  have r: "mat_inv I r" "balance r = balance p" using pr(1) by (simp_all add: r_def)
  have clk: "part_clock r = part_clock (prepare_part now t p)" by (simp add: r_def send_def)
  have ok: "clock_inv I (part_clock r)" using r(1) by (simp add: mat_inv_def)
  have mem: "e \<in> set (prepared (part_clock r))" using e unfolding clk by (auto simp: prep_PeekMax_def split: if_splits)
  have "prepared (part_clock (prepare_part now t p)) = prepared (part_clock p) @ [\<lparr>tc_clk = snd (getNextClk now (part_clock p)), tc_txnId = t\<rparr>]"
    using prepare_appends(1) [of I "part_clock p" now "fst (getNextClk now (part_clock p))" "snd (getNextClk now (part_clock p))" t]
      inv c by (simp add: mat_inv_def can_prepare_def prepare_part_def prep_Push_def)
  then have t: "tc_txnId e = t" using e by (auto simp: prep_PeekMax_def)
  have "t \<in> tc_txnId ` set (prepared (part_clock r))" using mem t by blast
  then have "pc_innerMap (prepClks (part_clock r)) t \<noteq> None"
    using indexed_None [of "prepClks (part_clock r)" t] ok by (simp add: clock_inv_def)
  moreover have "on_ids I (tc_clk e)" using ok mem by (simp add: clock_inv_def)
  moreover have "handleMatCommit E r \<lparr>ca_TransactionId = t, ca_CommitTimestamp = tc_clk e\<rparr> = Inr q"
    using q e by (simp add: handleMatPermsTxn_def Let_def r_def)
  ultimately show "mat_inv I q \<and> balance q = balance p + mset [t]"
    using commit_step [OF r(1), of "\<lparr>ca_TransactionId = t, ca_CommitTimestamp = tc_clk e\<rparr>" E q] r(2) by simp
qed

lemma others_ok:
  "step_ok I p [] (handleMatWrite p upds t)" "step_ok I p [] (handleMatAbort p t)" "step_ok I p [] (handleMatSafeClk now p)"
  "step_ok I p [] (handleMatCommitedClk p)" "step_ok I p [] (handleMatGetCRDT E p k pos)" "step_ok I p [] (send (PermissionsReply m i) p)"
  by (simp_all add: step_ok_def handleMatWrite_def handleMatAbort_def handleMatSafeClk_def handleMatCommitedClk_def handleMatGetCRDT_def)

lemma handleRequest_step:
  assumes "allowed I p now rnd req" and "handleRequest E now rnd p req = Inr q"
  shows "step_ok I p (commit_request rnd req) q"
proof (cases req)
  case (MatCommit args)
  with assms commit_step [of I p args E q] show ?thesis by (auto simp: step_ok_def)
next
  case (MatGC clk)
  with assms(2) gc_quiet [of E clk p "db p" q] quiet_step [of p q I] show ?thesis by (simp add: handleMatGC_def step_ok_def)
next
  case (MatBCUpdPermissions)
  with assms(2) show ?thesis by (auto simp: handleMatBCUpdPerm_def gbind_eq_Inr others_ok)
qed (use assms in \<open>auto simp: reads_ok prepares_ok remotes_ok perms_ok others_ok\<close>)

text \<open>The panics of object methods, as the handlers see them.\<close>

definition object_panics :: "('vm, 'w, 'u, 'r, 'st) mat_env \<Rightarrow> go_panic \<Rightarrow> bool" where
  "object_panics E e \<longleftrightarrow> (\<exists>p args. commit_updates E p args = Inl e) \<or> (\<exists>p latest k r clk ops. read_object E p latest k r clk ops = Inl e)
     \<or> (\<exists>s txn. applyRemoteUpds E s txn = Inl e) \<or> (\<exists>clk p x. gc_object E clk p x = Inl e) \<or> (\<exists>p m k. ask_permission E p m k = Inl e)"

lemma gbind_eq_Inl: "gbind m f = Inl e \<longleftrightarrow> m = Inl e \<or> (\<exists>x. m = Inr x \<and> f x = Inl e)"
  by (cases m) auto

lemma gfold_Inl: "gfold f s xs = Inl e \<Longrightarrow> \<exists>s x. f s x = Inl e"
  by (induction xs arbitrary: s) (auto simp: gbind_eq_Inl)

lemma applyCommit_Inl: "applyCommit E p args = Inl e \<Longrightarrow> object_panics E e"
  unfolding applyCommit_def object_panics_def gbind_eq_Inl by auto

lemma commit_all_Inl: "commit_all E n p = Inl e \<Longrightarrow> object_panics E e"
proof (induction n arbitrary: p)
  case (Suc n)
  then have ne: "commitsOnHold p \<noteq> []" by auto
  obtain h where h: "hold_pop (commitsOnHold p) = Inr (commitsOnHold p ! 0, h)" by (rule hold_pop_ok [OF ne])
  show ?case using Suc.prems Suc.IH ne h applyCommit_Inl by (auto simp: gbind_eq_Inl)
qed simp

lemma commit_upto_Inl: "commit_upto E m n p = Inl e \<Longrightarrow> object_panics E e"
proof (induction n arbitrary: p)
  case (Suc n)
  then have ne: "commitsOnHold p \<noteq> []" by (auto simp: commit_PeekMin_def)
  obtain h where h: "hold_pop (commitsOnHold p) = Inr (commitsOnHold p ! 0, h)" by (rule hold_pop_ok [OF ne])
  show ?case using Suc.prems Suc.IH ne h applyCommit_Inl by (auto simp: gbind_eq_Inl commit_PeekMin_def split: if_splits)
qed simp

lemma handleMatCommit_Inl:
  assumes inv: "mat_inv I p" and t: "pc_innerMap (prepClks (part_clock p)) (ca_TransactionId args) \<noteq> None"
    and e: "handleMatCommit E p args = Inl e"
  shows "object_panics E e"
proof -
  obtain i where i: "pc_innerMap (prepClks (part_clock p)) (ca_TransactionId args) = Some i" using t by auto
  have c: "clock_inv I (part_clock p)" using inv by (simp add: mat_inv_def)
  obtain h where "removePrepare (ca_TransactionId args) (part_clock p) = Inr ((part_clock p)\<lparr>prepClks := h\<rparr>)"
    by (rule remove_prepare [OF c i])
  with e show ?thesis
    by (auto simp: handleMatCommit_def Let_def gbind_eq_Inl commit_or_hold_def checkHoldCommits_def
        dest: applyCommit_Inl commit_all_Inl commit_upto_Inl split: if_splits option.splits)
qed

lemma perms_Inl:
  assumes c: "can_prepare p now t" and inv: "mat_inv I p" and q: "handleMatPermsTxn E now t p values i = Inl e"
  shows "object_panics E e"
proof -
  note pr = mat_inv_prepare [OF inv c]
  obtain x where x: "prep_PeekMax (prepClks (part_clock (prepare_part now t p))) = Some x" using pr(2) by auto
  let ?r = "send (TMCommitNPartitions 1 t (Copy_clk (tc_clk x)))
    (prepare_part now t p\<lparr>permsForReplica := (permsForReplica (prepare_part now t p))(t \<mapsto> i),
       opsForTxn := (opsForTxn (prepare_part now t p))(t \<mapsto> values)\<rparr>)"
  have clk: "part_clock ?r = part_clock (prepare_part now t p)" by (simp add: send_def)
  have "prepared (part_clock (prepare_part now t p)) = prepared (part_clock p) @ [\<lparr>tc_clk = snd (getNextClk now (part_clock p)), tc_txnId = t\<rparr>]"
    using prepare_appends(1) [of I "part_clock p" now "fst (getNextClk now (part_clock p))" "snd (getNextClk now (part_clock p))" t]
      inv c by (simp add: mat_inv_def can_prepare_def prepare_part_def prep_Push_def)
  then have "t \<in> tc_txnId ` set (prepared (part_clock ?r))" unfolding clk by simp
  then have "pc_innerMap (prepClks (part_clock ?r)) t \<noteq> None"
    using indexed_None [of "prepClks (part_clock ?r)" t] pr(1) clk by (simp add: mat_inv_def clock_inv_def)
  moreover have "mat_inv I ?r" using pr(1) by simp
  moreover have "handleMatCommit E ?r \<lparr>ca_TransactionId = t, ca_CommitTimestamp = tc_clk x\<rparr> = Inl e"
    using q x by (simp add: handleMatPermsTxn_def Let_def)
  ultimately show ?thesis using handleMatCommit_Inl [of I ?r "\<lparr>ca_TransactionId = t, ca_CommitTimestamp = tc_clk x\<rparr>"] by simp
qed

lemma handleRequest_Inl:
  assumes inv: "mat_inv I p" and a: "allowed I p now rnd req" and e: "handleRequest E now rnd p req = Inl e"
  shows "object_panics E e"
proof (cases req)
  case (MatCommit args)
  with a e handleMatCommit_Inl [OF inv] show ?thesis by auto
next
  case (MatBCTxnPermissions vals i)
  with a e perms_Inl [OF _ inv] show ?thesis by auto
next
  case (MatRemoteGroupTxn txns clk)
  with e gfold_Inl [of "applyRemoteUpds E" "(p, [])" txns e] show ?thesis
    by (auto simp: handleMatRemoteGroupTxn_def gbind_eq_Inl object_panics_def)
next
  case (MatGC clk)
  with e gfold_Inl [of "gc_object E clk" p "db p" e] show ?thesis by (auto simp: handleMatGC_def object_panics_def)
next
  case MatBCUpdPermissions
  with e show ?thesis by (auto simp: handleMatBCUpdPerm_def gbind_eq_Inl object_panics_def dest: gfold_Inl)
qed (use a e in \<open>auto simp: handleMatStaticSingleRead_def handleMatStaticRead_def handleMatRead_def handleMatRemoteTxn_def Let_def
    gbind_eq_Inl object_panics_def\<close>)

lemma mat_run_ok:
  "mat_inv I p \<Longrightarrow> allowed_run I E p xs \<Longrightarrow>
     (\<exists>q. mat_run E p xs = Inr q \<and> mat_inv I q \<and> balance q = balance p + mset (requested xs))
     \<or> (\<exists>e. mat_run E p xs = Inl e \<and> object_panics E e)"
proof (induction xs arbitrary: p)
  case (Cons x xs)
  obtain now rnd req where x: "x = (now, rnd, req)" by (metis surj_pair)
  with Cons.prems have a: "allowed I p now rnd req" by simp
  show ?case
  proof (cases "handleRequest E now rnd p req")
    case (Inl e)
    with handleRequest_Inl [OF Cons.prems(1) a] x show ?thesis by simp
  next
    case (Inr r)
    then have r: "mat_inv I r" "balance r = balance p + mset (commit_request rnd req)"
      using handleRequest_step [OF a Inr] Cons.prems(1) by (auto simp: step_ok_def)
    have "allowed_run I E r xs" using Cons.prems(2) x Inr by simp
    from Cons.IH [OF r(1) this] show ?thesis using r(2) x Inr by (auto simp: requested_def ac_simps)
  qed
qed (simp add: requested_def)

lemma start_inv: "replicaID \<in> set (e_knownIDs E) \<Longrightarrow> mat_inv (set (e_knownIDs E)) (start_partition E replicaID i w)"
  by (simp add: mat_inv_def start_partition_def clock_inv_start)

text \<open>
  A partition whose objects are counters under the version manager of inverse operations, with
  two replicas.
\<close>

type_synonym counter_vm = "nat InverseOpVM"

definition counter_env :: "(counter_vm, counter_world, counter_op, unit, int) mat_env" where
  "counter_env =
     \<lparr>v_New = \<lambda>crdtType replicaID clk w. (case Counter_InitializeCrdt replicaID w of (a, w') \<Rightarrow> Inr (InverseOpVM_Initialize a clk, w')),
      v_ReadLatest = InverseOpVM_ReadLatest (Counter_methods True),
      v_ReadOld = InverseOpVM_ReadOld (Counter_methods True),
      v_Update = \<lambda>vm u w. gbind (m_Update (Counter_methods True) (vm_CRDT vm) u w) (\<lambda>d. Inr (Some d, w)),
      v_Downstream = InverseOpVM_Downstream (Counter_methods True),
      v_GC = InverseOpVM_GC (Counter_methods True),
      v_BCTransfer = \<lambda>vm v a b w. Inl TypeAssertion, v_BCDownstream = \<lambda>vm t d w. Inl TypeAssertion,
      v_BCRequest = \<lambda>vm w. Inl TypeAssertion,
      u_isReset = \<lambda>u. False, u_isNoOp = \<lambda>u. False, u_isDownstream = \<lambda>u. True, u_MustReplicate = \<lambda>u. True,
      e_hash = length, e_knownIDs = [1, 2], e_readWaitingDisabled = False\<rparr>"

definition no_objects :: counter_world where
  "no_objects = (0, \<lambda>a. (0, \<lparr>vm_history = [], vm_bound = 0\<rparr>))"

definition a_counter :: KeyParams where
  "a_counter = \<lparr>kp_Key = ''k'', kp_CrdtType = 3, kp_Bucket = ''b''\<rparr>"

definition replies :: "(counter_vm, counter_op, int) mat_msg list \<Rightarrow> int list" where
  "replies ms = concat (map (\<lambda>m. case m of StateReply s \<Rightarrow> [s] | _ \<Rightarrow> []) ms)"

section \<open>Commits are not lost\<close>

text \<open>
  C20. Whatever requests a partition gets, in whatever order, as long as transactions are prepared
  before they are committed: unless a method of an object panics, every requested commit is
  either applied and reported to the transaction manager, exactly once, or is on hold, and no
  commit is on hold once no transaction is prepared. So when all prepared transactions have been
  committed, all of them are applied.
\<close>

theorem Materializer_commits_all:
  assumes "replicaID \<in> set (e_knownIDs E)"
    and "allowed_run (set (e_knownIDs E)) E (start_partition E replicaID i w) rs"
  shows "(\<exists>p. mat_run E (start_partition E replicaID i w) rs = Inr p
      \<and> mset (committed (sent p)) + mset (map ca_TransactionId (commitsOnHold p)) = mset (requested rs)
      \<and> (prepared (part_clock p) = [] \<longrightarrow> commitsOnHold p = [] \<and> mset (committed (sent p)) = mset (requested rs)))
    \<or> (\<exists>e. mat_run E (start_partition E replicaID i w) rs = Inl e \<and> object_panics E e)"
proof -
  have "balance (start_partition E replicaID i w) = {#}" by (simp add: balance_def start_partition_def)
  then show ?thesis using mat_run_ok [OF start_inv [OF assms(1)] assms(2)] by (auto simp: balance_def mat_inv_def)
qed

text \<open>Two updates prepared together: the second commit waits for the first.\<close>

definition two_updates :: "(int \<times> TransactionId \<times> (counter_op, unit) MatRequestArgs) list" where
  "two_updates =
     [(4, 0, MatStaticUpdate [(a_counter, Increment 1)] 11), (5, 0, MatStaticUpdate [(a_counter, Increment 5)] 12),
      (6, 0, MatCommit \<lparr>ca_TransactionId = 12, ca_CommitTimestamp = [(1, 5), (2, 0)]\<rparr>), (7, 0, MatCommitedClk),
      (8, 0, MatCommit \<lparr>ca_TransactionId = 11, ca_CommitTimestamp = [(1, 4), (2, 0)]\<rparr>),
      (9, 0, MatStaticRead a_counter () [(1, 9), (2, 0)])]"

lemma two_updates_allowed: "allowed_run {1, 2} counter_env (start_partition counter_env 1 0 no_objects) two_updates"
  by code_simp

theorem Materializer_commits_all_witness:
  "\<exists>p. mat_run counter_env (start_partition counter_env 1 0 no_objects) two_updates = Inr p
     \<and> mset (committed (sent p)) + mset (map ca_TransactionId (commitsOnHold p)) = {#11, 12#}
     \<and> committed (sent p) = [11, 12] \<and> replies (sent p) = [6]"
proof -
  let ?r = "mat_run counter_env (start_partition counter_env 1 0 no_objects) two_updates"
  have ids: "set (e_knownIDs counter_env) = {1, 2}" by (simp add: counter_env_def)
  have "map_sum (\<lambda>e. e) (\<lambda>p. (committed (sent p), replies (sent p))) ?r = Inr ([11, 12], [6])" by code_simp
  then obtain p where p: "?r = Inr p" "committed (sent p) = [11, 12]" "replies (sent p) = [6]" by (cases ?r) auto
  have "mset (requested two_updates) = {#11, 12#}" by (simp add: requested_def two_updates_def)
  with p Materializer_commits_all [of 1 counter_env 0 no_objects two_updates] two_updates_allowed ids show ?thesis by auto
qed

section \<open>Concurrent commits\<close>

text \<open>
  Replica 1 prepares transaction 1 before, and transaction 2 after, it has seen a transaction of
  replica 2. Another partition makes the commit clock of the first one higher than the clock
  prepared for the second, at this replica's position, so the two are concurrent.
\<close>

definition concurrent_commits :: "(int \<times> TransactionId \<times> (counter_op, unit) MatRequestArgs) list" where
  "concurrent_commits =
     [(4, 0, MatStaticUpdate [(a_counter, Increment 1)] 1),
      (5, 0, MatRemoteTxnReq \<lparr>rt_ReplicaID = 2, rt_Timestamp = [(1, 0), (2, 10)], rt_Upds = []\<rparr>),
      (6, 0, MatStaticUpdate [(a_counter, Increment 5)] 2),
      (7, 0, MatCommit \<lparr>ca_TransactionId = 1, ca_CommitTimestamp = [(1, 7), (2, 0)]\<rparr>),
      (8, 0, MatCommit \<lparr>ca_TransactionId = 2, ca_CommitTimestamp = [(1, 6), (2, 10)]\<rparr>)]"

definition snapshot_read :: "int \<times> TransactionId \<times> (counter_op, unit) MatRequestArgs" where
  "snapshot_read = (9, 0, MatStaticRead a_counter () [(1, 7), (2, 10)])"

lemma mat_run_append: "mat_run E p (xs @ ys) = gbind (mat_run E p xs) (\<lambda>q. mat_run E q ys)"
proof (induction xs arbitrary: p)
  case (Cons x xs)
  then show ?case by (cases x, cases "handleRequest E (fst x) (fst (snd x)) p (snd (snd x))") auto
qed simp

text \<open>The key's hash, and a read of the counter in a state in which it is stored.\<close>

lemma a_counter_hash: "key_hash counter_env a_counter = 9"
  by code_simp

lemma counter_env_methods:
  "v_Update counter_env vm u w = Inr (Some u, w)" "v_ReadLatest counter_env vm r us w = Inr (Counter_Read (fst (snd w (vm_CRDT vm))) us)"
  "v_Downstream counter_env vm t u w = Inr (vm\<lparr>updatedSinceGC := True, currVersion := Some t\<rparr>,
     (fst w, obj_Downstream True Counter_applyDownstream (vm_CRDT vm) t u (snd w)), None)"
  "u_isReset counter_env u = False" "u_isNoOp counter_env u = False" "u_MustReplicate counter_env u = True" "e_readWaitingDisabled counter_env = False"
  by (simp_all add: counter_env_def Counter_methods_def InverseOpVM_Downstream_def InverseOpVM_ReadLatest_def Counter_Update_def)

lemma snapshot_read_reply:
  assumes "map_of (db p) 9 = Some vm" and "\<not> IsLower [(1, 7), (2, 10)] (Some (stableClk (part_clock p)))"
  shows "\<exists>q. mat_run counter_env p [snapshot_read] = Inr q \<and> part_clock q = part_clock p
    \<and> sent q = sent p @ [StateReply (fst (snd (world p) (vm_CRDT vm)))]"
  using assms a_counter_hash by (simp add: snapshot_read_def handleMatStaticRead_def read_object_def getObject_def canReadLatest_def
      part_getState_def counter_env_methods Counter_Read_def send_def store_obj_def)

text \<open>The commit of the only prepared transaction, an increment of the counter.\<close>

lemma sole_commit:
  assumes "prepared (part_clock p) = [e]" and "pc_innerMap (prepClks (part_clock p)) t = Some 0" and "commitsOnHold p = []"
    and "pendingOps p t = Some [(a_counter, Increment n)]" and "map_of (db p) 9 = Some vm"
  shows "\<exists>q. handleMatCommit counter_env p \<lparr>ca_TransactionId = t, ca_CommitTimestamp = clk\<rparr> = Inr q
    \<and> map_option vm_CRDT (map_of (db q) 9) = Some (vm_CRDT vm)
    \<and> fst (snd (world q) (vm_CRDT vm)) = int32 (fst (snd (world p) (vm_CRDT vm)) + n)
    \<and> stableClk (part_clock q) = Merge (stableClk (part_clock p)) (Some clk) \<and> prepared (part_clock q) = []
    \<and> sent q = sent p @ [LogCommit clk [(a_counter, Increment n)], TMPartCommitReply t]"
proof -
  obtain v m where o: "snd (world p) (vm_CRDT vm) = (v, m)" by (cases "snd (world p) (vm_CRDT vm)")
  have r: "removePrepare t (part_clock p) = Inr ((part_clock p)\<lparr>prepClks := prep_Pop (prepClks (part_clock p))\<rparr>)"
    using assms(1,2) by (simp add: removePrepare_def heap_Remove_prepare_def)
  have e: "prepared ((part_clock p)\<lparr>prepClks := prep_Pop (prepClks (part_clock p))\<rparr>) = []" using assms(1) by (simp add: prep_Pop_def)
  show ?thesis
    using assms o e a_counter_hash
    by (simp add: handleMatCommit_def r commit_or_hold_def canCommit_def commit_PeekMin_def prep_PeekMin_def applyCommit_def
        commit_updates_def applyUpdates_def apply_update_def getObjectForUpd_def counter_env_methods obj_Downstream_def downstream_step_def addToHistory_def
        updatePartitionWithCommit_def updateClockWithCommit_def send_def Let_def checkHoldCommits_def map_of_mput)
qed
lemma concurrent_commits_run:
  obtains p q vm where "mat_run counter_env (start_partition counter_env 1 0 no_objects) (take 4 concurrent_commits) = Inr p"
    and "map_of (db p) 9 = Some vm" and "fst (snd (world p) (vm_CRDT vm)) = 1"
    and "stableClk (part_clock p) = [(1, 7), (2, 10)]" and "map tc_txnId (prepared (part_clock p)) = [2]"
    and "committed (sent p) = [1]" and "replies (sent p) = []"
    and "handleMatCommit counter_env p \<lparr>ca_TransactionId = 2, ca_CommitTimestamp = [(1, 6), (2, 10)]\<rparr> = Inr q"
    and "map_option vm_CRDT (map_of (db q) 9) = Some (vm_CRDT vm)" and "fst (snd (world q) (vm_CRDT vm)) = 6"
    and "stableClk (part_clock q) = [(1, 7), (2, 10)]" and "committed (sent q) = [1, 2]" and "replies (sent q) = []"
proof -
  let ?r = "mat_run counter_env (start_partition counter_env 1 0 no_objects) (take 4 concurrent_commits)"
  have r: "map_sum (\<lambda>e. e) (\<lambda>p. (map_option vm_CRDT (map_of (db p) 9), fst (snd (world p) 1), prepared (part_clock p),
        pc_innerMap (prepClks (part_clock p)) 2, stableClk (part_clock p), committed (sent p), replies (sent p), commitsOnHold p,
        pendingOps p 2)) ?r
     = Inr (Some 1, 1, [\<lparr>tc_clk = [(1, 6), (2, 10)], tc_txnId = 2\<rparr>], Some 0, [(1, 7), (2, 10)], [1], [], [],
        Some [(a_counter, Increment 5)])"
    by code_simp
  then obtain p vm where p: "?r = Inr p" "map_of (db p) 9 = Some vm" "vm_CRDT vm = 1" by (cases ?r) auto
  obtain q where q: "handleMatCommit counter_env p \<lparr>ca_TransactionId = 2, ca_CommitTimestamp = [(1, 6), (2, 10)]\<rparr> = Inr q"
    "map_option vm_CRDT (map_of (db q) 9) = Some 1" "fst (snd (world q) 1) = int32 (1 + 5)"
    "stableClk (part_clock q) = Merge [(1, 7), (2, 10)] (Some [(1, 6), (2, 10)])"
    "sent q = sent p @ [LogCommit [(1, 6), (2, 10)] [(a_counter, Increment 5)], TMPartCommitReply 2]"
    using sole_commit [of p _ 2 5 vm "[(1, 6), (2, 10)]"] p r by auto
  have "Merge [(1, 7), (2, 10)] (Some [(1, 6), (2, 10)]) = [(1, 7), (2, 10)]" "int32 (1 + 5) = 6" by code_simp+
  moreover have "committed (sent q) = [1, 2]" "replies (sent q) = []" using r p(1) by (auto simp: q(5) replies_def committed_def)
  ultimately show thesis using that [of p vm q] p q r by auto
qed

text \<open>
  The order of commits is that of vector clocks, and a commit is applied as soon as no
  prepared clock is lower, so a commit concurrent with a prepared transaction does not wait. In
  the run above the commit of transaction 1 is applied while transaction 2 is prepared; a read at
  the clock that is then stable returns 1, and the same read at the same clock returns 6 once
  transaction 2 commits at a lower clock: the snapshot of a clock changes after it was read.
\<close>

theorem Materializer_unstable_snapshot:
  "allowed_run {1, 2} counter_env (start_partition counter_env 1 0 no_objects) concurrent_commits
   \<and> map_sum (\<lambda>e. e) (\<lambda>p. (stableClk (part_clock p), map tc_txnId (prepared (part_clock p)), committed (sent p), replies (sent p)))
       (mat_run counter_env (start_partition counter_env 1 0 no_objects) (take 4 concurrent_commits @ [snapshot_read]))
     = Inr ([(1, 7), (2, 10)], [2], [1], [1])
   \<and> map_sum (\<lambda>e. e) (\<lambda>p. (stableClk (part_clock p), committed (sent p), replies (sent p)))
       (mat_run counter_env (start_partition counter_env 1 0 no_objects) (concurrent_commits @ [snapshot_read]))
     = Inr ([(1, 7), (2, 10)], [1, 2], [6])"
proof -
  let ?s = "start_partition counter_env 1 0 no_objects"
  obtain p q vm where c: "mat_run counter_env ?s (take 4 concurrent_commits) = Inr p"
    "map_of (db p) 9 = Some vm" "fst (snd (world p) (vm_CRDT vm)) = 1" "stableClk (part_clock p) = [(1, 7), (2, 10)]"
    "map tc_txnId (prepared (part_clock p)) = [2]" "committed (sent p) = [1]" "replies (sent p) = []"
    "handleMatCommit counter_env p \<lparr>ca_TransactionId = 2, ca_CommitTimestamp = [(1, 6), (2, 10)]\<rparr> = Inr q"
    "map_option vm_CRDT (map_of (db q) 9) = Some (vm_CRDT vm)" "fst (snd (world q) (vm_CRDT vm)) = 6"
    "stableClk (part_clock q) = [(1, 7), (2, 10)]" "committed (sent q) = [1, 2]" "replies (sent q) = []"
    by (rule concurrent_commits_run)
  obtain vm' where vm': "map_of (db q) 9 = Some vm'" "vm_CRDT vm' = vm_CRDT vm" using c(9) by auto
  have same: "\<not> IsLower [(1, 7), (2, 10)] (Some [(1, 7), (2, 10)])" by code_simp
  obtain p' where p': "mat_run counter_env p [snapshot_read] = Inr p'" "part_clock p' = part_clock p" "sent p' = sent p @ [StateReply 1]"
    using snapshot_read_reply [OF c(2)] c(3,4) same by auto
  obtain q' where q': "mat_run counter_env q [snapshot_read] = Inr q'" "part_clock q' = part_clock q" "sent q' = sent q @ [StateReply 6]"
    using snapshot_read_reply [OF vm'(1)] vm'(2) c(10,11) same by auto
  have split: "concurrent_commits = take 4 concurrent_commits @
      [(8, 0, MatCommit \<lparr>ca_TransactionId = 2, ca_CommitTimestamp = [(1, 6), (2, 10)]\<rparr>)]" by (simp add: concurrent_commits_def)
  have "mat_run counter_env ?s (take 4 concurrent_commits @
      [(8, 0, MatCommit \<lparr>ca_TransactionId = 2, ca_CommitTimestamp = [(1, 6), (2, 10)]\<rparr>)]) = Inr q"
    using c(1,8) by (simp add: mat_run_append)
  then have "mat_run counter_env ?s concurrent_commits = Inr q" by (simp only: split [symmetric])
  then have "mat_run counter_env ?s (concurrent_commits @ [snapshot_read]) = Inr q'" using q'(1) by (simp add: mat_run_append)
  moreover have "mat_run counter_env ?s (take 4 concurrent_commits @ [snapshot_read]) = Inr p'" using c(1) p'(1) by (simp add: mat_run_append)
  moreover have "replies (sent p') = [1]" "replies (sent q') = [6]" "committed (sent p') = [1]" "committed (sent q') = [1, 2]"
    using c p'(3) q'(3) by (simp_all add: replies_def)
  moreover have "allowed_run {1, 2} counter_env ?s concurrent_commits" by code_simp
  ultimately show ?thesis using c p'(2) q'(2) by simp
qed

end
