(* ===== verification/PartitionLog.thy ===== *)
theory PartitionLog
  imports Materializer
begin

text \<open>
  The messages that a partition sends to its logger, in a deployment with one replica, where
  clocks are totally ordered: transactions are logged in the order of their clocks, and after a
  safe clock was logged no transaction with a lower clock follows. The proof is over the
  positions of the clocks at the replica, which are integers.
\<close>

definition logged :: "('vm, 'u, 'st) mat_msg list \<Rightarrow> (bool \<times> ClockSiTimestamp) list" where
  "logged ms = concat (map (\<lambda>m. case m of LogCommit c us \<Rightarrow> [(True, c)] | LogClk c \<Rightarrow> [(False, c)] | _ \<Rightarrow> []) ms)"

lemma logged_append [simp]: "logged (xs @ ys) = logged xs @ logged ys"
  by (simp add: logged_def)

lemma logged_simps [simp]: "logged [] = []" "logged [TMPartCommitReply t] = []" "logged [LogCommit c us] = [(True, c)]"
  "logged [ClkReply c] = []" "logged [TMCommitNPartitions n t c] = []" "logged [StateReply st] = []"
  "logged [StateClkReply st c] = []" "logged [LogClk c] = [(False, c)]" "logged [LogReset] = []" "logged [DownReply us] = []"
  "logged [BoolReply b] = []" "logged [CommitedClkReply c i] = []" "logged [PermissionsReply m i] = []"
  "logged [CrdtReply c' i] = []"
  by (simp_all add: logged_def)

text \<open>No transaction is logged after a clock that is higher.\<close>

definition log_ordered :: "(bool \<times> int) list \<Rightarrow> bool" where
  "log_ordered L \<longleftrightarrow> sorted_wrt (\<lambda>x y. fst y \<longrightarrow> snd x \<le> snd y) L"

text \<open>
  The log \<open>L\<close> beside the positions of the stable clock \<open>s\<close>, the last used one \<open>l\<close>, the prepared
  clocks \<open>P\<close> and the commits on hold \<open>H\<close>: what is logged is not above anything that may still
  be committed.
\<close>

definition log_state :: "int \<Rightarrow> (bool \<times> int) list \<Rightarrow> int \<Rightarrow> int \<Rightarrow> int set \<Rightarrow> int set \<Rightarrow> bool" where
  "log_state now L s l P H \<longleftrightarrow> log_ordered L
     \<and> (\<forall>x \<in> set L. (\<forall>y \<in> P \<union> H. snd x \<le> y) \<and> (snd x \<le> s + 1 \<or> snd x \<le> now \<or> snd x \<le> l))
     \<and> (\<forall>x \<in> P. 0 < x \<and> x \<le> MaxInt64)"

definition waits :: "int set \<Rightarrow> int set \<Rightarrow> bool" where
  "waits P H \<longleftrightarrow> (\<forall>h \<in> H. \<exists>x \<in> P. x \<le> h)"

lemma log_state_mono:
  "log_state now L s l P H \<Longrightarrow> now \<le> now' \<Longrightarrow> s \<le> s' \<Longrightarrow> P' \<subseteq> P \<Longrightarrow> H' \<subseteq> H \<Longrightarrow> log_state now' L s' l P' H'"
  unfolding log_state_def by fastforce

lemma log_state_prepare:
  assumes st: "log_state now L s l P H" and x: "s < x" "now \<le> x" "l < x" "0 < x" "x \<le> MaxInt64"
  shows "log_state now L s x (insert x P) H"
proof -
  have "snd y \<le> x" if "y \<in> set L" for y
  proof -
    have "snd y \<le> s + 1 \<or> snd y \<le> now \<or> snd y \<le> l" using st that by (simp add: log_state_def)
    with x(1-3) show ?thesis by linarith
  qed
  with st x(4,5) show ?thesis by (auto simp: log_state_def)
qed

lemma log_state_hold:
  assumes st: "log_state now L s l P H" and x: "x \<in> P" "x \<le> c"
  shows "log_state now L s l P (insert c H)"
proof -
  have "snd y \<le> c" if "y \<in> set L" for y
    using st x that order_trans [of "snd y" x c] by (simp add: log_state_def)
  with st show ?thesis by (auto simp: log_state_def)
qed

lemma log_state_append:
  assumes "log_state now L s l P H" and "\<forall>y \<in> P \<union> H. c \<le> y" and "b \<longrightarrow> (\<forall>x \<in> set L. snd x \<le> c)"
    and "c \<le> s + 1 \<or> c \<le> now \<or> c \<le> l"
  shows "log_state now (L @ [(b, c)]) s l P H"
  using assms unfolding log_state_def log_ordered_def by (auto simp: sorted_wrt_append)

text \<open>Applying a commit that was on hold or arrives now.\<close>

lemma log_state_commit:
  assumes "log_state now L s l P (insert c H)" and "\<forall>y \<in> P \<union> H. c \<le> y" and "s \<le> s'" and "c \<le> s'" and "L' = L \<or> L' = L @ [(True, c)]"
  shows "log_state now L' s' l P H"
proof -
  have "log_state now L s' l P H" using log_state_mono [OF assms(1) order_refl assms(3)] by auto
  moreover have "\<forall>x \<in> set L. snd x \<le> c" using assms(1) by (simp add: log_state_def)
  ultimately show ?thesis using assms log_state_append [of now L s' l P H c True] by auto
qed

section \<open>The positions of one replica\<close>

abbreviation me :: "('vm, 'w, 'u, 'st) partition \<Rightarrow> int" where
  "me p \<equiv> pk_replicaID (part_clock p)"

definition log_of :: "('vm, 'w, 'u, 'st) partition \<Rightarrow> (bool \<times> int) list" where
  "log_of p = map (\<lambda>x. (fst x, vget (snd x) (me p))) (logged (sent p))"

definition prep_of :: "('vm, 'w, 'u, 'st) partition \<Rightarrow> int set" where
  "prep_of p = (\<lambda>e. vget (tc_clk e) (me p)) ` set (prepared (part_clock p))"

definition hold_of :: "('vm, 'w, 'u, 'st) partition \<Rightarrow> int set" where
  "hold_of p = (\<lambda>a. vget (ca_CommitTimestamp a) (me p)) ` set (commitsOnHold p)"

definition log_inv :: "int \<Rightarrow> ('vm, 'w, 'u, 'st) partition \<Rightarrow> bool" where
  "log_inv now p \<longleftrightarrow> log_state now (log_of p) (vget (stableClk (part_clock p)) (me p)) (lastUsedTs (part_clock p)) (prep_of p) (hold_of p)
     \<and> heap_ok commit_lt (commitsOnHold p) (length (commitsOnHold p))"

lemma single_le: "on_ids {r} a \<Longrightarrow> on_ids {r} b \<Longrightarrow> le_clk a b \<longleftrightarrow> vget a r \<le> vget b r"
  unfolding le_clk_def on_ids_def by (metis order_refl singletonD vget_missing)

lemma single_higher: "on_ids {r} a \<Longrightarrow> on_ids {r} b \<Longrightarrow> IsHigher a (Some b) \<longleftrightarrow> vget b r < vget a r"
  by (auto simp: on_ids_higher single_le)

lemma single_lower: "on_ids {r} a \<Longrightarrow> on_ids {r} b \<Longrightarrow> IsLower a (Some b) \<longleftrightarrow> vget a r < vget b r"
  by (auto simp: on_ids_lower single_le)

lemma single_lower_eq: "on_ids {r} a \<Longrightarrow> on_ids {r} b \<Longrightarrow> IsLowerOrEqual a (Some b) \<longleftrightarrow> vget a r \<le> vget b r"
  using some_above_iff [of a b] by (simp add: IsLowerOrEqual_eq on_ids_def same_ids_def single_le [unfolded on_ids_def])

lemma single_commit_lt:
  "on_ids {r} (ca_CommitTimestamp a) \<Longrightarrow> on_ids {r} (ca_CommitTimestamp b) \<Longrightarrow>
     commit_lt a b \<longleftrightarrow> vget (ca_CommitTimestamp a) r < vget (ca_CommitTimestamp b) r"
  by (simp add: commit_lt_def single_higher)

lemma hold_total: "\<forall>a \<in> A. on_ids {r} (ca_CommitTimestamp a) \<Longrightarrow> total_on_entries commit_lt A"
  unfolding total_on_entries_def by (auto simp: single_commit_lt [of r])

lemma hold_min:
  assumes "heap_ok commit_lt hs (length hs)" and "\<forall>a \<in> set hs. on_ids {r} (ca_CommitTimestamp a)" and "a \<in> set hs"
  shows "vget (ca_CommitTimestamp (hs ! 0)) r \<le> vget (ca_CommitTimestamp a) r"
proof -
  from assms(3) obtain k where k: "k < length hs" "hs ! k = a" by (auto simp: in_set_conv_nth)
  have "\<not> commit_lt a (hs ! 0)" using heap_ok_min [OF assms(1) order_refl hold_total [OF assms(2)] k(1)] k(2) by simp
  moreover have "hs ! 0 \<in> set hs" using k(1) by (intro nth_mem) auto
  ultimately show ?thesis using assms(2,3) by (simp add: single_commit_lt [of r] not_less)
qed

lemma applyCommit_log:
  assumes "applyCommit E p a = Inr q"
  shows "log_of q = log_of p \<or> log_of q = log_of p @ [(True, vget (ca_CommitTimestamp a) (me p))]"
proof -
  from assms obtain p1 downs where "commit_updates E p a = Inr (p1, downs)"
    and q: "q = send (TMPartCommitReply (ca_TransactionId a)) (updatePartitionWithCommit p1 a downs)"
    by (auto simp: applyCommit_def gbind_eq_Inr)
  from commit_updates_quiet [OF this(1)] show ?thesis
    unfolding q by (auto simp: quiet_def send_def updatePartitionWithCommit_def Let_def log_of_def updateClockWithCommit_def)
qed

text \<open>A commit that is not above anything prepared or on hold is applied.\<close>

lemma apply_logged:
  assumes st: "log_state now (log_of p) (vget (stableClk (part_clock p)) (me p)) (lastUsedTs (part_clock p)) (prep_of p)
      (insert (vget (ca_CommitTimestamp a) (me p)) (hold_of p))"
    and low: "\<forall>y \<in> prep_of p \<union> hold_of p. vget (ca_CommitTimestamp a) (me p) \<le> y"
    and heap: "heap_ok commit_lt (commitsOnHold p) (length (commitsOnHold p))"
    and ids: "on_ids I (stableClk (part_clock p))" "on_ids I (ca_CommitTimestamp a)" and q: "applyCommit E p a = Inr q"
  shows "log_inv now q" and "prep_of q = prep_of p" and "hold_of q = hold_of p" and "part_clock q = updateClockWithCommit (ca_CommitTimestamp a) (part_clock p)"
    and "commitsOnHold q = commitsOnHold p"
proof -
  note f = applyCommit_frame [OF q]
  show clk: "part_clock q = updateClockWithCommit (ca_CommitTimestamp a) (part_clock p)" and hold: "commitsOnHold q = commitsOnHold p"
    using f by auto
  have me: "me q = me p" by (simp add: clk updateClockWithCommit_def)
  show P: "prep_of q = prep_of p" and H: "hold_of q = hold_of p"
    using me hold clk by (simp_all add: prep_of_def hold_of_def updateClockWithCommit_def)
  have s: "vget (stableClk (part_clock q)) (me p) = max (vget (stableClk (part_clock p)) (me p)) (vget (ca_CommitTimestamp a) (me p))"
    using vget_on_Merge [OF ids] by (simp add: clk updateClockWithCommit_def)
  have l: "lastUsedTs (part_clock q) = lastUsedTs (part_clock p)" by (simp add: clk updateClockWithCommit_def)
  show "log_inv now q"
    unfolding log_inv_def P H me s l hold
    using log_state_commit [OF st low _ _ applyCommit_log [OF q]] heap by simp
qed

section \<open>Commits on hold are logged in order\<close>

definition one_replica :: "('vm, 'w, 'u, 'st) partition \<Rightarrow> bool" where
  "one_replica p \<longleftrightarrow> on_ids {me p} (stableClk (part_clock p)) \<and> (\<forall>a \<in> set (commitsOnHold p). on_ids {me p} (ca_CommitTimestamp a))"

lemma pop_logged:
  assumes inv: "log_inv now p" "one_replica p" and ne: "commitsOnHold p \<noteq> []"
    and low: "\<forall>y \<in> prep_of p. vget (ca_CommitTimestamp (commitsOnHold p ! 0)) (me p) \<le> y"
  obtains h where "hold_pop (commitsOnHold p) = Inr (commitsOnHold p ! 0, h)" and "length h < length (commitsOnHold p)"
    and "\<And>q. applyCommit E (p\<lparr>commitsOnHold := h\<rparr>) (commitsOnHold p ! 0) = Inr q \<Longrightarrow>
      log_inv now q \<and> one_replica q \<and> prep_of q = prep_of p \<and> commitsOnHold q = h \<and> prepClks (part_clock q) = prepClks (part_clock p) \<and> me q = me p"
proof -
  let ?r = "me p" and ?a = "commitsOnHold p ! 0"
  have ids: "on_ids {?r} (stableClk (part_clock p))" "\<forall>a \<in> set (commitsOnHold p). on_ids {?r} (ca_CommitTimestamp a)"
    and heap: "heap_ok commit_lt (commitsOnHold p) (length (commitsOnHold p))"
    using inv by (auto simp: one_replica_def log_inv_def)
  obtain h where h: "hold_pop (commitsOnHold p) = Inr (?a, h)" "mset (commitsOnHold p) = add_mset ?a (mset h)"
    "heap_ok commit_lt h (length h)" using hold_pop_ok [OF ne] heap hold_total [OF ids(2)] by metis
  have set: "set (commitsOnHold p) = insert ?a (set h)" using arg_cong [OF h(2), of set_mset] by simp
  have len: "length h < length (commitsOnHold p)" using arg_cong [OF h(2), of size] by simp
  let ?p = "p\<lparr>commitsOnHold := h\<rparr>"
  have H: "hold_of p = insert (vget (ca_CommitTimestamp ?a) ?r) (hold_of ?p)" by (simp add: hold_of_def set)
  have same: "prep_of ?p = prep_of p" "log_of ?p = log_of p" by (simp_all add: prep_of_def log_of_def)
  have min: "\<forall>y \<in> hold_of ?p. vget (ca_CommitTimestamp ?a) ?r \<le> y" using hold_min [OF heap ids(2)] by (auto simp: hold_of_def set)
  have "log_inv now q \<and> one_replica q \<and> prep_of q = prep_of p \<and> commitsOnHold q = h \<and> prepClks (part_clock q) = prepClks (part_clock p) \<and> me q = ?r"
    if q: "applyCommit E ?p ?a = Inr q" for q
  proof -
    have low': "\<forall>y \<in> prep_of ?p \<union> hold_of ?p. vget (ca_CommitTimestamp ?a) (me ?p) \<le> y" using low min same by auto
    have st: "log_state now (log_of ?p) (vget (stableClk (part_clock ?p)) ?r) (lastUsedTs (part_clock ?p)) (prep_of ?p)
        (insert (vget (ca_CommitTimestamp ?a) ?r) (hold_of ?p))"
      using inv(1) H same by (simp add: log_inv_def)
    have "on_ids {?r} (ca_CommitTimestamp ?a)" using ids(2) set by simp
    with apply_logged [of now ?p ?a "{?r}", OF _ low' _ _ _ q] st h(3) ids(1) same
    have "log_inv now q" "prep_of q = prep_of p" "part_clock q = updateClockWithCommit (ca_CommitTimestamp ?a) (part_clock p)"
      "commitsOnHold q = h" by auto
    moreover have "one_replica q" using calculation(3,4) ids set by (auto simp: one_replica_def updateClockWithCommit_def on_ids_Merge)
    ultimately show ?thesis by (simp add: updateClockWithCommit_def)
  qed
  with that h(1) len show thesis by blast
qed

lemma commit_all_logged:
  "commit_all E n p = Inr q \<Longrightarrow> log_inv now p \<Longrightarrow> one_replica p \<Longrightarrow> prep_of p = {} \<Longrightarrow> length (commitsOnHold p) \<le> n \<Longrightarrow>
     log_inv now q \<and> prep_of q = {} \<and> hold_of q = {}"
proof (induction n arbitrary: p)
  case (Suc n)
  show ?case
  proof (cases "commitsOnHold p = []")
    case False
    obtain h where h: "hold_pop (commitsOnHold p) = Inr (commitsOnHold p ! 0, h)" "length h < length (commitsOnHold p)"
      and ap: "\<And>q. applyCommit E (p\<lparr>commitsOnHold := h\<rparr>) (commitsOnHold p ! 0) = Inr q \<Longrightarrow>
        log_inv now q \<and> one_replica q \<and> prep_of q = prep_of p \<and> commitsOnHold q = h \<and> prepClks (part_clock q) = prepClks (part_clock p) \<and> me q = me p"
      using pop_logged [OF Suc.prems(2,3) False] Suc.prems(4) by auto
    from Suc.prems(1) False h(1) obtain r where r: "applyCommit E (p\<lparr>commitsOnHold := h\<rparr>) (commitsOnHold p ! 0) = Inr r"
      "commit_all E n r = Inr q" by (auto simp: gbind_eq_Inr)
    show ?thesis using Suc.IH [OF r(2)] ap [OF r(1)] Suc.prems(4,5) h(2) by auto
  qed (use Suc.prems in \<open>auto simp: hold_of_def\<close>)
qed (auto simp: hold_of_def)

lemma commit_upto_logged:
  "commit_upto E m n p = Inr q \<Longrightarrow> log_inv now p \<Longrightarrow> one_replica p \<Longrightarrow> on_ids {me p} m \<Longrightarrow> \<forall>y \<in> prep_of p. vget m (me p) \<le> y \<Longrightarrow>
     length (commitsOnHold p) \<le> n \<Longrightarrow> log_inv now q \<and> prep_of q = prep_of p \<and> (\<forall>h \<in> hold_of q. vget m (me p) < h)"
proof (induction n arbitrary: p)
  case (Suc n)
  show ?case
  proof (cases "commitsOnHold p = []")
    case False
    let ?a = "commitsOnHold p ! 0"
    have ids: "\<forall>a \<in> set (commitsOnHold p). on_ids {me p} (ca_CommitTimestamp a)" "on_ids {me p} (ca_CommitTimestamp ?a)"
      using Suc.prems(3) False by (auto simp: one_replica_def)
    show ?thesis
    proof (cases "vget (ca_CommitTimestamp ?a) (me p) \<le> vget m (me p)")
      case True
      then have low: "\<forall>y \<in> prep_of p. vget (ca_CommitTimestamp ?a) (me p) \<le> y" using Suc.prems(5) by auto
      obtain h where h: "hold_pop (commitsOnHold p) = Inr (?a, h)" "length h < length (commitsOnHold p)"
        and ap: "\<And>q. applyCommit E (p\<lparr>commitsOnHold := h\<rparr>) ?a = Inr q \<Longrightarrow>
          log_inv now q \<and> one_replica q \<and> prep_of q = prep_of p \<and> commitsOnHold q = h \<and> prepClks (part_clock q) = prepClks (part_clock p) \<and> me q = me p"
        using pop_logged [OF Suc.prems(2,3) False low] by auto
      have "IsLowerOrEqual (ca_CommitTimestamp ?a) (Some m)" using True single_lower_eq [OF ids(2) Suc.prems(4)] by simp
      with Suc.prems(1) False h(1) obtain r where r: "applyCommit E (p\<lparr>commitsOnHold := h\<rparr>) ?a = Inr r"
        "commit_upto E m n r = Inr q" by (auto simp: gbind_eq_Inr commit_PeekMin_def)
      show ?thesis using Suc.IH [OF r(2)] ap [OF r(1)] Suc.prems(4-6) h(2) by auto
    next
      case high: False
      then have "q = p" using Suc.prems(1) False single_lower_eq [OF ids(2) Suc.prems(4)] by (simp add: commit_PeekMin_def)
      moreover have "vget m (me p) < y" if "y \<in> hold_of p" for y
      proof -
        obtain a where "a \<in> set (commitsOnHold p)" "y = vget (ca_CommitTimestamp a) (me p)" using \<open>y \<in> hold_of p\<close> by (auto simp: hold_of_def)
        then show ?thesis using hold_min [OF _ ids(1)] high Suc.prems(2) by (force simp: log_inv_def)
      qed
      ultimately show ?thesis using Suc.prems(2) by simp
    qed
  qed (use Suc.prems in \<open>auto simp: hold_of_def commit_PeekMin_def\<close>)
qed (auto simp: hold_of_def)

section \<open>One commit\<close>

lemma prep_min:
  assumes c: "clock_inv {me p} (part_clock p)" and m: "prep_PeekMin (prepClks (part_clock p)) = Some e"
  shows "on_ids {me p} (tc_clk e)" and "vget (tc_clk e) (me p) \<in> prep_of p" and "\<forall>y \<in> prep_of p. vget (tc_clk e) (me p) \<le> y"
proof -
  have mem: "e \<in> set (prepared (part_clock p))" using m by (auto simp: prep_PeekMin_def split: if_splits)
  then show "on_ids {me p} (tc_clk e)" "vget (tc_clk e) (me p) \<in> prep_of p" using c by (auto simp: clock_inv_def prep_of_def)
  have "vget (tc_clk e) (me p) \<le> vget (tc_clk f) (me p)" if f: "f \<in> set (prepared (part_clock p))" for f
    using lowest_prepare [OF c f] m by (auto simp: getLowestPrepare_def)
  then show "\<forall>y \<in> prep_of p. vget (tc_clk e) (me p) \<le> y" by (auto simp: prep_of_def)
qed

lemma hold_first:
  assumes "log_inv now p" and "one_replica p" and "commit_PeekMin (commitsOnHold p) = Some a"
  shows "on_ids {me p} (ca_CommitTimestamp a)" and "vget (ca_CommitTimestamp a) (me p) \<in> hold_of p"
    and "\<forall>y \<in> hold_of p. vget (ca_CommitTimestamp a) (me p) \<le> y"
proof -
  have a: "commitsOnHold p \<noteq> []" "a = commitsOnHold p ! 0" using assms(3) by (auto simp: commit_PeekMin_def split: if_splits)
  then have "a \<in> set (commitsOnHold p)" by simp
  with assms(2) show "on_ids {me p} (ca_CommitTimestamp a)" "vget (ca_CommitTimestamp a) (me p) \<in> hold_of p"
    by (auto simp: one_replica_def hold_of_def)
  show "\<forall>y \<in> hold_of p. vget (ca_CommitTimestamp a) (me p) \<le> y"
    using hold_min [of "commitsOnHold p" "me p"] assms(1,2) a(2) by (auto simp: log_inv_def one_replica_def hold_of_def)
qed

lemma PeekMin_None: "prep_PeekMin c = None \<longleftrightarrow> pc_entries c = []" "commit_PeekMin hs = None \<longleftrightarrow> hs = []"
  by (simp_all add: prep_PeekMin_def commit_PeekMin_def)

lemma canCommit_positions:
  assumes inv: "clock_inv {me p} (part_clock p)" "log_inv now p" "one_replica p" and c: "on_ids {me p} (ca_CommitTimestamp a)"
  shows "canCommit p a \<longleftrightarrow> (\<forall>y \<in> prep_of p. vget (ca_CommitTimestamp a) (me p) \<le> y)
    \<and> (\<forall>y \<in> hold_of p. vget (ca_CommitTimestamp a) (me p) < y)"
proof -
  let ?c = "vget (ca_CommitTimestamp a) (me p)"
  have P: "(case prep_PeekMin (prepClks (part_clock p)) of None \<Rightarrow> True | Some e \<Rightarrow> \<not> IsLower (tc_clk e) (Some (ca_CommitTimestamp a)))
      \<longleftrightarrow> (\<forall>y \<in> prep_of p. ?c \<le> y)"
  proof (cases "prep_PeekMin (prepClks (part_clock p))")
    case (Some e)
    from prep_min [OF inv(1) Some] show ?thesis using single_lower [OF _ c] Some by (auto simp: not_less)
  next
    case None
    then have "prepared (part_clock p) = []" by (simp add: PeekMin_None)
    with None show ?thesis by (simp add: prep_of_def)
  qed
  have H: "(case commit_PeekMin (commitsOnHold p) of None \<Rightarrow> True | Some b \<Rightarrow> IsHigher (ca_CommitTimestamp b) (Some (ca_CommitTimestamp a)))
      \<longleftrightarrow> (\<forall>y \<in> hold_of p. ?c < y)"
  proof (cases "commit_PeekMin (commitsOnHold p)")
    case (Some b)
    from hold_first [OF inv(2,3) Some] show ?thesis using single_higher [OF _ c] Some by auto
  next
    case None
    then have "commitsOnHold p = []" by (simp add: PeekMin_None)
    with None show ?thesis by (simp add: hold_of_def)
  qed
  from P H show ?thesis by (auto simp: canCommit_def Let_def split: option.splits)
qed

lemma hold_logged:
  assumes inv: "log_inv now p" "one_replica p" and c: "on_ids {me p} (ca_CommitTimestamp a)"
    and st: "log_state now (log_of p) (vget (stableClk (part_clock p)) (me p)) (lastUsedTs (part_clock p)) (prep_of p)
      (insert (vget (ca_CommitTimestamp a) (me p)) (hold_of p))"
  shows "log_inv now (holdCommit p a)" and "one_replica (holdCommit p a)" and "prep_of (holdCommit p a) = prep_of p"
    and "hold_of (holdCommit p a) = insert (vget (ca_CommitTimestamp a) (me p)) (hold_of p)"
proof -
  have m: "mset (hold_push (commitsOnHold p) a) = add_mset a (mset (commitsOnHold p))" by (rule mset_hold_push)
  have set: "set (hold_push (commitsOnHold p) a) = insert a (set (commitsOnHold p))" using arg_cong [OF m, of set_mset] by simp
  have len: "length (hold_push (commitsOnHold p) a) = Suc (length (commitsOnHold p))" using arg_cong [OF m, of size] by simp
  show P: "prep_of (holdCommit p a) = prep_of p" and H: "hold_of (holdCommit p a) = insert (vget (ca_CommitTimestamp a) (me p)) (hold_of p)"
    by (simp_all add: prep_of_def hold_of_def holdCommit_def set)
  show "one_replica (holdCommit p a)" using inv(2) c by (simp add: one_replica_def holdCommit_def set)
  have "total_on_entries commit_lt (set (commitsOnHold p @ [a]))" using inv(2) c by (intro hold_total [of _ "me p"]) (auto simp: one_replica_def)
  then have "heap_ok commit_lt (hold_push (commitsOnHold p) a) (Suc (length (commitsOnHold p)))"
    using hold.heap_push_ok [of "commitsOnHold p @ [a]" "commitsOnHold p" a] inv(1) by (simp add: hold_push_def commit_Push_def log_inv_def)
  with st show "log_inv now (holdCommit p a)"
    unfolding log_inv_def P H by (simp add: holdCommit_def log_of_def len)
qed

lemma checkHold_logged:
  assumes "clock_inv {me p} (part_clock p)" and "log_inv now p" and "one_replica p" and "checkHoldCommits E p = Inr q"
  shows "log_inv now q \<and> waits (prep_of q) (hold_of q)"
proof (cases "commitsOnHold p = []")
  case True
  with assms show ?thesis by (simp add: checkHoldCommits_def waits_def hold_of_def)
next
  case ne: False
  show ?thesis
  proof (cases "prep_PeekMin (prepClks (part_clock p))")
    case None
    then have "prep_of p = {}" by (simp add: PeekMin_None prep_of_def)
    with commit_all_logged [of E "length (commitsOnHold p)" p q now] None ne assms show ?thesis
      by (simp add: checkHoldCommits_def waits_def)
  next
    case (Some e)
    note e = prep_min [OF assms(1) Some]
    have "commit_upto E (tc_clk e) (length (commitsOnHold p)) p = Inr q" using assms(4) Some ne by (simp add: checkHoldCommits_def)
    from commit_upto_logged [OF this assms(2,3) e(1,3)] e(2) show ?thesis by (auto simp: waits_def intro: less_imp_le)
  qed
qed

lemma commit_or_hold_logged:
  assumes inv: "clock_inv {me p} (part_clock p)" "log_inv now p" "one_replica p" and c: "on_ids {me p} (ca_CommitTimestamp a)"
    and st: "log_state now (log_of p) (vget (stableClk (part_clock p)) (me p)) (lastUsedTs (part_clock p)) (prep_of p)
      (insert (vget (ca_CommitTimestamp a) (me p)) (hold_of p))"
    and q: "commit_or_hold E p a = Inr q"
  shows "log_inv now q" and "one_replica q" and "prep_of q = prep_of p" and "clock_inv {me p} (part_clock q)" and "me q = me p"
    and "waits (prep_of p) (hold_of p) \<Longrightarrow> waits (prep_of q) (hold_of q)"
proof -
  have "log_inv now q \<and> one_replica q \<and> prep_of q = prep_of p \<and> clock_inv {me p} (part_clock q) \<and> me q = me p
      \<and> (waits (prep_of p) (hold_of p) \<longrightarrow> waits (prep_of q) (hold_of q))"
  proof (cases "canCommit p a")
    case True
    have low: "\<forall>y \<in> prep_of p \<union> hold_of p. vget (ca_CommitTimestamp a) (me p) \<le> y"
      using True canCommit_positions [OF inv c] by (auto intro: less_imp_le)
    have ap: "applyCommit E p a = Inr q" using q True by (simp add: commit_or_hold_def)
    have ids: "on_ids {me p} (stableClk (part_clock p))" "heap_ok commit_lt (commitsOnHold p) (length (commitsOnHold p))"
      using inv by (auto simp: one_replica_def log_inv_def)
    note n = apply_logged [OF st low ids(2,1) c ap]
    have "clock_inv {me p} (part_clock q)" unfolding n(4) by (rule clock_inv_commit [OF inv(1) c])
    moreover have "one_replica q" using inv(3) ids(1) c n(4,5) by (simp add: one_replica_def updateClockWithCommit_def on_ids_Merge)
    ultimately show ?thesis using n by (simp add: updateClockWithCommit_def)
  next
    case False
    then have r: "q = holdCommit p a" using q by (simp add: commit_or_hold_def)
    note n = hold_logged [OF inv(2,3) c st]
    let ?c = "vget (ca_CommitTimestamp a) (me p)"
    have "\<exists>x \<in> prep_of p. x \<le> ?c" if w: "waits (prep_of p) (hold_of p)"
    proof (cases "\<exists>y \<in> prep_of p. y < ?c")
      case no: False
      then obtain y where "y \<in> hold_of p" "y \<le> ?c" using False canCommit_positions [OF inv c] by (auto simp: not_le not_less)
      with w show ?thesis unfolding waits_def by (meson order_trans)
    qed (auto intro: less_imp_le)
    then have "waits (prep_of p) (hold_of p) \<longrightarrow> waits (prep_of q) (hold_of q)" by (auto simp: r n(3,4) waits_def)
    then show ?thesis using n inv(1) by (simp add: r) (simp add: holdCommit_def)
  qed
  then show "log_inv now q" "one_replica q" "prep_of q = prep_of p" "clock_inv {me p} (part_clock q)" "me q = me p"
    "waits (prep_of p) (hold_of p) \<Longrightarrow> waits (prep_of q) (hold_of q)" by auto
qed

lemma commit_logged:
  assumes inv: "mat_inv {me p} p" "log_inv now p" "waits (prep_of p) (hold_of p)"
    and t: "pc_innerMap (prepClks (part_clock p)) (ca_TransactionId a) = Some i"
    and c: "on_ids {me p} (ca_CommitTimestamp a)" "vget (tc_clk (prepared (part_clock p) ! i)) (me p) \<le> vget (ca_CommitTimestamp a) (me p)"
    and q: "handleMatCommit E p a = Inr q"
  shows "log_inv now q \<and> waits (prep_of q) (hold_of q)"
proof -
  let ?c = "part_clock p" and ?x = "vget (tc_clk (prepared (part_clock p) ! i)) (me p)"
  have ci: "clock_inv {me p} ?c" and one: "one_replica p" using inv(1) by (auto simp: mat_inv_def one_replica_def clock_inv_def)
  obtain h where h: "removePrepare (ca_TransactionId a) ?c = Inr (?c\<lparr>prepClks := h\<rparr>)" "clock_inv {me p} (?c\<lparr>prepClks := h\<rparr>)"
    "mset (prepared ?c) = add_mset (prepared ?c ! i) (mset (pc_entries h))" "tc_txnId (prepared ?c ! i) = ca_TransactionId a"
    by (rule remove_prepare [OF ci t])
  let ?p = "p\<lparr>part_clock := ?c\<lparr>prepClks := h\<rparr>\<rparr>"
  have set: "set (prepared ?c) = insert (prepared ?c ! i) (set (pc_entries h))" using arg_cong [OF h(3), of set_mset] by simp
  have P: "prep_of p = insert ?x (prep_of ?p)" unfolding prep_of_def set by simp
  have same: "hold_of ?p = hold_of p" "log_of ?p = log_of p" "one_replica ?p = one_replica p"
    by (simp_all add: hold_of_def log_of_def one_replica_def)
  have st: "log_state now (log_of ?p) (vget (stableClk (part_clock ?p)) (me ?p)) (lastUsedTs (part_clock ?p)) (prep_of ?p)
      (insert (vget (ca_CommitTimestamp a) (me ?p)) (hold_of ?p))"
    using log_state_mono [OF log_state_hold [of now "log_of p" _ _ "prep_of p" "hold_of p" ?x, OF _ _ c(2)] order_refl order_refl _ subset_refl,
        of _ _ "prep_of ?p"] inv(2) P same by (auto simp: log_inv_def)
  have "log_state now (log_of ?p) (vget (stableClk (part_clock ?p)) (me ?p)) (lastUsedTs (part_clock ?p)) (prep_of ?p) (hold_of ?p)"
    using log_state_mono [OF st order_refl order_refl subset_refl] by auto
  then have li: "log_inv now ?p" using inv(2) by (simp add: log_inv_def)
  obtain r where r: "commit_or_hold E ?p a = Inr r"
    and q': "if lowest_txn p = ca_TransactionId a then checkHoldCommits E r = Inr q else q = r"
    by (rule handleMatCommit_steps [OF q h(1)])
  have "clock_inv {me ?p} (part_clock ?p)" "one_replica ?p" "on_ids {me ?p} (ca_CommitTimestamp a)" using h(2) one same c(1) by auto
  note n = commit_or_hold_logged [OF this(1) li this(2,3) st r]
  show ?thesis
  proof (cases "lowest_txn p = ca_TransactionId a")
    case True
    then have chk: "checkHoldCommits E r = Inr q" using q' by simp
    show ?thesis by (rule checkHold_logged [OF _ n(1,2) chk]) (use n(4,5) in simp)
  next
    case False
    have ne: "prepared ?c \<noteq> []" using set by auto
    let ?m = "prepared ?c ! 0"
    have m: "prep_PeekMin (prepClks ?c) = Some ?m" using ne by (simp add: prep_PeekMin_def)
    have "?m \<noteq> prepared ?c ! i" using False h(4) m by (auto simp: lowest_txn_def getLowestPrepare_def)
    moreover have "?m \<in> set (prepared ?c)" using ne by simp
    ultimately have "?m \<in> set (pc_entries h)" using set by auto
    then have "vget (tc_clk ?m) (me p) \<in> prep_of ?p" by (simp add: prep_of_def)
    moreover have "\<forall>y \<in> prep_of p. vget (tc_clk ?m) (me p) \<le> y" by (rule prep_min(3) [OF ci m])
    ultimately have "waits (prep_of ?p) (hold_of ?p)" using inv(3) unfolding same waits_def by (meson order_trans)
    with n(1,6) False q' show ?thesis by simp
  qed
qed

section \<open>The other requests\<close>

definition log_ok :: "int \<Rightarrow> ('vm, 'w, 'u, 'st) partition \<Rightarrow> bool" where
  "log_ok now p \<longleftrightarrow> log_inv now p \<and> waits (prep_of p) (hold_of p)"

lemma log_ok_later: "log_ok now p \<Longrightarrow> now \<le> now' \<Longrightarrow> log_ok now' p"
  using log_state_mono [of now "log_of p" _ _ "prep_of p" "hold_of p" now'] by (auto simp: log_ok_def log_inv_def)

text \<open>Whatever is not prepared, committed or logged does not matter.\<close>

lemma log_ok_same:
  assumes "part_clock q = part_clock p" and "commitsOnHold q = commitsOnHold p" and "logged (sent q) = logged (sent p)"
  shows "log_ok now q \<longleftrightarrow> log_ok now p"
  using assms by (simp add: log_ok_def log_inv_def log_of_def prep_of_def hold_of_def)

lemma log_ok_quiet: "quiet p q \<Longrightarrow> logged [m] = [] \<Longrightarrow> log_ok now p \<Longrightarrow> log_ok now (send m q)"
  using log_ok_same [of "send m q" p now] by (simp add: quiet_def send_def)

lemma log_ok_stable:
  assumes "log_ok now p" and "part_clock q = (part_clock p)\<lparr>stableClk := clk\<rparr>" and "vget (stableClk (part_clock p)) (me p) \<le> vget clk (me p)"
    and "commitsOnHold q = commitsOnHold p" and "logged (sent q) = logged (sent p)"
  shows "log_ok now q"
  using assms log_state_mono [of now "log_of p" "vget (stableClk (part_clock p)) (me p)" _ "prep_of p" "hold_of p" now "vget clk (me p)"]
  by (simp add: log_ok_def log_inv_def log_of_def prep_of_def hold_of_def)

lemma getNextClk_bounds:
  assumes "clock_inv I p" and "room p now" and "getNextClk now p = (p', clk)"
  shows "now \<le> vget clk (pk_replicaID p)" and "vget clk (pk_replicaID p) \<le> MaxInt64"
  using assms by (auto simp: getNextClk_def NextTimestamp_def room_def Let_def GetPos_def UpdatePos_def vget_mput int64_Suc split: if_splits)

lemma prepare_logged:
  assumes inv: "mat_inv I p" "log_ok now p" and c: "can_prepare p now t"
  shows "log_ok now (prepare_part now t p)"
proof -
  let ?c = "part_clock p"
  have ci: "clock_inv I ?c" and r: "room ?c now" using inv(1) c by (auto simp: mat_inv_def can_prepare_def)
  obtain c' clk where n: "getNextClk now ?c = (c', clk)" by (cases "getNextClk now ?c")
  note new = getNextClk_new [OF ci r n] getNextClk_bounds [OF ci r n]
  have q: "part_clock (prepare_part now t p) = ?c\<lparr>lastUsedTs := vget clk (me p), prepClks := prep_Push (prepClks ?c) \<lparr>tc_clk = clk, tc_txnId = t\<rparr>\<rparr>"
    using prepare_appends(1) [OF ci r n, of t] new(2) by (simp add: prepare_part_def)
  have P: "prep_of (prepare_part now t p) = insert (vget clk (me p)) (prep_of p)" by (auto simp: prep_of_def q prep_Push_def)
  have "log_state now (log_of p) (vget (stableClk ?c) (me p)) (vget clk (me p)) (insert (vget clk (me p)) (prep_of p)) (hold_of p)"
    by (rule log_state_prepare) (use inv(2) new r in \<open>auto simp: log_ok_def log_inv_def room_def\<close>)
  moreover have "log_of (prepare_part now t p) = log_of p" "hold_of (prepare_part now t p) = hold_of p"
    by (simp_all add: log_of_def hold_of_def q)
  ultimately show ?thesis using inv(2) by (auto simp: log_ok_def log_inv_def P q waits_def)
qed

lemma reply_logged: "log_ok now (reply_prepared p) \<longleftrightarrow> log_ok now p"
  by (rule log_ok_same) (auto simp: reply_prepared_def send_def split: option.split)

lemma safe_logged:
  assumes inv: "mat_inv {me p} p" "log_ok now p" and r: "room (part_clock p) now"
  shows "log_ok now (handleMatSafeClk now p)"
proof -
  let ?c = "part_clock p" and ?s = "vget (stableClk (part_clock p)) (me p)"
  have ci: "clock_inv {me p} ?c" using inv(1) by (simp add: mat_inv_def)
  have li: "log_state now (log_of p) ?s (lastUsedTs ?c) (prep_of p) (hold_of p)" and w: "waits (prep_of p) (hold_of p)"
    using inv(2) by (auto simp: log_ok_def log_inv_def)
  have "\<exists>x. vget (safe_clock now ?c) (me p) = x \<and> (\<forall>y \<in> prep_of p \<union> hold_of p. x \<le> y) \<and> (x \<le> ?s + 1 \<or> x \<le> now \<or> x \<le> lastUsedTs ?c)"
  proof (cases "prep_PeekMin (prepClks ?c)")
    case None
    then have e: "prepared ?c = []" by (simp add: PeekMin_None)
    then have "prep_of p = {}" "hold_of p = {}" using inv(1) by (simp_all add: prep_of_def hold_of_def mat_inv_def)
    with None r show ?thesis by (auto simp: safe_clock_def NextTimestamp_def vget_mput room_def int64_Suc)
  next
    case (Some e)
    note m = prep_min [OF ci Some]
    let ?x = "vget (tc_clk e) (me p)"
    have "0 < ?x" "?x \<le> MaxInt64" using li m(2) by (auto simp: log_state_def)
    then have i: "int64 (?x - 1) = ?x - 1" by (intro swrap_id) (auto simp: in_int_def)
    have "e \<in> set (prepared ?c)" using Some by (auto simp: prep_PeekMin_def split: if_splits)
    then have "?x \<le> lastUsedTs ?c" using ci by (simp add: clock_inv_def below_stable_def)
    moreover have "\<forall>y \<in> prep_of p \<union> hold_of p. ?x - 1 \<le> y"
    proof -
      have "\<forall>y \<in> prep_of p \<union> hold_of p. ?x \<le> y" using m(3) w unfolding waits_def by (meson UnE order_trans)
      then show ?thesis by (meson diff_le_eq le_add_same_cancel1 order_trans zero_le_one)
    qed
    moreover have "vget (Copy_clk (tc_clk e)) (me p) = ?x" using m(1) by (simp add: on_ids_def vget_Copy_clk)
    ultimately show ?thesis using Some i by (auto simp: safe_clock_def Let_def UpdateForcedPos_def GetPos_def vget_mput)
  qed
  then have "log_state now (log_of p @ [(False, vget (safe_clock now ?c) (me p))]) ?s (lastUsedTs ?c) (prep_of p) (hold_of p)"
    using log_state_append [OF li] by auto
  moreover have "log_of (handleMatSafeClk now p) = log_of p @ [(False, vget (safe_clock now ?c) (me p))]"
    "prep_of (handleMatSafeClk now p) = prep_of p" "hold_of (handleMatSafeClk now p) = hold_of p"
    by (simp_all add: log_of_def prep_of_def hold_of_def handleMatSafeClk_def send_def)
  ultimately show ?thesis using inv(2) by (simp add: log_ok_def log_inv_def) (simp add: handleMatSafeClk_def send_def)
qed

section \<open>Runs\<close>

text \<open>
  What the transaction manager guarantees beyond \<open>allowed\<close>: a transaction commits at a clock
  that is not lower than the one prepared for it here, the highest of the prepared ones.
\<close>

fun in_order :: "('vm, 'w, 'u, 'st) partition \<Rightarrow> int \<Rightarrow> ('u, 'r) MatRequestArgs \<Rightarrow> bool" where
  "in_order p now (MatCommit a) = (case pc_innerMap (prepClks (part_clock p)) (ca_TransactionId a) of
      None \<Rightarrow> False
    | Some i \<Rightarrow> vget (tc_clk (prepared (part_clock p) ! i)) (me p) \<le> vget (ca_CommitTimestamp a) (me p))"
| "in_order p now MatSafeClk = room (part_clock p) now"
| "in_order p now req = True"

primrec ordered_run ::
    "int \<Rightarrow> int \<Rightarrow> ('vm, 'w, 'u, 'r, 'st) mat_env \<Rightarrow> ('vm, 'w, 'u, 'st) partition
       \<Rightarrow> (int \<times> TransactionId \<times> ('u, 'r) MatRequestArgs) list \<Rightarrow> bool" where
  "ordered_run r before E p [] = True"
| "ordered_run r before E p (x # xs) = (case x of (now, rnd, req) \<Rightarrow> before \<le> now \<and> allowed {r} p now rnd req \<and> in_order p now req
     \<and> (case handleRequest E now rnd p req of Inl e \<Rightarrow> True | Inr p' \<Rightarrow> ordered_run r now E p' xs))"

lemma perms_logged:
  assumes inv: "mat_inv {me p} p" "log_ok now p" and c: "can_prepare p now t" and q: "handleMatPermsTxn E now t p values i = Inr q"
  shows "log_ok now q"
proof -
  let ?c = "part_clock p"
  have ci: "clock_inv {me p} ?c" and r: "room ?c now" using inv(1) c by (auto simp: mat_inv_def can_prepare_def)
  obtain c' clk where n: "getNextClk now ?c = (c', clk)" by (cases "getNextClk now ?c")
  let ?e = "\<lparr>tc_clk = clk, tc_txnId = t\<rparr>"
  have app: "prepClks (part_clock (prepare_part now t p)) = prep_Push (prepClks ?c) ?e" "me (prepare_part now t p) = me p"
    using prepare_appends(1) [OF ci r n, of t] getNextClk_new(2) [OF ci r n] by (simp_all add: prepare_part_def)
  define s where "s = send (TMCommitNPartitions 1 t (Copy_clk clk))
    (prepare_part now t p\<lparr>permsForReplica := (permsForReplica (prepare_part now t p))(t \<mapsto> i),
       opsForTxn := (opsForTxn (prepare_part now t p))(t \<mapsto> values)\<rparr>)"
  have clk: "part_clock s = part_clock (prepare_part now t p)" by (simp add: s_def send_def)
  have mi: "mat_inv {me s} s" using mat_inv_prepare(1) [OF inv(1) c] app(2) by (simp add: s_def) (simp add: send_def)
  have lo: "log_ok now s" using prepare_logged [OF inv c] log_ok_same [of s "prepare_part now t p" now] by (simp add: s_def send_def)
  have "prepared (part_clock s) = prepared ?c @ [?e]" using app(1) clk by (simp add: prep_Push_def)
  moreover have "pc_innerMap (prepClks (part_clock s)) t = Some (length (prepared ?c))" using app(1) clk by (simp add: prep_Push_def)
  moreover have "handleMatCommit E s \<lparr>ca_TransactionId = t, ca_CommitTimestamp = clk\<rparr> = Inr q"
    using q app(1) by (simp add: handleMatPermsTxn_def Let_def s_def prep_PeekMax_def prep_Push_def)
  moreover have "on_ids {me s} clk" using getNextClk_new(1) [OF ci r n] app(2) clk by simp
  ultimately show ?thesis
    using commit_logged [OF mi, of now "\<lparr>ca_TransactionId = t, ca_CommitTimestamp = clk\<rparr>" "length (prepared ?c)" E q] lo
    by (simp add: log_ok_def)
qed

lemma handleRequest_logged:
  assumes inv: "mat_inv {me p} p" "log_ok now p" and a: "allowed {me p} p now rnd req" "in_order p now req"
    and q: "handleRequest E now rnd p req = Inr q"
  shows "log_ok now q"
proof -
  have stable: "log_ok now (send m (p1\<lparr>part_clock := updateClockWithCommit clk (part_clock p1)\<rparr>))"
    if q: "quiet p p1" and c: "on_ids {me p} clk" and m: "logged [m] = []" for m p1 clk
  proof (rule log_ok_stable [OF inv(2)])
    have s: "on_ids {me p} (stableClk (part_clock p))" using inv(1) by (simp add: mat_inv_def clock_inv_def)
    show "vget (stableClk (part_clock p)) (me p) \<le> vget (Merge (stableClk (part_clock p)) (Some clk)) (me p)"
      by (simp add: vget_on_Merge [OF s c])
  qed (use q m in \<open>simp_all add: quiet_def send_def updateClockWithCommit_def\<close>)
  show ?thesis
  proof (cases req)
    case (MatCommit args)
    with a q commit_logged [OF inv(1), of now args _ E q] inv(2) show ?thesis by (auto simp: log_ok_def split: option.splits)
  next
    case (MatBCTxnPermissions vals i)
    with a q perms_logged [OF inv] show ?thesis by simp
  next
    case MatSafeClk
    with a q safe_logged [OF inv] show ?thesis by auto
  next
    case (MatRemoteTxnReq txn)
    with q obtain p1 nd where "applyRemoteUpds E (p, []) txn = Inr (p1, nd)"
      and e: "q = send (DownReply nd) (p1\<lparr>part_clock := updateClockWithCommit (rt_Timestamp txn) (part_clock p1)\<rparr>)"
      by (auto simp: handleMatRemoteTxn_def gbind_eq_Inr)
    from applyRemoteUpds_quiet [OF this(1)] show ?thesis unfolding e by (intro stable) (use a MatRemoteTxnReq in simp_all)
  next
    case (MatRemoteGroupTxn txns clk)
    with q obtain p1 nd where r: "gfold (applyRemoteUpds E) (p, []) txns = Inr (p1, nd)"
      and e: "q = send (DownReply nd) (p1\<lparr>part_clock := updateClockWithCommit clk (part_clock p1)\<rparr>)"
      by (auto simp: handleMatRemoteGroupTxn_def gbind_eq_Inr)
    from gfold_quiet [OF applyRemoteUpds_quiet r] show ?thesis unfolding e by (intro stable) (use a MatRemoteGroupTxn in simp_all)
  next
    case (MatClkPosUpd i ts)
    show ?thesis
      by (rule log_ok_stable [OF inv(2), of q "UpdatePos (stableClk (part_clock p)) i ts"])
        (use q MatClkPosUpd in \<open>auto simp: handleMatClkPosUpd_def updateClockWithRemoteTS_def send_def UpdatePos_def vget_mput\<close>)
  next
    case (MatPrepareForRemote upds t)
    let ?p = "p\<lparr>pendingOpsRemote := (pendingOpsRemote p)(t \<mapsto> upds)\<rparr>"
    have "log_ok now ?p" "can_prepare ?p now t" "mat_inv {me p} ?p"
      using log_ok_same [of ?p p now] inv a MatPrepareForRemote by (auto simp: can_prepare_def)
    from prepare_logged [OF this(3,1,2)] show ?thesis using q MatPrepareForRemote by (auto simp: handleMatPrepareRemote_def reply_logged)
  next
    case (MatStaticUpdate upds t)
    with a have "log_ok now (prepare_part now t p)" using prepare_logged [OF inv] by simp
    then show ?thesis using q MatStaticUpdate log_ok_same [of "prepare_part now t p\<lparr>pendingOps := _\<rparr>" "prepare_part now t p" now]
      by (auto simp: handleMatStaticWrite_def Let_def reply_logged)
  next
    case (MatPrepare t)
    with a q prepare_logged [OF inv] show ?thesis by (auto simp: handleMatPrepare_def reply_logged)
  next
    case (MatGC clk)
    then have "quiet p q" using q gc_quiet [of E clk p "db p" q] by (simp add: handleMatGC_def)
    then show ?thesis using log_ok_same [of q p now] inv(2) by (simp add: quiet_def)
  qed (use a q inv(2) in \<open>auto simp: handleMatStaticSingleRead_def handleMatStaticRead_def handleMatRead_def gbind_eq_Inr Let_def
      handleMatWrite_def handleMatAbort_def handleMatCommitedClk_def handleMatGetCRDT_def handleMatBCUpdPerm_def
      intro!: log_ok_quiet dest: read_object_quiet\<close>, auto simp: log_ok_same [of "_\<lparr>pendingOps := _\<rparr>"])
qed

lemma ordered_run_ok:
  "mat_inv {r} p \<Longrightarrow> log_ok before p \<Longrightarrow> ordered_run r before E p xs \<Longrightarrow> mat_run E p xs = Inr q \<Longrightarrow>
     \<exists>now. log_ok now q \<and> me q = r"
proof (induction xs arbitrary: p before)
  case Nil
  then show ?case by (auto simp: mat_inv_def clock_inv_def)
next
  case (Cons x xs)
  have r: "me p = r" using Cons.prems(1) by (simp add: mat_inv_def clock_inv_def)
  obtain now rnd req where x: "x = (now, rnd, req)" by (metis surj_pair)
  with Cons.prems(4) obtain p' where p': "handleRequest E now rnd p req = Inr p'" "mat_run E p' xs = Inr q" by (auto simp: gbind_eq_Inr)
  with Cons.prems(3) x have a: "before \<le> now" "allowed {r} p now rnd req" "in_order p now req" "ordered_run r now E p' xs" by auto
  have "mat_inv {r} p'" using handleRequest_step [OF a(2) p'(1)] Cons.prems(1) by (simp add: step_ok_def)
  moreover have "log_ok now p'"
    using handleRequest_logged [of p now rnd req E p'] Cons.prems(1) log_ok_later [OF Cons.prems(2) a(1)] a(2,3) p'(1) r by simp
  ultimately show ?case using Cons.IH a(4) p'(2) by blast
qed

text \<open>
  C21. In a deployment with one replica whose wall clock does not go back, whatever requests a
  partition gets: its logger receives the transactions in the order of their commit clocks, and
  after it received a safe clock it receives no transaction with a lower clock. So everything
  below the last safe clock may be sent to other replicas.
\<close>

theorem Materializer_log_ordered:
  assumes "e_knownIDs E = [r]" and "ordered_run r before E (start_partition E r i w) rs"
    and "mat_run E (start_partition E r i w) rs = Inr p"
  shows "\<forall>j < length (logged (sent p)). \<forall>k < j. fst (logged (sent p) ! j) \<longrightarrow>
    vget (snd (logged (sent p) ! k)) r \<le> vget (snd (logged (sent p) ! j)) r"
proof -
  have "mat_inv {r} (start_partition E r i w)" using start_inv [of r E i w] assms(1) by simp
  moreover have "log_ok before (start_partition E r i w)"
    by (simp add: log_ok_def log_inv_def log_state_def log_ordered_def log_of_def prep_of_def hold_of_def waits_def start_partition_def
        initializePartitionClock_def heap_ok_def)
  ultimately obtain now where "log_ok now p" "me p = r" using ordered_run_ok [OF _ _ assms(2,3)] by blast
  then have "log_ordered (map (\<lambda>x. (fst x, vget (snd x) r)) (logged (sent p)))"
    by (simp add: log_ok_def log_inv_def log_state_def log_of_def)
  then show ?thesis unfolding log_ordered_def sorted_wrt_map by (auto simp: sorted_wrt_iff_nth_less)
qed

definition log_requests :: "(int \<times> TransactionId \<times> (counter_op, unit) MatRequestArgs) list" where
  "log_requests =
     [(4, 0, MatStaticUpdate [(a_counter, Increment 1)] 1), (5, 0, MatSafeClk), (5, 0, MatStaticUpdate [(a_counter, Increment 5)] 2),
      (6, 0, MatCommit \<lparr>ca_TransactionId = 2, ca_CommitTimestamp = [(1, 7)]\<rparr>),
      (8, 0, MatCommit \<lparr>ca_TransactionId = 1, ca_CommitTimestamp = [(1, 6)]\<rparr>), (9, 0, MatSafeClk)]"

definition single_env :: "(counter_vm, counter_world, counter_op, unit, int) mat_env" where
  "single_env = counter_env\<lparr>e_knownIDs := [1]\<rparr>"

theorem Materializer_log_ordered_witness:
  "\<exists>p. mat_run single_env (start_partition single_env 1 0 no_objects) log_requests = Inr p
     \<and> logged (sent p) = [(False, [(1, 3)]), (True, [(1, 6)]), (True, [(1, 7)]), (False, [(1, 9)])]
     \<and> vget (snd (logged (sent p) ! 0)) 1 \<le> vget (snd (logged (sent p) ! 2)) 1"
proof -
  let ?r = "mat_run single_env (start_partition single_env 1 0 no_objects) log_requests"
  have "map_sum (\<lambda>e. e) (\<lambda>p. logged (sent p)) ?r = Inr [(False, [(1, 3)]), (True, [(1, 6)]), (True, [(1, 7)]), (False, [(1, 9)])]"
    by code_simp
  then obtain p where p: "?r = Inr p" "logged (sent p) = [(False, [(1, 3)]), (True, [(1, 6)]), (True, [(1, 7)]), (False, [(1, 9)])]"
    by (cases ?r) auto
  have "ordered_run 1 0 single_env (start_partition single_env 1 0 no_objects) log_requests" by code_simp
  moreover have "e_knownIDs single_env = [1]" by (simp add: single_env_def)
  ultimately have "vget (snd (logged (sent p) ! 0)) 1 \<le> vget (snd (logged (sent p) ! 2)) 1"
    using Materializer_log_ordered [of single_env 1 0 0 no_objects log_requests p, rule_format, of 2 0] p by simp
  with p show ?thesis by blast
qed

end
