(* ===== verification/Logger.thy ===== *)
theory Logger
  imports ClockSI
begin

text \<open>
  The log of a partition, \<^verbatim>\<open>potionDB/components/logger.go\<close>: it keeps the downstream updates of
  the committed transactions until the replicator asks for them. Slices share their array, so
  the memory is explicit: arrays have addresses, and a slice is an address with two positions.
  The replicator's side of the channel is part of the model, because what it receives depends on
  when it copies the slice.
\<close>

record 'u PairClockUpdates =
  pu_clk :: Timestamp
  pu_upds :: "'u list"

definition zero_pair :: "'u PairClockUpdates" where
  "zero_pair = \<lparr>pu_clk = None, pu_upds = []\<rparr>"

record go_slice =
  sl_addr :: nat
  sl_low :: nat
  sl_high :: nat

text \<open>A nil slice is \<open>None\<close>.\<close>

record StableClkUpdatesPair =
  sp_upds :: "go_slice option"
  sp_stableClock :: ClockSiTimestamp
  sp_partID :: nat

text \<open>\<open>replReplyChan\<close> and \<open>log_timer\<close> tell whether the field is set.\<close>

record MemLogger =
  log_addr :: nat
  log_cap :: nat
  lastSharedPos :: nat
  currentTxnPos :: nat
  log_partId :: nat
  replReplyChan :: bool
  log_timer :: bool

record 'u log_world =
  mem :: "nat \<Rightarrow> nat \<Rightarrow> 'u PairClockUpdates"
  next_addr :: nat
  logger :: MemLogger
  partsChan :: "StableClkUpdatesPair list"
  safeClk_requests :: nat

definition initLogCapacity :: nat where
  "initLogCapacity = 1000"

definition make_log :: "'u log_world \<Rightarrow> 'u log_world" where
  "make_log w = w\<lparr>mem := (mem w)(next_addr w := \<lambda>i. zero_pair), next_addr := Suc (next_addr w),
     logger := (logger w)\<lparr>log_addr := next_addr w, log_cap := initLogCapacity, lastSharedPos := 0, currentTxnPos := 0\<rparr>\<rparr>"

definition Logger_Initialize :: "nat \<Rightarrow> 'u log_world" where
  "Logger_Initialize partId = make_log \<lparr>mem = \<lambda>a i. zero_pair, next_addr = 0,
     logger = \<lparr>log_addr = 0, log_cap = 0, lastSharedPos = 0, currentTxnPos = 0, log_partId = partId,
       replReplyChan = False, log_timer = False\<rparr>, partsChan = [], safeClk_requests = 0\<rparr>"

definition Logger_Reset :: "'u log_world \<Rightarrow> 'u log_world" where
  "Logger_Reset w = make_log w"

text \<open>\<open>grow\<close> is the capacity that \<open>append\<close> gives to a full slice.\<close>

definition handleCommitLogRequest ::
    "bool \<Rightarrow> (nat \<Rightarrow> nat) \<Rightarrow> ClockSiTimestamp \<Rightarrow> 'u list \<Rightarrow> 'u log_world \<Rightarrow> 'u log_world" where
  "handleCommitLogRequest disabled grow clk upds w =
     (if disabled then w
      else let l = logger w; e = \<lparr>pu_clk = Some clk, pu_upds = upds\<rparr>; pos = currentTxnPos l
      in if pos = log_cap l
         then w\<lparr>mem := (mem w)(next_addr w := (\<lambda>i. if i < log_cap l then mem w (log_addr l) i else zero_pair)(pos := e)),
                next_addr := Suc (next_addr w),
                logger := l\<lparr>log_addr := next_addr w, log_cap := grow (log_cap l), currentTxnPos := Suc pos\<rparr>\<rparr>
         else w\<lparr>mem := (mem w)(log_addr l := (mem w (log_addr l))(pos := e)), logger := l\<lparr>currentTxnPos := Suc pos\<rparr>\<rparr>)"

text \<open>The timer and the request to the materializer run in goroutines of their own.\<close>

definition handleTxnLogRequest :: "bool \<Rightarrow> 'u log_world \<Rightarrow> 'u log_world" where
  "handleTxnLogRequest disabled w =
     (if disabled then w\<lparr>partsChan := partsChan w @ [\<lparr>sp_upds = None, sp_stableClock = NewTimestampFromId 0,
        sp_partID = log_partId (logger w)\<rparr>]\<rparr>
      else w\<lparr>logger := (logger w)\<lparr>replReplyChan := True, log_timer := True\<rparr>, safeClk_requests := Suc (safeClk_requests w)\<rparr>)"

definition reply_log :: "go_slice option \<Rightarrow> ClockSiTimestamp \<Rightarrow> 'u log_world \<Rightarrow> 'u log_world" where
  "reply_log txns clk w = w\<lparr>partsChan := partsChan w @ [\<lparr>sp_upds = txns, sp_stableClock = clk, sp_partID = log_partId (logger w)\<rparr>],
     logger := (logger w)\<lparr>replReplyChan := False\<rparr>\<rparr>"

definition unshared :: "MemLogger \<Rightarrow> go_slice" where
  "unshared l = \<lparr>sl_addr = log_addr l, sl_low = lastSharedPos l, sl_high = currentTxnPos l\<rparr>"

definition restart_log :: "'u log_world \<Rightarrow> 'u log_world" where
  "restart_log w = w\<lparr>logger := (logger w)\<lparr>lastSharedPos := 0, currentTxnPos := 0\<rparr>\<rparr>"

definition handleMatClkRequest :: "ClockSiTimestamp \<Rightarrow> 'u log_world \<Rightarrow> 'u log_world go" where
  "handleMatClkRequest clk w =
     (let l = logger w
      in if \<not> log_timer l then Inl NilDereference
         else if \<not> replReplyChan l then Inr w
         else if lastSharedPos l = currentTxnPos l then Inr (reply_log None clk w)
         else Inr (reply_log (Some (unshared l)) clk (restart_log w)))"

definition handleClkTimeoutRequest :: "'u log_world \<Rightarrow> 'u log_world go" where
  "handleClkTimeoutRequest w =
     (let l = logger w
      in if \<not> replReplyChan l \<or> lastSharedPos l = currentTxnPos l then Inr w
         else case pu_clk (mem w (log_addr l) (currentTxnPos l - 1)) of
                None \<Rightarrow> Inl NilDereference
              | Some c \<Rightarrow> Inr (reply_log (Some (unshared l)) (Copy_clk c) (restart_log w)))"

section \<open>The log and its reader\<close>

definition slice_entries :: "(nat \<Rightarrow> nat \<Rightarrow> 'u PairClockUpdates) \<Rightarrow> go_slice option \<Rightarrow> 'u PairClockUpdates list" where
  "slice_entries m s = (case s of None \<Rightarrow> [] | Some s \<Rightarrow> map (m (sl_addr s)) [sl_low s..<sl_high s])"

text \<open>The requests of the log's channel, and the replicator taking a reply out of its own.\<close>

datatype 'u log_event =
    LogCommitArgs ClockSiTimestamp "'u list"
  | LogTxnArgs
  | LogClkArgs ClockSiTimestamp
  | LogClkTimeoutArgs
  | ReceiveReply

text \<open>The second component is what the replicator has copied so far.\<close>

fun log_step ::
    "(nat \<Rightarrow> nat) \<Rightarrow> 'u log_world \<times> 'u PairClockUpdates list \<Rightarrow> 'u log_event \<Rightarrow> ('u log_world \<times> 'u PairClockUpdates list) go" where
  "log_step grow (w, got) (LogCommitArgs clk upds) = Inr (handleCommitLogRequest False grow clk upds w, got)"
| "log_step grow (w, got) LogTxnArgs = Inr (handleTxnLogRequest False w, got)"
| "log_step grow (w, got) (LogClkArgs clk) = gbind (handleMatClkRequest clk w) (\<lambda>w'. Inr (w', got))"
| "log_step grow (w, got) LogClkTimeoutArgs = gbind (handleClkTimeoutRequest w) (\<lambda>w'. Inr (w', got))"
| "log_step grow (w, got) ReceiveReply = (case partsChan w of
      [] \<Rightarrow> Inr (w, got)
    | r # rs \<Rightarrow> Inr (w\<lparr>partsChan := rs\<rparr>, got @ slice_entries (mem w) (sp_upds r)))"

fun commit_entry :: "'u log_event \<Rightarrow> 'u PairClockUpdates list" where
  "commit_entry (LogCommitArgs clk upds) = [\<lparr>pu_clk = Some clk, pu_upds = upds\<rparr>]"
| "commit_entry e = []"

definition in_channel :: "'u log_world \<Rightarrow> 'u PairClockUpdates list" where
  "in_channel w = concat (map (\<lambda>r. slice_entries (mem w) (sp_upds r)) (partsChan w))"

definition pending_log :: "'u log_world \<Rightarrow> 'u PairClockUpdates list" where
  "pending_log w = map (mem w (log_addr (logger w))) [0..<currentTxnPos (logger w)]"

text \<open>
  A clock of the materializer answers a request. A commit is timely when the replicator has
  copied every earlier reply.
\<close>

fun timely_event :: "'u log_world \<Rightarrow> 'u log_event \<Rightarrow> bool" where
  "timely_event w (LogCommitArgs clk upds) = (partsChan w = [])"
| "timely_event w (LogClkArgs clk) = log_timer (logger w)"
| "timely_event w e = True"

primrec timely :: "(nat \<Rightarrow> nat) \<Rightarrow> 'u log_world \<times> 'u PairClockUpdates list \<Rightarrow> 'u log_event list \<Rightarrow> bool" where
  "timely grow s [] = True"
| "timely grow s (e # es) = (timely_event (fst s) e \<and> (case log_step grow s e of Inl x \<Rightarrow> True | Inr s' \<Rightarrow> timely grow s' es))"

definition mlog_inv :: "'u log_world \<Rightarrow> bool" where
  "mlog_inv w \<longleftrightarrow> lastSharedPos (logger w) = 0 \<and> currentTxnPos (logger w) \<le> log_cap (logger w)
     \<and> (\<forall>e \<in> set (pending_log w). pu_clk e \<noteq> None)"

lemma start_log [simp]: "mlog_inv (Logger_Initialize i)" "in_channel (Logger_Initialize i) = []" "pending_log (Logger_Initialize i) = []"
  by (simp_all add: mlog_inv_def Logger_Initialize_def make_log_def in_channel_def pending_log_def)

lemma commit_pending:
  assumes "mlog_inv w" and "\<forall>n. n < grow n"
  shows "pending_log (handleCommitLogRequest False grow clk upds w) = pending_log w @ [\<lparr>pu_clk = Some clk, pu_upds = upds\<rparr>]"
    and "mlog_inv (handleCommitLogRequest False grow clk upds w)"
    and "partsChan (handleCommitLogRequest False grow clk upds w) = partsChan w"
proof -
  let ?w = "handleCommitLogRequest False grow clk upds w"
  have "currentTxnPos (logger w) \<le> log_cap (logger w)" using assms(1) by (simp add: mlog_inv_def)
  then show p: "pending_log ?w = pending_log w @ [\<lparr>pu_clk = Some clk, pu_upds = upds\<rparr>]"
    by (auto simp: handleCommitLogRequest_def Let_def pending_log_def)
  show "partsChan ?w = partsChan w" by (simp add: handleCommitLogRequest_def Let_def)
  show "mlog_inv ?w"
    using assms by (auto simp: mlog_inv_def p) (auto simp: handleCommitLogRequest_def Let_def Suc_le_eq)
qed

lemma share_log:
  assumes "mlog_inv w"
  shows "in_channel (reply_log (Some (unshared (logger w))) clk (restart_log w)) = in_channel w @ pending_log w"
    and "pending_log (reply_log (Some (unshared (logger w))) clk (restart_log w)) = []"
    and "mlog_inv (reply_log (Some (unshared (logger w))) clk (restart_log w))"
  using assms by (simp_all add: reply_log_def restart_log_def in_channel_def pending_log_def slice_entries_def unshared_def mlog_inv_def)

lemma log_step_ok:
  assumes inv: "mlog_inv w" and t: "timely_event w e" and g: "\<forall>n. n < grow n"
  obtains w' got' where "log_step grow (w, got) e = Inr (w', got')" and "mlog_inv w'"
    and "got' @ in_channel w' @ pending_log w' = got @ in_channel w @ pending_log w @ commit_entry e"
proof (cases e)
  case (LogCommitArgs clk upds)
  with t have "in_channel w = []" "in_channel (handleCommitLogRequest False grow clk upds w) = []"
    by (simp_all add: in_channel_def commit_pending(3) [OF inv g])
  then show thesis using that LogCommitArgs commit_pending [OF inv g, of clk upds] by simp
next
  case LogTxnArgs
  show thesis by (rule that [of "handleTxnLogRequest False w" got])
      (use inv in \<open>simp_all add: LogTxnArgs handleTxnLogRequest_def mlog_inv_def in_channel_def pending_log_def\<close>)
next
  case (LogClkArgs clk)
  let ?l = "logger w"
  show thesis
  proof (cases "replReplyChan ?l \<and> lastSharedPos ?l \<noteq> currentTxnPos ?l")
    case True
    then have "log_step grow (w, got) e = Inr (reply_log (Some (unshared ?l)) clk (restart_log w), got)"
      using t LogClkArgs by (simp add: handleMatClkRequest_def Let_def)
    from that [OF this share_log(3) [OF inv]] share_log(1,2) [OF inv] LogClkArgs show thesis by simp
  next
    case False
    show thesis
    proof (cases "replReplyChan ?l")
      case chan: True
      with False have "log_step grow (w, got) e = Inr (reply_log None clk w, got)" using t LogClkArgs
        by (simp add: handleMatClkRequest_def Let_def)
      from that [OF this] inv LogClkArgs show thesis
        by (simp add: reply_log_def mlog_inv_def in_channel_def pending_log_def slice_entries_def)
    next
      case False
      then have "log_step grow (w, got) e = Inr (w, got)" using t LogClkArgs by (simp add: handleMatClkRequest_def Let_def)
      from that [OF this inv] LogClkArgs show thesis by simp
    qed
  qed
next
  case LogClkTimeoutArgs
  let ?l = "logger w"
  show thesis
  proof (cases "\<not> replReplyChan ?l \<or> lastSharedPos ?l = currentTxnPos ?l")
    case True
    then have "log_step grow (w, got) e = Inr (w, got)" using LogClkTimeoutArgs by (simp add: handleClkTimeoutRequest_def)
    from that [OF this inv] LogClkTimeoutArgs show thesis by simp
  next
    case False
    then have "0 < currentTxnPos ?l" using inv by (simp add: mlog_inv_def)
    then have "mem w (log_addr ?l) (currentTxnPos ?l - 1) \<in> set (pending_log w)" by (simp add: pending_log_def)
    then obtain c where "pu_clk (mem w (log_addr ?l) (currentTxnPos ?l - 1)) = Some c" using inv by (auto simp: mlog_inv_def)
    then have "log_step grow (w, got) e = Inr (reply_log (Some (unshared ?l)) (Copy_clk c) (restart_log w), got)"
      using False LogClkTimeoutArgs by (simp add: handleClkTimeoutRequest_def Let_def)
    from that [OF this share_log(3) [OF inv]] share_log(1,2) [OF inv] LogClkTimeoutArgs show thesis by simp
  qed
next
  case ReceiveReply
  show thesis
  proof (cases "partsChan w")
    case Nil
    then show thesis using that [of w got] inv ReceiveReply by simp
  next
    case (Cons r rs)
    show thesis by (rule that [of "w\<lparr>partsChan := rs\<rparr>" "got @ slice_entries (mem w) (sp_upds r)"])
        (use inv ReceiveReply Cons in \<open>simp_all add: mlog_inv_def in_channel_def pending_log_def\<close>)
  qed
qed

lemma log_run_ok:
  "mlog_inv w \<Longrightarrow> \<forall>n. n < grow n \<Longrightarrow> timely grow (w, got) es \<Longrightarrow>
     \<exists>w' got'. gfold (log_step grow) (w, got) es = Inr (w', got') \<and> mlog_inv w'
       \<and> got' @ in_channel w' @ pending_log w' = got @ in_channel w @ pending_log w @ concat (map commit_entry es)"
proof (induction es arbitrary: w got)
  case (Cons e es)
  obtain w' got' where s: "log_step grow (w, got) e = Inr (w', got')" "mlog_inv w'"
    and eq: "got' @ in_channel w' @ pending_log w' = got @ in_channel w @ pending_log w @ commit_entry e"
    using log_step_ok [OF Cons.prems(1) _ Cons.prems(2)] Cons.prems(3) by (metis fst_conv timely.simps(2))
  have "timely grow (w', got') es" using Cons.prems(3) s(1) by simp
  from Cons.IH [OF s(2) Cons.prems(2) this] s(1) eq show ?case by (auto simp: append_assoc [symmetric] simp del: append_assoc)
qed simp

text \<open>
  C22. As long as the replicator copies every reply before the next transaction commits, the log
  never panics and hands over every committed transaction exactly once and in order: what was
  copied, what is in the channel and what is still in the log are the committed transactions.
\<close>

theorem Logger_delivers_all:
  assumes "\<forall>n. n < grow n" and "timely grow (Logger_Initialize i, []) es"
  shows "\<exists>w got. gfold (log_step grow) (Logger_Initialize i, []) es = Inr (w, got)
    \<and> got @ in_channel w @ pending_log w = concat (map commit_entry es)"
  using log_run_ok [OF start_log(1) assms] by auto

theorem Logger_delivers_all_witness:
  "\<exists>w. gfold (log_step (\<lambda>n. 2 * n + 1)) (Logger_Initialize 3, [])
      [LogCommitArgs [(1, 4)] [''a''], LogTxnArgs, LogClkArgs [(1, 5)], ReceiveReply, LogCommitArgs [(1, 6)] [''b'']]
    = Inr (w, [\<lparr>pu_clk = Some [(1, 4)], pu_upds = [''a'']\<rparr>])
    \<and> in_channel w @ pending_log w = [\<lparr>pu_clk = Some [(1, 6)], pu_upds = [''b'']\<rparr>]"
proof -
  let ?es = "[LogCommitArgs [(1, 4)] [''a''], LogTxnArgs, LogClkArgs [(1, 5)], ReceiveReply, LogCommitArgs [(1, 6)] [''b'']]"
  have run: "map_sum (\<lambda>e. e) snd (gfold (log_step (\<lambda>n. 2 * n + 1)) (Logger_Initialize 3, []) ?es) = Inr [\<lparr>pu_clk = Some [(1, 4)], pu_upds = [''a'']\<rparr>]"
    "timely (\<lambda>n. 2 * n + 1) (Logger_Initialize 3, []) ?es"
    by code_simp+
  have grow: "\<forall>n. n < 2 * n + (1 :: nat)" by simp
  from Logger_delivers_all [OF grow run(2)] obtain w got where w: "gfold (log_step (\<lambda>n. 2 * n + 1)) (Logger_Initialize 3, []) ?es = Inr (w, got)"
    "got @ in_channel w @ pending_log w = concat (map commit_entry ?es)" by blast
  have "got = [\<lparr>pu_clk = Some [(1, 4)], pu_upds = [''a'']\<rparr>]" using run(1) w(1) by simp
  with w show ?thesis by simp
qed

text \<open>
  The reply shares the array of the log, which the log fills again from its start. If a
  transaction commits after the reply was sent and before the replicator has copied it, the
  replicator receives the new transaction twice and the replied one never.
\<close>

theorem Logger_overwrites_reply:
  "map_sum (\<lambda>e. e) snd (gfold (log_step grow) (Logger_Initialize i, [])
     [LogCommitArgs c1 us1, LogTxnArgs, LogClkArgs c, LogCommitArgs c2 us2, ReceiveReply, LogTxnArgs, LogClkArgs c', ReceiveReply])
   = Inr [\<lparr>pu_clk = Some c2, pu_upds = us2\<rparr>, \<lparr>pu_clk = Some c2, pu_upds = us2\<rparr>]"
  by (simp add: Logger_Initialize_def make_log_def handleCommitLogRequest_def handleTxnLogRequest_def handleMatClkRequest_def
      reply_log_def restart_log_def unshared_def slice_entries_def initLogCapacity_def Let_def)

end
