(* ===== verification/Replicator.thy ===== *)
theory Replicator
  imports PartitionClock Logger
begin

text \<open>
  The replicator, \<^verbatim>\<open>potionDB/components/replicator.go\<close>: every cycle it collects the logs of the
  partitions, merges them into transactions up to the lowest safe clock and sends these, alone or
  in groups. The caches are a function of the partition (a missing key of the Go map is the nil
  slice); what goes to the connection is a list of messages.
\<close>

type_synonym 'u txnCache = "nat \<Rightarrow> 'u PairClockUpdates list"

record 'u RemoteTxn =
  rx_SenderID :: int
  rx_Clk :: Timestamp
  rx_Upds :: "(nat \<times> 'u list) list"
  rx_TxnID :: int

definition Replicator_Reset :: "int list \<Rightarrow> nat \<Rightarrow> 'u txnCache" where
  "Replicator_Reset knownIDs nGoRoutines =
     (\<lambda>i. if i < nGoRoutines then [\<lparr>pu_clk = Some (NewClockSiTimestamp knownIDs), pu_upds = []\<rparr>] else [])"

text \<open>A reply of a log, copied when it is taken out of the channel: updates, stable clock and partition.\<close>

type_synonym 'u log_reply = "'u PairClockUpdates list \<times> ClockSiTimestamp \<times> nat"

definition cache_reply :: "'u txnCache \<Rightarrow> 'u log_reply \<Rightarrow> 'u txnCache" where
  "cache_reply cache r = (case r of (upds, stableClock, partID) \<Rightarrow>
     let cacheEntry = (if cache partID = [] then [] else butlast (cache partID))
     in cache(partID := cacheEntry @ upds @ [\<lparr>pu_clk = Some stableClock, pu_upds = []\<rparr>]))"

text \<open>The last clock of every cache is sent along with the request.\<close>

definition getNewTxns :: "nat \<Rightarrow> 'u log_reply list \<Rightarrow> 'u txnCache \<Rightarrow> 'u txnCache go" where
  "getNewTxns nParts replies cache =
     gbind (gfold (\<lambda>u i. if cache i = [] then Inl IndexOutOfRange else Inr ()) () [0..<nParts]) (\<lambda>u.
       Inr (foldl cache_reply cache replies))"

section \<open>Merging the logs\<close>

text \<open>The variables of the loop body: \<open>foundStableClk\<close>, \<open>minClk\<close>, \<open>txnUpdates\<close> and the caches.\<close>

type_synonym 'u scan = "bool \<times> Timestamp \<times> (nat \<times> 'u list) list \<times> 'u txnCache"

definition scan_part :: "'u scan \<Rightarrow> nat \<Rightarrow> 'u scan go" where
  "scan_part s i = (case s of (found, minClk, txnUpdates, cache) \<Rightarrow>
     (case cache i of
        [] \<Rightarrow> Inl IndexOutOfRange
      | firstEntry # _ \<Rightarrow>
          (case pu_clk firstEntry of
             None \<Rightarrow> Inl NilDereference
           | Some clk \<Rightarrow>
               (case Compare clk minClk of
                  LowerTs \<Rightarrow>
                    if pu_upds firstEntry = [] then Inr (True, Some clk, [(i, pu_upds firstEntry)], cache(i := [firstEntry]))
                    else Inr (False, Some clk, [(i, pu_upds firstEntry)], cache)
                | EqualTs \<Rightarrow>
                    if pu_upds firstEntry = [] then Inr (True, minClk, mput i (pu_upds firstEntry) txnUpdates, cache(i := [firstEntry]))
                    else Inr (found, minClk, mput i (pu_upds firstEntry) txnUpdates, cache)
                | _ \<Rightarrow> Inr s))))"

definition scan_parts :: "nat \<Rightarrow> 'u txnCache \<Rightarrow> 'u scan go" where
  "scan_parts nParts cache = (case cache 0 of
      [] \<Rightarrow> Inl IndexOutOfRange
    | e # _ \<Rightarrow> gfold scan_part (False, pu_clk e, [], cache) [0..<nParts])"

definition drop_sent :: "(nat \<times> 'u list) list \<Rightarrow> 'u txnCache \<Rightarrow> 'u txnCache" where
  "drop_sent txnUpdates cache = (\<lambda>i. if i \<in> fst ` set txnUpdates then tl (cache i) else cache i)"

text \<open>\<open>None\<close> is a loop that has not ended after so many iterations.\<close>

primrec prepare_loop ::
    "nat \<Rightarrow> int \<Rightarrow> nat \<Rightarrow> 'u RemoteTxn list \<Rightarrow> 'u txnCache \<Rightarrow> ('u RemoteTxn list \<times> 'u txnCache) go option" where
  "prepare_loop 0 self nParts toSend cache = None"
| "prepare_loop (Suc fuel) self nParts toSend cache = (case scan_parts nParts cache of
      Inl e \<Rightarrow> Some (Inl e)
    | Inr (found, minClk, txnUpdates, cache') \<Rightarrow>
        if found then Some (Inr (toSend, cache'))
        else prepare_loop fuel self nParts
          (toSend @ [\<lparr>rx_SenderID = self, rx_Clk = minClk, rx_Upds = txnUpdates, rx_TxnID = 0\<rparr>]) (drop_sent txnUpdates cache'))"

definition preparateDataToSend :: "nat \<Rightarrow> int \<Rightarrow> nat \<Rightarrow> 'u txnCache \<Rightarrow> ('u RemoteTxn list \<times> 'u txnCache) go option" where
  "preparateDataToSend fuel self nParts cache = prepare_loop fuel self nParts [] cache"

section \<open>Sending\<close>

definition minTxnsToGroup :: nat where "minTxnsToGroup = 15"
definition maxTxnsPerGroup :: nat where "maxTxnsPerGroup = 1000"

datatype 'u conn_msg =
    TxnsIndividually "'u RemoteTxn list"
  | GroupTxn "'u RemoteTxn list"
  | StableClk int

text \<open>How many transactions from the front have the first one's clock but for the own position.\<close>

fun group_end :: "int \<Rightarrow> ClockSiTimestamp \<Rightarrow> 'u RemoteTxn list \<Rightarrow> nat go" where
  "group_end self firstClk [] = Inr 0"
| "group_end self firstClk (txn # txns) = (case rx_Clk txn of
      None \<Rightarrow> Inl NilDereference
    | Some clk \<Rightarrow> if \<not> IsEqualExceptForSelf clk (Some firstClk) self then Inr 0
        else gbind (group_end self firstClk txns) (\<lambda>i. Inr (Suc i)))"

text \<open>The loop of \<open>sendGroupTxns\<close>; \<open>None\<close> is a loop that has not ended.\<close>

primrec send_groups :: "nat \<Rightarrow> int \<Rightarrow> 'u RemoteTxn list \<Rightarrow> 'u conn_msg list go option" where
  "send_groups 0 self toSend = None"
| "send_groups (Suc fuel) self toSend = (case toSend of
      [] \<Rightarrow> Some (Inr [])
    | txn # _ \<Rightarrow>
        (case rx_Clk txn of
           None \<Rightarrow> Some (Inl NilDereference)
         | Some firstClk \<Rightarrow>
             (case group_end self firstClk (take maxTxnsPerGroup toSend) of
                Inl e \<Rightarrow> Some (Inl e)
              | Inr n \<Rightarrow>
                  let currTxns = take n toSend;
                      msg = (if n < minTxnsToGroup div 2 then TxnsIndividually currTxns else GroupTxn currTxns)
                  in map_option (map_sum (\<lambda>e. e) (\<lambda>ms. msg # ms)) (send_groups fuel self (drop n toSend)))))"

definition sendGroupTxns :: "int \<Rightarrow> 'u RemoteTxn list \<Rightarrow> 'u conn_msg list go option" where
  "sendGroupTxns self toSend = send_groups (Suc (length toSend)) self toSend"

definition sendTxns :: "int \<Rightarrow> 'u RemoteTxn list \<Rightarrow> 'u conn_msg list go option" where
  "sendTxns self toSend =
     (let stable = (case rx_Clk (last toSend) of None \<Rightarrow> Inl NilDereference | Some c \<Rightarrow> Inr [StableClk (GetPos c self)])
      in if minTxnsToGroup \<le> length toSend
         then map_option (\<lambda>r. gbind r (\<lambda>ms. gbind stable (\<lambda>s. Inr (ms @ s)))) (sendGroupTxns self toSend)
         else Some (gbind stable (\<lambda>s. Inr (TxnsIndividually toSend # s))))"

text \<open>One round of \<open>replicateCycle\<close>.\<close>

definition replicate_round ::
    "nat \<Rightarrow> int \<Rightarrow> nat \<Rightarrow> 'u log_reply list \<Rightarrow> 'u txnCache \<Rightarrow> ('u conn_msg list \<times> 'u txnCache) go option" where
  "replicate_round fuel self nParts replies cache = (case getNewTxns nParts replies cache of
      Inl e \<Rightarrow> Some (Inl e)
    | Inr cache1 \<Rightarrow> (case preparateDataToSend fuel self nParts cache1 of
        None \<Rightarrow> None
      | Some (Inl e) \<Rightarrow> Some (Inl e)
      | Some (Inr (toSend, cache2)) \<Rightarrow>
          if toSend = [] then Some (Inr ([], cache2))
          else map_option (map_sum (\<lambda>e. e) (\<lambda>ms. (ms, cache2))) (sendTxns self toSend)))"

section \<open>Joining\<close>

record ReplyJoin =
  rj_SenderID :: int
  rj_Clks :: "ClockSiTimestamp list"
  rj_CommonBkts :: "string list"
  rj_ReqIP :: string

datatype 'u ReplicatorMsg =
    StableClockMsg int int
  | RemoteTxnMsg "'u RemoteTxn"
  | RemoteTxnGroupMsg int "'u RemoteTxn list"
  | RemoteIDMsg int "string list" string
  | RemoteTriggerMsg bool
  | JoinMsg int "string list" string
  | RequestBucketMsg int "string list" string
  | ReplyJoinMsg ReplyJoin
  | ReplyBucketMsg int ClockSiTimestamp
  | ReplyEmptyMsg

text \<open>What the replicator sends to the transaction manager and to other replicas.\<close>

datatype 'u repl_out =
    TMRemoteClk int int
  | TMRemoteTxn "'u RemoteTxn"
  | TMRemoteTxnGroup int "'u RemoteTxn list"
  | TMReplicaID int string "string list"
  | TMStart
  | TMRemoteTrigger bool
  | TMApplySnapshot ClockSiTimestamp
  | JoinHandler int
  | BucketHandler int
  | SendReplyEmpty int
  | SendRequestBucket string "string list"

record 'u join_state =
  waitFor :: int
  allDone :: bool
  nHoldJoins :: nat
  holdReplyJoins :: "ReplyJoin option list"
  holdMsgs :: "'u ReplicatorMsg list"
  NReplicas :: int
  repl_out :: "'u repl_out list"

definition emit :: "'u repl_out list \<Rightarrow> 'u join_state \<Rightarrow> 'u join_state" where
  "emit ms s = s\<lparr>repl_out := repl_out s @ ms\<rparr>"

text \<open>\<open>handleJoin\<close> and \<open>handleRequestBucket\<close> run in goroutines of their own.\<close>

fun handleRemoteRequest :: "'u ReplicatorMsg \<Rightarrow> 'u join_state \<Rightarrow> 'u join_state" where
  "handleRemoteRequest (StableClockMsg sender ts) s = emit [TMRemoteClk sender ts] s"
| "handleRemoteRequest (RemoteTxnMsg txn) s = emit [TMRemoteTxn txn] s"
| "handleRemoteRequest (RemoteTxnGroupMsg sender txns) s = emit [TMRemoteTxnGroup sender txns] s"
| "handleRemoteRequest (RemoteIDMsg sender bkts ip) s =
     (let s1 = emit [TMReplicaID sender ip bkts] (s\<lparr>waitFor := waitFor s - 1\<rparr>)
      in if waitFor s1 = 0 then emit [TMStart] (s1\<lparr>allDone := True\<rparr>) else s1)"
| "handleRemoteRequest (RemoteTriggerMsg gen) s = emit [TMRemoteTrigger gen] s"
| "handleRemoteRequest (JoinMsg sender bkts ip) s = emit [JoinHandler sender] (s\<lparr>NReplicas := int32 (NReplicas s + 1)\<rparr>)"
| "handleRemoteRequest (RequestBucketMsg sender bkts ip) s = emit [BucketHandler sender] s"
| "handleRemoteRequest _ s = s"

text \<open>The best clock of every bucket and the replica that has it, over the replies kept.\<close>

definition ask_clk ::
    "ReplyJoin \<Rightarrow> (string \<times> ClockSiTimestamp) list \<times> (string \<times> string) list \<Rightarrow> nat \<Rightarrow> ((string \<times> ClockSiTimestamp) list \<times> (string \<times> string) list) go" where
  "ask_clk r state i = (case state of (bestBktClks, askTo) \<Rightarrow>
     if length (rj_CommonBkts r) \<le> i then Inl IndexOutOfRange
     else let bkt = rj_CommonBkts r ! i; clk = rj_Clks r ! i
          in if IsHigher clk (map_of bestBktClks bkt) then Inr (mput bkt clk bestBktClks, mput bkt (rj_ReqIP r) askTo)
             else Inr (bestBktClks, askTo))"

definition ask_reply ::
    "(string \<times> ClockSiTimestamp) list \<times> (string \<times> string) list \<Rightarrow> ReplyJoin option \<Rightarrow> ((string \<times> ClockSiTimestamp) list \<times> (string \<times> string) list) go" where
  "ask_reply state r = (case r of None \<Rightarrow> Inl NilDereference | Some r \<Rightarrow> gfold (ask_clk r) state [0..<length (rj_Clks r)])"

definition invert_ask :: "(string \<times> string) list \<Rightarrow> (string \<times> string list) list" where
  "invert_ask askTo = foldl (\<lambda>m (bkt, replica). mput replica ((case map_of m replica of None \<Rightarrow> [] | Some bs \<Rightarrow> bs) @ [bkt]) m) [] askTo"

definition askBuckets :: "'u join_state \<Rightarrow> 'u join_state go" where
  "askBuckets s =
     (let joins = take (nHoldJoins s) (holdReplyJoins s)
      in gbind (gfold ask_reply ([], []) joins) (\<lambda>(best, askTo).
           let replicaToBkt = invert_ask askTo
           in Inr (emit (map (\<lambda>(ip, bkts). SendRequestBucket ip bkts) replicaToBkt)
                (s\<lparr>holdReplyJoins := joins, waitFor := int (length replicaToBkt)\<rparr>))))"

definition handleReplyJoin :: "ReplyJoin \<Rightarrow> 'u join_state \<Rightarrow> 'u join_state go" where
  "handleReplyJoin req s =
     (if length (holdReplyJoins s) \<le> nHoldJoins s then Inl IndexOutOfRange
      else let s1 = emit [TMReplicaID (rj_SenderID req) [] []] (s\<lparr>holdReplyJoins := (holdReplyJoins s)[nHoldJoins s := Some req],
                 waitFor := waitFor s - 1, nHoldJoins := Suc (nHoldJoins s)\<rparr>)
           in if waitFor s1 = 0 then askBuckets s1 else Inr s1)"

definition handleReplyBucket :: "ClockSiTimestamp \<Rightarrow> 'u join_state \<Rightarrow> 'u join_state" where
  "handleReplyBucket clk s =
     (let s1 = emit [TMApplySnapshot clk] (s\<lparr>waitFor := waitFor s - 1\<rparr>)
      in if waitFor s1 = 0 then s1\<lparr>allDone := True\<rparr> else s1)"

definition handleReplyEmpty :: "'u join_state \<Rightarrow> 'u join_state go" where
  "handleReplyEmpty s =
     (let s1 = s\<lparr>waitFor := waitFor s - 1\<rparr>
      in if waitFor s1 = 0 \<and> nHoldJoins s1 = 0 then Inr (s1\<lparr>allDone := True\<rparr>)
         else if waitFor s1 = 0 then askBuckets s1 else Inr s1)"

definition joinGroup :: "nat \<Rightarrow> 'u join_state \<Rightarrow> 'u join_state" where
  "joinGroup nConns s = s\<lparr>waitFor := int nConns, NReplicas := int32 (int nConns + 1), holdReplyJoins := replicate nConns None\<rparr>"

text \<open>The loop of \<open>queueRemoteRequests\<close> takes messages until the join is done; then those it kept are handled.\<close>

fun queue_msg :: "'u ReplicatorMsg \<Rightarrow> 'u join_state \<Rightarrow> 'u join_state go" where
  "queue_msg (ReplyJoinMsg req) s = handleReplyJoin req s"
| "queue_msg (ReplyBucketMsg sender clk) s = Inr (handleReplyBucket clk s)"
| "queue_msg (JoinMsg sender bkts ip) s = Inr (emit [SendReplyEmpty sender] s)"
| "queue_msg ReplyEmptyMsg s = handleReplyEmpty s"
| "queue_msg msg s = Inr (s\<lparr>holdMsgs := holdMsgs s @ [msg]\<rparr>)"

fun queueRemoteRequests :: "'u ReplicatorMsg list \<Rightarrow> 'u join_state \<Rightarrow> ('u ReplicatorMsg list \<times> 'u join_state) go" where
  "queueRemoteRequests msgs s =
     (if allDone s
      then let s1 = foldl (\<lambda>s m. handleRemoteRequest m s) (emit [TMStart] s) (holdMsgs s)
           in Inr (msgs, s1\<lparr>waitFor := 0, allDone := False, nHoldJoins := 0, holdReplyJoins := [], holdMsgs := []\<rparr>)
      else case msgs of [] \<Rightarrow> Inr ([], s) | m # ms \<Rightarrow> gbind (queue_msg m s) (queueRemoteRequests ms))"

section \<open>What a scan finds\<close>

abbreviation entry_clk :: "'u PairClockUpdates \<Rightarrow> ClockSiTimestamp" where
  "entry_clk e \<equiv> the (pu_clk e)"

definition lt_clk :: "ClockSiTimestamp \<Rightarrow> ClockSiTimestamp \<Rightarrow> bool" where
  "lt_clk a b \<longleftrightarrow> le_clk a b \<and> \<not> le_clk b a"

lemma le_lt_clk_trans: "le_clk a b \<Longrightarrow> lt_clk b c \<Longrightarrow> lt_clk a c"
  unfolding lt_clk_def using le_clk_trans by blast

lemma lt_clk_le_trans: "lt_clk a b \<Longrightarrow> le_clk b c \<Longrightarrow> lt_clk a c"
  unfolding lt_clk_def using le_clk_trans by blast

lemma Compare_on_ids:
  assumes "on_ids I a" and "on_ids I b"
  shows "Compare a (Some b) = LowerTs \<longleftrightarrow> lt_clk a b" and "Compare a (Some b) = EqualTs \<longleftrightarrow> le_clk a b \<and> le_clk b a"
  using assms some_above_iff [of a b] some_below_iff [of a b] by (auto simp: Compare_eq on_ids_def same_ids_def lt_clk_def)

text \<open>A cache holds transactions and, at its end, the stable clock of the partition.\<close>

definition cache_ok :: "int set \<Rightarrow> nat \<Rightarrow> 'u txnCache \<Rightarrow> bool" where
  "cache_ok I n cache \<longleftrightarrow> (\<forall>i < n. cache i \<noteq> [] \<and> pu_upds (last (cache i)) = [] \<and> (\<forall>e \<in> set (butlast (cache i)). pu_upds e \<noteq> [])
     \<and> (\<forall>e \<in> set (cache i). \<exists>c. pu_clk e = Some c \<and> on_ids I c))"

text \<open>
  Orders that the caches may have: clocks do not go back within a partition; the transactions of
  a partition have different clocks; no two clocks are concurrent.
\<close>

definition rising :: "nat \<Rightarrow> 'u txnCache \<Rightarrow> bool" where
  "rising n cache \<longleftrightarrow> (\<forall>i < n. sorted_wrt (\<lambda>a b. le_clk (entry_clk a) (entry_clk b)) (cache i))"

definition comparable :: "nat \<Rightarrow> 'u txnCache \<Rightarrow> bool" where
  "comparable n cache \<longleftrightarrow> (\<forall>i < n. \<forall>j < n. \<forall>a \<in> set (cache i). \<forall>b \<in> set (cache j).
     le_clk (entry_clk a) (entry_clk b) \<or> le_clk (entry_clk b) (entry_clk a))"

definition increasing :: "nat \<Rightarrow> 'u txnCache \<Rightarrow> bool" where
  "increasing n cache \<longleftrightarrow> (\<forall>i < n. sorted_wrt (\<lambda>a b. lt_clk (entry_clk a) (entry_clk b)) (butlast (cache i)))"

abbreviation first :: "'u txnCache \<Rightarrow> nat \<Rightarrow> 'u PairClockUpdates" where
  "first cache i \<equiv> hd (cache i)"

abbreviation same_clk :: "ClockSiTimestamp \<Rightarrow> ClockSiTimestamp \<Rightarrow> bool" where
  "same_clk a b \<equiv> le_clk a b \<and> le_clk b a"

lemma cache_first:
  assumes "cache_ok I n cache" and "i < n"
  obtains e rest c where "cache i = e # rest" and "pu_clk e = Some c" and "on_ids I c" and "pu_upds e = [] \<longleftrightarrow> rest = []"
proof -
  obtain e rest where r: "cache i = e # rest" using assms by (cases "cache i") (auto simp: cache_ok_def)
  have ok: "pu_upds (last (e # rest)) = []" "\<forall>f \<in> set (butlast (e # rest)). pu_upds f \<noteq> []" "\<exists>c. pu_clk e = Some c \<and> on_ids I c"
    using assms r by (force simp: cache_ok_def)+
  have "pu_upds e = [] \<longleftrightarrow> rest = []" using ok(1,2) by (cases "rest = []") auto
  with that r ok(3) show thesis by blast
qed

text \<open>The state after \<open>k\<close> partitions: \<open>m\<close> is a first clock with none below it.\<close>

definition scanned :: "nat \<Rightarrow> 'u txnCache \<Rightarrow> bool \<Rightarrow> ClockSiTimestamp \<Rightarrow> (nat \<times> 'u list) list \<Rightarrow> bool" where
  "scanned k cache found m upds \<longleftrightarrow>
     (\<exists>i < max k 1. same_clk (entry_clk (first cache i)) m) \<and> (\<forall>i < k. \<not> lt_clk (entry_clk (first cache i)) m)
     \<and> (found \<longleftrightarrow> (\<exists>i < k. same_clk (entry_clk (first cache i)) m \<and> pu_upds (first cache i) = []))
     \<and> map_of upds = (\<lambda>i. if i < k \<and> same_clk (entry_clk (first cache i)) m then Some (pu_upds (first cache i)) else None)"

lemma scan_part_step:
  assumes ok: "cache_ok I n cache" and k: "k < n" and st: "scanned k cache found m upds" and m: "on_ids I m"
  obtains found' m' upds' where "scan_part (found, Some m, upds, cache) k = Inr (found', Some m', upds', cache)"
    and "scanned (Suc k) cache found' m' upds'" and "on_ids I m'"
proof -
  obtain e rest c where e: "cache k = e # rest" and c: "pu_clk e = Some c" "on_ids I c" and single: "pu_upds e = [] \<longleftrightarrow> rest = []"
    by (rule cache_first [OF ok k])
  have keep: "cache(k := [e]) = cache" if "pu_upds e = []" using that single e by (auto simp: fun_upd_idem)
  obtain i0 where i0: "i0 < max k 1" "same_clk (entry_clk (first cache i0)) m" using st by (auto simp: scanned_def)
  have step: "scan_part (found, Some m, upds, cache) k = (case Compare c (Some m) of
      LowerTs \<Rightarrow> Inr (pu_upds e = [], Some c, [(k, pu_upds e)], cache)
    | EqualTs \<Rightarrow> Inr (pu_upds e = [] \<or> found, Some m, mput k (pu_upds e) upds, cache)
    | _ \<Rightarrow> Inr (found, Some m, upds, cache))"
    using e c(1) keep by (auto simp: scan_part_def split: TsResult.split)
  have low: "\<forall>i < k. \<not> lt_clk (entry_clk (first cache i)) m"
    and found: "found \<longleftrightarrow> (\<exists>i < k. same_clk (entry_clk (first cache i)) m \<and> pu_upds (first cache i) = [])"
    and upds: "map_of upds = (\<lambda>i. if i < k \<and> same_clk (entry_clk (first cache i)) m then Some (pu_upds (first cache i)) else None)"
    using st by (simp_all add: scanned_def)
  have fk: "entry_clk (first cache k) = c" "pu_upds (first cache k) = pu_upds e" using e c(1) by simp_all
  consider "lt_clk c m" | "same_clk c m" | "\<not> le_clk c m" unfolding lt_clk_def by blast
  then show thesis
  proof cases
    case 1
    have above: "\<not> le_clk (entry_clk (first cache i)) c" if "i < k" for i using le_lt_clk_trans [OF _ 1] low that by blast
    have "scanned (Suc k) cache (pu_upds e = []) c [(k, pu_upds e)]"
      unfolding scanned_def
    proof (intro conjI)
      show "\<exists>i < max (Suc k) 1. same_clk (entry_clk (first cache i)) c" using fk(1) by (intro exI [of _ k]) simp
      show "\<forall>i < Suc k. \<not> lt_clk (entry_clk (first cache i)) c" using above fk(1) by (auto simp: less_Suc_eq lt_clk_def)
      show "pu_upds e = [] \<longleftrightarrow> (\<exists>i < Suc k. same_clk (entry_clk (first cache i)) c \<and> pu_upds (first cache i) = [])"
        using above fk by (auto simp: less_Suc_eq)
      show "map_of [(k, pu_upds e)] = (\<lambda>i. if i < Suc k \<and> same_clk (entry_clk (first cache i)) c then Some (pu_upds (first cache i)) else None)"
        using above fk by (auto simp: less_Suc_eq fun_eq_iff)
    qed
    then show thesis using that [OF _ _ c(2)] step 1 Compare_on_ids [OF c(2) m] by simp
  next
    case 2
    have "scanned (Suc k) cache (pu_upds e = [] \<or> found) m (mput k (pu_upds e) upds)"
      unfolding scanned_def
    proof (intro conjI)
      show "\<exists>i < max (Suc k) 1. same_clk (entry_clk (first cache i)) m" using fk(1) 2 by (intro exI [of _ k]) simp
      show "\<forall>i < Suc k. \<not> lt_clk (entry_clk (first cache i)) m" using low fk(1) 2 by (auto simp: less_Suc_eq lt_clk_def)
      show "(pu_upds e = [] \<or> found) \<longleftrightarrow> (\<exists>i < Suc k. same_clk (entry_clk (first cache i)) m \<and> pu_upds (first cache i) = [])"
        using found fk 2 by (auto simp: less_Suc_eq)
      show "map_of (mput k (pu_upds e) upds) = (\<lambda>i. if i < Suc k \<and> same_clk (entry_clk (first cache i)) m then Some (pu_upds (first cache i)) else None)"
        using fk 2 by (simp add: map_of_mput upds fun_eq_iff less_Suc_eq)
    qed
    then show thesis using that [OF _ _ m] step 2 Compare_on_ids [OF c(2) m] by simp
  next
    case 3
    then have "Compare c (Some m) \<noteq> LowerTs" "Compare c (Some m) \<noteq> EqualTs" using Compare_on_ids [OF c(2) m] by (auto simp: lt_clk_def)
    then have s: "scan_part (found, Some m, upds, cache) k = Inr (found, Some m, upds, cache)"
      using step by (cases "Compare c (Some m)") auto
    have k0: "0 < k"
    proof (rule ccontr)
      assume "\<not> 0 < k"
      then have "i0 = k" using i0(1) by auto
      then show False using i0(2) fk(1) 3 by simp
    qed
    have "scanned (Suc k) cache found m upds"
      unfolding scanned_def
    proof (intro conjI)
      show "\<exists>i < max (Suc k) 1. same_clk (entry_clk (first cache i)) m" using i0 k0 by (intro exI [of _ i0]) auto
      show "\<forall>i < Suc k. \<not> lt_clk (entry_clk (first cache i)) m" using low fk(1) 3 by (auto simp: less_Suc_eq lt_clk_def)
      show "found \<longleftrightarrow> (\<exists>i < Suc k. same_clk (entry_clk (first cache i)) m \<and> pu_upds (first cache i) = [])"
        using found fk 3 by (simp add: less_Suc_eq conj_disj_distribR ex_disj_distrib)
      show "map_of upds = (\<lambda>i. if i < Suc k \<and> same_clk (entry_clk (first cache i)) m then Some (pu_upds (first cache i)) else None)"
        using fk 3 by (simp add: upds fun_eq_iff less_Suc_eq)
    qed
    then show thesis using that [OF s _ m] by simp
  qed
qed

lemma scan_prefix:
  assumes ok: "cache_ok I n cache" and n: "0 < n"
  shows "k \<le> n \<Longrightarrow> \<exists>found m upds. gfold scan_part (False, pu_clk (first cache 0), [], cache) [0..<k] = Inr (found, Some m, upds, cache)
    \<and> scanned k cache found m upds \<and> on_ids I m"
proof (induction k)
  case 0
  obtain e rest c where "cache 0 = e # rest" "pu_clk e = Some c" "on_ids I c" by (rule cache_first [OF ok n])
  then show ?case by (auto simp: scanned_def)
next
  case (Suc k)
  then obtain found m upds where s: "gfold scan_part (False, pu_clk (first cache 0), [], cache) [0..<k] = Inr (found, Some m, upds, cache)"
    "scanned k cache found m upds" "on_ids I m" by auto
  obtain found' m' upds' where t: "scan_part (found, Some m, upds, cache) k = Inr (found', Some m', upds', cache)"
    "scanned (Suc k) cache found' m' upds'" "on_ids I m'"
    using scan_part_step [OF ok _ s(2,3)] Suc.prems by auto
  then show ?case using s(1) by (simp add: gfold_append)
qed

lemma scan_ok:
  assumes "cache_ok I n cache" and n: "0 < n"
  obtains found m upds where "scan_parts n cache = Inr (found, Some m, upds, cache)" and "scanned n cache found m upds" and "on_ids I m"
proof -
  obtain e rest c where "cache 0 = e # rest" by (rule cache_first [OF assms(1) n])
  then show thesis using scan_prefix [OF assms order_refl] that by (auto simp: scan_parts_def)
qed

section \<open>The merged logs\<close>

text \<open>The parts of the sent transactions that belong to a partition.\<close>

definition parts :: "nat \<Rightarrow> 'u RemoteTxn list \<Rightarrow> (ClockSiTimestamp \<times> 'u list) list" where
  "parts i sent = concat (map (\<lambda>t. case map_of (rx_Upds t) i of None \<Rightarrow> [] | Some u \<Rightarrow> [(the (rx_Clk t), u)]) sent)"

definition matches :: "ClockSiTimestamp \<times> 'u list \<Rightarrow> 'u PairClockUpdates \<Rightarrow> bool" where
  "matches x e \<longleftrightarrow> snd x = pu_upds e \<and> same_clk (fst x) (entry_clk e)"

abbreviation txn_clk :: "'u RemoteTxn \<Rightarrow> ClockSiTimestamp" where
  "txn_clk t \<equiv> the (rx_Clk t)"

text \<open>
  Each cache is what was sent of it followed by what is left; what is sent has the clock of a
  transaction of the caches; and some partition is left with its stable clock only, which is not
  above what the others are left with.
\<close>

definition merged :: "nat \<Rightarrow> 'u txnCache \<Rightarrow> 'u RemoteTxn list \<Rightarrow> 'u txnCache \<Rightarrow> bool" where
  "merged n cache sent rest \<longleftrightarrow>
     (\<forall>i < n. \<exists>taken. cache i = taken @ rest i \<and> list_all2 matches (parts i sent) taken)
     \<and> (\<forall>t \<in> set sent. (\<exists>c. rx_Clk t = Some c \<and> wf_map c)
         \<and> (\<exists>i < n. \<exists>e \<in> set (cache i). pu_upds e \<noteq> [] \<and> same_clk (entry_clk e) (txn_clk t)))
     \<and> (\<exists>k < n. rest k = [last (cache k)]
         \<and> (\<forall>j < n. \<not> lt_clk (entry_clk (first rest j)) (entry_clk (last (cache k)))))"

lemma scanned_member: "scanned n cache found m upds \<Longrightarrow> i \<in> fst ` set upds \<longleftrightarrow> i < n \<and> same_clk (entry_clk (first cache i)) m"
  unfolding scanned_def by (subst dom_map_of_conv_image_fst [symmetric]) (auto split: if_splits)

lemma drop_sent_cases:
  assumes ok: "cache_ok I n cache" and sc: "scanned n cache False m upds" and i: "i < n"
  obtains (sent) e f rest where "cache i = e # f # rest" and "drop_sent upds cache i = f # rest" and "same_clk (entry_clk e) m" and "pu_upds e \<noteq> []"
  | (kept) "drop_sent upds cache i = cache i" and "\<not> le_clk (entry_clk (first cache i)) m"
proof (cases "i \<in> fst ` set upds")
  case True
  obtain e rest c where e: "cache i = e # rest" "pu_upds e = [] \<longleftrightarrow> rest = []" by (rule cache_first [OF ok i])
  have s: "same_clk (entry_clk e) m" using scanned_member [OF sc] True e(1) by auto
  have "\<forall>i < n. same_clk (entry_clk (first cache i)) m \<longrightarrow> pu_upds (first cache i) \<noteq> []" using sc unfolding scanned_def by blast
  then have "rest \<noteq> []" using i e s by (metis list.sel(1))
  then show ?thesis using sent e s True by (cases rest) (auto simp: drop_sent_def)
next
  case False
  then have "\<not> same_clk (entry_clk (first cache i)) m" using scanned_member [OF sc] i by blast
  moreover have "\<not> lt_clk (entry_clk (first cache i)) m" using sc i by (simp add: scanned_def)
  ultimately show ?thesis using kept False by (auto simp: drop_sent_def lt_clk_def)
qed

lemma drop_sent_ok:
  assumes ok: "cache_ok I n cache" and sc: "scanned n cache False m upds" and n: "0 < n"
  shows "cache_ok I n (drop_sent upds cache)" and "(\<Sum>i<n. length (drop_sent upds cache i)) < (\<Sum>i<n. length (cache i))"
    and "\<forall>i < n. set (drop_sent upds cache i) \<subseteq> set (cache i) \<and> last (drop_sent upds cache i) = last (cache i)"
proof -
  let ?d = "drop_sent upds cache"
  show "cache_ok I n ?d"
    unfolding cache_ok_def
  proof (intro allI impI)
    fix i assume i: "i < n"
    have o: "cache i \<noteq> []" "pu_upds (last (cache i)) = []" "\<forall>e \<in> set (butlast (cache i)). pu_upds e \<noteq> []"
      "\<forall>e \<in> set (cache i). \<exists>c. pu_clk e = Some c \<and> on_ids I c" using ok i by (auto simp: cache_ok_def)
    show "?d i \<noteq> [] \<and> pu_upds (last (?d i)) = [] \<and> (\<forall>e \<in> set (butlast (?d i)). pu_upds e \<noteq> [])
        \<and> (\<forall>e \<in> set (?d i). \<exists>c. pu_clk e = Some c \<and> on_ids I c)"
      by (cases rule: drop_sent_cases [OF ok sc i]) (use o in auto)
  qed
  show "\<forall>i < n. set (?d i) \<subseteq> set (cache i) \<and> last (?d i) = last (cache i)"
  proof (intro allI impI)
    fix i assume "i < n"
    then show "set (?d i) \<subseteq> set (cache i) \<and> last (?d i) = last (cache i)"
      by (cases rule: drop_sent_cases [OF ok sc]) auto
  qed
  have le: "length (?d i) \<le> length (cache i)" if "i < n" for i
    by (cases rule: drop_sent_cases [OF ok sc that]) auto
  obtain i0 where i0: "i0 < n" "same_clk (entry_clk (first cache i0)) m"
    using sc n unfolding scanned_def by (auto simp: max_def split: if_splits)
  have "length (?d i0) < length (cache i0)"
    by (cases rule: drop_sent_cases [OF ok sc i0(1)]) (use i0(2) in auto)
  then show "(\<Sum>i<n. length (?d i)) < (\<Sum>i<n. length (cache i))"
    by (intro sum_strict_mono_ex1) (use le i0(1) in auto)
qed

lemma drop_sent_order:
  assumes ok: "cache_ok I n cache" and sc: "scanned n cache False m upds"
  shows "rising n cache \<Longrightarrow> rising n (drop_sent upds cache)"
    and "comparable n cache \<Longrightarrow> comparable n (drop_sent upds cache)"
    and "increasing n cache \<Longrightarrow> increasing n (drop_sent upds cache)"
proof -
  let ?d = "drop_sent upds cache"
  have sub: "set (?d i) \<subseteq> set (cache i)" if "i < n" for i by (cases rule: drop_sent_cases [OF ok sc that]) auto
  show "comparable n ?d" if "comparable n cache" using that sub unfolding comparable_def by blast
  show "rising n ?d" if "rising n cache"
    unfolding rising_def
  proof (intro allI impI)
    fix i assume i: "i < n"
    have "sorted_wrt (\<lambda>a b. le_clk (entry_clk a) (entry_clk b)) (cache i)" using that i by (simp add: rising_def)
    then show "sorted_wrt (\<lambda>a b. le_clk (entry_clk a) (entry_clk b)) (?d i)"
      by (cases rule: drop_sent_cases [OF ok sc i]) auto
  qed
  show "increasing n ?d" if "increasing n cache"
    unfolding increasing_def
  proof (intro allI impI)
    fix i assume i: "i < n"
    have "sorted_wrt (\<lambda>a b. lt_clk (entry_clk a) (entry_clk b)) (butlast (cache i))" using that i by (simp add: increasing_def)
    then show "sorted_wrt (\<lambda>a b. lt_clk (entry_clk a) (entry_clk b)) (butlast (?d i))"
      by (cases rule: drop_sent_cases [OF ok sc i]) auto
  qed
qed

text \<open>What stays in the caches after a transaction was taken is not below it.\<close>

lemma rising_first: "rising n cache \<Longrightarrow> i < n \<Longrightarrow> e \<in> set (cache i) \<Longrightarrow> le_clk (entry_clk (first cache i)) (entry_clk e)"
  by (cases "cache i") (auto simp: rising_def)

lemma left_not_below:
  assumes ok: "cache_ok I n cache" and sc: "scanned n cache False m upds" and r: "rising n cache"
    and e: "i < n" "e \<in> set (drop_sent upds cache i)"
  shows "\<not> lt_clk (entry_clk e) m"
proof (cases rule: drop_sent_cases [OF ok sc e(1)])
  case (1 e0 f rest)
  from 1(1,2) have "le_clk (entry_clk e0) (entry_clk e)" using r e by (auto simp: rising_def)
  then have "le_clk m (entry_clk e)" using 1(3) le_clk_trans by blast
  then show ?thesis by (simp add: lt_clk_def)
next
  case 2
  then have "le_clk (entry_clk (first cache i)) (entry_clk e)" using rising_first [OF r e(1)] e(2) by simp
  then show ?thesis using 2(2) le_clk_trans by (auto simp: lt_clk_def)
qed

lemma left_above:
  assumes ok: "cache_ok I n cache" and sc: "scanned n cache False m upds" and n: "0 < n"
    and inc: "increasing n cache" "comparable n cache" "rising n cache"
    and e: "i < n" "e \<in> set (drop_sent upds cache i)" "pu_upds e \<noteq> []"
  shows "lt_clk m (entry_clk e)"
proof (cases rule: drop_sent_cases [OF ok sc e(1)])
  case (1 e0 f rest)
  have "pu_upds (last (cache i)) = []" using ok e(1) by (simp add: cache_ok_def)
  then have "e \<noteq> last (f # rest)" using 1(1) e(3) by auto
  then have "e \<in> set (butlast (f # rest))" using e(2) 1(2) by (metis append_butlast_last_id list.distinct(1) rotate1.simps(2) set_ConsD set_rotate1)
  then have "lt_clk (entry_clk e0) (entry_clk e)" using inc(1) e(1) 1(1) by (auto simp: increasing_def)
  then show ?thesis using 1(3) le_lt_clk_trans by blast
next
  case 2
  obtain i0 where i0: "i0 < n" "same_clk (entry_clk (first cache i0)) m"
    using sc n unfolding scanned_def by (auto simp: max_def split: if_splits)
  have "first cache i0 \<in> set (cache i0)" "first cache i \<in> set (cache i)" using ok i0(1) e(1) by (auto simp: cache_ok_def)
  then have "le_clk (entry_clk (first cache i0)) (entry_clk (first cache i)) \<or> le_clk (entry_clk (first cache i)) (entry_clk (first cache i0))"
    using inc(2) i0(1) e(1) unfolding comparable_def by blast
  then have "le_clk m (entry_clk (first cache i))" using 2(2) i0(2) le_clk_trans by blast
  then have "lt_clk m (entry_clk (first cache i))" using 2(2) by (simp add: lt_clk_def)
  then show ?thesis using rising_first [OF inc(3) e(1)] e(2) 2(1) lt_clk_le_trans by metis
qed

lemma merged_Cons:
  assumes ok: "cache_ok I n cache" and sc: "scanned n cache False m upds" and t: "rx_Clk t = Some m" "rx_Upds t = upds" and m: "on_ids I m"
    and n: "0 < n" and md: "merged n (drop_sent upds cache) sent rest"
  shows "merged n cache (t # sent) rest"
proof -
  let ?d = "drop_sent upds cache"
  note d = drop_sent_ok [OF ok sc n]
  have "\<exists>taken. cache i = taken @ rest i \<and> list_all2 matches (parts i (t # sent)) taken" if i: "i < n" for i
  proof -
    obtain taken where tk: "?d i = taken @ rest i" "list_all2 matches (parts i sent) taken" using md i by (auto simp: merged_def)
    obtain e es c where e: "cache i = e # es" by (rule cache_first [OF ok i])
    have u: "map_of upds i = (if same_clk (entry_clk e) m then Some (pu_upds e) else None)" using sc i e by (simp add: scanned_def)
    show ?thesis
    proof (cases "same_clk (entry_clk e) m")
      case True
      then have "i \<in> fst ` set upds" using scanned_member [OF sc] i e by simp
      then have "cache i = (e # taken) @ rest i" using tk(1) e by (simp add: drop_sent_def)
      moreover have "parts i (t # sent) = (m, pu_upds e) # parts i sent" using u True t by (simp add: parts_def)
      moreover have "matches (m, pu_upds e) e" using True by (simp add: matches_def)
      ultimately show ?thesis using tk(2) by (intro exI [of _ "e # taken"]) simp
    next
      case False
      then have "i \<notin> fst ` set upds" using scanned_member [OF sc] i e by simp
      then have "cache i = taken @ rest i" using tk(1) by (simp add: drop_sent_def)
      moreover have "parts i (t # sent) = parts i sent" using u False t by (simp add: parts_def)
      ultimately show ?thesis using tk(2) by auto
    qed
  qed
  moreover have "\<exists>k < n. rest k = [last (cache k)] \<and> (\<forall>j < n. \<not> lt_clk (entry_clk (first rest j)) (entry_clk (last (cache k))))"
    using md d(3) unfolding merged_def by (metis (no_types, lifting))
  moreover have "\<exists>i < n. \<exists>e \<in> set (cache i). pu_upds e \<noteq> [] \<and> same_clk (entry_clk e) (txn_clk t)"
  proof -
    obtain i where i: "i < n" "same_clk (entry_clk (first cache i)) m"
      using sc n unfolding scanned_def by (auto simp: max_def split: if_splits)
    show ?thesis by (cases rule: drop_sent_cases [OF ok sc i(1)]) (use i t(1) in \<open>auto intro!: exI [of _ i]\<close>)
  qed
  moreover have "\<exists>c. rx_Clk t = Some c \<and> wf_map c" using m t(1) by (simp add: on_ids_def)
  moreover have "(\<exists>c. rx_Clk s = Some c \<and> wf_map c) \<and> (\<exists>i < n. \<exists>e \<in> set (cache i). pu_upds e \<noteq> [] \<and> same_clk (entry_clk e) (txn_clk s))"
    if "s \<in> set sent" for s
    using md d(3) that unfolding merged_def by (meson subsetD)
  ultimately show ?thesis by (simp add: merged_def)
qed

text \<open>The order of what is sent, among itself and beside the stable clocks.\<close>

definition sent_order :: "nat \<Rightarrow> 'u txnCache \<Rightarrow> 'u RemoteTxn list \<Rightarrow> bool" where
  "sent_order n cache sent \<longleftrightarrow>
     (rising n cache \<longrightarrow> sorted_wrt (\<lambda>s t. \<not> lt_clk (txn_clk t) (txn_clk s)) sent
        \<and> (\<forall>t \<in> set sent. \<forall>j < n. \<not> lt_clk (entry_clk (last (cache j))) (txn_clk t)))
     \<and> (rising n cache \<and> comparable n cache \<and> increasing n cache \<longrightarrow> sorted_wrt (\<lambda>s t. lt_clk (txn_clk s) (txn_clk t)) sent)"

lemma sent_order_Cons:
  assumes ok: "cache_ok I n cache" and sc: "scanned n cache False m upds" and t: "rx_Clk t = Some m" and n: "0 < n"
    and md: "merged n (drop_sent upds cache) sent rest" and so: "sent_order n (drop_sent upds cache) sent"
  shows "sent_order n cache (t # sent)"
proof -
  let ?d = "drop_sent upds cache"
  note d = drop_sent_ok [OF ok sc n] and o = drop_sent_order [OF ok sc]
  have from_d: "\<exists>i < n. \<exists>e \<in> set (?d i). pu_upds e \<noteq> [] \<and> same_clk (entry_clk e) (txn_clk s)" if "s \<in> set sent" for s
    using md that by (simp add: merged_def)
  have later: "\<not> lt_clk (txn_clk s) m" if r: "rising n cache" and s: "s \<in> set sent" for s
  proof -
    obtain i e where e: "i < n" "e \<in> set (?d i)" "same_clk (entry_clk e) (txn_clk s)" using from_d [OF s] by blast
    show ?thesis using left_not_below [OF ok sc r e(1,2)] e(3) le_lt_clk_trans by blast
  qed
  have above: "lt_clk m (txn_clk s)" if r: "rising n cache" "comparable n cache" "increasing n cache" and s: "s \<in> set sent" for s
  proof -
    obtain i e where e: "i < n" "e \<in> set (?d i)" "pu_upds e \<noteq> []" "same_clk (entry_clk e) (txn_clk s)" using from_d [OF s] by blast
    show ?thesis using left_above [OF ok sc n r(3,2,1) e(1-3)] e(4) lt_clk_le_trans by blast
  qed
  have stable: "\<not> lt_clk (entry_clk (last (cache j))) m" if r: "rising n cache" and j: "j < n" for j
  proof -
    have "last (cache j) \<in> set (cache j)" using ok j by (simp add: cache_ok_def)
    then have "le_clk (entry_clk (first cache j)) (entry_clk (last (cache j)))" by (rule rising_first [OF r j])
    moreover have "\<not> lt_clk (entry_clk (first cache j)) m" using sc j by (simp add: scanned_def)
    ultimately show ?thesis using le_lt_clk_trans by blast
  qed
  show ?thesis
    unfolding sent_order_def
    using later above stable so o d(3) t by (simp add: sent_order_def)
qed

lemma prepare_loop_ok:
  assumes n: "0 < n"
  shows "cache_ok I n cache \<Longrightarrow> (\<Sum>i<n. length (cache i)) \<le> fuel \<Longrightarrow>
    \<exists>sent rest. prepare_loop fuel self n toSend cache = Some (Inr (toSend @ sent, rest)) \<and> merged n cache sent rest
      \<and> cache_ok I n rest \<and> sent_order n cache sent"
proof (induction fuel arbitrary: cache toSend)
  case 0
  then have "length (cache 0) = 0" using n by auto
  with 0 n show ?case by (auto simp: cache_ok_def)
next
  case (Suc fuel)
  obtain found m upds where s: "scan_parts n cache = Inr (found, Some m, upds, cache)" "scanned n cache found m upds" "on_ids I m"
    using scan_ok [OF Suc.prems(1) n] by metis
  show ?case
  proof (cases found)
    case True
    then obtain i where i: "i < n" "same_clk (entry_clk (first cache i)) m" "pu_upds (first cache i) = []" using s(2) by (auto simp: scanned_def)
    obtain e es c where e: "cache i = e # es" "pu_upds e = [] \<longleftrightarrow> es = []" by (rule cache_first [OF Suc.prems(1) i(1)])
    then have c: "cache i = [last (cache i)]" "last (cache i) = first cache i" using i(3) by auto
    have "\<not> lt_clk (entry_clk (first cache j)) (entry_clk (last (cache i)))" if "j < n" for j
      using s(2) that i(2) lt_clk_le_trans unfolding scanned_def c(2) by blast
    then have "merged n cache [] cache" using i(1) c(1) by (auto simp: merged_def parts_def)
    then show ?thesis using s(1) True Suc.prems(1) by (intro exI [of _ "[]"] exI [of _ cache]) (simp add: sent_order_def)
  next
    case False
    let ?t = "\<lparr>rx_SenderID = self, rx_Clk = Some m, rx_Upds = upds, rx_TxnID = 0\<rparr>" and ?d = "drop_sent upds cache"
    have sc: "scanned n cache False m upds" using s(2) False by simp
    note d = drop_sent_ok [OF Suc.prems(1) sc n]
    have "(\<Sum>i<n. length (?d i)) \<le> fuel" using d(2) Suc.prems(2) by simp
    from Suc.IH [OF d(1) this, of "toSend @ [?t]"] obtain sent rest where
      r: "prepare_loop fuel self n (toSend @ [?t]) ?d = Some (Inr ((toSend @ [?t]) @ sent, rest))" "merged n ?d sent rest"
        "cache_ok I n rest" "sent_order n ?d sent" by blast
    have "merged n cache (?t # sent) rest" by (rule merged_Cons [OF Suc.prems(1) sc _ _ s(3) n r(2)]) simp_all
    moreover have "sent_order n cache (?t # sent)" by (rule sent_order_Cons [OF Suc.prems(1) sc _ n r(2,4)]) simp
    moreover have "prepare_loop (Suc fuel) self n toSend cache = Some (Inr (toSend @ ?t # sent, rest))" using s(1) False r(1) by simp
    ultimately show ?thesis using r(3) by (intro exI [of _ "?t # sent"] exI [of _ rest]) simp
  qed
qed

lemma comparable_le:
  assumes "comparable n cache" and "i < n" and "j < n" and "a \<in> set (cache i)" and "b \<in> set (cache j)"
    and "\<not> lt_clk (entry_clk b) (entry_clk a)"
  shows "le_clk (entry_clk a) (entry_clk b)"
proof -
  have "le_clk (entry_clk a) (entry_clk b) \<or> le_clk (entry_clk b) (entry_clk a)" using assms(1-5) unfolding comparable_def by blast
  with assms(6) show ?thesis by (auto simp: lt_clk_def)
qed

text \<open>
  C23. Merging the logs of the partitions ends, without a panic, after at most as many iterations
  as the caches have entries. Every cache, transactions with updates followed by the stable clock
  of the partition, is what was sent of it, in order and complete, followed by what is left; and
  some partition \<open>k\<close> is left with its stable clock alone. If clocks do not go back within a
  partition, stable clock included, then no transaction is sent after one with a higher clock, no
  transaction is sent that is above the stable clock of any partition, and none that is below the
  stable clock of \<open>k\<close> is kept back. If moreover clocks are comparable, as they are with one
  replica, everything sent is at or below the stable clocks of all partitions and everything kept
  back is at or above that of \<open>k\<close>, which is the lowest; and if the transactions of a partition
  have different clocks, those sent have strictly increasing clocks, so all parts of a
  transaction are sent together.
\<close>

theorem preparateDataToSend_merges:
  assumes "0 < n" and "cache_ok I n cache" and "(\<Sum>i<n. length (cache i)) \<le> fuel"
  shows "\<exists>sent rest. preparateDataToSend fuel self n cache = Some (Inr (sent, rest))
    \<and> (\<forall>i < n. \<exists>taken. cache i = taken @ rest i \<and> list_all2 matches (parts i sent) taken)
    \<and> (\<exists>k < n. rest k = [last (cache k)]
       \<and> (rising n cache \<longrightarrow>
            sorted_wrt (\<lambda>s t. \<not> lt_clk (the (rx_Clk t)) (the (rx_Clk s))) sent
          \<and> (\<forall>t \<in> set sent. \<forall>j < n. \<not> lt_clk (the (pu_clk (last (cache j)))) (the (rx_Clk t)))
          \<and> (\<forall>i < n. \<forall>e \<in> set (rest i). \<not> lt_clk (the (pu_clk e)) (the (pu_clk (last (cache k))))))
       \<and> (rising n cache \<and> comparable n cache \<longrightarrow>
            (\<forall>t \<in> set sent. \<forall>j < n. le_clk (the (rx_Clk t)) (the (pu_clk (last (cache j)))))
          \<and> (\<forall>i < n. \<forall>e \<in> set (rest i). le_clk (the (pu_clk (last (cache k)))) (the (pu_clk e)))))
    \<and> (rising n cache \<and> comparable n cache \<and> increasing n cache \<longrightarrow>
         sorted_wrt (\<lambda>s t. lt_clk (the (rx_Clk s)) (the (rx_Clk t))) sent)"
proof -
  obtain sent rest where r: "prepare_loop fuel self n [] cache = Some (Inr (sent, rest))" "merged n cache sent rest"
    "cache_ok I n rest" "sent_order n cache sent"
    using prepare_loop_ok [OF assms, of self "[]"] by auto
  from r(2) obtain k where k: "k < n" "rest k = [last (cache k)]"
    "\<forall>j < n. \<not> lt_clk (entry_clk (first rest j)) (entry_clk (last (cache k)))" by (auto simp: merged_def)
  have split: "\<exists>taken. cache i = taken @ rest i" if "i < n" for i using r(2) that unfolding merged_def by blast
  have left: "\<not> lt_clk (entry_clk e) (entry_clk (last (cache k)))" if ris: "rising n cache" and e: "i < n" "e \<in> set (rest i)" for i e
  proof -
    obtain taken where "cache i = taken @ rest i" using split [OF e(1)] by blast
    then have "sorted_wrt (\<lambda>a b. le_clk (entry_clk a) (entry_clk b)) (rest i)"
      using ris e(1) by (auto simp: rising_def sorted_wrt_append)
    then have "le_clk (entry_clk (first rest i)) (entry_clk e)" using e(2) by (cases "rest i") auto
    then show ?thesis using k(3) e(1) le_lt_clk_trans by blast
  qed
  have in_cache: "e \<in> set (cache i)" if "i < n" "e \<in> set (rest i)" for i e using split [OF that(1)] that(2) by auto
  have last: "last (cache j) \<in> set (cache j)" if "j < n" for j using assms(2) that by (simp add: cache_ok_def)
  have le_left: "le_clk (entry_clk (last (cache k))) (entry_clk e)"
    if "rising n cache" "comparable n cache" "i < n" "e \<in> set (rest i)" for i e
    by (rule comparable_le [OF that(2) k(1) that(3) last [OF k(1)] in_cache [OF that(3,4)] left [OF that(1,3,4)]])
  have below: "le_clk (txn_clk t) (entry_clk (last (cache j)))"
    if c: "rising n cache" "comparable n cache" and t: "t \<in> set sent" and j: "j < n" for t j
  proof -
    obtain i e where e: "i < n" "e \<in> set (cache i)" "same_clk (entry_clk e) (txn_clk t)" using r(2) t unfolding merged_def by blast
    have "\<not> lt_clk (entry_clk (last (cache j))) (txn_clk t)" using r(4) c(1) t j by (simp add: sent_order_def)
    then have "\<not> lt_clk (entry_clk (last (cache j))) (entry_clk e)" using e(3) lt_clk_le_trans by blast
    from comparable_le [OF c(2) e(1) j e(2) last [OF j] this] show ?thesis using e(3) le_clk_trans by blast
  qed
  have "\<exists>k < n. rest k = [last (cache k)]
       \<and> (rising n cache \<longrightarrow>
            sorted_wrt (\<lambda>s t. \<not> lt_clk (the (rx_Clk t)) (the (rx_Clk s))) sent
          \<and> (\<forall>t \<in> set sent. \<forall>j < n. \<not> lt_clk (the (pu_clk (last (cache j)))) (the (rx_Clk t)))
          \<and> (\<forall>i < n. \<forall>e \<in> set (rest i). \<not> lt_clk (the (pu_clk e)) (the (pu_clk (last (cache k))))))
       \<and> (rising n cache \<and> comparable n cache \<longrightarrow>
            (\<forall>t \<in> set sent. \<forall>j < n. le_clk (the (rx_Clk t)) (the (pu_clk (last (cache j)))))
          \<and> (\<forall>i < n. \<forall>e \<in> set (rest i). le_clk (the (pu_clk (last (cache k)))) (the (pu_clk e))))"
    using k(1,2) left le_left below r(4) by (intro exI [of _ k]) (simp add: sent_order_def)
  with r(1,2,4) show ?thesis
    unfolding preparateDataToSend_def by (intro exI [of _ sent] exI [of _ rest]) (simp add: merged_def sent_order_def)
qed

lemma le_clk_single: "le_clk [(i, a)] [(i, b)] \<longleftrightarrow> a \<le> b"
  by (auto simp: le_clk_def vget_def)

definition two_logs :: "string txnCache" where
  "two_logs = (\<lambda>i. if i = 0
     then [\<lparr>pu_clk = Some [(1, 4)], pu_upds = [''a'']\<rparr>, \<lparr>pu_clk = Some [(1, 7)], pu_upds = [''c'']\<rparr>, \<lparr>pu_clk = Some [(1, 8)], pu_upds = []\<rparr>]
     else [\<lparr>pu_clk = Some [(1, 4)], pu_upds = [''b'']\<rparr>, \<lparr>pu_clk = Some [(1, 6)], pu_upds = []\<rparr>])"

theorem preparateDataToSend_merges_witness:
  "\<exists>rest. preparateDataToSend 5 1 2 two_logs =
      Some (Inr ([\<lparr>rx_SenderID = 1, rx_Clk = Some [(1, 4)], rx_Upds = [(0, [''a'']), (1, [''b''])], rx_TxnID = 0\<rparr>], rest))
    \<and> rest 0 = tl (two_logs 0) \<and> rest 1 = tl (two_logs 1)
    \<and> (\<exists>taken. two_logs 0 = taken @ rest 0 \<and> list_all2 matches [([(1, 4)], [''a''])] taken)
    \<and> le_clk [(1, 4)] [(1, 6)]"
proof -
  let ?t = "\<lparr>rx_SenderID = 1, rx_Clk = Some [(1, 4)], rx_Upds = [(0, [''a'']), (1, [''b''])], rx_TxnID = 0\<rparr>"
  have ok: "cache_ok {1} 2 two_logs" by (auto simp: cache_ok_def two_logs_def on_ids_def wf_map_def less_Suc_eq numeral_2_eq_2)
  have ord: "rising 2 two_logs" "comparable 2 two_logs"
    by (auto simp: rising_def comparable_def two_logs_def le_clk_single)
  have len: "(\<Sum>i<2. length (two_logs i)) \<le> 5" by (simp add: two_logs_def numeral_2_eq_2)
  have run: "map_option (map_sum (\<lambda>e. e) (\<lambda>(sent, rest). (sent, rest 0, rest 1))) (preparateDataToSend 5 1 2 two_logs)
      = Some (Inr ([?t], tl (two_logs 0), tl (two_logs 1)))" by code_simp
  obtain sent rest where r: "preparateDataToSend 5 1 2 two_logs = Some (Inr (sent, rest))"
    "\<forall>i < 2. \<exists>taken. two_logs i = taken @ rest i \<and> list_all2 matches (parts i sent) taken"
    "\<forall>t \<in> set sent. \<forall>j < 2. le_clk (the (rx_Clk t)) (the (pu_clk (last (two_logs j))))"
    using preparateDataToSend_merges [OF _ ok len, of 1] ord by auto
  have "sent = [?t]" "rest 0 = tl (two_logs 0)" "rest 1 = tl (two_logs 1)" using run r(1) by auto
  moreover have "parts 0 [?t] = [([(1, 4)], [''a''])]" by (simp add: parts_def)
  moreover from this have "le_clk [(1, 4)] [(1, 6)]" using r(3) \<open>sent = [?t]\<close> by (auto simp: two_logs_def dest: spec [of _ 1])
  ultimately show ?thesis using r by (metis zero_less_numeral)
qed

section \<open>Groups\<close>

fun msg_txns :: "'u conn_msg \<Rightarrow> 'u RemoteTxn list" where
  "msg_txns (TxnsIndividually ts) = ts"
| "msg_txns (GroupTxn ts) = ts"
| "msg_txns (StableClk t) = []"

definition same_others :: "int \<Rightarrow> ClockSiTimestamp \<Rightarrow> 'u RemoteTxn \<Rightarrow> bool" where
  "same_others self firstClk t \<longleftrightarrow> IsEqualExceptForSelf (txn_clk t) (Some firstClk) self"

text \<open>A message that a group may be sent in.\<close>

fun group_ok :: "int \<Rightarrow> 'u conn_msg \<Rightarrow> bool" where
  "group_ok self (TxnsIndividually ts) = (ts \<noteq> [] \<and> length ts < minTxnsToGroup div 2)"
| "group_ok self (GroupTxn ts) = (minTxnsToGroup div 2 \<le> length ts \<and> length ts \<le> maxTxnsPerGroup
     \<and> (\<forall>t \<in> set ts. same_others self (txn_clk (hd ts)) t))"
| "group_ok self (StableClk t) = False"

lemma group_end_eq:
  "\<forall>t \<in> set txns. rx_Clk t \<noteq> None \<Longrightarrow> group_end self c txns = Inr (length (takeWhile (same_others self c) txns))"
  by (induction txns) (auto simp: same_others_def)

lemma IsEqualExceptForSelf_refl: "wf_map c \<Longrightarrow> IsEqualExceptForSelf c (Some c) self"
proof -
  assume w: "wf_map c"
  have "IsEqualExceptForSelf_loop c self es" if "set es \<subseteq> set c" for es
    using that by (induction es) (auto simp: vget_entry [OF w])
  then show ?thesis by (simp add: IsEqualExceptForSelf_def)
qed

lemma send_groups_ok:
  "\<forall>t \<in> set toSend. \<exists>c. rx_Clk t = Some c \<and> wf_map c \<Longrightarrow> length toSend < fuel \<Longrightarrow>
     \<exists>ms. send_groups fuel self toSend = Some (Inr ms) \<and> concat (map msg_txns ms) = toSend \<and> (\<forall>m \<in> set ms. group_ok self m)"
proof (induction fuel arbitrary: toSend)
  case (Suc fuel)
  show ?case
  proof (cases toSend)
    case (Cons t ts)
    obtain c where c: "rx_Clk t = Some c" "wf_map c" using Suc.prems(1) Cons by auto
    let ?cur = "take maxTxnsPerGroup toSend"
    let ?n = "length (takeWhile (same_others self c) ?cur)"
    have e: "group_end self c ?cur = Inr ?n" using Suc.prems(1) by (intro group_end_eq) (auto dest: in_set_takeD)
    have cur: "?cur = t # take (maxTxnsPerGroup - 1) ts" using Cons by (simp add: maxTxnsPerGroup_def take_Cons')
    have first: "same_others self c t" using c IsEqualExceptForSelf_refl by (simp add: same_others_def)
    have n: "0 < ?n" "?n \<le> maxTxnsPerGroup"
    proof -
      show "0 < ?n" using cur first by simp
      have "?n \<le> length ?cur" by (rule length_takeWhile_le)
      also have "length ?cur \<le> maxTxnsPerGroup" by simp
      finally show "?n \<le> maxTxnsPerGroup" .
    qed
    have tk: "take ?n toSend = takeWhile (same_others self c) ?cur"
      using n(2) by (metis min.absorb1 take_take takeWhile_eq_take)
    have ne: "take ?n toSend \<noteq> []" "hd (take ?n toSend) = t" using n(1) Cons by (simp_all add: take_Cons')
    have all: "\<forall>s \<in> set (take ?n toSend). same_others self c s" unfolding tk by (auto dest: set_takeWhileD)
    let ?m = "if ?n < minTxnsToGroup div 2 then TxnsIndividually (take ?n toSend) else GroupTxn (take ?n toSend)"
    have len: "length (take ?n toSend) = ?n" unfolding tk by simp
    have ok: "group_ok self ?m" using ne len n all c(1) by auto
    have "0 < length toSend" using Cons by simp
    then have "length (drop ?n toSend) < fuel" using Suc.prems(2) n(1) unfolding length_drop by linarith
    moreover have "\<forall>t \<in> set (drop ?n toSend). \<exists>c. rx_Clk t = Some c \<and> wf_map c" using Suc.prems(1) by (auto dest: in_set_dropD)
    ultimately obtain ms where ms: "send_groups fuel self (drop ?n toSend) = Some (Inr ms)" "concat (map msg_txns ms) = drop ?n toSend"
      "\<forall>m \<in> set ms. group_ok self m" using Suc.IH by blast
    have "send_groups (Suc fuel) self toSend = Some (Inr (?m # ms))" using c(1) e ms(1) Cons by (simp add: Let_def)
    moreover have "concat (map msg_txns (?m # ms)) = toSend" using ms(2) by simp
    ultimately show ?thesis using ok ms(3) by (intro exI [of _ "?m # ms"]) simp
  qed simp
qed simp

text \<open>
  C24. Splitting the transactions into groups ends and loses nothing: the messages contain the
  transactions in their order. A group has at least 7 and at most 1000 transactions, whose clocks
  agree at the positions of all other replicas.
\<close>

theorem sendGroupTxns_complete:
  assumes "\<forall>t \<in> set toSend. \<exists>c. rx_Clk t = Some c \<and> wf_map c"
  shows "\<exists>ms. sendGroupTxns self toSend = Some (Inr ms) \<and> concat (map msg_txns ms) = toSend \<and> (\<forall>m \<in> set ms. group_ok self m)"
  unfolding sendGroupTxns_def using assms by (rule send_groups_ok) simp

theorem sendGroupTxns_complete_witness:
  "\<exists>ms. sendGroupTxns 1 [\<lparr>rx_SenderID = 1, rx_Clk = Some [(1, 4)], rx_Upds = [(0, [''a''])], rx_TxnID = 0\<rparr>] = Some (Inr ms)
    \<and> concat (map msg_txns ms) = [\<lparr>rx_SenderID = 1, rx_Clk = Some [(1, 4)], rx_Upds = [(0, [''a''])], rx_TxnID = 0\<rparr>]
    \<and> (\<forall>m \<in> set ms. group_ok 1 m)"
  by (rule sendGroupTxns_complete) (simp add: wf_map_def)

section \<open>Merging concurrent clocks\<close>

lemma merged_upds:
  assumes "merged n cache sent rest" and "i < n"
  shows "map pu_upds (cache i) = map snd (parts i sent) @ map pu_upds (rest i)"
proof -
  obtain taken where "cache i = taken @ rest i" "list_all2 matches (parts i sent) taken" using assms by (auto simp: merged_def)
  moreover from this(2) have "map snd (parts i sent) = map pu_upds taken"
    by (induction rule: list_all2_induct) (simp_all add: matches_def)
  ultimately show ?thesis by simp
qed

text \<open>
  The loop that merges the logs ends also when clocks are concurrent, after at most as many
  iterations as the caches have entries, without a panic; no update is lost or sent twice, and
  the caches stay well-formed, so the next round can start from them.
\<close>

theorem preparateDataToSend_terminates:
  assumes "0 < n" and "cache_ok I n cache"
  shows "\<exists>sent rest. preparateDataToSend (\<Sum>i<n. length (cache i)) self n cache = Some (Inr (sent, rest))
    \<and> cache_ok I n rest \<and> (\<forall>i < n. map pu_upds (cache i) = map snd (parts i sent) @ map pu_upds (rest i))"
  using prepare_loop_ok [OF assms order_refl, of self "[]"] merged_upds by (fastforce simp: preparateDataToSend_def)

definition concurrent_logs :: "string txnCache" where
  "concurrent_logs = (\<lambda>i. if i = 0
     then [\<lparr>pu_clk = Some [(1, 4), (2, 0)], pu_upds = [''a'']\<rparr>, \<lparr>pu_clk = Some [(1, 8), (2, 9)], pu_upds = []\<rparr>]
     else [\<lparr>pu_clk = Some [(1, 3), (2, 9)], pu_upds = [''b'']\<rparr>, \<lparr>pu_clk = Some [(1, 6), (2, 9)], pu_upds = []\<rparr>])"

theorem preparateDataToSend_terminates_witness:
  "\<exists>sent rest. preparateDataToSend 4 1 2 concurrent_logs = Some (Inr (sent, rest)) \<and> cache_ok {1, 2} 2 rest
    \<and> map rx_Upds sent = [[(0, [''a''])], [(1, [''b''])]]"
proof -
  have ok: "cache_ok {1, 2} 2 concurrent_logs" by (auto simp: cache_ok_def concurrent_logs_def on_ids_def wf_map_def)
  have len: "(\<Sum>i<2. length (concurrent_logs i)) = 4" by (simp add: concurrent_logs_def numeral_2_eq_2)
  have run: "map_option (map_sum (\<lambda>e. e) (\<lambda>(sent, rest). map rx_Upds sent)) (preparateDataToSend 4 1 2 concurrent_logs)
      = Some (Inr [[(0, [''a''])], [(1, [''b''])]])" by code_simp
  from preparateDataToSend_terminates [OF _ ok, of 1] len run show ?thesis by auto
qed

section \<open>A round\<close>

text \<open>A reply holds transactions with updates, on the clocks of the known replicas.\<close>

definition reply_ok :: "int set \<Rightarrow> nat \<Rightarrow> 'u log_reply \<Rightarrow> bool" where
  "reply_ok I n r \<longleftrightarrow> (case r of (upds, stbl, i) \<Rightarrow> i < n \<and> on_ids I stbl
     \<and> (\<forall>e \<in> set upds. pu_upds e \<noteq> [] \<and> (\<exists>c. pu_clk e = Some c \<and> on_ids I c)))"

lemma cache_reply_ok:
  assumes "cache_ok I n cache" and "reply_ok I n r"
  shows "cache_ok I n (cache_reply cache r)"
proof -
  obtain upds st k where r: "r = (upds, st, k)" by (metis surj_pair)
  have k: "k < n" "on_ids I st" "\<forall>e \<in> set upds. pu_upds e \<noteq> [] \<and> (\<exists>c. pu_clk e = Some c \<and> on_ids I c)"
    using assms(2) r by (auto simp: reply_ok_def)
  have c: "cache k \<noteq> []" "\<forall>e \<in> set (butlast (cache k)). pu_upds e \<noteq> [] \<and> (\<exists>c. pu_clk e = Some c \<and> on_ids I c)"
    using assms(1) k(1) by (auto simp: cache_ok_def dest: in_set_butlastD)
  have "cache_reply cache r = cache(k := (butlast (cache k) @ upds) @ [\<lparr>pu_clk = Some st, pu_upds = []\<rparr>])"
    using c(1) by (simp add: cache_reply_def r)
  moreover have "butlast (butlast (cache k) @ upds @ [\<lparr>pu_clk = Some st, pu_upds = []\<rparr>]) = butlast (cache k) @ upds"
    by (metis append_assoc butlast_snoc)
  ultimately show ?thesis using assms(1) k c(2) unfolding cache_ok_def by (simp add: ball_Un)
qed

lemma getNewTxns_ok:
  assumes "cache_ok I n cache" and "\<forall>r \<in> set replies. reply_ok I n r"
  shows "\<exists>cache'. getNewTxns n replies cache = Inr cache' \<and> cache_ok I n cache'"
proof -
  have "gfold (\<lambda>u i. if cache i = [] then Inl IndexOutOfRange else Inr ()) () [0..<k] = Inr ()" if "k \<le> n" for k
    using that assms(1) by (induction k) (auto simp: gfold_append cache_ok_def)
  moreover have "cache_ok I n (foldl cache_reply cache replies)"
    using assms by (induction replies arbitrary: cache) (auto simp: cache_reply_ok)
  ultimately show ?thesis by (simp add: getNewTxns_def)
qed

text \<open>
  A round of the replicator from well-formed caches ends without a panic, whatever well-formed
  replies the partitions give and in whatever order they arrive, and leaves well-formed caches;
  the caches are well-formed at the start.
\<close>

theorem replicate_round_keeps_caches:
  assumes "0 < n" and "cache_ok I n cache" and "\<forall>r \<in> set replies. reply_ok I n r"
  shows "(\<exists>fuel ms cache'. replicate_round fuel self n replies cache = Some (Inr (ms, cache')) \<and> cache_ok I n cache')
    \<and> cache_ok (set ids) n (Replicator_Reset ids n)"
proof
  obtain c1 where c1: "getNewTxns n replies cache = Inr c1" "cache_ok I n c1" using getNewTxns_ok [OF assms(2,3)] by blast
  obtain sent rest where p: "prepare_loop (\<Sum>i<n. length (c1 i)) self n [] c1 = Some (Inr (sent, rest))" "cache_ok I n rest"
    "\<forall>t \<in> set sent. \<exists>c. rx_Clk t = Some c \<and> wf_map c"
    using prepare_loop_ok [OF assms(1) c1(2) order_refl, of self "[]"] by (auto simp: merged_def)
  have "\<exists>ms. sendTxns self sent = Some (Inr ms)" if ne: "sent \<noteq> []"
  proof -
    obtain c where "rx_Clk (last sent) = Some c" using p(3) ne by (meson last_in_set)
    moreover obtain ms where "sendGroupTxns self sent = Some (Inr ms)" unfolding sendGroupTxns_def using send_groups_ok [OF p(3) lessI] by blast
    ultimately show ?thesis by (simp add: sendTxns_def Let_def)
  qed
  then have "\<exists>ms. replicate_round (\<Sum>i<n. length (c1 i)) self n replies cache = Some (Inr (ms, rest))"
    using c1(1) p(1) by (cases "sent = []") (auto simp: replicate_round_def preparateDataToSend_def)
  with p(2) show "\<exists>fuel ms cache'. replicate_round fuel self n replies cache = Some (Inr (ms, cache')) \<and> cache_ok I n cache'" by blast
  show "cache_ok (set ids) n (Replicator_Reset ids n)"
    by (simp add: cache_ok_def Replicator_Reset_def on_ids_def NewClockSiTimestamp_def wf_NewTimestamp keys_NewTimestamp)
qed

theorem replicate_round_keeps_caches_witness:
  "\<exists>fuel ms cache'. replicate_round fuel 1 2 [([\<lparr>pu_clk = Some [(1, 4)], pu_upds = [''a'']\<rparr>], [(1, 5)], 1), ([], [(1, 6)], 0)]
     (Replicator_Reset [1] 2) = Some (Inr (ms, cache')) \<and> cache_ok {1} 2 cache'"
proof -
  have "cache_ok {1} 2 (Replicator_Reset [1] 2 :: string txnCache)"
    by (simp add: cache_ok_def Replicator_Reset_def on_ids_def NewClockSiTimestamp_def wf_map_def)
  moreover have "\<forall>r \<in> set [([\<lparr>pu_clk = Some [(1, 4)], pu_upds = [''a'']\<rparr>], [(1, 5)], 1), ([], [(1, 6)], 0)]. reply_ok {1} 2 r"
    by (simp add: reply_ok_def on_ids_def wf_map_def)
  ultimately show ?thesis
    using replicate_round_keeps_caches [of 2 "{1}" "Replicator_Reset [1] 2" _ 1 "[]"] by (metis zero_less_numeral)
qed

section \<open>Asking for buckets\<close>

lemma ask_clks_bound:
  "k \<le> length (rj_CommonBkts r) \<Longrightarrow> \<exists>st'. gfold (ask_clk r) st [0..<k] = Inr st'"
proof (induction k)
  case (Suc k)
  then obtain st' where "gfold (ask_clk r) st [0..<k] = Inr st'" by auto
  moreover have "\<exists>st''. ask_clk r st' k = Inr st''" using Suc.prems by (cases st') (auto simp: ask_clk_def Let_def)
  ultimately show ?case by (auto simp: gfold_append)
qed simp

lemma ask_clks_out:
  assumes "length (rj_CommonBkts r) < length (rj_Clks r)"
  shows "gfold (ask_clk r) st [0..<length (rj_Clks r)] = Inl IndexOutOfRange"
proof -
  let ?b = "length (rj_CommonBkts r)"
  obtain st' where s: "gfold (ask_clk r) st [0..<?b] = Inr st'" using ask_clks_bound [OF order_refl] by blast
  have "[0..<length (rj_Clks r)] = [0..<?b] @ ?b # [Suc ?b..<length (rj_Clks r)]"
    using assms upt_add_eq_append [of 0 ?b "length (rj_Clks r) - ?b"] by (simp add: upt_conv_Cons)
  moreover have "ask_clk r st' ?b = Inl IndexOutOfRange" by (cases st') (simp add: ask_clk_def)
  ultimately show ?thesis using s by (simp add: gfold_append)
qed

text \<open>
  A joining replica asks for buckets by reading the clocks of a reply and its buckets at the
  same positions, but the clocks are one per partition of the replying server. When that server
  has more partitions than the two have common buckets, the first reply makes \<open>askBuckets\<close> panic.
\<close>

theorem askBuckets_panics:
  assumes "take (nHoldJoins s) (holdReplyJoins s) = Some r # rs" and "length (rj_CommonBkts r) < length (rj_Clks r)"
  shows "askBuckets s = Inl IndexOutOfRange"
  using assms by (simp add: askBuckets_def ask_reply_def ask_clks_out)

definition one_bucket_join :: "unit join_state" where
  "one_bucket_join = \<lparr>waitFor = 0, allDone = False, nHoldJoins = 1,
     holdReplyJoins = [Some \<lparr>rj_SenderID = 2, rj_Clks = [[(1, 0)], [(1, 0)]], rj_CommonBkts = [''bkt''], rj_ReqIP = ''ip''\<rparr>],
     holdMsgs = [], NReplicas = 2, repl_out = []\<rparr>"

theorem askBuckets_panics_witness: "askBuckets one_bucket_join = Inl IndexOutOfRange"
  by (rule askBuckets_panics, simp add: one_bucket_join_def, simp)

end
