(* ===== verification/RemoteTxns.thy ===== *)
theory RemoteTxns
  imports Materializer Replicator "HOL-Library.Sublist"
begin

text \<open>
  How the transaction manager, \<^verbatim>\<open>potionDB/components/transactionManager.go\<close>, applies what other
  replicas send: the goroutine \<open>handleRemoteMsgs\<close>, the queue of messages that arrived before what
  they depend on, and the requests it makes to the partitions. It waits for the partitions'
  replies before it goes on, so a handler calls the partitions' handlers directly; what other
  goroutines ask of the partitions in between are events of their own. Of the messages only the
  ones that carry transactions and clocks are modelled, not those of the start-up, snapshots and
  triggers. An interface value that holds a message is either the struct itself or a pointer to
  it, which a type switch tells apart.
\<close>

datatype 'u remote_req =
    RemoteClkReq int int
  | RemoteTxnReq "'u UpdateObjectParams RemoteTxn"
  | RemoteTxnGroupReq int "'u UpdateObjectParams RemoteTxn list"

datatype 'u TMRemoteMsg = Val "'u remote_req" | Ptr "'u remote_req"

record ('vm, 'w, 'u, 'st) tm_state =
  tm_replicaIDs :: "int list"
  localClock :: ClockSiTimestamp
  downstreamQueue :: "(int \<times> 'u TMRemoteMsg list) list"
  tm_parts :: "('vm, 'w, 'u, 'st) partition list"
  downstreamOpsCh :: "(nat \<times> 'u UpdateObjectParams list) list list"

definition queue_of :: "('vm, 'w, 'u, 'st) tm_state \<Rightarrow> int \<Rightarrow> 'u TMRemoteMsg list" where
  "queue_of tm r = (case map_of (downstreamQueue tm) r of None \<Rightarrow> [] | Some ms \<Rightarrow> ms)"

definition enqueue :: "int \<Rightarrow> 'u TMRemoteMsg \<Rightarrow> ('vm, 'w, 'u, 'st) tm_state \<Rightarrow> ('vm, 'w, 'u, 'st) tm_state" where
  "enqueue r m tm = tm\<lparr>downstreamQueue := mput r (queue_of tm r @ [m]) (downstreamQueue tm)\<rparr>"

text \<open>A request of a remote transaction reads neither the wall clock nor the random source.\<close>

definition ask_part ::
    "('vm, 'w, 'u, 'r, 'st) mat_env \<Rightarrow> (nat \<Rightarrow> ('u, 'r) MatRequestArgs) \<Rightarrow> ('vm, 'w, 'u, 'st) tm_state \<Rightarrow> nat \<Rightarrow> ('vm, 'w, 'u, 'st) tm_state go" where
  "ask_part E req tm i =
     (if i < length (tm_parts tm)
      then gbind (handleRequest E 0 0 (tm_parts tm ! i) (req i)) (\<lambda>p. Inr (tm\<lparr>tm_parts := (tm_parts tm)[i := p]\<rparr>))
      else Inl IndexOutOfRange)"

definition down_reply :: "('vm, 'w, 'u, 'st) partition \<Rightarrow> 'u UpdateObjectParams list" where
  "down_reply p = (case last (sent p) of DownReply us \<Rightarrow> us | _ \<Rightarrow> [])"

definition new_downs :: "('vm, 'w, 'u, 'st) tm_state \<Rightarrow> nat list \<Rightarrow> (nat \<times> 'u UpdateObjectParams list) list" where
  "new_downs tm is = filter (\<lambda>(i, us). us \<noteq> []) (map (\<lambda>i. (i, down_reply (tm_parts tm ! i)))
     (filter (\<lambda>i. i \<in> set is) [0..<length (tm_parts tm)]))"

definition send_downs :: "(nat \<times> 'u UpdateObjectParams list) list \<Rightarrow> ('vm, 'w, 'u, 'st) tm_state \<Rightarrow> ('vm, 'w, 'u, 'st) tm_state" where
  "send_downs newDowns tm = (if newDowns = [] then tm else tm\<lparr>downstreamOpsCh := downstreamOpsCh tm @ [newDowns]\<rparr>)"

text \<open>The local clock gets a position, under its lock, and a copy of it is made.\<close>

definition update_local ::
    "('vm, 'w, 'u, 'r, 'st) mat_env \<Rightarrow> int \<Rightarrow> int \<Rightarrow> ('vm, 'w, 'u, 'st) tm_state \<Rightarrow> (ClockSiTimestamp \<times> ('vm, 'w, 'u, 'st) tm_state) go" where
  "update_local E r v tm =
     (let clk = UpdatePos (localClock tm) r v
      in gbind (FastCopyInto (e_knownIDs E) clk (replicate (length (tm_replicaIDs tm)) 0)) (\<lambda>values.
         gbind (FromSliceValuesToClockSiTimestamp (e_knownIDs E) values) (\<lambda>copyClk.
           Inr (copyClk, tm\<lparr>localClock := clk\<rparr>))))"

section \<open>Messages on hold\<close>

definition makeMatRemoteTxn :: "int \<Rightarrow> ClockSiTimestamp \<Rightarrow> 'u UpdateObjectParams list \<Rightarrow> 'u MatRemoteTxn" where
  "makeMatRemoteTxn i clk upds = \<lparr>rt_ReplicaID = i, rt_Timestamp = clk, rt_Upds = upds\<rparr>"

definition clk_of :: "'u RemoteTxn \<Rightarrow> ClockSiTimestamp go" where
  "clk_of t = (case rx_Clk t of None \<Rightarrow> Inl NilDereference | Some c \<Rightarrow> Inr c)"

definition getMinClk :: "'u RemoteTxn list \<Rightarrow> ClockSiTimestamp go" where
  "getMinClk txns = (if txns = [] then Inl IndexOutOfRange else clk_of (hd txns))"

definition getMaxClk :: "'u RemoteTxn list \<Rightarrow> ClockSiTimestamp go" where
  "getMaxClk txns = (if txns = [] then Inl IndexOutOfRange else clk_of (last txns))"

text \<open>\<open>copyClk\<close>, \<open>reqsPerPart\<close>, \<open>foundSomething\<close> (with \<open>atLeastOne\<close>) and \<open>posToHide\<close>.\<close>

type_synonym 'u pending = "ClockSiTimestamp \<times> 'u MatRemoteTxn list list \<times> bool \<times> nat"

definition add_reqs ::
    "int \<Rightarrow> 'u MatRemoteTxn list list \<Rightarrow> 'u UpdateObjectParams RemoteTxn \<Rightarrow> 'u MatRemoteTxn list list go" where
  "add_reqs remoteID reqs t = gbind (clk_of t) (\<lambda>clk.
     gfold (\<lambda>reqs (i, upds). if i < length reqs then Inr (reqs[i := reqs ! i @ [makeMatRemoteTxn remoteID clk upds]])
       else Inl IndexOutOfRange) reqs (rx_Upds t))"

text \<open>The \<open>break\<close>s leave the type switch, not the loop, so later messages are looked at as well.\<close>

fun pending_msg :: "int \<Rightarrow> int \<Rightarrow> 'u pending \<Rightarrow> 'u TMRemoteMsg \<Rightarrow> 'u pending go" where
  "pending_msg self remoteID (copyClk, reqs, found, hide) (Val (RemoteTxnReq t)) =
     gbind (clk_of t) (\<lambda>clk.
       if IsLowerOrEqualExceptFor clk (Some copyClk) self (rx_SenderID t)
       then gbind (add_reqs remoteID reqs t) (\<lambda>reqs'.
              Inr (UpdatePos copyClk (rx_SenderID t) (GetPos clk (rx_SenderID t)), reqs', True, Suc hide))
       else Inr (copyClk, reqs, found, hide))"
| "pending_msg self remoteID (copyClk, reqs, found, hide) (Val (RemoteTxnGroupReq sender txns)) =
     gbind (getMaxClk txns) (\<lambda>clk.
       if IsLowerOrEqualExceptFor clk (Some copyClk) self sender
       then gbind (gfold (add_reqs remoteID) reqs txns) (\<lambda>reqs'.
              Inr (UpdatePos copyClk sender (GetPos clk sender), reqs', True, Suc hide))
       else Inr (copyClk, reqs, found, hide))"
| "pending_msg self remoteID (copyClk, reqs, found, hide) (Val (RemoteClkReq r ts)) =
     Inr (UpdatePos copyClk r ts, reqs, True, Suc hide)"
| "pending_msg self remoteID state msg = Inr state"

definition pending_replica ::
    "int \<Rightarrow> ClockSiTimestamp \<times> 'u MatRemoteTxn list list \<times> bool \<times> (int \<times> 'u TMRemoteMsg list) list \<Rightarrow> int \<times> 'u TMRemoteMsg list
       \<Rightarrow> (ClockSiTimestamp \<times> 'u MatRemoteTxn list list \<times> bool \<times> (int \<times> 'u TMRemoteMsg list) list) go" where
  "pending_replica self state entry = (case (state, entry) of ((copyClk, reqs, found, queue), (remoteID, msgs)) \<Rightarrow>
     gbind (gfold (pending_msg self remoteID) (copyClk, reqs, found, 0) msgs) (\<lambda>(copyClk', reqs', found', hide).
       Inr (copyClk', reqs', found', mput remoteID (drop hide msgs) queue)))"

text \<open>\<open>None\<close> is a loop that has not ended after so many rounds.\<close>

primrec pending_loop ::
    "nat \<Rightarrow> int \<Rightarrow> ClockSiTimestamp \<Rightarrow> 'u MatRemoteTxn list list \<Rightarrow> bool \<Rightarrow> (int \<times> 'u TMRemoteMsg list) list
       \<Rightarrow> (ClockSiTimestamp \<times> 'u MatRemoteTxn list list \<times> bool \<times> (int \<times> 'u TMRemoteMsg list) list) go option" where
  "pending_loop 0 self copyClk reqs atLeastOne queue = None"
| "pending_loop (Suc fuel) self copyClk reqs atLeastOne queue =
     (case gfold (pending_replica self) (copyClk, reqs, False, queue) queue of
        Inl e \<Rightarrow> Some (Inl e)
      | Inr (copyClk', reqs', found, queue') \<Rightarrow>
          if found then pending_loop fuel self copyClk' reqs' True queue'
          else Some (Inr (copyClk', reqs', atLeastOne, queue')))"

definition checkPendingRemoteTxns ::
    "('vm, 'w, 'u, 'r, 'st) mat_env \<Rightarrow> int \<Rightarrow> nat \<Rightarrow> ClockSiTimestamp \<Rightarrow> ('vm, 'w, 'u, 'st) tm_state \<Rightarrow> ('vm, 'w, 'u, 'st) tm_state go option" where
  "checkPendingRemoteTxns E self fuel copyClk tm =
     map_option (\<lambda>r. gbind r (\<lambda>(copyClk', reqs, atLeastOne, queue).
       let tm1 = tm\<lparr>downstreamQueue := queue\<rparr>
       in if \<not> atLeastOne then Inr tm1
          else gbind (gfold (ask_part E (\<lambda>i. MatRemoteGroupTxn (reqs ! i) copyClk')) tm1 [0..<length (tm_parts tm)]) (\<lambda>tm2.
                 Inr (send_downs (new_downs tm2 [0..<length (tm_parts tm)]) (tm2\<lparr>localClock := MergeInto (localClock tm2) (Some copyClk')\<rparr>)))))
       (pending_loop fuel self copyClk (replicate (length (tm_parts tm)) []) False (downstreamQueue tm))"

text \<open>As many rounds as there are messages in the queues, and one that finds nothing, are enough.\<close>

definition queued :: "(int \<times> 'u TMRemoteMsg list) list \<Rightarrow> nat" where
  "queued queue = sum_list (map (length \<circ> snd) queue)"

definition check_pending ::
    "('vm, 'w, 'u, 'r, 'st) mat_env \<Rightarrow> int \<Rightarrow> ClockSiTimestamp \<Rightarrow> ('vm, 'w, 'u, 'st) tm_state \<Rightarrow> ('vm, 'w, 'u, 'st) tm_state go" where
  "check_pending E self copyClk tm =
     (case checkPendingRemoteTxns E self (Suc (queued (downstreamQueue tm))) copyClk tm of None \<Rightarrow> Inr tm | Some r \<Rightarrow> r)"

section \<open>Messages that arrive\<close>

definition processMatRemoteReply ::
    "('vm, 'w, 'u, 'r, 'st) mat_env \<Rightarrow> int \<Rightarrow> nat list \<Rightarrow> int \<Rightarrow> ClockSiTimestamp \<Rightarrow> ('vm, 'w, 'u, 'st) tm_state \<Rightarrow> ('vm, 'w, 'u, 'st) tm_state go" where
  "processMatRemoteReply E self asked replicaID clk tm =
     gbind (update_local E replicaID (GetPos clk replicaID) tm) (\<lambda>(copyClk, tm1).
       check_pending E self copyClk (send_downs (new_downs tm1 asked) tm1))"

definition applyRemoteClk ::
    "('vm, 'w, 'u, 'r, 'st) mat_env \<Rightarrow> int \<Rightarrow> int \<Rightarrow> int \<Rightarrow> ('vm, 'w, 'u, 'st) tm_state \<Rightarrow> ('vm, 'w, 'u, 'st) tm_state go" where
  "applyRemoteClk E self r ts tm =
     (if queue_of tm r = []
      then gbind (gfold (ask_part E (\<lambda>i. MatClkPosUpd r ts)) tm [0..<length (tm_parts tm)]) (\<lambda>tm1.
           gbind (update_local E r ts tm1) (\<lambda>(copyClk, tm2). check_pending E self copyClk tm2))
      else Inr (enqueue r (Ptr (RemoteClkReq r ts)) tm))"

definition split_txn ::
    "nat \<Rightarrow> int \<Rightarrow> 'u MatRemoteTxn list list \<Rightarrow> 'u UpdateObjectParams RemoteTxn \<Rightarrow> 'u MatRemoteTxn list list go" where
  "split_txn nTxns replicaID split t =
     gfold (\<lambda>split (partID, partUpds).
         if partID < length split \<and> length (split ! partID) < nTxns
         then gbind (clk_of t) (\<lambda>clk. Inr (split[partID := split ! partID @ [makeMatRemoteTxn replicaID clk partUpds]]))
         else Inl IndexOutOfRange) split (rx_Upds t)"

definition splitGroupByPartition :: "nat \<Rightarrow> 'u UpdateObjectParams RemoteTxn list \<Rightarrow> 'u MatRemoteTxn list list go" where
  "splitGroupByPartition nGoRoutines toSplit =
     (case toSplit of
        [] \<Rightarrow> Inl IndexOutOfRange
      | t # _ \<Rightarrow> gfold (split_txn (length toSplit) (rx_SenderID t)) (replicate nGoRoutines []) toSplit)"

definition applyRemoteTxnGroup ::
    "('vm, 'w, 'u, 'r, 'st) mat_env \<Rightarrow> int \<Rightarrow> int \<Rightarrow> 'u UpdateObjectParams RemoteTxn list \<Rightarrow> ('vm, 'w, 'u, 'st) tm_state
       \<Rightarrow> ('vm, 'w, 'u, 'st) tm_state go" where
  "applyRemoteTxnGroup E self sender txns tm =
     gbind (getMinClk txns) (\<lambda>minClk.
       if IsLowerOrEqualExceptFor minClk (Some (localClock tm)) self sender
       then gbind (splitGroupByPartition (length (tm_parts tm)) txns) (\<lambda>split.
            gbind (getMaxClk txns) (\<lambda>maxClk.
            gbind (gfold (ask_part E (\<lambda>i. MatRemoteGroupTxn (split ! i) maxClk)) tm [0..<length (tm_parts tm)]) (\<lambda>tm1.
              processMatRemoteReply E self [0..<length (tm_parts tm)] sender maxClk tm1)))
       else Inr (enqueue sender (Ptr (RemoteTxnGroupReq sender txns)) tm))"

definition part_upds :: "'u RemoteTxn \<Rightarrow> nat \<Rightarrow> 'u list" where
  "part_upds t i = (case map_of (rx_Upds t) i of None \<Rightarrow> [] | Some us \<Rightarrow> us)"

definition applyRemoteTxn ::
    "('vm, 'w, 'u, 'r, 'st) mat_env \<Rightarrow> int \<Rightarrow> 'u UpdateObjectParams RemoteTxn \<Rightarrow> ('vm, 'w, 'u, 'st) tm_state \<Rightarrow> ('vm, 'w, 'u, 'st) tm_state go" where
  "applyRemoteTxn E self t tm =
     gbind (clk_of t) (\<lambda>clk.
       if IsLowerOrEqualExceptFor clk (Some (localClock tm)) self (rx_SenderID t)
       then gbind (gfold (ask_part E (\<lambda>i. MatRemoteTxnReq (makeMatRemoteTxn (rx_SenderID t) clk (part_upds t i)))) tm (map fst (rx_Upds t))) (\<lambda>tm1.
              processMatRemoteReply E self (map fst (rx_Upds t)) (rx_SenderID t) clk tm1)
       else Inr (enqueue (rx_SenderID t) (Ptr (RemoteTxnReq t)) tm))"

fun handleRemoteMsg ::
    "('vm, 'w, 'u, 'r, 'st) mat_env \<Rightarrow> int \<Rightarrow> 'u remote_req \<Rightarrow> ('vm, 'w, 'u, 'st) tm_state \<Rightarrow> ('vm, 'w, 'u, 'st) tm_state go" where
  "handleRemoteMsg E self (RemoteClkReq r ts) tm = applyRemoteClk E self r ts tm"
| "handleRemoteMsg E self (RemoteTxnReq t) tm = applyRemoteTxn E self t tm"
| "handleRemoteMsg E self (RemoteTxnGroupReq sender txns) tm = applyRemoteTxnGroup E self sender txns tm"

text \<open>
  What happens at a replica, in the order in which it happens: a remote message is handled, a
  partition handles another request, and the local clock learns of a commit.
\<close>

datatype ('u, 'r) tm_event =
    RemoteMsg "'u remote_req"
  | PartRequest nat int TransactionId "('u, 'r) MatRequestArgs"
  | LocalCommit ClockSiTimestamp

fun tm_step ::
    "('vm, 'w, 'u, 'r, 'st) mat_env \<Rightarrow> int \<Rightarrow> ('vm, 'w, 'u, 'st) tm_state \<Rightarrow> ('u, 'r) tm_event \<Rightarrow> ('vm, 'w, 'u, 'st) tm_state go" where
  "tm_step E self tm (RemoteMsg m) = handleRemoteMsg E self m tm"
| "tm_step E self tm (PartRequest i now rnd req) =
     (if i < length (tm_parts tm) then gbind (handleRequest E now rnd (tm_parts tm ! i) req) (\<lambda>p. Inr (tm\<lparr>tm_parts := (tm_parts tm)[i := p]\<rparr>))
      else Inl IndexOutOfRange)"
| "tm_step E self tm (LocalCommit clk) = Inr (tm\<lparr>localClock := MergeInto (localClock tm) (Some clk)\<rparr>)"

section \<open>Messages on hold are never applied\<close>

definition is_ptr :: "'u TMRemoteMsg \<Rightarrow> bool" where
  "is_ptr m \<longleftrightarrow> (case m of Ptr x \<Rightarrow> True | Val x \<Rightarrow> False)"

definition pointers :: "(int \<times> 'u TMRemoteMsg list) list \<Rightarrow> bool" where
  "pointers q \<longleftrightarrow> wf_map q \<and> (\<forall>e \<in> set q. list_all is_ptr (snd e))"

lemma pending_ptr: "is_ptr m \<Longrightarrow> pending_msg self r s m = Inr s"
  by (cases s; cases m) (auto simp: is_ptr_def)

lemma pending_ptrs: "list_all is_ptr ms \<Longrightarrow> gfold (pending_msg self r) s ms = Inr s"
  by (induction ms arbitrary: s) (auto simp: pending_ptr)

lemma mput_same: "wf_map q \<Longrightarrow> (k, v) \<in> set q \<Longrightarrow> mput k v q = q"
  by (induction q) (force simp: wf_map_def)+

lemma pending_replicas_ptrs:
  assumes "wf_map q" and "set es \<subseteq> set q" and "\<forall>e \<in> set es. list_all is_ptr (snd e)"
  shows "gfold (pending_replica self) (c, reqs, f, q) es = Inr (c, reqs, f, q)"
  using assms(2,3) by (induction es) (auto simp: pending_replica_def pending_ptrs mput_same [OF assms(1)])

lemma check_pending_ptrs:
  assumes "pointers (downstreamQueue tm)"
  shows "checkPendingRemoteTxns E self (Suc n) c tm = Some (Inr tm)" and "check_pending E self c tm = Inr tm"
proof -
  have "gfold (pending_replica self) (c, reqs, f, downstreamQueue tm) (downstreamQueue tm) = Inr (c, reqs, f, downstreamQueue tm)" for c reqs f
    by (rule pending_replicas_ptrs) (use assms in \<open>auto simp: pointers_def\<close>)
  then show *: "checkPendingRemoteTxns E self (Suc n) c tm = Some (Inr tm)" for n by (simp add: checkPendingRemoteTxns_def)
  show "check_pending E self c tm = Inr tm" unfolding check_pending_def * by simp
qed

text \<open>The parts of the state a step may change.\<close>

lemma ask_part_frame:
  assumes "ask_part E req tm i = Inr tm'"
  shows "downstreamQueue tm' = downstreamQueue tm" and "localClock tm' = localClock tm" and "tm_replicaIDs tm' = tm_replicaIDs tm"
    and "length (tm_parts tm') = length (tm_parts tm)" and "downstreamOpsCh tm' = downstreamOpsCh tm"
  using assms by (auto simp: ask_part_def gbind_eq_Inr split: if_splits)

lemma ask_parts_frame:
  "gfold (ask_part E req) tm is = Inr tm' \<Longrightarrow> downstreamQueue tm' = downstreamQueue tm \<and> localClock tm' = localClock tm
     \<and> tm_replicaIDs tm' = tm_replicaIDs tm \<and> length (tm_parts tm') = length (tm_parts tm) \<and> downstreamOpsCh tm' = downstreamOpsCh tm"
proof (induction "is" arbitrary: tm)
  case (Cons i "is")
  then obtain tm1 where "ask_part E req tm i = Inr tm1" "gfold (ask_part E req) tm1 is = Inr tm'" by (auto simp: gbind_eq_Inr)
  then show ?case using ask_part_frame [OF \<open>ask_part E req tm i = Inr tm1\<close>] Cons.IH by metis
qed simp

lemma send_downs_frame [simp]:
  "downstreamQueue (send_downs ds tm) = downstreamQueue tm" "localClock (send_downs ds tm) = localClock tm"
  "tm_replicaIDs (send_downs ds tm) = tm_replicaIDs tm" "tm_parts (send_downs ds tm) = tm_parts tm"
  by (simp_all add: send_downs_def)

lemma update_local_frame:
  assumes "update_local E r v tm = Inr (c, tm')"
  shows "tm' = tm\<lparr>localClock := UpdatePos (localClock tm) r v\<rparr>"
  using assms by (auto simp: update_local_def gbind_eq_Inr Let_def)

lemma FromSliceValues_ok: "length ids \<le> length vs \<Longrightarrow> \<exists>c. FromSliceValues ids vs m = Inr c"
  by (induction ids vs m rule: FromSliceValues.induct) auto

lemma update_local_ok:
  assumes "length (e_knownIDs E) \<le> length (tm_replicaIDs tm)"
  shows "\<exists>c. update_local E r v tm = Inr (c, tm\<lparr>localClock := UpdatePos (localClock tm) r v\<rparr>)"
proof -
  obtain vs where vs: "FastCopyInto (e_knownIDs E) (UpdatePos (localClock tm) r v) (replicate (length (tm_replicaIDs tm)) 0) = Inr vs"
    "length (e_knownIDs E) \<le> length vs" using assms by (simp add: FastCopyInto_def)
  from FromSliceValues_ok [OF vs(2)] obtain c where "FromSliceValuesToClockSiTimestamp (e_knownIDs E) vs = Inr c"
    unfolding FromSliceValuesToClockSiTimestamp_def by metis
  with vs(1) show ?thesis by (simp add: update_local_def Let_def)
qed

lemma process_ptrs:
  assumes "processMatRemoteReply E self asked r clk tm = Inr tm'" and "pointers (downstreamQueue tm)"
  shows "tm' = send_downs (new_downs tm asked) (tm\<lparr>localClock := UpdatePos (localClock tm) r (GetPos clk r)\<rparr>)"
proof -
  define tm1 where "tm1 = tm\<lparr>localClock := UpdatePos (localClock tm) r (GetPos clk r)\<rparr>"
  obtain c where "check_pending E self c (send_downs (new_downs tm1 asked) tm1) = Inr tm'"
    using assms(1) update_local_frame unfolding processMatRemoteReply_def tm1_def by (fastforce simp: gbind_eq_Inr)
  moreover have "check_pending E self c (send_downs (new_downs tm1 asked) tm1) = Inr (send_downs (new_downs tm1 asked) tm1)"
    by (rule check_pending_ptrs(2)) (use assms(2) in \<open>simp add: tm1_def\<close>)
  ultimately show ?thesis by (simp add: tm1_def new_downs_def)
qed

text \<open>Handling a message adds nothing to the queues, or the message's pointer to one of them.\<close>

definition queue_step :: "(int \<times> 'u TMRemoteMsg list) list \<Rightarrow> (int \<times> 'u TMRemoteMsg list) list \<Rightarrow> bool" where
  "queue_step q q' \<longleftrightarrow> q' = q \<or> (\<exists>r m. q' = mput r ((case map_of q r of None \<Rightarrow> [] | Some ms \<Rightarrow> ms) @ [Ptr m]) q)"

lemma enqueue_step: "queue_step (downstreamQueue tm) (downstreamQueue (enqueue r (Ptr m) tm))"
  by (auto simp: queue_step_def enqueue_def queue_of_def)

lemma queue_step_refl [simp]: "queue_step q q"
  by (simp add: queue_step_def)

lemma applyRemoteTxn_queue:
  assumes "applyRemoteTxn E self t tm = Inr tm'" and "pointers (downstreamQueue tm)"
  shows "queue_step (downstreamQueue tm) (downstreamQueue tm')"
proof -
  consider m where "tm' = enqueue (rx_SenderID t) (Ptr m) tm" | clk tm1 req asked where "gfold (ask_part E req) tm asked = Inr tm1"
      "processMatRemoteReply E self asked (rx_SenderID t) clk tm1 = Inr tm'"
    using assms(1) by (fastforce simp: applyRemoteTxn_def gbind_eq_Inr split: if_splits)
  then show ?thesis
  proof cases
    case 2
    with ask_parts_frame [OF 2(1)] assms(2) have "downstreamQueue tm' = downstreamQueue tm" using process_ptrs [OF 2(2)] by simp
    then show ?thesis by simp
  qed (simp add: enqueue_step)
qed

lemma applyRemoteTxnGroup_queue:
  assumes "applyRemoteTxnGroup E self r txns tm = Inr tm'" and "pointers (downstreamQueue tm)"
  shows "queue_step (downstreamQueue tm) (downstreamQueue tm')"
proof -
  consider m where "tm' = enqueue r (Ptr m) tm" | clk tm1 req asked where "gfold (ask_part E req) tm asked = Inr tm1"
      "processMatRemoteReply E self asked r clk tm1 = Inr tm'"
    using assms(1) by (fastforce simp: applyRemoteTxnGroup_def gbind_eq_Inr split: if_splits)
  then show ?thesis
  proof cases
    case 2
    with ask_parts_frame [OF 2(1)] assms(2) have "downstreamQueue tm' = downstreamQueue tm" using process_ptrs [OF 2(2)] by simp
    then show ?thesis by simp
  qed (simp add: enqueue_step)
qed

lemma applyRemoteClk_queue:
  assumes "applyRemoteClk E self r ts tm = Inr tm'" and "pointers (downstreamQueue tm)"
  shows "queue_step (downstreamQueue tm) (downstreamQueue tm')"
proof -
  consider m where "tm' = enqueue r (Ptr m) tm" | c tm1 req asked where "gfold (ask_part E req) tm asked = Inr tm1"
      "check_pending E self c (tm1\<lparr>localClock := UpdatePos (localClock tm1) r ts\<rparr>) = Inr tm'"
    using assms(1) by (fastforce simp: applyRemoteClk_def gbind_eq_Inr dest!: update_local_frame split: if_splits)
  then show ?thesis
  proof cases
    case 2
    with ask_parts_frame [OF 2(1)] assms(2) have "downstreamQueue tm' = downstreamQueue tm"
      using check_pending_ptrs(2) [of "tm1\<lparr>localClock := UpdatePos (localClock tm1) r ts\<rparr>" E self c] by auto
    then show ?thesis by simp
  qed (simp add: enqueue_step)
qed

lemma tm_step_queue:
  assumes "tm_step E self tm ev = Inr tm'" and "pointers (downstreamQueue tm)"
  shows "queue_step (downstreamQueue tm) (downstreamQueue tm')"
proof (cases ev)
  case (RemoteMsg m)
  with assms applyRemoteTxn_queue applyRemoteTxnGroup_queue applyRemoteClk_queue show ?thesis by (cases m) fastforce+
next
  case (PartRequest i now rnd req)
  with assms(1) have "downstreamQueue tm' = downstreamQueue tm" by (auto simp: gbind_eq_Inr split: if_splits)
  then show ?thesis by simp
qed (use assms in auto)

lemma queue_step_ptrs:
  assumes "queue_step q q'" and "pointers q"
  shows "pointers q'" and "prefix (case map_of q r of None \<Rightarrow> [] | Some ms \<Rightarrow> ms) (case map_of q' r of None \<Rightarrow> [] | Some ms \<Rightarrow> ms)"
proof -
  have ms: "list_all is_ptr (case map_of q r of None \<Rightarrow> [] | Some ms \<Rightarrow> ms)" for r
    using assms(2) by (auto simp: pointers_def dest!: map_of_SomeD split: option.splits)
  have "list_all is_ptr (snd e)" if "e \<in> set (mput r (ms @ [Ptr m]) q)" "list_all is_ptr ms" for e r ms m
  proof -
    have "e = (r, ms @ [Ptr m]) \<or> e \<in> set q" using that(1) set_mput_subset [of r "ms @ [Ptr m]" q] by blast
    then show ?thesis using that(2) assms(2) by (auto simp: pointers_def is_ptr_def)
  qed
  with assms ms show "pointers q'" by (auto simp: queue_step_def pointers_def)
  show "prefix (case map_of q r of None \<Rightarrow> [] | Some ms \<Rightarrow> ms) (case map_of q' r of None \<Rightarrow> [] | Some ms \<Rightarrow> ms)"
    using assms(1) by (auto simp: queue_step_def map_of_mput)
qed

lemma tm_run_queue:
  assumes "gfold (tm_step E self) tm evs = Inr tm'" and "pointers (downstreamQueue tm)"
  shows "pointers (downstreamQueue tm') \<and> prefix (queue_of tm r) (queue_of tm' r)"
  using assms
proof (induction evs arbitrary: tm)
  case (Cons ev evs)
  then obtain tm1 where s: "tm_step E self tm ev = Inr tm1" "gfold (tm_step E self) tm1 evs = Inr tm'" by (auto simp: gbind_eq_Inr)
  note q = queue_step_ptrs [OF tm_step_queue [OF s(1) Cons.prems(2)] Cons.prems(2)]
  with Cons.IH [OF s(2)] show ?case using prefix_order.trans [OF q(2) [of r]] by (simp add: queue_of_def)
qed simp

text \<open>
  C25. A remote message that arrives before what it depends on is kept in the queue of its sender,
  as a pointer, and the type switch of \<open>checkPendingRemoteTxns\<close> only knows the structs. So
  whatever happens at the replica afterwards, in whatever order, the message stays in the queue
  and is never applied, looking through the queues changes nothing, and no clock of its sender
  is applied any more.
\<close>

theorem remote_hold_never_applied:
  assumes "pointers (downstreamQueue tm)" and "gfold (tm_step E self) tm evs = Inr tm'"
  shows "pointers (downstreamQueue tm') \<and> prefix (queue_of tm r) (queue_of tm' r)
    \<and> checkPendingRemoteTxns E self (Suc n) c tm' = Some (Inr tm')
    \<and> (queue_of tm r \<noteq> [] \<longrightarrow> handleRemoteMsg E self (RemoteClkReq r ts) tm' = Inr (enqueue r (Ptr (RemoteClkReq r ts)) tm'))"
proof -
  note q = tm_run_queue [OF assms(2,1), of r]
  then have "queue_of tm r \<noteq> [] \<Longrightarrow> queue_of tm' r \<noteq> []" by auto
  with q check_pending_ptrs(1) [of tm' E self n c] show ?thesis by (simp add: applyRemoteClk_def)
qed

text \<open>
  Replica 1 of three, with one partition. A transaction of replica 2 that has seen one of replica 3
  arrives first, then the one of replica 3, then a later one of replica 2 and its clock; at last
  the counter is read.
\<close>

definition three_replicas :: "(counter_vm, counter_world, counter_op, unit, int) mat_env" where
  "three_replicas = counter_env\<lparr>e_knownIDs := [1, 2, 3]\<rparr>"

definition start_tm :: "(counter_vm, counter_world, counter_op, int) tm_state" where
  "start_tm = \<lparr>tm_replicaIDs = [1, 2, 3], localClock = NewClockSiTimestamp [1, 2, 3], downstreamQueue = [],
     tm_parts = [start_partition three_replicas 1 0 no_objects], downstreamOpsCh = []\<rparr>"

definition an_increment :: "int \<Rightarrow> ClockSiTimestamp \<Rightarrow> int \<Rightarrow> (counter_op, unit) tm_event" where
  "an_increment sender clk n = RemoteMsg (RemoteTxnReq
     \<lparr>rx_SenderID = sender, rx_Clk = Some clk, rx_Upds = [(0, [(a_counter, Increment n)])], rx_TxnID = 0\<rparr>)"

definition early_txn :: "(counter_op, unit) tm_event list" where
  "early_txn = [an_increment 2 [(1, 0), (2, 5), (3, 5)] 1]"

definition later_txns :: "(counter_op, unit) tm_event list" where
  "later_txns = [an_increment 3 [(1, 0), (2, 0), (3, 5)] 10, an_increment 2 [(1, 0), (2, 6), (3, 5)] 100,
     RemoteMsg (RemoteClkReq 2 7), PartRequest 0 9 0 (MatStaticRead a_counter () [(1, 0), (2, 6), (3, 5)])]"

definition observed :: "(counter_vm, counter_world, counter_op, int) tm_state go \<Rightarrow> (ClockSiTimestamp \<times> nat \<times> int list) option" where
  "observed r = (case r of Inl e \<Rightarrow> None | Inr tm \<Rightarrow> Some (localClock tm, length (queue_of tm 2), replies (sent (tm_parts tm ! 0))))"

lemma early_run: "observed (gfold (tm_step three_replicas 1) start_tm early_txn) = Some ([(1, 0), (2, 0), (3, 0)], 1, [])"
  by code_simp

lemma later_run:
  "observed (gfold (tm_step three_replicas 1) start_tm (early_txn @ later_txns)) = Some ([(1, 0), (2, 6), (3, 5)], 2, [110])"
  by code_simp

lemma observed_eq:
  "observed r = Some (c, n, vs) \<longleftrightarrow> (\<exists>tm. r = Inr tm \<and> localClock tm = c \<and> length (queue_of tm 2) = n \<and> replies (sent (tm_parts tm ! 0)) = vs)"
  by (auto simp: observed_def split: sum.splits)

theorem remote_hold_never_applied_witness:
  "\<exists>tm tm'. gfold (tm_step three_replicas 1) start_tm early_txn = Inr tm \<and> gfold (tm_step three_replicas 1) tm later_txns = Inr tm'
     \<and> queue_of tm 2 \<noteq> [] \<and> prefix (queue_of tm 2) (queue_of tm' 2)"
proof -
  obtain tm where tm: "gfold (tm_step three_replicas 1) start_tm early_txn = Inr tm" "length (queue_of tm 2) = 1"
    using early_run by (auto simp: observed_eq)
  obtain tm' where tm': "gfold (tm_step three_replicas 1) tm later_txns = Inr tm'"
    using later_run by (auto simp: observed_eq gfold_append tm(1))
  have p: "pointers (downstreamQueue start_tm)" by (simp add: pointers_def start_tm_def wf_map_def)
  have "pointers (downstreamQueue tm)"
    using remote_hold_never_applied [OF p tm(1)] by blast
  with remote_hold_never_applied [OF this tm'] tm tm' show ?thesis by auto
qed

text \<open>
  The same state with other messages on hold. While the queues only hold pointers, no handler
  looks at more of a queue than whether it is empty.
\<close>

definition with_queue :: "(int \<times> 'u TMRemoteMsg list) list \<Rightarrow> ('vm, 'w, 'u, 'st) tm_state \<Rightarrow> ('vm, 'w, 'u, 'st) tm_state" where
  "with_queue q tm = tm\<lparr>downstreamQueue := q\<rparr>"

lemma with_queue_fields [simp]:
  "downstreamQueue (with_queue q tm) = q" "localClock (with_queue q tm) = localClock tm" "tm_parts (with_queue q tm) = tm_parts tm"
  "tm_replicaIDs (with_queue q tm) = tm_replicaIDs tm" "downstreamOpsCh (with_queue q tm) = downstreamOpsCh tm"
  by (simp_all add: with_queue_def)

lemma with_queue_update [simp]:
  "(with_queue q tm)\<lparr>tm_parts := ps\<rparr> = with_queue q (tm\<lparr>tm_parts := ps\<rparr>)"
  "(with_queue q tm)\<lparr>localClock := c\<rparr> = with_queue q (tm\<lparr>localClock := c\<rparr>)"
  "send_downs ds (with_queue q tm) = with_queue q (send_downs ds tm)"
  "new_downs (with_queue q tm) is = new_downs tm is"
  "with_queue q (with_queue q' tm) = with_queue q tm"
  by (simp_all add: with_queue_def send_downs_def new_downs_def)

lemma ask_part_queue: "ask_part E req (with_queue q tm) i = map_sum id (with_queue q) (ask_part E req tm i)"
  by (cases "handleRequest E 0 0 (tm_parts tm ! i) (req i)") (simp_all add: ask_part_def)

lemma ask_parts_queue: "gfold (ask_part E req) (with_queue q tm) is = map_sum id (with_queue q) (gfold (ask_part E req) tm is)"
proof (induction "is" arbitrary: tm)
  case (Cons i "is")
  then show ?case by (cases "ask_part E req tm i") (simp_all add: ask_part_queue)
qed simp

lemma update_local_queue: "update_local E r v (with_queue q tm) = map_sum id (map_prod id (with_queue q)) (update_local E r v tm)"
  by (auto simp: update_local_def Let_def gbind_def split: sum.split)

lemma process_queue:
  assumes "pointers q" and "pointers (downstreamQueue tm)"
  shows "processMatRemoteReply E self asked r clk (with_queue q tm) = map_sum id (with_queue q) (processMatRemoteReply E self asked r clk tm)"
proof (cases "update_local E r (GetPos clk r) tm")
  case (Inr x)
  obtain c tm1 where x: "x = (c, tm1)" by (cases x)
  have "downstreamQueue tm1 = downstreamQueue tm" using update_local_frame Inr x by fastforce
  then have "check_pending E self c (send_downs (new_downs tm1 asked) tm1) = Inr (send_downs (new_downs tm1 asked) tm1)"
    "check_pending E self c (with_queue q (send_downs (new_downs tm1 asked) tm1)) = Inr (with_queue q (send_downs (new_downs tm1 asked) tm1))"
    using assms by (simp_all add: check_pending_ptrs(2))
  then show ?thesis using Inr x by (simp add: processMatRemoteReply_def update_local_queue)
qed (simp add: processMatRemoteReply_def update_local_queue)

text \<open>
  Queues \<open>q\<close> and \<open>q'\<close> that the handlers do not tell apart, but for the clocks of replica \<open>r\<close>,
  which are put on hold with \<open>q\<close>.
\<close>

definition waits_for :: "int \<Rightarrow> (int \<times> 'u TMRemoteMsg list) list \<Rightarrow> (int \<times> 'u TMRemoteMsg list) list \<Rightarrow> bool" where
  "waits_for r q q' \<longleftrightarrow> pointers q \<and> pointers q'
     \<and> (case map_of q r of None \<Rightarrow> [] | Some ms \<Rightarrow> ms) \<noteq> []
     \<and> (\<forall>i. i \<noteq> r \<longrightarrow> (case map_of q i of None \<Rightarrow> [] | Some ms \<Rightarrow> ms) = (case map_of q' i of None \<Rightarrow> [] | Some ms \<Rightarrow> ms))"

abbreviation add_msg :: "int \<Rightarrow> 'u TMRemoteMsg \<Rightarrow> (int \<times> 'u TMRemoteMsg list) list \<Rightarrow> (int \<times> 'u TMRemoteMsg list) list" where
  "add_msg i m q \<equiv> mput i ((case map_of q i of None \<Rightarrow> [] | Some ms \<Rightarrow> ms) @ [m]) q"

lemma pointers_add: "pointers q \<Longrightarrow> pointers (add_msg i (Ptr m) q)"
  by (rule queue_step_ptrs(1) [of q]) (auto simp: queue_step_def)

lemma waits_for_add: "waits_for r q q' \<Longrightarrow> waits_for r (add_msg i (Ptr m) q) (add_msg i (Ptr m) q')"
  unfolding waits_for_def by (simp add: pointers_add map_of_mput)

lemma waits_for_add_left: "waits_for r q q' \<Longrightarrow> waits_for r (add_msg r (Ptr m) q) q'"
  unfolding waits_for_def by (simp add: pointers_add map_of_mput)

lemma waits_for_start: "pointers q \<Longrightarrow> waits_for r (add_msg r (Ptr m) q) q"
  unfolding waits_for_def by (simp add: pointers_add map_of_mput)

lemma enqueue_queue: "enqueue i m (with_queue q tm) = with_queue (add_msg i m q) (enqueue i m tm)"
  by (simp add: enqueue_def queue_of_def with_queue_def)

fun clk_from :: "int \<Rightarrow> ('u, 'r) tm_event \<Rightarrow> bool" where
  "clk_from r (RemoteMsg (RemoteClkReq i ts)) = (i = r)"
| "clk_from r ev = False"

text \<open>How a step of the state with \<open>q\<close> follows a step of the other one.\<close>

definition follows ::
    "int \<Rightarrow> (int \<times> 'u TMRemoteMsg list) list \<Rightarrow> ('vm, 'w, 'u, 'st) tm_state go \<Rightarrow> ('vm, 'w, 'u, 'st) tm_state go \<Rightarrow> bool" where
  "follows r q x y \<longleftrightarrow> (case y of Inl e \<Rightarrow> x = Inl e | Inr t \<Rightarrow> \<exists>q1. x = Inr (with_queue q1 t) \<and> waits_for r q1 (downstreamQueue t))"

lemma follows_same:
  assumes "x = map_sum id (with_queue q) y" and "\<And>t. y = Inr t \<Longrightarrow> waits_for r q (downstreamQueue t)"
  shows "follows r q x y"
  using assms by (auto simp: follows_def split: sum.split)

lemma follows_enqueue: "waits_for r q (downstreamQueue tm) \<Longrightarrow> follows r q (Inr (enqueue i (Ptr m) (with_queue q tm))) (Inr (enqueue i (Ptr m) tm))"
  unfolding enqueue_queue follows_def using waits_for_add by (fastforce simp: enqueue_def queue_of_def)

lemma ask_process_follows:
  fixes tm :: "('vm, 'w, 'u, 'st) tm_state"
  assumes "waits_for r q (downstreamQueue tm)"
  shows "follows r q
      (gbind (gfold (ask_part E req) (with_queue q tm) is) (\<lambda>tm1. processMatRemoteReply E self asked i clk tm1))
      (gbind (gfold (ask_part E req) tm is) (\<lambda>tm1. processMatRemoteReply E self asked i clk tm1))"
proof (cases "gfold (ask_part E req) tm is")
  case (Inr tm1)
  have d: "downstreamQueue tm1 = downstreamQueue tm" using ask_parts_frame [OF Inr] by simp
  have p: "pointers q" "pointers (downstreamQueue tm1)" using assms d by (simp_all add: waits_for_def)
  have "downstreamQueue t = downstreamQueue tm" if "processMatRemoteReply E self asked i clk tm1 = Inr t" for t
    using process_ptrs [OF that p(2)] d by simp
  then show ?thesis using assms Inr by (intro follows_same) (simp_all add: ask_parts_queue process_queue [OF p])
qed (simp add: follows_def ask_parts_queue)

lemma clk_follows:
  assumes "waits_for r q (downstreamQueue tm)" and "i \<noteq> r"
  shows "follows r q (applyRemoteClk E self i ts (with_queue q tm)) (applyRemoteClk E self i ts tm)"
proof (cases "queue_of tm i = []")
  case True
  then have e: "queue_of (with_queue q tm) i = []" using assms by (simp add: queue_of_def waits_for_def)
  show ?thesis
  proof (cases "gfold (ask_part E (\<lambda>i'. MatClkPosUpd i ts)) tm [0..<length (tm_parts tm)]")
    case (Inr tm1)
    have d: "downstreamQueue tm1 = downstreamQueue tm" using ask_parts_frame [OF Inr] by simp
    have p: "pointers q" "pointers (downstreamQueue tm1)" using assms d by (simp_all add: waits_for_def)
    show ?thesis
    proof (cases "update_local E i ts tm1")
      case u: (Inr x)
      obtain c tm2 where x: "x = (c, tm2)" by (cases x)
      have "downstreamQueue tm2 = downstreamQueue tm" using update_local_frame u x d by fastforce
      moreover from this p d have "check_pending E self c tm2 = Inr tm2" "check_pending E self c (with_queue q tm2) = Inr (with_queue q tm2)"
        by (simp_all add: check_pending_ptrs(2))
      ultimately show ?thesis using True e Inr u x assms(1)
        by (auto simp: applyRemoteClk_def ask_parts_queue update_local_queue follows_def)
    qed (use True e Inr in \<open>simp add: applyRemoteClk_def ask_parts_queue update_local_queue follows_def\<close>)
  qed (use True e in \<open>simp add: applyRemoteClk_def ask_parts_queue follows_def\<close>)
next
  case False
  then have "queue_of (with_queue q tm) i \<noteq> []" using assms by (simp add: queue_of_def waits_for_def)
  then show ?thesis using False follows_enqueue [OF assms(1)] by (simp add: applyRemoteClk_def)
qed

lemma step_follows:
  fixes tm :: "('a, 'b, 'c, 'd) tm_state"
  assumes "waits_for r q (downstreamQueue tm)" and "\<not> clk_from r ev"
  shows "follows r q (tm_step E self (with_queue q tm) ev) (tm_step E self tm ev)"
proof (cases ev)
  case (RemoteMsg m)
  show ?thesis
  proof (cases m)
    case (RemoteClkReq i ts)
    with RemoteMsg assms clk_follows show ?thesis by simp
  next
    case (RemoteTxnReq t)
    show ?thesis
    proof (cases "clk_of t")
      case (Inr clk)
      then show ?thesis
        by (simp add: RemoteMsg RemoteTxnReq applyRemoteTxn_def ask_process_follows [OF assms(1)] follows_enqueue [OF assms(1)])
    qed (simp add: RemoteMsg RemoteTxnReq applyRemoteTxn_def follows_def)
  next
    case (RemoteTxnGroupReq i txns)
    have e: "follows r q (Inl e) (Inl e :: ('a, 'b, 'c, 'd) tm_state go)" for e by (simp add: follows_def)
    show ?thesis
      by (cases "getMinClk txns"; cases "splitGroupByPartition (length (tm_parts tm)) txns"; cases "getMaxClk txns")
        (simp_all add: RemoteMsg RemoteTxnGroupReq applyRemoteTxnGroup_def ask_process_follows [OF assms(1)] follows_enqueue [OF assms(1)] e)
  qed
next
  case (PartRequest i now rnd req)
  then show ?thesis using assms(1)
    by (cases "handleRequest E now rnd (tm_parts tm ! i) req") (auto simp: follows_def)
next
  case (LocalCommit clk)
  then show ?thesis using assms(1) by (auto simp: follows_def)
qed

lemma clk_held:
  assumes "waits_for r q (downstreamQueue tm)"
  shows "tm_step E self (with_queue q tm) (RemoteMsg (RemoteClkReq r ts)) = Inr (with_queue (add_msg r (Ptr (RemoteClkReq r ts)) q) tm)"
proof -
  have "queue_of (with_queue q tm) r \<noteq> []" using assms by (simp add: queue_of_def waits_for_def)
  then show ?thesis by (simp add: applyRemoteClk_def enqueue_def queue_of_def with_queue_def)
qed

lemma run_follows:
  assumes "waits_for r q (downstreamQueue tm)" and "gfold (tm_step E self) (with_queue q tm) evs = Inr tm'"
  shows "\<exists>tm'' q'. gfold (tm_step E self) tm (filter (\<lambda>ev. \<not> clk_from r ev) evs) = Inr tm'' \<and> tm' = with_queue q' tm''"
  using assms
proof (induction evs arbitrary: q tm)
  case (Cons ev evs)
  show ?case
  proof (cases "clk_from r ev")
    case True
    then obtain ts where ev: "ev = RemoteMsg (RemoteClkReq r ts)" by (cases "(r, ev)" rule: clk_from.cases) auto
    from Cons.IH [OF waits_for_add_left [OF Cons.prems(1)]] Cons.prems(2) show ?thesis
      unfolding ev by (simp add: clk_held [OF Cons.prems(1)] del: tm_step.simps)
  next
    case False
    obtain x where x: "tm_step E self (with_queue q tm) ev = Inr x" "gfold (tm_step E self) x evs = Inr tm'"
      using Cons.prems(2) by (auto simp: gbind_eq_Inr)
    obtain t q1 where t: "tm_step E self tm ev = Inr t" "x = with_queue q1 t" "waits_for r q1 (downstreamQueue t)"
      using step_follows [OF Cons.prems(1) False, of E self] x(1) by (auto simp: follows_def split: sum.splits)
    from Cons.IH [OF t(3)] x(2) t(1,2) False show ?thesis by simp
  qed
qed auto

text \<open>
  C26. A transaction that arrives before what it depends on is lost. Whatever happens afterwards,
  its updates have no effect: partitions, local clock and operations sent on are as if the
  transaction, and the stable clocks of its sender that follow it, had never arrived. Later
  transactions of the same sender are applied all the same as soon as they can be, and they move
  the local clock to their own position, past that of the lost one.
\<close>

theorem remote_txn_lost:
  assumes "pointers (downstreamQueue tm)" and "rx_Clk t = Some clk"
    and "\<not> IsLowerOrEqualExceptFor clk (Some (localClock tm)) self (rx_SenderID t)"
    and "gfold (tm_step E self) tm (RemoteMsg (RemoteTxnReq t) # evs) = Inr tm'"
  shows "(\<exists>tm''. gfold (tm_step E self) tm (filter (\<lambda>ev. \<not> clk_from (rx_SenderID t) ev) evs) = Inr tm''
      \<and> tm_parts tm' = tm_parts tm'' \<and> localClock tm' = localClock tm'' \<and> downstreamOpsCh tm' = downstreamOpsCh tm'')
    \<and> Ptr (RemoteTxnReq t) \<in> set (queue_of tm' (rx_SenderID t))
    \<and> (rx_Clk t2 = Some clk2 \<and> rx_SenderID t2 = rx_SenderID t
        \<and> IsLowerOrEqualExceptFor clk2 (Some (localClock tm')) self (rx_SenderID t)
        \<and> handleRemoteMsg E self (RemoteTxnReq t2) tm' = Inr tm3 \<longrightarrow>
        GetPos clk2 (rx_SenderID t) \<le> GetPos (localClock tm3) (rx_SenderID t))"
proof -
  let ?r = "rx_SenderID t" and ?m = "Ptr (RemoteTxnReq t)"
  have first: "tm_step E self tm (RemoteMsg (RemoteTxnReq t)) = Inr (enqueue ?r ?m tm)"
    using assms(2,3) by (simp add: applyRemoteTxn_def clk_of_def)
  then have run: "gfold (tm_step E self) (enqueue ?r ?m tm) evs = Inr tm'" using assms(4) by simp
  have "enqueue ?r ?m tm = with_queue (add_msg ?r ?m (downstreamQueue tm)) tm" by (simp add: enqueue_def queue_of_def with_queue_def)
  then obtain tm'' q' where s: "gfold (tm_step E self) tm (filter (\<lambda>ev. \<not> clk_from ?r ev) evs) = Inr tm''" "tm' = with_queue q' tm''"
    using run_follows [OF waits_for_start [OF assms(1)]] run by metis
  have "pointers (downstreamQueue (enqueue ?r ?m tm))" using pointers_add [OF assms(1)] by (simp add: enqueue_def queue_of_def)
  from tm_run_queue [OF run this, of ?r] have q: "pointers (downstreamQueue tm')" "prefix (queue_of (enqueue ?r ?m tm) ?r) (queue_of tm' ?r)" by simp_all
  have "?m \<in> set (queue_of (enqueue ?r ?m tm) ?r)" by (simp add: enqueue_def queue_of_def map_of_mput)
  then have "?m \<in> set (queue_of tm' ?r)" using q(2) by (auto simp: prefix_def)
  moreover have "GetPos clk2 ?r \<le> GetPos (localClock tm3) ?r"
    if "rx_Clk t2 = Some clk2 \<and> rx_SenderID t2 = ?r \<and> IsLowerOrEqualExceptFor clk2 (Some (localClock tm')) self ?r
      \<and> handleRemoteMsg E self (RemoteTxnReq t2) tm' = Inr tm3"
  proof -
    have "clk_of t2 = Inr clk2" and "rx_SenderID t2 = ?r" and "IsLowerOrEqualExceptFor clk2 (Some (localClock tm')) self ?r"
      and "applyRemoteTxn E self t2 tm' = Inr tm3" using that by (simp_all add: clk_of_def)
    then obtain req asked tm1 where a: "gfold (ask_part E req) tm' asked = Inr tm1" "processMatRemoteReply E self asked ?r clk2 tm1 = Inr tm3"
      by (auto simp: applyRemoteTxn_def gbind_eq_Inr)
    have "pointers (downstreamQueue tm1)" using ask_parts_frame [OF a(1)] q(1) by simp
    from process_ptrs [OF a(2) this] show ?thesis by (simp add: UpdatePos_def GetPos_def vget_mput)
  qed
  ultimately show ?thesis using s by auto
qed

theorem remote_txn_lost_witness:
  "\<exists>tm tm''. gfold (tm_step three_replicas 1) start_tm (early_txn @ later_txns) = Inr tm
     \<and> gfold (tm_step three_replicas 1) start_tm (filter (\<lambda>ev. \<not> clk_from 2 ev) later_txns) = Inr tm''
     \<and> tm_parts tm = tm_parts tm'' \<and> localClock tm = localClock tm''
     \<and> IsLowerOrEqual [(1, 0), (2, 5), (3, 5)] (Some (localClock tm)) \<and> replies (sent (tm_parts tm ! 0)) = [110]"
proof -
  let ?t = "\<lparr>rx_SenderID = 2, rx_Clk = Some [(1, 0), (2, 5), (3, 5)], rx_Upds = [(0, [(a_counter, Increment 1)])], rx_TxnID = 0\<rparr>"
  obtain tm where tm: "gfold (tm_step three_replicas 1) start_tm (early_txn @ later_txns) = Inr tm"
    "localClock tm = [(1, 0), (2, 6), (3, 5)]" "replies (sent (tm_parts tm ! 0)) = [110]"
    using later_run by (auto simp: observed_eq)
  have p: "pointers (downstreamQueue start_tm)" by (simp add: pointers_def start_tm_def wf_map_def)
  have w: "\<not> IsLowerOrEqualExceptFor [(1, 0), (2, 5), (3, 5)] (Some (localClock start_tm)) 1 (rx_SenderID ?t)"
    by (simp add: start_tm_def NewClockSiTimestamp_def IsLowerOrEqualExceptFor_def vget_def)
  have run: "gfold (tm_step three_replicas 1) start_tm (RemoteMsg (RemoteTxnReq ?t) # later_txns) = Inr tm"
    using tm(1) by (simp add: early_txn_def an_increment_def)
  have "IsLowerOrEqual [(1, 0), (2, 5), (3, 5)] (Some (localClock tm))" by (simp add: tm(2) IsLowerOrEqual_def vget_def)
  with remote_txn_lost [OF p _ w run, THEN conjunct1] tm show ?thesis by auto
qed

section \<open>Looking through the queues ends\<close>

lemma pending_msg_hide:
  assumes "pending_msg self r (c, reqs, f, h) m = Inr (c', reqs', f', h')"
  shows "(h' = h \<and> f' = f) \<or> (h' = Suc h \<and> f')"
  using assms by (cases "(self, r, (c, reqs, f, h), m)" rule: pending_msg.cases) (auto simp: gbind_eq_Inr split: if_splits)

lemma pending_msgs_hide:
  "gfold (pending_msg self r) (c, reqs, f, h) ms = Inr (c', reqs', f', h') \<Longrightarrow> h \<le> h' \<and> h' \<le> h + length ms \<and> (f' \<longrightarrow> f \<or> h < h')"
proof (induction ms arbitrary: c reqs f h)
  case (Cons m ms)
  then obtain c1 reqs1 f1 h1 where "pending_msg self r (c, reqs, f, h) m = Inr (c1, reqs1, f1, h1)"
    "gfold (pending_msg self r) (c1, reqs1, f1, h1) ms = Inr (c', reqs', f', h')" by (auto simp: gbind_eq_Inr)
  with pending_msg_hide [OF this(1)] Cons.IH [OF this(2)] show ?case by auto
qed simp

lemma queued_mput:
  "wf_map q \<Longrightarrow> (r, ms) \<in> set q \<Longrightarrow> queued (mput r ms' q) + length ms = queued q + length ms'"
proof (induction q)
  case (Cons e q)
  show ?case
  proof (cases "fst e = r")
    case True
    then have "(r, ms) \<notin> set q" using Cons.prems(1) by (auto simp: wf_map_def rev_image_eqI)
    with Cons.prems(2) have "snd e = ms" by auto
    with True show ?thesis by (cases e) (simp add: queued_def)
  next
    case False
    with Cons show ?thesis by (cases e) (auto simp: queued_def wf_map_def)
  qed
qed simp

lemma pending_round:
  assumes "gfold (pending_replica self) (c, reqs, f, q) es = Inr (c', reqs', f', q')"
    and "wf_map q" and "set es \<subseteq> set q" and "wf_map es"
  shows "wf_map q' \<and> queued q' \<le> queued q \<and> (f' \<longrightarrow> f \<or> queued q' < queued q)"
  using assms
proof (induction es arbitrary: c reqs f q)
  case (Cons e es)
  obtain r ms where e: "e = (r, ms)" by (cases e)
  from Cons.prems(1) obtain s1 where s1: "pending_replica self (c, reqs, f, q) (r, ms) = Inr s1"
    "gfold (pending_replica self) s1 es = Inr (c', reqs', f', q')" by (auto simp: gbind_eq_Inr e)
  then obtain c1 reqs1 f1 h where g: "gfold (pending_msg self r) (c, reqs, f, 0) ms = Inr (c1, reqs1, f1, h)"
    "gfold (pending_replica self) (c1, reqs1, f1, mput r (drop h ms) q) es = Inr (c', reqs', f', q')"
    by (auto simp: gbind_eq_Inr pending_replica_def)
  have h: "h \<le> length ms" "f1 \<longrightarrow> f \<or> 0 < h" using pending_msgs_hide [OF g(1)] by auto
  have q: "queued (mput r (drop h ms) q) + h = queued q"
    using queued_mput [OF Cons.prems(2), of r ms "drop h ms"] Cons.prems(3) h(1) by (simp add: e)
  have "set es \<subseteq> set (mput r (drop h ms) q)"
  proof
    fix x assume x: "x \<in> set es"
    then have "fst x \<noteq> r" using Cons.prems(4) by (force simp: e wf_map_def)
    moreover have "x \<in> set q" using x Cons.prems(3) by auto
    ultimately show "x \<in> set (mput r (drop h ms) q)" by (cases x) (metis fst_conv map_of_SomeD map_of_eq_Some_iff map_of_mput fun_upd_other Cons.prems(2) wf_map_def)
  qed
  moreover have "wf_map es" using Cons.prems(4) by (simp add: wf_map_def)
  ultimately have "wf_map q' \<and> queued q' \<le> queued (mput r (drop h ms) q)
      \<and> (f' \<longrightarrow> f1 \<or> queued q' < queued (mput r (drop h ms) q))" by (rule Cons.IH [OF g(2) wf_map_mput [OF Cons.prems(2)]])
  with q h(2) show ?case by auto
qed simp

lemma pending_loop_ends:
  "wf_map q \<Longrightarrow> queued q < fuel \<Longrightarrow> pending_loop fuel self c reqs b q \<noteq> None"
proof (induction fuel arbitrary: c reqs b q)
  case (Suc fuel)
  show ?case
  proof (cases "gfold (pending_replica self) (c, reqs, False, q) q")
    case (Inr x)
    obtain c' reqs' f' q' where x: "x = (c', reqs', f', q')" by (cases x)
    note r = pending_round [OF Inr [unfolded x] Suc.prems(1) subset_refl Suc.prems(1)]
    show ?thesis
    proof (cases f')
      case True
      with r Suc.prems(2) have "queued q' < fuel" by auto
      with r Suc.IH [of q' c' reqs' True] Inr x True show ?thesis by simp
    qed (use Inr x in simp)
  qed simp
qed simp

text \<open>
  Whatever is in the queues, structs as well, the search of \<open>checkPendingRemoteTxns\<close> for
  messages that can be applied ends after at most one more round than there are messages on hold:
  every round but the last takes a message out of a queue.
\<close>

theorem checkPendingRemoteTxns_terminates:
  assumes "wf_map (downstreamQueue tm)" and "queued (downstreamQueue tm) < fuel"
  shows "\<exists>r. checkPendingRemoteTxns E self fuel c tm = Some r
    \<and> (fuel = Suc (queued (downstreamQueue tm)) \<longrightarrow> check_pending E self c tm = r)"
proof -
  obtain x where x: "pending_loop fuel self c (replicate (length (tm_parts tm)) []) False (downstreamQueue tm) = Some x"
    using pending_loop_ends [OF assms] by blast
  then show ?thesis by (auto simp: checkPendingRemoteTxns_def check_pending_def)
qed

text \<open>A clock that was put into a queue as a struct is applied in the first of two rounds.\<close>

theorem checkPendingRemoteTxns_terminates_witness:
  "\<exists>r. checkPendingRemoteTxns three_replicas 1 2 [(1, 0), (2, 0), (3, 0)] (enqueue 2 (Val (RemoteClkReq 2 7)) start_tm) = Some r
     \<and> map_sum id (\<lambda>tm. (localClock tm, queue_of tm 2)) r = Inr ([(1, 0), (2, 7), (3, 0)], [])"
proof -
  let ?r = "checkPendingRemoteTxns three_replicas 1 2 [(1, 0), (2, 0), (3, 0)] (enqueue 2 (Val (RemoteClkReq 2 7)) start_tm)"
  have "map_option (map_sum id (\<lambda>tm. (localClock tm, queue_of tm 2))) ?r = Some (Inr ([(1, 0), (2, 7), (3, 0)], []))" by code_simp
  moreover have "wf_map (downstreamQueue (enqueue 2 (Val (RemoteClkReq 2 7)) start_tm))"
    "queued (downstreamQueue (enqueue 2 (Val (RemoteClkReq 2 7)) start_tm)) < 2"
    by (simp_all add: enqueue_def start_tm_def wf_map_def queued_def queue_of_def)
  ultimately show ?thesis
    using checkPendingRemoteTxns_terminates [of "enqueue 2 (Val (RemoteClkReq 2 7)) start_tm" 2 three_replicas 1 "[(1, 0), (2, 0), (3, 0)]"] by auto
qed

section \<open>Messages that arrive in causal order\<close>

definition txns_for :: "nat \<Rightarrow> 'u UpdateObjectParams RemoteTxn list \<Rightarrow> 'u MatRemoteTxn list" where
  "txns_for i txns = map (\<lambda>t. makeMatRemoteTxn (rx_SenderID (hd txns)) (txn_clk t) (part_upds t i))
     (filter (\<lambda>t. i \<in> fst ` set (rx_Upds t)) txns)"

definition txn_ok :: "nat \<Rightarrow> 'u RemoteTxn \<Rightarrow> bool" where
  "txn_ok n t \<longleftrightarrow> rx_Clk t \<noteq> None \<and> wf_map (txn_clk t) \<and> wf_map (rx_Upds t) \<and> (\<forall>i \<in> fst ` set (rx_Upds t). i < n)"

lemma clk_of_ok: "rx_Clk t \<noteq> None \<Longrightarrow> clk_of t = Inr (txn_clk t)"
  by (auto simp: clk_of_def)

text \<open>A loop that appends at most one element to each of some lists.\<close>

lemma gfold_append_at:
  assumes "wf_map m" and "\<forall>i \<in> fst ` set m. i < length split \<and> length (split ! i) < N"
  shows "gfold (\<lambda>split (i, u). if i < length split \<and> length (split ! i) < N then Inr (split[i := split ! i @ [f u]]) else Inl IndexOutOfRange) split m
    = Inr (map (\<lambda>i. split ! i @ (case map_of m i of None \<Rightarrow> [] | Some u \<Rightarrow> [f u])) [0..<length split])"
  using assms
proof (induction m arbitrary: split)
  case Nil
  then show ?case by (simp add: map_nth)
next
  case (Cons e m)
  obtain i u where e: "e = (i, u)" by (cases e)
  let ?s = "split[i := split ! i @ [f u]]"
  have i: "i < length split" "length (split ! i) < N" "i \<notin> fst ` set m" "wf_map m" using Cons.prems by (auto simp: e wf_map_def)
  have "?s ! j = split ! j" if "j \<in> fst ` set m" for j using i(3) that by (metis nth_list_update_neq)
  then have "\<forall>j \<in> fst ` set m. j < length ?s \<and> length (?s ! j) < N" using Cons.prems(2) by simp
  from Cons.IH [OF i(4) this] i(1,2)
  have "gfold (\<lambda>split (i, u). if i < length split \<and> length (split ! i) < N then Inr (split[i := split ! i @ [f u]]) else Inl IndexOutOfRange) split (e # m)
    = Inr (map (\<lambda>j. ?s ! j @ (case map_of m j of None \<Rightarrow> [] | Some u \<Rightarrow> [f u])) [0..<length split])"
    by (simp add: e)
  moreover have "?s ! j @ (case map_of m j of None \<Rightarrow> [] | Some u \<Rightarrow> [f u]) = split ! j @ (case map_of (e # m) j of None \<Rightarrow> [] | Some u \<Rightarrow> [f u])"
    if "j < length split" for j
    using i(1,3) that by (cases "j = i") (auto simp: e map_of_eq_None_iff [THEN iffD2])
  ultimately show ?case by simp
qed

lemma split_txn_ok:
  assumes "txn_ok (length split) t" and "\<forall>x \<in> set split. length x < N"
  shows "split_txn N r split t = Inr (map (\<lambda>i. split ! i @ (if i \<in> fst ` set (rx_Upds t)
    then [makeMatRemoteTxn r (txn_clk t) (part_upds t i)] else [])) [0..<length split])"
proof -
  have t: "rx_Clk t \<noteq> None" "wf_map (rx_Upds t)" "\<forall>i \<in> fst ` set (rx_Upds t). i < length split \<and> length (split ! i) < N"
    using assms by (auto simp: txn_ok_def)
  have "(case map_of (rx_Upds t) i of None \<Rightarrow> [] | Some u \<Rightarrow> [makeMatRemoteTxn r (txn_clk t) u])
     = (if i \<in> fst ` set (rx_Upds t) then [makeMatRemoteTxn r (txn_clk t) (part_upds t i)] else [])" for i
    by (auto simp: part_upds_def map_of_eq_None_iff split: option.splits dest: map_of_SomeD)
  with gfold_append_at [OF t(2,3), of "makeMatRemoteTxn r (txn_clk t)"] show ?thesis
    by (simp add: split_txn_def clk_of_ok [OF t(1)] cong: if_cong)
qed

lemma split_txns_ok:
  assumes "\<forall>t \<in> set txns. txn_ok (length split) t" and "\<forall>x \<in> set split. length x + length txns \<le> N"
  shows "gfold (split_txn N r) split txns = Inr (map (\<lambda>i. split ! i @ map (\<lambda>t. makeMatRemoteTxn r (txn_clk t) (part_upds t i))
    (filter (\<lambda>t. i \<in> fst ` set (rx_Upds t)) txns)) [0..<length split])"
  using assms
proof (induction txns arbitrary: split)
  case Nil
  then show ?case by (simp add: map_nth)
next
  case (Cons t txns)
  let ?s = "map (\<lambda>i. split ! i @ (if i \<in> fst ` set (rx_Upds t) then [makeMatRemoteTxn r (txn_clk t) (part_upds t i)] else [])) [0..<length split]"
  have l: "\<forall>x \<in> set split. length x < N" "txn_ok (length split) t" using Cons.prems by force+
  have "\<forall>i < length split. Suc (length (split ! i) + length txns) \<le> N" using Cons.prems(2) nth_mem by fastforce
  then have "\<forall>x \<in> set ?s. length x + length txns \<le> N" by (auto intro: Suc_leD)
  from Cons.IH [OF _ this] Cons.prems(1) show ?case by (simp add: split_txn_ok [OF l(2,1)])
qed

lemma splitGroup_ok:
  assumes "txns \<noteq> []" and "\<forall>t \<in> set txns. txn_ok n t"
  shows "splitGroupByPartition n txns = Inr (map (\<lambda>i. txns_for i txns) [0..<n])"
  using assms split_txns_ok [of txns "replicate n []" "length txns" "rx_SenderID (hd txns)"]
  by (cases txns) (simp_all add: splitGroupByPartition_def txns_for_def)

lemma ask_parts_ok:
  assumes "distinct is" and "\<forall>i \<in> set is. i < length (tm_parts tm)"
    and "\<forall>i \<in> set is. handleRequest E 0 0 (tm_parts tm ! i) (req i) = Inr (q i)"
  shows "gfold (ask_part E req) tm is = Inr (tm\<lparr>tm_parts := map (\<lambda>i. if i \<in> set is then q i else tm_parts tm ! i) [0..<length (tm_parts tm)]\<rparr>)"
  using assms
proof (induction "is" arbitrary: tm)
  case Nil
  then show ?case by (simp add: map_nth)
next
  case (Cons i "is")
  let ?t = "tm\<lparr>tm_parts := (tm_parts tm)[i := q i]\<rparr>"
  have "ask_part E req tm i = Inr ?t" using Cons.prems by (simp add: ask_part_def)
  moreover have "gfold (ask_part E req) ?t is = Inr (?t\<lparr>tm_parts := map (\<lambda>j. if j \<in> set is then q j else tm_parts ?t ! j) [0..<length (tm_parts ?t)]\<rparr>)"
    by (rule Cons.IH) (use Cons.prems in \<open>auto simp: nth_list_update\<close>)
  moreover have "(if j \<in> set is then q j else (tm_parts tm)[i := q i] ! j) = (if j \<in> set (i # is) then q j else tm_parts tm ! j)"
    if "j < length (tm_parts tm)" for j using that Cons.prems(2) by (auto simp: nth_list_update)
  ultimately show ?case by simp
qed

text \<open>What an event asks of partition \<open>i\<close>, what it does to the local clock, and what has to hold for it to be applied at once.\<close>

fun part_reqs :: "nat \<Rightarrow> ('u, 'r) tm_event \<Rightarrow> (int \<times> TransactionId \<times> ('u, 'r) MatRequestArgs) list" where
  "part_reqs i (RemoteMsg (RemoteClkReq r ts)) = [(0, 0, MatClkPosUpd r ts)]"
| "part_reqs i (RemoteMsg (RemoteTxnReq t)) = (if i \<in> fst ` set (rx_Upds t)
     then [(0, 0, MatRemoteTxnReq (makeMatRemoteTxn (rx_SenderID t) (txn_clk t) (part_upds t i)))] else [])"
| "part_reqs i (RemoteMsg (RemoteTxnGroupReq sender txns)) = [(0, 0, MatRemoteGroupTxn (txns_for i txns) (txn_clk (last txns)))]"
| "part_reqs i (PartRequest j now rnd req) = (if i = j then [(now, rnd, req)] else [])"
| "part_reqs i (LocalCommit clk) = []"

fun event_clock :: "ClockSiTimestamp \<Rightarrow> ('u, 'r) tm_event \<Rightarrow> ClockSiTimestamp" where
  "event_clock lc (RemoteMsg (RemoteClkReq r ts)) = UpdatePos lc r ts"
| "event_clock lc (RemoteMsg (RemoteTxnReq t)) = UpdatePos lc (rx_SenderID t) (GetPos (txn_clk t) (rx_SenderID t))"
| "event_clock lc (RemoteMsg (RemoteTxnGroupReq sender txns)) = UpdatePos lc sender (GetPos (txn_clk (last txns)) sender)"
| "event_clock lc (PartRequest j now rnd req) = lc"
| "event_clock lc (LocalCommit clk) = MergeInto lc (Some clk)"

fun deliverable :: "int \<Rightarrow> ClockSiTimestamp \<Rightarrow> ('u, 'r) tm_event \<Rightarrow> bool" where
  "deliverable self lc (RemoteMsg (RemoteTxnReq t)) = IsLowerOrEqualExceptFor (txn_clk t) (Some lc) self (rx_SenderID t)"
| "deliverable self lc (RemoteMsg (RemoteTxnGroupReq sender txns)) = IsLowerOrEqualExceptFor (txn_clk (hd txns)) (Some lc) self sender"
| "deliverable self lc ev = True"

fun event_ok :: "nat \<Rightarrow> ('u, 'r) tm_event \<Rightarrow> bool" where
  "event_ok n (RemoteMsg (RemoteTxnReq t)) = txn_ok n t"
| "event_ok n (RemoteMsg (RemoteTxnGroupReq sender txns)) = (txns \<noteq> [] \<and> (\<forall>t \<in> set txns. txn_ok n t
     \<and> vget (txn_clk t) sender \<le> vget (txn_clk (last txns)) sender))"
| "event_ok n (PartRequest j now rnd req) = (j < n)"
| "event_ok n ev = True"

primrec causal_run :: "int \<Rightarrow> ClockSiTimestamp \<Rightarrow> ('u, 'r) tm_event list \<Rightarrow> bool" where
  "causal_run self lc [] = True"
| "causal_run self lc (ev # evs) = (deliverable self lc ev \<and> causal_run self (event_clock lc ev) evs)"

text \<open>What a state has in common with the one before when nothing is on hold.\<close>

definition advanced ::
    "('vm, 'w, 'u, 'st) tm_state \<Rightarrow> ('vm, 'w, 'u, 'st) partition list \<Rightarrow> ClockSiTimestamp \<Rightarrow> ('vm, 'w, 'u, 'st) tm_state \<Rightarrow> bool" where
  "advanced tm ps lc tm' \<longleftrightarrow> tm_parts tm' = ps \<and> localClock tm' = lc \<and> downstreamQueue tm' = [] \<and> tm_replicaIDs tm' = tm_replicaIDs tm"

lemma process_ok:
  assumes "downstreamQueue tm = []" and "length (e_knownIDs E) \<le> length (tm_replicaIDs tm)"
  shows "\<exists>tm'. processMatRemoteReply E self asked r clk tm = Inr tm'
    \<and> advanced tm (tm_parts tm) (UpdatePos (localClock tm) r (GetPos clk r)) tm'"
proof -
  obtain c where c: "update_local E r (GetPos clk r) tm = Inr (c, tm\<lparr>localClock := UpdatePos (localClock tm) r (GetPos clk r)\<rparr>)"
    using update_local_ok [OF assms(2)] by blast
  show ?thesis using check_pending_ptrs(2) [of "send_downs ds (tm\<lparr>localClock := lc\<rparr>)" E self c for ds lc]
    by (simp add: processMatRemoteReply_def c advanced_def assms(1) pointers_def wf_map_def)
qed

lemma mat_run_single: "mat_run E p [(now, rnd, req)] = handleRequest E now rnd p req"
  by simp

lemma map_upt_eq: "length ps = n \<Longrightarrow> (\<And>i. i < n \<Longrightarrow> f i = ps ! i) \<Longrightarrow> map f [0..<n] = ps"
  by (simp add: list_eq_iff_nth_eq)

lemma ask_run:
  assumes "distinct is" and "\<forall>i \<in> set is. i < length (tm_parts tm)" and "length ps = length (tm_parts tm)"
    and "\<And>i. i < length (tm_parts tm) \<Longrightarrow> mat_run E (tm_parts tm ! i) (if i \<in> set is then [(0, 0, req i)] else []) = Inr (ps ! i)"
  shows "gfold (ask_part E req) tm is = Inr (tm\<lparr>tm_parts := ps\<rparr>)"
proof -
  have "\<forall>i \<in> set is. handleRequest E 0 0 (tm_parts tm ! i) (req i) = Inr (ps ! i)" using assms(2,4) by (force simp: mat_run_single)
  from ask_parts_ok [OF assms(1,2) this] have "gfold (ask_part E req) tm is
    = Inr (tm\<lparr>tm_parts := map (\<lambda>i. if i \<in> set is then ps ! i else tm_parts tm ! i) [0..<length (tm_parts tm)]\<rparr>)" .
  moreover have "map (\<lambda>i. if i \<in> set is then ps ! i else tm_parts tm ! i) [0..<length (tm_parts tm)] = ps"
    using assms(4) by (intro map_upt_eq assms(3)) (force split: if_splits)
  ultimately show ?thesis by simp
qed

lemma remote_step:
  assumes q: "downstreamQueue tm = []" "length (e_knownIDs E) \<le> length (tm_replicaIDs tm)" "length ps = length (tm_parts tm)"
    and ok: "event_ok (length (tm_parts tm)) (RemoteMsg m :: ('u, 'r) tm_event)" "deliverable self (localClock tm) (RemoteMsg m :: ('u, 'r) tm_event)"
    and runs: "\<And>i. i < length (tm_parts tm) \<Longrightarrow> mat_run E (tm_parts tm ! i) (part_reqs i (RemoteMsg m)) = Inr (ps ! i)"
  shows "\<exists>tm'. handleRemoteMsg (E :: ('vm, 'w, 'u, 'r, 'st) mat_env) self m tm = Inr tm'
    \<and> advanced tm ps (event_clock (localClock tm) (RemoteMsg m :: ('u, 'r) tm_event)) tm'"
proof (cases m)
  case (RemoteClkReq r ts)
  have g: "gfold (ask_part E (\<lambda>i. MatClkPosUpd r ts)) tm [0..<length (tm_parts tm)] = Inr (tm\<lparr>tm_parts := ps\<rparr>)"
    by (rule ask_run) (use q(3) runs in \<open>auto simp: RemoteClkReq\<close>)
  obtain c where "update_local E r ts (tm\<lparr>tm_parts := ps\<rparr>) = Inr (c, tm\<lparr>tm_parts := ps, localClock := UpdatePos (localClock tm) r ts\<rparr>)"
    using update_local_ok [of E "tm\<lparr>tm_parts := ps\<rparr>" r ts] q(2) by auto
  with check_pending_ptrs(2) [of "tm\<lparr>tm_parts := ps, localClock := UpdatePos (localClock tm) r ts\<rparr>" E self c] g q(1)
  show ?thesis by (simp add: RemoteClkReq applyRemoteClk_def queue_of_def advanced_def pointers_def wf_map_def)
next
  case (RemoteTxnReq t)
  then have t: "txn_ok (length (tm_parts tm)) t" using ok(1) by simp
  let ?clk = "txn_clk t" and ?req = "\<lambda>i. MatRemoteTxnReq (makeMatRemoteTxn (rx_SenderID t) (txn_clk t) (part_upds t i))"
  have g: "gfold (ask_part E ?req) tm (map fst (rx_Upds t)) = Inr (tm\<lparr>tm_parts := ps\<rparr>)"
    by (rule ask_run) (use q(3) runs t in \<open>auto simp: RemoteTxnReq txn_ok_def wf_map_def\<close>)
  have "clk_of t = Inr ?clk" using t by (intro clk_of_ok) (simp add: txn_ok_def)
  with g ok(2) process_ok [of "tm\<lparr>tm_parts := ps\<rparr>" E self "map fst (rx_Upds t)" "rx_SenderID t" ?clk] q
  show ?thesis by (simp add: RemoteTxnReq applyRemoteTxn_def advanced_def)
next
  case (RemoteTxnGroupReq r txns)
  then have t: "txns \<noteq> []" "\<forall>t \<in> set txns. txn_ok (length (tm_parts tm)) t" using ok(1) by simp_all
  let ?clk = "txn_clk (last txns)" and ?req = "\<lambda>i. MatRemoteGroupTxn (map (\<lambda>i. txns_for i txns) [0..<length (tm_parts tm)] ! i) (txn_clk (last txns))"
  have g: "gfold (ask_part E ?req) tm [0..<length (tm_parts tm)] = Inr (tm\<lparr>tm_parts := ps\<rparr>)"
    by (rule ask_run) (use q(3) runs in \<open>auto simp: RemoteTxnGroupReq\<close>)
  have "rx_Clk (hd txns) \<noteq> None" "rx_Clk (last txns) \<noteq> None" using t by (simp_all add: txn_ok_def)
  then have c: "getMinClk txns = Inr (txn_clk (hd txns))" "getMaxClk txns = Inr ?clk"
    using t(1) by (simp_all add: getMinClk_def getMaxClk_def clk_of_ok)
  with g ok(2) splitGroup_ok [OF t] process_ok [of "tm\<lparr>tm_parts := ps\<rparr>" E self "[0..<length (tm_parts tm)]" r ?clk] q
  show ?thesis by (simp add: RemoteTxnGroupReq applyRemoteTxnGroup_def advanced_def)
qed

lemma causal_step:
  assumes "downstreamQueue tm = []" and "length (e_knownIDs E) \<le> length (tm_replicaIDs tm)" and "length ps = length (tm_parts tm)"
    and "event_ok (length (tm_parts tm)) ev" and "deliverable self (localClock tm) ev"
    and "\<And>i. i < length (tm_parts tm) \<Longrightarrow> mat_run E (tm_parts tm ! i) (part_reqs i ev) = Inr (ps ! i)"
  shows "\<exists>tm'. tm_step E self tm ev = Inr tm' \<and> advanced tm ps (event_clock (localClock tm) ev) tm'"
proof (cases ev)
  case (RemoteMsg m)
  with remote_step [of tm E ps m self] assms show ?thesis by simp
next
  case (PartRequest j now rnd req)
  have j: "j < length (tm_parts tm)" "handleRequest E now rnd (tm_parts tm ! j) req = Inr (ps ! j)"
    using assms(4) assms(6) [of j] by (simp_all add: PartRequest mat_run_single)
  moreover have "(tm_parts tm)[j := ps ! j] = ps"
  proof (rule nth_equalityI)
    fix i assume i: "i < length ((tm_parts tm)[j := ps ! j])"
    then show "(tm_parts tm)[j := ps ! j] ! i = ps ! i" using assms(6) [of i] by (cases "i = j") (simp_all add: PartRequest)
  qed (simp add: assms(3))
  ultimately show ?thesis using assms(1) by (simp add: PartRequest advanced_def)
next
  case (LocalCommit clk)
  have "tm_parts tm = ps" using assms(3) assms(6) by (intro nth_equalityI) (auto simp: LocalCommit)
  then show ?thesis using assms(1) by (simp add: LocalCommit advanced_def)
qed

lemma causal_run_ok:
  assumes "downstreamQueue tm = []" and "length (e_knownIDs E) \<le> length (tm_replicaIDs tm)" and "length ps = length (tm_parts tm)"
    and "\<forall>ev \<in> set evs. event_ok (length (tm_parts tm)) ev" and "causal_run self (localClock tm) evs"
    and "\<And>i. i < length (tm_parts tm) \<Longrightarrow> mat_run E (tm_parts tm ! i) (concat (map (part_reqs i) evs)) = Inr (ps ! i)"
  shows "\<exists>tm'. gfold (tm_step E self) tm evs = Inr tm' \<and> advanced tm ps (foldl event_clock (localClock tm) evs) tm'"
  using assms
proof (induction evs arbitrary: tm)
  case Nil
  then have "tm_parts tm = ps" by (intro nth_equalityI) auto
  with Nil show ?case by (simp add: advanced_def)
next
  case (Cons ev evs)
  have "\<forall>i < length (tm_parts tm). \<exists>p. mat_run E (tm_parts tm ! i) (part_reqs i ev) = Inr p
      \<and> mat_run E p (concat (map (part_reqs i) evs)) = Inr (ps ! i)"
    using Cons.prems(6) by (force simp: mat_run_append gbind_eq_Inr)
  then obtain q where q: "\<And>i. i < length (tm_parts tm) \<Longrightarrow> mat_run E (tm_parts tm ! i) (part_reqs i ev) = Inr (q i)
      \<and> mat_run E (q i) (concat (map (part_reqs i) evs)) = Inr (ps ! i)" by metis
  let ?qs = "map q [0..<length (tm_parts tm)]"
  obtain tm1 where tm1: "tm_step E self tm ev = Inr tm1" "advanced tm ?qs (event_clock (localClock tm) ev) tm1"
    using causal_step [of tm E ?qs ev self] Cons.prems q by auto
  then have a: "tm_parts tm1 = ?qs" "localClock tm1 = event_clock (localClock tm) ev" "downstreamQueue tm1 = []"
    "tm_replicaIDs tm1 = tm_replicaIDs tm" by (simp_all add: advanced_def)
  have "\<exists>tm'. gfold (tm_step E self) tm1 evs = Inr tm' \<and> advanced tm1 ps (foldl event_clock (localClock tm1) evs) tm'"
    by (rule Cons.IH) (use a q Cons.prems in auto)
  then show ?case using tm1(1) a by (auto simp: advanced_def)
qed

text \<open>The local clock only grows, so it goes on covering what was applied.\<close>

lemma vget_UpdatePos: "vget (UpdatePos c r v) i = (if i = r then max (vget c i) v else vget c i)"
  by (simp add: UpdatePos_def vget_mput)

lemma event_clock_grows: "vget lc i \<le> vget (event_clock lc ev) i"
  by (cases "(lc, ev)" rule: event_clock.cases) (simp_all add: vget_UpdatePos MergeInto_def vget_MergeInto_ge)

lemma events_clock_grows: "vget lc i \<le> vget (foldl event_clock lc evs) i"
proof (induction evs arbitrary: lc)
  case (Cons ev evs)
  from order_trans [OF event_clock_grows Cons.IH] show ?case by simp
qed simp

definition covers :: "int \<Rightarrow> ClockSiTimestamp \<Rightarrow> ClockSiTimestamp \<Rightarrow> bool" where
  "covers self lc clk \<longleftrightarrow> (\<forall>(i, v) \<in> set clk. i \<noteq> self \<longrightarrow> v \<le> vget lc i)"

lemma ExceptFor_loop_eq:
  "IsLowerOrEqualExceptFor_loop lc self r es \<longleftrightarrow> (\<forall>(i, v) \<in> set es. i \<noteq> r \<and> i \<noteq> self \<longrightarrow> v \<le> vget lc i)"
  by (induction es) auto

lemma ExceptFor_eq: "IsLowerOrEqualExceptFor clk (Some lc) self r \<longleftrightarrow> (\<forall>(i, v) \<in> set clk. i \<noteq> r \<and> i \<noteq> self \<longrightarrow> v \<le> vget lc i)"
  by (simp add: IsLowerOrEqualExceptFor_def ExceptFor_loop_eq)

text \<open>
  Causal order of the messages themselves. A message carries transactions of its sender. It makes
  known the sender's clock at these transactions, or the clock it consists of.
\<close>

fun txns_of :: "('u, 'r) tm_event \<Rightarrow> (int \<times> 'u UpdateObjectParams RemoteTxn) list" where
  "txns_of (RemoteMsg (RemoteTxnReq t)) = [(rx_SenderID t, t)]"
| "txns_of (RemoteMsg (RemoteTxnGroupReq sender txns)) = map (Pair sender) txns"
| "txns_of ev = []"

fun heard :: "int \<Rightarrow> ('u, 'r) tm_event \<Rightarrow> int set" where
  "heard i (RemoteMsg (RemoteClkReq r ts)) = (if i = r then {ts} else {})"
| "heard i ev = (\<lambda>(r, t). vget (txn_clk t) i) ` {x \<in> set (txns_of ev). fst x = i}"

text \<open>
  Every transaction comes after what it depends on: a clock of another replica that it has seen
  was known at the start, or an earlier message made that clock or a later one of the replica known.
\<close>

definition causal_msgs :: "int \<Rightarrow> ClockSiTimestamp \<Rightarrow> ('u, 'r) tm_event list \<Rightarrow> bool" where
  "causal_msgs self lc evs \<longleftrightarrow> (\<forall>n < length evs. \<forall>(r, t) \<in> set (txns_of (evs ! n)). \<forall>(i, v) \<in> set (txn_clk t).
     i \<noteq> r \<and> i \<noteq> self \<longrightarrow> v \<le> vget lc i \<or> (\<exists>m < n. \<exists>w \<in> heard i (evs ! m). v \<le> w))"

lemma heard_clock:
  assumes "event_ok n ev" and "w \<in> heard i ev"
  shows "w \<le> vget (event_clock lc ev) i"
proof (cases "(lc, ev)" rule: event_clock.cases)
  case (3 lc' sender txns)
  then obtain t where "i = sender" "t \<in> set txns" "w = vget (txn_clk t) sender" using assms(2) by auto
  then show ?thesis using 3 assms(1) by (force simp: vget_UpdatePos GetPos_def)
qed (use assms(2) in \<open>auto simp: vget_UpdatePos GetPos_def split: if_splits\<close>)

lemma causal_msgs_deliverable:
  assumes "event_ok n ev" and "\<forall>(r, t) \<in> set (txns_of ev). \<forall>(i, v) \<in> set (txn_clk t). i \<noteq> r \<and> i \<noteq> self \<longrightarrow> v \<le> vget lc i"
  shows "deliverable self lc ev"
  using assms by (cases "(self, lc, ev)" rule: deliverable.cases) (auto simp: ExceptFor_eq)

lemma causal_msgs_Cons:
  assumes "causal_msgs self lc (ev # evs)" and "event_ok n ev"
  shows "\<forall>(r, t) \<in> set (txns_of ev). \<forall>(i, v) \<in> set (txn_clk t). i \<noteq> r \<and> i \<noteq> self \<longrightarrow> v \<le> vget lc i"
    and "causal_msgs self (event_clock lc ev) evs"
proof -
  show "\<forall>(r, t) \<in> set (txns_of ev). \<forall>(i, v) \<in> set (txn_clk t). i \<noteq> r \<and> i \<noteq> self \<longrightarrow> v \<le> vget lc i"
    using assms(1) unfolding causal_msgs_def by (force dest: spec [of _ 0])
  show "causal_msgs self (event_clock lc ev) evs"
    unfolding causal_msgs_def
  proof (intro allI impI ballI, clarify)
    fix k r t i v
    assume k: "k < length evs" "(r, t) \<in> set (txns_of (evs ! k))" "(i, v) \<in> set (txn_clk t)" "i \<noteq> r" "i \<noteq> self"
      and no: "\<not> (\<exists>m < k. \<exists>w \<in> heard i (evs ! m). v \<le> w)"
    have "v \<le> vget lc i \<or> (\<exists>m < Suc k. \<exists>w \<in> heard i ((ev # evs) ! m). v \<le> w)"
      using assms(1) k unfolding causal_msgs_def by (fastforce dest: spec [of _ "Suc k"])
    then consider "v \<le> vget lc i" | m w where "m < Suc k" "w \<in> heard i ((ev # evs) ! m)" "v \<le> w" by blast
    then show "v \<le> vget (event_clock lc ev) i"
    proof cases
      case 1
      then show ?thesis using event_clock_grows order_trans by metis
    next
      case (2 m w)
      then have "w \<in> heard i ev" using no by (cases m) auto
      then show ?thesis using heard_clock [OF assms(2)] 2(3) order_trans by metis
    qed
  qed
qed

lemma causal_msgs_run:
  "causal_msgs self lc evs \<Longrightarrow> \<forall>ev \<in> set evs. event_ok n ev \<Longrightarrow> causal_run self lc evs"
proof (induction evs arbitrary: lc)
  case (Cons ev evs)
  then have ok: "event_ok n ev" by simp
  note c = causal_msgs_Cons [OF Cons.prems(1) ok]
  from causal_msgs_deliverable [OF ok c(1)] Cons.IH [OF c(2)] Cons.prems(2) show ?case by simp
qed simp

lemma event_covers:
  assumes "event_ok n ev" and "(r, t) \<in> set (txns_of ev)" and "\<And>i. vget (event_clock lc ev) i \<le> vget lc' i"
    and "\<forall>(r, t) \<in> set (txns_of ev). \<forall>(i, v) \<in> set (txn_clk t). i \<noteq> r \<and> i \<noteq> self \<longrightarrow> v \<le> vget lc i"
  shows "covers self lc' (txn_clk t)"
  unfolding covers_def
proof clarify
  fix i v assume iv: "(i, v) \<in> set (txn_clk t)" "i \<noteq> self"
  have "txn_ok n t" using assms(1,2) by (cases "ev" rule: txns_of.cases) auto
  then have v: "v = vget (txn_clk t) i" using iv(1) by (simp add: vget_def txn_ok_def wf_map_def)
  have "v \<le> vget (event_clock lc ev) i"
  proof (cases "i = r")
    case True
    then have "v \<in> heard i ev" using assms(2) v by (cases "ev" rule: txns_of.cases) force+
    then show ?thesis by (rule heard_clock [OF assms(1)])
  next
    case False
    then have "v \<le> vget lc i" using assms(2,4) iv by fastforce
    then show ?thesis using event_clock_grows order_trans by metis
  qed
  then show "v \<le> vget lc' i" using assms(3) order_trans by metis
qed

lemma causal_covers:
  "causal_msgs self lc evs \<Longrightarrow> \<forall>ev \<in> set evs. event_ok n ev \<Longrightarrow> ev \<in> set evs \<Longrightarrow> (r, t) \<in> set (txns_of ev) \<Longrightarrow>
     covers self (foldl event_clock lc evs) (txn_clk t)"
proof (induction evs arbitrary: lc)
  case (Cons ev0 evs)
  then have ok: "event_ok n ev0" by simp
  note c = causal_msgs_Cons [OF Cons.prems(1) ok]
  show ?case
  proof (cases "ev = ev0")
    case True
    with Cons.prems(4) have "(r, t) \<in> set (txns_of ev0)" by simp
    from event_covers [OF ok this _ c(1)] show ?thesis by (simp add: events_clock_grows)
  next
    case False
    then show ?thesis using Cons.IH [OF c(2)] Cons.prems by simp
  qed
qed simp

text \<open>
  C27. What happens when messages arrive in causal order. Start with nothing on hold and no more known
  replicas than the transaction manager has ids, and let the messages be well-formed: transactions have clocks, their updates name each partition once and
  only partitions that exist, and in a group, which is not empty, the last transaction has the
  highest clock of the sender. Let every transaction, alone or in a group, come after what it
  depends on, that is, what it has seen of third replicas was known at the start or made known by
  an earlier message, mixed in whatever way with requests of other goroutines and commits of this
  replica. Then no message is put on hold, and every partition ends in the state it reaches by
  handling its requests one after the other, a transaction or the transactions of a group exactly
  when they have updates for the partition and in the order in which they arrived. Unless a
  partition panics the transaction manager does not. The local clock then covers every
  transaction that was applied, alone or in a group, at all positions but the replica's own,
  which it learns of when it commits.
\<close>

theorem remote_causal_applied:
  assumes "downstreamQueue tm = []" and "length (e_knownIDs E) \<le> length (tm_replicaIDs tm)" and "length ps = length (tm_parts tm)"
    and "\<forall>ev \<in> set evs. event_ok (length (tm_parts tm)) ev" and "causal_msgs self (localClock tm) evs"
    and "\<forall>i < length (tm_parts tm). mat_run E (tm_parts tm ! i) (concat (map (part_reqs i) evs)) = Inr (ps ! i)"
  shows "\<exists>tm'. gfold (tm_step E self) tm evs = Inr tm' \<and> tm_parts tm' = ps \<and> downstreamQueue tm' = []
    \<and> (\<forall>ev \<in> set evs. \<forall>(r, t) \<in> set (txns_of ev). covers self (localClock tm') (txn_clk t))"
proof -
  obtain tm' where "gfold (tm_step E self) tm evs = Inr tm'" "advanced tm ps (foldl event_clock (localClock tm) evs) tm'"
    using causal_run_ok [of tm E ps evs self] causal_msgs_run [OF assms(5,4)] assms by auto
  moreover have "covers self (foldl event_clock (localClock tm) evs) (txn_clk t)" if "ev \<in> set evs" "(r, t) \<in> set (txns_of ev)" for ev r t
    by (rule causal_covers [OF assms(5,4) that])
  ultimately show ?thesis by (auto simp: advanced_def)
qed

definition causal_txns :: "(counter_op, unit) tm_event list" where
  "causal_txns = [an_increment 3 [(1, 0), (2, 0), (3, 5)] 10, an_increment 2 [(1, 0), (2, 5), (3, 5)] 1,
     an_increment 2 [(1, 0), (2, 6), (3, 5)] 100, RemoteMsg (RemoteClkReq 2 7),
     PartRequest 0 9 0 (MatStaticRead a_counter () [(1, 0), (2, 6), (3, 5)])]"

lemma causal_txns_run:
  "map_sum id (replies \<circ> sent) (mat_run three_replicas (start_partition three_replicas 1 0 no_objects) (concat (map (part_reqs 0) causal_txns))) = Inr [111]"
  by code_simp

theorem remote_causal_applied_witness:
  "\<exists>tm. gfold (tm_step three_replicas 1) start_tm causal_txns = Inr tm \<and> replies (sent (tm_parts tm ! 0)) = [111] \<and> downstreamQueue tm = []
     \<and> covers 1 (localClock tm) [(1, 0), (2, 5), (3, 5)]"
proof -
  obtain p where p: "mat_run three_replicas (start_partition three_replicas 1 0 no_objects) (concat (map (part_reqs 0) causal_txns)) = Inr p"
    "replies (sent p) = [111]" using causal_txns_run by (cases "mat_run three_replicas (start_partition three_replicas 1 0 no_objects) (concat (map (part_reqs 0) causal_txns))") auto
  have "causal_msgs 1 (localClock start_tm) causal_txns"
    by (force simp: causal_msgs_def causal_txns_def an_increment_def start_tm_def NewClockSiTimestamp_def vget_def less_Suc_eq_0_disj)
  moreover have "\<forall>ev \<in> set causal_txns. event_ok 1 ev" by (simp add: causal_txns_def an_increment_def txn_ok_def wf_map_def)
  ultimately obtain tm where tm: "gfold (tm_step three_replicas 1) start_tm causal_txns = Inr tm" "tm_parts tm = [p]" "downstreamQueue tm = []"
    and c: "\<forall>ev \<in> set causal_txns. \<forall>(r, t) \<in> set (txns_of ev). covers 1 (localClock tm) (txn_clk t)"
    using remote_causal_applied [of start_tm three_replicas "[p]" causal_txns 1] p(1) by (auto simp: start_tm_def three_replicas_def)
  have "an_increment 2 [(1, 0), (2, 5), (3, 5)] 1 \<in> set causal_txns" by (simp add: causal_txns_def)
  with c have "covers 1 (localClock tm) [(1, 0), (2, 5), (3, 5)]" by (fastforce simp: an_increment_def)
  then show ?thesis using tm p(2) by simp
qed

text \<open>
  Only the first transaction of a group is compared with the local clock. For the groups that the
  replicator makes that is enough: the first one may be applied exactly if all of them may.
\<close>

theorem remote_group_check:
  assumes "group_ok sender (GroupTxn ts)" and "\<forall>t \<in> set ts. on_ids I (txn_clk t)"
  shows "IsLowerOrEqualExceptFor (txn_clk (hd ts)) (Some lc) self sender \<longleftrightarrow> (\<forall>t \<in> set ts. IsLowerOrEqualExceptFor (txn_clk t) (Some lc) self sender)"
proof
  assume hd: "IsLowerOrEqualExceptFor (txn_clk (hd ts)) (Some lc) self sender"
  show "\<forall>t \<in> set ts. IsLowerOrEqualExceptFor (txn_clk t) (Some lc) self sender"
  proof
    fix t assume t: "t \<in> set ts"
    have "hd ts \<in> set ts" using t by (cases ts) auto
    then have ids: "on_ids I (txn_clk (hd ts))" "on_ids I (txn_clk t)" using assms(2) t by blast+
    have eq: "v = vget (txn_clk (hd ts)) i" if "(i, v) \<in> set (txn_clk t)" "i \<noteq> sender" for i v
    proof -
      have "IsEqualExceptForSelf_loop c self es \<Longrightarrow> (i, v) \<in> set es \<Longrightarrow> i \<noteq> self \<Longrightarrow> v = vget c i" for c self es
        by (induction es) (auto split: if_splits)
      then show ?thesis using assms(1) t that by (auto simp: same_others_def IsEqualExceptForSelf_def)
    qed
    have "v \<le> vget lc i" if "(i, v) \<in> set (txn_clk t)" "i \<noteq> sender" "i \<noteq> self" for i v
    proof -
      have "i \<in> fst ` set (txn_clk (hd ts))" using ids that(1) by (force simp: on_ids_def)
      then obtain v' where "(i, v') \<in> set (txn_clk (hd ts))" by auto
      moreover from this have "vget (txn_clk (hd ts)) i = v'" using ids(1) by (simp add: vget_def on_ids_def wf_map_def)
      ultimately show ?thesis using hd that eq [OF that(1,2)] by (auto simp: ExceptFor_eq)
    qed
    then show "IsLowerOrEqualExceptFor (txn_clk t) (Some lc) self sender" by (auto simp: ExceptFor_eq)
  qed
next
  assume "\<forall>t \<in> set ts. IsLowerOrEqualExceptFor (txn_clk t) (Some lc) self sender"
  moreover have "hd ts \<in> set ts" using assms(1) by (auto simp: minTxnsToGroup_def intro: list.set_sel(1))
  ultimately show "IsLowerOrEqualExceptFor (txn_clk (hd ts)) (Some lc) self sender" by blast
qed

definition seven_txns :: "unit RemoteTxn list" where
  "seven_txns = map (\<lambda>i. \<lparr>rx_SenderID = 2, rx_Clk = Some [(1, 0), (2, i), (3, 5)], rx_Upds = [], rx_TxnID = 0\<rparr>) [1..7]"

theorem remote_group_check_witness:
  "\<not> IsLowerOrEqualExceptFor [(1, 0), (2, 1), (3, 5)] (Some [(1, 0), (2, 0), (3, 4)]) 1 2
     \<and> (\<exists>t \<in> set seven_txns. \<not> IsLowerOrEqualExceptFor (txn_clk t) (Some [(1, 0), (2, 0), (3, 4)]) 1 2)"
proof -
  have "[1..7 :: int] = [1, 2, 3, 4, 5, 6, 7]" by (simp add: upto.simps)
  then have s: "group_ok 2 (GroupTxn seven_txns)" "\<forall>t \<in> set seven_txns. on_ids {1, 2, 3} (txn_clk t)" "txn_clk (hd seven_txns) = [(1, 0), (2, 1), (3, 5)]"
    by (auto simp: seven_txns_def minTxnsToGroup_def maxTxnsPerGroup_def same_others_def IsEqualExceptForSelf_def vget_def on_ids_def wf_map_def)
  have "\<not> IsLowerOrEqualExceptFor [(1, 0), (2, 1), (3, 5)] (Some [(1, 0), (2, 0), (3, 4)]) 1 2"
    by (simp add: IsLowerOrEqualExceptFor_def vget_def)
  then show ?thesis using remote_group_check [OF s(1,2), of "[(1, 0), (2, 0), (3, 4)]" 1] unfolding s(3) by blast
qed

end
