(* ===== verification/CommitClock.thy ===== *)
theory CommitClock
  imports PartitionClock
begin

text \<open>
  The goroutine \<open>handleCommitReplies\<close> of \<^verbatim>\<open>potionDB/components/transactionManager.go\<close>, which advances
  the clock of the replica when all partitions have committed a transaction, and answers the
  clients that wait for a clock. The waiting clients are in a heap, \<open>ClockHeap\<close>, whose methods
  have value receivers: its slice cannot grow, as an appended slice is lost.
\<close>

record TMWaitClock =
  targetClk :: Timestamp
  wc_client :: nat

text \<open>The slice of entries, at its full capacity, and the number of entries in use.\<close>

record ClockHeap =
  ch_entries :: "TMWaitClock list"
  nEntries :: nat

definition no_wait :: TMWaitClock where
  "no_wait = \<lparr>targetClk = None, wc_client = 0\<rparr>"

text \<open>\<open>Less\<close> compares an entry with itself.\<close>

definition wait_Less :: "ClockHeap \<Rightarrow> nat \<Rightarrow> nat \<Rightarrow> bool" where
  "wait_Less c i j = IsLowerOrEqualTotalOrder (the (targetClk (ch_entries c ! i))) (targetClk (ch_entries c ! i))"

definition wait_Swap :: "ClockHeap \<Rightarrow> nat \<Rightarrow> nat \<Rightarrow> ClockHeap" where
  "wait_Swap c i j = c\<lparr>ch_entries := list_swap (ch_entries c) i j\<rparr>"

definition wait_Push :: "ClockHeap \<Rightarrow> TMWaitClock \<Rightarrow> ClockHeap" where
  "wait_Push c value = (if nEntries c = length (ch_entries c) then c\<lparr>nEntries := Suc (nEntries c)\<rparr>
     else \<lparr>ch_entries = (ch_entries c)[nEntries c := value], nEntries = Suc (nEntries c)\<rparr>)"

definition wait_Pop :: "ClockHeap \<Rightarrow> TMWaitClock option \<times> ClockHeap" where
  "wait_Pop c = (if nEntries c = 0 then (None, c)
     else (Some (ch_entries c ! (nEntries c - 1)), \<lparr>ch_entries = (ch_entries c)[nEntries c - 1 := no_wait], nEntries = nEntries c - 1\<rparr>))"

definition wait_PeekMin :: "ClockHeap \<Rightarrow> TMWaitClock" where
  "wait_PeekMin c = (if nEntries c = 0 then no_wait else ch_entries c ! 0)"

text \<open>
  \<open>heap.Push\<close> and \<open>heap.Pop\<close>. After a push the new entry is compared with its parent, at the
  index it should have been stored at.
\<close>

definition waiting_push :: "ClockHeap \<Rightarrow> TMWaitClock \<Rightarrow> ClockHeap go" where
  "waiting_push c value =
     (let c' = wait_Push c value; j = nEntries c' - 1
      in if j \<noteq> (j - 1) div 2 \<and> length (ch_entries c') \<le> j then Inl IndexOutOfRange else Inr (heap_up wait_Less wait_Swap c' j))"

definition waiting_pop :: "ClockHeap \<Rightarrow> (TMWaitClock \<times> ClockHeap) go" where
  "waiting_pop c = gbind (heap_Pop_prepare wait_Less wait_Swap (nEntries c) c) (\<lambda>c'.
     case wait_Pop c' of (None, h) \<Rightarrow> Inl TypeAssertion | (Some w, h) \<Rightarrow> Inr (w, h))"

section \<open>The goroutine\<close>

datatype TMCommitInfo =
    CommitNPartitions int TransactionId ClockSiTimestamp
  | PartCommitReply TransactionId
  | WaitClock ClockSiTimestamp nat

text \<open>The variables of the goroutine, the replica's clock and the answers to waiting clients.\<close>

record commit_state =
  txnToClk :: "TransactionId \<rightharpoonup> ClockSiTimestamp"
  txnWaitFor :: "TransactionId \<rightharpoonup> int"
  waitingTMs :: ClockHeap
  stackedClk :: Timestamp
  nStacked :: nat
  commit_clock :: ClockSiTimestamp
  txnsSinceCompact :: int
  answers :: "(TMWaitClock \<times> ClockSiTimestamp) list"

definition start_commits :: "ClockSiTimestamp \<Rightarrow> commit_state" where
  "start_commits clk = \<lparr>txnToClk = Map.empty, txnWaitFor = Map.empty,
     waitingTMs = \<lparr>ch_entries = replicate 100 no_wait, nEntries = 0\<rparr>, stackedClk = None, nStacked = 0, commit_clock = clk,
     txnsSinceCompact = 0, answers = []\<rparr>"

text \<open>The loop takes an entry off the heap in every iteration.\<close>

primrec notify :: "nat \<Rightarrow> ClockSiTimestamp \<Rightarrow> commit_state \<Rightarrow> commit_state go" where
  "notify 0 copyClk s = Inr s"
| "notify (Suc n) copyClk s =
     (if 0 < nEntries (waitingTMs s)
      then (case targetClk (wait_PeekMin (waitingTMs s)) of
              None \<Rightarrow> Inl NilDereference
            | Some target \<Rightarrow>
                if IsLowerOrEqual target (Some copyClk)
                then gbind (waiting_pop (waitingTMs s)) (\<lambda>(w, h). notify n copyClk (s\<lparr>waitingTMs := h, answers := answers s @ [(w, copyClk)]\<rparr>))
                else Inr s)
      else Inr s)"

text \<open>Merging \<open>clk\<close>, which stands for \<open>n\<close> transactions, into the clock and answering the clients.\<close>

definition advance :: "Timestamp \<Rightarrow> nat \<Rightarrow> commit_state \<Rightarrow> commit_state go" where
  "advance clk n s =
     (let s1 = s\<lparr>commit_clock := MergeInto (commit_clock s) clk, txnsSinceCompact := txnsSinceCompact s + int n\<rparr>
      in if nEntries (waitingTMs s) = 0 then Inr s1 else notify (nEntries (waitingTMs s)) (Copy_clk (commit_clock s1)) s1)"

text \<open>\<open>chan_len\<close> is the length of the channel when it is looked at after the receive.\<close>

fun handle_commit_info :: "nat \<Rightarrow> nat \<Rightarrow> commit_state \<Rightarrow> TMCommitInfo \<Rightarrow> commit_state go" where
  "handle_commit_info nGoRoutines chan_len s (CommitNPartitions n txnId clk) =
     Inr (s\<lparr>txnToClk := (txnToClk s)(txnId \<mapsto> clk), txnWaitFor := (txnWaitFor s)(txnId \<mapsto> n)\<rparr>)"
| "handle_commit_info nGoRoutines chan_len s (PartCommitReply txnId) =
     (case txnWaitFor s txnId of
        None \<Rightarrow> Inl NilDereference
      | Some left \<Rightarrow>
          if left - 1 = 0
          then let clk = the (txnToClk s txnId);
                   s1 = s\<lparr>txnToClk := (txnToClk s)(txnId := None), txnWaitFor := (txnWaitFor s)(txnId := None)\<rparr>
               in if nGoRoutines * 2 < chan_len
                  then Inr (s1\<lparr>stackedClk := Some (case stackedClk s1 of None \<Rightarrow> Copy_clk clk | Some c \<Rightarrow> MergeInto c (Some clk)),
                         nStacked := Suc (nStacked s1)\<rparr>)
                  else advance (Some clk) 1 s1
          else Inr (s\<lparr>txnWaitFor := (txnWaitFor s)(txnId \<mapsto> left - 1)\<rparr>))"
| "handle_commit_info nGoRoutines chan_len s (WaitClock clk client) =
     gbind (waiting_push (waitingTMs s) \<lparr>targetClk = Some clk, wc_client = client\<rparr>) (\<lambda>h. Inr (s\<lparr>waitingTMs := h\<rparr>))"

definition flush_stacked :: "nat \<Rightarrow> nat \<Rightarrow> commit_state \<Rightarrow> commit_state go" where
  "flush_stacked nGoRoutines chan_len s =
     (if 10 < nStacked s \<or> (chan_len < nGoRoutines div 2 \<and> stackedClk s \<noteq> None)
      then gbind (advance (stackedClk s) (nStacked s) s) (\<lambda>s1. Inr (s1\<lparr>nStacked := 0, stackedClk := None\<rparr>))
      else Inr s)"

text \<open>An iteration: a message and the two lengths of the channel that the body looks at.\<close>

definition handleCommitReplies :: "nat \<Rightarrow> commit_state \<Rightarrow> TMCommitInfo \<times> nat \<times> nat \<Rightarrow> commit_state go" where
  "handleCommitReplies nGoRoutines s x = (case x of (msg, len1, len2) \<Rightarrow>
     gbind (handle_commit_info nGoRoutines len1 s msg) (flush_stacked nGoRoutines len2))"

section \<open>The heap of waiting clients\<close>

definition used :: "ClockHeap \<Rightarrow> TMWaitClock list" where
  "used h = take (nEntries h) (ch_entries h)"

definition wait_lt :: "TMWaitClock \<Rightarrow> TMWaitClock \<Rightarrow> bool" where
  "wait_lt a b = IsLowerOrEqualTotalOrder (the (targetClk a)) (targetClk a)"

lemma take_list_swap: "i < n \<Longrightarrow> j < n \<Longrightarrow> i < length xs \<Longrightarrow> j < length xs \<Longrightarrow> take n (list_swap xs i j) = list_swap (take n xs) i j"
  by (simp add: list_swap_def take_update_swap)

interpretation waiting: heap_interface wait_Less wait_Swap used wait_lt "\<lambda>h. nEntries h = n \<and> length (ch_entries h) = m" for n m
  by unfold_locales (auto simp: used_def wait_Less_def wait_lt_def wait_Swap_def take_list_swap)

definition waiting_ok :: "ClockHeap \<Rightarrow> bool" where
  "waiting_ok h \<longleftrightarrow> nEntries h \<le> length (ch_entries h) \<and> (\<forall>w \<in> set (used h). \<exists>c. targetClk w = Some c \<and> wf_map c)"

lemma wait_lt_wf: "targetClk w = Some c \<Longrightarrow> wf_map c \<Longrightarrow> wait_lt w v"
proof -
  assume c: "targetClk w = Some c" "wf_map c"
  have "\<not> some_below c c" "\<not> some_above c c" using some_below_iff [of c c] some_above_iff [of c c] c(2) by (auto simp: same_ids_def)
  then show ?thesis by (simp add: wait_lt_def c(1) IsLowerOrEqualTotalOrder_def TotalOrder_flags_eq)
qed

lemma waiting_push_keeps:
  assumes "waiting_ok h" and "nEntries h < length (ch_entries h)" and "targetClk w = Some c" and "wf_map c"
  obtains h' where "waiting_push h w = Inr h'" and "waiting_ok h'" and "nEntries h' = Suc (nEntries h)"
    and "length (ch_entries h') = length (ch_entries h)" and "mset (used h') = add_mset w (mset (used h))"
proof -
  let ?p = "wait_Push h w" and ?h = "heap_up wait_Less wait_Swap (wait_Push h w) (nEntries h)"
  have p: "nEntries ?p = Suc (nEntries h)" "length (ch_entries ?p) = length (ch_entries h)" "used ?p = used h @ [w]"
    using assms(2) by (simp_all add: wait_Push_def used_def take_Suc_conv_app_nth)
  have "nEntries h < length (used ?p)" using p(1,2) assms(2) by (simp add: used_def)
  from waiting.heap_up_keeps [OF this, of "Suc (nEntries h)" "length (ch_entries h)"] p
  have h: "mset (used ?h) = add_mset w (mset (used h))" "nEntries ?h = Suc (nEntries h)" "length (ch_entries ?h) = length (ch_entries h)" by simp_all
  have "waiting_push h w = Inr ?h" using p(1,2) assms(2) by (simp add: waiting_push_def)
  moreover have "set (used ?h) = insert w (set (used h))" using h(1) by (metis set_mset_mset set_mset_add_mset_insert)
  then have "waiting_ok ?h" using assms h(2,3) by (simp add: waiting_ok_def)
  ultimately show thesis using that h by simp
qed

lemma waiting_pop_keeps:
  assumes "waiting_ok h" and "0 < nEntries h"
  obtains h' where "waiting_pop h = Inr (ch_entries h ! 0, h')" and "waiting_ok h'" and "nEntries h' = nEntries h - 1"
    and "length (ch_entries h') = length (ch_entries h)" and "mset (used h) = add_mset (ch_entries h ! 0) (mset (used h'))"
proof -
  have len: "length (used h) = nEntries h" and ne: "used h \<noteq> []" using assms by (auto simp: waiting_ok_def used_def)
  obtain k where k: "heap_Pop_prepare wait_Less wait_Swap (length (used h)) h = Inr k" "mset (used k) = mset (used h)"
    "last (used k) = used h ! 0" and inv: "nEntries k = nEntries h \<and> length (ch_entries k) = length (ch_entries h)"
    using waiting.heap_Pop_ok [of h "nEntries h" "length (ch_entries h)"] ne by auto
  have lk: "length (used k) = nEntries h" using k(2) len mset_eq_length by metis
  then have nk: "used k \<noteq> []" using assms(2) by auto
  have last: "ch_entries k ! (nEntries k - 1) = ch_entries h ! 0"
    using k(3) nk inv lk assms(2) by (simp add: last_conv_nth used_def)
  let ?h = "snd (wait_Pop k)"
  have h: "nEntries ?h = nEntries h - 1" "length (ch_entries ?h) = length (ch_entries h)" using inv assms(2) by (simp_all add: wait_Pop_def)
  have u: "used ?h = butlast (used k)"
    using inv assms by (simp add: wait_Pop_def used_def butlast_take waiting_ok_def)
  have "used h ! 0 = ch_entries h ! 0" using assms(2) by (simp add: used_def)
  then have "mset (used h) = add_mset (ch_entries h ! 0) (mset (used ?h))"
    using mset_butlast [OF nk] k(2,3) unfolding u by simp
  moreover from this have "set (used ?h) \<subseteq> set (used h)" by (metis set_mset_mset set_mset_add_mset_insert subset_insertI)
  then have "waiting_ok ?h" using assms(1) h by (auto simp: waiting_ok_def)
  moreover have "waiting_pop h = Inr (ch_entries h ! 0, ?h)"
    using k(1) len last inv assms(2) by (simp add: waiting_pop_def wait_Pop_def)
  ultimately show thesis using that h by simp
qed

text \<open>The entry that was pushed last is the first one, whatever the others wait for.\<close>

lemma heap_up_to_root:
  assumes "waiting_ok h" and "j < nEntries h"
  shows "ch_entries (heap_up wait_Less wait_Swap h j) ! 0 = ch_entries h ! j"
  using assms
proof (induction j arbitrary: h rule: less_induct)
  case (less j)
  show ?case
  proof (cases "j = 0")
    case True
    then show ?thesis by (simp add: heap_up.simps)
  next
    case False
    have b: "j < length (ch_entries h)" "par j < j" using less.prems False by (auto simp: waiting_ok_def)
    have "ch_entries h ! j \<in> set (used h)" using less.prems b by (auto simp: used_def in_set_conv_nth)
    then obtain c where "targetClk (ch_entries h ! j) = Some c" "wf_map c" using less.prems(1) by (auto simp: waiting_ok_def)
    then have l: "wait_Less h j (par j)" using wait_lt_wf by (simp add: wait_Less_def wait_lt_def)
    let ?s = "wait_Swap h (par j) j"
    have "mset (used ?s) = mset (used h)" using b less.prems by (simp add: wait_Swap_def used_def take_list_swap)
    then have "waiting_ok ?s" using less.prems(1) by (simp add: waiting_ok_def wait_Swap_def flip: set_mset_mset)
    moreover have "par j < nEntries ?s" "ch_entries ?s ! par j = ch_entries h ! j"
      using less.prems b by (simp_all add: wait_Swap_def nth_list_swap)
    ultimately have "ch_entries (heap_up wait_Less wait_Swap ?s (par j)) ! 0 = ch_entries h ! j" using less.IH [OF b(2)] by simp
    with l False b(2) show ?thesis by (simp add: heap_up.simps [of _ _ h j] Let_def)
  qed
qed

lemma push_first:
  assumes "waiting_ok h" and "nEntries h < length (ch_entries h)" and "targetClk w = Some c" and "wf_map c" and "waiting_push h w = Inr h'"
  shows "wait_PeekMin h' = w"
proof -
  let ?p = "wait_Push h w"
  have p: "nEntries ?p = Suc (nEntries h)" "length (ch_entries ?p) = length (ch_entries h)" "used ?p = used h @ [w]" "ch_entries ?p ! nEntries h = w"
    using assms(2) by (simp_all add: wait_Push_def used_def take_Suc_conv_app_nth)
  then have "waiting_ok ?p" using assms(1-4) by (simp add: waiting_ok_def)
  from heap_up_to_root [OF this, of "nEntries h"] p have "ch_entries h' ! 0 = w"
    using assms(2,5) by (simp add: waiting_push_def)
  moreover have "nEntries h' = Suc (nEntries h)" using waiting_push_keeps [OF assms(1-4)] assms(5) by (metis sum.inject(2))
  ultimately show ?thesis by (simp add: wait_PeekMin_def)
qed

section \<open>The clock of the replica\<close>

text \<open>What is announced of each transaction, how many partitions have replied, and the transactions that all have committed.\<close>

fun announcement :: "TMCommitInfo \<Rightarrow> (TransactionId \<times> int \<times> ClockSiTimestamp) list" where
  "announcement (CommitNPartitions n t clk) = [(t, n, clk)]"
| "announcement m = []"

definition announced :: "TMCommitInfo list \<Rightarrow> (TransactionId \<times> int \<times> ClockSiTimestamp) list" where
  "announced ms = concat (map announcement ms)"

definition replied :: "TMCommitInfo list \<Rightarrow> TransactionId \<Rightarrow> int" where
  "replied ms t = int (count_list ms (PartCommitReply t))"

definition committed_clks :: "TMCommitInfo list \<Rightarrow> ClockSiTimestamp set" where
  "committed_clks ms = {clk. \<exists>t n. (t, n, clk) \<in> set (announced ms) \<and> 0 < n \<and> replied ms t = n}"

definition n_waits :: "TMCommitInfo list \<Rightarrow> nat" where
  "n_waits ms = length (filter (\<lambda>m. case m of WaitClock c i \<Rightarrow> True | _ \<Rightarrow> False) ms)"

text \<open>
  What the senders keep: a transaction is announced once and before any partition replies, and
  the partitions reply as often as announced at most. There is room for the clients that wait.
\<close>

definition msg_ok :: "int set \<Rightarrow> TMCommitInfo list \<Rightarrow> TMCommitInfo \<Rightarrow> bool" where
  "msg_ok I ms m \<longleftrightarrow> (case m of
      CommitNPartitions n t clk \<Rightarrow> t \<notin> fst ` set (announced ms) \<and> replied ms t = 0 \<and> on_ids I clk
    | PartCommitReply t \<Rightarrow> (\<exists>n clk. (t, n, clk) \<in> set (announced ms) \<and> replied ms t < n)
    | WaitClock clk i \<Rightarrow> wf_map clk \<and> n_waits ms < 100)"

definition msgs_ok :: "int set \<Rightarrow> TMCommitInfo list \<Rightarrow> bool" where
  "msgs_ok I ms \<longleftrightarrow> (\<forall>k < length ms. msg_ok I (take k ms) (ms ! k))"

lemma msgs_ok_snoc: "msgs_ok I (ms @ [m]) \<longleftrightarrow> msgs_ok I ms \<and> msg_ok I ms m"
  by (auto simp: msgs_ok_def nth_append less_Suc_eq)

lemma announced_snoc: "announced (ms @ [m]) = announced ms @ announcement m"
  by (simp add: announced_def)

lemma replied_snoc: "replied (ms @ [m]) t = (if m = PartCommitReply t then replied ms t + 1 else replied ms t)"
  by (simp add: replied_def)

lemma n_waits_snoc: "n_waits (ms @ [m]) = n_waits ms + (case m of WaitClock c i \<Rightarrow> 1 | _ \<Rightarrow> 0)"
  by (simp add: n_waits_def split: TMCommitInfo.split)

lemma announced_once: "msgs_ok I ms \<Longrightarrow> wf_map (announced ms)"
  by (induction ms rule: rev_induct)
    (auto simp: msgs_ok_snoc announced_snoc wf_map_def announced_def msg_ok_def split: TMCommitInfo.splits)

lemma announced_ids: "msgs_ok I ms \<Longrightarrow> (t, n, clk) \<in> set (announced ms) \<Longrightarrow> on_ids I clk"
  by (induction ms rule: rev_induct)
    (auto simp: msgs_ok_snoc announced_snoc announced_def msg_ok_def split: TMCommitInfo.splits)

lemma finite_committed: "finite (committed_clks ms)"
  by (rule finite_subset [of _ "(\<lambda>(t, n, clk). clk) ` set (announced ms)"]) (force simp: committed_clks_def)+

lemma on_ids_MergeInto_loop: "on_ids I a \<Longrightarrow> fst ` set es \<subseteq> I \<Longrightarrow> on_ids I (MergeInto_loop es a)"
  by (induction es arbitrary: a) (auto simp: on_ids_mput)

lemma on_ids_MergeInto:
  assumes "on_ids I a" and "on_ids I b"
  shows "on_ids I (MergeInto a (Some b))" and "vget (MergeInto a (Some b)) i = max (vget a i) (vget b i)"
proof -
  show "on_ids I (MergeInto a (Some b))" using assms by (simp add: MergeInto_def on_ids_MergeInto_loop on_ids_def [of I b])
  have "i \<notin> I \<Longrightarrow> vget a i = 0 \<and> vget b i = 0" using assms by (metis on_ids_def vget_missing)
  then show "vget (MergeInto a (Some b)) i = max (vget a i) (vget b i)"
    using assms by (auto simp: MergeInto_def vget_MergeInto_loop on_ids_def)
qed

lemma on_ids_Copy: "on_ids I a \<Longrightarrow> on_ids I (Copy_clk a)"
proof -
  have "wf_map b \<Longrightarrow> wf_map (CopyInto a b) \<and> fst ` set (CopyInto a b) = fst ` set a \<union> fst ` set b" for a b
    by (induction a arbitrary: b) (auto simp: keys_mput)
  from this [of "[]" a] show "on_ids I a \<Longrightarrow> on_ids I (Copy_clk a)" by (simp add: on_ids_def Copy_clk_def wf_map_def)
qed

text \<open>What the clock shows, with the transactions whose clocks are stacked.\<close>

definition visible :: "commit_state \<Rightarrow> int \<Rightarrow> int" where
  "visible s i = (case stackedClk s of None \<Rightarrow> vget (commit_clock s) i | Some c \<Rightarrow> max (vget (commit_clock s) i) (vget c i))"

definition answers_ok :: "commit_state \<Rightarrow> bool" where
  "answers_ok s \<longleftrightarrow> (\<forall>(w, c) \<in> set (answers s). \<exists>t. targetClk w = Some t \<and> IsLowerOrEqual t (Some c))"

definition clocks_ok :: "int set \<Rightarrow> nat \<Rightarrow> commit_state \<Rightarrow> bool" where
  "clocks_ok I n s \<longleftrightarrow> on_ids I (commit_clock s) \<and> (\<forall>c. stackedClk s = Some c \<longrightarrow> on_ids I c) \<and> (stackedClk s = None \<longleftrightarrow> nStacked s = 0)
     \<and> waiting_ok (waitingTMs s) \<and> length (ch_entries (waitingTMs s)) = 100 \<and> nEntries (waitingTMs s) \<le> n \<and> answers_ok s"

text \<open>The count and the clock that are kept of a transaction with announcement \<open>a\<close> and \<open>r\<close> replies.\<close>

definition count_ok :: "(int \<times> ClockSiTimestamp) option \<Rightarrow> int \<Rightarrow> int option \<Rightarrow> ClockSiTimestamp option \<Rightarrow> bool" where
  "count_ok a r left clk \<longleftrightarrow> (case a of None \<Rightarrow> left = None
     | Some (n, c) \<Rightarrow> if 0 < n \<and> r = n then left = None else left = Some (n - r) \<and> clk = Some c)"

definition counts_ok :: "TMCommitInfo list \<Rightarrow> commit_state \<Rightarrow> bool" where
  "counts_ok ms s \<longleftrightarrow> (\<forall>t. count_ok (map_of (announced ms) t) (replied ms t) (txnWaitFor s t) (txnToClk s t))"

lemma notify_ok:
  assumes "waiting_ok (waitingTMs s)" and "answers_ok s"
  obtains s' h new where "notify n c s = Inr s'" and "s' = s\<lparr>waitingTMs := h, answers := answers s @ new\<rparr>" and "waiting_ok h"
    and "length (ch_entries h) = length (ch_entries (waitingTMs s))" and "nEntries h \<le> nEntries (waitingTMs s)" and "answers_ok s'"
  using assms
proof (induction n arbitrary: s thesis)
  case 0
  show ?case by (rule "0.prems"(1) [of s "[]" "waitingTMs s"]) (use "0.prems" in simp_all)
next
  case (Suc n)
  show ?case
  proof (cases "0 < nEntries (waitingTMs s)")
    case False
    show ?thesis by (rule Suc.prems(1) [of s "[]" "waitingTMs s"]) (use Suc.prems False in simp_all)
  next
    case True
    let ?w = "ch_entries (waitingTMs s) ! 0"
    have "?w \<in> set (used (waitingTMs s))" using True Suc.prems(2) by (auto simp: used_def waiting_ok_def in_set_conv_nth)
    then obtain t where t: "targetClk ?w = Some t" using Suc.prems(2) by (auto simp: waiting_ok_def)
    then have peek: "targetClk (wait_PeekMin (waitingTMs s)) = Some t" using True by (simp add: wait_PeekMin_def)
    show ?thesis
    proof (cases "IsLowerOrEqual t (Some c)")
      case False
      show ?thesis by (rule Suc.prems(1) [of s "[]" "waitingTMs s"]) (use Suc.prems True peek False in simp_all)
    next
      case low: True
      obtain h1 where h1: "waiting_pop (waitingTMs s) = Inr (?w, h1)" "waiting_ok h1" "nEntries h1 = nEntries (waitingTMs s) - 1"
        "length (ch_entries h1) = length (ch_entries (waitingTMs s))" using waiting_pop_keeps [OF Suc.prems(2) True] by metis
      let ?s = "s\<lparr>waitingTMs := h1, answers := answers s @ [(?w, c)]\<rparr>"
      have "answers_ok ?s" using Suc.prems(3) t low by (auto simp: answers_ok_def)
      then obtain s' h new where r: "notify n c ?s = Inr s'" "s' = ?s\<lparr>waitingTMs := h, answers := answers ?s @ new\<rparr>" "waiting_ok h"
        "length (ch_entries h) = length (ch_entries h1)" "nEntries h \<le> nEntries h1" "answers_ok s'"
        using Suc.IH [of ?s] h1(2) by auto
      show ?thesis
        by (rule Suc.prems(1) [of s' "(?w, c) # new" h]) (use r h1 True peek low in simp_all)
    qed
  qed
qed

lemma advance_ok:
  assumes "clocks_ok I n s" and "on_ids I clk"
  obtains s' h new where "advance (Some clk) k s = Inr s'" and "clocks_ok I n s'"
    and "s' = s\<lparr>commit_clock := MergeInto (commit_clock s) (Some clk), txnsSinceCompact := txnsSinceCompact s + int k, waitingTMs := h, answers := answers s @ new\<rparr>"
proof -
  let ?s = "s\<lparr>commit_clock := MergeInto (commit_clock s) (Some clk), txnsSinceCompact := txnsSinceCompact s + int k\<rparr>"
  have ids: "on_ids I (MergeInto (commit_clock s) (Some clk))" using assms on_ids_MergeInto by (simp add: clocks_ok_def)
  have ok: "waiting_ok (waitingTMs ?s)" "answers_ok ?s" using assms(1) by (simp_all add: clocks_ok_def answers_ok_def)
  show thesis
  proof (cases "nEntries (waitingTMs s) = 0")
    case True
    show thesis by (rule that [of ?s "[]" "waitingTMs s"]) (use True assms(1) ids in \<open>simp_all add: advance_def Let_def clocks_ok_def answers_ok_def\<close>)
  next
    case False
    obtain s' h new where r: "notify (nEntries (waitingTMs s)) (Copy_clk (commit_clock ?s)) ?s = Inr s'"
      "s' = ?s\<lparr>waitingTMs := h, answers := answers ?s @ new\<rparr>" "waiting_ok h" "length (ch_entries h) = length (ch_entries (waitingTMs ?s))"
      "nEntries h \<le> nEntries (waitingTMs ?s)" "answers_ok s'" using notify_ok [OF ok] by metis
    show thesis by (rule that [of s' new h]) (use False r assms(1) ids in \<open>auto simp: advance_def Let_def clocks_ok_def\<close>)
  qed
qed

text \<open>Both ways of taking over the clock of a transaction make it visible, and so does flushing.\<close>

lemma flush_ok:
  assumes "clocks_ok I n s"
  obtains s' where "flush_stacked nG l s = Inr s'" and "clocks_ok I n s'" and "\<And>i. visible s' i = visible s i"
    and "txnWaitFor s' = txnWaitFor s" and "txnToClk s' = txnToClk s" and "2 \<le> nG \<Longrightarrow> l = 0 \<Longrightarrow> stackedClk s' = None"
proof (cases "10 < nStacked s \<or> (l < nG div 2 \<and> stackedClk s \<noteq> None)")
  case True
  then obtain c where c: "stackedClk s = Some c" "on_ids I c" using assms by (cases "stackedClk s") (auto simp: clocks_ok_def)
  obtain s' h new where a: "advance (Some c) (nStacked s) s = Inr s'" "clocks_ok I n s'"
    "s' = s\<lparr>commit_clock := MergeInto (commit_clock s) (Some c), txnsSinceCompact := txnsSinceCompact s + int (nStacked s), waitingTMs := h, answers := answers s @ new\<rparr>"
    using advance_ok [OF assms c(2)] by metis
  have "on_ids I (commit_clock s)" using assms by (simp add: clocks_ok_def)
  from on_ids_MergeInto(2) [OF this c(2)] have "visible (s'\<lparr>nStacked := 0, stackedClk := None\<rparr>) i = visible s i" for i
    unfolding a(3) by (simp add: visible_def c(1))
  then show thesis by (intro that [of "s'\<lparr>nStacked := 0, stackedClk := None\<rparr>"]) (use True a c(1) in \<open>auto simp: flush_stacked_def clocks_ok_def answers_ok_def\<close>)
next
  case False
  show thesis by (rule that [of s]) (use False assms in \<open>auto simp: flush_stacked_def\<close>)
qed

lemma commit_ok:
  fixes tc tw
  assumes "clocks_ok I n s" and "on_ids I clk"
  defines "s1 \<equiv> s\<lparr>txnToClk := tc, txnWaitFor := tw\<rparr>"
  obtains s' where "(if b then Inr (s1\<lparr>stackedClk := Some (case stackedClk s1 of None \<Rightarrow> Copy_clk clk | Some c \<Rightarrow> MergeInto c (Some clk)),
      nStacked := Suc (nStacked s1)\<rparr>) else advance (Some clk) 1 s1) = Inr s'"
    and "clocks_ok I n s'" and "\<And>i. visible s' i = max (visible s i) (vget clk i)" and "txnWaitFor s' = tw" and "txnToClk s' = tc"
proof -
  have ok: "clocks_ok I n s1" using assms(1) by (simp add: s1_def clocks_ok_def answers_ok_def)
  have vis: "visible s1 i = visible s i" for i by (simp add: s1_def visible_def split: option.split)
  show thesis
  proof (cases b)
    case False
    obtain s' h new where a: "advance (Some clk) 1 s1 = Inr s'" "clocks_ok I n s'"
      "s' = s1\<lparr>commit_clock := MergeInto (commit_clock s1) (Some clk), txnsSinceCompact := txnsSinceCompact s1 + int 1, waitingTMs := h, answers := answers s1 @ new\<rparr>"
      using advance_ok [OF ok assms(2)] by metis
    have "on_ids I (commit_clock s1)" using ok by (simp add: clocks_ok_def)
    from on_ids_MergeInto(2) [OF this assms(2)] have "visible s' i = max (visible s1 i) (vget clk i)" for i
      unfolding a(3) by (simp add: visible_def ac_simps split: option.split)
    then show thesis by (intro that [of s']) (use False a vis in \<open>simp_all add: s1_def\<close>)
  next
    case True
    let ?c = "case stackedClk s1 of None \<Rightarrow> Copy_clk clk | Some c \<Rightarrow> MergeInto c (Some clk)"
    let ?s = "s1\<lparr>stackedClk := Some ?c, nStacked := Suc (nStacked s1)\<rparr>"
    have c: "on_ids I ?c" using ok assms(2) on_ids_Copy on_ids_MergeInto(1) by (auto simp: clocks_ok_def split: option.split)
    have "visible ?s i = max (visible s1 i) (vget clk i)" for i
    proof (cases "stackedClk s1")
      case None
      with assms(2) show ?thesis by (simp add: visible_def vget_Copy_clk on_ids_def)
    next
      case (Some c)
      then have "on_ids I c" using ok by (simp add: clocks_ok_def)
      from on_ids_MergeInto(2) [OF this assms(2)] Some show ?thesis by (simp add: visible_def ac_simps)
    qed
    then show thesis by (intro that [of ?s]) (use True ok c vis in \<open>simp_all add: s1_def clocks_ok_def answers_ok_def\<close>)
  qed
qed

definition commits_inv :: "int set \<Rightarrow> ClockSiTimestamp \<Rightarrow> TMCommitInfo list \<Rightarrow> commit_state \<Rightarrow> bool" where
  "commits_inv I clk0 ms s \<longleftrightarrow> clocks_ok I (n_waits ms) s \<and> counts_ok ms s
     \<and> (\<forall>i. visible s i = Max (insert (vget clk0 i) ((\<lambda>c. vget c i) ` committed_clks ms)))"

lemma counts_at: "counts_ok ms s \<Longrightarrow> map_of (announced ms) t = Some (n, clk) \<Longrightarrow> \<not> (0 < n \<and> replied ms t = n) \<Longrightarrow>
    txnWaitFor s t = Some (n - replied ms t) \<and> txnToClk s t = Some clk"
  unfolding counts_ok_def by (drule spec [of _ t]) (simp add: count_ok_def)

lemma announce_inv:
  assumes "commits_inv I clk0 ms s" and "msg_ok I ms (CommitNPartitions n t clk)" and "msgs_ok I ms"
  shows "commits_inv I clk0 (ms @ [CommitNPartitions n t clk]) (s\<lparr>txnToClk := (txnToClk s)(t \<mapsto> clk), txnWaitFor := (txnWaitFor s)(t \<mapsto> n)\<rparr>)"
proof -
  let ?ms = "ms @ [CommitNPartitions n t clk]"
  have t: "t \<notin> fst ` set (announced ms)" "replied ms t = 0" using assms(2) by (simp_all add: msg_ok_def)
  have r: "replied ?ms u = replied ms u" for u by (simp add: replied_snoc)
  have "counts_ok ?ms (s\<lparr>txnToClk := (txnToClk s)(t \<mapsto> clk), txnWaitFor := (txnWaitFor s)(t \<mapsto> n)\<rparr>)"
    unfolding counts_ok_def r announced_snoc
  proof
    fix u show "count_ok (map_of (announced ms @ announcement (CommitNPartitions n t clk)) u) (replied ms u)
      (txnWaitFor (s\<lparr>txnToClk := (txnToClk s)(t \<mapsto> clk), txnWaitFor := (txnWaitFor s)(t \<mapsto> n)\<rparr>) u)
      (txnToClk (s\<lparr>txnToClk := (txnToClk s)(t \<mapsto> clk), txnWaitFor := (txnWaitFor s)(t \<mapsto> n)\<rparr>) u)"
    proof (cases "u = t")
      case True
      have "map_of (announced ms) t = None" using t(1) by (simp add: map_of_eq_None_iff)
      then show ?thesis using t(2) True by (simp add: map_add_def count_ok_def)
    next
      case False
      moreover have "count_ok (map_of (announced ms) u) (replied ms u) (txnWaitFor s u) (txnToClk s u)"
        using assms(1) by (simp add: commits_inv_def counts_ok_def)
      ultimately show ?thesis by (auto simp: map_add_def split: option.split)
    qed
  qed
  moreover have "committed_clks ?ms = committed_clks ms"
    using t by (auto simp: committed_clks_def r announced_snoc)
  moreover have "clocks_ok I (n_waits ?ms) (s\<lparr>txnToClk := (txnToClk s)(t \<mapsto> clk), txnWaitFor := (txnWaitFor s)(t \<mapsto> n)\<rparr>)"
    using assms(1) by (simp add: commits_inv_def clocks_ok_def answers_ok_def n_waits_snoc)
  moreover have "visible (s\<lparr>txnToClk := (txnToClk s)(t \<mapsto> clk), txnWaitFor := (txnWaitFor s)(t \<mapsto> n)\<rparr>) i = visible s i" for i
    by (simp add: visible_def split: option.split)
  ultimately show ?thesis using assms(1) by (simp add: commits_inv_def)
qed

lemma committed_snoc:
  assumes "msgs_ok I ms" and "(t, n, clk) \<in> set (announced ms)" and "replied ms t < n"
  shows "committed_clks (ms @ [PartCommitReply t]) = (if replied ms t + 1 = n then insert clk (committed_clks ms) else committed_clks ms)"
proof -
  have u: "m = n \<and> c = clk" if "(t, m, c) \<in> set (announced ms)" for m c
    using that assms(2) eq_key_imp_eq_value [of "announced ms"] announced_once [OF assms(1)] by (fastforce simp: wf_map_def)
  define others where "others = {c. \<exists>u m. (u, m, c) \<in> set (announced ms) \<and> u \<noteq> t \<and> 0 < m \<and> replied ms u = m}"
  have "x \<noteq> t" if "(x, m, c) \<in> set (announced ms)" "replied ms x = m" for x m c
    using u [of m c] that assms(3) by auto
  then have "committed_clks ms = others" unfolding committed_clks_def others_def by blast
  moreover have "committed_clks (ms @ [PartCommitReply t]) = others \<union> (if replied ms t + 1 = n then {clk} else {})"
  proof -
    have "0 < n" using assms(3) by (simp add: replied_def)
    have eq: "(\<exists>u m. (u, m, c) \<in> set (announced ms) \<and> 0 < m \<and> (if u = t then replied ms t + 1 else replied ms u) = m)
        \<longleftrightarrow> c \<in> others \<or> replied ms t + 1 = n \<and> c = clk" (is "?l \<longleftrightarrow> ?r") for c
    proof
      assume ?l
      then obtain x m where x: "(x, m, c) \<in> set (announced ms)" "0 < m" "(if x = t then replied ms t + 1 else replied ms x) = m" by blast
      show ?r
      proof (cases "x = t")
        case True
        with x u [of m c] show ?thesis by simp
      qed (use x in \<open>auto simp: others_def\<close>)
    next
      assume ?r
      then show ?l using assms(2) \<open>0 < n\<close> by (fastforce simp: others_def)
    qed
    have rep: "replied (ms @ [PartCommitReply t]) x = (if x = t then replied ms t + 1 else replied ms x)" for x by (simp add: replied_snoc)
    have ann: "announced (ms @ [PartCommitReply t]) = announced ms" by (simp add: announced_snoc)
    show ?thesis unfolding committed_clks_def rep ann eq by auto
  qed
  ultimately show ?thesis by simp
qed

lemma reply_inv:
  assumes "commits_inv I clk0 ms s" and "msg_ok I ms (PartCommitReply t)" and "msgs_ok I ms"
  obtains s' where "handle_commit_info nG l s (PartCommitReply t) = Inr s'" and "commits_inv I clk0 (ms @ [PartCommitReply t]) s'"
proof -
  let ?ms = "ms @ [PartCommitReply t]"
  obtain n clk where a: "(t, n, clk) \<in> set (announced ms)" "replied ms t < n" using assms(2) by (auto simp: msg_ok_def)
  have m: "map_of (announced ms) t = Some (n, clk)" using a(1) announced_once [OF assms(3)] by (simp add: wf_map_def)
  have w: "txnWaitFor s t = Some (n - replied ms t)" "txnToClk s t = Some clk"
    using counts_at [OF _ m] assms(1) a(2) by (auto simp: commits_inv_def)
  have ann: "announced ?ms = announced ms" and wait: "n_waits ?ms = n_waits ms" by (simp_all add: announced_snoc n_waits_snoc)
  have rep: "replied ?ms u = (if u = t then replied ms t + 1 else replied ms u)" for u by (simp add: replied_snoc)
  have pos: "0 < n" using a(2) by (simp add: replied_def)
  have ok: "clocks_ok I (n_waits ms) s" "counts_ok ms s" using assms(1) by (simp_all add: commits_inv_def)
  note vis = assms(1) [unfolded commits_inv_def, THEN conjunct2, THEN conjunct2, rule_format]
  show thesis
  proof (cases "replied ms t + 1 = n")
    case True
    then have com: "committed_clks ?ms = insert clk (committed_clks ms)" using committed_snoc [OF assms(3) a] by simp
    let ?s1 = "s\<lparr>txnToClk := (txnToClk s)(t := None), txnWaitFor := (txnWaitFor s)(t := None)\<rparr>"
    obtain s' where s': "(if nG * 2 < l then Inr (?s1\<lparr>stackedClk := Some (case stackedClk ?s1 of None \<Rightarrow> Copy_clk clk | Some c \<Rightarrow> MergeInto c (Some clk)),
        nStacked := Suc (nStacked ?s1)\<rparr>) else advance (Some clk) 1 ?s1) = Inr s'"
      "clocks_ok I (n_waits ms) s'" "\<And>i. visible s' i = max (visible s i) (vget clk i)" "txnWaitFor s' = (txnWaitFor s)(t := None)"
      "txnToClk s' = (txnToClk s)(t := None)"
      using commit_ok [OF ok(1) announced_ids [OF assms(3) a(1)], of "nG * 2 < l" "(txnWaitFor s)(t := None)" "(txnToClk s)(t := None)"] by blast
    have "counts_ok ?ms s'" unfolding counts_ok_def ann
    proof
      fix u show "count_ok (map_of (announced ms) u) (replied ?ms u) (txnWaitFor s' u) (txnToClk s' u)"
        using ok(2) [unfolded counts_ok_def, rule_format, of u] m True pos by (cases "u = t") (simp_all add: s'(4,5) rep count_ok_def)
    qed
    moreover have "visible s' i = Max (insert (vget clk0 i) ((\<lambda>c. vget c i) ` committed_clks ?ms))" for i
      using Max_insert [of "insert (vget clk0 i) ((\<lambda>c. vget c i) ` committed_clks ms)" "vget clk i"]
      by (simp add: s'(3) vis com finite_committed insert_commute [of "vget clk0 i"] max.commute del: Max_insert)
    ultimately show thesis by (intro that [of s']) (use s' w True in \<open>simp_all add: commits_inv_def wait Let_def\<close>)
  next
    case False
    let ?s = "s\<lparr>txnWaitFor := (txnWaitFor s)(t \<mapsto> n - replied ms t - 1)\<rparr>"
    have com: "committed_clks ?ms = committed_clks ms" using committed_snoc [OF assms(3) a] False by simp
    have "counts_ok ?ms ?s" unfolding counts_ok_def ann
    proof
      fix u show "count_ok (map_of (announced ms) u) (replied ?ms u) (txnWaitFor ?s u) (txnToClk ?s u)"
        using ok(2) [unfolded counts_ok_def, rule_format, of u] m False w by (cases "u = t") (simp_all add: rep count_ok_def)
    qed
    moreover have "clocks_ok I (n_waits ?ms) ?s" using ok(1) by (simp add: clocks_ok_def answers_ok_def wait)
    moreover have "visible ?s i = visible s i" for i by (simp add: visible_def split: option.split)
    ultimately show thesis by (intro that [of ?s]) (use w False vis com in \<open>simp_all add: commits_inv_def\<close>)
  qed
qed

lemma wait_inv:
  assumes "commits_inv I clk0 ms s" and "msg_ok I ms (WaitClock clk i)"
  obtains s' where "handle_commit_info nG l s (WaitClock clk i) = Inr s'" and "commits_inv I clk0 (ms @ [WaitClock clk i]) s'"
proof -
  let ?w = "\<lparr>targetClk = Some clk, wc_client = i\<rparr>" and ?ms = "ms @ [WaitClock clk i]"
  have ok: "waiting_ok (waitingTMs s)" "nEntries (waitingTMs s) \<le> n_waits ms" "length (ch_entries (waitingTMs s)) = 100"
    "wf_map clk" "n_waits ms < 100" using assms by (simp_all add: commits_inv_def clocks_ok_def msg_ok_def)
  obtain h where h: "waiting_push (waitingTMs s) ?w = Inr h" "waiting_ok h" "nEntries h = Suc (nEntries (waitingTMs s))"
      "length (ch_entries h) = length (ch_entries (waitingTMs s))"
    using waiting_push_keeps [of "waitingTMs s" ?w clk] ok by auto
  have "committed_clks ?ms = committed_clks ms" by (simp add: committed_clks_def announced_snoc replied_snoc)
  moreover have "counts_ok ?ms (s\<lparr>waitingTMs := h\<rparr>)"
    using assms(1) by (simp add: commits_inv_def counts_ok_def announced_snoc replied_snoc)
  moreover have "clocks_ok I (n_waits ?ms) (s\<lparr>waitingTMs := h\<rparr>)"
    using assms(1) h ok by (simp add: commits_inv_def clocks_ok_def answers_ok_def n_waits_snoc)
  moreover have "visible (s\<lparr>waitingTMs := h\<rparr>) j = visible s j" for j by (simp add: visible_def split: option.split)
  ultimately show thesis by (intro that [of "s\<lparr>waitingTMs := h\<rparr>"]) (use h assms(1) in \<open>simp_all add: commits_inv_def\<close>)
qed

lemma info_inv:
  assumes "commits_inv I clk0 ms s" and "msg_ok I ms m" and "msgs_ok I ms"
  obtains s' where "handle_commit_info nG l s m = Inr s'" and "commits_inv I clk0 (ms @ [m]) s'"
proof (cases m)
  case (CommitNPartitions n t clk)
  with announce_inv assms that show thesis by simp
next
  case (PartCommitReply t)
  with reply_inv assms that show thesis by metis
next
  case (WaitClock clk i)
  with wait_inv assms that show thesis by metis
qed

lemma iteration_inv:
  assumes "commits_inv I clk0 ms s" and "msg_ok I ms m" and "msgs_ok I ms"
  obtains s' where "handleCommitReplies nG s (m, l1, l2) = Inr s'" and "commits_inv I clk0 (ms @ [m]) s'"
    and "2 \<le> nG \<Longrightarrow> l2 = 0 \<Longrightarrow> stackedClk s' = None"
proof -
  obtain s1 where s1: "handle_commit_info nG l1 s m = Inr s1" "commits_inv I clk0 (ms @ [m]) s1" using info_inv [OF assms] by metis
  then have "clocks_ok I (n_waits (ms @ [m])) s1" by (simp add: commits_inv_def)
  then obtain s' where s': "flush_stacked nG l2 s1 = Inr s'" "clocks_ok I (n_waits (ms @ [m])) s'" "\<And>i. visible s' i = visible s1 i"
    "txnWaitFor s' = txnWaitFor s1" "txnToClk s' = txnToClk s1" "2 \<le> nG \<Longrightarrow> l2 = 0 \<Longrightarrow> stackedClk s' = None" by (rule flush_ok) blast
  show thesis by (rule that [of s']) (use s1 s' in \<open>auto simp: handleCommitReplies_def commits_inv_def counts_ok_def\<close>)
qed

lemma commits_run:
  assumes "on_ids I clk0" and "msgs_ok I (map fst xs)"
  shows "\<exists>s. gfold (handleCommitReplies nGoRoutines) (start_commits clk0) xs = Inr s \<and> commits_inv I clk0 (map fst xs) s
    \<and> (2 \<le> nGoRoutines \<and> xs \<noteq> [] \<and> snd (snd (last xs)) = 0 \<longrightarrow> stackedClk s = None)"
  using assms(2)
proof (induction xs rule: rev_induct)
  case Nil
  have "commits_inv I clk0 [] (start_commits clk0)"
    using assms(1) by (simp add: commits_inv_def start_commits_def clocks_ok_def counts_ok_def count_ok_def announced_def visible_def
      committed_clks_def waiting_ok_def used_def n_waits_def answers_ok_def)
  then show ?case by simp
next
  case (snoc x xs)
  obtain m l1 l2 where x: "x = (m, l1, l2)" by (cases x)
  from snoc.prems have ok: "msgs_ok I (map fst xs)" "msg_ok I (map fst xs) m" by (simp_all add: msgs_ok_snoc x)
  then obtain s where s: "gfold (handleCommitReplies nGoRoutines) (start_commits clk0) xs = Inr s" "commits_inv I clk0 (map fst xs) s"
    using snoc.IH by blast
  obtain s' where "handleCommitReplies nGoRoutines s (m, l1, l2) = Inr s'" "commits_inv I clk0 (map fst xs @ [m]) s'"
    "2 \<le> nGoRoutines \<Longrightarrow> l2 = 0 \<Longrightarrow> stackedClk s' = None" using iteration_inv [OF s(2) ok(2,1)] by metis
  with s(1) show ?case by (auto simp: gfold_append x)
qed

text \<open>
  C28. The clock of the replica shows a transaction only when all of its partitions have
  committed it: whatever messages the commits, the partitions and the waiting clients send, in
  whatever order, the goroutine does not panic, and its clock together with the stacked one is the
  least upper bound of the initial clock and the clocks of exactly the transactions for which as
  many partitions as announced have replied. With two partitions or more the clock alone is that
  bound whenever the channel is empty, so the clocks of all completed transactions become visible.
  Every client that waited gets a clock that is not below the one it waited for.
\<close>

theorem commit_clock_visible:
  assumes "on_ids I clk0" and "msgs_ok I (map fst xs)"
  shows "\<exists>s. gfold (handleCommitReplies nGoRoutines) (start_commits clk0) xs = Inr s
    \<and> (\<forall>i. vget (commit_clock s) i \<le> visible s i
        \<and> visible s i = Max (insert (vget clk0 i) ((\<lambda>c. vget c i) ` committed_clks (map fst xs))))
    \<and> (2 \<le> nGoRoutines \<and> xs \<noteq> [] \<and> snd (snd (last xs)) = 0 \<longrightarrow> (\<forall>i. vget (commit_clock s) i = visible s i))
    \<and> (\<forall>(w, c) \<in> set (answers s). \<exists>t. targetClk w = Some t \<and> IsLowerOrEqual t (Some c))"
proof -
  obtain s where s: "gfold (handleCommitReplies nGoRoutines) (start_commits clk0) xs = Inr s" "commits_inv I clk0 (map fst xs) s"
    "2 \<le> nGoRoutines \<and> xs \<noteq> [] \<and> snd (snd (last xs)) = 0 \<longrightarrow> stackedClk s = None" using commits_run [OF assms] by blast
  have "vget (commit_clock s) i \<le> visible s i" for i by (simp add: visible_def split: option.split)
  with s show ?thesis by (auto simp: commits_inv_def clocks_ok_def answers_ok_def visible_def)
qed

text \<open>Two transactions over two partitions; one of the second's partitions has not replied.\<close>

definition two_commits :: "(TMCommitInfo \<times> nat \<times> nat) list" where
  "two_commits = [(CommitNPartitions 2 7 [(1, 4), (2, 0)], 9, 9), (CommitNPartitions 2 8 [(1, 6), (2, 0)], 9, 9),
     (PartCommitReply 8, 9, 9), (PartCommitReply 7, 9, 9), (PartCommitReply 7, 9, 0)]"

theorem commit_clock_visible_witness:
  "\<exists>s. gfold (handleCommitReplies 2) (start_commits [(1, 0), (2, 3)]) two_commits = Inr s
     \<and> vget (commit_clock s) 1 = 4 \<and> vget (commit_clock s) 2 = 3"
proof -
  have ids: "on_ids {1, 2} [(1, 0), (2, 3)]" by (auto simp: on_ids_def wf_map_def)
  have "msgs_ok {1, 2} (map fst two_commits)"
    by (simp add: two_commits_def msgs_ok_def All_less_Suc2 msg_ok_def announced_def replied_def on_ids_def wf_map_def numeral_2_eq_2)
  then obtain s where "gfold (handleCommitReplies 2) (start_commits [(1, 0), (2, 3)]) two_commits = Inr s"
    "\<And>i. vget (commit_clock s) i = Max (insert (vget [(1, 0), (2, 3)] i) ((\<lambda>c. vget c i) ` committed_clks (map fst two_commits)))"
    using commit_clock_visible [OF ids, of two_commits 2] by (fastforce simp: two_commits_def)
  moreover have "committed_clks (map fst two_commits) = {[(1, 4), (2, 0)]}"
    by (auto simp: committed_clks_def two_commits_def announced_def replied_def)
  ultimately show ?thesis by (auto simp: vget_def)
qed

section \<open>Clients that wait\<close>

text \<open>While the first entry has to wait, nobody is answered and the heap stays as it is.\<close>

definition blocked :: "ClockSiTimestamp \<Rightarrow> commit_state \<Rightarrow> bool" where
  "blocked target s \<longleftrightarrow> 0 < nEntries (waitingTMs s) \<and> targetClk (wait_PeekMin (waitingTMs s)) = Some target"

lemma notify_clock: "notify j c x = Inr y \<Longrightarrow> commit_clock y = commit_clock x"
proof (induction j arbitrary: x)
  case (Suc j)
  then show ?case by (fastforce simp: gbind_eq_Inr split: if_splits option.splits)
qed simp

lemma advance_blocked:
  assumes "blocked target s" and "advance clk k s = Inr s'"
    and "\<not> IsLowerOrEqual target (Some (Copy_clk (commit_clock s')))"
  shows "answers s' = answers s \<and> waitingTMs s' = waitingTMs s"
proof -
  let ?s = "s\<lparr>commit_clock := MergeInto (commit_clock s) clk, txnsSinceCompact := txnsSinceCompact s + int k\<rparr>"
  have b: "0 < nEntries (waitingTMs s)" "targetClk (wait_PeekMin (waitingTMs s)) = Some target" using assms(1) by (simp_all add: blocked_def)
  then have n: "notify (nEntries (waitingTMs s)) (Copy_clk (commit_clock ?s)) ?s = Inr s'" using assms(2) by (simp add: advance_def Let_def)
  obtain m where m: "nEntries (waitingTMs s) = Suc m" using b(1) by (cases "nEntries (waitingTMs s)") auto
  from notify_clock [OF n] assms(3) have "\<not> IsLowerOrEqual target (Some (Copy_clk (commit_clock ?s)))" by simp
  with n b m have "s' = ?s" by simp
  then show ?thesis by simp
qed

lemma advance_clock:
  assumes "advance clk k s = Inr s'"
  shows "commit_clock s' = MergeInto (commit_clock s) clk"
  using assms by (auto simp: advance_def Let_def dest!: notify_clock split: if_splits)

text \<open>The clock only grows, so what it does not cover at the end it did not cover before.\<close>

definition grown :: "commit_state \<Rightarrow> commit_state \<Rightarrow> bool" where
  "grown s s' \<longleftrightarrow> (\<forall>i. vget (commit_clock s) i \<le> vget (commit_clock s') i) \<and> (wf_map (commit_clock s) \<longrightarrow> wf_map (commit_clock s'))"

lemma grown_refl [simp]: "grown s s"
  by (simp add: grown_def)

lemma grown_trans: "grown s s' \<Longrightarrow> grown s' s'' \<Longrightarrow> grown s s''"
  unfolding grown_def by (meson order_trans)

lemma grown_fields [simp]:
  "grown s (s'\<lparr>nStacked := n, stackedClk := c\<rparr>) = grown s s'" "grown (s\<lparr>txnToClk := a, txnWaitFor := b\<rparr>) s' = grown s s'"
  by (simp_all add: grown_def)

lemma advance_grown: "advance clk k s = Inr s' \<Longrightarrow> grown s s'"
  by (auto simp: grown_def MergeInto_def vget_MergeInto_ge wf_MergeInto_loop split: option.split dest!: advance_clock)

lemma not_covered:
  assumes "grown s s'" and "wf_map (commit_clock s)" and "\<not> IsLowerOrEqual target (Some (commit_clock s'))"
  shows "\<not> IsLowerOrEqual target (Some (Copy_clk (commit_clock s)))"
proof -
  obtain i v where iv: "(i, v) \<in> set target" "vget (commit_clock s') i < v" using assms(3) by (auto simp: IsLowerOrEqual_eq some_above_def)
  moreover from this assms(1,2) have "vget (Copy_clk (commit_clock s)) i < v" by (auto simp: grown_def vget_Copy_clk intro: order_le_less_trans)
  ultimately show ?thesis by (auto simp: IsLowerOrEqual_eq some_above_def)
qed

lemma info_blocked:
  assumes "blocked target s" and "handle_commit_info nG l s m = Inr s'" and "\<nexists>clk i. m = WaitClock clk i"
  shows "grown s s' \<and> (wf_map (commit_clock s) \<and> \<not> IsLowerOrEqual target (Some (Copy_clk (commit_clock s')))
    \<longrightarrow> blocked target s' \<and> answers s' = answers s \<and> waitingTMs s' = waitingTMs s)"
proof (cases m)
  case (CommitNPartitions n t clk)
  with assms show ?thesis by (auto simp: grown_def blocked_def)
next
  case (PartCommitReply t)
  let ?s = "s\<lparr>txnToClk := (txnToClk s)(t := None), txnWaitFor := (txnWaitFor s)(t := None)\<rparr>"
  have b: "blocked target ?s" using assms(1) by (simp add: blocked_def)
  consider "advance (Some (the (txnToClk s t))) 1 ?s = Inr s'" | "commit_clock s' = commit_clock s" "answers s' = answers s" "waitingTMs s' = waitingTMs s"
    using assms(2) by (auto simp: PartCommitReply Let_def split: option.splits if_splits)
  then show ?thesis
  proof cases
    case 1
    from advance_grown [OF 1] advance_blocked [OF b 1] assms(1) show ?thesis by (auto simp: blocked_def)
  qed (use assms(1) in \<open>auto simp: grown_def blocked_def\<close>)
qed (use assms(3) in auto)

lemma flush_blocked:
  assumes "blocked target s" and "flush_stacked nG l s = Inr s'"
  shows "grown s s' \<and> (\<not> IsLowerOrEqual target (Some (Copy_clk (commit_clock s')))
    \<longrightarrow> blocked target s' \<and> answers s' = answers s \<and> waitingTMs s' = waitingTMs s)"
proof -
  consider "s' = s" | s1 where "advance (stackedClk s) (nStacked s) s = Inr s1" "s' = s1\<lparr>nStacked := 0, stackedClk := None\<rparr>"
    using assms(2) by (auto simp: flush_stacked_def gbind_eq_Inr split: if_splits)
  then show ?thesis
  proof cases
    case 2
    from advance_grown [OF 2(1)] advance_blocked [OF assms(1) 2(1)] assms(1) show ?thesis by (auto simp: 2(2) blocked_def)
  qed (use assms(1) in auto)
qed

lemma flush_grown: "flush_stacked nG l s = Inr s' \<Longrightarrow> grown s s'"
  by (auto simp: flush_stacked_def gbind_eq_Inr dest!: advance_grown split: if_splits)

lemma info_grown:
  assumes "handle_commit_info nG l s m = Inr s'"
  shows "grown s s'"
proof (cases m)
  case (CommitNPartitions n t clk)
  with assms show ?thesis by (auto simp: grown_def)
next
  case (PartCommitReply t)
  with assms show ?thesis by (auto simp: Let_def grown_def [of s s'] dest!: advance_grown [unfolded grown_def] split: option.splits if_splits)
next
  case (WaitClock clk i)
  with assms show ?thesis by (auto simp: grown_def gbind_eq_Inr)
qed

lemma run_Cons:
  assumes "gfold (handleCommitReplies nG) s ((m, l1, l2) # xs) = Inr s'"
  obtains s1 s2 where "handle_commit_info nG l1 s m = Inr s1" and "flush_stacked nG l2 s1 = Inr s2" and "gfold (handleCommitReplies nG) s2 xs = Inr s'"
proof -
  obtain s2 where "handleCommitReplies nG s (m, l1, l2) = Inr s2" "gfold (handleCommitReplies nG) s2 xs = Inr s'" using assms by (auto simp: gbind_eq_Inr)
  then show thesis using that by (auto simp: handleCommitReplies_def gbind_eq_Inr)
qed

lemma run_grown: "gfold (handleCommitReplies nG) s xs = Inr s' \<Longrightarrow> grown s s'"
proof (induction xs arbitrary: s)
  case (Cons x xs)
  obtain m l1 l2 where x: "x = (m, l1, l2)" by (cases x)
  obtain s1 s2 where r: "handle_commit_info nG l1 s m = Inr s1" "flush_stacked nG l2 s1 = Inr s2"
    "gfold (handleCommitReplies nG) s2 xs = Inr s'" using run_Cons [OF Cons.prems [unfolded x]] by metis
  from grown_trans [OF info_grown [OF r(1)] grown_trans [OF flush_grown [OF r(2)] Cons.IH [OF r(3)]]] show ?case .
qed simp

lemma run_blocked:
  assumes "blocked target s" and "wf_map (commit_clock s)" and "gfold (handleCommitReplies nG) s xs = Inr s'"
    and "\<forall>x \<in> set xs. \<nexists>clk i. fst x = WaitClock clk i" and "\<not> IsLowerOrEqual target (Some (commit_clock s'))"
  shows "answers s' = answers s \<and> waitingTMs s' = waitingTMs s"
  using assms
proof (induction xs arbitrary: s)
  case (Cons x xs)
  obtain m l1 l2 where x: "x = (m, l1, l2)" by (cases x)
  obtain s1 s2 where r: "handle_commit_info nG l1 s m = Inr s1" "flush_stacked nG l2 s1 = Inr s2"
    "gfold (handleCommitReplies nG) s2 xs = Inr s'" using run_Cons [OF Cons.prems(3) [unfolded x]] by metis
  note g = info_grown [OF r(1)] flush_grown [OF r(2)] run_grown [OF r(3)]
  have wf: "wf_map (commit_clock s1)" "wf_map (commit_clock s2)" using g Cons.prems(2) by (auto simp: grown_def)
  note n1 = not_covered [OF grown_trans [OF g(2,3)] wf(1) Cons.prems(5)] and n2 = not_covered [OF g(3) wf(2) Cons.prems(5)]
  have b1: "blocked target s1 \<and> answers s1 = answers s \<and> waitingTMs s1 = waitingTMs s"
    using info_blocked [OF Cons.prems(1) r(1)] Cons.prems(2,4) n1 by (simp add: x)
  then have b2: "blocked target s2 \<and> answers s2 = answers s1 \<and> waitingTMs s2 = waitingTMs s1"
    using flush_blocked [OF _ r(2)] n2 by blast
  from Cons.IH [OF _ wf(2) r(3)] b1 b2 Cons.prems(4,5) show ?case by simp
qed simp

text \<open>
  C29. \<open>Less\<close> compares an entry with itself, so the heap of waiting clients is a stack of a
  kind: the client that asked last is the first. As long as its clock is not reached no client is
  answered, also those whose clocks have long been reached.
\<close>

theorem waiting_clients_starve:
  assumes "waiting_ok (waitingTMs s)" and "nEntries (waitingTMs s) < length (ch_entries (waitingTMs s))" and "wf_map target"
    and "wf_map (commit_clock s)" and "gfold (handleCommitReplies nGoRoutines) s ((WaitClock target client, l1, l2) # xs) = Inr s'"
    and "\<forall>x \<in> set xs. \<nexists>clk i. fst x = WaitClock clk i" and "\<not> IsLowerOrEqual target (Some (commit_clock s'))"
  shows "answers s' = answers s"
proof -
  let ?w = "\<lparr>targetClk = Some target, wc_client = client\<rparr>"
  obtain s1 s2 where r: "handle_commit_info nGoRoutines l1 s (WaitClock target client) = Inr s1" "flush_stacked nGoRoutines l2 s1 = Inr s2"
    "gfold (handleCommitReplies nGoRoutines) s2 xs = Inr s'" using run_Cons [OF assms(5)] by metis
  then obtain h where h: "waiting_push (waitingTMs s) ?w = Inr h" "s1 = s\<lparr>waitingTMs := h\<rparr>" by (auto simp: gbind_eq_Inr)
  have "wait_PeekMin h = ?w" using push_first [OF assms(1,2) _ assms(3) h(1)] by simp
  moreover have "0 < nEntries h" using waiting_push_keeps [OF assms(1,2) _ assms(3), of ?w] h(1) by (metis TMWaitClock.select_convs(1) sum.inject(2) zero_less_Suc)
  ultimately have b: "blocked target s1" by (simp add: blocked_def h(2))
  note g = flush_grown [OF r(2)] run_grown [OF r(3)]
  have wf: "wf_map (commit_clock s2)" using g(1) assms(4) by (simp add: grown_def h(2))
  from flush_blocked [OF b r(2)] not_covered [OF g(2) wf assms(7)] have "blocked target s2 \<and> answers s2 = answers s1" by blast
  with run_blocked [OF _ wf r(3) assms(6,7)] show ?thesis by (simp add: h(2))
qed

text \<open>Client 1 waits for clock 4 and client 2 for clock 9; the commit with clock 5 answers neither.\<close>

theorem waiting_clients_starve_witness:
  "\<exists>s s'. gfold (handleCommitReplies 2) (start_commits [(1, 0)]) [(WaitClock [(1, 4)] 1, 0, 0)] = Inr s
     \<and> gfold (handleCommitReplies 2) s [(WaitClock [(1, 9)] 2, 0, 0), (CommitNPartitions 1 7 [(1, 5)], 0, 0), (PartCommitReply 7, 0, 0)] = Inr s'
     \<and> commit_clock s' = [(1, 5)] \<and> IsLowerOrEqual [(1, 4)] (Some (commit_clock s')) \<and> answers s' = []"
proof -
  let ?st = "start_commits [(1, 0)]" and ?w = "\<lparr>targetClk = Some [(1, 4)], wc_client = 1\<rparr>"
  have ok: "waiting_ok (waitingTMs ?st)" "nEntries (waitingTMs ?st) < length (ch_entries (waitingTMs ?st))"
    by (simp_all add: start_commits_def waiting_ok_def used_def)
  obtain h where h: "waiting_push (waitingTMs ?st) ?w = Inr h" "waiting_ok h" "nEntries h = 1" "length (ch_entries h) = 100"
    by (rule waiting_push_keeps [OF ok, of ?w "[(1, 4)]"]) (simp_all add: wf_map_def start_commits_def)
  let ?s = "?st\<lparr>waitingTMs := h\<rparr>"
  have s: "gfold (handleCommitReplies 2) ?st [(WaitClock [(1, 4)] 1, 0, 0)] = Inr ?s"
    using h(1) by (simp add: handleCommitReplies_def flush_stacked_def start_commits_def)
  obtain h2 where h2: "waiting_push h \<lparr>targetClk = Some [(1, 9)], wc_client = 2\<rparr> = Inr h2" "waiting_ok h2" "nEntries h2 = 2" "length (ch_entries h2) = 100"
    by (rule waiting_push_keeps [OF h(2), of "\<lparr>targetClk = Some [(1, 9)], wc_client = 2\<rparr>" "[(1, 9)]"]) (use h in \<open>simp_all add: wf_map_def\<close>)
  have "targetClk (wait_PeekMin h2) = Some [(1, 9)]"
    using push_first [OF h(2) _ _ _ h2(1), of "[(1, 9)]"] h(3,4) by (simp add: wf_map_def)
  then obtain s' where s': "gfold (handleCommitReplies 2) ?s [(WaitClock [(1, 9)] 2, 0, 0), (CommitNPartitions 1 7 [(1, 5)], 0, 0), (PartCommitReply 7, 0, 0)] = Inr s'"
    "commit_clock s' = [(1, 5)]"
    using h2 by (simp add: handleCommitReplies_def flush_stacked_def start_commits_def advance_def Let_def MergeInto_def vget_def
        numeral_2_eq_2 IsLowerOrEqual_def Copy_clk_def)
  have "answers s' = answers ?s"
    by (rule waiting_clients_starve [OF _ _ _ _ s'(1)]) (use h s'(2) in \<open>simp_all add: wf_map_def start_commits_def IsLowerOrEqual_def vget_def\<close>)
  with s s' show ?thesis by (auto simp: start_commits_def IsLowerOrEqual_def vget_def)
qed

text \<open>
  The methods of the heap have value receivers, so the slice that \<open>Push\<close> appends to is lost:
  when as many clients wait as the slice has room for, the next one makes the server panic.
\<close>

theorem too_many_waiting_panics:
  assumes "nEntries (waitingTMs s) = length (ch_entries (waitingTMs s))" and "2 \<le> nEntries (waitingTMs s)"
  shows "handleCommitReplies nGoRoutines s (WaitClock clk client, l1, l2) = Inl IndexOutOfRange"
proof -
  have "nEntries (waitingTMs s) \<noteq> (nEntries (waitingTMs s) - 1) div 2" using assms(2) by linarith
  then show ?thesis using assms(1) by (simp add: handleCommitReplies_def waiting_push_def wait_Push_def)
qed

theorem too_many_waiting_panics_witness:
  "handleCommitReplies 2 ((start_commits [(1, 0)])\<lparr>waitingTMs := \<lparr>ch_entries = replicate 100 \<lparr>targetClk = Some [(1, 9)], wc_client = 3\<rparr>, nEntries = 100\<rparr>\<rparr>)
     (WaitClock [(1, 8)] 4, 0, 0) = Inl IndexOutOfRange"
  by (rule too_many_waiting_panics) simp_all

text \<open>
  With a single partition, the default configuration, the clocks that were stacked while the
  channel was full are not flushed when it gets empty: after a burst of three commits the channel
  is empty, all of them have been committed by the partition, and the clock of the replica shows
  none of them. Nothing but further commits changes that.
\<close>

definition burst :: "(TMCommitInfo \<times> nat \<times> nat) list" where
  "burst = [(CommitNPartitions 1 7 [(1, 4)], 5, 5), (CommitNPartitions 1 8 [(1, 5)], 4, 4), (CommitNPartitions 1 9 [(1, 6)], 3, 3),
     (PartCommitReply 7, 3, 3), (PartCommitReply 8, 3, 3), (PartCommitReply 9, 3, 0)]"

lemma burst_committed: "committed_clks (map fst burst) = {[(1, 4)], [(1, 5)], [(1, 6)]}"
proof -
  have "announced (map fst burst) = [(7, 1, [(1, 4)]), (8, 1, [(1, 5)]), (9, 1, [(1, 6)])]" by (simp add: burst_def announced_def)
  moreover have "replied (map fst burst) 7 = 1" "replied (map fst burst) 8 = 1" "replied (map fst burst) 9 = 1" by (simp_all add: burst_def replied_def)
  moreover have "committed_clks ms = set (map (snd \<circ> snd) (filter (\<lambda>(t, n, c). 0 < n \<and> replied ms t = n) (announced ms)))" for ms
    by (force simp: committed_clks_def)
  ultimately have "committed_clks (map fst burst) = set [[(1, 4)], [(1, 5)], [(1, 6)]]" by (simp del: set_map set_filter)
  then show ?thesis by simp
qed

lemma burst_run:
  "map_sum id (\<lambda>s. (commit_clock s, nStacked s)) (gfold (handleCommitReplies 1) (start_commits [(1, 0)]) burst) = Inr ([(1, 0)], 3)"
  by code_simp

theorem single_partition_not_flushed:
  "\<exists>s. gfold (handleCommitReplies 1) (start_commits [(1, 0)]) burst = Inr s \<and> committed_clks (map fst burst) = {[(1, 4)], [(1, 5)], [(1, 6)]}
     \<and> commit_clock s = [(1, 0)] \<and> (\<forall>l. flush_stacked 1 l s = Inr s)"
proof -
  obtain s where "gfold (handleCommitReplies 1) (start_commits [(1, 0)]) burst = Inr s" "commit_clock s = [(1, 0)]" "nStacked s = 3"
    using burst_run by (cases "gfold (handleCommitReplies 1) (start_commits [(1, 0)]) burst") auto
  with burst_committed show ?thesis by (simp add: flush_stacked_def)
qed

end
