(* ===== verification/Transactions.thy ===== *)
theory Transactions
  imports Materializer CommitClock
begin

text \<open>
  The client side of \<^verbatim>\<open>potionDB/components/transactionManager.go\<close>: where an object is, how updates and
  reads are grouped by partition and server, and the transactions of clients as the requests they
  make to the partitions, which are values here, together with the commit timestamp chosen from
  the partitions' replies. The replies of a commit come in any order: a list argument. The
  connections to other servers are not modelled; what is sent to them is returned.
\<close>

record RemoteInfo =
  remoteBks :: "string list list"
  remoteIPs :: "string list"
  bucketToIndex :: "(string \<times> nat list) list"
  remoteIDToIndex :: "(int \<times> nat) list"
  ownBuckets :: "string list"
  hasAll :: bool

definition handleReplicaID :: "int \<Rightarrow> string \<Rightarrow> string list \<Rightarrow> RemoteInfo \<times> int list \<Rightarrow> RemoteInfo \<times> int list" where
  "handleReplicaID remoteID ip bkts state = (case state of (ri, knownIDs) \<Rightarrow>
     if map_of (remoteIDToIndex ri) remoteID \<noteq> None then state
     else (ri\<lparr>remoteBks := remoteBks ri @ [bkts], remoteIPs := remoteIPs ri @ [ip],
              remoteIDToIndex := mput remoteID (length (remoteIPs ri)) (remoteIDToIndex ri)\<rparr>, knownIDs @ [remoteID]))"

definition add_server :: "nat \<Rightarrow> (string \<times> nat list) list \<Rightarrow> string \<Rightarrow> (string \<times> nat list) list" where
  "add_server i m bkt = mput bkt ((case map_of m bkt of None \<Rightarrow> [] | Some is \<Rightarrow> is) @ [i]) m"

definition finish_buckets :: "RemoteInfo \<Rightarrow> RemoteInfo" where
  "finish_buckets ri = ri\<lparr>bucketToIndex := foldl (\<lambda>m (i, bkts). foldl (add_server i) m bkts) (bucketToIndex ri)
       (zip [0..<length (remoteBks ri)] (remoteBks ri)), remoteBks := []\<rparr>"

text \<open>A bucket nobody has is asked of a server with all buckets; without one the index of the empty list panics.\<close>

definition getReadLocation :: "RemoteInfo \<Rightarrow> string \<Rightarrow> (bool \<times> nat) go" where
  "getReadLocation ri bkt =
     (if hasAll ri \<or> bkt = [] \<or> bkt \<in> set (ownBuckets ri) then Inr (False, 0)
      else let serverMap = (case map_of (bucketToIndex ri) bkt of Some is \<Rightarrow> is
                 | None \<Rightarrow> (case map_of (bucketToIndex ri) ''*'' of Some is \<Rightarrow> is | None \<Rightarrow> []))
           in (case serverMap of [] \<Rightarrow> Inl IndexOutOfRange | i # _ \<Rightarrow> Inr (True, i)))"

section \<open>Grouping\<close>

definition append_at :: "nat \<Rightarrow> 'a \<Rightarrow> 'a list list \<Rightarrow> 'a list list go" where
  "append_at i x xss = (if i < length xss then Inr (xss[i := xss ! i @ [x]]) else Inl IndexOutOfRange)"

definition groupReads :: "(string \<Rightarrow> nat) \<Rightarrow> nat \<Rightarrow> KeyParams list \<Rightarrow> KeyParams list list go" where
  "groupReads hash nGoRoutines reads =
     gfold (\<lambda>xss k. append_at (GetChannelKey hash nGoRoutines k) k xss) (replicate nGoRoutines []) reads"

definition group_write ::
    "(string \<Rightarrow> nat) \<Rightarrow> nat \<Rightarrow> RemoteInfo \<Rightarrow> 'u UpdateObjectParams list list \<times> 'u UpdateObjectParams list list \<times> bool
       \<Rightarrow> 'u UpdateObjectParams \<Rightarrow> ('u UpdateObjectParams list list \<times> 'u UpdateObjectParams list list \<times> bool) go" where
  "group_write hash nGoRoutines ri state upd = (case state of (updsPerPartition, reqsPerServer, hasRemote) \<Rightarrow>
     gbind (getReadLocation ri (kp_Bucket (fst upd))) (\<lambda>(isRemote, serverIndex).
       if \<not> isRemote
       then gbind (append_at (GetChannelKey hash nGoRoutines (fst upd)) upd updsPerPartition) (\<lambda>xss. Inr (xss, reqsPerServer, hasRemote))
       else gbind (append_at serverIndex upd reqsPerServer) (\<lambda>xss. Inr (updsPerPartition, xss, True))))"

definition groupWrites ::
    "(string \<Rightarrow> nat) \<Rightarrow> nat \<Rightarrow> RemoteInfo \<Rightarrow> 'u UpdateObjectParams list
       \<Rightarrow> ('u UpdateObjectParams list list \<times> 'u UpdateObjectParams list list \<times> bool) go" where
  "groupWrites hash nGoRoutines ri updates =
     gfold (group_write hash nGoRoutines ri) (replicate nGoRoutines [], replicate (length (remoteIPs ri)) [], False) updates"

text \<open>A nil slice is the empty list; the partitions with a slice get a request, in order.\<close>

definition involved :: "'a list list \<Rightarrow> nat list" where
  "involved xss = filter (\<lambda>i. xss ! i \<noteq> []) [0..<length xss]"

section \<open>Committing\<close>

definition DummyTs :: ClockSiTimestamp where
  "DummyTs = NewTimestampFromId 0"

definition maxTimestamp :: "ClockSiTimestamp list \<Rightarrow> ClockSiTimestamp" where
  "maxTimestamp clks = foldl (\<lambda>m reply. if IsHigherOrEqual reply (Some m) then reply else m) DummyTs clks"

text \<open>
  What every commit does once the partitions have replied: it announces the number of partitions,
  then sends the commits.
\<close>

definition commit_phase ::
    "TransactionId \<Rightarrow> nat list \<Rightarrow> ClockSiTimestamp list \<Rightarrow> TMCommitInfo \<times> (nat \<times> ('u, 'r) MatRequestArgs) list \<times> ClockSiTimestamp" where
  "commit_phase txnId parts clks =
     (let ts = maxTimestamp clks
      in (CommitNPartitions (int (length parts)) txnId ts,
          map (\<lambda>i. (i, MatCommit \<lparr>ca_TransactionId = txnId, ca_CommitTimestamp = ts\<rparr>)) parts, ts))"

definition handleStaticTMUpdate ::
    "(string \<Rightarrow> nat) \<Rightarrow> nat \<Rightarrow> RemoteInfo \<Rightarrow> TransactionId \<Rightarrow> 'u UpdateObjectParams list
       \<Rightarrow> ((nat \<times> ('u, 'r) MatRequestArgs) list
            \<times> (ClockSiTimestamp list \<Rightarrow> TMCommitInfo \<times> (nat \<times> ('u, 'r) MatRequestArgs) list \<times> ClockSiTimestamp)
            \<times> 'u UpdateObjectParams list list \<times> bool) go" where
  "handleStaticTMUpdate hash nGoRoutines ri newTxnId updates =
     gbind (groupWrites hash nGoRoutines ri updates) (\<lambda>(updsPerPartition, reqsPerServer, hasRemote).
       Inr (map (\<lambda>i. (i, MatStaticUpdate (updsPerPartition ! i) newTxnId)) (involved updsPerPartition),
            commit_phase newTxnId (involved updsPerPartition), reqsPerServer, hasRemote))"

text \<open>Operations that applying remote updates has generated are committed as a transaction of this replica.\<close>

definition handleDownstreamGeneratedOps ::
    "TransactionId \<Rightarrow> (nat \<times> 'u UpdateObjectParams list) list
       \<Rightarrow> (nat \<times> ('u, 'r) MatRequestArgs) list
            \<times> (ClockSiTimestamp list \<Rightarrow> TMCommitInfo \<times> (nat \<times> ('u, 'r) MatRequestArgs) list \<times> ClockSiTimestamp)" where
  "handleDownstreamGeneratedOps newTxnId ops =
     (map (\<lambda>(i, upds). (i, MatPrepareForRemote upds newTxnId)) ops, commit_phase newTxnId (map fst ops))"

definition handleTMBCPerms :: "(KeyParams \<times> int) list list \<Rightarrow> int \<Rightarrow> (nat \<times> ('u, 'r) MatRequestArgs) list" where
  "handleTMBCPerms perms reqReplicaID = map (\<lambda>i. (i, MatBCTxnPermissions (perms ! i) reqReplicaID)) [0..<length perms]"

section \<open>Transactions\<close>

record ongoingTxn =
  ot_TransactionId :: TransactionId
  ot_partitions :: "bool list"
  originalClk :: Timestamp

definition reset_txn :: "nat \<Rightarrow> ongoingTxn \<Rightarrow> ongoingTxn" where
  "reset_txn nGoRoutines txn = txn\<lparr>ot_TransactionId := 0, ot_partitions := replicate nGoRoutines False, originalClk := None\<rparr>"

definition handleTMStartTxn :: "TransactionId \<Rightarrow> ClockSiTimestamp \<Rightarrow> ongoingTxn \<Rightarrow> ongoingTxn" where
  "handleTMStartTxn newTxnId newClock txn = txn\<lparr>originalClk := Some (Copy_clk newClock), ot_TransactionId := newTxnId\<rparr>"

definition mark :: "bool list \<Rightarrow> nat \<Rightarrow> bool list go" where
  "mark bs i = (if i < length bs then Inr (bs[i := True]) else Inl IndexOutOfRange)"

definition handleTMUpdate ::
    "(string \<Rightarrow> nat) \<Rightarrow> nat \<Rightarrow> RemoteInfo \<Rightarrow> TransactionId \<Rightarrow> 'u UpdateObjectParams list \<Rightarrow> ongoingTxn
       \<Rightarrow> ((nat \<times> ('u, 'r) MatRequestArgs) list \<times> ongoingTxn \<times> 'u UpdateObjectParams list list \<times> bool) go" where
  "handleTMUpdate hash nGoRoutines ri txnId updates txn =
     gbind (groupWrites hash nGoRoutines ri updates) (\<lambda>(updsPerPartition, reqsPerServer, hasRemote).
     gbind (gfold mark (ot_partitions txn) (involved updsPerPartition)) (\<lambda>bs.
       Inr (map (\<lambda>i. (i, MatUpdate (updsPerPartition ! i) txnId)) (involved updsPerPartition), txn\<lparr>ot_partitions := bs\<rparr>, reqsPerServer, hasRemote)))"

definition involvedPartitions :: "ongoingTxn \<Rightarrow> nat list" where
  "involvedPartitions txn = filter (\<lambda>i. ot_partitions txn ! i) [0..<length (ot_partitions txn)]"

definition handleTMCommit ::
    "nat \<Rightarrow> TransactionId \<Rightarrow> ongoingTxn
       \<Rightarrow> (nat \<times> ('u, 'r) MatRequestArgs) list
            \<times> (ClockSiTimestamp list \<Rightarrow> TMCommitInfo \<times> (nat \<times> ('u, 'r) MatRequestArgs) list \<times> ClockSiTimestamp) \<times> ongoingTxn" where
  "handleTMCommit nGoRoutines txnId txn =
     (map (\<lambda>i. (i, MatPrepare txnId)) (involvedPartitions txn), commit_phase txnId (involvedPartitions txn), reset_txn nGoRoutines txn)"

definition handleTMAbort :: "nat \<Rightarrow> TransactionId \<Rightarrow> ongoingTxn \<Rightarrow> (nat \<times> ('u, 'r) MatRequestArgs) list \<times> ongoingTxn" where
  "handleTMAbort nGoRoutines txnId txn = (map (\<lambda>i. (i, MatAbort txnId)) (involvedPartitions txn), reset_txn nGoRoutines txn)"

section \<open>Reads\<close>

text \<open>
  The clock a transaction reads at. The copy of the replica's clock is used when it covers the
  client's; otherwise the goroutine waits for their merge, and uses the clock that it gets from
  the channel \<open>replyChan\<close>: \<open>replyChan target\<close>, or \<open>None\<close> when nothing is ever sent. The first
  component are the clocks written to \<open>clksInUse\<close>, in their order.
\<close>

definition getClockToUse ::
    "ClockSiTimestamp \<Rightarrow> Timestamp \<Rightarrow> (ClockSiTimestamp \<Rightarrow> ClockSiTimestamp option) \<Rightarrow> ClockSiTimestamp list \<times> ClockSiTimestamp option" where
  "getClockToUse local_clk clientTs replyChan =
     (let copyClk = CopyInto local_clk []; tsToUse = Merge copyClk clientTs
      in if IsEqual tsToUse (Some copyClk) then ([copyClk], Some tsToUse) else ([copyClk, tsToUse], replyChan tsToUse))"

text \<open>What the goroutine of the commits has sent to a client that waits for a clock.\<close>

definition wait_answer :: "commit_state \<Rightarrow> nat \<Rightarrow> ClockSiTimestamp \<Rightarrow> ClockSiTimestamp option" where
  "wait_answer s client target = map_option snd (find (\<lambda>(w, c). w = \<lparr>targetClk = Some target, wc_client = client\<rparr>) (answers s))"

text \<open>The reads for partitions, with their position, and those for every server, with their positions.\<close>

type_synonym 'r routed = "(nat \<times> nat \<times> KeyParams \<times> 'r) list \<times> (KeyParams \<times> 'r) list list \<times> nat list list"

definition route_read ::
    "(string \<Rightarrow> nat) \<Rightarrow> nat \<Rightarrow> RemoteInfo \<Rightarrow> 'r routed \<Rightarrow> nat \<times> KeyParams \<times> 'r \<Rightarrow> 'r routed go" where
  "route_read hash nGoRoutines ri state entry = (case (state, entry) of ((local, reqsPerServer, remoteReqsToChan), (i, k, r)) \<Rightarrow>
     gbind (getReadLocation ri (kp_Bucket k)) (\<lambda>(isRemote, serverIndex).
       if \<not> isRemote then Inr (local @ [(i, GetChannelKey hash nGoRoutines k, k, r)], reqsPerServer, remoteReqsToChan)
       else gbind (append_at serverIndex (k, r) reqsPerServer) (\<lambda>reqs.
            gbind (append_at serverIndex i remoteReqsToChan) (\<lambda>chans. Inr (local, reqs, chans)))))"

definition route_reads ::
    "(string \<Rightarrow> nat) \<Rightarrow> nat \<Rightarrow> RemoteInfo \<Rightarrow> (KeyParams \<times> 'r) list \<Rightarrow> 'r routed go" where
  "route_reads hash nGoRoutines ri reads =
     gfold (route_read hash nGoRoutines ri) ([], replicate (length (remoteIPs ri)) [], replicate (length (remoteIPs ri)) [])
       (zip [0..<length reads] reads)"

text \<open>
  \<open>states[i]\<close> is what arrives in channel \<open>i\<close>: the reply of a partition, or the object of a server's
  reply whose position the read was sent with.
\<close>

definition server_states :: "'st option list \<Rightarrow> nat list \<times> 'st list \<Rightarrow> 'st option list go" where
  "server_states states reply = (case reply of (currIndexes, objs) \<Rightarrow>
     gfold (\<lambda>sts (j, obj). if j < length currIndexes \<and> currIndexes ! j < length sts then Inr (sts[currIndexes ! j := Some obj]) else Inl IndexOutOfRange)
       states (zip [0..<length objs] objs))"

definition handleTMRead ::
    "(string \<Rightarrow> nat) \<Rightarrow> nat \<Rightarrow> RemoteInfo \<Rightarrow> (nat \<Rightarrow> KeyParams \<times> 'r \<Rightarrow> 'st) \<Rightarrow> (nat \<Rightarrow> (KeyParams \<times> 'r) list \<Rightarrow> 'st list)
       \<Rightarrow> (KeyParams \<times> 'r) list \<Rightarrow> 'st option list go" where
  "handleTMRead hash nGoRoutines ri part_reply server_reply reads =
     gbind (route_reads hash nGoRoutines ri reads) (\<lambda>(local, reqsPerServer, remoteReqsToChan).
       gfold server_states (foldl (\<lambda>sts (i, partId, k, r). sts[i := Some (part_reply partId (k, r))]) (replicate (length reads) None) local)
         (map (\<lambda>s. (remoteReqsToChan ! s, server_reply s (reqsPerServer ! s))) (filter (\<lambda>s. reqsPerServer ! s \<noteq> []) [0..<length reqsPerServer])))"

text \<open>
  A static read takes its own clock, except the read of one object under the flag
  \<open>FAST_SINGLE_READ\<close>, which the partition answers at its own clock. \<open>None\<close> is a read that waits for ever.
\<close>

definition handleSingleRead ::
    "(string \<Rightarrow> nat) \<Rightarrow> nat \<Rightarrow> RemoteInfo \<Rightarrow> (nat \<Rightarrow> KeyParams \<times> 'r \<Rightarrow> 'st \<times> ClockSiTimestamp) \<Rightarrow> (nat \<Rightarrow> KeyParams \<times> 'r \<Rightarrow> 'st \<times> ClockSiTimestamp)
       \<Rightarrow> KeyParams \<times> 'r \<Rightarrow> ('st option list \<times> ClockSiTimestamp) go" where
  "handleSingleRead hash nGoRoutines ri part_single server_single readArgs =
     gbind (getReadLocation ri (kp_Bucket (fst readArgs))) (\<lambda>(isRemote, serverIndex).
       let (st, ts) = (if \<not> isRemote then part_single (GetChannelKey hash nGoRoutines (fst readArgs)) readArgs else server_single serverIndex readArgs)
       in Inr ([Some st], ts))"

definition handleStaticTMRead ::
    "bool \<Rightarrow> (string \<Rightarrow> nat) \<Rightarrow> nat \<Rightarrow> RemoteInfo \<Rightarrow> ClockSiTimestamp \<Rightarrow> Timestamp \<Rightarrow> (ClockSiTimestamp \<Rightarrow> ClockSiTimestamp option)
       \<Rightarrow> (nat \<Rightarrow> KeyParams \<times> 'r \<Rightarrow> 'st \<times> ClockSiTimestamp) \<Rightarrow> (nat \<Rightarrow> KeyParams \<times> 'r \<Rightarrow> 'st \<times> ClockSiTimestamp)
       \<Rightarrow> (ClockSiTimestamp \<Rightarrow> nat \<Rightarrow> KeyParams \<times> 'r \<Rightarrow> 'st) \<Rightarrow> (ClockSiTimestamp \<Rightarrow> nat \<Rightarrow> (KeyParams \<times> 'r) list \<Rightarrow> 'st list)
       \<Rightarrow> (KeyParams \<times> 'r) list \<Rightarrow> ('st option list \<times> ClockSiTimestamp) go option" where
  "handleStaticTMRead FAST_SINGLE_READ hash nGoRoutines ri local_clk clientTs replyChan part_single server_single part_reply server_reply reads =
     (if FAST_SINGLE_READ \<and> length reads = 1
      then Some (handleSingleRead hash nGoRoutines ri part_single server_single (hd reads))
      else map_option (\<lambda>tsToUse.
             gbind (handleTMRead hash nGoRoutines ri (part_reply tsToUse) (server_reply tsToUse) reads) (\<lambda>states. Inr (states, tsToUse)))
           (snd (getClockToUse local_clk clientTs replyChan)))"

text \<open>The partitions return the objects in any order, each with the position it was asked for with.\<close>

definition handleGetCRDT :: "KeyParams list \<Rightarrow> (nat \<times> 'c) list \<Rightarrow> 'c option list go" where
  "handleGetCRDT ks pairs = gfold (\<lambda>crdts (pos, c). if pos < length crdts then Inr (crdts[pos := Some c]) else Inl IndexOutOfRange)
     (replicate (length ks) None) pairs"

section \<open>Every update goes to its partition\<close>

definition at_home :: "RemoteInfo \<Rightarrow> KeyParams \<Rightarrow> bool" where
  "at_home ri k \<longleftrightarrow> (\<exists>j. getReadLocation ri (kp_Bucket k) = Inr (False, j))"

definition at_server :: "RemoteInfo \<Rightarrow> nat \<Rightarrow> KeyParams \<Rightarrow> bool" where
  "at_server ri s k \<longleftrightarrow> getReadLocation ri (kp_Bucket k) = Inr (True, s)"

text \<open>Every bucket is here or at a server that is known.\<close>

definition located :: "RemoteInfo \<Rightarrow> KeyParams \<Rightarrow> bool" where
  "located ri k \<longleftrightarrow> at_home ri k \<or> (\<exists>s < length (remoteIPs ri). at_server ri s k)"

definition hash_ok :: "(string \<Rightarrow> nat) \<Rightarrow> nat \<Rightarrow> bool" where
  "hash_ok hash nGoRoutines \<longleftrightarrow> (\<forall>k. GetChannelKey hash nGoRoutines k < nGoRoutines)"

lemma append_at_map: "i < n \<Longrightarrow> append_at i x (map f [0..<n]) = Inr (map (\<lambda>j. f j @ (if j = i then [x] else [])) [0..<n])"
  by (auto simp: append_at_def list_eq_iff_nth_eq nth_list_update)

lemma filter_snoc_map: "map (\<lambda>i. filter (P i) us @ (if P i u then [u] else [])) is = map (\<lambda>i. filter (P i) (us @ [u])) is"
  by simp

lemma groupWrites_ok:
  assumes "hash_ok hash n" and "\<forall>u \<in> set us. located ri (fst u)"
  shows "groupWrites hash n ri us = Inr (map (\<lambda>i. filter (\<lambda>u. at_home ri (fst u) \<and> GetChannelKey hash n (fst u) = i) us) [0..<n],
    map (\<lambda>s. filter (\<lambda>u. at_server ri s (fst u)) us) [0..<length (remoteIPs ri)], \<exists>u \<in> set us. \<not> at_home ri (fst u))"
  using assms(2) unfolding groupWrites_def
proof (induction us rule: rev_induct)
  case Nil
  then show ?case by (simp add: map_replicate_const)
next
  case (snoc u us)
  let ?P = "\<lambda>i u. at_home ri (fst u) \<and> GetChannelKey hash n (fst u) = i" and ?Q = "\<lambda>s u. at_server ri s (fst u)"
  from snoc.prems have u: "located ri (fst u)" by simp
  show ?case
  proof (cases "at_home ri (fst u)")
    case True
    then obtain j where "getReadLocation ri (kp_Bucket (fst u)) = Inr (False, j)" by (auto simp: at_home_def)
    moreover have "\<not> at_server ri s (fst u)" for s using calculation by (simp add: at_server_def)
    moreover have "append_at (GetChannelKey hash n (fst u)) u (map (\<lambda>i. filter (?P i) us) [0..<n]) = Inr (map (\<lambda>i. filter (?P i) (us @ [u])) [0..<n])"
      using append_at_map [of "GetChannelKey hash n (fst u)" n u "\<lambda>i. filter (?P i) us"] assms(1) True
      by (auto simp: hash_ok_def filter_snoc_map [symmetric])
    ultimately show ?thesis using snoc True by (simp add: gfold_append group_write_def)
  next
    case False
    then obtain s where s: "s < length (remoteIPs ri)" "getReadLocation ri (kp_Bucket (fst u)) = Inr (True, s)"
      using u by (auto simp: located_def at_server_def)
    then have "append_at s u (map (\<lambda>s. filter (?Q s) us) [0..<length (remoteIPs ri)]) = Inr (map (\<lambda>s. filter (?Q s) (us @ [u])) [0..<length (remoteIPs ri)])"
      using append_at_map [of s "length (remoteIPs ri)" u "\<lambda>s. filter (?Q s) us"] by (auto simp: at_server_def filter_snoc_map [symmetric])
    with s(2) False snoc show ?thesis by (simp add: gfold_append group_write_def)
  qed
qed

text \<open>The requests of the updates of a transaction, one after the other, and what a partition gets of them.\<close>

definition txn_updates ::
    "(string \<Rightarrow> nat) \<Rightarrow> nat \<Rightarrow> RemoteInfo \<Rightarrow> TransactionId \<Rightarrow> 'u UpdateObjectParams list list \<Rightarrow> ongoingTxn
       \<Rightarrow> ((nat \<times> ('u, 'r) MatRequestArgs) list \<times> ongoingTxn) go" where
  "txn_updates hash n ri txnId uss txn = gfold (\<lambda>(reqs, txn) us.
     gbind (handleTMUpdate hash n ri txnId us txn) (\<lambda>(rs, txn', x). Inr (reqs @ rs, txn'))) ([], txn) uss"

definition sent_updates :: "nat \<Rightarrow> (nat \<times> ('u, 'r) MatRequestArgs) list \<Rightarrow> 'u UpdateObjectParams list" where
  "sent_updates i reqs = concat (map (\<lambda>(j, req). case req of MatUpdate us t \<Rightarrow> if j = i then us else [] | _ \<Rightarrow> []) reqs)"

definition here :: "(string \<Rightarrow> nat) \<Rightarrow> nat \<Rightarrow> RemoteInfo \<Rightarrow> nat \<Rightarrow> 'u UpdateObjectParams \<Rightarrow> bool" where
  "here hash n ri i u \<longleftrightarrow> at_home ri (fst u) \<and> GetChannelKey hash n (fst u) = i"

lemma mark_all:
  assumes "\<forall>i \<in> set is. i < length bs"
  shows "gfold mark bs is = Inr (map (\<lambda>i. bs ! i \<or> i \<in> set is) [0..<length bs])"
  using assms
proof (induction "is" arbitrary: bs)
  case Nil
  then show ?case by (simp add: map_nth)
next
  case (Cons i "is")
  have "gfold mark (bs[i := True]) is = Inr (map (\<lambda>j. bs[i := True] ! j \<or> j \<in> set is) [0..<length bs])"
    using Cons.IH [of "bs[i := True]"] Cons.prems by simp
  moreover have "map (\<lambda>j. bs[i := True] ! j \<or> j \<in> set is) [0..<length bs] = map (\<lambda>j. bs ! j \<or> j \<in> set (i # is)) [0..<length bs]"
    using Cons.prems by (auto simp: nth_list_update split: if_splits)
  moreover have "mark bs i = Inr (bs[i := True])" using Cons.prems by (simp add: mark_def)
  ultimately show ?case by simp
qed

lemma sent_updates_map:
  assumes "distinct is" and "i \<notin> set is \<Longrightarrow> xss ! i = []"
  shows "sent_updates i (map (\<lambda>j. (j, MatUpdate (xss ! j) t)) is) = xss ! i"
  using assms by (induction "is") (auto simp: sent_updates_def)

lemma txn_updates_ok:
  assumes "hash_ok hash n" and "\<forall>us \<in> set uss. \<forall>u \<in> set us. located ri (fst u)" and "length (ot_partitions txn) = n"
  shows "\<exists>reqs :: (nat \<times> ('u, 'r) MatRequestArgs) list. txn_updates hash n ri t uss txn = Inr (reqs,
      txn\<lparr>ot_partitions := map (\<lambda>i. ot_partitions txn ! i \<or> (\<exists>u \<in> set (concat uss). here hash n ri i u)) [0..<n]\<rparr>)
    \<and> (\<forall>i < n. sent_updates i reqs = filter (here hash n ri i) (concat uss))"
  using assms(2)
proof (induction uss rule: rev_induct)
  case Nil
  have "map ((!) (ot_partitions txn)) [0..<n] = ot_partitions txn" using assms(3) map_nth by blast
  then show ?case by (simp add: txn_updates_def sent_updates_def)
next
  case (snoc us uss)
  let ?bs = "map (\<lambda>i. ot_partitions txn ! i \<or> (\<exists>u \<in> set (concat uss). here hash n ri i u)) [0..<n]"
  let ?xss = "map (\<lambda>i. filter (here hash n ri i) us) [0..<n]"
  let ?rs = "map (\<lambda>i. (i, MatUpdate (?xss ! i) t)) (involved ?xss) :: (nat \<times> ('u, 'r) MatRequestArgs) list"
  obtain reqs :: "(nat \<times> ('u, 'r) MatRequestArgs) list" where r: "txn_updates hash n ri t uss txn = Inr (reqs, txn\<lparr>ot_partitions := ?bs\<rparr>)"
    "\<forall>i < n. sent_updates i reqs = filter (here hash n ri i) (concat uss)" using snoc by auto
  have g: "groupWrites hash n ri us = Inr (?xss, map (\<lambda>s. filter (\<lambda>u. at_server ri s (fst u)) us) [0..<length (remoteIPs ri)], \<exists>u \<in> set us. \<not> at_home ri (fst u))"
    using groupWrites_ok [OF assms(1), of us ri] snoc.prems by (simp add: here_def [abs_def])
  have inv: "involved ?xss = filter (\<lambda>i. \<exists>u \<in> set us. here hash n ri i u) [0..<n]"
    unfolding involved_def by (auto simp: filter_empty_conv intro!: filter_cong)
  have "gfold mark ?bs (involved ?xss) = Inr (map (\<lambda>i. ?bs ! i \<or> i \<in> set (involved ?xss)) [0..<n])"
    using mark_all [of "involved ?xss" ?bs] by (simp add: inv)
  moreover have "map (\<lambda>i. ?bs ! i \<or> i \<in> set (involved ?xss)) [0..<n]
      = map (\<lambda>i. ot_partitions txn ! i \<or> (\<exists>u \<in> set (concat (uss @ [us])). here hash n ri i u)) [0..<n]"
    by (auto simp: inv)
  ultimately have "handleTMUpdate hash n ri t us (txn\<lparr>ot_partitions := ?bs\<rparr>)
      = Inr (?rs,
          txn\<lparr>ot_partitions := map (\<lambda>i. ot_partitions txn ! i \<or> (\<exists>u \<in> set (concat (uss @ [us])). here hash n ri i u)) [0..<n]\<rparr>,
          map (\<lambda>s. filter (\<lambda>u. at_server ri s (fst u)) us) [0..<length (remoteIPs ri)], \<exists>u \<in> set us. \<not> at_home ri (fst u))"
    by (simp add: handleTMUpdate_def g)
  moreover have "sent_updates i (reqs @ ?rs) = filter (here hash n ri i) (concat (uss @ [us]))"
    if "i < n" for i
  proof -
    have "sent_updates i ?rs = ?xss ! i"
      by (rule sent_updates_map) (use that in \<open>auto simp: involved_def\<close>)
    moreover have "sent_updates i (xs @ ys) = sent_updates i xs @ sent_updates i ys" for xs ys :: "(nat \<times> ('u, 'r) MatRequestArgs) list"
      by (simp add: sent_updates_def)
    ultimately show ?thesis using r(2) that by simp
  qed
  ultimately show ?case using r(1) by (simp add: txn_updates_def gfold_append)
qed

text \<open>
  C30. The updates of a transaction, over any number of requests: every partition gets exactly the
  updates whose objects it holds, in the order the client made them; at the commit exactly the
  partitions that got updates are asked to prepare; and whatever they reply, in whatever order,
  the same partitions, as many as are announced to the goroutine that keeps the replica's clock,
  get a commit, all with the same timestamp. Afterwards no partition takes part in the
  transaction any more.
\<close>

theorem txn_commits_everywhere:
  assumes "hash_ok hash n" and "\<forall>us \<in> set uss. \<forall>u \<in> set us. located ri (fst u)"
  shows "\<exists>(reqs :: (nat \<times> ('u, 'r) MatRequestArgs) list) txn'.
      txn_updates hash n ri t uss (handleTMStartTxn t clk (reset_txn n txn)) = Inr (reqs, txn')
    \<and> (\<forall>i < n. sent_updates i reqs = filter (here hash n ri i) (concat uss))
    \<and> (let parts = filter (\<lambda>i. sent_updates i reqs \<noteq> []) [0..<n]
       in case (handleTMCommit n t txn' :: (nat \<times> ('u, 'r) MatRequestArgs) list \<times> _ \<times> _) of (prepares, finish, txn'') \<Rightarrow>
            prepares = map (\<lambda>i. (i, MatPrepare t)) parts \<and> involvedPartitions txn'' = []
          \<and> (\<forall>clks. \<exists>ts. finish clks = (CommitNPartitions (int (length parts)) t ts,
               map (\<lambda>i. (i, MatCommit \<lparr>ca_TransactionId = t, ca_CommitTimestamp = ts\<rparr>)) parts, ts)))"
proof -
  let ?txn = "handleTMStartTxn t clk (reset_txn n txn)"
  have p: "ot_partitions ?txn = replicate n False" by (simp add: handleTMStartTxn_def reset_txn_def)
  obtain reqs :: "(nat \<times> ('u, 'r) MatRequestArgs) list" where r: "txn_updates hash n ri t uss ?txn = Inr (reqs,
      ?txn\<lparr>ot_partitions := map (\<lambda>i. ot_partitions ?txn ! i \<or> (\<exists>u \<in> set (concat uss). here hash n ri i u)) [0..<n]\<rparr>)"
    "\<forall>i < n. sent_updates i reqs = filter (here hash n ri i) (concat uss)"
    using txn_updates_ok [OF assms, of ?txn t] p by auto
  define txn' where "txn' = ?txn\<lparr>ot_partitions := map (\<lambda>i. ot_partitions ?txn ! i \<or> (\<exists>u \<in> set (concat uss). here hash n ri i u)) [0..<n]\<rparr>"
  have "involvedPartitions txn' = filter (\<lambda>i. sent_updates i reqs \<noteq> []) [0..<n]"
    unfolding involvedPartitions_def by (rule filter_cong) (use r(2) in \<open>auto simp: txn'_def p filter_empty_conv\<close>)
  moreover have "involvedPartitions (reset_txn n txn') = []" by (simp add: involvedPartitions_def reset_txn_def)
  moreover have "txn_updates hash n ri t uss ?txn = Inr (reqs, txn')" using r(1) by (simp only: txn'_def)
  ultimately show ?thesis using r(2) by (intro exI [of _ reqs] exI [of _ txn']) (simp add: handleTMCommit_def commit_phase_def Let_def)
qed

definition two_servers :: RemoteInfo where
  "two_servers = \<lparr>remoteBks = [], remoteIPs = [''a''], bucketToIndex = [(''far'', [0])], remoteIDToIndex = [(2, 0)], ownBuckets = [''b''], hasAll = False\<rparr>"

definition a_far_counter :: KeyParams where
  "a_far_counter = \<lparr>kp_Key = ''k'', kp_CrdtType = 3, kp_Bucket = ''far''\<rparr>"

definition high_hash :: "string \<Rightarrow> nat" where
  "high_hash s = 2 ^ 63 + 5"

definition some_increments :: "counter_op UpdateObjectParams list list" where
  "some_increments = [[(a_counter, Increment 1), (a_far_counter, Increment 2)], [(a_counter, Increment 4)]]"

theorem txn_commits_everywhere_witness:
  "\<exists>(reqs :: (nat \<times> (counter_op, unit) MatRequestArgs) list) txn'.
     txn_updates high_hash 2 two_servers 7 some_increments
       (handleTMStartTxn 7 [(1, 0)] (reset_txn 2 \<lparr>ot_TransactionId = 0, ot_partitions = [], originalClk = None\<rparr>)) = Inr (reqs, txn')
   \<and> sent_updates 0 reqs = [] \<and> sent_updates 1 reqs = [(a_counter, Increment 1), (a_counter, Increment 4)]"
proof -
  have k: "GetChannelKey high_hash 2 k = 1" for k by (simp add: GetChannelKey_def keyRangeSize_def Let_def high_hash_def)
  have l: "at_home two_servers a_counter" "\<not> at_home two_servers a_far_counter" "at_server two_servers 0 a_far_counter"
    by (simp_all add: at_home_def at_server_def getReadLocation_def two_servers_def a_counter_def a_far_counter_def Let_def)
  have "hash_ok high_hash 2" unfolding hash_ok_def k by simp
  moreover have "\<forall>us \<in> set some_increments. \<forall>u \<in> set us. located two_servers (fst u)"
    using l by (auto simp: located_def two_servers_def some_increments_def)
  ultimately obtain reqs :: "(nat \<times> (counter_op, unit) MatRequestArgs) list" and txn' where r: "txn_updates high_hash 2 two_servers 7 some_increments
       (handleTMStartTxn 7 [(1, 0)] (reset_txn 2 \<lparr>ot_TransactionId = 0, ot_partitions = [], originalClk = None\<rparr>)) = Inr (reqs, txn')"
    "\<forall>i < 2. sent_updates i reqs = filter (here high_hash 2 two_servers i) (concat some_increments)"
    using txn_commits_everywhere [where 'r = unit, of high_hash 2 some_increments two_servers 7 "[(1, 0)]" "\<lparr>ot_TransactionId = 0, ot_partitions = [], originalClk = None\<rparr>"] by blast
  moreover have "sent_updates 0 reqs = []" "sent_updates 1 reqs = [(a_counter, Increment 1), (a_counter, Increment 4)]"
    using r(2) l by (simp_all add: some_increments_def here_def k)
  ultimately show ?thesis by blast
qed

section \<open>The commit timestamp\<close>

definition nonneg_on :: "int set \<Rightarrow> ClockSiTimestamp \<Rightarrow> bool" where
  "nonneg_on I c \<longleftrightarrow> on_ids I c \<and> (\<forall>i. 0 \<le> vget c i)"

lemma IsHigherOrEqual_on_ids: "on_ids I a \<Longrightarrow> on_ids I b \<Longrightarrow> IsHigherOrEqual a (Some b) \<longleftrightarrow> le_clk b a"
  using some_below_iff [of a b] by (auto simp: on_ids_def same_ids_def IsHigherOrEqual_eq)

lemma first_reply: "nonneg_on I c \<Longrightarrow> IsHigherOrEqual c (Some DummyTs)"
proof -
  assume c: "nonneg_on I c"
  have "vget DummyTs i = 0" for i by (simp add: DummyTs_def NewTimestampFromId_def vget_def)
  moreover have "0 \<le> v" if "(i, v) \<in> set c" for i v
    using c that vget_entry [of c i v] unfolding nonneg_on_def on_ids_def by metis
  ultimately show ?thesis by (fastforce simp: IsHigherOrEqual_eq some_below_def)
qed

lemma max_from:
  assumes "\<forall>c \<in> insert m (set cs). on_ids I c" and "\<forall>a \<in> insert m (set cs). \<forall>b \<in> insert m (set cs). le_clk a b \<or> le_clk b a"
  defines "r \<equiv> foldl (\<lambda>m reply. if IsHigherOrEqual reply (Some m) then reply else m) m cs"
  shows "r \<in> insert m (set cs) \<and> (\<forall>c \<in> insert m (set cs). le_clk c r)"
  using assms(1,2) unfolding r_def
proof (induction cs arbitrary: m)
  case (Cons c cs)
  let ?m = "if IsHigherOrEqual c (Some m) then c else m"
  have h: "IsHigherOrEqual c (Some m) \<longleftrightarrow> le_clk m c" using Cons.prems(1) by (intro IsHigherOrEqual_on_ids) auto
  have m: "le_clk m ?m" "le_clk c ?m" using Cons.prems(2) by (auto simp: h)
  have "foldl (\<lambda>m reply. if IsHigherOrEqual reply (Some m) then reply else m) ?m cs \<in> insert ?m (set cs)
      \<and> (\<forall>c \<in> insert ?m (set cs). le_clk c (foldl (\<lambda>m reply. if IsHigherOrEqual reply (Some m) then reply else m) ?m cs))"
    by (rule Cons.IH) (use Cons.prems in auto)
  with le_clk_trans [OF m(1)] le_clk_trans [OF m(2)] show ?case by auto
qed simp

text \<open>
  When the clocks that the partitions reply with are pairwise comparable, the commit
  timestamp is the highest of them, so no partition has prepared above it, in whatever order the
  replies arrive.
\<close>

theorem maxTimestamp_highest:
  assumes "clks \<noteq> []" and "\<forall>c \<in> set clks. nonneg_on I c" and "\<forall>a \<in> set clks. \<forall>b \<in> set clks. le_clk a b \<or> le_clk b a"
  shows "maxTimestamp clks \<in> set clks \<and> (\<forall>c \<in> set clks. le_clk c (maxTimestamp clks))"
proof -
  obtain c cs where c: "clks = c # cs" using assms(1) by (cases clks) auto
  then have "maxTimestamp clks = foldl (\<lambda>m reply. if IsHigherOrEqual reply (Some m) then reply else m) c cs"
    using first_reply [of I c] assms(2) by (simp add: maxTimestamp_def)
  with max_from [of c cs I] assms(2,3) show ?thesis by (auto simp: c nonneg_on_def)
qed

theorem maxTimestamp_highest_witness:
  "maxTimestamp [[(1, 5), (2, 2)], [(1, 7), (2, 2)], [(1, 6), (2, 2)]] = [(1, 7), (2, 2)]
   \<and> le_clk [(1, 6), (2, 2)] (maxTimestamp [[(1, 5), (2, 2)], [(1, 7), (2, 2)], [(1, 6), (2, 2)]])"
proof -
  have "\<forall>c \<in> set [[(1, 5), (2, 2)], [(1, 7), (2, 2)], [(1, 6), (2, 2)]]. nonneg_on {1, 2 :: int} c"
    by (auto simp: nonneg_on_def on_ids_def wf_map_def vget_def)
  moreover have "\<forall>a \<in> set [[(1, 5), (2, 2)], [(1, 7), (2, 2)], [(1, 6), (2, 2)]]. \<forall>b \<in> set [[(1, 5), (2, 2)], [(1, 7), (2, 2)], [(1, 6), (2, 2)]]. le_clk a b \<or> le_clk b a"
    by (auto simp: le_clk_def vget_def)
  ultimately have "\<forall>c \<in> set [[(1, 5), (2, 2)], [(1, 7), (2, 2)], [(1, 6), (2, 2)]]. le_clk c (maxTimestamp [[(1, 5), (2, 2)], [(1, 7), (2, 2)], [(1, 6), (2, 2)]])"
    using maxTimestamp_highest by blast
  then show ?thesis by (simp add: maxTimestamp_def DummyTs_def NewTimestampFromId_def IsHigherOrEqual_def vget_def)
qed

text \<open>
  When two partitions reply with concurrent clocks, because one of them has applied more of
  another replica's transactions and the other has prepared later, the reply that arrives first
  is the commit timestamp. It is not above the clock the other partition has prepared.
\<close>

theorem maxTimestamp_concurrent:
  assumes "nonneg_on I a" and "nonneg_on I b" and "\<not> le_clk a b" and "\<not> le_clk b a"
  shows "maxTimestamp [a, b] = a \<and> maxTimestamp [b, a] = b \<and> \<not> le_clk b (maxTimestamp [a, b])"
proof -
  have "\<not> IsHigherOrEqual b (Some a)" "\<not> IsHigherOrEqual a (Some b)"
    using assms IsHigherOrEqual_on_ids [of I a b] IsHigherOrEqual_on_ids [of I b a] by (auto simp: nonneg_on_def)
  with first_reply [OF assms(1)] first_reply [OF assms(2)] assms(4) show ?thesis by (simp add: maxTimestamp_def)
qed

theorem maxTimestamp_concurrent_witness:
  "maxTimestamp [[(1, 10), (2, 5)], [(1, 9), (2, 7)]] = [(1, 10), (2, 5)] \<and> maxTimestamp [[(1, 9), (2, 7)], [(1, 10), (2, 5)]] = [(1, 9), (2, 7)]"
proof -
  have "nonneg_on {1, 2} [(1, 10), (2, 5)]" "nonneg_on {1, 2} [(1, 9), (2, 7)]" by (auto simp: nonneg_on_def on_ids_def wf_map_def vget_def)
  moreover have "\<not> le_clk [(1, 10), (2, 5)] [(1, 9), (2, 7)]" "\<not> le_clk [(1, 9), (2, 7)] [(1, 10), (2, 5)]"
    by (auto simp: le_clk_def vget_def intro: exI [of _ 1] exI [of _ 2])
  ultimately show ?thesis using maxTimestamp_concurrent by blast
qed

section \<open>Reads\<close>

text \<open>The positions of the reads that go to a server.\<close>

definition reads_at :: "RemoteInfo \<Rightarrow> nat \<Rightarrow> (KeyParams \<times> 'r) list \<Rightarrow> nat list" where
  "reads_at ri s reads = filter (\<lambda>i. at_server ri s (fst (reads ! i))) [0..<length reads]"

lemma reads_at_snoc: "reads_at ri s (reads @ [x]) = reads_at ri s reads @ (if at_server ri s (fst x) then [length reads] else [])"
proof -
  have "filter (\<lambda>i. at_server ri s (fst ((reads @ [x]) ! i))) [0..<length reads] = filter (\<lambda>i. at_server ri s (fst (reads ! i))) [0..<length reads]"
    by (rule filter_cong) (auto simp: nth_append)
  then show ?thesis by (simp add: reads_at_def)
qed

lemma nth_reads_at: "map ((!) (reads @ [x])) (reads_at ri s reads) = map ((!) reads) (reads_at ri s reads)"
  by (auto simp: reads_at_def nth_append)

lemma route_reads_ok:
  assumes "\<forall>x \<in> set reads. located ri (fst x)"
  shows "route_reads hash n ri reads = Inr (map (\<lambda>i. (i, GetChannelKey hash n (fst (reads ! i)), reads ! i)) (filter (\<lambda>i. at_home ri (fst (reads ! i))) [0..<length reads]),
    map (\<lambda>s. map ((!) reads) (reads_at ri s reads)) [0..<length (remoteIPs ri)], map (\<lambda>s. reads_at ri s reads) [0..<length (remoteIPs ri)])"
  using assms unfolding route_reads_def
proof (induction reads rule: rev_induct)
  case Nil
  then show ?case by (simp add: reads_at_def map_replicate_const)
next
  case (snoc x reads)
  let ?n = "length reads" and ?S = "[0..<length (remoteIPs ri)]"
  obtain k r where x: "x = (k, r)" by (cases x)
  have z: "zip [0..<length (reads @ [x])] (reads @ [x]) = zip [0..<?n] reads @ [(?n, k, r)]" by (simp add: x)
  have loc: "map (\<lambda>i. (i, GetChannelKey hash n (fst ((reads @ [x]) ! i)), (reads @ [x]) ! i)) (filter (\<lambda>i. at_home ri (fst ((reads @ [x]) ! i))) [0..<length (reads @ [x])])
     = map (\<lambda>i. (i, GetChannelKey hash n (fst (reads ! i)), reads ! i)) (filter (\<lambda>i. at_home ri (fst (reads ! i))) [0..<?n])
       @ (if at_home ri k then [(?n, GetChannelKey hash n k, k, r)] else [])"
  proof -
    have "filter (\<lambda>i. at_home ri (fst ((reads @ [x]) ! i))) [0..<?n] = filter (\<lambda>i. at_home ri (fst (reads ! i))) [0..<?n]"
      by (rule filter_cong) (auto simp: nth_append)
    then show ?thesis by (auto simp: x nth_append)
  qed
  have u: "located ri k" using snoc.prems by (simp add: x)
  have IH: "gfold (route_read hash n ri) ([], replicate (length (remoteIPs ri)) [], replicate (length (remoteIPs ri)) []) (zip [0..<?n] reads)
     = Inr (map (\<lambda>i. (i, GetChannelKey hash n (fst (reads ! i)), reads ! i)) (filter (\<lambda>i. at_home ri (fst (reads ! i))) [0..<?n]),
         map (\<lambda>s. map ((!) reads) (reads_at ri s reads)) ?S, map (\<lambda>s. reads_at ri s reads) ?S)"
    using snoc by simp
  show ?case
  proof (cases "at_home ri k")
    case True
    then obtain j where j: "getReadLocation ri (kp_Bucket k) = Inr (False, j)" by (auto simp: at_home_def)
    then have "\<not> at_server ri s k" for s by (simp add: at_server_def)
    then have e: "reads_at ri s (reads @ [x]) = reads_at ri s reads" for s by (simp add: reads_at_snoc x)
    have "route_read hash n ri (l, qs, cs) (?n, k, r) = Inr (l @ [(?n, GetChannelKey hash n k, k, r)], qs, cs)" for l qs cs
      by (simp add: route_read_def j)
    then show ?thesis using IH True unfolding z gfold_append loc by (simp add: nth_reads_at e)
  next
    case False
    then obtain s where s: "s < length (remoteIPs ri)" "getReadLocation ri (kp_Bucket k) = Inr (True, s)" using u by (auto simp: located_def at_server_def)
    then have at: "at_server ri t k \<longleftrightarrow> t = s" for t by (auto simp: at_server_def)
    have "append_at s (k, r) (map (\<lambda>s. map ((!) reads) (reads_at ri s reads)) ?S) = Inr (map (\<lambda>s. map ((!) (reads @ [x])) (reads_at ri s (reads @ [x]))) ?S)"
      using append_at_map [OF s(1), of "(k, r)" "\<lambda>s. map ((!) reads) (reads_at ri s reads)"] by (auto simp: reads_at_snoc nth_reads_at x at)
    moreover have "append_at s ?n (map (\<lambda>s. reads_at ri s reads) ?S) = Inr (map (\<lambda>s. reads_at ri s (reads @ [x])) ?S)"
      using append_at_map [OF s(1), of ?n "\<lambda>s. reads_at ri s reads"] by (auto simp: reads_at_snoc x at)
    ultimately have "route_read hash n ri (l, map (\<lambda>s. map ((!) reads) (reads_at ri s reads)) ?S, map (\<lambda>s. reads_at ri s reads) ?S) (?n, k, r)
        = Inr (l, map (\<lambda>s. map ((!) (reads @ [x])) (reads_at ri s (reads @ [x]))) ?S, map (\<lambda>s. reads_at ri s (reads @ [x])) ?S)" for l
      by (simp add: route_read_def s(2))
    then show ?thesis using IH False unfolding z gfold_append loc by simp
  qed
qed

text \<open>Filling in the positions \<open>is\<close> of a list.\<close>

definition fill :: "(nat \<Rightarrow> 'a) \<Rightarrow> 'a option list \<Rightarrow> nat list \<Rightarrow> 'a option list" where
  "fill f = foldl (\<lambda>sts i. sts[i := Some (f i)])"

lemma fill_simps [simp]: "fill f sts [] = sts" "fill f sts (i # is) = fill f (sts[i := Some (f i)]) is"
  by (simp_all add: fill_def)

lemma length_fill [simp]: "length (fill f sts is) = length sts"
  by (induction "is" arbitrary: sts) auto

lemma nth_fill: "j < length sts \<Longrightarrow> fill f sts is ! j = (if j \<in> set is then Some (f j) else sts ! j)"
proof (induction "is" arbitrary: sts)
  case (Cons i "is")
  then show ?case by (cases "j = i") auto
qed simp

lemma server_states_fill:
  assumes "\<forall>i \<in> set is. i < length sts"
  shows "server_states sts (is, map f is) = Inr (fill f sts is)"
proof -
  let ?step = "\<lambda>sts (j, obj). if j < length is \<and> is ! j < length sts then Inr (sts[is ! j := Some obj]) else Inl IndexOutOfRange"
  have "gfold ?step sts (map (\<lambda>j. (j, f (is ! j))) js) = Inr (fill f sts (map ((!) is) js))"
    if "\<forall>i \<in> set is. i < length sts" "\<forall>j \<in> set js. j < length is" for js and sts :: "'a option list"
    using that
  proof (induction js arbitrary: sts)
    case (Cons j js)
    then have "j < length is" "is ! j < length sts" by auto
    with Cons show ?case by simp
  qed simp
  from this [OF assms, of "[0..<length is]"] have "gfold ?step sts (map (\<lambda>j. (j, f (is ! j))) [0..<length is]) = Inr (fill f sts is)"
    by (simp add: map_nth)
  moreover have "zip [0..<length is] (map f is) = map (\<lambda>j. (j, f (is ! j))) [0..<length is]" by (rule nth_equalityI) auto
  ultimately show ?thesis by (simp add: server_states_def)
qed

lemma servers_fill:
  assumes "\<forall>s \<in> set ss. \<forall>i \<in> set (js s). i < length sts"
  shows "gfold server_states sts (map (\<lambda>s. (js s, map (f s) (js s))) ss) = Inr (foldl (\<lambda>sts s. fill (f s) sts (js s)) sts ss)"
  using assms by (induction ss arbitrary: sts) (simp_all add: server_states_fill)

lemma length_fills [simp]: "length (foldl (\<lambda>sts s. fill (f s) sts (js s)) sts ss) = length sts"
  by (induction ss arbitrary: sts) simp_all

lemma nth_fills:
  assumes "i < length sts" and "\<forall>s \<in> set ss. \<forall>s' \<in> set ss. i \<in> set (js s) \<longrightarrow> i \<in> set (js s') \<longrightarrow> s = s'"
  shows "foldl (\<lambda>sts s. fill (f s) sts (js s)) sts ss ! i = (case find (\<lambda>s. i \<in> set (js s)) ss of Some s \<Rightarrow> Some (f s i) | None \<Rightarrow> sts ! i)"
  using assms
proof (induction ss arbitrary: sts)
  case (Cons s ss)
  have IH: "foldl (\<lambda>sts s. fill (f s) sts (js s)) (fill (f s) sts (js s)) ss ! i
      = (case find (\<lambda>s. i \<in> set (js s)) ss of Some s \<Rightarrow> Some (f s i) | None \<Rightarrow> fill (f s) sts (js s) ! i)"
    using Cons.prems by (intro Cons.IH) auto
  show ?case
  proof (cases "i \<in> set (js s)")
    case True
    with Cons.prems(2) have "find (\<lambda>s. i \<in> set (js s)) ss = Some s \<or> find (\<lambda>s. i \<in> set (js s)) ss = None"
      by (cases "find (\<lambda>s. i \<in> set (js s)) ss") (auto simp: find_Some_iff)
    with True IH Cons.prems(1) show ?thesis by (auto simp: nth_fill)
  next
    case False
    with IH Cons.prems(1) show ?thesis by (simp add: nth_fill split: option.split)
  qed
qed simp

lemma set_reads_at: "i \<in> set (reads_at ri s reads) \<longleftrightarrow> i < length reads \<and> at_server ri s (fst (reads ! i))"
  by (auto simp: reads_at_def)

lemma local_replies_fill:
  "foldl (\<lambda>sts (i, partId, k, r). sts[i := Some (p partId (k, r))]) sts (map (\<lambda>i. (i, c i, reads ! i)) is)
     = fill (\<lambda>i. p (c i) (reads ! i)) sts is"
  by (induction "is" arbitrary: sts) (simp_all add: case_prod_beta)

text \<open>The state a read is answered with: by its partition, or by the server its bucket is at.\<close>

definition read_answer ::
    "(string \<Rightarrow> nat) \<Rightarrow> nat \<Rightarrow> RemoteInfo \<Rightarrow> (nat \<Rightarrow> KeyParams \<times> 'r \<Rightarrow> 'st) \<Rightarrow> (nat \<Rightarrow> KeyParams \<times> 'r \<Rightarrow> 'st) \<Rightarrow> KeyParams \<times> 'r \<Rightarrow> 'st option" where
  "read_answer hash n ri part_reply h x = (case getReadLocation ri (kp_Bucket (fst x)) of
      Inl e \<Rightarrow> None
    | Inr (isRemote, s) \<Rightarrow> Some (if isRemote then h s x else part_reply (GetChannelKey hash n (fst x)) x))"

lemma read_in_order:
  assumes "\<forall>x \<in> set reads. located ri (fst x)" and "\<forall>s rs. server_reply s rs = map (h s) rs"
  shows "handleTMRead hash n ri part_reply server_reply reads = Inr (map (read_answer hash n ri part_reply h) reads)"
proof -
  let ?home = "filter (\<lambda>i. at_home ri (fst (reads ! i))) [0..<length reads]" and ?at = "\<lambda>s. reads_at ri s reads"
  let ?ss = "filter (\<lambda>s. ?at s \<noteq> []) [0..<length (remoteIPs ri)]"
  let ?l = "fill (\<lambda>i. part_reply (GetChannelKey hash n (fst (reads ! i))) (reads ! i)) (replicate (length reads) None) ?home"
  let ?r = "foldl (\<lambda>sts s. fill (\<lambda>i. h s (reads ! i)) sts (?at s)) ?l ?ss"
  have s: "map (\<lambda>s. (map ?at [0..<length (remoteIPs ri)] ! s, server_reply s (map (\<lambda>s. map ((!) reads) (?at s)) [0..<length (remoteIPs ri)] ! s)))
      (filter (\<lambda>s. map (\<lambda>s. map ((!) reads) (?at s)) [0..<length (remoteIPs ri)] ! s \<noteq> []) [0..<length (map (\<lambda>s. map ((!) reads) (?at s)) [0..<length (remoteIPs ri)])])
    = map (\<lambda>s. (?at s, map (\<lambda>i. h s (reads ! i)) (?at s))) ?ss"
    using assms(2) by (auto intro!: map_cong filter_cong)
  have "gfold server_states ?l (map (\<lambda>s. (?at s, map (\<lambda>i. h s (reads ! i)) (?at s))) ?ss) = Inr ?r"
    by (rule servers_fill) (auto simp: set_reads_at)
  then have "handleTMRead hash n ri part_reply server_reply reads = Inr ?r"
    unfolding handleTMRead_def route_reads_ok [OF assms(1)] gbind_Inr prod.case s local_replies_fill [where c = "\<lambda>i. GetChannelKey hash n (fst (reads ! i))"] .
  moreover have "?r = map (read_answer hash n ri part_reply h) reads"
  proof (rule nth_equalityI)
    fix i assume "i < length ?r"
    then have i: "i < length reads" by simp
    have "\<forall>s \<in> set ?ss. \<forall>s' \<in> set ?ss. i \<in> set (?at s) \<longrightarrow> i \<in> set (?at s') \<longrightarrow> s = s'" by (auto simp: set_reads_at at_server_def)
    then have r: "?r ! i = (case find (\<lambda>s. i \<in> set (?at s)) ?ss of Some s \<Rightarrow> Some (h s (reads ! i)) | None \<Rightarrow> ?l ! i)"
      using i by (intro nth_fills) simp_all
    show "?r ! i = map (read_answer hash n ri part_reply h) reads ! i"
    proof (cases "at_home ri (fst (reads ! i))")
      case True
      then have "find (\<lambda>s. i \<in> set (?at s)) ?ss = None" by (auto simp: find_None_iff set_reads_at at_home_def at_server_def)
      with True i show ?thesis unfolding r by (auto simp: nth_fill read_answer_def at_home_def)
    next
      case False
      then obtain s where s: "s < length (remoteIPs ri)" "at_server ri s (fst (reads ! i))" using assms(1) i by (auto simp: located_def)
      then have "i \<in> set (?at s)" using i by (simp add: set_reads_at)
      moreover from this have "s \<in> set ?ss" using s(1) by auto
      ultimately have "find (\<lambda>s. i \<in> set (?at s)) ?ss \<noteq> None" by (auto simp: find_None_iff)
      then obtain t where t: "find (\<lambda>s. i \<in> set (?at s)) ?ss = Some t" by auto
      then have "i \<in> set (?at t)" by (auto simp: find_Some_iff)
      with s(2) have "t = s" by (simp add: set_reads_at at_server_def)
      with s(2) i show ?thesis unfolding r t by (simp add: read_answer_def at_server_def)
    qed
  qed simp
  ultimately show ?thesis by simp
qed

section \<open>The clock of a transaction\<close>

lemma clock_to_use:
  assumes "on_ids I local_clk" and "on_ids I client"
    and "copyClk = CopyInto local_clk []" and "target = Merge copyClk (Some client)"
  shows "on_ids I copyClk" and "on_ids I target" and "vget copyClk i = vget local_clk i"
    and "vget target i = max (vget local_clk i) (vget client i)"
    and "getClockToUse local_clk (Some client) replyChan
      = (if le_clk client local_clk then ([copyClk], Some target) else ([copyClk, target], replyChan target))"
proof -
  let ?c = "CopyInto local_clk []" and ?m = "Merge (CopyInto local_clk []) (Some client)"
  have c: "on_ids I ?c" "\<And>i. vget ?c i = vget local_clk i"
    using on_ids_Copy [OF assms(1)] vget_Copy_clk [of local_clk] assms(1) by (simp_all add: Copy_clk_def on_ids_def)
  have m: "on_ids I ?m" using c(1) by (simp add: on_ids_def Merge_def keys_Merge_loop wf_Merge_loop)
  have v: "vget ?m i = max (vget local_clk i) (vget client i)" for i
    using c assms by (subst vget_Merge) (auto simp: on_ids_def same_ids_def)
  have s: "wf_map ?m" "same_ids ?m ?c" using m c(1) by (simp_all add: on_ids_def same_ids_def)
  have "le_clk ?c ?m" "le_clk ?m ?c \<longleftrightarrow> le_clk client local_clk" by (simp_all add: le_clk_def v c(2))
  then have "IsEqual ?m (Some ?c) \<longleftrightarrow> le_clk client local_clk"
    unfolding IsEqual_eq some_below_iff [OF s] some_above_iff [OF s] by simp
  then show "getClockToUse local_clk (Some client) replyChan
      = (if le_clk client local_clk then ([copyClk], Some target) else ([copyClk, target], replyChan target))"
    by (simp add: getClockToUse_def Let_def assms(3,4))
  show "on_ids I copyClk" "on_ids I target" "vget copyClk i = vget local_clk i" "vget target i = max (vget local_clk i) (vget client i)"
    using c m v by (simp_all add: assms(3,4))
qed

text \<open>A client that waits gets a clock that covers what it waits for.\<close>

lemma wait_answer_covers:
  assumes "on_ids I clk0" and "msgs_ok I (map fst xs)" and "gfold (handleCommitReplies nGoRoutines) (start_commits clk0) xs = Inr s"
    and "wait_answer s client target = Some ts" and "on_ids I target" and "i \<in> I"
  shows "vget target i \<le> vget ts i"
proof -
  have "commits_inv I clk0 (map fst xs) s" using commits_run [OF assms(1,2), of nGoRoutines] assms(3) by auto
  then have ok: "answers_ok s" by (simp add: commits_inv_def clocks_ok_def)
  from assms(4) obtain w where w: "find (\<lambda>(w, c). w = \<lparr>targetClk = Some target, wc_client = client\<rparr>) (answers s) = Some (w, ts)"
    by (auto simp: wait_answer_def)
  then have "(w, ts) \<in> set (answers s)" and "targetClk w = Some target" by (auto simp: find_Some_iff in_set_conv_nth)
  with ok have "IsLowerOrEqual target (Some ts)" by (fastforce simp: answers_ok_def)
  moreover have "(i, vget target i) \<in> set target" using assms(5,6) by (auto simp: on_ids_def wf_map_def vget_def)
  ultimately show ?thesis unfolding IsLowerOrEqual_eq some_above_def by (auto simp: not_less)
qed

text \<open>
  C31. A static read (other than the read of a single object under \<open>FAST_SINGLE_READ\<close>) returns
  the states of the objects in the order the client named them, each from the partition or server
  that has it, all as they are at one clock, and returns that clock. If the replica's clock covers
  the client's, it is the replica's clock. Otherwise the client waits for the merge of the two
  clocks, and reads at the clock that the goroutine of the commits sends it, if it ever does;
  that clock covers both. So the reads of a client never go back in time.
\<close>

theorem static_read_at_clock:
  assumes "\<forall>x \<in> set reads. located ri (fst x)" and "\<forall>ts s rs. server_reply ts s rs = map (h ts s) rs" and "on_ids I local_clk" and "on_ids I client"
    and "\<not> fast \<or> length reads \<noteq> 1" and "on_ids I clk0" and "msgs_ok I (map fst xs)"
    and "gfold (handleCommitReplies nGoRoutines) (start_commits clk0) xs = Inr s"
    and "target = Merge (CopyInto local_clk []) (Some client)"
  shows "(\<forall>i. vget target i = max (vget local_clk i) (vget client i))
    \<and> handleStaticTMRead fast hash n ri local_clk (Some client) (wait_answer s req) p1 s1 part_reply server_reply reads
      = map_option (\<lambda>ts. Inr (map (read_answer hash n ri (part_reply ts) (h ts)) reads, ts))
          (if le_clk client local_clk then Some target else wait_answer s req target)
    \<and> (\<forall>ts. wait_answer s req target = Some ts \<longrightarrow> (\<forall>i \<in> I. vget local_clk i \<le> vget ts i \<and> vget client i \<le> vget ts i))"
proof -
  note t = clock_to_use [OF assms(3,4) refl assms(9)]
  have "handleTMRead hash n ri (part_reply ts) (server_reply ts) reads = Inr (map (read_answer hash n ri (part_reply ts) (h ts)) reads)" for ts
    by (rule read_in_order) (use assms(1,2) in auto)
  moreover have "\<not> (fast \<and> length reads = 1)" using assms(5) by blast
  ultimately have "handleStaticTMRead fast hash n ri local_clk (Some client) (wait_answer s req) p1 s1 part_reply server_reply reads
      = map_option (\<lambda>ts. Inr (map (read_answer hash n ri (part_reply ts) (h ts)) reads, ts))
          (if le_clk client local_clk then Some target else wait_answer s req target)"
    by (auto simp: handleStaticTMRead_def t(5))
  moreover have "vget target i \<le> vget ts i" if "wait_answer s req target = Some ts" "i \<in> I" for ts i
    by (rule wait_answer_covers [OF assms(6-8) that(1) t(2) that(2)])
  ultimately show ?thesis using t(4) by auto
qed

text \<open>
  A client that has read at \<open>(6, 3)\<close> asks a replica at \<open>(5, 7)\<close>. A transaction at \<open>(8, 9)\<close> of two
  partitions commits before the client is answered, so it reads at \<open>(8, 9)\<close>.
\<close>

definition wait_then_commit :: "(TMCommitInfo \<times> nat \<times> nat) list" where
  "wait_then_commit = [(CommitNPartitions 2 7 [(1, 8), (2, 9)], 0, 0), (WaitClock [(1, 6), (2, 7)] 4, 0, 0),
     (PartCommitReply 7, 0, 0), (PartCommitReply 7, 0, 0)]"

lemma wait_then_commit_run:
  "map_sum id (\<lambda>s. wait_answer s 4 [(1, 6), (2, 7)]) (gfold (handleCommitReplies 2) (start_commits [(1, 5), (2, 7)]) wait_then_commit)
     = Inr (Some [(1, 8), (2, 9)])"
  by code_simp

theorem static_read_at_clock_witness:
  "\<exists>s. gfold (handleCommitReplies 2) (start_commits [(1, 5), (2, 7)]) wait_then_commit = Inr s
    \<and> handleStaticTMRead False high_hash 2 two_servers [(1, 5), (2, 7)] (Some [(1, 6), (2, 3)]) (wait_answer s 4)
        (\<lambda>p x. (([], 0), [])) (\<lambda>s x. (([], 0), [])) (\<lambda>ts p x. (ts, p)) (\<lambda>ts s rs. map (\<lambda>x. (ts, s)) rs) [(a_far_counter, 0 :: nat)]
      = Some (Inr ([Some ([(1, 8), (2, 9)], 0)], [(1, 8), (2, 9)]))"
proof -
  obtain s where s: "gfold (handleCommitReplies 2) (start_commits [(1, 5), (2, 7)]) wait_then_commit = Inr s" "wait_answer s 4 [(1, 6), (2, 7)] = Some [(1, 8), (2, 9)]"
    using wait_then_commit_run by (cases "gfold (handleCommitReplies 2) (start_commits [(1, 5), (2, 7)]) wait_then_commit") auto
  have i: "on_ids {1, 2} [(1, 5), (2, 7)]" "on_ids {1, 2} [(1, 6), (2, 3)]" by (auto simp: on_ids_def wf_map_def)
  have l: "getReadLocation two_servers (kp_Bucket a_far_counter) = Inr (True, 0)" "length (remoteIPs two_servers) = 1"
    by (simp_all add: getReadLocation_def two_servers_def a_far_counter_def)
  then have loc: "\<forall>x \<in> set [(a_far_counter, 0 :: nat)]. located two_servers (fst x)" by (simp add: located_def at_server_def)
  have m: "msgs_ok {1, 2} (map fst wait_then_commit)"
    by (simp add: wait_then_commit_def msgs_ok_def All_less_Suc2 msg_ok_def announced_def replied_def n_waits_def on_ids_def wf_map_def numeral_2_eq_2 eval_nat_numeral)
  have nle: "\<not> le_clk [(1, 6), (2, 3)] [(1, 5), (2, 7)]" by (auto simp: le_clk_def vget_def intro: exI [of _ 1])
  let ?read = "handleStaticTMRead False high_hash 2 two_servers [(1, 5), (2, 7)] (Some [(1, 6), (2, 3)]) (wait_answer s 4)
        (\<lambda>p x. (([], 0), [])) (\<lambda>s x. (([], 0), [])) (\<lambda>ts p x. (ts, p)) (\<lambda>ts s rs. map (\<lambda>x. (ts, s)) rs) [(a_far_counter, 0 :: nat)]"
  have target: "[(1, 6), (2, 7)] = Merge (CopyInto [(1, 5), (2, 7)] []) (Some [(1, 6), (2, 3)])" by code_simp
  have "?read = map_option (\<lambda>ts. Inr (map (read_answer high_hash 2 two_servers ((\<lambda>ts p x. (ts, p)) ts) ((\<lambda>ts s x. (ts, s)) ts)) [(a_far_counter, 0 :: nat)], ts))
       (if le_clk [(1, 6), (2, 3)] [(1, 5), (2, 7)] then Some [(1, 6), (2, 7)] else wait_answer s 4 [(1, 6), (2, 7)])"
    using static_read_at_clock [OF loc _ i _ i(1) m s(1) target, of "\<lambda>ts s rs. map (\<lambda>x. (ts, s)) rs" "\<lambda>ts s x. (ts, s)" False high_hash 2 4
      "\<lambda>p x. (([], 0), [])" "\<lambda>s x. (([], 0), [])" "\<lambda>ts p x. (ts, p)"] by simp
  then have "?read = Some (Inr ([Some ([(1, 8), (2, 9)], 0)], [(1, 8), (2, 9)]))" by (simp add: nle s(2) read_answer_def l)
  with s(1) show ?thesis by blast
qed

text \<open>The objects come back in the order of their keys, in whatever order the partitions answer.\<close>

lemma handleGetCRDT_in_order:
  assumes "mset pairs = mset (zip [0..<length ks] cs)" and "length cs = length ks"
  shows "handleGetCRDT ks pairs = Inr (map Some cs)"
proof -
  have p: "set pairs = set (zip [0..<length ks] cs)" using mset_eq_setD [OF assms(1)] .
  then have v: "(i, c) \<in> set pairs \<Longrightarrow> i < length ks \<and> c = cs ! i" for i c by (auto simp: set_zip)
  have "gfold (\<lambda>crdts (pos, c). if pos < length crdts then Inr (crdts[pos := Some c]) else Inl IndexOutOfRange) sts ps = Inr (fill (\<lambda>i. cs ! i) sts (map fst ps))"
    if "set ps \<subseteq> set pairs" "length sts = length ks" for ps sts
    using that by (induction ps arbitrary: sts) (auto dest: v)
  then have "handleGetCRDT ks pairs = Inr (fill (\<lambda>i. cs ! i) (replicate (length ks) None) (map fst pairs))" by (simp add: handleGetCRDT_def)
  moreover have "fst ` set pairs = {..<length ks}" unfolding p using assms(2) by (force simp: set_zip image_iff)
  then have "fill (\<lambda>i. cs ! i) (replicate (length ks) None) (map fst pairs) = map Some cs"
    using assms(2) by (intro nth_equalityI) (auto simp: nth_fill)
  ultimately show ?thesis by simp
qed

end
