(* ===== verification/ClientClocks.thy ===== *)
theory ClientClocks
  imports Transactions
begin

text \<open>
  The identifiers of clients and the clocks that their transactions read at
  (\<^verbatim>\<open>potionDB/components/transactionManager.go\<close>), and the routine that chooses from them the clock up
  to which the histories of objects are cleaned (\<^verbatim>\<open>potionDB/components/garbageCollector.go\<close>).

  \<open>clksInUse\<close> has an entry per identifier, nil while the client has no transaction.
  \<open>maxIDInUse\<close> counts the connections. \<open>connected\<close> are the identifiers of the goroutines that are
  running, and \<open>taking\<close> has the clocks that the goroutine of a client has still to write to
  \<open>clksInUse\<close>: \<open>getClockToUse\<close> copies the clock of the replica under a lock, and writes it to
  \<open>clksInUse\<close> only after it has released the lock.
\<close>

record tm_ids =
  currMaxAvailableID :: nat
  reusableIDs :: "nat list"
  newIDChan :: "nat list"
  canReuseIDChan :: "nat list"
  clksInUse :: "Timestamp list"
  maxIDInUse :: nat
  connected :: "nat list"
  taking :: "nat \<Rightarrow> ClockSiTimestamp list"

definition start_ids :: tm_ids where
  "start_ids = \<lparr>currMaxAvailableID = 0, reusableIDs = [], newIDChan = [], canReuseIDChan = [], clksInUse = replicate 100 None, maxIDInUse = 0, connected = [], taking = (\<lambda>_. [])\<rparr>"

text \<open>An iteration of \<open>generateTMIDs\<close>.\<close>

definition generateTMIDs :: "tm_ids \<Rightarrow> tm_ids" where
  "generateTMIDs s =
     (let s1 = (if reusableIDs s \<noteq> [] then s\<lparr>newIDChan := newIDChan s @ [last (reusableIDs s)], reusableIDs := butlast (reusableIDs s)\<rparr>
                else s\<lparr>newIDChan := newIDChan s @ [currMaxAvailableID s], currMaxAvailableID := Suc (currMaxAvailableID s),
                       clksInUse := (if Suc (currMaxAvailableID s) = length (clksInUse s) then clksInUse s @ [None] else clksInUse s)\<rparr>)
      in s1\<lparr>reusableIDs := reusableIDs s1 @ canReuseIDChan s1, canReuseIDChan := []\<rparr>)"

text \<open>A client that connects takes the oldest identifier of the channel, and waits when there is none.\<close>

definition CreateClientHandler :: "tm_ids \<Rightarrow> tm_ids" where
  "CreateClientHandler s = (case newIDChan s of [] \<Rightarrow> s
     | i # is \<Rightarrow> s\<lparr>newIDChan := is, maxIDInUse := Suc (maxIDInUse s), connected := i # connected s\<rparr>)"

definition set_clkInUse :: "nat \<Rightarrow> Timestamp \<Rightarrow> tm_ids \<Rightarrow> tm_ids go" where
  "set_clkInUse i clk s = (if i < length (clksInUse s) then Inr (s\<lparr>clksInUse := (clksInUse s)[i := clk]\<rparr>) else Inl IndexOutOfRange)"

definition lostConn :: "nat \<Rightarrow> tm_ids \<Rightarrow> tm_ids go" where
  "lostConn i s = gbind (set_clkInUse i None s) (\<lambda>s. Inr (s\<lparr>canReuseIDChan := canReuseIDChan s @ [i], connected := remove1 i (connected s)\<rparr>))"

text \<open>
  What happens to the clients. \<open>TakeClock\<close> is the first part of \<open>getClockToUse\<close>, with the clock of
  the replica and that of the client, up to the release of the lock. \<open>PublishClock\<close> is the next
  assignment to \<open>clksInUse\<close>: the copy of the replica's clock and then, if the client has to wait,
  the clock that it waits for. \<open>EndTxn\<close> is the assignment at the end of a static read, a commit or
  an abort. Other goroutines, and the collector, can run between any two of them; the requests of
  one client are handled one after the other. An event of a client that is not connected, or that
  is busy with another request, does not happen.
\<close>

datatype client_event = Generate | Connect | TakeClock nat ClockSiTimestamp Timestamp | PublishClock nat | EndTxn nat | Disconnect nat

fun client_step :: "tm_ids \<Rightarrow> client_event \<Rightarrow> tm_ids go" where
  "client_step s Generate = Inr (generateTMIDs s)"
| "client_step s Connect = Inr (CreateClientHandler s)"
| "client_step s (TakeClock i local_clk clientTs) = Inr (if i \<in> set (connected s) \<and> taking s i = []
     then s\<lparr>taking := (taking s)(i := fst (getClockToUse local_clk clientTs (\<lambda>_. None)))\<rparr> else s)"
| "client_step s (PublishClock i) = (if i \<in> set (connected s) \<and> taking s i \<noteq> []
     then set_clkInUse i (Some (hd (taking s i))) (s\<lparr>taking := (taking s)(i := tl (taking s i))\<rparr>) else Inr s)"
| "client_step s (EndTxn i) = (if i \<in> set (connected s) \<and> taking s i = [] then set_clkInUse i None s else Inr s)"
| "client_step s (Disconnect i) = (if i \<in> set (connected s) \<and> taking s i = [] then lostConn i s else Inr s)"

section \<open>The garbage collector\<close>

record gc_state =
  lastCleanClk :: Timestamp
  noCleans :: int

definition oldest_clock :: "ClockSiTimestamp \<Rightarrow> tm_ids \<Rightarrow> (ClockSiTimestamp \<times> bool) go" where
  "oldest_clock highestTs s = gfold (\<lambda>(safeClk, anyOngoing) i.
     if i < length (clksInUse s)
     then Inr (case clksInUse s ! i of None \<Rightarrow> (safeClk, anyOngoing)
       | Some clk \<Rightarrow> if IsLower clk (Some safeClk) then (clk, True) else (safeClk, anyOngoing))
     else Inl IndexOutOfRange) (highestTs, False) [0..<maxIDInUse s]"

text \<open>
  An iteration of \<open>cleanRoutine\<close>, with the copy of the replica's clock that it has taken first, and
  the requests to the \<open>nGoRoutines\<close> partitions.
\<close>

definition cleanRoutine :: "nat \<Rightarrow> ClockSiTimestamp \<Rightarrow> ClockSiTimestamp \<Rightarrow> tm_ids \<Rightarrow> gc_state \<Rightarrow> (gc_state \<times> (nat \<times> ('u, 'r) MatRequestArgs) list) go" where
  "cleanRoutine nGoRoutines highestTs tmClk s gc =
     gbind (oldest_clock highestTs s) (\<lambda>(clk, anyOngoing).
       let safeClk = (if anyOngoing then clk else tmClk)
       in if IsEqual safeClk (lastCleanClk gc) then Inr (gc\<lparr>noCleans := noCleans gc + 1\<rparr>, [])
          else Inr (\<lparr>lastCleanClk = Some (Copy_clk safeClk), noCleans = 0\<rparr>, map (\<lambda>i. (i, MatGC safeClk)) [0..<nGoRoutines]))"

section \<open>Identifiers\<close>

definition all_ids :: "tm_ids \<Rightarrow> nat list" where
  "all_ids s = newIDChan s @ connected s @ canReuseIDChan s @ reusableIDs s"

definition ids_ok :: "tm_ids \<Rightarrow> bool" where
  "ids_ok s \<longleftrightarrow> mset (all_ids s) = mset [0..<currMaxAvailableID s] \<and> currMaxAvailableID s < length (clksInUse s)"

lemma ids_ok_ids: "ids_ok s \<Longrightarrow> set (all_ids s) = {..<currMaxAvailableID s} \<and> distinct (all_ids s)"
  using mset_eq_setD [of "all_ids s" "[0..<currMaxAvailableID s]"] mset_eq_imp_distinct_iff [of "all_ids s" "[0..<currMaxAvailableID s]"]
  by (simp add: ids_ok_def atLeast0LessThan)

lemma ids_ok_connected: "ids_ok s \<Longrightarrow> i \<in> set (connected s) \<Longrightarrow> i < length (clksInUse s)"
proof -
  assume s: "ids_ok s" and "i \<in> set (connected s)"
  then have "i \<in> set (all_ids s)" by (simp add: all_ids_def)
  with ids_ok_ids [OF s] have "i < currMaxAvailableID s" by simp
  with s show ?thesis by (simp add: ids_ok_def)
qed

lemma ids_ok_generateTMIDs: "ids_ok s \<Longrightarrow> ids_ok (generateTMIDs s)"
proof (cases "reusableIDs s" rule: rev_cases)
  case (snoc rs r)
  assume "ids_ok s"
  with snoc show ?thesis by (simp add: ids_ok_def all_ids_def generateTMIDs_def Let_def add_ac)
next
  case Nil
  assume "ids_ok s"
  with Nil show ?thesis by (simp add: ids_ok_def all_ids_def generateTMIDs_def Let_def add_ac)
qed

lemma ids_ok_step:
  assumes "ids_ok s"
  shows "\<exists>s'. client_step s e = Inr s' \<and> ids_ok s'"
proof (cases e)
  case Connect
  with assms show ?thesis by (cases "newIDChan s") (simp_all add: CreateClientHandler_def ids_ok_def all_ids_def)
next
  case (Disconnect i)
  show ?thesis
  proof (cases "i \<in> set (connected s) \<and> taking s i = []")
    case True
    then have i: "i \<in> set (connected s)" by simp
    define m where "m = mset (remove1 i (connected s))"
    have "mset (connected s) = add_mset i m" using i by (simp add: m_def)
    with Disconnect True assms ids_ok_connected [OF assms i] show ?thesis
      by (simp add: lostConn_def set_clkInUse_def ids_ok_def all_ids_def del: mset_remove1 flip: m_def)
  qed (use Disconnect assms in auto)
qed (use assms ids_ok_generateTMIDs ids_ok_connected [OF assms] in \<open>simp_all add: set_clkInUse_def ids_ok_def all_ids_def\<close>)

lemma ids_ok_start: "ids_ok start_ids"
  by (simp add: ids_ok_def all_ids_def start_ids_def)

lemma gfold_invariant:
  assumes "P s" and "\<And>s x. P s \<Longrightarrow> \<exists>s'. f s x = Inr s' \<and> P s'"
  shows "\<exists>s'. gfold f s xs = Inr s' \<and> P s'"
  using assms(1)
proof (induction xs arbitrary: s)
  case (Cons x xs)
  from assms(2) [OF Cons.prems, of x] obtain s1 where "f s x = Inr s1" "P s1" by blast
  with Cons.IH [of s1] show ?case by simp
qed simp

text \<open>
  C33. The identifiers that clients get are those of their entries in \<open>clksInUse\<close>. In every run
  of connections, disconnections, transactions and the generation of identifiers, no two
  connected clients have the same identifier and no identifier is lost, as those in use, waiting
  in a channel and to be used again are, without repetition, those below the next new one; all
  are inside \<open>clksInUse\<close>, so that no client panics.
\<close>

theorem client_ids_distinct:
  "\<exists>s. gfold client_step start_ids events = Inr s
    \<and> distinct (newIDChan s @ connected s @ canReuseIDChan s @ reusableIDs s)
    \<and> set (newIDChan s @ connected s @ canReuseIDChan s @ reusableIDs s) = {..<currMaxAvailableID s}
    \<and> currMaxAvailableID s < length (clksInUse s)"
proof -
  obtain s where "gfold client_step start_ids events = Inr s" "ids_ok s"
    using gfold_invariant [of ids_ok start_ids client_step events] ids_ok_start ids_ok_step by blast
  with ids_ok_ids [of s] show ?thesis by (auto simp: all_ids_def ids_ok_def)
qed

section \<open>The clocks in use\<close>

text \<open>
  Only connected clients have a clock, and the identifier of a connected client is below the
  number of connections, which the collector takes for the last position in use.
\<close>

definition readers_ok :: "tm_ids \<Rightarrow> bool" where
  "readers_ok s \<longleftrightarrow> ids_ok s \<and> (\<forall>i < length (clksInUse s). clksInUse s ! i \<noteq> None \<longrightarrow> i \<in> set (connected s))
     \<and> (\<forall>i \<in> set (connected s @ canReuseIDChan s @ reusableIDs s). i < maxIDInUse s)
     \<and> (\<forall>k < length (newIDChan s). newIDChan s ! k \<le> maxIDInUse s + k) \<and> currMaxAvailableID s \<le> maxIDInUse s + length (newIDChan s)"

lemma readers_okD:
  assumes "readers_ok s" and "i < length (clksInUse s)" and "clksInUse s ! i \<noteq> None"
  shows "i < maxIDInUse s"
proof -
  have "i \<in> set (connected s)" using assms unfolding readers_ok_def by blast
  then have "i \<in> set (connected s @ canReuseIDChan s @ reusableIDs s)" by simp
  with assms(1) show ?thesis unfolding readers_ok_def by blast
qed

lemma readers_ok_taking [simp]: "readers_ok (s\<lparr>taking := t\<rparr>) = readers_ok s"
  by (simp add: readers_ok_def ids_ok_def all_ids_def)

lemma readers_ok_start: "readers_ok start_ids"
  using ids_ok_start by (simp add: readers_ok_def start_ids_def)

lemma readers_ok_generate:
  assumes "readers_ok s"
  shows "readers_ok (generateTMIDs s)"
proof (cases "reusableIDs s" rule: rev_cases)
  case Nil
  have "i \<in> set (connected s)" if "i < Suc (length (clksInUse s))" "(clksInUse s @ [None]) ! i \<noteq> None" for i
    using that assms by (cases "i = length (clksInUse s)") (auto simp: readers_ok_def nth_append split: if_splits)
  with Nil assms ids_ok_generateTMIDs [of s] show ?thesis
    by (simp add: readers_ok_def generateTMIDs_def Let_def nth_append less_Suc_eq)
next
  case (snoc rs r)
  with assms ids_ok_generateTMIDs [of s] show ?thesis
    by (auto simp: readers_ok_def generateTMIDs_def Let_def nth_append less_Suc_eq)
qed

lemma readers_ok_connect:
  assumes "readers_ok s" and "ids_ok (CreateClientHandler s)"
  shows "readers_ok (CreateClientHandler s)"
proof (cases "newIDChan s")
  case Nil
  with assms(1) show ?thesis by (simp add: CreateClientHandler_def)
next
  case (Cons i "is")
  have n: "(i # is) ! k \<le> maxIDInUse s + k" if "k < length (i # is)" for k using assms(1) that by (simp add: readers_ok_def Cons)
  have "i \<le> maxIDInUse s" using n [of 0] by simp
  moreover have "is ! k \<le> Suc (maxIDInUse s + k)" if "k < length is" for k using n [of "Suc k"] that by simp
  ultimately show ?thesis using assms Cons by (auto simp: readers_ok_def CreateClientHandler_def less_Suc_eq_le less_imp_le)
qed

lemma readers_ok_set:
  assumes "readers_ok s" and "i \<in> set (connected s)" and "set_clkInUse i clk s = Inr s'"
  shows "readers_ok s'"
proof -
  have s': "s' = s\<lparr>clksInUse := (clksInUse s)[i := clk]\<rparr>" using assms(3) by (auto simp: set_clkInUse_def split: if_splits)
  have "j \<in> set (connected s)" if "j < length (clksInUse s)" "(clksInUse s)[i := clk] ! j \<noteq> None" for j
    using that assms(1,2) by (cases "j = i") (simp_all add: readers_ok_def)
  then show ?thesis using assms(1) by (simp add: s' readers_ok_def ids_ok_def all_ids_def)
qed

lemma readers_ok_lost:
  assumes "readers_ok s" and "i \<in> set (connected s)" and "lostConn i s = Inr s'" and "ids_ok s'"
  shows "readers_ok s'"
proof -
  have s': "s' = s\<lparr>clksInUse := (clksInUse s)[i := None], canReuseIDChan := canReuseIDChan s @ [i], connected := remove1 i (connected s)\<rparr>"
    using assms(3) by (auto simp: lostConn_def set_clkInUse_def split: if_splits)
  have "j \<in> set (remove1 i (connected s))" if "j < length (clksInUse s)" "(clksInUse s)[i := None] ! j \<noteq> None" for j
    using that assms(1) by (cases "j = i") (simp_all add: readers_ok_def)
  moreover have "j < maxIDInUse s" if "j \<in> set (remove1 i (connected s) @ (canReuseIDChan s @ [i]) @ reusableIDs s)" for j
    using that assms(1,2) set_remove1_subset [of i "connected s"] by (auto simp: readers_ok_def)
  ultimately show ?thesis using assms(1,4) by (simp add: s' readers_ok_def)
qed

lemma readers_ok_step:
  assumes "readers_ok s"
  shows "\<exists>s'. client_step s e = Inr s' \<and> readers_ok s'"
proof -
  obtain s' where s': "client_step s e = Inr s'" "ids_ok s'" using ids_ok_step [of s e] assms by (auto simp: readers_ok_def)
  have "readers_ok s'"
  proof (cases e)
    case Generate
    with s' readers_ok_generate [OF assms] show ?thesis by simp
  next
    case Connect
    with s' readers_ok_connect [OF assms] show ?thesis by simp
  next
    case (TakeClock i local_clk clientTs)
    with s' assms show ?thesis by (auto simp: readers_ok_taking split: if_splits)
  next
    case (PublishClock i)
    let ?s = "s\<lparr>taking := (taking s)(i := tl (taking s i))\<rparr>"
    have "readers_ok ?s" "connected ?s = connected s" using assms by (simp_all add: readers_ok_taking)
    with PublishClock s' assms readers_ok_set [of ?s i "Some (hd (taking s i))" s'] show ?thesis by (simp split: if_splits)
  next
    case (EndTxn i)
    with s' assms readers_ok_set [OF assms, of i None s'] show ?thesis by (simp split: if_splits)
  next
    case (Disconnect i)
    with s' assms readers_ok_lost [OF assms, of i s'] show ?thesis by (simp split: if_splits)
  qed
  with s' show ?thesis by blast
qed

lemma readers_ok_run: "\<exists>s. gfold client_step start_ids events = Inr s \<and> readers_ok s"
  using gfold_invariant [of readers_ok start_ids client_step events] readers_ok_start readers_ok_step by blast

fun oldest_step :: "Timestamp list \<Rightarrow> ClockSiTimestamp \<times> bool \<Rightarrow> nat \<Rightarrow> (ClockSiTimestamp \<times> bool) go" where
  "oldest_step clks (safeClk, anyOngoing) i =
     (if i < length clks
     then Inr (case clks ! i of None \<Rightarrow> (safeClk, anyOngoing)
       | Some clk \<Rightarrow> if IsLower clk (Some safeClk) then (clk, True) else (safeClk, anyOngoing))
     else Inl IndexOutOfRange)"

lemma oldest_clock_step: "oldest_clock highestTs s = gfold (oldest_step (clksInUse s)) (highestTs, False) [0..<maxIDInUse s]"
proof -
  have "oldest_step (clksInUse s) = (\<lambda>(safeClk, anyOngoing) i. if i < length (clksInUse s)
     then Inr (case clksInUse s ! i of None \<Rightarrow> (safeClk, anyOngoing)
       | Some clk \<Rightarrow> if IsLower clk (Some safeClk) then (clk, True) else (safeClk, anyOngoing)) else Inl IndexOutOfRange)"
    by (auto simp: fun_eq_iff)
  then show ?thesis by (simp add: oldest_clock_def)
qed

lemma oldest_inside: "n \<le> length clks \<Longrightarrow> \<exists>r. gfold (oldest_step clks) x [0..<n] = Inr r"
proof (induction n)
  case (Suc n)
  then obtain r where "gfold (oldest_step clks) x [0..<n] = Inr r" by auto
  with Suc.prems show ?case by (cases r) (simp add: gfold_append)
qed simp

text \<open>Up to a hundred connections fit in \<open>clksInUse\<close>.\<close>

lemma client_step_connections:
  assumes "client_step s e = Inr s'"
  shows "maxIDInUse s' \<le> maxIDInUse s + count_list [e] Connect \<and> length (clksInUse s) \<le> length (clksInUse s')"
  using assms by (cases e)
    (auto simp: generateTMIDs_def CreateClientHandler_def lostConn_def set_clkInUse_def Let_def split: if_splits list.splits)

lemma connections_run:
  "gfold client_step s events = Inr s' \<Longrightarrow> maxIDInUse s' \<le> maxIDInUse s + count_list events Connect \<and> length (clksInUse s) \<le> length (clksInUse s')"
proof (induction events arbitrary: s)
  case (Cons e es)
  then obtain s1 where s1: "client_step s e = Inr s1" "gfold client_step s1 es = Inr s'" by (auto simp: gbind_eq_Inr)
  from client_step_connections [OF s1(1)] Cons.IH [OF s1(2)] show ?case by (auto split: if_splits)
qed simp

lemma connections_fit:
  assumes "gfold client_step start_ids events = Inr s" and "count_list events Connect \<le> 100"
  shows "maxIDInUse s \<le> length (clksInUse s)"
  using connections_run [OF assms(1)] assms(2) by (simp add: start_ids_def)

text \<open>The clocks in use can be compared with each other, and are below the highest clock.\<close>

definition clocks_comparable :: "int set \<Rightarrow> ClockSiTimestamp \<Rightarrow> Timestamp list \<Rightarrow> bool" where
  "clocks_comparable I highestTs clks \<longleftrightarrow> (\<forall>a. Some a \<in> set clks \<longrightarrow> on_ids I a \<and> IsLower a (Some highestTs)
     \<and> (\<forall>b. Some b \<in> set clks \<longrightarrow> le_clk a b \<or> le_clk b a))"

lemma IsLower_on_ids: "on_ids I a \<Longrightarrow> on_ids I b \<Longrightarrow> IsLower a (Some b) \<longleftrightarrow> le_clk a b \<and> \<not> le_clk b a"
  by (simp add: IsLower_eq on_ids_def same_ids_def some_above_iff some_below_iff)

lemma oldest_lowest:
  assumes "clocks_comparable I highestTs clks" and "n \<le> length clks"
  shows "\<exists>c any. gfold (oldest_step clks) (highestTs, False) [0..<n] = Inr (c, any)
    \<and> (if any then Some c \<in> set clks else c = highestTs \<and> (\<forall>i < n. clks ! i = None)) \<and> (\<forall>i < n. \<forall>clk. clks ! i = Some clk \<longrightarrow> le_clk c clk)"
  using assms(2)
proof (induction n)
  case (Suc n)
  then obtain c "any" where c: "gfold (oldest_step clks) (highestTs, False) [0..<n] = Inr (c, any)"
    "if any then Some c \<in> set clks else c = highestTs \<and> (\<forall>i < n. clks ! i = None)" "\<forall>i < n. \<forall>clk. clks ! i = Some clk \<longrightarrow> le_clk c clk" by auto
  have n: "n < length clks" "clks ! n \<in> set clks" using Suc.prems by auto
  show ?case
  proof (cases "clks ! n")
    case None
    with c n show ?thesis by (intro exI [of _ c] exI [of _ "any"]) (auto simp: gfold_append less_Suc_eq split: if_splits)
  next
    case (Some clk)
    then have clk: "Some clk \<in> set clks" using n(2) by simp
    show ?thesis
    proof (cases "IsLower clk (Some c)")
      case True
      have "le_clk clk x" if "i < n" "clks ! i = Some x" for i x
      proof -
        have "any" using c(2) that by (auto split: if_splits)
        then have "Some c \<in> set clks" using c(2) by simp
        then have "le_clk clk c" using True clk assms(1) IsLower_on_ids [of I clk c] by (auto simp: clocks_comparable_def)
        with c(3) that le_clk_trans show ?thesis by blast
      qed
      with True Some clk c(1) n show ?thesis by (intro exI [of _ clk] exI [of _ True]) (auto simp: gfold_append less_Suc_eq)
    next
      case False
      have "any" using False c(2) clk assms(1) by (auto simp: clocks_comparable_def split: if_splits)
      then have "Some c \<in> set clks" using c(2) by simp
      then have "le_clk c clk" using False clk assms(1) IsLower_on_ids [of I clk c] by (auto simp: clocks_comparable_def)
      with False Some c n \<open>any\<close> show ?thesis by (intro exI [of _ c] exI [of _ "any"]) (auto simp: gfold_append less_Suc_eq)
    qed
  qed
qed auto

text \<open>The clock that the partitions are asked to clean up to is not above any clock in use.\<close>

lemma clean_below_readers:
  fixes gc :: gc_state
  assumes "gfold client_step start_ids events = Inr s" and "count_list events Connect \<le> 100" and "clocks_comparable I highestTs (clksInUse s)"
  shows "\<exists>gc' reqs. cleanRoutine n highestTs tmClk s gc = Inr (gc', reqs)
    \<and> (\<forall>i safeClk. (i, MatGC safeClk) \<in> set reqs \<longrightarrow> (\<forall>clk. Some clk \<in> set (clksInUse s) \<longrightarrow> le_clk safeClk clk) \<and> (Some safeClk \<in> set (clksInUse s) \<or> safeClk = tmClk))"
proof -
  have r: "readers_ok s" using readers_ok_run [of events] assms(1) by auto
  obtain c "any" where c: "oldest_clock highestTs s = Inr (c, any)" "if any then Some c \<in> set (clksInUse s) else c = highestTs \<and> (\<forall>i < maxIDInUse s. clksInUse s ! i = None)"
    "\<forall>i < maxIDInUse s. \<forall>clk. clksInUse s ! i = Some clk \<longrightarrow> le_clk c clk"
    using oldest_lowest [OF assms(3) connections_fit [OF assms(1,2)], folded oldest_clock_step] by (elim exE conjE) (rule that)
  have pos: "\<exists>i < maxIDInUse s. clksInUse s ! i = Some clk" if clk: "Some clk \<in> set (clksInUse s)" for clk
  proof -
    from clk have "\<exists>i < length (clksInUse s). clksInUse s ! i = Some clk" by (simp only: in_set_conv_nth)
    then obtain i where i: "i < length (clksInUse s)" "clksInUse s ! i = Some clk" by (elim exE conjE)
    then have "clksInUse s ! i \<noteq> None" by simp
    with readers_okD [OF r i(1)] i(2) show ?thesis by (intro exI [of _ i] conjI)
  qed
  define safe where "safe = (if any then c else tmClk)"
  have le: "le_clk safe clk" if clk: "Some clk \<in> set (clksInUse s)" for clk
  proof -
    obtain i where i: "i < maxIDInUse s" "clksInUse s ! i = Some clk" using pos [OF clk] by (elim exE conjE)
    then have "any" using c(2) by (cases "any") simp_all
    then have "safe = c" by (simp add: safe_def)
    with c(3) i show ?thesis by blast
  qed
  have safe: "Some safe \<in> set (clksInUse s) \<or> safe = tmClk" using c(2) by (cases "any") (simp_all add: safe_def)
  have step: "cleanRoutine n highestTs tmClk s gc = (if IsEqual safe (lastCleanClk gc) then Inr (gc\<lparr>noCleans := noCleans gc + 1\<rparr>, [])
      else Inr (\<lparr>lastCleanClk = Some (Copy_clk safe), noCleans = 0\<rparr>, map (\<lambda>i. (i, MatGC safe)) [0..<n]))"
    unfolding cleanRoutine_def c(1) gbind_Inr prod.case Let_def safe_def ..
  show ?thesis
  proof (cases "IsEqual safe (lastCleanClk gc)")
    case True
    then show ?thesis unfolding step by simp
  next
    case False
    have "(i, MatGC safeClk) \<in> set (map (\<lambda>i. (i, MatGC safe)) [0..<n]) \<Longrightarrow> safeClk = safe" for i safeClk by auto
    with le safe False show ?thesis unfolding step by (simp del: set_map) blast
  qed
qed

section \<open>The collector panics\<close>

lemma oldest_outside: "length clks < n \<Longrightarrow> gfold (oldest_step clks) x [0..<n] = Inl IndexOutOfRange"
proof -
  assume "length clks < n"
  then have "[0..<n] = [0..<length clks] @ length clks # [Suc (length clks)..<n]" using upt_add_eq_append [of 0 "length clks" "n - length clks"] upt_conv_Cons by simp
  moreover obtain r where "gfold (oldest_step clks) x [0..<length clks] = Inr r" using oldest_inside by blast
  ultimately show ?thesis by (cases r) (simp add: gfold_append)
qed

text \<open>One client at a time, twice: the identifiers 0 and 1 are used in turn.\<close>

definition reconnects :: "client_event list" where
  "reconnects = [Generate, Connect, Disconnect 0, Generate, Connect, Disconnect 1]"

definition idle :: "nat \<Rightarrow> tm_ids" where
  "idle n = \<lparr>currMaxAvailableID = 2, reusableIDs = [0], newIDChan = [], canReuseIDChan = [1], clksInUse = replicate 100 None, maxIDInUse = n, connected = [], taking = (\<lambda>_. [])\<rparr>"

lemma update_replicate [simp]: "(replicate n x)[i := x] = replicate n x"
proof (rule nth_equalityI)
  fix j assume "j < length ((replicate n x)[i := x])"
  then show "(replicate n x)[i := x] ! j = replicate n x ! j" by (cases "j = i") simp_all
qed simp

lemmas client_simps = generateTMIDs_def CreateClientHandler_def lostConn_def set_clkInUse_def Let_def

lemma reconnects_start: "gfold client_step start_ids reconnects = Inr (idle 2)"
  by (simp add: reconnects_def start_ids_def idle_def client_simps numeral_2_eq_2 flip: replicate_Suc)

lemma reconnects_idle: "gfold client_step (idle n) reconnects = Inr (idle (n + 2))"
  by (simp add: reconnects_def idle_def client_simps numeral_2_eq_2 flip: replicate_Suc)

lemma reconnects_many: "gfold client_step start_ids (concat (replicate (Suc n) reconnects)) = Inr (idle (2 * Suc n))"
proof (induction n)
  case (Suc n)
  have "concat (replicate (Suc (Suc n)) reconnects) = concat (replicate (Suc n) reconnects) @ reconnects"
    by (simp only: replicate_Suc [of "Suc n"] replicate_append_same [symmetric] concat_append concat.simps append_Nil2)
  then show ?case using Suc reconnects_idle [of "2 * Suc n"] by (simp add: gfold_append del: replicate.simps)
qed (simp add: reconnects_start)

text \<open>
  \<open>maxIDInUse\<close> counts connections and is taken for the last position of \<open>clksInUse\<close>, which
  has one position per identifier. Identifiers are used again, so a client that connects and
  disconnects more than a hundred times makes the next cleaning read past the end of
  \<open>clksInUse\<close>: the collector panics, with nobody connected, and with it the server.
\<close>

theorem gc_panics_after_reconnects:
  assumes "50 < n"
  shows "\<exists>s. gfold client_step start_ids (concat (replicate n reconnects)) = Inr s \<and> connected s = []
    \<and> (cleanRoutine nGoRoutines highestTs tmClk s gc :: (gc_state \<times> (nat \<times> ('u, 'r) MatRequestArgs) list) go) = Inl IndexOutOfRange"
proof -
  obtain m where m: "n = Suc m" using assms by (cases n) auto
  have "oldest_clock highestTs (idle (2 * n)) = Inl IndexOutOfRange"
    unfolding oldest_clock_step using assms by (intro oldest_outside) (simp add: idle_def)
  then have "(cleanRoutine nGoRoutines highestTs tmClk (idle (2 * n)) gc :: (gc_state \<times> (nat \<times> ('u, 'r) MatRequestArgs) list) go) = Inl IndexOutOfRange"
    by (simp add: cleanRoutine_def)
  then show ?thesis using reconnects_many [of m] by (intro exI [of _ "idle (2 * n)"]) (simp add: m idle_def)
qed

theorem gc_panics_after_reconnects_witness:
  "\<exists>s. gfold client_step start_ids (concat (replicate 51 reconnects)) = Inr s \<and> connected s = []
    \<and> (cleanRoutine 8 [(1, MaxInt64)] [(1, 5)] s \<lparr>lastCleanClk = None, noCleans = 0\<rparr> :: (gc_state \<times> (nat \<times> (counter_op, unit) MatRequestArgs) list) go) = Inl IndexOutOfRange"
  by (rule gc_panics_after_reconnects) simp

text \<open>
  When two clients read at concurrent clocks, which a client that comes from another replica
  can bring about, the partitions are asked to clean up to the clock of the one with the lower
  identifier, and that is not below the clock of the other.
\<close>

theorem gc_above_concurrent_reader:
  assumes "on_ids I a" and "on_ids I b" and "\<not> le_clk a b" and "\<not> le_clk b a" and "IsLower a (Some highestTs)" and "\<not> IsEqual a (lastCleanClk gc)"
    and "maxIDInUse s = 2" and "clksInUse s = Some a # Some b # clks"
  shows "cleanRoutine n highestTs tmClk s gc = Inr (\<lparr>lastCleanClk = Some (Copy_clk a), noCleans = 0\<rparr>, map (\<lambda>i. (i, MatGC a)) [0..<n]) \<and> \<not> le_clk a b"
proof -
  have "\<not> IsLower b (Some a)" using assms IsLower_on_ids [of I b a] by simp
  then have "oldest_clock highestTs s = Inr (a, True)"
    using assms(5,7,8) unfolding oldest_clock_step by (simp add: numeral_2_eq_2 upt_rec)
  with assms(3,6) show ?thesis by (simp add: cleanRoutine_def)
qed

definition two_readers :: "client_event list" where
  "two_readers = [Generate, Generate, Connect, Connect, TakeClock 0 [(1, 5), (2, 6)] (Some [(1, 5), (2, 9)]), PublishClock 0, PublishClock 0,
     TakeClock 1 [(1, 7), (2, 6)] None, PublishClock 1]"

theorem gc_above_concurrent_reader_witness:
  "\<exists>s. gfold client_step start_ids two_readers = Inr s
    \<and> cleanRoutine 1 [(1, MaxInt64), (2, MaxInt64)] [(1, 7), (2, 6)] s \<lparr>lastCleanClk = None, noCleans = 0\<rparr>
        = Inr (\<lparr>lastCleanClk = Some (Copy_clk [(1, 5), (2, 9)]), noCleans = 0\<rparr>, [(0, MatGC [(1, 5), (2, 9)] :: (counter_op, unit) MatRequestArgs)])
    \<and> \<not> le_clk [(1, 5), (2, 9)] [(1, 7), (2, 6)]"
proof -
  have i: "on_ids {1, 2} [(1, 5), (2, 9)]" "on_ids {1, 2} [(1, 7), (2, 6)]" by (auto simp: on_ids_def wf_map_def)
  have l: "\<not> le_clk [(1, 5), (2, 9)] [(1, 7), (2, 6)]" "\<not> le_clk [(1, 7), (2, 6)] [(1, 5), (2, 9)]"
    by (auto simp: le_clk_def vget_def intro: exI [of _ 1] exI [of _ 2])
  have h: "IsLower [(1, 5), (2, 9)] (Some [(1, MaxInt64), (2, MaxInt64)])" by (simp add: IsLower_def vget_def)
  let ?s = "\<lparr>currMaxAvailableID = 2, reusableIDs = [], newIDChan = [], canReuseIDChan = [],
      clksInUse = Some [(1, 5), (2, 9)] # Some [(1, 7), (2, 6)] # replicate 98 None, maxIDInUse = 2, connected = [1, 0], taking = (\<lambda>_. [])\<rparr>"
  have "replicate 100 None = None # None # replicate 98 (None :: Timestamp)" by (simp add: numeral_eq_Suc)
  moreover have "fst (getClockToUse [(1, 5), (2, 6)] (Some [(1, 5), (2, 9)]) (\<lambda>_. None)) = [[(1, 5), (2, 6)], [(1, 5), (2, 9)]]"
    "fst (getClockToUse [(1, 7), (2, 6)] None (\<lambda>_. None)) = [[(1, 7), (2, 6)]]" by code_simp+
  ultimately have s: "gfold client_step start_ids two_readers = Inr ?s"
    by (simp add: two_readers_def start_ids_def client_simps numeral_2_eq_2 fun_eq_iff)
  show ?thesis
    using gc_above_concurrent_reader [OF i l h, where s = ?s and gc = "\<lparr>lastCleanClk = None, noCleans = 0\<rparr>" and n = 1 and 'a = counter_op and 'b = unit] s
    by (intro exI [of _ ?s]) (simp add: IsEqual_def)
qed

text \<open>
  A client that has taken its clock and not yet written it to \<open>clksInUse\<close> is not seen: here the
  client reads at 4, and the collector, which runs when the clock of the replica has reached 9,
  asks the partition to clean up to 9.
\<close>

theorem gc_above_taken_clock:
  "\<exists>s. gfold client_step start_ids [Generate, Connect, TakeClock 0 [(1, 4)] None] = Inr s \<and> taking s 0 = [[(1, 4)]]
    \<and> cleanRoutine 1 [(1, MaxInt64)] [(1, 9)] s \<lparr>lastCleanClk = None, noCleans = 0\<rparr>
        = Inr (\<lparr>lastCleanClk = Some (Copy_clk [(1, 9)]), noCleans = 0\<rparr>, [(0, MatGC [(1, 9)] :: (counter_op, unit) MatRequestArgs)])"
proof -
  have "fst (getClockToUse [(1, 4)] None (\<lambda>_. None)) = [[(1, 4)]]" by code_simp
  then show ?thesis by (simp add: start_ids_def client_simps cleanRoutine_def oldest_clock_def IsEqual_def)
qed

end
