(* ===== verification/CounterArray.thy ===== *)
theory CounterArray
  imports Convergence
begin

text \<open>
  The counter array of \<^verbatim>\<open>crdt/crdt/counterArrayCrdt.go\<close>: a slice of 64-bit counters that
  grows on demand, with updates of one position, of listed positions, of a prefix and of all
  positions. Indexing and slicing out of range panic. The slice keeps the elements between its
  length and its capacity, since undoing cuts it with \<open>counts[:n]\<close>, which Go allows up to the
  capacity: cutting to a larger length brings old elements back.
\<close>

record CounterArrayCrdt =
  counts :: "int list"
  counts_spare :: "int list"

datatype counter_array_op =
    CounterArraySetSize int
  | CounterArrayIncrement int int
  | CounterArrayDecrement int int
  | CounterArrayIncrementAll int
  | CounterArrayDecrementAll int
  | CounterArrayIncrementMulti "int list"
  | CounterArrayDecrementMulti "int list"
  | CounterArrayIncrementSub "int list" "int list"
  | CounterArrayDecrementSub "int list" "int list"
  | CounterArray_NoOp

text \<open>An update of one position has its change first, an update of several its changes first.\<close>

datatype counter_array_effect =
    CounterArraySetSizeEffect nat
  | CounterArrayIncrementEffect int int
  | CounterArrayDecrementEffect int int
  | CounterArrayIncrementAllEffect int
  | CounterArrayDecrementAllEffect int
  | CounterArrayIncrementMultiEffect "int list"
  | CounterArrayDecrementMultiEffect "int list"
  | CounterArrayIncrementSubEffect "int list" "int list"
  | CounterArrayDecrementSubEffect "int list" "int list"
  | CounterArrayIncMultiWithSizeEffect "int list" nat
  | CounterArrayDecMultiWithSizeEffect "int list" nat
  | CounterArrayIncSubWithSizeEffect "int list" "int list" nat
  | CounterArrayDecSubWithSizeEffect "int list" "int list" nat

datatype counter_array_read =
    CounterArrayFullArguments
  | CounterArraySingleArguments int
  | CounterArrayExceptArguments int
  | CounterArraySubArguments "int list"
  | CounterArrayExceptRangeArguments "int list" int

datatype counter_array_state = CounterArrayState "int list" | CounterArraySingleState int

section \<open>Loops over the slice\<close>

text \<open>The assignment operators \<open>+=\<close> and \<open>-=\<close> of \<open>int64\<close>.\<close>

definition add64 :: "int \<Rightarrow> int \<Rightarrow> int" where "add64 x d = int64 (x + d)"
definition sub64 :: "int \<Rightarrow> int \<Rightarrow> int" where "sub64 x d = int64 (x - d)"

text \<open>\<open>xs[pos] f= d\<close>, for a position of type \<open>int32\<close>.\<close>

definition upd_at :: "(int \<Rightarrow> int \<Rightarrow> int) \<Rightarrow> int list \<Rightarrow> int \<Rightarrow> int \<Rightarrow> int list go" where
  "upd_at f xs pos d = (if 0 \<le> pos \<and> pos < int (length xs)
     then Inr (xs[nat pos := f (xs ! nat pos) d]) else Inl IndexOutOfRange)"

text \<open>\<open>for i := range xs { xs[i] f= d }\<close>\<close>

definition upd_all :: "(int \<Rightarrow> int \<Rightarrow> int) \<Rightarrow> int list \<Rightarrow> int \<Rightarrow> int list" where
  "upd_all f xs d = map (\<lambda>x. f x d) xs"

text \<open>\<open>for i, change := range changes { xs[i] f= change }\<close>, from index \<open>i\<close> on.\<close>

primrec upd_multi :: "(int \<Rightarrow> int \<Rightarrow> int) \<Rightarrow> nat \<Rightarrow> int list \<Rightarrow> int list \<Rightarrow> int list go" where
  "upd_multi f i xs [] = Inr xs"
| "upd_multi f i xs (change # changes) =
     gbind (upd_at f xs (int i) change) (\<lambda>xs'. upd_multi f (Suc i) xs' changes)"

text \<open>
  The two loops over \<open>Positions\<close>: with one change for all of them, or with \<open>Changes[i]\<close> for
  the i-th. \<open>step\<close> is the body of the loop.
\<close>

primrec sub_loop :: "('s \<Rightarrow> int \<Rightarrow> int \<Rightarrow> 's go) \<Rightarrow> int list \<Rightarrow> nat \<Rightarrow> 's \<Rightarrow> int list \<Rightarrow> 's go" where
  "sub_loop step changes i s [] = Inr s"
| "sub_loop step changes i s (pos # positions) =
     (if i < length changes
      then gbind (step s pos (changes ! i)) (\<lambda>s'. sub_loop step changes (Suc i) s' positions)
      else Inl IndexOutOfRange)"

definition upd_sub :: "('s \<Rightarrow> int \<Rightarrow> int \<Rightarrow> 's go) \<Rightarrow> int list \<Rightarrow> int list \<Rightarrow> 's \<Rightarrow> 's go" where
  "upd_sub step changes positions s =
     (if length changes = 1 then gfold (\<lambda>s pos. step s pos (changes ! 0)) s positions
      else sub_loop step changes 0 s positions)"

definition copyToNewInt64Slice :: "int list \<Rightarrow> int list" where
  "copyToNewInt64Slice slice = slice"

text \<open>\<open>make\<close> panics for a negative length, \<open>copy\<close> copies as much as fits.\<close>

definition copyToNewInt64SliceWithSize :: "int list \<Rightarrow> int \<Rightarrow> int list go" where
  "copyToNewInt64SliceWithSize slice newSize =
     (if newSize < 0 then Inl NegativeMakeLen
      else Inr (take (nat newSize) slice @ replicate (nat newSize - length slice) 0))"

section \<open>Reads\<close>

definition CounterArray_Initialize :: CounterArrayCrdt where
  "CounterArray_Initialize = \<lparr>counts = [0], counts_spare = []\<rparr>"

definition CounterArray_IsBigCRDT :: "CounterArrayCrdt \<Rightarrow> bool" where
  "CounterArray_IsBigCRDT c \<longleftrightarrow> length (counts c) \<ge> 1000"

definition multi_grow :: "(int \<Rightarrow> int \<Rightarrow> int) \<Rightarrow> int list \<Rightarrow> int list \<Rightarrow> int list go" where
  "multi_grow f xs changes =
     gbind (if length changes > length xs then copyToNewInt64SliceWithSize xs (int (length changes)) else Inr xs)
       (\<lambda>xs'. upd_multi f 0 xs' changes)"

fun getState_step :: "int list \<Rightarrow> counter_array_op \<Rightarrow> int list go" where
  "getState_step xs (CounterArrayIncrement change pos) = upd_at add64 xs pos change"
| "getState_step xs (CounterArrayDecrement change pos) = upd_at sub64 xs pos change"
| "getState_step xs (CounterArrayIncrementAll change) = Inr (upd_all add64 xs change)"
| "getState_step xs (CounterArrayDecrementAll change) = Inr (upd_all sub64 xs change)"
| "getState_step xs (CounterArrayIncrementMulti changes) = multi_grow add64 xs changes"
| "getState_step xs (CounterArrayDecrementMulti changes) = multi_grow sub64 xs changes"
| "getState_step xs (CounterArrayIncrementSub changes positions) = upd_sub (upd_at add64) changes positions xs"
| "getState_step xs (CounterArrayDecrementSub changes positions) = upd_sub (upd_at sub64) changes positions xs"
| "getState_step xs (CounterArraySetSize newSize) =
     (if newSize > int (length xs) then copyToNewInt64SliceWithSize xs newSize else Inr xs)"
| "getState_step xs CounterArray_NoOp = Inr xs"

definition CounterArray_getState :: "CounterArrayCrdt \<Rightarrow> counter_array_op list \<Rightarrow> int list go" where
  "CounterArray_getState c updsNotYetApplied =
     (let tmpCopy = copyToNewInt64Slice (counts c)
      in if updsNotYetApplied = [] then Inr tmpCopy else gfold getState_step tmpCopy updsNotYetApplied)"

text \<open>
  The copying loop of \<open>getExceptRangeState\<close>, on the result slice and the index \<open>resultI\<close> of
  its next element.
\<close>

fun copy_step :: "int list \<Rightarrow> int list \<times> nat \<Rightarrow> int \<Rightarrow> (int list \<times> nat) go" where
  "copy_step source (result, resultI) j =
     (if resultI < length result \<and> 0 \<le> j \<and> j < int (length source)
      then Inr (result[resultI := source ! nat j], Suc resultI) else Inl IndexOutOfRange)"

fun except_loop :: "int list \<Rightarrow> int \<Rightarrow> int list \<times> nat \<Rightarrow> int list \<Rightarrow> (int \<times> int list \<times> nat) go" where
  "except_loop source nextStart r [] = Inr (nextStart, r)"
| "except_loop source nextStart r [currStop] =
     gbind (gfold (copy_step source) r [nextStart..currStop - 1]) (\<lambda>r'. Inl IndexOutOfRange)"
| "except_loop source nextStart r (currStop # endPos # exceptRange) =
     gbind (gfold (copy_step source) r [nextStart..currStop - 1])
       (\<lambda>r'. except_loop source (int32 (endPos + 1)) r' exceptRange)"

definition CounterArray_getExceptRangeState ::
    "CounterArrayCrdt \<Rightarrow> counter_array_op list \<Rightarrow> int list \<Rightarrow> int \<Rightarrow> int list go" where
  "CounterArray_getExceptRangeState c updsNotYetApplied exceptRange nPosSkip =
     gbind (if length updsNotYetApplied > 0 then CounterArray_getState c updsNotYetApplied else Inr (counts c))
       (\<lambda>sourceSlice.
          if int (length sourceSlice) - nPosSkip < 0 then Inl NegativeMakeLen
          else gbind (except_loop sourceSlice 0 (replicate (nat (int (length sourceSlice) - nPosSkip)) 0, 0) exceptRange)
            (\<lambda>(nextStart, r). gbind (gfold (copy_step sourceSlice) r [nextStart..int (length sourceSlice) - 1])
               (\<lambda>(result, resultI). Inr (take resultI result))))"

text \<open>Updates of a slice from which position \<open>exceptPos\<close> was taken out.\<close>

definition upd_except :: "(int \<Rightarrow> int \<Rightarrow> int) \<Rightarrow> int \<Rightarrow> int list \<Rightarrow> int \<Rightarrow> int \<Rightarrow> int list go" where
  "upd_except f exceptPos result pos change =
     (if pos < exceptPos then upd_at f result pos change
      else if pos > exceptPos then upd_at f result (pos - 1) change
      else Inr result)"

text \<open>
  The loops run over \<open>changes[:exceptPos]\<close> and \<open>changes[exceptPos+1:]\<close>; the second slice
  expression panics when there are not more than \<open>exceptPos\<close> changes.
\<close>

definition multi_except :: "(int \<Rightarrow> int \<Rightarrow> int) \<Rightarrow> int \<Rightarrow> int list \<Rightarrow> int list \<Rightarrow> int list go" where
  "multi_except f exceptPos result changes =
     gbind (if length changes > length result
            then copyToNewInt64SliceWithSize result (int (length changes) - 1) else Inr result)
       (\<lambda>result1. if int (length changes) \<le> exceptPos then Inl IndexOutOfRange
          else gbind (upd_multi f 0 result1 (take (nat exceptPos) changes))
            (\<lambda>result2. upd_multi f (nat exceptPos) result2 (drop (Suc (nat exceptPos)) changes)))"

fun getExcept_step :: "int \<Rightarrow> int list \<Rightarrow> counter_array_op \<Rightarrow> int list go" where
  "getExcept_step exceptPos xs (CounterArrayIncrement change pos) = upd_except add64 exceptPos xs pos change"
| "getExcept_step exceptPos xs (CounterArrayDecrement change pos) = upd_except sub64 exceptPos xs pos change"
| "getExcept_step exceptPos xs (CounterArrayIncrementAll change) = Inr (upd_all add64 xs change)"
| "getExcept_step exceptPos xs (CounterArrayDecrementAll change) = Inr (upd_all sub64 xs change)"
| "getExcept_step exceptPos xs (CounterArrayIncrementMulti changes) = multi_except add64 exceptPos xs changes"
| "getExcept_step exceptPos xs (CounterArrayDecrementMulti changes) = multi_except sub64 exceptPos xs changes"
| "getExcept_step exceptPos xs (CounterArrayIncrementSub changes positions) =
     upd_sub (upd_except add64 exceptPos) changes positions xs"
| "getExcept_step exceptPos xs (CounterArrayDecrementSub changes positions) =
     upd_sub (upd_except sub64 exceptPos) changes positions xs"
| "getExcept_step exceptPos xs (CounterArraySetSize newSize) =
     (if newSize > int (length xs) + 1 then copyToNewInt64SliceWithSize xs (newSize - 1) else Inr xs)"
| "getExcept_step exceptPos xs CounterArray_NoOp = Inr xs"

definition CounterArray_getExceptState :: "CounterArrayCrdt \<Rightarrow> counter_array_op list \<Rightarrow> int \<Rightarrow> int list go" where
  "CounterArray_getExceptState c updsNotYetApplied exceptPos =
     (if counts c = [] then Inl NegativeMakeLen
      else if exceptPos < 0 \<or> int (length (counts c)) \<le> exceptPos then Inl IndexOutOfRange
      else let result = take (nat exceptPos) (counts c) @ drop (Suc (nat exceptPos)) (counts c)
        in if updsNotYetApplied = [] then Inr result
           else gfold (getExcept_step exceptPos) result updsNotYetApplied)"

text \<open>The loop over \<open>Positions\<close> of a single read leaves at the first match.\<close>

primrec single_sub :: "(int \<Rightarrow> int \<Rightarrow> int) \<Rightarrow> int list \<Rightarrow> int \<Rightarrow> nat \<Rightarrow> int \<Rightarrow> int list \<Rightarrow> int go" where
  "single_sub f changes pos i value [] = Inr value"
| "single_sub f changes pos i value (subPos # positions) =
     (if subPos = pos
      then if length changes = 1 then Inr (f value (changes ! 0))
           else if i < length changes then Inr (f value (changes ! i)) else Inl IndexOutOfRange
      else single_sub f changes pos (Suc i) value positions)"

definition single_multi :: "(int \<Rightarrow> int \<Rightarrow> int) \<Rightarrow> int \<Rightarrow> int \<Rightarrow> int list \<Rightarrow> int go" where
  "single_multi f pos value changes =
     (if int (length changes) > pos
      then if pos < 0 then Inl IndexOutOfRange else Inr (f value (changes ! nat pos))
      else Inr value)"

fun getSingle_step :: "int \<Rightarrow> int \<Rightarrow> counter_array_op \<Rightarrow> int go" where
  "getSingle_step pos value (CounterArrayIncrement change p) = Inr (if p = pos then add64 value change else value)"
| "getSingle_step pos value (CounterArrayDecrement change p) = Inr (if p = pos then sub64 value change else value)"
| "getSingle_step pos value (CounterArrayIncrementAll change) = Inr (add64 value change)"
| "getSingle_step pos value (CounterArrayDecrementAll change) = Inr (sub64 value change)"
| "getSingle_step pos value (CounterArrayIncrementMulti changes) = single_multi add64 pos value changes"
| "getSingle_step pos value (CounterArrayDecrementMulti changes) = single_multi sub64 pos value changes"
| "getSingle_step pos value (CounterArrayIncrementSub changes positions) = single_sub add64 changes pos 0 value positions"
| "getSingle_step pos value (CounterArrayDecrementSub changes positions) = single_sub sub64 changes pos 0 value positions"
| "getSingle_step pos value (CounterArraySetSize newSize) = Inr value"
| "getSingle_step pos value CounterArray_NoOp = Inr value"

text \<open>\<open>xs[pos]\<close>, and the guarded access \<open>if pos > len(xs) { 0 } else { xs[pos] }\<close>.\<close>

definition get_at :: "int list \<Rightarrow> int \<Rightarrow> int go" where
  "get_at xs pos = (if 0 \<le> pos \<and> pos < int (length xs) then Inr (xs ! nat pos) else Inl IndexOutOfRange)"

definition get_or_zero :: "int list \<Rightarrow> int \<Rightarrow> int go" where
  "get_or_zero xs pos = (if pos > int32 (int (length xs)) then Inr 0 else get_at xs pos)"

definition CounterArray_getSingleState :: "CounterArrayCrdt \<Rightarrow> counter_array_op list \<Rightarrow> int \<Rightarrow> int go" where
  "CounterArray_getSingleState c updsNotYetApplied pos =
     (if updsNotYetApplied = [] then get_at (counts c) pos
      else gbind (get_or_zero (counts c) pos) (\<lambda>value. gfold (getSingle_step pos) value updsNotYetApplied))"

primrec get_positions :: "int list \<Rightarrow> int list \<Rightarrow> int list go" where
  "get_positions xs [] = Inr []"
| "get_positions xs (pos # positions) =
     gbind (get_or_zero xs pos) (\<lambda>v. gbind (get_positions xs positions) (\<lambda>vs. Inr (v # vs)))"

text \<open>As \<open>getState\<close>, but updates of all positions change the positions of the read only.\<close>

fun getSub_step :: "int list \<Rightarrow> int list \<Rightarrow> counter_array_op \<Rightarrow> int list go" where
  "getSub_step positions xs (CounterArrayIncrementAll change) = gfold (\<lambda>xs pos. upd_at add64 xs pos change) xs positions"
| "getSub_step positions xs (CounterArrayDecrementAll change) = gfold (\<lambda>xs pos. upd_at sub64 xs pos change) xs positions"
| "getSub_step positions xs u = getState_step xs u"

definition CounterArray_getSubState :: "CounterArrayCrdt \<Rightarrow> counter_array_op list \<Rightarrow> int list \<Rightarrow> int list go" where
  "CounterArray_getSubState c updsNotYetApplied positions =
     (if updsNotYetApplied = [] then get_positions (counts c) positions
      else gbind (gfold (getSub_step positions) (copyToNewInt64Slice (counts c)) updsNotYetApplied)
             (\<lambda>tmpCopy. get_positions tmpCopy positions))"

fun CounterArray_Read ::
    "CounterArrayCrdt \<Rightarrow> counter_array_read \<Rightarrow> counter_array_op list \<Rightarrow> counter_array_state go" where
  "CounterArray_Read c CounterArrayFullArguments upds =
     gbind (CounterArray_getState c upds) (\<lambda>xs. Inr (CounterArrayState xs))"
| "CounterArray_Read c (CounterArraySingleArguments pos) upds =
     gbind (CounterArray_getSingleState c upds pos) (\<lambda>x. Inr (CounterArraySingleState x))"
| "CounterArray_Read c (CounterArrayExceptArguments pos) upds =
     (if pos \<ge> int (length (counts c)) then gbind (CounterArray_getState c upds) (\<lambda>xs. Inr (CounterArrayState xs))
      else gbind (CounterArray_getExceptState c upds pos) (\<lambda>xs. Inr (CounterArrayState xs)))"
| "CounterArray_Read c (CounterArraySubArguments positions) upds =
     gbind (CounterArray_getSubState c upds positions) (\<lambda>xs. Inr (CounterArrayState xs))"
| "CounterArray_Read c (CounterArrayExceptRangeArguments exceptRange nPosSkip) upds =
     gbind (CounterArray_getExceptRangeState c upds exceptRange nPosSkip) (\<lambda>xs. Inr (CounterArrayState xs))"

section \<open>Updates\<close>

fun CounterArray_Update :: "CounterArrayCrdt \<Rightarrow> counter_array_op \<Rightarrow> counter_array_op" where
  "CounterArray_Update c (CounterArraySetSize newSize) =
     (if newSize \<le> int (length (counts c)) then CounterArray_NoOp else CounterArraySetSize newSize)"
| "CounterArray_Update c u = u"

text \<open>A new slice has no spare capacity.\<close>

definition expandArray :: "CounterArrayCrdt \<Rightarrow> int \<Rightarrow> CounterArrayCrdt go" where
  "expandArray c newSize = gbind (copyToNewInt64SliceWithSize (counts c) newSize)
     (\<lambda>newCounts. Inr \<lparr>counts = newCounts, counts_spare = []\<rparr>)"

text \<open>\<open>crdt.counts[pos] f= change\<close>, and the same after growing the slice when needed.\<close>

definition counts_at :: "(int \<Rightarrow> int \<Rightarrow> int) \<Rightarrow> CounterArrayCrdt \<Rightarrow> int \<Rightarrow> int \<Rightarrow> CounterArrayCrdt go" where
  "counts_at f c pos change = gbind (upd_at f (counts c) pos change) (\<lambda>xs. Inr (c\<lparr>counts := xs\<rparr>))"

definition grow_at :: "(int \<Rightarrow> int \<Rightarrow> int) \<Rightarrow> CounterArrayCrdt \<Rightarrow> int \<Rightarrow> int \<Rightarrow> CounterArrayCrdt go" where
  "grow_at f c pos change =
     gbind (if pos \<ge> int (length (counts c)) then expandArray c (int32 (pos + 1)) else Inr c)
       (\<lambda>c'. counts_at f c' pos change)"

definition counts_multi :: "(int \<Rightarrow> int \<Rightarrow> int) \<Rightarrow> CounterArrayCrdt \<Rightarrow> int list \<Rightarrow> CounterArrayCrdt go" where
  "counts_multi f c changes = gbind (upd_multi f 0 (counts c) changes) (\<lambda>xs. Inr (c\<lparr>counts := xs\<rparr>))"

definition with_effect :: "'s go \<Rightarrow> 'e \<Rightarrow> ('s \<times> 'e effect) go" where
  "with_effect m e = gbind m (\<lambda>s. Inr (s, Eff e))"

text \<open>
  \<open>applyDownstream\<close>, case by case. The case of \<open>DecrementMulti\<close> adds the changes, and
  records the effect of an increment unless it grows the slice.
\<close>

fun CounterArray_applyDownstream ::
    "CounterArrayCrdt \<Rightarrow> counter_array_op \<Rightarrow> (CounterArrayCrdt \<times> counter_array_effect effect) go" where
  "CounterArray_applyDownstream c (CounterArrayIncrement change pos) = with_effect (grow_at add64 c pos change)
     (if pos \<ge> int (length (counts c)) then CounterArraySetSizeEffect (length (counts c))
      else CounterArrayIncrementEffect change pos)"
| "CounterArray_applyDownstream c (CounterArrayDecrement change pos) = with_effect (grow_at sub64 c pos change)
     (if pos \<ge> int (length (counts c)) then CounterArraySetSizeEffect (length (counts c))
      else CounterArrayDecrementEffect change pos)"
| "CounterArray_applyDownstream c (CounterArrayIncrementAll change) =
     Inr (c\<lparr>counts := upd_all add64 (counts c) change\<rparr>, Eff (CounterArrayIncrementAllEffect change))"
| "CounterArray_applyDownstream c (CounterArrayDecrementAll change) =
     Inr (c\<lparr>counts := upd_all sub64 (counts c) change\<rparr>, Eff (CounterArrayDecrementAllEffect change))"
| "CounterArray_applyDownstream c (CounterArrayIncrementMulti changes) =
     (if length changes > length (counts c)
      then with_effect (gbind (expandArray c (int32 (int (length changes)))) (\<lambda>c'. counts_multi add64 c' changes))
             (CounterArrayIncMultiWithSizeEffect changes (length (counts c)))
      else with_effect (counts_multi add64 c changes) (CounterArrayIncrementMultiEffect changes))"
| "CounterArray_applyDownstream c (CounterArrayDecrementMulti changes) =
     (if length changes > length (counts c)
      then with_effect (gbind (expandArray c (int32 (int (length changes)))) (\<lambda>c'. counts_multi add64 c' changes))
             (CounterArrayDecMultiWithSizeEffect changes (length (counts c)))
      else with_effect (counts_multi add64 c changes) (CounterArrayIncrementMultiEffect changes))"
| "CounterArray_applyDownstream c (CounterArrayIncrementSub changes positions) =
     gbind (upd_sub (grow_at add64) changes positions c) (\<lambda>c'. Inr (c', Eff
       (if length (counts c) \<noteq> length (counts c') then CounterArrayIncSubWithSizeEffect changes positions (length (counts c))
        else CounterArrayIncrementSubEffect changes positions)))"
| "CounterArray_applyDownstream c (CounterArrayDecrementSub changes positions) =
     gbind (upd_sub (grow_at sub64) changes positions c) (\<lambda>c'. Inr (c', Eff
       (if length (counts c) \<noteq> length (counts c') then CounterArrayDecSubWithSizeEffect changes positions (length (counts c))
        else CounterArrayDecrementSubEffect changes positions)))"
| "CounterArray_applyDownstream c (CounterArraySetSize newSize) =
     (if newSize > int (length (counts c))
      then with_effect (expandArray c newSize) (CounterArraySetSizeEffect (length (counts c)))
      else Inr (c, NoEffect))"
| "CounterArray_applyDownstream c CounterArray_NoOp = Inr (c, NilEffect)"

definition CounterArray_Downstream ::
    "bool \<Rightarrow> (counter_array_op, counter_array_effect effect) History list \<times> CounterArrayCrdt \<Rightarrow> ClockSiTimestamp
       \<Rightarrow> counter_array_op \<Rightarrow> ((counter_array_op, counter_array_effect effect) History list \<times> CounterArrayCrdt) go" where
  "CounterArray_Downstream vmDisabled c updTs downstreamArgs = (case c of (history, v) \<Rightarrow>
     gbind (CounterArray_applyDownstream v downstreamArgs) (\<lambda>(v', effect).
       Inr (addToHistory vmDisabled history updTs downstreamArgs effect, v')))"

definition CounterArray_reapplyOp ::
    "CounterArrayCrdt \<Rightarrow> counter_array_op \<Rightarrow> (CounterArrayCrdt \<times> counter_array_effect effect) go" where
  "CounterArray_reapplyOp c updArgs = CounterArray_applyDownstream c updArgs"

text \<open>\<open>crdt.counts = crdt.counts[:n]\<close>, which may also lengthen the slice up to its capacity.\<close>

definition reslice :: "nat \<Rightarrow> CounterArrayCrdt \<Rightarrow> CounterArrayCrdt go" where
  "reslice n c = (let xs = counts c @ counts_spare c
     in if n \<le> length xs then Inr \<lparr>counts = take n xs, counts_spare = drop n xs\<rparr> else Inl IndexOutOfRange)"

fun CounterArray_undoEffect :: "CounterArrayCrdt \<Rightarrow> counter_array_effect effect \<Rightarrow> CounterArrayCrdt go" where
  "CounterArray_undoEffect c (Eff (CounterArrayIncrementEffect change pos)) = counts_at sub64 c pos change"
| "CounterArray_undoEffect c (Eff (CounterArrayDecrementEffect change pos)) = counts_at add64 c pos change"
| "CounterArray_undoEffect c (Eff (CounterArrayIncrementAllEffect change)) = Inr (c\<lparr>counts := upd_all sub64 (counts c) change\<rparr>)"
| "CounterArray_undoEffect c (Eff (CounterArrayDecrementAllEffect change)) = Inr (c\<lparr>counts := upd_all add64 (counts c) change\<rparr>)"
| "CounterArray_undoEffect c (Eff (CounterArrayIncrementMultiEffect changes)) = counts_multi sub64 c changes"
| "CounterArray_undoEffect c (Eff (CounterArrayDecrementMultiEffect changes)) = counts_multi add64 c changes"
| "CounterArray_undoEffect c (Eff (CounterArrayIncrementSubEffect changes positions)) =
     upd_sub (counts_at sub64) changes positions c"
| "CounterArray_undoEffect c (Eff (CounterArrayDecrementSubEffect changes positions)) =
     upd_sub (counts_at add64) changes positions c"
| "CounterArray_undoEffect c (Eff (CounterArrayIncMultiWithSizeEffect changes oldSize)) =
     gbind (counts_multi sub64 c changes) (reslice oldSize)"
| "CounterArray_undoEffect c (Eff (CounterArrayDecMultiWithSizeEffect changes oldSize)) =
     gbind (counts_multi add64 c changes) (reslice oldSize)"
| "CounterArray_undoEffect c (Eff (CounterArrayIncSubWithSizeEffect changes positions oldSize)) =
     gbind (upd_sub (counts_at sub64) changes positions c) (reslice oldSize)"
| "CounterArray_undoEffect c (Eff (CounterArrayDecSubWithSizeEffect changes positions oldSize)) =
     gbind (upd_sub (counts_at add64) changes positions c) (reslice oldSize)"
| "CounterArray_undoEffect c (Eff (CounterArraySetSizeEffect oldSize)) = reslice oldSize c"
| "CounterArray_undoEffect c NoEffect = Inr c"
| "CounterArray_undoEffect c NilEffect = Inr c"

text \<open>\<open>Copy\<close> makes a new slice of the same length.\<close>

definition CounterArray_Copy :: "CounterArrayCrdt \<Rightarrow> CounterArrayCrdt" where
  "CounterArray_Copy c = \<lparr>counts = copyToNewInt64Slice (counts c), counts_spare = []\<rparr>"

section \<open>Messages\<close>

text \<open>Optional fields of the messages are options; index before amount.\<close>

record ApbArrayCounterUpdate =
  au_inc :: "(int \<times> int) option"
  au_incAll :: "int option"
  au_incMulti :: "int list option"
  au_incSub :: "(int list \<times> int list) option"
  au_size :: "int option"

definition no_update :: ApbArrayCounterUpdate where
  "no_update = \<lparr>au_inc = None, au_incAll = None, au_incMulti = None, au_incSub = None, au_size = None\<rparr>"

fun CounterArray_ToUpdateObject :: "counter_array_op \<Rightarrow> ApbArrayCounterUpdate option" where
  "CounterArray_ToUpdateObject (CounterArrayIncrement change pos) = Some (no_update\<lparr>au_inc := Some (pos, change)\<rparr>)"
| "CounterArray_ToUpdateObject (CounterArrayDecrement change pos) = Some (no_update\<lparr>au_inc := Some (pos, int64 (- change))\<rparr>)"
| "CounterArray_ToUpdateObject (CounterArrayIncrementAll change) = Some (no_update\<lparr>au_incAll := Some change\<rparr>)"
| "CounterArray_ToUpdateObject (CounterArrayDecrementAll change) = Some (no_update\<lparr>au_incAll := Some (int64 (- change))\<rparr>)"
| "CounterArray_ToUpdateObject (CounterArrayIncrementMulti changes) = Some (no_update\<lparr>au_incMulti := Some changes\<rparr>)"
| "CounterArray_ToUpdateObject (CounterArrayDecrementMulti changes) =
     Some (no_update\<lparr>au_incMulti := Some (map (\<lambda>inc. int64 (- inc)) changes)\<rparr>)"
| "CounterArray_ToUpdateObject (CounterArrayIncrementSub changes positions) =
     Some (no_update\<lparr>au_incSub := Some (positions, changes)\<rparr>)"
| "CounterArray_ToUpdateObject (CounterArrayDecrementSub changes positions) =
     Some (no_update\<lparr>au_incSub := Some (positions, map (\<lambda>inc. int64 (- inc)) changes)\<rparr>)"
| "CounterArray_ToUpdateObject (CounterArraySetSize newSize) = Some (no_update\<lparr>au_size := Some newSize\<rparr>)"
| "CounterArray_ToUpdateObject CounterArray_NoOp = None"

text \<open>
  The dispatcher with the \<open>FromUpdateObject\<close> it calls: \<open>Decrement\<close>'s builds an increment of
  the negated amount. An empty list of amounts panics.
\<close>

definition updateArrayCounterProtoToAntidoteUpdate :: "ApbArrayCounterUpdate \<Rightarrow> counter_array_op go" where
  "updateArrayCounterProtoToAntidoteUpdate pb =
     (case au_inc pb of
        Some (index, inc) \<Rightarrow> Inr (if inc \<ge> 0 then CounterArrayIncrement inc index
          else CounterArrayIncrement (int64 (- inc)) index)
      | None \<Rightarrow> (case au_incAll pb of
        Some inc \<Rightarrow> Inr (if inc \<ge> 0 then CounterArrayIncrementAll inc else CounterArrayDecrementAll (int64 (- inc)))
      | None \<Rightarrow> (case au_incMulti pb of
        Some incs \<Rightarrow> (if incs = [] then Inl IndexOutOfRange
          else Inr (if incs ! 0 \<ge> 0 then CounterArrayIncrementMulti incs
            else CounterArrayDecrementMulti (map (\<lambda>inc. int64 (- inc)) incs)))
      | None \<Rightarrow> (case au_incSub pb of
        Some (indexes, incs) \<Rightarrow> (if incs = [] then Inl IndexOutOfRange
          else Inr (if incs ! 0 \<ge> 0 then CounterArrayIncrementSub incs indexes
            else CounterArrayDecrementSub (map (\<lambda>inc. int64 (- inc)) incs) indexes))
      | None \<Rightarrow> Inr (CounterArraySetSize (case au_size pb of Some s \<Rightarrow> s | None \<Rightarrow> 0))))))"

record ProtoArrayCounterDownstream =
  ad_IsInc :: "bool option"
  ad_inc :: "(int \<times> int) option"
  ad_incAll :: "int option"
  ad_incMulti :: "int list option"
  ad_incSub :: "(int list \<times> int list) option"
  ad_size :: "int option"

definition down_msg :: "bool option \<Rightarrow> ProtoArrayCounterDownstream" where
  "down_msg isInc = \<lparr>ad_IsInc = isInc, ad_inc = None, ad_incAll = None, ad_incMulti = None, ad_incSub = None, ad_size = None\<rparr>"

fun CounterArray_ToReplicatorObj :: "counter_array_op \<Rightarrow> ProtoArrayCounterDownstream option" where
  "CounterArray_ToReplicatorObj (CounterArrayIncrement change pos) = Some ((down_msg (Some True))\<lparr>ad_inc := Some (pos, change)\<rparr>)"
| "CounterArray_ToReplicatorObj (CounterArrayDecrement change pos) =
     Some ((down_msg (Some False))\<lparr>ad_inc := Some (pos, int64 (- change))\<rparr>)"
| "CounterArray_ToReplicatorObj (CounterArrayIncrementAll change) = Some ((down_msg (Some True))\<lparr>ad_incAll := Some change\<rparr>)"
| "CounterArray_ToReplicatorObj (CounterArrayDecrementAll change) =
     Some ((down_msg (Some False))\<lparr>ad_incAll := Some (int64 (- change))\<rparr>)"
| "CounterArray_ToReplicatorObj (CounterArrayIncrementMulti changes) = Some ((down_msg (Some True))\<lparr>ad_incMulti := Some changes\<rparr>)"
| "CounterArray_ToReplicatorObj (CounterArrayDecrementMulti changes) =
     Some ((down_msg (Some False))\<lparr>ad_incMulti := Some (map (\<lambda>inc. int64 (- inc)) changes)\<rparr>)"
| "CounterArray_ToReplicatorObj (CounterArrayIncrementSub changes positions) =
     Some ((down_msg (Some True))\<lparr>ad_incSub := Some (positions, changes)\<rparr>)"
| "CounterArray_ToReplicatorObj (CounterArrayDecrementSub changes positions) =
     Some ((down_msg (Some False))\<lparr>ad_incSub := Some (positions, map (\<lambda>inc. int64 (- inc)) changes)\<rparr>)"
| "CounterArray_ToReplicatorObj (CounterArraySetSize newSize) = Some ((down_msg None)\<lparr>ad_size := Some newSize\<rparr>)"
| "CounterArray_ToReplicatorObj CounterArray_NoOp = None"

definition downstreamProtoCounterArrayToAntidoteDownstream :: "ProtoArrayCounterDownstream \<Rightarrow> counter_array_op" where
  "downstreamProtoCounterArrayToAntidoteDownstream pb =
     (let setSize = CounterArraySetSize (case ad_size pb of Some s \<Rightarrow> s | None \<Rightarrow> 0)
      in if ad_IsInc pb = Some True then
        (case ad_inc pb of Some (index, inc) \<Rightarrow> CounterArrayIncrement inc index
         | None \<Rightarrow> (case ad_incAll pb of Some inc \<Rightarrow> CounterArrayIncrementAll inc
         | None \<Rightarrow> (case ad_incMulti pb of Some incs \<Rightarrow> CounterArrayIncrementMulti incs
         | None \<Rightarrow> (case ad_incSub pb of Some (indexes, incs) \<Rightarrow> CounterArrayIncrementSub incs indexes
         | None \<Rightarrow> setSize))))
      else
        (case ad_inc pb of Some (index, inc) \<Rightarrow> CounterArrayIncrement (int64 (- inc)) index
         | None \<Rightarrow> (case ad_incAll pb of Some inc \<Rightarrow> CounterArrayDecrementAll inc
         | None \<Rightarrow> (case ad_incMulti pb of Some incs \<Rightarrow> CounterArrayDecrementMulti (map (\<lambda>inc. int64 (- inc)) incs)
         | None \<Rightarrow> (case ad_incSub pb of
             Some (indexes, incs) \<Rightarrow> CounterArrayDecrementSub (map (\<lambda>inc. int64 (- inc)) incs) indexes
         | None \<Rightarrow> setSize)))))"

definition CounterArray_ToProtoState :: "CounterArrayCrdt \<Rightarrow> int list" where
  "CounterArray_ToProtoState c = counts c"

text \<open>The capacity of a slice that a message was decoded into is the parameter \<open>spare\<close>.\<close>

definition CounterArray_FromProtoState :: "int list \<Rightarrow> int list \<Rightarrow> CounterArrayCrdt" where
  "CounterArray_FromProtoState spare pb = \<lparr>counts = pb, counts_spare = spare\<rparr>"

section \<open>Pointwise meaning of the loops\<close>

abbreviation int64s :: "int list \<Rightarrow> bool" where
  "int64s xs \<equiv> \<forall>x \<in> set xs. in_int 64 x"

text \<open>The value at a position; positions beyond the slice count as zero.\<close>

definition val_at :: "int list \<Rightarrow> nat \<Rightarrow> int" where
  "val_at xs p = (if p < length xs then xs ! p else 0)"

text \<open>What a list of positions and signed changes adds at one position.\<close>

definition pair_sum :: "(int \<times> int) list \<Rightarrow> nat \<Rightarrow> int" where
  "pair_sum ps k = sum_list (map snd (filter (\<lambda>q. fst q = int k) ps))"

definition add_pairs :: "int list \<Rightarrow> (int \<times> int) list \<Rightarrow> int list go" where
  "add_pairs xs ps = gfold (\<lambda>xs q. upd_at add64 xs (fst q) (snd q)) xs ps"

definition negate :: "(int \<times> int) list \<Rightarrow> (int \<times> int) list" where
  "negate ps = map (\<lambda>q. (fst q, - snd q)) ps"

definition multi_pairs :: "nat \<Rightarrow> int list \<Rightarrow> (int \<times> int) list" where
  "multi_pairs i changes = zip (map int [i..<i + length changes]) changes"

definition sub_pairs :: "int list \<Rightarrow> int list \<Rightarrow> (int \<times> int) list" where
  "sub_pairs changes positions =
     zip positions (if length changes = 1 then replicate (length positions) (changes ! 0) else changes)"

definition in_slice :: "nat \<Rightarrow> (int \<times> int) list \<Rightarrow> bool" where
  "in_slice n ps \<longleftrightarrow> (\<forall>q \<in> set ps. 0 \<le> fst q \<and> fst q < int n)"

lemma pair_sum_Nil [simp]: "pair_sum [] k = 0"
  by (simp add: pair_sum_def)

lemma pair_sum_Cons: "pair_sum (q # ps) k = (if fst q = int k then snd q else 0) + pair_sum ps k"
  by (simp add: pair_sum_def)

lemma pair_sum_negate: "pair_sum (negate ps) k = - pair_sum ps k"
  by (induction ps) (simp_all add: negate_def pair_sum_Cons)

lemma pair_sum_append: "pair_sum (ps @ qs) k = pair_sum ps k + pair_sum qs k"
  by (simp add: pair_sum_def)

lemma pair_sum_outside: "in_slice n ps \<Longrightarrow> n \<le> k \<Longrightarrow> pair_sum ps k = 0"
  by (induction ps) (auto simp: in_slice_def pair_sum_Cons)

lemma in_slice_negate [simp]: "in_slice n (negate ps) = in_slice n ps"
  by (auto simp: in_slice_def negate_def)

lemma in_slice_mono: "in_slice n ps \<Longrightarrow> n \<le> m \<Longrightarrow> in_slice m ps"
  by (force simp: in_slice_def)

lemma upd_at_sub: "upd_at sub64 xs p d = upd_at add64 xs p (- d)"
  by (simp add: upd_at_def sub64_def add64_def)

lemma int64s_upd: "int64s xs \<Longrightarrow> upd_at add64 xs p d = Inr ys \<Longrightarrow> int64s ys"
  by (auto simp: upd_at_def add64_def swrap_in_int split: if_splits dest!: set_update_subset_insert [THEN subsetD])

lemma add_pairs_value:
  assumes "in_slice (length xs) ps" and "int64s xs"
  shows "\<exists>ys. add_pairs xs ps = Inr ys \<and> int64s ys \<and> length ys = length xs
    \<and> (\<forall>k < length xs. ys ! k = int64 (xs ! k + pair_sum ps k))"
  using assms
proof (induction ps arbitrary: xs)
  case Nil
  then show ?case by (auto simp: add_pairs_def swrap_id)
next
  case (Cons q ps)
  let ?xs = "xs[nat (fst q) := add64 (xs ! nat (fst q)) (snd q)]"
  from Cons.prems(1) have q: "0 \<le> fst q" "fst q < int (length xs)" by (auto simp: in_slice_def)
  then have u: "upd_at add64 xs (fst q) (snd q) = Inr ?xs" by (simp add: upd_at_def)
  have "in_slice (length ?xs) ps" using Cons.prems(1) by (simp add: in_slice_def)
  from Cons.IH [OF this int64s_upd [OF Cons.prems(2) u]] obtain ys
    where ys: "add_pairs ?xs ps = Inr ys" "int64s ys" "length ys = length xs"
      "\<forall>k < length xs. ys ! k = int64 (?xs ! k + pair_sum ps k)" by auto
  have "ys ! k = int64 (xs ! k + pair_sum (q # ps) k)" if k: "k < length xs" for k
    using ys(4) k q by (auto simp: nth_list_update pair_sum_Cons add64_def wrap_simps add.assoc)
  with ys u show ?case by (auto simp: add_pairs_def)
qed

lemma int64s_eqI: "int64s xs \<Longrightarrow> length ys = length xs \<Longrightarrow> (\<forall>k < length xs. ys ! k = int64 (xs ! k)) \<Longrightarrow> ys = xs"
  by (intro nth_equalityI) (auto simp: swrap_id)

text \<open>Adding and then subtracting the same changes gives the slice back.\<close>

lemma add_pairs_undo:
  assumes "in_slice (length xs) ps" and "int64s xs" and "add_pairs xs ps = Inr ys"
  shows "add_pairs ys (negate ps) = Inr xs"
proof -
  from add_pairs_value [OF assms(1,2)] assms(3) have ys: "int64s ys" "length ys = length xs"
    "\<forall>k < length xs. ys ! k = int64 (xs ! k + pair_sum ps k)" by auto
  from assms(1) ys(2) have "in_slice (length ys) (negate ps)" by simp
  from add_pairs_value [OF this ys(1)] obtain zs where zs: "add_pairs ys (negate ps) = Inr zs"
    "length zs = length xs" "\<forall>k < length xs. zs ! k = int64 (ys ! k + pair_sum (negate ps) k)"
    using ys(2) by auto
  then have "\<forall>k < length xs. zs ! k = int64 (xs ! k)" using ys(3) by (simp add: pair_sum_negate wrap_simps)
  from int64s_eqI [OF assms(2) zs(2) this] zs(1) show ?thesis by simp
qed

section \<open>The loops of the code are additions of changes\<close>

lemma multi_pairs_Cons: "multi_pairs i (c # cs) = (int i, c) # multi_pairs (Suc i) cs"
  by (simp add: multi_pairs_def upt_rec del: upt_Suc)

lemma in_slice_multi: "in_slice n (multi_pairs i cs) \<longleftrightarrow> cs = [] \<or> i + length cs \<le> n"
  by (induction cs arbitrary: i) (auto simp: in_slice_def multi_pairs_Cons, simp_all add: multi_pairs_def)

lemma upd_multi_add: "upd_multi add64 i xs cs = add_pairs xs (multi_pairs i cs)"
proof (induction cs arbitrary: i xs)
  case Nil
  then show ?case by (simp add: multi_pairs_def add_pairs_def)
next
  case (Cons c cs)
  then show ?case by (simp add: multi_pairs_Cons add_pairs_def)
qed

lemma negate_Cons: "negate (q # ps) = (fst q, - snd q) # negate ps"
  by (simp add: negate_def)

lemma upd_multi_sub: "upd_multi sub64 i xs cs = add_pairs xs (negate (multi_pairs i cs))"
proof (induction cs arbitrary: i xs)
  case Nil
  then show ?case by (simp add: multi_pairs_def add_pairs_def negate_def)
next
  case (Cons c cs)
  then show ?case by (simp add: multi_pairs_Cons negate_Cons add_pairs_def upd_at_sub)
qed

definition sub_wf :: "int list \<Rightarrow> int list \<Rightarrow> bool" where
  "sub_wf changes positions \<longleftrightarrow> length changes = 1 \<or> length positions \<le> length changes"

lemma sub_loop_pairs:
  "i + length positions \<le> length changes \<Longrightarrow>
     sub_loop step changes i s positions = gfold (\<lambda>s q. step s (fst q) (snd q)) s (zip positions (drop i changes))"
proof (induction positions arbitrary: i s)
  case (Cons p ps)
  then have "drop i changes = changes ! i # drop (Suc i) changes" by (simp add: Cons_nth_drop_Suc)
  with Cons show ?case by simp
qed simp

lemma gfold_replicate:
  "gfold (\<lambda>s p. step s p d) s positions
     = gfold (\<lambda>s q. step s (fst q) (snd q)) s (zip positions (replicate (length positions) d))"
  by (induction positions arbitrary: s) (simp_all add: gbind_def split: sum.split)

lemma upd_sub_pairs:
  "sub_wf changes positions \<Longrightarrow>
     upd_sub step changes positions s = gfold (\<lambda>s q. step s (fst q) (snd q)) s (sub_pairs changes positions)"
proof (cases "length changes = 1")
  case True
  then show ?thesis by (simp add: upd_sub_def sub_pairs_def gfold_replicate)
next
  case False
  then show "sub_wf changes positions \<Longrightarrow> ?thesis"
    using sub_loop_pairs [of 0 positions changes step s] by (simp add: upd_sub_def sub_pairs_def sub_wf_def)
qed

lemma gfold_sub_negate:
  "gfold (\<lambda>xs q. upd_at sub64 xs (fst q) (snd q)) xs ps = add_pairs xs (negate ps)"
  by (induction ps arbitrary: xs)
    (simp_all add: add_pairs_def negate_def upd_at_sub gbind_def split: sum.split)

lemma gfold_counts_at:
  "gfold (\<lambda>c q. counts_at f c (fst q) (snd q)) c ps
     = gbind (gfold (\<lambda>xs q. upd_at f xs (fst q) (snd q)) (counts c) ps) (\<lambda>xs. Inr (c\<lparr>counts := xs\<rparr>))"
proof (induction ps arbitrary: c)
  case (Cons q ps)
  then show ?case by (cases "upd_at f (counts c) (fst q) (snd q)") (simp_all add: counts_at_def)
qed simp

section \<open>Meaning of the operations\<close>

text \<open>
  What an operation needs: positions that fit (one more than a position is computed in 32
  bits), one change or enough changes for the positions.
\<close>

definition pos_wf :: "int \<Rightarrow> bool" where
  "pos_wf p \<longleftrightarrow> 0 \<le> p \<and> p < 2 ^ 31 - 1"

fun op_wf :: "counter_array_op \<Rightarrow> bool" where
  "op_wf (CounterArrayIncrement change pos) = pos_wf pos"
| "op_wf (CounterArrayDecrement change pos) = pos_wf pos"
| "op_wf (CounterArrayIncrementMulti changes) = (int (length changes) < 2 ^ 31)"
| "op_wf (CounterArrayDecrementMulti changes) = (int (length changes) < 2 ^ 31)"
| "op_wf (CounterArrayIncrementSub changes positions) = (sub_wf changes positions \<and> (\<forall>p \<in> set positions. pos_wf p))"
| "op_wf (CounterArrayDecrementSub changes positions) = (sub_wf changes positions \<and> (\<forall>p \<in> set positions. pos_wf p))"
| "op_wf u = True"

fun is_all :: "counter_array_op \<Rightarrow> bool" where
  "is_all (CounterArrayIncrementAll change) = True"
| "is_all (CounterArrayDecrementAll change) = True"
| "is_all u = False"

text \<open>The changes an operation makes at single positions, as \<open>applyDownstream\<close> makes them.\<close>

fun applied_pairs :: "counter_array_op \<Rightarrow> (int \<times> int) list" where
  "applied_pairs (CounterArrayIncrement change pos) = [(pos, change)]"
| "applied_pairs (CounterArrayDecrement change pos) = [(pos, - change)]"
| "applied_pairs (CounterArrayIncrementMulti changes) = multi_pairs 0 changes"
| "applied_pairs (CounterArrayDecrementMulti changes) = multi_pairs 0 changes"
| "applied_pairs (CounterArrayIncrementSub changes positions) = sub_pairs changes positions"
| "applied_pairs (CounterArrayDecrementSub changes positions) = negate (sub_pairs changes positions)"
| "applied_pairs u = []"

fun applied_delta :: "counter_array_op \<Rightarrow> nat \<Rightarrow> int" where
  "applied_delta (CounterArrayIncrementAll change) k = change"
| "applied_delta (CounterArrayDecrementAll change) k = - change"
| "applied_delta u k = pair_sum (applied_pairs u) k"

primrec pairs_len :: "(int \<times> int) list \<Rightarrow> nat" where
  "pairs_len [] = 0"
| "pairs_len (q # ps) = max (Suc (nat (fst q))) (pairs_len ps)"

text \<open>The length of the slice an operation needs.\<close>

fun op_len :: "counter_array_op \<Rightarrow> nat" where
  "op_len (CounterArraySetSize newSize) = nat newSize"
| "op_len u = pairs_len (applied_pairs u)"

lemma in_slice_pairs_len: "\<forall>q \<in> set ps. 0 \<le> fst q \<Longrightarrow> in_slice (pairs_len ps) ps"
  by (induction ps) (auto simp: in_slice_def)

lemma pairs_len_le: "in_slice n ps \<Longrightarrow> pairs_len ps \<le> n"
  by (induction ps) (auto simp: in_slice_def)

lemma pairs_len_multi: "pairs_len (multi_pairs i cs) = (if cs = [] then 0 else i + length cs)"
  by (induction cs arbitrary: i) (auto simp: multi_pairs_Cons, simp add: multi_pairs_def)

lemma pairs_len_negate [simp]: "pairs_len (negate ps) = pairs_len ps"
  by (induction ps) (simp_all add: negate_def)

text \<open>The slice lengthened to \<open>n\<close> positions, as \<open>expandArray\<close> makes it.\<close>

definition lengthen :: "nat \<Rightarrow> int list \<Rightarrow> int list" where
  "lengthen n xs = xs @ replicate (n - length xs) 0"

lemma length_lengthen [simp]: "length (lengthen n xs) = max n (length xs)"
  by (simp add: lengthen_def)

lemma nth_lengthen: "k < length (lengthen n xs) \<Longrightarrow> lengthen n xs ! k = val_at xs k"
  by (auto simp: lengthen_def val_at_def nth_append)

lemma val_at_lengthen [simp]: "val_at (lengthen n xs) k = val_at xs k"
  by (auto simp: lengthen_def val_at_def nth_append)

lemma int64s_lengthen [simp]: "int64s (lengthen n xs) = int64s xs"
  by (auto simp: lengthen_def in_int_def)

lemma lengthen_id [simp]: "n \<le> length xs \<Longrightarrow> lengthen n xs = xs"
  by (simp add: lengthen_def)

lemma take_lengthen [simp]: "take (length xs) (lengthen n xs) = xs"
  by (simp add: lengthen_def)

lemma expandArray_lengthen:
  "length (counts c) \<le> n \<Longrightarrow> expandArray c (int n) = Inr \<lparr>counts = lengthen n (counts c), counts_spare = []\<rparr>"
  by (simp add: expandArray_def copyToNewInt64SliceWithSize_def lengthen_def)

text \<open>The state with the slice \<open>xs\<close>, in a new backing array if it is longer than before.\<close>

definition with_counts :: "CounterArrayCrdt \<Rightarrow> int list \<Rightarrow> CounterArrayCrdt" where
  "with_counts c xs = \<lparr>counts = xs, counts_spare = (if length xs > length (counts c) then [] else counts_spare c)\<rparr>"

lemma counts_with_counts [simp]: "counts (with_counts c xs) = xs"
  by (simp add: with_counts_def)

lemma with_counts_with_counts:
  "length (counts c) \<le> length xs \<Longrightarrow> length xs \<le> length ys \<Longrightarrow> with_counts (with_counts c xs) ys = with_counts c ys"
  by (auto simp: with_counts_def)

lemma with_counts_id: "with_counts c (counts c) = c"
  by (simp add: with_counts_def)

lemma counts_update_with: "length xs = length (counts c) \<Longrightarrow> c\<lparr>counts := xs\<rparr> = with_counts c xs"
  by (simp add: with_counts_def)

lemma grow_at_value:
  assumes "pos_wf p"
  shows "grow_at add64 c p d = gbind (upd_at add64 (lengthen (Suc (nat p)) (counts c)) p d) (\<lambda>xs. Inr (with_counts c xs))"
proof (cases "int (length (counts c)) \<le> p")
  case True
  from assms have w: "int32 (p + 1) = int (Suc (nat p))"
    by (subst swrap_id) (auto simp: pos_wf_def in_int_def)
  have "expandArray c (int (Suc (nat p))) = Inr \<lparr>counts = lengthen (Suc (nat p)) (counts c), counts_spare = []\<rparr>"
    by (rule expandArray_lengthen) (use True in auto)
  with True assms w show ?thesis
    by (auto simp: grow_at_def counts_at_def with_counts_def upd_at_def pos_wf_def)
next
  case False
  then show ?thesis using assms
    by (auto simp: grow_at_def counts_at_def with_counts_def upd_at_def pos_wf_def)
qed

lemma grow_at_sub: "grow_at sub64 c p d = grow_at add64 c p (- d)"
  by (simp add: grow_at_def counts_at_def upd_at_sub)

lemma add_pairs_Cons: "add_pairs xs (q # ps) = gbind (upd_at add64 xs (fst q) (snd q)) (\<lambda>ys. add_pairs ys ps)"
  by (simp add: add_pairs_def)

lemma upd_at_lengthen:
  assumes "0 \<le> p" "p < int (length xs)" "upd_at add64 xs p d = Inr ys"
  shows "upd_at add64 (lengthen n xs) p d = Inr (lengthen n ys)"
  using assms by (auto simp: upd_at_def lengthen_def nth_append list_update_append)

lemma lengthen_lengthen [simp]: "lengthen m (lengthen n xs) = lengthen (max m n) xs"
  by (auto simp: lengthen_def max_def simp flip: replicate_add)

lemma upd_at_length: "upd_at f xs p d = Inr ys \<Longrightarrow> length ys = length xs"
  by (auto simp: upd_at_def split: if_splits)

lemma add_pairs_length: "add_pairs xs ps = Inr ys \<Longrightarrow> length ys = length xs"
  by (induction ps arbitrary: xs) (auto simp: add_pairs_def gbind_eq_Inr dest: upd_at_length)

lemma grow_pairs_value:
  assumes "\<forall>q \<in> set ps. pos_wf (fst q)"
  shows "gfold (\<lambda>c q. grow_at add64 c (fst q) (snd q)) c ps
    = gbind (add_pairs (lengthen (pairs_len ps) (counts c)) ps) (\<lambda>xs. Inr (with_counts c xs))"
  using assms
proof (induction ps arbitrary: c)
  case Nil
  then show ?case by (simp add: add_pairs_def with_counts_id)
next
  case (Cons q ps)
  let ?n = "Suc (nat (fst q))" and ?m = "pairs_len ps"
  from Cons.prems have q: "pos_wf (fst q)" "0 \<le> fst q" by (auto simp: pos_wf_def)
  let ?xs = "lengthen ?n (counts c)"
  let ?ys = "?xs[nat (fst q) := add64 (?xs ! nat (fst q)) (snd q)]"
  have u: "upd_at add64 ?xs (fst q) (snd q) = Inr ?ys" using q by (simp add: upd_at_def)
  have "upd_at add64 (lengthen ?m ?xs) (fst q) (snd q) = Inr (lengthen ?m ?ys)"
    by (rule upd_at_lengthen [OF _ _ u]) (use q in auto)
  then have v: "upd_at add64 (lengthen (max ?n ?m) (counts c)) (fst q) (snd q) = Inr (lengthen ?m ?ys)"
    by (simp add: max.commute)
  have "gfold (\<lambda>c q. grow_at add64 c (fst q) (snd q)) c (q # ps)
      = gbind (add_pairs (lengthen ?m ?ys) ps) (\<lambda>xs. Inr (with_counts (with_counts c ?ys) xs))"
    using Cons.IH [of "with_counts c ?ys"] Cons.prems u q by (simp add: grow_at_value)
  also have "\<dots> = gbind (add_pairs (lengthen ?m ?ys) ps) (\<lambda>xs. Inr (with_counts c xs))"
  proof (cases "add_pairs (lengthen ?m ?ys) ps")
    case (Inr zs)
    have "length zs = length (lengthen ?m ?ys)" by (rule add_pairs_length [OF Inr])
    then show ?thesis using Inr by (simp add: with_counts_with_counts)
  qed simp
  finally show ?case by (simp add: add_pairs_Cons v)
qed

lemma sub64_add64: "sub64 x d = add64 x (- d)"
  by (simp add: sub64_def add64_def)

lemma gfold_grow_sub:
  "gfold (\<lambda>c q. grow_at sub64 c (fst q) (snd q)) c ps = gfold (\<lambda>c q. grow_at add64 c (fst q) (snd q)) c (negate ps)"
  by (induction ps arbitrary: c) (simp_all add: negate_def grow_at_sub gbind_def split: sum.split)

lemma fst_sub_pairs: "q \<in> set (sub_pairs changes positions) \<Longrightarrow> fst q \<in> set positions"
  by (cases q) (auto simp: sub_pairs_def dest: set_zip_leftD split: if_splits)

lemma pos_wf_negate [simp]: "(\<forall>q \<in> set (negate ps). P (fst q)) \<longleftrightarrow> (\<forall>q \<in> set ps. P (fst q))"
  by (auto simp: negate_def)

lemma applied_pairs_wf: "op_wf u \<Longrightarrow> q \<in> set (applied_pairs u) \<Longrightarrow> 0 \<le> fst q"
  by (cases u; cases q) (auto simp: pos_wf_def multi_pairs_def negate_def dest!: set_zip_leftD fst_sub_pairs)

lemma applied_pairs_in_slice: "op_wf u \<Longrightarrow> in_slice (op_len u) (applied_pairs u)"
proof -
  assume "op_wf u"
  then have "in_slice (pairs_len (applied_pairs u)) (applied_pairs u)" by (auto intro: in_slice_pairs_len applied_pairs_wf)
  moreover have "pairs_len (applied_pairs u) \<le> op_len u" by (cases u) auto
  ultimately show ?thesis by (rule in_slice_mono)
qed

lemma applied_delta_pairs: "\<not> is_all u \<Longrightarrow> applied_delta u k = pair_sum (applied_pairs u) k"
  by (cases u) auto

text \<open>Every operation but those on all positions lengthens the slice and adds its changes.\<close>

lemma multi_value:
  assumes "int (length changes) < 2 ^ 31"
  shows "(if length changes > length (counts c)
      then gbind (expandArray c (int32 (int (length changes)))) (\<lambda>c'. counts_multi add64 c' changes)
      else counts_multi add64 c changes)
    = gbind (add_pairs (lengthen (pairs_len (multi_pairs 0 changes)) (counts c)) (multi_pairs 0 changes))
        (\<lambda>xs. Inr (with_counts c xs))"
proof -
  have w: "int32 (int (length changes)) = int (length changes)"
    using assms by (intro swrap_id) (auto simp: in_int_def)
  show ?thesis
  proof (cases "length changes > length (counts c)")
    case True
    then have "pairs_len (multi_pairs 0 changes) = length changes" by (auto simp: pairs_len_multi)
    with True w show ?thesis
      by (cases "add_pairs (lengthen (length changes) (counts c)) (multi_pairs 0 changes)")
        (auto simp: expandArray_lengthen counts_multi_def upd_multi_add with_counts_def dest: add_pairs_length)
  next
    case False
    then have "lengthen (pairs_len (multi_pairs 0 changes)) (counts c) = counts c" by (auto simp: pairs_len_multi)
    with False show ?thesis
      by (cases "add_pairs (counts c) (multi_pairs 0 changes)")
        (auto simp: counts_multi_def upd_multi_add counts_update_with dest: add_pairs_length)
  qed
qed

lemma apply_pairs:
  assumes "op_wf u" and "\<not> is_all u"
  shows "gbind (CounterArray_applyDownstream c u) (\<lambda>r. Inr (fst r))
    = gbind (add_pairs (lengthen (op_len u) (counts c)) (applied_pairs u)) (\<lambda>xs. Inr (with_counts c xs))"
proof -
  have e: "gbind (with_effect m e) (\<lambda>r. Inr (fst r)) = m" for m :: "CounterArrayCrdt go" and e :: counter_array_effect
    by (cases m) (simp_all add: with_effect_def)
  show ?thesis
  proof (cases u)
    case (CounterArraySetSize n)
    then show ?thesis
      using expandArray_lengthen [of c "nat n"] with_counts_id [of c]
      by (auto simp: e add_pairs_def with_counts_def)
  next
    case (CounterArrayIncrementMulti cs)
    with assms multi_value [of cs c] show ?thesis by (auto simp: e split: if_splits)
  next
    case (CounterArrayDecrementMulti cs)
    with assms multi_value [of cs c] show ?thesis by (auto simp: e split: if_splits)
  next
    case (CounterArrayIncrementSub cs ps)
    with assms have "\<forall>q \<in> set (sub_pairs cs ps). pos_wf (fst q)" by (auto dest: fst_sub_pairs)
    with CounterArrayIncrementSub assms show ?thesis
      by (simp add: upd_sub_pairs grow_pairs_value gbind_assoc)
  next
    case (CounterArrayDecrementSub cs ps)
    with assms have "\<forall>q \<in> set (negate (sub_pairs cs ps)). pos_wf (fst q)" by (auto dest: fst_sub_pairs)
    with CounterArrayDecrementSub assms show ?thesis
      by (simp add: upd_sub_pairs gfold_grow_sub grow_pairs_value gbind_assoc)
  next
    case (CounterArrayIncrement d p)
    with assms show ?thesis by (simp add: e grow_at_value add_pairs_Cons) (simp add: add_pairs_def)
  next
    case (CounterArrayDecrement d p)
    with assms show ?thesis by (simp add: e grow_at_sub grow_at_value add_pairs_Cons) (simp add: add_pairs_def)
  next
    case CounterArray_NoOp
    then show ?thesis by (simp add: add_pairs_def with_counts_id)
  qed (use assms in simp_all)
qed

lemma int64_add64 [simp]: "in_int 64 (add64 x d)"
  by (simp add: add64_def swrap_in_int)

lemma apply_value:
  assumes "op_wf u" and "int64s (counts c)"
  shows "\<exists>xs e. CounterArray_applyDownstream c u = Inr (with_counts c xs, e) \<and> int64s xs
    \<and> length xs = max (op_len u) (length (counts c))
    \<and> (\<forall>k < length xs. xs ! k = int64 (val_at (counts c) k + applied_delta u k))"
proof (cases "is_all u")
  case True
  then obtain d e where "CounterArray_applyDownstream c u = Inr (with_counts c (map (\<lambda>x. add64 x d) (counts c)), e)"
    and "\<And>k. applied_delta u k = d" and "op_len u = 0"
    by (cases u) (auto simp: upd_all_def sub64_add64 counts_update_with)
  then show ?thesis
    by (intro exI [of _ "map (\<lambda>x. add64 x d) (counts c)"]) (auto simp: val_at_def add64_def swrap_in_int)
next
  case False
  let ?ys = "lengthen (op_len u) (counts c)"
  have "in_slice (length ?ys) (applied_pairs u)" using applied_pairs_in_slice [OF assms(1)] by (rule in_slice_mono) simp
  from add_pairs_value [OF this] assms(2) obtain xs where xs: "add_pairs ?ys (applied_pairs u) = Inr xs" "int64s xs"
    "length xs = length ?ys" "\<forall>k < length xs. xs ! k = int64 (?ys ! k + pair_sum (applied_pairs u) k)" by auto
  from apply_pairs [OF assms(1) False, of c] xs(1)
  have "gbind (CounterArray_applyDownstream c u) (\<lambda>r. Inr (fst r)) = Inr (with_counts c xs)" by simp
  then obtain e where "CounterArray_applyDownstream c u = Inr (with_counts c xs, e)"
    by (auto simp: gbind_eq_Inr)
  with xs False show ?thesis by (auto simp: nth_lengthen applied_delta_pairs)
qed

section \<open>Runs\<close>

text \<open>Applying a list of operations, with the effects in their order.\<close>

primrec ca_run :: "CounterArrayCrdt \<Rightarrow> counter_array_op list \<Rightarrow> (CounterArrayCrdt \<times> counter_array_effect effect list) go" where
  "ca_run c [] = Inr (c, [])"
| "ca_run c (u # us) = gbind (CounterArray_applyDownstream c u)
     (\<lambda>r. gbind (ca_run (fst r) us) (\<lambda>r'. Inr (fst r', snd r # snd r')))"

primrec ops_len :: "counter_array_op list \<Rightarrow> nat" where
  "ops_len [] = 0"
| "ops_len (u # us) = max (op_len u) (ops_len us)"

lemma ops_len_le: "ops_len us \<le> n \<longleftrightarrow> (\<forall>u \<in> set us. op_len u \<le> n)"
  by (induction us) auto

lemma ops_len_mset: "mset us = mset vs \<Longrightarrow> ops_len us = ops_len vs"
  by (rule antisym) (auto simp: ops_len_le dest: mset_eq_setD, (metis mset_eq_setD ops_len_le order_refl)+)

text \<open>Operations on all positions are used with a fixed length, or not at all.\<close>

definition fixed_or_single :: "CounterArrayCrdt \<Rightarrow> counter_array_op list \<Rightarrow> bool" where
  "fixed_or_single c us \<longleftrightarrow> (\<forall>u \<in> set us. \<not> is_all u) \<or> ops_len us \<le> length (counts c)"

lemma run_value:
  assumes "\<forall>u \<in> set us. op_wf u" and "int64s (counts c)" and "fixed_or_single c us"
  shows "\<exists>xs es. ca_run c us = Inr (with_counts c xs, es) \<and> int64s xs \<and> length xs = max (ops_len us) (length (counts c))
    \<and> (\<forall>k < length xs. xs ! k = int64 (val_at (counts c) k + sum_list (map (\<lambda>u. applied_delta u k) us)))"
  using assms
proof (induction us arbitrary: c)
  case Nil
  then show ?case by (intro exI [of _ "counts c"]) (simp add: with_counts_id val_at_def swrap_id)
next
  case (Cons u us)
  from Cons.prems(1) have "op_wf u" by simp
  from apply_value [OF this Cons.prems(2)] obtain xs e where
    xs: "CounterArray_applyDownstream c u = Inr (with_counts c xs, e)" "int64s xs" "length xs = max (op_len u) (length (counts c))"
      "\<forall>k < length xs. xs ! k = int64 (val_at (counts c) k + applied_delta u k)" by blast
  have f: "fixed_or_single (with_counts c xs) us" using Cons.prems(3) xs(3) by (auto simp: fixed_or_single_def)
  from Cons.IH [OF _ _ f] Cons.prems(1) xs(2) obtain ys es where
    ys: "ca_run (with_counts c xs) us = Inr (with_counts (with_counts c xs) ys, es)" "int64s ys"
      "length ys = max (ops_len us) (length xs)"
      "\<forall>k < length ys. ys ! k = int64 (val_at xs k + sum_list (map (\<lambda>u. applied_delta u k) us))" by auto
  have "ys ! k = int64 (val_at (counts c) k + sum_list (map (\<lambda>u. applied_delta u k) (u # us)))" if k: "k < length ys" for k
  proof (cases "k < length xs")
    case True
    with ys(4) k xs(4) show ?thesis by (simp add: val_at_def [of xs] wrap_simps add.assoc)
  next
    case False
    with ys(3) k have "length xs < ops_len us" by auto
    with Cons.prems(3) xs(3) have "\<not> is_all u" by (auto simp: fixed_or_single_def)
    moreover have "pair_sum (applied_pairs u) k = 0"
      using pair_sum_outside [OF applied_pairs_in_slice [OF \<open>op_wf u\<close>]] False xs(3) by auto
    ultimately have "applied_delta u k = 0" by (simp add: applied_delta_pairs)
    moreover have "\<not> k < length (counts c)" using False xs(3) by simp
    ultimately show ?thesis using ys(4) k False by (simp add: val_at_def)
  qed
  with xs(1,3) ys show ?case by (auto simp: with_counts_with_counts)
qed

text \<open>
  What the updates are meant to do to a position: increments add their change, decrements
  subtract it. The code applies a decrement of a prefix as the increment of that prefix by
  the same changes.
\<close>

fun op_delta :: "counter_array_op \<Rightarrow> nat \<Rightarrow> int" where
  "op_delta (CounterArrayIncrement change pos) k = (if int k = pos then change else 0)"
| "op_delta (CounterArrayDecrement change pos) k = (if int k = pos then - change else 0)"
| "op_delta (CounterArrayIncrementAll change) k = change"
| "op_delta (CounterArrayDecrementAll change) k = - change"
| "op_delta (CounterArrayIncrementMulti changes) k = (if k < length changes then changes ! k else 0)"
| "op_delta (CounterArrayDecrementMulti changes) k = (if k < length changes then - (changes ! k) else 0)"
| "op_delta (CounterArrayIncrementSub changes positions) k = pair_sum (sub_pairs changes positions) k"
| "op_delta (CounterArrayDecrementSub changes positions) k = - pair_sum (sub_pairs changes positions) k"
| "op_delta u k = 0"

fun applied_as :: "counter_array_op \<Rightarrow> counter_array_op" where
  "applied_as (CounterArrayDecrementMulti changes) = CounterArrayIncrementMulti changes"
| "applied_as u = u"

fun is_dec_multi :: "counter_array_op \<Rightarrow> bool" where
  "is_dec_multi (CounterArrayDecrementMulti changes) = True"
| "is_dec_multi u = False"

lemma pair_sum_multi: "pair_sum (multi_pairs i cs) k = (if i \<le> k \<and> k < i + length cs then cs ! (k - i) else 0)"
proof (induction cs arbitrary: i)
  case Nil
  then show ?case by (simp add: multi_pairs_def)
next
  case (Cons c cs)
  then show ?case by (auto simp: multi_pairs_Cons pair_sum_Cons nth_Cons' Suc_diff_le)
qed

lemma applied_delta_eq: "applied_delta u k = op_delta (applied_as u) k"
  by (cases u) (auto simp: pair_sum_multi pair_sum_negate, auto simp: pair_sum_def)

lemma applied_as_id: "\<not> is_dec_multi u \<Longrightarrow> applied_as u = u"
  by (cases u) simp_all

text \<open>
  C15. Counter arrays converge. Take operations whose positions are not negative and below
  \<open>2 ^ 31 - 1\<close> and whose slices have fewer than \<open>2 ^ 31\<close> changes, one or at least one per
  listed position; and let no operation on all positions be among them, or let no operation
  lengthen the slice. Then replicas that apply them in any order, without a panic, hold the
  same slice: as long as the longest operation needs, with the 64-bit sum of the changes at
  every position. The changes are those the updates stand for, except that a \<open>DecrementMulti\<close>
  counts as the \<open>IncrementMulti\<close> of the same changes: the code adds what it should subtract.
  Where an operation on all positions meets one that lengthens the slice, not only
  \<open>SetSize\<close>, replicas diverge.
\<close>

theorem CounterArray_converges:
  assumes "mset us = mset vs" and "\<forall>u \<in> set us. op_wf u" and "int64s (counts c)" and "fixed_or_single c us"
  shows "(\<exists>c' es fs. ca_run c us = Inr (c', es) \<and> ca_run c vs = Inr (c', fs)
      \<and> length (counts c') = max (ops_len us) (length (counts c))
      \<and> (\<forall>k < length (counts c'). counts c' ! k
           = int64 (val_at (counts c) k + sum_list (map (\<lambda>u. op_delta (applied_as u) k) us)))
      \<and> ((\<forall>u \<in> set us. \<not> is_dec_multi u) \<longrightarrow> (\<forall>k < length (counts c'). counts c' ! k
           = int64 (val_at (counts c) k + sum_list (map (\<lambda>u. op_delta u k) us)))))
    \<and> map_sum id (counts \<circ> fst) (ca_run CounterArray_Initialize [CounterArrayIncrementAll 1, CounterArrayIncrement 5 1]) = Inr [1, 5]
    \<and> map_sum id (counts \<circ> fst) (ca_run CounterArray_Initialize [CounterArrayIncrement 5 1, CounterArrayIncrementAll 1]) = Inr [1, 6]"
proof (intro conjI)
  from run_value [OF assms(2-4)] obtain xs es where
    xs: "ca_run c us = Inr (with_counts c xs, es)" "length xs = max (ops_len us) (length (counts c))"
      "\<forall>k < length xs. xs ! k = int64 (val_at (counts c) k + sum_list (map (\<lambda>u. applied_delta u k) us))" by blast
  have "\<forall>u \<in> set vs. op_wf u" "fixed_or_single c vs"
    using assms(2,4) mset_eq_setD [OF assms(1)] ops_len_mset [OF assms(1)] by (auto simp: fixed_or_single_def)
  from run_value [OF this(1) assms(3) this(2)] obtain ys fs where
    ys: "ca_run c vs = Inr (with_counts c ys, fs)" "length ys = max (ops_len us) (length (counts c))"
      "\<forall>k < length ys. ys ! k = int64 (val_at (counts c) k + sum_list (map (\<lambda>u. applied_delta u k) vs))"
    using ops_len_mset [OF assms(1)] by auto
  have "sum_list (map (\<lambda>u. applied_delta u k) us) = sum_list (map (\<lambda>u. applied_delta u k) vs)" for k
    using assms(1) by (metis mset_map sum_mset_sum_list)
  with xs ys have eq: "ys = xs" by (intro nth_equalityI) auto
  have "map (\<lambda>u. applied_delta u k) us = map (\<lambda>u. op_delta u k) us" if "\<forall>u \<in> set us. \<not> is_dec_multi u" for k
    using that by (simp add: applied_delta_eq applied_as_id)
  then have "(\<forall>u \<in> set us. \<not> is_dec_multi u) \<longrightarrow> (\<forall>k < length xs. xs ! k
      = int64 (val_at (counts c) k + sum_list (map (\<lambda>u. op_delta u k) us)))"
    using xs(3) by (metis (no_types, lifting))
  with xs ys eq show "\<exists>c' es fs. ca_run c us = Inr (c', es) \<and> ca_run c vs = Inr (c', fs)
      \<and> length (counts c') = max (ops_len us) (length (counts c))
      \<and> (\<forall>k < length (counts c'). counts c' ! k
           = int64 (val_at (counts c) k + sum_list (map (\<lambda>u. op_delta (applied_as u) k) us)))
      \<and> ((\<forall>u \<in> set us. \<not> is_dec_multi u) \<longrightarrow> (\<forall>k < length (counts c'). counts c' ! k
           = int64 (val_at (counts c) k + sum_list (map (\<lambda>u. op_delta u k) us))))"
    unfolding applied_delta_eq by (metis counts_with_counts)
qed (code_simp, code_simp)

theorem CounterArray_converges_witness:
  "\<exists>c' es fs. ca_run CounterArray_Initialize [CounterArrayIncrementSub [4] [0, 2], CounterArrayDecrement 1 2] = Inr (c', es)
     \<and> ca_run CounterArray_Initialize [CounterArrayDecrement 1 2, CounterArrayIncrementSub [4] [0, 2]] = Inr (c', fs)
     \<and> length (counts c') = 3 \<and> counts c' ! 2 = 3"
proof -
  let ?us = "[CounterArrayIncrementSub [4] [0, 2], CounterArrayDecrement 1 2]"
  let ?vs = "[CounterArrayDecrement 1 2, CounterArrayIncrementSub [4] [0, 2]]"
  have m: "mset ?us = mset ?vs" by simp
  have w: "\<forall>u \<in> set ?us. op_wf u" by (simp add: pos_wf_def sub_wf_def)
  have i: "int64s (counts CounterArray_Initialize)" by (simp add: CounterArray_Initialize_def in_int_def)
  have f: "fixed_or_single CounterArray_Initialize ?us" by (simp add: fixed_or_single_def)
  have l: "max (ops_len ?us) (length (counts CounterArray_Initialize)) = 3"
    by (simp add: CounterArray_Initialize_def sub_pairs_def numeral_3_eq_3 numeral_2_eq_2)
  have s: "int64 (val_at (counts CounterArray_Initialize) 2 + sum_list (map (\<lambda>u. op_delta u 2) ?us)) = 3"
    by (simp add: CounterArray_Initialize_def val_at_def sub_pairs_def pair_sum_def numeral_2_eq_2 swrap_def)
  from CounterArray_converges [OF m w i f, THEN conjunct1] obtain c' es fs where
    c': "ca_run CounterArray_Initialize ?us = Inr (c', es)" "ca_run CounterArray_Initialize ?vs = Inr (c', fs)"
      "length (counts c') = 3" "\<forall>k < length (counts c'). counts c' ! k
        = int64 (val_at (counts CounterArray_Initialize) k + sum_list (map (\<lambda>u. op_delta u k) ?us))"
    unfolding l by auto
  from c'(3,4) s have "counts c' ! 2 = 3" by simp
  with c' show ?thesis by blast
qed

section \<open>Undoing\<close>

lemma negate_negate [simp]: "negate (negate ps) = ps"
  by (induction ps) (simp_all add: negate_def)

lemma counts_multi_pairs:
  "counts_multi add64 c cs = gbind (add_pairs (counts c) (multi_pairs 0 cs)) (\<lambda>xs. Inr (c\<lparr>counts := xs\<rparr>))"
  "counts_multi sub64 c cs = gbind (add_pairs (counts c) (negate (multi_pairs 0 cs))) (\<lambda>xs. Inr (c\<lparr>counts := xs\<rparr>))"
  by (simp_all add: counts_multi_def upd_multi_add upd_multi_sub)

lemma counts_sub_pairs:
  assumes "sub_wf cs ps"
  shows "upd_sub (counts_at add64) cs ps c = gbind (add_pairs (counts c) (sub_pairs cs ps)) (\<lambda>xs. Inr (c\<lparr>counts := xs\<rparr>))"
    and "upd_sub (counts_at sub64) cs ps c = gbind (add_pairs (counts c) (negate (sub_pairs cs ps))) (\<lambda>xs. Inr (c\<lparr>counts := xs\<rparr>))"
  using assms by (simp_all add: upd_sub_pairs gfold_counts_at gfold_sub_negate) (simp add: add_pairs_def)

lemma reslice_shorter: "n \<le> length (counts c) \<Longrightarrow> \<exists>c'. reslice n c = Inr c' \<and> counts c' = take n (counts c)"
  by (simp add: reslice_def)

lemmas counts_pairs = counts_multi_pairs counts_sub_pairs

text \<open>The operations that are undone: all but a \<open>DecrementMulti\<close> that lengthens the slice.\<close>

fun undo_ok :: "CounterArrayCrdt \<Rightarrow> counter_array_op \<Rightarrow> bool" where
  "undo_ok c (CounterArrayDecrementMulti changes) = (length changes \<le> length (counts c) \<and> int (length changes) < 2 ^ 31)"
| "undo_ok c u = op_wf u"

lemma undo_ok_wf: "undo_ok c u \<Longrightarrow> op_wf u"
  by (cases u) auto

lemma upd_at_counts: "counts_at add64 c p d = gbind (add_pairs (counts c) [(p, d)]) (\<lambda>xs. Inr (c\<lparr>counts := xs\<rparr>))"
  "counts_at sub64 c p d = gbind (add_pairs (counts c) [(p, - d)]) (\<lambda>xs. Inr (c\<lparr>counts := xs\<rparr>))"
  by (simp_all add: counts_at_def add_pairs_def upd_at_sub)

lemma take_grown:
  assumes "add_pairs (lengthen n xs) ps = Inr ys" and "\<forall>q \<in> set ps. int (length xs) \<le> fst q"
  shows "take (length xs) ys = xs"
  using assms
proof (induction ps arbitrary: ys rule: rev_induct)
  case (snoc q ps)
  then obtain zs where zs: "add_pairs (lengthen n xs) ps = Inr zs" "upd_at add64 zs (fst q) (snd q) = Inr ys"
    by (auto simp: add_pairs_def gfold_append gbind_eq_Inr)
  with snoc have "take (length xs) zs = xs" "int (length xs) \<le> fst q" by auto
  with zs(2) show ?case by (auto simp: upd_at_def split: if_splits)
qed (simp add: add_pairs_def)

text \<open>The effect recorded by a run that lengthened the slice, and by one that did not.\<close>

lemma undo_same_length:
  assumes "\<not> is_all u" and "undo_ok c u" and "op_len u \<le> length (counts c)"
    and "CounterArray_applyDownstream c u = Inr (c', e)" and "length (counts c') = length (counts c)"
  shows "CounterArray_undoEffect d e = gbind (add_pairs (counts d) (negate (applied_pairs u))) (\<lambda>xs. Inr (d\<lparr>counts := xs\<rparr>))
    \<or> applied_pairs u = [] \<and> CounterArray_undoEffect d e = Inr d"
  using assms
  by (cases u) (auto simp: with_effect_def gbind_eq_Inr counts_pairs upd_at_counts negate_Cons negate_def [of "[]"]
      pairs_len_multi split: if_splits)

lemma undo_longer:
  assumes "\<not> is_all u" and "undo_ok c u" and "length (counts c) < op_len u"
    and "CounterArray_applyDownstream c u = Inr (c', e)" and "length (counts c') = op_len u"
  shows "CounterArray_undoEffect d e
      = gbind (gbind (add_pairs (counts d) (negate (applied_pairs u))) (\<lambda>xs. Inr (d\<lparr>counts := xs\<rparr>))) (reslice (length (counts c)))
    \<or> (\<forall>q \<in> set (applied_pairs u). int (length (counts c)) \<le> fst q) \<and> CounterArray_undoEffect d e = reslice (length (counts c)) d"
  using assms
  by (cases u) (auto simp: with_effect_def gbind_eq_Inr counts_pairs pairs_len_multi pos_wf_def split: if_splits)

lemma undo_all:
  assumes "is_all u" and "int64s (counts c)" and "CounterArray_applyDownstream c u = Inr (c', e)" and "counts d = counts c'"
  shows "\<exists>d'. CounterArray_undoEffect d e = Inr d' \<and> counts d' = counts c"
proof -
  have "map (\<lambda>x. int64 (int64 (x + k) - k)) (counts c) = counts c"
    "map (\<lambda>x. int64 (int64 (x - k) + k)) (counts c) = counts c" for k
    using assms(2) by (auto simp: wrap_simps intro!: map_idI)
  with assms show ?thesis by (cases u) (auto simp: upd_all_def add64_def sub64_def o_def)
qed

lemma undo_apply_counts:
  assumes "undo_ok c u" and "int64s (counts c)" and "CounterArray_applyDownstream c u = Inr (c', e)" and "counts d = counts c'"
  shows "\<exists>d'. CounterArray_undoEffect d e = Inr d' \<and> counts d' = counts c"
proof (cases "is_all u")
  case True
  then show ?thesis using undo_all assms(2-4) by blast
next
  case False
  note wf = undo_ok_wf [OF assms(1)]
  let ?ys = "lengthen (op_len u) (counts c)"
  have slice: "in_slice (length ?ys) (applied_pairs u)" using applied_pairs_in_slice [OF wf] by (rule in_slice_mono) simp
  from apply_pairs [OF wf False, of c] assms(3)
  have "gbind (add_pairs ?ys (applied_pairs u)) (\<lambda>xs. Inr (with_counts c xs)) = Inr c'" by simp
  then obtain xs where xs: "add_pairs ?ys (applied_pairs u) = Inr xs" "c' = with_counts c xs" by (auto simp: gbind_eq_Inr)
  from slice add_pairs_undo [OF _ _ xs(1)] assms(2) have undone: "add_pairs xs (negate (applied_pairs u)) = Inr ?ys" by simp
  note len = add_pairs_length [OF xs(1)]
  show ?thesis
  proof (cases "op_len u \<le> length (counts c)")
    case True
    with len xs(2) have "length (counts c') = length (counts c)" by simp
    from undo_same_length [OF False assms(1) True assms(3) this, of d] True undone assms(4) xs(1,2) show ?thesis
      by (auto simp: add_pairs_def)
  next
    case longer: False
    with len xs(2) have "length (counts c') = op_len u" by simp
    from undo_longer [OF False assms(1) _ assms(3) this, of d] longer
    consider "CounterArray_undoEffect d e
        = gbind (gbind (add_pairs (counts d) (negate (applied_pairs u))) (\<lambda>xs. Inr (d\<lparr>counts := xs\<rparr>))) (reslice (length (counts c)))"
      | "\<forall>q \<in> set (applied_pairs u). int (length (counts c)) \<le> fst q" "CounterArray_undoEffect d e = reslice (length (counts c)) d"
      by force
    then show ?thesis
    proof cases
      case 1
      with undone assms(4) xs(2) reslice_shorter [of "length (counts c)" "d\<lparr>counts := ?ys\<rparr>"] show ?thesis by simp
    next
      case 2
      with take_grown [OF xs(1)] assms(4) xs(2) len reslice_shorter [of "length (counts c)" d] show ?thesis by simp
    qed
  qed
qed

primrec run_undo_ok :: "CounterArrayCrdt \<Rightarrow> counter_array_op list \<Rightarrow> bool" where
  "run_undo_ok c [] = True"
| "run_undo_ok c (u # us) = (undo_ok c u \<and> (case CounterArray_applyDownstream c u of Inr (c', e) \<Rightarrow> run_undo_ok c' us | Inl p \<Rightarrow> False))"

lemma undo_run:
  assumes "run_undo_ok c us" and "int64s (counts c)" and "ca_run c us = Inr (c', es)" and "counts d = counts c'"
  shows "\<exists>d'. gfold CounterArray_undoEffect d (rev es) = Inr d' \<and> counts d' = counts c"
  using assms
proof (induction us arbitrary: c es)
  case Nil
  then show ?case by simp
next
  case (Cons u us)
  from Cons.prems(3) obtain c1 e es1 where c1: "CounterArray_applyDownstream c u = Inr (c1, e)"
    and es1: "ca_run c1 us = Inr (c', es1)" and es: "es = e # es1" by (auto simp: gbind_eq_Inr)
  from apply_value [OF undo_ok_wf Cons.prems(2)] Cons.prems(1) c1 have "int64s (counts c1)" by fastforce
  from Cons.IH [OF _ this es1 Cons.prems(4)] Cons.prems(1) c1 obtain d1
    where d1: "gfold CounterArray_undoEffect d (rev es1) = Inr d1" "counts d1 = counts c1" by auto
  from undo_apply_counts [OF _ Cons.prems(2) c1 d1(2)] Cons.prems(1) d1(1) show ?case
    by (auto simp: es gfold_append)
qed

text \<open>
  Undoing the recorded effects last to first gives every position and the length back,
  for all operations but a \<open>DecrementMulti\<close> that lengthens the slice: that one adds its changes
  when it is applied and adds them again when it is undone. And since rebuilding undoes the
  effects of one transaction first to last, two size changes of one transaction leave the
  slice longer than it was: \<open>counts[:n]\<close> brings the cut positions back.
\<close>

theorem CounterArray_undo:
  assumes "run_undo_ok c us" and "int64s (counts c)" and "ca_run c us = Inr (c', es)"
  shows "(\<exists>d. gfold CounterArray_undoEffect c' (rev es) = Inr d \<and> counts d = counts c)
    \<and> gbind (ca_run CounterArray_Initialize [CounterArrayDecrementMulti [5, 6]])
        (\<lambda>r. gbind (gfold CounterArray_undoEffect (fst r) (rev (snd r))) (\<lambda>d. Inr (counts d))) = Inr [10]
    \<and> gbind (ca_run CounterArray_Initialize [CounterArraySetSize 2, CounterArraySetSize 3])
        (\<lambda>r. gbind (rebuildCRDTToVersion False CounterArray_undoEffect CounterArray_reapplyOp (\<lambda>t s. Inr s) [(1, 2)]
           [\<lparr>h_ts = [(1, 4)], updsArgs = [CounterArraySetSize 2, CounterArraySetSize 3], effects = snd r\<rparr>] (fst r))
           (\<lambda>d. Inr (counts (snd d)))) = Inr [0, 0]"
proof (intro conjI)
  show "\<exists>d. gfold CounterArray_undoEffect c' (rev es) = Inr d \<and> counts d = counts c"
    using undo_run [OF assms refl] by blast
  have "ca_run CounterArray_Initialize [CounterArraySetSize 2, CounterArraySetSize 3]
      = Inr (\<lparr>counts = [0, 0, 0], counts_spare = []\<rparr>, [Eff (CounterArraySetSizeEffect 1), Eff (CounterArraySetSizeEffect 2)])"
    by code_simp
  then show "gbind (ca_run CounterArray_Initialize [CounterArraySetSize 2, CounterArraySetSize 3])
      (\<lambda>r. gbind (rebuildCRDTToVersion False CounterArray_undoEffect CounterArray_reapplyOp (\<lambda>t s. Inr s) [(1, 2)]
         [\<lparr>h_ts = [(1, 4)], updsArgs = [CounterArraySetSize 2, CounterArraySetSize 3], effects = snd r\<rparr>] (fst r))
         (\<lambda>d. Inr (counts (snd d)))) = Inr [0, 0]"
    by (simp add: rebuildCRDTToVersion_def redo_from.simps Compare_def IsLowerOrEqual_def vget_def reslice_def
        numeral_2_eq_2)
qed code_simp

theorem CounterArray_undo_witness:
  "\<exists>d c' es. ca_run CounterArray_Initialize [CounterArrayIncrementMulti [7, 8, 9], CounterArrayDecrementAll 2, CounterArraySetSize 5]
       = Inr (c', es) \<and> counts c' = [5, 6, 7, 0, 0]
     \<and> gfold CounterArray_undoEffect c' (rev es) = Inr d \<and> counts d = [0]"
proof -
  let ?us = "[CounterArrayIncrementMulti [7, 8, 9], CounterArrayDecrementAll 2, CounterArraySetSize 5]"
  let ?es = "[Eff (CounterArrayIncMultiWithSizeEffect [7, 8, 9] 1), Eff (CounterArrayDecrementAllEffect 2),
    Eff (CounterArraySetSizeEffect 3)]"
  have r: "ca_run CounterArray_Initialize ?us = Inr (\<lparr>counts = [5, 6, 7, 0, 0], counts_spare = []\<rparr>, ?es)"
    by code_simp
  have o: "run_undo_ok CounterArray_Initialize ?us" by code_simp
  have i: "int64s (counts CounterArray_Initialize)" by (simp add: CounterArray_Initialize_def in_int_def)
  from CounterArray_undo [OF o i r] r show ?thesis by (auto simp: CounterArray_Initialize_def)
qed

section \<open>Reads\<close>

text \<open>
  The changes of a pending update as the reads make them, for updates that fit the slice.
  Reads subtract the changes of a \<open>DecrementMulti\<close>.
\<close>

fun pend_pairs :: "counter_array_op \<Rightarrow> (int \<times> int) list" where
  "pend_pairs (CounterArrayDecrementMulti changes) = negate (multi_pairs 0 changes)"
| "pend_pairs u = applied_pairs u"

fun pend_delta :: "counter_array_op \<Rightarrow> nat \<Rightarrow> int" where
  "pend_delta (CounterArrayDecrementMulti changes) k = - pair_sum (multi_pairs 0 changes) k"
| "pend_delta u k = applied_delta u k"

definition fits :: "nat \<Rightarrow> counter_array_op \<Rightarrow> bool" where
  "fits n u \<longleftrightarrow> op_wf u \<and> op_len u \<le> n"

lemma pend_delta_pairs: "\<not> is_all u \<Longrightarrow> pend_delta u k = pair_sum (pend_pairs u) k"
  by (cases u) (auto simp: pair_sum_negate)

lemma pend_in_slice: "fits n u \<Longrightarrow> in_slice n (pend_pairs u)"
proof -
  assume "fits n u"
  then have "in_slice n (applied_pairs u)" using applied_pairs_in_slice in_slice_mono by (auto simp: fits_def)
  then show ?thesis by (cases u) auto
qed

lemma multi_fits: "fits n (CounterArrayIncrementMulti cs) \<Longrightarrow> length cs \<le> n"
  "fits n (CounterArrayDecrementMulti cs) \<Longrightarrow> length cs \<le> n"
  by (auto simp: fits_def pairs_len_multi split: if_splits)

lemma getState_step_pairs:
  assumes "fits (length xs) u" and "\<not> is_all u"
  shows "getState_step xs u = add_pairs xs (pend_pairs u)"
proof (cases u)
  case (CounterArrayIncrementSub cs ps)
  with assms show ?thesis by (simp add: fits_def upd_sub_pairs) (simp add: add_pairs_def)
next
  case (CounterArrayDecrementSub cs ps)
  with assms show ?thesis by (simp add: fits_def upd_sub_pairs gfold_sub_negate)
next
  case (CounterArrayIncrementMulti cs)
  with assms multi_fits(1) [of "length xs" cs] show ?thesis by (simp add: multi_grow_def upd_multi_add)
next
  case (CounterArrayDecrementMulti cs)
  with assms multi_fits(2) [of "length xs" cs] show ?thesis by (simp add: multi_grow_def upd_multi_sub)
qed (use assms in \<open>auto simp: fits_def add_pairs_def upd_at_sub\<close>)

lemma getState_step_value:
  assumes "fits (length xs) u" and "int64s xs"
  shows "\<exists>ys. getState_step xs u = Inr ys \<and> int64s ys \<and> length ys = length xs
    \<and> (\<forall>k < length xs. ys ! k = int64 (xs ! k + pend_delta u k))"
proof (cases "is_all u")
  case True
  then show ?thesis by (cases u) (auto simp: upd_all_def add64_def sub64_def swrap_in_int)
next
  case False
  with add_pairs_value [OF pend_in_slice [OF assms(1)] assms(2)] show ?thesis
    by (simp add: getState_step_pairs [OF assms(1)] pend_delta_pairs)
qed

lemma gfold_getState_value:
  assumes "\<forall>u \<in> set us. fits (length xs) u" and "int64s xs"
  shows "\<exists>ys. gfold getState_step xs us = Inr ys \<and> int64s ys \<and> length ys = length xs
    \<and> (\<forall>k < length xs. ys ! k = int64 (xs ! k + sum_list (map (\<lambda>u. pend_delta u k) us)))"
  using assms
proof (induction us arbitrary: xs)
  case Nil
  then show ?case by (simp add: swrap_id)
next
  case (Cons u us)
  from getState_step_value [of xs u] Cons.prems obtain ys where
    ys: "getState_step xs u = Inr ys" "int64s ys" "length ys = length xs"
      "\<forall>k < length xs. ys ! k = int64 (xs ! k + pend_delta u k)" by auto
  from Cons.IH [of ys] Cons.prems(1) ys show ?case by (auto simp: wrap_simps add.assoc)
qed

text \<open>A single read adds the same changes when no update lists a position twice.\<close>

fun distinct_positions :: "counter_array_op \<Rightarrow> bool" where
  "distinct_positions (CounterArrayIncrementSub changes positions) = distinct positions"
| "distinct_positions (CounterArrayDecrementSub changes positions) = distinct positions"
| "distinct_positions u = True"

lemma pair_sum_absent: "int k \<notin> fst ` set ps \<Longrightarrow> pair_sum ps k = 0"
  by (induction ps) (auto simp: pair_sum_Cons)

lemma single_sub_pairs:
  assumes "distinct positions" and "length changes = 1 \<or> i + length positions \<le> length changes" and "in_int 64 v"
  shows "single_sub add64 changes (int k) i v positions
      = Inr (int64 (v + pair_sum (zip positions (if length changes = 1 then replicate (length positions) (changes ! 0) else drop i changes)) k))"
    and "single_sub sub64 changes (int k) i v positions
      = Inr (int64 (v - pair_sum (zip positions (if length changes = 1 then replicate (length positions) (changes ! 0) else drop i changes)) k))"
proof -
  have absent: "int k \<notin> set ps \<Longrightarrow> pair_sum (zip ps cs) k = 0" for ps cs
    by (rule pair_sum_absent) (auto dest: set_zip_leftD)
  have drop_i: "length changes \<noteq> 1 \<Longrightarrow> i < length changes \<Longrightarrow> drop i changes = changes ! i # drop (Suc i) changes" for i
    by (simp add: Cons_nth_drop_Suc)
  show "single_sub add64 changes (int k) i v positions
      = Inr (int64 (v + pair_sum (zip positions (if length changes = 1 then replicate (length positions) (changes ! 0) else drop i changes)) k))"
    using assms
  proof (induction positions arbitrary: i)
    case (Cons p ps)
    then show ?case using drop_i [of i] by (auto simp: pair_sum_Cons absent add64_def)
  qed (simp add: swrap_id)
  show "single_sub sub64 changes (int k) i v positions
      = Inr (int64 (v - pair_sum (zip positions (if length changes = 1 then replicate (length positions) (changes ! 0) else drop i changes)) k))"
    using assms
  proof (induction positions arbitrary: i)
    case (Cons p ps)
    then show ?case using drop_i [of i] by (auto simp: pair_sum_Cons absent sub64_def)
  qed (simp add: swrap_id)
qed

lemma getSingle_step_value:
  assumes "fits n u" and "distinct_positions u" and "in_int 64 v"
  shows "getSingle_step (int k) v u = Inr (int64 (v + pend_delta u k))"
proof (cases u)
  case (CounterArrayIncrementSub cs ps)
  with assms single_sub_pairs(1) [of ps cs 0 v k] show ?thesis by (auto simp: fits_def sub_wf_def sub_pairs_def)
next
  case (CounterArrayDecrementSub cs ps)
  with assms single_sub_pairs(2) [of ps cs 0 v k] show ?thesis
    by (auto simp: fits_def sub_wf_def sub_pairs_def pair_sum_negate)
qed (use assms in \<open>auto simp: single_multi_def pair_sum_multi pair_sum_Cons add64_def sub64_def swrap_id\<close>)

lemma gfold_getSingle_value:
  assumes "\<forall>u \<in> set us. fits n u \<and> distinct_positions u" and "in_int 64 v"
  shows "gfold (getSingle_step (int k)) v us = Inr (int64 (v + sum_list (map (\<lambda>u. pend_delta u k) us)))"
  using assms
proof (induction us arbitrary: v)
  case Nil
  then show ?case by (simp add: swrap_id)
next
  case (Cons u us)
  have "in_int 64 (int64 (v + pend_delta u k))" by (simp add: swrap_in_int)
  from Cons.IH [OF _ this] Cons.prems getSingle_step_value [of n u v k] show ?case
    by (simp add: wrap_simps add.assoc)
qed

text \<open>A read of listed positions, which must be distinct and inside the slice.\<close>

lemma upd_at_fold_const:
  "gfold (\<lambda>xs p. upd_at f xs p d) xs ps = gfold (\<lambda>xs q. upd_at f xs (fst q) (snd q)) xs (map (\<lambda>p. (p, d)) ps)"
  by (induction ps arbitrary: xs) (simp_all add: gbind_def split: sum.split)

lemma pair_sum_const: "distinct ps \<Longrightarrow> int k \<in> set ps \<Longrightarrow> pair_sum (map (\<lambda>p. (p, d)) ps) k = d"
  by (induction ps) (auto simp: pair_sum_Cons image_image pair_sum_absent)

lemma negate_const: "negate (map (\<lambda>p. (p, d)) ps) = map (\<lambda>p. (p, - d)) ps"
  by (simp add: negate_def)

lemma getSub_step_value:
  assumes "fits (length xs) u" and "int64s xs" and "distinct ps" and "\<forall>p \<in> set ps. 0 \<le> p \<and> p < int (length xs)"
  shows "\<exists>ys. getSub_step ps xs u = Inr ys \<and> int64s ys \<and> length ys = length xs
    \<and> (\<forall>k. int k \<in> set ps \<longrightarrow> ys ! k = int64 (xs ! k + pend_delta u k))"
proof (cases "is_all u")
  case True
  have s: "in_slice (length xs) (map (\<lambda>p. (p, d)) ps)" for d using assms(4) by (auto simp: in_slice_def)
  have plus: "\<exists>ys. add_pairs xs (map (\<lambda>p. (p, d)) ps) = Inr ys \<and> int64s ys \<and> length ys = length xs
      \<and> (\<forall>k. int k \<in> set ps \<longrightarrow> ys ! k = int64 (xs ! k + d))" for d
  proof -
    from add_pairs_value [OF s [of d] assms(2)] obtain ys where
      ys: "add_pairs xs (map (\<lambda>p. (p, d)) ps) = Inr ys" "int64s ys" "length ys = length xs"
        "\<forall>k < length xs. ys ! k = int64 (xs ! k + pair_sum (map (\<lambda>p. (p, d)) ps) k)" by blast
    have "ys ! k = int64 (xs ! k + d)" if k: "int k \<in> set ps" for k
    proof -
      from assms(4) k have "k < length xs" by auto
      with ys(4) pair_sum_const [OF assms(3) k, of d] show ?thesis by simp
    qed
    with ys show ?thesis by blast
  qed
  have "\<exists>ys. add_pairs xs (map (\<lambda>p. (p, - d)) ps) = Inr ys \<and> int64s ys \<and> length ys = length xs
      \<and> (\<forall>k. int k \<in> set ps \<longrightarrow> ys ! k = int64 (xs ! k - d))" for d
    using plus [of "- d"] by simp
  with plus True show ?thesis
    by (cases u) (simp_all add: upd_at_fold_const gfold_sub_negate negate_const flip: add_pairs_def)
next
  case False
  then have "getSub_step ps xs u = getState_step xs u" by (cases u) auto
  moreover have "k < length xs" if "int k \<in> set ps" for k using assms(4) that by auto
  ultimately show ?thesis using getState_step_value [OF assms(1,2)] by auto
qed

lemma gfold_getSub_value:
  assumes "\<forall>u \<in> set us. fits (length xs) u" and "int64s xs" and "distinct ps" and "\<forall>p \<in> set ps. 0 \<le> p \<and> p < int (length xs)"
  shows "\<exists>ys. gfold (getSub_step ps) xs us = Inr ys \<and> length ys = length xs
    \<and> (\<forall>k. int k \<in> set ps \<longrightarrow> ys ! k = int64 (xs ! k + sum_list (map (\<lambda>u. pend_delta u k) us)))"
  using assms
proof (induction us arbitrary: xs)
  case Nil
  then show ?case by (auto simp: swrap_id)
next
  case (Cons u us)
  from getSub_step_value [of xs u ps] Cons.prems obtain ys where
    ys: "getSub_step ps xs u = Inr ys" "int64s ys" "length ys = length xs"
      "\<forall>k. int k \<in> set ps \<longrightarrow> ys ! k = int64 (xs ! k + pend_delta u k)" by auto
  from Cons.IH [of ys] Cons.prems ys show ?case by (auto simp: wrap_simps add.assoc)
qed

lemma get_positions_value:
  "length xs < 2 ^ 31 \<Longrightarrow> \<forall>p \<in> set ps. 0 \<le> p \<and> p < int (length xs) \<Longrightarrow> get_positions xs ps = Inr (map (\<lambda>p. xs ! nat p) ps)"
proof (induction ps)
  case (Cons p ps)
  have "int32 (int (length xs)) = int (length xs)" using Cons.prems(1) by (intro swrap_id) (auto simp: in_int_def)
  with Cons show ?case by (simp add: get_or_zero_def get_at_def)
qed simp

text \<open>A read without one position.\<close>

definition omit :: "nat \<Rightarrow> int list \<Rightarrow> int list" where
  "omit k xs = take k xs @ drop (Suc k) xs"

lemma length_omit: "k < length xs \<Longrightarrow> length (omit k xs) = length xs - 1"
  by (simp add: omit_def)

lemma upd_except_omit:
  assumes "k < length xs" and "upd_at f xs p d = Inr ys"
  shows "upd_except f (int k) (omit k xs) p d = Inr (omit k ys)"
proof -
  from assms(2) have p: "0 \<le> p" "p < int (length xs)" and ys: "ys = xs[nat p := f (xs ! nat p) d]"
    by (auto simp: upd_at_def split: if_splits)
  consider "p < int k" | "p = int k" | "int k < p" by linarith
  then show ?thesis
  proof cases
    case 1
    with p assms(1) have "nat p < k" by simp
    with 1 p assms(1) show ?thesis
      by (simp add: upd_except_def upd_at_def length_omit ys)
        (simp add: omit_def nth_append list_update_append take_update_swap)
  next
    case 2
    with assms(1) show ?thesis by (simp add: upd_except_def ys omit_def)
  next
    case 3
    with p have n: "nat (p - 1) = nat p - 1" "k < nat p" "nat p < length xs" "\<not> nat p - Suc 0 < k" by auto
    with 3 p assms(1) show ?thesis
      by (simp add: upd_except_def upd_at_def length_omit ys)
        (simp add: omit_def nth_append list_update_append drop_update_swap nth_drop)
  qed
qed

lemma upd_except_at: "upd_except f k xs k d = Inr xs"
  by (simp add: upd_except_def)

lemma gfold_except_omit:
  assumes "k < length xs" and "gfold (\<lambda>xs q. upd_at f xs (fst q) (snd q)) xs ps = Inr ys"
  shows "gfold (\<lambda>xs q. upd_except f (int k) xs (fst q) (snd q)) (omit k xs) ps = Inr (omit k ys)"
  using assms
proof (induction ps arbitrary: xs)
  case (Cons q ps)
  then obtain zs where zs: "upd_at f xs (fst q) (snd q) = Inr zs"
    and g: "gfold (\<lambda>xs q. upd_at f xs (fst q) (snd q)) zs ps = Inr ys" by (auto simp: gbind_eq_Inr)
  from Cons.IH [OF _ g] upd_at_length [OF zs] Cons.prems(1) upd_except_omit [OF Cons.prems(1) zs] show ?case by simp
qed simp

lemma upd_multi_fold: "upd_multi f i xs cs = gfold (\<lambda>xs q. upd_at f xs (fst q) (snd q)) xs (multi_pairs i cs)"
proof (induction cs arbitrary: i xs)
  case Nil
  then show ?case by (simp add: multi_pairs_def)
next
  case (Cons c cs)
  then show ?case by (simp add: multi_pairs_Cons)
qed

lemma multi_pairs_append: "multi_pairs i (cs @ ds) = multi_pairs i cs @ multi_pairs (i + length cs) ds"
proof (induction cs arbitrary: i)
  case Nil
  then show ?case by (simp add: multi_pairs_def)
next
  case (Cons c cs)
  then show ?case by (simp add: multi_pairs_Cons)
qed

lemma gfold_except_below:
  "i + length cs \<le> k \<Longrightarrow> gfold (\<lambda>xs q. upd_except f (int k) xs (fst q) (snd q)) xs (multi_pairs i cs) = upd_multi f i xs cs"
proof (induction cs arbitrary: i xs)
  case Nil
  then show ?case by (simp add: multi_pairs_def)
next
  case (Cons c cs)
  then show ?case by (simp add: multi_pairs_Cons upd_except_def)
qed

lemma gfold_except_above:
  "k \<le> i \<Longrightarrow> gfold (\<lambda>xs q. upd_except f (int k) xs (fst q) (snd q)) xs (multi_pairs (Suc i) cs) = upd_multi f i xs cs"
proof (induction cs arbitrary: i xs)
  case Nil
  then show ?case by (simp add: multi_pairs_def)
next
  case (Cons c cs)
  then show ?case by (simp add: multi_pairs_Cons upd_except_def)
qed

lemma multi_except_omit:
  assumes "k < length cs" and "length cs \<le> length xs" and "upd_multi f 0 xs cs = Inr ys"
  shows "multi_except f (int k) (omit k xs) cs = Inr (omit k ys)"
proof -
  have "cs = take k cs @ cs ! k # drop (Suc k) cs" using assms(1) by (simp add: id_take_nth_drop)
  then have "multi_pairs 0 cs = multi_pairs 0 (take k cs) @ (int k, cs ! k) # multi_pairs (Suc k) (drop (Suc k) cs)"
    using assms(1) by (metis add_0 length_take min.absorb4 multi_pairs_Cons multi_pairs_append)
  moreover have "gfold (\<lambda>xs q. upd_except f (int k) xs (fst q) (snd q)) (omit k xs) (multi_pairs 0 cs) = Inr (omit k ys)"
    by (rule gfold_except_omit) (use assms in \<open>simp_all add: upd_multi_fold\<close>)
  ultimately have "gbind (upd_multi f 0 (omit k xs) (take k cs)) (\<lambda>zs. upd_multi f k zs (drop (Suc k) cs)) = Inr (omit k ys)"
    by (simp add: gfold_append gfold_except_below gfold_except_above upd_except_at)
  moreover have "length (omit k xs) < length cs \<Longrightarrow> copyToNewInt64SliceWithSize (omit k xs) (int (length cs) - 1) = Inr (omit k xs)"
    using assms by (auto simp: copyToNewInt64SliceWithSize_def length_omit)
  ultimately show ?thesis using assms(1) by (simp add: multi_except_def)
qed

text \<open>An update of a prefix must reach past the position that is left out.\<close>

fun reaches :: "nat \<Rightarrow> counter_array_op \<Rightarrow> bool" where
  "reaches k (CounterArrayIncrementMulti changes) = (k < length changes)"
| "reaches k (CounterArrayDecrementMulti changes) = (k < length changes)"
| "reaches k u = True"

lemma upd_all_omit: "upd_all f (omit k xs) d = omit k (upd_all f xs d)"
  by (simp add: upd_all_def omit_def take_map drop_map)

lemma getExcept_step_omit:
  assumes "fits (length xs) u" and "reaches k u" and "k < length xs" and "getState_step xs u = Inr ys"
  shows "getExcept_step (int k) (omit k xs) u = Inr (omit k ys)"
proof (cases u)
  case (CounterArrayIncrementMulti cs)
  with assms multi_fits(1) [of "length xs" cs] multi_except_omit [of k cs xs add64 ys] show ?thesis
    by (simp add: multi_grow_def)
next
  case (CounterArrayDecrementMulti cs)
  with assms multi_fits(2) [of "length xs" cs] multi_except_omit [of k cs xs sub64 ys] show ?thesis
    by (simp add: multi_grow_def)
next
  case (CounterArrayIncrementSub cs ps)
  with assms gfold_except_omit [OF assms(3), of add64 "sub_pairs cs ps" ys] show ?thesis
    by (simp add: fits_def upd_sub_pairs)
next
  case (CounterArrayDecrementSub cs ps)
  with assms gfold_except_omit [OF assms(3), of sub64 "sub_pairs cs ps" ys] show ?thesis
    by (simp add: fits_def upd_sub_pairs)
qed (use assms in \<open>auto simp: fits_def upd_except_omit upd_all_omit length_omit split: if_splits\<close>)

lemma gfold_getExcept_omit:
  assumes "\<forall>u \<in> set us. fits (length xs) u \<and> reaches k u" and "k < length xs" and "int64s xs" and "gfold getState_step xs us = Inr ys"
  shows "gfold (getExcept_step (int k)) (omit k xs) us = Inr (omit k ys)"
  using assms
proof (induction us arbitrary: xs)
  case (Cons u us)
  then obtain zs where zs: "getState_step xs u = Inr zs" and g: "gfold getState_step zs us = Inr ys"
    by (auto simp: gbind_eq_Inr)
  from getState_step_value [of xs u] Cons.prems zs have "int64s zs" "length zs = length xs" by auto
  with Cons.IH [OF _ _ _ g] getExcept_step_omit [OF _ _ Cons.prems(2) zs] Cons.prems show ?case by simp
qed simp

text \<open>
  The partial reads of a counter array agree with the full read. For pending updates that
  fit the slice, the full read returns at every position the stored value plus the pending
  changes, wrapped to 64 bits; a read of one position, of distinct listed positions and of all
  positions but one return its values there, provided that no pending update lists a position
  twice (a single read counts the first occurrence only) and that pending updates of a prefix
  reach past the position left out.
\<close>

theorem CounterArray_reads_agree:
  assumes "\<forall>u \<in> set us. fits (length (counts c)) u" and "int64s (counts c)" and "length (counts c) < 2 ^ 31"
    and "k < length (counts c)" and "distinct ps" and "\<forall>p \<in> set ps. 0 \<le> p \<and> p < int (length (counts c))"
  shows "\<exists>xs. CounterArray_getState c us = Inr xs \<and> length xs = length (counts c)
    \<and> (\<forall>j < length xs. xs ! j = int64 (counts c ! j + sum_list (map (\<lambda>u. pend_delta u j) us)))
    \<and> ((\<forall>u \<in> set us. distinct_positions u) \<longrightarrow> CounterArray_getSingleState c us (int k) = Inr (xs ! k))
    \<and> CounterArray_getSubState c us ps = Inr (map (\<lambda>p. xs ! nat p) ps)
    \<and> ((\<forall>u \<in> set us. reaches k u) \<longrightarrow> CounterArray_getExceptState c us (int k) = Inr (take k xs @ drop (Suc k) xs))"
proof -
  let ?sum = "\<lambda>j. int64 (counts c ! j + sum_list (map (\<lambda>u. pend_delta u j) us))"
  from gfold_getState_value [OF assms(1,2)] obtain xs where
    xs: "gfold getState_step (counts c) us = Inr xs" "length xs = length (counts c)" "\<forall>j < length (counts c). xs ! j = ?sum j"
    by auto
  have full: "CounterArray_getState c us = Inr xs"
    using xs(1) by (cases us) (simp_all add: CounterArray_getState_def copyToNewInt64Slice_def Let_def)
  have w: "int32 (int (length (counts c))) = int (length (counts c))"
    using assms(3) by (intro swrap_id) (auto simp: in_int_def)
  have single: "CounterArray_getSingleState c us (int k) = Inr (xs ! k)" if "\<forall>u \<in> set us. distinct_positions u"
  proof -
    have "gfold (getSingle_step (int k)) (counts c ! k) us = Inr (?sum k)"
      by (rule gfold_getSingle_value) (use assms that in auto)
    with assms(4) xs w show ?thesis by (auto simp: CounterArray_getSingleState_def get_or_zero_def get_at_def)
  qed
  have sub: "CounterArray_getSubState c us ps = Inr (map (\<lambda>p. xs ! nat p) ps)"
  proof -
    from gfold_getSub_value [OF assms(1,2,5,6)] obtain ys where
      ys: "gfold (getSub_step ps) (counts c) us = Inr ys" "length ys = length (counts c)" "\<forall>k. int k \<in> set ps \<longrightarrow> ys ! k = ?sum k"
      by blast
    have "map (\<lambda>p. ys ! nat p) ps = map (\<lambda>p. xs ! nat p) ps" using ys(3) xs(3) assms(6) by auto
    then show ?thesis using ys(1,2) assms(3,6) xs(1) get_positions_value [of ys ps] get_positions_value [of "counts c" ps]
      by (auto simp: CounterArray_getSubState_def copyToNewInt64Slice_def)
  qed
  have ex: "CounterArray_getExceptState c us (int k) = Inr (omit k xs)" if "\<forall>u \<in> set us. reaches k u"
    using gfold_getExcept_omit [OF _ assms(4,2) xs(1)] that assms(1,4) xs(1)
    by (auto simp: CounterArray_getExceptState_def omit_def Let_def)
  from full single sub ex xs show ?thesis by (intro exI [of _ xs]) (simp add: omit_def)
qed

theorem CounterArray_reads_agree_witness:
  "\<exists>xs. CounterArray_getState \<lparr>counts = [1, 2, 3], counts_spare = []\<rparr> [CounterArrayIncrementSub [10] [0, 2]] = Inr xs
     \<and> xs ! 2 = 13
     \<and> CounterArray_getSingleState \<lparr>counts = [1, 2, 3], counts_spare = []\<rparr> [CounterArrayIncrementSub [10] [0, 2]] (int 2) = Inr (xs ! 2)"
proof -
  let ?c = "\<lparr>counts = [1, 2, 3], counts_spare = []\<rparr>" and ?us = "[CounterArrayIncrementSub [10] [0, 2]]"
  have f: "\<forall>u \<in> set ?us. fits (length (counts ?c)) u"
    by (simp add: fits_def sub_wf_def pos_wf_def sub_pairs_def numeral_3_eq_3 numeral_2_eq_2)
  have i: "int64s (counts ?c)" by (simp add: in_int_def)
  have s: "int64 (counts ?c ! 2 + sum_list (map (\<lambda>u. pend_delta u 2) ?us)) = 13"
    by (simp add: sub_pairs_def pair_sum_def numeral_2_eq_2 swrap_def)
  show ?thesis
    using CounterArray_reads_agree [OF f i, of 2 "[]"] s by auto
qed

section \<open>Reading without ranges of positions\<close>

text \<open>
  Ranges in increasing order: start, end, start, end and so on, from position \<open>a\<close> on and
  below \<open>n\<close>; and the positions they leave, in order.
\<close>

fun ranges_ok :: "int \<Rightarrow> int \<Rightarrow> int list \<Rightarrow> bool" where
  "ranges_ok a n [] = True"
| "ranges_ok a n [s] = False"
| "ranges_ok a n (s # e # rs) = (a \<le> s \<and> s \<le> e \<and> e < n \<and> ranges_ok (e + 1) n rs)"

fun in_ranges :: "int list \<Rightarrow> int \<Rightarrow> bool" where
  "in_ranges (s # e # rs) p = (s \<le> p \<and> p \<le> e \<or> in_ranges rs p)"
| "in_ranges _ p = False"

definition kept :: "int list \<Rightarrow> int \<Rightarrow> int \<Rightarrow> int list" where
  "kept rs a n = filter (\<lambda>p. \<not> in_ranges rs p) [a..n - 1]"

lemma in_ranges_from: "ranges_ok a n rs \<Longrightarrow> in_ranges rs p \<Longrightarrow> a \<le> p \<and> p < n"
  by (induction a n rs rule: ranges_ok.induct) auto

lemma upto_split_at: "a \<le> b \<Longrightarrow> b \<le> c \<Longrightarrow> [a..c - 1] = [a..b - 1] @ [b..c - 1]" for a b c :: int
  using upto_split1 [of a b "c - 1"] by (cases "b = c") simp_all

lemma kept_Nil [simp]: "kept [] a n = [a..n - 1]"
  by (simp add: kept_def)

lemma kept_Cons:
  assumes "ranges_ok a n (s # e # rs)"
  shows "kept (s # e # rs) a n = [a..s - 1] @ kept rs (e + 1) n"
proof -
  from assms have o: "a \<le> s" "s \<le> e" "e < n" "ranges_ok (e + 1) n rs" by auto
  have "[a..n - 1] = [a..s - 1] @ [s..e + 1 - 1] @ [e + 1..n - 1]"
    using upto_split_at [of a s n] upto_split_at [of s "e + 1" n] o by simp
  moreover have "\<not> in_ranges (s # e # rs) p" if "p \<in> set [a..s - 1]" for p
    using that o in_ranges_from [OF o(4), of p] by auto
  moreover have "in_ranges (s # e # rs) p" if "p \<in> set [s..e + 1 - 1]" for p
    using that by auto
  moreover have "filter (\<lambda>p. \<not> in_ranges (s # e # rs) p) [e + 1..n - 1] = filter (\<lambda>p. \<not> in_ranges rs p) [e + 1..n - 1]"
    by (rule filter_cong) auto
  ultimately show ?thesis unfolding kept_def by (simp add: filter_empty_conv del: in_ranges.simps)
qed

lemma except_loop_kept:
  assumes "ranges_ok a n rs" and "n < 2 ^ 31" and "0 \<le> a"
  shows "gbind (except_loop source a r rs) (\<lambda>(b, r'). gfold (copy_step source) r' [b..n - 1])
    = gfold (copy_step source) r (kept rs a n)"
  using assms
proof (induction a n rs arbitrary: r rule: ranges_ok.induct)
  case (3 a n s e rs)
  have w: "int32 (e + 1) = e + 1" using 3 by (intro swrap_id) (auto simp: in_int_def)
  from 3 show ?case
    by (cases "gfold (copy_step source) r [a..s - 1]") (simp_all add: w kept_Cons gfold_append)
qed simp_all

lemma copy_loop:
  assumes "\<forall>j \<in> set js. 0 \<le> j \<and> j < int (length source)" and "i \<le> length result"
  shows "gfold (copy_step source) (result, i) js
    = (if i + length js \<le> length result
       then Inr (take i result @ map (\<lambda>j. source ! nat j) js @ drop (i + length js) result, i + length js)
       else Inl IndexOutOfRange)"
  using assms
proof (induction js arbitrary: result i)
  case (Cons j js)
  then show ?case
    by (cases "i < length result") (auto simp: take_Suc_conv_app_nth Suc_le_eq)
qed simp

text \<open>
  The read without ranges stays in bounds exactly when the declared number of skipped
  positions is not more than the ranges skip, and then returns the values outside the
  ranges in order. A larger number makes the result slice too short: the read panics.
\<close>

theorem CounterArray_except_range_bounds:
  assumes "CounterArray_getState c us = Inr xs" and "ranges_ok 0 (int (length xs)) rs" and "length xs < 2 ^ 31"
  shows "CounterArray_getExceptRangeState c us rs nPosSkip =
    (if int (length xs) < nPosSkip then Inl NegativeMakeLen
     else if nPosSkip \<le> int (length xs) - int (length (kept rs 0 (int (length xs))))
     then Inr (map (\<lambda>p. xs ! nat p) (kept rs 0 (int (length xs))))
     else Inl IndexOutOfRange)"
proof -
  let ?n = "int (length xs)" and ?k = "kept rs 0 (int (length xs))"
  let ?r = "replicate (nat (?n - nPosSkip)) (0 :: int)"
  have source: "(if length us > 0 then CounterArray_getState c us else Inr (counts c)) = Inr xs"
    using assms(1) by (auto simp: CounterArray_getState_def copyToNewInt64Slice_def Let_def split: if_splits)
  have "gbind (except_loop xs 0 (?r, 0) rs) (\<lambda>(b, r'). gfold (copy_step xs) r' [b..?n - 1])
      = gfold (copy_step xs) (?r, 0) ?k"
    by (rule except_loop_kept) (use assms(2,3) in auto)
  also have "\<dots> = (if length ?k \<le> length ?r then Inr (map (\<lambda>j. xs ! nat j) ?k @ drop (length ?k) ?r, length ?k) else Inl IndexOutOfRange)"
    by (subst copy_loop) (auto simp: kept_def)
  finally have l: "gbind (except_loop xs 0 (?r, 0) rs) (\<lambda>(b, r'). gfold (copy_step xs) r' [b..?n - 1]) = \<dots>" .
  have "CounterArray_getExceptRangeState c us rs nPosSkip = (if ?n - nPosSkip < 0 then Inl NegativeMakeLen
      else gbind (gbind (except_loop xs 0 (?r, 0) rs) (\<lambda>(b, r'). gfold (copy_step xs) r' [b..?n - 1]))
        (\<lambda>(result, resultI). Inr (take resultI result)))"
    unfolding CounterArray_getExceptRangeState_def source by (simp add: gbind_assoc split_def)
  then show ?thesis unfolding l by (auto simp: le_nat_iff)
qed

theorem CounterArray_except_range_bounds_witness:
  "CounterArray_getExceptRangeState \<lparr>counts = [10, 11, 12, 13, 14, 15], counts_spare = []\<rparr> [] [1, 2, 4, 4] 3 = Inr [10, 13, 15]
   \<and> CounterArray_getExceptRangeState \<lparr>counts = [10, 11, 12, 13, 14, 15], counts_spare = []\<rparr> [] [1, 2, 4, 4] 4 = Inl IndexOutOfRange"
proof -
  let ?c = "\<lparr>counts = [10, 11, 12, 13, 14, 15], counts_spare = []\<rparr>"
  have g: "CounterArray_getState ?c [] = Inr [10, 11, 12, 13, 14, 15]"
    by (simp add: CounterArray_getState_def copyToNewInt64Slice_def)
  have o: "ranges_ok 0 (int (length [10, 11, 12, 13, 14, 15 :: int])) [1, 2, 4, 4]" by simp
  have k: "kept [1, 2, 4, 4] 0 6 = [0, 3, 5]" by code_simp
  show ?thesis using CounterArray_except_range_bounds [OF g o, of 3] CounterArray_except_range_bounds [OF g o, of 4] k by simp
qed

section \<open>Decrements and messages\<close>

lemma int64_uminus_pos: "0 < d \<Longrightarrow> in_int 64 d \<Longrightarrow> int64 (- d) = - d \<and> in_int 64 (- d)"
  by (auto simp: in_int_def intro!: swrap_id)

lemma map_int64_uminus_twice:
  "\<forall>x \<in> set cs. 0 < x \<and> in_int 64 x \<Longrightarrow> map (\<lambda>x. int64 (- int64 (- x))) cs = cs"
  by (auto simp: wrap_simps intro!: map_idI)

lemmas counter_array_messages = updateArrayCounterProtoToAntidoteUpdate_def no_update_def
  downstreamProtoCounterArrayToAntidoteDownstream_def down_msg_def

text \<open>
  What becomes of decrements. A client's decrement of one position arrives at the server
  as an increment by the same amount, and so does a replicated one at the other replicas; a
  replicated decrement of all positions arrives with the opposite sign. A decrement of a
  prefix keeps its amounts on the way but is applied as an increment, although reads with the
  update pending subtract it. Decrements of listed positions arrive unchanged, as all
  increments do; a client message with an empty list of amounts panics.
\<close>

theorem CounterArray_decrements:
  assumes "0 < d" and "in_int 64 d" and "cs \<noteq> []" and "\<forall>x \<in> set cs. 0 < x \<and> in_int 64 x"
  shows "gbind (CounterArray_applyDownstream c (CounterArrayDecrementMulti cs)) (\<lambda>r. Inr (fst r))
      = gbind (CounterArray_applyDownstream c (CounterArrayIncrementMulti cs)) (\<lambda>r. Inr (fst r))
    \<and> map_option updateArrayCounterProtoToAntidoteUpdate (CounterArray_ToUpdateObject (CounterArrayDecrement d p))
        = Some (Inr (CounterArrayIncrement d p))
    \<and> map_option downstreamProtoCounterArrayToAntidoteDownstream (CounterArray_ToReplicatorObj (CounterArrayDecrement d p))
        = Some (CounterArrayIncrement d p)
    \<and> map_option downstreamProtoCounterArrayToAntidoteDownstream (CounterArray_ToReplicatorObj (CounterArrayDecrementAll d))
        = Some (CounterArrayDecrementAll (- d))
    \<and> (\<forall>u \<in> {CounterArrayIncrement d p, CounterArrayIncrementAll d, CounterArrayIncrementMulti cs, CounterArrayIncrementSub cs ps,
           CounterArrayDecrementAll d, CounterArrayDecrementMulti cs, CounterArrayDecrementSub cs ps, CounterArraySetSize n}.
         map_option updateArrayCounterProtoToAntidoteUpdate (CounterArray_ToUpdateObject u) = Some (Inr u))
    \<and> (\<forall>u \<in> {CounterArrayIncrement d p, CounterArrayIncrementAll d, CounterArrayIncrementMulti cs, CounterArrayIncrementSub cs ps,
           CounterArrayDecrementMulti cs, CounterArrayDecrementSub cs ps, CounterArraySetSize n}.
         map_option downstreamProtoCounterArrayToAntidoteDownstream (CounterArray_ToReplicatorObj u) = Some u)
    \<and> map_option updateArrayCounterProtoToAntidoteUpdate (CounterArray_ToUpdateObject (CounterArrayIncrementSub [] ps)) = Some (Inl IndexOutOfRange)
    \<and> counts (CounterArray_FromProtoState spare (CounterArray_ToProtoState c)) = counts c"
proof (intro conjI)
  note m = int64_uminus_pos [OF assms(1,2)] map_int64_uminus_twice [OF assms(4)]
  from assms(3,4) have h: "0 < cs ! 0" "in_int 64 (cs ! 0)" by (auto simp: neq_Nil_conv)
  from int64_uminus_pos [OF h] h(1) have n: "\<not> 0 \<le> int64 (- cs ! 0)" by simp
  note s = m n assms(3) swrap_id [OF assms(2)] counter_array_messages o_def
  show "\<forall>u \<in> {CounterArrayIncrement d p, CounterArrayIncrementAll d, CounterArrayIncrementMulti cs, CounterArrayIncrementSub cs ps,
           CounterArrayDecrementAll d, CounterArrayDecrementMulti cs, CounterArrayDecrementSub cs ps, CounterArraySetSize n}.
         map_option updateArrayCounterProtoToAntidoteUpdate (CounterArray_ToUpdateObject u) = Some (Inr u)"
    using h(1) assms(1) by (auto simp: s)
  show "\<forall>u \<in> {CounterArrayIncrement d p, CounterArrayIncrementAll d, CounterArrayIncrementMulti cs, CounterArrayIncrementSub cs ps,
           CounterArrayDecrementMulti cs, CounterArrayDecrementSub cs ps, CounterArraySetSize n}.
         map_option downstreamProtoCounterArrayToAntidoteDownstream (CounterArray_ToReplicatorObj u) = Some u"
    by (simp add: s Let_def)
  show "map_option updateArrayCounterProtoToAntidoteUpdate (CounterArray_ToUpdateObject (CounterArrayDecrement d p))
      = Some (Inr (CounterArrayIncrement d p))" using assms(1) by (simp add: s)
  show "map_option downstreamProtoCounterArrayToAntidoteDownstream (CounterArray_ToReplicatorObj (CounterArrayDecrement d p))
      = Some (CounterArrayIncrement d p)" by (simp add: s Let_def)
  show "map_option downstreamProtoCounterArrayToAntidoteDownstream (CounterArray_ToReplicatorObj (CounterArrayDecrementAll d))
      = Some (CounterArrayDecrementAll (- d))" by (simp add: s Let_def)
  show "map_option updateArrayCounterProtoToAntidoteUpdate (CounterArray_ToUpdateObject (CounterArrayIncrementSub [] ps))
      = Some (Inl IndexOutOfRange)" by (simp add: s)
  show "counts (CounterArray_FromProtoState spare (CounterArray_ToProtoState c)) = counts c"
    by (simp add: CounterArray_FromProtoState_def CounterArray_ToProtoState_def)
  show "gbind (CounterArray_applyDownstream c (CounterArrayDecrementMulti cs)) (\<lambda>r. Inr (fst r))
      = gbind (CounterArray_applyDownstream c (CounterArrayIncrementMulti cs)) (\<lambda>r. Inr (fst r))"
    by (auto simp: with_effect_def gbind_assoc)
qed

theorem CounterArray_decrements_witness:
  "map_option updateArrayCounterProtoToAntidoteUpdate (CounterArray_ToUpdateObject (CounterArrayDecrement 3 0))
     = Some (Inr (CounterArrayIncrement 3 0))
   \<and> gbind (CounterArray_applyDownstream \<lparr>counts = [10], counts_spare = []\<rparr> (CounterArrayDecrementMulti [4])) (\<lambda>r. Inr (counts (fst r))) = Inr [14]
   \<and> CounterArray_getState \<lparr>counts = [10], counts_spare = []\<rparr> [CounterArrayDecrementMulti [4]] = Inr [6]"
proof (intro conjI)
  show "map_option updateArrayCounterProtoToAntidoteUpdate (CounterArray_ToUpdateObject (CounterArrayDecrement 3 0))
      = Some (Inr (CounterArrayIncrement 3 0))"
    using CounterArray_decrements [of 3 "[4]" _ 0] by (simp add: in_int_def)
qed (code_simp, code_simp)

end
