(* ===== verification/Float64.thy ===== *)
theory Float64
  imports Prelude "HOL-Library.Log_Nat"
begin

text \<open>
  Go's \<open>float64\<close>, as far as the counters use it: IEEE 754 double precision addition,
  subtraction and negation with rounding to nearest, ties to even, and the conversions to and
  from the 32-bit integers. Every finite double is a multiple of the smallest subnormal,
  \<open>2 ^ -1074\<close>, so a finite value is the integer number of those units. There is no
  subnormal case: a sum below 54 significant bits is exact.
\<close>

datatype float64 = NaN | Inf bool | NegZero | Fin int

text \<open>The units of \<open>1.0\<close>, and of the first power of two beyond the largest finite double.\<close>

definition one_units :: int where
  "one_units = 2 ^ 1074"

definition overflow_units :: int where
  "overflow_units = 2 ^ 2098"

text \<open>
  \<open>fround n\<close>: the double nearest to \<open>n\<close> units. Only 53 significant bits are kept; a
  value that reaches \<open>2 ^ 1024\<close> after rounding is an infinity.
\<close>

definition fround :: "int \<Rightarrow> float64" where
  "fround n =
     (let k = nat (bitlen \<bar>n\<bar> - 53);
          q = \<bar>n\<bar> div 2 ^ k;
          r = \<bar>n\<bar> mod 2 ^ k;
          m = (if 2 ^ k < 2 * r \<or> (2 ^ k = 2 * r \<and> odd q) then q + 1 else q) * 2 ^ k
      in if overflow_units \<le> m then Inf (n < 0) else Fin (sgn n * m))"

definition representable :: "int \<Rightarrow> bool" where
  "representable n \<longleftrightarrow> fround n = Fin n"

primrec float64_ok :: "float64 \<Rightarrow> bool" where
  "float64_ok NaN = True"
| "float64_ok (Inf neg) = True"
| "float64_ok NegZero = True"
| "float64_ok (Fin n) = representable n"

fun fneg :: "float64 \<Rightarrow> float64" where
  "fneg NaN = NaN"
| "fneg (Inf neg) = Inf (\<not> neg)"
| "fneg NegZero = Fin 0"
| "fneg (Fin n) = (if n = 0 then NegZero else Fin (- n))"

fun fadd :: "float64 \<Rightarrow> float64 \<Rightarrow> float64" where
  "fadd NaN y = NaN"
| "fadd x NaN = NaN"
| "fadd (Inf a) (Inf b) = (if a = b then Inf a else NaN)"
| "fadd (Inf a) y = Inf a"
| "fadd x (Inf b) = Inf b"
| "fadd NegZero y = y"
| "fadd x NegZero = x"
| "fadd (Fin a) (Fin b) = fround (a + b)"

definition fsub :: "float64 \<Rightarrow> float64 \<Rightarrow> float64" where
  "fsub x y = fadd x (fneg y)"

abbreviation fzero :: float64 where "fzero \<equiv> Fin 0"

primrec fis_zero :: "float64 \<Rightarrow> bool" where
  "fis_zero NaN = False"
| "fis_zero (Inf neg) = False"
| "fis_zero NegZero = True"
| "fis_zero (Fin n) = (n = 0)"

primrec fnegative :: "float64 \<Rightarrow> bool" where
  "fnegative NaN = False"
| "fnegative (Inf neg) = neg"
| "fnegative NegZero = False"
| "fnegative (Fin n) = (n < 0)"

definition float64_of_int :: "int \<Rightarrow> float64" where
  "float64_of_int i = fround (i * one_units)"

text \<open>
  The conversion to \<open>int32\<close> drops the fraction. When the result does not fit, the language
  leaves it to the implementation: \<open>other\<close> stands for what it returns.
\<close>

fun int32_of_float :: "(float64 \<Rightarrow> int) \<Rightarrow> float64 \<Rightarrow> int" where
  "int32_of_float other NaN = other NaN"
| "int32_of_float other (Inf neg) = other (Inf neg)"
| "int32_of_float other NegZero = 0"
| "int32_of_float other (Fin n) =
     (let t = go_quot n one_units in if in_int 32 t then t else other (Fin n))"

section \<open>Exact results\<close>

lemma int_div_less:
  assumes "0 < b" and "a < c * b"
  shows "a div b < (c :: int)"
proof (rule ccontr)
  assume "\<not> a div b < c"
  then have "c * b \<le> a div b * b" using assms(1) by (intro mult_right_mono) simp_all
  also have "\<dots> \<le> a" using pos_mod_sign [OF assms(1), of a] div_mult_mod_eq [of a b] by linarith
  finally show False using assms(2) by simp
qed

lemma fround_exact:
  assumes "\<bar>n\<bar> = a * 2 ^ j" and "0 \<le> a" and "a \<le> 2 ^ 53" and "\<bar>n\<bar> < overflow_units"
  shows "fround n = Fin n"
proof -
  define k where "k = nat (bitlen \<bar>n\<bar> - 53)"
  have d: "2 ^ k dvd \<bar>n\<bar>"
  proof (cases "a = 2 ^ 53")
    case True
    then have n: "\<bar>n\<bar> = 2 ^ (53 + j)" by (simp only: assms(1) power_add)
    then have "bitlen \<bar>n\<bar> = int (53 + j) + 1"
      using bitlen_twopow_add_eq [of 0 "53 + j"] by simp
    then have "k = Suc j" by (simp add: k_def)
    then show ?thesis unfolding n by (intro le_imp_power_dvd) simp
  next
    case False
    then have "a < 2 ^ 53" using assms(3) by linarith
    then have "\<bar>n\<bar> < 2 ^ (53 + j)" by (simp only: assms(1) power_add mult_less_cancel_right) simp
    then have "bitlen \<bar>n\<bar> \<le> int (53 + j)" unfolding bitlen_le_iff_power by (simp only: nat_int of_nat_0_le_iff)
    then have "k \<le> j" by (simp add: k_def)
    then show ?thesis unfolding assms(1) by (intro dvd_mult le_imp_power_dvd)
  qed
  then have r: "\<bar>n\<bar> mod 2 ^ k = 0" and m: "\<bar>n\<bar> div 2 ^ k * 2 ^ k = \<bar>n\<bar>" by simp_all
  from r have c: "\<not> (2 ^ k < 2 * (\<bar>n\<bar> mod 2 ^ k) \<or> 2 ^ k = 2 * (\<bar>n\<bar> mod 2 ^ k) \<and> odd (\<bar>n\<bar> div 2 ^ k))"
    by simp
  show ?thesis
    using assms(4) unfolding fround_def k_def [symmetric] Let_def if_not_P [OF c] m by (simp add: sgn_mult_abs)
qed

lemma fround_units:
  assumes "\<bar>d\<bar> \<le> 2 ^ 53" and "j \<le> 2044"
  shows "fround (d * 2 ^ j) = Fin (d * 2 ^ j)"
proof (rule fround_exact)
  show "\<bar>d * 2 ^ j\<bar> = \<bar>d\<bar> * 2 ^ j" by (simp add: abs_mult)
  have "\<bar>d\<bar> * 2 ^ j \<le> 2 ^ 53 * 2 ^ j" using assms(1) by (rule mult_right_mono) simp
  also have "\<dots> = 2 ^ (53 + j)" by (simp only: power_add)
  also have "\<dots> < 2 ^ 2098" using assms(2) by (intro power_strict_increasing) simp_all
  finally show "\<bar>d * 2 ^ j\<bar> < overflow_units" by (simp only: abs_mult overflow_units_def) simp
qed (use assms(1) in auto)

lemma fround_rep: "fround n = Fin m \<Longrightarrow> representable m"
proof -
  assume e: "fround n = Fin m"
  define k where "k = nat (bitlen \<bar>n\<bar> - 53)"
  define q where "q = (if 2 ^ k < 2 * (\<bar>n\<bar> mod 2 ^ k) \<or> 2 ^ k = 2 * (\<bar>n\<bar> mod 2 ^ k) \<and> odd (\<bar>n\<bar> div 2 ^ k)
    then \<bar>n\<bar> div 2 ^ k + 1 else \<bar>n\<bar> div 2 ^ k)"
  from e have m: "m = sgn n * (q * 2 ^ k)" and lim: "q * 2 ^ k < overflow_units"
    unfolding fround_def Let_def k_def [symmetric] q_def [symmetric] by (simp_all split: if_splits)
  have "bitlen \<bar>n\<bar> \<le> int (53 + k)" by (simp add: k_def)
  then have "\<bar>n\<bar> < 2 ^ (53 + k)" unfolding bitlen_le_iff_power by (simp only: nat_int of_nat_0_le_iff)
  then have "\<bar>n\<bar> < 2 ^ 53 * 2 ^ k" by (simp only: power_add)
  then have "\<bar>n\<bar> div 2 ^ k < 2 ^ 53" by (intro int_div_less) simp_all
  then have q: "q \<le> 2 ^ 53" "0 \<le> q" by (auto simp: q_def pos_imp_zdiv_nonneg_iff)
  have "\<bar>m\<bar> = (if n = 0 then 0 else q) * 2 ^ k" using q by (auto simp: m abs_mult sgn_if)
  then show ?thesis unfolding representable_def
    by (rule fround_exact) (use q lim in \<open>auto simp: m abs_mult sgn_if overflow_units_def\<close>)
qed

lemma representable_units: "\<bar>d\<bar> \<le> 2 ^ 53 \<Longrightarrow> j \<le> 2044 \<Longrightarrow> representable (d * 2 ^ j)"
  by (simp add: representable_def fround_units)

lemma representable_0 [simp]: "representable 0"
  using representable_units [of 0 0] by simp

lemma fround_even:
  "\<exists>m. \<forall>k. \<bar>k\<bar> = \<bar>n\<bar> \<longrightarrow> fround k = (if overflow_units \<le> m then Inf (k < 0) else Fin (sgn k * m))"
  unfolding fround_def Let_def by (intro exI allI impI) (simp only:)

lemma representable_minus_imp: "representable n \<Longrightarrow> representable (- n)"
proof -
  assume n: "representable n"
  obtain m where "\<And>k. \<bar>k\<bar> = \<bar>n\<bar> \<Longrightarrow> fround k = (if overflow_units \<le> m then Inf (k < 0) else Fin (sgn k * m))"
    using fround_even [of n] by blast
  from this [of n] this [of "- n"] n show ?thesis
    by (simp add: representable_def sgn_minus split: if_splits)
qed

lemma representable_minus [simp]: "representable (- n) \<longleftrightarrow> representable n"
  using representable_minus_imp [of n] representable_minus_imp [of "- n"] by auto

section \<open>Laws of the operations\<close>

lemma float64_ok_fround: "float64_ok (fround n)"
  by (cases "fround n") (auto intro: fround_rep)

lemma float64_ok_fneg: "float64_ok x \<Longrightarrow> float64_ok (fneg x)"
  by (cases x) auto

lemma float64_ok_fadd: "float64_ok x \<Longrightarrow> float64_ok y \<Longrightarrow> float64_ok (fadd x y)"
  by (cases x; cases y) (auto intro: float64_ok_fround)

lemma fneg_fneg [simp]: "fneg (fneg x) = x"
  by (cases x) auto

lemma fadd_commute: "fadd x y = fadd y x"
  by (cases x; cases y) (auto simp: add.commute)

lemma fadd_exact: "representable (a + b) \<Longrightarrow> fadd (Fin a) (Fin b) = Fin (a + b)"
  by (simp add: representable_def)

lemma fsub_exact: "representable a \<Longrightarrow> representable (a - b) \<Longrightarrow> fsub (Fin a) (Fin b) = Fin (a - b)"
  by (auto simp: fsub_def representable_def)

lemma fadd_zero: "float64_ok x \<Longrightarrow> x \<noteq> NegZero \<Longrightarrow> fadd x fzero = x"
  by (cases x) (auto simp: representable_def)

lemma float64_of_int_exact: "\<bar>i\<bar> \<le> 2 ^ 53 \<Longrightarrow> float64_of_int i = Fin (i * one_units)"
  unfolding float64_of_int_def one_units_def by (rule fround_units) simp_all

lemma one_units_pos [simp]: "0 < one_units" "one_units \<noteq> 0" "\<not> one_units < 0"
  unfolding one_units_def by simp_all

lemma int32_of_float_of_int: "in_int 32 i \<Longrightarrow> int32_of_float other (Fin (i * one_units)) = i"
  by (auto simp: go_quot_def Let_def abs_mult sgn_mult mult_sgn_abs)

text \<open>
  Addition is not associative: next to \<open>2 ^ 53\<close> an added one is lost.
\<close>

lemma fadd_absorbs:
  "fadd (Fin (2 ^ 53 * one_units)) (Fin one_units) = Fin (2 ^ 53 * one_units)"
proof -
  define n where "n = 2 ^ 53 * one_units + one_units"
  have "n = (2 ^ 53 + 1) * 2 ^ 1074" unfolding n_def one_units_def by (simp only: distrib_right mult_1)
  then have b: "bitlen n = 1128"
    using bitlen_twopow_add_eq [of 1 53] bitlen_pow2 [of "2 ^ 53 + 1" 1074] by (simp only:) simp
  have n0: "0 < n" by (simp add: n_def)
  then have k: "nat (bitlen \<bar>n\<bar> - 53) = Suc 1074" using b by simp
  have u: "2 ^ Suc 1074 = 2 * one_units" unfolding one_units_def by (simp only: power_Suc)
  have n: "n = one_units + 2 ^ 52 * (2 * one_units)" by (simp add: n_def)
  have q: "n div (2 * one_units) = 2 ^ 52" unfolding n by (subst div_mult_self1) simp_all
  have r: "n mod (2 * one_units) = one_units" unfolding n by (subst mod_mult_self1) simp
  have "2 ^ 53 * one_units < overflow_units"
    unfolding one_units_def overflow_units_def power_add [symmetric] by (intro power_strict_increasing) simp_all
  then have "fround n = Fin (2 ^ 53 * one_units)"
    unfolding fround_def k Let_def u using n0 by (simp add: q r)
  then show ?thesis by (simp add: n_def)
qed

section \<open>Sums on a grid\<close>

text \<open>
  Sums of multiples of one power of two are exact as long as they stay below \<open>2 ^ 53\<close> of
  those steps. \<open>on_grid j x\<close>: the value is finite and a multiple of \<open>2 ^ j\<close> units.
\<close>

primrec units :: "float64 \<Rightarrow> int" where
  "units NaN = 0"
| "units (Inf neg) = 0"
| "units NegZero = 0"
| "units (Fin n) = n"

definition on_grid :: "nat \<Rightarrow> float64 \<Rightarrow> bool" where
  "on_grid j x \<longleftrightarrow> x = Fin (units x) \<and> 2 ^ j dvd units x"

definition grid_bound :: "nat \<Rightarrow> int" where
  "grid_bound j = 2 ^ 53 * 2 ^ j"

lemma on_grid_Fin [simp]: "on_grid j (Fin n) \<longleftrightarrow> 2 ^ j dvd n"
  by (simp add: on_grid_def)

lemma grid_representable:
  assumes "2 ^ j dvd n" and "\<bar>n\<bar> \<le> grid_bound j" and "j \<le> 2044"
  shows "representable n"
proof -
  obtain d where n: "n = d * 2 ^ j" using assms(1) by (metis dvdE mult.commute)
  have "\<bar>d\<bar> \<le> 2 ^ 53" using assms(2) by (simp add: n abs_mult grid_bound_def)
  with assms(3) show ?thesis unfolding n by (rule representable_units [rotated])
qed

lemma fadd_grid:
  "j \<le> 2044 \<Longrightarrow> 2 ^ j dvd a \<Longrightarrow> on_grid j x \<Longrightarrow> \<bar>a\<bar> + \<bar>units x\<bar> \<le> grid_bound j \<Longrightarrow>
     fadd (Fin a) x = Fin (a + units x)"
  using fadd_exact [of a "units x"] grid_representable [of j "a + units x"] abs_triangle_ineq [of a "units x"]
  by (auto simp: on_grid_def)

lemma fsub_grid:
  "j \<le> 2044 \<Longrightarrow> 2 ^ j dvd a \<Longrightarrow> on_grid j x \<Longrightarrow> \<bar>a\<bar> + \<bar>units x\<bar> \<le> grid_bound j \<Longrightarrow>
     fsub (Fin a) x = Fin (a - units x)"
  using fsub_exact [of a "units x"] grid_representable [of j "a - units x"] grid_representable [of j a]
    abs_triangle_ineq4 [of a "units x"]
  by (auto simp: on_grid_def)

text \<open>What a counter does with a list of changes: positive ones are added, negative subtracted.\<close>

definition fchange :: "float64 \<Rightarrow> bool \<times> float64 \<Rightarrow> float64" where
  "fchange s d = (case d of (inc, x) \<Rightarrow> if inc then fadd s x else fsub s x)"

definition signed_units :: "bool \<times> float64 \<Rightarrow> int" where
  "signed_units d = (case d of (inc, x) \<Rightarrow> if inc then units x else - units x)"

definition grid_changes :: "nat \<Rightarrow> int \<Rightarrow> (bool \<times> float64) list \<Rightarrow> bool" where
  "grid_changes j a ds \<longleftrightarrow> j \<le> 2044 \<and> 2 ^ j dvd a \<and> (\<forall>d \<in> set ds. on_grid j (snd d))
     \<and> \<bar>a\<bar> + sum_list (map (\<lambda>d. \<bar>signed_units d\<bar>) ds) \<le> grid_bound j"

lemma sum_abs_nonneg: "0 \<le> sum_list (map (\<lambda>d. \<bar>signed_units d\<bar>) ds)"
  by (rule sum_list_nonneg) auto

lemma abs_signed_units [simp]: "\<bar>signed_units (inc, x)\<bar> = \<bar>units x\<bar>"
  by (simp add: signed_units_def)

lemma grid_changes_Cons:
  assumes "grid_changes j a (d # ds)"
  shows "fchange (Fin a) d = Fin (a + signed_units d) \<and> grid_changes j (a + signed_units d) ds"
proof -
  obtain inc x where d: "d = (inc, x)" by (cases d)
  have g: "j \<le> 2044" "2 ^ j dvd a" "on_grid j x" and b: "\<bar>a\<bar> + \<bar>units x\<bar> \<le> grid_bound j"
    and r: "\<bar>a\<bar> + \<bar>signed_units d\<bar> + sum_list (map (\<lambda>d. \<bar>signed_units d\<bar>) ds) \<le> grid_bound j"
    using assms sum_abs_nonneg [of ds] by (auto simp: grid_changes_def d)
  have "fchange (Fin a) d = Fin (a + signed_units d)"
    using fadd_grid [OF g b] fsub_grid [OF g b] by (simp add: fchange_def d signed_units_def)
  moreover have "2 ^ j dvd a + signed_units d" using g by (auto simp: d signed_units_def on_grid_def)
  moreover have "\<bar>a + signed_units d\<bar> + sum_list (map (\<lambda>d. \<bar>signed_units d\<bar>) ds) \<le> grid_bound j"
    using r abs_triangle_ineq [of a "signed_units d"] by linarith
  ultimately show ?thesis using assms by (simp add: grid_changes_def)
qed

lemma fchanges_exact:
  "grid_changes j a ds \<Longrightarrow> foldl fchange (Fin a) ds = Fin (a + sum_list (map signed_units ds))"
proof (induction ds arbitrary: a)
  case (Cons d ds)
  from grid_changes_Cons [OF Cons.prems] Cons.IH [of "a + signed_units d"] show ?case
    by (simp add: algebra_simps)
qed simp

lemma sum_list_permuted:
  fixes f :: "'a \<Rightarrow> int"
  shows "mset xs = mset ys \<Longrightarrow> sum_list (map f xs) = sum_list (map f ys)"
  by (simp flip: sum_mset_sum_list)

lemma grid_changes_mset: "mset ds = mset es \<Longrightarrow> grid_changes j a ds \<Longrightarrow> grid_changes j a es"
  using mset_eq_setD [of ds es] sum_list_permuted [of ds es] by (simp add: grid_changes_def)

section \<open>Division\<close>

text \<open>
  The double nearest to the quotient of two magnitudes, in units, with the sign \<open>neg\<close>: the
  quotient is rounded once, to 53 bits or to a whole unit.
\<close>

definition fround_quot :: "bool \<Rightarrow> int \<Rightarrow> int \<Rightarrow> float64" where
  "fround_quot neg p q =
     (let k = nat (bitlen (p div q) - 53);
          t = p div (q * 2 ^ k);
          r = p mod (q * 2 ^ k);
          m = (if q * 2 ^ k < 2 * r \<or> (q * 2 ^ k = 2 * r \<and> odd t) then t + 1 else t) * 2 ^ k
      in if overflow_units \<le> m then Inf neg
         else if m = 0 then (if neg then NegZero else fzero)
         else Fin (if neg then - m else m))"

primrec fsign :: "float64 \<Rightarrow> bool" where
  "fsign NaN = False"
| "fsign (Inf neg) = neg"
| "fsign NegZero = True"
| "fsign (Fin n) = (n < 0)"

definition fdiv :: "float64 \<Rightarrow> float64 \<Rightarrow> float64" where
  "fdiv x y =
     (let neg = (fsign x \<noteq> fsign y)
      in case (x, y) of
           (NaN, _) \<Rightarrow> NaN
         | (_, NaN) \<Rightarrow> NaN
         | (Inf a, Inf b) \<Rightarrow> NaN
         | (Inf a, _) \<Rightarrow> Inf neg
         | (_, Inf b) \<Rightarrow> (if neg then NegZero else fzero)
         | _ \<Rightarrow> if fis_zero y then (if fis_zero x then NaN else Inf neg)
                else fround_quot neg (\<bar>units x\<bar> * one_units) \<bar>units y\<bar>)"

lemma fround_quot_exact:
  assumes "representable m" and "0 < m" and "0 < q"
  shows "fround_quot neg (m * q) q = Fin (if neg then - m else m)"
proof -
  define k where "k = nat (bitlen m - 53)"
  have q1: "m * q div q = m" using assms(3) by simp
  have q2: "m * q div (q * 2 ^ k) = m div 2 ^ k"
    using assms(3) unfolding mult.commute [of m q] by (intro div_mult_mult1) simp
  have q3: "m * q mod (q * 2 ^ k) = q * (m mod 2 ^ k)"
    unfolding mult.commute [of m q] by (rule mult_mod_right [symmetric])
  have c: "q * 2 ^ k < 2 * (q * (m mod 2 ^ k)) \<longleftrightarrow> 2 ^ k < 2 * (m mod 2 ^ k)"
    "q * 2 ^ k = 2 * (q * (m mod 2 ^ k)) \<longleftrightarrow> 2 ^ k = 2 * (m mod 2 ^ k)"
    using assms(3) by (simp_all only: mult.left_commute [of 2 q] mult_less_cancel_left_pos mult_cancel_left) simp
  define r where "r = (if 2 ^ k < 2 * (m mod 2 ^ k) \<or> 2 ^ k = 2 * (m mod 2 ^ k) \<and> odd (m div 2 ^ k)
    then m div 2 ^ k + 1 else m div 2 ^ k) * 2 ^ k"
  have "fround m = (if overflow_units \<le> r then Inf False else Fin r)"
    using assms(2) unfolding fround_def Let_def k_def r_def by simp
  then have "r = m" "\<not> overflow_units \<le> r" using assms(1) by (auto simp: representable_def split: if_splits)
  then show ?thesis
    using assms(2) unfolding fround_quot_def Let_def q1 k_def [symmetric] q2 q3 c r_def [symmetric] by simp
qed

lemma fdiv_of_int:
  assumes "\<bar>n\<bar> \<le> 2 ^ 53" and "\<bar>v * n\<bar> \<le> 2 ^ 53" and "n \<noteq> 0" and "v \<noteq> 0"
  shows "fdiv (float64_of_int (v * n)) (float64_of_int n) = float64_of_int v"
proof -
  have v: "\<bar>v\<bar> \<le> 2 ^ 53"
  proof -
    have "\<bar>v\<bar> * 1 \<le> \<bar>v\<bar> * \<bar>n\<bar>" using assms(3) by (intro mult_left_mono) auto
    then show ?thesis using assms(2) by (simp add: abs_mult)
  qed
  have r: "representable (\<bar>v\<bar> * one_units)"
    using representable_units [of "\<bar>v\<bar>" 1074] v by (simp add: one_units_def)
  have "fround_quot ((v * n < 0) \<noteq> (n < 0)) (\<bar>v\<bar> * one_units * (\<bar>n\<bar> * one_units)) (\<bar>n\<bar> * one_units)
      = Fin (if (v * n < 0) \<noteq> (n < 0) then - (\<bar>v\<bar> * one_units) else \<bar>v\<bar> * one_units)"
    using assms(3,4) by (intro fround_quot_exact [OF r]) simp_all
  moreover have "((v * n < 0) \<noteq> (n < 0)) = (v < 0)" using assms(3,4) by (auto simp: mult_less_0_iff)
  moreover have "\<bar>v * n * one_units\<bar> * one_units = \<bar>v\<bar> * one_units * (\<bar>n\<bar> * one_units)"
    "\<bar>n * one_units\<bar> = \<bar>n\<bar> * one_units"
    by (simp_all add: abs_mult abs_of_pos)
  moreover have "(v * n * one_units < 0) = (v * n < 0)" "(n * one_units < 0) = (n < 0)"
    by (auto simp: mult_less_0_iff)
  moreover have "(if v < 0 then - (\<bar>v\<bar> * one_units) else \<bar>v\<bar> * one_units) = v * one_units" by simp
  ultimately have "fdiv (Fin (v * n * one_units)) (Fin (n * one_units)) = Fin (v * one_units)"
    using assms(3) by (simp only: fdiv_def Let_def prod.case float64.case fsign.simps fis_zero.simps units.simps)
      simp
  then show ?thesis using assms v by (simp add: float64_of_int_exact)
qed

lemma fdiv_zero_zero [simp]: "fdiv (float64_of_int 0) (float64_of_int 0) = NaN"
  by (simp add: float64_of_int_exact fdiv_def)

end
