(* ===== verification/MultiArray.thy ===== *)
theory MultiArray
  imports Convergence Float64 "HOL-Library.Word"
begin

unbundle bit_operations_syntax

text \<open>
  The multi array of \<^verbatim>\<open>crdt/crdt/multiArrayCRDT.go\<close>: an array of 64-bit counters, one of float
  counters, one of registers and one of averages, which grow on demand. \<open>sums\<close> and \<open>counts\<close>, and
  \<open>dataCounters\<close> and \<open>dataTsId\<close>, are slices that these operations make, grow and index together; each
  pair is one list of pairs here. The updates of integers and of floats have the same
  structures, with another type of change. Indexing out of range and making a slice of
  negative length panic. A \<open>[]byte\<close> that may be nil is an option; \<open>uint64\<close> is a 64-bit word.

  Preparing and applying all updates is modelled. Reads, undoing and messages are not.
\<close>

type_synonym tsid = "64 word"
type_synonym reg = "string option \<times> tsid"

record MultiArrayCrdt =
  intCounters :: "int list"
  avgs :: "(int \<times> int) list"
  floatCounters :: "float64 list"
  regs :: "reg list"
  ma_replicaID :: int

datatype 'd inc = MultiArrayIncSingle int 'd | MultiArrayInc "'d list" | MultiArrayIncPositions "int list" "'d list"
  | MultiArrayIncRange int int 'd

datatype avg_inc = MultiArrayIncAvgSingle int int int | MultiArrayIncAvg "int list" "int list"
  | MultiArrayIncAvgPositions "int list" "int list" "int list" | MultiArrayIncAvgRange int int int int

datatype set_reg = MultiArraySetRegisterSingle int "string option" | MultiArraySetRegister "string option list"
  | MultiArraySetRegisterPositions "int list" "string option list" | MultiArraySetRegisterRange int int "string option"

record MultiArrayUpdateAll =
  Ints :: "int list"
  Sums :: "int list"
  Floats :: "float64 list"
  Data :: "string option list"
  Counts :: "int list"

record MultiArraySetSizes =
  IntSize :: int
  FloatSize :: int
  RegisterSize :: int
  AvgSize :: int

datatype ma_update = MAIntUpd "int inc" | MAFloatUpd "float64 inc" | MADataUpd set_reg | MAAvgUpd avg_inc
  | MAMultiUpd MultiArrayUpdateAll | MASizeUpd MultiArraySetSizes

datatype ma_op = MAInt "int inc" | MAFloat "float64 inc" | MAData set_reg tsid | MAAvg avg_inc
  | MAMulti MultiArrayUpdateAll tsid | MASize MultiArraySetSizes | MA_NoOp

text \<open>
  The effects: those of counters are the updates; those of registers have the old values.
  \<open>WithSize\<close> has the old length.
\<close>

datatype ma_effect =
    MAIntEffect "int inc" | MAIntWithSizeEffect "int inc" nat
  | CounterArrayIncrementMultiEffect "int list" | CounterArrayIncMultiWithSizeEffect "int list" nat
  | MAFloatEffect "float64 inc" | MAFloatWithSizeEffect "float64 inc" nat
  | MAAvgEffect avg_inc | MAAvgWithSizeEffect avg_inc nat
  | MultiArraySetRegisterSingleEffect int reg
  | MultiArraySetRegisterEffect "reg list" | MultiArraySetRegisterWithSizeEffect "reg list" nat
  | MultiArraySetRegisterPositionsEffect "int list" "reg list" | MultiArraySetRegisterPositionsWithSizeEffect "int list" "reg list" nat
  | MultiArraySetRegisterRangeEffect int int "reg list" | MultiArraySetRegisterRangeWithSizeEffect int int "reg list" nat
  | MultiArrayUpdateAllEffect MultiArrayUpdateAll tsid | MultiArrayUpdateAllWithSizeEffect MultiArrayUpdateAll tsid MultiArraySetSizes
  | MultiArraySetSizesEffect MultiArraySetSizes

definition no_sizes :: MultiArraySetSizes where
  "no_sizes = \<lparr>IntSize = 0, FloatSize = 0, RegisterSize = 0, AvgSize = 0\<rparr>"

definition MultiArray_Initialize :: "int \<Rightarrow> MultiArrayCrdt" where
  "MultiArray_Initialize replicaID = \<lparr>intCounters = [], avgs = [], floatCounters = [], regs = [], ma_replicaID = replicaID\<rparr>"

definition MultiArray_IsBigCRDT :: "MultiArrayCrdt \<Rightarrow> bool" where
  "MultiArray_IsBigCRDT c \<longleftrightarrow> length (intCounters c) + length (floatCounters c) + length (regs c) + length (avgs c) \<ge> 500"

section \<open>Preparing\<close>

definition generate64BitTsAndId :: "64 word \<Rightarrow> 64 word \<Rightarrow> tsid" where
  "generate64BitTsAndId now localReplicaID =
     push_bit 16 (now AND 0x0000FFFFFFFFFFFF) OR ((localReplicaID + 32768) AND 0x000000000000FFFF)"

fun MultiArray_Update :: "64 word \<Rightarrow> MultiArrayCrdt \<Rightarrow> ma_update \<Rightarrow> ma_op" where
  "MultiArray_Update now c (MADataUpd u) = MAData u (generate64BitTsAndId now (word_of_int (ma_replicaID c)))"
| "MultiArray_Update now c (MAMultiUpd u) =
     MAMulti u (if length (Data u) > 0 then generate64BitTsAndId now (word_of_int (ma_replicaID c)) else 0)"
| "MultiArray_Update now c (MASizeUpd s) =
     (if IntSize s < int32 (int (length (intCounters c))) \<and> FloatSize s < int32 (int (length (floatCounters c)))
         \<and> RegisterSize s < int32 (int (length (regs c))) then MA_NoOp else MASize s)"
| "MultiArray_Update now c (MAIntUpd u) = MAInt u"
| "MultiArray_Update now c (MAFloatUpd u) = MAFloat u"
| "MultiArray_Update now c (MAAvgUpd u) = MAAvg u"

section \<open>Loops over the slices\<close>

text \<open>\<open>expandIntArray\<close>, \<open>expandFloatArray\<close>, \<open>expandDataArray\<close>, \<open>expandAvgArray\<close>: \<open>z\<close> is the zero value.\<close>

definition expand_slice :: "'x \<Rightarrow> int \<Rightarrow> 'x list \<Rightarrow> 'x list go" where
  "expand_slice z newSize xs = (if newSize < 0 then Inl NegativeMakeLen
     else Inr (take (nat newSize) xs @ replicate (nat newSize - length xs) z))"

text \<open>\<open>f\<close> is the body of the loop on one element.\<close>

definition inc_at :: "('x \<Rightarrow> 'd \<Rightarrow> 'x) \<Rightarrow> 'x list \<Rightarrow> int \<Rightarrow> 'd \<Rightarrow> 'x list go" where
  "inc_at f xs pos d = (if 0 \<le> pos \<and> pos < int (length xs) then Inr (xs[nat pos := f (xs ! nat pos) d]) else Inl IndexOutOfRange)"

definition grow_inc :: "'x \<Rightarrow> ('x \<Rightarrow> 'd \<Rightarrow> 'x) \<Rightarrow> 'x list \<Rightarrow> int \<Rightarrow> 'd \<Rightarrow> 'x list go" where
  "grow_inc z f xs pos d = gbind (if pos \<ge> int (length xs) then expand_slice z (int32 (pos + 1)) xs else Inr xs) (\<lambda>xs'. inc_at f xs' pos d)"

primrec inc_from :: "('x \<Rightarrow> 'd \<Rightarrow> 'x) \<Rightarrow> nat \<Rightarrow> 'x list \<Rightarrow> 'd list \<Rightarrow> 'x list go" where
  "inc_from f i xs [] = Inr xs"
| "inc_from f i xs (change # changes) = gbind (inc_at f xs (int i) change) (\<lambda>xs'. inc_from f (Suc i) xs' changes)"

definition grow_inc_all :: "'x \<Rightarrow> ('x \<Rightarrow> 'd \<Rightarrow> 'x) \<Rightarrow> 'x list \<Rightarrow> 'd list \<Rightarrow> 'x list go" where
  "grow_inc_all z f xs changes =
     gbind (if length changes > length xs then expand_slice z (int32 (int (length changes))) xs else Inr xs) (\<lambda>xs'. inc_from f 0 xs' changes)"

text \<open>One change for all positions, or \<open>Changes[i]\<close> for the \<open>i\<close>-th; \<open>step\<close> is \<open>grow_inc\<close> or \<open>set_reg_at\<close>.\<close>

primrec positions_loop :: "('s \<Rightarrow> int \<Rightarrow> 'd \<Rightarrow> 's go) \<Rightarrow> 'd list \<Rightarrow> nat \<Rightarrow> 's \<Rightarrow> int list \<Rightarrow> 's go" where
  "positions_loop step changes i s [] = Inr s"
| "positions_loop step changes i s (pos # ps) =
     (if i < length changes then gbind (step s pos (changes ! i)) (\<lambda>s'. positions_loop step changes (Suc i) s' ps) else Inl IndexOutOfRange)"

definition at_positions :: "('s \<Rightarrow> int \<Rightarrow> 'd \<Rightarrow> 's go) \<Rightarrow> 's \<Rightarrow> int list \<Rightarrow> 'd list \<Rightarrow> 's go" where
  "at_positions step s ps changes =
     (if length changes = 1 then gfold (\<lambda>s pos. step s pos (changes ! 0)) s ps else positions_loop step changes 0 s ps)"

definition inc_range :: "('x \<Rightarrow> 'd \<Rightarrow> 'x) \<Rightarrow> 'x list \<Rightarrow> int \<Rightarrow> int \<Rightarrow> 'd \<Rightarrow> 'x list go" where
  "inc_range f xs from to d = gfold (\<lambda>xs i. inc_at f xs i d) xs [from..to]"


fun inc_avg :: "int \<times> int \<Rightarrow> int \<times> int \<Rightarrow> int \<times> int" where
  "inc_avg (s, n) (value, cnt) = (int64 (s + value), int64 (n + cnt))"

text \<open>The register is only written when its time stamp is lower.\<close>

fun lww_reg :: "reg \<Rightarrow> reg \<Rightarrow> reg" where
  "lww_reg (old, oldTs) (value, ts) = (if oldTs < ts then (value, ts) else (old, oldTs))"

section \<open>Applying\<close>


text \<open>The range compares with the integers, and grows the integers.\<close>

fun applyDownstreamFloat :: "MultiArrayCrdt \<Rightarrow> float64 inc \<Rightarrow> (MultiArrayCrdt \<times> ma_effect) go" where
  "applyDownstreamFloat c (MultiArrayIncSingle pos change) =
     gbind (grow_inc (Fin 0) fadd (floatCounters c) pos change) (\<lambda>xs. Inr (c\<lparr>floatCounters := xs\<rparr>,
       if pos \<ge> int (length (floatCounters c)) then MultiArraySetSizesEffect (no_sizes\<lparr>FloatSize := int32 (int (length (floatCounters c)))\<rparr>)
       else MAFloatEffect (MultiArrayIncSingle pos change)))"
| "applyDownstreamFloat c (MultiArrayInc changes) =
     gbind (grow_inc_all (Fin 0) fadd (floatCounters c) changes) (\<lambda>xs. Inr (c\<lparr>floatCounters := xs\<rparr>,
       if length changes > length (floatCounters c) then MAFloatWithSizeEffect (MultiArrayInc changes) (length (floatCounters c))
       else MAFloatEffect (MultiArrayInc changes)))"
| "applyDownstreamFloat c (MultiArrayIncPositions ps changes) =
     gbind (at_positions (grow_inc (Fin 0) fadd) (floatCounters c) ps changes) (\<lambda>xs. Inr (c\<lparr>floatCounters := xs\<rparr>,
       if length (floatCounters c) \<noteq> length xs then MAFloatWithSizeEffect (MultiArrayIncPositions ps changes) (length (floatCounters c))
       else MAFloatEffect (MultiArrayIncPositions ps changes)))"
| "applyDownstreamFloat c (MultiArrayIncRange from to change) =
     gbind (if to \<ge> int32 (int (length (intCounters c))) then expand_slice 0 (int32 (to + 1)) (intCounters c) else Inr (intCounters c)) (\<lambda>is.
       gbind (inc_range fadd (floatCounters c) from to change) (\<lambda>xs. Inr (c\<lparr>intCounters := is, floatCounters := xs\<rparr>,
         if length (floatCounters c) \<noteq> length is then MAFloatWithSizeEffect (MultiArrayIncRange from to change) (length (floatCounters c))
         else MAFloatEffect (MultiArrayIncRange from to change))))"

text \<open>
  A slice has no more capacity than its length, as long as nothing was undone: it was made with
  that length. A write of one register: with a position beyond the end the array grows and the write
  needs no comparison. The result says what was written over, if anything was written.
\<close>

definition set_reg_at :: "reg list \<Rightarrow> int \<Rightarrow> reg \<Rightarrow> (reg list \<times> reg option) go" where
  "set_reg_at xs pos r =
     (if pos \<ge> int (length xs) then gbind (expand_slice (None, 0) (int32 (pos + 1)) xs) (\<lambda>ys. gbind (inc_at (\<lambda>x d. d) ys pos r) (\<lambda>zs. Inr (zs, Some (None, 0))))
      else if pos < 0 then Inl IndexOutOfRange
      else if snd (xs ! nat pos) < snd r then Inr (xs[nat pos := r], Some (xs ! nat pos))
      else Inr (xs, None))"

text \<open>The loop over the positions collects \<open>oldData\<close> and \<open>oldTs\<close>, and whether one was written.\<close>

definition set_reg_step :: "reg list \<times> reg list \<times> bool \<Rightarrow> int \<Rightarrow> reg \<Rightarrow> (reg list \<times> reg list \<times> bool) go" where
  "set_reg_step s pos r = (case s of (xs, old, atLeastOne) \<Rightarrow>
     gbind (set_reg_at xs pos r) (\<lambda>(ys, w). Inr (ys, old @ [case w of None \<Rightarrow> (None, 0) | Some x \<Rightarrow> x], atLeastOne \<or> w \<noteq> None)))"

text \<open>The loop over all values: the new registers, and whether one was written.\<close>

definition set_all :: "reg list \<Rightarrow> string option list \<Rightarrow> tsid \<Rightarrow> (reg list \<times> bool) go" where
  "set_all xs values ts = gbind (inc_from lww_reg 0 xs (map (\<lambda>v. (v, ts)) values))
     (\<lambda>ys. Inr (ys, list_ex (\<lambda>x. snd x < ts) (take (length values) xs)))"

fun applyDownstreamData :: "MultiArrayCrdt \<Rightarrow> set_reg \<Rightarrow> tsid \<Rightarrow> (MultiArrayCrdt \<times> ma_effect effect) go" where
  "applyDownstreamData c (MultiArraySetRegisterSingle pos value) ts =
     gbind (set_reg_at (regs c) pos (value, ts)) (\<lambda>(xs, w). Inr (c\<lparr>regs := xs\<rparr>,
       case w of None \<Rightarrow> NoEffect
       | Some old \<Rightarrow> Eff (if pos \<ge> int (length (regs c)) then MultiArraySetSizesEffect (no_sizes\<lparr>RegisterSize := int32 (int (length (regs c)))\<rparr>)
            else MultiArraySetRegisterSingleEffect pos old)))"
| "applyDownstreamData c (MultiArraySetRegister values) ts =
     gbind (if length values > length (regs c) then expand_slice (None, 0) (int32 (int (length values))) (regs c) else Inr (regs c)) (\<lambda>ys.
       gbind (set_all ys values ts) (\<lambda>(xs, atLeastOne). Inr (c\<lparr>regs := xs\<rparr>,
         if \<not> atLeastOne then NoEffect
         else Eff (if length values > length (regs c) then MultiArraySetRegisterWithSizeEffect (regs c) (length (regs c))
           else MultiArraySetRegisterEffect (regs c)))))"
| "applyDownstreamData c (MultiArraySetRegisterPositions ps values) ts =
     gbind (at_positions set_reg_step (regs c, [], False) ps (map (\<lambda>v. (v, ts)) values)) (\<lambda>(xs, old, atLeastOne). Inr (c\<lparr>regs := xs\<rparr>,
       if \<not> atLeastOne then NoEffect
       else Eff (if length (regs c) \<noteq> length xs then MultiArraySetRegisterPositionsWithSizeEffect ps old (length (regs c))
         else MultiArraySetRegisterPositionsEffect ps old)))"
| "applyDownstreamData c (MultiArraySetRegisterRange from to value) ts =
     gbind (if to \<ge> int32 (int (length (intCounters c))) then gbind (expand_slice (None, 0) (int32 (to + 1)) (regs c)) (\<lambda>ys. Inr (regs c, ys))
            else if int32 (to - from + 1) < 0 then Inl NegativeMakeLen
            else if from < 0 \<or> int32 (to + 1) > int (length (regs c)) then Inl IndexOutOfRange
            else Inr (take (nat (to + 1 - from)) (drop (nat from) (regs c)), regs c)) (\<lambda>(old, ys).
       gbind (inc_range lww_reg ys from to (value, ts)) (\<lambda>xs. Inr (c\<lparr>regs := xs\<rparr>,
         Eff (if length (regs c) \<noteq> length xs then MultiArraySetRegisterRangeWithSizeEffect from to old (length (regs c))
           else MultiArraySetRegisterRangeEffect from to old))))"

text \<open>Averages: \<open>Value\<close> and \<open>Count\<close> are separate slices; an index beyond \<open>Count\<close> panics.\<close>

definition avg_positions :: "(int \<times> int) list \<Rightarrow> int list \<Rightarrow> int list \<Rightarrow> int list \<Rightarrow> (int \<times> int) list go" where
  "avg_positions xs value cnts ps =
     (if length value = 1
      then if cnts = [] then Inl IndexOutOfRange else gfold (\<lambda>xs pos. grow_inc (0, 0) inc_avg xs pos (value ! 0, cnts ! 0)) xs ps
      else positions_loop (grow_inc (0, 0) inc_avg) (zip value cnts) 0 xs ps)"

definition avg_all :: "(int \<times> int) list \<Rightarrow> int list \<Rightarrow> int list \<Rightarrow> (int \<times> int) list go" where
  "avg_all xs value cnts =
     gbind (if length value > length xs then expand_slice (0, 0) (int32 (int (length value))) xs else Inr xs) (\<lambda>ys.
       if length value > length cnts then Inl IndexOutOfRange else inc_from inc_avg 0 ys (zip value cnts))"

fun applyDownstreamAvg :: "MultiArrayCrdt \<Rightarrow> avg_inc \<Rightarrow> (MultiArrayCrdt \<times> ma_effect) go" where
  "applyDownstreamAvg c (MultiArrayIncAvgSingle value cnt pos) =
     gbind (grow_inc (0, 0) inc_avg (avgs c) pos (value, cnt)) (\<lambda>xs. Inr (c\<lparr>avgs := xs\<rparr>,
       if pos \<ge> int (length (avgs c)) then MultiArraySetSizesEffect (no_sizes\<lparr>AvgSize := int32 (int (length (avgs c)))\<rparr>)
       else MAAvgEffect (MultiArrayIncAvgSingle value cnt pos)))"
| "applyDownstreamAvg c (MultiArrayIncAvg value cnts) =
     gbind (avg_all (avgs c) value cnts) (\<lambda>xs. Inr (c\<lparr>avgs := xs\<rparr>,
       if length value > length (avgs c) then MAAvgWithSizeEffect (MultiArrayIncAvg value cnts) (length (avgs c))
       else MAAvgEffect (MultiArrayIncAvg value cnts)))"
| "applyDownstreamAvg c (MultiArrayIncAvgPositions value cnts ps) =
     gbind (avg_positions (avgs c) value cnts ps) (\<lambda>xs. Inr (c\<lparr>avgs := xs\<rparr>,
       if length (avgs c) \<noteq> length xs then MAAvgWithSizeEffect (MultiArrayIncAvgPositions value cnts ps) (length (avgs c))
       else MAAvgEffect (MultiArrayIncAvgPositions value cnts ps)))"
| "applyDownstreamAvg c (MultiArrayIncAvgRange from to value cnt) =
     gbind (if to \<ge> int32 (int (length (intCounters c)))
            then gbind (expand_slice (0, 0) (int32 (to + 1)) (avgs c)) (expand_slice (0, 0) (int32 (to + 1))) else Inr (avgs c)) (\<lambda>ys.
       gbind (inc_range inc_avg ys from to (value, cnt)) (\<lambda>xs. Inr (c\<lparr>avgs := xs\<rparr>,
         if length (avgs c) \<noteq> length (intCounters c) then MAAvgWithSizeEffect (MultiArrayIncAvgRange from to value cnt) (length (avgs c))
         else MAAvgEffect (MultiArrayIncAvgRange from to value cnt))))"






section \<open>What the loops do to one position\<close>

text \<open>
  An array stands for a function of the position that is the zero value beyond its end.
  \<open>acts z n g xs ys\<close>: from \<open>xs\<close> to \<open>ys\<close> the array grows to \<open>n\<close> positions at least, and \<open>g\<close> is applied at
  every position. The changes of an operation are a list of positions with a change each.
\<close>

definition val :: "'x \<Rightarrow> 'x list \<Rightarrow> nat \<Rightarrow> 'x" where
  "val z xs k = (if k < length xs then xs ! k else z)"

definition acts :: "'x \<Rightarrow> nat \<Rightarrow> (nat \<Rightarrow> 'x \<Rightarrow> 'x) \<Rightarrow> 'x list \<Rightarrow> 'x list \<Rightarrow> bool" where
  "acts z n g xs ys \<longleftrightarrow> length ys = max (length xs) n \<and> (\<forall>k. val z ys k = g k (val z xs k))"

definition at_key :: "('x \<Rightarrow> 'd \<Rightarrow> 'x) \<Rightarrow> nat \<Rightarrow> 'x \<Rightarrow> int \<times> 'd \<Rightarrow> 'x" where
  "at_key f k x p = (if fst p = int k then f x (snd p) else x)"

definition pfold :: "('x \<Rightarrow> 'd \<Rightarrow> 'x) \<Rightarrow> (int \<times> 'd) list \<Rightarrow> nat \<Rightarrow> 'x \<Rightarrow> 'x" where
  "pfold f ps k x = foldl (at_key f k) x ps"

definition small :: "'x list \<Rightarrow> bool" where "small xs \<longleftrightarrow> length xs < 2 ^ 31"


definition pairs_len :: "(int \<times> 'd) list \<Rightarrow> nat" where
  "pairs_len ps = foldr (\<lambda>p n. max (nat (fst p + 1)) n) ps 0"



lemma acts_comp: "acts z n g xs ys \<Longrightarrow> acts z m h ys zs \<Longrightarrow> acts z (max n m) (\<lambda>k x. h k (g k x)) xs zs"
  by (auto simp: acts_def)

lemma acts_refl [simp]: "acts z n (pfold f []) xs xs \<longleftrightarrow> n \<le> length xs"
  by (auto simp: acts_def pfold_def)


lemma pfold_Cons: "pfold f (p # ps) = (\<lambda>k x. pfold f ps k (at_key f k x p))"
  by (intro ext) (simp add: pfold_def)


lemma inc_at_acts:
  assumes "0 \<le> p" and "p < int (length xs)"
  obtains ys where "inc_at f xs p d = Inr ys" and "acts z 0 (\<lambda>k x. at_key f k x (p, d)) xs ys"
proof
  show "inc_at f xs p d = Inr (xs[nat p := f (xs ! nat p) d])" using assms by (simp add: inc_at_def)
  show "acts z 0 (\<lambda>k x. at_key f k x (p, d)) xs (xs[nat p := f (xs ! nat p) d])"
    using assms by (auto simp: acts_def val_def at_key_def nth_list_update)
qed

lemma int32_id: "0 \<le> m \<Longrightarrow> m < 2 ^ 31 \<Longrightarrow> int32 m = m"
  by (rule swrap_id) (simp_all add: in_int_def)

lemma int32_length: "small xs \<Longrightarrow> int32 (int (length xs)) = int (length xs)"
  unfolding small_def by (rule int32_id) simp_all



lemma pairs_len_simps [simp]:
  "pairs_len [] = 0" "pairs_len (p # ps) = max (nat (fst p + 1)) (pairs_len ps)"
  by (simp_all add: pairs_len_def)


lemma inc_pairs_acts:
  assumes "\<forall>p \<in> set ps. 0 \<le> fst p \<and> fst p < int (length xs)"
  obtains ys where "gfold (\<lambda>xs p. inc_at f xs (fst p) (snd p)) xs ps = Inr ys" and "acts z 0 (pfold f ps) xs ys"
proof -
  have "\<exists>ys. gfold (\<lambda>xs p. inc_at f xs (fst p) (snd p)) xs ps = Inr ys \<and> acts z 0 (pfold f ps) xs ys"
    using assms
  proof (induction ps arbitrary: xs)
    case (Cons p ps)
    then obtain ys where ys: "inc_at f xs (fst p) (snd p) = Inr ys" "acts z 0 (\<lambda>k x. at_key f k x p) xs ys"
      using inc_at_acts [of "fst p" xs f "snd p" z] by auto
    have "length ys = length xs" using ys(2) by (simp add: acts_def)
    then obtain zs where zs: "gfold (\<lambda>xs p. inc_at f xs (fst p) (snd p)) ys ps = Inr zs" "acts z 0 (pfold f ps) ys zs"
      using Cons.IH [of ys] Cons.prems by auto
    then show ?case using ys acts_comp [OF ys(2) zs(2)] by (auto simp: pfold_Cons)
  qed simp
  then show thesis using that by blast
qed

section \<open>Operations as changes of positions\<close>



lemma gfold_map: "gfold f s (map g xs) = gfold (\<lambda>s x. f s (g x)) s xs"
  by (induction xs arbitrary: s) simp_all






























section \<open>Runs\<close>







definition array_step :: "'x \<Rightarrow> ('x \<Rightarrow> 'd \<Rightarrow> 'x) \<Rightarrow> (int \<times> 'd) list \<times> nat \<Rightarrow> 'x list \<Rightarrow> 'x list \<Rightarrow> bool" where
  "array_step z f u xs ys = acts z (snd u) (pfold f (fst u)) xs ys"



lemma array_step_same [simp]: "array_step z f ([], 0) xs xs"
  by (simp add: array_step_def)







definition array_run :: "'x \<Rightarrow> ('x \<Rightarrow> 'd \<Rightarrow> 'x) \<Rightarrow> ((int \<times> 'd) list \<times> nat) list \<Rightarrow> 'x list \<Rightarrow> 'x list \<Rightarrow> bool" where
  "array_run z f us xs ys = acts z (fold max (map snd us) 0) (\<lambda>k x. fold (\<lambda>u. pfold f (fst u) k) us x) xs ys"

lemma array_run_Nil [simp]: "array_run z f [] xs xs"
  by (simp add: array_run_def acts_def)












section \<open>Convergence\<close>














section \<open>Stamps of registers\<close>

lemma mask_low: "(0x0000FFFFFFFFFFFF :: 64 word) = mask 48" "(0x000000000000FFFF :: 64 word) = mask 16"
  by (simp_all add: mask_eq_exp_minus_1)

lemma two_digits: "(y :: nat) < n \<Longrightarrow> y' < n \<Longrightarrow> x * n + y < x' * n + y' \<longleftrightarrow> x < x' \<or> x = x' \<and> y < y'"
proof -
  have step: "x * n + y < x' * n + y'" if "x < x'" "y < n" for x x' y y' :: nat
  proof -
    have "x * n + y < Suc x * n" using that by simp
    also have "\<dots> \<le> x' * n" using that by (intro mult_right_mono) simp_all
    finally show ?thesis by simp
  qed
  assume "y < n" and "y' < n"
  then show ?thesis using step [of x x' y y'] step [of x' x y' y] by (cases x x' rule: linorder_cases) auto
qed

lemma unat_stamp:
  "unat (generate64BitTsAndId now rid) = unat now mod 2 ^ 48 * 2 ^ 16 + unat (rid + 32768) mod 2 ^ 16"
proof -
  let ?a = "push_bit 16 (take_bit 48 now) :: 64 word" and ?b = "take_bit 16 (rid + 32768) :: 64 word"
  have "?a AND ?b = 0" by (rule bit_word_eqI) (auto simp: bit_simps)
  then have "generate64BitTsAndId now rid = ?a + ?b"
    unfolding generate64BitTsAndId_def mask_low take_bit_eq_mask [symmetric] by (rule disjunctive_add_eq_or [symmetric])
  moreover have a: "unat ?a = unat now mod 2 ^ 48 * 2 ^ 16"
  proof -
    have "unat now mod 2 ^ 48 * 2 ^ 16 < 2 ^ 48 * (2 ^ 16 :: nat)" by simp
    then have "unat now mod 2 ^ 48 * 2 ^ 16 < (2 ^ 64 :: nat)" by simp
    moreover have "unat ?a = take_bit LENGTH(64) (push_bit 16 (take_bit 48 (unat now)))"
      unfolding unsigned_push_bit_eq unsigned_take_bit_eq ..
    ultimately show ?thesis by (simp add: push_bit_eq_mult take_bit_eq_mod)
  qed
  moreover have b: "unat ?b = unat (rid + 32768) mod 2 ^ 16" 
    by (simp only: unsigned_take_bit_eq) (simp only: take_bit_eq_mod)
  moreover have "unat ?a + unat ?b < 2 ^ 64"
  proof -
    have "unat now mod 2 ^ 48 < 2 ^ 48" and "unat (rid + 32768) mod 2 ^ 16 < 2 ^ 16" by simp_all
    then have "unat now mod 2 ^ 48 * 2 ^ 16 + unat (rid + 32768) mod 2 ^ 16 < 2 ^ 48 * 2 ^ 16 + 0"
      by (subst two_digits [where n = "2 ^ 16"]) simp_all
    then show ?thesis unfolding a b by simp
  qed
  ultimately show ?thesis by (simp add: unat_word_ariths)
qed

text \<open>
  C39. Stamps of registers are ordered by the lowest 48 bits of the clock and then by the
  replica. These bits start again every 78 hours: a write one nanosecond after the end of a
  period has a lower stamp than the write before it, and the register keeps the older value.
\<close>

theorem MultiArray_stamps:
  "(generate64BitTsAndId now1 id1 < generate64BitTsAndId now2 id2 \<longleftrightarrow>
      unat now1 mod 2 ^ 48 < unat now2 mod 2 ^ 48
      \<or> unat now1 mod 2 ^ 48 = unat now2 mod 2 ^ 48 \<and> unat (id1 + 32768) mod 2 ^ 16 < unat (id2 + 32768) mod 2 ^ 16)
   \<and> (unat now1 mod 2 ^ 48 = 2 ^ 48 - 1 \<and> unat now2 = unat now1 + 1 \<longrightarrow>
      lww_reg (value1, generate64BitTsAndId now1 id1) (value2, generate64BitTsAndId now2 id2) = (value1, generate64BitTsAndId now1 id1))"
proof -
  have cmp: "generate64BitTsAndId n a < generate64BitTsAndId m b \<longleftrightarrow>
      unat n mod 2 ^ 48 < unat m mod 2 ^ 48 \<or> unat n mod 2 ^ 48 = unat m mod 2 ^ 48 \<and> unat (a + 32768) mod 2 ^ 16 < unat (b + 32768) mod 2 ^ 16" for n m a b
  proof -
    have "unat (a + 32768) mod 2 ^ 16 < 2 ^ 16" "unat (b + 32768) mod 2 ^ 16 < 2 ^ 16" by simp_all
    then show ?thesis unfolding word_less_nat_alt unat_stamp by (rule two_digits)
  qed
  have wrap: "\<not> generate64BitTsAndId now1 id1 < generate64BitTsAndId now2 id2"
    if "unat now1 mod 2 ^ 48 = 2 ^ 48 - 1" and "unat now2 = unat now1 + 1"
  proof -
    have "unat now2 mod 2 ^ 48 = 0" using that by (simp add: mod_Suc)
    then show ?thesis unfolding cmp using that by simp
  qed
  show ?thesis by (intro conjI cmp impI) (simp add: wrap)
qed

theorem MultiArray_stamps_witness:
  "lww_reg (Some ''old'', generate64BitTsAndId 0xFFFFFFFFFFFF 0) (Some ''new'', generate64BitTsAndId 0x1000000000000 0)
     = (Some ''old'', generate64BitTsAndId 0xFFFFFFFFFFFF 0)"
proof -
  have "unat (0xFFFFFFFFFFFF :: 64 word) mod 2 ^ 48 = 2 ^ 48 - 1 \<and> unat (0x1000000000000 :: 64 word) = unat (0xFFFFFFFFFFFF :: 64 word) + 1" by simp
  then show ?thesis using MultiArray_stamps [of "0xFFFFFFFFFFFF" 0 "0x1000000000000" 0 "Some ''old''" "Some ''new''"] by blast
qed

section \<open>Ranges\<close>

lemma inc_at_length: "inc_at f xs p d = Inr ys \<Longrightarrow> length ys = length xs"
  by (auto simp: inc_at_def split: if_splits)

lemma inc_range_panics: "i \<in> set is' \<Longrightarrow> int (length xs) \<le> i \<Longrightarrow> gfold (\<lambda>xs i. inc_at f xs i d) xs is' = Inl IndexOutOfRange"
proof (induction is' arbitrary: xs)
  case (Cons j js)
  show ?case
  proof (cases "inc_at f xs j d")
    case (Inl p)
    then show ?thesis by (auto simp: inc_at_def split: if_splits)
  next
    case (Inr ys)
    then have "j < int (length xs)" by (auto simp: inc_at_def split: if_splits)
    then have "i \<in> set js" using Cons.prems by auto
    then show ?thesis using Cons.IH [of ys] Cons.prems Inr inc_at_length [OF Inr] by simp
  qed
qed simp

lemma expand_range:
  assumes "0 \<le> a" and "0 \<le> b + 1"
  obtains ys zs where "expand_slice z (b + 1) xs = Inr ys" and "length ys = nat (b + 1)" and "inc_range f ys a b d = Inr zs" and "length zs = nat (b + 1)"
proof -
  let ?ys = "take (nat (b + 1)) xs @ replicate (nat (b + 1) - length xs) z"
  have e: "expand_slice z (b + 1) xs = Inr ?ys" "length ?ys = nat (b + 1)" using assms by (simp_all add: expand_slice_def)
  have "\<forall>p \<in> set (map (\<lambda>p. (p, d)) [a..b]). 0 \<le> fst p \<and> fst p < int (length ?ys)" using assms unfolding e(2) by auto
  then obtain zs where "gfold (\<lambda>xs p. inc_at f xs (fst p) (snd p)) ?ys (map (\<lambda>p. (p, d)) [a..b]) = Inr zs" "acts z 0 (pfold f (map (\<lambda>p. (p, d)) [a..b])) ?ys zs"
    by (rule inc_pairs_acts)
  then show thesis using that [OF e] e(2) by (simp add: inc_range_def gfold_map acts_def)
qed

text \<open>
  C40. Operations on a range compare its end with the length of the integers. When it is
  not below that, the registers or the averages are cut to the range: every one behind it is
  lost. An increment of a range of floats grows the integers and panics when the floats do not
  reach that far.
\<close>

theorem MultiArray_ranges:
  assumes "small (intCounters c)" and "0 \<le> a" and "int (length (intCounters c)) \<le> b" and "b + 1 < 2 ^ 31"
  shows "(\<exists>c' e. applyDownstreamData c (MultiArraySetRegisterRange a b value) ts = Inr (c', e) \<and> length (regs c') = nat (b + 1))
    \<and> (\<exists>c' e. applyDownstreamAvg c (MultiArrayIncAvgRange a b s n) = Inr (c', e) \<and> length (avgs c') = nat (b + 1))
    \<and> (a \<le> b \<and> int (length (floatCounters c)) \<le> b \<longrightarrow> applyDownstreamFloat c (MultiArrayIncRange a b d) = Inl IndexOutOfRange)"
proof (intro conjI impI)
  have b: "0 \<le> b + 1" and i: "int32 (b + 1) = b + 1" using assms(3,4) by (auto intro!: int32_id)
  have c: "b \<ge> int32 (int (length (intCounters c))) \<longleftrightarrow> True" using assms(3) by (simp add: int32_length [OF assms(1)])
  obtain ys zs where r: "expand_slice (None, 0) (b + 1) (regs c) = Inr ys" "inc_range lww_reg ys a b (value, ts) = Inr zs" "length zs = nat (b + 1)"
    using expand_range [OF assms(2) b] by metis
  then show "\<exists>c' e. applyDownstreamData c (MultiArraySetRegisterRange a b value) ts = Inr (c', e) \<and> length (regs c') = nat (b + 1)"
    by (simp add: c i)
  obtain us where u: "expand_slice (0, 0) (b + 1) (avgs c) = Inr us" "length us = nat (b + 1)"
    using expand_range [OF assms(2) b] by metis
  obtain vs ws where v: "expand_slice (0, 0) (b + 1) us = Inr vs" "inc_range inc_avg vs a b (s, n) = Inr ws" "length ws = nat (b + 1)"
    using expand_range [OF assms(2) b] by metis
  then show "\<exists>c' e. applyDownstreamAvg c (MultiArrayIncAvgRange a b s n) = Inr (c', e) \<and> length (avgs c') = nat (b + 1)"
    using u by (simp add: c i)
  assume "a \<le> b \<and> int (length (floatCounters c)) \<le> b"
  then have "inc_range fadd (floatCounters c) a b d = Inl IndexOutOfRange"
    unfolding inc_range_def by (intro inc_range_panics [of b]) auto
  moreover obtain js where "expand_slice 0 (b + 1) (intCounters c) = Inr js" using expand_range [OF assms(2) b] by metis
  ultimately show "applyDownstreamFloat c (MultiArrayIncRange a b d) = Inl IndexOutOfRange" by (simp add: c i)
qed

theorem MultiArray_ranges_witness:
  "let c = (MultiArray_Initialize 1)\<lparr>regs := [(Some ''a'', 1), (Some ''b'', 1), (Some ''c'', 1)]\<rparr> in
   (\<exists>c' e. applyDownstreamData c (MultiArraySetRegisterRange 0 0 (Some ''d'')) 2 = Inr (c', e) \<and> length (regs c') = 1)
   \<and> applyDownstreamFloat c (MultiArrayIncRange 0 0 (Fin 3)) = Inl IndexOutOfRange"
proof -
  let ?c = "(MultiArray_Initialize 1)\<lparr>regs := [(Some ''a'', 1), (Some ''b'', 1), (Some ''c'', 1)]\<rparr>"
  have "small (intCounters ?c)" "int (length (intCounters ?c)) \<le> 0" "int (length (floatCounters ?c)) \<le> 0"
    by (simp_all add: small_def MultiArray_Initialize_def)
  then show ?thesis unfolding Let_def using MultiArray_ranges [of ?c 0 0 "Some ''d''" 2 0 0 "Fin 3"] by simp
qed

end
