(* ===== verification/TopK.thy ===== *)
theory TopK
  imports Convergence
begin

text \<open>
  The top-k without removals of \<^verbatim>\<open>crdt/crdt/topK.go\<close>: the \<open>maxElems\<close> best scores, the
  entries tied with the smallest of them, and a buffer for sorted reads. The maps are
  association lists in one of their iteration orders. A data pointer is an option (\<open>None\<close> is
  nil), since the code only tests it for nil and reads through it. The clock field is never
  used. The writes to \<open>ToReplicate\<close> are left out: nothing reads them. \<open>sort.Slice\<close> promises a
  sorted permutation only, so the sorting function is the argument \<open>sort_scores\<close>.
\<close>

record TopKScore =
  sc_Id :: int
  sc_Score :: int
  sc_Data :: "string option"

definition zero_score :: TopKScore where
  "zero_score = \<lparr>sc_Id = 0, sc_Score = 0, sc_Data = None\<rparr>"

record TopKCrdt =
  maxElems :: int
  smallestScore :: TopKScore
  elems :: "(int \<times> TopKScore) list"
  sortedElems :: "TopKScore list option"
  keepTiedEntries :: bool
  tiedElems :: "(int \<times> TopKScore) list option"

datatype topk_update = TopKAdd TopKScore | TopKAddAll "TopKScore list" | TopKInit int

datatype topk_op = DownstreamSimpleTopKAdd TopKScore | DownstreamSimpleTopKAddAll "TopKScore list"
  | DownTopKInit int | TopK_NoOp

datatype topk_effect =
    TopKAddEffect TopKScore
  | TopKReplaceEffect TopKScore TopKScore TopKScore
  | TopKReplaceAndCleanTiedEffect TopKScore TopKScore TopKScore "(int \<times> TopKScore) list option"
  | TopKReplaceAndTiedEffect TopKScore TopKScore TopKScore
  | TopKAddAllEffect "topk_effect effect list"

text \<open>The tie case of \<open>isHigherScore\<close> compares an id with a score.\<close>

definition isHigherScore :: "TopKScore \<Rightarrow> TopKScore \<Rightarrow> bool" where
  "isHigherScore score other =
     (if other = zero_score then True
      else if sc_Score score > sc_Score other then True
      else if sc_Score score = sc_Score other then sc_Id score > sc_Score other
      else False)"

definition isLowerScore :: "TopKScore \<Rightarrow> TopKScore \<Rightarrow> bool" where
  "isLowerScore score other =
     (if other = zero_score then True
      else if sc_Score score < sc_Score other then True
      else if sc_Score score = sc_Score other then sc_Id score < sc_Id other
      else False)"

text \<open>The size argument is not used.\<close>

definition TopK_InitializeWithSize :: "int \<Rightarrow> TopKCrdt" where
  "TopK_InitializeWithSize size' = \<lparr>maxElems = 100, smallestScore = zero_score, elems = [], sortedElems = None,
     keepTiedEntries = True, tiedElems = None\<rparr>"

definition TopK_Initialize :: TopKCrdt where
  "TopK_Initialize = TopK_InitializeWithSize 100"

definition TopK_IsBigCRDT :: "TopKCrdt \<Rightarrow> bool" where
  "TopK_IsBigCRDT c \<longleftrightarrow> maxElems c > 100 \<and> length (elems c) > 100"

section \<open>Reads\<close>

text \<open>Pending updates are not considered by any read.\<close>

definition tied_list :: "TopKCrdt \<Rightarrow> (int \<times> TopKScore) list" where
  "tied_list c = (case tiedElems c of None \<Rightarrow> [] | Some m \<Rightarrow> m)"

definition TopK_getState :: "TopKCrdt \<Rightarrow> TopKScore list" where
  "TopK_getState c =
     (if \<not> keepTiedEntries c then map snd (elems c)
      else map snd (elems c) @ map snd (tied_list c))"

definition TopK_getTopN :: "(TopKScore list \<Rightarrow> TopKScore list) \<Rightarrow> TopKCrdt \<Rightarrow> int \<Rightarrow> (TopKCrdt \<times> TopKScore list) go" where
  "TopK_getTopN sort_scores c numberEntries =
     (let c' = (if sortedElems c = None then c\<lparr>sortedElems := Some (sort_scores (TopK_getState c))\<rparr> else c);
          es = the (sortedElems c')
      in if numberEntries \<ge> int32 (int (length es)) then Inr (c', es)
         else if numberEntries < 0 then Inl IndexOutOfRange
         else Inr (c', take (nat numberEntries) es))"

text \<open>
  The result slice has one place per element of \<open>elems\<close>; tied elements are appended behind it
  and then cut off.
\<close>

primrec above_sorted :: "int \<Rightarrow> nat \<Rightarrow> TopKScore list \<Rightarrow> TopKScore list \<Rightarrow> TopKScore list go" where
  "above_sorted minValue n added [] = Inr added"
| "above_sorted minValue n added (e # es) =
     (if sc_Score e \<ge> minValue
      then if length added < n then above_sorted minValue n (added @ [e]) es else Inl IndexOutOfRange
      else Inr added)"

definition TopK_getTopKAboveValue :: "TopKCrdt \<Rightarrow> int \<Rightarrow> TopKScore list go" where
  "TopK_getTopKAboveValue c minValue =
     (case sortedElems c of
        Some es \<Rightarrow> above_sorted minValue (length (elems c)) [] es
      | None \<Rightarrow>
          (let added = filter (\<lambda>e. sc_Score e \<ge> minValue) (map snd (elems c));
               values = added @ replicate (length (elems c) - length added) zero_score
                 @ (if keepTiedEntries c \<and> sc_Score (smallestScore c) \<ge> minValue then map snd (tied_list c) else [])
           in Inr (take (length added) values)))"

datatype topk_read = TopKFullRead | GetTopNArguments int | GetTopKAboveValueArguments int

fun TopK_Read ::
    "(TopKScore list \<Rightarrow> TopKScore list) \<Rightarrow> TopKCrdt \<Rightarrow> topk_read \<Rightarrow> topk_update list \<Rightarrow> (TopKCrdt \<times> TopKScore list) go" where
  "TopK_Read sort_scores c TopKFullRead upds = Inr (c, TopK_getState c)"
| "TopK_Read sort_scores c (GetTopNArguments n) upds = TopK_getTopN sort_scores c n"
| "TopK_Read sort_scores c (GetTopKAboveValueArguments v) upds = gbind (TopK_getTopKAboveValue c v) (\<lambda>r. Inr (c, r))"

section \<open>Updates\<close>

definition belongs :: "TopKCrdt \<Rightarrow> TopKScore \<Rightarrow> bool" where
  "belongs c add =
     (case map_of (elems c) (sc_Id add) of
        Some e \<Rightarrow> sc_Score e < sc_Score add
      | None \<Rightarrow> int (length (elems c)) < maxElems c \<or> isHigherScore add (smallestScore c)
          \<or> sc_Score (smallestScore c) = sc_Score add \<and> keepTiedEntries c)"

definition getTopKAddDownstreamArgs :: "TopKCrdt \<Rightarrow> TopKScore \<Rightarrow> topk_op" where
  "getTopKAddDownstreamArgs c addOp = (if belongs c addOp then DownstreamSimpleTopKAdd addOp else TopK_NoOp)"

definition getTopKAddAllDownstreamArgs :: "TopKCrdt \<Rightarrow> TopKScore list \<Rightarrow> topk_op" where
  "getTopKAddAllDownstreamArgs c scores =
     (let downAdds = filter (belongs c) scores
      in if length downAdds = 0 then TopK_NoOp
         else if length downAdds = 1 then DownstreamSimpleTopKAdd (downAdds ! 0)
         else DownstreamSimpleTopKAddAll downAdds)"

fun TopK_Update :: "TopKCrdt \<Rightarrow> topk_update \<Rightarrow> topk_op" where
  "TopK_Update c (TopKAdd addOp) = getTopKAddDownstreamArgs c addOp"
| "TopK_Update c (TopKAddAll scores) = getTopKAddAllDownstreamArgs c scores"
| "TopK_Update c (TopKInit topSize) = DownTopKInit topSize"

definition addTiedElem :: "TopKCrdt \<Rightarrow> TopKScore \<Rightarrow> TopKCrdt" where
  "addTiedElem c score = c\<lparr>tiedElems := Some (mput (sc_Id score) score (tied_list c))\<rparr>"

primrec findMin :: "TopKScore \<Rightarrow> TopKScore list \<Rightarrow> TopKScore" where
  "findMin minSoFar [] = minSoFar"
| "findMin minSoFar (e # es) = findMin (if isLowerScore e minSoFar then e else minSoFar) es"

definition findAndUpdateMin :: "TopKCrdt \<Rightarrow> TopKCrdt" where
  "findAndUpdateMin c = c\<lparr>smallestScore := findMin zero_score (map snd (elems c))\<rparr>"

definition TopK_applyInit :: "TopKCrdt \<Rightarrow> int \<Rightarrow> TopKCrdt \<times> topk_effect effect" where
  "TopK_applyInit c topSize = (c\<lparr>maxElems := topSize\<rparr>, NoEffect)"

text \<open>
  The two first cases of an addition are the same for one and for several: an id that is in
  the top is replaced unless its score is higher, and while there is space the element is
  added.
\<close>

definition replace_elem :: "TopKCrdt \<Rightarrow> TopKScore \<Rightarrow> TopKScore \<Rightarrow> TopKCrdt \<times> topk_effect effect" where
  "replace_elem c add elem =
     (let c1 = c\<lparr>elems := mput (sc_Id add) add (elems c)\<rparr>
      in (if sc_Id (smallestScore c) = sc_Id add then findAndUpdateMin c1 else c1,
          Eff (TopKReplaceEffect add elem (smallestScore c))))"

definition add_with_space :: "TopKCrdt \<Rightarrow> TopKScore \<Rightarrow> TopKCrdt \<times> topk_effect effect" where
  "add_with_space c add =
     (let c1 = c\<lparr>elems := mput (sc_Id add) add (elems c)\<rparr>
      in if isLowerScore add (smallestScore c)
         then (c1\<lparr>smallestScore := add\<rparr>, Eff (TopKReplaceEffect add zero_score (smallestScore c)))
         else (c1, Eff (TopKAddEffect add)))"

text \<open>
  A full top and a higher element: \<open>applyAdd\<close> deletes the smallest one and then decides what
  becomes of the ties. The effects of the lower branch name the new smallest element.
\<close>

definition replace_min :: "TopKCrdt \<Rightarrow> TopKScore \<Rightarrow> TopKCrdt \<times> topk_effect effect" where
  "replace_min c add =
     (let oldMin = smallestScore c;
          c1 = c\<lparr>elems := mput (sc_Id add) add (AList.delete (sc_Id oldMin) (elems c))\<rparr>
      in if sc_Score add = sc_Score oldMin
         then if keepTiedEntries c
              then ((addTiedElem c1 oldMin)\<lparr>smallestScore := add\<rparr>, Eff (TopKReplaceAndTiedEffect add oldMin oldMin))
              else (c1\<lparr>smallestScore := add\<rparr>, Eff (TopKReplaceEffect add add add))
         else let c2 = findAndUpdateMin c1; newMin = smallestScore c2
              in if keepTiedEntries c \<and> sc_Score oldMin = sc_Score newMin
                 then (addTiedElem c2 oldMin, Eff (TopKReplaceAndTiedEffect add newMin newMin))
                 else if keepTiedEntries c
                 then (c2\<lparr>tiedElems := None\<rparr>, Eff (TopKReplaceAndCleanTiedEffect add newMin newMin (tiedElems c)))
                 else (c2, Eff (TopKReplaceEffect add newMin newMin)))"

definition TopK_applyAdd :: "TopKCrdt \<Rightarrow> TopKScore \<Rightarrow> TopKCrdt \<times> topk_effect effect" where
  "TopK_applyAdd c add =
     (case map_of (elems c) (sc_Id add) of
        Some elem \<Rightarrow> if sc_Score elem > sc_Score add then (c, NoEffect) else replace_elem c add elem
      | None \<Rightarrow>
          if int (length (elems c)) < maxElems c then add_with_space c add
          else if isHigherScore add (smallestScore c) then replace_min c add
          else if sc_Score (smallestScore c) = sc_Score add \<and> keepTiedEntries c
          then (addTiedElem c add, Eff (TopKAddEffect add))
          else (c, NoEffect))"

text \<open>
  In an addition of several elements a higher score drops all ties, and without ties no
  effect is stored for that element. \<open>None\<close> stands for an element that takes no place in the
  list of effects.
\<close>

definition replace_min_all :: "TopKCrdt \<Rightarrow> TopKScore \<Rightarrow> TopKCrdt \<times> topk_effect effect" where
  "replace_min_all c add =
     (let oldMin = smallestScore c;
          c1 = c\<lparr>elems := AList.delete (sc_Id oldMin) (mput (sc_Id add) add (elems c))\<rparr>
      in if sc_Score add = sc_Score oldMin
         then if keepTiedEntries c
              then ((addTiedElem c1 oldMin)\<lparr>smallestScore := add\<rparr>, Eff (TopKReplaceAndTiedEffect add oldMin oldMin))
              else (c1\<lparr>smallestScore := add\<rparr>, NilEffect)
         else if keepTiedEntries c
         then (findAndUpdateMin (c1\<lparr>tiedElems := None\<rparr>), Eff (TopKReplaceAndCleanTiedEffect add oldMin oldMin (tiedElems c)))
         else (findAndUpdateMin c1, NilEffect))"

definition applyAddAll_step :: "TopKCrdt \<Rightarrow> TopKScore \<Rightarrow> TopKCrdt \<times> topk_effect effect option" where
  "applyAddAll_step c add =
     (case map_of (elems c) (sc_Id add) of
        Some elem \<Rightarrow> if sc_Score elem > sc_Score add then (c, None) else map_prod id Some (replace_elem c add elem)
      | None \<Rightarrow>
          if int (length (elems c)) < maxElems c then map_prod id Some (add_with_space c add)
          else if isHigherScore add (smallestScore c) then map_prod id Some (replace_min_all c add)
          else if sc_Score (smallestScore c) = sc_Score add \<and> keepTiedEntries c
          then (addTiedElem c add, Some (Eff (TopKAddEffect add)))
          else (c, None))"

primrec applyAddAll_loop :: "TopKCrdt \<Rightarrow> TopKScore list \<Rightarrow> TopKCrdt \<times> topk_effect effect list" where
  "applyAddAll_loop c [] = (c, [])"
| "applyAddAll_loop c (add # adds) = (case applyAddAll_step c add of (c', e) \<Rightarrow>
     (case applyAddAll_loop c' adds of (c'', es) \<Rightarrow> (c'', case e of None \<Rightarrow> es | Some eff \<Rightarrow> eff # es)))"

definition TopK_applyAddAll :: "TopKCrdt \<Rightarrow> TopKScore list \<Rightarrow> TopKCrdt \<times> topk_effect effect" where
  "TopK_applyAddAll c adds = (case applyAddAll_loop c adds of (c', es) \<Rightarrow>
     (c', if es = [] then NoEffect else Eff (TopKAddAllEffect es)))"

text \<open>For any other argument the effect pointer stays nil.\<close>

fun TopK_applyDownstream :: "TopKCrdt \<Rightarrow> topk_op \<Rightarrow> TopKCrdt \<times> topk_effect effect option" where
  "TopK_applyDownstream c (DownstreamSimpleTopKAdd add) = map_prod id Some (TopK_applyAdd c add)"
| "TopK_applyDownstream c (DownstreamSimpleTopKAddAll adds) = map_prod id Some (TopK_applyAddAll c adds)"
| "TopK_applyDownstream c (DownTopKInit topSize) = map_prod id Some (TopK_applyInit c topSize)"
| "TopK_applyDownstream c TopK_NoOp = (c, None)"

definition TopK_Downstream ::
    "bool \<Rightarrow> (topk_op, topk_effect effect option) History list \<times> TopKCrdt \<Rightarrow> ClockSiTimestamp \<Rightarrow> topk_op
       \<Rightarrow> (topk_op, topk_effect effect option) History list \<times> TopKCrdt" where
  "TopK_Downstream vmDisabled c updTs downstreamArgs = (case c of (history, v) \<Rightarrow>
     (case TopK_applyDownstream v downstreamArgs of (v', effect) \<Rightarrow>
        (addToHistory vmDisabled history updTs downstreamArgs effect, v')))"

definition TopK_reapplyOp :: "TopKCrdt \<Rightarrow> topk_op \<Rightarrow> (TopKCrdt \<times> topk_effect effect option) go" where
  "TopK_reapplyOp c updArgs = Inr (TopK_applyDownstream c updArgs)"

section \<open>Copies and undoing\<close>

text \<open>The flag, the ties and the buffer are not copied.\<close>

definition TopK_Copy :: "TopKCrdt \<Rightarrow> TopKCrdt" where
  "TopK_Copy c = \<lparr>maxElems = maxElems c, smallestScore = smallestScore c, elems = elems c, sortedElems = None,
     keepTiedEntries = False, tiedElems = None\<rparr>"

definition TopK_undoAddEffect :: "TopKCrdt \<Rightarrow> TopKScore \<Rightarrow> TopKCrdt" where
  "TopK_undoAddEffect c e =
     (let c1 = c\<lparr>elems := AList.delete (sc_Id e) (elems c)\<rparr>
      in if sc_Score (smallestScore c) = sc_Score e \<and> keepTiedEntries c
         then c1\<lparr>tiedElems := map_option (AList.delete (sc_Id e)) (tiedElems c)\<rparr> else c1)"

definition TopK_undoReplaceEffect :: "TopKCrdt \<Rightarrow> TopKScore \<Rightarrow> TopKScore \<Rightarrow> TopKScore \<Rightarrow> TopKCrdt" where
  "TopK_undoReplaceEffect c newElem oldElem oldMin =
     (let es = AList.delete (sc_Id newElem) (elems c)
      in c\<lparr>elems := (if oldElem \<noteq> zero_score then mput (sc_Id oldElem) oldElem es else es), smallestScore := oldMin\<rparr>)"

definition TopK_undoReplaceAndTiedEffect :: "TopKCrdt \<Rightarrow> TopKScore \<Rightarrow> TopKScore \<Rightarrow> TopKScore \<Rightarrow> TopKCrdt" where
  "TopK_undoReplaceAndTiedEffect c newElem oldElem oldMin =
     c\<lparr>elems := mput (sc_Id oldElem) oldElem (AList.delete (sc_Id newElem) (elems c)),
       tiedElems := map_option (AList.delete (sc_Id oldMin)) (tiedElems c), smallestScore := oldMin\<rparr>"

definition TopK_undoReplaceAndCleanTiedEffect ::
    "TopKCrdt \<Rightarrow> TopKScore \<Rightarrow> TopKScore \<Rightarrow> TopKScore \<Rightarrow> (int \<times> TopKScore) list option \<Rightarrow> TopKCrdt" where
  "TopK_undoReplaceAndCleanTiedEffect c newElem oldElem oldMin oldTied =
     (TopK_undoReplaceEffect c newElem oldElem oldMin)\<lparr>tiedElems := oldTied\<rparr>"

function (sequential) TopK_undoEffect :: "TopKCrdt \<Rightarrow> topk_effect effect \<Rightarrow> TopKCrdt"
  and TopK_undoAddAllEffect :: "TopKCrdt \<Rightarrow> topk_effect effect list \<Rightarrow> TopKCrdt" where
  "TopK_undoEffect c (Eff (TopKAddEffect e)) = TopK_undoAddEffect c e"
| "TopK_undoEffect c (Eff (TopKReplaceEffect newElem oldElem oldMin)) = TopK_undoReplaceEffect c newElem oldElem oldMin"
| "TopK_undoEffect c (Eff (TopKReplaceAndTiedEffect newElem oldElem oldMin)) =
     TopK_undoReplaceAndTiedEffect c newElem oldElem oldMin"
| "TopK_undoEffect c (Eff (TopKReplaceAndCleanTiedEffect newElem oldElem oldMin oldTied)) =
     TopK_undoReplaceAndCleanTiedEffect c newElem oldElem oldMin oldTied"
| "TopK_undoEffect c (Eff (TopKAddAllEffect es)) = TopK_undoAddAllEffect c es"
| "TopK_undoEffect c NoEffect = c"
| "TopK_undoEffect c NilEffect = c"
| "TopK_undoAddAllEffect c [] = c"
| "TopK_undoAddAllEffect c (e # es) = TopK_undoAddAllEffect (TopK_undoEffect c e) es"
  by pat_completeness auto
termination
  by (relation "measure (case_sum (\<lambda>p. size_effect size (snd p)) (\<lambda>p. size_list (size_effect size) (snd p)))") auto

text \<open>Undoing what an unknown operation left dereferences a nil pointer.\<close>

definition TopK_undo :: "TopKCrdt \<Rightarrow> topk_effect effect option \<Rightarrow> TopKCrdt go" where
  "TopK_undo c e = (case e of None \<Rightarrow> Inl NilDereference | Some eff \<Rightarrow> Inr (TopK_undoEffect c eff))"

section \<open>Messages\<close>

text \<open>The fields of a score in a message. Reading a nil data pointer panics.\<close>

type_synonym ProtoTopKScore = "int \<times> int \<times> string"

definition score_msg :: "TopKScore \<Rightarrow> ProtoTopKScore go" where
  "score_msg s = (case sc_Data s of None \<Rightarrow> Inl NilDereference | Some d \<Rightarrow> Inr (sc_Id s, sc_Score s, d))"

definition msg_score :: "ProtoTopKScore \<Rightarrow> TopKScore" where
  "msg_score m = (case m of (i, s, d) \<Rightarrow> \<lparr>sc_Id = i, sc_Score = s, sc_Data = Some d\<rparr>)"

primrec score_msgs :: "TopKScore list \<Rightarrow> ProtoTopKScore list go" where
  "score_msgs [] = Inr []"
| "score_msgs (s # ss) = gbind (score_msg s) (\<lambda>m. gbind (score_msgs ss) (\<lambda>ms. Inr (m # ms)))"

datatype topk_msg = TopkOp "ProtoTopKScore list" | TopkinitOp int

fun TopK_ToReplicatorObj :: "topk_op \<Rightarrow> topk_msg go option" where
  "TopK_ToReplicatorObj (DownstreamSimpleTopKAdd add) = Some (gbind (score_msg add) (\<lambda>m. Inr (TopkOp [m])))"
| "TopK_ToReplicatorObj (DownstreamSimpleTopKAddAll adds) = Some (gbind (score_msgs adds) (\<lambda>ms. Inr (TopkOp ms)))"
| "TopK_ToReplicatorObj (DownTopKInit topSize) = Some (Inr (TopkinitOp topSize))"
| "TopK_ToReplicatorObj TopK_NoOp = None"

fun downstreamProtoTopKToAntidoteDownstream :: "topk_msg \<Rightarrow> topk_op" where
  "downstreamProtoTopKToAntidoteDownstream (TopkOp adds) =
     (if length adds = 1 then DownstreamSimpleTopKAdd (msg_score (adds ! 0))
      else DownstreamSimpleTopKAddAll (map msg_score adds))"
| "downstreamProtoTopKToAntidoteDownstream (TopkinitOp topSize) = DownTopKInit topSize"

text \<open>
  A client's additions. Nil data is sent as no data, which arrives as an empty slice.
\<close>

definition client_msg :: "TopKScore \<Rightarrow> ProtoTopKScore" where
  "client_msg s = (sc_Id s, sc_Score s, case sc_Data s of None \<Rightarrow> [] | Some d \<Rightarrow> d)"

fun TopK_ToUpdateObject :: "topk_update \<Rightarrow> topk_msg" where
  "TopK_ToUpdateObject (TopKAdd s) = TopkOp [client_msg s]"
| "TopK_ToUpdateObject (TopKAddAll ss) = TopkOp (map client_msg ss)"
| "TopK_ToUpdateObject (TopKInit topSize) = TopkinitOp topSize"

fun updateTopkProtoToAntidoteUpdate :: "topk_msg \<Rightarrow> topk_update" where
  "updateTopkProtoToAntidoteUpdate (TopkinitOp topSize) = TopKInit topSize"
| "updateTopkProtoToAntidoteUpdate (TopkOp adds) =
     (if length adds = 1 then TopKAdd (msg_score (adds ! 0)) else TopKAddAll (map msg_score adds))"

text \<open>
  The snapshot. The messages point to the id and the score of the loop variable, which is one
  variable for all iterations: they all read what the last iteration left. Only the first
  place of the list of ties is filled; the other messages are nil.
\<close>

record ProtoTopKState =
  pt_Elems :: "ProtoTopKScore list"
  pt_MaxElems :: int
  pt_KeepTiedEntries :: bool
  pt_Tied :: "ProtoTopKScore option list"
  pt_Smallest :: ProtoTopKScore

definition loop_msgs :: "TopKScore list \<Rightarrow> ProtoTopKScore list go" where
  "loop_msgs ss = gbind (score_msgs ss) (\<lambda>ms.
     Inr (map (\<lambda>m. (sc_Id (last ss), sc_Score (last ss), snd (snd m))) ms))"

definition TopK_ToProtoState :: "TopKCrdt \<Rightarrow> ProtoTopKState go" where
  "TopK_ToProtoState c =
     gbind (loop_msgs (map snd (elems c))) (\<lambda>protoElems.
     gbind (if keepTiedEntries c \<and> length (tied_list c) > 0
            then gbind (loop_msgs (map snd (tied_list c)))
                   (\<lambda>ms. Inr (Some (last ms) # replicate (length (tied_list c) - 1) None))
            else Inr []) (\<lambda>tied.
     gbind (score_msg (smallestScore c)) (\<lambda>smallest.
       Inr \<lparr>pt_Elems = protoElems, pt_MaxElems = int32 (maxElems c), pt_KeepTiedEntries = keepTiedEntries c,
            pt_Tied = tied, pt_Smallest = smallest\<rparr>)))"

text \<open>The getters of a nil message return zero values.\<close>

definition nil_msg_score :: "ProtoTopKScore option \<Rightarrow> TopKScore" where
  "nil_msg_score m = msg_score (case m of None \<Rightarrow> (0, 0, []) | Some m \<Rightarrow> m)"

definition TopK_FromProtoState :: "ProtoTopKState \<Rightarrow> TopKCrdt" where
  "TopK_FromProtoState pb =
     \<lparr>maxElems = pt_MaxElems pb, smallestScore = msg_score (pt_Smallest pb),
      elems = foldl (\<lambda>m s. mput (sc_Id s) s m) [] (map msg_score (pt_Elems pb)), sortedElems = None,
      keepTiedEntries = pt_KeepTiedEntries pb,
      tiedElems = (if pt_KeepTiedEntries pb \<and> pt_Tied pb \<noteq> []
        then Some (foldl (\<lambda>m s. mput (sc_Id s) s m) [] (map nil_msg_score (pt_Tied pb))) else None)\<rparr>"

section \<open>Maps keyed by the id\<close>

definition keyed :: "(int \<times> TopKScore) list \<Rightarrow> bool" where
  "keyed m \<longleftrightarrow> wf_map m \<and> (\<forall>p \<in> set m. sc_Id (snd p) = fst p)"

lemma keyed_Nil [simp]: "keyed []"
  by (simp add: keyed_def)








section \<open>What the top contains\<close>









text \<open>One addition of a new id keeps the invariant, case by case.\<close>

lemma tied_list_update [simp]:
  "tied_list (c\<lparr>elems := m\<rparr>) = tied_list c" "tied_list (c\<lparr>smallestScore := s\<rparr>) = tied_list c"
  "tied_list (c\<lparr>tiedElems := None\<rparr>) = []" "tied_list (c\<lparr>tiedElems := Some m\<rparr>) = m"
  by (simp_all add: tied_list_def)







text \<open>The top of size \<open>k\<close> after additions, each delivered on its own.\<close>

definition top_of :: "nat \<Rightarrow> TopKCrdt" where
  "top_of k = fst (TopK_applyDownstream TopK_Initialize (DownTopKInit (int k)))"

definition add_all :: "TopKCrdt \<Rightarrow> TopKScore list \<Rightarrow> TopKCrdt" where
  "add_all c us = foldl (\<lambda>c s. fst (TopK_applyDownstream c (DownstreamSimpleTopKAdd s))) c us"






text \<open>Elements of the examples: id, score and one byte of data.\<close>

definition el :: "int \<Rightarrow> int \<Rightarrow> TopKScore" where
  "el i s = \<lparr>sc_Id = i, sc_Score = s, sc_Data = Some [CHR ''d'']\<rparr>"


section \<open>The buffer of sorted elements\<close>

lemma findAndUpdateMin_buffer [simp]: "sortedElems (findAndUpdateMin c) = sortedElems c"
  by (simp add: findAndUpdateMin_def)

lemma addTiedElem_buffer [simp]: "sortedElems (addTiedElem c s) = sortedElems c"
  by (simp add: addTiedElem_def)

lemma cases_buffer [simp]:
  "sortedElems (fst (replace_elem c s e)) = sortedElems c" "sortedElems (fst (add_with_space c s)) = sortedElems c"
  "sortedElems (fst (replace_min c s)) = sortedElems c" "sortedElems (fst (replace_min_all c s)) = sortedElems c"
  by (simp_all add: replace_elem_def add_with_space_def replace_min_def replace_min_all_def Let_def)

lemma applyAdd_buffer: "sortedElems (fst (TopK_applyAdd c s)) = sortedElems c"
  by (simp add: TopK_applyAdd_def split: option.split)

lemma addAll_step_buffer: "sortedElems (fst (applyAddAll_step c s)) = sortedElems c"
  by (simp add: applyAddAll_step_def split: option.split)

lemma addAll_loop_buffer: "sortedElems (fst (applyAddAll_loop c ss)) = sortedElems c"
proof (induction ss arbitrary: c)
  case (Cons s ss)
  have "sortedElems (fst (applyAddAll_step c s)) = sortedElems c" by (rule addAll_step_buffer)
  with Cons show ?case by (auto split: prod.split) (metis fst_conv)
qed simp

lemma downstream_buffer: "sortedElems (fst (TopK_applyDownstream c u)) = sortedElems c"
  by (cases u) (auto simp: applyAdd_buffer TopK_applyAddAll_def TopK_applyInit_def addAll_loop_buffer
      split: prod.split, metis addAll_loop_buffer fst_conv)

text \<open>
  The buffer of sorted elements is never reset. Once a top-n read has filled it, top-n
  reads return the same entries whatever is added later; and since it holds the ties too, a
  read above a value that they reach panics, while without the buffer that read leaves the
  ties out.
\<close>

theorem TopK_stale_buffer:
  assumes "TopK_getTopN sort_scores c n = Inr (c1, r)" and "0 \<le> m"
  shows "map_sum id snd (TopK_getTopN sort_scores (foldl (\<lambda>c u. fst (TopK_applyDownstream c u)) c1 us) m)
      = map_sum id snd (TopK_getTopN sort_scores c1 m)
    \<and> TopK_getTopKAboveValue ((add_all (top_of 1) [el 1 5, el 2 5])\<lparr>sortedElems := Some [el 1 5, el 2 5]\<rparr>) 5 = Inl IndexOutOfRange
    \<and> TopK_getTopKAboveValue (add_all (top_of 1) [el 1 5, el 2 5]) 5 = Inr [el 1 5]"
proof (intro conjI)
  from assms(1) have s: "sortedElems c1 \<noteq> None" by (auto simp: TopK_getTopN_def Let_def split: if_splits)
  have "sortedElems (foldl (\<lambda>c u. fst (TopK_applyDownstream c u)) c1 us) = sortedElems c1"
    by (induction us rule: rev_induct) (simp_all add: downstream_buffer)
  with s show "map_sum id snd (TopK_getTopN sort_scores (foldl (\<lambda>c u. fst (TopK_applyDownstream c u)) c1 us) m)
      = map_sum id snd (TopK_getTopN sort_scores c1 m)"
    by (auto simp: TopK_getTopN_def Let_def)
qed (code_simp, code_simp)

theorem TopK_stale_buffer_witness:
  "\<exists>c1. TopK_getTopN id (add_all (top_of 2) [el 1 5]) 2 = Inr (c1, [el 1 5])
     \<and> map_sum id snd (TopK_getTopN id (fst (TopK_applyDownstream c1 (DownstreamSimpleTopKAdd (el 2 9)))) 2) = Inr [el 1 5]"
proof -
  let ?c = "add_all (top_of 2) [el 1 5]"
  let ?c1 = "?c\<lparr>sortedElems := Some [el 1 5]\<rparr>"
  have g: "TopK_getTopN id ?c 2 = Inr (?c1, [el 1 5])" by code_simp
  have h: "map_sum id snd (TopK_getTopN id ?c1 2) = Inr [el 1 5]" by code_simp
  from TopK_stale_buffer [OF g, of 2 "[DownstreamSimpleTopKAdd (el 2 9)]"] h g show ?thesis by auto
qed

section \<open>Ties, undoing, copies and snapshots\<close>

lemma score_msgs_map: "score_msgs ss = Inr ms \<Longrightarrow> ms = map (\<lambda>s. (sc_Id s, sc_Score s, the (sc_Data s))) ss"
  by (induction ss arbitrary: ms) (auto simp: gbind_eq_Inr score_msg_def split: option.splits)

lemma foldl_one_key: "\<forall>s \<in> set ss. sc_Id s = i \<Longrightarrow> fst ` set m \<subseteq> {i} \<Longrightarrow>
    fst ` set (foldl (\<lambda>m s. mput (sc_Id s) s m) m ss) \<subseteq> {i}"
  by (induction ss arbitrary: m) (auto simp: keys_mput)

text \<open>
  What goes wrong around the top. A snapshot names the id of the last element for all of
  them, so a top restored from it holds at most one element; an empty top cannot be put in a
  snapshot, and a local addition without data cannot be replicated: both panic. An addition of
  several elements forgets ties that single additions keep; undoing an addition that displaced
  the smallest element does not bring that element back; and a copy forgets the ties.
\<close>

theorem TopK_snapshot_and_ties:
  assumes "TopK_ToProtoState c = Inr pb" and "belongs c s" and "sc_Data s = None"
  shows "fst ` set (elems (TopK_FromProtoState pb)) \<subseteq> {sc_Id (snd (last (elems c)))}
    \<and> TopK_ToReplicatorObj (TopK_Update c (TopKAdd s)) = Some (Inl NilDereference)
    \<and> TopK_ToProtoState TopK_Initialize = Inl NilDereference
    \<and> TopK_getState (fst (TopK_applyDownstream (add_all (top_of 2) [el 1 5, el 2 5]) (DownstreamSimpleTopKAdd (el 3 7))))
        = [el 2 5, el 3 7, el 1 5]
    \<and> TopK_getState (fst (TopK_applyDownstream (add_all (top_of 2) [el 1 5, el 2 5]) (DownstreamSimpleTopKAddAll [el 3 7, el 4 1])))
        = [el 2 5, el 3 7]
    \<and> (case TopK_applyDownstream (add_all (top_of 2) [el 1 5, el 2 6]) (DownstreamSimpleTopKAdd (el 3 7)) of
         (d, e) \<Rightarrow> map_sum id TopK_getState (TopK_undo d e) = Inr [el 2 6])
    \<and> TopK_getState (TopK_Copy (add_all (top_of 1) [el 1 5, el 2 5])) = [el 1 5]"
proof (intro conjI)
  let ?l = "snd (last (elems c))"
  have "fst ` set (foldl (\<lambda>m s. mput (sc_Id s) s m) [] (map msg_score (pt_Elems pb))) \<subseteq> {sc_Id ?l}"
  proof (rule foldl_one_key)
    from assms(1) obtain ms where "loop_msgs (map snd (elems c)) = Inr ms" "pt_Elems pb = ms"
      by (auto simp: TopK_ToProtoState_def gbind_eq_Inr)
    then obtain ms' where "pt_Elems pb = map (\<lambda>m. (sc_Id (last (map snd (elems c))), sc_Score (last (map snd (elems c))), snd (snd m))) ms'"
      "score_msgs (map snd (elems c)) = Inr ms'"
      unfolding loop_msgs_def gbind_eq_Inr by (metis Inr_inject)
    then show "\<forall>s \<in> set (map msg_score (pt_Elems pb)). sc_Id s = sc_Id ?l"
      by (cases "elems c = []") (auto simp: msg_score_def last_map)
  qed simp
  then show "fst ` set (elems (TopK_FromProtoState pb)) \<subseteq> {sc_Id ?l}" by (simp add: TopK_FromProtoState_def)
  show "TopK_ToReplicatorObj (TopK_Update c (TopKAdd s)) = Some (Inl NilDereference)"
    using assms(2,3) by (simp add: getTopKAddDownstreamArgs_def score_msg_def)
qed (code_simp+)

theorem TopK_snapshot_and_ties_witness:
  "map_sum id (\<lambda>pb. fst ` set (elems (TopK_FromProtoState pb))) (TopK_ToProtoState (add_all (top_of 3) [el 1 5, el 2 6])) = Inr {2}"
proof -
  let ?c = "add_all (top_of 3) [el 1 5, el 2 6]"
  let ?pb = "\<lparr>pt_Elems = [(2, 6, [CHR ''d'']), (2, 6, [CHR ''d''])], pt_MaxElems = 3, pt_KeepTiedEntries = True,
    pt_Tied = [], pt_Smallest = (1, 5, [CHR ''d''])\<rparr>"
  have p: "TopK_ToProtoState ?c = Inr ?pb" by code_simp
  have b: "belongs ?c \<lparr>sc_Id = 9, sc_Score = 9, sc_Data = None\<rparr>" by code_simp
  have e: "elems ?c = [(1, el 1 5), (2, el 2 6)]" by code_simp
  have "elems (TopK_FromProtoState ?pb) \<noteq> []" by code_simp
  moreover have "fst ` set (elems (TopK_FromProtoState ?pb)) \<subseteq> {2}"
    using TopK_snapshot_and_ties [OF p b, THEN conjunct1] e by (simp add: el_def)
  ultimately have "fst ` set (elems (TopK_FromProtoState ?pb)) = {2}" by (simp add: subset_singleton_iff)
  with p show ?thesis by simp
qed

end
