(* ===== verification/TopSum.thy ===== *)
theory TopSum
  imports TopK
begin

text \<open>
  The top-sum of \<^verbatim>\<open>crdt/crdt/topSum.go\<close>: elements with a sum each, the \<open>maxElems\<close> highest of them in
  the top. Additions to an element outside the top are kept back in \<open>notPropagated\<close> until they
  may matter for the top of another replica. The operations on one element are modelled, with
  their effects, the reads and the messages; those on several elements at once, copies and the
  undoing of effects are not.

  The maps hold pointers. The pointers of the three maps are never shared; \<open>smallestScore\<close> either
  is the pointer of an element of the top (\<open>InTop\<close>), and sees its changes, or a score of its own
  (\<open>Own\<close>). An operation is passed by value: what \<open>applyTopSAddDownstreamArgs\<close> writes to its
  fields is lost, only the flag \<open>replicate\<close> is behind a pointer. It is the third component of a
  result; the last is the operation for other replicas, if any.
\<close>

datatype smallest = InTop int | Own TopKScore

record TopSumCrdt =
  ts_maxElems :: int
  ts_smallest :: "smallest option"
  ts_elems :: "(int \<times> TopKScore) list"
  notInTop :: "(int \<times> TopKScore) list"
  notPropagated :: "(int \<times> TopKScore) list"
  ts_replicaID :: int
  ts_sortedElems :: "TopKScore list option"

datatype topsum_update = TopSAdd TopKScore | TopSSub TopKScore | TopSInit int

datatype topsum_op = DownstreamTopSAdd TopKScore int | DownstreamTopSSub TopKScore | DownTopSInit int

datatype topsum_effect =
    TopSumAddEffect TopKScore int TopKScore
  | TopSumAddNotTopEffect TopKScore int
  | TopSumAddReplaceEffect TopKScore int TopKScore
  | TopSumSubReplaceEffect TopKScore int TopKScore TopKScore
  | TopSum_NoEffect

text \<open>The tie case compares an identifier with a score.\<close>

definition isHigher :: "TopKScore \<Rightarrow> TopKScore \<Rightarrow> bool" where
  "isHigher score other \<longleftrightarrow> sc_Score score > sc_Score other \<or> sc_Score score = sc_Score other \<and> sc_Id score > sc_Score other"

definition TopSum_InitializeWithSize :: "int \<Rightarrow> int \<Rightarrow> TopSumCrdt" where
  "TopSum_InitializeWithSize replicaID size' = \<lparr>ts_maxElems = size', ts_smallest = None, ts_elems = [], notInTop = [], notPropagated = [],
     ts_replicaID = replicaID, ts_sortedElems = None\<rparr>"

definition TopSum_Initialize :: "int \<Rightarrow> TopSumCrdt" where
  "TopSum_Initialize replicaID = TopSum_InitializeWithSize replicaID 100"

definition TopSum_IsBigCRDT :: "TopSumCrdt \<Rightarrow> bool" where
  "TopSum_IsBigCRDT c \<longleftrightarrow> ts_maxElems c > 100 \<and> length (ts_elems c) > 100"

definition MaxInt32 :: int where
  "MaxInt32 = 2 ^ 31 - 1"

definition MinScore :: int where
  "MinScore = - (2 ^ 31)"

section \<open>Reads\<close>

definition TopSum_getState :: "TopSumCrdt \<Rightarrow> TopKScore list" where
  "TopSum_getState c = map snd (ts_elems c)"

definition TopSum_getTopN :: "(TopKScore list \<Rightarrow> TopKScore list) \<Rightarrow> TopSumCrdt \<Rightarrow> int \<Rightarrow> (TopSumCrdt \<times> TopKScore list) go" where
  "TopSum_getTopN sort_scores c numberEntries =
     (let c' = (if ts_sortedElems c = None then c\<lparr>ts_sortedElems := Some (sort_scores (TopSum_getState c))\<rparr> else c);
          es = the (ts_sortedElems c')
      in if numberEntries \<ge> int32 (int (length es)) then Inr (c', es)
         else if numberEntries < 0 then Inl IndexOutOfRange
         else Inr (c', take (nat numberEntries) es))"

definition getTopSAboveValue :: "TopSumCrdt \<Rightarrow> int \<Rightarrow> TopKScore list go" where
  "getTopSAboveValue c minValue =
     (case ts_sortedElems c of
        Some es \<Rightarrow> above_sorted minValue (length (ts_elems c)) [] es
      | None \<Rightarrow> Inr (filter (\<lambda>e. sc_Score e \<ge> minValue) (map snd (ts_elems c))))"

fun TopSum_Read :: "(TopKScore list \<Rightarrow> TopKScore list) \<Rightarrow> TopSumCrdt \<Rightarrow> topk_read \<Rightarrow> (TopSumCrdt \<times> TopKScore list) go" where
  "TopSum_Read sort_scores c TopKFullRead = Inr (c, TopSum_getState c)"
| "TopSum_Read sort_scores c (GetTopNArguments n) = TopSum_getTopN sort_scores c n"
| "TopSum_Read sort_scores c (GetTopKAboveValueArguments v) = gbind (getTopSAboveValue c v) (\<lambda>r. Inr (c, r))"

section \<open>Updates\<close>

definition sum_with_data :: "TopKScore \<Rightarrow> TopKScore" where
  "sum_with_data s = (if sc_Data s = None then s\<lparr>sc_Data := Some []\<rparr> else s)"

fun TopSum_Update :: "TopSumCrdt \<Rightarrow> topsum_update \<Rightarrow> topsum_op" where
  "TopSum_Update c (TopSAdd s) = DownstreamTopSAdd (sum_with_data s) (ts_replicaID c)"
| "TopSum_Update c (TopSSub s) = DownstreamTopSSub (sum_with_data s)"
| "TopSum_Update c (TopSInit size') = DownTopSInit size'"

definition smallest_score :: "TopSumCrdt \<Rightarrow> TopKScore" where
  "smallest_score c = (case ts_smallest c of Some (Own s) \<Rightarrow> s | Some (InTop i) \<Rightarrow> the (map_of (ts_elems c) i) | None \<Rightarrow> zero_score)"

definition min_of :: "TopKScore list \<Rightarrow> TopKScore" where
  "min_of es = foldl (\<lambda>minSoFar e. if isHigher minSoFar e then e else minSoFar) \<lparr>sc_Id = MaxInt32, sc_Score = MaxInt32, sc_Data = None\<rparr> es"

definition TopSum_findAndUpdateMin :: "TopSumCrdt \<Rightarrow> TopSumCrdt" where
  "TopSum_findAndUpdateMin c = c\<lparr>ts_smallest := Some (Own (min_of (map snd (ts_elems c))))\<rparr>"

definition shouldReplicate :: "int \<Rightarrow> TopSumCrdt \<Rightarrow> int \<Rightarrow> int \<Rightarrow> bool" where
  "shouldReplicate NReplicas c existing notReplicated \<longleftrightarrow> int32 (notReplicated * NReplicas) > int32 (sc_Score (smallest_score c) - existing)"

definition plus_score :: "TopKScore \<Rightarrow> int \<Rightarrow> TopKScore" where
  "plus_score e n = e\<lparr>sc_Score := int32 (sc_Score e + n)\<rparr>"

definition move_smallest_out :: "TopSumCrdt \<Rightarrow> TopSumCrdt" where
  "move_smallest_out c = (let s = smallest_score c in
     c\<lparr>notInTop := mput (sc_Id s) s (notInTop c), ts_elems := AList.delete (sc_Id s) (ts_elems c)\<rparr>)"

text \<open>A score in the top that was not there before; the first one has no smallest score to compare with.\<close>

definition add_first :: "TopSumCrdt \<Rightarrow> TopKScore \<Rightarrow> TopSumCrdt \<times> topsum_effect" where
  "add_first c s = (c\<lparr>ts_elems := mput (sc_Id s) s (ts_elems c), ts_smallest := Some (InTop (sc_Id s))\<rparr>, TopSumAddEffect s MinScore zero_score)"

definition add_to_space :: "TopSumCrdt \<Rightarrow> TopKScore \<Rightarrow> TopSumCrdt \<times> topsum_effect" where
  "add_to_space c s =
     (let c' = c\<lparr>ts_elems := mput (sc_Id s) s (ts_elems c)\<rparr>
      in if isHigher (smallest_score c) s then (c'\<lparr>ts_smallest := Some (InTop (sc_Id s))\<rparr>, TopSumAddEffect s MinScore (smallest_score c))
         else (c', TopSumAddEffect s MinScore zero_score))"

text \<open>\<open>len(*op.Data)\<close> is evaluated when additions that were kept back join the operation.\<close>

definition apply_known_outside :: "int \<Rightarrow> TopSumCrdt \<Rightarrow> TopKScore \<Rightarrow> bool \<Rightarrow> TopKScore
    \<Rightarrow> (TopSumCrdt \<times> topsum_effect \<times> bool \<times> topsum_op option) go" where
  "apply_known_outside NReplicas c op remote entry0 =
     (let i = sc_Id op; entry = plus_score entry0 (sc_Score op); c1 = c\<lparr>notInTop := mput i entry (notInTop c)\<rparr>;
          own = (\<lambda>s. DownstreamTopSAdd (s\<lparr>sc_Id := i\<rparr>) (ts_replicaID c))
      in if isHigher entry (smallest_score c1)
         then let e = TopSumAddReplaceEffect entry (sc_Score entry0) (smallest_score c1);
                  c2 = move_smallest_out c1;
                  c3 = TopSum_findAndUpdateMin (c2\<lparr>notInTop := AList.delete i (notInTop c2), ts_elems := mput i entry (ts_elems c2)\<rparr>)
              in (case map_of (notPropagated c) i of
                    None \<Rightarrow> Inr (c3, e, True, None)
                  | Some np \<Rightarrow>
                      if sc_Data op = None then Inl NilDereference
                      else let c4 = c3\<lparr>notPropagated := AList.delete i (notPropagated c)\<rparr>
                           in if remote then Inr (c4, e, False, Some (own np)) else Inr (c4, e, True, None))
         else let e = TopSumAddNotTopEffect entry (sc_Score entry0)
              in (case map_of (notPropagated c) i of
                    None \<Rightarrow>
                      if shouldReplicate NReplicas c1 (sc_Score entry) (sc_Score op)
                      then if sc_Data op = None then Inl NilDereference else Inr (c1, e, True, None)
                      else Inr (c1\<lparr>notPropagated := mput i op (notPropagated c)\<rparr>, e, False, None)
                  | Some np \<Rightarrow>
                      if remote
                      then Inr (c1, e, False, if shouldReplicate NReplicas c1 (sc_Score entry) (sc_Score np) then Some (own np) else None)
                      else let np' = plus_score np (sc_Score op)
                           in if shouldReplicate NReplicas c1 (sc_Score entry) (sc_Score np')
                              then if sc_Data op = None then Inl NilDereference
                                   else Inr (c1\<lparr>notPropagated := AList.delete i (notPropagated c)\<rparr>, e, True, None)
                              else Inr (c1\<lparr>notPropagated := mput i np' (notPropagated c)\<rparr>, e, False, None)))"

definition apply_new_outside :: "int \<Rightarrow> TopSumCrdt \<Rightarrow> TopKScore \<Rightarrow> TopSumCrdt \<times> topsum_effect \<times> bool \<times> topsum_op option" where
  "apply_new_outside NReplicas c op =
     (if isHigher op (smallest_score c)
      then (let c2 = move_smallest_out c
            in (TopSum_findAndUpdateMin (c2\<lparr>ts_elems := mput (sc_Id op) op (ts_elems c2)\<rparr>), TopSumAddReplaceEffect op MinScore (smallest_score c), True, None))
      else let c1 = c\<lparr>notInTop := mput (sc_Id op) op (notInTop c)\<rparr>; e = TopSumAddNotTopEffect op MinScore
           in if shouldReplicate NReplicas c1 0 (sc_Score op) then (c1, e, True, None)
              else (c1\<lparr>notPropagated := mput (sc_Id op) op (notPropagated c)\<rparr>, e, False, None))"

definition applyTopSAddDownstreamArgs :: "int \<Rightarrow> TopSumCrdt \<Rightarrow> TopKScore \<Rightarrow> int
    \<Rightarrow> (TopSumCrdt \<times> topsum_effect \<times> bool \<times> topsum_op option) go" where
  "applyTopSAddDownstreamArgs NReplicas c op srcReplicaID =
     (if ts_elems c = [] then Inr (case add_first c op of (c', e) \<Rightarrow> (c', e, True, None))
      else case map_of (ts_elems c) (sc_Id op) of
        Some entry \<Rightarrow>
          let c1 = c\<lparr>ts_elems := mput (sc_Id op) (plus_score entry (sc_Score op)) (ts_elems c)\<rparr>
          in Inr (if sc_Id (smallest_score c1) = sc_Id entry then TopSum_findAndUpdateMin c1 else c1, TopSumAddEffect op (sc_Score entry) zero_score, True, None)
      | None \<Rightarrow>
          if int (length (ts_elems c)) < ts_maxElems c then Inr (case add_to_space c op of (c', e) \<Rightarrow> (c', e, True, None))
          else case map_of (notInTop c) (sc_Id op) of
            Some entry \<Rightarrow> apply_known_outside NReplicas c op (srcReplicaID \<noteq> ts_replicaID c) entry
          | None \<Rightarrow> Inr (apply_new_outside NReplicas c op))"

definition max_of :: "TopKScore list \<Rightarrow> TopKScore" where
  "max_of es = foldl (\<lambda>newMin e. if isHigher e newMin then e else newMin) \<lparr>sc_Id = MinScore, sc_Score = MinScore, sc_Data = None\<rparr> es"

text \<open>In the last case but one the old smallest score is stored under the identifier of the new element.\<close>

definition applyTopSSubDownstreamArgs :: "TopSumCrdt \<Rightarrow> TopKScore \<Rightarrow> TopSumCrdt \<times> topsum_effect \<times> bool" where
  "applyTopSSubDownstreamArgs c op =
     (let i = sc_Id op
      in if ts_elems c = [] then (case add_first c op of (c', e) \<Rightarrow> (c', e, True))
         else case map_of (ts_elems c) i of
           Some entry0 \<Rightarrow>
             let entry = plus_score entry0 (sc_Score op); c1 = c\<lparr>ts_elems := mput i entry (ts_elems c)\<rparr>
             in if isHigher (smallest_score c1) entry
                then if notInTop c = []
                     then (c1\<lparr>ts_smallest := Some (InTop i)\<rparr>, TopSumAddEffect entry (sc_Score entry0) (smallest_score c1), True)
                     else let newMin = max_of (map snd (notInTop c));
                              notTop = mput i entry (AList.delete (sc_Id newMin) (notInTop c));
                              tops = mput (sc_Id newMin) newMin (AList.delete i (ts_elems c1))
                          in (c1\<lparr>ts_elems := tops, notInTop := notTop, ts_smallest := Some (InTop (sc_Id newMin))\<rparr>,
                              TopSumSubReplaceEffect entry (sc_Score entry0) newMin (smallest_score c1), True)
                else (c1, TopSum_NoEffect, True)
         | None \<Rightarrow>
             if int (length (ts_elems c)) < ts_maxElems c then (case add_to_space c op of (c', e) \<Rightarrow> (c', e, True))
             else case map_of (notInTop c) i of
               Some entry0 \<Rightarrow>
                 (c\<lparr>notInTop := mput i (plus_score entry0 (sc_Score op)) (notInTop c),
                    notPropagated := mput i (case map_of (notPropagated c) i of None \<Rightarrow> op | Some np \<Rightarrow> plus_score np (sc_Score op)) (notPropagated c)\<rparr>,
                  TopSum_NoEffect, False)
             | None \<Rightarrow>
                 if isHigher op (smallest_score c)
                 then (TopSum_findAndUpdateMin (c\<lparr>ts_elems := AList.delete (sc_Id (smallest_score c)) (mput i op (ts_elems c)),
                          notInTop := mput i (smallest_score c) (notInTop c)\<rparr>), TopSumAddReplaceEffect op MinScore (smallest_score c), True)
                 else (c\<lparr>notInTop := mput i op (notInTop c), notPropagated := mput i op (notPropagated c)\<rparr>, TopSumAddNotTopEffect op MinScore, False))"

fun TopSum_applyDownstream :: "int \<Rightarrow> TopSumCrdt \<Rightarrow> topsum_op \<Rightarrow> (TopSumCrdt \<times> topsum_effect \<times> bool \<times> topsum_op option) go" where
  "TopSum_applyDownstream NReplicas c (DownstreamTopSAdd op src) = applyTopSAddDownstreamArgs NReplicas c op src"
| "TopSum_applyDownstream NReplicas c (DownstreamTopSSub op) = (case applyTopSSubDownstreamArgs c op of (c', e, must) \<Rightarrow> Inr (c', e, must, None))"
| "TopSum_applyDownstream NReplicas c (DownTopSInit size') = Inr (c\<lparr>ts_maxElems := size'\<rparr>, TopSum_NoEffect, True, None)"

section \<open>Messages\<close>

text \<open>The replica an addition comes from is not sent; the receiver sets it to the lowest \<open>int16\<close>.\<close>

record ProtoTopSum =
  p_elem :: TopKScore
  p_IsPositive :: bool

fun TopSum_ToReplicatorObj :: "topsum_op \<Rightarrow> (ProtoTopSum + int) go" where
  "TopSum_ToReplicatorObj (DownstreamTopSAdd s src) = (if sc_Data s = None then Inl NilDereference else Inr (Inl \<lparr>p_elem = s, p_IsPositive = True\<rparr>))"
| "TopSum_ToReplicatorObj (DownstreamTopSSub s) = (if sc_Data s = None then Inl NilDereference else Inr (Inl \<lparr>p_elem = s, p_IsPositive = False\<rparr>))"
| "TopSum_ToReplicatorObj (DownTopSInit n) = Inr (Inr n)"

fun TopSum_FromReplicatorObj :: "ProtoTopSum + int \<Rightarrow> topsum_op" where
  "TopSum_FromReplicatorObj (Inl p) = (if p_IsPositive p then DownstreamTopSAdd (p_elem p) (- (2 ^ 15)) else DownstreamTopSSub (p_elem p))"
| "TopSum_FromReplicatorObj (Inr n) = DownTopSInit n"

section \<open>Sums\<close>

text \<open>The sum of the additions to an element.\<close>

definition total :: "TopKScore list \<Rightarrow> int \<Rightarrow> int" where
  "total us i = sum_list (map sc_Score (filter (\<lambda>u. sc_Id u = i) us))"

lemma total_snoc: "total (us @ [u]) i = total us i + (if sc_Id u = i then sc_Score u else 0)"
  by (simp add: total_def)

lemma total_le:
  assumes "\<forall>u \<in> set us. 0 \<le> sc_Score u"
  shows "0 \<le> total us i" and "total us i \<le> sum_list (map sc_Score us)"
  using assms by (induction us) (auto simp: total_def)

definition sums_ok :: "TopKScore list \<Rightarrow> TopSumCrdt \<Rightarrow> bool" where
  "sums_ok us c \<longleftrightarrow> wf_map (ts_elems c) \<and> wf_map (notInTop c)
     \<and> (\<forall>i e. map_of (ts_elems c) i = Some e \<longrightarrow> sc_Id e = i \<and> sc_Score e = total us i \<and> map_of (notInTop c) i = None)
     \<and> (\<forall>i e. map_of (notInTop c) i = Some e \<longrightarrow> sc_Id e = i \<and> sc_Score e = total us i)
     \<and> (\<forall>u \<in> set us. map_of (ts_elems c) (sc_Id u) \<noteq> None \<or> map_of (notInTop c) (sc_Id u) \<noteq> None)"

definition smallest_ok :: "TopSumCrdt \<Rightarrow> bool" where
  "smallest_ok c \<longleftrightarrow> ts_smallest c \<noteq> None \<and> map_of (ts_elems c) (sc_Id (smallest_score c)) = Some (smallest_score c)
     \<and> (\<forall>i e. map_of (ts_elems c) i = Some e \<longrightarrow> sc_Score (smallest_score c) \<le> sc_Score e)
     \<and> (\<forall>i. ts_smallest c = Some (InTop i) \<longrightarrow> map_of (ts_elems c) i \<noteq> None)"

definition top_ok :: "TopSumCrdt \<Rightarrow> bool" where
  "top_ok c \<longleftrightarrow> int (length (ts_elems c)) \<le> ts_maxElems c \<and> (notInTop c = [] \<or> int (length (ts_elems c)) = ts_maxElems c)
     \<and> (ts_elems c = [] \<or> smallest_ok c) \<and> (\<forall>i e. map_of (notInTop c) i = Some e \<longrightarrow> sc_Score e \<le> sc_Score (smallest_score c))"

declare wf_map_delete [simp]

lemma isHigher_score: "isHigher a b \<Longrightarrow> sc_Score b \<le> sc_Score a" "\<not> isHigher a b \<Longrightarrow> sc_Score a \<le> sc_Score b"
  by (auto simp: isHigher_def)

lemma min_of_least:
  assumes "es \<noteq> []" and "\<forall>e \<in> set es. sc_Score e < MaxInt32"
  shows "min_of es \<in> set es \<and> (\<forall>e \<in> set es. sc_Score (min_of es) \<le> sc_Score e)"
proof -
  let ?f = "foldl (\<lambda>minSoFar e. if isHigher minSoFar e then e else minSoFar)"
  have f: "?f m es \<in> insert m (set es) \<and> (\<forall>e \<in> insert m (set es). sc_Score (?f m es) \<le> sc_Score e)" for m and es :: "TopKScore list"
  proof (induction es arbitrary: m)
    case (Cons e es)
    from Cons [of "if isHigher m e then e else m"] isHigher_score [of m e] show ?case by (auto split: if_splits intro: order_trans)
  qed simp
  let ?m = "\<lparr>sc_Id = MaxInt32, sc_Score = MaxInt32, sc_Data = None\<rparr>"
  obtain e where "e \<in> set es" using assms(1) by (cases es) auto
  with f [of ?m es] assms(2) have "min_of es \<noteq> ?m" by (fastforce simp: min_of_def)
  with f [of ?m es] show ?thesis by (simp add: min_of_def)
qed

lemma TopSum_findAndUpdateMin_ok:
  assumes "ts_elems c \<noteq> []" and "wf_map (ts_elems c)" and "\<forall>i e. map_of (ts_elems c) i = Some e \<longrightarrow> sc_Id e = i \<and> sc_Score e < MaxInt32"
  shows "smallest_ok (TopSum_findAndUpdateMin c)"
proof -
  have m: "map_of (ts_elems c) i = Some e \<longleftrightarrow> (i, e) \<in> set (ts_elems c)" for i e using assms(2) by (simp add: wf_map_def)
  have "\<forall>e \<in> set (map snd (ts_elems c)). sc_Score e < MaxInt32" using assms(3) m by fastforce
  with assms(1) have l: "min_of (map snd (ts_elems c)) \<in> snd ` set (ts_elems c)" "\<forall>(i, e) \<in> set (ts_elems c). sc_Score (min_of (map snd (ts_elems c))) \<le> sc_Score e"
    using min_of_least [of "map snd (ts_elems c)"] by auto
  then obtain i where "(i, min_of (map snd (ts_elems c))) \<in> set (ts_elems c)" by force
  with assms(3) m have "map_of (ts_elems c) (sc_Id (min_of (map snd (ts_elems c)))) = Some (min_of (map snd (ts_elems c)))" by metis
  with l(2) m show ?thesis by (auto simp: smallest_ok_def TopSum_findAndUpdateMin_def smallest_score_def)
qed

section \<open>Additions\<close>

text \<open>An addition that keeps the sums below the limit; it has data, as \<open>Update\<close> and messages give it.\<close>

definition add_ok :: "TopKScore list \<Rightarrow> TopKScore \<Rightarrow> bool" where
  "add_ok us op \<longleftrightarrow> 0 \<le> sc_Score op \<and> sc_Data op \<noteq> None \<and> (\<forall>i. 0 \<le> total us i \<and> total (us @ [op]) i < MaxInt32)"

lemma add_ok_plus: "add_ok us op \<Longrightarrow> sc_Score e = total us (sc_Id op) \<Longrightarrow> sc_Score (plus_score e (sc_Score op)) = total (us @ [op]) (sc_Id op)"
proof -
  assume a: "add_ok us op" and e: "sc_Score e = total us (sc_Id op)"
  have "0 \<le> total us (sc_Id op)" "total (us @ [op]) (sc_Id op) < MaxInt32" "0 \<le> sc_Score op" using a by (auto simp: add_ok_def)
  then have "int32 (total us (sc_Id op) + sc_Score op) = total us (sc_Id op) + sc_Score op"
    by (intro swrap_id) (auto simp: total_snoc MaxInt32_def in_int_def)
  then show ?thesis by (simp add: plus_score_def e total_snoc)
qed

lemma plus_score_Id [simp]: "sc_Id (plus_score e n) = sc_Id e"
  by (simp add: plus_score_def)

lemma sums_ok_fresh: "sums_ok us c \<Longrightarrow> map_of (ts_elems c) i = None \<Longrightarrow> map_of (notInTop c) i = None \<Longrightarrow> total us i = 0"
proof -
  assume "sums_ok us c" "map_of (ts_elems c) i = None" "map_of (notInTop c) i = None"
  then have "\<forall>u \<in> set us. sc_Id u \<noteq> i" unfolding sums_ok_def by metis
  then have "filter (\<lambda>u. sc_Id u = i) us = []" by (simp add: filter_empty_conv)
  then show ?thesis by (simp add: total_def)
qed

lemma sums_ok_update:
  assumes "sums_ok us c" and "wf_map E" and "wf_map N"
    and "\<And>i e. map_of E i = Some e \<Longrightarrow> sc_Id e = i \<and> sc_Score e = total (us @ [op]) i \<and> map_of N i = None"
    and "\<And>i e. map_of N i = Some e \<Longrightarrow> sc_Id e = i \<and> sc_Score e = total (us @ [op]) i"
    and "dom (map_of E) \<union> dom (map_of N) = insert (sc_Id op) (dom (map_of (ts_elems c)) \<union> dom (map_of (notInTop c)))"
    and "ts_elems c' = E" and "notInTop c' = N"
  shows "sums_ok (us @ [op]) c'"
proof -
  have "map_of E (sc_Id u) \<noteq> None \<or> map_of N (sc_Id u) \<noteq> None" if "u \<in> set (us @ [op])" for u
  proof -
    have "sc_Id u \<in> dom (map_of E) \<union> dom (map_of N)" unfolding assms(6) using that assms(1) by (auto simp: sums_ok_def)
    then show ?thesis by auto
  qed
  with assms(2-5,7,8) show ?thesis unfolding sums_ok_def by blast
qed

lemma top_ok_outside:
  "top_ok c \<Longrightarrow> map_of (notInTop c) i = Some e \<Longrightarrow> sc_Score e \<le> sc_Score (smallest_score c)"
  by (simp add: top_ok_def)

text \<open>The smallest element leaves the top for another one.\<close>

lemma promote_ok:
  assumes c: "sums_ok us c" "top_ok c" "add_ok us op" "ts_elems c \<noteq> []" "int (length (ts_elems c)) = ts_maxElems c" "map_of (ts_elems c) (sc_Id op) = None"
    and e: "sc_Id e = sc_Id op" "sc_Score e = total (us @ [op]) (sc_Id op)" "sc_Score (smallest_score c) \<le> sc_Score e"
    and N: "wf_map N" "map_of N = ((map_of (notInTop c))(sc_Id (smallest_score c) \<mapsto> smallest_score c))(sc_Id op := None)"
    and c': "c' = TopSum_findAndUpdateMin d" "ts_elems d = mput (sc_Id op) e (AList.delete (sc_Id (smallest_score c)) (ts_elems c))" "notInTop d = N" "ts_maxElems d = ts_maxElems c"
  shows "sums_ok (us @ [op]) c' \<and> top_ok c'"
proof
  let ?s = "smallest_score c" and ?E = "ts_elems d"
  have s: "map_of (ts_elems c) (sc_Id ?s) = Some ?s" "\<And>i e. map_of (ts_elems c) i = Some e \<Longrightarrow> sc_Score ?s \<le> sc_Score e"
    using c(2,4) by (auto simp: top_ok_def smallest_ok_def)
  have wf: "wf_map (ts_elems c)" "wf_map (notInTop c)" using c(1) by (auto simp: sums_ok_def)
  have ne: "sc_Id ?s \<noteq> sc_Id op" using s(1) c(6) by auto
  have E: "wf_map ?E" "map_of ?E = ((map_of (ts_elems c))(sc_Id ?s := None))(sc_Id op \<mapsto> e)" using wf(1) by (simp_all add: c'(2) map_of_mput map_of_delete)
  have same: "ts_elems c' = ?E" "notInTop c' = N" "ts_maxElems c' = ts_maxElems c" using c' by (simp_all add: TopSum_findAndUpdateMin_def)
  have old: "i \<noteq> sc_Id op \<Longrightarrow> total (us @ [op]) i = total us i" for i by (simp add: total_snoc)
  have eo: "sc_Id x = i \<and> sc_Score x = total us i \<and> map_of (notInTop c) i = None" if "map_of (ts_elems c) i = Some x" for i x
    using that c(1) by (simp add: sums_ok_def)
  have no: "sc_Id x = i \<and> sc_Score x = total us i" if "map_of (notInTop c) i = Some x" for i x
    using that c(1) by (simp add: sums_ok_def)
  have E_ok: "sc_Id x = i \<and> sc_Score x = total (us @ [op]) i \<and> map_of N i = None" if x: "map_of ?E i = Some x" for i x
  proof (cases "i = sc_Id op")
    case True
    with x e(1,2) show ?thesis by (simp add: E(2) N(2))
  next
    case False
    with x have "i \<noteq> sc_Id ?s" "map_of (ts_elems c) i = Some x" by (auto simp: E(2) split: if_splits)
    with eo [of i x] False show ?thesis by (simp add: old N(2))
  qed
  have N_ok: "sc_Id x = i \<and> sc_Score x = total (us @ [op]) i" if x: "map_of N i = Some x" for i x
  proof -
    have i: "i \<noteq> sc_Id op" "i = sc_Id ?s \<and> x = ?s \<or> map_of (notInTop c) i = Some x" using x by (auto simp: N(2) split: if_splits)
    with eo [OF s(1)] no [of i x] show ?thesis by (auto simp: old)
  qed
  have D: "dom (map_of ?E) \<union> dom (map_of N) = insert (sc_Id op) (dom (map_of (ts_elems c)) \<union> dom (map_of (notInTop c)))"
    unfolding E(2) N(2) dom_fun_upd using s(1) ne by auto
  show "sums_ok (us @ [op]) c'" by (rule sums_ok_update [OF c(1) E(1) N(1) _ _ D same(1,2)]) (fact E_ok N_ok)+
  have len: "length ?E = length (ts_elems c)"
    using s(1) c(6) ne wf(1) c(4) by (simp add: c'(2) length_mput length_delete map_of_delete)
  have small: "smallest_ok c'"
  proof -
    have "?E \<noteq> []" using len c(4) by (metis length_0_conv)
    moreover have "\<forall>i x. map_of ?E i = Some x \<longrightarrow> sc_Id x = i \<and> sc_Score x < MaxInt32" using E_ok c(3) unfolding add_ok_def by metis
    ultimately show ?thesis unfolding c'(1) by (intro TopSum_findAndUpdateMin_ok E(1))
  qed
  have le: "sc_Score ?s \<le> sc_Score x" if "map_of ?E i = Some x" for i x
    using that s(2) [of i x] e(3) unfolding E(2) by (cases "i = sc_Id op"; cases "i = sc_Id ?s") simp_all
  have "sc_Score x \<le> sc_Score (smallest_score c')" if "map_of N i = Some x" for i x
  proof -
    have "sc_Score x \<le> sc_Score ?s" using that top_ok_outside [OF c(2), of i x] unfolding N(2) by (cases "i = sc_Id op"; cases "i = sc_Id ?s") simp_all
    also have "\<dots> \<le> sc_Score (smallest_score c')" using small le unfolding smallest_ok_def same(1) by blast
    finally show ?thesis .
  qed
  with small len c(5) show "top_ok c'" unfolding top_ok_def same by simp
qed

text \<open>An element outside the top stays there.\<close>

lemma stay_out_ok:
  assumes c: "sums_ok us c" "top_ok c" "add_ok us op" "ts_elems c \<noteq> []" "int (length (ts_elems c)) = ts_maxElems c" "map_of (ts_elems c) (sc_Id op) = None"
    and e: "sc_Id e = sc_Id op" "sc_Score e = total (us @ [op]) (sc_Id op)" "sc_Score e \<le> sc_Score (smallest_score c)"
    and c': "c' = c\<lparr>notInTop := mput (sc_Id op) e (notInTop c), notPropagated := P\<rparr>"
  shows "sums_ok (us @ [op]) c' \<and> top_ok c'"
proof
  let ?N = "mput (sc_Id op) e (notInTop c)"
  have wf: "wf_map (ts_elems c)" "wf_map ?N" using c(1) by (auto simp: sums_ok_def)
  have old: "i \<noteq> sc_Id op \<Longrightarrow> total (us @ [op]) i = total us i" for i by (simp add: total_snoc)
  have "sc_Id x = i \<and> sc_Score x = total (us @ [op]) i \<and> map_of ?N i = None" if "map_of (ts_elems c) i = Some x" for i x
    using that c(1,6) unfolding sums_ok_def by (cases "i = sc_Id op") (auto simp: old map_of_mput)
  moreover have "sc_Id x = i \<and> sc_Score x = total (us @ [op]) i" if "map_of ?N i = Some x" for i x
    using that c(1) e(1,2) unfolding sums_ok_def by (auto simp: old map_of_mput split: if_splits)
  ultimately show "sums_ok (us @ [op]) c'" by (rule sums_ok_update [OF c(1) wf]) (auto simp: c' map_of_mput)
  have s: "smallest_score c' = smallest_score c" by (simp add: c' smallest_score_def split: option.split smallest.split)
  have "smallest_ok c' \<longleftrightarrow> smallest_ok c" unfolding smallest_ok_def s by (simp add: c')
  moreover have "sc_Score x \<le> sc_Score (smallest_score c)" if "map_of ?N i = Some x" for i x
    using that e(3) top_ok_outside [OF c(2), of i x] by (cases "i = sc_Id op") (simp_all add: map_of_mput)
  ultimately show "top_ok c'" using c(2,4,5) unfolding top_ok_def s by (simp add: c')
qed

text \<open>The element is in the top and grows.\<close>

lemma grow_ok:
  assumes c: "sums_ok us c" "top_ok c" "add_ok us op" "map_of (ts_elems c) (sc_Id op) = Some entry"
    and c1: "c1 = c\<lparr>ts_elems := mput (sc_Id op) (plus_score entry (sc_Score op)) (ts_elems c)\<rparr>"
    and c': "c' = (if sc_Id (smallest_score c1) = sc_Id entry then TopSum_findAndUpdateMin c1 else c1)"
  shows "sums_ok (us @ [op]) c' \<and> top_ok c'"
proof
  let ?e = "plus_score entry (sc_Score op)" and ?E = "ts_elems c1" and ?N = "notInTop c"
  have eo: "sc_Id x = i \<and> sc_Score x = total us i \<and> map_of ?N i = None" if "map_of (ts_elems c) i = Some x" for i x
    using that c(1) by (simp add: sums_ok_def)
  have e: "sc_Id entry = sc_Id op" "sc_Score ?e = total (us @ [op]) (sc_Id op)" using eo [OF c(4)] add_ok_plus [OF c(3), of entry] by simp_all
  have E: "wf_map ?E" "map_of ?E = (map_of (ts_elems c))(sc_Id op \<mapsto> ?e)" using c(1) by (simp_all add: c1 map_of_mput sums_ok_def)
  have N: "wf_map ?N" using c(1) by (simp add: sums_ok_def)
  have same: "ts_elems c' = ?E" "notInTop c' = ?N" "ts_maxElems c' = ts_maxElems c" by (simp_all add: c' c1 TopSum_findAndUpdateMin_def)
  have old: "i \<noteq> sc_Id op \<Longrightarrow> total (us @ [op]) i = total us i" for i by (simp add: total_snoc)
  have E_ok: "sc_Id x = i \<and> sc_Score x = total (us @ [op]) i \<and> map_of ?N i = None" if "map_of ?E i = Some x" for i x
    using that eo [of i x] eo [OF c(4)] e by (cases "i = sc_Id op") (auto simp: E(2) old)
  have N_ok: "sc_Id x = i \<and> sc_Score x = total (us @ [op]) i" if x: "map_of ?N i = Some x" for i x
  proof -
    have "i \<noteq> sc_Id op" using x eo [OF c(4)] by auto
    with x c(1) show ?thesis by (simp add: sums_ok_def old)
  qed
  have D: "dom (map_of ?E) \<union> dom (map_of ?N) = insert (sc_Id op) (dom (map_of (ts_elems c)) \<union> dom (map_of ?N))" by (auto simp: E(2))
  show "sums_ok (us @ [op]) c'" by (rule sums_ok_update [OF c(1) E(1) N _ _ D same(1,2)]) (fact E_ok N_ok)+
  have ne: "ts_elems c \<noteq> []" using c(4) by auto
  have s: "smallest_ok c" using c(2) ne by (simp add: top_ok_def)
  have len: "length ?E = length (ts_elems c)" using c(4) by (simp add: c1 length_mput)
  have grown: "sc_Score (smallest_score c) \<le> sc_Score x" if x: "map_of ?E i = Some x" for i x
  proof (cases "i = sc_Id op")
    case True
    then have "x = ?e" using x by (simp add: E(2))
    moreover have "sc_Score (smallest_score c) \<le> sc_Score entry" using s c(4) by (simp add: smallest_ok_def)
    moreover have "sc_Score entry \<le> sc_Score ?e" using e(2) eo [OF c(4)] c(3) by (simp add: total_snoc add_ok_def)
    ultimately show ?thesis by simp
  next
    case False
    with x s show ?thesis by (simp add: E(2) smallest_ok_def)
  qed
  have small: "smallest_ok c' \<and> sc_Score (smallest_score c) \<le> sc_Score (smallest_score c')"
  proof (cases "sc_Id (smallest_score c1) = sc_Id entry")
    case True
    have "?E \<noteq> []" using len ne by (metis length_0_conv)
    moreover have "\<forall>i x. map_of ?E i = Some x \<longrightarrow> sc_Id x = i \<and> sc_Score x < MaxInt32" using E_ok c(3) unfolding add_ok_def by metis
    ultimately have m: "smallest_ok c'" unfolding c' using True by (simp add: TopSum_findAndUpdateMin_ok E(1))
    with grown show ?thesis unfolding smallest_ok_def same(1) by blast
  next
    case False
    have "smallest_score c1 = smallest_score c"
    proof (cases "ts_smallest c = Some (InTop (sc_Id op))")
      case True
      then have "smallest_score c1 = ?e" by (simp add: smallest_score_def c1 map_of_mput)
      with False e(1) show ?thesis by simp
    qed (auto simp: smallest_score_def c1 map_of_mput split: option.split smallest.split)
    moreover have "ts_smallest c1 = ts_smallest c" by (simp add: c1)
    moreover have "sc_Id (smallest_score c) \<noteq> sc_Id op" using False calculation e(1) by simp
    ultimately have "smallest_ok c1" using s grown by (simp add: smallest_ok_def E(2))
    with False \<open>smallest_score c1 = smallest_score c\<close> show ?thesis by (simp add: c')
  qed
  have "sc_Score x \<le> sc_Score (smallest_score c')" if "map_of ?N i = Some x" for i x
    using top_ok_outside [OF c(2) that] small by simp
  with small len c(2) show "top_ok c'" unfolding top_ok_def same by simp
qed

text \<open>The element is new and there is space in the top.\<close>

lemma space_ok:
  assumes c: "sums_ok us c" "top_ok c" "add_ok us op" "map_of (ts_elems c) (sc_Id op) = None" "int (length (ts_elems c)) < ts_maxElems c"
    and sm: "sm = Some (InTop (sc_Id op)) \<and> (ts_elems c = [] \<or> isHigher (smallest_score c) op) \<or> sm = ts_smallest c \<and> ts_elems c \<noteq> [] \<and> \<not> isHigher (smallest_score c) op"
    and c': "c' = c\<lparr>ts_elems := mput (sc_Id op) op (ts_elems c), ts_smallest := sm\<rparr>"
  shows "sums_ok (us @ [op]) c' \<and> top_ok c'"
proof
  let ?E = "mput (sc_Id op) op (ts_elems c)"
  have N: "notInTop c = []" using c(2,5) by (auto simp: top_ok_def)
  have wf: "wf_map ?E" using c(1) by (simp add: sums_ok_def)
  have same: "ts_elems c' = ?E" "notInTop c' = []" by (simp_all add: c' N)
  have old: "i \<noteq> sc_Id op \<Longrightarrow> total (us @ [op]) i = total us i" for i by (simp add: total_snoc)
  have new: "total (us @ [op]) (sc_Id op) = sc_Score op" using sums_ok_fresh [OF c(1,4)] by (simp add: total_snoc N)
  have E_ok: "sc_Id x = i \<and> sc_Score x = total (us @ [op]) i \<and> map_of [] i = None" if "map_of ?E i = Some x" for i x
    using that c(1) new by (cases "i = sc_Id op") (auto simp: map_of_mput old sums_ok_def)
  show "sums_ok (us @ [op]) c'" by (rule sums_ok_update [OF c(1) wf _ E_ok _ _ same]) (auto simp: wf_map_def map_of_mput N)
  have len: "length ?E = Suc (length (ts_elems c))" using c(4) by (simp add: length_mput)
  have "smallest_ok c'"
  proof (cases "sm = Some (InTop (sc_Id op)) \<and> (ts_elems c = [] \<or> isHigher (smallest_score c) op)")
    case True
    then have s: "smallest_score c' = op" by (simp add: c' smallest_score_def map_of_mput)
    have "sc_Score op \<le> sc_Score x" if x: "map_of ?E i = Some x" for i x
    proof (cases "i = sc_Id op")
      case False
      then have x: "map_of (ts_elems c) i = Some x" using x by (simp add: map_of_mput)
      then have "ts_elems c \<noteq> []" by auto
      then have "sc_Score op \<le> sc_Score (smallest_score c)" "smallest_ok c" using True c(2) isHigher_score(1) by (auto simp: top_ok_def)
      with x show ?thesis unfolding smallest_ok_def by force
    qed (use x in \<open>simp add: map_of_mput\<close>)
    with True s show ?thesis unfolding smallest_ok_def by (simp add: c' map_of_mput)
  next
    case False
    then have f: "sm = ts_smallest c" "ts_elems c \<noteq> []" "sc_Score (smallest_score c) \<le> sc_Score op" using sm isHigher_score(2) by auto
    then have k: "smallest_ok c" using c(2) by (simp add: top_ok_def)
    then have i: "ts_smallest c \<noteq> Some (InTop (sc_Id op))" "sc_Id (smallest_score c) \<noteq> sc_Id op" using c(4) by (auto simp: smallest_ok_def)
    have s: "smallest_score c' = smallest_score c"
      using i(1) by (auto simp: c' f(1) smallest_score_def map_of_mput split: option.split smallest.split)
    have "sc_Score (smallest_score c) \<le> sc_Score x" if "map_of ?E i = Some x" for i x
      using that f(3) k by (cases "i = sc_Id op") (auto simp: map_of_mput smallest_ok_def)
    moreover have "map_of ?E i \<noteq> None" if "ts_smallest c = Some (InTop i)" for i using that k by (auto simp: map_of_mput smallest_ok_def)
    ultimately show ?thesis using k i(2) unfolding smallest_ok_def s by (simp add: c' f(1) map_of_mput)
  qed
  with len c(5) show "top_ok c'" unfolding top_ok_def same by (simp add: c')
qed

lemma full_top:
  assumes "top_ok c" and "ts_elems c \<noteq> []" and "\<not> int (length (ts_elems c)) < ts_maxElems c"
  shows "int (length (ts_elems c)) = ts_maxElems c"
  using assms by (simp add: top_ok_def)

lemma known_outside_ok:
  assumes c: "sums_ok us c" "top_ok c" "add_ok us op" "ts_elems c \<noteq> []" "int (length (ts_elems c)) = ts_maxElems c" "map_of (ts_elems c) (sc_Id op) = None"
    and entry: "map_of (notInTop c) (sc_Id op) = Some entry0"
  shows "\<exists>c' e r x. apply_known_outside N c op remote entry0 = Inr (c', e, r, x) \<and> sums_ok (us @ [op]) c' \<and> top_ok c'
    \<and> ts_maxElems c' = ts_maxElems c \<and> ts_sortedElems c' = ts_sortedElems c"
proof -
  let ?e = "plus_score entry0 (sc_Score op)" and ?c1 = "c\<lparr>notInTop := mput (sc_Id op) (plus_score entry0 (sc_Score op)) (notInTop c)\<rparr>"
  have d: "sc_Data op \<noteq> None" using c(3) by (simp add: add_ok_def)
  have e: "sc_Id ?e = sc_Id op" "sc_Score ?e = total (us @ [op]) (sc_Id op)"
    using c(1) entry add_ok_plus [OF c(3), of entry0] by (simp_all add: sums_ok_def)
  have s: "smallest_score ?c1 = smallest_score c" by (simp add: smallest_score_def split: option.split smallest.split)
  show ?thesis
  proof (cases "isHigher ?e (smallest_score c)")
    case True
    let ?c2 = "move_smallest_out ?c1"
    define c3 where "c3 = TopSum_findAndUpdateMin (?c2\<lparr>notInTop := AList.delete (sc_Id op) (notInTop ?c2), ts_elems := mput (sc_Id op) ?e (ts_elems ?c2)\<rparr>)"
    have wf: "wf_map (notInTop c)" using c(1) by (simp add: sums_ok_def)
    have "sums_ok (us @ [op]) c3 \<and> top_ok c3"
      by (rule promote_ok [OF c e isHigher_score(1) [OF True] _ _ c3_def])
        (simp_all add: move_smallest_out_def Let_def s wf map_of_mput map_of_delete fun_eq_iff)
    moreover have "sums_ok us' (c3\<lparr>notPropagated := P\<rparr>) = sums_ok us' c3" "top_ok (c3\<lparr>notPropagated := P\<rparr>) = top_ok c3" for us' P
      by (simp_all add: sums_ok_def top_ok_def smallest_ok_def smallest_score_def split: option.split smallest.split)
    moreover have "ts_maxElems c3 = ts_maxElems c" "ts_sortedElems c3 = ts_sortedElems c" by (simp_all add: c3_def TopSum_findAndUpdateMin_def move_smallest_out_def Let_def)
    ultimately show ?thesis using True d unfolding apply_known_outside_def Let_def s c3_def [symmetric]
      by (cases "map_of (notPropagated c) (sc_Id op)"; cases remote) auto
  next
    case False
    have "sums_ok (us @ [op]) (?c1\<lparr>notPropagated := P\<rparr>) \<and> top_ok (?c1\<lparr>notPropagated := P\<rparr>)" for P
      using stay_out_ok [OF c e isHigher_score(2) [OF False] refl] .
    moreover from this [of "notPropagated c"] have "sums_ok (us @ [op]) ?c1 \<and> top_ok ?c1" by simp
    ultimately show ?thesis using False d unfolding apply_known_outside_def Let_def s by (cases "map_of (notPropagated c) (sc_Id op)"; cases remote) auto
  qed
qed

lemma new_outside_ok:
  assumes c: "sums_ok us c" "top_ok c" "add_ok us op" "ts_elems c \<noteq> []" "int (length (ts_elems c)) = ts_maxElems c" "map_of (ts_elems c) (sc_Id op) = None"
    and new: "map_of (notInTop c) (sc_Id op) = None"
  shows "\<exists>c' e r x. apply_new_outside N c op = (c', e, r, x) \<and> sums_ok (us @ [op]) c' \<and> top_ok c'
    \<and> ts_maxElems c' = ts_maxElems c \<and> ts_sortedElems c' = ts_sortedElems c"
proof -
  have e: "sc_Id op = sc_Id op" "sc_Score op = total (us @ [op]) (sc_Id op)" using sums_ok_fresh [OF c(1,6) new] by (simp_all add: total_snoc)
  have wf: "wf_map (notInTop c)" using c(1) by (simp add: sums_ok_def)
  show ?thesis
  proof (cases "isHigher op (smallest_score c)")
    case True
    let ?c2 = "move_smallest_out c"
    define c3 where "c3 = TopSum_findAndUpdateMin (?c2\<lparr>ts_elems := mput (sc_Id op) op (ts_elems ?c2)\<rparr>)"
    have "sc_Id (smallest_score c) \<noteq> sc_Id op" using c(2,4,6) by (auto simp: top_ok_def smallest_ok_def)
    then have "sums_ok (us @ [op]) c3 \<and> top_ok c3" using new
      by (intro promote_ok [OF c e isHigher_score(1) [OF True] _ _ c3_def])
        (auto simp: move_smallest_out_def Let_def wf map_of_mput fun_eq_iff)
    moreover have "ts_maxElems c3 = ts_maxElems c" "ts_sortedElems c3 = ts_sortedElems c" by (simp_all add: c3_def TopSum_findAndUpdateMin_def move_smallest_out_def Let_def)
    ultimately show ?thesis using True unfolding apply_new_outside_def Let_def c3_def [symmetric] by auto
  next
    case False
    have "sums_ok (us @ [op]) (c\<lparr>notInTop := mput (sc_Id op) op (notInTop c), notPropagated := P\<rparr>) \<and> top_ok (c\<lparr>notInTop := mput (sc_Id op) op (notInTop c), notPropagated := P\<rparr>)" for P
      using stay_out_ok [OF c e isHigher_score(2) [OF False] refl] .
    moreover from this [of "notPropagated c"] have "sums_ok (us @ [op]) (c\<lparr>notInTop := mput (sc_Id op) op (notInTop c)\<rparr>) \<and> top_ok (c\<lparr>notInTop := mput (sc_Id op) op (notInTop c)\<rparr>)" by simp
    ultimately show ?thesis using False unfolding apply_new_outside_def Let_def by auto
  qed
qed

lemma add_step:
  assumes c: "sums_ok us c" "top_ok c" "add_ok us op" "0 < ts_maxElems c"
  shows "\<exists>c' e r x. applyTopSAddDownstreamArgs N c op src = Inr (c', e, r, x) \<and> sums_ok (us @ [op]) c' \<and> top_ok c'
    \<and> ts_maxElems c' = ts_maxElems c \<and> ts_sortedElems c' = ts_sortedElems c"
proof (cases "ts_elems c = []")
  case True
  with c(4) space_ok [OF c(1-3) _ _ _ refl, of "Some (InTop (sc_Id op))"] show ?thesis
    by (auto simp: applyTopSAddDownstreamArgs_def add_first_def)
next
  case ne: False
  show ?thesis
  proof (cases "map_of (ts_elems c) (sc_Id op)")
    case (Some entry)
    with ne grow_ok [OF c(1-3) Some refl refl] show ?thesis
      by (auto simp: applyTopSAddDownstreamArgs_def Let_def TopSum_findAndUpdateMin_def)
  next
    case None
    show ?thesis
    proof (cases "int (length (ts_elems c)) < ts_maxElems c")
      case True
      from space_ok [OF c(1-3) None True _ refl, of "Some (InTop (sc_Id op))"] space_ok [OF c(1-3) None True _ refl, of "ts_smallest c"] ne None True
      show ?thesis by (auto simp: applyTopSAddDownstreamArgs_def add_to_space_def Let_def)
    next
      case False
      note full = full_top [OF c(2) ne False]
      show ?thesis
      proof (cases "map_of (notInTop c) (sc_Id op)")
        case (Some entry0)
        from known_outside_ok [OF c(1-3) ne full None Some] ne None False Some show ?thesis by (simp add: applyTopSAddDownstreamArgs_def)
      next
        case new: None
        from new_outside_ok [OF c(1-3) ne full None new, of N] ne None False new show ?thesis by (auto simp: applyTopSAddDownstreamArgs_def)
      qed
    qed
  qed
qed

definition run_adds :: "int \<Rightarrow> TopSumCrdt \<Rightarrow> (TopKScore \<times> int) list \<Rightarrow> TopSumCrdt go" where
  "run_adds NReplicas = gfold (\<lambda>c (op, src). gbind (applyTopSAddDownstreamArgs NReplicas c op src) (\<lambda>(c', x). Inr c'))"

lemma add_ok_part:
  assumes "\<forall>u \<in> set (us @ op # vs). 0 \<le> sc_Score u \<and> sc_Data u \<noteq> None" and "sum_list (map sc_Score (us @ op # vs)) < MaxInt32"
  shows "add_ok us op"
proof -
  have "total (us @ [op]) i \<le> sum_list (map sc_Score (us @ [op]))" "0 \<le> total us i" for i
    using assms(1) by (intro total_le; auto)+
  moreover have "0 \<le> sum_list (map sc_Score vs)" using assms(1) by (intro sum_list_nonneg) auto
  then have "sum_list (map sc_Score (us @ [op])) < MaxInt32" using assms(2) by simp
  ultimately show ?thesis using assms(1) unfolding add_ok_def by (auto intro: le_less_trans)
qed

lemma run_adds_ok:
  assumes "\<forall>u \<in> set (us @ map fst ops). 0 \<le> sc_Score u \<and> sc_Data u \<noteq> None" and "sum_list (map sc_Score (us @ map fst ops)) < MaxInt32"
    and "sums_ok us c" and "top_ok c" and "0 < ts_maxElems c"
  shows "\<exists>c'. run_adds N c ops = Inr c' \<and> sums_ok (us @ map fst ops) c' \<and> top_ok c' \<and> ts_maxElems c' = ts_maxElems c"
  using assms
proof (induction ops arbitrary: us c)
  case Nil
  then show ?case by (simp add: run_adds_def)
next
  case (Cons x ops)
  obtain op src where x: "x = (op, src)" by (cases x)
  have "add_ok us op" using Cons.prems(1,2) by (intro add_ok_part [of us op "map fst ops"]) (simp_all add: x)
  from add_step [OF Cons.prems(3,4) this Cons.prems(5), of N src] obtain c1 y where c1: "applyTopSAddDownstreamArgs N c op src = Inr (c1, y)"
    "sums_ok (us @ [op]) c1" "top_ok c1" "ts_maxElems c1 = ts_maxElems c" by auto
  from Cons.IH [of "us @ [op]" c1] Cons.prems(1,2,5) c1 show ?case by (simp add: x run_adds_def)
qed

text \<open>
  C34. After any additions that are not negative, local or received and in any order, whose sum
  stays below the limit of \<open>int32\<close>, the state of the top-sum has at most \<open>maxElems\<close> elements, each
  with the sum of all additions to it, and an element is outside only when the top is full and
  no element of the top has a smaller sum.
\<close>

theorem TopSum_top_sums:
  assumes "0 < size'" and "\<forall>u \<in> set (map fst ops). 0 \<le> sc_Score u \<and> sc_Data u \<noteq> None" and "sum_list (map sc_Score (map fst ops)) < MaxInt32"
  shows "\<exists>c. run_adds NReplicas (TopSum_InitializeWithSize replicaID size') ops = Inr c \<and> int (length (TopSum_getState c)) \<le> size'
    \<and> (\<forall>e \<in> set (TopSum_getState c). sc_Score e = total (map fst ops) (sc_Id e))
    \<and> (\<forall>u \<in> set (map fst ops). sc_Id u \<notin> sc_Id ` set (TopSum_getState c)
         \<longrightarrow> int (length (TopSum_getState c)) = size' \<and> (\<forall>e \<in> set (TopSum_getState c). total (map fst ops) (sc_Id u) \<le> sc_Score e))"
proof -
  let ?c0 = "TopSum_InitializeWithSize replicaID size'" and ?us = "map fst ops"
  have "sums_ok [] ?c0" "top_ok ?c0" "0 < ts_maxElems ?c0" using assms(1) by (auto simp: sums_ok_def top_ok_def TopSum_InitializeWithSize_def wf_map_def)
  moreover have "ts_maxElems ?c0 = size'" by (simp add: TopSum_InitializeWithSize_def)
  ultimately obtain c where c: "run_adds NReplicas ?c0 ops = Inr c" "sums_ok ?us c" "top_ok c" "ts_maxElems c = size'"
    using run_adds_ok [of "[]" ops ?c0 NReplicas] assms(2,3) unfolding append_Nil by metis
  have m: "map_of (ts_elems c) i = Some e \<longleftrightarrow> (i, e) \<in> set (ts_elems c)" for i e using c(2) by (simp add: sums_ok_def wf_map_def)
  have st: "e \<in> set (TopSum_getState c) \<Longrightarrow> map_of (ts_elems c) (sc_Id e) = Some e" for e
  proof -
    assume "e \<in> set (TopSum_getState c)"
    then obtain i where i: "map_of (ts_elems c) i = Some e" using m by (auto simp: TopSum_getState_def)
    then have "sc_Id e = i" using c(2) by (simp add: sums_ok_def)
    with i show ?thesis by simp
  qed
  have outside: "map_of (ts_elems c) (sc_Id u) = None \<longrightarrow> (\<exists>e. map_of (notInTop c) (sc_Id u) = Some e)" if "u \<in> set ?us" for u
    using that c(2) by (auto simp: sums_ok_def)
  have eo: "map_of (ts_elems c) i = Some e \<Longrightarrow> sc_Id e = i \<and> sc_Score e = total ?us i" for i e using c(2) by (simp add: sums_ok_def)
  have no: "map_of (notInTop c) i = Some e \<Longrightarrow> sc_Score e = total ?us i" for i e using c(2) by (simp add: sums_ok_def)
  have 1: "sc_Score e = total ?us (sc_Id e)" if "e \<in> set (TopSum_getState c)" for e using eo [OF st [OF that]] by blast
  have 2: "int (length (TopSum_getState c)) = size' \<and> (\<forall>e \<in> set (TopSum_getState c). total ?us (sc_Id u) \<le> sc_Score e)"
    if u: "u \<in> set ?us" "sc_Id u \<notin> sc_Id ` set (TopSum_getState c)" for u
  proof -
    have "map_of (ts_elems c) (sc_Id u) = None"
    proof (rule ccontr)
      assume "map_of (ts_elems c) (sc_Id u) \<noteq> None"
      then obtain e where e: "map_of (ts_elems c) (sc_Id u) = Some e" by auto
      then have "(sc_Id u, e) \<in> set (ts_elems c)" using m by blast
      then have "e \<in> set (TopSum_getState c)" by (force simp: TopSum_getState_def)
      moreover have "sc_Id e = sc_Id u" using eo [OF e] by blast
      ultimately show False using u(2) by (metis image_eqI)
    qed
    then obtain e where e: "map_of (notInTop c) (sc_Id u) = Some e" using u(1) outside by blast
    then have "notInTop c \<noteq> []" by auto
    then have full: "int (length (ts_elems c)) = size'" using c(3,4) by (simp add: top_ok_def)
    have "total ?us (sc_Id u) \<le> sc_Score x" if "x \<in> set (TopSum_getState c)" for x
    proof -
      have "sc_Score e = total ?us (sc_Id u)" using no [OF e] .
      moreover have "sc_Score e \<le> sc_Score (smallest_score c)" using top_ok_outside [OF c(3) e] .
      moreover have "ts_elems c \<noteq> []" using that by (auto simp: TopSum_getState_def)
      then have "sc_Score (smallest_score c) \<le> sc_Score x" using c(3) st [OF that] unfolding top_ok_def smallest_ok_def by blast
      ultimately show ?thesis by simp
    qed
    with full show ?thesis by (simp add: TopSum_getState_def)
  qed
  have "int (length (TopSum_getState c)) \<le> size'" using c(3,4) by (simp add: TopSum_getState_def top_ok_def)
  with c(1) 1 2 show ?thesis by (intro exI [of _ c] conjI ballI impI) simp_all
qed

abbreviation pts :: "int \<Rightarrow> int \<Rightarrow> TopKScore" where
  "pts i n \<equiv> \<lparr>sc_Id = i, sc_Score = n, sc_Data = Some []\<rparr>"

definition some_adds :: "(TopKScore \<times> int) list" where
  "some_adds = [(pts 1 10, 1), (pts 2 3, 1), (pts 3 20, 2), (pts 2 9, 1)]"

theorem TopSum_top_sums_witness:
  "\<exists>c. run_adds 2 (TopSum_InitializeWithSize 1 2) some_adds = Inr c \<and> TopSum_getState c = [pts 3 20, pts 2 12]"
proof -
  have "\<forall>u \<in> set (map fst some_adds). 0 \<le> sc_Score u \<and> sc_Data u \<noteq> None" "sum_list (map sc_Score (map fst some_adds)) < MaxInt32"
    by (simp_all add: some_adds_def MaxInt32_def)
  with TopSum_top_sums [of 2 some_adds 2 1] obtain c where c: "run_adds 2 (TopSum_InitializeWithSize 1 2) some_adds = Inr c" by auto
  moreover have "map_sum id TopSum_getState (run_adds 2 (TopSum_InitializeWithSize 1 2) some_adds) = Inr [pts 3 20, pts 2 12]" by code_simp
  ultimately show ?thesis by simp
qed

section \<open>What other replicas see\<close>

text \<open>The additions of a replica and the messages it sends, those whose flag has been set; and a replica that receives them.\<close>

definition local_adds :: "int \<Rightarrow> TopSumCrdt \<Rightarrow> TopKScore list \<Rightarrow> (TopSumCrdt \<times> (ProtoTopSum + int) list) go" where
  "local_adds NReplicas c ss = gfold (\<lambda>(c, sent) s.
     let op = TopSum_Update c (TopSAdd s)
     in gbind (TopSum_applyDownstream NReplicas c op) (\<lambda>(c', e, must, other).
        if must then gbind (TopSum_ToReplicatorObj op) (\<lambda>p. Inr (c', sent @ [p])) else Inr (c', sent))) (c, []) ss"

definition receive :: "int \<Rightarrow> TopSumCrdt \<Rightarrow> (ProtoTopSum + int) list \<Rightarrow> (TopSumCrdt \<times> topsum_op list) go" where
  "receive NReplicas c ps = gfold (\<lambda>(c, others) p.
     gbind (TopSum_applyDownstream NReplicas c (TopSum_FromReplicatorObj p)) (\<lambda>(c', e, must, other).
       Inr (c', others @ (case other of None \<Rightarrow> [] | Some x \<Rightarrow> [x])))) (c, []) ps"

text \<open>
  Additions that were kept back get lost. When an addition lifts an element into the top, the
  additions to the element that had been kept back are added to a copy of the operation and
  forgotten, and the message carries the last addition alone. Of two replicas with one element
  in the top, the first shows element 2 with 12, the second still element 1 with 10, although all
  messages have been received, nothing is kept back and nothing is left to send.
\<close>

theorem TopSum_loses_sums:
  "map_sum id (\<lambda>(a, sent). (TopSum_getState a, notPropagated a,
       map_sum id (\<lambda>(b, others). (TopSum_getState b, notPropagated b, others)) (receive 2 (TopSum_InitializeWithSize 2 1) sent)))
     (local_adds 2 (TopSum_InitializeWithSize 1 1) [pts 1 10, pts 2 3, pts 2 9])
   = Inr ([pts 2 12], [], Inr ([pts 1 10], [], []))"
  by code_simp

section \<open>Reads do not see updates\<close>

lemma applyDownstream_keeps_buffer:
  assumes "TopSum_applyDownstream N c op = Inr (c', x)"
  shows "ts_sortedElems c' = ts_sortedElems c"
proof (cases op)
  case (DownstreamTopSAdd s src)
  with assms show ?thesis
    by (auto simp: applyTopSAddDownstreamArgs_def add_first_def add_to_space_def apply_known_outside_def apply_new_outside_def Let_def
        move_smallest_out_def TopSum_findAndUpdateMin_def split: if_splits option.splits prod.splits)
next
  case (DownstreamTopSSub s)
  with assms show ?thesis
    by (auto simp: applyTopSSubDownstreamArgs_def add_first_def add_to_space_def Let_def TopSum_findAndUpdateMin_def split: if_splits option.splits prod.splits)
next
  case (DownTopSInit n)
  with assms show ?thesis by auto
qed

text \<open>
  The buffer of sorted elements is filled by the first read of the best elements and never
  emptied: whatever operations follow, every such read returns what the first one has seen.
\<close>

theorem TopSum_stale_reads:
  assumes "TopSum_getTopN sort_scores c n = Inr (c1, scores)"
    and "gfold (\<lambda>c op. gbind (TopSum_applyDownstream NReplicas c op) (\<lambda>(c', x). Inr c')) c1 ops = Inr c2"
  shows "TopSum_getTopN sort_scores c2 n = Inr (c2, scores)"
proof -
  have "gfold (\<lambda>c op. gbind (TopSum_applyDownstream NReplicas c op) (\<lambda>(c', x). Inr c')) c ops = Inr c' \<Longrightarrow> ts_sortedElems c' = ts_sortedElems c" for c c'
    by (induction ops arbitrary: c) (auto simp: gbind_eq_Inr dest: applyDownstream_keeps_buffer)
  with assms(2) have "ts_sortedElems c2 = ts_sortedElems c1" by blast
  moreover have "ts_sortedElems c1 \<noteq> None" using assms(1) by (auto simp: TopSum_getTopN_def Let_def split: if_splits)
  ultimately show ?thesis using assms(1) by (auto simp: TopSum_getTopN_def Let_def split: if_splits)
qed

definition one_element :: TopSumCrdt where
  "one_element = (TopSum_InitializeWithSize 1 2)\<lparr>ts_elems := [(1, pts 1 10)], ts_smallest := Some (InTop 1)\<rparr>"

theorem TopSum_stale_reads_witness:
  "\<exists>c2. gfold (\<lambda>c op. gbind (TopSum_applyDownstream 2 c op) (\<lambda>(c', x). Inr c')) (one_element\<lparr>ts_sortedElems := Some [pts 1 10]\<rparr>) [DownstreamTopSAdd (pts 2 50) 1] = Inr c2
     \<and> TopSum_getState c2 = [pts 1 10, pts 2 50] \<and> TopSum_getTopN id c2 5 = Inr (c2, [pts 1 10])"
proof -
  have r: "TopSum_getTopN id one_element 5 = Inr (one_element\<lparr>ts_sortedElems := Some [pts 1 10]\<rparr>, [pts 1 10])"
    by (simp add: TopSum_getTopN_def one_element_def TopSum_InitializeWithSize_def TopSum_getState_def swrap_def Let_def)
  let ?c2 = "one_element\<lparr>ts_sortedElems := Some [pts 1 10], ts_elems := [(1, pts 1 10), (2, pts 2 50)]\<rparr>"
  have a: "gfold (\<lambda>c op. gbind (TopSum_applyDownstream 2 c op) (\<lambda>(c', x). Inr c')) (one_element\<lparr>ts_sortedElems := Some [pts 1 10]\<rparr>) [DownstreamTopSAdd (pts 2 50) 1] = Inr ?c2"
    by (simp add: applyTopSAddDownstreamArgs_def one_element_def TopSum_InitializeWithSize_def add_to_space_def smallest_score_def isHigher_def)
  from TopSum_stale_reads [OF r a] a show ?thesis by (intro exI [of _ ?c2]) (simp add: TopSum_getState_def)
qed

lemma TopSum_messages:
  "TopSum_ToReplicatorObj op = Inr p \<Longrightarrow> TopSum_FromReplicatorObj p = (case op of DownstreamTopSAdd s src \<Rightarrow> DownstreamTopSAdd s (- (2 ^ 15)) | _ \<Rightarrow> op)"
  by (cases op) (auto split: if_splits)

lemma TopSum_Update_sendable: "\<exists>p. TopSum_ToReplicatorObj (TopSum_Update c u) = Inr p"
  by (cases u) (auto simp: sum_with_data_def)

end
