(* ===== verification/TopKRmv.thy ===== *)
theory TopKRmv
  imports Convergence
begin

text \<open>
  The top-k with removals of \<^verbatim>\<open>crdt/crdt/topKRmv.go\<close>: the elements in the top, the elements that
  wait outside it, and for every id the clock of its removals. An addition is stamped with the
  clock of its replica; a removal carries the clock its replica had. Maps are association
  lists and sets are lists, both in one of their iteration orders. The data of an element is a
  pointer, and the sets compare pointers, so an element has the address of its data (\<open>None\<close> is
  nil) and \<open>fresh\<close> is the address of a new empty slice.
\<close>

record TopKElement =
  te_Id :: int
  te_Score :: int
  te_Ts :: int
  te_ReplicaID :: int
  te_Data :: "nat option"

definition zero_elem :: TopKElement where
  "zero_elem = \<lparr>te_Id = 0, te_Score = 0, te_Ts = 0, te_ReplicaID = 0, te_Data = None\<rparr>"

type_synonym score = "int \<times> int \<times> nat option"

record TopKRmvCrdt =
  r_vc :: ClockSiTimestamp
  r_replicaID :: int
  r_maxElems :: int
  r_smallest :: TopKElement
  r_elems :: "(int \<times> TopKElement) list"
  r_rems :: "(int \<times> ClockSiTimestamp) list"
  r_notInTop :: "(int \<times> TopKElement list) list"
  r_sorted :: "score list option"

datatype topkrmv_update = TopKRmvAdd score | TopKRmvAddAll "score list" | TopKRmvRemove int
  | TopKRmvRemoveAll "int list" | TopKRmvInit int

datatype topkrmv_op =
    DownstreamTopKAdd TopKElement
  | OptDownstreamTopKAdd TopKElement
  | DownstreamTopKAddAll "TopKElement list" "TopKElement list"
  | DownstreamTopKRemove int ClockSiTimestamp
  | OptDownstreamTopKRemove int ClockSiTimestamp
  | DownstreamTopKRemoveAll "ClockSiTimestamp list" "int list" "int list"
  | DownTopKRmvInit int
  | TopKRmv_NoOp

record TopKRmvRemoveEffect =
  re_id :: int
  re_previousVc :: "ClockSiTimestamp option"
  re_notTopRemoved :: "TopKElement list"
  re_remElem :: TopKElement
  re_oldMin :: TopKElement
  re_minAddedToTop :: bool

datatype topkrmv_effect =
    TopKRmvAddEffect TopKElement int
  | TopKRmvAddNotTopEffect TopKElement int
  | TopKRmvReplaceEffect TopKElement TopKElement TopKElement int
  | TopKRmvRemEffect TopKRmvRemoveEffect
  | TopKRmvAddAllEffect "topkrmv_effect effect list"
  | TopKRmvRemoveAllEffect "TopKRmvRemoveEffect list"

section \<open>Comparisons\<close>

definition te_isEqual :: "TopKElement \<Rightarrow> TopKElement \<Rightarrow> bool" where
  "te_isEqual elem other \<longleftrightarrow> te_Id elem = te_Id other \<and> te_ReplicaID elem = te_ReplicaID other
     \<and> te_Score elem = te_Score other \<and> te_Ts elem = te_Ts other"

definition te_isHigher :: "TopKElement \<Rightarrow> TopKElement \<Rightarrow> bool" where
  "te_isHigher elem other =
     (if te_isEqual other zero_elem then True
      else if te_Score elem > te_Score other then True
      else if te_Score elem = te_Score other
      then te_Id elem > te_Id other \<or> te_Id elem = te_Id other \<and> te_Ts elem > te_Ts other
      else False)"

definition te_isSmaller :: "TopKElement \<Rightarrow> TopKElement \<Rightarrow> bool" where
  "te_isSmaller elem other \<longleftrightarrow> te_isEqual other zero_elem \<or> te_isHigher other elem"

definition TopKRmv_InitializeWithSize :: "int list \<Rightarrow> int \<Rightarrow> int \<Rightarrow> TopKRmvCrdt" where
  "TopKRmv_InitializeWithSize knownIDs replicaID topSize =
     \<lparr>r_vc = NewClockSiTimestamp knownIDs, r_replicaID = replicaID, r_maxElems = topSize, r_smallest = zero_elem,
      r_elems = [], r_rems = [], r_notInTop = [], r_sorted = None\<rparr>"

definition TopKRmv_Initialize :: "int list \<Rightarrow> int \<Rightarrow> TopKRmvCrdt" where
  "TopKRmv_Initialize knownIDs replicaID = TopKRmv_InitializeWithSize knownIDs replicaID 100"

definition TopKRmv_IsBigCRDT :: "TopKRmvCrdt \<Rightarrow> bool" where
  "TopKRmv_IsBigCRDT c \<longleftrightarrow> r_maxElems c > 100 \<and> length (r_elems c) > 100"

section \<open>Reads\<close>

definition te_score :: "TopKElement \<Rightarrow> score" where
  "te_score e = (te_Id e, te_Score e, te_Data e)"

definition TopKRmv_getState :: "TopKRmvCrdt \<Rightarrow> score list" where
  "TopKRmv_getState c = map (te_score \<circ> snd) (r_elems c)"

definition TopKRmv_getTopN :: "(score list \<Rightarrow> score list) \<Rightarrow> TopKRmvCrdt \<Rightarrow> int \<Rightarrow> (TopKRmvCrdt \<times> score list) go" where
  "TopKRmv_getTopN sort_scores c numberEntries =
     (let c' = (if r_sorted c = None then c\<lparr>r_sorted := Some (sort_scores (TopKRmv_getState c))\<rparr> else c);
          es = the (r_sorted c')
      in if numberEntries \<ge> int32 (int (length es)) then Inr (c', es)
         else if numberEntries < 0 then Inl IndexOutOfRange
         else Inr (c', take (nat numberEntries) es))"

text \<open>The result slice has one place per element of the top.\<close>

primrec rmv_above_sorted :: "int \<Rightarrow> nat \<Rightarrow> score list \<Rightarrow> score list \<Rightarrow> score list go" where
  "rmv_above_sorted minValue n added [] = Inr added"
| "rmv_above_sorted minValue n added (e # es) =
     (if fst (snd e) \<ge> minValue
      then if length added < n then rmv_above_sorted minValue n (added @ [e]) es else Inl IndexOutOfRange
      else Inr added)"

definition TopKRmv_getTopKAboveValue :: "TopKRmvCrdt \<Rightarrow> int \<Rightarrow> score list go" where
  "TopKRmv_getTopKAboveValue c minValue =
     (case r_sorted c of
        Some es \<Rightarrow> rmv_above_sorted minValue (length (r_elems c)) [] es
      | None \<Rightarrow> Inr (filter (\<lambda>e. fst (snd e) \<ge> minValue) (TopKRmv_getState c)))"

section \<open>Updates\<close>

text \<open>\<open>Update\<close> advances the replica's clock, so it returns the state too.\<close>

definition stamp :: "TopKRmvCrdt \<Rightarrow> nat \<Rightarrow> score \<Rightarrow> TopKElement" where
  "stamp c fresh add = (case add of (i, s, d) \<Rightarrow>
     \<lparr>te_Id = i, te_Score = s, te_Ts = GetPos (r_vc c) (r_replicaID c), te_ReplicaID = r_replicaID c,
      te_Data = (case d of None \<Rightarrow> Some fresh | Some p \<Rightarrow> Some p)\<rparr>)"

text \<open>An addition that goes to the top is replicated, any other one is optional.\<close>

definition goes_to_top :: "TopKRmvCrdt \<Rightarrow> TopKElement \<Rightarrow> bool" where
  "goes_to_top c e = (case map_of (r_elems c) (te_Id e) of
      Some elem \<Rightarrow> te_Score elem \<le> te_Score e
    | None \<Rightarrow> te_isHigher e (r_smallest c))"

definition rmv_getTopKAddDownstreamArgs :: "TopKRmvCrdt \<Rightarrow> nat \<Rightarrow> score \<Rightarrow> TopKRmvCrdt \<times> topkrmv_op" where
  "rmv_getTopKAddDownstreamArgs c fresh addOp =
     (let c1 = c\<lparr>r_vc := SelfIncTimestamp (r_vc c) (r_replicaID c)\<rparr>;
          localArgs = stamp c1 fresh addOp
      in (c1, if goes_to_top c1 localArgs then DownstreamTopKAdd localArgs else OptDownstreamTopKAdd localArgs))"

definition rmv_getTopKAddAllDownstreamArgs :: "TopKRmvCrdt \<Rightarrow> (nat \<Rightarrow> nat) \<Rightarrow> score list \<Rightarrow> TopKRmvCrdt \<times> topkrmv_op" where
  "rmv_getTopKAddAllDownstreamArgs c fresh scores =
     (let c1 = c\<lparr>r_vc := SelfIncTimestamp (r_vc c) (r_replicaID c)\<rparr>;
          es = map (\<lambda>(i, s). stamp c1 (fresh i) s) (List.enumerate 0 scores)
      in (c1, DownstreamTopKAddAll (filter (goes_to_top c1) es) (filter (\<lambda>e. \<not> goes_to_top c1 e) es)))"

definition rmv_getTopKRemoveDownstreamArgs :: "TopKRmvCrdt \<Rightarrow> int \<Rightarrow> topkrmv_op" where
  "rmv_getTopKRemoveDownstreamArgs c remId =
     (if map_of (r_elems c) remId = None \<and> map_of (r_notInTop c) remId = None then TopKRmv_NoOp
      else if map_of (r_elems c) remId \<noteq> None then DownstreamTopKRemove remId (Copy_clk (r_vc c))
      else OptDownstreamTopKRemove remId (Copy_clk (r_vc c)))"

definition rmv_getTopKRemoveAllDownstreamArgs :: "TopKRmvCrdt \<Rightarrow> int list \<Rightarrow> topkrmv_op" where
  "rmv_getTopKRemoveAllDownstreamArgs c ids =
     (let rems = filter (\<lambda>i. map_of (r_elems c) i \<noteq> None) ids;
          opts = filter (\<lambda>i. map_of (r_elems c) i = None \<and> map_of (r_notInTop c) i \<noteq> None) ids
      in if rems = [] \<and> opts = [] then TopKRmv_NoOp else DownstreamTopKRemoveAll [Copy_clk (r_vc c)] rems opts)"

fun TopKRmv_Update :: "(nat \<Rightarrow> nat) \<Rightarrow> TopKRmvCrdt \<Rightarrow> topkrmv_update \<Rightarrow> TopKRmvCrdt \<times> topkrmv_op" where
  "TopKRmv_Update fresh c (TopKRmvAdd addOp) = rmv_getTopKAddDownstreamArgs c (fresh 0) addOp"
| "TopKRmv_Update fresh c (TopKRmvRemove i) = (c, rmv_getTopKRemoveDownstreamArgs c i)"
| "TopKRmv_Update fresh c (TopKRmvAddAll scores) = rmv_getTopKAddAllDownstreamArgs c fresh scores"
| "TopKRmv_Update fresh c (TopKRmvRemoveAll ids) = (c, rmv_getTopKRemoveAllDownstreamArgs c ids)"
| "TopKRmv_Update fresh c (TopKRmvInit n) = (c, DownTopKRmvInit n)"

section \<open>Additions\<close>

text \<open>\<open>crdt.notInTop[id].add(elem)\<close>, making the set first when the id has none.\<close>

definition hide :: "int \<Rightarrow> TopKElement \<Rightarrow> TopKRmvCrdt \<Rightarrow> TopKRmvCrdt" where
  "hide i e c = c\<lparr>r_notInTop := mput i (List.insert e (case map_of (r_notInTop c) i of None \<Rightarrow> [] | Some es \<Rightarrow> es)) (r_notInTop c)\<rparr>"

primrec rmv_findMin :: "TopKElement \<Rightarrow> TopKElement list \<Rightarrow> TopKElement" where
  "rmv_findMin minSoFar [] = minSoFar"
| "rmv_findMin minSoFar (e # es) = rmv_findMin (if te_isSmaller e minSoFar then e else minSoFar) es"

definition rmv_findAndUpdateMin :: "TopKRmvCrdt \<Rightarrow> TopKRmvCrdt" where
  "rmv_findAndUpdateMin c = c\<lparr>r_smallest := rmv_findMin zero_elem (map snd (r_elems c))\<rparr>"

text \<open>
  The body that \<open>applyAdd\<close> and \<open>applyAddAll\<close> share, for an element that no removal covers: its
  id is in the top, or there is space, or it displaces the smallest element, or it waits.
\<close>

definition add_has :: "TopKRmvCrdt \<Rightarrow> int \<Rightarrow> TopKElement \<Rightarrow> TopKElement \<Rightarrow> TopKRmvCrdt \<times> topkrmv_effect effect" where
  "add_has c oldTs e elem =
     (if te_isHigher e elem
      then let c1 = c\<lparr>r_elems := mput (te_Id e) e (r_elems c)\<rparr>;
               c2 = (if te_ReplicaID elem \<noteq> te_ReplicaID e then hide (te_Id e) elem c1 else c1);
               c3 = (if te_isEqual (r_smallest c2) elem then rmv_findAndUpdateMin c2 else c2)
           in (c3\<lparr>r_sorted := None\<rparr>, Eff (TopKRmvReplaceEffect e elem (r_smallest c) oldTs))
      else (hide (te_Id e) e c, Eff (TopKRmvAddNotTopEffect e oldTs)))"

definition add_space :: "TopKRmvCrdt \<Rightarrow> int \<Rightarrow> TopKElement \<Rightarrow> TopKRmvCrdt \<times> topkrmv_effect effect" where
  "add_space c oldTs e =
     (let c1 = c\<lparr>r_elems := mput (te_Id e) e (r_elems c), r_sorted := None\<rparr>
      in if te_isEqual (r_smallest c) zero_elem \<or> te_isHigher (r_smallest c) e
         then (c1\<lparr>r_smallest := e\<rparr>, Eff (TopKRmvReplaceEffect e zero_elem (r_smallest c) oldTs))
         else (c1, Eff (TopKRmvAddEffect e oldTs)))"

definition add_displace :: "TopKRmvCrdt \<Rightarrow> int \<Rightarrow> TopKElement \<Rightarrow> TopKRmvCrdt \<times> topkrmv_effect effect" where
  "add_displace c oldTs e =
     (let min = r_smallest c;
          c1 = hide (te_Id min) min c;
          c2 = c1\<lparr>r_elems := mput (te_Id e) e (AList.delete (te_Id min) (r_elems c1))\<rparr>
      in ((rmv_findAndUpdateMin c2)\<lparr>r_sorted := None\<rparr>, Eff (TopKRmvReplaceEffect e min min oldTs)))"

definition add_live :: "TopKRmvCrdt \<Rightarrow> int \<Rightarrow> TopKElement \<Rightarrow> TopKRmvCrdt \<times> topkrmv_effect effect" where
  "add_live c oldTs e =
     (case map_of (r_elems c) (te_Id e) of
        Some elem \<Rightarrow> add_has c oldTs e elem
      | None \<Rightarrow>
          if int (length (r_elems c)) < r_maxElems c then add_space c oldTs e
          else if te_isHigher e (r_smallest c) then add_displace c oldTs e
          else (hide (te_Id e) e c, Eff (TopKRmvAddNotTopEffect e oldTs)))"

text \<open>An element that a removal covers changes nothing; the removal is sent back.\<close>

definition add_elem ::
    "TopKRmvCrdt \<Rightarrow> int \<Rightarrow> TopKElement \<Rightarrow> TopKRmvCrdt \<times> topkrmv_effect effect \<times> ClockSiTimestamp option" where
  "add_elem c oldTs e =
     (case map_of (r_rems c) (te_Id e) of
        Some remsVc \<Rightarrow>
          if GetPos remsVc (te_ReplicaID e) < te_Ts e then (case add_live c oldTs e of (c', eff) \<Rightarrow> (c', eff, None))
          else (c, NoEffect, Some remsVc)
      | None \<Rightarrow> (case add_live c oldTs e of (c', eff) \<Rightarrow> (c', eff, None)))"

definition with_data :: "nat \<Rightarrow> TopKElement \<Rightarrow> TopKElement" where
  "with_data fresh e = (case te_Data e of None \<Rightarrow> e\<lparr>te_Data := Some fresh\<rparr> | Some p \<Rightarrow> e)"

definition TopKRmv_applyAdd ::
    "nat \<Rightarrow> TopKRmvCrdt \<Rightarrow> TopKElement \<Rightarrow> TopKRmvCrdt \<times> topkrmv_effect effect \<times> topkrmv_op option" where
  "TopKRmv_applyAdd fresh c op =
     (let oldTs = GetPos (r_vc c) (te_ReplicaID op);
          e = with_data fresh op;
          c1 = c\<lparr>r_vc := UpdatePos (r_vc c) (te_ReplicaID op) (te_Ts op)\<rparr>
      in case add_elem c1 oldTs e of (c2, eff, rem) \<Rightarrow>
           (c2, eff, map_option (DownstreamTopKRemove (te_Id e)) rem))"

text \<open>
  The two loops of \<open>applyAddAll\<close>. The slices of removals to send back have one place per
  replicated addition; a removal for an optional addition may not fit.
\<close>

primrec addAll_loop ::
    "(nat \<Rightarrow> nat) \<Rightarrow> nat \<Rightarrow> int \<Rightarrow> nat \<Rightarrow> TopKRmvCrdt \<Rightarrow> topkrmv_effect effect list \<Rightarrow> (int \<times> ClockSiTimestamp) list
       \<Rightarrow> TopKElement list \<Rightarrow> (TopKRmvCrdt \<times> topkrmv_effect effect list \<times> (int \<times> ClockSiTimestamp) list) go" where
  "addAll_loop fresh places oldTs i c effs rems [] = Inr (c, effs, rems)"
| "addAll_loop fresh places oldTs i c effs rems (newElem # es) =
     (case add_elem c oldTs (with_data (fresh i) newElem) of (c', eff, rem) \<Rightarrow>
        (case rem of
           None \<Rightarrow> addAll_loop fresh places oldTs (Suc i) c' (effs @ [eff]) rems es
         | Some vc \<Rightarrow>
             if length rems < places
             then addAll_loop fresh places oldTs (Suc i) c' (effs @ [eff]) (rems @ [(te_Id newElem, vc)]) es
             else Inl IndexOutOfRange))"

definition TopKRmv_applyAddAll ::
    "(nat \<Rightarrow> nat) \<Rightarrow> TopKRmvCrdt \<Rightarrow> TopKElement list \<Rightarrow> TopKElement list
       \<Rightarrow> (TopKRmvCrdt \<times> topkrmv_effect effect \<times> topkrmv_op option) go" where
  "TopKRmv_applyAddAll fresh c adds optAdds =
     (if adds = [] \<and> optAdds = [] then Inl IndexOutOfRange
      else let firstElem = (if adds \<noteq> [] then adds ! 0 else optAdds ! 0);
               oldTs = GetPos (r_vc c) (te_ReplicaID firstElem);
               c1 = c\<lparr>r_vc := UpdatePos (r_vc c) (te_ReplicaID firstElem) (te_Ts firstElem)\<rparr>
           in gbind (addAll_loop fresh (length adds) oldTs 0 c1 [] [] (adds @ optAdds)) (\<lambda>(c2, effs, rems).
                Inr (c2, Eff (TopKRmvAddAllEffect effs),
                     if rems = [] then None else Some (DownstreamTopKRemoveAll (map snd rems) (map fst rems) []))))"

section \<open>Removals\<close>

text \<open>The highest of a set of elements, in its iteration order.\<close>

primrec find_highest :: "TopKElement \<Rightarrow> TopKElement list \<Rightarrow> TopKElement" where
  "find_highest highest [] = highest"
| "find_highest highest (e # es) = find_highest (if te_isHigher e highest then e else highest) es"

text \<open>\<open>delete(set, e)\<close>, and the id with it when the set becomes empty.\<close>

definition unhide :: "int \<Rightarrow> TopKElement \<Rightarrow> TopKRmvCrdt \<Rightarrow> TopKRmvCrdt" where
  "unhide i e c =
     (let es = removeAll e (case map_of (r_notInTop c) i of None \<Rightarrow> [] | Some es \<Rightarrow> es)
      in c\<lparr>r_notInTop := (if es = [] then AList.delete i (r_notInTop c) else mput i es (r_notInTop c))\<rparr>)"

definition covered :: "ClockSiTimestamp \<Rightarrow> TopKElement \<Rightarrow> bool" where
  "covered vc e \<longleftrightarrow> te_Ts e \<le> GetPos vc (te_ReplicaID e)"

text \<open>The candidates outside the top: the hidden elements of ids that are not in it.\<close>

definition candidates :: "TopKRmvCrdt \<Rightarrow> TopKElement list" where
  "candidates c = concat (map snd (filter (\<lambda>(i, es). map_of (r_elems c) i = None) (r_notInTop c)))"

text \<open>
  What happens after the element \<open>elem\<close> was taken out of the top: a full top is filled up with
  the highest element outside, which is taken to be the smallest of the top; a top with space
  gets another addition of the same id, if there is one.
\<close>

definition refill ::
    "TopKRmvCrdt \<Rightarrow> int \<Rightarrow> TopKElement \<Rightarrow> TopKElement list \<Rightarrow> TopKRmvCrdt \<times> bool \<times> TopKElement option" where
  "refill c remID elem hiddenForId =
     (if int (length (r_elems c)) = r_maxElems c - 1
      then let highestElem = find_highest zero_elem (candidates c)
           in if \<not> te_isEqual highestElem zero_elem
              then (unhide (te_Id highestElem) highestElem
                      (c\<lparr>r_elems := mput (te_Id highestElem) highestElem (r_elems c), r_smallest := highestElem\<rparr>),
                    True, Some highestElem)
              else (if te_isEqual elem (r_smallest c) then rmv_findAndUpdateMin c else c, False, None)
      else if hiddenForId \<noteq> []
      then let highest = find_highest zero_elem hiddenForId;
               es = removeAll highest hiddenForId;
               hidden = mput remID es (r_notInTop c);
               c2 = c\<lparr>r_notInTop := (if es = [] then AList.delete (te_Id highest) hidden else hidden),
                      r_elems := mput (te_Id highest) highest (r_elems c)\<rparr>
           in (if te_isEqual elem (r_smallest c) then c2\<lparr>r_smallest := highest\<rparr> else c2, False, Some highest)
      else (if te_isEqual elem (r_smallest c) then rmv_findAndUpdateMin c else c, False, None))"

definition rem_elem :: "TopKRmvCrdt \<Rightarrow> int \<Rightarrow> ClockSiTimestamp \<Rightarrow> TopKRmvCrdt \<times> TopKRmvRemoveEffect \<times> TopKElement option" where
  "rem_elem c remID vc =
     (let previousVc = map_of (r_rems c) remID;
          c1 = c\<lparr>r_rems := mput remID (case previousVc of None \<Rightarrow> vc | Some rems \<Rightarrow> Merge rems (Some vc)) (r_rems c)\<rparr>;
          hidden = (case map_of (r_notInTop c1) remID of None \<Rightarrow> [] | Some es \<Rightarrow> es);
          left = filter (\<lambda>e. \<not> covered vc e) hidden;
          c2 = c1\<lparr>r_notInTop := (if map_of (r_notInTop c1) remID = None then r_notInTop c1
            else if left = [] then AList.delete remID (r_notInTop c1) else mput remID left (r_notInTop c1))\<rparr>;
          eff = \<lparr>re_id = remID, re_previousVc = map_option Copy_clk previousVc, re_notTopRemoved = filter (covered vc) hidden,
            re_remElem = zero_elem, re_oldMin = zero_elem, re_minAddedToTop = False\<rparr>
      in case map_of (r_elems c2) remID of
           Some elem \<Rightarrow>
             if covered vc elem
             then case refill (c2\<lparr>r_elems := AList.delete remID (r_elems c2), r_sorted := None\<rparr>) remID elem left of
                    (c3, minAdded, promoted) \<Rightarrow>
                      (c3, eff\<lparr>re_remElem := elem, re_oldMin := r_smallest c2, re_minAddedToTop := minAdded\<rparr>, promoted)
             else (c2, eff, None)
         | None \<Rightarrow> (c2, eff, None))"

definition TopKRmv_applyRemove ::
    "nat \<Rightarrow> TopKRmvCrdt \<Rightarrow> int \<Rightarrow> ClockSiTimestamp \<Rightarrow> TopKRmvCrdt \<times> topkrmv_effect effect \<times> topkrmv_op option" where
  "TopKRmv_applyRemove fresh c remId vc = (case rem_elem c remId vc of (c', eff, promoted) \<Rightarrow>
     (c', Eff (TopKRmvRemEffect eff), map_option (\<lambda>e. DownstreamTopKAdd (with_data fresh e)) promoted))"

text \<open>The clock of the j-th removal is \<open>op.Vc[j % len(op.Vc)]\<close>.\<close>

primrec remAll_loop ::
    "ClockSiTimestamp list \<Rightarrow> nat \<Rightarrow> TopKRmvCrdt \<Rightarrow> TopKRmvRemoveEffect list \<Rightarrow> TopKElement list \<Rightarrow> int list
       \<Rightarrow> (TopKRmvCrdt \<times> TopKRmvRemoveEffect list \<times> TopKElement list) go" where
  "remAll_loop vcs j c effs adds [] = Inr (c, effs, adds)"
| "remAll_loop vcs j c effs adds (remID # ids) =
     (if vcs = [] then Inl DivideByZero
      else case rem_elem c remID (vcs ! (j mod length vcs)) of (c', eff, promoted) \<Rightarrow>
             remAll_loop vcs (Suc j) c' (effs @ [eff]) (adds @ (case promoted of None \<Rightarrow> [] | Some e \<Rightarrow> [e])) ids)"

definition TopKRmv_applyRemoveAll ::
    "nat \<Rightarrow> TopKRmvCrdt \<Rightarrow> ClockSiTimestamp list \<Rightarrow> int list \<Rightarrow> int list
       \<Rightarrow> (TopKRmvCrdt \<times> topkrmv_effect effect \<times> topkrmv_op option) go" where
  "TopKRmv_applyRemoveAll fresh c vcs rems optRems =
     gbind (remAll_loop vcs 0 c [] [] rems) (\<lambda>(c1, effs1, adds1).
     gbind (remAll_loop vcs 0 c1 effs1 adds1 optRems) (\<lambda>(c2, effs, adds).
       Inr (c2, Eff (TopKRmvRemoveAllEffect effs),
            if adds = [] then None else Some (DownstreamTopKAddAll (map (with_data fresh) adds) []))))"

text \<open>For any other argument the effect pointer stays nil.\<close>

fun TopKRmv_applyDownstream ::
    "(nat \<Rightarrow> nat) \<Rightarrow> TopKRmvCrdt \<Rightarrow> topkrmv_op \<Rightarrow> (TopKRmvCrdt \<times> topkrmv_effect effect option \<times> topkrmv_op option) go" where
  "TopKRmv_applyDownstream fresh c (DownstreamTopKAdd e) = (case TopKRmv_applyAdd (fresh 0) c e of (c', eff, d) \<Rightarrow> Inr (c', Some eff, d))"
| "TopKRmv_applyDownstream fresh c (OptDownstreamTopKAdd e) = (case TopKRmv_applyAdd (fresh 0) c e of (c', eff, d) \<Rightarrow> Inr (c', Some eff, d))"
| "TopKRmv_applyDownstream fresh c (DownstreamTopKRemove i vc) = (case TopKRmv_applyRemove (fresh 0) c i vc of (c', eff, d) \<Rightarrow> Inr (c', Some eff, d))"
| "TopKRmv_applyDownstream fresh c (OptDownstreamTopKRemove i vc) = (case TopKRmv_applyRemove (fresh 0) c i vc of (c', eff, d) \<Rightarrow> Inr (c', Some eff, d))"
| "TopKRmv_applyDownstream fresh c (DownstreamTopKAddAll adds opts) =
     gbind (TopKRmv_applyAddAll fresh c adds opts) (\<lambda>(c', eff, d). Inr (c', Some eff, d))"
| "TopKRmv_applyDownstream fresh c (DownstreamTopKRemoveAll vcs rems opts) =
     gbind (TopKRmv_applyRemoveAll (fresh 0) c vcs rems opts) (\<lambda>(c', eff, d). Inr (c', Some eff, d))"
| "TopKRmv_applyDownstream fresh c (DownTopKRmvInit n) = Inr (c\<lparr>r_maxElems := n\<rparr>, Some NoEffect, None)"
| "TopKRmv_applyDownstream fresh c TopKRmv_NoOp = Inr (c, None, None)"

definition TopKRmv_Downstream ::
    "bool \<Rightarrow> (nat \<Rightarrow> nat) \<Rightarrow> (topkrmv_op, topkrmv_effect effect option) History list \<times> TopKRmvCrdt \<Rightarrow> ClockSiTimestamp
       \<Rightarrow> topkrmv_op \<Rightarrow> (((topkrmv_op, topkrmv_effect effect option) History list \<times> TopKRmvCrdt) \<times> topkrmv_op option) go" where
  "TopKRmv_Downstream vmDisabled fresh c updTs downstreamArgs = (case c of (history, v) \<Rightarrow>
     gbind (TopKRmv_applyDownstream fresh v downstreamArgs) (\<lambda>(v', effect, other).
       Inr ((addToHistory vmDisabled history updTs downstreamArgs effect, v'), other)))"

definition TopKRmv_reapplyOp ::
    "(nat \<Rightarrow> nat) \<Rightarrow> TopKRmvCrdt \<Rightarrow> topkrmv_op \<Rightarrow> (TopKRmvCrdt \<times> topkrmv_effect effect option) go" where
  "TopKRmv_reapplyOp fresh c updArgs = gbind (TopKRmv_applyDownstream fresh c updArgs) (\<lambda>(c', eff, d). Inr (c', eff))"

section \<open>Copies and undoing\<close>

definition TopKRmv_Copy :: "TopKRmvCrdt \<Rightarrow> TopKRmvCrdt" where
  "TopKRmv_Copy c = c\<lparr>r_vc := Copy_clk (r_vc c), r_rems := map (map_prod id Copy_clk) (r_rems c), r_sorted := None\<rparr>"

definition rmv_undoAddEffect :: "TopKRmvCrdt \<Rightarrow> TopKElement \<Rightarrow> int \<Rightarrow> TopKRmvCrdt" where
  "rmv_undoAddEffect c e oldTs =
     c\<lparr>r_vc := UpdateForcedPos (r_vc c) (te_ReplicaID e) oldTs, r_elems := AList.delete (te_Id e) (r_elems c)\<rparr>"

definition rmv_undoAddNotTopEffect :: "TopKRmvCrdt \<Rightarrow> TopKElement \<Rightarrow> int \<Rightarrow> TopKRmvCrdt" where
  "rmv_undoAddNotTopEffect c e oldTs =
     unhide (te_Id e) e (c\<lparr>r_vc := UpdateForcedPos (r_vc c) (te_ReplicaID e) oldTs\<rparr>)"

definition rmv_undoReplaceEffect :: "TopKRmvCrdt \<Rightarrow> TopKElement \<Rightarrow> TopKElement \<Rightarrow> TopKElement \<Rightarrow> int \<Rightarrow> TopKRmvCrdt" where
  "rmv_undoReplaceEffect c newElem oldElem oldMin oldTs =
     (let c1 = c\<lparr>r_vc := UpdateForcedPos (r_vc c) (te_ReplicaID newElem) oldTs,
                r_elems := AList.delete (te_Id newElem) (r_elems c)\<rparr>;
          c2 = (if te_isEqual oldElem zero_elem then c1
            else let c' = c1\<lparr>r_elems := mput (te_Id oldElem) oldElem (r_elems c1)\<rparr>
              in if map_of (r_notInTop c') (te_Id oldElem) = None then c' else unhide (te_Id oldElem) oldElem c')
      in c2\<lparr>r_smallest := oldMin\<rparr>)"

text \<open>The set of the id is made even when nothing is put into it.\<close>

definition rmv_undoRemoveEffect :: "TopKRmvCrdt \<Rightarrow> TopKRmvRemoveEffect \<Rightarrow> TopKRmvCrdt" where
  "rmv_undoRemoveEffect c eff =
     (let i = re_id eff;
          c1 = c\<lparr>r_rems := (case re_previousVc eff of None \<Rightarrow> AList.delete i (r_rems c)
                 | Some vc \<Rightarrow> mput i (Copy_clk vc) (r_rems c))\<rparr>;
          hidden = (case map_of (r_notInTop c1) i of None \<Rightarrow> [] | Some es \<Rightarrow> es);
          c2 = c1\<lparr>r_notInTop := mput i (foldl (\<lambda>es e. List.insert e es) hidden (re_notTopRemoved eff)) (r_notInTop c1)\<rparr>
      in if te_isEqual (re_remElem eff) zero_elem then c2
         else let c3 = (case map_of (r_elems c2) (te_Id (re_remElem eff)) of None \<Rightarrow> c2 | Some inTop \<Rightarrow> hide i inTop c2);
                  c4 = c3\<lparr>r_elems := mput i (re_remElem eff) (r_elems c3)\<rparr>;
                  c5 = (if re_minAddedToTop eff
                    then hide (te_Id (r_smallest c4)) (r_smallest c4) (c4\<lparr>r_elems := AList.delete (te_Id (r_smallest c4)) (r_elems c4)\<rparr>)
                    else c4)
              in c5\<lparr>r_smallest := re_oldMin eff\<rparr>)"

function (sequential) TopKRmv_undoEffect :: "TopKRmvCrdt \<Rightarrow> topkrmv_effect effect \<Rightarrow> TopKRmvCrdt"
  and rmv_undoAddAllEffect :: "TopKRmvCrdt \<Rightarrow> topkrmv_effect effect list \<Rightarrow> TopKRmvCrdt" where
  "TopKRmv_undoEffect c (Eff (TopKRmvAddEffect e oldTs)) = rmv_undoAddEffect c e oldTs"
| "TopKRmv_undoEffect c (Eff (TopKRmvAddNotTopEffect e oldTs)) = rmv_undoAddNotTopEffect c e oldTs"
| "TopKRmv_undoEffect c (Eff (TopKRmvReplaceEffect newElem oldElem oldMin oldTs)) = rmv_undoReplaceEffect c newElem oldElem oldMin oldTs"
| "TopKRmv_undoEffect c (Eff (TopKRmvRemEffect eff)) = rmv_undoRemoveEffect c eff"
| "TopKRmv_undoEffect c (Eff (TopKRmvAddAllEffect effs)) = rmv_undoAddAllEffect c effs"
| "TopKRmv_undoEffect c (Eff (TopKRmvRemoveAllEffect effs)) = foldl rmv_undoRemoveEffect c effs"
| "TopKRmv_undoEffect c NoEffect = c"
| "TopKRmv_undoEffect c NilEffect = c"
| "rmv_undoAddAllEffect c [] = c"
| "rmv_undoAddAllEffect c (e # es) = rmv_undoAddAllEffect (TopKRmv_undoEffect c e) es"
  by pat_completeness auto
termination
  by (relation "measure (case_sum (\<lambda>p. size_effect size (snd p)) (\<lambda>p. size_list (size_effect size) (snd p)))") auto

section \<open>Messages\<close>

text \<open>
  The contents of data slices are read through \<open>heap\<close>. Every received message gives its data a
  new address. Clocks go through their byte encoding, with the known ids of the replica.
\<close>

type_synonym elem_msg = "int \<times> int \<times> int \<times> int \<times> string"

definition te_msg :: "(nat \<Rightarrow> string) \<Rightarrow> TopKElement \<Rightarrow> elem_msg go" where
  "te_msg heap e = (case te_Data e of None \<Rightarrow> Inl NilDereference
     | Some p \<Rightarrow> Inr (te_Id e, te_Score e, te_Ts e, te_ReplicaID e, heap p))"

definition msg_te :: "nat \<Rightarrow> elem_msg \<Rightarrow> TopKElement" where
  "msg_te p m = (case m of (i, s, ts, r, d) \<Rightarrow>
     \<lparr>te_Id = i, te_Score = s, te_Ts = ts, te_ReplicaID = int16 r, te_Data = Some p\<rparr>)"

primrec te_msgs :: "(nat \<Rightarrow> string) \<Rightarrow> TopKElement list \<Rightarrow> elem_msg list go" where
  "te_msgs heap [] = Inr []"
| "te_msgs heap (e # es) = gbind (te_msg heap e) (\<lambda>m. gbind (te_msgs heap es) (\<lambda>ms. Inr (m # ms)))"

section \<open>Reachable states\<close>

text \<open>
  A state is reached by updates (which advance the clock), operations of any replica in any
  order and reads. Every addition has a positive stamp: \<open>Update\<close> increments the clock first.
  A \<open>TopKInit\<close> may arrive at any time, with any positive size; \<open>k\<close> is at least every size set.
\<close>

fun op_stamped :: "nat \<Rightarrow> topkrmv_op \<Rightarrow> bool" where
  "op_stamped k (DownstreamTopKAdd e) = (0 < te_Ts e)"
| "op_stamped k (OptDownstreamTopKAdd e) = (0 < te_Ts e)"
| "op_stamped k (DownstreamTopKAddAll adds opts) = (\<forall>e \<in> set (adds @ opts). 0 < te_Ts e)"
| "op_stamped k (DownstreamTopKRemove i vc) = wf_map vc"
| "op_stamped k (OptDownstreamTopKRemove i vc) = wf_map vc"
| "op_stamped k (DownstreamTopKRemoveAll vcs rems opts) = (\<forall>vc \<in> set vcs. wf_map vc)"
| "op_stamped k (DownTopKRmvInit n) = (0 < n \<and> n \<le> int k)"
| "op_stamped k TopKRmv_NoOp = True"

inductive rmv_reach :: "nat \<Rightarrow> (score list \<Rightarrow> score list) \<Rightarrow> TopKRmvCrdt \<Rightarrow> bool" for k sort_scores where
  init: "0 < n \<Longrightarrow> n \<le> int k \<Longrightarrow> rmv_reach k sort_scores (TopKRmv_InitializeWithSize knownIDs replicaID n)"
| update: "rmv_reach k sort_scores c \<Longrightarrow> rmv_reach k sort_scores (fst (TopKRmv_Update fresh c u))"
| down: "rmv_reach k sort_scores c \<Longrightarrow> op_stamped k u \<Longrightarrow> TopKRmv_applyDownstream fresh c u = Inr (c', eff, other)
     \<Longrightarrow> rmv_reach k sort_scores c'"
| read: "rmv_reach k sort_scores c \<Longrightarrow> TopKRmv_getTopN sort_scores c n = Inr (c', r) \<Longrightarrow> rmv_reach k sort_scores c'"

section \<open>What the state contains\<close>

definition hidden :: "TopKRmvCrdt \<Rightarrow> int \<Rightarrow> TopKElement list" where
  "hidden c i = (case map_of (r_notInTop c) i of None \<Rightarrow> [] | Some es \<Rightarrow> es)"

definition tops :: "TopKRmvCrdt \<Rightarrow> TopKElement set" where
  "tops c = snd ` set (r_elems c)"

text \<open>No removal known for the id of an element covers it.\<close>

definition alive :: "(int \<times> ClockSiTimestamp) list \<Rightarrow> TopKElement \<Rightarrow> bool" where
  "alive rems e \<longleftrightarrow> 0 < te_Ts e \<and> (case map_of rems (te_Id e) of None \<Rightarrow> True | Some vc \<Rightarrow> \<not> covered vc e)"

definition content_ok :: "TopKRmvCrdt \<Rightarrow> bool" where
  "content_ok c \<longleftrightarrow> wf_map (r_elems c) \<and> wf_map (r_notInTop c) \<and> (\<forall>p \<in> set (r_rems c). wf_map (snd p))
     \<and> (\<forall>p \<in> set (r_elems c). te_Id (snd p) = fst p \<and> alive (r_rems c) (snd p))
     \<and> (\<forall>p \<in> set (r_notInTop c). \<forall>e \<in> set (snd p). te_Id e = fst p \<and> alive (r_rems c) e)"

text \<open>
  The smallest element is one of the top, and the top is not larger than the largest size so
  far: a smaller size does not shorten it.
\<close>

definition size_ok :: "nat \<Rightarrow> TopKRmvCrdt \<Rightarrow> bool" where
  "size_ok k c \<longleftrightarrow> 0 < r_maxElems c \<and> r_maxElems c \<le> int k \<and> length (r_elems c) \<le> k
     \<and> (r_elems c = [] \<longrightarrow> r_smallest c = zero_elem) \<and> (r_elems c \<noteq> [] \<longrightarrow> r_smallest c \<in> tops c)"

definition buffer_ok :: "(score list \<Rightarrow> score list) \<Rightarrow> TopKRmvCrdt \<Rightarrow> bool" where
  "buffer_ok sort_scores c \<longleftrightarrow> r_sorted c = None \<or> r_sorted c = Some (sort_scores (TopKRmv_getState c))"

lemma alive_not_zero: "alive rems e \<Longrightarrow> \<not> te_isEqual e zero_elem"
  by (simp add: alive_def te_isEqual_def zero_elem_def)

lemma mput_keeps: "p \<in> set m \<Longrightarrow> fst p \<noteq> k \<Longrightarrow> p \<in> set (mput k v m)"
  by (induction m) auto

lemma mput_has: "(k, v) \<in> set (mput k v m)"
  by (induction m) auto

lemma length_delete_less: "map_of m k \<noteq> None \<Longrightarrow> length (AList.delete k m) < length m"
proof (induction m)
  case (Cons p m)
  then show ?case using length_delete_le [of k m] by (cases "fst p = k") auto
qed simp

lemma set_delete: "set (AList.delete k m) = {p \<in> set m. fst p \<noteq> k}"
  by (auto simp: AList.delete_eq)

lemma hidden_in: "map_of (r_notInTop c) i = Some es \<Longrightarrow> (i, es) \<in> set (r_notInTop c)"
  by (rule map_of_SomeD)

lemma content_elems:
  assumes "content_ok c" and "te_Id e = i" and "alive (r_rems c) e"
  shows "content_ok (c\<lparr>r_elems := mput i e (r_elems c)\<rparr>)"
  using assms set_mput_subset [of i e "r_elems c"] by (auto simp: content_ok_def)

lemma content_elems_delete: "content_ok c \<Longrightarrow> content_ok (c\<lparr>r_elems := AList.delete i (r_elems c)\<rparr>)"
  by (auto simp: content_ok_def wf_map_delete set_delete)

lemma content_notInTop:
  assumes "content_ok c" and "\<forall>e \<in> set es. te_Id e = i \<and> alive (r_rems c) e"
  shows "content_ok (c\<lparr>r_notInTop := mput i es (r_notInTop c)\<rparr>)"
  using assms set_mput_subset [of i es "r_notInTop c"] by (fastforce simp: content_ok_def)

lemma content_notInTop_delete: "content_ok c \<Longrightarrow> content_ok (c\<lparr>r_notInTop := AList.delete i (r_notInTop c)\<rparr>)"
  by (auto simp: content_ok_def wf_map_delete set_delete)

lemma content_other [simp]:
  "content_ok (c\<lparr>r_smallest := e\<rparr>) = content_ok c" "content_ok (c\<lparr>r_sorted := s\<rparr>) = content_ok c"
  "content_ok (c\<lparr>r_vc := v\<rparr>) = content_ok c"
  by (simp_all add: content_ok_def)

lemma hidden_content: "content_ok c \<Longrightarrow> e \<in> set (hidden c i) \<Longrightarrow> te_Id e = i \<and> alive (r_rems c) e"
  by (cases "map_of (r_notInTop c) i") (auto simp: content_ok_def hidden_def dest!: map_of_SomeD)

lemma content_hide: "content_ok c \<Longrightarrow> te_Id e = i \<Longrightarrow> alive (r_rems c) e \<Longrightarrow> content_ok (hide i e c)"
  unfolding hide_def by (rule content_notInTop) (auto simp: hidden_def [symmetric] dest: hidden_content)

lemma content_unhide: "content_ok c \<Longrightarrow> content_ok (unhide i e c)"
  unfolding unhide_def Let_def hidden_def [symmetric]
  by (auto intro!: content_notInTop content_notInTop_delete dest: hidden_content)

lemma content_findMin [simp]: "content_ok (rmv_findAndUpdateMin c) = content_ok c"
  by (simp add: rmv_findAndUpdateMin_def)

lemma hide_fields [simp]:
  "r_elems (hide i e c) = r_elems c" "r_rems (hide i e c) = r_rems c" "r_smallest (hide i e c) = r_smallest c"
  "r_maxElems (hide i e c) = r_maxElems c" "r_sorted (hide i e c) = r_sorted c"
  by (simp_all add: hide_def)

lemma unhide_fields [simp]:
  "r_elems (unhide i e c) = r_elems c" "r_rems (unhide i e c) = r_rems c" "r_smallest (unhide i e c) = r_smallest c"
  "r_maxElems (unhide i e c) = r_maxElems c" "r_sorted (unhide i e c) = r_sorted c"
  by (simp_all add: unhide_def Let_def)

lemma findMin_fields [simp]:
  "r_elems (rmv_findAndUpdateMin c) = r_elems c" "r_rems (rmv_findAndUpdateMin c) = r_rems c"
  "r_maxElems (rmv_findAndUpdateMin c) = r_maxElems c" "r_sorted (rmv_findAndUpdateMin c) = r_sorted c"
  by (simp_all add: rmv_findAndUpdateMin_def)

section \<open>Additions keep the state in order\<close>

lemma elem_alive: "content_ok c \<Longrightarrow> map_of (r_elems c) i = Some e \<Longrightarrow> te_Id e = i \<and> alive (r_rems c) e"
  by (auto simp: content_ok_def dest!: map_of_SomeD)

lemma tops_alive: "content_ok c \<Longrightarrow> e \<in> tops c \<Longrightarrow> alive (r_rems c) e \<and> map_of (r_elems c) (te_Id e) = Some e"
  by (auto simp: content_ok_def tops_def wf_map_def)

lemma findMin_in: "rmv_findMin m es \<in> insert m (set es)"
proof (induction es arbitrary: m)
  case (Cons e es)
  then show ?case using Cons [of e] Cons [of m] by (cases "te_isSmaller e m") auto
qed simp

lemma findMin_zero_in: "es \<noteq> [] \<Longrightarrow> rmv_findMin zero_elem es \<in> set es"
proof (cases es)
  case (Cons e es')
  have "te_isSmaller e zero_elem" by (simp add: te_isSmaller_def te_isEqual_def)
  with Cons findMin_in [of e es'] show ?thesis by simp
qed simp

lemma findMin_size: "0 < r_maxElems c \<Longrightarrow> r_maxElems c \<le> int k \<Longrightarrow> length (r_elems c) \<le> k \<Longrightarrow> size_ok k (rmv_findAndUpdateMin c)"
  using findMin_zero_in [of "map snd (r_elems c)"]
  by (auto simp: size_ok_def rmv_findAndUpdateMin_def tops_def)

lemma mput_not_Nil [simp]: "mput k v m \<noteq> []"
  by (cases m) auto

lemma tops_mput: "tops (c\<lparr>r_elems := mput i e m\<rparr>) \<subseteq> insert e (snd ` set m)"
  using set_mput_subset [of i e m] by (auto simp: tops_def)

lemma add_has_ok:
  assumes "content_ok c" and "size_ok k c" and "alive (r_rems c) e" and "map_of (r_elems c) (te_Id e) = Some elem"
  shows "content_ok (fst (add_has c oldTs e elem)) \<and> size_ok k (fst (add_has c oldTs e elem))"
proof -
  note el = elem_alive [OF assms(1,4)]
  have len: "length (mput (te_Id e) e (r_elems c)) = length (r_elems c)" using assms(4) by (simp add: length_mput)
  have ne: "r_elems c \<noteq> []" using assms(4) by auto
  with assms(2) have small: "r_smallest c \<in> tops c" "0 < r_maxElems c" "r_maxElems c \<le> int k" "length (r_elems c) \<le> k"
    by (auto simp: size_ok_def)
  define c2 where "c2 = (if te_ReplicaID elem \<noteq> te_ReplicaID e
    then hide (te_Id e) elem (c\<lparr>r_elems := mput (te_Id e) e (r_elems c)\<rparr>) else c\<lparr>r_elems := mput (te_Id e) e (r_elems c)\<rparr>)"
  have content: "content_ok c2"
    using assms(1,3) el by (auto simp: c2_def intro!: content_hide content_elems)
  have fields: "r_elems c2 = mput (te_Id e) e (r_elems c)" "r_smallest c2 = r_smallest c" "r_maxElems c2 = r_maxElems c"
    by (simp_all add: c2_def)
  have keep: "size_ok k c2" if "\<not> te_isEqual (r_smallest c) elem"
  proof -
    have "r_smallest c \<noteq> elem" using that by (auto simp: te_isEqual_def)
    with tops_alive [OF assms(1) small(1)] assms(4) have "te_Id (r_smallest c) \<noteq> te_Id e" by auto
    moreover have "(te_Id (r_smallest c), r_smallest c) \<in> set (r_elems c)"
      using tops_alive [OF assms(1) small(1)] by (auto dest: map_of_SomeD)
    ultimately have "(te_Id (r_smallest c), r_smallest c) \<in> set (r_elems c2)" by (simp add: fields mput_keeps)
    then show ?thesis using small len fields by (force simp: size_ok_def tops_def)
  qed
  have min: "size_ok k (rmv_findAndUpdateMin c2)" by (rule findMin_size) (use small len fields in auto)
  have sorted: "size_ok k (d\<lparr>r_sorted := None\<rparr>) = size_ok k d" for d by (simp add: size_ok_def tops_def)
  have "size_ok k (hide (te_Id e) e c)" using assms(2) by (simp add: size_ok_def tops_def)
  with content keep min sorted show ?thesis
    using content_hide [OF assms(1) refl assms(3)] fields(2)
    by (simp add: add_has_def Let_def c2_def [symmetric] fields(2))
qed

lemma size_sorted [simp]: "size_ok k (c\<lparr>r_sorted := s\<rparr>) = size_ok k c"
  by (simp add: size_ok_def tops_def)

lemma add_space_ok:
  assumes "content_ok c" and "size_ok k c" and "alive (r_rems c) e" and "map_of (r_elems c) (te_Id e) = None"
    and "length (r_elems c) < k"
  shows "content_ok (fst (add_space c oldTs e)) \<and> size_ok k (fst (add_space c oldTs e))"
proof -
  have new: "set (mput (te_Id e) e (r_elems c)) = insert (te_Id e, e) (set (r_elems c))"
    using assms(4) by (metis map_of_eq_None_iff mput_has set_mput_subset mput_keeps subset_antisym insert_subsetI subsetI fst_conv imageI)
  have "content_ok (c\<lparr>r_elems := mput (te_Id e) e (r_elems c)\<rparr>)" by (rule content_elems) (use assms in auto)
  moreover have "length (mput (te_Id e) e (r_elems c)) \<le> k" using assms(4,5) by (simp add: length_mput)
  moreover have "r_elems c = [] \<Longrightarrow> te_isEqual (r_smallest c) zero_elem"
    using assms(2) by (simp add: size_ok_def te_isEqual_def)
  ultimately show ?thesis using assms(2) new
    by (auto simp: add_space_def Let_def size_ok_def tops_def content_ok_def)
qed

lemma add_displace_ok:
  assumes "content_ok c" and "size_ok k c" and "alive (r_rems c) e" and "map_of (r_elems c) (te_Id e) = None"
    and "r_elems c \<noteq> []"
  shows "content_ok (fst (add_displace c oldTs e)) \<and> size_ok k (fst (add_displace c oldTs e))"
proof -
  let ?m = "r_smallest c"
  have m: "?m \<in> tops c" "0 < r_maxElems c" "r_maxElems c \<le> int k" "length (r_elems c) \<le> k"
    using assms(2,5) by (auto simp: size_ok_def)
  note am = tops_alive [OF assms(1) m(1)]
  define c2 where "c2 = (hide (te_Id ?m) ?m c)\<lparr>r_elems := mput (te_Id e) e (AList.delete (te_Id ?m) (r_elems c))\<rparr>"
  have "content_ok ((hide (te_Id ?m) ?m c)\<lparr>r_elems := AList.delete (te_Id ?m) (r_elems c)\<rparr>)"
    using content_elems_delete [OF content_hide [OF assms(1) refl]] am by simp
  from content_elems [OF this refl] assms(3) have "content_ok c2" by (simp add: c2_def)
  moreover have "length (AList.delete (te_Id ?m) (r_elems c)) < length (r_elems c)"
    by (rule length_delete_less) (use am in simp)
  then have "length (r_elems c2) \<le> k" using m(4) by (simp add: c2_def length_mput)
  then have "size_ok k (rmv_findAndUpdateMin c2)" by (intro findMin_size) (simp_all add: c2_def m(2,3))
  ultimately show ?thesis by (simp add: add_displace_def Let_def c2_def)
qed

lemma size_hide [simp]: "size_ok k (hide i e c) = size_ok k c"
  by (simp add: size_ok_def tops_def)

lemma add_live_ok:
  assumes "content_ok c" and "size_ok k c" and "alive (r_rems c) e"
  shows "content_ok (fst (add_live c oldTs e)) \<and> size_ok k (fst (add_live c oldTs e))"
proof (cases "map_of (r_elems c) (te_Id e)")
  case None
  have k: "0 < r_maxElems c" "r_maxElems c \<le> int k" "length (r_elems c) \<le> k" using assms(2) by (auto simp: size_ok_def)
  consider "int (length (r_elems c)) < r_maxElems c" | "\<not> int (length (r_elems c)) < r_maxElems c" "te_isHigher e (r_smallest c)"
    | "\<not> int (length (r_elems c)) < r_maxElems c" "\<not> te_isHigher e (r_smallest c)" by blast
  then show ?thesis
  proof cases
    case 1
    with k have "length (r_elems c) < k" by simp
    with 1 add_space_ok [OF assms(1-3) None] None show ?thesis by (simp add: add_live_def)
  next
    case 2
    with k have "r_elems c \<noteq> []" by auto
    with 2 add_displace_ok [OF assms(1-3) None] None show ?thesis by (simp add: add_live_def)
  next
    case 3
    with content_hide [OF assms(1) refl assms(3)] None assms(2) show ?thesis by (simp add: add_live_def)
  qed
next
  case (Some elem)
  with add_has_ok [OF assms(1-3)] show ?thesis by (simp add: add_live_def)
qed

lemma add_elem_ok:
  assumes "content_ok c" and "size_ok k c" and "0 < te_Ts e"
  shows "content_ok (fst (add_elem c oldTs e)) \<and> size_ok k (fst (add_elem c oldTs e))"
proof (cases "alive (r_rems c) e")
  case True
  then have "fst (add_elem c oldTs e) = fst (add_live c oldTs e)"
    by (auto simp: add_elem_def alive_def covered_def split: option.splits prod.splits)
  with add_live_ok [OF assms(1,2) True] show ?thesis by simp
next
  case False
  then have "fst (add_elem c oldTs e) = c"
    using assms(3) by (auto simp: add_elem_def alive_def covered_def split: option.splits)
  with assms(1,2) show ?thesis by simp
qed

section \<open>Removals keep the state in order\<close>

lemma covered_Merge: "wf_map a \<Longrightarrow> 0 < te_Ts e \<Longrightarrow> \<not> covered a e \<Longrightarrow> \<not> covered b e \<Longrightarrow> \<not> covered (Merge a (Some b)) e"
  by (auto simp: covered_def GetPos_def Merge_def vget_Merge_loop vget_missing)

lemma set_mput_wf: "wf_map m \<Longrightarrow> set (mput k v m) = insert (k, v) {p \<in> set m. fst p \<noteq> k}"
  by (induction m) (force simp: wf_map_def)+

definition removal_clock :: "TopKRmvCrdt \<Rightarrow> int \<Rightarrow> ClockSiTimestamp \<Rightarrow> ClockSiTimestamp" where
  "removal_clock c remID vc = (case map_of (r_rems c) remID of None \<Rightarrow> vc | Some rems \<Rightarrow> Merge rems (Some vc))"

lemma alive_removed:
  assumes "content_ok c" and "alive (r_rems c) e" and "te_Id e = remID \<Longrightarrow> \<not> covered vc e"
  shows "alive (mput remID (removal_clock c remID vc) (r_rems c)) e"
proof (cases "te_Id e = remID")
  case True
  show ?thesis
  proof (cases "map_of (r_rems c) remID")
    case None
    with assms True show ?thesis by (simp add: alive_def removal_clock_def map_of_mput)
  next
    case (Some r)
    then have "wf_map r" using assms(1) by (auto simp: content_ok_def dest!: map_of_SomeD)
    with Some assms True covered_Merge [of r e vc] show ?thesis by (simp add: alive_def removal_clock_def map_of_mput)
  qed
next
  case False
  with assms(2) show ?thesis by (simp add: alive_def map_of_mput)
qed

lemma wf_removal_clock: "content_ok c \<Longrightarrow> wf_map vc \<Longrightarrow> wf_map (removal_clock c remID vc)"
  by (auto simp: removal_clock_def Merge_def wf_Merge_loop split: option.split)

lemma content_removed:
  assumes "content_ok c" and "wf_map vc" and "r_rems c' = mput remID (removal_clock c remID vc) (r_rems c)"
    and "wf_map (r_elems c')" and "\<forall>p \<in> set (r_elems c'). p \<in> set (r_elems c) \<and> (fst p = remID \<longrightarrow> \<not> covered vc (snd p))"
    and "wf_map (r_notInTop c')"
    and "\<forall>p \<in> set (r_notInTop c'). p \<in> set (r_notInTop c) \<and> fst p \<noteq> remID
      \<or> fst p = remID \<and> (\<forall>e \<in> set (snd p). e \<in> set (hidden c remID) \<and> \<not> covered vc e)"
  shows "content_ok c'"
  unfolding content_ok_def
proof (intro conjI ballI)
  show "wf_map (r_elems c')" "wf_map (r_notInTop c')" by fact+
  show "p \<in> set (r_rems c') \<Longrightarrow> wf_map (snd p)" for p
    using assms(1,3) wf_removal_clock [OF assms(1,2)] set_mput_subset [of remID "removal_clock c remID vc" "r_rems c"]
    by (auto simp: content_ok_def)
  show "te_Id (snd p) = fst p" if "p \<in> set (r_elems c')" for p using assms(1,5) that by (auto simp: content_ok_def)
  then show "alive (r_rems c') (snd p)" if "p \<in> set (r_elems c')" for p
    using assms(1,3,5) that alive_removed [OF assms(1), of "snd p" remID vc] by (auto simp: content_ok_def)
  fix p e
  assume p: "p \<in> set (r_notInTop c')" and e: "e \<in> set (snd p)"
  from assms(7) p consider "p \<in> set (r_notInTop c)" "fst p \<noteq> remID"
    | "fst p = remID" "e \<in> set (hidden c remID)" "\<not> covered vc e" using e by blast
  then have "te_Id e = fst p \<and> alive (r_rems c) e \<and> (te_Id e = remID \<longrightarrow> \<not> covered vc e)"
  proof cases
    case 1
    with assms(1) e show ?thesis by (auto simp: content_ok_def)
  next
    case 2
    with hidden_content [OF assms(1) 2(2)] show ?thesis by simp
  qed
  then show "te_Id e = fst p" "alive (r_rems c') e"
    using alive_removed [OF assms(1), of e remID vc] assms(3) by auto
qed

lemma find_highest_in: "find_highest m es \<in> insert m (set es)"
proof (induction es arbitrary: m)
  case (Cons e es)
  then show ?case using Cons [of e] Cons [of m] by (cases "te_isHigher e m") auto
qed simp

lemma find_highest_zero_in: "es \<noteq> [] \<Longrightarrow> find_highest zero_elem es \<in> set es"
proof (cases es)
  case (Cons e es')
  have "te_isHigher e zero_elem" by (simp add: te_isHigher_def te_isEqual_def)
  with Cons find_highest_in [of e es'] show ?thesis by simp
qed simp

lemma candidates_alive: "content_ok c \<Longrightarrow> e \<in> set (candidates c) \<Longrightarrow> alive (r_rems c) e \<and> map_of (r_elems c) (te_Id e) = None"
  by (fastforce simp: candidates_def content_ok_def)

lemma size_smallest: "0 < r_maxElems c \<Longrightarrow> r_maxElems c \<le> int k \<Longrightarrow> length (r_elems c) \<le> k \<Longrightarrow> r_smallest c \<in> tops c \<Longrightarrow> size_ok k c"
  by (auto simp: size_ok_def tops_def)

lemma tops_fields [simp]: "tops (c\<lparr>r_smallest := e\<rparr>) = tops c" "tops (c\<lparr>r_notInTop := m\<rparr>) = tops c"
  "tops (unhide i e c) = tops c" "tops (hide i e c) = tops c"
  by (simp_all add: tops_def)

lemma tops_put: "e \<in> tops (c\<lparr>r_elems := mput (te_Id e) e (r_elems c)\<rparr>)"
  using mput_has [of "te_Id e" e "r_elems c"] by (force simp: tops_def)

lemma refill_ok:
  assumes "content_ok c" and "0 < r_maxElems c \<and> r_maxElems c \<le> int k" and "length (r_elems c) < k"
    and "te_isEqual elem (r_smallest c) \<or> r_smallest c \<in> tops c"
    and "hid = hidden c remID" and "map_of (r_elems c) remID = None"
  shows "content_ok (fst (refill c remID elem hid)) \<and> size_ok k (fst (refill c remID elem hid))"
proof -
  have min: "size_ok k (if te_isEqual elem (r_smallest c) then rmv_findAndUpdateMin c else c)"
    using assms(2-4) findMin_size [of c k] size_smallest [of c k] by auto
  show ?thesis
  proof (cases "int (length (r_elems c)) = r_maxElems c - 1")
    case True
    let ?h = "find_highest zero_elem (candidates c)"
    show ?thesis
    proof (cases "te_isEqual ?h zero_elem")
      case zero: True
      with True min assms(1-3) show ?thesis by (auto simp: refill_def Let_def)
    next
      case False
      then have "candidates c \<noteq> []" by (auto simp: te_isEqual_def)
      from candidates_alive [OF assms(1) find_highest_zero_in [OF this]]
      have h: "alive (r_rems c) ?h" "map_of (r_elems c) (te_Id ?h) = None" by simp_all
      let ?c = "c\<lparr>r_elems := mput (te_Id ?h) ?h (r_elems c), r_smallest := ?h\<rparr>"
      have f: "fst (refill c remID elem hid) = unhide (te_Id ?h) ?h ?c"
        using True False assms(2,3) by (simp add: refill_def Let_def)
      have "content_ok (unhide (te_Id ?h) ?h ?c)"
        using content_elems [OF assms(1) refl h(1)] by (intro content_unhide) simp
      moreover have "size_ok k (unhide (te_Id ?h) ?h ?c)"
        by (rule size_smallest) (use assms(2,3) h(2) tops_put [of ?h c] in \<open>simp_all add: length_mput\<close>)
      ultimately show ?thesis unfolding f by simp
    qed
  next
    case False
    show ?thesis
    proof (cases "hid = []")
      case True
      with False min assms(1-3) show ?thesis by (auto simp: refill_def Let_def)
    next
      case more: False
      let ?h = "find_highest zero_elem hid" and ?es = "removeAll (find_highest zero_elem hid) hid"
      from hidden_content [OF assms(1)] find_highest_zero_in [OF more] assms(5)
      have h: "te_Id ?h = remID" "alive (r_rems c) ?h" by auto
      let ?n = "if ?es = [] then AList.delete (te_Id ?h) (mput remID ?es (r_notInTop c)) else mput remID ?es (r_notInTop c)"
      let ?c = "c\<lparr>r_notInTop := ?n, r_elems := mput (te_Id ?h) ?h (r_elems c)\<rparr>"
      have f: "fst (refill c remID elem hid) = (if te_isEqual elem (r_smallest c) then ?c\<lparr>r_smallest := ?h\<rparr> else ?c)"
        using False more assms(2,3) by (simp add: refill_def Let_def)
      have n: "content_ok (c\<lparr>r_notInTop := mput remID ?es (r_notInTop c)\<rparr>)"
        by (rule content_notInTop) (use assms(1,5) in \<open>auto dest: hidden_content\<close>)
      have "content_ok (c\<lparr>r_notInTop := ?n\<rparr>)" using n content_notInTop_delete [OF n, of "te_Id ?h"] by (cases "?es = []") auto
      from content_elems [OF this refl] h(2) have content: "content_ok ?c" by simp
      have len: "length (r_elems ?c) \<le> k" using assms(3,6) h(1) by (simp add: length_mput)
      have "r_smallest c \<in> tops ?c" if "r_smallest c \<in> tops c"
      proof -
        have "te_Id (r_smallest c) \<noteq> remID" using tops_alive [OF assms(1) that] assms(6) by auto
        moreover have "(te_Id (r_smallest c), r_smallest c) \<in> set (r_elems c)"
          using tops_alive [OF assms(1) that] by (auto dest: map_of_SomeD)
        ultimately have "(te_Id (r_smallest c), r_smallest c) \<in> set (r_elems ?c)" using h(1) by (simp add: mput_keeps)
        then show ?thesis by (force simp: tops_def)
      qed
      moreover have "?h \<in> tops ?c" using tops_put [of ?h "c\<lparr>r_notInTop := ?n\<rparr>"] by simp
      ultimately show ?thesis
        using content len assms(2,4) size_smallest [of ?c k] size_smallest [of "?c\<lparr>r_smallest := ?h\<rparr>" k] unfolding f by auto
    qed
  qed
qed

text \<open>The state after the removal clock is stored and the covered hidden elements are dropped.\<close>

definition drop_hidden :: "TopKRmvCrdt \<Rightarrow> int \<Rightarrow> ClockSiTimestamp \<Rightarrow> TopKRmvCrdt" where
  "drop_hidden c remID vc =
     (let left = filter (\<lambda>e. \<not> covered vc e) (hidden c remID)
      in c\<lparr>r_rems := mput remID (removal_clock c remID vc) (r_rems c),
           r_notInTop := (if map_of (r_notInTop c) remID = None then r_notInTop c
             else if left = [] then AList.delete remID (r_notInTop c) else mput remID left (r_notInTop c))\<rparr>)"

lemma fst_rem_elem:
  "fst (rem_elem c remID vc) =
     (case map_of (r_elems c) remID of
        None \<Rightarrow> drop_hidden c remID vc
      | Some elem \<Rightarrow>
          if covered vc elem
          then fst (refill ((drop_hidden c remID vc)\<lparr>r_elems := AList.delete remID (r_elems c), r_sorted := None\<rparr>) remID elem
                 (filter (\<lambda>e. \<not> covered vc e) (hidden c remID)))
          else drop_hidden c remID vc)"
  by (simp add: rem_elem_def drop_hidden_def Let_def hidden_def removal_clock_def split: option.split prod.split)

lemma hidden_drop_hidden: "hidden (drop_hidden c remID vc) remID = filter (\<lambda>e. \<not> covered vc e) (hidden c remID)"
  by (auto simp: drop_hidden_def hidden_def Let_def map_of_mput AList.delete_conv' split: option.split)

lemma drop_hidden_fields [simp]:
  "r_elems (drop_hidden c remID vc) = r_elems c" "r_smallest (drop_hidden c remID vc) = r_smallest c"
  "r_maxElems (drop_hidden c remID vc) = r_maxElems c" "r_sorted (drop_hidden c remID vc) = r_sorted c"
  "r_rems (drop_hidden c remID vc) = mput remID (removal_clock c remID vc) (r_rems c)"
  "tops (drop_hidden c remID vc) = tops c"
  by (simp_all add: drop_hidden_def Let_def tops_def)

lemma drop_hidden_notInTop:
  assumes "content_ok c"
  shows "wf_map (r_notInTop (drop_hidden c remID vc))"
    and "\<forall>p \<in> set (r_notInTop (drop_hidden c remID vc)). p \<in> set (r_notInTop c) \<and> fst p \<noteq> remID
      \<or> fst p = remID \<and> (\<forall>e \<in> set (snd p). e \<in> set (hidden c remID) \<and> \<not> covered vc e)"
proof -
  have wf: "wf_map (r_notInTop c)" using assms by (simp add: content_ok_def)
  then show "wf_map (r_notInTop (drop_hidden c remID vc))" by (simp add: drop_hidden_def Let_def wf_map_delete)
  have "fst p \<noteq> remID" if "map_of (r_notInTop c) remID = None" "p \<in> set (r_notInTop c)" for p
    using that by (auto simp: map_of_eq_None_iff)
  with wf show "\<forall>p \<in> set (r_notInTop (drop_hidden c remID vc)). p \<in> set (r_notInTop c) \<and> fst p \<noteq> remID
      \<or> fst p = remID \<and> (\<forall>e \<in> set (snd p). e \<in> set (hidden c remID) \<and> \<not> covered vc e)"
    by (auto simp: drop_hidden_def Let_def set_delete set_mput_wf)
qed

lemma rem_elem_ok:
  assumes "content_ok c" and "size_ok k c" and "wf_map vc"
  shows "content_ok (fst (rem_elem c remID vc)) \<and> size_ok k (fst (rem_elem c remID vc))"
proof -
  let ?d = "drop_hidden c remID vc"
  have wf: "wf_map (r_elems c)" using assms(1) by (simp add: content_ok_def)
  note n = drop_hidden_notInTop [OF assms(1), of remID vc]
  have kept: "content_ok ?d \<and> size_ok k ?d" if "\<forall>e. map_of (r_elems c) remID = Some e \<longrightarrow> \<not> covered vc e"
  proof
    show "content_ok ?d"
      by (rule content_removed [OF assms(1,3) _ _ _ n]) (use wf that in \<open>auto simp: wf_map_def\<close>)
    show "size_ok k ?d" using assms(2) by (simp add: size_ok_def)
  qed
  show ?thesis
  proof (cases "map_of (r_elems c) remID")
    case None
    with kept show ?thesis by (simp add: fst_rem_elem)
  next
    case (Some elem)
    show ?thesis
    proof (cases "covered vc elem")
      case True
      let ?c = "?d\<lparr>r_elems := AList.delete remID (r_elems c), r_sorted := None\<rparr>"
      have "r_elems c \<noteq> []" using Some by auto
      with assms(2) have small: "r_smallest c \<in> tops c" "0 < r_maxElems c" "r_maxElems c \<le> int k" "length (r_elems c) \<le> k"
        by (auto simp: size_ok_def)
      have "content_ok ?c"
        by (rule content_removed [OF assms(1,3)]) (use wf n in \<open>auto simp: wf_map_delete set_delete\<close>)
      moreover have "length (r_elems ?c) < k"
        using length_delete_less [of "r_elems c" remID] Some small(4) by simp
      moreover have "te_isEqual elem (r_smallest ?c) \<or> r_smallest ?c \<in> tops ?c"
      proof (cases "te_Id (r_smallest c) = remID")
        case True
        with tops_alive [OF assms(1) small(1)] Some show ?thesis by (simp add: te_isEqual_def)
      next
        case False
        have "(te_Id (r_smallest c), r_smallest c) \<in> set (r_elems c)"
          using tops_alive [OF assms(1) small(1)] by (auto dest: map_of_SomeD)
        with False have "(te_Id (r_smallest c), r_smallest c) \<in> set (r_elems ?c)" by (simp add: set_delete)
        then show ?thesis by (force simp: tops_def)
      qed
      moreover have "filter (\<lambda>e. \<not> covered vc e) (hidden c remID) = hidden ?c remID"
        using hidden_drop_hidden [of c remID vc] by (simp add: hidden_def)
      ultimately show ?thesis
        using refill_ok [of ?c k elem "filter (\<lambda>e. \<not> covered vc e) (hidden c remID)" remID] small(2,3) Some True
        by (simp add: fst_rem_elem AList.delete_conv')
    next
      case False
      with kept Some show ?thesis by (simp add: fst_rem_elem)
    qed
  qed
qed

section \<open>The buffer of sorted elements\<close>

text \<open>A step that changes the top resets the buffer.\<close>

definition buffered :: "TopKRmvCrdt \<Rightarrow> TopKRmvCrdt \<Rightarrow> bool" where
  "buffered c c' \<longleftrightarrow> r_sorted c' = None \<or> r_sorted c' = r_sorted c \<and> r_elems c' = r_elems c"

lemma buffered_refl [simp]: "buffered c c"
  by (simp add: buffered_def)

lemma buffered_trans: "buffered a b \<Longrightarrow> buffered b c \<Longrightarrow> buffered a c"
  by (auto simp: buffered_def)

lemma buffered_ok: "buffered c c' \<Longrightarrow> buffer_ok sort_scores c \<Longrightarrow> buffer_ok sort_scores c'"
  by (auto simp: buffered_def buffer_ok_def TopKRmv_getState_def)

lemma buffered_add_elem: "buffered c (fst (add_elem c oldTs e))"
  by (auto simp: add_elem_def add_live_def add_has_def add_space_def add_displace_def buffered_def Let_def split: option.split prod.split)

lemma refill_sorted: "r_sorted (fst (refill c remID elem hid)) = r_sorted c"
  by (simp add: refill_def Let_def)

lemma buffered_rem_elem: "buffered c (fst (rem_elem c remID vc))"
  by (auto simp: fst_rem_elem buffered_def refill_sorted split: option.split)

section \<open>The invariant of reachable states\<close>

definition rmv_inv :: "nat \<Rightarrow> (score list \<Rightarrow> score list) \<Rightarrow> TopKRmvCrdt \<Rightarrow> bool" where
  "rmv_inv k sort_scores c \<longleftrightarrow> content_ok c \<and> size_ok k c \<and> buffer_ok sort_scores c"

lemma rmv_inv_vc [simp]: "rmv_inv k sort_scores (c\<lparr>r_vc := v\<rparr>) = rmv_inv k sort_scores c"
  by (simp add: rmv_inv_def size_ok_def buffer_ok_def TopKRmv_getState_def tops_def)

lemma rmv_inv_add_elem: "rmv_inv k sort_scores c \<Longrightarrow> 0 < te_Ts e \<Longrightarrow> rmv_inv k sort_scores (fst (add_elem c oldTs e))"
  using add_elem_ok [of c k e oldTs] buffered_ok [OF buffered_add_elem] by (simp add: rmv_inv_def)

lemma rmv_inv_rem_elem: "rmv_inv k sort_scores c \<Longrightarrow> wf_map vc \<Longrightarrow> rmv_inv k sort_scores (fst (rem_elem c i vc))"
  using rem_elem_ok [of c k vc i] buffered_ok [OF buffered_rem_elem] by (simp add: rmv_inv_def)

lemma with_data_fields [simp]: "te_Ts (with_data p e) = te_Ts e" "te_Id (with_data p e) = te_Id e"
  "te_ReplicaID (with_data p e) = te_ReplicaID e" "te_Score (with_data p e) = te_Score e"
  by (simp_all add: with_data_def split: option.split)

lemma addAll_loop_inv:
  "addAll_loop fresh places oldTs i c effs rems es = Inr (c', effs', rems') \<Longrightarrow> rmv_inv k sort_scores c \<Longrightarrow>
     \<forall>e \<in> set es. 0 < te_Ts e \<Longrightarrow> rmv_inv k sort_scores c'"
proof (induction es arbitrary: i c effs rems)
  case (Cons e es)
  obtain d eff rem where a: "add_elem c oldTs (with_data (fresh i) e) = (d, eff, rem)" by (cases "add_elem c oldTs (with_data (fresh i) e)")
  have "rmv_inv k sort_scores d" using rmv_inv_add_elem [OF Cons.prems(2), of "with_data (fresh i) e" oldTs] Cons.prems(3) a by simp
  with Cons a show ?case by (auto split: option.splits if_splits)
qed simp

lemma remAll_loop_inv:
  "remAll_loop vcs j c effs adds ids = Inr (c', effs', adds') \<Longrightarrow> rmv_inv k sort_scores c \<Longrightarrow>
     \<forall>vc \<in> set vcs. wf_map vc \<Longrightarrow> rmv_inv k sort_scores c'"
proof (induction ids arbitrary: j c effs adds)
  case (Cons i ids)
  then have ne: "vcs \<noteq> []" by auto
  then have "vcs ! (j mod length vcs) \<in> set vcs" by simp
  with Cons.prems(3) have wf: "wf_map (vcs ! (j mod length vcs))" by blast
  obtain d eff p where r: "rem_elem c i (vcs ! (j mod length vcs)) = (d, eff, p)" by (cases "rem_elem c i (vcs ! (j mod length vcs))")
  have "rmv_inv k sort_scores d" using rmv_inv_rem_elem [OF Cons.prems(2) wf, of i] r by simp
  with Cons r ne show ?case by auto
qed simp

lemma downstream_inv:
  assumes "rmv_inv k sort_scores c" and "op_stamped k u" and "TopKRmv_applyDownstream fresh c u = Inr (c', eff, other)"
  shows "rmv_inv k sort_scores c'"
proof -
  have add: "rmv_inv k sort_scores (fst (TopKRmv_applyAdd p c e))" if "0 < te_Ts e" for p e
  proof -
    let ?c = "c\<lparr>r_vc := UpdatePos (r_vc c) (te_ReplicaID e) (te_Ts e)\<rparr>"
    have "rmv_inv k sort_scores (fst (add_elem ?c (GetPos (r_vc c) (te_ReplicaID e)) (with_data p e)))"
      by (rule rmv_inv_add_elem) (use assms(1) that in simp_all)
    then show ?thesis by (simp add: TopKRmv_applyAdd_def Let_def split_beta)
  qed
  have rem: "rmv_inv k sort_scores (fst (TopKRmv_applyRemove p c i vc))" if "wf_map vc" for p i vc
    using rmv_inv_rem_elem [OF assms(1) that, of i] by (auto simp: TopKRmv_applyRemove_def split: prod.split)
  show ?thesis
  proof (cases u)
    case (DownstreamTopKAddAll adds opts)
    with assms(3) obtain effs rems oldTs v where
      "addAll_loop fresh (length adds) oldTs 0 (c\<lparr>r_vc := v\<rparr>) [] [] (adds @ opts) = Inr (c', effs, rems)"
      by (auto simp: TopKRmv_applyAddAll_def gbind_eq_Inr Let_def split: if_splits prod.splits)
    from addAll_loop_inv [OF this] DownstreamTopKAddAll assms(1,2) show ?thesis by simp
  next
    case (DownstreamTopKRemoveAll vcs rems opts)
    with assms(3) obtain c1 effs1 adds1 effs adds where loops:
      "remAll_loop vcs 0 c [] [] rems = Inr (c1, effs1, adds1)" "remAll_loop vcs 0 c1 effs1 adds1 opts = Inr (c', effs, adds)"
      by (auto simp: TopKRmv_applyRemoveAll_def gbind_eq_Inr split: prod.splits)
    have "\<forall>vc \<in> set vcs. wf_map vc" using assms(2) DownstreamTopKRemoveAll by simp
    from remAll_loop_inv [OF loops(2) remAll_loop_inv [OF loops(1) assms(1) this] this] show ?thesis .
  next
    case (DownstreamTopKAdd e)
    with assms(2,3) add [of e "fresh 0"] show ?thesis by (auto split: prod.splits)
  next
    case (OptDownstreamTopKAdd e)
    with assms(2,3) add [of e "fresh 0"] show ?thesis by (auto split: prod.splits)
  next
    case (DownstreamTopKRemove i vc)
    with assms(2,3) rem [of vc "fresh 0" i] show ?thesis by (auto split: prod.splits)
  next
    case (OptDownstreamTopKRemove i vc)
    with assms(2,3) rem [of vc "fresh 0" i] show ?thesis by (auto split: prod.splits)
  next
    case (DownTopKRmvInit n)
    with assms(2,3) have "c' = c\<lparr>r_maxElems := n\<rparr>" "0 < n" "n \<le> int k" by simp_all
    then show ?thesis using assms(1)
      by (simp add: rmv_inv_def content_ok_def size_ok_def tops_def buffer_ok_def TopKRmv_getState_def)
  next
    case TopKRmv_NoOp
    with assms show ?thesis by simp
  qed
qed

lemma rmv_inv_buffer: "rmv_inv k sort_scores c \<Longrightarrow> rmv_inv k sort_scores (c\<lparr>r_sorted := Some (sort_scores (TopKRmv_getState c))\<rparr>)"
  by (simp add: rmv_inv_def buffer_ok_def TopKRmv_getState_def)

text \<open>The state with its buffer filled.\<close>

definition fill_buffer :: "(score list \<Rightarrow> score list) \<Rightarrow> TopKRmvCrdt \<Rightarrow> TopKRmvCrdt" where
  "fill_buffer sort_scores c = (if r_sorted c = None then c\<lparr>r_sorted := Some (sort_scores (TopKRmv_getState c))\<rparr> else c)"

lemma getTopN_fill: "TopKRmv_getTopN sort_scores c n =
    (let es = the (r_sorted (fill_buffer sort_scores c))
     in if n \<ge> int32 (int (length es)) then Inr (fill_buffer sort_scores c, es)
        else if n < 0 then Inl IndexOutOfRange else Inr (fill_buffer sort_scores c, take (nat n) es))"
  unfolding TopKRmv_getTopN_def fill_buffer_def Let_def by (rule refl)

lemma getTopN_inv: "rmv_inv k sort_scores c \<Longrightarrow> TopKRmv_getTopN sort_scores c n = Inr (c', r) \<Longrightarrow> rmv_inv k sort_scores c'"
  using rmv_inv_buffer [of k sort_scores c]
  by (auto simp: getTopN_fill Let_def split: if_splits) (auto simp: fill_buffer_def)

lemma update_vc: "\<exists>v. fst (TopKRmv_Update fresh c u) = c\<lparr>r_vc := v\<rparr>"
proof (cases u)
  case (TopKRmvRemove i)
  then show ?thesis by (intro exI [of _ "r_vc c"]) simp
next
  case (TopKRmvRemoveAll ids)
  then show ?thesis by (intro exI [of _ "r_vc c"]) simp
next
  case (TopKRmvInit n)
  then show ?thesis by (intro exI [of _ "r_vc c"]) simp
qed (auto simp: rmv_getTopKAddDownstreamArgs_def rmv_getTopKAddAllDownstreamArgs_def Let_def)

lemma rmv_reach_inv: "rmv_reach k sort_scores c \<Longrightarrow> rmv_inv k sort_scores c"
proof (induction rule: rmv_reach.induct)
  case (init n knownIDs replicaID)
  then show ?case by (simp add: TopKRmv_InitializeWithSize_def rmv_inv_def content_ok_def size_ok_def buffer_ok_def)
next
  case (update c fresh u)
  with update_vc [of fresh c u] show ?case by auto
next
  case (down c u fresh c' eff other)
  with downstream_inv show ?case by blast
next
  case (read c n c' r)
  with getTopN_inv show ?case by blast
qed

text \<open>
  C17. In every reachable state, whatever operations of other replicas arrived and in whatever
  order, changes of the size to any positive number among them: no element that a known removal
  covers is in the top or waits outside it; the elements of the top have different ids; the
  element kept as the smallest is one of them; and the top has at most as many elements as the
  largest size \<open>k\<close> set so far. This is the size in force as long as the size was never lowered.
  Lowering it takes no element out of the top.
\<close>

theorem TopKRmv_removed_stay_removed:
  assumes "rmv_reach k sort_scores c"
  shows "(\<forall>e vc. (e \<in> tops c \<or> (\<exists>i. e \<in> set (hidden c i))) \<and> map_of (r_rems c) (te_Id e) = Some vc
        \<longrightarrow> GetPos vc (te_ReplicaID e) < te_Ts e)
    \<and> distinct (map (te_Id \<circ> snd) (r_elems c)) \<and> (tops c \<noteq> {} \<longrightarrow> r_smallest c \<in> tops c)
    \<and> r_maxElems c \<le> int k \<and> length (r_elems c) \<le> k
    \<and> (\<exists>c' eff. TopKRmv_applyDownstream fresh c (DownTopKRmvInit n) = Inr (c', eff, None)
         \<and> r_maxElems c' = n \<and> r_elems c' = r_elems c)"
proof (intro conjI allI impI)
  have inv: "content_ok c" "size_ok k c" using rmv_reach_inv [OF assms] by (simp_all add: rmv_inv_def)
  show "GetPos vc (te_ReplicaID e) < te_Ts e"
    if "(e \<in> tops c \<or> (\<exists>i. e \<in> set (hidden c i))) \<and> map_of (r_rems c) (te_Id e) = Some vc" for e vc
  proof -
    have "alive (r_rems c) e" using that tops_alive [OF inv(1)] hidden_content [OF inv(1)] by blast
    with that show ?thesis by (simp add: alive_def covered_def)
  qed
  show "length (r_elems c) \<le> k" "r_maxElems c \<le> int k" using inv(2) by (simp_all add: size_ok_def)
  show "\<exists>c' eff. TopKRmv_applyDownstream fresh c (DownTopKRmvInit n) = Inr (c', eff, None)
      \<and> r_maxElems c' = n \<and> r_elems c' = r_elems c" by simp
  have "map (te_Id \<circ> snd) (r_elems c) = map fst (r_elems c)" using inv(1) by (auto simp: content_ok_def)
  then show "distinct (map (te_Id \<circ> snd) (r_elems c))" using inv(1) by (metis content_ok_def wf_map_def)
  show "tops c \<noteq> {} \<Longrightarrow> r_smallest c \<in> tops c" using inv(2) by (auto simp: size_ok_def tops_def)
qed

text \<open>Elements of the examples: id, score, stamp and replica.\<close>

definition te :: "int \<Rightarrow> int \<Rightarrow> int \<Rightarrow> int \<Rightarrow> TopKElement" where
  "te i s ts r = \<lparr>te_Id = i, te_Score = s, te_Ts = ts, te_ReplicaID = r, te_Data = Some 0\<rparr>"

definition empty_top :: "nat \<Rightarrow> TopKRmvCrdt" where
  "empty_top k = TopKRmv_InitializeWithSize [1, 2] 1 (int k)"

text \<open>The states after a list of operations, with the panics.\<close>

primrec rmv_ops :: "TopKRmvCrdt \<Rightarrow> topkrmv_op list \<Rightarrow> TopKRmvCrdt go" where
  "rmv_ops c [] = Inr c"
| "rmv_ops c (u # us) = gbind (TopKRmv_applyDownstream id c u) (\<lambda>(c', eff, other). rmv_ops c' us)"

lemma rmv_ops_reach: "rmv_ops c us = Inr c' \<Longrightarrow> rmv_reach k sort_scores c \<Longrightarrow> \<forall>u \<in> set us. op_stamped k u \<Longrightarrow> rmv_reach k sort_scores c'"
proof (induction us arbitrary: c)
  case (Cons u us)
  then obtain d eff other where d: "TopKRmv_applyDownstream id c u = Inr (d, eff, other)" "rmv_ops d us = Inr c'"
    by (auto simp: gbind_eq_Inr)
  have "rmv_reach k sort_scores d" by (rule rmv_reach.down [OF Cons.prems(2) _ d(1)]) (use Cons.prems(3) in simp)
  with Cons.IH [OF d(2)] Cons.prems(3) show ?case by simp
qed simp

lemma empty_top_reach: "0 < k \<Longrightarrow> rmv_reach k sort_scores (empty_top k)"
  unfolding empty_top_def by (rule rmv_reach.init) simp_all

theorem TopKRmv_removed_stay_removed_witness:
  "\<exists>c. rmv_ops (empty_top 2) [DownstreamTopKAdd (te 7 10 1 1), DownstreamTopKRemove 7 [(1, 1), (2, 0)], DownstreamTopKAdd (te 7 4 2 1)] = Inr c
     \<and> r_elems c = [(7, te 7 4 2 1)] \<and> GetPos [(1, 1), (2, 0)] 1 < te_Ts (te 7 4 2 1) \<and> length (r_elems c) \<le> 2"
proof -
  let ?us = "[DownstreamTopKAdd (te 7 10 1 1), DownstreamTopKRemove 7 [(1, 1), (2, 0)], DownstreamTopKAdd (te 7 4 2 1)]"
  have "map_sum id (\<lambda>c. (r_elems c, r_rems c)) (rmv_ops (empty_top 2) ?us) = Inr ([(7, te 7 4 2 1)], [(7, [(1, 1), (2, 0)])])" by code_simp
  then obtain c where c: "rmv_ops (empty_top 2) ?us = Inr c" "r_elems c = [(7, te 7 4 2 1)]" "r_rems c = [(7, [(1, 1), (2, 0)])]"
    by (cases "rmv_ops (empty_top 2) ?us") auto
  have "rmv_reach 2 id c" by (rule rmv_ops_reach [OF c(1) empty_top_reach]) (simp_all add: te_def wf_map_def)
  note safe = TopKRmv_removed_stay_removed [OF this]
  have "te 7 4 2 1 \<in> tops c" "map_of (r_rems c) (te_Id (te 7 4 2 1)) = Some [(1, 1), (2, 0)]" by (simp_all add: tops_def c te_def)
  with safe have "GetPos [(1, 1), (2, 0)] (te_ReplicaID (te 7 4 2 1)) < te_Ts (te 7 4 2 1)" by simp
  with c safe show ?thesis by (simp add: te_def)
qed

section \<open>Reads of reachable states\<close>

abbreviation sc :: "score \<Rightarrow> int" where "sc s \<equiv> fst (snd s)"

definition sorts :: "(score list \<Rightarrow> score list) \<Rightarrow> bool" where
  "sorts f \<longleftrightarrow> (\<forall>xs. mset (f xs) = mset xs \<and> sorted_wrt (\<lambda>a b. sc b \<le> sc a) (f xs))"

lemma above_takeWhile:
  "length added + length (takeWhile (\<lambda>e. minValue \<le> sc e) es) \<le> n \<Longrightarrow>
     rmv_above_sorted minValue n added es = Inr (added @ takeWhile (\<lambda>e. minValue \<le> sc e) es)"
  by (induction es arbitrary: added) auto

lemma takeWhile_filter: "sorted_wrt (\<lambda>a b. sc b \<le> sc a) es \<Longrightarrow> takeWhile (\<lambda>e. v \<le> sc e) es = filter (\<lambda>e. v \<le> sc e) es"
proof (induction es)
  case (Cons e es)
  show ?case
  proof (cases "v \<le> sc e")
    case False
    with Cons.prems have "\<forall>x \<in> set es. \<not> v \<le> sc x" by auto
    then have "filter (\<lambda>e. v \<le> sc e) es = []" by (simp add: filter_empty_conv)
    with False show ?thesis by simp
  qed (use Cons in simp)
qed simp

text \<open>
  Reads of a reachable state do not panic and are up to date, with whatever the buffer
  holds. A top-n read returns the first \<open>n\<close> elements of the current top in descending order of
  their scores; a read above a value returns exactly the elements with at least that value.
\<close>

theorem TopKRmv_reads:
  assumes "rmv_reach k sort_scores c" and "sorts sort_scores" and "0 \<le> n" and "length (r_elems c) < 2 ^ 31"
  shows "(\<exists>c'. TopKRmv_getTopN sort_scores c n = Inr (c', take (nat n) (sort_scores (TopKRmv_getState c))))
    \<and> (\<exists>r. TopKRmv_getTopKAboveValue c v = Inr r \<and> mset r = mset (filter (\<lambda>s. v \<le> sc s) (TopKRmv_getState c)))"
proof
  let ?s = "sort_scores (TopKRmv_getState c)"
  have b: "buffer_ok sort_scores c" using rmv_reach_inv [OF assms(1)] by (simp add: rmv_inv_def)
  have s: "mset ?s = mset (TopKRmv_getState c)" "sorted_wrt (\<lambda>a b. sc b \<le> sc a) ?s" using assms(2) by (auto simp: sorts_def)
  have len: "length ?s = length (r_elems c)" using mset_eq_length [OF s(1)] by (simp add: TopKRmv_getState_def)
  have w: "int32 (int (length ?s)) = int (length ?s)" using assms(4) len by (intro swrap_id) (auto simp: in_int_def)
  have "the (r_sorted (fill_buffer sort_scores c)) = ?s" using b by (auto simp: fill_buffer_def buffer_ok_def)
  then show "\<exists>c'. TopKRmv_getTopN sort_scores c n = Inr (c', take (nat n) ?s)"
    using assms(3) w by (auto simp: getTopN_fill Let_def)
  show "\<exists>r. TopKRmv_getTopKAboveValue c v = Inr r \<and> mset r = mset (filter (\<lambda>s. v \<le> sc s) (TopKRmv_getState c))"
  proof (cases "r_sorted c")
    case (Some es)
    with b have es: "es = ?s" by (simp add: buffer_ok_def)
    have "length (takeWhile (\<lambda>e. v \<le> sc e) es) \<le> length (r_elems c)" using len length_takeWhile_le [of _ es] es by metis
    with Some es s show ?thesis
      using above_takeWhile [of "[]" v es "length (r_elems c)"] takeWhile_filter [OF s(2), of v]
      by (simp add: TopKRmv_getTopKAboveValue_def)
  qed (simp add: TopKRmv_getTopKAboveValue_def)
qed

theorem TopKRmv_reads_witness:
  "\<exists>c c'. rmv_ops (empty_top 2) [DownstreamTopKAdd (te 7 10 1 1), DownstreamTopKAdd (te 8 30 1 2)] = Inr c
     \<and> TopKRmv_getTopN (sort_key (\<lambda>s. - sc s)) c 1 = Inr (c', [(8, 30, Some 0)])"
proof -
  let ?us = "[DownstreamTopKAdd (te 7 10 1 1), DownstreamTopKAdd (te 8 30 1 2)]" and ?f = "sort_key (\<lambda>s :: score. - sc s)"
  have "map_sum id r_elems (rmv_ops (empty_top 2) ?us) = Inr [(7, te 7 10 1 1), (8, te 8 30 1 2)]" by code_simp
  then obtain c where c: "rmv_ops (empty_top 2) ?us = Inr c" "r_elems c = [(7, te 7 10 1 1), (8, te 8 30 1 2)]"
    by (cases "rmv_ops (empty_top 2) ?us") auto
  have r: "rmv_reach 2 ?f c" by (rule rmv_ops_reach [OF c(1) empty_top_reach]) (simp_all add: te_def)
  have "sorted_wrt (\<lambda>a b. sc b \<le> sc a) (?f xs)" for xs
    using sorted_sort_key [of "\<lambda>s :: score. - sc s" xs] by (simp add: sorted_map)
  then have "sorts ?f" by (simp add: sorts_def)
  then have "\<exists>c'. TopKRmv_getTopN ?f c 1 = Inr (c', take (nat 1) (?f (TopKRmv_getState c)))"
    using TopKRmv_reads [OF r, of 1] c(2) by simp
  moreover have "take (nat 1) (?f (TopKRmv_getState c)) = [(8, 30, Some 0)]"
    by (simp add: TopKRmv_getState_def c(2) te_score_def te_def)
  ultimately show ?thesis using c(1) by auto
qed

section \<open>Additions keep the best elements\<close>

text \<open>The order of elements: score, then id, then stamp.\<close>

definition gt :: "TopKElement \<Rightarrow> TopKElement \<Rightarrow> bool" where
  "gt a b \<longleftrightarrow> te_Score a > te_Score b \<or> te_Score a = te_Score b
     \<and> (te_Id a > te_Id b \<or> te_Id a = te_Id b \<and> te_Ts a > te_Ts b)"

lemma gt_irrefl: "\<not> gt a a" and gt_trans: "gt a b \<Longrightarrow> gt b c \<Longrightarrow> gt a c"
  and gt_le_trans: "gt a b \<Longrightarrow> \<not> gt c b \<Longrightarrow> gt a c" and le_gt_trans: "\<not> gt b a \<Longrightarrow> gt b c \<Longrightarrow> gt a c"
  and gt_total: "te_Id a \<noteq> te_Id b \<Longrightarrow> gt a b \<or> gt b a"
  by (auto simp: gt_def)

lemma higher_gt: "\<not> te_isEqual b zero_elem \<Longrightarrow> te_isHigher a b = gt a b"
  by (auto simp: te_isHigher_def gt_def)

lemma rmv_findMin_lowest:
  assumes "\<forall>e \<in> set es. \<not> te_isEqual e zero_elem" and "\<not> te_isEqual m zero_elem"
  shows "\<forall>e \<in> insert m (set es). \<not> gt (rmv_findMin m es) e"
  using assms
proof (induction es arbitrary: m)
  case (Cons e es)
  let ?m = "if te_isSmaller e m then e else m"
  have "\<not> gt ?m e" "\<not> gt ?m m"
    using Cons.prems by (auto simp: te_isSmaller_def higher_gt gt_irrefl dest: gt_trans)
  moreover have "\<forall>x \<in> insert ?m (set es). \<not> gt (rmv_findMin ?m es) x" using Cons by auto
  ultimately show ?case by (auto dest: gt_le_trans)
qed (simp add: gt_irrefl)

lemma findMin_zero_lowest:
  assumes "\<forall>e \<in> set es. \<not> te_isEqual e zero_elem"
  shows "\<forall>e \<in> set es. \<not> gt (rmv_findMin zero_elem es) e"
proof (cases es)
  case (Cons e es')
  have "te_isSmaller e zero_elem" by (simp add: te_isSmaller_def te_isEqual_def)
  with Cons assms rmv_findMin_lowest [of es' e] show ?thesis by auto
qed simp

text \<open>
  What the top owes the elements it received: each of them is at most the element of its id
  in the top, or the top is full of higher ones.
\<close>

definition represented :: "nat \<Rightarrow> TopKElement set \<Rightarrow> TopKElement \<Rightarrow> bool" where
  "represented k T a \<longleftrightarrow> (\<exists>e \<in> T. te_Id e = te_Id a \<and> \<not> gt a e) \<or> card T = k \<and> (\<forall>e \<in> T. gt e a)"

definition lowest :: "TopKElement set \<Rightarrow> TopKElement \<Rightarrow> bool" where
  "lowest T m \<longleftrightarrow> (\<forall>e \<in> T. \<not> gt m e)"

definition top_spec :: "nat \<Rightarrow> TopKElement set \<Rightarrow> TopKRmvCrdt \<Rightarrow> bool" where
  "top_spec k A c \<longleftrightarrow> content_ok c \<and> size_ok k c \<and> r_maxElems c = int k \<and> r_rems c = [] \<and> tops c \<subseteq> A
     \<and> (\<forall>a \<in> A. represented k (tops c) a) \<and> lowest (tops c) (r_smallest c)"

lemma tops_unique: "content_ok c \<Longrightarrow> a \<in> tops c \<Longrightarrow> b \<in> tops c \<Longrightarrow> te_Id a = te_Id b \<Longrightarrow> a = b"
  by (metis option.inject tops_alive)

lemma card_tops: "content_ok c \<Longrightarrow> card (tops c) = length (r_elems c)"
proof -
  assume c: "content_ok c"
  then have k: "map (te_Id \<circ> snd) (r_elems c) = map fst (r_elems c)" by (auto simp: content_ok_def)
  have "distinct (map fst (r_elems c))" using c by (simp add: content_ok_def wf_map_def)
  then have "distinct (map te_Id (map snd (r_elems c)))" by (simp only: map_map k)
  then have "distinct (map snd (r_elems c))" by (simp only: distinct_map)
  then have "card (set (map snd (r_elems c))) = length (map snd (r_elems c))" by (rule distinct_card)
  then show ?thesis by (simp add: tops_def)
qed

lemma tops_update:
  assumes "content_ok c" and "\<forall>p \<in> set m. te_Id (snd p) = fst p" and "wf_map m"
  shows "snd ` set (mput (te_Id e) e m) = insert e {x \<in> snd ` set m. te_Id x \<noteq> te_Id e}"
  using assms(2) by (force simp: set_mput_wf [OF assms(3)])

lemma tops_mput_elems:
  assumes "content_ok c"
  shows "snd ` set (mput (te_Id e) e (r_elems c)) = insert e {x \<in> tops c. te_Id x \<noteq> te_Id e}"
  using assms tops_update [of c "r_elems c" e] by (simp add: content_ok_def tops_def)

lemma replaced_represented:
  assumes "represented k T a" and "m \<in> T" and "finite T" and "gt e m" and "te_Id e = te_Id m"
    and "T' = insert e (T - {m})" and "e \<notin> T"
  shows "represented k T' a"
proof -
  have "card T' = Suc (card (T - {m}))" using assms(3,6,7) by simp
  then have card: "card T' = card T" using card_Suc_Diff1 [OF assms(3,2)] by simp
  from assms(1) consider x where "x \<in> T" "te_Id x = te_Id a" "\<not> gt a x" | "card T = k" "\<forall>x \<in> T. gt x a"
    by (auto simp: represented_def)
  then show ?thesis
  proof cases
    case (1 x)
    then show ?thesis
    proof (cases "x = m")
      case True
      with 1 assms(4,5) have "te_Id e = te_Id a" "\<not> gt a e" using gt_trans [of a e m] by auto
      with assms(6) show ?thesis by (auto simp: represented_def)
    next
      case False
      with 1 assms(6) show ?thesis by (auto simp: represented_def)
    qed
  next
    case 2
    with assms(2,4) have "gt e a" using gt_trans by blast
    with 2 card assms(6) show ?thesis by (auto simp: represented_def)
  qed
qed

lemma displaced_represented:
  assumes "represented k T a" and "m \<in> T" and "finite T" and "gt e m" and "lowest T m"
    and "inj_on te_Id T" and "T' = insert e (T - {m})" and "e \<notin> T" and "card T = k"
  shows "represented k T' a"
proof -
  have "card T' = Suc (card (T - {m}))" using assms(3,7,8) by simp
  then have card: "card T' = k" using card_Suc_Diff1 [OF assms(3,2)] assms(9) by simp
  have above: "gt x m" if "x \<in> T - {m}" for x
  proof -
    from that assms(2,6) have "te_Id x \<noteq> te_Id m" by (auto dest: inj_onD)
    with that assms(5) gt_total [of x m] show ?thesis by (auto simp: lowest_def)
  qed
  from assms(1) consider x where "x \<in> T" "te_Id x = te_Id a" "\<not> gt a x" | "\<forall>x \<in> T. gt x a"
    by (auto simp: represented_def)
  then show ?thesis
  proof cases
    case (1 x)
    show ?thesis
    proof (cases "x = m")
      case True
      have "gt y a" if "y \<in> T'" for y
        using that assms(4,7) above 1(3) True by (auto intro: gt_le_trans)
      with card show ?thesis by (simp add: represented_def)
    next
      case False
      with 1 assms(7) show ?thesis by (auto simp: represented_def)
    qed
  next
    case 2
    with assms(2,4) have "gt e a" using gt_trans by blast
    with 2 card assms(7) show ?thesis by (auto simp: represented_def)
  qed
qed

lemma tops_nonzero: "content_ok c \<Longrightarrow> e \<in> tops c \<Longrightarrow> \<not> te_isEqual e zero_elem"
  using tops_alive alive_not_zero by blast

lemma finite_tops [simp]: "finite (tops c)"
  by (simp add: tops_def)

lemma inj_tops: "content_ok c \<Longrightarrow> inj_on te_Id (tops c)"
  by (auto intro!: inj_onI dest: tops_unique)

lemma lowest_findMin: "content_ok c \<Longrightarrow> lowest (tops c) (r_smallest (rmv_findAndUpdateMin c))"
  using findMin_zero_lowest [of "map snd (r_elems c)"] tops_nonzero [of c]
  by (auto simp: lowest_def rmv_findAndUpdateMin_def tops_def)

lemma add_live_rems: "r_rems (fst (add_live c oldTs e)) = r_rems c"
  by (auto simp: add_live_def add_has_def add_space_def add_displace_def Let_def split: option.split)

lemma tops_sorted [simp]: "tops (c\<lparr>r_sorted := s\<rparr>) = tops c" "tops (rmv_findAndUpdateMin c) = tops c"
  by (simp_all add: tops_def)

lemma lowest_tops_insert:
  assumes "represented k T e" and "\<forall>a \<in> A. represented k T a"
  shows "\<forall>a \<in> insert e A. represented k T a"
  using assms by simp

lemma add_has_spec:
  assumes "top_spec k A c" and "0 < te_Ts e" and "map_of (r_elems c) (te_Id e) = Some elem" and "te_isHigher e elem"
    and "content_ok (fst (add_has c oldTs e elem))"
  shows "tops (fst (add_has c oldTs e elem)) \<subseteq> insert e A \<and> (\<forall>a \<in> insert e A. represented k (tops (fst (add_has c oldTs e elem))) a)
    \<and> lowest (tops (fst (add_has c oldTs e elem))) (r_smallest (fst (add_has c oldTs e elem)))"
proof -
  have ok: "content_ok c" "tops c \<subseteq> A" "\<forall>a \<in> A. represented k (tops c) a" "lowest (tops c) (r_smallest c)"
    using assms(1) by (auto simp: top_spec_def)
  note el = elem_alive [OF ok(1) assms(3)]
  have in_top: "elem \<in> tops c" using assms(3) by (force simp: tops_def dest: map_of_SomeD)
  have g: "gt e elem" using assms(4) higher_gt tops_nonzero [OF ok(1) in_top] by simp
  define c2 where "c2 = (if te_ReplicaID elem \<noteq> te_ReplicaID e
    then hide (te_Id e) elem (c\<lparr>r_elems := mput (te_Id e) e (r_elems c)\<rparr>) else c\<lparr>r_elems := mput (te_Id e) e (r_elems c)\<rparr>)"
  have "{x \<in> tops c. te_Id x \<noteq> te_Id e} = tops c - {elem}" using tops_unique [OF ok(1) _ in_top] el by auto
  then have T: "tops c2 = insert e (tops c - {elem})" using tops_mput_elems [OF ok(1), of e] by (simp add: c2_def tops_def)
  have f: "fst (add_has c oldTs e elem) = (if te_isEqual (r_smallest c) elem then rmv_findAndUpdateMin c2 else c2)\<lparr>r_sorted := None\<rparr>"
    using assms(4) by (simp add: add_has_def Let_def c2_def [symmetric]) (simp add: c2_def)
  then have T': "tops (fst (add_has c oldTs e elem)) = insert e (tops c - {elem})" using T by simp
  have new: "e \<notin> tops c" using tops_unique [OF ok(1) _ in_top] el g gt_irrefl by auto
  have rep: "represented k (insert e (tops c - {elem})) a" if "a \<in> A" for a
    by (rule replaced_represented [OF _ in_top finite_tops g _ refl new]) (use ok(3) that el in auto)
  have "represented k (insert e (tops c - {elem})) e" using gt_irrefl by (auto simp: represented_def)
  moreover have "lowest (insert e (tops c - {elem})) (r_smallest (fst (add_has c oldTs e elem)))"
  proof (cases "te_isEqual (r_smallest c) elem")
    case True
    then have "content_ok c2" using assms(5) f by simp
    from lowest_findMin [OF this] True T show ?thesis by (simp add: f)
  next
    case False
    then have s: "r_smallest (fst (add_has c oldTs e elem)) = r_smallest c" by (simp add: f c2_def)
    have "\<not> gt (r_smallest c) e" using ok(4) in_top g gt_trans unfolding lowest_def by blast
    then show ?thesis unfolding s using ok(4) by (auto simp: lowest_def)
  qed
  ultimately show ?thesis unfolding T' using ok(2) rep by auto
qed

lemma add_space_spec:
  assumes "top_spec k A c" and "0 < te_Ts e" and "map_of (r_elems c) (te_Id e) = None" and "length (r_elems c) < k"
  shows "tops (fst (add_space c oldTs e)) \<subseteq> insert e A \<and> (\<forall>a \<in> insert e A. represented k (tops (fst (add_space c oldTs e))) a)
    \<and> lowest (tops (fst (add_space c oldTs e))) (r_smallest (fst (add_space c oldTs e)))"
proof -
  have ok: "content_ok c" "tops c \<subseteq> A" "\<forall>a \<in> A. represented k (tops c) a" "lowest (tops c) (r_smallest c)"
    "r_elems c \<noteq> [] \<Longrightarrow> r_smallest c \<in> tops c" "r_elems c = [] \<Longrightarrow> r_smallest c = zero_elem"
    using assms(1) by (auto simp: top_spec_def size_ok_def)
  have fresh: "te_Id x \<noteq> te_Id e" if "x \<in> tops c" for x using tops_alive [OF ok(1) that] assms(3) by auto
  then have "{x \<in> tops c. te_Id x \<noteq> te_Id e} = tops c" by auto
  then have T: "tops (fst (add_space c oldTs e)) = insert e (tops c)"
    using tops_mput_elems [OF ok(1), of e] by (simp add: add_space_def Let_def tops_def)
  have "represented k (insert e (tops c)) a" if a: "a \<in> A" for a
    using ok(3) a card_tops [OF ok(1)] assms(4) by (auto simp: represented_def)
  moreover have "represented k (insert e (tops c)) e" using gt_irrefl by (auto simp: represented_def)
  moreover have "lowest (insert e (tops c)) (r_smallest (fst (add_space c oldTs e)))"
  proof (cases "r_elems c = []")
    case True
    then have "tops c = {}" by (simp add: tops_def)
    with True ok(6) show ?thesis by (simp add: add_space_def Let_def te_isEqual_def lowest_def gt_irrefl)
  next
    case False
    note small = ok(5) [OF False]
    have nz: "\<not> te_isEqual (r_smallest c) zero_elem" by (rule tops_nonzero [OF ok(1) small])
    have e: "\<not> te_isEqual e zero_elem" using assms(2) by (simp add: te_isEqual_def zero_elem_def)
    from gt_total [OF fresh [OF small]] consider "gt (r_smallest c) e" | "gt e (r_smallest c)" "\<not> gt (r_smallest c) e"
      using gt_trans gt_irrefl by blast
    then show ?thesis
    proof cases
      case 1
      then have s: "r_smallest (fst (add_space c oldTs e)) = e" by (simp add: add_space_def Let_def higher_gt [OF e])
      show ?thesis unfolding s lowest_def using ok(4) 1 by (auto simp: gt_irrefl lowest_def dest: gt_trans)
    next
      case 2
      then have s: "r_smallest (fst (add_space c oldTs e)) = r_smallest c"
        by (simp add: add_space_def Let_def nz higher_gt [OF e])
      show ?thesis unfolding s using ok(4) 2 by (auto simp: lowest_def)
    qed
  qed
  ultimately show ?thesis unfolding T using ok(2) by auto
qed

lemma add_displace_spec:
  assumes "top_spec k A c" and "0 < te_Ts e" and "map_of (r_elems c) (te_Id e) = None" and "length (r_elems c) = k" and "0 < k"
    and "te_isHigher e (r_smallest c)" and "content_ok (fst (add_displace c oldTs e))"
  shows "tops (fst (add_displace c oldTs e)) \<subseteq> insert e A \<and> (\<forall>a \<in> insert e A. represented k (tops (fst (add_displace c oldTs e))) a)
    \<and> lowest (tops (fst (add_displace c oldTs e))) (r_smallest (fst (add_displace c oldTs e)))"
proof -
  let ?m = "r_smallest c"
  have ok: "content_ok c" "tops c \<subseteq> A" "\<forall>a \<in> A. represented k (tops c) a" "lowest (tops c) ?m"
    using assms(1) by (auto simp: top_spec_def)
  have "r_elems c \<noteq> []" using assms(4,5) by auto
  with assms(1) have m: "?m \<in> tops c" by (simp add: top_spec_def size_ok_def)
  have g: "gt e ?m" using assms(6) higher_gt tops_nonzero [OF ok(1) m] by simp
  have fresh: "te_Id x \<noteq> te_Id e" if "x \<in> tops c" for x using tops_alive [OF ok(1) that] assms(3) by auto
  define d where "d = c\<lparr>r_elems := AList.delete (te_Id ?m) (r_elems c)\<rparr>"
  have cd: "content_ok d" unfolding d_def by (rule content_elems_delete [OF ok(1)])
  have Td: "tops d = tops c - {?m}"
  proof -
    have "tops d = {x \<in> tops c. te_Id x \<noteq> te_Id ?m}" using ok(1) by (force simp: d_def tops_def set_delete content_ok_def)
    then show ?thesis using tops_unique [OF ok(1) _ m] by auto
  qed
  have "{x \<in> tops d. te_Id x \<noteq> te_Id e} = tops c - {?m}" using Td fresh by auto
  then have T: "tops (fst (add_displace c oldTs e)) = insert e (tops c - {?m})"
    using tops_mput_elems [OF cd, of e] by (simp add: add_displace_def Let_def tops_def d_def)
  have new: "e \<notin> tops c" using fresh by blast
  have card: "card (tops c) = k" using card_tops [OF ok(1)] assms(4) by simp
  have "represented k (insert e (tops c - {?m})) a" if "a \<in> A" for a
    by (rule displaced_represented [OF _ m finite_tops g ok(4) inj_tops [OF ok(1)] refl new card]) (use ok(3) that in auto)
  moreover have "represented k (insert e (tops c - {?m})) e" using gt_irrefl by (auto simp: represented_def)
  moreover have "lowest (insert e (tops c - {?m})) (r_smallest (fst (add_displace c oldTs e)))"
  proof -
    define c2 where "c2 = (hide (te_Id ?m) ?m c)\<lparr>r_elems := mput (te_Id e) e (AList.delete (te_Id ?m) (r_elems c))\<rparr>"
    have f: "fst (add_displace c oldTs e) = (rmv_findAndUpdateMin c2)\<lparr>r_sorted := None\<rparr>"
      by (simp add: add_displace_def Let_def c2_def)
    with assms(7) have "content_ok c2" by simp
    from lowest_findMin [OF this] show ?thesis using T unfolding f by simp
  qed
  ultimately show ?thesis unfolding T using ok(2) by auto
qed

text \<open>An element that waits is represented.\<close>

lemma waiting_spec:
  assumes "top_spec k A c" and "represented k (tops c) e" and "tops d = tops c" and "r_smallest d = r_smallest c"
  shows "tops d \<subseteq> insert e A \<and> (\<forall>a \<in> insert e A. represented k (tops d) a) \<and> lowest (tops d) (r_smallest d)"
  using assms by (auto simp: top_spec_def)

lemma tops_hide [simp]: "tops (hide i e c) = tops c" "r_smallest (hide i e c) = r_smallest c"
  by (simp_all add: tops_def)

lemma add_live_tops:
  assumes "top_spec k A c" and "0 < te_Ts e" and "0 < k" and "content_ok (fst (add_live c oldTs e))"
  shows "tops (fst (add_live c oldTs e)) \<subseteq> insert e A \<and> (\<forall>a \<in> insert e A. represented k (tops (fst (add_live c oldTs e))) a)
    \<and> lowest (tops (fst (add_live c oldTs e))) (r_smallest (fst (add_live c oldTs e)))"
proof (cases "map_of (r_elems c) (te_Id e)")
  case (Some elem)
  then have l: "add_live c oldTs e = add_has c oldTs e elem" by (simp add: add_live_def)
  show ?thesis
  proof (cases "te_isHigher e elem")
    case True
    from add_has_spec [OF assms(1,2) Some True] assms(4) show ?thesis unfolding l by simp
  next
    case False
    have c: "content_ok c" using assms(1) by (simp add: top_spec_def)
    have el: "elem \<in> tops c" using Some by (force simp: tops_def dest: map_of_SomeD)
    from False higher_gt [OF tops_nonzero [OF c el]] have "\<not> gt e elem" by simp
    with el elem_alive [OF c Some] have "represented k (tops c) e" by (auto simp: represented_def)
    from waiting_spec [OF assms(1) this] False show ?thesis unfolding l by (simp add: add_has_def)
  qed
next
  case None
  have k: "r_maxElems c = int k" "length (r_elems c) \<le> k" "content_ok c"
    using assms(1) by (auto simp: top_spec_def size_ok_def)
  consider "length (r_elems c) < k" | "length (r_elems c) = k" "te_isHigher e (r_smallest c)"
    | "length (r_elems c) = k" "\<not> te_isHigher e (r_smallest c)" using k(2) by linarith
  then show ?thesis
  proof cases
    case 1
    with add_space_spec [OF assms(1,2) None 1, of oldTs] None k show ?thesis by (simp add: add_live_def)
  next
    case 2
    then have l: "add_live c oldTs e = add_displace c oldTs e" using None k by (simp add: add_live_def)
    from add_displace_spec [OF assms(1,2) None 2(1) assms(3) 2(2)] assms(4) show ?thesis unfolding l by simp
  next
    case 3
    have "r_elems c \<noteq> []" using 3 assms(3) by auto
    with assms(1) have m: "r_smallest c \<in> tops c" "lowest (tops c) (r_smallest c)" by (simp_all add: top_spec_def size_ok_def)
    have "\<not> gt e (r_smallest c)" using 3(2) higher_gt [OF tops_nonzero [OF k(3) m(1)]] by simp
    moreover have "te_Id x \<noteq> te_Id e" if "x \<in> tops c" for x using tops_alive [OF k(3) that] None by auto
    ultimately have "\<forall>x \<in> tops c. gt x e" using m gt_total gt_le_trans by (meson lowest_def)
    then have "represented k (tops c) e" using card_tops [OF k(3)] 3(1) by (simp add: represented_def)
    from waiting_spec [OF assms(1) this] 3 None k show ?thesis by (simp add: add_live_def)
  qed
qed

lemma add_live_maxElems: "r_maxElems (fst (add_live c oldTs e)) = r_maxElems c"
  by (simp add: add_live_def add_has_def add_space_def add_displace_def Let_def split: option.split)

lemma add_elem_spec:
  assumes "top_spec k A c" and "0 < te_Ts e" and "0 < k"
  shows "top_spec k (insert e A) (fst (add_elem c oldTs e))"
proof -
  have ok: "content_ok c" "size_ok k c" "r_rems c = []" using assms(1) by (simp_all add: top_spec_def)
  then have live: "alive (r_rems c) e" and l: "fst (add_elem c oldTs e) = fst (add_live c oldTs e)"
    using assms(2) by (simp_all add: alive_def add_elem_def split_beta)
  from add_live_ok [OF ok(1,2) live] have ok': "content_ok (fst (add_live c oldTs e))" "size_ok k (fst (add_live c oldTs e))"
    by auto
  from add_live_tops [OF assms ok'(1)] ok' ok(3) assms(1) show ?thesis
    unfolding l by (simp add: top_spec_def add_live_rems add_live_maxElems)
qed

text \<open>A list of additions, in the order they arrive.\<close>

definition rmv_adds :: "TopKRmvCrdt \<Rightarrow> TopKElement list \<Rightarrow> TopKRmvCrdt" where
  "rmv_adds c es = foldl (\<lambda>c e. fst (TopKRmv_applyAdd 0 c e)) c es"

lemma top_spec_vc [simp]: "top_spec k A (c\<lparr>r_vc := v\<rparr>) = top_spec k A c"
  by (simp add: top_spec_def content_ok_def size_ok_def tops_def)

lemma applyAdd_spec:
  assumes "top_spec k A c" and "0 < te_Ts e" and "te_Data e \<noteq> None" and "0 < k"
  shows "top_spec k (insert e A) (fst (TopKRmv_applyAdd fresh c e))"
proof -
  have "with_data fresh e = e" using assms(3) by (auto simp: with_data_def)
  moreover have "top_spec k (insert e A) (fst (add_elem (c\<lparr>r_vc := v\<rparr>) oldTs e))" for v oldTs
    by (rule add_elem_spec) (use assms in simp_all)
  ultimately show ?thesis by (simp add: TopKRmv_applyAdd_def Let_def split_beta)
qed

lemma rmv_adds_spec:
  "top_spec k A c \<Longrightarrow> \<forall>e \<in> set es. 0 < te_Ts e \<and> te_Data e \<noteq> None \<Longrightarrow> 0 < k \<Longrightarrow> top_spec k (set es \<union> A) (rmv_adds c es)"
proof (induction es arbitrary: A c)
  case (Cons e es)
  from Cons.IH [OF applyAdd_spec [OF Cons.prems(1), of e 0]] Cons.prems(2,3)
  show ?case by (simp add: rmv_adds_def)
qed (simp add: rmv_adds_def)

lemma empty_top_spec: "0 < k \<Longrightarrow> top_spec k {} (empty_top k)"
  by (simp add: top_spec_def empty_top_def TopKRmv_InitializeWithSize_def content_ok_def size_ok_def tops_def lowest_def wf_map_def)

text \<open>The top is determined by what it owes.\<close>

definition te_rank :: "TopKElement \<Rightarrow> int \<times> int \<times> int" where
  "te_rank e = (te_Id e, te_Score e, te_Ts e)"

lemma top_unique:
  assumes "T1 \<subseteq> A" "T2 \<subseteq> A" "inj_on te_Id T1" "inj_on te_Id T2" "finite T1" "finite T2" "card T1 \<le> k"
    and rep: "\<forall>a \<in> A. represented k T1 a" "\<forall>a \<in> A. represented k T2 a"
  shows "te_rank ` T1 \<subseteq> te_rank ` T2"
proof (rule image_subsetI)
  fix e assume e: "e \<in> T1"
  have "e \<in> A" using e assms(1) by auto
  with rep(2) have "represented k T2 e" by simp
  then consider x where "x \<in> T2" "te_Id x = te_Id e" "\<not> gt e x" | "card T2 = k" "\<forall>x \<in> T2. gt x e"
    by (auto simp: represented_def)
  then show "te_rank e \<in> te_rank ` T2"
  proof cases
    case (1 x)
    from 1 assms(2) rep(1) have "represented k T1 x" by auto
    moreover have "y = e" if "y \<in> T1" "te_Id y = te_Id x" for y using inj_onD [OF assms(3)] that e 1(2) by simp
    ultimately have "\<not> gt x e" using 1(3) e by (auto simp: represented_def)
    then have "te_rank e = te_rank x" using 1(2,3) by (auto simp: gt_def te_rank_def)
    with 1(1) show ?thesis by simp
  next
    case 2
    have ids: "\<exists>y \<in> T1. te_Id y = te_Id x \<and> \<not> gt x y" if "x \<in> T2" for x
    proof (rule ccontr)
      assume "\<not> ?thesis"
      moreover have "x \<in> A" using that assms(2) by auto
      ultimately have "gt e x" using rep(1) e unfolding represented_def by metis
      with 2(2) that gt_trans [of e x e] gt_irrefl [of e] show False by simp
    qed
    have "te_Id e \<notin> te_Id ` T2"
    proof
      assume "te_Id e \<in> te_Id ` T2"
      then obtain x where x: "x \<in> T2" "te_Id x = te_Id e" by auto
      obtain y where y: "y \<in> T1" "te_Id y = te_Id x" "\<not> gt x y" using ids [OF x(1)] by auto
      with x(2) e have "y = e" by (intro inj_onD [OF assms(3)]) simp_all
      with y have "\<not> gt x e" by simp
      with 2 x show False by simp
    qed
    moreover have "insert (te_Id e) (te_Id ` T2) \<subseteq> te_Id ` T1" using ids e by (metis image_eqI image_subsetI insert_subsetI)
    then have "card (insert (te_Id e) (te_Id ` T2)) \<le> card (te_Id ` T1)" using assms(5) by (intro card_mono) auto
    ultimately have "Suc k \<le> card T1" using 2(1) assms(3-6) by (simp add: card_image)
    with assms(7) show ?thesis by simp
  qed
qed

lemma top_spec_unique:
  assumes "top_spec k A c" and "top_spec k A d"
  shows "te_rank ` tops c \<subseteq> te_rank ` tops d"
proof -
  have c: "content_ok c" "tops c \<subseteq> A" "\<forall>a \<in> A. represented k (tops c) a" "length (r_elems c) \<le> k"
    using assms(1) by (simp_all add: top_spec_def size_ok_def)
  have d: "content_ok d" "tops d \<subseteq> A" "\<forall>a \<in> A. represented k (tops d) a" using assms(2) by (simp_all add: top_spec_def)
  show ?thesis
    by (rule top_unique [OF c(2) d(2) inj_tops [OF c(1)] inj_tops [OF d(1)] _ _ _ c(3) d(3)]) (use c card_tops in auto)
qed

lemma rank_determines:
  assumes "te_rank ` T1 = te_rank ` T2" and "T1 \<subseteq> A" and "T2 \<subseteq> A" and "\<forall>a \<in> A. \<forall>b \<in> A. a \<noteq> b \<longrightarrow> gt a b \<or> gt b a"
  shows "T1 = T2"
proof -
  have "\<not> gt a b" if "te_rank a = te_rank b" for a b using that by (simp add: te_rank_def gt_def)
  then have "inj_on te_rank A" using assms(4) by (metis inj_onI)
  then show ?thesis using assms(1-3) inj_on_image_eq_iff by metis
qed

text \<open>Additions without data get it when they arrive; that changes nothing else.\<close>

lemma with_data_idem [simp]: "with_data p (with_data p e) = with_data p e"
  by (simp add: with_data_def split: option.split)

lemma gt_with_data [simp]: "gt (with_data p a) b = gt a b" "gt a (with_data p b) = gt a b"
  by (simp_all add: gt_def)

lemma with_data_some [simp]: "\<exists>d. te_Data (with_data p e) = Some d"
  by (simp add: with_data_def split: option.split)

lemma rmv_adds_with_data: "rmv_adds c us = rmv_adds c (map (with_data 0) us)"
proof -
  have "TopKRmv_applyAdd 0 c e = TopKRmv_applyAdd 0 c (with_data 0 e)" for c e by (simp add: TopKRmv_applyAdd_def)
  then show ?thesis by (induction us arbitrary: c) (simp_all add: rmv_adds_def)
qed

text \<open>
  C18. Take additions with positive stamps, as \<open>Update\<close> makes them, and no removals, on a top
  of \<open>k > 0\<close> places. The top keeps the best element of every id: it holds only elements that
  were added (with the data filled in where it was missing); every added element has one of
  its id in the top that is at least as high, or the top is full of higher elements. Replicas
  that receive the same additions in different orders have in the top the same ids with the
  same scores and stamps; and they have the very same elements if no two different additions
  tie in score, id and stamp. Two additions of one id by different replicas can tie, as the
  stamps are counters per replica: then which of their data is kept depends on the order.
\<close>

theorem TopKRmv_adds_keep_best:
  assumes "\<forall>e \<in> set us. 0 < te_Ts e" and "0 < k" and "mset vs = mset us"
  shows "tops (rmv_adds (empty_top k) us) \<subseteq> with_data 0 ` set us
    \<and> (\<forall>a \<in> set us. (\<exists>e \<in> tops (rmv_adds (empty_top k) us). te_Id e = te_Id a \<and> \<not> gt a e)
         \<or> card (tops (rmv_adds (empty_top k) us)) = k \<and> (\<forall>e \<in> tops (rmv_adds (empty_top k) us). gt e a))
    \<and> te_rank ` tops (rmv_adds (empty_top k) vs) = te_rank ` tops (rmv_adds (empty_top k) us)
    \<and> ((\<forall>a \<in> set us. \<forall>b \<in> set us. a \<noteq> b \<longrightarrow> gt a b \<or> gt b a) \<longrightarrow>
         tops (rmv_adds (empty_top k) vs) = tops (rmv_adds (empty_top k) us))"
proof -
  let ?A = "with_data 0 ` set us"
  have sets: "set vs = set us" using assms(3) mset_eq_setD by blast
  have spec: "top_spec k ?A (rmv_adds (empty_top k) es)" if "set es = set us" for es
    using rmv_adds_spec [OF empty_top_spec [OF assms(2)], of "map (with_data 0) es"] that assms(1,2)
    unfolding rmv_adds_with_data [of _ es] by simp
  note u = spec [OF refl] and v = spec [OF sets]
  have rank: "te_rank ` tops (rmv_adds (empty_top k) vs) = te_rank ` tops (rmv_adds (empty_top k) us)"
    using top_spec_unique [OF u v] top_spec_unique [OF v u] by auto
  have in_A: "tops (rmv_adds (empty_top k) us) \<subseteq> ?A" "tops (rmv_adds (empty_top k) vs) \<subseteq> ?A"
    using u v by (simp_all add: top_spec_def)
  have same: "tops (rmv_adds (empty_top k) vs) = tops (rmv_adds (empty_top k) us)"
    if "\<forall>a \<in> set us. \<forall>b \<in> set us. a \<noteq> b \<longrightarrow> gt a b \<or> gt b a"
    by (rule rank_determines [OF rank in_A(2,1)]) (use that in auto)
  have "\<forall>a \<in> set us. represented k (tops (rmv_adds (empty_top k) us)) (with_data 0 a)"
    using u by (simp add: top_spec_def)
  then show ?thesis using in_A(1) rank same by (simp add: represented_def)
qed

theorem TopKRmv_adds_keep_best_witness:
  "tops (rmv_adds (empty_top 2) [te 3 1 1 2, te 2 9 1 1, te 1 5 2 1, te 1 4 1 1])
     = tops (rmv_adds (empty_top 2) [te 1 4 1 1, te 2 9 1 1, te 3 1 1 2, te 1 5 2 1])
   \<and> r_elems (rmv_adds (empty_top 2) [te 1 4 1 1, te 2 9 1 1, te 3 1 1 2, te 1 5 2 1]) = [(1, te 1 5 2 1), (2, te 2 9 1 1)]"
proof
  show "tops (rmv_adds (empty_top 2) [te 3 1 1 2, te 2 9 1 1, te 1 5 2 1, te 1 4 1 1])
     = tops (rmv_adds (empty_top 2) [te 1 4 1 1, te 2 9 1 1, te 3 1 1 2, te 1 5 2 1])"
    using TopKRmv_adds_keep_best [of "[te 1 4 1 1, te 2 9 1 1, te 3 1 1 2, te 1 5 2 1]" 2 "[te 3 1 1 2, te 2 9 1 1, te 1 5 2 1, te 1 4 1 1]"]
    by (simp add: te_def gt_def)
qed code_simp

text \<open>
  A removal that promotes another addition of the removed id makes it the smallest
  element of the top, even when a lower one is in the top; from then on higher elements are
  turned away. Here 6 waits outside while 5 is in a top that has 8 as its smallest element. A
  replica that receives the same operations in another order has 6 in the top.
\<close>

theorem TopKRmv_wrong_smallest:
  "map_sum id (\<lambda>c. (r_smallest c, map snd (r_elems c), hidden c 3)) (rmv_ops (empty_top 2)
      [DownstreamTopKAdd (te 1 10 1 1), DownstreamTopKAdd (te 2 5 2 1), DownstreamTopKAdd (te 1 8 1 2),
       DownstreamTopKRemove 1 [(1, 2), (2, 0)], DownstreamTopKAdd (te 3 6 3 1)])
     = Inr (te 1 8 1 2, [te 2 5 2 1, te 1 8 1 2], [te 3 6 3 1])
   \<and> map_sum id (\<lambda>c. (map snd (r_elems c), hidden c 2)) (rmv_ops (empty_top 2)
      [DownstreamTopKAdd (te 3 6 3 1), DownstreamTopKAdd (te 1 10 1 1), DownstreamTopKAdd (te 2 5 2 1),
       DownstreamTopKAdd (te 1 8 1 2), DownstreamTopKRemove 1 [(1, 2), (2, 0)]])
     = Inr ([te 3 6 3 1, te 1 8 1 2], [te 2 5 2 1])"
  by code_simp

end
