(* ===== verification/Avg.thy ===== *)
theory Avg
  imports Convergence Float64
begin

text \<open>
  The average of \<^verbatim>\<open>crdt/crdt/avgCrdt.go\<close>: a 64-bit sum and a 64-bit number of additions. A
  slice argument that may be nil is an option of a list. The value is the quotient of the two
  counters converted to \<open>float64\<close>.
\<close>

record AvgCrdt =
  avg_sum :: int
  avg_nAdds :: int

datatype avg_update = AddValue int | AddMultipleValue int int

record AddMultipleValue_down =
  SumValue :: int
  NAdds :: int

definition Avg_Initialize :: AvgCrdt where
  "Avg_Initialize = \<lparr>avg_sum = 0, avg_nAdds = 0\<rparr>"

text \<open>The body of the loop over pending updates, with its type assertion.\<close>

fun Avg_pending :: "int \<times> int \<Rightarrow> avg_update \<Rightarrow> (int \<times> int) go" where
  "Avg_pending (s, n) (AddMultipleValue v k) = Inr (int64 (s + v), int64 (n + k))"
| "Avg_pending (s, n) (AddValue v) = Inl TypeAssertion"

definition Avg_getFullValue :: "AvgCrdt \<Rightarrow> avg_update list option \<Rightarrow> (int \<times> int) go" where
  "Avg_getFullValue c updsNotYetApplied = (case updsNotYetApplied of
      None \<Rightarrow> Inr (avg_sum c, avg_nAdds c)
    | Some upds \<Rightarrow>
        if length upds > 0 then Inr (avg_sum c, avg_nAdds c)
        else gfold Avg_pending (avg_sum c, avg_nAdds c) upds)"

definition avg_value :: "int \<Rightarrow> int \<Rightarrow> float64" where
  "avg_value sm n = fdiv (float64_of_int sm) (float64_of_int n)"

definition Avg_getValue :: "AvgCrdt \<Rightarrow> avg_update list option \<Rightarrow> float64 go" where
  "Avg_getValue c updsNotYetApplied = (case updsNotYetApplied of
      None \<Rightarrow> Inr (avg_value (avg_sum c) (avg_nAdds c))
    | Some upds \<Rightarrow>
        if length upds > 0 then Inr (avg_value (avg_sum c) (avg_nAdds c))
        else gbind (gfold Avg_pending (avg_sum c, avg_nAdds c) upds) (\<lambda>(sm, n). Inr (avg_value sm n)))"

fun Avg_Update :: "AvgCrdt \<Rightarrow> avg_update \<Rightarrow> AddMultipleValue_down" where
  "Avg_Update c (AddValue v) = \<lparr>SumValue = v, NAdds = 1\<rparr>"
| "Avg_Update c (AddMultipleValue v k) = \<lparr>SumValue = v, NAdds = k\<rparr>"

definition Avg_applyDownstream :: "AvgCrdt \<Rightarrow> AddMultipleValue_down \<Rightarrow> AvgCrdt \<times> AddMultipleValue_down" where
  "Avg_applyDownstream c u =
     (\<lparr>avg_sum = int64 (avg_sum c + SumValue u), avg_nAdds = int64 (avg_nAdds c + NAdds u)\<rparr>, u)"

definition Avg_Downstream ::
    "bool \<Rightarrow> (AddMultipleValue_down, AddMultipleValue_down) History list \<times> AvgCrdt \<Rightarrow> ClockSiTimestamp
       \<Rightarrow> AddMultipleValue_down \<Rightarrow> (AddMultipleValue_down, AddMultipleValue_down) History list \<times> AvgCrdt" where
  "Avg_Downstream vmDisabled c updTs downstreamArgs = (case c of (history, v) \<Rightarrow>
     (case Avg_applyDownstream v downstreamArgs of (v', effect) \<Rightarrow>
        (addToHistory vmDisabled history updTs downstreamArgs effect, v')))"

definition Avg_reapplyOp :: "AvgCrdt \<Rightarrow> AddMultipleValue_down \<Rightarrow> (AvgCrdt \<times> AddMultipleValue_down) go" where
  "Avg_reapplyOp c updArgs = Inr (Avg_applyDownstream c updArgs)"

definition Avg_undoEffect :: "AvgCrdt \<Rightarrow> AddMultipleValue_down \<Rightarrow> AvgCrdt go" where
  "Avg_undoEffect c e =
     Inr \<lparr>avg_sum = int64 (avg_sum c - SumValue e), avg_nAdds = int64 (avg_nAdds c - NAdds e)\<rparr>"

section \<open>Messages\<close>

text \<open>The client message has a value and a number of values; the receiver builds an \<open>AddMultipleValue\<close>.\<close>

fun Avg_ToUpdateObject :: "avg_update \<Rightarrow> int \<times> int" where
  "Avg_ToUpdateObject (AddValue v) = (v, 1)"
| "Avg_ToUpdateObject (AddMultipleValue v k) = (v, k)"

definition Avg_FromUpdateObject :: "int \<times> int \<Rightarrow> avg_update" where
  "Avg_FromUpdateObject pb = AddMultipleValue (fst pb) (snd pb)"

definition Avg_ToReplicatorObj :: "AddMultipleValue_down \<Rightarrow> int \<times> int" where
  "Avg_ToReplicatorObj u = (SumValue u, NAdds u)"

definition Avg_FromReplicatorObj :: "int \<times> int \<Rightarrow> AddMultipleValue_down" where
  "Avg_FromReplicatorObj pb = \<lparr>SumValue = fst pb, NAdds = snd pb\<rparr>"

definition Avg_ToProtoState :: "AvgCrdt \<Rightarrow> int \<times> int" where
  "Avg_ToProtoState c = (avg_sum c, avg_nAdds c)"

definition Avg_FromProtoState :: "int \<times> int \<Rightarrow> AvgCrdt" where
  "Avg_FromProtoState pb = \<lparr>avg_sum = fst pb, avg_nAdds = snd pb\<rparr>"

section \<open>Contracts\<close>

definition avg_ok :: "AvgCrdt \<Rightarrow> AddMultipleValue_down \<Rightarrow> bool" where
  "avg_ok c u \<longleftrightarrow> in_int 64 (avg_sum c) \<and> in_int 64 (avg_nAdds c)"

interpretation avg: commuting_undo Avg_applyDownstream Avg_undoEffect avg_ok
proof
  fix s u
  assume "avg_ok s u"
  then show "Avg_undoEffect (fst (Avg_applyDownstream s u)) (snd (Avg_applyDownstream s u)) = Inr s"
    by (simp add: avg_ok_def Avg_applyDownstream_def Avg_undoEffect_def wrap_simps)
next
  fix s e f
  show "gbind (Avg_undoEffect s e) (\<lambda>s'. Avg_undoEffect s' f) =
      gbind (Avg_undoEffect s f) (\<lambda>s'. Avg_undoEffect s' e)"
    by (simp add: Avg_undoEffect_def wrap_simps algebra_simps)
qed

interpretation avg_ops: causal_ops Avg_applyDownstream "\<lambda>u v. False" "\<lambda>u v. True"
  by unfold_locales (simp add: Avg_applyDownstream_def wrap_simps algebra_simps)

lemma Avg_run_ok:
  "in_int 64 (avg_sum c) \<Longrightarrow> in_int 64 (avg_nAdds c) \<Longrightarrow> run_ok Avg_applyDownstream avg_ok c us"
  by (induction us arbitrary: c) (simp_all add: avg_ok_def Avg_applyDownstream_def swrap_in_int)

text \<open>The average of a list of downstream operations: what the two counters should hold.\<close>

definition avg_of :: "AddMultipleValue_down list \<Rightarrow> AvgCrdt" where
  "avg_of us = \<lparr>avg_sum = int64 (sum_list (map SumValue us)), avg_nAdds = int64 (sum_list (map NAdds us))\<rparr>"

lemma Avg_run:
  "run Avg_applyDownstream \<lparr>avg_sum = int64 a, avg_nAdds = int64 b\<rparr> us =
     \<lparr>avg_sum = int64 (a + sum_list (map SumValue us)), avg_nAdds = int64 (b + sum_list (map NAdds us))\<rparr>"
  by (induction us arbitrary: a b) (simp_all add: Avg_applyDownstream_def wrap_simps algebra_simps)

lemma Avg_run_initial: "run Avg_applyDownstream Avg_Initialize us = avg_of us"
proof -
  have "Avg_Initialize = \<lparr>avg_sum = int64 0, avg_nAdds = int64 0\<rparr>"
    by (simp add: Avg_Initialize_def swrap_id in_int_def)
  then show ?thesis using Avg_run [of 0 0 us] by (simp add: avg_of_def)
qed

lemma avg_of_permuted: "mset us = mset vs \<Longrightarrow> avg_of us = avg_of vs"
proof -
  assume "mset us = mset vs"
  then have "mset (map SumValue us) = mset (map SumValue vs)" "mset (map NAdds us) = mset (map NAdds vs)"
    by simp_all
  then show ?thesis unfolding avg_of_def by (metis sum_mset_sum_list)
qed

lemma Avg_Downstream_step: "Avg_Downstream = (\<lambda>dis. downstream_step dis Avg_applyDownstream)"
  by (intro ext) (simp add: Avg_Downstream_def downstream_step_def split: prod.split)

text \<open>
  The average holds the 64-bit sums of the delivered operations, which do not depend on
  the delivery order, and rebuilding an old version gives the sums of the updates at or
  below the requested clock. A whole average of counters up to \<open>2 ^ 53\<close> is read exactly, and
  the average of nothing is read as NaN. Reads never see a transaction's own updates: the
  condition that should recognise an empty list of pending updates is negated. Messages keep the operation, and a client's
  \<open>AddValue\<close> has the same downstream operation after the client protocol.
\<close>

theorem Avg_correct:
  assumes "deliver_all False Avg_applyDownstream ([], Avg_Initialize) ds = (h, c)"
    and "ordered_history target h" and "mset (map snd ds) = mset us"
  shows "c = avg_of us
    \<and> (\<exists>h'. rebuildCRDTToVersion False Avg_undoEffect Avg_reapplyOp (\<lambda>t s. Inr s) target h c =
         Inr (h', avg_of (concat (map updsArgs (filter (\<lambda>e. IsLowerOrEqual (h_ts e) (Some target)) h)))))
    \<and> (avg_sum c = v * avg_nAdds c \<and> v \<noteq> 0 \<and> avg_nAdds c \<noteq> 0 \<and> \<bar>avg_sum c\<bar> \<le> 2 ^ 53 \<and> \<bar>avg_nAdds c\<bar> \<le> 2 ^ 53 \<longrightarrow>
         Avg_getValue c None = Inr (float64_of_int v))
    \<and> Avg_getValue Avg_Initialize None = Inr NaN
    \<and> Avg_getFullValue c pend = Inr (avg_sum c, avg_nAdds c)
    \<and> Avg_getValue c pend = Avg_getValue c None
    \<and> Avg_FromReplicatorObj (Avg_ToReplicatorObj d) = d
    \<and> Avg_Update c (Avg_FromUpdateObject (Avg_ToUpdateObject u)) = Avg_Update c u"
proof (intro conjI impI)
  have ok: "run_ok Avg_applyDownstream avg_ok Avg_Initialize (map snd ds)"
    by (rule Avg_run_ok) (simp_all add: Avg_Initialize_def in_int_def)
  show "c = avg_of us"
    using deliver_all_recorded(3) [OF assms(1) ok] avg_of_permuted [OF assms(3)]
    by (simp add: Avg_run_initial)
  show "\<exists>h'. rebuildCRDTToVersion False Avg_undoEffect Avg_reapplyOp (\<lambda>t s. Inr s) target h c =
      Inr (h', avg_of (concat (map updsArgs (filter (\<lambda>e. IsLowerOrEqual (h_ts e) (Some target)) h))))"
    using avg.rebuild_version [OF assms(1) ok assms(2)] by (simp add: version_at_def Avg_run_initial)
  show "Avg_getValue Avg_Initialize None = Inr NaN"
    by (simp add: Avg_getValue_def Avg_Initialize_def avg_value_def)
  show "Avg_getFullValue c pend = Inr (avg_sum c, avg_nAdds c)" "Avg_getValue c pend = Avg_getValue c None"
    by (auto simp: Avg_getFullValue_def Avg_getValue_def split: option.split)
  show "Avg_FromReplicatorObj (Avg_ToReplicatorObj d) = d"
    by (simp add: Avg_FromReplicatorObj_def Avg_ToReplicatorObj_def)
  show "Avg_Update c (Avg_FromUpdateObject (Avg_ToUpdateObject u)) = Avg_Update c u"
    by (cases u) (simp_all add: Avg_FromUpdateObject_def)
next
  assume "avg_sum c = v * avg_nAdds c \<and> v \<noteq> 0 \<and> avg_nAdds c \<noteq> 0 \<and> \<bar>avg_sum c\<bar> \<le> 2 ^ 53 \<and> \<bar>avg_nAdds c\<bar> \<le> 2 ^ 53"
  then have "avg_value (avg_sum c) (avg_nAdds c) = float64_of_int v"
    unfolding avg_value_def by (metis fdiv_of_int)
  then show "Avg_getValue c None = Inr (float64_of_int v)" by (simp add: Avg_getValue_def)
qed

theorem Avg_correct_witness:
  "\<exists>h h'. deliver_all False Avg_applyDownstream ([], Avg_Initialize)
       [([(1, 3)], \<lparr>SumValue = 10, NAdds = 2\<rparr>), ([(1, 6)], \<lparr>SumValue = 5, NAdds = 1\<rparr>)]
       = (h, \<lparr>avg_sum = 15, avg_nAdds = 3\<rparr>)
     \<and> rebuildCRDTToVersion False Avg_undoEffect Avg_reapplyOp (\<lambda>t s. Inr s) [(1, 4)] h
         \<lparr>avg_sum = 15, avg_nAdds = 3\<rparr> = Inr (h', \<lparr>avg_sum = 10, avg_nAdds = 2\<rparr>)
     \<and> Avg_getValue \<lparr>avg_sum = 15, avg_nAdds = 3\<rparr> None = Inr (float64_of_int 5)"
proof -
  let ?u = "\<lparr>SumValue = 10, NAdds = 2\<rparr>" and ?v = "\<lparr>SumValue = 5, NAdds = 1\<rparr>"
  let ?ds = "[([(1, 3)], ?u), ([(1, 6)], ?v)]"
  let ?h = "[\<lparr>h_ts = [(1, 3)], updsArgs = [?u], effects = [?u]\<rparr>, \<lparr>h_ts = [(1, 6)], updsArgs = [?v], effects = [?v]\<rparr>]"
  have w: "int64 10 = 10" "int64 2 = 2" "int64 15 = 15" "int64 3 = 3" by (simp_all add: swrap_def)
  have d: "deliver_all False Avg_applyDownstream ([], Avg_Initialize) ?ds = (?h, \<lparr>avg_sum = 15, avg_nAdds = 3\<rparr>)"
    by (simp add: downstream_step_def addToHistory_def Avg_Initialize_def Avg_applyDownstream_def
        IsEqual_def vget_def w)
  have "ordered_history [(1, 4)] ?h"
    by (auto simp: ordered_history_def increasing_def wf_map_def same_ids_def IsLowerOrEqual_def
        Compare_def vget_def)
  from Avg_correct [OF d this, of "[?u, ?v]" 5] d
  show ?thesis by (auto simp: avg_of_def IsLowerOrEqual_def vget_def w)
qed

end
