(* ===== verification/MaxMin.thy ===== *)
theory MaxMin
  imports Avg
begin

text \<open>
  The maximum and minimum of \<^verbatim>\<open>crdt/crdt/maxMinCrdt.go\<close>: one 64-bit value, where the largest
  integer stands for no value. \<open>Update\<close> drops an operation that cannot change the value by
  returning \<open>NoOp\<close>, which is not replicated.
\<close>

type_synonym MaxMinCrdt = int

datatype maxmin_op = MaxAddValue int | MinAddValue int | MaxMin_NoOp

datatype maxmin_effect = MaxMinAddValueEffect int

definition MaxMin_Initialize :: MaxMinCrdt where
  "MaxMin_Initialize = MaxInt64"

definition MaxMin_max :: "int \<Rightarrow> int \<Rightarrow> int" where
  "MaxMin_max first second = (if first = MaxInt64 \<or> second > first then second else first)"

definition MaxMin_min :: "int \<Rightarrow> int \<Rightarrow> int" where
  "MaxMin_min first second = (if first = MaxInt64 \<or> second < first then second else first)"

fun MaxMin_pending :: "int \<Rightarrow> maxmin_op \<Rightarrow> int" where
  "MaxMin_pending result (MaxAddValue v) = MaxMin_max result v"
| "MaxMin_pending result (MinAddValue v) = MaxMin_min result v"
| "MaxMin_pending result MaxMin_NoOp = result"

definition MaxMin_Read :: "MaxMinCrdt \<Rightarrow> maxmin_op list option \<Rightarrow> int" where
  "MaxMin_Read c updsNotYetApplied = (case updsNotYetApplied of
      None \<Rightarrow> c
    | Some upds \<Rightarrow> if length upds > 0 then c else foldl MaxMin_pending c upds)"

fun MaxMin_Update :: "MaxMinCrdt \<Rightarrow> maxmin_op \<Rightarrow> maxmin_op" where
  "MaxMin_Update c (MaxAddValue v) =
     (if c = MaxInt64 then MaxAddValue v else if v < c then MaxMin_NoOp else MaxAddValue v)"
| "MaxMin_Update c (MinAddValue v) =
     (if c = MaxInt64 then MinAddValue v else if v > c then MaxMin_NoOp else MinAddValue v)"
| "MaxMin_Update c MaxMin_NoOp = MaxMin_NoOp"

text \<open>For an unknown operation the effect variable keeps its nil value.\<close>

fun MaxMin_applyDownstream :: "MaxMinCrdt \<Rightarrow> maxmin_op \<Rightarrow> MaxMinCrdt \<times> maxmin_effect effect" where
  "MaxMin_applyDownstream c (MaxAddValue v) =
     (let t = MaxMin_max c v in (t, if c = t then NoEffect else Eff (MaxMinAddValueEffect c)))"
| "MaxMin_applyDownstream c (MinAddValue v) =
     (let t = MaxMin_min c v in (t, if c = t then NoEffect else Eff (MaxMinAddValueEffect c)))"
| "MaxMin_applyDownstream c MaxMin_NoOp = (c, NilEffect)"

definition MaxMin_Downstream ::
    "bool \<Rightarrow> (maxmin_op, maxmin_effect effect) History list \<times> MaxMinCrdt \<Rightarrow> ClockSiTimestamp
       \<Rightarrow> maxmin_op \<Rightarrow> (maxmin_op, maxmin_effect effect) History list \<times> MaxMinCrdt" where
  "MaxMin_Downstream vmDisabled c updTs downstreamArgs = (case c of (history, v) \<Rightarrow>
     (case MaxMin_applyDownstream v downstreamArgs of (v', effect) \<Rightarrow>
        (addToHistory vmDisabled history updTs downstreamArgs effect, v')))"

definition MaxMin_reapplyOp :: "MaxMinCrdt \<Rightarrow> maxmin_op \<Rightarrow> (MaxMinCrdt \<times> maxmin_effect effect) go" where
  "MaxMin_reapplyOp c updArgs = Inr (MaxMin_applyDownstream c updArgs)"

text \<open>\<open>undoEffect\<close> asserts the effect's type without the check of the other CRDTs.\<close>

fun MaxMin_undoEffect :: "MaxMinCrdt \<Rightarrow> maxmin_effect effect \<Rightarrow> MaxMinCrdt go" where
  "MaxMin_undoEffect c (Eff (MaxMinAddValueEffect previousValue)) =
     Inr (if c \<noteq> previousValue then previousValue else c)"
| "MaxMin_undoEffect c NoEffect = Inl TypeAssertion"
| "MaxMin_undoEffect c NilEffect = Inl TypeAssertion"

section \<open>Messages\<close>

text \<open>The client message is a value and a flag, the replicator message has one optional field per kind.\<close>

record ProtoMaxMinDownstream =
  pb_Max :: "int option"
  pb_Min :: "int option"

text \<open>\<open>NoOp\<close> has no message: \<open>MustReplicate\<close> is false for it.\<close>

fun MaxMin_MustReplicate :: "maxmin_op \<Rightarrow> bool" where
  "MaxMin_MustReplicate (MaxAddValue v) = True"
| "MaxMin_MustReplicate (MinAddValue v) = True"
| "MaxMin_MustReplicate MaxMin_NoOp = False"

fun MaxMin_ToReplicatorObj :: "maxmin_op \<Rightarrow> ProtoMaxMinDownstream option" where
  "MaxMin_ToReplicatorObj (MaxAddValue v) = Some \<lparr>pb_Max = Some v, pb_Min = None\<rparr>"
| "MaxMin_ToReplicatorObj (MinAddValue v) = Some \<lparr>pb_Max = None, pb_Min = Some v\<rparr>"
| "MaxMin_ToReplicatorObj MaxMin_NoOp = None"

definition downstreamProtoMaxMinToAntidoteDownstream :: "ProtoMaxMinDownstream \<Rightarrow> maxmin_op" where
  "downstreamProtoMaxMinToAntidoteDownstream pb = (case pb_Max pb of
      Some v \<Rightarrow> MaxAddValue v
    | None \<Rightarrow> MinAddValue (case pb_Min pb of Some v \<Rightarrow> v | None \<Rightarrow> 0))"

definition MaxMin_ToProtoState :: "MaxMinCrdt \<Rightarrow> int" where
  "MaxMin_ToProtoState c = c"

definition MaxMin_FromProtoState :: "int \<Rightarrow> MaxMinCrdt" where
  "MaxMin_FromProtoState pb = pb"

section \<open>Contracts\<close>

text \<open>
  Operations of one kind commute as long as none carries the value that stands for no value.
  The undo contract covers operations that change the value.
\<close>

fun maxmin_coexist :: "maxmin_op \<Rightarrow> maxmin_op \<Rightarrow> bool" where
  "maxmin_coexist (MaxAddValue v) (MaxAddValue w) = (v < MaxInt64 \<and> w < MaxInt64)"
| "maxmin_coexist (MinAddValue v) (MinAddValue w) = (v < MaxInt64 \<and> w < MaxInt64)"
| "maxmin_coexist u v = False"

interpretation maxmin: inversible MaxMin_applyDownstream MaxMin_undoEffect
  "\<lambda>c u. fst (MaxMin_applyDownstream c u) \<noteq> c"
proof
  fix s u
  assume "fst (MaxMin_applyDownstream s u) \<noteq> s"
  then show "MaxMin_undoEffect (fst (MaxMin_applyDownstream s u)) (snd (MaxMin_applyDownstream s u)) = Inr s"
    by (cases u) (auto simp: Let_def)
qed

interpretation maxmin_ops: causal_ops MaxMin_applyDownstream "\<lambda>u v. False" maxmin_coexist
proof
  fix u v s
  assume "maxmin_coexist u v"
  then show "fst (MaxMin_applyDownstream (fst (MaxMin_applyDownstream s u)) v) =
      fst (MaxMin_applyDownstream (fst (MaxMin_applyDownstream s v)) u)"
    by (cases "(u, v)" rule: maxmin_coexist.cases) (auto simp: MaxMin_max_def MaxMin_min_def Let_def)
qed

section \<open>Maximum and minimum\<close>

lemma run_MaxAddValue:
  assumes "\<forall>x \<in> set xs. x < MaxInt64" and "c < MaxInt64"
  shows "run MaxMin_applyDownstream c (map MaxAddValue xs) = Max (insert c (set xs))"
  using assms
proof (induction xs arbitrary: c)
  case (Cons x xs)
  have "MaxMin_max c x = max c x" using Cons.prems by (auto simp: MaxMin_max_def)
  moreover have "max c x < MaxInt64" using Cons.prems by simp
  ultimately have "run MaxMin_applyDownstream c (map MaxAddValue (x # xs)) = Max (insert (max c x) (set xs))"
    using Cons by (simp add: Let_def)
  then show ?case by (cases "xs = []") (simp_all add: max.assoc)
qed simp

lemma run_MinAddValue:
  assumes "\<forall>x \<in> set xs. x < MaxInt64" and "c < MaxInt64"
  shows "run MaxMin_applyDownstream c (map MinAddValue xs) = Min (insert c (set xs))"
  using assms
proof (induction xs arbitrary: c)
  case (Cons x xs)
  have "MaxMin_min c x = min c x" using Cons.prems by (auto simp: MaxMin_min_def)
  moreover have "min c x < MaxInt64" using Cons.prems by simp
  ultimately have "run MaxMin_applyDownstream c (map MinAddValue (x # xs)) = Min (insert (min c x) (set xs))"
    using Cons by (simp add: Let_def)
  then show ?case by (cases "xs = []") (simp_all add: min.assoc)
qed simp

lemma run_MaxAddValue_initial:
  assumes "xs \<noteq> []" and "\<forall>x \<in> set xs. x < MaxInt64"
  shows "run MaxMin_applyDownstream MaxMin_Initialize (map MaxAddValue xs) = Max (set xs)"
  using assms run_MaxAddValue [of "tl xs" "hd xs"]
  by (cases xs) (auto simp: MaxMin_Initialize_def MaxMin_max_def Let_def)

lemma run_MinAddValue_initial:
  assumes "xs \<noteq> []" and "\<forall>x \<in> set xs. x < MaxInt64"
  shows "run MaxMin_applyDownstream MaxMin_Initialize (map MinAddValue xs) = Min (set xs)"
  using assms run_MinAddValue [of "tl xs" "hd xs"]
  by (cases xs) (auto simp: MaxMin_Initialize_def MaxMin_min_def Let_def)

text \<open>
  A maximum (minimum) that received any values, in any order, holds the largest
  (smallest) of them, and dropping updates is invisible: an update that \<open>Update\<close> replaces
  by \<open>NoOp\<close> at the state a replica has after the values \<open>xs\<close> would not have changed the
  result after any further values \<open>ys\<close>. Reads never see a transaction's own updates: the
  condition that should recognise an empty list of pending updates is negated, and the stored
  value is returned.
\<close>

theorem MaxMin_extremum:
  assumes "xs \<noteq> []" and "\<forall>x \<in> set (v # xs @ ys). x < MaxInt64"
    and "c = run MaxMin_applyDownstream MaxMin_Initialize (map MaxAddValue xs)"
    and "d = run MaxMin_applyDownstream MaxMin_Initialize (map MinAddValue xs)"
  shows "c = Max (set xs) \<and> d = Min (set xs)
    \<and> (MaxMin_Update c (MaxAddValue v) = MaxMin_NoOp \<longrightarrow>
         run MaxMin_applyDownstream MaxMin_Initialize (map MaxAddValue (v # xs @ ys)) =
         run MaxMin_applyDownstream MaxMin_Initialize (map MaxAddValue (xs @ ys)))
    \<and> (MaxMin_Update d (MinAddValue v) = MaxMin_NoOp \<longrightarrow>
         run MaxMin_applyDownstream MaxMin_Initialize (map MinAddValue (v # xs @ ys)) =
         run MaxMin_applyDownstream MaxMin_Initialize (map MinAddValue (xs @ ys)))
    \<and> MaxMin_Read c upds = c"
proof (intro conjI impI)
  show c: "c = Max (set xs)" using assms by (simp add: run_MaxAddValue_initial del: map_append)
  show d: "d = Min (set xs)" using assms by (simp add: run_MinAddValue_initial del: map_append)
  show "MaxMin_Read c upds = c" by (auto simp: MaxMin_Read_def split: option.split)
  note mx = run_MaxAddValue_initial [of "v # xs @ ys"] run_MaxAddValue_initial [of "xs @ ys"]
  note mn = run_MinAddValue_initial [of "v # xs @ ys"] run_MinAddValue_initial [of "xs @ ys"]
  have ne: "set (xs @ ys) \<noteq> {}" using assms(1) by simp
  {
    assume "MaxMin_Update c (MaxAddValue v) = MaxMin_NoOp"
    then have "v \<le> Max (set xs)" by (simp add: c split: if_splits)
    also have "\<dots> \<le> Max (set (xs @ ys))" using assms(1) by (intro Max_mono) auto
    finally have "Max (set (v # xs @ ys)) = Max (set (xs @ ys))"
      using ne Max_insert [of "set (xs @ ys)" v] by simp
    then show "run MaxMin_applyDownstream MaxMin_Initialize (map MaxAddValue (v # xs @ ys)) =
         run MaxMin_applyDownstream MaxMin_Initialize (map MaxAddValue (xs @ ys))"
      using mx assms(1,2) by (metis append_is_Nil_conv list.distinct(1) list.set_intros(2))
  }
  {
    assume "MaxMin_Update d (MinAddValue v) = MaxMin_NoOp"
    then have "Min (set xs) \<le> v" by (simp add: d split: if_splits)
    moreover have "Min (set (xs @ ys)) \<le> Min (set xs)" using assms(1) by (intro Min_antimono) auto
    ultimately have "Min (set (v # xs @ ys)) = Min (set (xs @ ys))"
      using ne Min_insert [of "set (xs @ ys)" v] by simp
    then show "run MaxMin_applyDownstream MaxMin_Initialize (map MinAddValue (v # xs @ ys)) =
         run MaxMin_applyDownstream MaxMin_Initialize (map MinAddValue (xs @ ys))"
      using mn assms(1,2) by (metis append_is_Nil_conv list.distinct(1) list.set_intros(2))
  }
qed

theorem MaxMin_extremum_witness:
  "run MaxMin_applyDownstream MaxMin_Initialize (map MaxAddValue [3, 9, -4]) = 9
   \<and> run MaxMin_applyDownstream MaxMin_Initialize (map MinAddValue [3, 9, -4]) = -4
   \<and> MaxMin_Update 9 (MaxAddValue 7) = MaxMin_NoOp"
  using MaxMin_extremum [of "[3, 9, -4]" 7 "[]", OF _ _ refl refl] by simp

section \<open>Reads and old versions\<close>

lemma undo_from_last:
  assumes "\<not> IsLowerOrEqual (h_ts e) (Some target)" and "gfold undo s (effects e) = Inl p"
  shows "rebuildCRDTToVersion False undo reapply notify target (h @ [e]) s = Inl p"
  using assms by (simp add: rebuildCRDTToVersion_def nth_append)

text \<open>
  Undoing. The effect of an operation that changed the value restores the previous one,
  but the effect of an operation that did not change it panics: rebuilding any version older
  than such an update panics instead of skipping it.
\<close>

theorem MaxMin_undo:
  "(if fst (MaxMin_applyDownstream c u) = c
    then MaxMin_undoEffect (fst (MaxMin_applyDownstream c u)) (snd (MaxMin_applyDownstream c u)) = Inl TypeAssertion
      \<and> (\<not> IsLowerOrEqual t (Some target) \<longrightarrow>
           rebuildCRDTToVersion False MaxMin_undoEffect MaxMin_reapplyOp notify target
             (h @ [\<lparr>h_ts = t, updsArgs = [u], effects = [snd (MaxMin_applyDownstream c u)]\<rparr>])
             (fst (MaxMin_applyDownstream c u)) = Inl TypeAssertion)
    else MaxMin_undoEffect (fst (MaxMin_applyDownstream c u)) (snd (MaxMin_applyDownstream c u)) = Inr c)"
proof (cases "fst (MaxMin_applyDownstream c u) = c")
  case True
  then have "MaxMin_undoEffect (fst (MaxMin_applyDownstream c u)) (snd (MaxMin_applyDownstream c u)) = Inl TypeAssertion"
    by (cases u) (auto simp: Let_def)
  then show ?thesis using True by (simp add: undo_from_last)
next
  case False
  then show ?thesis using maxmin.undo_apply [of c u] by simp
qed

theorem MaxMin_undo_witness:
  "rebuildCRDTToVersion False MaxMin_undoEffect MaxMin_reapplyOp (\<lambda>t s. Inr s) [(1, 4)]
     [\<lparr>h_ts = [(1, 3)], updsArgs = [MaxAddValue 8], effects = [Eff (MaxMinAddValueEffect MaxInt64)]\<rparr>,
      \<lparr>h_ts = [(1, 6)], updsArgs = [MaxAddValue 5], effects = [NoEffect]\<rparr>] 8 = Inl TypeAssertion"
  using MaxMin_undo [of 8 "MaxAddValue 5" "[(1, 6)]" "[(1, 4)]" "\<lambda>t s. Inr s"
      "[\<lparr>h_ts = [(1, 3)], updsArgs = [MaxAddValue 8], effects = [Eff (MaxMinAddValueEffect MaxInt64)]\<rparr>]"]
  by (simp add: MaxMin_max_def IsLowerOrEqual_def vget_def Let_def)

end
