(* ===== verification/UniqueSets.thy ===== *)
theory UniqueSets
  imports Convergence "HOL-Library.FSet"
begin

text \<open>
  \<open>UniqueSet\<close> of \<^verbatim>\<open>crdt/crdt/commonTools.go\<close>: a finite set of random tags, a Go map without
  values. A loop over such a map runs over \<open>range_of\<close>, one of the orders the runtime may
  choose; the lemmas state that every order gives the same result.
\<close>

type_synonym Unique = nat
type_synonym UniqueSet = "nat fset"

definition range_of :: "UniqueSet \<Rightarrow> Unique list" where
  "range_of s = sorted_list_of_fset s"

definition uset_add :: "UniqueSet \<Rightarrow> Unique \<Rightarrow> UniqueSet" where
  "uset_add s u = finsert u s"

definition uset_addAll :: "UniqueSet \<Rightarrow> UniqueSet \<Rightarrow> UniqueSet" where
  "uset_addAll s other = foldl uset_add s (range_of other)"

definition removeAllIn :: "UniqueSet \<Rightarrow> UniqueSet \<Rightarrow> UniqueSet" where
  "removeAllIn s source = foldl (\<lambda>t key. t |-| {|key|}) s (range_of source)"

text \<open>The loop keeps the set and the intersection found so far.\<close>

fun intersection_step :: "UniqueSet \<times> UniqueSet \<Rightarrow> Unique \<Rightarrow> UniqueSet \<times> UniqueSet" where
  "intersection_step (s, found) key =
     (if key |\<in>| s then (s |-| {|key|}, finsert key found) else (s, found))"

definition getAndRemoveIntersection :: "UniqueSet \<Rightarrow> UniqueSet \<Rightarrow> UniqueSet \<times> UniqueSet" where
  "getAndRemoveIntersection s source = foldl intersection_step (s, {||}) (range_of source)"

definition uset_copy :: "UniqueSet \<Rightarrow> UniqueSet" where
  "uset_copy s = foldl uset_add {||} (range_of s)"

definition UInt64ArrayToUniqueSet :: "nat list \<Rightarrow> UniqueSet" where
  "UInt64ArrayToUniqueSet uniques = foldl uset_add {||} uniques"

definition UniqueSetToUInt64Array :: "UniqueSet \<Rightarrow> nat list" where
  "UniqueSetToUInt64Array s = range_of s"

section \<open>The loops compute the set operations, in any iteration order\<close>

lemma set_range_of [simp]: "set (range_of s) = fset s"
  by (simp add: range_of_def)

lemma foldl_uset_add: "fset (foldl uset_add s es) = fset s \<union> set es"
  by (induction es arbitrary: s) (auto simp: uset_add_def)

lemma foldl_remove: "fset (foldl (\<lambda>t key. t |-| {|key|}) s es) = fset s - set es"
  by (induction es arbitrary: s) auto

lemma foldl_intersection:
  "foldl intersection_step (s, i) es = (s', i') \<Longrightarrow>
     fset s' = fset s - set es \<and> fset i' = fset i \<union> (fset s \<inter> set es)"
proof (induction es arbitrary: s i)
  case (Cons e es)
  show ?case
  proof (cases "e |\<in>| s")
    case True
    with Cons.IH [of "s |-| {|e|}" "finsert e i"] Cons.prems show ?thesis by auto
  next
    case False
    with Cons.IH [of s i] Cons.prems show ?thesis by auto
  qed
qed simp

lemma uset_addAll_eq [simp]: "uset_addAll s t = s |\<union>| t"
  unfolding uset_addAll_def by (rule fset_inject [THEN iffD1]) (simp add: foldl_uset_add)

lemma removeAllIn_eq [simp]: "removeAllIn s t = s |-| t"
  unfolding removeAllIn_def by (rule fset_inject [THEN iffD1]) (simp add: foldl_remove)

lemma uset_copy_eq [simp]: "uset_copy s = s"
  unfolding uset_copy_def by (rule fset_inject [THEN iffD1]) (simp add: foldl_uset_add)

lemma getAndRemoveIntersection_eq [simp]: "getAndRemoveIntersection s t = (s |-| t, s |\<inter>| t)"
proof -
  obtain a b where r: "foldl intersection_step (s, {||}) (range_of t) = (a, b)" by (metis surj_pair)
  from foldl_intersection [OF this] have "fset a = fset (s |-| t)" "fset b = fset (s |\<inter>| t)" by auto
  then have "a = s |-| t" "b = s |\<inter>| t" by (simp_all only: fset_inject)
  then show ?thesis by (simp add: getAndRemoveIntersection_def r)
qed

lemma UniqueSet_array_roundtrip [simp]: "UInt64ArrayToUniqueSet (UniqueSetToUInt64Array s) = s"
  unfolding UInt64ArrayToUniqueSet_def UniqueSetToUInt64Array_def
  by (rule fset_inject [THEN iffD1]) (simp add: foldl_uset_add)

lemma array_any_order: "set xs = fset s \<Longrightarrow> UInt64ArrayToUniqueSet xs = s"
  unfolding UInt64ArrayToUniqueSet_def by (rule fset_inject [THEN iffD1]) (simp add: foldl_uset_add)

end
