(* ===== verification/LWW.thy ===== *)
theory LWW
  imports Convergence "HOL-Library.Product_Lexorder"
begin

text \<open>
  The last-writer-wins register of \<^verbatim>\<open>crdt/crdt/lwwRegisterCrdt.go\<close> and the last-writer-wins flag
  of \<^verbatim>\<open>crdt/crdt/lwwFlag.go\<close>. A write is stamped with the time and, to break ties, the id of its
  replica. The clock reading \<open>time.Now\<close> and the random number of \<open>Update\<close> are arguments. The
  value of a register is an \<open>interface{}\<close>, here a type parameter; the messages carry strings.
\<close>

record 'v LwwRegisterCrdt =
  reg_value :: 'v
  reg_ts :: int
  reg_replicaID :: int
  reg_localReplicaID :: int

record 'v DownstreamSetValue =
  NewValue :: 'v
  Ts :: int
  ReplicaID :: int

datatype 'v SetValueEffect = SetValueEffect 'v int int

definition LwwReg_Initialize :: "int \<Rightarrow> string LwwRegisterCrdt" where
  "LwwReg_Initialize replicaID =
     \<lparr>reg_value = '''', reg_ts = 0, reg_replicaID = replicaID, reg_localReplicaID = replicaID\<rparr>"

text \<open>A pending update is the new value of a \<open>SetValue\<close>.\<close>

definition LwwReg_Read :: "'v LwwRegisterCrdt \<Rightarrow> 'v list \<Rightarrow> 'v" where
  "LwwReg_Read r updsNotYetApplied =
     (if updsNotYetApplied = [] then reg_value r else updsNotYetApplied ! (length updsNotYetApplied - 1))"

definition LwwReg_Update :: "int \<Rightarrow> int \<Rightarrow> 'v LwwRegisterCrdt \<Rightarrow> 'v \<Rightarrow> 'v DownstreamSetValue" where
  "LwwReg_Update now rnd r newValue =
     (let newTs = (if now < reg_ts r then int64 (reg_ts r + rnd) else now)
      in \<lparr>NewValue = newValue, Ts = newTs, ReplicaID = reg_localReplicaID r\<rparr>)"

definition LwwReg_applyDownstream ::
    "'v LwwRegisterCrdt \<Rightarrow> 'v DownstreamSetValue \<Rightarrow> 'v LwwRegisterCrdt \<times> 'v SetValueEffect effect" where
  "LwwReg_applyDownstream r u =
     (if Ts u > reg_ts r \<or> (Ts u = reg_ts r \<and> ReplicaID u > reg_replicaID r)
      then (r\<lparr>reg_ts := Ts u, reg_replicaID := ReplicaID u, reg_value := NewValue u\<rparr>,
            Eff (SetValueEffect (reg_value r) (reg_ts r) (reg_replicaID r)))
      else (r, NoEffect))"

definition LwwReg_Downstream ::
    "bool \<Rightarrow> ('v DownstreamSetValue, 'v SetValueEffect effect) History list \<times> 'v LwwRegisterCrdt
       \<Rightarrow> ClockSiTimestamp \<Rightarrow> 'v DownstreamSetValue
       \<Rightarrow> ('v DownstreamSetValue, 'v SetValueEffect effect) History list \<times> 'v LwwRegisterCrdt" where
  "LwwReg_Downstream vmDisabled c updTs downstreamArgs = (case c of (history, v) \<Rightarrow>
     (case LwwReg_applyDownstream v downstreamArgs of (v', effect) \<Rightarrow>
        (addToHistory vmDisabled history updTs downstreamArgs effect, v')))"

definition LwwReg_reapplyOp ::
    "'v LwwRegisterCrdt \<Rightarrow> 'v DownstreamSetValue \<Rightarrow> ('v LwwRegisterCrdt \<times> 'v SetValueEffect effect) go" where
  "LwwReg_reapplyOp r updArgs = Inr (LwwReg_applyDownstream r updArgs)"

fun LwwReg_undoEffect :: "'v LwwRegisterCrdt \<Rightarrow> 'v SetValueEffect effect \<Rightarrow> 'v LwwRegisterCrdt go" where
  "LwwReg_undoEffect r (Eff (SetValueEffect v ts replica)) =
     Inr (r\<lparr>reg_value := v, reg_ts := ts, reg_replicaID := replica\<rparr>)"
| "LwwReg_undoEffect r NoEffect = Inr r"
| "LwwReg_undoEffect r NilEffect = Inr r"

text \<open>Messages: the replica id travels as a 32-bit integer and is cut to 16 bits on arrival.\<close>

definition LwwReg_ToReplicatorObj :: "string DownstreamSetValue \<Rightarrow> string \<times> int \<times> int" where
  "LwwReg_ToReplicatorObj u = (NewValue u, Ts u, int32 (ReplicaID u))"

definition LwwReg_FromReplicatorObj :: "string \<times> int \<times> int \<Rightarrow> string DownstreamSetValue" where
  "LwwReg_FromReplicatorObj pb = (case pb of (v, ts, replica) \<Rightarrow>
     \<lparr>NewValue = v, Ts = ts, ReplicaID = int16 replica\<rparr>)"

definition LwwReg_ToProtoState :: "string LwwRegisterCrdt \<Rightarrow> string \<times> int \<times> int" where
  "LwwReg_ToProtoState r = (reg_value r, reg_ts r, int32 (reg_replicaID r))"

text \<open>\<open>initializeFromSnapshot\<close> sets the local replica id after the literal was built.\<close>

definition LwwReg_FromProtoState :: "string \<times> int \<times> int \<Rightarrow> int \<Rightarrow> string LwwRegisterCrdt" where
  "LwwReg_FromProtoState pb replicaID = (case pb of (v, ts, replica) \<Rightarrow>
     \<lparr>reg_value = v, reg_ts = ts, reg_replicaID = int16 replica, reg_localReplicaID = replicaID\<rparr>)"

section \<open>The flag\<close>

record LwwFlagCrdt =
  lwwflag :: bool
  flag_ts :: int
  flag_replicaID :: int
  flag_localReplicaID :: int

datatype flag_update = EnableFlag | DisableFlag

datatype lwwflag_op = DownstreamEnableFlagLWW int int | DownstreamDisableFlagLWW int int

datatype FlagLWWEffect = FlagLWWEffect bool int int

definition LwwFlag_Initialize :: "int \<Rightarrow> LwwFlagCrdt" where
  "LwwFlag_Initialize replicaID =
     \<lparr>lwwflag = False, flag_ts = 0, flag_replicaID = replicaID, flag_localReplicaID = replicaID\<rparr>"

text \<open>The reads of the three flags: the last pending update decides.\<close>

fun flag_of_update :: "flag_update \<Rightarrow> bool" where
  "flag_of_update EnableFlag = True"
| "flag_of_update DisableFlag = False"

definition LwwFlag_Read :: "LwwFlagCrdt \<Rightarrow> flag_update list \<Rightarrow> bool" where
  "LwwFlag_Read f updsNotYetApplied =
     (if updsNotYetApplied = [] then lwwflag f
      else flag_of_update (updsNotYetApplied ! (length updsNotYetApplied - 1)))"

definition LwwFlag_Update :: "int \<Rightarrow> int \<Rightarrow> LwwFlagCrdt \<Rightarrow> flag_update \<Rightarrow> lwwflag_op" where
  "LwwFlag_Update now rnd f args =
     (let newTs = (if now < flag_ts f then int64 (flag_ts f + rnd) else now)
      in case args of
           EnableFlag \<Rightarrow> DownstreamEnableFlagLWW newTs (flag_localReplicaID f)
         | DisableFlag \<Rightarrow> DownstreamDisableFlagLWW newTs (flag_localReplicaID f))"

text \<open>A disable that loses leaves the effect variable nil, an enable that loses stores \<open>NoEffect\<close>.\<close>

fun LwwFlag_applyDownstream :: "LwwFlagCrdt \<Rightarrow> lwwflag_op \<Rightarrow> LwwFlagCrdt \<times> FlagLWWEffect effect" where
  "LwwFlag_applyDownstream f (DownstreamEnableFlagLWW ts replica) =
     (if ts > flag_ts f \<or> (ts = flag_ts f \<and> replica > flag_replicaID f)
      then (f\<lparr>lwwflag := True, flag_ts := ts, flag_replicaID := replica\<rparr>,
            Eff (FlagLWWEffect (lwwflag f) (flag_ts f) (flag_replicaID f)))
      else (f, NoEffect))"
| "LwwFlag_applyDownstream f (DownstreamDisableFlagLWW ts replica) =
     (if ts > flag_ts f \<or> (ts = flag_ts f \<and> replica > flag_replicaID f)
      then (f\<lparr>lwwflag := False, flag_ts := ts, flag_replicaID := replica\<rparr>,
            Eff (FlagLWWEffect (lwwflag f) (flag_ts f) (flag_replicaID f)))
      else (f, NilEffect))"

definition LwwFlag_Downstream ::
    "bool \<Rightarrow> (lwwflag_op, FlagLWWEffect effect) History list \<times> LwwFlagCrdt \<Rightarrow> ClockSiTimestamp \<Rightarrow> lwwflag_op
       \<Rightarrow> (lwwflag_op, FlagLWWEffect effect) History list \<times> LwwFlagCrdt" where
  "LwwFlag_Downstream vmDisabled c updTs downstreamArgs = (case c of (history, v) \<Rightarrow>
     (case LwwFlag_applyDownstream v downstreamArgs of (v', effect) \<Rightarrow>
        (addToHistory vmDisabled history updTs downstreamArgs effect, v')))"

fun LwwFlag_undoEffect :: "LwwFlagCrdt \<Rightarrow> FlagLWWEffect effect \<Rightarrow> LwwFlagCrdt go" where
  "LwwFlag_undoEffect f (Eff (FlagLWWEffect v ts replica)) =
     Inr (f\<lparr>lwwflag := v, flag_ts := ts, flag_replicaID := replica\<rparr>)"
| "LwwFlag_undoEffect f NoEffect = Inr f"
| "LwwFlag_undoEffect f NilEffect = Inr f"

text \<open>The replicator message: one optional field per operation, each a time and a replica id.\<close>

record ProtoFlagLWWDownstream =
  EnableLWW :: "(int \<times> int) option"
  DisableLWW :: "(int \<times> int) option"

fun LwwFlag_ToReplicatorObj :: "lwwflag_op \<Rightarrow> ProtoFlagLWWDownstream" where
  "LwwFlag_ToReplicatorObj (DownstreamEnableFlagLWW ts replica) =
     \<lparr>EnableLWW = Some (ts, int32 replica), DisableLWW = None\<rparr>"
| "LwwFlag_ToReplicatorObj (DownstreamDisableFlagLWW ts replica) =
     \<lparr>EnableLWW = None, DisableLWW = Some (ts, int32 replica)\<rparr>"

text \<open>The getters of a missing message return zero values.\<close>

definition downstreamProtoFlagLWWToAntidoteDownstream :: "ProtoFlagLWWDownstream \<Rightarrow> lwwflag_op" where
  "downstreamProtoFlagLWWToAntidoteDownstream pb = (case EnableLWW pb of
      Some (ts, replica) \<Rightarrow> DownstreamEnableFlagLWW ts (int16 replica)
    | None \<Rightarrow> (case DisableLWW pb of
          Some (ts, replica) \<Rightarrow> DownstreamDisableFlagLWW ts (int16 replica)
        | None \<Rightarrow> DownstreamDisableFlagLWW 0 (int16 0)))"

definition LwwFlag_ToProtoState :: "LwwFlagCrdt \<Rightarrow> bool \<times> int \<times> int" where
  "LwwFlag_ToProtoState f = (lwwflag f, flag_ts f, int32 (flag_replicaID f))"

definition LwwFlag_FromProtoState :: "bool \<times> int \<times> int \<Rightarrow> int \<Rightarrow> LwwFlagCrdt" where
  "LwwFlag_FromProtoState pb replicaID = (case pb of (v, ts, replica) \<Rightarrow>
     \<lparr>lwwflag = v, flag_ts = ts, flag_replicaID = int16 replica, flag_localReplicaID = replicaID\<rparr>)"

section \<open>Stamps\<close>

text \<open>A stamp is a pair, ordered lexicographically.\<close>

definition reg_stamp :: "'v LwwRegisterCrdt \<Rightarrow> int \<times> int" where
  "reg_stamp r = (reg_ts r, reg_replicaID r)"

definition op_stamp :: "'v DownstreamSetValue \<Rightarrow> int \<times> int" where
  "op_stamp u = (Ts u, ReplicaID u)"

text \<open>The fields of the register that replicas share.\<close>

definition shared :: "'v LwwRegisterCrdt \<Rightarrow> 'v \<times> int \<times> int" where
  "shared r = (reg_value r, reg_ts r, reg_replicaID r)"

definition op_shared :: "'v DownstreamSetValue \<Rightarrow> 'v \<times> int \<times> int" where
  "op_shared u = (NewValue u, Ts u, ReplicaID u)"

lemma LwwReg_apply_stamp:
  "LwwReg_applyDownstream r u =
     (if reg_stamp r < op_stamp u
      then (r\<lparr>reg_ts := Ts u, reg_replicaID := ReplicaID u, reg_value := NewValue u\<rparr>,
            Eff (SetValueEffect (reg_value r) (reg_ts r) (reg_replicaID r)))
      else (r, NoEffect))"
  by (auto simp: LwwReg_applyDownstream_def reg_stamp_def op_stamp_def)

lemma shared_apply:
  "shared (fst (LwwReg_applyDownstream r u)) = (if reg_stamp r < op_stamp u then op_shared u else shared r)"
  by (simp add: LwwReg_apply_stamp shared_def op_shared_def)

lemma stamp_apply:
  "reg_stamp (fst (LwwReg_applyDownstream r u)) = (if reg_stamp r < op_stamp u then op_stamp u else reg_stamp r)"
  by (simp add: LwwReg_apply_stamp reg_stamp_def op_stamp_def)

lemma local_apply: "reg_localReplicaID (fst (LwwReg_applyDownstream r u)) = reg_localReplicaID r"
  by (simp add: LwwReg_apply_stamp)

lemma reg_eqI: "shared a = shared b \<Longrightarrow> reg_localReplicaID a = reg_localReplicaID b \<Longrightarrow> a = (b :: 'v LwwRegisterCrdt)"
  by (cases a; cases b) (simp add: shared_def)

text \<open>Different writes have different stamps: a replica's clock does not repeat.\<close>

definition lww_coexist :: "'v DownstreamSetValue \<Rightarrow> 'v DownstreamSetValue \<Rightarrow> bool" where
  "lww_coexist u v \<longleftrightarrow> op_stamp u \<noteq> op_stamp v"

interpretation lww: inversible LwwReg_applyDownstream LwwReg_undoEffect "\<lambda>r u. True"
proof
  fix s :: "'v LwwRegisterCrdt" and u
  show "LwwReg_undoEffect (fst (LwwReg_applyDownstream s u)) (snd (LwwReg_applyDownstream s u)) = Inr s"
    by (simp add: LwwReg_applyDownstream_def)
qed

interpretation lww_ops: causal_ops LwwReg_applyDownstream "\<lambda>u v. False" lww_coexist
proof
  fix u v :: "'v DownstreamSetValue" and s
  assume "lww_coexist u v"
  then show "fst (LwwReg_applyDownstream (fst (LwwReg_applyDownstream s u)) v) =
      fst (LwwReg_applyDownstream (fst (LwwReg_applyDownstream s v)) u)"
    by (intro reg_eqI) (auto simp: shared_apply stamp_apply local_apply lww_coexist_def)
qed

lemma lww_run_wins:
  "(shared (run LwwReg_applyDownstream r us) = shared r
      \<or> (\<exists>u \<in> set us. shared (run LwwReg_applyDownstream r us) = op_shared u))
   \<and> reg_stamp r \<le> reg_stamp (run LwwReg_applyDownstream r us)
   \<and> (\<forall>u \<in> set us. op_stamp u \<le> reg_stamp (run LwwReg_applyDownstream r us))"
proof (induction us arbitrary: r)
  case (Cons u us)
  note IH = Cons.IH [of "fst (LwwReg_applyDownstream r u)"]
  show ?case
  proof (cases "reg_stamp r < op_stamp u")
    case True
    with IH show ?thesis by (simp add: shared_apply stamp_apply) (blast intro: order.trans less_imp_le)
  next
    case False
    with IH show ?thesis by (simp add: shared_apply stamp_apply not_less) (blast intro: order.trans)
  qed
qed simp

lemma reg_stamp_shared: "shared r = op_shared u \<Longrightarrow> reg_stamp r = op_stamp u"
  by (simp add: shared_def op_shared_def reg_stamp_def op_stamp_def)

lemma lww_last_writer:
  assumes "us \<noteq> []" and "\<forall>u \<in> set us. 0 < Ts u" and "r = LwwReg_Initialize a"
  shows "\<exists>u \<in> set us. shared (run LwwReg_applyDownstream r us) = op_shared u \<and> (\<forall>w \<in> set us. op_stamp w \<le> op_stamp u)"
proof -
  let ?r = "run LwwReg_applyDownstream r us"
  have wins: "shared ?r = shared r \<or> (\<exists>u \<in> set us. shared ?r = op_shared u)"
    and above: "\<forall>u \<in> set us. op_stamp u \<le> reg_stamp ?r"
    using lww_run_wins [of r us] by auto
  obtain w where "w \<in> set us" using assms(1) by (cases us) auto
  with assms(2) above have "0 < Ts w" "Ts w \<le> reg_ts ?r" by (auto simp: op_stamp_def reg_stamp_def)
  then have "0 < reg_ts ?r" by simp
  then have "shared ?r \<noteq> shared r" using assms(3) by (simp add: shared_def LwwReg_Initialize_def)
  with wins above show ?thesis by (metis reg_stamp_shared)
qed

section \<open>Convergence\<close>

text \<open>
  C9. Registers converge to the last write: two replicas, each started with its own replica
  id, that applied the same writes in any order hold the same value and stamp, and these are
  the ones of the write with the largest stamp. Different writes have different stamps, and
  stamps are times after the epoch.
\<close>

theorem LwwReg_converges:
  assumes "mset us = mset vs" and "us \<noteq> []" and "all_coexist lww_coexist us" and "\<forall>u \<in> set us. 0 < Ts u"
  shows "shared (run LwwReg_applyDownstream (LwwReg_Initialize a) us)
      = shared (run LwwReg_applyDownstream (LwwReg_Initialize b) vs)
    \<and> (\<exists>u \<in> set us. shared (run LwwReg_applyDownstream (LwwReg_Initialize a) us) = op_shared u
         \<and> (\<forall>w \<in> set us. op_stamp w \<le> op_stamp u))"
proof -
  have sets: "set us = set vs" using assms(1) by (rule mset_eq_setD)
  with assms(2) have "vs \<noteq> []" by auto
  obtain u where u: "u \<in> set us" "shared (run LwwReg_applyDownstream (LwwReg_Initialize a) us) = op_shared u"
      "\<forall>w \<in> set us. op_stamp w \<le> op_stamp u"
    using lww_last_writer [OF assms(2,4) refl] by auto
  obtain v where v: "v \<in> set us" "shared (run LwwReg_applyDownstream (LwwReg_Initialize b) vs) = op_shared v"
      "\<forall>w \<in> set us. op_stamp w \<le> op_stamp v"
    using lww_last_writer [OF \<open>vs \<noteq> []\<close> _ refl] assms(4) sets by metis
  have "op_stamp u = op_stamp v" using u v by (simp add: order.antisym)
  then have "u = v" using assms(3) u(1) v(1) by (auto simp: all_coexist_def lww_coexist_def)
  then show ?thesis using u v by auto
qed

theorem LwwReg_converges_witness:
  "shared (run LwwReg_applyDownstream (LwwReg_Initialize 1)
     [\<lparr>NewValue = ''a'', Ts = 5, ReplicaID = 1\<rparr>, \<lparr>NewValue = ''b'', Ts = 5, ReplicaID = 2\<rparr>])
   = shared (run LwwReg_applyDownstream (LwwReg_Initialize 2)
     [\<lparr>NewValue = ''b'', Ts = 5, ReplicaID = 2\<rparr>, \<lparr>NewValue = ''a'', Ts = 5, ReplicaID = 1\<rparr>])"
proof -
  let ?u = "\<lparr>NewValue = ''a'', Ts = 5, ReplicaID = 1\<rparr>" and ?v = "\<lparr>NewValue = ''b'', Ts = 5, ReplicaID = 2\<rparr>"
  have "all_coexist lww_coexist [?u, ?v]" by (simp add: all_coexist_def lww_coexist_def op_stamp_def)
  from LwwReg_converges [OF _ _ this, of "[?v, ?u]" 1 2] show ?thesis by (simp add: add_mset_commute)
qed

text \<open>
  When a replica's own write takes effect on it. A pending write is always read back, but
  once applied it only takes effect if the clock moved on: when the clock reading equals the
  stored time, or lies before it and the random number is zero, the write is dropped unless
  the local replica id is larger than that of the stored write.
\<close>

theorem LwwReg_own_write:
  assumes "0 \<le> rnd" and "rnd < 100" and "in_int 64 (reg_ts r)" and "in_int 64 (reg_ts r + 99)"
  shows "LwwReg_Read r [v] = v
    \<and> LwwReg_Read (fst (LwwReg_applyDownstream r (LwwReg_Update now rnd r v))) [] =
       (if reg_ts r < now \<or> (now < reg_ts r \<and> 0 < rnd) \<or> reg_replicaID r < reg_localReplicaID r
        then v else reg_value r)"
proof -
  have "in_int 64 (reg_ts r + rnd)" using assms by (simp add: in_int_def)
  then have "int64 (reg_ts r + rnd) = reg_ts r + rnd" by (simp add: swrap_id)
  then show ?thesis
    using assms(1) by (auto simp: LwwReg_Read_def LwwReg_applyDownstream_def LwwReg_Update_def Let_def)
qed

theorem LwwReg_own_write_witness:
  "LwwReg_Read (fst (LwwReg_applyDownstream \<lparr>reg_value = ''old'', reg_ts = 9, reg_replicaID = 1, reg_localReplicaID = 1\<rparr>
     (LwwReg_Update 7 0 \<lparr>reg_value = ''old'', reg_ts = 9, reg_replicaID = 1, reg_localReplicaID = 1\<rparr> ''new''))) [] = ''old''"
  using LwwReg_own_write [of 0 "\<lparr>reg_value = ''old'', reg_ts = 9, reg_replicaID = 1, reg_localReplicaID = 1\<rparr>" "''new''" 7]
  by (simp add: in_int_def)

section \<open>Old versions\<close>

lemma run_ok_True: "run_ok app (\<lambda>r u. True) s us"
  by (induction us arbitrary: s) simp_all

lemma undo_two_writes:
  assumes "reg_stamp r < op_stamp u" and "op_stamp u < op_stamp v"
  shows "gfold LwwReg_undoEffect (run LwwReg_applyDownstream r [u, v]) (effects_of LwwReg_applyDownstream r [u, v])
    = Inr (run LwwReg_applyDownstream r [u])"
proof -
  have "reg_stamp (r\<lparr>reg_ts := Ts u, reg_replicaID := ReplicaID u, reg_value := NewValue u\<rparr>) < op_stamp v"
    using assms(2) by (simp add: reg_stamp_def op_stamp_def)
  with assms(1) show ?thesis by (simp add: LwwReg_apply_stamp)
qed

text \<open>
  Old versions of a register. When every commit clock has one write, rebuilding gives the
  register after exactly the writes at or below the requested clock. When a transaction wrote
  twice, both effects are stored under one clock and undone first to last: the version before
  the transaction comes back with the transaction's first write still in it.
\<close>

theorem LwwReg_rebuild:
  assumes "deliver_all False LwwReg_applyDownstream ([], LwwReg_Initialize a) ds = (h, r)"
    and "ordered_history target h" and "\<forall>e \<in> set h. length (updsArgs e) = 1"
    and "reg_stamp s < op_stamp u" and "op_stamp u < op_stamp v" and "Compare t (Some target) = HigherTs"
    and "e = \<lparr>h_ts = t, updsArgs = [u, v], effects = effects_of LwwReg_applyDownstream s [u, v]\<rparr>"
  shows "(\<exists>h'. rebuildCRDTToVersion False LwwReg_undoEffect LwwReg_reapplyOp (\<lambda>t s. Inr s) target h r
      = Inr (h', version_at LwwReg_applyDownstream (LwwReg_Initialize a) target h))
    \<and> rebuildCRDTToVersion False LwwReg_undoEffect LwwReg_reapplyOp (\<lambda>t s. Inr s) target [e]
        (run LwwReg_applyDownstream s [u, v]) = Inr ([e], run LwwReg_applyDownstream s [u])
    \<and> shared (run LwwReg_applyDownstream s [u]) = op_shared u
    \<and> version_at LwwReg_applyDownstream s target [e] = s"
proof (intro conjI)
  have no: "\<not> IsLowerOrEqual t (Some target)" using assms(6) by (auto simp: clk_eqs split: if_splits)
  show "\<exists>h'. rebuildCRDTToVersion False LwwReg_undoEffect LwwReg_reapplyOp (\<lambda>t s. Inr s) target h r
      = Inr (h', version_at LwwReg_applyDownstream (LwwReg_Initialize a) target h)"
    by (rule lww.rebuild_version_single [OF assms(1) run_ok_True assms(2,3)])
  show "rebuildCRDTToVersion False LwwReg_undoEffect LwwReg_reapplyOp (\<lambda>t s. Inr s) target [e]
        (run LwwReg_applyDownstream s [u, v]) = Inr ([e], run LwwReg_applyDownstream s [u])"
    using undo_two_writes [OF assms(4,5)] assms(6) no
    by (simp add: assms(7) rebuildCRDTToVersion_def redo_from.simps del: run.simps effects_of.simps)
  show "shared (run LwwReg_applyDownstream s [u]) = op_shared u"
    using assms(4) by (simp add: shared_apply)
  show "version_at LwwReg_applyDownstream s target [e] = s"
    using no by (simp add: version_at_def assms(7))
qed

theorem LwwReg_rebuild_witness:
  "\<exists>h'. rebuildCRDTToVersion False LwwReg_undoEffect LwwReg_reapplyOp (\<lambda>t s. Inr s) [(1, 4)]
      [\<lparr>h_ts = [(1, 6)], updsArgs = [\<lparr>NewValue = ''x'', Ts = 5, ReplicaID = 1\<rparr>, \<lparr>NewValue = ''y'', Ts = 7, ReplicaID = 1\<rparr>],
        effects = [Eff (SetValueEffect '''' 0 1), Eff (SetValueEffect ''x'' 5 1)]\<rparr>]
      \<lparr>reg_value = ''y'', reg_ts = 7, reg_replicaID = 1, reg_localReplicaID = 1\<rparr>
    = Inr (h', \<lparr>reg_value = ''x'', reg_ts = 5, reg_replicaID = 1, reg_localReplicaID = 1\<rparr>)"
proof -
  let ?u = "\<lparr>NewValue = ''x'', Ts = 5, ReplicaID = 1\<rparr>" and ?v = "\<lparr>NewValue = ''y'', Ts = 7, ReplicaID = 1\<rparr>"
  have d: "deliver_all False LwwReg_applyDownstream ([], LwwReg_Initialize 1) [] = ([], LwwReg_Initialize 1)" by simp
  show ?thesis
    using LwwReg_rebuild [OF d, of "[(1, 4)]" "LwwReg_Initialize 1" ?u ?v "[(1, 6)]", OF _ _ _ _ _ refl]
    by (simp add: ordered_history_def increasing_def reg_stamp_def op_stamp_def LwwReg_Initialize_def
        Compare_def vget_def LwwReg_applyDownstream_def)
qed

section \<open>The flag is a register of booleans\<close>

definition flag_reg :: "LwwFlagCrdt \<Rightarrow> bool LwwRegisterCrdt" where
  "flag_reg f = \<lparr>reg_value = lwwflag f, reg_ts = flag_ts f, reg_replicaID = flag_replicaID f,
     reg_localReplicaID = flag_localReplicaID f\<rparr>"

fun flag_write :: "lwwflag_op \<Rightarrow> bool DownstreamSetValue" where
  "flag_write (DownstreamEnableFlagLWW ts replica) = \<lparr>NewValue = True, Ts = ts, ReplicaID = replica\<rparr>"
| "flag_write (DownstreamDisableFlagLWW ts replica) = \<lparr>NewValue = False, Ts = ts, ReplicaID = replica\<rparr>"

lemma flag_reg_inject: "flag_reg f = flag_reg g \<Longrightarrow> f = g"
  by (cases f; cases g) (simp add: flag_reg_def)

lemma flag_reg_apply:
  "flag_reg (fst (LwwFlag_applyDownstream f u)) = fst (LwwReg_applyDownstream (flag_reg f) (flag_write u))"
  by (cases u) (simp_all add: flag_reg_def LwwReg_applyDownstream_def)

interpretation lwwflag: inversible LwwFlag_applyDownstream LwwFlag_undoEffect "\<lambda>f u. True"
proof
  fix s u
  show "LwwFlag_undoEffect (fst (LwwFlag_applyDownstream s u)) (snd (LwwFlag_applyDownstream s u)) = Inr s"
    by (cases u) simp_all
qed

interpretation lwwflag_ops: causal_ops LwwFlag_applyDownstream "\<lambda>u v. False"
  "\<lambda>u v. lww_coexist (flag_write u) (flag_write v)"
proof
  fix u v s
  assume "lww_coexist (flag_write u) (flag_write v)"
  then show "fst (LwwFlag_applyDownstream (fst (LwwFlag_applyDownstream s u)) v) =
      fst (LwwFlag_applyDownstream (fst (LwwFlag_applyDownstream s v)) u)"
    using lww_ops.concurrent_commute [of "flag_write u" "flag_write v" "flag_reg s"]
    by (intro flag_reg_inject) (simp add: flag_reg_apply)
qed

text \<open>
  The flag implements a last-writer-wins register of booleans: applying any operations to
  the flag and reading it as a register is applying the corresponding writes to the register,
  \<open>Update\<close> builds the stamp the register's \<open>Update\<close> builds, and undoing the effect of an
  operation, losing ones included, restores the flag.
\<close>

theorem LwwFlag_refines_register:
  "flag_reg (run LwwFlag_applyDownstream f us) = run LwwReg_applyDownstream (flag_reg f) (map flag_write us)
   \<and> flag_write (LwwFlag_Update now rnd f args) = LwwReg_Update now rnd (flag_reg f) (flag_of_update args)
   \<and> LwwFlag_Read f upds = LwwReg_Read (flag_reg f) (map flag_of_update upds)
   \<and> LwwFlag_undoEffect (fst (LwwFlag_applyDownstream f u)) (snd (LwwFlag_applyDownstream f u)) = Inr f"
proof (intro conjI)
  show "flag_reg (run LwwFlag_applyDownstream f us) = run LwwReg_applyDownstream (flag_reg f) (map flag_write us)"
    by (induction us arbitrary: f) (simp_all add: flag_reg_apply)
  show "flag_write (LwwFlag_Update now rnd f args) = LwwReg_Update now rnd (flag_reg f) (flag_of_update args)"
    by (cases args) (simp_all add: LwwFlag_Update_def LwwReg_Update_def flag_reg_def Let_def)
  show "LwwFlag_Read f upds = LwwReg_Read (flag_reg f) (map flag_of_update upds)"
    by (simp add: LwwFlag_Read_def LwwReg_Read_def flag_reg_def)
  show "LwwFlag_undoEffect (fst (LwwFlag_applyDownstream f u)) (snd (LwwFlag_applyDownstream f u)) = Inr f"
    by (rule lwwflag.undo_apply) simp
qed

lemma LwwReg_message_roundtrip:
  assumes "in_int 16 (ReplicaID u)"
  shows "LwwReg_FromReplicatorObj (LwwReg_ToReplicatorObj u) = u"
proof -
  have "in_int 32 (ReplicaID u)" using assms by (simp add: in_int_def)
  with assms show ?thesis by (simp add: LwwReg_FromReplicatorObj_def LwwReg_ToReplicatorObj_def swrap_id)
qed

end
