(* ===== verification/Flags.thy ===== *)
theory Flags
  imports UniqueSets LWW
begin

text \<open>
  The enable-wins flag of \<^verbatim>\<open>crdt/crdt/ewFlag.go\<close> and the disable-wins flag of
  \<^verbatim>\<open>crdt/crdt/dwFlag.go\<close>. One of the two operations adds a random tag, the other removes the
  tags its replica saw. The number drawn from the flag's random source is an argument; the
  field \<open>random\<close> says whether the source is there, since drawing from a nil source panics.
\<close>

record EwFlagCrdt =
  enables :: UniqueSet
  ew_random :: bool

datatype ewflag_op = DownstreamEnableFlagEW Unique | DownstreamDisableFlagEW UniqueSet

datatype ewflag_effect = EnableEWEffect Unique | DisableEWEffect UniqueSet

definition EwFlag_Initialize :: EwFlagCrdt where
  "EwFlag_Initialize = \<lparr>enables = {||}, ew_random = True\<rparr>"

definition EwFlag_GetValue :: "EwFlagCrdt \<Rightarrow> bool" where
  "EwFlag_GetValue f \<longleftrightarrow> fcard (enables f) > 0"

definition EwFlag_Read :: "EwFlagCrdt \<Rightarrow> flag_update list \<Rightarrow> bool" where
  "EwFlag_Read f updsNotYetApplied =
     (if updsNotYetApplied = [] then EwFlag_GetValue f
      else flag_of_update (updsNotYetApplied ! (length updsNotYetApplied - 1)))"

definition EwFlag_Update :: "Unique \<Rightarrow> EwFlagCrdt \<Rightarrow> flag_update \<Rightarrow> ewflag_op go" where
  "EwFlag_Update rnd f args = (case args of
      EnableFlag \<Rightarrow> if ew_random f then Inr (DownstreamEnableFlagEW rnd) else Inl NilDereference
    | DisableFlag \<Rightarrow> Inr (DownstreamDisableFlagEW (uset_copy (enables f))))"

fun EwFlag_applyDownstream :: "EwFlagCrdt \<Rightarrow> ewflag_op \<Rightarrow> EwFlagCrdt \<times> ewflag_effect" where
  "EwFlag_applyDownstream f (DownstreamEnableFlagEW u) =
     (f\<lparr>enables := uset_add (enables f) u\<rparr>, EnableEWEffect u)"
| "EwFlag_applyDownstream f (DownstreamDisableFlagEW seen) =
     (case getAndRemoveIntersection (enables f) seen of (rest, removed) \<Rightarrow>
        (f\<lparr>enables := rest\<rparr>, DisableEWEffect removed))"

definition EwFlag_Downstream ::
    "bool \<Rightarrow> (ewflag_op, ewflag_effect) History list \<times> EwFlagCrdt \<Rightarrow> ClockSiTimestamp \<Rightarrow> ewflag_op
       \<Rightarrow> (ewflag_op, ewflag_effect) History list \<times> EwFlagCrdt" where
  "EwFlag_Downstream vmDisabled c updTs downstreamArgs = (case c of (history, v) \<Rightarrow>
     (case EwFlag_applyDownstream v downstreamArgs of (v', effect) \<Rightarrow>
        (addToHistory vmDisabled history updTs downstreamArgs effect, v')))"

definition EwFlag_Copy :: "EwFlagCrdt \<Rightarrow> EwFlagCrdt" where
  "EwFlag_Copy f = \<lparr>enables = uset_copy (enables f), ew_random = False\<rparr>"

fun EwFlag_undoEffect :: "EwFlagCrdt \<Rightarrow> ewflag_effect \<Rightarrow> EwFlagCrdt go" where
  "EwFlag_undoEffect f (EnableEWEffect u) = Inr (f\<lparr>enables := enables f |-| {|u|}\<rparr>)"
| "EwFlag_undoEffect f (DisableEWEffect removed) = Inr (f\<lparr>enables := uset_addAll (enables f) removed\<rparr>)"

definition EwFlag_reapplyOp :: "EwFlagCrdt \<Rightarrow> ewflag_op \<Rightarrow> (EwFlagCrdt \<times> ewflag_effect) go" where
  "EwFlag_reapplyOp f updArgs = Inr (EwFlag_applyDownstream f updArgs)"

text \<open>The replicator message of a flag with tags: a tag, or the tags seen.\<close>

record ProtoFlagTagDownstream =
  pb_Unique :: "nat option"
  pb_SeenUniques :: "nat list option"

fun EwFlag_ToReplicatorObj :: "ewflag_op \<Rightarrow> ProtoFlagTagDownstream" where
  "EwFlag_ToReplicatorObj (DownstreamEnableFlagEW u) = \<lparr>pb_Unique = Some u, pb_SeenUniques = None\<rparr>"
| "EwFlag_ToReplicatorObj (DownstreamDisableFlagEW seen) =
     \<lparr>pb_Unique = None, pb_SeenUniques = Some (UniqueSetToUInt64Array seen)\<rparr>"

definition seen_uniques :: "ProtoFlagTagDownstream \<Rightarrow> UniqueSet" where
  "seen_uniques pb = UInt64ArrayToUniqueSet (case pb_SeenUniques pb of Some us \<Rightarrow> us | None \<Rightarrow> [])"

definition downstreamProtoFlagEWToAntidoteDownstream :: "ProtoFlagTagDownstream \<Rightarrow> ewflag_op" where
  "downstreamProtoFlagEWToAntidoteDownstream pb = (case pb_Unique pb of
      Some u \<Rightarrow> DownstreamEnableFlagEW u
    | None \<Rightarrow> DownstreamDisableFlagEW (seen_uniques pb))"

definition EwFlag_ToProtoState :: "EwFlagCrdt \<Rightarrow> nat list" where
  "EwFlag_ToProtoState f = UniqueSetToUInt64Array (enables f)"

definition EwFlag_FromProtoState :: "nat list \<Rightarrow> EwFlagCrdt" where
  "EwFlag_FromProtoState pb = \<lparr>enables = UInt64ArrayToUniqueSet pb, ew_random = True\<rparr>"

section \<open>The disable-wins flag\<close>

record DwFlagCrdt =
  disables :: UniqueSet
  dw_random :: bool

datatype dwflag_op = DownstreamEnableFlagDW UniqueSet | DownstreamDisableFlagDW Unique

text \<open>The code's effect of a disable is the enable-wins flag's \<open>EnableEWEffect\<close>.\<close>

datatype dwflag_effect = EnableDWEffect UniqueSet | DisableDWEffect Unique | DW_EnableEWEffect Unique

definition DwFlag_Initialize :: DwFlagCrdt where
  "DwFlag_Initialize = \<lparr>disables = {||}, dw_random = True\<rparr>"

definition DwFlag_GetValue :: "DwFlagCrdt \<Rightarrow> bool" where
  "DwFlag_GetValue f \<longleftrightarrow> fcard (disables f) = 0"

definition DwFlag_Read :: "DwFlagCrdt \<Rightarrow> flag_update list \<Rightarrow> bool" where
  "DwFlag_Read f updsNotYetApplied =
     (if updsNotYetApplied = [] then DwFlag_GetValue f
      else flag_of_update (updsNotYetApplied ! (length updsNotYetApplied - 1)))"

definition DwFlag_Update :: "Unique \<Rightarrow> DwFlagCrdt \<Rightarrow> flag_update \<Rightarrow> dwflag_op go" where
  "DwFlag_Update rnd f args = (case args of
      EnableFlag \<Rightarrow> Inr (DownstreamEnableFlagDW (uset_copy (disables f)))
    | DisableFlag \<Rightarrow> if dw_random f then Inr (DownstreamDisableFlagDW rnd) else Inl NilDereference)"

fun DwFlag_applyDownstream :: "DwFlagCrdt \<Rightarrow> dwflag_op \<Rightarrow> DwFlagCrdt \<times> dwflag_effect" where
  "DwFlag_applyDownstream f (DownstreamEnableFlagDW seen) =
     (case getAndRemoveIntersection (disables f) seen of (rest, removed) \<Rightarrow>
        (f\<lparr>disables := rest\<rparr>, EnableDWEffect removed))"
| "DwFlag_applyDownstream f (DownstreamDisableFlagDW u) =
     (f\<lparr>disables := uset_add (disables f) u\<rparr>, DW_EnableEWEffect u)"

definition DwFlag_Downstream ::
    "bool \<Rightarrow> (dwflag_op, dwflag_effect) History list \<times> DwFlagCrdt \<Rightarrow> ClockSiTimestamp \<Rightarrow> dwflag_op
       \<Rightarrow> (dwflag_op, dwflag_effect) History list \<times> DwFlagCrdt" where
  "DwFlag_Downstream vmDisabled c updTs downstreamArgs = (case c of (history, v) \<Rightarrow>
     (case DwFlag_applyDownstream v downstreamArgs of (v', effect) \<Rightarrow>
        (addToHistory vmDisabled history updTs downstreamArgs effect, v')))"

definition DwFlag_Copy :: "DwFlagCrdt \<Rightarrow> DwFlagCrdt" where
  "DwFlag_Copy f = \<lparr>disables = uset_copy (disables f), dw_random = False\<rparr>"

fun DwFlag_undoEffect :: "DwFlagCrdt \<Rightarrow> dwflag_effect \<Rightarrow> DwFlagCrdt go" where
  "DwFlag_undoEffect f (EnableDWEffect removed) = Inr (f\<lparr>disables := uset_addAll (disables f) removed\<rparr>)"
| "DwFlag_undoEffect f (DisableDWEffect u) = Inr (f\<lparr>disables := disables f |-| {|u|}\<rparr>)"
| "DwFlag_undoEffect f (DW_EnableEWEffect u) = Inr f"

definition DwFlag_reapplyOp :: "DwFlagCrdt \<Rightarrow> dwflag_op \<Rightarrow> (DwFlagCrdt \<times> dwflag_effect) go" where
  "DwFlag_reapplyOp f updArgs = Inr (DwFlag_applyDownstream f updArgs)"

fun DwFlag_ToReplicatorObj :: "dwflag_op \<Rightarrow> ProtoFlagTagDownstream" where
  "DwFlag_ToReplicatorObj (DownstreamEnableFlagDW seen) =
     \<lparr>pb_Unique = None, pb_SeenUniques = Some (UniqueSetToUInt64Array seen)\<rparr>"
| "DwFlag_ToReplicatorObj (DownstreamDisableFlagDW u) = \<lparr>pb_Unique = Some u, pb_SeenUniques = None\<rparr>"

definition downstreamProtoFlagDWToAntidoteDownstream :: "ProtoFlagTagDownstream \<Rightarrow> dwflag_op" where
  "downstreamProtoFlagDWToAntidoteDownstream pb = (case pb_Unique pb of
      Some u \<Rightarrow> DownstreamDisableFlagDW u
    | None \<Rightarrow> DownstreamEnableFlagDW (seen_uniques pb))"

definition DwFlag_ToProtoState :: "DwFlagCrdt \<Rightarrow> nat list" where
  "DwFlag_ToProtoState f = UniqueSetToUInt64Array (disables f)"

text \<open>Unlike the enable-wins flag, \<open>initializeFromSnapshot\<close> does not create a random source.\<close>

definition DwFlag_FromProtoState :: "nat list \<Rightarrow> DwFlagCrdt" where
  "DwFlag_FromProtoState pb = \<lparr>disables = UInt64ArrayToUniqueSet pb, dw_random = False\<rparr>"

section \<open>Contracts\<close>

fun ew_adds :: "ewflag_op \<Rightarrow> Unique set" where
  "ew_adds (DownstreamEnableFlagEW u) = {u}"
| "ew_adds (DownstreamDisableFlagEW seen) = {}"

fun ew_rems :: "ewflag_op \<Rightarrow> Unique set" where
  "ew_rems (DownstreamEnableFlagEW u) = {}"
| "ew_rems (DownstreamDisableFlagEW seen) = fset seen"

interpretation ew_ops: observed_remove EwFlag_applyDownstream "\<lambda>f. fset (enables f)" ew_adds ew_rems "\<lambda>f. True"
proof
  fix s u
  show "fset (enables (fst (EwFlag_applyDownstream s u))) = fset (enables s) - ew_rems u \<union> ew_adds u"
    by (cases u) (auto simp: uset_add_def)
  show "ew_adds u \<inter> ew_rems u = {}" by (cases u) simp_all
qed simp

text \<open>Tags are fresh when they are added: then every effect can be undone.\<close>

fun ew_fresh :: "EwFlagCrdt \<Rightarrow> ewflag_op \<Rightarrow> bool" where
  "ew_fresh f (DownstreamEnableFlagEW u) = (u |\<notin>| enables f)"
| "ew_fresh f (DownstreamDisableFlagEW seen) = True"

interpretation ew: inversible EwFlag_applyDownstream EwFlag_undoEffect ew_fresh
proof
  fix s u
  assume "ew_fresh s u"
  then show "EwFlag_undoEffect (fst (EwFlag_applyDownstream s u)) (snd (EwFlag_applyDownstream s u)) = Inr s"
  proof (cases u)
    case (DownstreamEnableFlagEW x)
    with \<open>ew_fresh s u\<close> have "finsert x (enables s) |-| {|x|} = enables s" by auto
    then show ?thesis by (simp add: DownstreamEnableFlagEW uset_add_def)
  next
    case (DownstreamDisableFlagEW seen)
    have "(enables s |-| seen) |\<union>| (enables s |\<inter>| seen) = enables s" by auto
    then show ?thesis by (simp add: DownstreamDisableFlagEW)
  qed
qed

fun dw_adds :: "dwflag_op \<Rightarrow> Unique set" where
  "dw_adds (DownstreamDisableFlagDW u) = {u}"
| "dw_adds (DownstreamEnableFlagDW seen) = {}"

fun dw_rems :: "dwflag_op \<Rightarrow> Unique set" where
  "dw_rems (DownstreamDisableFlagDW u) = {}"
| "dw_rems (DownstreamEnableFlagDW seen) = fset seen"

interpretation dw_ops: observed_remove DwFlag_applyDownstream "\<lambda>f. fset (disables f)" dw_adds dw_rems "\<lambda>f. True"
proof
  fix s u
  show "fset (disables (fst (DwFlag_applyDownstream s u))) = fset (disables s) - dw_rems u \<union> dw_adds u"
    by (cases u) (auto simp: uset_add_def)
  show "dw_adds u \<inter> dw_rems u = {}" by (cases u) simp_all
qed simp

section \<open>Which operation wins\<close>

lemma EwFlag_GetValue_iff: "EwFlag_GetValue f \<longleftrightarrow> fset (enables f) \<noteq> {}"
  by (auto simp: EwFlag_GetValue_def fcard.rep_eq card_gt_0_iff)

lemma DwFlag_GetValue_iff: "DwFlag_GetValue f \<longleftrightarrow> fset (disables f) = {}"
  by (auto simp: DwFlag_GetValue_def fcard.rep_eq)

lemma ew_adds_iff: "x \<in> ew_adds u \<longleftrightarrow> u = DownstreamEnableFlagEW x"
  by (cases u) auto

lemma ew_rems_iff: "x \<in> ew_rems u \<longleftrightarrow> (\<exists>seen. u = DownstreamDisableFlagEW seen \<and> x |\<in>| seen)"
  by (cases u) auto

lemma dw_adds_iff: "x \<in> dw_adds u \<longleftrightarrow> u = DownstreamDisableFlagDW x"
  by (cases u) auto

lemma dw_rems_iff: "x \<in> dw_rems u \<longleftrightarrow> (\<exists>seen. u = DownstreamEnableFlagDW seen \<and> x |\<in>| seen)"
  by (cases u) auto

lemma ew_content:
  assumes "causal_order (observed_by ew_adds ew_rems) us"
  shows "x |\<in>| enables (run EwFlag_applyDownstream EwFlag_Initialize us) \<longleftrightarrow>
    DownstreamEnableFlagEW x \<in> set us \<and> \<not> (\<exists>seen. DownstreamDisableFlagEW seen \<in> set us \<and> x |\<in>| seen)"
proof -
  have "x |\<in>| enables (run EwFlag_applyDownstream EwFlag_Initialize us) \<longleftrightarrow>
      (\<exists>u \<in> set us. x \<in> ew_adds u) \<and> \<not> (\<exists>u \<in> set us. x \<in> ew_rems u)"
    using ew_ops.content_run [OF assms, of EwFlag_Initialize] by (simp add: EwFlag_Initialize_def)
  then show ?thesis unfolding ew_adds_iff ew_rems_iff by blast
qed

lemma dw_content:
  assumes "causal_order (observed_by dw_adds dw_rems) us"
  shows "x |\<in>| disables (run DwFlag_applyDownstream DwFlag_Initialize us) \<longleftrightarrow>
    DownstreamDisableFlagDW x \<in> set us \<and> \<not> (\<exists>seen. DownstreamEnableFlagDW seen \<in> set us \<and> x |\<in>| seen)"
proof -
  have "x |\<in>| disables (run DwFlag_applyDownstream DwFlag_Initialize us) \<longleftrightarrow>
      (\<exists>u \<in> set us. x \<in> dw_adds u) \<and> \<not> (\<exists>u \<in> set us. x \<in> dw_rems u)"
    using dw_ops.content_run [OF assms, of DwFlag_Initialize] by (simp add: DwFlag_Initialize_def)
  then show ?thesis unfolding dw_adds_iff dw_rems_iff by blast
qed

lemma EwFlag_enable_wins:
  assumes "causal_order (observed_by ew_adds ew_rems) us" and "EwFlag_Update rnd f args = Inr d"
  shows "EwFlag_Read (run EwFlag_applyDownstream EwFlag_Initialize us) [] =
      (\<exists>u. DownstreamEnableFlagEW u \<in> set us \<and> \<not> (\<exists>seen. DownstreamDisableFlagEW seen \<in> set us \<and> u |\<in>| seen))
    \<and> EwFlag_Read (fst (EwFlag_applyDownstream f d)) [] = EwFlag_Read f [args]
    \<and> downstreamProtoFlagEWToAntidoteDownstream (EwFlag_ToReplicatorObj d) = d"
proof (intro conjI)
  show "EwFlag_Read (run EwFlag_applyDownstream EwFlag_Initialize us) [] =
      (\<exists>u. DownstreamEnableFlagEW u \<in> set us \<and> \<not> (\<exists>seen. DownstreamDisableFlagEW seen \<in> set us \<and> u |\<in>| seen))"
    using ew_content [OF assms(1)] by (simp add: EwFlag_Read_def EwFlag_GetValue_iff ex_in_conv [symmetric])
  show "EwFlag_Read (fst (EwFlag_applyDownstream f d)) [] = EwFlag_Read f [args]"
    using assms(2) by (auto simp: EwFlag_Update_def EwFlag_Read_def EwFlag_GetValue_iff uset_add_def
        split: flag_update.splits if_splits)
  show "downstreamProtoFlagEWToAntidoteDownstream (EwFlag_ToReplicatorObj d) = d"
    by (cases d) (simp_all add: downstreamProtoFlagEWToAntidoteDownstream_def seen_uniques_def)
qed

lemma DwFlag_disable_wins:
  assumes "causal_order (observed_by dw_adds dw_rems) us" and "DwFlag_Update rnd f args = Inr d"
  shows "DwFlag_Read (run DwFlag_applyDownstream DwFlag_Initialize us) [] =
      (\<not> (\<exists>u. DownstreamDisableFlagDW u \<in> set us \<and> \<not> (\<exists>seen. DownstreamEnableFlagDW seen \<in> set us \<and> u |\<in>| seen)))
    \<and> DwFlag_Read (fst (DwFlag_applyDownstream f d)) [] = DwFlag_Read f [args]
    \<and> downstreamProtoFlagDWToAntidoteDownstream (DwFlag_ToReplicatorObj d) = d"
proof (intro conjI)
  show "DwFlag_Read (run DwFlag_applyDownstream DwFlag_Initialize us) [] =
      (\<not> (\<exists>u. DownstreamDisableFlagDW u \<in> set us \<and> \<not> (\<exists>seen. DownstreamEnableFlagDW seen \<in> set us \<and> u |\<in>| seen)))"
    using dw_content [OF assms(1)] by (simp add: DwFlag_Read_def DwFlag_GetValue_iff set_eq_iff)
  show "DwFlag_Read (fst (DwFlag_applyDownstream f d)) [] = DwFlag_Read f [args]"
    using assms(2) by (auto simp: DwFlag_Update_def DwFlag_Read_def DwFlag_GetValue_iff uset_add_def
        split: flag_update.splits if_splits)
  show "downstreamProtoFlagDWToAntidoteDownstream (DwFlag_ToReplicatorObj d) = d"
    by (cases d) (simp_all add: downstreamProtoFlagDWToAntidoteDownstream_def seen_uniques_def)
qed

text \<open>
  C10. Enable wins: after any operations delivered in an order in which a disable comes after
  the enables it saw, the enable-wins flag reads true exactly when some enable was not seen by
  any disable. Dually the disable-wins flag starts enabled and reads false exactly when some
  disable was not seen by any enable. So replicas with the same operations agree. A replica
  also reads its own update back, pending or applied, and the replicator messages keep the
  operations.
\<close>

theorem flags_win:
  assumes "causal_order (observed_by ew_adds ew_rems) us" and "EwFlag_Update rnd f args = Inr d"
    and "causal_order (observed_by dw_adds dw_rems) vs" and "DwFlag_Update rnd g args' = Inr e"
  shows "EwFlag_Read (run EwFlag_applyDownstream EwFlag_Initialize us) [] =
      (\<exists>u. DownstreamEnableFlagEW u \<in> set us \<and> \<not> (\<exists>seen. DownstreamDisableFlagEW seen \<in> set us \<and> u |\<in>| seen))
    \<and> EwFlag_Read (fst (EwFlag_applyDownstream f d)) [] = EwFlag_Read f [args]
    \<and> downstreamProtoFlagEWToAntidoteDownstream (EwFlag_ToReplicatorObj d) = d
    \<and> DwFlag_Read (run DwFlag_applyDownstream DwFlag_Initialize vs) [] =
      (\<not> (\<exists>u. DownstreamDisableFlagDW u \<in> set vs \<and> \<not> (\<exists>seen. DownstreamEnableFlagDW seen \<in> set vs \<and> u |\<in>| seen)))
    \<and> DwFlag_Read (fst (DwFlag_applyDownstream g e)) [] = DwFlag_Read g [args']
    \<and> downstreamProtoFlagDWToAntidoteDownstream (DwFlag_ToReplicatorObj e) = e"
  using EwFlag_enable_wins [OF assms(1,2)] DwFlag_disable_wins [OF assms(3,4)] by blast

theorem flags_win_witness:
  "EwFlag_Read (run EwFlag_applyDownstream EwFlag_Initialize
     [DownstreamEnableFlagEW 1, DownstreamEnableFlagEW 2, DownstreamDisableFlagEW {|1|}]) [] = True
   \<and> DwFlag_Read (run DwFlag_applyDownstream DwFlag_Initialize
     [DownstreamDisableFlagDW 1, DownstreamDisableFlagDW 2, DownstreamEnableFlagDW {|1|}]) [] = False"
proof -
  let ?us = "[DownstreamEnableFlagEW 1, DownstreamEnableFlagEW 2, DownstreamDisableFlagEW {|1|}]"
  let ?vs = "[DownstreamDisableFlagDW 1, DownstreamDisableFlagDW 2, DownstreamEnableFlagDW {|1|}]"
  have c: "causal_order (observed_by ew_adds ew_rems) ?us" "causal_order (observed_by dw_adds dw_rems) ?vs"
    by (simp_all add: causal_order_def observed_by_def)
  have u: "EwFlag_Update 7 EwFlag_Initialize EnableFlag = Inr (DownstreamEnableFlagEW 7)"
    "DwFlag_Update 7 DwFlag_Initialize DisableFlag = Inr (DownstreamDisableFlagDW 7)"
    by (simp_all add: EwFlag_Update_def EwFlag_Initialize_def DwFlag_Update_def DwFlag_Initialize_def)
  have "\<exists>u. DownstreamEnableFlagEW u \<in> set ?us \<and> \<not> (\<exists>seen. DownstreamDisableFlagEW seen \<in> set ?us \<and> u |\<in>| seen)"
    "\<exists>u. DownstreamDisableFlagDW u \<in> set ?vs \<and> \<not> (\<exists>seen. DownstreamEnableFlagDW seen \<in> set ?vs \<and> u |\<in>| seen)"
    by (rule exI [of _ 2], simp)+
  with flags_win [OF c(1) u(1) c(2) u(2)] show ?thesis by blast
qed

text \<open>
  Undoing flag operations. Every effect of the enable-wins flag is undone when its tags
  were fresh, and so is every enable of the disable-wins flag. A disable of the disable-wins
  flag is not: its effect has the wrong type, the undo ignores it, and an older version still
  reads false. A disable-wins flag built from a snapshot, or copied, panics on the next local
  disable.
\<close>

theorem flags_undo:
  assumes "ew_fresh f u" and "x |\<notin>| disables g"
  shows "EwFlag_undoEffect (fst (EwFlag_applyDownstream f u)) (snd (EwFlag_applyDownstream f u)) = Inr f
    \<and> DwFlag_undoEffect (fst (DwFlag_applyDownstream g (DownstreamEnableFlagDW seen)))
        (snd (DwFlag_applyDownstream g (DownstreamEnableFlagDW seen))) = Inr g
    \<and> (\<exists>g'. DwFlag_undoEffect (fst (DwFlag_applyDownstream g (DownstreamDisableFlagDW x)))
          (snd (DwFlag_applyDownstream g (DownstreamDisableFlagDW x))) = Inr g' \<and> g' \<noteq> g \<and> \<not> DwFlag_Read g' [])
    \<and> DwFlag_Update rnd (DwFlag_FromProtoState pb) DisableFlag = Inl NilDereference
    \<and> DwFlag_Update rnd (DwFlag_Copy g) DisableFlag = Inl NilDereference"
proof (intro conjI)
  show "EwFlag_undoEffect (fst (EwFlag_applyDownstream f u)) (snd (EwFlag_applyDownstream f u)) = Inr f"
    using assms(1) by (rule ew.undo_apply)
  have "(disables g |-| seen) |\<union>| (disables g |\<inter>| seen) = disables g" by auto
  then show "DwFlag_undoEffect (fst (DwFlag_applyDownstream g (DownstreamEnableFlagDW seen)))
        (snd (DwFlag_applyDownstream g (DownstreamEnableFlagDW seen))) = Inr g"
    by simp
  let ?g = "g\<lparr>disables := finsert x (disables g)\<rparr>"
  have "disables ?g \<noteq> disables g" using assms(2) by auto
  then have "?g \<noteq> g" by metis
  then show "\<exists>g'. DwFlag_undoEffect (fst (DwFlag_applyDownstream g (DownstreamDisableFlagDW x)))
          (snd (DwFlag_applyDownstream g (DownstreamDisableFlagDW x))) = Inr g' \<and> g' \<noteq> g \<and> \<not> DwFlag_Read g' []"
    by (simp add: uset_add_def DwFlag_Read_def DwFlag_GetValue_iff)
qed (simp_all add: DwFlag_Update_def DwFlag_FromProtoState_def DwFlag_Copy_def)

theorem flags_undo_witness:
  "\<exists>g'. DwFlag_undoEffect (fst (DwFlag_applyDownstream DwFlag_Initialize (DownstreamDisableFlagDW 5)))
      (snd (DwFlag_applyDownstream DwFlag_Initialize (DownstreamDisableFlagDW 5))) = Inr g'
    \<and> g' \<noteq> DwFlag_Initialize \<and> \<not> DwFlag_Read g' []"
proof -
  have "ew_fresh EwFlag_Initialize (DownstreamEnableFlagEW 5)" by (simp add: EwFlag_Initialize_def)
  moreover have "5 |\<notin>| disables DwFlag_Initialize" by (simp add: DwFlag_Initialize_def)
  ultimately show ?thesis by (rule flags_undo [THEN conjunct2, THEN conjunct2, THEN conjunct1])
qed

end
