(* ===== verification/BoundedCounter.thy ===== *)
theory BoundedCounter
  imports Convergence
begin

text \<open>
  The bounded counter of \<^verbatim>\<open>crdt/crdt/boundedCounter.go\<close>: a 32-bit value that must not fall
  below a bound. The distance to the bound is split into permissions per replica; a replica
  may decrement only within its permissions, and can transfer permissions to another one.
  The package variable \<open>knownIDs\<close> of \<open>clocksi\<close> is an argument. The boolean that the code
  writes through the pointer \<open>ToReplicate\<close> is the second result of applying an operation;
  the effect is always nil.
\<close>

record BoundedCounterCrdt =
  permissions :: "(int \<times> int) list"
  decs :: "(int \<times> int) list"
  limit :: int
  bc_replicaID :: int
  bc_value :: int

datatype bc_update = BC_Increment int | BC_Decrement int | SetCounterBound int bool int
  | TransferCounter int int int

datatype bc_op = DownstreamIncBCounter int int | DownstreamDecBCounter int int
  | DownSetCounterBound int bool int | DownTransferCounter int int int | BC_NoOp

definition BC_Initialize :: "int list \<Rightarrow> int \<Rightarrow> BoundedCounterCrdt" where
  "BC_Initialize knownIDs replicaID =
     \<lparr>permissions = map (\<lambda>e. (fst e, 0)) (NewClockSiTimestamp knownIDs),
      decs = map (\<lambda>e. (fst e, 0)) (NewClockSiTimestamp knownIDs),
      limit = 0, bc_replicaID = replicaID, bc_value = 0\<rparr>"

text \<open>With pending updates the read returns a nil state.\<close>

definition BC_Read :: "BoundedCounterCrdt \<Rightarrow> bc_update list \<Rightarrow> int option" where
  "BC_Read c updsNotYetApplied = (if updsNotYetApplied = [] then Some (bc_value c) else None)"

fun BC_Update :: "BoundedCounterCrdt \<Rightarrow> bc_update \<Rightarrow> bc_op" where
  "BC_Update c (BC_Increment change) = DownstreamIncBCounter change (bc_replicaID c)"
| "BC_Update c (BC_Decrement change) = DownstreamDecBCounter change (bc_replicaID c)"
| "BC_Update c (SetCounterBound bound compEq initialValue) = DownSetCounterBound bound compEq initialValue"
| "BC_Update c (TransferCounter toTransfer fromID toID) =
     (if toTransfer > go_quot (vget (permissions c) (bc_replicaID c)) 2 then BC_NoOp
      else DownTransferCounter toTransfer fromID toID)"

text \<open>\<open>m[id] += x\<close> on a map of 32-bit integers.\<close>

definition add_at :: "int \<Rightarrow> int \<Rightarrow> (int \<times> int) list \<Rightarrow> (int \<times> int) list" where
  "add_at i x m = mput i (int32 (vget m i + x)) m"

definition BC_increment :: "int \<Rightarrow> int \<Rightarrow> BoundedCounterCrdt \<Rightarrow> BoundedCounterCrdt" where
  "BC_increment change replicaID c =
     c\<lparr>permissions := add_at replicaID change (permissions c), bc_value := int32 (bc_value c + change)\<rparr>"

definition BC_decrement :: "int \<Rightarrow> int \<Rightarrow> BoundedCounterCrdt \<Rightarrow> BoundedCounterCrdt \<times> bool" where
  "BC_decrement change replicaID c =
     (if change > vget (permissions c) replicaID then (c, False)
      else (c\<lparr>permissions := add_at replicaID (- change) (permissions c),
              bc_value := int32 (bc_value c - change)\<rparr>, True))"

text \<open>
  The two loops of \<open>counterInitOp\<close> over the sorted ids: the first \<open>remaining\<close> ids get one
  permission more. The index \<open>i\<close> runs through both.
\<close>

primrec init_split :: "int \<Rightarrow> int \<Rightarrow> int \<Rightarrow> int list \<Rightarrow> (int \<times> int) list \<Rightarrow> (int \<times> int) list" where
  "init_split splitValue remaining i [] perms = perms"
| "init_split splitValue remaining i (k # ks) perms =
     init_split splitValue remaining (i + 1) ks
       (add_at k (if i < remaining then int32 (splitValue + 1) else splitValue) perms)"

definition counterInitOp ::
    "int list \<Rightarrow> int \<Rightarrow> bool \<Rightarrow> int \<Rightarrow> BoundedCounterCrdt \<Rightarrow> BoundedCounterCrdt go" where
  "counterInitOp knownIDs bound compEq initialValue c =
     (let sortedIDs = GetSortedKeys (NewClockSiTimestamp knownIDs);
          n = int32 (int (length sortedIDs));
          diff = int32 (initialValue - bound)
      in if n = 0 then Inl DivideByZero
         else Inr (c\<lparr>limit := (if compEq then bound else int32 (bound + 1)),
                     bc_value := initialValue,
                     permissions := init_split (go_quot diff n) (go_rem diff n) 0 sortedIDs (permissions c)\<rparr>))"

definition BC_transfer :: "int \<Rightarrow> int \<Rightarrow> int \<Rightarrow> BoundedCounterCrdt \<Rightarrow> BoundedCounterCrdt \<times> bool" where
  "BC_transfer toTransfer fromID toID c =
     (if fromID = bc_replicaID c \<and> toTransfer > go_quot (vget (permissions c) fromID) 2 then (c, False)
      else (c\<lparr>permissions := add_at toID toTransfer (add_at fromID (- toTransfer) (permissions c))\<rparr>, True))"

text \<open>The flag is what \<open>MustReplicate\<close> of the operation answers afterwards.\<close>

fun BC_applyDownstream ::
    "int list \<Rightarrow> BoundedCounterCrdt \<Rightarrow> bc_op \<Rightarrow> (BoundedCounterCrdt \<times> bool) go" where
  "BC_applyDownstream knownIDs c (DownstreamIncBCounter change replicaID) = Inr (BC_increment change replicaID c, True)"
| "BC_applyDownstream knownIDs c (DownstreamDecBCounter change replicaID) = Inr (BC_decrement change replicaID c)"
| "BC_applyDownstream knownIDs c (DownSetCounterBound bound compEq initialValue) =
     gbind (counterInitOp knownIDs bound compEq initialValue c) (\<lambda>c'. Inr (c', True))"
| "BC_applyDownstream knownIDs c (DownTransferCounter toTransfer fromID toID) = Inr (BC_transfer toTransfer fromID toID c)"
| "BC_applyDownstream knownIDs c BC_NoOp = Inr (c, False)"

text \<open>
  \<open>RequestTransfer\<close>: the loop that looks for the replica with the most permissions runs in
  map order; the answer is the amount to ask for and the replica to ask, or minus one twice.
\<close>

primrec max_permission :: "(int \<times> int) list \<Rightarrow> int \<times> int \<Rightarrow> int \<times> int" where
  "max_permission [] best = best"
| "max_permission (e # es) best = max_permission es (if snd e > fst best then (snd e, fst e) else best)"

definition MinInt32 :: "int \<Rightarrow> int \<Rightarrow> int" where
  "MinInt32 a b = (if a < b then a else b)"

definition RequestTransfer :: "BoundedCounterCrdt \<Rightarrow> (int \<times> int) go" where
  "RequestTransfer c =
     (let own = vget (permissions c) (bc_replicaID c);
          n = int32 (int (length (permissions c)))
      in if n = 0 then Inl DivideByZero
         else if own < go_quot (go_quot (bc_value c) n) 2
         then let maxID = snd (max_permission (permissions c) (0, 0))
              in Inr (MinInt32 (go_quot (int32 (vget (permissions c) maxID - own)) 2)
                        (int32 (bc_value c - own)), maxID)
         else Inr (-1, -1))"

text \<open>\<open>Copy\<close> makes new, empty maps and never fills them.\<close>

definition BC_Copy :: "BoundedCounterCrdt \<Rightarrow> BoundedCounterCrdt" where
  "BC_Copy c = c\<lparr>permissions := [], decs := []\<rparr>"

definition BC_undoEffect :: "BoundedCounterCrdt \<Rightarrow> unit effect \<Rightarrow> BoundedCounterCrdt go" where
  "BC_undoEffect c e = Inr c"

text \<open>Messages: the state travels with 32-bit ids; the replica's own id is not set on arrival.\<close>

record ProtoBoundedCounterState =
  pb_Permissions :: "(int \<times> int) list"
  pb_Decs :: "(int \<times> int) list"
  pb_Limit :: int
  pb_Value :: int

definition BC_ToProtoState :: "BoundedCounterCrdt \<Rightarrow> ProtoBoundedCounterState" where
  "BC_ToProtoState c =
     \<lparr>pb_Permissions = map (\<lambda>e. (int32 (fst e), snd e)) (permissions c),
      pb_Decs = map (\<lambda>e. (int32 (fst e), snd e)) (decs c),
      pb_Limit = limit c, pb_Value = bc_value c\<rparr>"

definition BC_FromProtoState :: "ProtoBoundedCounterState \<Rightarrow> int \<Rightarrow> BoundedCounterCrdt" where
  "BC_FromProtoState pb replicaID =
     \<lparr>permissions = foldl (\<lambda>m e. mput (int16 (fst e)) (snd e) m) [] (pb_Permissions pb),
      decs = foldl (\<lambda>m e. mput (int16 (fst e)) (snd e) m) [] (pb_Decs pb),
      limit = pb_Limit pb, bc_replicaID = 0, bc_value = pb_Value pb\<rparr>"

datatype proto_bc = PbInc int int | PbDec int int | PbSetBounds int bool int | PbTransfer int int int

fun BC_ToReplicatorObj :: "bc_op \<Rightarrow> proto_bc option" where
  "BC_ToReplicatorObj (DownstreamIncBCounter change replicaID) = Some (PbInc change (int32 replicaID))"
| "BC_ToReplicatorObj (DownstreamDecBCounter change replicaID) = Some (PbDec change (int32 replicaID))"
| "BC_ToReplicatorObj (DownSetCounterBound bound compEq initialValue) = Some (PbSetBounds bound compEq initialValue)"
| "BC_ToReplicatorObj (DownTransferCounter toTransfer fromID toID) = Some (PbTransfer toTransfer (int32 fromID) (int32 toID))"
| "BC_ToReplicatorObj BC_NoOp = None"

fun downstreamProtoBCounterToAntidoteDownstream :: "proto_bc \<Rightarrow> bc_op" where
  "downstreamProtoBCounterToAntidoteDownstream (PbInc change replicaID) = DownstreamIncBCounter change (int16 replicaID)"
| "downstreamProtoBCounterToAntidoteDownstream (PbDec change replicaID) = DownstreamDecBCounter change (int16 replicaID)"
| "downstreamProtoBCounterToAntidoteDownstream (PbSetBounds bound compEq initialValue) = DownSetCounterBound bound compEq initialValue"
| "downstreamProtoBCounterToAntidoteDownstream (PbTransfer toTransfer fromID toID) =
     DownTransferCounter toTransfer (int16 fromID) (int16 toID)"

section \<open>Sums of permissions\<close>

definition perm_total :: "(int \<times> int) list \<Rightarrow> int" where
  "perm_total m = sum_list (map snd m)"

lemma total_mput: "wf_map m \<Longrightarrow> perm_total (mput k v m) = perm_total m - vget m k + v"
proof (induction m)
  case (Cons e m)
  obtain a b where e: "e = (a, b)" by (cases e)
  have wf: "wf_map m" and new: "a \<notin> fst ` set m" using Cons.prems by (auto simp: e wf_map_def)
  show ?case
  proof (cases "a = k")
    case True
    then show ?thesis by (simp add: e perm_total_def vget_def)
  next
    case False
    have "perm_total (mput k v m) = perm_total m - vget m k + v" using Cons.IH wf by simp
    with False show ?thesis by (simp add: e perm_total_def vget_def)
  qed
qed (simp add: perm_total_def vget_def)

definition nonneg :: "(int \<times> int) list \<Rightarrow> bool" where
  "nonneg m \<longleftrightarrow> (\<forall>k. 0 \<le> vget m k)"

lemma nonneg_mput: "nonneg m \<Longrightarrow> 0 \<le> v \<Longrightarrow> nonneg (mput k v m)"
  by (simp add: nonneg_def vget_mput)

lemma total_nonneg: "wf_map m \<Longrightarrow> nonneg m \<Longrightarrow> 0 \<le> perm_total m"
  unfolding perm_total_def by (rule sum_list_nonneg) (auto simp: nonneg_def dest: vget_entry)

lemma total_zero: "wf_map m \<Longrightarrow> (\<forall>k. vget m k = 0) \<Longrightarrow> perm_total m = 0"
proof -
  assume "wf_map m" and "\<forall>k. vget m k = 0"
  then have "\<forall>e \<in> set m. snd e = 0" by (metis prod.collapse vget_entry)
  then have "sum_list (map snd m) = 0" by (induction m) auto
  then show ?thesis by (simp add: perm_total_def)
qed

lemma vget_le_total: "wf_map m \<Longrightarrow> nonneg m \<Longrightarrow> vget m k \<le> perm_total m"
proof -
  assume wf: "wf_map m" and nn: "nonneg m"
  have "0 \<le> perm_total (mput k 0 m)" using wf nn by (intro total_nonneg nonneg_mput) simp_all
  with wf show ?thesis by (simp add: total_mput)
qed

lemma add_at_total: "wf_map m \<Longrightarrow> in_int 32 (vget m k + x) \<Longrightarrow> perm_total (add_at k x m) = perm_total m + x"
  by (simp add: add_at_def total_mput swrap_id)

lemma wf_add_at [simp]: "wf_map m \<Longrightarrow> wf_map (add_at k x m)"
  by (simp add: add_at_def)

lemma vget_add_at: "vget (add_at k x m) j = (if j = k then int32 (vget m k + x) else vget m j)"
  by (simp add: add_at_def vget_mput)

lemma nonneg_add_at: "nonneg m \<Longrightarrow> in_int 32 (vget m k + x) \<Longrightarrow> 0 \<le> vget m k + x \<Longrightarrow> nonneg (add_at k x m)"
  by (simp add: nonneg_def vget_add_at swrap_id)

section \<open>The escrow invariant\<close>

text \<open>
  The value is the bound plus all permissions, and no replica has a negative permission.
\<close>

definition bc_inv :: "int \<Rightarrow> BoundedCounterCrdt \<Rightarrow> bool" where
  "bc_inv bound c \<longleftrightarrow> wf_map (permissions c) \<and> nonneg (permissions c)
     \<and> bc_value c = bound + perm_total (permissions c) \<and> in_int 32 (bc_value c) \<and> in_int 32 bound
     \<and> in_int 32 (perm_total (permissions c))"

text \<open>
  When an increment, decrement or transfer keeps the invariant. Amounts are not negative, as
  the comment of \<open>increment\<close> requires, and the 32-bit fields do not overflow. The code checks
  a transfer only at the replica that gives the permissions away, so a transfer of another
  replica's permissions has to be covered by what that replica has. Setting the bound is
  treated apart, below.
\<close>

fun bc_ok :: "BoundedCounterCrdt \<Rightarrow> bc_op \<Rightarrow> bool" where
  "bc_ok c (DownstreamIncBCounter change r) =
     (0 \<le> change \<and> in_int 32 (bc_value c + change) \<and> in_int 32 (perm_total (permissions c) + change))"
| "bc_ok c (DownstreamDecBCounter change r) = (0 \<le> change)"
| "bc_ok c (DownTransferCounter amount fromID toID) =
     (0 \<le> amount \<and> (fromID \<noteq> bc_replicaID c \<longrightarrow> amount \<le> vget (permissions c) fromID))"
| "bc_ok c (DownSetCounterBound bound compEq initialValue) = False"
| "bc_ok c BC_NoOp = True"

lemma in_int_between: "in_int w a \<Longrightarrow> in_int w b \<Longrightarrow> a \<le> x \<Longrightarrow> x \<le> b \<Longrightarrow> in_int w x"
  by (auto simp: in_int_def)

lemma in_int_zero: "in_int 32 0"
  by (simp add: in_int_def)

lemma permission_range:
  assumes "bc_inv bound c" and "0 \<le> x" and "x \<le> perm_total (permissions c)"
  shows "in_int 32 x"
  using assms in_int_between [OF in_int_zero, of "perm_total (permissions c)" x] by (simp add: bc_inv_def)

lemma BC_increment_inv:
  assumes "bc_inv bound c" and "bc_ok c (DownstreamIncBCounter change r)"
  shows "bc_inv bound (BC_increment change r c)"
proof -
  let ?m = "permissions c"
  have m: "wf_map ?m" "nonneg ?m" using assms(1) by (simp_all add: bc_inv_def)
  have "0 \<le> vget ?m r" "vget ?m r \<le> perm_total ?m" using m by (simp_all add: nonneg_def vget_le_total)
  with assms(2) have r: "in_int 32 (vget ?m r + change)" "0 \<le> vget ?m r + change"
    using in_int_between [OF in_int_zero, of "perm_total ?m + change"] by simp_all
  show ?thesis
    using assms m r by (simp add: bc_inv_def BC_increment_def add_at_total nonneg_add_at swrap_id)
qed

lemma BC_decrement_inv:
  assumes "bc_inv bound c" and "0 \<le> change"
  shows "bc_inv bound (fst (BC_decrement change r c))"
proof (cases "change > vget (permissions c) r")
  case False
  let ?m = "permissions c"
  have m: "wf_map ?m" "nonneg ?m" using assms(1) by (simp_all add: bc_inv_def)
  have le: "vget ?m r \<le> perm_total ?m" using m by (rule vget_le_total)
  have r: "in_int 32 (vget ?m r + - change)" "0 \<le> vget ?m r + - change"
    using permission_range [OF assms(1), of "vget ?m r - change"] False assms(2) le by simp_all
  have v: "bc_value c = bound + perm_total ?m" "in_int 32 (bc_value c)" "in_int 32 bound"
    using assms(1) unfolding bc_inv_def by blast+
  then have "in_int 32 (bc_value c - change)"
    using in_int_between [of 32 bound "bc_value c" "bc_value c - change"] assms(2) False le by linarith
  moreover have "in_int 32 (perm_total ?m - change)"
    using permission_range [OF assms(1), of "perm_total ?m - change"] False assms(2) le by simp
  ultimately show ?thesis
    using assms m r False
    by (simp add: bc_inv_def BC_decrement_def add_at_total [OF m(1) r(1)] nonneg_add_at [OF m(2) r] swrap_id)
qed (use assms in \<open>simp add: BC_decrement_def\<close>)

lemma half_le: "0 \<le> p \<Longrightarrow> go_quot p 2 \<le> p"
  by (simp add: go_quot_nonneg)

lemma BC_transfer_inv:
  assumes "bc_inv bound c" and "bc_ok c (DownTransferCounter amount fromID toID)"
  shows "bc_inv bound (fst (BC_transfer amount fromID toID c))"
proof (cases "fromID = bc_replicaID c \<and> amount > go_quot (vget (permissions c) fromID) 2")
  case False
  let ?m = "permissions c" and ?n = "add_at fromID (- amount) (permissions c)"
  have m: "wf_map ?m" "nonneg ?m" using assms(1) by (simp_all add: bc_inv_def)
  have pos: "0 \<le> vget ?m k" for k using m by (simp add: nonneg_def)
  have le: "vget ?m fromID \<le> perm_total ?m" using m by (rule vget_le_total)
  have enough: "amount \<le> vget ?m fromID"
    using assms(2) False half_le [OF pos, of fromID] by (cases "fromID = bc_replicaID c") auto
  have r: "in_int 32 (vget ?m fromID + - amount)" "0 \<le> vget ?m fromID + - amount"
    using permission_range [OF assms(1), of "vget ?m fromID - amount"] enough assms(2) le by simp_all
  have n: "wf_map ?n" "nonneg ?n" "perm_total ?n = perm_total ?m - amount"
    using m r by (simp_all add: nonneg_add_at add_at_total)
  have "vget ?n toID \<le> perm_total ?m - amount" "0 \<le> vget ?n toID"
    using vget_le_total [OF n(1,2), of toID] n by (simp_all add: nonneg_def)
  then have s: "in_int 32 (vget ?n toID + amount)" "0 \<le> vget ?n toID + amount"
    using permission_range [OF assms(1), of "vget ?n toID + amount"] assms(2) by simp_all
  have t: "BC_transfer amount fromID toID c = (c\<lparr>permissions := add_at toID amount ?n\<rparr>, True)"
    using False by (auto simp: BC_transfer_def)
  show ?thesis
    unfolding t using assms(1)
    by (auto simp: bc_inv_def add_at_total [OF n(1) s(1)] nonneg_add_at [OF n(2) s] n)
next
  case True
  then have "BC_transfer amount fromID toID c = (c, False)" by (auto simp: BC_transfer_def)
  with assms(1) show ?thesis by simp
qed

lemma bc_step_inv:
  assumes "bc_inv bound c" and "bc_ok c u" and "BC_applyDownstream knownIDs c u = Inr (c', rep)"
  shows "bc_inv bound c'"
proof (cases u)
  case (DownstreamIncBCounter change r)
  with assms BC_increment_inv [of bound c change r] show ?thesis by auto
next
  case (DownstreamDecBCounter change r)
  with assms BC_decrement_inv [of bound c change r] show ?thesis by auto
next
  case (DownTransferCounter amount fromID toID)
  with assms BC_transfer_inv [of bound c amount fromID toID] show ?thesis by auto
qed (use assms in auto)

section \<open>Setting the bound\<close>

lemma initial_permissions:
  "wf_map (permissions (BC_Initialize ids r)) \<and> vget (permissions (BC_Initialize ids r)) k = 0"
proof -
  let ?m = "map (\<lambda>e. (fst e, 0 :: int)) (NewClockSiTimestamp ids)"
  have "wf_map (NewClockSiTimestamp ids)" by (simp add: NewClockSiTimestamp_def wf_NewTimestamp)
  then have "wf_map ?m" by (simp add: wf_map_def comp_def)
  moreover have "map_of (map (\<lambda>e. (fst e, 0 :: int)) es) k \<in> {None, Some 0}" for es :: "(int \<times> int) list" by (induction es) auto
  then have "map_of ?m k \<in> {None, Some 0}" .
  ultimately show ?thesis by (auto simp: BC_Initialize_def vget_def split: option.split)
qed

lemma sorted_ids:
  "distinct (GetSortedKeys (NewClockSiTimestamp ids)) \<and> set (GetSortedKeys (NewClockSiTimestamp ids)) = set ids"
proof -
  have "wf_map (NewClockSiTimestamp ids)" by (simp add: NewClockSiTimestamp_def wf_NewTimestamp)
  then show ?thesis
    by (simp add: GetSortedKeys_def wf_map_def) (simp add: NewClockSiTimestamp_def keys_NewTimestamp)
qed

text \<open>The split on ids without permissions: what each id gets, and the sum.\<close>

lemma init_split_props:
  assumes "distinct ks" and "0 \<le> q" and "in_int 32 (q + 1)"
    and "\<forall>k \<in> set ks. 0 \<le> vget m k \<and> in_int 32 (vget m k + (q + 1))" and "wf_map m"
  shows "wf_map (init_split q rem i ks m)
    \<and> (\<forall>k. vget (init_split q rem i ks m) k - vget m k \<in> (if k \<in> set ks then {q, q + 1} else {0}))
    \<and> perm_total (init_split q rem i ks m) = perm_total m + q * int (length ks) + max 0 (min (int (length ks)) (rem - i))"
  using assms(1,4,5)
proof (induction ks arbitrary: i m)
  case (Cons x ks)
  have w: "int32 (q + 1) = q + 1" using assms(3) by (simp add: swrap_id)
  define y where "y = (if i < rem then int32 (q + 1) else q)"
  have y: "y = q \<or> y = q + 1" "y = q + (if i < rem then 1 else 0)" by (simp_all add: y_def w)
  have ok: "in_int 32 (vget m x + y)" using Cons.prems y(1) assms(2) by (auto simp: in_int_def)
  then have x: "vget (add_at x y m) x = vget m x + y" by (simp add: vget_add_at swrap_id)
  have other: "vget (add_at x y m) k = vget m k" if "k \<noteq> x" for k using that by (simp add: vget_add_at)
  have t: "perm_total (add_at x y m) = perm_total m + y" using ok Cons.prems by (simp add: add_at_total)
  have z: "\<forall>k \<in> set ks. 0 \<le> vget (add_at x y m) k \<and> in_int 32 (vget (add_at x y m) k + (q + 1))"
    using Cons.prems other by (metis distinct.simps(2) list.set_intros(2))
  have IH: "wf_map (init_split q rem (i + 1) ks (add_at x y m))"
    "vget (init_split q rem (i + 1) ks (add_at x y m)) k - vget (add_at x y m) k \<in> (if k \<in> set ks then {q, q + 1} else {0})"
    "perm_total (init_split q rem (i + 1) ks (add_at x y m)) = perm_total m + y + q * int (length ks)
       + max 0 (min (int (length ks)) (rem - (i + 1)))" for k
    using Cons.IH [of "add_at x y m" "i + 1"] Cons.prems z t by auto
  have "y + max 0 (min (int (length ks)) (rem - (i + 1))) = q + max 0 (min (1 + int (length ks)) (rem - i))"
    using y(2) by (simp split: if_splits)
  moreover have "vget (init_split q rem (i + 1) ks (add_at x y m)) k - vget m k
      \<in> (if k \<in> set (x # ks) then {q, q + 1} else {0})" for k
    using IH(2) [of k] x y(1) other [of k] Cons.prems(1) by (cases "k = x") auto
  ultimately show ?case using IH(1,3) by (simp add: y_def [symmetric] algebra_simps)
qed simp

text \<open>
  Setting the bound of any counter adds the new distance to the permissions it already has,
  so the invariant holds afterwards for a floor that lies below the bound by those.
\<close>

lemma counterInitOp_inv:
  assumes "counterInitOp ids bound compEq v c0 = Inr c"
    and "bc_inv b0 c0" and "bound \<le> v" and "in_int 32 v"
    and "in_int 32 (bound - perm_total (permissions c0))"
    and "in_int 32 (perm_total (permissions c0) + (v - bound) + 1)" and "length ids < 2 ^ 31"
  shows "bc_inv (bound - perm_total (permissions c0)) c
    \<and> perm_total (permissions c) = perm_total (permissions c0) + (v - bound)
    \<and> (\<forall>k \<in> set ids. vget (permissions c) k - vget (permissions c0) k - (v - bound) div int (card (set ids)) \<in> {0, 1})
    \<and> bc_value c = v \<and> ids \<noteq> [] \<and> bc_replicaID c = bc_replicaID c0"
proof -
  define ks where "ks = GetSortedKeys (NewClockSiTimestamp ids)"
  define m where "m = permissions c0"
  let ?n = "int (length ks)" and ?d = "v - bound"
  have ks: "distinct ks" "set ks = set ids" using sorted_ids [of ids] by (simp_all add: ks_def)
  have len: "length ks = card (set ids)" using ks distinct_card by fastforce
  have "card (set ids) \<le> length ids" by (rule card_length)
  then have n: "int32 ?n = ?n" using assms(7) by (simp add: len swrap_id in_int_def)
  have m: "wf_map m" "nonneg m" using assms(2) by (simp_all add: bc_inv_def m_def)
  then have m0: "0 \<le> perm_total m" by (rule total_nonneg)
  have mk: "0 \<le> vget m k" "vget m k \<le> perm_total m" for k
    using m vget_le_total [OF m] by (simp_all add: nonneg_def)
  have d: "int32 ?d = ?d" using assms(3,6) m0 by (simp add: swrap_id in_int_def m_def)
  have pos: "0 < ?n" using assms(1) n by (cases ks) (simp_all add: counterInitOp_def ks_def [symmetric] Let_def split: if_splits)
  let ?q = "?d div ?n" and ?r = "?d mod ?n"
  let ?p = "init_split ?q ?r 0 ks m"
  have c: "c = c0\<lparr>limit := (if compEq then bound else int32 (bound + 1)), bc_value := v, permissions := ?p\<rparr>"
    using assms(1,3) pos n d
    by (simp add: counterInitOp_def ks_def [symmetric] m_def Let_def go_quot_nonneg go_rem_nonneg split: if_splits)
  have q: "0 \<le> ?q" using assms(3) pos by (simp add: pos_imp_zdiv_nonneg_iff)
  have qd: "?q \<le> ?d" using assms(3) pos by (smt (verit) div_by_1 zdiv_mono2)
  then have q1: "in_int 32 (?q + 1)" using q assms(6) m0 by (simp add: in_int_def m_def)
  have mq: "\<forall>k \<in> set ks. 0 \<le> vget m k \<and> in_int 32 (vget m k + (?q + 1))"
  proof (intro ballI conjI)
    fix k
    have "0 \<le> vget m k + (?q + 1)" "vget m k + (?q + 1) \<le> perm_total m + ?d + 1" using mk [of k] q qd by linarith+
    then show "in_int 32 (vget m k + (?q + 1))" using assms(6) by (simp add: in_int_def m_def)
  qed (rule mk)
  have r: "0 \<le> ?r" "?r < ?n" using pos by simp_all
  note props = init_split_props [OF ks(1) q q1 mq m(1), of ?r 0]
  have P: "wf_map ?p" "\<forall>k. vget ?p k - vget m k \<in> (if k \<in> set ks then {?q, ?q + 1} else {0})"
      "perm_total ?p = perm_total m + ?q * ?n + ?r"
    subgoal using props by blast
    subgoal using props by (metis (no_types, lifting))
    subgoal using props r by simp
    done
  have "0 \<le> vget ?p k" for k
    using spec [OF P(2), of k] q mk(1) [of k] by (auto split: if_splits)
  then have "nonneg ?p" by (simp add: nonneg_def)
  moreover have t: "perm_total ?p = perm_total m + ?d" using P(3) by simp
  moreover have "in_int 32 (perm_total m + ?d)" using assms(3,6) m0 by (simp add: in_int_def m_def)
  moreover have "ids \<noteq> []" using pos len by auto
  moreover have "\<forall>k \<in> set ids. vget ?p k - vget m k - ?q \<in> {0, 1}"
  proof
    fix k
    assume "k \<in> set ids"
    then have "vget ?p k - vget m k \<in> {?q, ?q + 1}" using spec [OF P(2), of k] ks(2) by simp
    then show "vget ?p k - vget m k - ?q \<in> {0, 1}" by auto
  qed
  ultimately show ?thesis
    using assms(4,5) P(1) t by (simp add: c bc_inv_def len [symmetric] m_def [symmetric])
qed

section \<open>Reachable counters\<close>

lemma BC_Initialize_inv: "bc_inv 0 (BC_Initialize ids r) \<and> perm_total (permissions (BC_Initialize ids r)) = 0"
proof -
  have "wf_map (permissions (BC_Initialize ids r))" "\<forall>k. vget (permissions (BC_Initialize ids r)) k = 0"
    using initial_permissions [of ids r] by auto
  moreover from this have "perm_total (permissions (BC_Initialize ids r)) = 0" by (rule total_zero)
  moreover have "bc_value (BC_Initialize ids r) = 0" by (simp add: BC_Initialize_def)
  ultimately show ?thesis by (simp add: bc_inv_def nonneg_def in_int_def)
qed

text \<open>
  The counters a replica can have: new ones, and what setting the bound any number of times
  and the other operations, local or replicated, make of them. The second argument is the
  bound in force. The third counts the permissions that were already given out when that
  bound was set: the code adds the new ones to them, so nothing backs them any more.
\<close>

inductive bc_reach :: "int list \<Rightarrow> int \<Rightarrow> int \<Rightarrow> BoundedCounterCrdt \<Rightarrow> bool" for ids :: "int list" where
  fresh: "bc_reach ids 0 0 (BC_Initialize ids r)"
| bounded: "bc_reach ids b surplus c \<Longrightarrow>
     BC_applyDownstream ids c (DownSetCounterBound bound compEq v) = Inr (c', rep) \<Longrightarrow>
     bound \<le> v \<Longrightarrow> in_int 32 v \<Longrightarrow> in_int 32 (bound - perm_total (permissions c)) \<Longrightarrow>
     in_int 32 (perm_total (permissions c) + (v - bound) + 1) \<Longrightarrow> length ids < 2 ^ 31 \<Longrightarrow>
     bc_reach ids bound (perm_total (permissions c)) c'"
| step: "bc_reach ids bound surplus c \<Longrightarrow> bc_ok c u \<Longrightarrow> BC_applyDownstream ids c u = Inr (c', rep) \<Longrightarrow>
     bc_reach ids bound surplus c'"

inductive_cases bc_reachE: "bc_reach ids bound surplus c"

lemma bc_reach_inv: "bc_reach ids bound surplus c \<Longrightarrow> bc_inv (bound - surplus) c \<and> 0 \<le> surplus"
proof (induction rule: bc_reach.induct)
  case (fresh r)
  show ?case using BC_Initialize_inv by simp
next
  case (bounded b surplus c bound compEq v c' rep)
  then have "counterInitOp ids bound compEq v c = Inr c'"
    by (cases "counterInitOp ids bound compEq v c") auto
  from counterInitOp_inv [OF this] bounded have "bc_inv (bound - perm_total (permissions c)) c'" by blast
  moreover have "0 \<le> perm_total (permissions c)" using bounded.IH by (simp add: bc_inv_def total_nonneg)
  ultimately show ?case ..
next
  case (step bound surplus c u c' rep)
  then show ?case by (blast intro: bc_step_inv)
qed

text \<open>
  C11. What the bounded counter guarantees. Take any counter reached by increments, decrements
  and transfers of amounts that are not negative, transfers of other replicas' permissions
  being covered by those permissions, and by setting any bound to an initial value that is not
  below it, any number of times, with the numbers involved within 32 bits. Call surplus the
  permissions that existed when the bound in force was set. Then the value is the bound plus
  the permissions of all replicas less the surplus, and no permission is negative; so the
  value never falls below the bound by more than the surplus. A bound set on a counter without permissions
  is therefore kept (the surplus is zero). A bound set on a counter that has permissions need
  not be: setting it leaves as surplus all the permissions there were, and every decrement
  within a replica's permissions is still applied.
\<close>

theorem BC_bound_kept:
  assumes "bc_reach ids bound surplus c"
  shows "bc_value c = bound + perm_total (permissions c) - surplus
    \<and> 0 \<le> vget (permissions c) r \<and> vget (permissions c) r \<le> bc_value c - bound + surplus
    \<and> 0 \<le> surplus \<and> bound - surplus \<le> bc_value c
    \<and> (surplus = 0 \<longrightarrow> bound \<le> bc_value c)
    \<and> (BC_applyDownstream ids c (DownSetCounterBound b compEq v) = Inr (c', rep)
        \<and> b \<le> v \<and> in_int 32 v \<and> in_int 32 (b - perm_total (permissions c))
        \<and> in_int 32 (perm_total (permissions c) + (v - b) + 1) \<and> length ids < 2 ^ 31 \<longrightarrow>
        bc_value c' = v \<and> perm_total (permissions c') - (v - b) = perm_total (permissions c))
    \<and> (0 \<le> x \<and> x \<le> vget (permissions c) r \<longrightarrow>
        bc_value (fst (BC_decrement x r c)) = bc_value c - x \<and> snd (BC_decrement x r c))"
proof -
  have inv: "bc_inv (bound - surplus) c" and s: "0 \<le> surplus" using bc_reach_inv [OF assms] by simp_all
  have t: "0 \<le> perm_total (permissions c)" "vget (permissions c) r \<le> perm_total (permissions c)"
    using inv by (simp_all add: bc_inv_def total_nonneg vget_le_total)
  have v: "bc_value c = bound + perm_total (permissions c) - surplus"
    using inv by (simp add: bc_inv_def)
  have w: "in_int 32 (bc_value c)" "in_int 32 (bound - surplus)" "0 \<le> vget (permissions c) r"
    using inv unfolding bc_inv_def nonneg_def by blast+
  have set: "bc_value c' = v \<and> perm_total (permissions c') - (v - b) = perm_total (permissions c)"
    if "BC_applyDownstream ids c (DownSetCounterBound b compEq v) = Inr (c', rep)
        \<and> b \<le> v \<and> in_int 32 v \<and> in_int 32 (b - perm_total (permissions c))
        \<and> in_int 32 (perm_total (permissions c) + (v - b) + 1) \<and> length ids < 2 ^ 31"
  proof -
    have "counterInitOp ids b compEq v c = Inr c'"
      using that by (cases "counterInitOp ids b compEq v c") auto
    from counterInitOp_inv [OF this inv] that show ?thesis by simp
  qed
  have dec: "bc_value (fst (BC_decrement x r c)) = bc_value c - x \<and> snd (BC_decrement x r c)"
    if "0 \<le> x \<and> x \<le> vget (permissions c) r"
  proof -
    have "in_int 32 (bc_value c - x)"
      using in_int_between [OF w(2,1), of "bc_value c - x"] that v t by linarith
    then show ?thesis using that by (simp add: BC_decrement_def swrap_id)
  qed
  show ?thesis using v w(3) t s set dec by auto
qed

lemma split_10_over_2:
  "counterInitOp [1, 2] 3 True 10 (BC_Initialize [1, 2] 1) =
     Inr \<lparr>permissions = [(1, 4), (2, 3)], decs = [(1, 0), (2, 0)], limit = 3, bc_replicaID = 1, bc_value = 10\<rparr>"
proof -
  have w: "int32 7 = 7" "int32 2 = 2" "int32 4 = 4" "int32 3 = 3" by (simp_all add: swrap_def)
  show ?thesis
    by (simp add: counterInitOp_def BC_Initialize_def NewClockSiTimestamp_def GetSortedKeys_def Let_def
        go_quot_def go_rem_def add_at_def vget_def w)
qed

lemma reach_10_over_2:
  "bc_reach [1, 2] 3 0 \<lparr>permissions = [(1, 4), (2, 3)], decs = [(1, 0), (2, 0)], limit = 3, bc_replicaID = 1, bc_value = 10\<rparr>"
proof -
  have "bc_reach [1, 2] 3 (perm_total (permissions (BC_Initialize [1, 2] 1)))
      \<lparr>permissions = [(1, 4), (2, 3)], decs = [(1, 0), (2, 0)], limit = 3, bc_replicaID = 1, bc_value = 10\<rparr>"
    by (rule bc_reach.bounded [OF bc_reach.fresh, where compEq = True and v = 10 and rep = True])
      (use BC_Initialize_inv [of "[1, 2]" 1] in \<open>simp_all add: split_10_over_2 in_int_def\<close>)
  then show ?thesis using BC_Initialize_inv [of "[1, 2]" 1] by simp
qed

theorem BC_bound_kept_witness:
  "\<exists>c. bc_reach [1, 2] 3 0 c \<and> bc_value c = 10 \<and> vget (permissions c) 1 = 4
    \<and> bc_value (fst (BC_decrement 4 1 c)) = 6 \<and> 3 \<le> bc_value c"
proof -
  let ?c = "\<lparr>permissions = [(1, 4), (2, 3)], decs = [(1, 0), (2, 0)], limit = 3, bc_replicaID = 1, bc_value = 10\<rparr>"
  have "vget (permissions ?c) 1 = 4" by (simp add: vget_def)
  with BC_bound_kept [OF reach_10_over_2, of 1 _ _ _ _ _ 4] reach_10_over_2 show ?thesis
    by (intro exI [of _ ?c]) simp
qed

text \<open>
  What setting the bound and decrementing do. The initial distance to the bound is split
  over all known replicas, evenly up to one, with nothing lost. A decrement is applied and
  replicated exactly when the issuing replica has the permissions for it, otherwise it
  changes nothing and is not replicated; a transfer never changes the value.
\<close>

theorem BC_split_and_guard:
  assumes "counterInitOp ids bound compEq v (BC_Initialize ids r) = Inr c"
    and "bound \<le> v" and "in_int 32 bound" and "in_int 32 v" and "in_int 32 (v - bound + 1)" and "length ids < 2 ^ 31"
    and "bc_reach ids b surplus d"
  shows "perm_total (permissions c) = v - bound
    \<and> (\<forall>k \<in> set ids. vget (permissions c) k - (v - bound) div int (card (set ids)) \<in> {0, 1})
    \<and> (0 \<le> x \<and> x \<le> vget (permissions d) k \<longrightarrow>
         (\<exists>d'. BC_applyDownstream ids d (DownstreamDecBCounter x k) = Inr (d', True)
           \<and> bc_value d' = bc_value d - x \<and> vget (permissions d') k = vget (permissions d) k - x))
    \<and> (vget (permissions d) k < x \<longrightarrow> BC_applyDownstream ids d (DownstreamDecBCounter x k) = Inr (d, False))
    \<and> bc_value (fst (BC_transfer x j k d)) = bc_value d"
proof (intro conjI impI)
  have I: "perm_total (permissions c) = v - bound
      \<and> (\<forall>k \<in> set ids. vget (permissions c) k - (v - bound) div int (card (set ids)) \<in> {0, 1})"
    using counterInitOp_inv [OF assms(1), of 0] assms(2-6) BC_Initialize_inv [of ids r] initial_permissions [of ids r]
    by simp
  then show "perm_total (permissions c) = v - bound" ..
  show "\<forall>k \<in> set ids. vget (permissions c) k - (v - bound) div int (card (set ids)) \<in> {0, 1}" using I ..
  have inv: "bc_inv (b - surplus) d" using bc_reach_inv [OF assms(7)] ..
  {
    assume x: "0 \<le> x \<and> x \<le> vget (permissions d) k"
    have le: "vget (permissions d) k \<le> perm_total (permissions d)"
      using inv by (simp add: bc_inv_def vget_le_total)
    have "in_int 32 (vget (permissions d) k - x)" using permission_range [OF inv] x le by simp
    moreover have "in_int 32 (bc_value d - x)"
      using inv in_int_between [of 32 "b - surplus" "bc_value d" "bc_value d - x"] x le unfolding bc_inv_def by linarith
    ultimately show "\<exists>d'. BC_applyDownstream ids d (DownstreamDecBCounter x k) = Inr (d', True)
        \<and> bc_value d' = bc_value d - x \<and> vget (permissions d') k = vget (permissions d) k - x"
      using x by (simp add: BC_decrement_def vget_add_at swrap_id)
  }
  {
    assume "vget (permissions d) k < x"
    then show "BC_applyDownstream ids d (DownstreamDecBCounter x k) = Inr (d, False)" by (simp add: BC_decrement_def)
  }
  show "bc_value (fst (BC_transfer x j k d)) = bc_value d" by (simp add: BC_transfer_def)
qed

theorem BC_split_and_guard_witness:
  "perm_total (permissions \<lparr>permissions = [(1, 4), (2, 3)], decs = [(1, 0), (2, 0)], limit = 3, bc_replicaID = 1, bc_value = 10\<rparr>) = 7
   \<and> BC_applyDownstream [1, 2] (BC_Initialize [1, 2] 1) (DownstreamDecBCounter 5 2) = Inr (BC_Initialize [1, 2] 1, False)"
proof -
  have "vget (permissions (BC_Initialize [1, 2] 1)) 2 < 5" using initial_permissions [of "[1, 2]" 1 2] by simp
  then show ?thesis
    using BC_split_and_guard [OF split_10_over_2 _ _ _ _ _ bc_reach.fresh, of 5 1 2 1] by (simp add: in_int_def)
qed

text \<open>
  Strict bounds are off by one, and copies lose the permissions. When the bound is to be
  kept strictly, the limit is one above it but the permissions still add up to the distance
  to the bound itself, so one replica can decrement down to the excluded value. A copy has
  no permissions, so it refuses every decrement, and a counter read from a snapshot takes
  replica id zero whatever replica it is on.
\<close>

theorem BC_strict_bound_reached:
  assumes "bound < v" and "in_int 32 bound" and "in_int 32 (bound + 1)" and "in_int 32 v" and "in_int 32 (v - bound + 1)"
  shows "\<exists>c c'. counterInitOp [r] bound False v (BC_Initialize [r] r) = Inr c
    \<and> BC_applyDownstream [r] c (BC_Update c (BC_Decrement (v - bound))) = Inr (c', True)
    \<and> bc_value c' = bound \<and> bc_value c' < limit c'
    \<and> (0 < x \<longrightarrow> BC_applyDownstream [r] (BC_Copy c) (DownstreamDecBCounter x r) = Inr (BC_Copy c, False))
    \<and> bc_replicaID (BC_FromProtoState (BC_ToProtoState c) r) = 0"
proof -
  have w: "int32 (v - bound) = v - bound" "int32 (bound + 1) = bound + 1" "int32 1 = 1" "int32 bound = bound"
    using assms by (simp_all add: swrap_id in_int_def)
  have z: "int32 0 = 0" by (simp add: swrap_def)
  define c where "c = \<lparr>permissions = [(r, v - bound)], decs = [(r, 0)], limit = bound + 1, bc_replicaID = r, bc_value = v\<rparr>"
  have q: "go_quot (v - bound) 1 = v - bound" "go_rem (v - bound) 1 = 0"
    using assms(1) by (simp_all add: go_quot_nonneg go_rem_nonneg)
  have c: "counterInitOp [r] bound False v (BC_Initialize [r] r) = Inr c"
    by (simp add: counterInitOp_def BC_Initialize_def NewClockSiTimestamp_def GetSortedKeys_def Let_def
        q add_at_def vget_def w c_def)
  have d: "BC_applyDownstream [r] c (BC_Update c (BC_Decrement (v - bound))) =
      Inr (c\<lparr>permissions := [(r, 0)], bc_value := bound\<rparr>, True)"
    by (simp add: c_def BC_decrement_def add_at_def vget_def w z)
  have e: "0 < x \<longrightarrow> BC_applyDownstream [r] (BC_Copy c) (DownstreamDecBCounter x r) = Inr (BC_Copy c, False)"
    by (simp add: BC_Copy_def BC_decrement_def vget_def)
  show ?thesis
    by (intro exI [of _ c] exI [of _ "c\<lparr>permissions := [(r, 0)], bc_value := bound\<rparr>"])
      (use c d e in \<open>simp add: BC_FromProtoState_def c_def\<close>)
qed

theorem BC_strict_bound_reached_witness:
  "\<exists>c c'. counterInitOp [4] 0 False 5 (BC_Initialize [4] 4) = Inr c
    \<and> BC_applyDownstream [4] c (BC_Update c (BC_Decrement 5)) = Inr (c', True)
    \<and> bc_value c' = 0 \<and> bc_value c' < limit c'"
  using BC_strict_bound_reached [of 0 5 4 1] by (auto simp: in_int_def)

end
