(* ===== verification/SetAW.thy ===== *)
theory SetAW
  imports UniqueSets "HOL-Library.Finite_Map"
begin

text \<open>
  The add-wins set of \<^verbatim>\<open>crdt/crdt/setAWCrdt.go\<close>: every element has the set of tags its additions
  drew, and a removal removes the tags it saw. The state is a finite map; a loop over it runs
  over \<open>keys_of\<close>, one of the orders the runtime may choose. Maps that are arguments of an
  operation are association lists in their iteration order. The numbers drawn from the random
  source are an argument, a function from the position of the draw.
\<close>

type_synonym Element = string
type_synonym elems_map = "(Element, UniqueSet) fmap"

record SetAWCrdt =
  elems :: elems_map

definition keys_of :: "(string, 'v) fmap \<Rightarrow> string list" where
  "keys_of m = sorted_list_of_fset (fmdom m)"

datatype set_update = Add Element | Remove Element | AddAll "Element list" | RemoveAll "Element list"

datatype set_op = DownstreamAddAll "(Element \<times> Unique) list"
  | DownstreamRemoveAll "(Element \<times> UniqueSet) list" | Set_NoOp

datatype set_effect = AddAllEffect "(Element \<times> Unique) list"
  | RemoveAllEffect "(Element \<times> UniqueSet) list"

definition SetAW_Initialize :: SetAWCrdt where
  "SetAW_Initialize = \<lparr>elems = fmempty\<rparr>"

section \<open>Reads\<close>

text \<open>The two branches that record an element of a pending update, going backwards.\<close>

fun pend_add :: "Element fset \<times> Element fset \<Rightarrow> Element \<Rightarrow> Element fset \<times> Element fset" where
  "pend_add (adds, rems) e = (if e |\<in>| rems then (adds, rems) else (finsert e adds, rems))"

fun pend_rem :: "Element fset \<times> Element fset \<Rightarrow> Element \<Rightarrow> Element fset \<times> Element fset" where
  "pend_rem (adds, rems) e = (if e |\<in>| adds then (adds, rems) else (adds, finsert e rems))"

fun pend_step :: "Element fset \<times> Element fset \<Rightarrow> set_update \<Rightarrow> Element fset \<times> Element fset" where
  "pend_step ar (Add e) = pend_add ar e"
| "pend_step ar (AddAll es) = foldl pend_add ar es"
| "pend_step ar (Remove e) = pend_rem ar e"
| "pend_step ar (RemoveAll es) = foldl pend_rem ar es"

definition SetAW_getState :: "SetAWCrdt \<Rightarrow> set_update list \<Rightarrow> Element list" where
  "SetAW_getState c updsNotYetApplied =
     (if updsNotYetApplied = [] then keys_of (elems c)
      else case foldl pend_step ({||}, {||}) (rev updsNotYetApplied) of (adds, rems) \<Rightarrow>
        filter (\<lambda>e. e |\<notin>| rems) (keys_of (elems c))
        @ filter (\<lambda>e. fmlookup (elems c) e = None) (sorted_list_of_fset adds))"

definition SetAW_getNElements :: "SetAWCrdt \<Rightarrow> set_update list \<Rightarrow> nat" where
  "SetAW_getNElements c updsNotYetApplied =
     (if updsNotYetApplied = [] then fcard (fmdom (elems c))
      else length (SetAW_getState c updsNotYetApplied))"

text \<open>The backwards loop of \<open>lookup\<close> returns at the first update that names the element.\<close>

fun lookup_loop :: "Element \<Rightarrow> bool \<Rightarrow> set_update list \<Rightarrow> bool" where
  "lookup_loop elem hasElem [] = hasElem"
| "lookup_loop elem hasElem (Add e # upds) = (if e = elem then True else lookup_loop elem hasElem upds)"
| "lookup_loop elem hasElem (AddAll es # upds) = (if elem \<in> set es then True else lookup_loop elem hasElem upds)"
| "lookup_loop elem hasElem (Remove e # upds) = (if e = elem then False else lookup_loop elem hasElem upds)"
| "lookup_loop elem hasElem (RemoveAll es # upds) = (if elem \<in> set es then False else lookup_loop elem hasElem upds)"

definition SetAW_lookup :: "SetAWCrdt \<Rightarrow> Element \<Rightarrow> set_update list \<Rightarrow> bool" where
  "SetAW_lookup c elem updsNotYetApplied =
     (let hasElem = (fmlookup (elems c) elem \<noteq> None)
      in if updsNotYetApplied = [] then hasElem else lookup_loop elem hasElem (rev updsNotYetApplied))"

section \<open>Updates\<close>

text \<open>A repeated element keeps the tag drawn last.\<close>

primrec getAddAll_loop :: "(nat \<Rightarrow> Unique) \<Rightarrow> nat \<Rightarrow> Element list \<Rightarrow> (Element \<times> Unique) list \<Rightarrow> (Element \<times> Unique) list" where
  "getAddAll_loop rnd i [] m = m"
| "getAddAll_loop rnd i (e # es) m = getAddAll_loop rnd (Suc i) es (mput e (rnd i) m)"

definition getAddAllDownstreamArgs :: "(nat \<Rightarrow> Unique) \<Rightarrow> Element list \<Rightarrow> set_op" where
  "getAddAllDownstreamArgs rnd es = DownstreamAddAll (getAddAll_loop rnd 0 es [])"

primrec getRemoveAll_loop :: "elems_map \<Rightarrow> Element list \<Rightarrow> (Element \<times> UniqueSet) list \<Rightarrow> (Element \<times> UniqueSet) list" where
  "getRemoveAll_loop s [] m = m"
| "getRemoveAll_loop s (e # es) m = getRemoveAll_loop s es
     (case fmlookup s e of Some us \<Rightarrow> mput e (uset_copy us) m | None \<Rightarrow> m)"

definition getRemoveAllDownstreamArgs :: "SetAWCrdt \<Rightarrow> Element list \<Rightarrow> set_op" where
  "getRemoveAllDownstreamArgs c es =
     (let m = getRemoveAll_loop (elems c) es [] in if m = [] then Set_NoOp else DownstreamRemoveAll m)"

fun SetAW_Update :: "(nat \<Rightarrow> Unique) \<Rightarrow> SetAWCrdt \<Rightarrow> set_update \<Rightarrow> set_op" where
  "SetAW_Update rnd c (Add e) = getAddAllDownstreamArgs rnd [e]"
| "SetAW_Update rnd c (Remove e) = getRemoveAllDownstreamArgs c [e]"
| "SetAW_Update rnd c (AddAll es) = getAddAllDownstreamArgs rnd es"
| "SetAW_Update rnd c (RemoveAll es) = getRemoveAllDownstreamArgs c es"

section \<open>Downstream operations\<close>

fun add_one :: "elems_map \<Rightarrow> Element \<times> Unique \<Rightarrow> elems_map" where
  "add_one s (key, newUnique) = (case fmlookup s key of
      Some existingUniques \<Rightarrow> fmupd key (uset_add existingUniques newUnique) s
    | None \<Rightarrow> fmupd key (uset_add {||} newUnique) s)"

definition applyAddAll :: "SetAWCrdt \<Rightarrow> (Element \<times> Unique) list \<Rightarrow> SetAWCrdt \<times> set_effect effect" where
  "applyAddAll c toAdd = (\<lparr>elems = foldl add_one (elems c) toAdd\<rparr>, Eff (AddAllEffect toAdd))"

fun rem_one ::
    "elems_map \<times> (Element \<times> UniqueSet) list \<Rightarrow> Element \<times> UniqueSet \<Rightarrow> elems_map \<times> (Element \<times> UniqueSet) list" where
  "rem_one (s, removedMap) (key, uniquesToRem) = (case fmlookup s key of
      Some existingUniques \<Rightarrow>
        (case getAndRemoveIntersection existingUniques uniquesToRem of (rest, removed) \<Rightarrow>
           (if fcard rest = 0 then fmdrop key s else fmupd key rest s, mput key removed removedMap))
    | None \<Rightarrow> (s, removedMap))"

definition applyRemoveAll :: "SetAWCrdt \<Rightarrow> (Element \<times> UniqueSet) list \<Rightarrow> SetAWCrdt \<times> set_effect effect" where
  "applyRemoveAll c toRem = (case foldl rem_one (elems c, []) toRem of (s, removedMap) \<Rightarrow>
     (\<lparr>elems = s\<rparr>, Eff (RemoveAllEffect removedMap)))"

text \<open>For a \<open>NoOp\<close> the returned effect pointer is nil.\<close>

fun SetAW_applyDownstream :: "SetAWCrdt \<Rightarrow> set_op \<Rightarrow> SetAWCrdt \<times> set_effect effect" where
  "SetAW_applyDownstream c (DownstreamAddAll toAdd) = applyAddAll c toAdd"
| "SetAW_applyDownstream c (DownstreamRemoveAll toRem) = applyRemoveAll c toRem"
| "SetAW_applyDownstream c Set_NoOp = (c, NilEffect)"

definition SetAW_Downstream ::
    "bool \<Rightarrow> (set_op, set_effect effect) History list \<times> SetAWCrdt \<Rightarrow> ClockSiTimestamp \<Rightarrow> set_op
       \<Rightarrow> (set_op, set_effect effect) History list \<times> SetAWCrdt" where
  "SetAW_Downstream vmDisabled c updTs downstreamArgs = (case c of (history, v) \<Rightarrow>
     (case SetAW_applyDownstream v downstreamArgs of (v', effect) \<Rightarrow>
        (addToHistory vmDisabled history updTs downstreamArgs effect, v')))"

definition SetAW_Copy :: "SetAWCrdt \<Rightarrow> SetAWCrdt" where
  "SetAW_Copy c = \<lparr>elems = foldl (\<lambda>m e. case fmlookup (elems c) e of
     Some us \<Rightarrow> fmupd e (uset_copy us) m | None \<Rightarrow> m) fmempty (keys_of (elems c))\<rparr>"

fun undoAdd_one :: "elems_map \<Rightarrow> Element \<times> Unique \<Rightarrow> elems_map" where
  "undoAdd_one s (key, uniqueToRem) = (case fmlookup s key of
      Some existingUniques \<Rightarrow>
        (let rest = existingUniques |-| {|uniqueToRem|}
         in if fcard rest = 0 then fmdrop key s else fmupd key rest s)
    | None \<Rightarrow> s)"

fun undoRemove_one :: "elems_map \<Rightarrow> Element \<times> UniqueSet \<Rightarrow> elems_map" where
  "undoRemove_one s (key, uniquesToAdd) = (case fmlookup s key of
      Some existingUniques \<Rightarrow> fmupd key (uset_addAll existingUniques uniquesToAdd) s
    | None \<Rightarrow> fmupd key (uset_addAll {||} uniquesToAdd) s)"

fun SetAW_undoEffect :: "SetAWCrdt \<Rightarrow> set_effect effect \<Rightarrow> SetAWCrdt go" where
  "SetAW_undoEffect c (Eff (AddAllEffect addedMap)) = Inr \<lparr>elems = foldl undoAdd_one (elems c) addedMap\<rparr>"
| "SetAW_undoEffect c (Eff (RemoveAllEffect removedMap)) = Inr \<lparr>elems = foldl undoRemove_one (elems c) removedMap\<rparr>"
| "SetAW_undoEffect c NoEffect = Inr c"
| "SetAW_undoEffect c NilEffect = Inl NilDereference"

definition SetAW_reapplyOp :: "SetAWCrdt \<Rightarrow> set_op \<Rightarrow> (SetAWCrdt \<times> set_effect effect) go" where
  "SetAW_reapplyOp c updArgs = Inr (SetAW_applyDownstream c updArgs)"

section \<open>Messages\<close>

text \<open>A client message has an operation type and two lists; the receiver always builds the bulk form.\<close>

fun SetAW_ToUpdateObject :: "set_update \<Rightarrow> bool \<times> Element list" where
  "SetAW_ToUpdateObject (Add e) = (True, [e])"
| "SetAW_ToUpdateObject (AddAll es) = (True, es)"
| "SetAW_ToUpdateObject (Remove e) = (False, [e])"
| "SetAW_ToUpdateObject (RemoveAll es) = (False, es)"

fun updateSetProtoToAntidoteUpdate :: "bool \<times> Element list \<Rightarrow> set_update" where
  "updateSetProtoToAntidoteUpdate (True, es) = AddAll es"
| "updateSetProtoToAntidoteUpdate (False, es) = RemoveAll es"

text \<open>The replicator message; a message whose list of additions is empty is read as a removal.\<close>

record ProtoSetDownstream =
  pb_Adds :: "(Element \<times> nat) list"
  pb_Rems :: "(Element \<times> nat list) list"

fun SetAW_ToReplicatorObj :: "set_op \<Rightarrow> ProtoSetDownstream option" where
  "SetAW_ToReplicatorObj (DownstreamAddAll m) = Some \<lparr>pb_Adds = m, pb_Rems = []\<rparr>"
| "SetAW_ToReplicatorObj (DownstreamRemoveAll m) =
     Some \<lparr>pb_Adds = [], pb_Rems = map (\<lambda>(e, us). (e, UniqueSetToUInt64Array us)) m\<rparr>"
| "SetAW_ToReplicatorObj Set_NoOp = None"

definition downstreamProtoSetToAntidoteDownstream :: "ProtoSetDownstream \<Rightarrow> set_op" where
  "downstreamProtoSetToAntidoteDownstream pb =
     (if pb_Adds pb \<noteq> [] then DownstreamAddAll (foldl (\<lambda>m (e, u). mput e u m) [] (pb_Adds pb))
      else DownstreamRemoveAll (foldl (\<lambda>m (e, us). mput e (UInt64ArrayToUniqueSet us) m) [] (pb_Rems pb)))"

definition SetAW_ToProtoState :: "SetAWCrdt \<Rightarrow> (Element \<times> nat list) list" where
  "SetAW_ToProtoState c = map (\<lambda>e. (e, case fmlookup (elems c) e of
     Some us \<Rightarrow> UniqueSetToUInt64Array us | None \<Rightarrow> [])) (keys_of (elems c))"

definition SetAW_FromProtoState :: "(Element \<times> nat list) list \<Rightarrow> SetAWCrdt" where
  "SetAW_FromProtoState pb = \<lparr>elems = foldl (\<lambda>m (e, us). fmupd e (UInt64ArrayToUniqueSet us) m) fmempty pb\<rparr>"

section \<open>The loops, element by element\<close>

lemma set_keys_of [simp]: "set (keys_of m) = fset (fmdom m)"
  by (simp add: keys_of_def)

lemma distinct_keys_of [simp]: "distinct (keys_of m)"
  by (simp add: keys_of_def sorted_list_of_fset.rep_eq)

lemma length_keys_of [simp]: "length (keys_of m) = card (fset (fmdom m))"
  using distinct_card [OF distinct_keys_of, of m] by simp

lemma in_fmdom_iff: "e |\<in>| fmdom m \<longleftrightarrow> fmlookup m e \<noteq> None"
  by (auto simp: fmlookup_dom_iff)

lemma fcard_eq_0: "fcard s = 0 \<longleftrightarrow> s = {||}"
  by simp

text \<open>Additions of an element in an argument map.\<close>

definition tags_of :: "elems_map \<Rightarrow> Element \<Rightarrow> UniqueSet" where
  "tags_of s e = (case fmlookup s e of Some us \<Rightarrow> us | None \<Rightarrow> {||})"

lemma tags_add: "fset (tags_of (foldl add_one s m) e) = fset (tags_of s e) \<union> {u. (e, u) \<in> set m}"
proof (induction m arbitrary: s)
  case (Cons p m)
  obtain k u where p: "p = (k, u)" by (cases p)
  have "fset (tags_of (add_one s p) e) = fset (tags_of s e) \<union> (if k = e then {u} else {})"
    by (auto simp: p tags_of_def uset_add_def split: option.splits)
  then show ?case by (auto simp: Cons.IH p)
qed simp

lemma tags_undoAdd: "fset (tags_of (foldl undoAdd_one s m) e) = fset (tags_of s e) - {u. (e, u) \<in> set m}"
proof (induction m arbitrary: s)
  case (Cons p m)
  obtain k u where p: "p = (k, u)" by (cases p)
  have "fset (tags_of (undoAdd_one s p) e) = fset (tags_of s e) - (if k = e then {u} else {})"
    by (auto simp: p tags_of_def Let_def split: option.splits)
  then show ?case by (auto simp: Cons.IH p)
qed simp

lemma tags_rem: "fset (tags_of (fst (foldl rem_one (s, r) m)) e) = fset (tags_of s e) - {u. \<exists>us. (e, us) \<in> set m \<and> u |\<in>| us}"
proof (induction m arbitrary: s r)
  case (Cons p m)
  obtain k us where p: "p = (k, us)" by (cases p)
  obtain s' r' where s: "rem_one (s, r) p = (s', r')" by (metis surj_pair)
  have "fset (tags_of s' e) = fset (tags_of s e) - (if k = e then fset us else {})"
    using s by (auto simp: p tags_of_def split: option.splits if_splits)
  moreover have "foldl rem_one (s, r) (p # m) = foldl rem_one (s', r') m" by (simp add: s)
  ultimately show ?case using Cons.IH [of s' r'] by (auto simp: p simp del: foldl.simps rem_one.simps)
qed simp

lemma tags_undoRemove:
  "fset (tags_of (foldl undoRemove_one s m) e) = fset (tags_of s e) \<union> {u. \<exists>us. (e, us) \<in> set m \<and> u |\<in>| us}"
proof (induction m arbitrary: s)
  case (Cons p m)
  obtain k us where p: "p = (k, us)" by (cases p)
  have "fset (tags_of (undoRemove_one s p) e) = fset (tags_of s e) \<union> (if k = e then fset us else {})"
    by (auto simp: p tags_of_def split: option.splits)
  then show ?case by (auto simp: Cons.IH p)
qed simp

text \<open>No element is stored without a tag; then the tags determine the state.\<close>

definition no_empty :: "elems_map \<Rightarrow> bool" where
  "no_empty s \<longleftrightarrow> (\<forall>e. fmlookup s e \<noteq> Some {||})"

lemma tags_determine:
  assumes "no_empty s" and "no_empty t" and "\<And>e. tags_of s e = tags_of t e"
  shows "s = t"
proof (rule fmap_ext)
  fix e
  show "fmlookup s e = fmlookup t e"
    using assms(1,2) assms(3) [of e] by (auto simp: no_empty_def tags_of_def split: option.splits)
qed

lemma no_empty_add: "no_empty s \<Longrightarrow> no_empty (foldl add_one s m)"
proof (induction m arbitrary: s)
  case (Cons p m)
  have "no_empty (add_one s p)" using Cons.prems
    by (cases p) (auto simp: no_empty_def uset_add_def split: option.splits)
  then show ?case using Cons.IH by simp
qed simp

lemma no_empty_rem: "no_empty s \<Longrightarrow> no_empty (fst (foldl rem_one (s, r) m))"
proof (induction m arbitrary: s r)
  case (Cons p m)
  have "no_empty (fst (rem_one (s, r) p))" using Cons.prems
    by (cases p) (auto simp: no_empty_def split: option.splits)
  then show ?case using Cons.IH by (cases "rem_one (s, r) p") simp
qed simp

lemma no_empty_undoAdd: "no_empty s \<Longrightarrow> no_empty (foldl undoAdd_one s m)"
proof (induction m arbitrary: s)
  case (Cons p m)
  have "no_empty (undoAdd_one s p)" using Cons.prems
    by (cases p) (auto simp: no_empty_def Let_def split: option.splits)
  then show ?case using Cons.IH by simp
qed simp

section \<open>Contracts\<close>

text \<open>A set contains pairs of an element and a tag.\<close>

definition set_cont :: "SetAWCrdt \<Rightarrow> (Element \<times> Unique) set" where
  "set_cont c = {(e, u). u |\<in>| tags_of (elems c) e}"

fun set_adds :: "set_op \<Rightarrow> (Element \<times> Unique) set" where
  "set_adds (DownstreamAddAll m) = set m"
| "set_adds (DownstreamRemoveAll m) = {}"
| "set_adds Set_NoOp = {}"

fun set_rems :: "set_op \<Rightarrow> (Element \<times> Unique) set" where
  "set_rems (DownstreamAddAll m) = {}"
| "set_rems (DownstreamRemoveAll m) = {(e, u). \<exists>us. (e, us) \<in> set m \<and> u |\<in>| us}"
| "set_rems Set_NoOp = {}"

lemma fst_applyRemoveAll: "fst (applyRemoveAll c m) = \<lparr>elems = fst (foldl rem_one (elems c, []) m)\<rparr>"
  by (simp add: applyRemoveAll_def split: prod.split)

interpretation setaw: observed_remove SetAW_applyDownstream set_cont set_adds set_rems "\<lambda>c. no_empty (elems c)"
proof
  fix c :: SetAWCrdt and u
  assume inv: "no_empty (elems c)"
  show "set_cont (fst (SetAW_applyDownstream c u)) = set_cont c - set_rems u \<union> set_adds u"
    by (cases u) (auto simp: set_cont_def applyAddAll_def fst_applyRemoveAll tags_add tags_rem)
  show "no_empty (elems (fst (SetAW_applyDownstream c u)))"
    using inv by (cases u) (simp_all add: applyAddAll_def fst_applyRemoveAll no_empty_add no_empty_rem)
next
  fix u
  show "set_adds u \<inter> set_rems u = {}" by (cases u) simp_all
qed

lemma lookup_cont: "no_empty (elems c) \<Longrightarrow> SetAW_lookup c e [] \<longleftrightarrow> (\<exists>u. (e, u) \<in> set_cont c)"
  by (auto simp: SetAW_lookup_def set_cont_def tags_of_def no_empty_def split: option.splits)
    (metis bot_fset.rep_eq equals0I fset_inverse)

lemma no_empty_initial: "no_empty (elems SetAW_Initialize)"
  by (simp add: SetAW_Initialize_def no_empty_def)

lemma getState_lookup: "set (SetAW_getState c []) = {e. SetAW_lookup c e []}"
  by (auto simp: SetAW_getState_def SetAW_lookup_def in_fmdom_iff fmlookup_dom_iff)

text \<open>
  C12. Add wins: after any operations delivered in an order in which a removal comes after the
  additions whose tags it saw, an element is in the set exactly when some addition of it was
  not seen by any removal. So replicas that applied the same operations agree, in any such
  order. The full read lists the elements once each and the count is their number.
\<close>

theorem SetAW_add_wins:
  assumes "causal_order (observed_by set_adds set_rems) us" and "c = run SetAW_applyDownstream SetAW_Initialize us"
  shows "SetAW_lookup c e [] =
      (\<exists>u. (\<exists>op \<in> set us. (e, u) \<in> set_adds op) \<and> \<not> (\<exists>op \<in> set us. (e, u) \<in> set_rems op))
    \<and> set (SetAW_getState c []) = {e. SetAW_lookup c e []} \<and> distinct (SetAW_getState c [])
    \<and> SetAW_getNElements c [] = length (SetAW_getState c [])"
proof (intro conjI)
  have ne: "no_empty (elems c)" using setaw.inv_run [OF no_empty_initial] by (simp add: assms(2))
  have "set_cont SetAW_Initialize = {}" by (simp add: set_cont_def SetAW_Initialize_def tags_of_def)
  then have "set_cont c = (\<Union>u \<in> set us. set_adds u) - (\<Union>u \<in> set us. set_rems u)"
    using setaw.content_run [OF assms(1) no_empty_initial] by (simp add: assms(2))
  then show "SetAW_lookup c e [] =
      (\<exists>u. (\<exists>op \<in> set us. (e, u) \<in> set_adds op) \<and> \<not> (\<exists>op \<in> set us. (e, u) \<in> set_rems op))"
    by (simp add: lookup_cont [OF ne])
  show "set (SetAW_getState c []) = {e. SetAW_lookup c e []}" by (rule getState_lookup)
  show "distinct (SetAW_getState c [])" by (simp add: SetAW_getState_def)
  show "SetAW_getNElements c [] = length (SetAW_getState c [])"
    by (simp add: SetAW_getNElements_def SetAW_getState_def fcard.rep_eq)
qed

theorem SetAW_add_wins_witness:
  "SetAW_lookup (run SetAW_applyDownstream SetAW_Initialize
     [DownstreamAddAll [(''a'', 1), (''b'', 2)], DownstreamAddAll [(''a'', 3)], DownstreamRemoveAll [(''a'', {|1|}), (''b'', {|2|})]])
     ''a'' [] = True"
proof -
  let ?us = "[DownstreamAddAll [(''a'', 1), (''b'', 2)], DownstreamAddAll [(''a'', 3)], DownstreamRemoveAll [(''a'', {|1|}), (''b'', {|2|})]]"
  have "causal_order (observed_by set_adds set_rems) ?us" by (simp add: causal_order_def observed_by_def)
  from SetAW_add_wins [OF this refl, of "''a''"]
  have "SetAW_lookup (run SetAW_applyDownstream SetAW_Initialize ?us) ''a'' [] =
      (\<exists>u. (\<exists>op \<in> set ?us. (''a'', u) \<in> set_adds op) \<and> \<not> (\<exists>op \<in> set ?us. (''a'', u) \<in> set_rems op))" by blast
  moreover have "(\<exists>op \<in> set ?us. (''a'', 3) \<in> set_adds op) \<and> \<not> (\<exists>op \<in> set ?us. (''a'', 3) \<in> set_rems op)" by simp
  ultimately show ?thesis by blast
qed

section \<open>Pending updates\<close>

text \<open>The reference: the pending updates applied one after the other to the elements.\<close>

fun elements_after :: "Element set \<Rightarrow> set_update \<Rightarrow> Element set" where
  "elements_after s (Add e) = insert e s"
| "elements_after s (AddAll es) = s \<union> set es"
| "elements_after s (Remove e) = s - {e}"
| "elements_after s (RemoveAll es) = s - set es"

lemma foldl_pend_add:
  "foldl pend_add (a, r) es = (a', r') \<Longrightarrow> r' = r \<and> fset a' = fset a \<union> (set es - fset r)"
  by (induction es arbitrary: a) (auto split: if_splits)

lemma foldl_pend_rem:
  "foldl pend_rem (a, r) es = (a', r') \<Longrightarrow> a' = a \<and> fset r' = fset r \<union> (set es - fset a)"
  by (induction es arbitrary: r) (auto split: if_splits)

lemma pend_step_effect:
  assumes "pend_step (a, r) u = (a', r')"
  shows "x \<in> fset a' \<or> (x \<in> s \<and> x \<notin> fset r') \<longleftrightarrow> x \<in> fset a \<or> (x \<in> elements_after s u \<and> x \<notin> fset r)"
proof (cases u)
  case (AddAll es)
  with assms foldl_pend_add [of a r es a' r'] show ?thesis by auto
next
  case (RemoveAll es)
  with assms foldl_pend_rem [of a r es a' r'] show ?thesis by auto
qed (use assms in \<open>auto split: if_splits\<close>)

lemma pending_spec:
  "foldl pend_step ({||}, {||}) (rev us) = (a, r) \<Longrightarrow>
     x \<in> foldl elements_after s us \<longleftrightarrow> x \<in> fset a \<or> (x \<in> s \<and> x \<notin> fset r)"
proof (induction us arbitrary: s a r)
  case (Cons u us)
  obtain a1 r1 where 1: "foldl pend_step ({||}, {||}) (rev us) = (a1, r1)" by (metis surj_pair)
  with Cons.prems have "pend_step (a1, r1) u = (a, r)" by simp
  from pend_step_effect [OF this, of x s] Cons.IH [OF 1, of "elements_after s u"] show ?case by simp
qed simp

lemma pending_disjoint:
  "foldl pend_step ({||}, {||}) us = (a, r) \<Longrightarrow> fset a \<inter> fset r = {}"
proof (induction us arbitrary: a r rule: rev_induct)
  case (snoc u us)
  obtain a1 r1 where 1: "foldl pend_step ({||}, {||}) us = (a1, r1)" by (metis surj_pair)
  with snoc have d: "fset a1 \<inter> fset r1 = {}" and s: "pend_step (a1, r1) u = (a, r)" by auto
  show ?case
  proof (cases u)
    case (AddAll es)
    with s d foldl_pend_add [of a1 r1 es a r] show ?thesis by auto
  next
    case (RemoveAll es)
    with s d foldl_pend_rem [of a1 r1 es a r] show ?thesis by auto
  qed (use s d in \<open>auto split: if_splits\<close>)
qed simp

lemma set_getState_pending:
  "set (SetAW_getState c us) = foldl elements_after {e. SetAW_lookup c e []} us"
proof (cases "us = []")
  case True
  then show ?thesis by (simp add: getState_lookup)
next
  case False
  obtain a r where ar: "foldl pend_step ({||}, {||}) (rev us) = (a, r)" by (metis surj_pair)
  have d: "fset a \<inter> fset r = {}" using pending_disjoint [OF ar] .
  have "set (SetAW_getState c us) = {e. SetAW_lookup c e [] \<and> e |\<notin>| r} \<union> {e. e |\<in>| a \<and> \<not> SetAW_lookup c e []}"
    using False by (auto simp: SetAW_getState_def ar SetAW_lookup_def in_fmdom_iff fmlookup_dom_iff)
  also have "\<dots> = foldl elements_after {e. SetAW_lookup c e []} us"
    using d by (auto simp: pending_spec [OF ar])
  finally show ?thesis .
qed

lemma lookup_loop_spec: "lookup_loop e (e \<in> s) (rev us) \<longleftrightarrow> e \<in> foldl elements_after s us"
proof (induction us rule: rev_induct)
  case (snoc u us)
  then show ?case by (cases u) auto
qed simp

lemma lookup_pending: "SetAW_lookup c e us \<longleftrightarrow> e \<in> foldl elements_after {e. SetAW_lookup c e []} us"
  using lookup_loop_spec [of e "{e. SetAW_lookup c e []}" us]
  by (cases "us = []") (simp_all add: SetAW_lookup_def)

lemma distinct_getState: "distinct (SetAW_getState c us)"
proof -
  obtain a r where ar: "foldl pend_step ({||}, {||}) (rev us) = (a, r)" by (metis surj_pair)
  have "distinct (sorted_list_of_fset a)" by (simp add: sorted_list_of_fset.rep_eq)
  then show ?thesis by (auto simp: SetAW_getState_def ar in_fmdom_iff fmlookup_dom_iff)
qed

text \<open>What applying a local update does to the elements.\<close>

lemma getAddAll_keys: "fst ` set (getAddAll_loop rnd i es m) = set es \<union> fst ` set m"
  by (induction es arbitrary: i m) (auto simp: keys_mput)

lemma getRemoveAll_get:
  "map_of (getRemoveAll_loop s es m) e = (if e \<in> set es \<and> fmlookup s e \<noteq> None then fmlookup s e else map_of m e)"
  by (induction es arbitrary: m) (auto simp: map_of_mput split: option.split)

lemma getRemoveAll_wf: "wf_map m \<Longrightarrow> wf_map (getRemoveAll_loop s es m)"
  by (induction es arbitrary: m) (auto split: option.split)

lemma lookup_tags: "no_empty (elems c) \<Longrightarrow> SetAW_lookup c e [] \<longleftrightarrow> fset (tags_of (elems c) e) \<noteq> {}"
  using lookup_cont [of c e] by (auto simp: set_cont_def)

lemma apply_add_elements:
  assumes "no_empty (elems c)"
  shows "SetAW_lookup (fst (SetAW_applyDownstream c (getAddAllDownstreamArgs rnd es))) e [] \<longleftrightarrow> SetAW_lookup c e [] \<or> e \<in> set es"
proof -
  let ?m = "getAddAll_loop rnd 0 es []"
  have "no_empty (foldl add_one (elems c) ?m)" using assms by (rule no_empty_add)
  moreover have "{u. (e, u) \<in> set ?m} \<noteq> {} \<longleftrightarrow> e \<in> set es" using getAddAll_keys [of rnd 0 es "[]"] by force
  ultimately show ?thesis
    using assms by (auto simp: lookup_tags getAddAllDownstreamArgs_def applyAddAll_def tags_add)
qed

lemma apply_remove_elements:
  assumes "no_empty (elems c)"
  shows "SetAW_lookup (fst (SetAW_applyDownstream c (getRemoveAllDownstreamArgs c es))) e [] \<longleftrightarrow> SetAW_lookup c e [] \<and> e \<notin> set es"
proof -
  define m where "m = getRemoveAll_loop (elems c) es []"
  have get: "map_of m e = (if e \<in> set es \<and> fmlookup (elems c) e \<noteq> None then fmlookup (elems c) e else None)"
    using getRemoveAll_get [of "elems c" es "[]" e] by (simp add: m_def)
  have wf: "wf_map m" by (simp add: m_def getRemoveAll_wf)
  have mem: "(e, us) \<in> set m \<longleftrightarrow> map_of m e = Some us" for us using wf by (simp add: wf_map_def)
  show ?thesis
  proof (cases "m = []")
    case True
    then show ?thesis using get
      by (auto simp: getRemoveAllDownstreamArgs_def m_def [symmetric] SetAW_lookup_def Let_def split: if_splits)
  next
    case False
    have ne: "no_empty (fst (foldl rem_one (elems c, []) m))" using assms by (rule no_empty_rem)
    have "fset (tags_of (fst (foldl rem_one (elems c, []) m)) e) =
        fset (tags_of (elems c) e) - {u. \<exists>us. map_of m e = Some us \<and> u |\<in>| us}"
      by (simp add: tags_rem mem)
    also have "\<dots> = (if e \<in> set es then {} else fset (tags_of (elems c) e))"
      using get by (auto simp: tags_of_def split: option.splits)
    finally show ?thesis
      using False assms ne
      by (simp add: getRemoveAllDownstreamArgs_def m_def [symmetric] Let_def fst_applyRemoveAll lookup_tags)
  qed
qed

text \<open>
  Reads inside a transaction. The backwards scans of the pending updates give what
  applying the updates in order to the elements gives: the full read lists each such element
  once, the lookup decides membership in the same set and the count is its size. And a
  transaction reads its own writes: what it reads with one pending update is what is read
  once the downstream operation of that update is applied.
\<close>

theorem SetAW_pending_reads:
  assumes "no_empty (elems c)"
  shows "set (SetAW_getState c us) = foldl elements_after (set (SetAW_getState c [])) us
    \<and> distinct (SetAW_getState c us)
    \<and> SetAW_lookup c e us = (e \<in> set (SetAW_getState c us))
    \<and> SetAW_getNElements c us = card (set (SetAW_getState c us))
    \<and> set (SetAW_getState (fst (SetAW_applyDownstream c (SetAW_Update rnd c u))) []) = set (SetAW_getState c [u])"
proof (intro conjI)
  show "set (SetAW_getState c us) = foldl elements_after (set (SetAW_getState c [])) us"
    by (simp add: set_getState_pending getState_lookup)
  show "distinct (SetAW_getState c us)" by (rule distinct_getState)
  show "SetAW_lookup c e us = (e \<in> set (SetAW_getState c us))"
    using lookup_pending [of c e us] by (simp add: set_getState_pending)
  show "SetAW_getNElements c us = card (set (SetAW_getState c us))"
    using distinct_getState [of c us]
    by (auto simp: SetAW_getNElements_def distinct_card fcard.rep_eq SetAW_getState_def)
  show "set (SetAW_getState (fst (SetAW_applyDownstream c (SetAW_Update rnd c u))) []) = set (SetAW_getState c [u])"
    using apply_add_elements [OF assms] apply_remove_elements [OF assms]
    by (cases u) (auto simp: set_getState_pending getState_lookup)
qed

theorem SetAW_pending_reads_witness:
  "set (SetAW_getState SetAW_Initialize [AddAll [''a'', ''b''], Remove ''a'', Add ''c'', Add ''a'', Remove ''c'']) = {''a'', ''b''}"
  using SetAW_pending_reads [OF no_empty_initial, of "[AddAll [''a'', ''b''], Remove ''a'', Add ''c'', Add ''a'', Remove ''c'']" "[]"]
  by (auto simp: getState_lookup SetAW_lookup_def SetAW_Initialize_def)

section \<open>Undoing\<close>

text \<open>A removal element by element, for an argument map with distinct keys.\<close>

lemma rem_result:
  assumes "wf_map m" and "foldl rem_one (s, r) m = (s', r')"
  shows "fmlookup s' e = (case map_of m e of None \<Rightarrow> fmlookup s e
      | Some us \<Rightarrow> (case fmlookup s e of None \<Rightarrow> None
          | Some x \<Rightarrow> if x |-| us = {||} then None else Some (x |-| us)))
    \<and> map_of r' e = (case map_of m e of None \<Rightarrow> map_of r e
      | Some us \<Rightarrow> (case fmlookup s e of None \<Rightarrow> map_of r e | Some x \<Rightarrow> Some (x |\<inter>| us)))"
  using assms
proof (induction m arbitrary: s r)
  case (Cons p m)
  obtain k us where p: "p = (k, us)" by (cases p)
  obtain s1 r1 where 1: "rem_one (s, r) p = (s1, r1)" by (metis surj_pair)
  have wf: "wf_map m" and k: "map_of m k = None"
    using Cons.prems(1) by (auto simp: wf_map_def p map_of_eq_None_iff)
  have rest: "foldl rem_one (s1, r1) m = (s', r')" using Cons.prems(2) by (simp add: 1)
  have s1: "fmlookup s1 e = (if e = k then (case fmlookup s k of None \<Rightarrow> None
          | Some x \<Rightarrow> if x |-| us = {||} then None else Some (x |-| us)) else fmlookup s e)"
    and r1: "map_of r1 e = (if e = k then (case fmlookup s k of None \<Rightarrow> map_of r e | Some x \<Rightarrow> Some (x |\<inter>| us))
          else map_of r e)"
    using 1 by (auto simp: p map_of_mput split: option.splits if_splits)
  show ?case
  proof (cases "e = k")
    case True
    with Cons.IH [OF wf rest] s1 r1 k show ?thesis by (simp add: p)
  next
    case False
    with Cons.IH [OF wf rest] show ?thesis by (simp add: p s1 r1 cong: option.case_cong)
  qed
qed simp

lemma rem_wf: "wf_map r \<Longrightarrow> foldl rem_one (s, r) m = (s', r') \<Longrightarrow> wf_map r'"
proof (induction m arbitrary: s r)
  case (Cons p m)
  obtain s1 r1 where 1: "rem_one (s, r) p = (s1, r1)" by (metis surj_pair)
  then have "wf_map r1" using Cons.prems(1) by (cases p) (auto split: option.splits)
  then show ?case using Cons.IH Cons.prems(2) 1 by simp
qed simp

lemma no_empty_undoRemove:
  "no_empty s \<Longrightarrow> \<forall>(e, us) \<in> set m. us \<noteq> {||} \<or> fmlookup s e \<noteq> None \<Longrightarrow> no_empty (foldl undoRemove_one s m)"
proof (induction m arbitrary: s)
  case (Cons p m)
  obtain k us where p: "p = (k, us)" by (cases p)
  have "no_empty (undoRemove_one s p)"
    using Cons.prems by (auto simp: p no_empty_def split: option.splits)
  moreover have "\<forall>(e, us) \<in> set m. us \<noteq> {||} \<or> fmlookup (undoRemove_one s p) e \<noteq> None"
    using Cons.prems(2) by (auto simp: p split: option.splits)
  ultimately show ?case using Cons.IH by simp
qed simp

text \<open>
  The operations whose effect can be undone: additions with fresh tags and removals. The
  effect of a \<open>NoOp\<close> is a nil pointer.
\<close>

fun set_undoable :: "SetAWCrdt \<Rightarrow> set_op \<Rightarrow> bool" where
  "set_undoable c (DownstreamAddAll m) = (no_empty (elems c) \<and> (\<forall>(e, u) \<in> set m. u |\<notin>| tags_of (elems c) e))"
| "set_undoable c (DownstreamRemoveAll m) = (no_empty (elems c) \<and> wf_map m)"
| "set_undoable c Set_NoOp = False"

lemma undo_add:
  assumes "no_empty s" and "\<forall>(e, u) \<in> set m. u |\<notin>| tags_of s e"
  shows "foldl undoAdd_one (foldl add_one s m) m = s"
proof (rule tags_determine)
  show "no_empty (foldl undoAdd_one (foldl add_one s m) m)" using assms(1) by (simp add: no_empty_add no_empty_undoAdd)
  fix e
  have "fset (tags_of (foldl undoAdd_one (foldl add_one s m) m) e) = fset (tags_of s e)"
    using assms(2) by (auto simp: tags_undoAdd tags_add)
  then show "tags_of (foldl undoAdd_one (foldl add_one s m) m) e = tags_of s e" by (simp only: fset_inject)
qed (rule assms(1))

lemma undo_remove:
  assumes "no_empty s" and "wf_map m" and "foldl rem_one (s, []) m = (s', r')"
  shows "foldl undoRemove_one s' r' = s"
proof (rule tags_determine)
  note R = rem_result [OF assms(2,3)]
  have wf: "wf_map r'" using rem_wf [OF wf_map_Nil assms(3)] .
  have mem: "(e, us) \<in> set r' \<longleftrightarrow> map_of r' e = Some us" for e us using wf by (simp add: wf_map_def)
  have "us \<noteq> {||} \<or> fmlookup s' e \<noteq> None" if "(e, us) \<in> set r'" for e us
  proof -
    from that have "map_of r' e = Some us" by (simp add: mem)
    then obtain vs x where x: "map_of m e = Some vs" "fmlookup s e = Some x" "us = x |\<inter>| vs"
      using R [of e] by (auto split: option.splits)
    have "x \<noteq> {||}" using assms(1) x(2) by (auto simp: no_empty_def)
    then have "x |\<inter>| vs \<noteq> {||} \<or> x |-| vs \<noteq> {||}" by auto
    then show ?thesis using R [of e] x by auto
  qed
  moreover have "no_empty s'" using no_empty_rem [OF assms(1), of "[]" m] by (simp add: assms(3))
  ultimately show "no_empty (foldl undoRemove_one s' r')" by (intro no_empty_undoRemove) auto
  fix e
  have "fset (tags_of (foldl undoRemove_one s' r') e) = fset (tags_of s' e) \<union> {u. \<exists>us. map_of r' e = Some us \<and> u |\<in>| us}"
    by (simp add: tags_undoRemove mem)
  also have "\<dots> = fset (tags_of s e)"
    using R [of e] by (auto simp: tags_of_def split: option.splits if_splits)
  finally have "fset (tags_of (foldl undoRemove_one s' r') e) = fset (tags_of s e)" .
  then show "tags_of (foldl undoRemove_one s' r') e = tags_of s e" by (simp only: fset_inject)
qed (rule assms(1))

interpretation setaw_undo: inversible SetAW_applyDownstream SetAW_undoEffect set_undoable
proof
  fix c :: SetAWCrdt and u
  assume ok: "set_undoable c u"
  show "SetAW_undoEffect (fst (SetAW_applyDownstream c u)) (snd (SetAW_applyDownstream c u)) = Inr c"
  proof (cases u)
    case (DownstreamAddAll m)
    with ok show ?thesis by (simp add: applyAddAll_def undo_add)
  next
    case (DownstreamRemoveAll m)
    obtain s' r' where "foldl rem_one (elems c, []) m = (s', r')" by (metis surj_pair)
    with ok DownstreamRemoveAll undo_remove [of "elems c" m s' r'] show ?thesis by (simp add: applyRemoveAll_def)
  qed (use ok in simp)
qed

section \<open>Messages and copies\<close>

lemma foldl_mput_fresh:
  "distinct (map fst m @ map fst es) \<Longrightarrow> foldl (\<lambda>m (e, x). mput e (f x) m) m es = m @ map (\<lambda>(e, x). (e, f x)) es"
proof (induction es arbitrary: m)
  case (Cons p es)
  obtain e x where p: "p = (e, x)" by (cases p)
  have "e \<notin> fst ` set m" using Cons.prems by (auto simp: p)
  then have "mput e (f x) m = m @ [(e, f x)]" by (induction m) auto
  then show ?case using Cons.IH [of "m @ [(e, f x)]"] Cons.prems by (simp add: p)
qed simp

lemma SetAW_replicator_roundtrip:
  assumes "u = DownstreamAddAll m \<and> m \<noteq> [] \<and> wf_map m \<or> u = DownstreamRemoveAll k \<and> wf_map k"
  shows "map_option downstreamProtoSetToAntidoteDownstream (SetAW_ToReplicatorObj u) = Some u"
  using assms
proof
  assume "u = DownstreamAddAll m \<and> m \<noteq> [] \<and> wf_map m"
  then show ?thesis
    using foldl_mput_fresh [of "[]" m id] by (simp add: downstreamProtoSetToAntidoteDownstream_def wf_map_def)
next
  assume k: "u = DownstreamRemoveAll k \<and> wf_map k"
  have "distinct (map fst (map (\<lambda>(e, us). (e, UniqueSetToUInt64Array us)) k))"
    using k by (simp add: wf_map_def comp_def case_prod_beta)
  then have "foldl (\<lambda>m (e, us). mput e (UInt64ArrayToUniqueSet us) m) [] (map (\<lambda>(e, us). (e, UniqueSetToUInt64Array us)) k) = k"
    using foldl_mput_fresh [of "[]" "map (\<lambda>(e, us). (e, UniqueSetToUInt64Array us)) k" UInt64ArrayToUniqueSet]
    by (simp add: comp_def case_prod_beta)
  then show ?thesis using k by (simp add: downstreamProtoSetToAntidoteDownstream_def)
qed

lemma foldl_fmupd:
  "distinct ks \<Longrightarrow> fmlookup (foldl (\<lambda>m e. fmupd e (f e) m) s ks) e = (if e \<in> set ks then Some (f e) else fmlookup s e)"
  by (induction ks arbitrary: s) auto

lemma SetAW_snapshot_roundtrip: "SetAW_FromProtoState (SetAW_ToProtoState c) = c"
proof -
  let ?g = "\<lambda>e. case fmlookup (elems c) e of Some us \<Rightarrow> us | None \<Rightarrow> {||}"
  have "UInt64ArrayToUniqueSet (case fmlookup (elems c) e of Some us \<Rightarrow> UniqueSetToUInt64Array us | None \<Rightarrow> []) = ?g e" for e
    by (simp add: UInt64ArrayToUniqueSet_def split: option.split) (metis UInt64ArrayToUniqueSet_def UniqueSet_array_roundtrip)
  then have "elems (SetAW_FromProtoState (SetAW_ToProtoState c)) = foldl (\<lambda>m e. fmupd e (?g e) m) fmempty (keys_of (elems c))"
    by (simp add: SetAW_FromProtoState_def SetAW_ToProtoState_def foldl_map)
  also have "\<dots> = elems c"
    by (rule fmap_ext) (auto simp: foldl_fmupd in_fmdom_iff fmlookup_dom_iff split: option.split)
  finally show ?thesis by (cases c) simp
qed

lemma SetAW_Copy_same: "SetAW_Copy c = c"
proof -
  have "foldl (\<lambda>m e. case fmlookup (elems c) e of Some us \<Rightarrow> fmupd e (uset_copy us) m | None \<Rightarrow> m) s ks
      = foldl (\<lambda>m e. fmupd e (the (fmlookup (elems c) e)) m) s ks" if "set ks \<subseteq> fset (fmdom (elems c))" for s ks
    using that by (induction ks arbitrary: s) (auto simp: fmlookup_dom_iff)
  then have "elems (SetAW_Copy c) = foldl (\<lambda>m e. fmupd e (the (fmlookup (elems c) e)) m) fmempty (keys_of (elems c))"
    by (simp add: SetAW_Copy_def)
  also have "\<dots> = elems c"
    by (rule fmap_ext) (auto simp: foldl_fmupd fmlookup_dom_iff in_fmdom_iff)
  finally show ?thesis by (cases c) simp
qed

text \<open>
  Undo, copy and messages of the set. Undoing the effect of an addition with fresh tags or
  of a removal gives exactly the set before it. Copies and snapshots hold the same set, and
  a downstream operation survives the replicator message, except that an addition of no
  elements arrives as a removal of none. The effect of a \<open>NoOp\<close> cannot be undone: it is a
  nil pointer.
\<close>

theorem SetAW_undo_and_messages:
  assumes "set_undoable c u"
  shows "SetAW_undoEffect (fst (SetAW_applyDownstream c u)) (snd (SetAW_applyDownstream c u)) = Inr c
    \<and> SetAW_Copy c = c \<and> SetAW_FromProtoState (SetAW_ToProtoState c) = c
    \<and> (u = DownstreamAddAll m \<and> m \<noteq> [] \<and> wf_map m \<or> u = DownstreamRemoveAll k \<and> wf_map k \<longrightarrow>
         map_option downstreamProtoSetToAntidoteDownstream (SetAW_ToReplicatorObj u) = Some u)
    \<and> map_option downstreamProtoSetToAntidoteDownstream (SetAW_ToReplicatorObj (DownstreamAddAll [])) = Some (DownstreamRemoveAll [])
    \<and> SetAW_undoEffect (fst (SetAW_applyDownstream c Set_NoOp)) (snd (SetAW_applyDownstream c Set_NoOp)) = Inl NilDereference"
  using setaw_undo.undo_apply [OF assms] SetAW_replicator_roundtrip [of u m k]
  by (simp add: SetAW_Copy_same SetAW_snapshot_roundtrip downstreamProtoSetToAntidoteDownstream_def)

theorem SetAW_undo_and_messages_witness:
  "SetAW_undoEffect (fst (SetAW_applyDownstream \<lparr>elems = fmupd ''a'' {|1, 2|} fmempty\<rparr> (DownstreamRemoveAll [(''a'', {|2, 5|})])))
     (snd (SetAW_applyDownstream \<lparr>elems = fmupd ''a'' {|1, 2|} fmempty\<rparr> (DownstreamRemoveAll [(''a'', {|2, 5|})])))
   = Inr \<lparr>elems = fmupd ''a'' {|1, 2|} fmempty\<rparr>"
proof -
  have "set_undoable \<lparr>elems = fmupd ''a'' {|1, 2|} fmempty\<rparr> (DownstreamRemoveAll [(''a'', {|2, 5|})])"
    by (simp add: no_empty_def wf_map_def)
  then show ?thesis by (rule SetAW_undo_and_messages [THEN conjunct1])
qed

end
