(* ===== verification/ORMap.thy ===== *)
theory ORMap
  imports SetAW
begin

text \<open>
  The observed-remove map of \<^verbatim>\<open>crdt/crdt/orMap.go\<close>: every key has a map from the elements that
  concurrent additions put there to the tags of those additions. An addition removes the
  entries it saw at its key; when several elements survive, the smallest one is the value.
  Conventions as for the set: finite maps for the state, association lists in iteration order
  for arguments, the numbers drawn from the random source as an argument.
\<close>

type_synonym entry_map = "(string, elems_map) fmap"
type_synonym rems_arg = "(string \<times> (Element \<times> UniqueSet) list) list"
type_synonym adds_arg = "(string \<times> (Element \<times> Unique)) list"

record ORMapCrdt =
  entries :: entry_map

datatype map_update = MapAdd string Element | MapRemove string
  | MapAddAll "(string \<times> Element) list" | MapRemoveAll "string list"

datatype map_op = DownstreamORMapAddAll adds_arg rems_arg | DownstreamORMapRemoveAll rems_arg

text \<open>
  An effect is stored in the interface either as the structure or, as \<open>applyDownstream\<close>
  does it, as a pointer to the structure; a type switch distinguishes the two.
\<close>

datatype map_effect = ORMapAddAllEffect adds_arg rems_arg | ORMapRemoveAllEffect rems_arg
  | Ptr_ORMapAddAllEffect adds_arg rems_arg | Ptr_ORMapRemoveAllEffect rems_arg

definition ORMap_Initialize :: ORMapCrdt where
  "ORMap_Initialize = \<lparr>entries = fmempty\<rparr>"

section \<open>Reads\<close>

text \<open>The loop of \<open>getMinElem\<close>, over the elements in iteration order.\<close>

definition getMinElem :: "Element list \<Rightarrow> Element" where
  "getMinElem es = foldl (\<lambda>minElem e. if minElem = '''' \<or> e < minElem then e else minElem) '''' es"

definition stored_value :: "ORMapCrdt \<Rightarrow> string \<Rightarrow> Element" where
  "stored_value c key = (case fmlookup (entries c) key of Some elemMap \<Rightarrow> getMinElem (keys_of elemMap) | None \<Rightarrow> getMinElem [])"

text \<open>Recording pending updates backwards: the additions so far and the removed keys.\<close>

type_synonym pend_map = "(string, Element) fmap \<times> string fset"

fun pendm_add :: "pend_map \<Rightarrow> string \<times> Element \<Rightarrow> pend_map" where
  "pendm_add (adds, rems) (key, elem) = (if key |\<in>| rems then (adds, rems) else (fmupd key elem adds, rems))"

fun pendm_rem :: "pend_map \<Rightarrow> string \<Rightarrow> pend_map" where
  "pendm_rem (adds, rems) key = (if fmlookup adds key \<noteq> None then (adds, rems) else (adds, finsert key rems))"

fun pendm_step :: "pend_map \<Rightarrow> map_update \<Rightarrow> pend_map" where
  "pendm_step ar (MapAdd key v) = pendm_add ar (key, v)"
| "pendm_step ar (MapRemove key) = pendm_rem ar key"
| "pendm_step ar (MapAddAll vs) = foldl pendm_add ar vs"
| "pendm_step ar (MapRemoveAll ks) = foldl pendm_rem ar ks"

definition pendings :: "map_update list \<Rightarrow> pend_map" where
  "pendings updsNotYetApplied = foldl pendm_step (fmempty, {||}) (rev updsNotYetApplied)"

definition ORMap_getState :: "ORMapCrdt \<Rightarrow> map_update list \<Rightarrow> (string, Element) fmap" where
  "ORMap_getState c updsNotYetApplied =
     (if updsNotYetApplied = [] then foldl (\<lambda>m key. fmupd key (stored_value c key) m) fmempty (keys_of (entries c))
      else case pendings updsNotYetApplied of (adds, rems) \<Rightarrow>
        (foldl (\<lambda>m key. if key |\<in>| rems then m else fmupd key (stored_value c key) m) fmempty (keys_of (entries c)))
        ++\<^sub>f adds)"

definition ORMap_getValues :: "ORMapCrdt \<Rightarrow> map_update list \<Rightarrow> string list \<Rightarrow> (string, Element) fmap" where
  "ORMap_getValues c updsNotYetApplied keys =
     (if updsNotYetApplied = []
      then foldl (\<lambda>m key. if fmlookup (entries c) key \<noteq> None then fmupd key (stored_value c key) m else m) fmempty keys
      else case pendings updsNotYetApplied of (adds, rems) \<Rightarrow>
        foldl (\<lambda>m key. if key |\<in>| rems then m
            else if fmlookup (entries c) key \<noteq> None then fmupd key (stored_value c key) m
            else case fmlookup adds key of Some elem \<Rightarrow> fmupd key elem m | None \<Rightarrow> m) fmempty keys)"

text \<open>
  \<open>getKeys\<close> allocates the result by a formula and then fills it: allocating a negative length
  and writing past the end panic, positions never written keep the empty string.
\<close>

definition ORMap_getKeys :: "ORMapCrdt \<Rightarrow> map_update list \<Rightarrow> string list go" where
  "ORMap_getKeys c updsNotYetApplied =
     (if updsNotYetApplied = [] then Inr (keys_of (entries c))
      else case pendings updsNotYetApplied of (adds, rems) \<Rightarrow>
        let n = int (fcard (fmdom (entries c))) + int (fcard (fmdom adds)) - int (fcard rems);
            written = filter (\<lambda>key. key |\<notin>| rems) (keys_of (entries c))
              @ filter (\<lambda>key. fmlookup (entries c) key = None) (keys_of adds)
        in if n < 0 then Inl NegativeMakeLen
           else if int (length written) > n then Inl IndexOutOfRange
           else Inr (written @ replicate (nat n - length written) ''''))"

fun getValue_loop :: "string \<Rightarrow> Element \<Rightarrow> map_update list \<Rightarrow> Element" where
  "getValue_loop key stored [] = stored"
| "getValue_loop key stored (MapAdd k v # upds) = (if k = key then v else getValue_loop key stored upds)"
| "getValue_loop key stored (MapRemove k # upds) = (if k = key then '''' else getValue_loop key stored upds)"
| "getValue_loop key stored (MapAddAll vs # upds) = (case map_of vs key of
      Some e \<Rightarrow> e | None \<Rightarrow> getValue_loop key stored upds)"
| "getValue_loop key stored (MapRemoveAll ks # upds) = (if key \<in> set ks then '''' else getValue_loop key stored upds)"

definition ORMap_getValue :: "ORMapCrdt \<Rightarrow> map_update list \<Rightarrow> string \<Rightarrow> Element" where
  "ORMap_getValue c updsNotYetApplied key =
     (if updsNotYetApplied = [] then stored_value c key
      else getValue_loop key (stored_value c key) (rev updsNotYetApplied))"


section \<open>Updates\<close>






section \<open>Downstream operations\<close>

text \<open>
  The inner loops over the elements of one key are the set's. The map \<open>removed\<close> that the code
  builds is not used by it: the effect holds the argument \<open>toRem\<close>.
\<close>

fun rem_key :: "entry_map \<Rightarrow> string \<times> (Element \<times> UniqueSet) list \<Rightarrow> entry_map" where
  "rem_key s (key, entry) = (case fmlookup s key of
      Some crdtEntry \<Rightarrow>
        (let crdtEntry' = fst (foldl rem_one (crdtEntry, []) entry)
         in if fcard (fmdom crdtEntry') = 0 then fmdrop key s else fmupd key crdtEntry' s)
    | None \<Rightarrow> s)"

definition ORMap_applyRemoveAll :: "ORMapCrdt \<Rightarrow> rems_arg \<Rightarrow> ORMapCrdt \<times> map_effect" where
  "ORMap_applyRemoveAll c toRem = (\<lparr>entries = foldl rem_key (entries c) toRem\<rparr>, Ptr_ORMapRemoveAllEffect toRem)"

fun add_key :: "entry_map \<Rightarrow> string \<times> (Element \<times> Unique) \<Rightarrow> entry_map" where
  "add_key s (key, elem, unique) = (case fmlookup s key of
      None \<Rightarrow> fmupd key (fmupd elem (uset_add {||} unique) fmempty) s
    | Some crdtEntry \<Rightarrow>
        fmupd key (case fmlookup crdtEntry elem of
            None \<Rightarrow> fmupd elem (uset_add {||} unique) crdtEntry
          | Some crdtUniques \<Rightarrow> fmupd elem (uset_add crdtUniques unique) crdtEntry) s)"

definition ORMap_applyAddAll :: "ORMapCrdt \<Rightarrow> adds_arg \<Rightarrow> rems_arg \<Rightarrow> ORMapCrdt \<times> map_effect" where
  "ORMap_applyAddAll c toAdd toRem =
     (\<lparr>entries = foldl add_key (entries (fst (ORMap_applyRemoveAll c toRem))) toAdd\<rparr>, Ptr_ORMapAddAllEffect toAdd toRem)"

fun ORMap_applyDownstream :: "ORMapCrdt \<Rightarrow> map_op \<Rightarrow> ORMapCrdt \<times> map_effect effect" where
  "ORMap_applyDownstream c (DownstreamORMapAddAll adds rems) =
     (fst (ORMap_applyAddAll c adds rems), Eff (snd (ORMap_applyAddAll c adds rems)))"
| "ORMap_applyDownstream c (DownstreamORMapRemoveAll rems) =
     (fst (ORMap_applyRemoveAll c rems), Eff (snd (ORMap_applyRemoveAll c rems)))"

definition ORMap_Downstream ::
    "bool \<Rightarrow> (map_op, map_effect effect) History list \<times> ORMapCrdt \<Rightarrow> ClockSiTimestamp \<Rightarrow> map_op
       \<Rightarrow> (map_op, map_effect effect) History list \<times> ORMapCrdt" where
  "ORMap_Downstream vmDisabled c updTs downstreamArgs = (case c of (history, v) \<Rightarrow>
     (case ORMap_applyDownstream v downstreamArgs of (v', effect) \<Rightarrow>
        (addToHistory vmDisabled history updTs downstreamArgs effect, v')))"

fun undo_add_key :: "entry_map \<Rightarrow> string \<times> (Element \<times> Unique) \<Rightarrow> entry_map" where
  "undo_add_key s (key, elem, unique) = (case fmlookup s key of
      None \<Rightarrow> s
    | Some elemsEntry \<Rightarrow>
        (let elemsEntry' = undoAdd_one elemsEntry (elem, unique)
         in if fmlookup elemsEntry' elem = None \<and> fcard (fmdom elemsEntry') = 0 then fmdrop key s
            else fmupd key elemsEntry' s))"

fun undo_rem_key :: "entry_map \<Rightarrow> string \<times> (Element \<times> UniqueSet) list \<Rightarrow> entry_map" where
  "undo_rem_key s (key, elemsToAdd) =
     fmupd key (foldl undoRemove_one (case fmlookup s key of Some keyEntry \<Rightarrow> keyEntry | None \<Rightarrow> fmempty) elemsToAdd) s"

fun ORMap_undoEffect :: "ORMapCrdt \<Rightarrow> map_effect effect \<Rightarrow> ORMapCrdt go" where
  "ORMap_undoEffect c (Eff (ORMapAddAllEffect adds rems)) =
     Inr \<lparr>entries = foldl undo_rem_key (foldl undo_add_key (entries c) adds) rems\<rparr>"
| "ORMap_undoEffect c (Eff (ORMapRemoveAllEffect rems)) = Inr \<lparr>entries = foldl undo_rem_key (entries c) rems\<rparr>"
| "ORMap_undoEffect c (Eff (Ptr_ORMapAddAllEffect adds rems)) = Inr c"
| "ORMap_undoEffect c (Eff (Ptr_ORMapRemoveAllEffect rems)) = Inr c"
| "ORMap_undoEffect c NoEffect = Inr c"
| "ORMap_undoEffect c NilEffect = Inr c"

definition ORMap_reapplyOp :: "ORMapCrdt \<Rightarrow> map_op \<Rightarrow> (ORMapCrdt \<times> map_effect effect) go" where
  "ORMap_reapplyOp c updArgs = Inr (ORMap_applyDownstream c updArgs)"

section \<open>Messages\<close>

type_synonym proto_rems = "(string \<times> (Element \<times> nat list) list) list"

definition createProtoMapRemoves :: "rems_arg \<Rightarrow> proto_rems" where
  "createProtoMapRemoves rems = map (\<lambda>(key, es). (key, map (\<lambda>(e, us). (e, UniqueSetToUInt64Array us)) es)) rems"

definition createORMapDownRems :: "proto_rems \<Rightarrow> rems_arg" where
  "createORMapDownRems protos =
     foldl (\<lambda>m (key, es). mput key (foldl (\<lambda>i (e, us). mput e (UInt64ArrayToUniqueSet us) i) [] es) m) [] protos"

text \<open>The replicator message: a list of additions, empty for a removal, and the removals.\<close>

fun ORMap_ToReplicatorObj :: "map_op \<Rightarrow> adds_arg \<times> proto_rems" where
  "ORMap_ToReplicatorObj (DownstreamORMapAddAll adds rems) = (adds, createProtoMapRemoves rems)"
| "ORMap_ToReplicatorObj (DownstreamORMapRemoveAll rems) = ([], createProtoMapRemoves rems)"

definition downstreamProtoORMapToAntidoteDownstream :: "adds_arg \<times> proto_rems \<Rightarrow> map_op" where
  "downstreamProtoORMapToAntidoteDownstream pb = (case pb of (adds, rems) \<Rightarrow>
     if adds \<noteq> [] then DownstreamORMapAddAll (foldl (\<lambda>m (key, p). mput key p m) [] adds) (createORMapDownRems rems)
     else DownstreamORMapRemoveAll (createORMapDownRems rems))"

section \<open>Contracts\<close>




lemma tags_of_empty [simp]: "tags_of fmempty e = {||}"
  by (simp add: tags_of_def)














section \<open>The smallest element\<close>







section \<open>What a map holds\<close>




section \<open>Pending updates\<close>

text \<open>What an update says about a key: nothing, that it is removed, or its new value.\<close>

fun touch :: "string \<Rightarrow> map_update \<Rightarrow> Element option option" where
  "touch k (MapAdd key v) = (if key = k then Some (Some v) else None)"
| "touch k (MapRemove key) = (if key = k then Some None else None)"
| "touch k (MapAddAll vs) = (case map_of vs k of Some v \<Rightarrow> Some (Some v) | None \<Rightarrow> None)"
| "touch k (MapRemoveAll ks) = (if k \<in> set ks then Some None else None)"

primrec last_touch :: "string \<Rightarrow> map_update list \<Rightarrow> Element option option" where
  "last_touch k [] = None"
| "last_touch k (u # us) = (case last_touch k us of None \<Rightarrow> touch k u | Some t \<Rightarrow> Some t)"

primrec first_added :: "string \<Rightarrow> map_update list \<Rightarrow> Element option" where
  "first_added k [] = None"
| "first_added k (u # us) = (case touch k u of Some (Some v) \<Rightarrow> Some v | _ \<Rightarrow> first_added k us)"

fun wf_update :: "map_update \<Rightarrow> bool" where
  "wf_update (MapAddAll vs) = wf_map vs"
| "wf_update _ = True"

lemma foldl_pendm_add:
  "wf_map vs \<Longrightarrow> foldl pendm_add (a, r) vs = (a', r') \<Longrightarrow> r' = r \<and>
     fmlookup a' k = (if k |\<in>| r then fmlookup a k else case map_of vs k of Some v \<Rightarrow> Some v | None \<Rightarrow> fmlookup a k)"
proof (induction vs arbitrary: a)
  case (Cons p vs)
  obtain key v where p: "p = (key, v)" by (cases p)
  have wf: "wf_map vs" and new: "map_of vs key = None"
    using Cons.prems(1) by (auto simp: p wf_map_def map_of_eq_None_iff)
  show ?case
  proof (cases "key |\<in>| r")
    case True
    with Cons.IH [OF wf, of a] Cons.prems(2) show ?thesis by (auto simp: p)
  next
    case False
    with Cons.IH [OF wf, of "fmupd key v a"] Cons.prems(2) new show ?thesis by (auto simp: p split: option.split)
  qed
qed simp

lemma foldl_pendm_rem:
  "foldl pendm_rem (a, r) ks = (a', r') \<Longrightarrow> a' = a \<and> (k |\<in>| r' \<longleftrightarrow> k |\<in>| r \<or> (k \<in> set ks \<and> fmlookup a k = None))"
  by (induction ks arbitrary: r) (auto split: if_splits)

lemma pendm_step_effect:
  assumes "wf_update u" and "pendm_step (a, r) u = (a', r')"
  shows "fmlookup a' k = (if k |\<in>| r then fmlookup a k else case touch k u of Some (Some v) \<Rightarrow> Some v | _ \<Rightarrow> fmlookup a k)
    \<and> (k |\<in>| r' \<longleftrightarrow> k |\<in>| r \<or> (touch k u = Some None \<and> fmlookup a k = None))"
proof (cases u)
  case (MapAddAll vs)
  with assms foldl_pendm_add [of vs a r a' r' k] show ?thesis by (auto split: option.splits)
next
  case (MapRemoveAll ks)
  with assms foldl_pendm_rem [of a r ks a' r' k] show ?thesis by (auto split: option.splits)
qed (use assms in \<open>auto split: if_splits\<close>)

lemma pendings_effect:
  assumes "\<forall>u \<in> set us. wf_update u" and "pendings us = (a, r)"
  shows "fmlookup a k = (case last_touch k us of Some (Some w) \<Rightarrow> first_added k us | _ \<Rightarrow> None)
    \<and> (k |\<in>| r \<longleftrightarrow> last_touch k us = Some None) \<and> (first_added k us = None \<longrightarrow> (\<forall>w. last_touch k us \<noteq> Some (Some w)))"
  using assms
proof (induction us arbitrary: a r)
  case (Cons u us)
  obtain a1 r1 where 1: "pendings us = (a1, r1)" by (metis surj_pair)
  then have s: "pendm_step (a1, r1) u = (a, r)" using Cons.prems(2) by (simp add: pendings_def)
  have wf: "wf_update u" using Cons.prems(1) by simp
  have IH: "fmlookup a1 k = (case last_touch k us of Some (Some w) \<Rightarrow> first_added k us | _ \<Rightarrow> None)"
    "k |\<in>| r1 \<longleftrightarrow> last_touch k us = Some None" "first_added k us = None \<longrightarrow> (\<forall>w. last_touch k us \<noteq> Some (Some w))"
    using Cons.IH [OF _ 1] Cons.prems(1) by auto
  show ?case
    using pendm_step_effect [OF wf s, of k] IH
    by (cases "last_touch k us"; cases "touch k u") (auto split: option.splits)
qed (simp add: pendings_def)

lemma foldl_store:
  "fmlookup (foldl (\<lambda>m key. if P key then m else fmupd key (g key) m) s ks) k =
     (if k \<in> set ks \<and> \<not> P k then Some (g k) else fmlookup s k)"
  by (induction ks arbitrary: s) auto

lemma getValue_loop_touch:
  "getValue_loop k stored (rev us) = (case last_touch k us of None \<Rightarrow> stored | Some None \<Rightarrow> '''' | Some (Some w) \<Rightarrow> w)"
proof -
  have snoc: "last_touch k (us @ [u]) = (case touch k u of None \<Rightarrow> last_touch k us | Some t \<Rightarrow> Some t)" for us u
    by (induction us) (auto split: option.split)
  show ?thesis
  proof (induction us rule: rev_induct)
    case (snoc u us)
    then show ?case by (cases u) (auto simp: \<open>\<And>us u. last_touch k (us @ [u]) = _\<close> split: option.splits)
  qed simp
qed

lemma ORMap_pending_values:
  assumes "\<forall>u \<in> set us. wf_update u" and "us \<noteq> []"
  shows "ORMap_getValue c us k = (case last_touch k us of
        None \<Rightarrow> stored_value c k | Some None \<Rightarrow> '''' | Some (Some w) \<Rightarrow> w)
    \<and> fmlookup (ORMap_getState c us) k = (case last_touch k us of
        None \<Rightarrow> (if fmlookup (entries c) k = None then None else Some (stored_value c k))
      | Some None \<Rightarrow> None | Some (Some w) \<Rightarrow> first_added k us)
    \<and> (fmlookup (entries c) k \<noteq> None \<longrightarrow> fmlookup (ORMap_getValues c us [k]) k =
        (if last_touch k us = Some None then None else Some (stored_value c k)))"
proof -
  obtain a r where p: "pendings us = (a, r)" by (metis surj_pair)
  note E = pendings_effect [OF assms(1) p, of k]
  have "fmlookup (ORMap_getState c us) k = (if k |\<in>| fmdom a then fmlookup a k
      else if k |\<in>| fmdom (entries c) \<and> k |\<notin>| r then Some (stored_value c k) else None)"
    using assms(2) by (simp add: ORMap_getState_def p foldl_store)
  then have "fmlookup (ORMap_getState c us) k = (case last_touch k us of
        None \<Rightarrow> (if fmlookup (entries c) k = None then None else Some (stored_value c k))
      | Some None \<Rightarrow> None | Some (Some w) \<Rightarrow> first_added k us)"
    using E by (auto simp: in_fmdom_iff split: option.splits)
  moreover have "ORMap_getValue c us k = (case last_touch k us of
        None \<Rightarrow> stored_value c k | Some None \<Rightarrow> '''' | Some (Some w) \<Rightarrow> w)"
    using assms(2) by (simp add: ORMap_getValue_def getValue_loop_touch)
  moreover have "fmlookup (entries c) k \<noteq> None \<longrightarrow> fmlookup (ORMap_getValues c us [k]) k =
        (if last_touch k us = Some None then None else Some (stored_value c k))"
    using assms(2) E by (auto simp: ORMap_getValues_def p)
  ultimately show ?thesis by blast
qed

section \<open>Listing the keys\<close>

lemma pendings_disjoint:
  assumes "\<forall>u \<in> set us. wf_update u" and "pendings us = (a, r)"
  shows "fset (fmdom a) \<inter> fset r = {}"
proof -
  have "\<not> (k |\<in>| fmdom a \<and> k |\<in>| r)" for k
    using pendings_effect [OF assms, of k] by (auto simp: in_fmdom_iff)
  then show ?thesis by auto
qed

lemma fmdom_getState:
  assumes "us \<noteq> []" and "pendings us = (a, r)" and "fset (fmdom a) \<inter> fset r = {}"
  shows "fset (fmdom (ORMap_getState c us)) = (fset (fmdom (entries c)) - fset r) \<union> fset (fmdom a)"
proof -
  have "k |\<in>| fmdom (ORMap_getState c us) \<longleftrightarrow> (k |\<in>| fmdom (entries c) \<and> k |\<notin>| r) \<or> k |\<in>| fmdom a" for k
    using assms(1) by (auto simp: ORMap_getState_def assms(2) foldl_store in_fmdom_iff split: if_splits)
  then show ?thesis by auto
qed

lemma ORMap_getKeys_result:
  assumes "\<forall>u \<in> set us. wf_update u" and "us \<noteq> []" and "pendings us = (adds, rems)"
    and "surplus = card (fset (fmdom adds) \<inter> fset (fmdom (entries c)))"
    and "shortfall = card (fset rems - fset (fmdom (entries c)))"
  shows "if surplus < shortfall then ORMap_getKeys c us \<in> {Inl NegativeMakeLen, Inl IndexOutOfRange}
    else \<exists>keys. ORMap_getKeys c us = Inr (keys @ replicate (surplus - shortfall) '''')
      \<and> distinct keys \<and> set keys = fset (fmdom (ORMap_getState c us))"
proof -
  let ?E = "fset (fmdom (entries c))" and ?A = "fset (fmdom adds)" and ?R = "fset rems"
  define w where "w = filter (\<lambda>key. key |\<notin>| rems) (keys_of (entries c))
      @ filter (\<lambda>key. fmlookup (entries c) key = None) (keys_of adds)"
  have d: "?A \<inter> ?R = {}" by (rule pendings_disjoint [OF assms(1,3)])
  have dw: "distinct w" by (auto simp: w_def in_fmdom_iff fmlookup_dom_iff)
  have sw: "set w = (?E - ?R) \<union> (?A - ?E)" by (auto simp: w_def in_fmdom_iff fmlookup_dom_iff)
  then have "set w = fset (fmdom (ORMap_getState c us))"
    using d by (auto simp: fmdom_getState [OF assms(2,3) d])
  moreover have "length w = card (?E - ?R) + card (?A - ?E)"
    using distinct_card [OF dw] by (simp add: sw card_Un_disjoint disjoint_iff)
  then have "int (length w) + int (card (?E \<inter> ?R)) + int (card (?A \<inter> ?E)) = int (card ?E) + int (card ?A)"
    using card_Int_Diff [of ?E ?R] card_Int_Diff [of ?A ?E] by simp
  moreover have "card ?R = card (?E \<inter> ?R) + shortfall"
    using card_Int_Diff [of ?R ?E] by (simp add: assms(5) Int_commute)
  ultimately have n: "int (card ?E) + int (card ?A) - int (card ?R) = int (length w) + int surplus - int shortfall"
    and s: "set w = fset (fmdom (ORMap_getState c us))"
    by (simp_all add: assms(4))
  have "ORMap_getKeys c us = (let n = int (card ?E) + int (card ?A) - int (card ?R)
      in if n < 0 then Inl NegativeMakeLen else if int (length w) > n then Inl IndexOutOfRange
         else Inr (w @ replicate (nat n - length w) ''''))"
    using assms(2) by (simp add: ORMap_getKeys_def assms(3) w_def [symmetric] fcard.rep_eq)
  then have r: "ORMap_getKeys c us = (if int (length w) + int surplus - int shortfall < 0 then Inl NegativeMakeLen
      else if int (length w) > int (length w) + int surplus - int shortfall then Inl IndexOutOfRange
      else Inr (w @ replicate (nat (int (length w) + int surplus - int shortfall) - length w) ''''))"
    unfolding n Let_def .
  show ?thesis
  proof (cases "surplus < shortfall")
    case True
    then show ?thesis by (simp add: r)
  next
    case False
    then have "nat (int (length w) + int surplus - int shortfall) - length w = surplus - shortfall" by simp
    with False show ?thesis using dw s by (auto simp: r)
  qed
qed

text \<open>
  Reads with pending updates. \<open>getValue\<close> answers with the last pending update of the key,
  as it should. \<open>getState\<close> agrees on which keys are there, but when the last pending update of
  a key adds it, the value it gives is that of the first pending addition of the key: going
  backwards, earlier additions overwrite later ones. \<open>getValues\<close> gives the stored value
  instead of any pending one for every key that is stored. For \<open>getKeys\<close>, let the surplus be
  the number of stored keys that pending updates add again, and the shortfall the number of
  pending removals of keys that are not stored: if the shortfall exceeds the surplus, the read
  panics; otherwise it returns the right keys followed by one empty string for each unit of the
  difference.
\<close>

theorem ORMap_pending_reads:
  assumes "\<forall>u \<in> set us. wf_update u" and "us \<noteq> []" and "pendings us = (adds, rems)"
    and "surplus = card (fset (fmdom adds) \<inter> fset (fmdom (entries c)))"
    and "shortfall = card (fset rems - fset (fmdom (entries c)))"
  shows "ORMap_getValue c us k = (case last_touch k us of
        None \<Rightarrow> stored_value c k | Some None \<Rightarrow> '''' | Some (Some w) \<Rightarrow> w)
    \<and> fmlookup (ORMap_getState c us) k = (case last_touch k us of
        None \<Rightarrow> (if fmlookup (entries c) k = None then None else Some (stored_value c k))
      | Some None \<Rightarrow> None | Some (Some w) \<Rightarrow> first_added k us)
    \<and> (fmlookup (entries c) k \<noteq> None \<longrightarrow> fmlookup (ORMap_getValues c us [k]) k =
        (if last_touch k us = Some None then None else Some (stored_value c k)))
    \<and> (if surplus < shortfall then ORMap_getKeys c us \<in> {Inl NegativeMakeLen, Inl IndexOutOfRange}
       else \<exists>keys. ORMap_getKeys c us = Inr (keys @ replicate (surplus - shortfall) '''')
         \<and> distinct keys \<and> set keys = fset (fmdom (ORMap_getState c us)))"
  using ORMap_pending_values [OF assms(1,2), of c k] ORMap_getKeys_result [OF assms] by (intro conjI) blast+

theorem ORMap_pending_reads_witness:
  "ORMap_getKeys ORMap_Initialize [MapRemove ''k''] \<in> {Inl NegativeMakeLen, Inl IndexOutOfRange}
   \<and> ORMap_getValue ORMap_Initialize [MapAdd ''k'' ''old'', MapRemove ''k'', MapAdd ''k'' ''new''] ''k'' = ''new''
   \<and> fmlookup (ORMap_getState ORMap_Initialize [MapAdd ''k'' ''old'', MapRemove ''k'', MapAdd ''k'' ''new'']) ''k'' = Some ''old''"
proof -
  let ?us = "[MapAdd ''k'' ''old'', MapRemove ''k'', MapAdd ''k'' ''new'']"
  have p: "pendings [MapRemove ''k''] = (fmempty, {|''k''|})" by (simp add: pendings_def)
  have "0 = card (fset (fmdom (fmempty :: (string, Element) fmap)) \<inter> fset (fmdom (entries ORMap_Initialize)))" by simp
  moreover have "1 = card (fset {|''k''|} - fset (fmdom (entries ORMap_Initialize)))"
    by (simp add: ORMap_Initialize_def)
  ultimately have "ORMap_getKeys ORMap_Initialize [MapRemove ''k''] \<in> {Inl NegativeMakeLen, Inl IndexOutOfRange}"
    using ORMap_pending_reads [OF _ _ p, of 0 ORMap_Initialize 1] by simp
  moreover have "ORMap_getValue ORMap_Initialize ?us ''k'' = ''new''
      \<and> fmlookup (ORMap_getState ORMap_Initialize ?us) ''k'' = Some ''old''"
    using ORMap_pending_reads [of ?us _ _ _ ORMap_Initialize _ "''k''", OF _ _ surjective_pairing refl refl] by simp
  ultimately show ?thesis by blast
qed

section \<open>Old versions and messages\<close>

lemma rebuild_identity:
  assumes "\<forall>e \<in> set h. \<forall>f \<in> set (effects e). \<forall>s. undo s f = Inr s"
    and "rebuildCRDTToVersion False undo reapply (\<lambda>t s. Inr s) target h s = Inr (h', s')"
  shows "s' = s"
proof (cases "h = []")
  case True
  then show ?thesis using assms(2) by (simp add: rebuildCRDTToVersion_def)
next
  case False
  have id: "gfold undo s fs = Inr s" if "\<forall>f \<in> set fs. \<forall>s. undo s f = Inr s" for s fs
    using that by (induction fs) auto
  have u: "n \<le> length h \<Longrightarrow> undo_from undo target h n s = Inr (cut_index target h n, s)" for n
  proof (induction n)
    case (Suc n)
    then have "gfold undo s (effects (h ! n)) = Inr s" using assms(1) by (intro id bspec [OF assms(1)]) simp
    with Suc show ?case by simp
  qed simp
  let ?n = "cut_index target h (length h)"
  have "\<forall>e \<in> set (drop ?n h). \<not> IsLowerOrEqual (h_ts e) (Some target)"
    using cut_above [of _ "length h" target h] by (auto simp: in_set_conv_nth)
  from redo_from_skip [OF this, of reapply "take ?n h" s] cut_le [of target h "length h"]
  show ?thesis using assms(2) False u [of "length h"]
    by (auto simp: rebuildCRDTToVersion_def min_absorb2 split: if_splits list.splits)
qed

lemma ormap_effect_pointer: "ORMap_undoEffect s (snd (ORMap_applyDownstream c u)) = Inr s"
  by (cases u) (simp_all add: ORMap_applyAddAll_def ORMap_applyRemoveAll_def)

text \<open>
  Nothing is ever undone on a map. \<open>applyDownstream\<close> stores pointers to the effect
  structures and the type switch of \<open>undoEffect\<close> looks for the structures themselves, so
  undoing any recorded effect leaves the map as it is, and a rebuild of any old version from
  a recorded history returns the latest map.
\<close>

theorem ORMap_never_undone:
  assumes "\<forall>e \<in> set h. \<forall>f \<in> set (effects e). \<exists>c u. f = snd (ORMap_applyDownstream c u)"
    and "rebuildCRDTToVersion False ORMap_undoEffect ORMap_reapplyOp (\<lambda>t s. Inr s) target h c = Inr (h', c')"
  shows "c' = c \<and> ORMap_undoEffect (fst (ORMap_applyDownstream d u)) (snd (ORMap_applyDownstream d u))
      = Inr (fst (ORMap_applyDownstream d u))"
proof
  have "\<forall>e \<in> set h. \<forall>f \<in> set (effects e). \<forall>s. ORMap_undoEffect s f = Inr s"
    using assms(1) ormap_effect_pointer by metis
  then show "c' = c" using assms(2) by (rule rebuild_identity)
  show "ORMap_undoEffect (fst (ORMap_applyDownstream d u)) (snd (ORMap_applyDownstream d u))
      = Inr (fst (ORMap_applyDownstream d u))" by (rule ormap_effect_pointer)
qed

theorem ORMap_never_undone_witness:
  "\<exists>h' c c'. fmlookup (entries c) ''k'' \<noteq> None \<and> c' = c \<and>
     rebuildCRDTToVersion False ORMap_undoEffect ORMap_reapplyOp (\<lambda>t s. Inr s) [(1, 4)]
       [\<lparr>h_ts = [(1, 6)], updsArgs = [DownstreamORMapAddAll [(''k'', ''v'', 1)] []],
         effects = [snd (ORMap_applyDownstream ORMap_Initialize (DownstreamORMapAddAll [(''k'', ''v'', 1)] []))]\<rparr>] c = Inr (h', c')"
proof -
  let ?u = "DownstreamORMapAddAll [(''k'', ''v'', 1)] []"
  let ?h = "[\<lparr>h_ts = [(1, 6)], updsArgs = [?u], effects = [snd (ORMap_applyDownstream ORMap_Initialize ?u)]\<rparr>]"
  let ?c = "fst (ORMap_applyDownstream ORMap_Initialize ?u)"
  have k: "fmlookup (entries ?c) ''k'' \<noteq> None" by (simp add: ORMap_applyAddAll_def ORMap_applyRemoveAll_def ORMap_Initialize_def)
  obtain h' c' where r: "rebuildCRDTToVersion False ORMap_undoEffect ORMap_reapplyOp (\<lambda>t s. Inr s) [(1, 4)] ?h ?c = Inr (h', c')"
    by (simp add: rebuildCRDTToVersion_def redo_from.simps IsLowerOrEqual_def Compare_def vget_def
        ORMap_applyAddAll_def ORMap_applyRemoveAll_def)
  have "\<forall>e \<in> set ?h. \<forall>f \<in> set (effects e). \<exists>c u. f = snd (ORMap_applyDownstream c u)"
    by (simp del: ORMap_applyDownstream.simps) blast
  then have "c' = ?c" by (rule ORMap_never_undone [OF _ r, THEN conjunct1])
  with k r show ?thesis by blast
qed

text \<open>Removals survive the messages when their maps have distinct keys.\<close>

lemma createORMapDownRems_roundtrip:
  assumes "wf_map rems" and "\<forall>(k, es) \<in> set rems. wf_map es"
  shows "createORMapDownRems (createProtoMapRemoves rems) = rems"
proof -
  let ?enc = "\<lambda>es. map (\<lambda>(e, us). (e, UniqueSetToUInt64Array us)) es"
  let ?dec = "\<lambda>es. foldl (\<lambda>i (e, us). mput e (UInt64ArrayToUniqueSet us) i) [] es"
  have inner: "?dec (?enc es) = es" if "wf_map es" for es
    using that foldl_mput_fresh [of "[]" "?enc es" UInt64ArrayToUniqueSet]
    by (simp add: wf_map_def comp_def case_prod_beta)
  have "createORMapDownRems (createProtoMapRemoves rems) = map (\<lambda>(k, es). (k, ?dec es)) (map (\<lambda>(k, es). (k, ?enc es)) rems)"
    using foldl_mput_fresh [of "[]" "map (\<lambda>(k, es). (k, ?enc es)) rems" ?dec] assms(1)
    by (simp add: createORMapDownRems_def createProtoMapRemoves_def wf_map_def comp_def case_prod_beta)
  also have "\<dots> = map (\<lambda>p. p) rems"
    unfolding map_map by (rule map_cong [OF refl]) (use assms(2) inner in auto)
  also have "\<dots> = rems" by simp
  finally show ?thesis .
qed

end
