(* ===== verification/RWEmbMap.thy ===== *)
theory RWEmbMap
  imports Counter LWW SetAW
begin

text \<open>
  The map with embedded CRDTs of \<^verbatim>\<open>crdt/crdt/rwEmbMapCRDT.go\<close>: keys to CRDTs, where a removal wins over
  concurrent updates. A removal has a counter of its replica; an update carries, per replica,
  the highest removal that it has seen for its keys, and has an effect only when it has seen
  every removal of the key. The embedded CRDTs are an interface, the record \<open>emb_crdt\<close>: what the
  map calls of them. \<open>RWEmbMapCrdt\<close> has the fields of the code; the clock of removals, which is read
  and raised one position at a time, is a function.

  Updates and removals, the test for a key and the read of one value are modelled. Ranging over
  a Go map is a list with distinct keys, in any order. The time stamp that the map passes on is
  left out, as embedded CRDTs only keep it in their history. Counters of removals grow by one per
  removal and are unbounded here. The other reads, the undoing of effects and the messages are
  not modelled.
\<close>

text \<open>An element of \<open>keyUpds\<close>: \<open>nil\<close>, a pending update or a pointer to a \<open>NoOp\<close>.\<close>

datatype 'a pend = PendNil | PendUpd 'a | PendNoOp

record ('e, 'a, 'u, 'r, 'st) emb_crdt =
  emb_Initialize :: "int \<Rightarrow> 'u \<Rightarrow> 'e"
  emb_InitializeFor :: "int \<Rightarrow> 'a \<Rightarrow> 'e"
  emb_Update :: "'e \<Rightarrow> 'a \<Rightarrow> 'u"
  emb_MustReplicate :: "'u \<Rightarrow> bool"
  emb_Downstream :: "'e \<Rightarrow> 'u \<Rightarrow> 'e \<times> 'u option"
  emb_Read :: "'e \<Rightarrow> 'r \<Rightarrow> 'a pend list \<Rightarrow> 'st"

type_synonym rem_entry = "(int, int \<times> bool) fmap"

record 'e RWEmbMapCrdt =
  emb_entries :: "(string, 'e) fmap"
  emb_removes :: "(string, rem_entry) fmap"
  rmvClock :: "int \<Rightarrow> int"
  emb_replicaID :: int

datatype 'a emb_update = EmbMapUpdate string 'a | EmbMapRemove string | EmbMapUpdateAll "(string \<times> 'a) list"
  | EmbMapRemoveAll "string list" | EmbMapUpdateAllArray "(string \<times> 'a) list"

datatype 'u emb_op =
    DownstreamRWEmbMapUpdateAll "(string \<times> 'u) list" "(int, int) fmap" int
  | DownstreamRWEmbMapRemoveAll "string list" int int
  | DownstreamRWEmbMapUpdateAllArray "(string \<times> 'u) list" "(int, int) fmap" int
  | RWEmbMap_NoOp

datatype 'e emb_effect =
    RWEmbMapUpdateAllEffect "string list" int "string list"
  | RWEmbMapRemoveAllEffect "(string \<times> 'e) list" int int
  | RWEmbMap_NoEffect

definition RWEmbMap_Initialize :: "int \<Rightarrow> 'e RWEmbMapCrdt" where
  "RWEmbMap_Initialize replicaID = \<lparr>emb_entries = fmempty, emb_removes = fmempty, rmvClock = (\<lambda>r. 0), emb_replicaID = replicaID\<rparr>"

section \<open>Preparing operations\<close>

definition join_one :: "rem_entry \<Rightarrow> (int, int) fmap \<Rightarrow> int \<Rightarrow> (int, int) fmap" where
  "join_one rmvClk rmvEntries replica = (case fmlookup rmvClk replica of
       Some (ts, mark) \<Rightarrow>
         let existingClk = (case fmlookup rmvEntries replica of Some v \<Rightarrow> v | None \<Rightarrow> 0)
         in if ts > existingClk then fmupd replica ts rmvEntries else rmvEntries
     | None \<Rightarrow> rmvEntries)"

definition join_removes :: "(int, int) fmap \<Rightarrow> rem_entry \<Rightarrow> (int, int) fmap" where
  "join_removes rmvEntries rmvClk = foldl (join_one rmvClk) rmvEntries (sorted_list_of_fset (fmdom rmvClk))"

definition prepare_key ::
    "('e, 'a, 'u, 'r, 'st) emb_crdt \<Rightarrow> 'e RWEmbMapCrdt \<Rightarrow> (string \<times> 'u) list \<times> (int, int) fmap \<Rightarrow> string \<times> 'a \<Rightarrow> (string \<times> 'u) list \<times> (int, int) fmap" where
  "prepare_key E c x p = (case (x, p) of ((downs, rmvEntries), (key, upd)) \<Rightarrow>
     let embCrdt = (case fmlookup (emb_entries c) key of Some e \<Rightarrow> e | None \<Rightarrow> emb_InitializeFor E (emb_replicaID c) upd); embUpd = emb_Update E embCrdt upd
     in (if emb_MustReplicate E embUpd then downs @ [(key, embUpd)] else downs,
         case fmlookup (emb_removes c) key of None \<Rightarrow> rmvEntries | Some rmvClk \<Rightarrow> join_removes rmvEntries rmvClk))"

definition getUpdateAllDownstreamArgs :: "('e, 'a, 'u, 'r, 'st) emb_crdt \<Rightarrow> 'e RWEmbMapCrdt \<Rightarrow> (string \<times> 'a) list \<Rightarrow> 'u emb_op" where
  "getUpdateAllDownstreamArgs E c upds = (case foldl (prepare_key E c) ([], fmempty) upds of (downs, rmvEntries) \<Rightarrow>
     if downs = [] \<and> rmvEntries = fmempty then RWEmbMap_NoOp else DownstreamRWEmbMapUpdateAll downs rmvEntries (emb_replicaID c))"

definition getUpdateAllDownstreamArgsArray :: "('e, 'a, 'u, 'r, 'st) emb_crdt \<Rightarrow> 'e RWEmbMapCrdt \<Rightarrow> (string \<times> 'a) list \<Rightarrow> 'u emb_op" where
  "getUpdateAllDownstreamArgsArray E c upds = (case foldl (prepare_key E c) ([], fmempty) upds of (downs, rmvEntries) \<Rightarrow>
     if upds = [] \<and> rmvEntries = fmempty then RWEmbMap_NoOp else DownstreamRWEmbMapUpdateAllArray downs rmvEntries (emb_replicaID c))"

definition getEmbRemoveAllDownstreamArgs :: "'e RWEmbMapCrdt \<Rightarrow> string list \<Rightarrow> 'u emb_op" where
  "getEmbRemoveAllDownstreamArgs c keys = (let toRemove = filter (\<lambda>k. fmlookup (emb_entries c) k \<noteq> None) keys
     in if toRemove = [] then RWEmbMap_NoOp else DownstreamRWEmbMapRemoveAll toRemove (rmvClock c (emb_replicaID c) + 1) (emb_replicaID c))"

fun RWEmbMap_Update :: "('e, 'a, 'u, 'r, 'st) emb_crdt \<Rightarrow> 'e RWEmbMapCrdt \<Rightarrow> 'a emb_update \<Rightarrow> 'u emb_op" where
  "RWEmbMap_Update E c (EmbMapUpdate key upd) = getUpdateAllDownstreamArgs E c [(key, upd)]"
| "RWEmbMap_Update E c (EmbMapRemove key) = getEmbRemoveAllDownstreamArgs c [key]"
| "RWEmbMap_Update E c (EmbMapUpdateAll upds) = getUpdateAllDownstreamArgs E c upds"
| "RWEmbMap_Update E c (EmbMapRemoveAll keys) = getEmbRemoveAllDownstreamArgs c keys"
| "RWEmbMap_Update E c (EmbMapUpdateAllArray upds) = getUpdateAllDownstreamArgsArray E c upds"

section \<open>Applying operations\<close>

definition surpasses :: "(int, int) fmap \<Rightarrow> rem_entry \<Rightarrow> bool" where
  "surpasses remClks remEntry = fmpred (\<lambda>replica pair. case fmlookup remClks replica of None \<Rightarrow> False | Some remValue \<Rightarrow> fst pair \<le> remValue) remEntry"

definition add_mark :: "int \<Rightarrow> rem_entry \<Rightarrow> rem_entry" where
  "add_mark remoteID remEntry = (case fmlookup remEntry remoteID of Some (ts, False) \<Rightarrow> fmupd remoteID (ts, True) remEntry | _ \<Rightarrow> remEntry)"

text \<open>The keys that were updated, those that got a mark, and new operations of embedded CRDTs.\<close>

type_synonym ('e, 'u) upd_state = "'e RWEmbMapCrdt \<times> string list \<times> string list \<times> (string \<times> 'u) list"

definition apply_emb :: "('e, 'a, 'u, 'r, 'st) emb_crdt \<Rightarrow> bool \<Rightarrow> ('e, 'u) upd_state \<Rightarrow> string \<times> 'u \<Rightarrow> ('e, 'u) upd_state" where
  "apply_emb E isRedo x p = (case (x, p) of ((c, updated, added, newDown), (key, upd)) \<Rightarrow>
     if isRedo then (c, updated @ [key], added, newDown)
     else let embCRDT = (case fmlookup (emb_entries c) key of Some e \<Rightarrow> e | None \<Rightarrow> emb_Initialize E (emb_replicaID c) upd)
          in (case emb_Downstream E embCRDT upd of (e', embDownstream) \<Rightarrow>
                (c\<lparr>emb_entries := fmupd key e' (emb_entries c)\<rparr>, updated @ [key], added,
                 case embDownstream of None \<Rightarrow> newDown | Some d \<Rightarrow> mput key d newDown)))"

definition apply_checked ::
    "('e, 'a, 'u, 'r, 'st) emb_crdt \<Rightarrow> bool \<Rightarrow> (int, int) fmap \<Rightarrow> int \<Rightarrow> ('e, 'u) upd_state \<Rightarrow> string \<times> 'u \<Rightarrow> ('e, 'u) upd_state" where
  "apply_checked E isRedo remClks remoteID x p = (case (x, p) of ((c, updated, added, newDown), (key, upd)) \<Rightarrow>
     case fmlookup (emb_removes c) key of
       None \<Rightarrow> apply_emb E isRedo x p
     | Some remEntry \<Rightarrow>
         if surpasses remClks remEntry
         then apply_emb E isRedo (c\<lparr>emb_removes := fmupd key (add_mark remoteID remEntry) (emb_removes c)\<rparr>, updated,
                if add_mark remoteID remEntry = remEntry then added else List.insert key added, newDown) p
         else x)"

definition applyUpdateAll ::
    "('e, 'a, 'u, 'r, 'st) emb_crdt \<Rightarrow> bool \<Rightarrow> 'e RWEmbMapCrdt \<Rightarrow> (string \<times> 'u) list \<Rightarrow> (int, int) fmap \<Rightarrow> int
       \<Rightarrow> 'e RWEmbMapCrdt \<times> 'e emb_effect \<times> 'u emb_op option" where
  "applyUpdateAll E isRedo c upds remClks remoteID =
     (case foldl (if emb_removes c = fmempty then apply_emb E isRedo else apply_checked E isRedo remClks remoteID) (c, [], [], []) upds of
        (c', updated, added, newDown) \<Rightarrow> (c', RWEmbMapUpdateAllEffect updated remoteID added,
          if newDown = [] then None else Some (DownstreamRWEmbMapUpdateAll newDown fmempty 0)))"

text \<open>The loops of the array version are the same; it differs in how it counts the updated keys.\<close>

definition applyUpdateAllArray ::
    "('e, 'a, 'u, 'r, 'st) emb_crdt \<Rightarrow> bool \<Rightarrow> 'e RWEmbMapCrdt \<Rightarrow> (string \<times> 'u) list \<Rightarrow> (int, int) fmap \<Rightarrow> int
       \<Rightarrow> 'e RWEmbMapCrdt \<times> 'e emb_effect \<times> 'u emb_op option" where
  "applyUpdateAllArray E isRedo c upds remClks remoteID =
     (case foldl (if emb_removes c = fmempty then apply_emb E isRedo else apply_checked E isRedo remClks remoteID) (c, [], [], []) upds of
        (c', updated, added, newDown) \<Rightarrow> (c', RWEmbMapUpdateAllEffect updated remoteID added,
          if newDown = [] then None else Some (DownstreamRWEmbMapUpdateAll newDown fmempty 0)))"

definition add_remove :: "int \<Rightarrow> int \<Rightarrow> rem_entry \<Rightarrow> rem_entry" where
  "add_remove remoteReplicaID remoteClk remEntry =
     (let m = fmupd remoteReplicaID (remoteClk, False) remEntry in if fcard (fmdom m) > 1 then fmmap (\<lambda>(ts, mark). (ts, False)) m else m)"

definition remove_key :: "int \<Rightarrow> int \<Rightarrow> 'e RWEmbMapCrdt \<times> (string \<times> 'e) list \<Rightarrow> string \<Rightarrow> 'e RWEmbMapCrdt \<times> (string \<times> 'e) list" where
  "remove_key remoteReplicaID remoteClk x key = (case x of (c, removed) \<Rightarrow>
     (c\<lparr>emb_removes := fmupd key (add_remove remoteReplicaID remoteClk (case fmlookup (emb_removes c) key of None \<Rightarrow> fmempty | Some m \<Rightarrow> m)) (emb_removes c),
        emb_entries := fmdrop key (emb_entries c)\<rparr>,
      case fmlookup (emb_entries c) key of None \<Rightarrow> removed | Some e \<Rightarrow> mput key e removed))"

definition applyEmbRemoveAll :: "'e RWEmbMapCrdt \<Rightarrow> string list \<Rightarrow> int \<Rightarrow> int \<Rightarrow> 'e RWEmbMapCrdt \<times> 'e emb_effect" where
  "applyEmbRemoveAll c toRem remoteReplicaID remoteClk =
     (let c1 = c\<lparr>rmvClock := (rmvClock c)(remoteReplicaID := max (rmvClock c remoteReplicaID) remoteClk)\<rparr>
      in (case foldl (remove_key remoteReplicaID remoteClk) (c1, []) toRem of
            (c', removed) \<Rightarrow> (c', RWEmbMapRemoveAllEffect removed remoteReplicaID (rmvClock c remoteReplicaID))))"

fun RWEmbMap_applyDownstream ::
    "('e, 'a, 'u, 'r, 'st) emb_crdt \<Rightarrow> bool \<Rightarrow> 'e RWEmbMapCrdt \<Rightarrow> 'u emb_op \<Rightarrow> 'e RWEmbMapCrdt \<times> 'e emb_effect \<times> 'u emb_op option" where
  "RWEmbMap_applyDownstream E isRedo c (DownstreamRWEmbMapUpdateAll upds rmv r) = applyUpdateAll E isRedo c upds rmv r"
| "RWEmbMap_applyDownstream E isRedo c (DownstreamRWEmbMapRemoveAll rems ts r) = (case applyEmbRemoveAll c rems r ts of (c', e) \<Rightarrow> (c', e, None))"
| "RWEmbMap_applyDownstream E isRedo c (DownstreamRWEmbMapUpdateAllArray upds rmv r) = applyUpdateAllArray E isRedo c upds rmv r"
| "RWEmbMap_applyDownstream E isRedo c RWEmbMap_NoOp = (c, RWEmbMap_NoEffect, None)"

section \<open>Reads\<close>

fun hasKey_of :: "string \<Rightarrow> 'a emb_update \<Rightarrow> bool option" where
  "hasKey_of key (EmbMapUpdate k upd) = (if key = k then Some True else None)"
| "hasKey_of key (EmbMapUpdateAll upds) = (if key \<in> fst ` set upds then Some True else None)"
| "hasKey_of key (EmbMapUpdateAllArray upds) = (if key \<in> fst ` set upds then Some True else None)"
| "hasKey_of key (EmbMapRemove k) = (if key = k then Some False else None)"
| "hasKey_of key (EmbMapRemoveAll keys) = (if key \<in> set keys then Some False else None)"

fun hasKey_loop :: "string \<Rightarrow> bool \<Rightarrow> 'a emb_update list \<Rightarrow> bool" where
  "hasKey_loop key has [] = has"
| "hasKey_loop key has (upd # upds) = (case hasKey_of key upd of Some b \<Rightarrow> b | None \<Rightarrow> hasKey_loop key has upds)"

definition RWEmbMap_hasKey :: "'e RWEmbMapCrdt \<Rightarrow> 'a emb_update list \<Rightarrow> string \<Rightarrow> bool" where
  "RWEmbMap_hasKey c updsNotYetApplied key =
     (if updsNotYetApplied = [] then fmlookup (emb_entries c) key \<noteq> None
      else hasKey_loop key (fmlookup (emb_entries c) key \<noteq> None) (rev updsNotYetApplied))"

definition INITIAL_UPDSNOTAPPLIED_SIZE :: nat where "INITIAL_UPDSNOTAPPLIED_SIZE = 10"

fun collect_key :: "string \<Rightarrow> 'a pend list \<Rightarrow> 'a emb_update \<Rightarrow> 'a pend list" where
  "collect_key key keyUpds (EmbMapUpdate k upd) = (if key = k then keyUpds @ [PendUpd upd] else keyUpds)"
| "collect_key key keyUpds (EmbMapUpdateAll upds) = (case map_of upds key of Some upd \<Rightarrow> keyUpds @ [PendUpd upd] | None \<Rightarrow> keyUpds)"
| "collect_key key keyUpds (EmbMapUpdateAllArray upds) = keyUpds @ map (\<lambda>p. PendUpd (snd p)) (filter (\<lambda>p. key = fst p) upds)"
| "collect_key key keyUpds (EmbMapRemove k) = (if key = k then [PendNoOp] else keyUpds)"
| "collect_key key keyUpds (EmbMapRemoveAll keys) = (if key \<in> set keys then [PendNoOp] else keyUpds)"

text \<open>
  The result is \<open>None\<close> for the state of an empty register. The comparison of the first
  element with \<open>NoOp{}\<close> never holds, because a pending removal is stored as a pointer; so
  there is no branch for it, and \<open>has\<close> is false at the second \<open>if\<close>. The CRDT that is found
  there is overwritten with a new one, of the type of \<open>keyUpds[1]\<close>.
\<close>

definition getEmbValue :: "('e, 'a, 'u, 'r, 'st) emb_crdt \<Rightarrow> 'e RWEmbMapCrdt \<Rightarrow> 'a emb_update list \<Rightarrow> string \<Rightarrow> 'r \<Rightarrow> 'st option go" where
  "getEmbValue E c updsNotYetApplied key args =
     (if updsNotYetApplied = []
      then (case fmlookup (emb_entries c) key of None \<Rightarrow> Inr None | Some inCrdt \<Rightarrow> Inr (Some (emb_Read E inCrdt args [])))
      else let keyUpds = foldl (collect_key key)
                 (replicate (min (length updsNotYetApplied) INITIAL_UPDSNOTAPPLIED_SIZE) PendNil) updsNotYetApplied
           in if length keyUpds = 0 then Inl IndexOutOfRange
              else if length keyUpds \<le> 1 then Inl IndexOutOfRange
              else (case keyUpds ! 1 of
                  PendUpd upd \<Rightarrow> Inr (Some (emb_Read E (emb_InitializeFor E (emb_replicaID c) upd) args keyUpds))
                | _ \<Rightarrow> Inl NilDereference))"

section \<open>The map, one key at a time\<close>

definition estep :: "('e, 'a, 'u, 'r, 'st) emb_crdt \<Rightarrow> int \<Rightarrow> 'e option \<Rightarrow> 'u \<Rightarrow> 'e" where
  "estep E rid e u = fst (emb_Downstream E (case e of Some x \<Rightarrow> x | None \<Rightarrow> emb_Initialize E rid u) u)"

type_synonym 'e key_state = "'e option \<times> rem_entry option"

definition key_view :: "'e RWEmbMapCrdt \<Rightarrow> string \<Rightarrow> 'e key_state" where
  "key_view c k = (fmlookup (emb_entries c) k, fmlookup (emb_removes c) k)"

definition can_add :: "(int, int) fmap \<Rightarrow> rem_entry option \<Rightarrow> bool" where
  "can_add rmv rm = (case rm of None \<Rightarrow> True | Some m \<Rightarrow> surpasses rmv m)"

definition key_update ::
    "('e, 'a, 'u, 'r, 'st) emb_crdt \<Rightarrow> int \<Rightarrow> (int, int) fmap \<Rightarrow> int \<Rightarrow> 'e key_state \<Rightarrow> 'u \<Rightarrow> 'e key_state" where
  "key_update E rid rmv r v u = (if can_add rmv (snd v) then (Some (estep E rid (fst v) u), map_option (add_mark r) (snd v)) else v)"

definition key_remove :: "int \<Rightarrow> int \<Rightarrow> 'e key_state \<Rightarrow> 'e key_state" where
  "key_remove r ts v = (None, Some (add_remove r ts (case snd v of None \<Rightarrow> fmempty | Some m \<Rightarrow> m)))"

definition for_key :: "string \<Rightarrow> (string \<times> 'u) list \<Rightarrow> 'u list" where
  "for_key k upds = map snd (filter (\<lambda>p. fst p = k) upds)"

fun key_op :: "('e, 'a, 'u, 'r, 'st) emb_crdt \<Rightarrow> int \<Rightarrow> 'u emb_op \<Rightarrow> string \<Rightarrow> 'e key_state \<Rightarrow> 'e key_state" where
  "key_op E rid (DownstreamRWEmbMapUpdateAll upds rmv r) k v = foldl (key_update E rid rmv r) v (for_key k upds)"
| "key_op E rid (DownstreamRWEmbMapUpdateAllArray upds rmv r) k v = foldl (key_update E rid rmv r) v (for_key k upds)"
| "key_op E rid (DownstreamRWEmbMapRemoveAll rems ts r) k v = (if k \<in> set rems then key_remove r ts v else v)"
| "key_op E rid RWEmbMap_NoOp k v = v"

lemma for_key_Cons: "for_key k (p # upds) = (if fst p = k then snd p # for_key k upds else for_key k upds)"
  by (simp add: for_key_def)

lemma apply_emb_view:
  assumes "apply_emb E False (c, x) (key, u) = (c', x')"
  shows "key_view c' k = (if key = k then (Some (estep E (emb_replicaID c) (fst (key_view c k)) u), snd (key_view c k)) else key_view c k)"
    and "emb_replicaID c' = emb_replicaID c" and "rmvClock c' = rmvClock c" and "emb_removes c' = emb_removes c"
  using assms by (auto simp: apply_emb_def key_view_def estep_def split: prod.splits)

lemma apply_checked_view:
  assumes "apply_checked E False rmv r (c, x) (key, u) = (c', x')"
  shows "key_view c' k = (if key = k then key_update E (emb_replicaID c) rmv r (key_view c k) u else key_view c k)"
    and "emb_replicaID c' = emb_replicaID c" and "rmvClock c' = rmvClock c"
proof -
  have "(key_view c' k = (if key = k then key_update E (emb_replicaID c) rmv r (key_view c k) u else key_view c k))
      \<and> emb_replicaID c' = emb_replicaID c \<and> rmvClock c' = rmvClock c"
  proof (cases "fmlookup (emb_removes c) key")
    case None
    with assms have a: "apply_emb E False (c, x) (key, u) = (c', x')" by (auto simp: apply_checked_def split: prod.splits)
    show ?thesis using apply_emb_view [OF a] None by (auto simp: key_update_def can_add_def key_view_def)
  next
    case (Some m)
    obtain updated added newDown where x: "x = (updated, added, newDown)" by (cases x)
    show ?thesis
    proof (cases "surpasses rmv m")
      case True
      let ?c = "c\<lparr>emb_removes := fmupd key (add_mark r m) (emb_removes c)\<rparr>"
      from assms Some True obtain y where a: "apply_emb E False (?c, y) (key, u) = (c', x')"
        by (auto simp: apply_checked_def x)
      show ?thesis using apply_emb_view [OF a] Some True by (auto simp: key_update_def can_add_def key_view_def)
    next
      case False
      with assms Some show ?thesis by (auto simp: apply_checked_def x key_update_def can_add_def key_view_def)
    qed
  qed
  then show "key_view c' k = (if key = k then key_update E (emb_replicaID c) rmv r (key_view c k) u else key_view c k)"
    and "emb_replicaID c' = emb_replicaID c" and "rmvClock c' = rmvClock c" by blast+
qed

text \<open>Without removals the optimised loops do what the checked one does.\<close>

lemma unchecked_loop:
  "emb_removes c = fmempty \<Longrightarrow>
     foldl (apply_emb E isRedo) (c, x) upds = foldl (apply_checked E isRedo rmv r) (c, x) upds"
proof (induction upds arbitrary: c x)
  case (Cons p upds)
  have "apply_checked E isRedo rmv r (c, x) p = apply_emb E isRedo (c, x) p"
    by (cases x; cases p) (simp add: apply_checked_def Cons.prems)
  moreover obtain c' x' where a: "apply_emb E isRedo (c, x) p = (c', x')" by (rule prod.exhaust)
  moreover have "emb_removes c' = fmempty"
    using a Cons.prems by (cases x; cases p) (auto simp: apply_emb_def split: if_splits prod.splits)
  ultimately show ?case using Cons.IH [of c' x'] by simp
qed simp

lemma checked_loop_view:
  "foldl (apply_checked E False rmv r) (c, x) upds = (c', x') \<Longrightarrow>
     key_view c' k = foldl (key_update E (emb_replicaID c) rmv r) (key_view c k) (for_key k upds)
     \<and> emb_replicaID c' = emb_replicaID c \<and> rmvClock c' = rmvClock c"
proof (induction upds arbitrary: c x)
  case (Cons p upds)
  obtain key u where p: "p = (key, u)" by (cases p)
  obtain d y where a: "apply_checked E False rmv r (c, x) (key, u) = (d, y)" by (rule prod.exhaust)
  from Cons.prems have "foldl (apply_checked E False rmv r) (d, y) upds = (c', x')" by (simp add: p a)
  from Cons.IH [OF this] show ?case using apply_checked_view [OF a] by (auto simp: p for_key_Cons)
qed (simp add: for_key_def)

lemma applyUpdateAll_view:
  assumes "applyUpdateAll E False c upds rmv r = (c', x)"
  shows "key_view c' k = foldl (key_update E (emb_replicaID c) rmv r) (key_view c k) (for_key k upds)
     \<and> emb_replicaID c' = emb_replicaID c \<and> rmvClock c' = rmvClock c"
proof -
  obtain d y where a: "foldl (apply_checked E False rmv r) (c, [], [], []) upds = (d, y)" by (rule prod.exhaust)
  have "d = c'" using assms by (cases y) (auto simp: applyUpdateAll_def unchecked_loop [where rmv = rmv and r = r] a split: if_splits)
  with checked_loop_view [OF a] show ?thesis by blast
qed

lemma add_remove_simp: "add_remove r ts m = fmupd r (ts, False) (fmmap (\<lambda>(t, mark). (t, False)) m)"
proof (cases "fcard (fmdom (fmupd r (ts, False) m)) > 1")
  case True
  then show ?thesis by (auto simp: add_remove_def Let_def intro!: fmap_ext)
next
  case False
  have "r' = r" if "r' |\<in>| fmdom m" for r'
  proof (rule ccontr)
    assume "r' \<noteq> r"
    then have "fcard {|r, r'|} = 2" by (simp add: fcard.rep_eq)
    moreover have "{|r, r'|} |\<subseteq>| fmdom (fmupd r (ts, False) m)" using that by simp
    ultimately have "2 \<le> fcard (fmdom (fmupd r (ts, False) m))" using fcard_mono by metis
    with False show False by simp
  qed
  then have "fmlookup m r' = None" if "r' \<noteq> r" for r' using that by (metis fmdom_notI fmdom_notD)
  with False show ?thesis by (auto simp: add_remove_def Let_def intro!: fmap_ext)
qed

lemma fmlookup_add_mark: "fmlookup (add_mark r m) r' =
    (if r' = r then map_option (\<lambda>p. (fst p, True)) (fmlookup m r) else fmlookup m r')"
  by (auto simp: add_mark_def split: option.splits bool.splits)

lemma add_mark_commute: "add_mark r (add_mark q m) = add_mark q (add_mark r m)"
  by (intro fmap_ext) (simp add: fmlookup_add_mark)

lemma surpasses_iff: "surpasses rmv m \<longleftrightarrow> (\<forall>r t b. fmlookup m r = Some (t, b) \<longrightarrow> (\<exists>n. fmlookup rmv r = Some n \<and> t \<le> n))"
  by (auto simp: surpasses_def fmpred_iff split: option.splits) force+

lemma surpasses_add_mark [simp]: "surpasses rmv (add_mark r m) = surpasses rmv m"
proof -
  have "(\<exists>b. fmlookup (add_mark r m) q = Some (t, b)) \<longleftrightarrow> (\<exists>b. fmlookup m q = Some (t, b))" for q t
    by (auto simp: fmlookup_add_mark)
  then show ?thesis by (simp add: surpasses_iff)
qed

lemma can_add_mark [simp]: "can_add rmv (map_option (add_mark r) rm) = can_add rmv rm"
  by (cases rm) (simp_all add: can_add_def)

lemma add_remove_add_mark [simp]: "add_remove r ts (add_mark q m) = add_remove r ts m"
  by (intro fmap_ext) (simp add: add_remove_simp fmlookup_add_mark option.map_comp comp_def split_def)

lemma key_remove_mark [simp]: "key_remove r ts (e, map_option (add_mark q) rm) = key_remove r ts (None, rm)"
  by (cases rm) (simp_all add: key_remove_def)

lemma key_remove_idem [simp]: "key_remove r ts (key_remove r ts v) = key_remove r ts v"
  by (auto simp: key_remove_def add_remove_simp option.map_comp comp_def split_def intro!: fmap_ext split: option.splits)

lemma remove_loop_view:
  "foldl (remove_key r ts) (c, x) rems = (c', x') \<Longrightarrow>
     key_view c' k = (if k \<in> set rems then key_remove r ts (key_view c k) else key_view c k)
     \<and> emb_replicaID c' = emb_replicaID c \<and> rmvClock c' = rmvClock c"
proof (induction rems arbitrary: c x)
  case (Cons key rems)
  obtain d y where a: "remove_key r ts (c, x) key = (d, y)" by (rule prod.exhaust)
  then have v: "key_view d k = (if k = key then key_remove r ts (key_view c k) else key_view c k)"
    "emb_replicaID d = emb_replicaID c" "rmvClock d = rmvClock c"
    by (auto simp: remove_key_def key_view_def key_remove_def)
  from Cons.prems have "foldl (remove_key r ts) (d, y) rems = (c', x')" by (simp add: a)
  from Cons.IH [OF this] show ?case using v by (cases "k = key"; cases "k \<in> set rems") simp_all
qed simp

fun clock_op :: "'u emb_op \<Rightarrow> (int \<Rightarrow> int) \<Rightarrow> int \<Rightarrow> int" where
  "clock_op (DownstreamRWEmbMapRemoveAll rems ts r) clk = clk(r := max (clk r) ts)"
| "clock_op u clk = clk"

lemma applyUpdateAllArray_eq [simp]: "applyUpdateAllArray = applyUpdateAll"
  by (intro ext) (simp add: applyUpdateAllArray_def applyUpdateAll_def)

lemma apply_view:
  "key_view (fst (RWEmbMap_applyDownstream E False c u)) k = key_op E (emb_replicaID c) u k (key_view c k)"
  "emb_replicaID (fst (RWEmbMap_applyDownstream E False c u)) = emb_replicaID c"
  "rmvClock (fst (RWEmbMap_applyDownstream E False c u)) = clock_op u (rmvClock c)"
proof -
  have rm: "key_view (fst (applyEmbRemoveAll c rems r ts)) k = (if k \<in> set rems then key_remove r ts (key_view c k) else key_view c k)
      \<and> emb_replicaID (fst (applyEmbRemoveAll c rems r ts)) = emb_replicaID c
      \<and> rmvClock (fst (applyEmbRemoveAll c rems r ts)) = (rmvClock c)(r := max (rmvClock c r) ts)" for rems r ts
  proof -
    let ?c = "c\<lparr>rmvClock := (rmvClock c)(r := max (rmvClock c r) ts)\<rparr>"
    obtain d y where a: "foldl (remove_key r ts) (?c, []) rems = (d, y)" by (rule prod.exhaust)
    have "key_view ?c k = key_view c k" by (simp add: key_view_def)
    with remove_loop_view [OF a, of k] show ?thesis by (simp add: applyEmbRemoveAll_def Let_def a)
  qed
  have up: "key_view (fst (applyUpdateAll E False c upds rmv r)) k = foldl (key_update E (emb_replicaID c) rmv r) (key_view c k) (for_key k upds)
     \<and> emb_replicaID (fst (applyUpdateAll E False c upds rmv r)) = emb_replicaID c
     \<and> rmvClock (fst (applyUpdateAll E False c upds rmv r)) = rmvClock c" for upds rmv r
    by (rule applyUpdateAll_view) (rule prod.collapse [symmetric])
  show "key_view (fst (RWEmbMap_applyDownstream E False c u)) k = key_op E (emb_replicaID c) u k (key_view c k)"
    "emb_replicaID (fst (RWEmbMap_applyDownstream E False c u)) = emb_replicaID c"
    "rmvClock (fst (RWEmbMap_applyDownstream E False c u)) = clock_op u (rmvClock c)"
    using rm up by (cases u; simp add: split_def)+
qed

lemma map_eqI:
  fixes c d :: "'e RWEmbMapCrdt"
  assumes "\<And>k. key_view c k = key_view d k" and "emb_replicaID c = emb_replicaID d" and "rmvClock c = rmvClock d"
  shows "c = d"
proof -
  have "emb_entries c = emb_entries d" "emb_removes c = emb_removes d"
    using assms(1) by (auto simp: key_view_def intro!: fmap_ext)
  then show ?thesis using assms(2,3) by simp
qed

section \<open>Convergence\<close>

text \<open>
  \<open>map_before before u v\<close>: an update has seen a removal when its \<open>RmvEntries\<close> have reached the
  counter of the removal; removals of one replica are ordered; updates are ordered when they
  have updates of one key that are. A removal that has seen an update needs no order.
\<close>

fun upd_list :: "'u emb_op \<Rightarrow> (string \<times> 'u) list" where
  "upd_list (DownstreamRWEmbMapUpdateAll upds rmv r) = upds"
| "upd_list (DownstreamRWEmbMapUpdateAllArray upds rmv r) = upds"
| "upd_list u = []"

fun upd_clock :: "'u emb_op \<Rightarrow> (int, int) fmap option" where
  "upd_clock (DownstreamRWEmbMapUpdateAll upds rmv r) = Some rmv"
| "upd_clock (DownstreamRWEmbMapUpdateAllArray upds rmv r) = Some rmv"
| "upd_clock u = None"

definition seen :: "(int, int) fmap \<Rightarrow> int \<Rightarrow> int \<Rightarrow> bool" where
  "seen rmv r ts = (case fmlookup rmv r of None \<Rightarrow> False | Some n \<Rightarrow> ts \<le> n)"

fun map_before :: "('u \<Rightarrow> 'u \<Rightarrow> bool) \<Rightarrow> 'u emb_op \<Rightarrow> 'u emb_op \<Rightarrow> bool" where
  "map_before before (DownstreamRWEmbMapRemoveAll rems ts r) (DownstreamRWEmbMapRemoveAll rems' ts' r') = (r = r' \<and> ts < ts')"
| "map_before before (DownstreamRWEmbMapRemoveAll rems ts r) v = (case upd_clock v of None \<Rightarrow> False | Some rmv \<Rightarrow> seen rmv r ts)"
| "map_before before u v = list_ex (\<lambda>p. list_ex (\<lambda>q. fst p = fst q \<and> before (snd p) (snd q)) (upd_list v)) (upd_list u)"

definition map_coexist :: "('u \<Rightarrow> 'u \<Rightarrow> bool) \<Rightarrow> 'u emb_op \<Rightarrow> 'u emb_op \<Rightarrow> bool" where
  "map_coexist coexist u v = list_all (\<lambda>p. list_all (\<lambda>q. fst p = fst q \<longrightarrow> snd p = snd q \<or> coexist (snd p) (snd q)) (upd_list v)) (upd_list u)"

text \<open>
  What the map needs of the embedded CRDTs: concurrent operations commute, and updates of
  one key start with the same CRDT.
\<close>

locale embedded = emb: causal_ops "emb_Downstream E" before coexist
  for E :: "('e, 'a, 'u, 'r, 'st) emb_crdt" and before :: "'u \<Rightarrow> 'u \<Rightarrow> bool" and coexist :: "'u \<Rightarrow> 'u \<Rightarrow> bool" +
  assumes same_start: "coexist u v \<Longrightarrow> emb_Initialize E rid u = emb_Initialize E rid v"

lemma surpasses_seen: "surpasses rmv m \<longleftrightarrow> (\<forall>r t. (\<exists>b. fmlookup m r = Some (t, b)) \<longrightarrow> seen rmv r t)"
  by (force simp: surpasses_iff seen_def split: option.splits)

lemma surpassesD: "surpasses rmv m \<Longrightarrow> fmlookup m r = Some (t, b) \<Longrightarrow> seen rmv r t"
  by (auto simp: surpasses_seen)

lemma surpasses_add_remove:
  "surpasses rmv (add_remove r ts m) \<longleftrightarrow> seen rmv r ts \<and> (\<forall>q t b. q \<noteq> r \<longrightarrow> fmlookup m q = Some (t, b) \<longrightarrow> seen rmv q t)"
proof -
  have "(\<exists>b. fmlookup (add_remove r ts m) q = Some (t, b)) \<longleftrightarrow> (if q = r then t = ts else \<exists>b. fmlookup m q = Some (t, b))" for q t
    by (auto simp: add_remove_simp)
  then show ?thesis unfolding surpasses_seen by auto
qed

lemma key_remove_updates [simp]:
  "key_remove r ts (foldl (key_update E rid rmv q) v us) = key_remove r ts v"
proof (induction us arbitrary: v)
  case (Cons u us)
  have "key_remove r ts (key_update E rid rmv q v u) = key_remove r ts v"
    by (cases v) (simp add: key_update_def, simp add: key_remove_def)
  with Cons show ?case by simp
qed simp

lemma updates_after_unseen_remove:
  "\<not> seen rmv r ts \<Longrightarrow> foldl (key_update E rid rmv q) (key_remove r ts v) us = key_remove r ts v"
proof (induction us)
  case (Cons u us)
  then have "\<not> can_add rmv (snd (key_remove r ts v))"
    by (simp add: can_add_def key_remove_def surpasses_add_remove)
  then have "key_update E rid rmv q (key_remove r ts v) u = key_remove r ts v" by (simp add: key_update_def)
  with Cons show ?case by simp
qed simp

lemma key_remove_commute: "r \<noteq> q \<or> ts = tq \<Longrightarrow> key_remove r ts (key_remove q tq v) = key_remove q tq (key_remove r ts v)"
  by (cases "r = q") (auto simp: key_remove_def add_remove_simp option.map_comp comp_def split_def intro!: fmap_ext split: option.splits)

lemma set_for_key: "u \<in> set (for_key k upds) \<longleftrightarrow> (k, u) \<in> set upds"
  by (force simp: for_key_def)

lemma clock_op_commute: "clock_op v (clock_op u clk) = clock_op u (clock_op v clk)"
  by (cases u; cases v) (auto simp: fun_eq_iff)

context embedded
begin

lemma key_updates_commute:
  assumes co: "u = v \<or> coexist u v" and "\<not> before u v" "\<not> before v u"
  shows "key_update E rid rmv2 r2 (key_update E rid rmv1 r1 x u) v = key_update E rid rmv1 r1 (key_update E rid rmv2 r2 x v) u"
proof -
  have "estep E rid (Some (estep E rid e u)) v = estep E rid (Some (estep E rid e v)) u" for e
  proof (cases "u = v")
    case False
    with co have co: "coexist u v" by simp
    show ?thesis using same_start [OF co, of rid] emb.concurrent_commute [OF co assms(2,3)]
      by (cases e) (simp_all add: estep_def)
  qed simp
  then show ?thesis by (cases "snd x") (auto simp: key_update_def can_add_def add_mark_commute)
qed

lemma key_lists_commute:
  assumes "list_all (\<lambda>p. list_all (\<lambda>q. fst p = fst q \<longrightarrow> snd p = snd q \<or> coexist (snd p) (snd q)) ws) us"
    and "\<not> list_ex (\<lambda>p. list_ex (\<lambda>q. fst p = fst q \<and> before (snd p) (snd q)) ws) us"
    and "\<not> list_ex (\<lambda>p. list_ex (\<lambda>q. fst p = fst q \<and> before (snd p) (snd q)) us) ws"
  shows "foldl (key_update E rid rmv2 r2) (foldl (key_update E rid rmv1 r1) x (for_key k us)) (for_key k ws) =
    foldl (key_update E rid rmv1 r1) (foldl (key_update E rid rmv2 r2) x (for_key k ws)) (for_key k us)"
proof (rule foldl_swap)
  fix x u v
  assume "u \<in> set (for_key k us)" and "v \<in> set (for_key k ws)"
  then have m: "(k, u) \<in> set us" "(k, v) \<in> set ws" by (simp_all add: set_for_key)
  show "key_update E rid rmv2 r2 (key_update E rid rmv1 r1 x u) v = key_update E rid rmv1 r1 (key_update E rid rmv2 r2 x v) u"
    using assms m by (intro key_updates_commute) (fastforce simp: list_all_iff list_ex_iff)+
qed

lemma key_ops_commute:
  assumes "map_coexist coexist u v" and "\<not> map_before before u v" and "\<not> map_before before v u"
  shows "key_op E rid v k (key_op E rid u k x) = key_op E rid u k (key_op E rid v k x)"
  using assms
  by (cases u; cases v)
    (simp_all add: map_coexist_def key_lists_commute updates_after_unseen_remove, metis key_remove_commute linorder_cases)

lemma map_ops_commute:
  assumes "map_coexist coexist u v" and "\<not> map_before before u v" and "\<not> map_before before v u"
  shows "fst (RWEmbMap_applyDownstream E False (fst (RWEmbMap_applyDownstream E False c u)) v) =
    fst (RWEmbMap_applyDownstream E False (fst (RWEmbMap_applyDownstream E False c v)) u)"
proof (rule map_eqI)
  show "key_view (fst (RWEmbMap_applyDownstream E False (fst (RWEmbMap_applyDownstream E False c u)) v)) k =
    key_view (fst (RWEmbMap_applyDownstream E False (fst (RWEmbMap_applyDownstream E False c v)) u)) k" for k
    unfolding apply_view by (rule key_ops_commute [OF assms])
  show "rmvClock (fst (RWEmbMap_applyDownstream E False (fst (RWEmbMap_applyDownstream E False c u)) v)) =
    rmvClock (fst (RWEmbMap_applyDownstream E False (fst (RWEmbMap_applyDownstream E False c v)) u))"
    unfolding apply_view by (rule clock_op_commute)
qed (simp add: apply_view)

end

sublocale embedded \<subseteq> mapped: causal_ops "RWEmbMap_applyDownstream E False" "map_before before" "map_coexist coexist"
  by unfold_locales (rule map_ops_commute)

text \<open>Counters as embedded CRDTs, and maps as embedded CRDTs of maps.\<close>

fun pend_updates :: "'a pend list \<Rightarrow> 'a list" where
  "pend_updates [] = []"
| "pend_updates (PendUpd u # ps) = u # pend_updates ps"
| "pend_updates (p # ps) = pend_updates ps"

definition counter_emb :: "(CounterCrdt, counter_op, counter_op, unit, int) emb_crdt" where
  "counter_emb = \<lparr>emb_Initialize = (\<lambda>r u. Counter_Initialize), emb_InitializeFor = (\<lambda>r u. Counter_Initialize),
     emb_Update = Counter_Update, emb_MustReplicate = (\<lambda>u. True),
     emb_Downstream = (\<lambda>c u. (fst (Counter_applyDownstream c u), None)),
     emb_Read = (\<lambda>c args ps. Counter_Read c (pend_updates ps))\<rparr>"

definition map_emb ::
    "('e, 'a, 'u, 'r, 'st) emb_crdt \<Rightarrow> ('e RWEmbMapCrdt \<Rightarrow> 'q \<Rightarrow> 'a emb_update pend list \<Rightarrow> 'v)
       \<Rightarrow> ('e RWEmbMapCrdt, 'a emb_update, 'u emb_op, 'q, 'v) emb_crdt" where
  "map_emb E rd = \<lparr>emb_Initialize = (\<lambda>r u. RWEmbMap_Initialize r), emb_InitializeFor = (\<lambda>r u. RWEmbMap_Initialize r),
     emb_Update = RWEmbMap_Update E, emb_MustReplicate = (\<lambda>u. case u of RWEmbMap_NoOp \<Rightarrow> False | _ \<Rightarrow> True),
     emb_Downstream = (\<lambda>c u. (fst (RWEmbMap_applyDownstream E False c u), snd (snd (RWEmbMap_applyDownstream E False c u)))),
     emb_Read = rd\<rparr>"

lemma embedded_counter: "embedded counter_emb (\<lambda>u v. False) (\<lambda>u v. True)"
  by unfold_locales (simp_all add: counter_emb_def cnt_ops.concurrent_commute)

lemma embedded_map:
  assumes "embedded E before coexist"
  shows "embedded (map_emb E rd) (map_before before) (map_coexist coexist)"
proof unfold_locales
  fix u v c
  assume "map_coexist coexist u v" and "\<not> map_before before u v" and "\<not> map_before before v u"
  from embedded.map_ops_commute [OF assms this, of c]
  show "fst (emb_Downstream (map_emb E rd) (fst (emb_Downstream (map_emb E rd) c u)) v) =
      fst (emb_Downstream (map_emb E rd) (fst (emb_Downstream (map_emb E rd) c v)) u)"
    by (simp add: map_emb_def)
qed (simp add: map_emb_def)

interpretation emb_counters: embedded counter_emb "\<lambda>u v. False" "\<lambda>u v. True"
  by (rule embedded_counter)

interpretation emb_maps: embedded "map_emb counter_emb rd" "map_before (\<lambda>u v. False)" "map_coexist (\<lambda>u v. True)" for rd
  by (rule embedded_map [OF embedded_counter])

section \<open>Removals win\<close>

fun op_removes :: "'u emb_op \<Rightarrow> string \<Rightarrow> (int \<times> int) option" where
  "op_removes (DownstreamRWEmbMapRemoveAll rems ts r) k = (if k \<in> set rems then Some (r, ts) else None)"
| "op_removes u k = None"

fun op_updates :: "'u emb_op \<Rightarrow> string \<Rightarrow> bool" where
  "op_updates u k = (k \<in> fst ` set (upd_list u))"

definition seen_all :: "(int, int) fmap \<Rightarrow> string \<Rightarrow> 'u emb_op list \<Rightarrow> bool" where
  "seen_all rmv k us = list_all (\<lambda>u. case op_removes u k of None \<Rightarrow> True | Some (r, ts) \<Rightarrow> seen rmv r ts) us"

lemma seen_all_simps [simp]:
  "seen_all rmv k []"
  "seen_all rmv k (us @ [u]) \<longleftrightarrow> seen_all rmv k us \<and> (case op_removes u k of None \<Rightarrow> True | Some (r, ts) \<Rightarrow> seen rmv r ts)"
  by (auto simp: seen_all_def)

lemma run_snoc: "run app s (us @ [u]) = fst (app (run app s us) u)"
  by (induction us arbitrary: s) simp_all

lemma run_replicaID [simp]: "emb_replicaID (run (RWEmbMap_applyDownstream E False) c us) = emb_replicaID c"
  by (induction us arbitrary: c) (simp_all add: apply_view)

lemma can_add_updates:
  "can_add rmv (snd (foldl (key_update E rid rmv' r) v us)) = can_add rmv (snd v)"
proof (induction us arbitrary: v)
  case (Cons u us)
  then show ?case by (simp add: key_update_def)
qed simp

lemma updates_entry:
  "fst (foldl (key_update E rid rmv r) v us) \<noteq> None \<longleftrightarrow> fst v \<noteq> None \<or> us \<noteq> [] \<and> can_add rmv (snd v)"
  by (induction us arbitrary: v) (auto simp: key_update_def)

lemma can_add_key_remove:
  assumes earlier: "\<And>rmv. can_add rmv rm \<longleftrightarrow> seen_all rmv k us"
    and ordered: "\<forall>u \<in> set us. \<forall>t. op_removes u k = Some (r, t) \<longrightarrow> t \<le> ts"
  shows "can_add rmv (snd (key_remove r ts (e, rm))) \<longleftrightarrow> seen_all rmv k us \<and> seen rmv r ts"
proof
  assume "seen_all rmv k us \<and> seen rmv r ts"
  then show "can_add rmv (snd (key_remove r ts (e, rm)))"
    using earlier [of rmv] by (cases rm) (auto simp: can_add_def key_remove_def surpasses_add_remove dest: surpassesD)
next
  assume a: "can_add rmv (snd (key_remove r ts (e, rm)))"
  then have ts: "seen rmv r ts" by (simp add: can_add_def key_remove_def surpasses_add_remove)
  define big where "big = (case rm of None \<Rightarrow> ts | Some m \<Rightarrow> (case fmlookup m r of None \<Rightarrow> ts | Some p \<Rightarrow> fst p))"
  have "can_add (fmupd r big rmv) rm"
    using a by (cases rm) (auto simp: can_add_def key_remove_def surpasses_add_remove, force simp: surpasses_seen seen_def big_def)
  then have big: "seen_all (fmupd r big rmv) k us" by (simp add: earlier)
  have "seen rmv q t" if "u \<in> set us" "op_removes u k = Some (q, t)" for u q t
  proof (cases "q = r")
    case True
    then have "t \<le> ts" using that ordered by simp
    then show ?thesis using ts True by (auto simp: seen_def split: option.splits)
  next
    case False
    then show ?thesis using that big by (auto simp: seen_all_def list_all_iff seen_def)
  qed
  with ts show "seen_all rmv k us \<and> seen rmv r ts" by (auto simp: seen_all_def list_all_iff split: option.splits)
qed

lemma earlier_removals:
  assumes "causal_order (map_before before) (us @ [DownstreamRWEmbMapRemoveAll rems ts r])"
  shows "\<forall>u \<in> set us. \<forall>t. op_removes u k = Some (r, t) \<longrightarrow> t \<le> ts"
    and "\<forall>u \<in> set us. \<forall>rmv. upd_clock u = Some rmv \<longrightarrow> \<not> seen rmv r ts"
proof -
  have nb: "\<not> map_before before (DownstreamRWEmbMapRemoveAll rems ts r) u" if "u \<in> set us" for u
    using assms that by (simp add: causal_order_append)
  show "\<forall>u \<in> set us. \<forall>t. op_removes u k = Some (r, t) \<longrightarrow> t \<le> ts"
  proof (intro ballI allI impI)
    fix u t
    assume u: "u \<in> set us" and "op_removes u k = Some (r, t)"
    from this(2) nb [OF u] show "t \<le> ts" by (cases u) (auto split: if_splits)
  qed
  show "\<forall>u \<in> set us. \<forall>rmv. upd_clock u = Some rmv \<longrightarrow> \<not> seen rmv r ts"
  proof (intro ballI allI impI)
    fix u rmv
    assume u: "u \<in> set us" and "upd_clock u = Some rmv"
    from this(2) nb [OF u] show "\<not> seen rmv r ts" by (cases u) auto
  qed
qed

lemma snd_key_op:
  assumes "causal_order (map_before before) (us @ [u])" and "\<And>rmv. can_add rmv (snd v) \<longleftrightarrow> seen_all rmv k us"
  shows "can_add rmv (snd (key_op E rid u k v)) \<longleftrightarrow> seen_all rmv k (us @ [u])"
proof (cases u)
  case (DownstreamRWEmbMapRemoveAll rems ts r)
  have "can_add rmv (snd (key_remove r ts (fst v, snd v))) \<longleftrightarrow> seen_all rmv k us \<and> seen rmv r ts"
    using assms earlier_removals(1) [of before us rems ts r k]
    by (intro can_add_key_remove) (simp_all add: DownstreamRWEmbMapRemoveAll)
  then show ?thesis using assms(2) by (simp add: DownstreamRWEmbMapRemoveAll)
qed (simp_all add: can_add_updates assms(2))

lemma run_removes:
  "causal_order (map_before before) us \<Longrightarrow>
     can_add rmv (snd (key_view (run (RWEmbMap_applyDownstream E False) (RWEmbMap_Initialize rid) us) k)) \<longleftrightarrow> seen_all rmv k us"
proof (induction us arbitrary: rmv rule: rev_induct)
  case Nil
  then show ?case by (simp add: key_view_def RWEmbMap_Initialize_def can_add_def)
next
  case (snoc u us)
  then show ?case by (simp only: run_snoc apply_view run_replicaID) (rule snd_key_op [where before = before], simp_all add: causal_order_append)
qed

text \<open>The operation has an update of the key and has seen all removals of it among \<open>us\<close>.\<close>

definition effective :: "'u emb_op list \<Rightarrow> string \<Rightarrow> 'u emb_op \<Rightarrow> bool" where
  "effective us k u = (op_updates u k \<and> (case upd_clock u of None \<Rightarrow> False | Some rmv \<Rightarrow> seen_all rmv k us))"

lemma for_key_Nil: "for_key k upds = [] \<longleftrightarrow> k \<notin> fst ` set upds"
  by (force simp: for_key_def filter_empty_conv)

lemma effective_snoc:
  assumes "causal_order (map_before before) (us @ [u])" and "w \<in> set us"
  shows "effective (us @ [u]) k w \<longleftrightarrow> effective us k w \<and> op_removes u k = None"
proof (cases u)
  case (DownstreamRWEmbMapRemoveAll rems ts r)
  from earlier_removals(2) [OF assms(1) [unfolded this]] assms(2) show ?thesis
    by (auto simp: DownstreamRWEmbMapRemoveAll effective_def split: option.splits)
qed (simp_all add: effective_def split: option.splits)

lemma run_present:
  "causal_order (map_before before) us \<Longrightarrow>
     fst (key_view (run (RWEmbMap_applyDownstream E False) (RWEmbMap_Initialize rid) us) k) \<noteq> None \<longleftrightarrow> (\<exists>u \<in> set us. effective us k u)"
proof (induction us rule: rev_induct)
  case Nil
  then show ?case by (simp add: key_view_def RWEmbMap_Initialize_def)
next
  case (snoc u us)
  let ?v = "key_view (run (RWEmbMap_applyDownstream E False) (RWEmbMap_Initialize rid) us) k"
  have co: "causal_order (map_before before) us" using snoc.prems by (simp add: causal_order_append)
  have ca: "can_add rmv (snd ?v) \<longleftrightarrow> seen_all rmv k us" for rmv by (rule run_removes [OF co])
  have old: "(\<exists>w \<in> set us. effective (us @ [u]) k w) \<longleftrightarrow> fst ?v \<noteq> None \<and> op_removes u k = None"
    using snoc.IH [OF co] effective_snoc [OF snoc.prems] by auto
  have "fst (key_op E rid' u k ?v) \<noteq> None \<longleftrightarrow> fst ?v \<noteq> None \<and> op_removes u k = None \<or> effective (us @ [u]) k u" for rid'
    by (cases u) (auto simp: updates_entry ca effective_def for_key_Nil key_remove_def simp del: not_None_eq split_paired_Ex)
  with old show ?case by (simp only: run_snoc apply_view run_replicaID) auto
qed

section \<open>The writes of a transaction\<close>

text \<open>
  One client update: prepared at the replica and applied there. The counters of removals
  are positive from the start; an update would otherwise not take them over.
\<close>

definition exec_update :: "('e, 'a, 'u, 'r, 'st) emb_crdt \<Rightarrow> 'e RWEmbMapCrdt \<Rightarrow> 'a emb_update \<Rightarrow> 'e RWEmbMapCrdt" where
  "exec_update E c u = fst (RWEmbMap_applyDownstream E False c (RWEmbMap_Update E c u))"

definition rem_pos :: "rem_entry option \<Rightarrow> bool" where
  "rem_pos rm = (case rm of None \<Rightarrow> True | Some m \<Rightarrow> (\<forall>r t b. fmlookup m r = Some (t, b) \<longrightarrow> 0 < t))"

definition clocks_pos :: "'e RWEmbMapCrdt \<Rightarrow> bool" where
  "clocks_pos c \<longleftrightarrow> (\<forall>r. 0 \<le> rmvClock c r) \<and> (\<forall>k. rem_pos (snd (key_view c k)))"

lemma seen_join_one: "seen m r n \<Longrightarrow> seen (join_one rmvClk m q) r n"
  by (auto simp: join_one_def seen_def Let_def split: option.splits)

lemma seen_join_fold: "seen m r n \<Longrightarrow> seen (foldl (join_one rmvClk) m qs) r n"
  by (induction qs arbitrary: m) (simp_all add: seen_join_one)

lemma seen_join_mono: "seen m r n \<Longrightarrow> seen (join_removes m rmvClk) r n"
  by (simp add: join_removes_def seen_join_fold)

lemma seen_join_covers:
  assumes "fmlookup rmvClk r = Some (t, b)" and "0 < t"
  shows "seen (join_removes m rmvClk) r t"
proof -
  have one: "seen (join_one rmvClk m r) r t" for m
    using assms by (auto simp: join_one_def seen_def Let_def split: option.splits)
  have "r \<in> set qs \<Longrightarrow> seen (foldl (join_one rmvClk) m qs) r t" for qs
    by (induction qs arbitrary: m) (auto simp: one intro: seen_join_fold)
  moreover have "r |\<in>| fmdom rmvClk" using assms(1) by (rule fmdomI)
  ultimately show ?thesis by (simp add: join_removes_def)
qed

lemma prepared_seen_mono: "seen m r n \<Longrightarrow> seen (snd (foldl (prepare_key E c) (ds, m) upds)) r n"
proof (induction upds arbitrary: ds m)
  case (Cons p upds)
  obtain ds' m' where a: "prepare_key E c (ds, m) p = (ds', m')" by (rule prod.exhaust)
  then have "seen m' r n" using Cons.prems by (auto simp: prepare_key_def Let_def seen_join_mono split: option.splits prod.splits)
  then show ?case using Cons.IH by (simp add: a)
qed simp

lemma prepared_can_add:
  assumes "clocks_pos c" and "k \<in> fst ` set upds"
  shows "can_add (snd (foldl (prepare_key E c) (ds, m) upds)) (snd (key_view c k))"
  using assms(2)
proof (induction upds arbitrary: ds m)
  case (Cons p upds)
  obtain ds' m' where a: "prepare_key E c (ds, m) p = (ds', m')" by (rule prod.exhaust)
  show ?case
  proof (cases "k \<in> fst ` set upds")
    case True
    then show ?thesis using Cons.IH by (simp add: a)
  next
    case False
    then have k: "k = fst p" using Cons.prems by simp
    show ?thesis
    proof (cases "fmlookup (emb_removes c) k")
      case (Some rmvClk)
      then have m': "m' = join_removes m rmvClk" using a by (auto simp: prepare_key_def Let_def k split: prod.splits)
      have "seen m' r t" if "fmlookup rmvClk r = Some (t, b)" for r t b
      proof -
        have "rem_pos (snd (key_view c k))" using assms(1) by (simp add: clocks_pos_def)
        then have "0 < t" using that by (auto simp: rem_pos_def key_view_def Some)
        then show ?thesis unfolding m' using that by (intro seen_join_covers)
      qed
      then show ?thesis by (auto simp: a can_add_def key_view_def Some surpasses_seen intro: prepared_seen_mono)
    qed (simp add: can_add_def key_view_def)
  qed
qed simp

lemma prepared_downs: "fst ` set (fst (foldl (prepare_key E c) (ds, m) upds)) \<subseteq> fst ` set ds \<union> fst ` set upds"
proof (induction upds arbitrary: ds m)
  case (Cons p upds)
  obtain ds' m' where a: "prepare_key E c (ds, m) p = (ds', m')" by (rule prod.exhaust)
  then have "fst ` set ds' \<subseteq> fst ` set ds \<union> {fst p}" by (auto simp: prepare_key_def Let_def split: option.splits prod.splits if_splits)
  with Cons.IH [of ds' m'] show ?case by (auto simp: a)
qed simp

text \<open>
  A prepared update adds a key exactly when the embedded operation is one that replicates; one that
  does not is left out of the operation, and an operation with nothing in it is a no-op.
\<close>

lemma exec_updates_present:
  assumes "clocks_pos c" and op: "RWEmbMap_Update E c u \<in> {getUpdateAllDownstreamArgs E c upds, getUpdateAllDownstreamArgsArray E c upds}"
  shows "fst (key_view (exec_update E c u) k) \<noteq> None \<longleftrightarrow> op_updates (RWEmbMap_Update E c u) k \<or> fst (key_view c k) \<noteq> None"
    and "op_updates (RWEmbMap_Update E c u) k \<Longrightarrow> k \<in> fst ` set upds"
proof -
  obtain ds rmv where a: "foldl (prepare_key E c) ([], fmempty) upds = (ds, rmv)" by (rule prod.exhaust)
  have keys: "k \<in> fst ` set upds" if "k \<in> fst ` set ds" using prepared_downs [of E c "[]" fmempty upds] that by (auto simp: a)
  have ok: "can_add rmv (snd (key_view c k))" if "k \<in> fst ` set ds"
    using prepared_can_add [OF assms(1) keys [OF that], of E "[]" fmempty] by (simp add: a)
  have "RWEmbMap_Update E c u \<in> {RWEmbMap_NoOp, DownstreamRWEmbMapUpdateAll ds rmv (emb_replicaID c), DownstreamRWEmbMapUpdateAllArray ds rmv (emb_replicaID c)}"
    using op by (auto simp: getUpdateAllDownstreamArgs_def getUpdateAllDownstreamArgsArray_def a split: if_splits)
  moreover have "fst (foldl (key_update E (emb_replicaID c) rmv (emb_replicaID c)) (key_view c k) (for_key k ds)) \<noteq> None
      \<longleftrightarrow> k \<in> fst ` set ds \<or> fst (key_view c k) \<noteq> None"
    unfolding updates_entry for_key_Nil using ok by blast
  ultimately show "fst (key_view (exec_update E c u) k) \<noteq> None \<longleftrightarrow> op_updates (RWEmbMap_Update E c u) k \<or> fst (key_view c k) \<noteq> None"
    by (auto simp: exec_update_def apply_view simp del: not_None_eq)
  assume "op_updates (RWEmbMap_Update E c u) k"
  with op have "k \<in> fst ` set ds" by (auto simp: getUpdateAllDownstreamArgs_def getUpdateAllDownstreamArgsArray_def a split: if_splits)
  then show "k \<in> fst ` set upds" by (rule keys)
qed

lemma exec_removes_absent:
  assumes "RWEmbMap_Update E c u = getEmbRemoveAllDownstreamArgs c keys"
  shows "fst (key_view (exec_update E c u) k) \<noteq> None \<longleftrightarrow> k \<notin> set keys \<and> fst (key_view c k) \<noteq> None"
  unfolding exec_update_def apply_view assms
  by (auto simp: getEmbRemoveAllDownstreamArgs_def Let_def key_remove_def key_view_def filter_empty_conv)

lemma exec_update_present:
  assumes "clocks_pos c"
  shows "fst (key_view (exec_update E c u) k) \<noteq> None \<longleftrightarrow> (case hasKey_of k u of
     None \<Rightarrow> fst (key_view c k) \<noteq> None
   | Some True \<Rightarrow> op_updates (RWEmbMap_Update E c u) k \<or> fst (key_view c k) \<noteq> None
   | Some False \<Rightarrow> False)"
proof (cases u)
  case (EmbMapUpdate key upd)
  then show ?thesis using exec_updates_present [OF assms, of E u "[(key, upd)]" k] by auto
next
  case (EmbMapUpdateAll upds)
  then show ?thesis using exec_updates_present [OF assms, of E u upds k] by auto
next
  case (EmbMapUpdateAllArray upds)
  then show ?thesis using exec_updates_present [OF assms, of E u upds k] by auto
next
  case (EmbMapRemove key)
  then show ?thesis using exec_removes_absent [of E c u "[key]" k] by auto
next
  case (EmbMapRemoveAll keys)
  then show ?thesis using exec_removes_absent [of E c u keys k] by auto
qed

lemma rem_pos_updates: "rem_pos (snd v) \<Longrightarrow> rem_pos (snd (foldl (key_update E rid rmv r) v us))"
proof (induction us arbitrary: v)
  case (Cons u us)
  have "rem_pos (snd (key_update E rid rmv r v u))"
    using Cons.prems by (cases "snd v") (auto simp: key_update_def rem_pos_def fmlookup_add_mark split: if_splits)
  then show ?case using Cons.IH by simp
qed simp

lemma rem_pos_remove: "rem_pos (snd v) \<Longrightarrow> 0 < ts \<Longrightarrow> rem_pos (snd (key_remove r ts v))"
  by (cases "snd v") (auto simp: key_remove_def rem_pos_def add_remove_simp split: if_splits)

lemma exec_update_clocks:
  assumes "clocks_pos c"
  shows "clocks_pos (exec_update E c u)"
proof -
  have ts: "0 < ts" if "RWEmbMap_Update E c u = DownstreamRWEmbMapRemoveAll rems ts r" for rems ts r
  proof -
    have "ts = rmvClock c (emb_replicaID c) + 1"
      using that by (cases u) (auto simp: getUpdateAllDownstreamArgs_def getUpdateAllDownstreamArgsArray_def
          getEmbRemoveAllDownstreamArgs_def Let_def split: if_splits prod.splits)
    moreover have "0 \<le> rmvClock c (emb_replicaID c)" using assms by (simp add: clocks_pos_def)
    ultimately show ?thesis by simp
  qed
  then have "rem_pos (snd (key_op E (emb_replicaID c) (RWEmbMap_Update E c u) k (key_view c k)))" for k
    using assms by (cases "RWEmbMap_Update E c u") (simp_all add: clocks_pos_def rem_pos_updates rem_pos_remove)
  moreover have "0 \<le> clock_op (RWEmbMap_Update E c u) (rmvClock c) r" for r
    using assms by (cases "RWEmbMap_Update E c u") (auto simp: clocks_pos_def le_max_iff_disj)
  ultimately show ?thesis by (simp add: clocks_pos_def exec_update_def apply_view)
qed

lemma hasKey_loop_append:
  "hasKey_loop key has (us @ vs) = hasKey_loop key (hasKey_loop key has vs) us"
  by (induction us) (auto split: option.splits)

text \<open>Every pending update of the key, prepared when its turn comes, gives an operation on the key.\<close>

fun writes_replicate :: "('e, 'a, 'u, 'r, 'st) emb_crdt \<Rightarrow> string \<Rightarrow> 'e RWEmbMapCrdt \<Rightarrow> 'a emb_update list \<Rightarrow> bool" where
  "writes_replicate E k c [] = True"
| "writes_replicate E k c (u # us) =
     ((hasKey_of k u = Some True \<longrightarrow> op_updates (RWEmbMap_Update E c u) k) \<and> writes_replicate E k (exec_update E c u) us)"

lemma hasKey_pending: "RWEmbMap_hasKey c us k = hasKey_loop k (fst (key_view c k) \<noteq> None) (rev us)"
  by (simp add: RWEmbMap_hasKey_def key_view_def)

lemma hasKey_now: "RWEmbMap_hasKey c [] k \<longleftrightarrow> fmlookup (emb_entries c) k \<noteq> None"
  by (simp add: RWEmbMap_hasKey_def)

lemma hasKey_loop_one: "hasKey_loop k b [u] = (case hasKey_of k u of Some d \<Rightarrow> d | None \<Rightarrow> b)"
  by (simp split: option.split)

lemma hasKey_loop_mono: "hasKey_loop k b us \<Longrightarrow> (b \<Longrightarrow> b') \<Longrightarrow> hasKey_loop k b' us"
  by (induction us) (auto split: option.splits)

lemma exec_clocks: "clocks_pos c \<Longrightarrow> clocks_pos (foldl (exec_update E) c us)"
  by (induction us arbitrary: c) (simp_all add: exec_update_clocks)

lemma hasKey_exec_sound:
  "clocks_pos c \<Longrightarrow> fst (key_view (foldl (exec_update E) c us) k) \<noteq> None \<Longrightarrow> hasKey_loop k (fst (key_view c k) \<noteq> None) (rev us)"
proof (induction us arbitrary: c)
  case (Cons u us)
  have "hasKey_loop k (fst (key_view (exec_update E c u) k) \<noteq> None) (rev us)"
    by (rule Cons.IH) (use Cons.prems in \<open>simp_all add: exec_update_clocks\<close>)
  then show ?case unfolding rev.simps hasKey_loop_append hasKey_loop_one
    by (rule hasKey_loop_mono) (auto simp only: exec_update_present [OF Cons.prems(1)] split: option.splits bool.splits)
qed simp

lemma hasKey_exec:
  "clocks_pos c \<Longrightarrow> writes_replicate E k c us \<Longrightarrow>
     fst (key_view (foldl (exec_update E) c us) k) \<noteq> None \<longleftrightarrow> hasKey_loop k (fst (key_view c k) \<noteq> None) (rev us)"
proof (induction us arbitrary: c)
  case (Cons u us)
  then have "(case hasKey_of k u of Some d \<Rightarrow> d | None \<Rightarrow> fst (key_view c k) \<noteq> None) \<longleftrightarrow> fst (key_view (exec_update E c u) k) \<noteq> None"
    by (auto simp only: exec_update_present [OF Cons.prems(1)] writes_replicate.simps split: option.splits bool.splits)
  with Cons.IH [of "exec_update E c u"] Cons.prems show ?case
    by (simp only: rev.simps hasKey_loop_append hasKey_loop_one foldl.simps exec_update_clocks writes_replicate.simps simp_thms)
qed simp

section \<open>Properties\<close>

lemma counters_coexist:
  "all_coexist (map_coexist (\<lambda>u v. True)) us" "all_coexist (map_coexist (map_coexist (\<lambda>u v. True))) uss"
  by (simp_all add: all_coexist_def map_coexist_def list_all_iff)

text \<open>
  C36. Maps of counters converge, and so do maps of maps of counters: replicas that
  applied the same operations, each in an order that respects causality, are in the same
  state.
\<close>

theorem RWEmbMap_converges:
  fixes us vs :: "counter_op emb_op list" and uss vss :: "counter_op emb_op emb_op list"
  assumes "mset us = mset vs" and "causal_order (map_before (\<lambda>u v. False)) us" and "causal_order (map_before (\<lambda>u v. False)) vs"
    and "mset uss = mset vss" and "causal_order (map_before (map_before (\<lambda>u v. False))) uss"
    and "causal_order (map_before (map_before (\<lambda>u v. False))) vss"
  shows "run (RWEmbMap_applyDownstream counter_emb False) c us = run (RWEmbMap_applyDownstream counter_emb False) c vs
    \<and> run (RWEmbMap_applyDownstream (map_emb counter_emb rd) False) d uss = run (RWEmbMap_applyDownstream (map_emb counter_emb rd) False) d vss"
  using assms counters_coexist
  by (intro conjI emb_counters.mapped.same_ops_same_state emb_maps.mapped.same_ops_same_state)

theorem RWEmbMap_converges_witness:
  "let u = DownstreamRWEmbMapUpdateAll [(''k'', Increment 5)] fmempty 1; v = DownstreamRWEmbMapRemoveAll [''k''] 1 2;
       x = DownstreamRWEmbMapUpdateAll [(''m'', u)] fmempty 1; y = DownstreamRWEmbMapUpdateAll [(''m'', v)] fmempty 2
   in run (RWEmbMap_applyDownstream counter_emb False) (RWEmbMap_Initialize 3) [u, v]
        = run (RWEmbMap_applyDownstream counter_emb False) (RWEmbMap_Initialize 3) [v, u]
    \<and> run (RWEmbMap_applyDownstream (map_emb counter_emb (\<lambda>c (q :: unit) ps. ())) False) (RWEmbMap_Initialize 3) [x, y]
        = run (RWEmbMap_applyDownstream (map_emb counter_emb (\<lambda>c (q :: unit) ps. ())) False) (RWEmbMap_Initialize 3) [y, x]"
  unfolding Let_def
  by (rule RWEmbMap_converges) (simp_all add: causal_order_def seen_def)

text \<open>
  C35. Removals win: after any operations, in an order that respects causality, the map
  has a key exactly when one of them updates the key and has seen all removals of the key that
  are among them, whatever the embedded CRDTs are.
\<close>

theorem RWEmbMap_remove_wins:
  assumes "causal_order (map_before before) us"
  shows "RWEmbMap_hasKey (run (RWEmbMap_applyDownstream E False) (RWEmbMap_Initialize rid) us) [] k \<longleftrightarrow> (\<exists>u \<in> set us. effective us k u)"
  using run_present [OF assms, of E rid k] by (simp add: RWEmbMap_hasKey_def key_view_def)

theorem RWEmbMap_remove_wins_witness:
  "let u = DownstreamRWEmbMapUpdateAll [(''k'', Increment 5)] fmempty 1; v = DownstreamRWEmbMapRemoveAll [''k''] 1 2;
       w = DownstreamRWEmbMapUpdateAll [(''k'', Increment 7)] (fmupd 2 1 fmempty) 1
   in \<not> RWEmbMap_hasKey (run (RWEmbMap_applyDownstream counter_emb False) (RWEmbMap_Initialize 3) [v, u]) [] ''k''
    \<and> RWEmbMap_hasKey (run (RWEmbMap_applyDownstream counter_emb False) (RWEmbMap_Initialize 3) [v, u, w]) [] ''k''"
proof -
  let ?u = "DownstreamRWEmbMapUpdateAll [(''k'', Increment 5)] fmempty 1" and ?v = "DownstreamRWEmbMapRemoveAll [''k''] 1 2"
    and ?w = "DownstreamRWEmbMapUpdateAll [(''k'', Increment 7)] (fmupd 2 1 fmempty) 1"
  have "causal_order (map_before (\<lambda>u v. False)) [?v, ?u]" "causal_order (map_before (\<lambda>u v. False)) [?v, ?u, ?w]"
    by (simp_all add: causal_order_def seen_def)
  from RWEmbMap_remove_wins [OF this(1), of counter_emb 3 "''k''"] RWEmbMap_remove_wins [OF this(2), of counter_emb 3 "''k''"]
  show ?thesis by (simp add: effective_def seen_all_def seen_def)
qed

text \<open>
  C37. A transaction sees its own writes. Its updates are prepared and applied one after the other
  at its replica, from a state whose counters of removals are positive, as they stay. Then: (1) a
  key that is there afterwards is there in the read with the pending updates; (2) the two reads
  agree, whatever was removed before, if every pending update of the key replicates when it is
  prepared; (3) after a further update of the key, the key is there exactly if it was or if that
  update replicates. An update of an embedded CRDT that is a no-op (such as the removal of what is
  not there) does not replicate: it does not add the key, although the pending read says so.
\<close>

theorem RWEmbMap_own_writes:
  assumes "clocks_pos c"
  shows "clocks_pos (foldl (exec_update E) c us)
    \<and> (RWEmbMap_hasKey (foldl (exec_update E) c us) [] k \<longrightarrow> RWEmbMap_hasKey c us k)
    \<and> (writes_replicate E k c us \<longrightarrow> RWEmbMap_hasKey c us k = RWEmbMap_hasKey (foldl (exec_update E) c us) [] k)
    \<and> (hasKey_of k u = Some True \<longrightarrow> RWEmbMap_hasKey c (us @ [u]) k
        \<and> RWEmbMap_hasKey (foldl (exec_update E) c (us @ [u])) [] k
            = (RWEmbMap_hasKey (foldl (exec_update E) c us) [] k \<or> op_updates (RWEmbMap_Update E (foldl (exec_update E) c us) u) k))"
proof -
  have last: "RWEmbMap_hasKey c (us @ [u]) k" if "hasKey_of k u = Some True"
    unfolding hasKey_pending using that by simp
  have "fst (key_view (exec_update E (foldl (exec_update E) c us) u) k) \<noteq> None \<longleftrightarrow>
      op_updates (RWEmbMap_Update E (foldl (exec_update E) c us) u) k \<or> fst (key_view (foldl (exec_update E) c us) k) \<noteq> None" if "hasKey_of k u = Some True"
    using exec_update_present [OF exec_clocks [OF assms], of E E us u k] that by simp
  then have "hasKey_of k u = Some True \<longrightarrow> RWEmbMap_hasKey (foldl (exec_update E) c (us @ [u])) [] k
      = (RWEmbMap_hasKey (foldl (exec_update E) c us) [] k \<or> op_updates (RWEmbMap_Update E (foldl (exec_update E) c us) u) k)"
    by (auto simp: hasKey_pending)
  moreover have "RWEmbMap_hasKey (foldl (exec_update E) c us) [] k \<longrightarrow> RWEmbMap_hasKey c us k"
    using hasKey_exec_sound [OF assms, of E us k] by (simp add: hasKey_pending)
  moreover have "writes_replicate E k c us \<longrightarrow> RWEmbMap_hasKey c us k = RWEmbMap_hasKey (foldl (exec_update E) c us) [] k"
    using hasKey_exec [OF assms, of E k us] by (simp add: hasKey_pending)
  ultimately show ?thesis using last exec_clocks [OF assms] by blast
qed

lemma prepared_all:
  assumes "\<And>e a. emb_MustReplicate E (emb_Update E e a)"
  shows "map fst (fst (foldl (prepare_key E c) (ds, m) upds)) = map fst ds @ map fst upds"
  by (induction upds arbitrary: ds m) (auto simp: prepare_key_def Let_def assms split: option.split)

lemma all_writes_replicate:
  assumes "\<And>e a. emb_MustReplicate E (emb_Update E e a)"
  shows "writes_replicate E k c us"
proof (induction us arbitrary: c)
  case (Cons u us)
  have ds: "k \<in> fst ` set (fst (foldl (prepare_key E c) ([], fmempty) upds))" if "k \<in> fst ` set upds" for upds
    using prepared_all [OF assms, of c "[]" fmempty upds] that by (metis append_Nil list.map(1) set_map)
  have "op_updates (getUpdateAllDownstreamArgs E c upds) k" "op_updates (getUpdateAllDownstreamArgsArray E c upds) k" if k: "k \<in> fst ` set upds" for upds
  proof -
    obtain ds m where a: "foldl (prepare_key E c) ([], fmempty) upds = (ds, m)" by (rule prod.exhaust)
    with ds [OF k] have "k \<in> fst ` set ds" by simp
    moreover from this k have "ds \<noteq> []" "upds \<noteq> []" by auto
    ultimately show "op_updates (getUpdateAllDownstreamArgs E c upds) k" "op_updates (getUpdateAllDownstreamArgsArray E c upds) k"
      by (simp_all add: getUpdateAllDownstreamArgs_def getUpdateAllDownstreamArgsArray_def a)
  qed
  then have "op_updates (RWEmbMap_Update E c u) k" if "hasKey_of k u = Some True"
    using that by (cases u) (simp_all del: op_updates.simps split: if_splits)
  with Cons.IH show ?case by simp
qed simp

text \<open>Counters always replicate; removing an element that an embedded map does not have is a no-op.\<close>

theorem RWEmbMap_own_writes_witness:
  "let us = [EmbMapUpdate ''k'' (Increment 5), EmbMapRemove ''k'', EmbMapUpdateAll [(''k'', Decrement 2)]];
       E = map_emb counter_emb (\<lambda>c (q :: unit) ps. ()); u = EmbMapUpdate ''m'' (EmbMapRemove ''x'') in
   RWEmbMap_hasKey (foldl (exec_update counter_emb) (RWEmbMap_Initialize 1) us) [] ''k''
   \<and> \<not> RWEmbMap_hasKey (foldl (exec_update counter_emb) (RWEmbMap_Initialize 1) (take 2 us)) [] ''k''
   \<and> RWEmbMap_hasKey (RWEmbMap_Initialize 1 :: CounterCrdt RWEmbMapCrdt RWEmbMapCrdt) [u] ''m''
   \<and> \<not> RWEmbMap_hasKey (exec_update E (RWEmbMap_Initialize 1) u) [] ''m''"
proof -
  let ?c = "RWEmbMap_Initialize 1 :: CounterCrdt RWEmbMapCrdt" and ?d = "RWEmbMap_Initialize 1 :: CounterCrdt RWEmbMapCrdt RWEmbMapCrdt"
    and ?E = "map_emb counter_emb (\<lambda>c (q :: unit) ps. ())" and ?u = "EmbMapUpdate ''m'' (EmbMapRemove ''x'')"
  have c: "clocks_pos ?c" "clocks_pos ?d" by (simp_all add: clocks_pos_def RWEmbMap_Initialize_def key_view_def rem_pos_def)
  have "writes_replicate counter_emb k d us" for k d us by (rule all_writes_replicate) (simp add: counter_emb_def)
  then have own: "RWEmbMap_hasKey (foldl (exec_update counter_emb) ?c us) [] k = RWEmbMap_hasKey ?c us k" for us k
    using RWEmbMap_own_writes [OF c(1), THEN conjunct2, THEN conjunct2, THEN conjunct1, of counter_emb k us] by (simp add: hasKey_now)
  have "\<not> op_updates (RWEmbMap_Update ?E ?d ?u) ''m''"
    by (simp add: getUpdateAllDownstreamArgs_def prepare_key_def map_emb_def RWEmbMap_Initialize_def getEmbRemoveAllDownstreamArgs_def)
  then show ?thesis using RWEmbMap_own_writes [OF c(2), where E = ?E and us = "[]" and u = ?u and k = "''m''"]
    unfolding Let_def own by (simp add: RWEmbMap_hasKey_def RWEmbMap_Initialize_def)
qed

lemma collect_key_appends:
  "\<forall>u \<in> set us. hasKey_of key u \<noteq> Some False \<Longrightarrow> \<exists>ys. foldl (collect_key key) xs us = xs @ ys"
proof (induction us arbitrary: xs)
  case (Cons u us)
  then have "\<exists>ys. collect_key key xs u = xs @ ys" by (cases u) (auto split: option.splits if_splits)
  then obtain ys where "collect_key key xs u = xs @ ys" by blast
  moreover obtain zs where "foldl (collect_key key) (xs @ ys) us = (xs @ ys) @ zs" using Cons by fastforce
  ultimately show ?case by simp
qed simp

text \<open>
  Reading a value with pending updates: without a pending removal of the key, two
  pending updates, of whatever keys, make the read panic, as does one of another key; with one
  update of the key the read ignores the CRDT that the map has and reads a new one.
\<close>

theorem getEmbValue_pending:
  assumes "\<forall>u \<in> set us. hasKey_of key u \<noteq> Some False"
  shows "(2 \<le> length us \<longrightarrow> getEmbValue E c us key args = Inl NilDereference)
    \<and> (us = [EmbMapUpdate k upd] \<longrightarrow> getEmbValue E c us key args =
         (if k = key then Inr (Some (emb_Read E (emb_InitializeFor E (emb_replicaID c) upd) args [PendNil, PendUpd upd]))
          else Inl IndexOutOfRange))"
proof (intro conjI impI)
  assume len: "2 \<le> length us"
  define n where "n = min (length us) INITIAL_UPDSNOTAPPLIED_SIZE"
  obtain ys where ys: "foldl (collect_key key) (replicate n PendNil) us = replicate n PendNil @ ys"
    using collect_key_appends [OF assms] by blast
  have n: "1 < n" using len by (simp add: n_def INITIAL_UPDSNOTAPPLIED_SIZE_def)
  then have "(replicate n PendNil @ ys) ! 1 = PendNil" by (simp add: nth_append)
  with n len show "getEmbValue E c us key args = Inl NilDereference"
    by (auto simp: getEmbValue_def ys Let_def n_def [symmetric])
qed (auto simp: getEmbValue_def INITIAL_UPDSNOTAPPLIED_SIZE_def)

theorem getEmbValue_pending_witness:
  "let c = fst (RWEmbMap_applyDownstream counter_emb False (RWEmbMap_Initialize 1) (DownstreamRWEmbMapUpdateAll [(''k'', Increment 5)] fmempty 1)) in
     getEmbValue counter_emb c [] ''k'' () = Inr (Some 5)
   \<and> getEmbValue counter_emb c [EmbMapUpdate ''k'' (Increment 1)] ''k'' () = Inr (Some 1)
   \<and> getEmbValue counter_emb c [EmbMapUpdate ''k'' (Increment 1), EmbMapUpdate ''k'' (Increment 1)] ''k'' () = Inl NilDereference"
proof -
  define c where "c = fst (RWEmbMap_applyDownstream counter_emb False (RWEmbMap_Initialize 1) (DownstreamRWEmbMapUpdateAll [(''k'', Increment 5)] fmempty 1))"
  have "getEmbValue counter_emb c [] ''k'' () = Inr (Some 5)"
    by (simp add: c_def applyUpdateAll_def apply_emb_def RWEmbMap_Initialize_def getEmbValue_def counter_emb_def
        Counter_Initialize_def Counter_Read_def swrap_def)
  moreover have "getEmbValue counter_emb c [EmbMapUpdate ''k'' (Increment 1)] ''k'' () = Inr (Some 1)"
    using getEmbValue_pending [of "[EmbMapUpdate ''k'' (Increment 1)]" "''k''" counter_emb c "()" "''k''" "Increment 1"]
    by (simp add: counter_emb_def Counter_Initialize_def Counter_Read_def swrap_def)
  moreover have "getEmbValue counter_emb c [EmbMapUpdate ''k'' (Increment 1), EmbMapUpdate ''k'' (Increment 1)] ''k'' () = Inl NilDereference"
    using getEmbValue_pending [of "[EmbMapUpdate ''k'' (Increment 1), EmbMapUpdate ''k'' (Increment 1)]" "''k''" counter_emb c "()"] by simp
  ultimately show ?thesis by (simp add: c_def Let_def)
qed

end
