(* ===== verification/CounterFloat.thy ===== *)
theory CounterFloat
  imports Convergence Float64
begin

text \<open>
  The counter of \<^verbatim>\<open>crdt/crdt/counterFloatCRDT.go\<close>: one \<open>float64\<close> with increments and
  decrements. Its operations do not commute in general, because double precision addition
  rounds; they do on the values where the sums are exact.
\<close>

type_synonym CounterFloatCrdt = float64

datatype counter_float_op = IncrementFloat float64 | DecrementFloat float64

datatype counter_float_effect = IncrementFloatEffect float64 | DecrementFloatEffect float64

definition CounterFloat_Initialize :: CounterFloatCrdt where
  "CounterFloat_Initialize = fzero"

fun CounterFloat_pending :: "float64 \<Rightarrow> counter_float_op \<Rightarrow> float64" where
  "CounterFloat_pending copyValue (IncrementFloat change) = fadd copyValue change"
| "CounterFloat_pending copyValue (DecrementFloat change) = fsub copyValue change"

definition CounterFloat_Read :: "CounterFloatCrdt \<Rightarrow> counter_float_op list \<Rightarrow> float64" where
  "CounterFloat_Read c updsNotYetApplied =
     (if updsNotYetApplied = [] then c else foldl CounterFloat_pending c updsNotYetApplied)"

definition CounterFloat_Update :: "CounterFloatCrdt \<Rightarrow> counter_float_op \<Rightarrow> counter_float_op" where
  "CounterFloat_Update c args = args"

fun CounterFloat_applyDownstream ::
    "CounterFloatCrdt \<Rightarrow> counter_float_op \<Rightarrow> CounterFloatCrdt \<times> counter_float_effect" where
  "CounterFloat_applyDownstream c (IncrementFloat change) = (fadd c change, IncrementFloatEffect change)"
| "CounterFloat_applyDownstream c (DecrementFloat change) = (fsub c change, DecrementFloatEffect change)"

definition CounterFloat_Downstream ::
    "bool \<Rightarrow> (counter_float_op, counter_float_effect) History list \<times> CounterFloatCrdt \<Rightarrow> ClockSiTimestamp
       \<Rightarrow> counter_float_op \<Rightarrow> (counter_float_op, counter_float_effect) History list \<times> CounterFloatCrdt" where
  "CounterFloat_Downstream vmDisabled c updTs downstreamArgs = (case c of (history, v) \<Rightarrow>
     (case CounterFloat_applyDownstream v downstreamArgs of (v', effect) \<Rightarrow>
        (addToHistory vmDisabled history updTs downstreamArgs effect, v')))"

fun CounterFloat_undoEffect :: "CounterFloatCrdt \<Rightarrow> counter_float_effect \<Rightarrow> CounterFloatCrdt go" where
  "CounterFloat_undoEffect c (IncrementFloatEffect change) = Inr (fsub c change)"
| "CounterFloat_undoEffect c (DecrementFloatEffect change) = Inr (fadd c change)"

definition CounterFloat_reapplyOp ::
    "CounterFloatCrdt \<Rightarrow> counter_float_op \<Rightarrow> (CounterFloatCrdt \<times> counter_float_effect) go" where
  "CounterFloat_reapplyOp c updArgs = Inr (CounterFloat_applyDownstream c updArgs)"

section \<open>Protobuf conversions\<close>

record ProtoCounterFloatDownstream =
  FIsInc :: bool
  FChange :: float64

fun CounterFloat_ToReplicatorObj :: "counter_float_op \<Rightarrow> ProtoCounterFloatDownstream" where
  "CounterFloat_ToReplicatorObj (IncrementFloat change) = \<lparr>FIsInc = True, FChange = change\<rparr>"
| "CounterFloat_ToReplicatorObj (DecrementFloat change) = \<lparr>FIsInc = False, FChange = fneg change\<rparr>"

definition downstreamProtoCounterFloatToAntidoteDownstream ::
    "ProtoCounterFloatDownstream \<Rightarrow> counter_float_op" where
  "downstreamProtoCounterFloatToAntidoteDownstream pb =
     (if FIsInc pb then IncrementFloat (FChange pb) else DecrementFloat (fneg (FChange pb)))"

fun CounterFloat_ToUpdateObject :: "counter_float_op \<Rightarrow> float64" where
  "CounterFloat_ToUpdateObject (IncrementFloat change) = change"
| "CounterFloat_ToUpdateObject (DecrementFloat change) = fneg change"

text \<open>The server reads every client update as an increment.\<close>

definition CounterFloat_FromUpdateObject :: "float64 \<Rightarrow> counter_float_op" where
  "CounterFloat_FromUpdateObject inc = IncrementFloat inc"

definition CounterFloat_ToProtoState :: "CounterFloatCrdt \<Rightarrow> float64" where
  "CounterFloat_ToProtoState c = c"

definition CounterFloat_FromProtoState :: "float64 \<Rightarrow> CounterFloatCrdt" where
  "CounterFloat_FromProtoState pb = pb"

section \<open>The contract of undoing\<close>

primrec cf_change :: "counter_float_op \<Rightarrow> bool \<times> float64" where
  "cf_change (IncrementFloat change) = (True, change)"
| "cf_change (DecrementFloat change) = (False, change)"

text \<open>The update is exact: both values and their sum are finite doubles.\<close>

definition cf_exact :: "CounterFloatCrdt \<Rightarrow> counter_float_op \<Rightarrow> bool" where
  "cf_exact c u \<longleftrightarrow> c = Fin (units c) \<and> snd (cf_change u) = Fin (units (snd (cf_change u)))
     \<and> representable (units c) \<and> representable (units c + signed_units (cf_change u))"

interpretation cfl: inversible CounterFloat_applyDownstream CounterFloat_undoEffect cf_exact
proof
  fix s u
  assume ok: "cf_exact s u"
  then obtain a b where s: "s = Fin a" and b: "snd (cf_change u) = Fin b" by (auto simp: cf_exact_def)
  show "CounterFloat_undoEffect (fst (CounterFloat_applyDownstream s u)) (snd (CounterFloat_applyDownstream s u)) = Inr s"
  proof (cases u)
    case (IncrementFloat x)
    with ok b have "representable a" "representable (a + b)" "x = Fin b"
      by (simp_all add: s cf_exact_def signed_units_def)
    then show ?thesis using fsub_exact [of "a + b" b] by (simp add: IncrementFloat s representable_def)
  next
    case (DecrementFloat x)
    with ok b have "representable a" "representable (a - b)" "x = Fin b"
      by (simp_all add: s cf_exact_def signed_units_def)
    then show ?thesis using fsub_exact [of a b] by (simp add: DecrementFloat s representable_def)
  qed
qed

section \<open>Exact sums\<close>

lemma cf_apply: "fst (CounterFloat_applyDownstream c u) = fchange c (cf_change u)"
  by (cases u) (simp_all add: fchange_def)

lemma cf_run: "run CounterFloat_applyDownstream c us = foldl fchange c (map cf_change us)"
  by (induction us arbitrary: c) (simp_all add: cf_apply)

lemma CounterFloat_Read_run: "CounterFloat_Read c us = run CounterFloat_applyDownstream c us"
proof -
  have "CounterFloat_pending c u = fchange c (cf_change u)" for c u by (cases u) (simp_all add: fchange_def)
  then have "foldl CounterFloat_pending c us = run CounterFloat_applyDownstream c us"
    by (induction us arbitrary: c) (simp_all add: cf_apply)
  then show ?thesis by (cases us) (simp_all add: CounterFloat_Read_def)
qed

lemma cf_run_ok:
  "grid_changes j a (map cf_change us) \<Longrightarrow> run_ok CounterFloat_applyDownstream cf_exact (Fin a) us"
proof (induction us arbitrary: a)
  case (Cons u us)
  let ?d = "cf_change u"
  from Cons.prems have "grid_changes j a (?d # map cf_change us)" by simp
  note step = grid_changes_Cons [OF this]
  have "\<bar>a\<bar> \<le> grid_bound j" "\<bar>a + signed_units ?d\<bar> \<le> grid_bound j" "on_grid j (snd ?d)"
    using Cons.prems step sum_abs_nonneg [of "map cf_change us"] by (auto simp: grid_changes_def)
  then have "cf_exact (Fin a) u"
    using Cons.prems step grid_representable [of j a] grid_representable [of j "a + signed_units ?d"]
    by (auto simp: cf_exact_def grid_changes_def on_grid_def)
  with step Cons.IH show ?case by (simp add: cf_apply)
qed simp

lemma cf_order:
  fixes big one
  defines "big \<equiv> IncrementFloat (Fin (2 ^ 53 * one_units))" and "one \<equiv> IncrementFloat (Fin one_units)"
  shows "mset [big, one, one] = mset [one, one, big] \<and> length [big, one, one] = 3 \<and>
    run CounterFloat_applyDownstream CounterFloat_Initialize [big, one, one]
      \<noteq> run CounterFloat_applyDownstream CounterFloat_Initialize [one, one, big]"
proof -
  have r: "fround (d * one_units) = Fin (d * one_units)" if "\<bar>d\<bar> \<le> 2 ^ 53" for d
    using that fround_units [of d 1074] by (simp add: one_units_def)
  have f: "fround ((2 ^ 52 + 1) * 2 ^ 1075) = Fin ((2 ^ 52 + 1) * 2 ^ 1075)"
    by (rule fround_units) simp_all
  have u: "(2 ^ 52 + 1) * 2 ^ 1075 = 9007199254740994 * one_units"
    by (simp add: one_units_def)
  have "fround (9007199254740994 * one_units) = Fin (9007199254740994 * one_units)"
    using f unfolding u .
  moreover have "fround (2 ^ 53 * one_units) = Fin (2 ^ 53 * one_units)" using r [of "2 ^ 53"] by simp
  moreover have "fround one_units = Fin one_units" using r [of 1] by simp
  moreover have "fround (one_units + one_units) = Fin (2 * one_units)" using r [of 2] by simp
  ultimately show ?thesis using fadd_absorbs
    by (simp add: big_def one_def CounterFloat_Initialize_def)
qed

text \<open>
  Undoing, had it the object itself, would give back old versions from single-update entries
  in the same range. The program binds the undo method to the receiver of \<open>Initialize\<close>,
  as it does for the integer counter, so this is a fact about the methods only.
\<close>

lemma CounterFloat_undo_exact:
  assumes "grid_changes j 0 (map cf_change us)"
    and "deliver_all False CounterFloat_applyDownstream ([], CounterFloat_Initialize) (zip ts us) = (h, v)"
    and "length ts = length us" and "ordered_history target h" and "\<forall>e \<in> set h. length (updsArgs e) = 1"
  shows "\<exists>h'. rebuildCRDTToVersion False CounterFloat_undoEffect CounterFloat_reapplyOp (\<lambda>t s. Inr s) target h v
    = Inr (h', version_at CounterFloat_applyDownstream CounterFloat_Initialize target h)"
proof -
  have "run_ok CounterFloat_applyDownstream cf_exact CounterFloat_Initialize (map snd (zip ts us))"
    using cf_run_ok [OF assms(1)] assms(3) by (simp add: CounterFloat_Initialize_def)
  with assms show ?thesis by (intro cfl.rebuild_version_single [where ds = "zip ts us"]) simp_all
qed

text \<open>
  C14. The float counter is exact where doubles are: while all changes are multiples of one
  power of two and their absolute values sum to at most \<open>2 ^ 53\<close> of those steps, every order
  of the updates gives the exact sum. A transaction reads its own pending writes as if they
  had been applied, whatever the values. Outside that range replicas that applied the same
  three increments in different orders can hold different values.
\<close>

theorem CounterFloat_exact_sums:
  assumes "grid_changes j 0 (map cf_change us)"
  shows "(mset vs = mset us \<longrightarrow>
      run CounterFloat_applyDownstream CounterFloat_Initialize vs = Fin (sum_list (map (signed_units \<circ> cf_change) us)))
    \<and> CounterFloat_Read c ps = run CounterFloat_applyDownstream c ps
    \<and> (\<exists>xs ys. mset xs = mset ys \<and> length xs = 3 \<and>
        run CounterFloat_applyDownstream CounterFloat_Initialize xs
          \<noteq> run CounterFloat_applyDownstream CounterFloat_Initialize ys)"
proof (intro conjI impI)
  assume eq: "mset vs = mset us"
  then have m: "mset (map cf_change us) = mset (map cf_change vs)" by simp
  have s: "sum_list (map signed_units (map cf_change vs)) = sum_list (map (signed_units \<circ> cf_change) us)"
    using sum_list_permuted [OF eq, of "signed_units \<circ> cf_change"] by simp
  show "run CounterFloat_applyDownstream CounterFloat_Initialize vs = Fin (sum_list (map (signed_units \<circ> cf_change) us))"
    using fchanges_exact [OF grid_changes_mset [OF m assms]] s
    by (simp add: cf_run CounterFloat_Initialize_def)
next
  show "CounterFloat_Read c ps = run CounterFloat_applyDownstream c ps" by (rule CounterFloat_Read_run)
next
  let ?big = "IncrementFloat (Fin (2 ^ 53 * one_units))" and ?one = "IncrementFloat (Fin one_units)"
  show "\<exists>xs ys. mset xs = mset ys \<and> length xs = 3 \<and>
      run CounterFloat_applyDownstream CounterFloat_Initialize xs
        \<noteq> run CounterFloat_applyDownstream CounterFloat_Initialize ys"
    by (rule exI [of _ "[?big, ?one, ?one]"], rule exI [of _ "[?one, ?one, ?big]"]) (rule cf_order)
qed

theorem CounterFloat_exact_sums_witness:
  "run CounterFloat_applyDownstream CounterFloat_Initialize
      [DecrementFloat (Fin one_units), IncrementFloat (Fin (3 * one_units))] = Fin (2 * one_units)
   \<and> CounterFloat_Read CounterFloat_Initialize
      [DecrementFloat (Fin one_units), IncrementFloat (Fin (3 * one_units))] = Fin (2 * one_units)"
proof -
  have "2 ^ 1074 dvd one_units" "4 * one_units \<le> grid_bound 1074"
    unfolding one_units_def grid_bound_def by (rule dvd_refl) (rule mult_right_mono; simp)
  then have g: "grid_changes 1074 0 (map cf_change [IncrementFloat (Fin (3 * one_units)), DecrementFloat (Fin one_units)])"
    by (simp add: grid_changes_def abs_mult abs_of_pos)
  from CounterFloat_exact_sums [OF g, of "[DecrementFloat (Fin one_units), IncrementFloat (Fin (3 * one_units))]"]
  show ?thesis by (simp add: signed_units_def)
qed

section \<open>Messages\<close>

text \<open>
  Unlike the integer counter, both directions negate a decrement, so the operations survive
  replication, and a client's update has its effect on the value.
\<close>

lemma CounterFloat_replicated:
  "downstreamProtoCounterFloatToAntidoteDownstream (CounterFloat_ToReplicatorObj u) = u"
  by (cases u) (simp_all add: downstreamProtoCounterFloatToAntidoteDownstream_def)

lemma CounterFloat_client:
  "fst (CounterFloat_applyDownstream c (CounterFloat_FromUpdateObject (CounterFloat_ToUpdateObject u)))
     = fst (CounterFloat_applyDownstream c u)"
  by (cases u) (simp_all add: CounterFloat_FromUpdateObject_def fsub_def)

lemma CounterFloat_snapshot: "CounterFloat_FromProtoState (CounterFloat_ToProtoState c) = c"
  by (simp add: CounterFloat_FromProtoState_def CounterFloat_ToProtoState_def)

end
