(* ===== verification/PairCounter.thy ===== *)
theory PairCounter
  imports Convergence Float64
begin

text \<open>
  The pair counter of \<^verbatim>\<open>crdt/crdt/pairCounterCrdt.go\<close>: a 32-bit integer and a \<open>float64\<close>
  that are changed separately or together. The operation types are the declared ones, with
  \<open>DecrementFirst\<close> a float and \<open>IncrementSecond\<close> a 32-bit integer. \<open>other\<close> is
  what the implementation returns for a conversion to \<open>int32\<close> that does not fit.
\<close>

record PairCounterCrdt =
  first :: int
  second :: float64

datatype pair_op = IncrementFirst int | DecrementFirst float64 | IncrementSecond int
  | DecrementSecond float64 | IncrementBoth int float64 | DecrementBoth int float64

datatype pair_effect = IncrementFirstEffect int | DecrementFirstEffect int
  | IncrementSecondEffect float64 | DecrementSecondEffect float64
  | IncrementBothEffect int float64 | DecrementBothEffect int float64

definition PairCounter_Initialize :: PairCounterCrdt where
  "PairCounter_Initialize = \<lparr>first = 0, second = fzero\<rparr>"

section \<open>Reads\<close>

fun getState_pending :: "(float64 \<Rightarrow> int) \<Rightarrow> int \<times> float64 \<Rightarrow> pair_op \<Rightarrow> int \<times> float64" where
  "getState_pending other (a, b) (IncrementFirst d) = (int32 (a + d), b)"
| "getState_pending other (a, b) (DecrementFirst d) = (int32 (a - int32_of_float other d), b)"
| "getState_pending other (a, b) (IncrementSecond d) = (a, fadd b (float64_of_int d))"
| "getState_pending other (a, b) (DecrementSecond d) = (a, fsub b d)"
| "getState_pending other (a, b) (IncrementBoth d e) = (int32 (a + d), fadd b e)"
| "getState_pending other (a, b) (DecrementBoth d e) = (int32 (a - d), fsub b e)"

definition PairCounter_getState :: "(float64 \<Rightarrow> int) \<Rightarrow> PairCounterCrdt \<Rightarrow> pair_op list \<Rightarrow> int \<times> float64" where
  "PairCounter_getState other c updsNotYetApplied =
     (if updsNotYetApplied = [] then (first c, second c)
      else foldl (getState_pending other) (0, fzero) updsNotYetApplied)"

fun getFirst_pending :: "(float64 \<Rightarrow> int) \<Rightarrow> int \<Rightarrow> pair_op \<Rightarrow> int" where
  "getFirst_pending other v (IncrementFirst d) = int32 (v + d)"
| "getFirst_pending other v (DecrementFirst d) = int32 (v - int32_of_float other d)"
| "getFirst_pending other v (IncrementBoth d e) = int32 (v + d)"
| "getFirst_pending other v (DecrementBoth d e) = int32 (v - d)"
| "getFirst_pending other v _ = v"

definition PairCounter_getFirst :: "(float64 \<Rightarrow> int) \<Rightarrow> PairCounterCrdt \<Rightarrow> pair_op list \<Rightarrow> int" where
  "PairCounter_getFirst other c updsNotYetApplied =
     (if updsNotYetApplied = [] then first c else foldl (getFirst_pending other) 0 updsNotYetApplied)"

fun getSecond_pending :: "float64 \<Rightarrow> pair_op \<Rightarrow> float64" where
  "getSecond_pending v (IncrementSecond d) = fadd v (float64_of_int d)"
| "getSecond_pending v (DecrementSecond d) = fsub v d"
| "getSecond_pending v (IncrementBoth d e) = fadd v e"
| "getSecond_pending v (DecrementBoth d e) = fsub v e"
| "getSecond_pending v _ = v"

definition PairCounter_getSecond :: "PairCounterCrdt \<Rightarrow> pair_op list \<Rightarrow> float64" where
  "PairCounter_getSecond c updsNotYetApplied =
     (if updsNotYetApplied = [] then second c else foldl getSecond_pending fzero updsNotYetApplied)"

datatype pair_read = StateReadArguments | ReadFirstArguments | ReadSecondArguments | OtherReadArguments

datatype pair_state = PairCounterState int float64 | SingleFirstCounterState int
  | SingleSecondCounterState float64 | NilState

fun PairCounter_Read :: "(float64 \<Rightarrow> int) \<Rightarrow> PairCounterCrdt \<Rightarrow> pair_read \<Rightarrow> pair_op list \<Rightarrow> pair_state" where
  "PairCounter_Read other c StateReadArguments us = (case PairCounter_getState other c us of (a, b) \<Rightarrow> PairCounterState a b)"
| "PairCounter_Read other c ReadFirstArguments us = SingleFirstCounterState (PairCounter_getFirst other c us)"
| "PairCounter_Read other c ReadSecondArguments us = SingleSecondCounterState (PairCounter_getSecond c us)"
| "PairCounter_Read other c OtherReadArguments us = NilState"

section \<open>Updates\<close>

definition PairCounter_Update :: "PairCounterCrdt \<Rightarrow> pair_op \<Rightarrow> pair_op" where
  "PairCounter_Update c args = args"

text \<open>The two joint operations do not set the effect, which stays the nil interface.\<close>

fun PairCounter_applyDownstream ::
    "(float64 \<Rightarrow> int) \<Rightarrow> PairCounterCrdt \<Rightarrow> pair_op \<Rightarrow> PairCounterCrdt \<times> pair_effect effect" where
  "PairCounter_applyDownstream other c (IncrementFirst d) =
     (c\<lparr>first := int32 (first c + d)\<rparr>, Eff (IncrementFirstEffect d))"
| "PairCounter_applyDownstream other c (DecrementFirst d) =
     (c\<lparr>first := int32 (first c - int32_of_float other d)\<rparr>, Eff (DecrementFirstEffect (int32_of_float other d)))"
| "PairCounter_applyDownstream other c (IncrementSecond d) =
     (c\<lparr>second := fadd (second c) (float64_of_int d)\<rparr>, Eff (IncrementSecondEffect (float64_of_int d)))"
| "PairCounter_applyDownstream other c (DecrementSecond d) =
     (c\<lparr>second := fsub (second c) d\<rparr>, Eff (DecrementSecondEffect d))"
| "PairCounter_applyDownstream other c (IncrementBoth d e) =
     (c\<lparr>first := int32 (first c + d), second := fadd (second c) e\<rparr>, NilEffect)"
| "PairCounter_applyDownstream other c (DecrementBoth d e) =
     (c\<lparr>first := int32 (first c - d), second := fsub (second c) e\<rparr>, NilEffect)"

definition PairCounter_Downstream ::
    "(float64 \<Rightarrow> int) \<Rightarrow> bool \<Rightarrow> (pair_op, pair_effect effect) History list \<times> PairCounterCrdt \<Rightarrow> ClockSiTimestamp
       \<Rightarrow> pair_op \<Rightarrow> (pair_op, pair_effect effect) History list \<times> PairCounterCrdt" where
  "PairCounter_Downstream other vmDisabled c updTs downstreamArgs = (case c of (history, s) \<Rightarrow>
     (case PairCounter_applyDownstream other s downstreamArgs of (s', effect) \<Rightarrow>
        (addToHistory vmDisabled history updTs downstreamArgs effect, s')))"

fun PairCounter_undoEffect :: "PairCounterCrdt \<Rightarrow> pair_effect effect \<Rightarrow> PairCounterCrdt go" where
  "PairCounter_undoEffect c (Eff (IncrementFirstEffect d)) = Inr (c\<lparr>first := int32 (first c - d)\<rparr>)"
| "PairCounter_undoEffect c (Eff (DecrementFirstEffect d)) = Inr (c\<lparr>first := int32 (first c + d)\<rparr>)"
| "PairCounter_undoEffect c (Eff (IncrementSecondEffect e)) = Inr (c\<lparr>second := fsub (second c) e\<rparr>)"
| "PairCounter_undoEffect c (Eff (DecrementSecondEffect e)) = Inr (c\<lparr>second := fadd (second c) e\<rparr>)"
| "PairCounter_undoEffect c (Eff (IncrementBothEffect d e)) =
     Inr (c\<lparr>first := int32 (first c - d), second := fsub (second c) e\<rparr>)"
| "PairCounter_undoEffect c (Eff (DecrementBothEffect d e)) =
     Inr (c\<lparr>first := int32 (first c + d), second := fadd (second c) e\<rparr>)"
| "PairCounter_undoEffect c NoEffect = Inr c"
| "PairCounter_undoEffect c NilEffect = Inr c"

definition PairCounter_reapplyOp ::
    "(float64 \<Rightarrow> int) \<Rightarrow> PairCounterCrdt \<Rightarrow> pair_op \<Rightarrow> (PairCounterCrdt \<times> pair_effect effect) go" where
  "PairCounter_reapplyOp other c updArgs = Inr (PairCounter_applyDownstream other c updArgs)"

section \<open>Protobuf conversions\<close>

text \<open>Optional fields; the generated getters return zero for an unset one.\<close>

record ApbPairCounterUpdate =
  IncFirst :: "int option"
  IncSecond :: "float64 option"

definition GetIncFirst :: "ApbPairCounterUpdate \<Rightarrow> int" where
  "GetIncFirst pb = (case IncFirst pb of None \<Rightarrow> 0 | Some d \<Rightarrow> d)"

definition GetIncSecond :: "ApbPairCounterUpdate \<Rightarrow> float64" where
  "GetIncSecond pb = (case IncSecond pb of None \<Rightarrow> fzero | Some d \<Rightarrow> d)"

fun PairCounter_ToUpdateObject :: "(float64 \<Rightarrow> int) \<Rightarrow> pair_op \<Rightarrow> ApbPairCounterUpdate" where
  "PairCounter_ToUpdateObject other (IncrementFirst d) = \<lparr>IncFirst = Some d, IncSecond = None\<rparr>"
| "PairCounter_ToUpdateObject other (IncrementSecond d) = \<lparr>IncFirst = None, IncSecond = Some (float64_of_int d)\<rparr>"
| "PairCounter_ToUpdateObject other (IncrementBoth d e) = \<lparr>IncFirst = Some d, IncSecond = Some e\<rparr>"
| "PairCounter_ToUpdateObject other (DecrementFirst d) =
     \<lparr>IncFirst = Some (int32_of_float other (fneg d)), IncSecond = None\<rparr>"
| "PairCounter_ToUpdateObject other (DecrementSecond e) = \<lparr>IncFirst = None, IncSecond = Some (fneg e)\<rparr>"
| "PairCounter_ToUpdateObject other (DecrementBoth d e) =
     \<lparr>IncFirst = Some (int32 (- d)), IncSecond = Some (fneg e)\<rparr>"

text \<open>
  The dispatcher looks at the signs and calls one of the \<open>FromUpdateObject\<close> methods; the one
  of \<open>DecrementBoth\<close> builds an \<open>IncrementBoth\<close>.
\<close>

definition updatePairCounterProtoToAntidoteUpdate :: "(float64 \<Rightarrow> int) \<Rightarrow> ApbPairCounterUpdate \<Rightarrow> pair_op" where
  "updatePairCounterProtoToAntidoteUpdate other pb =
     (let incFirst = GetIncFirst pb; incSecond = GetIncSecond pb
      in if incFirst \<noteq> 0 \<and> \<not> fis_zero incSecond
         then (if incFirst < 0 \<and> fnegative incSecond then IncrementBoth (int32 (- incFirst)) (fneg incSecond)
               else IncrementBoth incFirst incSecond)
         else if incFirst \<noteq> 0
         then (if incFirst < 0 then DecrementFirst (float64_of_int (int32 (- incFirst))) else IncrementFirst incFirst)
         else (if fnegative incSecond then DecrementSecond (fneg incSecond)
               else IncrementSecond (int32_of_float other incSecond)))"

record ProtoPairCounterDownstream =
  PIsInc :: bool
  FirstChange :: "int option"
  SecondChange :: "float64 option"

definition GetFirstChange :: "ProtoPairCounterDownstream \<Rightarrow> int" where
  "GetFirstChange pb = (case FirstChange pb of None \<Rightarrow> 0 | Some d \<Rightarrow> d)"

definition GetSecondChange :: "ProtoPairCounterDownstream \<Rightarrow> float64" where
  "GetSecondChange pb = (case SecondChange pb of None \<Rightarrow> fzero | Some d \<Rightarrow> d)"

fun PairCounter_ToReplicatorObj :: "(float64 \<Rightarrow> int) \<Rightarrow> pair_op \<Rightarrow> ProtoPairCounterDownstream" where
  "PairCounter_ToReplicatorObj other (IncrementFirst d) = \<lparr>PIsInc = True, FirstChange = Some d, SecondChange = None\<rparr>"
| "PairCounter_ToReplicatorObj other (IncrementSecond d) =
     \<lparr>PIsInc = True, FirstChange = None, SecondChange = Some (float64_of_int d)\<rparr>"
| "PairCounter_ToReplicatorObj other (IncrementBoth d e) =
     \<lparr>PIsInc = True, FirstChange = Some d, SecondChange = Some e\<rparr>"
| "PairCounter_ToReplicatorObj other (DecrementFirst d) =
     \<lparr>PIsInc = False, FirstChange = Some (int32_of_float other (fneg d)), SecondChange = None\<rparr>"
| "PairCounter_ToReplicatorObj other (DecrementSecond e) =
     \<lparr>PIsInc = False, FirstChange = None, SecondChange = Some (fneg e)\<rparr>"
| "PairCounter_ToReplicatorObj other (DecrementBoth d e) =
     \<lparr>PIsInc = False, FirstChange = Some (int32 (- d)), SecondChange = Some (fneg e)\<rparr>"

definition downstreamProtoPairCounterToAntidoteDownstream ::
    "(float64 \<Rightarrow> int) \<Rightarrow> ProtoPairCounterDownstream \<Rightarrow> pair_op" where
  "downstreamProtoPairCounterToAntidoteDownstream other pb =
     (let firstChange = GetFirstChange pb; secondChange = GetSecondChange pb
      in if PIsInc pb
         then (if firstChange \<noteq> 0 \<and> \<not> fis_zero secondChange then IncrementBoth firstChange secondChange
               else if firstChange \<noteq> 0 then IncrementFirst firstChange
               else IncrementSecond (int32_of_float other secondChange))
         else if firstChange \<noteq> 0 \<and> \<not> fis_zero secondChange
         then DecrementBoth (int32 (- firstChange)) (fneg secondChange)
         else if firstChange \<noteq> 0 then DecrementFirst (float64_of_int (int32 (- firstChange)))
         else DecrementSecond (fneg secondChange))"

definition PairCounter_ToProtoState :: "PairCounterCrdt \<Rightarrow> int \<times> float64" where
  "PairCounter_ToProtoState c = (first c, second c)"

definition PairCounter_FromProtoState :: "int \<times> float64 \<Rightarrow> PairCounterCrdt" where
  "PairCounter_FromProtoState pb = (case pb of (a, b) \<Rightarrow> \<lparr>first = a, second = b\<rparr>)"

section \<open>Client replies\<close>

text \<open>Calling a method of the nil state panics.\<close>

fun PairCounter_ToReadResp :: "pair_state \<Rightarrow> (int option \<times> float64 option) go" where
  "PairCounter_ToReadResp (PairCounterState a b) = Inr (Some a, Some b)"
| "PairCounter_ToReadResp (SingleFirstCounterState a) = Inr (Some a, None)"
| "PairCounter_ToReadResp (SingleSecondCounterState b) = Inr (None, Some b)"
| "PairCounter_ToReadResp NilState = Inl NilDereference"

text \<open>The reader of a second-component reply builds the first-component type.\<close>

definition PairCounter_FromReadResp ::
    "(float64 \<Rightarrow> int) \<Rightarrow> pair_read \<Rightarrow> int option \<times> float64 option \<Rightarrow> pair_state" where
  "PairCounter_FromReadResp other r pb = (case pb of (a, b) \<Rightarrow>
     let a' = (case a of None \<Rightarrow> 0 | Some v \<Rightarrow> v); b' = (case b of None \<Rightarrow> fzero | Some v \<Rightarrow> v)
     in case r of StateReadArguments \<Rightarrow> PairCounterState a' b'
        | ReadFirstArguments \<Rightarrow> SingleFirstCounterState a'
        | ReadSecondArguments \<Rightarrow> SingleFirstCounterState (int32_of_float other b')
        | OtherReadArguments \<Rightarrow> NilState)"

section \<open>The two values\<close>

fun first_delta :: "(float64 \<Rightarrow> int) \<Rightarrow> pair_op \<Rightarrow> int" where
  "first_delta other (IncrementFirst d) = d"
| "first_delta other (DecrementFirst d) = - int32_of_float other d"
| "first_delta other (IncrementBoth d e) = d"
| "first_delta other (DecrementBoth d e) = - d"
| "first_delta other _ = 0"

fun second_changes :: "pair_op \<Rightarrow> (bool \<times> float64) list" where
  "second_changes (IncrementSecond d) = [(True, float64_of_int d)]"
| "second_changes (DecrementSecond e) = [(False, e)]"
| "second_changes (IncrementBoth d e) = [(True, e)]"
| "second_changes (DecrementBoth d e) = [(False, e)]"
| "second_changes _ = []"

lemma first_apply:
  "in_int 32 (first c) \<Longrightarrow> first (fst (PairCounter_applyDownstream other c u)) = int32 (first c + first_delta other u)"
  by (cases u) (simp_all add: wrap_simps)

lemma second_apply: "second (fst (PairCounter_applyDownstream other c u)) = foldl fchange (second c) (second_changes u)"
  by (cases u) (simp_all add: fchange_def)

lemma first_run:
  "in_int 32 (first c) \<Longrightarrow> first (run (PairCounter_applyDownstream other) c us)
     = int32 (first c + sum_list (map (first_delta other) us))"
proof (induction us arbitrary: c)
  case (Cons u us)
  have "in_int 32 (first (fst (PairCounter_applyDownstream other c u)))"
    by (simp add: first_apply [OF Cons.prems] swrap_in_int)
  from Cons.IH [OF this] show ?case
    by (simp add: first_apply [OF Cons.prems] wrap_simps algebra_simps)
qed (simp add: swrap_id)

lemma second_run:
  "second (run (PairCounter_applyDownstream other) c us)
     = foldl fchange (second c) (concat (map second_changes us))"
  by (induction us arbitrary: c) (simp_all add: second_apply)

lemma mset_concat_map: "mset us = mset vs \<Longrightarrow> mset (concat (map f us)) = mset (concat (map f vs))"
  by (simp add: mset_concat flip: sum_mset_sum_list)

text \<open>
  Replicas of a pair counter converge on the first value whatever the order of the
  operations, to the 32-bit sum of its changes. They converge on the second value, to the exact
  sum, while its changes are multiples of one power of two within the range where sums of
  doubles are exact.
\<close>

theorem PairCounter_converges:
  assumes "mset us = mset vs" and "in_int 32 (first c)"
  shows "first (run (PairCounter_applyDownstream other) c us) = int32 (first c + sum_list (map (first_delta other) us))
    \<and> first (run (PairCounter_applyDownstream other) c vs) = first (run (PairCounter_applyDownstream other) c us)
    \<and> (second c = Fin a \<and> grid_changes j a (concat (map second_changes us)) \<longrightarrow>
        second (run (PairCounter_applyDownstream other) c us)
          = Fin (a + sum_list (map signed_units (concat (map second_changes us))))
        \<and> run (PairCounter_applyDownstream other) c vs = run (PairCounter_applyDownstream other) c us)"
proof -
  let ?run = "run (PairCounter_applyDownstream other) c" and ?ds = "\<lambda>us. concat (map second_changes us)"
  have f: "first (?run vs) = first (?run us)"
    using first_run [OF assms(2)] sum_list_permuted [OF assms(1), of "first_delta other"] by simp
  moreover have "second (?run us) = Fin (a + sum_list (map signed_units (?ds us))) \<and> ?run vs = ?run us"
    if g: "second c = Fin a" "grid_changes j a (?ds us)"
  proof -
    have m: "mset (?ds us) = mset (?ds vs)" by (rule mset_concat_map) (rule assms(1))
    have us: "second (?run us) = Fin (a + sum_list (map signed_units (?ds us)))"
      using fchanges_exact [OF g(2)] g(1) by (simp add: second_run)
    moreover have "second (?run vs) = Fin (a + sum_list (map signed_units (?ds vs)))"
      using fchanges_exact [OF grid_changes_mset [OF m g(2)]] g(1) by (simp add: second_run)
    ultimately show ?thesis using f sum_list_permuted [OF m, of signed_units] by simp
  qed
  ultimately show ?thesis using first_run [OF assms(2)] by blast
qed

theorem PairCounter_converges_witness:
  "run (PairCounter_applyDownstream (\<lambda>_. 0)) PairCounter_Initialize
      [IncrementBoth 2147483647 (Fin (3 * one_units)), DecrementSecond (Fin one_units), IncrementFirst 1]
    = \<lparr>first = -2147483648, second = Fin (2 * one_units)\<rparr>
   \<and> run (PairCounter_applyDownstream (\<lambda>_. 0)) PairCounter_Initialize
      [DecrementSecond (Fin one_units), IncrementFirst 1, IncrementBoth 2147483647 (Fin (3 * one_units))]
    = \<lparr>first = -2147483648, second = Fin (2 * one_units)\<rparr>"
proof -
  let ?us = "[IncrementBoth 2147483647 (Fin (3 * one_units)), DecrementSecond (Fin one_units), IncrementFirst 1]"
  let ?vs = "[DecrementSecond (Fin one_units), IncrementFirst 1, IncrementBoth 2147483647 (Fin (3 * one_units))]"
  let ?r = "run (PairCounter_applyDownstream (\<lambda>_. 0)) PairCounter_Initialize"
  have "2 ^ 1074 dvd one_units" "4 * one_units \<le> grid_bound 1074"
    unfolding one_units_def grid_bound_def by (rule dvd_refl) (rule mult_right_mono; simp)
  then have g: "grid_changes 1074 0 (concat (map second_changes ?us))"
    by (simp add: grid_changes_def abs_mult abs_of_pos)
  have m: "mset ?us = mset ?vs" by simp
  have w: "int32 2147483648 = -2147483648" by (simp add: swrap_def)
  have i: "in_int 32 (first PairCounter_Initialize)" by (simp add: PairCounter_Initialize_def in_int_def)
  have "first (?r ?us) = -2147483648" "second (?r ?us) = Fin (2 * one_units)" "?r ?vs = ?r ?us"
    using PairCounter_converges [OF m i, of "\<lambda>_. 0" 0 1074] g
    by (simp_all only: PairCounter_Initialize_def select_convs) (simp_all add: w signed_units_def)
  then show ?thesis by (metis PairCounterCrdt.surjective unit.exhaust)
qed

section \<open>Undoing and pending updates\<close>

text \<open>What the single-value operations need to be undone: 32-bit and exact values.\<close>

fun pair_ok :: "PairCounterCrdt \<Rightarrow> pair_op \<Rightarrow> bool" where
  "pair_ok c (IncrementSecond d) \<longleftrightarrow> second c = Fin (units (second c)) \<and> \<bar>d\<bar> \<le> 2 ^ 53
     \<and> representable (units (second c)) \<and> representable (units (second c) + d * one_units)"
| "pair_ok c (DecrementSecond e) \<longleftrightarrow> second c = Fin (units (second c)) \<and> e = Fin (units e)
     \<and> representable (units (second c)) \<and> representable (units (second c) - units e)"
| "pair_ok c (IncrementBoth d e) \<longleftrightarrow> False"
| "pair_ok c (DecrementBoth d e) \<longleftrightarrow> False"
| "pair_ok c _ \<longleftrightarrow> in_int 32 (first c)"

lemma fsub_fadd_exact: "representable a \<Longrightarrow> representable (a + b) \<Longrightarrow> fsub (fadd (Fin a) (Fin b)) (Fin b) = Fin a"
  using fsub_exact [of "a + b" b] by (simp add: representable_def)

lemma fadd_fsub_exact: "representable a \<Longrightarrow> representable (a - b) \<Longrightarrow> fadd (fsub (Fin a) (Fin b)) (Fin b) = Fin a"
  using fsub_exact [of a b] by (simp add: representable_def)

interpretation pair: inversible "PairCounter_applyDownstream other" PairCounter_undoEffect pair_ok
proof
  fix s :: PairCounterCrdt and u
  assume ok: "pair_ok s u"
  show "PairCounter_undoEffect (fst (PairCounter_applyDownstream other s u))
      (snd (PairCounter_applyDownstream other s u)) = Inr s"
  proof (cases u)
    case (IncrementSecond d)
    with ok have "fsub (fadd (second s) (float64_of_int d)) (float64_of_int d) = second s"
      using fsub_fadd_exact [of "units (second s)" "d * one_units"] by (simp add: float64_of_int_exact)
    then show ?thesis by (simp add: IncrementSecond)
  next
    case (DecrementSecond e)
    with ok have "fadd (fsub (second s) e) e = second s"
      using fadd_fsub_exact [of "units (second s)" "units e"] by simp
    then show ?thesis by (simp add: DecrementSecond)
  qed (use ok in \<open>simp_all add: wrap_simps\<close>)
qed

lemma getState_components:
  "foldl (getState_pending other) (a, b) us
     = (foldl (getFirst_pending other) a us, foldl getSecond_pending b us)"
proof (induction us arbitrary: a b)
  case (Cons u us)
  then show ?case by (cases u) simp_all
qed simp

text \<open>
  Versions and pending reads of a pair counter. A history of single-value updates whose
  sums are exact rebuilds to the requested version. The joint operations leave their effect
  nil, so undoing one leaves the state as the operation made it. A read with pending updates
  starts from zero: the stored value does not matter to it.
\<close>

theorem PairCounter_undo_and_pending:
  assumes "deliver_all False (PairCounter_applyDownstream other) ([], PairCounter_Initialize) ds = (h, c)"
    and "run_ok (PairCounter_applyDownstream other) pair_ok PairCounter_Initialize (map snd ds)"
    and "ordered_history target h" and "\<forall>e \<in> set h. length (updsArgs e) = 1" and "us \<noteq> []"
  shows "(\<exists>h'. rebuildCRDTToVersion False PairCounter_undoEffect (PairCounter_reapplyOp other) (\<lambda>t s. Inr s) target h c
        = Inr (h', version_at (PairCounter_applyDownstream other) PairCounter_Initialize target h))
    \<and> (\<forall>d e s. u = IncrementBoth d e \<or> u = DecrementBoth d e \<longrightarrow>
         PairCounter_undoEffect (fst (PairCounter_applyDownstream other s u)) (snd (PairCounter_applyDownstream other s u))
           = Inr (fst (PairCounter_applyDownstream other s u)))
    \<and> PairCounter_getState other c us
        = (PairCounter_getFirst other PairCounter_Initialize us, PairCounter_getSecond PairCounter_Initialize us)"
proof (intro conjI allI impI)
  show "\<exists>h'. rebuildCRDTToVersion False PairCounter_undoEffect (PairCounter_reapplyOp other) (\<lambda>t s. Inr s) target h c
      = Inr (h', version_at (PairCounter_applyDownstream other) PairCounter_Initialize target h)"
    by (rule pair.rebuild_version_single [OF assms(1-4)])
  show "PairCounter_getState other c us
      = (PairCounter_getFirst other PairCounter_Initialize us, PairCounter_getSecond PairCounter_Initialize us)"
    using assms(5) by (simp add: PairCounter_getState_def PairCounter_getFirst_def PairCounter_getSecond_def
        getState_components)
next
  fix d e s
  assume "u = IncrementBoth d e \<or> u = DecrementBoth d e"
  then show "PairCounter_undoEffect (fst (PairCounter_applyDownstream other s u)) (snd (PairCounter_applyDownstream other s u))
      = Inr (fst (PairCounter_applyDownstream other s u))" by auto
qed

theorem PairCounter_undo_and_pending_witness:
  "\<exists>h' h. rebuildCRDTToVersion False PairCounter_undoEffect (PairCounter_reapplyOp (\<lambda>_. 0)) (\<lambda>t s. Inr s) [(1, 4)] h
       \<lparr>first = 7, second = fzero\<rparr> = Inr (h', \<lparr>first = 5, second = fzero\<rparr>)
     \<and> PairCounter_getState (\<lambda>_. 0) \<lparr>first = 7, second = fzero\<rparr> [IncrementFirst 1] = (1, fzero)"
proof -
  let ?ds = "[([(1, 3)], IncrementFirst 5), ([(1, 6)], IncrementFirst 2)]"
  let ?h = "[\<lparr>h_ts = [(1, 3)], updsArgs = [IncrementFirst 5], effects = [Eff (IncrementFirstEffect 5)]\<rparr>,
     \<lparr>h_ts = [(1, 6)], updsArgs = [IncrementFirst 2], effects = [Eff (IncrementFirstEffect 2)]\<rparr>]"
  have w: "int32 5 = 5" "int32 7 = 7" "int32 1 = 1" by (simp_all add: swrap_def)
  have d: "deliver_all False (PairCounter_applyDownstream (\<lambda>_. 0)) ([], PairCounter_Initialize) ?ds
      = (?h, \<lparr>first = 7, second = fzero\<rparr>)"
    by (simp add: downstream_step_def addToHistory_def PairCounter_Initialize_def IsEqual_def vget_def w)
  have o: "ordered_history [(1, 4)] ?h"
    by (auto simp: ordered_history_def increasing_def wf_map_def same_ids_def IsLowerOrEqual_def
        Compare_def vget_def)
  have r: "run_ok (PairCounter_applyDownstream (\<lambda>_. 0)) pair_ok PairCounter_Initialize (map snd ?ds)"
    by (simp add: PairCounter_Initialize_def in_int_def w)
  have l: "\<forall>e \<in> set ?h. length (updsArgs e) = 1" by simp
  from PairCounter_undo_and_pending [OF d r o l, of "[IncrementFirst 1]"]
  show ?thesis
    by (auto simp: version_at_def IsLowerOrEqual_def vget_def PairCounter_Initialize_def w
        PairCounter_getFirst_def PairCounter_getSecond_def)
qed

section \<open>Messages\<close>

lemmas pair_message_defs = updatePairCounterProtoToAntidoteUpdate_def GetIncFirst_def GetIncSecond_def
  downstreamProtoPairCounterToAntidoteDownstream_def GetFirstChange_def GetSecondChange_def

lemma fis_zero_fneg [simp]: "fis_zero (fneg e) \<longleftrightarrow> fis_zero e"
  by (cases e) auto

lemma int32_exact: "in_int 32 d \<Longrightarrow> \<bar>d\<bar> \<le> 2 ^ 53"
  by (auto simp: in_int_def)

text \<open>
  What happens to a pair counter's updates on the way. Positive joint updates and the
  updates of one value survive replication. But a joint increment with a zero first change
  arrives at the other replicas as an \<open>IncrementSecond\<close>, whose 32-bit type drops the fraction
  that the sender added, and so does every client increment of the second value alone; and a
  client's joint decrement arrives at the server as the joint increment by the same amounts.
\<close>

theorem PairCounter_messages:
  assumes "0 < d" and "in_int 32 d" and "0 < n"
  shows "downstreamProtoPairCounterToAntidoteDownstream other (PairCounter_ToReplicatorObj other (IncrementFirst d)) = IncrementFirst d
    \<and> downstreamProtoPairCounterToAntidoteDownstream other (PairCounter_ToReplicatorObj other (IncrementSecond d)) = IncrementSecond d
    \<and> downstreamProtoPairCounterToAntidoteDownstream other (PairCounter_ToReplicatorObj other (DecrementSecond (Fin n))) = DecrementSecond (Fin n)
    \<and> downstreamProtoPairCounterToAntidoteDownstream other (PairCounter_ToReplicatorObj other (IncrementBoth d (Fin n))) = IncrementBoth d (Fin n)
    \<and> downstreamProtoPairCounterToAntidoteDownstream other (PairCounter_ToReplicatorObj other (DecrementBoth d (Fin n))) = DecrementBoth d (Fin n)
    \<and> downstreamProtoPairCounterToAntidoteDownstream other (PairCounter_ToReplicatorObj other (IncrementBoth 0 (Fin n)))
        = IncrementSecond (int32_of_float other (Fin n))
    \<and> updatePairCounterProtoToAntidoteUpdate other \<lparr>IncFirst = None, IncSecond = Some (Fin n)\<rparr>
        = IncrementSecond (int32_of_float other (Fin n))
    \<and> updatePairCounterProtoToAntidoteUpdate other (PairCounter_ToUpdateObject other (DecrementBoth d (Fin n))) = IncrementBoth d (Fin n)
    \<and> PairCounter_FromProtoState (PairCounter_ToProtoState c) = c"
proof -
  have w: "int32 (- d) = - d" using assms(1,2) by (intro swrap_id) (auto simp: in_int_def)
  have s: "float64_of_int d = Fin (d * one_units)" by (rule float64_of_int_exact [OF int32_exact [OF assms(2)]])
  show ?thesis
    using assms w swrap_id [OF assms(2)] int32_of_float_of_int [OF assms(2), of other] s
    by (simp add: pair_message_defs Let_def PairCounter_FromProtoState_def PairCounter_ToProtoState_def
        del: int32_of_float.simps)
qed

theorem PairCounter_messages_witness:
  "downstreamProtoPairCounterToAntidoteDownstream (\<lambda>_. 0)
      (PairCounter_ToReplicatorObj (\<lambda>_. 0) (IncrementBoth 0 (Fin (3 * 2 ^ 1073)))) = IncrementSecond 1
   \<and> updatePairCounterProtoToAntidoteUpdate (\<lambda>_. 0)
      (PairCounter_ToUpdateObject (\<lambda>_. 0) (DecrementBoth 3 (Fin (3 * 2 ^ 1073)))) = IncrementBoth 3 (Fin (3 * 2 ^ 1073))"
proof -
  have "int32_of_float (\<lambda>_. 0) (Fin (3 * 2 ^ 1073)) = 1"
    by (simp add: go_quot_def Let_def one_units_def in_int_def)
  moreover have "in_int 32 3" "0 < (3 :: int) * 2 ^ 1073" by (simp_all add: in_int_def)
  ultimately show ?thesis using PairCounter_messages [of 3 "3 * 2 ^ 1073" "\<lambda>_. 0"] by simp
qed

end
