(* ===== verification/Spec2Isabelle.thy ===== *)
theory Spec2Isabelle
  imports SliceClock PartitionLog RemoteTxns ClientClocks CounterArray MultiArray TopK TopSum TopKRmv MaxMin Flags BoundedCounter ORMap RWEmbMap CounterFloat PairCounter
begin

text \<open>
  \<^bold>\<open>PotionDB: clocks, replicated data types and the transactional server around them.\<close>

  PotionDB is a geo-replicated key-value store of operation-based CRDTs. A server is split into
  partitions, each a goroutine with its objects. A client's request goes to a goroutine of the
  transaction manager (\<^verbatim>\<open>potionDB/components/transactionManager.go\<close>), which chooses the vector
  clock (\<^verbatim>\<open>crdt/clocksi\<close>) of the snapshot to read, groups updates and reads by partition and by
  server, and commits in two phases: every partition proposes a clock, one of the proposals is
  the commit timestamp. A partition of the materializer (\<^verbatim>\<open>potionDB/components/materializer.go\<close>)
  calls \<open>Update\<close> of the CRDT to prepare a downstream operation and \<open>Downstream\<close> to apply it with
  the commit clock, in the order of the clocks, and writes it to its log (\<^verbatim>\<open>logger.go\<close>). The
  replicator (\<^verbatim>\<open>replicator.go\<close>) merges the logs of the partitions, sends transactions to the other
  replicas, and hands what it receives to the transaction manager, which applies a remote
  transaction when the local clock covers what it depends on and puts it on hold otherwise. A
  read that needs an older version asks a version manager (\<^verbatim>\<open>crdt/crdt/inverseOpVM.go\<close>,
  \<^verbatim>\<open>snapshotVM.go\<close>, \<^verbatim>\<open>inversibleCrdt.go\<close>), which rebuilds it from the history of the CRDT.

  \<^bold>\<open>Conventions.\<close> Fixed-width integers are \<open>int\<close> with the two's complement wrap-around written
  out (\<open>swrap\<close>), \<open>float64\<close> is IEEE double precision (\<open>Float64\<close>). A panic is a value of
  \<open>'a go\<close>. Maps that the code ranges over are association lists with distinct keys, whose
  order is one of the orders the runtime may pick; other maps are functions or finite maps. A
  slice that may be nil is an option. State is passed explicitly; where it matters which
  object a stored method value belongs to, the store of objects is explicit
  (\<open>Inversible\<close>, objects and method values). A goroutine is a function from its state and a
  message to its next state and the messages it sends; channels are lists, and what other
  goroutines do between two steps is an argument or a sequence of events. What is outside the
  repository's code is an argument: the wall clock, random sources, the hash function of keys,
  the result of a float conversion that does not fit, the flags of \<^verbatim>\<open>tools.SharedConfig\<close>.

  \<^bold>\<open>Loops and fuel.\<close> Loops over slices and maps are folds or structural recursion. The loops
  without a structural measure either have a termination proof (\<open>redo_from\<close>) or a bound that is
  part of the definition and shown to be enough: releasing commits on hold (\<open>commit_all\<close>,
  \<open>commit_upto\<close>) and answering waiting clients (\<open>notify\<close>) take an entry off a heap in every
  iteration, so the bound is its length; \<open>prepare_loop\<close> of the replicator takes an entry of a
  cache in every iteration; \<open>send_groups\<close> drops at least one transaction, so the bound is one
  more than their number; \<open>pending_loop\<close> of the transaction manager repeats only after it has
  applied a message, so the bound is one more than the messages on hold. Each of these
  theories shows that the loop ends before its bound.

  \<^bold>\<open>Theories, with the code they model and what they show.\<close>

  \<^item> \<open>Prelude\<close>: integers, panics, loops that may panic, Go maps.
  \<^item> \<open>ClockSI\<close> (\<^verbatim>\<open>clocksi.go\<close>): \<open>ClockSiTimestamp\<close> with its comparisons, merges, copies, byte
    encoding and byte keys. The comparison loops agree with \<open>Compare\<close>, which decides the
    pointwise order in any iteration order; \<open>Merge\<close> is the least upper bound; fresh timestamps
    are strictly higher; the total order is inverted on ordered clocks; encoding round trip.
    \<open>SliceClock\<close> (\<^verbatim>\<open>sliceClock.go\<close>): the slice representation refines the map representation.
  \<^item> \<open>GoHeap\<close>: the functions of Go's \<^verbatim>\<open>container/heap\<close> over the methods of a heap; the locale
    \<open>heap_interface\<close> states what \<open>Less\<close>, \<open>Swap\<close>, \<open>Push\<close> and \<open>Pop\<close> owe them. It is interpreted on
    the heaps of the partitions (\<open>prep\<close>, \<open>hold\<close>) and of the waiting clients (\<open>waiting\<close>).
  \<^item> \<open>Inversible\<close> (\<^verbatim>\<open>inversibleCrdt.go\<close>): recording, rebuilding and collecting a history. The
    locales \<open>inversible\<close> and \<open>commuting_undo\<close> state what \<open>applyDownstream\<close> and \<open>undoEffect\<close> of
    a CRDT owe each other, and give that a rebuild returns the version asked for; collection
    keeps every version that may still be asked for. \<open>VersionManager\<close> (\<^verbatim>\<open>versionManager.go\<close>,
    \<^verbatim>\<open>inverseOpVM.go\<close>, \<^verbatim>\<open>snapshotVM.go\<close>): the caches of versions, and which reads of old versions
    are right; interpreted on the counter (\<open>cnt_obj\<close>).
  \<^item> \<open>Convergence\<close>: the locale \<open>causal_ops\<close> (concurrent operations commute) gives strong
    convergence under causal delivery; \<open>observed_remove\<close> gives the meaning of observed-remove
    containers: what survives is what nobody observed and removed.
  \<^item> The CRDTs of \<^verbatim>\<open>crdt/crdt\<close>, with their messages: \<open>Counter\<close>, \<open>Avg\<close>, \<open>MaxMin\<close>, \<open>LWW\<close> (register
    and flag), \<open>UniqueSets\<close> and \<open>Flags\<close> (enable-wins and disable-wins), \<open>BoundedCounter\<close>,
    \<open>SetAW\<close>, \<open>ORMap\<close>, \<open>Float64\<close> with \<open>CounterFloat\<close> and \<open>PairCounter\<close>, \<open>CounterArray\<close>, \<open>TopK\<close>,
    \<open>TopKRmv\<close> and \<open>TopSum\<close> (operations on one element). For each: convergence and the value it
    converges to (highest writer, enable wins, add wins, best \<open>k\<close>), what the
    permissions of the bounded counter keep of its bound, undoing and rebuilding, reads with pending updates, and
    the round trip of its messages.
  \<^item> \<open>MultiArray\<close> (\<^verbatim>\<open>multiArrayCRDT.go\<close>): four arrays with one set of loops, whose effect on one
    position (\<open>acts\<close>) gives convergence; the stamps of registers, which start again every 78
    hours; ranges of registers, averages and floats, which look at the length of the integers.
  \<^item> \<open>RWEmbMap\<close> (\<^verbatim>\<open>rwEmbMapCRDT.go\<close>): maps of CRDTs in which removals win. The embedded CRDTs are
    an argument, the record \<open>emb_crdt\<close>, and the locale \<open>embedded\<close> states what the map needs of
    them; the map owes its users the same, so maps nest (\<open>emb_counters\<close>, \<open>emb_maps\<close>). Maps
    converge; a key is there exactly when an update has seen all its removals; what a
    transaction sees of its own updates and removals of keys.
  \<^item> \<open>PartitionClock\<close>, \<open>Materializer\<close>, \<open>PartitionLog\<close> (\<^verbatim>\<open>materializer.go\<close>): the clocks of a
    partition and the heaps of prepared and committed transactions, every request of a
    partition, and what it writes to its log. A proposed clock is above all the partition has
    seen; all transactions that are prepared and committed are applied, in the order of their
    clocks, and nothing is left on hold; the log is in that order.
  \<^item> \<open>Logger\<close> and \<open>Replicator\<close> (\<^verbatim>\<open>logger.go\<close>, \<^verbatim>\<open>replicator.go\<close>): the log hands over every
    transaction once; merging the logs ends, and what it sends, how it is ordered and how the parts of a
    transaction are put together, depending on the clocks in the logs; the splitting into messages keeps all of them.
  \<^item> \<open>RemoteTxns\<close> (\<^verbatim>\<open>transactionManager.go\<close>): remote transactions, groups and clocks, and the
    queues of messages on hold. In causal order all are applied by the partitions of
    \<open>Materializer\<close>; a message on hold is never applied.
  \<^item> \<open>CommitClock\<close> (\<^verbatim>\<open>transactionManager.go\<close>, \<open>handleCommitReplies\<close> and \<open>ClockHeap\<close>): the clock of
    the replica is the merge of exactly the transactions that all their partitions have
    committed; which waiting clients are not answered, and when the goroutine panics.
  \<^item> \<open>Transactions\<close> (\<^verbatim>\<open>transactionManager.go\<close>): the transactions of clients as the requests they
    make. Updates go to their partitions and are committed there with one timestamp; how it is
    chosen; static reads return the objects in order at the clock of the replica or, for a client
    that is ahead of it, at the clock that \<open>CommitClock\<close> answers.
  \<^item> \<open>ClientClocks\<close> (\<^verbatim>\<open>transactionManager.go\<close>, \<^verbatim>\<open>garbageCollector.go\<close>): the identifiers of clients
    are distinct and never lost, in every run; taking a clock and writing it to \<open>clksInUse\<close> are
    separate steps; which clock the collector cleans up to, and when it panics. Below, the
    collector, the clients and the histories of \<open>Inversible\<close> together: a cleaning keeps every
    version at or above the clocks in \<open>clksInUse\<close>.

  \<^bold>\<open>Interfaces.\<close> Every locale is interpreted on the definitions of the model: \<open>cnt\<close>, \<open>avg\<close>,
  \<open>maxmin\<close>, \<open>lww\<close>, \<open>lwwflag\<close>, \<open>ew\<close>, \<open>cfl\<close>, \<open>pair\<close>, \<open>setaw_undo\<close> for the undo contracts, the names
  with \<open>_ops\<close> for convergence, \<open>setaw\<close> and \<open>ormap\<close> for observed removal, \<open>cnt_obj\<close> for the version
  managers, \<open>emb_counters\<close> and \<open>emb_maps\<close> for embedded CRDTs, \<open>prep\<close>, \<open>hold\<close> and \<open>waiting\<close> for the heaps.

  \<^bold>\<open>Not modelled.\<close> Of the CRDTs, the reads, the undoing and the messages of multi arrays (one copy of
  every read for each combination of four arrays), the reads of embedded maps that compare and
  aggregate values, their undoing and messages, embedded arrays, which are commented out, the
  operations of top-sum on several elements and its undoing, the heap version of top-k, which the server does not create, and the grow-only map, whose operations
  are commented out, together with the dispatch code of \<^verbatim>\<open>crdtProtoLib.go\<close> for them. Of the server,
  snapshots for joining replicas, triggers, the bounded-counter manager, the dispatch of requests
  from other servers, and what is input and output only: the
  connections to RabbitMQ and to other servers, the client protocol, the loading of benchmark
  data and the SQL processor. Generated protobuf code is represented by records of the fields
  that the code sets and reads. Printing and debugging functions are left out.
\<close>

section \<open>Cleaning and reading\<close>

text \<open>
  C32. The collector and the clients together, with clocks over the same replicas: in every run of
  the clients with at most a hundred connections, after which the clocks in \<open>clksInUse\<close> are pairwise
  comparable and below the highest clock, an iteration of the collector does not panic, and asks the partitions to clean up to a
  clock that is not above any of them. So for every object and every version at or above a clock
  in \<open>clksInUse\<close>, which are the versions that the clients that have written their clocks there read,
  also when they had to wait and read at a higher clock, rebuilding the version from the cleaned
  history gives the same state, the same panic and the same remaining history, less the collected
  entries, as from the full history. Nothing is claimed of a client that has copied the clock of
  the replica and not yet written it to \<open>clksInUse\<close>.
\<close>

theorem gc_keeps_ongoing_reads:
  assumes "gfold client_step start_ids events = Inr s" and "count_list events Connect \<le> 100" and "clocks_comparable I highestTs (clksInUse s)"
    and "on_ids I tmClk" and "\<forall>e \<in> set h. on_ids I (h_ts e)"
  shows "\<exists>gc' (reqs :: (nat \<times> ('u, 'r) MatRequestArgs) list). cleanRoutine n highestTs tmClk s gc = Inr (gc', reqs)
    \<and> (\<forall>i safeClk. (i, MatGC safeClk) \<in> set reqs \<longrightarrow> (\<forall>clk ts. Some clk \<in> set (clksInUse s) \<and> on_ids I ts \<and> le_clk clk ts \<longrightarrow>
         rebuildCRDTToVersion dis undo reapply notifyComplete ts (GC_history safeClk h) st =
         gbind (rebuildCRDTToVersion dis undo reapply notifyComplete ts h st) (\<lambda>r. Inr (drop (length h - length (GC_history safeClk h)) (fst r), snd r))))"
proof -
  have r: "rebuildCRDTToVersion dis undo reapply notifyComplete ts (GC_history safeClk h) st =
      gbind (rebuildCRDTToVersion dis undo reapply notifyComplete ts h st) (\<lambda>r. Inr (drop (length h - length (GC_history safeClk h)) (fst r), snd r))"
    if "on_ids I safeClk" "on_ids I ts" "le_clk safeClk ts" for safeClk ts
    using that assms(5) some_above_iff [of safeClk ts] by (intro GC_rebuild) (simp_all add: on_ids_def same_ids_def IsLowerOrEqual_eq)
  obtain gc' and reqs :: "(nat \<times> ('u, 'r) MatRequestArgs) list" where reqs: "cleanRoutine n highestTs tmClk s gc = Inr (gc', reqs)"
    "\<forall>i safeClk. (i, MatGC safeClk) \<in> set reqs \<longrightarrow> (\<forall>clk. Some clk \<in> set (clksInUse s) \<longrightarrow> le_clk safeClk clk) \<and> (Some safeClk \<in> set (clksInUse s) \<or> safeClk = tmClk)"
    using clean_below_readers [OF assms(1-3), of n tmClk gc] by (elim exE conjE) (rule that)
  have "on_ids I safeClk" "le_clk safeClk ts" if "(i, MatGC safeClk) \<in> set reqs" "Some clk \<in> set (clksInUse s)" "le_clk clk ts" for i safeClk clk ts
    using reqs(2) that assms(3,4) le_clk_trans [of safeClk clk ts] by (auto simp: clocks_comparable_def)
  with r reqs(1) show ?thesis by blast
qed

definition one_reader :: "client_event list" where
  "one_reader = [Generate, Connect, TakeClock 0 [(1, 4)] None, PublishClock 0]"

definition three_updates :: "(int, int) History list" where
  "three_updates = [\<lparr>h_ts = [(1, 1)], updsArgs = [10], effects = [10]\<rparr>, \<lparr>h_ts = [(1, 3)], updsArgs = [20], effects = [20]\<rparr>,
     \<lparr>h_ts = [(1, 5)], updsArgs = [30], effects = [30]\<rparr>]"

theorem gc_keeps_ongoing_reads_witness:
  "rebuildCRDTToVersion False (\<lambda>s e. Inr (s - e)) (\<lambda>s u. Inr (s + u, u)) (\<lambda>t s. Inr s) [(1, 4)] (GC_history [(1, 4)] three_updates) (60 :: int)
     = Inr (drop 1 three_updates, 30)"
proof -
  let ?s = "\<lparr>currMaxAvailableID = 1, reusableIDs = [], newIDChan = [], canReuseIDChan = [],
      clksInUse = Some [(1, 4)] # replicate 99 None, maxIDInUse = 1, connected = [0], taking = (\<lambda>_. [])\<rparr>"
  have "replicate 100 None = None # replicate 99 (None :: Timestamp)" by (simp add: numeral_eq_Suc)
  moreover have "fst (getClockToUse [(1, 4)] None (\<lambda>_. None)) = [[(1, 4)]]" by code_simp
  ultimately have run: "gfold client_step start_ids one_reader = Inr ?s" by (simp add: one_reader_def start_ids_def client_simps fun_eq_iff)
  have few: "count_list one_reader Connect \<le> 100" by (simp add: one_reader_def)
  have i: "on_ids {1} [(1, 4)]" "on_ids {1} [(1, 9)]" "\<forall>e \<in> set three_updates. on_ids {1} (h_ts e)" by (auto simp: on_ids_def wf_map_def three_updates_def)
  have l: "IsLower [(1, 4)] (Some [(1, MaxInt64)])" by (simp add: IsLower_def vget_def)
  then have c: "clocks_comparable {1} [(1, MaxInt64)] (clksInUse ?s)" using i by (auto simp: clocks_comparable_def)
  have clean: "cleanRoutine 1 [(1, MaxInt64)] [(1, 9)] ?s \<lparr>lastCleanClk = None, noCleans = 0\<rparr>
      = (Inr (\<lparr>lastCleanClk = Some (Copy_clk [(1, 4)]), noCleans = 0\<rparr>, [(0, MatGC [(1, 4)])]) :: (gc_state \<times> (nat \<times> (counter_op, unit) MatRequestArgs) list) go)"
    by (simp add: cleanRoutine_def oldest_clock_def l IsEqual_def Let_def)
  have "rebuildCRDTToVersion False (\<lambda>s e. Inr (s - e)) (\<lambda>s u. Inr (s + u, u)) (\<lambda>t s. Inr s) [(1, 4)] (GC_history [(1, 4)] three_updates) 60
      = gbind (rebuildCRDTToVersion False (\<lambda>s e. Inr (s - e)) (\<lambda>s u. Inr (s + u, u)) (\<lambda>t s. Inr s) [(1, 4)] three_updates 60)
          (\<lambda>r. Inr (drop (length three_updates - length (GC_history [(1, 4)] three_updates)) (fst r), snd r))"
    using gc_keeps_ongoing_reads [OF run few c i(2,3), where n = 1 and gc = "\<lparr>lastCleanClk = None, noCleans = 0\<rparr>" and 'u = counter_op and 'r = unit] i(1) le_clk_refl [of "[(1, 4)]"] unfolding clean by fastforce
  moreover have "rebuildCRDTToVersion False (\<lambda>s e. Inr (s - e)) (\<lambda>s u. Inr (s + u, u)) (\<lambda>t s. Inr s) [(1, 4)] three_updates 60 = Inr (three_updates, 30)"
    by (simp add: three_updates_def rebuildCRDTToVersion_def redo_from.simps IsLowerOrEqual_def Compare_def vget_def eval_nat_numeral)
  moreover have "length three_updates - length (GC_history [(1, 4)] three_updates) = 1"
    by (simp add: three_updates_def GC_history_drop IsLowerOrEqual_def vget_def eval_nat_numeral)
  ultimately show ?thesis by simp
qed

end
